(* ===== verification/Prelude.thy ===== *)
theory Prelude
  imports Main "HOL-Library.Monad_Syntax" "HOL-Library.Multiset"
begin

text \<open>
  What the components share.

  \<^item> Partial programs. A function of the code that can abort (a failed \<open>assert\<close>, a
    \<open>std::terminate\<close>, a violated contract of a library, an access outside a vector) or that
    may not return has a result of type \<open>'a option\<close>: \<open>None\<close> is "does not return normally".
    \<open>runs m P\<close> is total correctness: \<open>m\<close> returns and its result satisfies \<open>P\<close>.
  \<^item> \<open>vec_at\<close>, \<open>vec_set\<close>: indexing of a \<open>std::vector\<close>, \<open>None\<close> outside its bounds.
  \<^item> \<open>assert_that d b\<close>: the macro \<open>assert\<close>; the flag \<open>d\<close> says whether assertions are
    compiled in (a debug build) or not (\<open>NDEBUG\<close>, the release build of the README).
  \<^item> \<open>swap_remove_from\<close>: the loop of both engines that removes the elements of a vector that
    satisfy a condition by overwriting each with the last one.
  \<^item> \<open>int_to_string\<close>: \<open>std::to_string\<close> and \<open>std::format\<close> of an integer.
\<close>

named_theorems runs_rules \<open>total-correctness rules of the operations\<close>

section \<open>Partial programs\<close>

definition runs :: "'a option \<Rightarrow> ('a \<Rightarrow> bool) \<Rightarrow> bool" where
  "runs m P = (case m of None \<Rightarrow> False | Some x \<Rightarrow> P x)"

lemma runs_Some [simp]: "runs (Some x) P = P x"
  by (simp add: runs_def)

lemma runs_None [simp]: "runs None P = False"
  by (simp add: runs_def)

lemma runs_bind [simp]: "runs (Option.bind m f) P = runs m (\<lambda>x. runs (f x) P)"
  by (cases m) simp_all

lemma runs_mono: "runs m P \<Longrightarrow> (\<And>x. P x \<Longrightarrow> Q x) \<Longrightarrow> runs m Q"
  by (cases m) auto

lemma runs_conj: "runs m P \<Longrightarrow> runs m Q \<Longrightarrow> runs m (\<lambda>x. P x \<and> Q x)"
  by (cases m) auto

lemma runs_bindI:
  assumes "runs m P" and "\<And>x. P x \<Longrightarrow> runs (f x) Q"
  shows "runs (Option.bind m f) Q"
  using assms by (cases m) auto

lemma runs_iff: "runs m P \<longleftrightarrow> (\<exists>x. m = Some x \<and> P x)"
  by (cases m) auto

text \<open>A congruence for evaluation: what a step gets is computed before what is done with it.\<close>

lemma bind_weak: "m = m' \<Longrightarrow> Option.bind m f = Option.bind m' f"
  by simp

lemma runs_SomeD: "runs m P \<Longrightarrow> m = Some x \<Longrightarrow> P x"
  by simp

definition assert_that :: "bool \<Rightarrow> bool \<Rightarrow> unit option" where
  "assert_that d b = (if d \<and> \<not> b then None else Some ())"

lemma assert_that_True [simp]: "assert_that d True = Some ()"
  by (simp add: assert_that_def)

lemma assert_that_release [simp]: "assert_that False b = Some ()"
  by (simp add: assert_that_def)

lemma assert_that_holds: "b \<Longrightarrow> assert_that d b = Some ()"
  by (simp add: assert_that_def)

lemma runs_assert: "b \<Longrightarrow> runs (assert_that d b) (\<lambda>_. True)"
  by (simp add: assert_that_holds)

section \<open>Vectors\<close>

definition vec_at :: "'a list \<Rightarrow> nat \<Rightarrow> 'a option" where
  "vec_at xs i = (if i < length xs then Some (xs ! i) else None)"

definition vec_set :: "'a list \<Rightarrow> nat \<Rightarrow> 'a \<Rightarrow> 'a list option" where
  "vec_set xs i x = (if i < length xs then Some (xs[i := x]) else None)"

lemma vec_at_in [simp]: "i < length xs \<Longrightarrow> vec_at xs i = Some (xs ! i)"
  by (simp add: vec_at_def)

lemma vec_at_out [simp]: "length xs \<le> i \<Longrightarrow> vec_at xs i = None"
  by (simp add: vec_at_def)

lemma vec_set_in [simp]: "i < length xs \<Longrightarrow> vec_set xs i x = Some (xs[i := x])"
  by (simp add: vec_set_def)

text \<open>The removal loop: position \<open>i\<close> is looked at again after the last element moved there.\<close>

function swap_remove_from :: "('a \<Rightarrow> bool) \<Rightarrow> nat \<Rightarrow> 'a list \<Rightarrow> 'a list" where
  "swap_remove_from p i xs =
     (if i < length xs
      then if p (xs ! i)
           then swap_remove_from p i (butlast (xs[i := last xs]))
           else swap_remove_from p (Suc i) xs
      else xs)"
  by pat_completeness auto
termination
  by (relation "measure (\<lambda>(p, i, xs). length xs - i)") auto

declare swap_remove_from.simps [simp del]

lemma mset_swap_last:
  assumes "i < length xs"
  shows "add_mset (xs ! i) (mset (butlast (xs[i := last xs]))) = mset xs"
proof -
  have ne: "xs \<noteq> []" using assms by auto
  have "mset (xs[i := last xs]) = add_mset (last xs) (mset xs - {#xs ! i#})"
    using assms by (simp add: mset_update)
  moreover have "last (xs[i := last xs]) = last xs"
    using assms ne by (cases "i = length xs - 1") (auto simp: last_list_update)
  moreover have "xs[i := last xs] \<noteq> []" using ne by simp
  ultimately have "add_mset (last xs) (mset (butlast (xs[i := last xs]))) =
      add_mset (last xs) (mset xs - {#xs ! i#})"
    by (metis append_butlast_last_id mset_append mset.simps add_mset_add_single union_mset_add_mset_right
        add.right_neutral)
  then have "mset (butlast (xs[i := last xs])) = mset xs - {#xs ! i#}" by simp
  then show ?thesis using assms by simp
qed

lemma mset_swap_remove_from:
  "list_all (\<lambda>x. \<not> p x) (take i xs) \<Longrightarrow>
   mset (swap_remove_from p i xs) = filter_mset (\<lambda>x. \<not> p x) (mset xs)"
proof (induction p i xs rule: swap_remove_from.induct)
  case (1 p i xs)
  show ?case
  proof (cases "i < length xs")
    case False
    then have "list_all (\<lambda>x. \<not> p x) xs" using "1.prems" by simp
    then have "filter_mset (\<lambda>x. \<not> p x) (mset xs) = mset xs"
      by (metis (mono_tags, lifting) filter_True list_all_iff mset_filter)
    with False show ?thesis by (simp add: swap_remove_from.simps [of p i xs])
  next
    case True
    show ?thesis
    proof (cases "p (xs ! i)")
      case False
      have "list_all (\<lambda>x. \<not> p x) (take (Suc i) xs)"
        using "1.prems" False True by (simp add: take_Suc_conv_app_nth)
      from "1.IH"(2) [OF True False this] show ?thesis
        using True False by (simp add: swap_remove_from.simps [of p i xs])
    next
      case p: True
      have "take i (butlast (xs[i := last xs])) = take i xs"
        using True by (simp add: take_butlast)
      then have "list_all (\<lambda>x. \<not> p x) (take i (butlast (xs[i := last xs])))"
        using "1.prems" by simp
      from "1.IH"(1) [OF True p this]
      have "mset (swap_remove_from p i xs) =
          filter_mset (\<lambda>x. \<not> p x) (mset (butlast (xs[i := last xs])))"
        using True p by (simp add: swap_remove_from.simps [of p i xs])
      also have "\<dots> = filter_mset (\<lambda>x. \<not> p x) (add_mset (xs ! i) (mset (butlast (xs[i := last xs]))))"
        using p by simp
      finally show ?thesis using mset_swap_last [OF True] by simp
    qed
  qed
qed

lemma mset_swap_remove [simp]:
  "mset (swap_remove_from p 0 xs) = filter_mset (\<lambda>x. \<not> p x) (mset xs)"
  by (simp add: mset_swap_remove_from)

lemma set_swap_remove [simp]: "set (swap_remove_from p 0 xs) = {x \<in> set xs. \<not> p x}"
proof -
  have "set_mset (mset (swap_remove_from p 0 xs)) = {x \<in> set xs. \<not> p x}"
    by (simp only: mset_swap_remove set_mset_filter set_mset_mset)
  then show ?thesis by (simp only: set_mset_mset)
qed

lemma list_all2_ball:
  "list_all2 (\<lambda>x y. A x = B y) xs ys \<Longrightarrow> (\<forall>x \<in> set xs. A x) = (\<forall>y \<in> set ys. B y)"
  by (induction rule: list_all2_induct) auto

lemma list_all2_bex:
  "list_all2 (\<lambda>x y. A x = B y) xs ys \<Longrightarrow> (\<exists>x \<in> set xs. A x) = (\<exists>y \<in> set ys. B y)"
  by (induction rule: list_all2_induct) auto

lemma subset_add_mset_iff: "x \<notin># A \<Longrightarrow> A \<subseteq># add_mset x B \<longleftrightarrow> A \<subseteq># B"
  by (simp add: insert_noteq_member subset_mset.diff_add subseteq_mset_def)
    (metis count_add_mset count_inI le0)

lemma nth_in_drop: "l \<le> j \<Longrightarrow> j < length xs \<Longrightarrow> xs ! j \<in> set (drop l xs)"
  by (auto simp: in_set_conv_nth intro!: exI [of _ "j - l"])

section \<open>Integers as text\<close>

function nat_to_string :: "nat \<Rightarrow> string" where
  "nat_to_string n =
     (if n < 10 then [char_of (48 + n)] else nat_to_string (n div 10) @ [char_of (48 + n mod 10)])"
  by pat_completeness auto
termination
  by (relation "measure id") auto

declare nat_to_string.simps [simp del]

definition int_to_string :: "int \<Rightarrow> string" where
  "int_to_string i = (if i < 0 then CHR ''-'' # nat_to_string (nat (- i)) else nat_to_string (nat i))"

end
