(* ===== verification/Logic.thy ===== *)
theory Logic
  imports Prelude "HOL-Library.Product_Lexorder"
begin

text \<open>
  \<^verbatim>\<open>src/logic.hpp\<close>: variables, ranges of variables, literals, the variable store, CNF formulas in
  DIMACS form, cubes. The classes with one field are datatypes with one constructor, the others
  are records; \<open>operator<=>\<close> of literals and variables is their \<open>linorder\<close> instance.
  C++ \<open>int\<close> identifiers are mathematical integers here (a store of more than \<open>2 ^ 31 - 1\<close> names
  is out of scope); the assertions of this header are preconditions of its functions and appear
  as hypotheses or as lemmas.

  The second half gives the formulas a meaning (assignments, clauses of a DIMACS stream) and
  proves what each operation does to it.
\<close>

section \<open>Variables, ranges and literals\<close>

datatype variable = Variable (var_id: int)

instantiation variable :: linorder
begin

definition less_eq_variable :: "variable \<Rightarrow> variable \<Rightarrow> bool" where
  "less_eq_variable a b \<longleftrightarrow> var_id a \<le> var_id b"

definition less_variable :: "variable \<Rightarrow> variable \<Rightarrow> bool" where
  "less_variable a b \<longleftrightarrow> var_id a < var_id b"

instance
  by standard (auto simp: less_eq_variable_def less_variable_def intro: variable.expand)

end

record variable_range =
  vr_begin :: int
  vr_end :: int

definition vr_size :: "variable_range \<Rightarrow> int" where
  "vr_size r = vr_end r - vr_begin r"

definition vr_contains :: "variable_range \<Rightarrow> variable \<Rightarrow> bool" where
  "vr_contains r v \<longleftrightarrow> vr_begin r \<le> var_id v \<and> var_id v < vr_end r"

definition vr_nth :: "variable_range \<Rightarrow> int \<Rightarrow> variable" where
  "vr_nth r n = Variable (vr_begin r + n)"

definition vr_offset :: "variable_range \<Rightarrow> variable \<Rightarrow> int" where
  "vr_offset r v = var_id v - vr_begin r"

text \<open>The variables a \<open>for\<close> loop over a range visits, in order.\<close>

definition vr_vars :: "variable_range \<Rightarrow> variable list" where
  "vr_vars r = map Variable [vr_begin r..vr_end r - 1]"

datatype literal = Literal (lit_value: int)

instantiation literal :: linorder
begin

definition less_eq_literal :: "literal \<Rightarrow> literal \<Rightarrow> bool" where
  "less_eq_literal a b \<longleftrightarrow> lit_value a \<le> lit_value b"

definition less_literal :: "literal \<Rightarrow> literal \<Rightarrow> bool" where
  "less_literal a b \<longleftrightarrow> lit_value a < lit_value b"

instance
  by standard (auto simp: less_eq_literal_def less_literal_def intro: literal.expand)

end

definition literal_of :: "variable \<Rightarrow> bool \<Rightarrow> literal" where
  "literal_of v negated = Literal (if negated then var_id v * -1 else var_id v)"

definition separator :: literal where
  "separator = Literal 0"

definition lit_not :: "literal \<Rightarrow> literal" where
  "lit_not l = Literal (- lit_value l)"

definition lit_var :: "literal \<Rightarrow> variable" where
  "lit_var l = Variable \<bar>lit_value l\<bar>"

definition lit_sign :: "literal \<Rightarrow> bool" where
  "lit_sign l \<longleftrightarrow> 0 \<le> lit_value l"

definition substitute :: "literal \<Rightarrow> variable \<Rightarrow> literal" where
  "substitute l v = literal_of v (\<not> lit_sign l)"

type_synonym valuation = "literal list"

section \<open>The variable store\<close>

record variable_store =
  store_names :: "string list"

definition new_store :: variable_store where
  "new_store = \<lparr>store_names = [[]]\<rparr>"

definition get_next_id :: "variable_store \<Rightarrow> int" where
  "get_next_id st = int (length (store_names st))"

definition store_make :: "variable_store \<Rightarrow> string \<Rightarrow> variable \<times> variable_store" where
  "store_make st name =
     (let names = store_names st @ [name]
      in (Variable (int (length names) - 1), st\<lparr>store_names := names\<rparr>))"

fun make_all :: "variable_store \<Rightarrow> (int \<Rightarrow> string) \<Rightarrow> int list \<Rightarrow> variable_store" where
  "make_all st namer [] = st"
| "make_all st namer (i # is) = make_all (snd (store_make st (namer i))) namer is"

definition make_range :: "variable_store \<Rightarrow> int \<Rightarrow> (int \<Rightarrow> string) \<Rightarrow> variable_range \<times> variable_store" where
  "make_range st n namer =
     (let fst_id = get_next_id st;
          st' = make_all st namer [0..n - 1];
          snd_id = get_next_id st'
      in (\<lparr>vr_begin = fst_id, vr_end = snd_id\<rparr>, st'))"

definition get_name :: "variable_store \<Rightarrow> variable \<Rightarrow> string option" where
  "get_name st v =
     (if 0 \<le> var_id v then vec_at (store_names st) (nat (var_id v)) else None)"

section \<open>CNF formulas\<close>

datatype cnf_formula = Cnf (cnf_literals: "literal list")

definition empty_cnf :: cnf_formula where
  "empty_cnf = Cnf []"

definition add_clause :: "cnf_formula \<Rightarrow> literal list \<Rightarrow> cnf_formula" where
  "add_clause f c = Cnf (cnf_literals f @ c @ [separator])"

definition cnf_constant :: "bool \<Rightarrow> cnf_formula" where
  "cnf_constant value = (if value then empty_cnf else add_clause empty_cnf [])"

definition cnf_clause :: "literal list \<Rightarrow> cnf_formula" where
  "cnf_clause c = add_clause empty_cnf c"

definition add_cnf :: "cnf_formula \<Rightarrow> cnf_formula \<Rightarrow> cnf_formula" where
  "add_cnf f g = Cnf (cnf_literals f @ cnf_literals g)"

text \<open>The callbacks given to \<open>map\<close> call \<open>get_var_info\<close>, which can abort.\<close>

fun map_literals :: "(literal \<Rightarrow> literal option) \<Rightarrow> literal list \<Rightarrow> literal list option" where
  "map_literals g [] = Some []"
| "map_literals g (l # ls) = do {
     l' \<leftarrow> (if l = separator then Some separator else g l);
     ls' \<leftarrow> map_literals g ls;
     Some (l' # ls') }"

definition cnf_map :: "cnf_formula \<Rightarrow> (literal \<Rightarrow> literal option) \<Rightarrow> cnf_formula option" where
  "cnf_map f g = map_option Cnf (map_literals g (cnf_literals f))"

definition inplace_transform :: "cnf_formula \<Rightarrow> (literal \<Rightarrow> literal) \<Rightarrow> cnf_formula" where
  "inplace_transform f g = Cnf (map (\<lambda>l. if l \<noteq> separator then g l else l) (cnf_literals f))"

fun activate_literals :: "literal list \<Rightarrow> variable \<Rightarrow> literal list" where
  "activate_literals [] a = []"
| "activate_literals (l # ls) a =
     (if l = separator then [lit_not (literal_of a False)] else []) @ l # activate_literals ls a"

definition activate :: "cnf_formula \<Rightarrow> variable \<Rightarrow> cnf_formula" where
  "activate f a = Cnf (activate_literals (cnf_literals f) a)"

section \<open>Cubes\<close>

definition cube_literal_lt :: "literal \<Rightarrow> literal \<Rightarrow> bool" where
  "cube_literal_lt l1 l2 \<longleftrightarrow>
     var_id (lit_var l1) < var_id (lit_var l2) \<or>
     (var_id (lit_var l1) = var_id (lit_var l2) \<and> \<not> lit_sign l1 \<and> lit_sign l2)"

text \<open>The order as a key: first the variable, then negative before positive.\<close>

definition cube_key :: "literal \<Rightarrow> int \<times> bool" where
  "cube_key l = (var_id (lit_var l), lit_sign l)"

datatype cube = Cube (cube_literals: "literal list")

definition make_cube :: "literal list \<Rightarrow> cube" where
  "make_cube ls = Cube (sort_key cube_key ls)"

text \<open>\<open>std::ranges::includes\<close> on two sorted ranges: one simultaneous pass.\<close>

fun range_includes :: "literal list \<Rightarrow> literal list \<Rightarrow> bool" where
  "range_includes xs [] = True"
| "range_includes [] (y # ys) = False"
| "range_includes (x # xs) (y # ys) =
     (if cube_literal_lt y x then False
      else if cube_literal_lt x y then range_includes xs (y # ys)
      else range_includes xs ys)"

definition subsumes :: "cube \<Rightarrow> cube \<Rightarrow> bool" where
  "subsumes c d = range_includes (cube_literals d) (cube_literals c)"

definition negate :: "cube \<Rightarrow> cnf_formula" where
  "negate c = inplace_transform (add_clause empty_cnf (cube_literals c)) lit_not"

text \<open>\<open>std::ranges::binary_search\<close>: the first position not less than \<open>l\<close> by halving.\<close>

function lower_bound :: "literal list \<Rightarrow> literal \<Rightarrow> nat \<Rightarrow> nat \<Rightarrow> nat" where
  "lower_bound ls l first len =
     (if len = 0 then first
      else let half = len div 2; mid = first + half
           in if cube_literal_lt (ls ! mid) l then lower_bound ls l (mid + 1) (len - half - 1)
              else lower_bound ls l first half)"
  by pat_completeness auto
termination
  by (relation "measure (\<lambda>(ls, l, first, len). len)") auto

declare lower_bound.simps [simp del]

definition cube_contains :: "cube \<Rightarrow> literal \<Rightarrow> bool" where
  "cube_contains c l =
     (let ls = cube_literals c; i = lower_bound ls l 0 (length ls)
      in i < length ls \<and> \<not> cube_literal_lt l (ls ! i))"

definition cube_find :: "cube \<Rightarrow> variable \<Rightarrow> literal option" where
  "cube_find c v =
     (let l = literal_of v False
      in if cube_contains c l then Some l
         else if cube_contains c (lit_not l) then Some (lit_not l)
         else None)"

fun cube_text :: "string \<Rightarrow> literal list \<Rightarrow> string" where
  "cube_text sep [] = []"
| "cube_text sep (l # ls) = sep @ int_to_string (lit_value l) @ cube_text '', '' ls"

definition cube_to_string :: "cube \<Rightarrow> string" where
  "cube_to_string c = cube_text [] (cube_literals c)"

text \<open>The only function of the header whose assertion the engines rely on being checked.\<close>

definition formula_as_cube :: "bool \<Rightarrow> cnf_formula \<Rightarrow> cube option" where
  "formula_as_cube d f = do {
     assert_that d (count_list (cnf_literals f) separator = length (cnf_literals f) div 2);
     Some (make_cube (filter (\<lambda>l. l \<noteq> separator) (cnf_literals f))) }"


section \<open>The meaning of formulas\<close>

type_synonym assignment = "variable \<Rightarrow> bool"

definition lit_true :: "assignment \<Rightarrow> literal \<Rightarrow> bool" where
  "lit_true \<sigma> l = (if lit_sign l then \<sigma> (lit_var l) else \<not> \<sigma> (lit_var l))"

text \<open>The clauses of a DIMACS stream; literals after the last separator belong to none.\<close>

fun clauses_from :: "literal list \<Rightarrow> literal list \<Rightarrow> literal list list" where
  "clauses_from cur [] = []"
| "clauses_from cur (l # ls) =
     (if l = separator then cur # clauses_from [] ls else clauses_from (cur @ [l]) ls)"

definition clauses_of :: "literal list \<Rightarrow> literal list list" where
  "clauses_of ls = clauses_from [] ls"

definition terminated :: "literal list \<Rightarrow> bool" where
  "terminated ls \<longleftrightarrow> ls = [] \<or> last ls = separator"

definition clause_true :: "assignment \<Rightarrow> literal list \<Rightarrow> bool" where
  "clause_true \<sigma> c \<longleftrightarrow> (\<exists>l \<in> set c. lit_true \<sigma> l)"

definition stream_sat :: "assignment \<Rightarrow> literal list \<Rightarrow> bool" where
  "stream_sat \<sigma> ls \<longleftrightarrow> (\<forall>c \<in> set (clauses_of ls). clause_true \<sigma> c)"

definition cnf_sat :: "assignment \<Rightarrow> cnf_formula \<Rightarrow> bool" where
  "cnf_sat \<sigma> f \<longleftrightarrow> stream_sat \<sigma> (cnf_literals f)"

definition cube_true :: "assignment \<Rightarrow> cube \<Rightarrow> bool" where
  "cube_true \<sigma> c \<longleftrightarrow> (\<forall>l \<in> set (cube_literals c). lit_true \<sigma> l)"

definition well_formed_cnf :: "cnf_formula \<Rightarrow> bool" where
  "well_formed_cnf f \<longleftrightarrow> terminated (cnf_literals f)"

definition cube_sorted :: "cube \<Rightarrow> bool" where
  "cube_sorted c \<longleftrightarrow> sorted (map cube_key (cube_literals c))"

section \<open>Literals\<close>

lemma lit_not_not [simp]: "lit_not (lit_not l) = l"
  by (simp add: lit_not_def)

lemma lit_not_inj [simp]: "lit_not a = lit_not b \<longleftrightarrow> a = b"
  by (auto simp: lit_not_def intro: literal.expand)

lemma lit_var_not [simp]: "lit_var (lit_not l) = lit_var l"
  by (simp add: lit_not_def lit_var_def)

lemma lit_not_sep [simp]: "lit_not separator = separator"
  by (simp add: lit_not_def separator_def)

lemma lit_not_eq_sep [simp]: "lit_not l = separator \<longleftrightarrow> l = separator"
  by (auto simp: lit_not_def separator_def intro: literal.expand)

lemma lit_not_neq [simp]: "l \<noteq> separator \<Longrightarrow> lit_not l \<noteq> l"
  by (cases l) (simp add: lit_not_def separator_def)

lemma lit_sign_not [simp]: "l \<noteq> separator \<Longrightarrow> lit_sign (lit_not l) = (\<not> lit_sign l)"
  by (cases l) (auto simp: lit_not_def lit_sign_def separator_def)

lemma lit_true_not [simp]: "l \<noteq> separator \<Longrightarrow> lit_true \<sigma> (lit_not l) = (\<not> lit_true \<sigma> l)"
  by (simp add: lit_true_def)

lemma lit_var_literal_of [simp]: "0 \<le> var_id v \<Longrightarrow> lit_var (literal_of v n) = v"
  by (cases v) (simp add: literal_of_def lit_var_def)

lemma lit_sign_literal_of [simp]: "0 < var_id v \<Longrightarrow> lit_sign (literal_of v n) = (\<not> n)"
  by (simp add: literal_of_def lit_sign_def)

lemma literal_of_sep [simp]: "0 < var_id v \<Longrightarrow> literal_of v n \<noteq> separator"
  by (simp add: literal_of_def separator_def)

lemma lit_true_literal_of [simp]:
  "0 < var_id v \<Longrightarrow> lit_true \<sigma> (literal_of v n) = (\<sigma> v \<noteq> n)"
  by (simp add: lit_true_def)

lemma lit_not_literal_of [simp]: "lit_not (literal_of v n) = literal_of v (\<not> n)"
  by (simp add: lit_not_def literal_of_def)

lemma literal_of_eq [simp]:
  "0 < var_id v \<Longrightarrow> 0 < var_id w \<Longrightarrow> literal_of v m = literal_of w n \<longleftrightarrow> v = w \<and> m = n"
  by (cases v; cases w) (auto simp: literal_of_def)

lemma literal_of_var_sign [simp]: "literal_of (lit_var l) (\<not> lit_sign l) = l"
  by (cases l) (auto simp: literal_of_def lit_var_def lit_sign_def)

lemma literal_eqI: "lit_var a = lit_var b \<Longrightarrow> lit_sign a = lit_sign b \<Longrightarrow> a = b"
  by (cases a; cases b) (auto simp: lit_var_def lit_sign_def abs_if split: if_splits)

lemma lit_var_pos [simp]: "l \<noteq> separator \<Longrightarrow> 0 < var_id (lit_var l)"
  by (cases l) (simp add: lit_var_def separator_def)

lemma lit_var_nonneg [simp]: "0 \<le> var_id (lit_var l)"
  by (simp add: lit_var_def)

lemma lit_true_substitute [simp]:
  "0 < var_id v \<Longrightarrow> lit_true \<sigma> (substitute l v) = (\<sigma> v = lit_sign l)"
  by (simp add: substitute_def)

lemma lit_var_substitute [simp]: "0 \<le> var_id v \<Longrightarrow> lit_var (substitute l v) = v"
  by (simp add: substitute_def)

lemma substitute_sep [simp]: "0 < var_id v \<Longrightarrow> substitute l v \<noteq> separator"
  by (simp add: substitute_def)

lemma lit_true_cong: "\<sigma> (lit_var l) = \<tau> (lit_var l) \<Longrightarrow> lit_true \<sigma> l = lit_true \<tau> l"
  by (simp add: lit_true_def)

lemma opposite_literal: "lit_var a = lit_var b \<Longrightarrow> a \<noteq> b \<Longrightarrow> lit_not a = b"
  by (cases a; cases b) (auto simp: lit_not_def lit_var_def abs_if split: if_splits)

section \<open>Ranges\<close>

lemma set_vr_vars [simp]: "set (vr_vars r) = {v. vr_contains r v}"
proof (rule set_eqI)
  show "v \<in> set (vr_vars r) \<longleftrightarrow> v \<in> {v. vr_contains r v}" for v
    by (cases v) (auto simp: vr_vars_def vr_contains_def)
qed

lemma length_vr_vars [simp]: "length (vr_vars r) = nat (vr_size r)"
  by (simp add: vr_vars_def vr_size_def)

lemma distinct_vr_vars [simp]: "distinct (vr_vars r)"
  by (auto simp: vr_vars_def distinct_map inj_on_def)

lemma vr_vars_nth: "i < nat (vr_size r) \<Longrightarrow> vr_vars r ! i = vr_nth r (int i)"
  by (simp add: vr_vars_def vr_nth_def vr_size_def)

lemma vr_nth_contains: "0 \<le> n \<Longrightarrow> n < vr_size r \<Longrightarrow> vr_contains r (vr_nth r n)"
  by (simp add: vr_nth_def vr_contains_def vr_size_def)

lemma vr_offset_nth [simp]: "vr_offset r (vr_nth r n) = n"
  by (simp add: vr_offset_def vr_nth_def)

lemma vr_nth_offset [simp]: "vr_nth r (vr_offset r v) = v"
  by (cases v) (simp add: vr_offset_def vr_nth_def)

lemma vr_offset_bounds: "vr_contains r v \<Longrightarrow> 0 \<le> vr_offset r v \<and> vr_offset r v < vr_size r"
  by (simp add: vr_offset_def vr_contains_def vr_size_def)


section \<open>Clauses of a stream\<close>

lemma clauses_from_terminated:
  "separator \<notin> set c \<Longrightarrow> clauses_from cur (c @ separator # ls) = (cur @ c) # clauses_from [] ls"
  by (induction c arbitrary: cur) auto

lemma clauses_from_append:
  "terminated f \<Longrightarrow> f \<noteq> [] \<Longrightarrow> clauses_from cur (f @ g) = clauses_from cur f @ clauses_from [] g"
proof (induction f arbitrary: cur)
  case Nil
  then show ?case by simp
next
  case (Cons l f)
  then show ?case
    by (cases "f = []") (auto simp: terminated_def)
qed

lemma clauses_of_append [simp]: "terminated f \<Longrightarrow> clauses_of (f @ g) = clauses_of f @ clauses_of g"
  by (cases "f = []") (simp_all add: clauses_of_def clauses_from_append)

lemma clauses_of_clause [simp]: "separator \<notin> set c \<Longrightarrow> clauses_of (c @ [separator]) = [c]"
  using clauses_from_terminated [of c "[]" "[]"] by (simp add: clauses_of_def)

lemma clauses_of_Nil [simp]: "clauses_of [] = []"
  by (simp add: clauses_of_def)

lemma clauses_of_sep [simp]: "clauses_of [separator] = [[]]"
  using clauses_of_clause [of "[]"] by simp

lemma terminated_Nil [simp]: "terminated []"
  by (simp add: terminated_def)

lemma terminated_snoc [simp]: "terminated (c @ [separator])"
  by (simp add: terminated_def)

lemma terminated_append: "terminated f \<Longrightarrow> terminated g \<Longrightarrow> terminated (f @ g)"
  by (cases "g = []") (auto simp: terminated_def)

lemma stream_sat_append [simp]:
  "terminated f \<Longrightarrow> stream_sat \<sigma> (f @ g) \<longleftrightarrow> stream_sat \<sigma> f \<and> stream_sat \<sigma> g"
  by (auto simp: stream_sat_def)

lemma stream_sat_Nil [simp]: "stream_sat \<sigma> []"
  by (simp add: stream_sat_def)

lemma stream_sat_clause [simp]:
  "separator \<notin> set c \<Longrightarrow> stream_sat \<sigma> (c @ [separator]) \<longleftrightarrow> (\<exists>l \<in> set c. lit_true \<sigma> l)"
  by (simp add: stream_sat_def clause_true_def)

lemma clauses_from_lits:
  "c \<in> set (clauses_from cur ls) \<Longrightarrow> set c \<subseteq> set cur \<union> (set ls - {separator})"
proof (induction ls arbitrary: cur)
  case Nil
  then show ?case by simp
next
  case (Cons l ls)
  show ?case
  proof (cases "l = separator")
    case True
    then have "c = cur \<or> c \<in> set (clauses_from [] ls)" using Cons.prems by simp
    then show ?thesis using Cons.IH [of "[]"] by auto
  next
    case False
    then show ?thesis using Cons.prems Cons.IH [of "cur @ [l]"] by auto
  qed
qed

lemma clauses_of_lits: "c \<in> set (clauses_of ls) \<Longrightarrow> l \<in> set c \<Longrightarrow> l \<in> set ls \<and> l \<noteq> separator"
  using clauses_from_lits [of c "[]" ls] by (auto simp: clauses_of_def)

text \<open>Only the variables that occur matter.\<close>

lemma stream_sat_cong:
  assumes "\<And>l. l \<in> set ls \<Longrightarrow> l \<noteq> separator \<Longrightarrow> \<sigma> (lit_var l) = \<tau> (lit_var l)"
  shows "stream_sat \<sigma> ls = stream_sat \<tau> ls"
proof -
  have "clause_true \<sigma> c = clause_true \<tau> c" if "c \<in> set (clauses_of ls)" for c
    unfolding clause_true_def
    using clauses_of_lits [OF that] assms by (auto simp: lit_true_def)
  then show ?thesis by (simp add: stream_sat_def)
qed

section \<open>The operations on formulas\<close>

lemma well_formed_empty [simp]: "well_formed_cnf empty_cnf"
  by (simp add: well_formed_cnf_def empty_cnf_def)

lemma well_formed_add_clause [simp]: "well_formed_cnf (add_clause f c)"
  by (simp add: well_formed_cnf_def add_clause_def terminated_def)

lemma well_formed_add_cnf [simp]:
  "well_formed_cnf f \<Longrightarrow> well_formed_cnf g \<Longrightarrow> well_formed_cnf (add_cnf f g)"
  by (simp add: well_formed_cnf_def add_cnf_def terminated_append)

lemma cnf_sat_empty [simp]: "cnf_sat \<sigma> empty_cnf"
  by (simp add: cnf_sat_def empty_cnf_def)

lemma cnf_sat_add_clause [simp]:
  "well_formed_cnf f \<Longrightarrow> separator \<notin> set c \<Longrightarrow>
   cnf_sat \<sigma> (add_clause f c) \<longleftrightarrow> cnf_sat \<sigma> f \<and> (\<exists>l \<in> set c. lit_true \<sigma> l)"
  by (simp add: cnf_sat_def add_clause_def well_formed_cnf_def)

lemma cnf_sat_add_cnf [simp]:
  "well_formed_cnf f \<Longrightarrow> cnf_sat \<sigma> (add_cnf f g) \<longleftrightarrow> cnf_sat \<sigma> f \<and> cnf_sat \<sigma> g"
  by (simp add: cnf_sat_def add_cnf_def well_formed_cnf_def)

lemma cnf_sat_constant [simp]: "cnf_sat \<sigma> (cnf_constant b) \<longleftrightarrow> b"
  by (simp add: cnf_constant_def)

lemma well_formed_constant [simp]: "well_formed_cnf (cnf_constant b)"
  by (simp add: cnf_constant_def)

text \<open>Activation: every clause gets the disabled activator as one more literal.\<close>

lemma clauses_from_activate:
  "a \<noteq> separator \<Longrightarrow> a = lit_not (literal_of v False) \<Longrightarrow>
   clauses_from cur (activate_literals ls v) = map (\<lambda>c. c @ [a]) (clauses_from cur ls)"
  by (induction ls arbitrary: cur) auto

lemma clauses_activate:
  "0 < var_id v \<Longrightarrow>
   clauses_of (cnf_literals (activate f v)) =
     map (\<lambda>c. c @ [lit_not (literal_of v False)]) (clauses_of (cnf_literals f))"
  by (simp add: activate_def clauses_of_def clauses_from_activate del: lit_not_literal_of)

lemma cnf_sat_activate [simp]:
  "0 < var_id v \<Longrightarrow> cnf_sat \<sigma> (activate f v) \<longleftrightarrow> (\<sigma> v \<longrightarrow> cnf_sat \<sigma> f)"
  by (auto simp: cnf_sat_def stream_sat_def clauses_activate clause_true_def)

lemma activate_literals_last: "ls \<noteq> [] \<Longrightarrow> last (activate_literals ls v) = last ls"
proof (induction ls)
  case Nil
  then show ?case by simp
next
  case (Cons l ls)
  then show ?case by (cases ls) auto
qed

lemma activate_literals_Nil [simp]: "activate_literals ls v = [] \<longleftrightarrow> ls = []"
  by (cases ls) auto

lemma well_formed_activate [simp]: "well_formed_cnf f \<Longrightarrow> well_formed_cnf (activate f v)"
  by (cases "cnf_literals f = []")
    (simp_all add: well_formed_cnf_def activate_def terminated_def activate_literals_last)

text \<open>Negation of a cube.\<close>

lemma inplace_not_clause:
  "separator \<notin> set ls \<Longrightarrow>
   cnf_literals (inplace_transform (add_clause empty_cnf ls) lit_not) = map lit_not ls @ [separator]"
  by (auto simp: inplace_transform_def add_clause_def empty_cnf_def)

lemma sep_map_not [simp]: "separator \<in> set (map lit_not ls) \<longleftrightarrow> separator \<in> set ls"
  by (induction ls) (auto dest: sym)

lemma cnf_sat_negate:
  assumes "separator \<notin> set (cube_literals c)"
  shows "cnf_sat \<sigma> (negate c) \<longleftrightarrow> \<not> cube_true \<sigma> c"
proof -
  have "cnf_sat \<sigma> (negate c) \<longleftrightarrow> (\<exists>l \<in> set (map lit_not (cube_literals c)). lit_true \<sigma> l)"
    using assms by (simp add: cnf_sat_def negate_def inplace_not_clause del: set_map)
  also have "\<dots> \<longleftrightarrow> (\<exists>l \<in> set (cube_literals c). \<not> lit_true \<sigma> l)"
    using assms by (metis (no_types, lifting) imageE imageI image_set lit_true_not)
  finally show ?thesis by (auto simp: cube_true_def)
qed

lemma well_formed_negate [simp]: "separator \<notin> set (cube_literals c) \<Longrightarrow> well_formed_cnf (negate c)"
  by (simp add: negate_def well_formed_cnf_def inplace_not_clause)

text \<open>Renaming: the image is true where the original is, under a matching assignment.\<close>

lemma map_literals_clauses:
  assumes "map_literals g ls = Some ls'"
    and "\<And>l l'. l \<in> set ls \<Longrightarrow> l \<noteq> separator \<Longrightarrow> g l = Some l' \<Longrightarrow>
          l' \<noteq> separator \<and> lit_true \<sigma> l' = lit_true \<tau> l"
    and "list_all2 (\<lambda>l' l. lit_true \<sigma> l' = lit_true \<tau> l) cur' cur"
  shows "list_all2 (\<lambda>c' c. clause_true \<sigma> c' = clause_true \<tau> c) (clauses_from cur' ls') (clauses_from cur ls)"
  using assms
proof (induction ls arbitrary: ls' cur cur')
  case Nil
  then show ?case by simp
next
  case (Cons l ls)
  from Cons.prems(1) obtain l' k where
    l': "(if l = separator then Some separator else g l) = Some l'" and
    k: "map_literals g ls = Some k" and ls': "ls' = l' # k"
    by (auto simp: bind_eq_Some_conv)
  show ?case
  proof (cases "l = separator")
    case True
    have "clause_true \<sigma> cur' = clause_true \<tau> cur"
      using list_all2_bex [OF Cons.prems(3)] by (simp add: clause_true_def)
    moreover have "list_all2 (\<lambda>c' c. clause_true \<sigma> c' = clause_true \<tau> c)
        (clauses_from [] k) (clauses_from [] ls)"
      by (rule Cons.IH [OF k]) (use Cons.prems(2) in auto)
    ultimately show ?thesis using True l' ls' by simp
  next
    case False
    then have "g l = Some l'" using l' by simp
    with False have *: "l' \<noteq> separator \<and> lit_true \<sigma> l' = lit_true \<tau> l"
      by (intro Cons.prems(2)) simp_all
    have "list_all2 (\<lambda>c' c. clause_true \<sigma> c' = clause_true \<tau> c)
        (clauses_from (cur' @ [l']) k) (clauses_from (cur @ [l]) ls)"
    proof (rule Cons.IH [OF k])
      show "list_all2 (\<lambda>l' l. lit_true \<sigma> l' = lit_true \<tau> l) (cur' @ [l']) (cur @ [l])"
        using Cons.prems(3) * by (simp add: list_all2_appendI)
    qed (use Cons.prems(2) in auto)
    then show ?thesis using False ls' * by simp
  qed
qed

lemma cnf_sat_map:
  assumes "cnf_map f g = Some f'"
    and "\<And>l l'. l \<in> set (cnf_literals f) \<Longrightarrow> l \<noteq> separator \<Longrightarrow> g l = Some l' \<Longrightarrow>
          l' \<noteq> separator \<and> lit_true \<sigma> l' = lit_true \<tau> l"
  shows "cnf_sat \<sigma> f' = cnf_sat \<tau> f"
proof -
  from assms(1) have "map_literals g (cnf_literals f) = Some (cnf_literals f')"
    by (auto simp: cnf_map_def)
  then have "list_all2 (\<lambda>c' c. clause_true \<sigma> c' = clause_true \<tau> c)
      (clauses_of (cnf_literals f')) (clauses_of (cnf_literals f))"
    unfolding clauses_of_def by (rule map_literals_clauses) (use assms(2) in auto)
  from list_all2_ball [OF this] show ?thesis by (simp add: cnf_sat_def stream_sat_def)
qed

lemma map_literals_defined:
  "(\<And>l. l \<in> set ls \<Longrightarrow> l \<noteq> separator \<Longrightarrow> g l \<noteq> None) \<Longrightarrow> \<exists>ls'. map_literals g ls = Some ls'"
proof (induction ls)
  case Nil
  then show ?case by simp
next
  case (Cons l ls)
  then obtain ls' where "map_literals g ls = Some ls'" by auto
  moreover have "\<exists>l'. (if l = separator then Some separator else g l) = Some l'"
    using Cons.prems [of l] by auto
  ultimately show ?case by auto
qed

lemma map_literals_Some:
  assumes "map_literals g ls = Some ls'"
  shows "length ls' = length ls \<and>
    (\<forall>i < length ls. if ls ! i = separator then ls' ! i = separator else g (ls ! i) = Some (ls' ! i))"
  using assms
proof (induction ls arbitrary: ls')
  case Nil
  then show ?case by simp
next
  case (Cons l ls)
  then show ?case
    by (auto simp: bind_eq_Some_conv nth_Cons split: if_splits nat.splits)
qed

lemma well_formed_map: "cnf_map f g = Some f' \<Longrightarrow> well_formed_cnf f \<Longrightarrow> well_formed_cnf f'"
proof -
  assume map: "cnf_map f g = Some f'" and wf: "well_formed_cnf f"
  from map have m: "map_literals g (cnf_literals f) = Some (cnf_literals f')"
    by (auto simp: cnf_map_def)
  note * = map_literals_Some [OF m]
  show ?thesis
  proof (cases "cnf_literals f = []")
    case True
    with m show ?thesis by (simp add: well_formed_cnf_def)
  next
    case False
    then have "last (cnf_literals f) = separator" using wf by (simp add: well_formed_cnf_def terminated_def)
    then have "last (cnf_literals f') = separator"
      using False * by (metis (no_types, lifting) diff_less last_conv_nth length_0_conv length_greater_0_conv zero_less_one)
    then show ?thesis by (simp add: well_formed_cnf_def terminated_def)
  qed
qed


section \<open>Cubes\<close>

lemma cube_literal_lt_key: "cube_literal_lt a b \<longleftrightarrow> cube_key a < cube_key b"
  by (auto simp: cube_literal_lt_def cube_key_def)

lemma cube_key_inj [simp]: "cube_key a = cube_key b \<longleftrightarrow> a = b"
  by (auto simp: cube_key_def intro: literal_eqI variable.expand)

lemma cube_sorted_make [simp]: "cube_sorted (make_cube ls)"
  by (simp add: cube_sorted_def make_cube_def)

lemma set_make_cube [simp]: "set (cube_literals (make_cube ls)) = set ls"
  by (simp add: make_cube_def)

lemma mset_make_cube [simp]: "mset (cube_literals (make_cube ls)) = mset ls"
  by (simp add: make_cube_def)

lemma cube_true_make [simp]: "cube_true \<sigma> (make_cube ls) \<longleftrightarrow> (\<forall>l \<in> set ls. lit_true \<sigma> l)"
  by (simp add: cube_true_def)

lemma range_includes_mset:
  "sorted (map cube_key xs) \<Longrightarrow> sorted (map cube_key ys) \<Longrightarrow>
   range_includes xs ys \<longleftrightarrow> mset ys \<subseteq># mset xs"
proof (induction xs ys rule: range_includes.induct)
  case (1 xs)
  then show ?case by simp
next
  case (2 y ys)
  then show ?case by simp
next
  case (3 x xs y ys)
  consider "cube_key y < cube_key x" | "cube_key x < cube_key y" | "x = y"
    by (metis cube_key_inj linorder_less_linear)
  then show ?case
  proof cases
    case 1
    then have "y \<notin> set (x # xs)" using "3.prems"(1) by auto
    then have "\<not> mset (y # ys) \<subseteq># mset (x # xs)"
      by (metis list.set_intros(1) mset_subset_eqD set_mset_mset)
    with 1 show ?thesis by (simp add: cube_literal_lt_key)
  next
    case 2
    then have n: "\<not> cube_key y < cube_key x" by simp
    have "x \<notin> set (y # ys)" using "3.prems"(2) 2 by auto
    then have "mset (y # ys) \<subseteq># mset (x # xs) \<longleftrightarrow> mset (y # ys) \<subseteq># mset xs"
      using subset_add_mset_iff [of x "mset (y # ys)" "mset xs"] by simp
    moreover have "range_includes xs (y # ys) \<longleftrightarrow> mset (y # ys) \<subseteq># mset xs"
      using 3 2 n by (simp add: cube_literal_lt_key)
    ultimately show ?thesis using 2 n by (simp add: cube_literal_lt_key)
  next
    case 3
    then show ?thesis using "3.IH"(2) "3.prems" by (simp add: cube_literal_lt_key)
  qed
qed

text \<open>On a cube without repeated literals, subsumption is inclusion of the literals.\<close>

lemma subsumes_mset:
  "cube_sorted c \<Longrightarrow> cube_sorted d \<Longrightarrow>
   subsumes c d \<longleftrightarrow> mset (cube_literals c) \<subseteq># mset (cube_literals d)"
  by (simp add: subsumes_def range_includes_mset cube_sorted_def)

lemma subsumes_subset:
  "cube_sorted c \<Longrightarrow> cube_sorted d \<Longrightarrow> subsumes c d \<Longrightarrow>
   set (cube_literals c) \<subseteq> set (cube_literals d)"
  by (metis set_mset_mono set_mset_mset subsumes_mset)

lemma subsumes_entails:
  "cube_sorted c \<Longrightarrow> cube_sorted d \<Longrightarrow> subsumes c d \<Longrightarrow> cube_true \<sigma> d \<Longrightarrow> cube_true \<sigma> c"
  using subsumes_subset by (auto simp: cube_true_def)

text \<open>Binary search finds exactly the members of a sorted cube.\<close>

lemma lower_bound_spec:
  assumes "sorted (map cube_key ls)" and "first + len \<le> length ls"
    and "\<forall>i < first. cube_key (ls ! i) < cube_key l"
    and "\<forall>i. first + len \<le> i \<and> i < length ls \<longrightarrow> \<not> cube_key (ls ! i) < cube_key l"
  shows "let i = lower_bound ls l first len
         in i \<le> length ls \<and> (\<forall>j < i. cube_key (ls ! j) < cube_key l) \<and>
            (\<forall>j. i \<le> j \<and> j < length ls \<longrightarrow> \<not> cube_key (ls ! j) < cube_key l)"
  using assms
proof (induction ls l first len rule: lower_bound.induct)
  case (1 ls l first len)
  have mono: "cube_key (ls ! i) \<le> cube_key (ls ! j)" if "i \<le> j" "j < length ls" for i j
    using sorted_nth_mono [OF "1.prems"(1), of i j] that by simp
  show ?case
  proof (cases "len = 0")
    case True
    then have "lower_bound ls l first len = first" by (subst lower_bound.simps) simp
    then show ?thesis using True "1.prems" by (simp add: Let_def)
  next
    case False
    define half where "half = len div 2"
    have h: "half < len" using False by (simp add: half_def)
    show ?thesis
    proof (cases "cube_key (ls ! (first + half)) < cube_key l")
      case True
      have "cube_key (ls ! i) < cube_key l" if "i < first + half + 1" for i
        using mono [of i "first + half"] that True h "1.prems"(2) by (simp add: le_less_trans)
      then show ?thesis
        using "1.IH"(1) [OF False half_def refl] True False h "1.prems"
        by (simp add: lower_bound.simps [of ls l first len] half_def [symmetric] cube_literal_lt_key Let_def)
    next
      case ge: False
      have "\<not> cube_key (ls ! i) < cube_key l" if "first + half \<le> i" "i < length ls" for i
        using mono [of "first + half" i] that ge by (simp add: not_less)
      then show ?thesis
        using "1.IH"(2) [OF False half_def refl] ge False h "1.prems"
        by (simp add: lower_bound.simps [of ls l first len] half_def [symmetric] cube_literal_lt_key Let_def)
    qed
  qed
qed

lemma cube_contains_iff:
  assumes "cube_sorted c"
  shows "cube_contains c l \<longleftrightarrow> l \<in> set (cube_literals c)"
proof -
  define ls where "ls = cube_literals c"
  define i where "i = lower_bound ls l 0 (length ls)"
  have "sorted (map cube_key ls)" using assms by (simp add: cube_sorted_def ls_def)
  have spec: "i \<le> length ls \<and> (\<forall>j < i. cube_key (ls ! j) < cube_key l) \<and>
      (\<forall>j. i \<le> j \<and> j < length ls \<longrightarrow> \<not> cube_key (ls ! j) < cube_key l)"
    unfolding i_def by (rule lower_bound_spec [of ls 0 "length ls" l, unfolded Let_def])
      (use \<open>sorted (map cube_key ls)\<close> in auto)
  then have i: "i \<le> length ls" "\<forall>j < i. cube_key (ls ! j) < cube_key l"
    "\<forall>j. i \<le> j \<and> j < length ls \<longrightarrow> \<not> cube_key (ls ! j) < cube_key l"
    by blast+
  have "cube_contains c l \<longleftrightarrow> i < length ls \<and> \<not> cube_key l < cube_key (ls ! i)"
    by (simp add: cube_contains_def Let_def ls_def [symmetric] i_def [symmetric] cube_literal_lt_key)
  also have "\<dots> \<longleftrightarrow> l \<in> set ls"
  proof (rule iffI, elim conjE)
    assume len: "i < length ls" and le: "\<not> cube_key l < cube_key (ls ! i)"
    have "\<not> cube_key (ls ! i) < cube_key l" using i(3) len by blast
    with le have "cube_key (ls ! i) = cube_key l"
      by (metis less_linear)
    then have "ls ! i = l" by simp
    then show "l \<in> set ls" using len nth_mem by blast
  next
    assume "l \<in> set ls"
    then obtain j where j: "j < length ls" "ls ! j = l" by (auto simp: in_set_conv_nth)
    then have ij: "i \<le> j" using i(2) by (metis less_irrefl not_le)
    then have "cube_key (ls ! i) \<le> cube_key (ls ! j)"
      using sorted_nth_mono [OF \<open>sorted (map cube_key ls)\<close>, of i j] j by simp
    then show "i < length ls \<and> \<not> cube_key l < cube_key (ls ! i)" using ij j by auto
  qed
  finally show ?thesis by (simp add: ls_def)
qed

lemma cube_find_Some:
  assumes "cube_sorted c" and "0 < var_id v" and "cube_find c v = Some l"
  shows "l \<in> set (cube_literals c) \<and> lit_var l = v"
  using assms by (auto simp: cube_find_def Let_def cube_contains_iff split: if_splits)

lemma cube_find_None:
  assumes "cube_sorted c" and "cube_find c v = None" and "l \<in> set (cube_literals c)"
  shows "lit_var l \<noteq> v"
proof
  assume "lit_var l = v"
  then have "literal_of v (\<not> lit_sign l) = l" by auto
  then show False
    using assms by (cases "lit_sign l") (auto simp: cube_find_def Let_def cube_contains_iff split: if_splits)
qed

section \<open>Unit formulas as cubes\<close>

text \<open>A conjunction of literals as the builder makes it: every clause has one literal.\<close>

fun unit_stream :: "literal list \<Rightarrow> bool" where
  "unit_stream [] = True"
| "unit_stream [l] = False"
| "unit_stream (l # s # ls) = (l \<noteq> separator \<and> s = separator \<and> unit_stream ls)"

lemma unit_stream_clauses:
  "unit_stream ls \<Longrightarrow> clauses_of ls = map (\<lambda>l. [l]) (filter (\<lambda>l. l \<noteq> separator) ls)"
  by (induction ls rule: unit_stream.induct) (auto simp: clauses_of_def)

lemma unit_stream_count:
  "unit_stream ls \<Longrightarrow> count_list ls separator = length ls div 2"
  by (induction ls rule: unit_stream.induct) auto

lemma unit_stream_terminated: "unit_stream ls \<Longrightarrow> terminated ls"
  by (induction ls rule: unit_stream.induct) (auto simp: terminated_def)

lemma formula_as_cube_unit:
  assumes "unit_stream (cnf_literals f)"
  shows "formula_as_cube d f = Some (make_cube (filter (\<lambda>l. l \<noteq> separator) (cnf_literals f)))"
  using unit_stream_count [OF assms] by (simp add: formula_as_cube_def)

lemma formula_as_cube_sat:
  assumes "unit_stream (cnf_literals f)" and "formula_as_cube d f = Some c"
  shows "cnf_sat \<sigma> f \<longleftrightarrow> cube_true \<sigma> c"
  using assms
  by (auto simp: formula_as_cube_unit cnf_sat_def stream_sat_def unit_stream_clauses clause_true_def)

section \<open>Properties\<close>

text \<open>\<open>cube::subsumes\<close> decides the inclusion of the literals, repetitions included.\<close>

lemma subsumes_correct:
  "subsumes (make_cube c) (make_cube d) \<longleftrightarrow> mset c \<subseteq># mset d"
  by (simp add: subsumes_mset)

text \<open>\<open>cube::contains\<close>, a binary search, finds exactly the literals the cube was made of.\<close>

lemma contains_correct:
  "cube_contains (make_cube ls) l \<longleftrightarrow> l \<in> set ls"
  by (simp add: cube_contains_iff)

end
