(* ===== verification/TransitionSystem.thy ===== *)
theory TransitionSystem
  imports Logic
begin

text \<open>
  \<^verbatim>\<open>src/transition_system.hpp\<close>: the symbolic transition system the engines work on, with
  \<open>get_var_info\<close>, \<open>prime\<close> and \<open>unprime\<close>. \<open>std::terminate\<close> and a failed assertion are \<open>None\<close>;
  the first argument of \<open>prime\<close> and \<open>unprime\<close> says whether assertions are compiled in.

  The rest is what such a system means: a state is the list of the values of its state
  variables, and the three formulas denote the initial states, the transitions under an input
  and the error states under an input, the auxiliary variables being quantified away. On that
  rest paths, reachability and safety, which the engines decide.
\<close>

section \<open>The class\<close>

datatype var_type = Input_var | State_var | Next_state_var | Auxiliary_var

record transition_system =
  input_vars :: variable_range
  state_vars :: variable_range
  next_state_vars :: variable_range
  aux_vars :: variable_range
  ts_init :: cnf_formula
  ts_trans :: cnf_formula
  ts_error :: cnf_formula

definition get_var_info :: "transition_system \<Rightarrow> variable \<Rightarrow> (var_type \<times> int) option" where
  "get_var_info sys v =
     (if vr_contains (input_vars sys) v then Some (Input_var, vr_offset (input_vars sys) v)
      else if vr_contains (state_vars sys) v then Some (State_var, vr_offset (state_vars sys) v)
      else if vr_contains (next_state_vars sys) v
        then Some (Next_state_var, vr_offset (next_state_vars sys) v)
      else if vr_contains (aux_vars sys) v then Some (Auxiliary_var, vr_offset (aux_vars sys) v)
      else None)"

definition prime :: "bool \<Rightarrow> transition_system \<Rightarrow> literal \<Rightarrow> literal option" where
  "prime d sys l = do {
     (ty, pos) \<leftarrow> get_var_info sys (lit_var l);
     assert_that d (ty = State_var);
     Some (substitute l (vr_nth (next_state_vars sys) pos)) }"

definition unprime :: "bool \<Rightarrow> transition_system \<Rightarrow> literal \<Rightarrow> literal option" where
  "unprime d sys l = do {
     (ty, pos) \<leftarrow> get_var_info sys (lit_var l);
     assert_that d (ty = Next_state_var);
     Some (substitute l (vr_nth (state_vars sys) pos)) }"

section \<open>Well-formed systems\<close>

definition range_ok :: "variable_range \<Rightarrow> bool" where
  "range_ok r \<longleftrightarrow> 0 < vr_begin r \<and> vr_begin r \<le> vr_end r"

definition ranges_apart :: "variable_range \<Rightarrow> variable_range \<Rightarrow> bool" where
  "ranges_apart r q \<longleftrightarrow> vr_end r \<le> vr_begin q \<or> vr_end q \<le> vr_begin r"

definition formula_over :: "variable_range list \<Rightarrow> cnf_formula \<Rightarrow> bool" where
  "formula_over rs f \<longleftrightarrow>
     well_formed_cnf f \<and>
     (\<forall>l \<in> set (cnf_literals f). l \<noteq> separator \<longrightarrow> (\<exists>r \<in> set rs. vr_contains r (lit_var l)))"

definition well_formed_system :: "transition_system \<Rightarrow> bool" where
  "well_formed_system sys \<longleftrightarrow>
     range_ok (input_vars sys) \<and> range_ok (state_vars sys) \<and>
     range_ok (next_state_vars sys) \<and> range_ok (aux_vars sys) \<and>
     ranges_apart (input_vars sys) (state_vars sys) \<and>
     ranges_apart (input_vars sys) (next_state_vars sys) \<and>
     ranges_apart (input_vars sys) (aux_vars sys) \<and>
     ranges_apart (state_vars sys) (next_state_vars sys) \<and>
     ranges_apart (state_vars sys) (aux_vars sys) \<and>
     ranges_apart (next_state_vars sys) (aux_vars sys) \<and>
     vr_size (state_vars sys) = vr_size (next_state_vars sys) \<and>
     formula_over [state_vars sys] (ts_init sys) \<and>
     formula_over [input_vars sys, state_vars sys, next_state_vars sys, aux_vars sys] (ts_trans sys) \<and>
     formula_over [input_vars sys, state_vars sys, aux_vars sys] (ts_error sys)"

text \<open>The form of the initial formula the builder makes: one literal per clause, no variable twice.\<close>

definition init_is_cube :: "transition_system \<Rightarrow> bool" where
  "init_is_cube sys \<longleftrightarrow>
     unit_stream (cnf_literals (ts_init sys)) \<and>
     distinct (map lit_var (filter (\<lambda>l. l \<noteq> separator) (cnf_literals (ts_init sys))))"

section \<open>States and transitions\<close>

type_synonym state = "bool list"
type_synonym input = "bool list"

definition read :: "variable_range \<Rightarrow> assignment \<Rightarrow> bool list" where
  "read r \<sigma> = map \<sigma> (vr_vars r)"

definition init_state :: "transition_system \<Rightarrow> state \<Rightarrow> bool" where
  "init_state sys s \<longleftrightarrow> (\<exists>\<sigma>. cnf_sat \<sigma> (ts_init sys) \<and> read (state_vars sys) \<sigma> = s)"

definition trans_step :: "transition_system \<Rightarrow> state \<Rightarrow> input \<Rightarrow> state \<Rightarrow> bool" where
  "trans_step sys s i t \<longleftrightarrow>
     (\<exists>\<sigma>. cnf_sat \<sigma> (ts_trans sys) \<and> read (state_vars sys) \<sigma> = s \<and>
          read (input_vars sys) \<sigma> = i \<and> read (next_state_vars sys) \<sigma> = t)"

definition error_state :: "transition_system \<Rightarrow> state \<Rightarrow> input \<Rightarrow> bool" where
  "error_state sys s i \<longleftrightarrow>
     (\<exists>\<sigma>. cnf_sat \<sigma> (ts_error sys) \<and> read (state_vars sys) \<sigma> = s \<and> read (input_vars sys) \<sigma> = i)"

definition num_state_vars :: "transition_system \<Rightarrow> nat" where
  "num_state_vars sys = nat (vr_size (state_vars sys))"

definition num_input_vars :: "transition_system \<Rightarrow> nat" where
  "num_input_vars sys = nat (vr_size (input_vars sys))"

definition all_states :: "transition_system \<Rightarrow> state set" where
  "all_states sys = {s. length s = num_state_vars sys}"

text \<open>Every state has exactly one successor under every input, as for a circuit.\<close>

definition functional_system :: "transition_system \<Rightarrow> bool" where
  "functional_system sys \<longleftrightarrow>
     (\<forall>s i. length s = num_state_vars sys \<and> length i = num_input_vars sys \<longrightarrow>
        (\<exists>!t. trans_step sys s i t))"

fun path :: "transition_system \<Rightarrow> state \<Rightarrow> input list \<Rightarrow> state \<Rightarrow> bool" where
  "path sys s [] t = (s = t)"
| "path sys s (i # is) t = (\<exists>u. trans_step sys s i u \<and> path sys u is t)"

definition error_trace :: "transition_system \<Rightarrow> state \<Rightarrow> input list \<Rightarrow> bool" where
  "error_trace sys s is \<longleftrightarrow>
     is \<noteq> [] \<and> (\<exists>t. path sys s (butlast is) t \<and> error_state sys t (last is))"

definition safe :: "transition_system \<Rightarrow> bool" where
  "safe sys \<longleftrightarrow> (\<forall>s is. init_state sys s \<longrightarrow> \<not> error_trace sys s is)"

inductive reachable :: "transition_system \<Rightarrow> state \<Rightarrow> bool" for sys where
  start: "init_state sys s \<Longrightarrow> reachable sys s"
| step: "reachable sys s \<Longrightarrow> trans_step sys s i t \<Longrightarrow> reachable sys t"

section \<open>Literals and cubes on states\<close>

text \<open>The value of a literal over range \<open>r\<close> when the variables of \<open>r\<close> have the values \<open>xs\<close>.\<close>

definition lit_holds :: "variable_range \<Rightarrow> bool list \<Rightarrow> literal \<Rightarrow> bool" where
  "lit_holds r xs l \<longleftrightarrow> xs ! nat (vr_offset r (lit_var l)) = lit_sign l"

definition lits_hold :: "variable_range \<Rightarrow> bool list \<Rightarrow> literal list \<Rightarrow> bool" where
  "lits_hold r xs ls \<longleftrightarrow> (\<forall>l \<in> set ls. lit_holds r xs l)"

definition lits_over :: "variable_range \<Rightarrow> literal list \<Rightarrow> bool" where
  "lits_over r ls \<longleftrightarrow> (\<forall>l \<in> set ls. l \<noteq> separator \<and> vr_contains r (lit_var l))"

lemma lits_over_simps [simp]:
  "lits_over r []"
  "lits_over r (l # ls) \<longleftrightarrow> l \<noteq> separator \<and> vr_contains r (lit_var l) \<and> lits_over r ls"
  "lits_over r (ks @ ls) \<longleftrightarrow> lits_over r ks \<and> lits_over r ls"
  by (auto simp: lits_over_def)

lemma lits_over_subset: "lits_over r ls \<Longrightarrow> set ks \<subseteq> set ls \<Longrightarrow> lits_over r ks"
  by (auto simp: lits_over_def)

lemma lits_over_sep: "lits_over r ls \<Longrightarrow> separator \<notin> set ls"
  by (auto simp: lits_over_def)

lemma lits_hold_subset: "lits_hold r xs ls \<Longrightarrow> set ks \<subseteq> set ls \<Longrightarrow> lits_hold r xs ks"
  by (auto simp: lits_hold_def)

lemma length_read [simp]: "length (read r \<sigma>) = nat (vr_size r)"
  by (simp add: read_def)

lemma read_nth:
  "vr_contains r v \<Longrightarrow> read r \<sigma> ! nat (vr_offset r v) = \<sigma> v"
  using vr_offset_bounds [of r v]
  by (simp add: read_def vr_vars_nth nth_map)

lemma lit_true_read: "vr_contains r (lit_var l) \<Longrightarrow> lit_true \<sigma> l = lit_holds r (read r \<sigma>) l"
  by (auto simp: lit_true_def lit_holds_def read_nth)

lemma lits_true_read:
  "lits_over r ls \<Longrightarrow> (\<forall>l \<in> set ls. lit_true \<sigma> l) = lits_hold r (read r \<sigma>) ls"
  unfolding lits_hold_def by (rule ball_cong) (simp_all add: lits_over_def lit_true_read)

lemma cube_true_read:
  "lits_over r (cube_literals c) \<Longrightarrow> cube_true \<sigma> c = lits_hold r (read r \<sigma>) (cube_literals c)"
  by (simp add: cube_true_def lits_true_read)

lemma lit_holds_not [simp]:
  "l \<noteq> separator \<Longrightarrow> lit_holds r xs (lit_not l) = (\<not> lit_holds r xs l)"
  by (simp add: lit_holds_def)

lemma read_eqI: "(\<And>v. vr_contains r v \<Longrightarrow> \<sigma> v = \<tau> v) \<Longrightarrow> read r \<sigma> = read r \<tau>"
  by (simp add: read_def)

lemma read_eqD: "read r \<sigma> = read r \<tau> \<Longrightarrow> vr_contains r v \<Longrightarrow> \<sigma> v = \<tau> v"
  by (simp add: read_def)

text \<open>An assignment with given values on a range.\<close>

definition put_range :: "variable_range \<Rightarrow> bool list \<Rightarrow> assignment \<Rightarrow> assignment" where
  "put_range r xs \<sigma> = (\<lambda>v. if vr_contains r v then xs ! nat (vr_offset r v) else \<sigma> v)"

lemma read_put_range [simp]: "length xs = nat (vr_size r) \<Longrightarrow> read r (put_range r xs \<sigma>) = xs"
  by (rule nth_equalityI)
    (auto simp: read_def put_range_def vr_vars_nth vr_nth_contains)

lemma ranges_apart_commute: "ranges_apart r q \<longleftrightarrow> ranges_apart q r"
  by (auto simp: ranges_apart_def)

lemma ranges_apartD: "ranges_apart r q \<Longrightarrow> vr_contains r v \<Longrightarrow> \<not> vr_contains q v"
  by (auto simp: ranges_apart_def vr_contains_def)

lemma read_put_range_apart: "ranges_apart r q \<Longrightarrow> read r (put_range q xs \<sigma>) = read r \<sigma>"
  by (rule read_eqI) (auto simp: put_range_def dest: ranges_apartD)

lemma vr_contains_pos: "range_ok r \<Longrightarrow> vr_contains r v \<Longrightarrow> 0 < var_id v"
  by (auto simp: range_ok_def vr_contains_def)

text \<open>The literals of a full valuation of a range.\<close>

definition valuation_of :: "variable_range \<Rightarrow> assignment \<Rightarrow> literal list" where
  "valuation_of r m = map (\<lambda>v. literal_of v (\<not> m v)) (vr_vars r)"

lemma lits_over_valuation [simp]: "range_ok r \<Longrightarrow> lits_over r (valuation_of r m)"
  by (auto simp: lits_over_def valuation_of_def vr_contains_pos less_imp_le)

lemma lits_hold_valuation:
  assumes "range_ok r" and "length xs = nat (vr_size r)"
  shows "lits_hold r xs (valuation_of r m) \<longleftrightarrow> xs = read r m"
proof
  assume h: "lits_hold r xs (valuation_of r m)"
  show "xs = read r m"
  proof (rule nth_equalityI)
    show "length xs = length (read r m)" using assms by simp
  next
    fix i assume i: "i < length xs"
    define v where "v = vr_nth r (int i)"
    have v: "vr_contains r v" "nat (vr_offset r v) = i" "0 < var_id v"
      using i assms vr_contains_pos [OF assms(1)] by (auto simp: v_def vr_nth_contains)
    then have "literal_of v (\<not> m v) \<in> set (valuation_of r m)"
      by (auto simp: valuation_of_def)
    then have "lit_holds r xs (literal_of v (\<not> m v))" using h by (simp add: lits_hold_def)
    then have "xs ! i = m v" using v by (simp add: lit_holds_def)
    then show "xs ! i = read r m ! i" using read_nth [OF v(1), of m] v(2) by simp
  qed
next
  assume "xs = read r m"
  then show "lits_hold r xs (valuation_of r m)"
    using assms(1)
    by (auto simp: lits_hold_def valuation_of_def lit_holds_def read_nth vr_contains_pos less_imp_le)
qed

section \<open>Priming\<close>

lemma get_var_info_state:
  "well_formed_system sys \<Longrightarrow> vr_contains (state_vars sys) v \<Longrightarrow>
   get_var_info sys v = Some (State_var, vr_offset (state_vars sys) v)"
  by (auto simp: get_var_info_def well_formed_system_def dest: ranges_apartD)

lemma get_var_info_next:
  "well_formed_system sys \<Longrightarrow> vr_contains (next_state_vars sys) v \<Longrightarrow>
   get_var_info sys v = Some (Next_state_var, vr_offset (next_state_vars sys) v)"
  by (auto simp: get_var_info_def well_formed_system_def dest: ranges_apartD)

lemma get_var_info_input:
  "vr_contains (input_vars sys) v \<Longrightarrow>
   get_var_info sys v = Some (Input_var, vr_offset (input_vars sys) v)"
  by (simp add: get_var_info_def)

lemma get_var_info_aux:
  "well_formed_system sys \<Longrightarrow> vr_contains (aux_vars sys) v \<Longrightarrow>
   get_var_info sys v = Some (Auxiliary_var, vr_offset (aux_vars sys) v)"
  by (auto simp: get_var_info_def well_formed_system_def dest: ranges_apartD)

text \<open>The literal \<open>prime\<close> returns, for a literal over a state variable.\<close>

definition primed :: "transition_system \<Rightarrow> literal \<Rightarrow> literal" where
  "primed sys l =
     substitute l (vr_nth (next_state_vars sys) (vr_offset (state_vars sys) (lit_var l)))"

lemma prime_state:
  "well_formed_system sys \<Longrightarrow> vr_contains (state_vars sys) (lit_var l) \<Longrightarrow>
   prime d sys l = Some (primed sys l)"
  by (simp add: prime_def get_var_info_state primed_def)

lemma primed_var:
  assumes "well_formed_system sys" and "vr_contains (state_vars sys) (lit_var l)"
  shows "vr_contains (next_state_vars sys)
      (vr_nth (next_state_vars sys) (vr_offset (state_vars sys) (lit_var l)))"
  using assms vr_offset_bounds [OF assms(2)]
  by (intro vr_nth_contains) (auto simp: well_formed_system_def)

lemma lit_var_primed:
  assumes "well_formed_system sys" and "vr_contains (state_vars sys) (lit_var l)"
  shows "vr_contains (next_state_vars sys) (lit_var (primed sys l))"
    and "lit_var (primed sys l) = vr_nth (next_state_vars sys) (vr_offset (state_vars sys) (lit_var l))"
    and "primed sys l \<noteq> separator"
    and "lit_sign (primed sys l) = lit_sign l"
proof -
  define v where "v = vr_nth (next_state_vars sys) (vr_offset (state_vars sys) (lit_var l))"
  have "vr_contains (next_state_vars sys) v" unfolding v_def by (rule primed_var [OF assms])
  moreover from this have "0 < var_id v"
    by (rule vr_contains_pos [rotated]) (use assms in \<open>simp add: well_formed_system_def\<close>)
  ultimately show "vr_contains (next_state_vars sys) (lit_var (primed sys l))"
    "lit_var (primed sys l) = vr_nth (next_state_vars sys) (vr_offset (state_vars sys) (lit_var l))"
    "primed sys l \<noteq> separator" "lit_sign (primed sys l) = lit_sign l"
    by (simp_all add: primed_def v_def [symmetric] substitute_def)
qed

lemma lit_holds_primed:
  assumes "well_formed_system sys" and "vr_contains (state_vars sys) (lit_var l)"
  shows "lit_holds (next_state_vars sys) xs (primed sys l) = lit_holds (state_vars sys) xs l"
  using lit_var_primed [OF assms] by (simp add: lit_holds_def)

lemma lit_true_primed:
  assumes "well_formed_system sys" and "vr_contains (state_vars sys) (lit_var l)"
  shows "lit_true \<sigma> (primed sys l) = lit_holds (state_vars sys) (read (next_state_vars sys) \<sigma>) l"
  using lit_true_read [OF lit_var_primed(1) [OF assms]] lit_holds_primed [OF assms] by simp

lemma lits_true_primed:
  assumes "well_formed_system sys" and "lits_over (state_vars sys) ls"
  shows "(\<forall>l \<in> set ls. lit_true \<sigma> (primed sys l)) =
    lits_hold (state_vars sys) (read (next_state_vars sys) \<sigma>) ls"
  using assms by (auto simp: lits_over_def lits_hold_def lit_true_primed)

lemma primed_not:
  "well_formed_system sys \<Longrightarrow> l \<noteq> separator \<Longrightarrow> vr_contains (state_vars sys) (lit_var l) \<Longrightarrow>
   primed sys (lit_not l) = lit_not (primed sys l)"
  by (rule literal_eqI) (simp_all add: lit_var_primed)

lemma prime_unprime:
  assumes "well_formed_system sys" and "l \<noteq> separator" and "vr_contains (state_vars sys) (lit_var l)"
  shows "Option.bind (prime d sys l) (unprime d sys) = Some l"
proof -
  note p = lit_var_primed [OF assms(1,3)]
  have "0 \<le> var_id (lit_var l)" by simp
  then have "substitute (primed sys l) (lit_var l) = l"
    using p(4) by (simp add: substitute_def)
  then show ?thesis
    using p(1,2) assms
    by (simp add: prime_state unprime_def get_var_info_next)
qed

section \<open>Paths and safety\<close>

lemma finite_all_states [simp]: "finite (all_states sys)"
  using finite_lists_length_eq [of "UNIV :: bool set" "num_state_vars sys"]
  by (simp add: all_states_def)

lemma card_all_states: "card (all_states sys) = 2 ^ num_state_vars sys"
  using card_lists_length_eq [of "UNIV :: bool set" "num_state_vars sys"]
  by (simp add: all_states_def)

lemma init_state_length: "init_state sys s \<Longrightarrow> s \<in> all_states sys"
  by (auto simp: init_state_def all_states_def num_state_vars_def)

lemma trans_step_length:
  "well_formed_system sys \<Longrightarrow> trans_step sys s i t \<Longrightarrow>
   s \<in> all_states sys \<and> t \<in> all_states sys \<and> length i = num_input_vars sys"
  by (auto simp: trans_step_def all_states_def num_state_vars_def num_input_vars_def
      well_formed_system_def)

lemma path_append: "path sys s (is @ js) t \<longleftrightarrow> (\<exists>u. path sys s is u \<and> path sys u js t)"
  by (induction "is" arbitrary: s) auto

lemma reachable_path: "reachable sys t \<longleftrightarrow> (\<exists>s is. init_state sys s \<and> path sys s is t)"
proof
  assume "reachable sys t"
  then show "\<exists>s is. init_state sys s \<and> path sys s is t"
  proof (induction rule: reachable.induct)
    case (start s)
    then have "init_state sys s \<and> path sys s [] s" by simp
    then show ?case by blast
  next
    case (step s i t)
    then obtain s0 js where "init_state sys s0 \<and> path sys s0 js s" by blast
    with step.hyps have "init_state sys s0 \<and> path sys s0 (js @ [i]) t" by (auto simp: path_append)
    then show ?case by blast
  qed
next
  have "reachable sys s \<Longrightarrow> path sys s js t \<Longrightarrow> reachable sys t" for s js
    by (induction js arbitrary: s) (auto intro: reachable.step)
  moreover assume "\<exists>s is. init_state sys s \<and> path sys s is t"
  ultimately show "reachable sys t" by (auto intro: reachable.start)
qed

lemma safe_reachable: "safe sys \<longleftrightarrow> (\<forall>t i. reachable sys t \<longrightarrow> \<not> error_state sys t i)"
proof
  assume s: "safe sys"
  show "\<forall>t i. reachable sys t \<longrightarrow> \<not> error_state sys t i"
  proof (intro allI impI notI)
    fix t i assume "reachable sys t" and e: "error_state sys t i"
    then obtain u js where "init_state sys u" "path sys u js t" by (auto simp: reachable_path)
    with e have "init_state sys u \<and> error_trace sys u (js @ [i])" by (auto simp: error_trace_def)
    with s show False by (auto simp: safe_def)
  qed
next
  assume "\<forall>t i. reachable sys t \<longrightarrow> \<not> error_state sys t i"
  then show "safe sys" by (auto simp: safe_def error_trace_def reachable_path)
qed

lemma formula_over_cong:
  assumes "formula_over rs f" and "\<And>r v. r \<in> set rs \<Longrightarrow> vr_contains r v \<Longrightarrow> \<sigma> v = \<tau> v"
  shows "cnf_sat \<sigma> f = cnf_sat \<tau> f"
  unfolding cnf_sat_def
  by (rule stream_sat_cong) (use assms in \<open>auto simp: formula_over_def\<close>)

lemma init_state_read:
  assumes "well_formed_system sys"
  shows "init_state sys (read (state_vars sys) \<sigma>) \<longleftrightarrow> cnf_sat \<sigma> (ts_init sys)"
proof
  assume "init_state sys (read (state_vars sys) \<sigma>)"
  then obtain \<tau> where \<tau>: "cnf_sat \<tau> (ts_init sys)" "read (state_vars sys) \<tau> = read (state_vars sys) \<sigma>"
    by (auto simp: init_state_def)
  have "cnf_sat \<sigma> (ts_init sys) = cnf_sat \<tau> (ts_init sys)"
    by (rule formula_over_cong [where rs = "[state_vars sys]"])
      (use assms \<tau>(2) in \<open>auto simp: well_formed_system_def dest: read_eqD\<close>)
  with \<tau>(1) show "cnf_sat \<sigma> (ts_init sys)" by simp
qed (auto simp: init_state_def)

section \<open>Making variables\<close>

lemma get_next_id_make [simp]: "get_next_id (snd (store_make st name)) = get_next_id st + 1"
  by (simp add: store_make_def get_next_id_def Let_def)

lemma store_make_var [simp]: "fst (store_make st name) = Variable (get_next_id st)"
  by (simp add: store_make_def get_next_id_def Let_def)

lemma get_next_id_make_all [simp]: "get_next_id (make_all st namer is) = get_next_id st + int (length is)"
  by (induction "is" arbitrary: st) simp_all

lemma make_range_bounds:
  assumes "0 \<le> n" and "make_range st n namer = (r, st')"
  shows "r = \<lparr>vr_begin = get_next_id st, vr_end = get_next_id st + n\<rparr>" and "get_next_id st' = vr_end r"
  using assms by (auto simp: make_range_def Let_def)

end
