(* ===== verification/Solver.thy ===== *)
theory Solver
  imports TransitionSystem
begin

text \<open>
  \<^verbatim>\<open>src/engine/solver.hpp\<close>: the wrapper over the CaDiCaL solver and its query builder.

  CaDiCaL itself is a parameter, an oracle: for the \<open>n\<close>-th call of \<open>solve\<close>, the stream of
  literals added so far, the assumptions and the constraint stream, it answers with a model or
  with the set of failed assumptions. Counting the calls lets an oracle answer the same query
  differently at different times, as a solver with internal state does. \<open>sound_oracle\<close> is the
  contract that \<^verbatim>\<open>dep/cadical/src/cadical.hpp\<close> documents: models satisfy clauses, assumptions and
  constraint, failed assumptions are assumptions and suffice for unsatisfiability.

  The interface of the library is a state machine (\<open>val\<close> only after a satisfiable call, \<open>failed\<close>
  only after an unsatisfiable one, both until the next \<open>add\<close>, \<open>assume\<close> or \<open>constrain\<close>, which also
  forget the last query's assumptions and constraint). A violation aborts the process: \<open>None\<close>.
\<close>

section \<open>The solver and its interface\<close>

datatype answer = Sat assignment | Unsat "literal \<Rightarrow> bool"

type_synonym sat_oracle = "nat \<Rightarrow> literal list \<Rightarrow> literal list \<Rightarrow> literal list \<Rightarrow> answer"

text \<open>What an engine run depends on beside the program: the SAT solver and the kind of build.\<close>

record environment =
  sat_solver :: sat_oracle
  debug_build :: bool

datatype solver_status = Ready | Satisfied assignment | Unsatisfied "literal \<Rightarrow> bool"

record solver =
  added :: "literal list"
  assumptions :: "literal list"
  constraint :: "literal list"
  status :: solver_status
  solve_calls :: nat

definition new_solver :: solver where
  "new_solver = \<lparr>added = [], assumptions = [], constraint = [], status = Ready, solve_calls = 0\<rparr>"

text \<open>\<open>transition_to_steady_state\<close>: leaving the result of the last call forgets its query.\<close>

definition to_steady :: "solver \<Rightarrow> solver" where
  "to_steady s =
     (case status s of
        Ready \<Rightarrow> s
      | _ \<Rightarrow> s\<lparr>assumptions := [], constraint := [], status := Ready\<rparr>)"

definition solver_add :: "solver \<Rightarrow> literal \<Rightarrow> solver" where
  "solver_add s l = (let s' = to_steady s in s'\<lparr>added := added s' @ [l]\<rparr>)"

definition solver_constrain :: "solver \<Rightarrow> literal \<Rightarrow> solver" where
  "solver_constrain s l =
     (let s' = to_steady s;
          old = (if constraint s' \<noteq> [] \<and> last (constraint s') = separator then [] else constraint s')
      in s'\<lparr>constraint := old @ [l]\<rparr>)"

section \<open>The wrapper\<close>

text \<open>\<open>reset\<close>: a new CaDiCaL object; the number of answers given so far goes on.\<close>

definition solver_reset :: "solver \<Rightarrow> solver" where
  "solver_reset s = new_solver\<lparr>solve_calls := solve_calls s\<rparr>"

definition assert_formula :: "solver \<Rightarrow> cnf_formula \<Rightarrow> solver" where
  "assert_formula s f = foldl solver_add s (cnf_literals f)"

definition assume_literal :: "solver \<Rightarrow> literal \<Rightarrow> solver" where
  "assume_literal s l = (let s' = to_steady s in s'\<lparr>assumptions := assumptions s' @ [l]\<rparr>)"

definition assume_literals :: "solver \<Rightarrow> literal list \<Rightarrow> solver" where
  "assume_literals s ls = foldl assume_literal s ls"

fun assume_mapped :: "solver \<Rightarrow> literal list \<Rightarrow> (literal \<Rightarrow> literal option) \<Rightarrow> solver option" where
  "assume_mapped s [] f = Some s"
| "assume_mapped s (l # ls) f = do {
     l' \<leftarrow> f l;
     assume_mapped (assume_literal s l') ls f }"

definition constrain_not :: "solver \<Rightarrow> literal list \<Rightarrow> solver" where
  "constrain_not s c =
     solver_constrain (foldl (\<lambda>s l. solver_constrain s (lit_not l)) s c) separator"

fun constrain_mapped_loop :: "solver \<Rightarrow> literal list \<Rightarrow> (literal \<Rightarrow> literal option) \<Rightarrow> solver option" where
  "constrain_mapped_loop s [] f = Some s"
| "constrain_mapped_loop s (l # ls) f = do {
     l' \<leftarrow> f (lit_not l);
     constrain_mapped_loop (solver_constrain s l') ls f }"

definition constrain_not_mapped :: "solver \<Rightarrow> literal list \<Rightarrow> (literal \<Rightarrow> literal option) \<Rightarrow> solver option" where
  "constrain_not_mapped s c f = do {
     s' \<leftarrow> constrain_mapped_loop s c f;
     Some (solver_constrain s' separator) }"

definition is_sat :: "environment \<Rightarrow> solver \<Rightarrow> bool \<times> solver" where
  "is_sat E s0 =
     (let s = to_steady s0
      in case sat_solver E (solve_calls s) (added s) (assumptions s) (constraint s) of
           Sat m \<Rightarrow> (True, s\<lparr>status := Satisfied m, solve_calls := Suc (solve_calls s)\<rparr>)
         | Unsat core \<Rightarrow>
             (False, s\<lparr>status := Unsatisfied core, solve_calls := Suc (solve_calls s)\<rparr>))"

definition is_true_in_model :: "solver \<Rightarrow> variable \<Rightarrow> bool option" where
  "is_true_in_model s v = (case status s of Satisfied m \<Rightarrow> Some (m v) | _ \<Rightarrow> None)"

fun model_of_vars :: "solver \<Rightarrow> variable list \<Rightarrow> literal list option" where
  "model_of_vars s [] = Some []"
| "model_of_vars s (v # vs) = do {
     b \<leftarrow> is_true_in_model s v;
     ls \<leftarrow> model_of_vars s vs;
     Some (literal_of v (\<not> b) # ls) }"

definition get_model :: "solver \<Rightarrow> variable_range \<Rightarrow> literal list option" where
  "get_model s r = model_of_vars s (vr_vars r)"

definition is_in_core :: "solver \<Rightarrow> literal \<Rightarrow> bool option" where
  "is_in_core s l = (case status s of Unsatisfied core \<Rightarrow> Some (core l) | _ \<Rightarrow> None)"

fun get_core :: "solver \<Rightarrow> literal list \<Rightarrow> literal list option" where
  "get_core s [] = Some []"
| "get_core s (l # ls) = do {
     b \<leftarrow> is_in_core s l;
     core \<leftarrow> get_core s ls;
     Some (if b then l # core else core) }"

fun core_of_vars :: "solver \<Rightarrow> variable list \<Rightarrow> literal list option" where
  "core_of_vars s [] = Some []"
| "core_of_vars s (v # vs) = do {
     let l = literal_of v False;
     b \<leftarrow> is_in_core s l;
     n \<leftarrow> (if b then Some False else is_in_core s (lit_not l));
     core \<leftarrow> core_of_vars s vs;
     Some (if b then l # core else if n then lit_not l # core else core) }"

definition get_core_of_range :: "solver \<Rightarrow> variable_range \<Rightarrow> literal list option" where
  "get_core_of_range s r = core_of_vars s (vr_vars r)"

section \<open>The contract of the oracle\<close>

definition lits_true :: "assignment \<Rightarrow> literal list \<Rightarrow> bool" where
  "lits_true \<sigma> ls \<longleftrightarrow> (\<forall>l \<in> set ls. lit_true \<sigma> l)"

definition sound_oracle :: "sat_oracle \<Rightarrow> bool" where
  "sound_oracle S \<longleftrightarrow>
     (\<forall>n f as c. terminated f \<and> terminated c \<longrightarrow>
        (case S n f as c of
           Sat m \<Rightarrow> stream_sat m f \<and> lits_true m as \<and> stream_sat m c
         | Unsat core \<Rightarrow>
             (\<forall>l. core l \<longrightarrow> l \<in> set as) \<and>
             \<not> (\<exists>\<sigma>. stream_sat \<sigma> f \<and> lits_true \<sigma> (filter core as) \<and> stream_sat \<sigma> c)))"

lemma lits_true_append [simp]: "lits_true \<sigma> (ls @ ks) \<longleftrightarrow> lits_true \<sigma> ls \<and> lits_true \<sigma> ks"
  by (auto simp: lits_true_def)

lemma lits_true_Cons [simp]: "lits_true \<sigma> (l # ls) \<longleftrightarrow> lit_true \<sigma> l \<and> lits_true \<sigma> ls"
  by (simp add: lits_true_def)

lemma lits_true_Nil [simp]: "lits_true \<sigma> []"
  by (simp add: lits_true_def)


section \<open>Building and answering a query\<close>

text \<open>What the next call of \<open>solve\<close> is asked: clauses \<open>f\<close>, assumptions \<open>A\<close>, constraint \<open>C\<close>.\<close>

definition asks :: "solver \<Rightarrow> literal list \<Rightarrow> literal list \<Rightarrow> literal list \<Rightarrow> bool" where
  "asks s f A C \<longleftrightarrow>
     added s = f \<and> assumptions (to_steady s) = A \<and> constraint (to_steady s) = C"

definition idle :: "solver \<Rightarrow> bool" where
  "idle s \<longleftrightarrow> asks s (added s) [] []"

lemma to_steady_idem [simp]: "to_steady (to_steady s) = to_steady s"
  by (simp add: to_steady_def split: solver_status.split)

lemma to_steady_sel [simp]:
  "added (to_steady s) = added s"
  "solve_calls (to_steady s) = solve_calls s"
  "status (to_steady s) = Ready"
  by (auto simp: to_steady_def split: solver_status.split)

lemma to_steady_Ready [simp]: "status s = Ready \<Longrightarrow> to_steady s = s"
  by (simp add: to_steady_def)

lemma idle_new [simp]: "idle (solver_reset s)"
  by (simp add: idle_def asks_def solver_reset_def new_solver_def)

lemma added_reset [simp]: "added (solver_reset s) = []"
  by (simp add: solver_reset_def new_solver_def)

lemma idle_asks: "idle s \<Longrightarrow> added s = f \<Longrightarrow> asks s f [] []"
  by (simp add: idle_def)

lemma asks_assume_literal: "asks s f A C \<Longrightarrow> asks (assume_literal s l) f (A @ [l]) C"
  by (simp add: asks_def assume_literal_def Let_def to_steady_Ready)

lemma asks_assume_literals: "asks s f A C \<Longrightarrow> asks (assume_literals s ls) f (A @ ls) C"
proof (induction ls arbitrary: s A)
  case Nil
  then show ?case by (simp add: assume_literals_def)
next
  case (Cons l ls)
  from Cons.IH [OF asks_assume_literal [OF Cons.prems]] show ?case
    by (simp add: assume_literals_def)
qed

lemma asks_assume_mapped:
  "asks s f A C \<Longrightarrow> (\<And>l. l \<in> set ls \<Longrightarrow> g l = Some (h l)) \<Longrightarrow>
   runs (assume_mapped s ls g) (\<lambda>s'. asks s' f (A @ map h ls) C)"
proof (induction ls arbitrary: s A)
  case Nil
  then show ?case by simp
next
  case (Cons l ls)
  have "runs (assume_mapped (assume_literal s (h l)) ls g) (\<lambda>s'. asks s' f ((A @ [h l]) @ map h ls) C)"
    by (rule Cons.IH [OF asks_assume_literal [OF Cons.prems(1)]]) (simp add: Cons.prems(2))
  then show ?case by (simp add: Cons.prems(2))
qed

lemma asks_constrain:
  "asks s f A C \<Longrightarrow> separator \<notin> set C \<Longrightarrow> asks (solver_constrain s l) f A (C @ [l])"
proof -
  assume a: "asks s f A C" and "separator \<notin> set C"
  then have "\<not> (C \<noteq> [] \<and> last C = separator)" by (metis last_in_set)
  with a show ?thesis by (auto simp: asks_def solver_constrain_def Let_def)
qed

lemma asks_constrain_fold:
  "asks s f A C \<Longrightarrow> separator \<notin> set C \<Longrightarrow> separator \<notin> set c \<Longrightarrow>
   asks (foldl (\<lambda>s l. solver_constrain s (lit_not l)) s c) f A (C @ map lit_not c)"
proof (induction c arbitrary: s C)
  case Nil
  then show ?case by simp
next
  case (Cons l c)
  have "asks (solver_constrain s (lit_not l)) f A (C @ [lit_not l])"
    by (rule asks_constrain) (use Cons.prems in auto)
  from Cons.IH [OF this] show ?case
    using Cons.prems(2,3) by (force simp: eq_commute [of separator])
qed

lemma asks_constrain_not:
  "asks s f A [] \<Longrightarrow> separator \<notin> set c \<Longrightarrow>
   asks (constrain_not s c) f A (map lit_not c @ [separator])"
  unfolding constrain_not_def
  using asks_constrain_fold [of s f A "[]" c]
  by (intro asks_constrain) (auto simp: image_iff dest!: sym [of separator])

lemma asks_constrain_mapped_loop:
  "asks s f A C \<Longrightarrow> separator \<notin> set C \<Longrightarrow>
   (\<And>l. l \<in> set c \<Longrightarrow> g (lit_not l) = Some (h l) \<and> h l \<noteq> separator) \<Longrightarrow>
   runs (constrain_mapped_loop s c g) (\<lambda>s'. asks s' f A (C @ map h c))"
proof (induction c arbitrary: s C)
  case Nil
  then show ?case by simp
next
  case (Cons l c)
  have hl: "h l \<noteq> separator" using Cons.prems(3) [of l] by simp
  have "asks (solver_constrain s (h l)) f A (C @ [h l])"
    by (rule asks_constrain) (use Cons.prems in auto)
  then have "runs (constrain_mapped_loop (solver_constrain s (h l)) c g)
      (\<lambda>s'. asks s' f A ((C @ [h l]) @ map h c))"
    by (rule Cons.IH) (use Cons.prems(2,3) hl [symmetric] in auto)
  then show ?case by (simp add: Cons.prems(3))
qed

lemma asks_constrain_not_mapped:
  assumes "asks s f A []"
    and "\<And>l. l \<in> set c \<Longrightarrow> g (lit_not l) = Some (h l) \<and> h l \<noteq> separator"
  shows "runs (constrain_not_mapped s c g) (\<lambda>s'. asks s' f A (map h c @ [separator]))"
proof -
  have "runs (constrain_mapped_loop s c g) (\<lambda>s'. asks s' f A ([] @ map h c))"
    by (rule asks_constrain_mapped_loop) (use assms in auto)
  then have "runs (constrain_mapped_loop s c g)
      (\<lambda>s'. asks (solver_constrain s' separator) f A (map h c @ [separator]))"
    by (rule runs_mono) (use assms(2) in \<open>force intro!: asks_constrain simp: image_iff\<close>)
  then show ?thesis by (simp add: constrain_not_mapped_def)
qed

text \<open>The answer to a query under the contract.\<close>

definition sat_answer :: "solver \<Rightarrow> literal list \<Rightarrow> literal list \<Rightarrow> literal list \<Rightarrow> bool \<times> solver \<Rightarrow> bool" where
  "sat_answer s f A C r \<longleftrightarrow>
     idle (snd r) \<and> added (snd r) = f \<and>
     (if fst r
      then \<exists>m. status (snd r) = Satisfied m \<and> stream_sat m f \<and> lits_true m A \<and> stream_sat m C
      else \<exists>core. status (snd r) = Unsatisfied core \<and> (\<forall>l. core l \<longrightarrow> l \<in> set A) \<and>
             \<not> (\<exists>\<sigma>. stream_sat \<sigma> f \<and> lits_true \<sigma> (filter core A) \<and> stream_sat \<sigma> C))"

lemma is_sat_answer:
  assumes "sound_oracle (sat_solver E)" and "asks s f A C" and "terminated f" and "terminated C"
  shows "sat_answer s f A C (is_sat E s)"
proof -
  define ans where "ans = sat_solver E (solve_calls s) f A C"
  have q: "is_sat E s =
      (case ans of Sat m \<Rightarrow> (True, (to_steady s)\<lparr>status := Satisfied m, solve_calls := Suc (solve_calls s)\<rparr>)
       | Unsat core \<Rightarrow> (False, (to_steady s)\<lparr>status := Unsatisfied core, solve_calls := Suc (solve_calls s)\<rparr>))"
    using assms(2) by (simp add: is_sat_def Let_def asks_def ans_def split: answer.split)
  have c: "case ans of
           Sat m \<Rightarrow> stream_sat m f \<and> lits_true m A \<and> stream_sat m C
         | Unsat core \<Rightarrow> (\<forall>l. core l \<longrightarrow> l \<in> set A) \<and>
             \<not> (\<exists>\<sigma>. stream_sat \<sigma> f \<and> lits_true \<sigma> (filter core A) \<and> stream_sat \<sigma> C)"
    using assms(1,3,4) by (simp add: sound_oracle_def ans_def)
  have f: "added s = f" using assms(2) by (simp add: asks_def)
  show ?thesis
    by (cases ans) (use c f in \<open>simp_all add: sat_answer_def q idle_def asks_def, simp_all add: to_steady_def\<close>)
qed

lemma sat_answer_unsat:
  "sat_answer s f A C (False, s') \<Longrightarrow> stream_sat \<sigma> f \<Longrightarrow> lits_true \<sigma> A \<Longrightarrow> stream_sat \<sigma> C \<Longrightarrow> P"
  by (auto simp: sat_answer_def lits_true_def)

lemma get_model_Satisfied: "status s = Satisfied m \<Longrightarrow> get_model s r = Some (valuation_of r m)"
proof -
  assume "status s = Satisfied m"
  then have "model_of_vars s vs = Some (map (\<lambda>v. literal_of v (\<not> m v)) vs)" for vs
    by (induction vs) (simp_all add: is_true_in_model_def)
  then show ?thesis by (simp add: get_model_def valuation_of_def)
qed

lemma get_core_Unsatisfied: "status s = Unsatisfied core \<Longrightarrow> get_core s ls = Some (filter core ls)"
  by (induction ls) (simp_all add: is_in_core_def)

lemma is_in_core_Unsatisfied: "status s = Unsatisfied core \<Longrightarrow> is_in_core s l = Some (core l)"
  by (simp add: is_in_core_def)

text \<open>Adding a formula makes the solver forget its last answer.\<close>

lemma solver_add_sel [simp]:
  "added (solver_add s l) = added s @ [l]" "status (solver_add s l) = Ready"
  by (simp_all add: solver_add_def Let_def)

lemma idle_add [simp]: "idle s \<Longrightarrow> idle (solver_add s l)"
  by (simp add: idle_def asks_def solver_add_def Let_def)

lemma idle_add_all: "idle s \<Longrightarrow> idle (foldl solver_add s ls) \<and> added (foldl solver_add s ls) = added s @ ls"
  by (induction ls arbitrary: s) auto

lemma idle_assert [simp]: "idle s \<Longrightarrow> idle (assert_formula s f)"
  by (simp add: assert_formula_def idle_add_all)

lemma added_assert [simp]: "idle s \<Longrightarrow> added (assert_formula s f) = added s @ cnf_literals f"
  by (simp add: assert_formula_def idle_add_all)

end
