(* ===== verification/Engine.thy ===== *)
theory Engine
  imports TransitionSystem
begin

text \<open>
  \<^verbatim>\<open>src/engine/base.hpp\<close>: the result of an engine, and what a result claims about the system. The
  row of a counterexample is a valuation, one literal per variable; \<open>row_values\<close> reads it.
\<close>

record counterexample =
  initial_state :: valuation
  inputs :: "valuation list"

datatype result = Ok | Unknown string | Cex counterexample

definition row_values :: "valuation \<Rightarrow> bool list" where
  "row_values val = map lit_sign val"

text \<open>The rows mention the variables of the two ranges in order, as the witness format needs.\<close>

definition cex_shape :: "transition_system \<Rightarrow> counterexample \<Rightarrow> bool" where
  "cex_shape sys cex \<longleftrightarrow>
     map lit_var (initial_state cex) = vr_vars (state_vars sys) \<and>
     (\<forall>row \<in> set (inputs cex). map lit_var row = vr_vars (input_vars sys))"

text \<open>A genuine counterexample: from its (initial) state its inputs lead into an error.\<close>

definition cex_valid :: "transition_system \<Rightarrow> counterexample \<Rightarrow> bool" where
  "cex_valid sys cex \<longleftrightarrow>
     cex_shape sys cex \<and>
     init_state sys (row_values (initial_state cex)) \<and>
     error_trace sys (row_values (initial_state cex)) (map row_values (inputs cex))"

text \<open>
  The weaker promise of an engine that generalises its obligations: the inputs lead into an error
  from the reported state, and from some initial state too, but the two may differ.
\<close>

definition cex_inputs_valid :: "transition_system \<Rightarrow> counterexample \<Rightarrow> bool" where
  "cex_inputs_valid sys cex \<longleftrightarrow>
     cex_shape sys cex \<and>
     error_trace sys (row_values (initial_state cex)) (map row_values (inputs cex)) \<and>
     (\<exists>s. init_state sys s \<and> error_trace sys s (map row_values (inputs cex)))"

lemma cex_valid_inputs: "cex_valid sys cex \<Longrightarrow> cex_inputs_valid sys cex"
  by (auto simp: cex_valid_def cex_inputs_valid_def)

lemma cex_inputs_unsafe: "cex_inputs_valid sys cex \<Longrightarrow> \<not> safe sys"
  by (auto simp: cex_inputs_valid_def safe_def)

end
