(* ===== verification/Pdr.thy ===== *)
theory Pdr
  imports Solver Engine
begin

text \<open>
  \<^verbatim>\<open>src/engine/pdr.hpp\<close> and \<^verbatim>\<open>src/engine/pdr.cpp\<close>: property directed reachability, one definition
  per member function, in the order of the code. The object is the record \<open>pdr\<close>; \<open>_system\<close> is
  an argument, the shared variable store is the field \<open>pdr_store\<close>. Every function that reads the
  solver, indexes a vector or asserts is partial (\<open>None\<close>); the two \<open>while\<close> loops are
  \<^theory_text>\<open>partial_function (option)\<close>, so that they may not return. Frame levels, \<open>int\<close>s that the code
  asserts to be non-negative, are natural numbers; where the code subtracts one from a level it
  has excluded level 0. Logging is left out.
\<close>

section \<open>The pool of counterexamples to induction\<close>

type_synonym cti_handle = nat

record cti_entry =
  cti_state_vars :: cube
  cti_input_vars :: cube
  cti_successor :: "cti_handle option"

record cti_pool =
  cti_entries :: "cti_entry list"
  num_entries :: nat

definition cti_make :: "cti_pool \<Rightarrow> cube \<Rightarrow> cube \<Rightarrow> cti_handle option \<Rightarrow> cti_handle \<times> cti_pool" where
  "cti_make p s i succ =
     (let entry = \<lparr>cti_state_vars = s, cti_input_vars = i, cti_successor = succ\<rparr>;
          entries = (if length (cti_entries p) \<le> num_entries p then cti_entries p @ [entry]
                     else (cti_entries p)[num_entries p := entry])
      in (num_entries p, p\<lparr>cti_entries := entries, num_entries := Suc (num_entries p)\<rparr>))"

definition cti_get :: "bool \<Rightarrow> cti_pool \<Rightarrow> cti_handle \<Rightarrow> cti_entry option" where
  "cti_get d p h = do {
     assert_that d (h < num_entries p);
     vec_at (cti_entries p) h }"

definition cti_flush :: "cti_pool \<Rightarrow> cti_pool" where
  "cti_flush p = p\<lparr>num_entries := 0\<rparr>"

section \<open>Proof obligations\<close>

datatype proof_obligation = Obligation (po_level: nat) (po_handle: cti_handle)

text \<open>The defaulted comparison: by level, then by handle.\<close>

instantiation proof_obligation :: linorder
begin

definition less_eq_proof_obligation :: "proof_obligation \<Rightarrow> proof_obligation \<Rightarrow> bool" where
  "less_eq_proof_obligation a b \<longleftrightarrow>
     po_level a < po_level b \<or> (po_level a = po_level b \<and> po_handle a \<le> po_handle b)"

definition less_proof_obligation :: "proof_obligation \<Rightarrow> proof_obligation \<Rightarrow> bool" where
  "less_proof_obligation a b \<longleftrightarrow>
     po_level a < po_level b \<or> (po_level a = po_level b \<and> po_handle a < po_handle b)"

instance
  by standard
    (auto simp: less_eq_proof_obligation_def less_proof_obligation_def intro: proof_obligation.expand)

end

text \<open>
  The priority queue with \<open>std::greater\<close>: the least obligation is on top. Obligations that
  compare equal are equal, so a sorted list is the queue.
\<close>

type_synonym min_queue = "proof_obligation list"

definition queue_push :: "proof_obligation \<Rightarrow> min_queue \<Rightarrow> min_queue" where
  "queue_push po q = insort po q"

section \<open>The engine object\<close>

record pdr =
  pdr_store :: variable_store
  pdr_solver :: solver
  transition_activator :: literal
  error_activator :: literal
  activated_init :: cnf_formula
  activated_trans :: cnf_formula
  activated_error :: cnf_formula
  init_cube :: cube
  trace_blocked_cubes :: "cube list list"
  trace_activators :: "literal list"
  queries :: nat
  ctis :: cti_pool

definition solver_refresh_rate :: nat where
  "solver_refresh_rate = 5000000"

definition pdr_new :: "variable_store \<Rightarrow> pdr" where
  "pdr_new store =
     (let (act_t, store1) = store_make store ''ActT'';
          (act_e, store2) = store_make store1 ''ActE''
      in \<lparr>pdr_store = store2, pdr_solver = new_solver,
          transition_activator = literal_of act_t False, error_activator = literal_of act_e False,
          activated_init = empty_cnf, activated_trans = empty_cnf, activated_error = empty_cnf,
          init_cube = Cube [], trace_blocked_cubes = [], trace_activators = [], queries = 0,
          ctis = \<lparr>cti_entries = [], num_entries = 0\<rparr>\<rparr>)"

text \<open>\<open>assert_formula\<close> for the negation of every cube of a frame, under the frame's activator.\<close>

fun assert_blocked :: "solver \<Rightarrow> (cube list \<times> literal) list \<Rightarrow> solver" where
  "assert_blocked sv [] = sv"
| "assert_blocked sv ((cubes, act) # frames) =
     assert_blocked
       (foldl (\<lambda>sv c. assert_formula sv (activate (negate c) (lit_var act))) sv cubes) frames"

definition pdr_refresh_solver :: "pdr \<Rightarrow> pdr" where
  "pdr_refresh_solver st =
     (let sv = solver_reset (pdr_solver st);
          sv = assert_formula sv (activated_init st);
          sv = assert_formula sv (activated_trans st);
          sv = assert_formula sv (activated_error st);
          sv = assert_blocked sv (zip (trace_blocked_cubes st) (trace_activators st))
      in st\<lparr>pdr_solver := sv, queries := 0\<rparr>)"

definition pdr_with_solver :: "pdr \<Rightarrow> pdr" where
  "pdr_with_solver st =
     (let st' = (if queries st mod solver_refresh_rate = 0 then pdr_refresh_solver st else st)
      in st'\<lparr>queries := Suc (queries st')\<rparr>)"

definition depth :: "pdr \<Rightarrow> nat" where
  "depth st = length (trace_blocked_cubes st) - 1"

definition pdr_push_frame :: "bool \<Rightarrow> pdr \<Rightarrow> pdr option" where
  "pdr_push_frame d st = do {
     assert_that d (length (trace_blocked_cubes st) = length (trace_activators st));
     let st = st\<lparr>trace_blocked_cubes := trace_blocked_cubes st @ [[]]\<rparr>;
     let (act, store) = store_make (pdr_store st)
           (''Act['' @ int_to_string (int (depth st) + 1) @ '']'');
     Some (st\<lparr>pdr_store := store, trace_activators := trace_activators st @ [literal_of act False]\<rparr>) }"

definition frames_from :: "bool \<Rightarrow> pdr \<Rightarrow> nat \<Rightarrow> cube list list option" where
  "frames_from d st level = do {
     assert_that d (level \<le> depth st);
     (if level \<le> length (trace_blocked_cubes st) then Some (drop level (trace_blocked_cubes st))
      else None) }"

definition activators_from :: "bool \<Rightarrow> pdr \<Rightarrow> nat \<Rightarrow> literal list option" where
  "activators_from d st level = do {
     assert_that d (level \<le> depth st);
     (if level \<le> length (trace_activators st) then Some (drop level (trace_activators st))
      else None) }"

definition pdr_initialize :: "bool \<Rightarrow> transition_system \<Rightarrow> pdr \<Rightarrow> pdr option" where
  "pdr_initialize d sys st = do {
     st \<leftarrow> pdr_push_frame d st;
     act0 \<leftarrow> vec_at (trace_activators st) 0;
     let st = st\<lparr>activated_init := activate (ts_init sys) (lit_var act0),
                 activated_trans := activate (ts_trans sys) (lit_var (transition_activator st)),
                 activated_error := activate (ts_error sys) (lit_var (error_activator st))\<rparr>;
     c \<leftarrow> formula_as_cube d (ts_init sys);
     Some (st\<lparr>init_cube := c\<rparr>) }"

section \<open>Queries\<close>

definition get_error_cti ::
  "environment \<Rightarrow> transition_system \<Rightarrow> pdr \<Rightarrow> (cti_handle option \<times> pdr) option" where
  "get_error_cti E sys st0 = do {
     let st = pdr_with_solver st0;
     acts \<leftarrow> activators_from (debug_build E) st (depth st);
     let sv = assume_literals (pdr_solver st) acts;
     let sv = assume_literal sv (error_activator st);
     let (sat, sv) = is_sat E sv;
     let st = st\<lparr>pdr_solver := sv\<rparr>;
     if sat then do {
       s \<leftarrow> get_model sv (state_vars sys);
       i \<leftarrow> get_model sv (input_vars sys);
       let (h, pool) = cti_make (ctis st) (make_cube s) (make_cube i) None;
       Some (Some h, st\<lparr>ctis := pool\<rparr>) }
     else Some (None, st) }"

definition intersects_initial_states :: "pdr \<Rightarrow> literal list \<Rightarrow> bool" where
  "intersects_initial_states st c \<longleftrightarrow>
     \<not> list_ex (\<lambda>l. cube_contains (init_cube st) (lit_not l)) c"

definition is_relative_inductive ::
  "environment \<Rightarrow> transition_system \<Rightarrow> pdr \<Rightarrow> literal list \<Rightarrow> nat \<Rightarrow> (bool \<times> pdr) option" where
  "is_relative_inductive E sys st0 s i = do {
     assert_that (debug_build E) (1 \<le> i);
     let st = pdr_with_solver st0;
     let sv = constrain_not (pdr_solver st) s;
     acts \<leftarrow> activators_from (debug_build E) st (i - 1);
     let sv = assume_literals sv acts;
     let sv = assume_literal sv (transition_activator st);
     sv \<leftarrow> assume_mapped sv s (prime (debug_build E) sys);
     let (sat, sv) = is_sat E sv;
     Some (\<not> sat, st\<lparr>pdr_solver := sv\<rparr>) }"

definition is_already_blocked ::
  "environment \<Rightarrow> transition_system \<Rightarrow> pdr \<Rightarrow> proof_obligation \<Rightarrow> (bool \<times> pdr) option" where
  "is_already_blocked E sys st po = do {
     assert_that (debug_build E) (1 \<le> po_level po);
     if depth st < po_level po then Some (False, st)
     else do {
       e \<leftarrow> cti_get (debug_build E) (ctis st) (po_handle po);
       let s = cti_state_vars e;
       frames \<leftarrow> frames_from (debug_build E) st (po_level po);
       if list_ex (list_ex (\<lambda>c. subsumes c s)) frames then Some (True, st)
       else do {
         let st = pdr_with_solver st;
         let sv = assume_literals (pdr_solver st) (cube_literals s);
         acts \<leftarrow> activators_from (debug_build E) st (po_level po);
         let sv = assume_literals sv acts;
         let (sat, sv) = is_sat E sv;
         Some (\<not> sat, st\<lparr>pdr_solver := sv\<rparr>) } } }"

definition get_predecessor ::
  "environment \<Rightarrow> transition_system \<Rightarrow> pdr \<Rightarrow> proof_obligation \<Rightarrow> (cti_handle \<times> pdr) option" where
  "get_predecessor E sys st0 po = do {
     e \<leftarrow> cti_get (debug_build E) (ctis st0) (po_handle po);
     let s = cube_literals (cti_state_vars e);
     ins \<leftarrow> get_model (pdr_solver st0) (input_vars sys);
     p \<leftarrow> get_model (pdr_solver st0) (state_vars sys);
     let st = pdr_with_solver st0;
     sv \<leftarrow> constrain_not_mapped (pdr_solver st) s (prime (debug_build E) sys);
     let sv = assume_literal sv (transition_activator st);
     let sv = assume_literals sv ins;
     let sv = assume_literals sv p;
     let (sat, sv) = is_sat E sv;
     let st = st\<lparr>pdr_solver := sv\<rparr>;
     assert_that (debug_build E) (\<not> sat);
     core \<leftarrow> get_core sv p;
     let (h, pool) = cti_make (ctis st) (make_cube core) (make_cube ins) (Some (po_handle po));
     Some (h, st\<lparr>ctis := pool\<rparr>) }"

section \<open>Generalisation\<close>

text \<open>The first frame, from the obligation's predecessor level up, whose activator is in the core.\<close>

fun first_core_level :: "pdr \<Rightarrow> nat list \<Rightarrow> nat \<Rightarrow> nat option" where
  "first_core_level st [] j = Some j"
| "first_core_level st (i # is) j = do {
     act \<leftarrow> vec_at (trace_activators st) i;
     b \<leftarrow> is_in_core (pdr_solver st) act;
     if b then Some i else first_core_level st is j }"

text \<open>Drop the literals that are not in the core, unless an initial state gets in.\<close>

fun drop_outside_core ::
  "bool \<Rightarrow> transition_system \<Rightarrow> pdr \<Rightarrow> literal list \<Rightarrow> literal list \<Rightarrow> literal list option" where
  "drop_outside_core d sys st [] res = Some res"
| "drop_outside_core d sys st (l # ls) res = do {
     l' \<leftarrow> prime d sys l;
     b \<leftarrow> is_in_core (pdr_solver st) l';
     if b then drop_outside_core d sys st ls res
     else do {
       let res = removeAll l res;
       let res = (if intersects_initial_states st res then res @ [l] else res);
       drop_outside_core d sys st ls res } }"

text \<open>Drop further literals while the cube stays inductive relative to the level.\<close>

fun drop_literals ::
  "environment \<Rightarrow> transition_system \<Rightarrow> pdr \<Rightarrow> literal list \<Rightarrow> literal list \<Rightarrow> nat \<Rightarrow>
   (literal list \<times> pdr) option" where
  "drop_literals E sys st [] res level = Some (res, st)"
| "drop_literals E sys st (l # ls) res level = do {
     let res = removeAll l res;
     (keep, st) \<leftarrow>
       (if intersects_initial_states st res then Some (True, st)
        else do {
          (b, st) \<leftarrow> is_relative_inductive E sys st res level;
          Some (\<not> b, st) });
     drop_literals E sys st ls (if keep then res @ [l] else res) level }"

text \<open>Push the cube as far along the trace as it is relatively inductive.\<close>

partial_function (option) push_level ::
  "environment \<Rightarrow> transition_system \<Rightarrow> pdr \<Rightarrow> literal list \<Rightarrow> nat \<Rightarrow> (nat \<times> pdr) option" where
  "push_level E sys st c level =
     (if level \<le> depth st then do {
        (b, st) \<leftarrow> is_relative_inductive E sys st c (level + 1);
        if b then push_level E sys st c (level + 1) else Some (level, st) }
      else Some (level, st))"

definition generalize_inductive ::
  "environment \<Rightarrow> transition_system \<Rightarrow> pdr \<Rightarrow> proof_obligation \<Rightarrow> ((cube \<times> nat) \<times> pdr) option" where
  "generalize_inductive E sys st po = do {
     j \<leftarrow> first_core_level st [po_level po - 1..<Suc (depth st)] (depth st);
     let res_level = j + 1;
     e \<leftarrow> cti_get (debug_build E) (ctis st) (po_handle po);
     let all_lits = cube_literals (cti_state_vars e);
     res_lits \<leftarrow> drop_outside_core (debug_build E) sys st all_lits all_lits;
     (res_lits, st) \<leftarrow> drop_literals E sys st res_lits res_lits res_level;
     let res_cube = make_cube res_lits;
     (res_level, st) \<leftarrow> push_level E sys st (cube_literals res_cube) res_level;
     Some ((res_cube, res_level), st) }"

section \<open>Blocking and propagation\<close>

fun is_state_cube :: "transition_system \<Rightarrow> literal list \<Rightarrow> bool option" where
  "is_state_cube sys [] = Some True"
| "is_state_cube sys (l # ls) = do {
     (ty, pos) \<leftarrow> get_var_info sys (lit_var l);
     if ty = State_var then is_state_cube sys ls else Some False }"

definition assert_state_cube :: "bool \<Rightarrow> transition_system \<Rightarrow> literal list \<Rightarrow> unit option" where
  "assert_state_cube d sys ls =
     (if d then do { b \<leftarrow> is_state_cube sys ls; assert_that d b } else Some ())"

fun remove_subsumed :: "cube \<Rightarrow> nat list \<Rightarrow> cube list list \<Rightarrow> cube list list option" where
  "remove_subsumed c [] frames = Some frames"
| "remove_subsumed c (i # is) frames = do {
     cubes \<leftarrow> vec_at frames i;
     frames \<leftarrow> vec_set frames i (swap_remove_from (subsumes c) 0 cubes);
     remove_subsumed c is frames }"

definition add_blocked_at ::
  "bool \<Rightarrow> transition_system \<Rightarrow> pdr \<Rightarrow> cube \<Rightarrow> nat \<Rightarrow> nat \<Rightarrow> pdr option" where
  "add_blocked_at d sys st c level start_from = do {
     assert_that d (1 \<le> level);
     assert_that d (1 \<le> start_from \<and> start_from \<le> level);
     assert_state_cube d sys (cube_literals c);
     let k = min level (depth st);
     frames \<leftarrow> remove_subsumed c [start_from..<Suc k] (trace_blocked_cubes st);
     assert_that d (k < length frames);
     assert_that d (k < length (trace_activators st));
     cubes \<leftarrow> vec_at frames k;
     frames \<leftarrow> vec_set frames k (cubes @ [c]);
     act \<leftarrow> vec_at (trace_activators st) k;
     Some (st\<lparr>trace_blocked_cubes := frames,
              pdr_solver := assert_formula (pdr_solver st) (activate (negate c) (lit_var act))\<rparr>) }"

fun push_cubes ::
  "environment \<Rightarrow> transition_system \<Rightarrow> pdr \<Rightarrow> cube list \<Rightarrow> nat \<Rightarrow> pdr option" where
  "push_cubes E sys st [] i = Some st"
| "push_cubes E sys st (c # cubes) i = do {
     (b, st) \<leftarrow> is_relative_inductive E sys st (cube_literals c) (i + 1);
     st \<leftarrow> (if b then add_blocked_at (debug_build E) sys st c (i + 1) i else Some st);
     push_cubes E sys st cubes i }"

fun propagate_levels ::
  "environment \<Rightarrow> transition_system \<Rightarrow> pdr \<Rightarrow> nat list \<Rightarrow> (bool \<times> pdr) option" where
  "propagate_levels E sys st [] = Some (False, st)"
| "propagate_levels E sys st (i # is) = do {
     cubes \<leftarrow> vec_at (trace_blocked_cubes st) i;
     st \<leftarrow> push_cubes E sys st cubes i;
     cubes \<leftarrow> vec_at (trace_blocked_cubes st) i;
     if cubes = [] then Some (True, st) else propagate_levels E sys st is }"

definition propagate :: "environment \<Rightarrow> transition_system \<Rightarrow> pdr \<Rightarrow> (bool \<times> pdr) option" where
  "propagate E sys st = do {
     top \<leftarrow> vec_at (trace_blocked_cubes st) (depth st);
     assert_that (debug_build E) (top = []);
     propagate_levels E sys st [1..<depth st] }"

section \<open>Counterexamples\<close>

definition get_vars :: "variable_range \<Rightarrow> cube \<Rightarrow> valuation" where
  "get_vars r val =
     map (\<lambda>v. case cube_find val v of Some l \<Rightarrow> l | None \<Rightarrow> literal_of v True) (vr_vars r)"

text \<open>The loop over \<open>entry\<close> and its successors.\<close>

partial_function (option) collect_inputs ::
  "bool \<Rightarrow> transition_system \<Rightarrow> cti_pool \<Rightarrow> cti_entry \<Rightarrow> valuation list option" where
  "collect_inputs d sys p e =
     (case cti_successor e of
        None \<Rightarrow> Some [get_vars (input_vars sys) (cti_input_vars e)]
      | Some h \<Rightarrow> do {
          e' \<leftarrow> cti_get d p h;
          rest \<leftarrow> collect_inputs d sys p e';
          Some (get_vars (input_vars sys) (cti_input_vars e) # rest) })"

definition build_counterexample ::
  "bool \<Rightarrow> transition_system \<Rightarrow> pdr \<Rightarrow> cti_handle \<Rightarrow> counterexample option" where
  "build_counterexample d sys st initial = do {
     e \<leftarrow> cti_get d (ctis st) initial;
     let first = get_vars (state_vars sys) (cti_state_vars e);
     ins \<leftarrow> collect_inputs d sys (ctis st) e;
     Some \<lparr>initial_state = first, inputs = ins\<rparr> }"

section \<open>The main loops\<close>

partial_function (option) solve_queue ::
  "environment \<Rightarrow> transition_system \<Rightarrow> pdr \<Rightarrow> min_queue \<Rightarrow> (counterexample option \<times> pdr) option" where
  "solve_queue E sys st q =
     (if q = [] then Some (None, st)
      else do {
          let po = hd q;
          let q' = tl q;
          if po_level po = 0 then do {
            cex \<leftarrow> build_counterexample (debug_build E) sys st (po_handle po);
            Some (Some cex, st) }
          else do {
            (blocked, st) \<leftarrow> is_already_blocked E sys st po;
            if blocked then solve_queue E sys st q'
            else do {
              e \<leftarrow> cti_get (debug_build E) (ctis st) (po_handle po);
              assert_that (debug_build E)
                (\<not> intersects_initial_states st (cube_literals (cti_state_vars e)));
              (ind, st) \<leftarrow> is_relative_inductive E sys st (cube_literals (cti_state_vars e)) (po_level po);
              if ind then do {
                (gen, st) \<leftarrow> generalize_inductive E sys st po;
                st \<leftarrow> add_blocked_at (debug_build E) sys st (fst gen) (snd gen) 1;
                if po_level po < depth st
                then solve_queue E sys st (queue_push (Obligation (po_level po + 1) (po_handle po)) q')
                else solve_queue E sys st q' }
              else do {
                (h, st) \<leftarrow> get_predecessor E sys st po;
                solve_queue E sys st (queue_push po (queue_push (Obligation (po_level po - 1) h) q')) } } } })"

definition solve_obligation ::
  "environment \<Rightarrow> transition_system \<Rightarrow> pdr \<Rightarrow> proof_obligation \<Rightarrow>
   (counterexample option \<times> pdr) option" where
  "solve_obligation E sys st starting_po = do {
     assert_that (debug_build E) (po_level starting_po \<le> depth st);
     solve_queue E sys st (queue_push starting_po []) }"

partial_function (option) pdr_check ::
  "environment \<Rightarrow> transition_system \<Rightarrow> pdr \<Rightarrow> (result \<times> pdr) option" where
  "pdr_check E sys st0 = do {
     (cti, st) \<leftarrow> get_error_cti E sys st0;
     (case cti of
        Some h \<Rightarrow> do {
          (cex, st) \<leftarrow> solve_obligation E sys st (Obligation (depth st) h);
          (case cex of
             Some c \<Rightarrow> Some (Cex c, st)
           | None \<Rightarrow> pdr_check E sys (st\<lparr>ctis := cti_flush (ctis st)\<rparr>)) }
      | None \<Rightarrow> do {
          st \<leftarrow> pdr_push_frame (debug_build E) st;
          (fixpoint, st) \<leftarrow> propagate E sys st;
          if fixpoint then Some (Ok, st)
          else pdr_check E sys (st\<lparr>ctis := cti_flush (ctis st)\<rparr>) }) }"

definition pdr_run :: "environment \<Rightarrow> transition_system \<Rightarrow> pdr \<Rightarrow> result option" where
  "pdr_run E sys st = do {
     st \<leftarrow> pdr_initialize (debug_build E) sys st;
     (res, st) \<leftarrow> pdr_check E sys st;
     Some res }"

end
