(* ===== verification/Frames.thy ===== *)
theory Frames
  imports Main
begin

text \<open>
  The contract between the two reachability engines and their traces: a sequence of frames, each
  an over-approximation of the states reachable in that many steps, all but the topmost free of
  errors. \<open>trace_frames\<close> is the contract both CAR and PDR keep, \<open>monotone_frames\<close> adds what PDR
  promises beyond it, that later frames are larger. The engine's own invariant is the parameter
  \<open>inv\<close>; the lemmas are the two ways in which a trace decides safety.
\<close>

locale trace_frames =
  fixes inv :: "'e \<Rightarrow> bool"
    and frame :: "'e \<Rightarrow> nat \<Rightarrow> 's set"
    and top :: "'e \<Rightarrow> nat"
    and init :: "'s \<Rightarrow> bool"
    and step :: "'s \<Rightarrow> 's \<Rightarrow> bool"
    and bad :: "'s \<Rightarrow> bool"
  assumes frame_init: "inv e \<Longrightarrow> init s \<Longrightarrow> s \<in> frame e 0"
    and frame_step: "inv e \<Longrightarrow> i < top e \<Longrightarrow> s \<in> frame e i \<Longrightarrow> step s t \<Longrightarrow> t \<in> frame e (Suc i)"
    and frame_safe: "inv e \<Longrightarrow> i < top e \<Longrightarrow> s \<in> frame e i \<Longrightarrow> \<not> bad s"
begin

lemma reach_in_frame:
  assumes "inv e" and "init s"
  shows "n \<le> top e \<Longrightarrow> (step ^^ n) s t \<Longrightarrow> t \<in> frame e n"
proof (induction n arbitrary: t)
  case 0
  then show ?case using frame_init [OF assms] by simp
next
  case (Suc n)
  then obtain u where "(step ^^ n) s u" "step u t" by auto
  with Suc show ?case using frame_step [OF assms(1), of n u t] by simp
qed

text \<open>No error within fewer steps than there are frames below the top.\<close>

lemma no_short_error: "inv e \<Longrightarrow> init s \<Longrightarrow> n < top e \<Longrightarrow> (step ^^ n) s t \<Longrightarrow> \<not> bad t"
  using reach_in_frame [of e s n t] frame_safe [of e n t] by simp

text \<open>A frame inside the union of the earlier ones closes the trace.\<close>

lemma closed_frames_safe:
  assumes inv: "inv e" and k: "k < top e" and closed: "frame e (Suc k) \<subseteq> (\<Union>i \<le> k. frame e i)"
    and s: "init s" and r: "step\<^sup>*\<^sup>* s t"
  shows "\<not> bad t"
proof -
  from r have "t \<in> (\<Union>i \<le> k. frame e i)"
  proof (induction rule: rtranclp_induct)
    case base
    then show ?case using frame_init [OF inv s] by auto
  next
    case (step u v)
    then obtain i where i: "i \<le> k" "u \<in> frame e i" by auto
    then have v: "v \<in> frame e (Suc i)" using frame_step [OF inv, of i u v] step.hyps(2) k by simp
    show ?case
    proof (cases "i = k")
      case True
      with v closed show ?thesis by auto
    next
      case False
      with v i show ?thesis by (intro UN_I [of "Suc i"]) auto
    qed
  qed
  then obtain i where "i \<le> k" "t \<in> frame e i" by auto
  then show ?thesis using frame_safe [OF inv, of i t] k by simp
qed

end

locale monotone_frames = trace_frames +
  assumes frame_mono: "inv e \<Longrightarrow> i \<le> j \<Longrightarrow> j \<le> top e \<Longrightarrow> frame e i \<subseteq> frame e j"
begin

lemma repeated_frame_safe:
  "inv e \<Longrightarrow> k < top e \<Longrightarrow> frame e (Suc k) \<subseteq> frame e k \<Longrightarrow> init s \<Longrightarrow> step\<^sup>*\<^sup>* s t \<Longrightarrow> \<not> bad t"
  by (rule closed_frames_safe [of e k s t]) auto

lemma init_in_frame: "inv e \<Longrightarrow> i \<le> top e \<Longrightarrow> init s \<Longrightarrow> s \<in> frame e i"
  using frame_init [of e s] frame_mono [of e 0 i] by auto

end

end
