(* ===== verification/PdrInvariant.thy ===== *)
theory PdrInvariant
  imports Pdr Frames
begin

text \<open>
  The invariant of the PDR engine.

  \<^item> \<open>pdr_frame sys st i\<close> is the set of states of frame \<open>i\<close>: no cube blocked at level \<open>i\<close> or
    above, and for \<open>i = 0\<close> initial.
  \<^item> \<open>pdr_trace sys st\<close> is the invariant of the trace: its shape, the activation literals, the
    activated formulas, and the facts about the frames that make the algorithm correct.
  \<^item> \<open>solver_ok sys st\<close> relates the clauses in the solver to the trace: the solver may hold more
    than the trace (clauses of subsumed cubes stay until the next refresh), but only clauses that
    follow from the trace whenever the activators of all later frames are enabled, as they are
    in every query.
\<close>

section \<open>Frames\<close>

abbreviation holds_in :: "transition_system \<Rightarrow> state \<Rightarrow> literal list \<Rightarrow> bool" where
  "holds_in sys s ls \<equiv> lits_hold (state_vars sys) s ls"

definition pdr_frame :: "transition_system \<Rightarrow> pdr \<Rightarrow> nat \<Rightarrow> state set" where
  "pdr_frame sys st i =
     {s \<in> all_states sys. (i = 0 \<longrightarrow> init_state sys s) \<and>
        (\<forall>j < length (trace_blocked_cubes st). i \<le> j \<longrightarrow>
           (\<forall>c \<in> set (trace_blocked_cubes st ! j). \<not> holds_in sys s (cube_literals c)))}"

definition blocked_cube_ok :: "transition_system \<Rightarrow> cube \<Rightarrow> bool" where
  "blocked_cube_ok sys c \<longleftrightarrow>
     cube_sorted c \<and> lits_over (state_vars sys) (cube_literals c) \<and>
     (\<forall>s. init_state sys s \<longrightarrow> \<not> holds_in sys s (cube_literals c))"

definition system_var :: "transition_system \<Rightarrow> variable \<Rightarrow> bool" where
  "system_var sys v \<longleftrightarrow>
     vr_contains (input_vars sys) v \<or> vr_contains (state_vars sys) v \<or>
     vr_contains (next_state_vars sys) v \<or> vr_contains (aux_vars sys) v"

text \<open>The variables an engine may still take from the store are unused.\<close>

definition fresh_from :: "transition_system \<Rightarrow> int \<Rightarrow> bool" where
  "fresh_from sys n \<longleftrightarrow> (\<forall>v. system_var sys v \<longrightarrow> var_id v < n)"

definition activator_ok :: "transition_system \<Rightarrow> int \<Rightarrow> literal \<Rightarrow> bool" where
  "activator_ok sys n l \<longleftrightarrow>
     l \<noteq> separator \<and> lit_sign l \<and> \<not> system_var sys (lit_var l) \<and> var_id (lit_var l) < n"

definition all_activators :: "pdr \<Rightarrow> literal list" where
  "all_activators st = transition_activator st # error_activator st # trace_activators st"

definition activators_ok :: "transition_system \<Rightarrow> pdr \<Rightarrow> bool" where
  "activators_ok sys st \<longleftrightarrow>
     fresh_from sys (get_next_id (pdr_store st)) \<and>
     (\<forall>l \<in> set (all_activators st). activator_ok sys (get_next_id (pdr_store st)) l) \<and>
     distinct (map lit_var (all_activators st))"

definition init_lits :: "transition_system \<Rightarrow> literal list" where
  "init_lits sys = filter (\<lambda>l. l \<noteq> separator) (cnf_literals (ts_init sys))"

definition formulas_ok :: "transition_system \<Rightarrow> pdr \<Rightarrow> bool" where
  "formulas_ok sys st \<longleftrightarrow>
     activated_init st = activate (ts_init sys) (lit_var (trace_activators st ! 0)) \<and>
     activated_trans st = activate (ts_trans sys) (lit_var (transition_activator st)) \<and>
     activated_error st = activate (ts_error sys) (lit_var (error_activator st)) \<and>
     init_cube st = make_cube (init_lits sys)"

definition trace_shape :: "transition_system \<Rightarrow> pdr \<Rightarrow> bool" where
  "trace_shape sys st \<longleftrightarrow>
     trace_blocked_cubes st \<noteq> [] \<and>
     length (trace_activators st) = length (trace_blocked_cubes st) \<and>
     trace_blocked_cubes st ! 0 = [] \<and>
     (\<forall>cubes \<in> set (trace_blocked_cubes st). \<forall>c \<in> set cubes. blocked_cube_ok sys c)"

text \<open>What the engine assumes of the system it is given.\<close>

definition pdr_system :: "transition_system \<Rightarrow> bool" where
  "pdr_system sys \<longleftrightarrow> well_formed_system sys \<and> init_is_cube sys \<and> functional_system sys"

definition pdr_trace :: "transition_system \<Rightarrow> pdr \<Rightarrow> bool" where
  "pdr_trace sys st \<longleftrightarrow>
     pdr_system sys \<and> activators_ok sys st \<and> formulas_ok sys st \<and> trace_shape sys st \<and>
     (\<forall>i < depth st. \<forall>s t inp. s \<in> pdr_frame sys st i \<longrightarrow> trans_step sys s inp t \<longrightarrow>
        t \<in> pdr_frame sys st (Suc i)) \<and>
     (\<forall>i < depth st. \<forall>s inp. s \<in> pdr_frame sys st i \<longrightarrow> \<not> error_state sys s inp)"

section \<open>The solver's clauses and the trace\<close>

definition frames_sat :: "transition_system \<Rightarrow> pdr \<Rightarrow> assignment \<Rightarrow> bool" where
  "frames_sat sys st \<sigma> \<longleftrightarrow>
     (\<sigma> (lit_var (trace_activators st ! 0)) \<longrightarrow> cnf_sat \<sigma> (ts_init sys)) \<and>
     (\<sigma> (lit_var (transition_activator st)) \<longrightarrow> cnf_sat \<sigma> (ts_trans sys)) \<and>
     (\<sigma> (lit_var (error_activator st)) \<longrightarrow> cnf_sat \<sigma> (ts_error sys)) \<and>
     (\<forall>j < length (trace_blocked_cubes st). \<forall>c \<in> set (trace_blocked_cubes st ! j).
        \<sigma> (lit_var (trace_activators st ! j)) \<longrightarrow> \<not> cube_true \<sigma> c)"

definition up_closed :: "pdr \<Rightarrow> assignment \<Rightarrow> bool" where
  "up_closed st \<sigma> \<longleftrightarrow>
     (\<forall>i j. i \<le> j \<longrightarrow> j < length (trace_activators st) \<longrightarrow>
        \<sigma> (lit_var (trace_activators st ! i)) \<longrightarrow> \<sigma> (lit_var (trace_activators st ! j)))"

definition agrees :: "transition_system \<Rightarrow> pdr \<Rightarrow> bool" where
  "agrees sys st \<longleftrightarrow>
     terminated (added (pdr_solver st)) \<and>
     (\<forall>\<sigma>. stream_sat \<sigma> (added (pdr_solver st)) \<longrightarrow> frames_sat sys st \<sigma>) \<and>
     (\<forall>\<sigma>. frames_sat sys st \<sigma> \<longrightarrow> up_closed st \<sigma> \<longrightarrow> stream_sat \<sigma> (added (pdr_solver st)))"

definition solver_ok :: "transition_system \<Rightarrow> pdr \<Rightarrow> bool" where
  "solver_ok sys st \<longleftrightarrow> idle (pdr_solver st) \<and> (queries st = 0 \<or> agrees sys st)"

text \<open>A step that touches only the solver and the query counter.\<close>

definition solver_step :: "pdr \<Rightarrow> pdr \<Rightarrow> bool" where
  "solver_step st st' \<longleftrightarrow> st' = st\<lparr>pdr_solver := pdr_solver st', queries := queries st'\<rparr>"

lemma depth_update [simp]:
  "depth (st\<lparr>pdr_solver := sv\<rparr>) = depth st"
  "depth (st\<lparr>queries := n\<rparr>) = depth st"
  "depth (st\<lparr>ctis := p\<rparr>) = depth st"
  by (simp_all add: depth_def)

lemma pdr_frame_update [simp]:
  "pdr_frame sys (st\<lparr>pdr_solver := sv\<rparr>) = pdr_frame sys st"
  "pdr_frame sys (st\<lparr>queries := n\<rparr>) = pdr_frame sys st"
  "pdr_frame sys (st\<lparr>ctis := p\<rparr>) = pdr_frame sys st"
  by (simp_all add: pdr_frame_def fun_eq_iff)

lemma pdr_trace_update [simp]:
  "pdr_trace sys (st\<lparr>pdr_solver := sv\<rparr>) = pdr_trace sys st"
  "pdr_trace sys (st\<lparr>queries := n\<rparr>) = pdr_trace sys st"
  "pdr_trace sys (st\<lparr>ctis := p\<rparr>) = pdr_trace sys st"
  by (simp_all add: pdr_trace_def activators_ok_def all_activators_def formulas_ok_def trace_shape_def)

lemma frames_sat_update [simp]:
  "frames_sat sys (st\<lparr>pdr_solver := sv\<rparr>) = frames_sat sys st"
  "frames_sat sys (st\<lparr>queries := n\<rparr>) = frames_sat sys st"
  "frames_sat sys (st\<lparr>ctis := p\<rparr>) = frames_sat sys st"
  by (simp_all add: frames_sat_def fun_eq_iff)

lemma up_closed_update [simp]:
  "up_closed (st\<lparr>pdr_solver := sv\<rparr>) = up_closed st"
  "up_closed (st\<lparr>queries := n\<rparr>) = up_closed st"
  "up_closed (st\<lparr>ctis := p\<rparr>) = up_closed st"
  by (simp_all add: up_closed_def fun_eq_iff)

lemma agrees_update [simp]:
  "agrees sys (st\<lparr>queries := n\<rparr>) = agrees sys st"
  "agrees sys (st\<lparr>ctis := p\<rparr>) = agrees sys st"
  by (simp_all add: agrees_def)

lemma agrees_solver:
  "agrees sys st \<Longrightarrow> added sv = added (pdr_solver st) \<Longrightarrow> agrees sys (st\<lparr>pdr_solver := sv\<rparr>)"
  by (simp add: agrees_def)

lemma solver_ok_ctis [simp]: "solver_ok sys (st\<lparr>ctis := p\<rparr>) = solver_ok sys st"
  by (simp add: solver_ok_def)

lemma solver_step_refl [simp]: "solver_step st st"
  by (simp add: solver_step_def)

lemma solver_step_update [simp]: "solver_step st (st\<lparr>pdr_solver := sv, queries := n\<rparr>)"
  by (simp add: solver_step_def)

lemma solver_step_trans: "solver_step a b \<Longrightarrow> solver_step b c \<Longrightarrow> solver_step a c"
  unfolding solver_step_def by (cases a; cases b; cases c) simp

lemma solver_step_solver: "solver_step st st' \<Longrightarrow> solver_step st (st'\<lparr>pdr_solver := sv\<rparr>)"
  unfolding solver_step_def by (cases st; cases st') simp

lemma solver_step_queries: "solver_step st st' \<Longrightarrow> solver_step st (st'\<lparr>queries := n\<rparr>)"
  unfolding solver_step_def by (cases st; cases st') simp

lemma solver_step_same:
  assumes "solver_step st st'"
  shows "pdr_trace sys st' = pdr_trace sys st" and "pdr_frame sys st' = pdr_frame sys st"
    and "depth st' = depth st" and "ctis st' = ctis st"
    and "trace_blocked_cubes st' = trace_blocked_cubes st"
    and "trace_activators st' = trace_activators st"
    and "transition_activator st' = transition_activator st"
    and "error_activator st' = error_activator st" and "init_cube st' = init_cube st"
    and "pdr_store st' = pdr_store st"
    and "frames_sat sys st' = frames_sat sys st" and "up_closed st' = up_closed st"
proof -
  obtain sv n where st': "st' = st\<lparr>pdr_solver := sv, queries := n\<rparr>"
    using assms unfolding solver_step_def by blast
  show "pdr_trace sys st' = pdr_trace sys st" "pdr_frame sys st' = pdr_frame sys st"
    "depth st' = depth st" "ctis st' = ctis st"
    "trace_blocked_cubes st' = trace_blocked_cubes st"
    "trace_activators st' = trace_activators st"
    "transition_activator st' = transition_activator st"
    "error_activator st' = error_activator st" "init_cube st' = init_cube st"
    "pdr_store st' = pdr_store st"
    "frames_sat sys st' = frames_sat sys st" "up_closed st' = up_closed st"
    unfolding st' by simp_all
qed

section \<open>Refreshing the solver\<close>

lemma activator_var:
  assumes "pdr_trace sys st" and "l \<in> set (all_activators st)"
  shows "0 < var_id (lit_var l)" and "\<not> system_var sys (lit_var l)"
    and "lit_true \<sigma> l = \<sigma> (lit_var l)" and "literal_of (lit_var l) False = l" and "l \<noteq> separator"
proof -
  have "activator_ok sys (get_next_id (pdr_store st)) l"
    using assms by (simp add: pdr_trace_def activators_ok_def)
  then show "0 < var_id (lit_var l)" "\<not> system_var sys (lit_var l)"
    "lit_true \<sigma> l = \<sigma> (lit_var l)" "literal_of (lit_var l) False = l" "l \<noteq> separator"
    using literal_of_var_sign [of l] by (auto simp: activator_ok_def lit_true_def)
qed

lemma trace_activator_mem:
  "j < length (trace_activators st) \<Longrightarrow> trace_activators st ! j \<in> set (all_activators st)"
  by (simp add: all_activators_def)

lemma blocked_cube_over:
  "pdr_trace sys st \<Longrightarrow> j < length (trace_blocked_cubes st) \<Longrightarrow>
   c \<in> set (trace_blocked_cubes st ! j) \<Longrightarrow> blocked_cube_ok sys c"
  by (auto simp: pdr_trace_def trace_shape_def)

lemma blocked_clause_sat:
  assumes "blocked_cube_ok sys c" and "0 < var_id a"
  shows "cnf_sat \<sigma> (activate (negate c) a) \<longleftrightarrow> (\<sigma> a \<longrightarrow> \<not> cube_true \<sigma> c)"
    and "well_formed_cnf (activate (negate c) a)"
proof -
  have "separator \<notin> set (cube_literals c)"
    using assms(1) by (auto simp: blocked_cube_ok_def dest: lits_over_sep)
  then show "cnf_sat \<sigma> (activate (negate c) a) \<longleftrightarrow> (\<sigma> a \<longrightarrow> \<not> cube_true \<sigma> c)"
    "well_formed_cnf (activate (negate c) a)"
    using assms(2) by (simp_all add: cnf_sat_negate)
qed

lemma assert_cubes:
  assumes "idle sv" and "terminated (added sv)" and "0 < var_id a"
    and "\<forall>c \<in> set cs. blocked_cube_ok sys c"
  shows "let sv' = foldl (\<lambda>sv c. assert_formula sv (activate (negate c) a)) sv cs
         in idle sv' \<and> terminated (added sv') \<and>
            (\<forall>\<sigma>. stream_sat \<sigma> (added sv') \<longleftrightarrow>
               stream_sat \<sigma> (added sv) \<and> (\<forall>c \<in> set cs. \<sigma> a \<longrightarrow> \<not> cube_true \<sigma> c))"
  using assms
proof (induction cs arbitrary: sv)
  case Nil
  then show ?case by simp
next
  case (Cons c cs)
  define sv1 where "sv1 = assert_formula sv (activate (negate c) a)"
  have f: "cnf_sat \<sigma> (activate (negate c) a) \<longleftrightarrow> (\<sigma> a \<longrightarrow> \<not> cube_true \<sigma> c)"
    and t: "terminated (cnf_literals (activate (negate c) a))" for \<sigma>
    using blocked_clause_sat [of sys c a] Cons.prems by (auto simp: well_formed_cnf_def)
  have 1: "idle sv1" "terminated (added sv1)"
    "\<And>\<sigma>. stream_sat \<sigma> (added sv1) \<longleftrightarrow> stream_sat \<sigma> (added sv) \<and> (\<sigma> a \<longrightarrow> \<not> cube_true \<sigma> c)"
    using Cons.prems t f by (auto simp: sv1_def terminated_append cnf_sat_def)
  from Cons.IH [OF 1(1,2) Cons.prems(3)] Cons.prems(4)
  show ?case by (auto simp: Let_def sv1_def [symmetric] 1(3))
qed

lemma assert_blocked_frames:
  assumes "idle sv" and "terminated (added sv)"
    and "\<forall>(cubes, act) \<in> set frames. 0 < var_id (lit_var act) \<and> (\<forall>c \<in> set cubes. blocked_cube_ok sys c)"
  shows "let sv' = assert_blocked sv frames
         in idle sv' \<and> terminated (added sv') \<and>
            (\<forall>\<sigma>. stream_sat \<sigma> (added sv') \<longleftrightarrow>
               stream_sat \<sigma> (added sv) \<and>
               (\<forall>(cubes, act) \<in> set frames. \<forall>c \<in> set cubes. \<sigma> (lit_var act) \<longrightarrow> \<not> cube_true \<sigma> c))"
  using assms
proof (induction sv frames rule: assert_blocked.induct)
  case (1 sv)
  then show ?case by simp
next
  case (2 sv cubes act frames)
  define sv1 where
    "sv1 = foldl (\<lambda>sv c. assert_formula sv (activate (negate c) (lit_var act))) sv cubes"
  have 1: "idle sv1" "terminated (added sv1)"
    "\<And>\<sigma>. stream_sat \<sigma> (added sv1) \<longleftrightarrow>
      stream_sat \<sigma> (added sv) \<and> (\<forall>c \<in> set cubes. \<sigma> (lit_var act) \<longrightarrow> \<not> cube_true \<sigma> c)"
    using assert_cubes [of sv "lit_var act" cubes sys] "2.prems" by (auto simp: Let_def sv1_def)
  from "2.IH" [folded sv1_def, OF 1(1,2)] "2.prems"(3)
  show ?case by (auto simp: Let_def sv1_def [symmetric] 1(3))
qed

lemma refresh_agrees:
  assumes "pdr_trace sys st"
  shows "agrees sys (pdr_refresh_solver st)" and "idle (pdr_solver (pdr_refresh_solver st))"
    and "solver_step st (pdr_refresh_solver st)" and "queries (pdr_refresh_solver st) = 0"
proof -
  define acts where "acts = trace_activators st"
  define bl where "bl = trace_blocked_cubes st"
  have wf: "well_formed_cnf (ts_init sys)" "well_formed_cnf (ts_trans sys)" "well_formed_cnf (ts_error sys)"
    using assms by (auto simp: pdr_trace_def pdr_system_def well_formed_system_def formula_over_def)
  have len: "length acts = length bl" "bl \<noteq> []"
    using assms by (auto simp: pdr_trace_def trace_shape_def acts_def bl_def)
  have vars: "0 < var_id (lit_var l)" if "l \<in> set (all_activators st)" for l
    using activator_var(1) [OF assms that] .
  have v0: "0 < var_id (lit_var (acts ! 0))" "0 < var_id (lit_var (transition_activator st))"
    "0 < var_id (lit_var (error_activator st))"
    using vars trace_activator_mem [of 0 st] len by (auto simp: acts_def all_activators_def)
  define sv0 where "sv0 = assert_formula (assert_formula (assert_formula (solver_reset (pdr_solver st))
      (activated_init st)) (activated_trans st)) (activated_error st)"
  have forms: "activated_init st = activate (ts_init sys) (lit_var (acts ! 0))"
    "activated_trans st = activate (ts_trans sys) (lit_var (transition_activator st))"
    "activated_error st = activate (ts_error sys) (lit_var (error_activator st))"
    using assms by (auto simp: pdr_trace_def formulas_ok_def acts_def)
  have t: "terminated (cnf_literals (activate f a))" if "well_formed_cnf f" for f a
    using well_formed_activate [OF that] by (simp add: well_formed_cnf_def)
  have sv0: "idle sv0" "terminated (added sv0)"
    "stream_sat \<sigma> (added sv0) \<longleftrightarrow>
      (\<sigma> (lit_var (acts ! 0)) \<longrightarrow> cnf_sat \<sigma> (ts_init sys)) \<and>
      (\<sigma> (lit_var (transition_activator st)) \<longrightarrow> cnf_sat \<sigma> (ts_trans sys)) \<and>
      (\<sigma> (lit_var (error_activator st)) \<longrightarrow> cnf_sat \<sigma> (ts_error sys))" for \<sigma>
    using wf v0 t by (simp_all add: sv0_def forms terminated_append cnf_sat_def [symmetric])
  define sv1 where "sv1 = assert_blocked sv0 (zip bl acts)"
  have fr: "\<forall>(cubes, act) \<in> set (zip bl acts).
      0 < var_id (lit_var act) \<and> (\<forall>c \<in> set cubes. blocked_cube_ok sys c)"
  proof (clarify, intro conjI ballI)
    fix cubes act assume m: "(cubes, act) \<in> set (zip bl acts)"
    show "0 < var_id (lit_var act)"
      using set_zip_rightD [OF m] vars by (simp add: acts_def all_activators_def)
    show "blocked_cube_ok sys c" if "c \<in> set cubes" for c
      using set_zip_leftD [OF m] that assms by (auto simp: bl_def pdr_trace_def trace_shape_def)
  qed
  have sv1: "idle sv1" "terminated (added sv1)"
    "stream_sat \<sigma> (added sv1) \<longleftrightarrow> stream_sat \<sigma> (added sv0) \<and>
      (\<forall>(cubes, act) \<in> set (zip bl acts). \<forall>c \<in> set cubes. \<sigma> (lit_var act) \<longrightarrow> \<not> cube_true \<sigma> c)" for \<sigma>
    using assert_blocked_frames [OF sv0(1,2) fr] by (auto simp: Let_def sv1_def)
  have eq: "pdr_refresh_solver st = st\<lparr>pdr_solver := sv1, queries := 0\<rparr>"
    by (simp add: pdr_refresh_solver_def Let_def sv1_def sv0_def acts_def bl_def)
  have fs: "stream_sat \<sigma> (added sv1) \<longleftrightarrow> frames_sat sys st \<sigma>" for \<sigma>
    unfolding sv1(3) sv0(3) frames_sat_def using len
    by (auto simp: acts_def bl_def set_zip)
  show "agrees sys (pdr_refresh_solver st)"
    using sv1(2) fs by (simp add: eq agrees_def)
  show "idle (pdr_solver (pdr_refresh_solver st))" using sv1(1) by (simp add: eq)
  show "solver_step st (pdr_refresh_solver st)" by (simp add: eq)
  show "queries (pdr_refresh_solver st) = 0" by (simp add: eq)
qed

lemma with_solver_ok:
  assumes "pdr_trace sys st" and "solver_ok sys st"
  shows "agrees sys (pdr_with_solver st)" and "idle (pdr_solver (pdr_with_solver st))"
    and "solver_step st (pdr_with_solver st)"
proof -
  have "agrees sys (pdr_with_solver st) \<and> idle (pdr_solver (pdr_with_solver st)) \<and>
      solver_step st (pdr_with_solver st)"
  proof (cases "queries st mod solver_refresh_rate = 0")
    case True
    with refresh_agrees [OF assms(1)] show ?thesis
      by (simp add: pdr_with_solver_def Let_def solver_step_queries)
  next
    case False
    then have "queries st \<noteq> 0" by (metis mod_0)
    with False assms(2) show ?thesis
      by (auto simp: pdr_with_solver_def Let_def solver_ok_def intro!: solver_step_queries)
  qed
  then show "agrees sys (pdr_with_solver st)" "idle (pdr_solver (pdr_with_solver st))"
    "solver_step st (pdr_with_solver st)" by auto
qed

end
