(* ===== verification/PdrQueries.thy ===== *)
theory PdrQueries
  imports PdrInvariant
begin

text \<open>
  What the queries of the PDR engine answer, in terms of states and frames. A model of a query is
  a state of the queried frame; conversely an assignment whose state is in the frame extends, by
  setting the activators as the query assumes them, to one that satisfies the solver's clauses, so
  an unsatisfiable query says that no such state exists.
\<close>

section \<open>Models and frames\<close>

lemma frame_of_model:
  assumes "pdr_trace sys st" and "l \<le> depth st" and "frames_sat sys st m"
    and "lits_true m (drop l (trace_activators st))"
  shows "read (state_vars sys) m \<in> pdr_frame sys st l"
proof -
  have wf: "well_formed_system sys" using assms(1) by (simp add: pdr_trace_def pdr_system_def)
  have len: "length (trace_activators st) = length (trace_blocked_cubes st)"
    "length (trace_blocked_cubes st) \<noteq> 0"
    using assms(1) by (auto simp: pdr_trace_def trace_shape_def)
  have act: "m (lit_var (trace_activators st ! j))" if "l \<le> j" "j < length (trace_activators st)" for j
  proof -
    have "trace_activators st ! j \<in> set (drop l (trace_activators st))"
      using that by (rule nth_in_drop)
    then have "lit_true m (trace_activators st ! j)" using assms(4) by (simp add: lits_true_def)
    then show ?thesis using activator_var(3) [OF assms(1) trace_activator_mem [OF that(2)]] by simp
  qed
  have init: "init_state sys (read (state_vars sys) m)" if "l = 0"
    using act [of 0] that len assms(3) wf by (simp add: frames_sat_def init_state_read)
  have "\<not> holds_in sys (read (state_vars sys) m) (cube_literals c)"
    if "j < length (trace_blocked_cubes st)" "l \<le> j" "c \<in> set (trace_blocked_cubes st ! j)" for j c
  proof -
    have "\<not> cube_true m c" using that act [of j] assms(3) len by (auto simp: frames_sat_def)
    then show ?thesis
      using blocked_cube_over [OF assms(1) that(1,3)]
      by (simp add: blocked_cube_ok_def cube_true_read [of "state_vars sys" c m])
  qed
  with init show ?thesis by (simp add: pdr_frame_def all_states_def num_state_vars_def)
qed

text \<open>An assignment with the activators set as in a query of frame \<open>l\<close>.\<close>

definition with_flags :: "pdr \<Rightarrow> nat \<Rightarrow> bool \<Rightarrow> bool \<Rightarrow> assignment \<Rightarrow> assignment" where
  "with_flags st l bt be \<sigma> v =
     (if v \<in> lit_var ` set (trace_activators st)
      then v \<in> lit_var ` set (drop l (trace_activators st))
      else if v = lit_var (transition_activator st) then bt
      else if v = lit_var (error_activator st) then be
      else \<sigma> v)"

lemma with_flags_sys:
  assumes "pdr_trace sys st" and "system_var sys v"
  shows "with_flags st l bt be \<sigma> v = \<sigma> v"
proof -
  have "v \<noteq> lit_var a" if "a \<in> set (all_activators st)" for a
    using activator_var(2) [OF assms(1) that] assms(2) by auto
  then show ?thesis by (auto simp: with_flags_def all_activators_def)
qed

lemma with_flags_read:
  assumes "pdr_trace sys st"
  shows "read (state_vars sys) (with_flags st l bt be \<sigma>) = read (state_vars sys) \<sigma>"
    and "read (input_vars sys) (with_flags st l bt be \<sigma>) = read (input_vars sys) \<sigma>"
    and "read (next_state_vars sys) (with_flags st l bt be \<sigma>) = read (next_state_vars sys) \<sigma>"
  by (rule read_eqI, rule with_flags_sys [OF assms], simp add: system_var_def)+

lemma with_flags_act:
  assumes "pdr_trace sys st"
  shows "j < length (trace_activators st) \<Longrightarrow>
      with_flags st l bt be \<sigma> (lit_var (trace_activators st ! j)) = (l \<le> j)"
    and "with_flags st l bt be \<sigma> (lit_var (transition_activator st)) = bt"
    and "with_flags st l bt be \<sigma> (lit_var (error_activator st)) = be"
proof -
  have d: "distinct (map lit_var (all_activators st))"
    using assms by (simp add: pdr_trace_def activators_ok_def)
  define vs where "vs = map lit_var (trace_activators st)"
  have dv: "distinct vs" "lit_var (transition_activator st) \<notin> set vs"
    "lit_var (error_activator st) \<notin> set vs"
    "lit_var (transition_activator st) \<noteq> lit_var (error_activator st)"
    using d by (auto simp: all_activators_def vs_def)
  have m: "lit_var ` set (drop l (trace_activators st)) = set (drop l vs)"
    "lit_var ` set (trace_activators st) = set vs"
    by (simp_all add: vs_def drop_map)
  show "with_flags st l bt be \<sigma> (lit_var (transition_activator st)) = bt"
    "with_flags st l bt be \<sigma> (lit_var (error_activator st)) = be"
    unfolding with_flags_def m using dv by simp_all
  assume j: "j < length (trace_activators st)"
  have "vs ! j \<in> set (drop l vs) \<longleftrightarrow> l \<le> j"
  proof
    assume "vs ! j \<in> set (drop l vs)"
    then obtain k where "k < length vs - l" "vs ! j = vs ! (l + k)"
      by (auto simp: in_set_conv_nth)
    then have "j = l + k"
      using nth_eq_iff_index_eq [OF dv(1), of j "l + k"] j by (simp add: vs_def)
    then show "l \<le> j" by simp
  next
    assume "l \<le> j"
    then show "vs ! j \<in> set (drop l vs)" by (rule nth_in_drop) (use j in \<open>simp add: vs_def\<close>)
  qed
  moreover have "vs ! j = lit_var (trace_activators st ! j)" "vs ! j \<in> set vs"
    using j by (simp_all add: vs_def)
  ultimately show "with_flags st l bt be \<sigma> (lit_var (trace_activators st ! j)) = (l \<le> j)"
    unfolding with_flags_def m by simp
qed

lemma with_flags_sat:
  assumes "pdr_trace sys st" and "read (state_vars sys) \<sigma> \<in> pdr_frame sys st l"
    and "bt \<Longrightarrow> cnf_sat \<sigma> (ts_trans sys)" and "be \<Longrightarrow> cnf_sat \<sigma> (ts_error sys)"
  shows "frames_sat sys st (with_flags st l bt be \<sigma>)" and "up_closed st (with_flags st l bt be \<sigma>)"
proof -
  define \<tau> where "\<tau> = with_flags st l bt be \<sigma>"
  have wf: "well_formed_system sys" using assms(1) by (simp add: pdr_trace_def pdr_system_def)
  have len: "length (trace_activators st) = length (trace_blocked_cubes st)"
    "length (trace_blocked_cubes st) \<noteq> 0"
    using assms(1) by (auto simp: pdr_trace_def trace_shape_def)
  note flags = with_flags_act(1) [OF assms(1), of _ l bt be \<sigma>, folded \<tau>_def]
    with_flags_act(2,3) [OF assms(1), of l bt be \<sigma>, folded \<tau>_def]
  note sys = with_flags_sys [OF assms(1), of _ l bt be \<sigma>, folded \<tau>_def]
  note rd = with_flags_read(1) [OF assms(1), of l bt be \<sigma>, folded \<tau>_def]
  have tr: "cnf_sat \<tau> (ts_trans sys) = cnf_sat \<sigma> (ts_trans sys)"
    by (rule formula_over_cong [where rs = "[input_vars sys, state_vars sys, next_state_vars sys, aux_vars sys]"])
      (use wf sys in \<open>auto simp: well_formed_system_def system_var_def\<close>)
  have er: "cnf_sat \<tau> (ts_error sys) = cnf_sat \<sigma> (ts_error sys)"
    by (rule formula_over_cong [where rs = "[input_vars sys, state_vars sys, aux_vars sys]"])
      (use wf sys in \<open>auto simp: well_formed_system_def system_var_def\<close>)
  have i: "cnf_sat \<tau> (ts_init sys)" if "l = 0"
  proof -
    have "init_state sys (read (state_vars sys) \<sigma>)"
      using assms(2) that by (simp add: pdr_frame_def)
    then show ?thesis using init_state_read [OF wf, of \<tau>] rd by simp
  qed
  have b: "\<not> cube_true \<tau> c"
    if "j < length (trace_blocked_cubes st)" "l \<le> j" "c \<in> set (trace_blocked_cubes st ! j)" for j c
  proof -
    have "\<not> holds_in sys (read (state_vars sys) \<sigma>) (cube_literals c)"
      using assms(2) that by (auto simp: pdr_frame_def)
    then show ?thesis
      using blocked_cube_over [OF assms(1) that(1,3)] rd
      by (simp add: blocked_cube_ok_def cube_true_read [of "state_vars sys" c \<tau>])
  qed
  show "frames_sat sys st (with_flags st l bt be \<sigma>)"
    unfolding \<tau>_def [symmetric] frames_sat_def
    using flags tr er i b assms(3,4) len by auto
  show "up_closed st (with_flags st l bt be \<sigma>)"
    unfolding \<tau>_def [symmetric] up_closed_def using flags by auto
qed

section \<open>Relative induction\<close>

text \<open>The cube \<open>c\<close> is inductive relative to frame \<open>j\<close>.\<close>

definition rel_inductive :: "transition_system \<Rightarrow> pdr \<Rightarrow> literal list \<Rightarrow> nat \<Rightarrow> bool" where
  "rel_inductive sys st c j \<longleftrightarrow>
     (\<forall>s inp t. s \<in> pdr_frame sys st j \<longrightarrow> \<not> holds_in sys s c \<longrightarrow> trans_step sys s inp t \<longrightarrow>
        \<not> holds_in sys t c)"

text \<open>
  What the core of an unsatisfiable query for \<open>s\<close> at level \<open>i\<close> says: it stays unsatisfiable for
  every smaller cube that keeps the core literals, at every frame up to the first one whose
  activator is in the core.
\<close>

definition core_blocks :: "transition_system \<Rightarrow> pdr \<Rightarrow> literal list \<Rightarrow> nat \<Rightarrow> (literal \<Rightarrow> bool) \<Rightarrow> bool" where
  "core_blocks sys st s i core \<longleftrightarrow>
     (\<forall>j c. i - 1 \<le> j \<longrightarrow> j \<le> depth st \<longrightarrow>
        (\<forall>k. i - 1 \<le> k \<longrightarrow> k < j \<longrightarrow> \<not> core (trace_activators st ! k)) \<longrightarrow>
        set c \<subseteq> set s \<longrightarrow> (\<forall>l \<in> set s. core (primed sys l) \<longrightarrow> l \<in> set c) \<longrightarrow>
        rel_inductive sys st c j)"

definition pred_model :: "transition_system \<Rightarrow> pdr \<Rightarrow> literal list \<Rightarrow> nat \<Rightarrow> assignment \<Rightarrow> bool" where
  "pred_model sys st s i m \<longleftrightarrow>
     read (state_vars sys) m \<in> pdr_frame sys st (i - 1) \<and>
     \<not> holds_in sys (read (state_vars sys) m) s \<and>
     trans_step sys (read (state_vars sys) m) (read (input_vars sys) m) (read (next_state_vars sys) m) \<and>
     holds_in sys (read (next_state_vars sys) m) s"

text \<open>The invariant between two queries.\<close>

definition pdr_inv :: "transition_system \<Rightarrow> pdr \<Rightarrow> bool" where
  "pdr_inv sys st \<longleftrightarrow> pdr_trace sys st \<and> solver_ok sys st"

lemma pdr_inv_ctis [simp]: "pdr_inv sys (st\<lparr>ctis := p\<rparr>) = pdr_inv sys st"
  by (simp add: pdr_inv_def)

lemma pdr_inv_step:
  assumes "pdr_inv sys st"
    and "solver_step st st'" and "agrees sys st'" and "idle (pdr_solver st')"
  shows "pdr_inv sys st'"
  using assms by (simp add: pdr_inv_def solver_ok_def solver_step_same)

lemma pdr_inv_system:
  "pdr_inv sys st \<Longrightarrow> well_formed_system sys \<and> init_is_cube sys \<and> functional_system sys"
  by (simp add: pdr_inv_def pdr_trace_def pdr_system_def)

lemma trace_len:
  "pdr_trace sys st \<Longrightarrow>
   length (trace_activators st) = Suc (depth st) \<and> length (trace_blocked_cubes st) = Suc (depth st)"
  by (auto simp: pdr_trace_def trace_shape_def depth_def)

lemma activators_from_runs:
  "pdr_trace sys st \<Longrightarrow> l \<le> depth st \<Longrightarrow>
   activators_from d st l = Some (drop l (trace_activators st))"
  using trace_len [of sys st] by (simp add: activators_from_def assert_that_holds)

text \<open>A finished query: the new state and the solver's answer.\<close>

lemma query_done:
  assumes inv: "pdr_inv sys st" and "sound_oracle (sat_solver E)"
    and st1: "st1 = pdr_with_solver st"
    and asks: "asks sv (added (pdr_solver st1)) A C" and "terminated C"
    and r: "is_sat E sv = (b, sv')"
  shows "sat_answer sv (added (pdr_solver st1)) A C (b, sv')"
    and "pdr_inv sys (st1\<lparr>pdr_solver := sv'\<rparr>)" and "solver_step st (st1\<lparr>pdr_solver := sv'\<rparr>)"
proof -
  have tr: "pdr_trace sys st" and so: "solver_ok sys st" using inv by (auto simp: pdr_inv_def)
  note w = with_solver_ok [OF tr so, folded st1]
  have t: "terminated (added (pdr_solver st1))" using w(1) by (simp add: agrees_def)
  have ans: "sat_answer sv (added (pdr_solver st1)) A C (is_sat E sv)"
    by (rule is_sat_answer) (use assms t in auto)
  then show "sat_answer sv (added (pdr_solver st1)) A C (b, sv')" by (simp add: r)
  then have "idle sv'" "added sv' = added (pdr_solver st1)" by (auto simp: sat_answer_def)
  moreover show "solver_step st (st1\<lparr>pdr_solver := sv'\<rparr>)" using w(3) by (rule solver_step_solver)
  ultimately show "pdr_inv sys (st1\<lparr>pdr_solver := sv'\<rparr>)"
    using w(1) by (intro pdr_inv_step [OF inv]) (auto intro: agrees_solver)
qed

end
