(* ===== verification/Pools.thy ===== *)
theory Pools
  imports Main
begin

text \<open>
  The contract of the memory pools of both reachability engines: entries are allocated one after
  the other and named by handles, an allocation leaves the live entries as they are. A
  \<open>linked_pool\<close> is one whose entries point to an earlier entry, their successor, or are the end of
  a chain; the property that relates an entry to its successor survives every allocation, and
  a chain can be followed to its end.
\<close>

locale handle_pool =
  fixes inv :: "'p \<Rightarrow> bool"
    and make :: "'p \<Rightarrow> 'e \<Rightarrow> nat \<times> 'p"
    and get :: "'p \<Rightarrow> nat \<Rightarrow> 'e option"
    and live :: "'p \<Rightarrow> nat \<Rightarrow> bool"
  assumes make_inv: "inv p \<Longrightarrow> make p e = (h, p') \<Longrightarrow> inv p'"
    and make_fresh: "inv p \<Longrightarrow> make p e = (h, p') \<Longrightarrow> live p k \<Longrightarrow> k < h"
    and make_live: "inv p \<Longrightarrow> make p e = (h, p') \<Longrightarrow> live p' k \<longleftrightarrow> k = h \<or> live p k"
    and make_new: "inv p \<Longrightarrow> make p e = (h, p') \<Longrightarrow> get p' h = Some e"
    and make_old: "inv p \<Longrightarrow> make p e = (h, p') \<Longrightarrow> live p k \<Longrightarrow> get p' k = get p k"

locale linked_pool = handle_pool inv make get live
  for inv :: "'p \<Rightarrow> bool" and make :: "'p \<Rightarrow> 'e \<Rightarrow> nat \<times> 'p" and get live +
  fixes succ :: "'e \<Rightarrow> nat option"
    and last_ok :: "'e \<Rightarrow> bool"
    and link_ok :: "'e \<Rightarrow> 'e \<Rightarrow> bool"
begin

definition entry_linked :: "'p \<Rightarrow> nat \<Rightarrow> 'e \<Rightarrow> bool" where
  "entry_linked p h e \<longleftrightarrow>
     (case succ e of
        None \<Rightarrow> last_ok e
      | Some k \<Rightarrow> live p k \<and> k < h \<and> (\<exists>e'. get p k = Some e' \<and> link_ok e e'))"

definition linked :: "'p \<Rightarrow> bool" where
  "linked p \<longleftrightarrow> inv p \<and> (\<forall>h. live p h \<longrightarrow> (\<exists>e. get p h = Some e \<and> entry_linked p h e))"

lemma linked_make:
  assumes "linked p" and m: "make p e = (h, p')"
    and new: "case succ e of None \<Rightarrow> last_ok e
      | Some k \<Rightarrow> live p k \<and> (\<forall>e'. get p k = Some e' \<longrightarrow> link_ok e e')"
  shows "linked p'"
proof -
  have inv: "inv p" using assms(1) by (simp add: linked_def)
  note laws = make_inv [OF inv m] make_fresh [OF inv m] make_live [OF inv m] make_new [OF inv m]
    make_old [OF inv m]
  have "\<exists>e. get p' k = Some e \<and> entry_linked p' k e" if k: "live p' k" for k
  proof (cases "k = h")
    case True
    have "entry_linked p' h e"
    proof (cases "succ e")
      case None
      then show ?thesis using new by (simp add: entry_linked_def)
    next
      case (Some n)
      then obtain e' where "get p n = Some e'" "live p n" "link_ok e e'"
        using new assms(1) by (fastforce simp: linked_def)
      then show ?thesis using Some laws by (auto simp: entry_linked_def)
    qed
    then show ?thesis using True laws(4) by auto
  next
    case False
    then have "live p k" using k laws(3) by simp
    then obtain f where f: "get p k = Some f" "entry_linked p k f" using assms(1) by (auto simp: linked_def)
    then have "entry_linked p' k f"
      using laws by (auto simp: entry_linked_def split: option.splits)
    then show ?thesis using f laws(5) [OF \<open>live p k\<close>] by auto
  qed
  then show ?thesis using laws(1) by (simp add: linked_def)
qed

text \<open>Following the chain from a live entry.\<close>

lemma chain_induct:
  assumes l: "linked p" and "live p h"
    and last: "\<And>h e. live p h \<Longrightarrow> get p h = Some e \<Longrightarrow> succ e = None \<Longrightarrow> last_ok e \<Longrightarrow> P e"
    and step: "\<And>h e k e'. live p h \<Longrightarrow> get p h = Some e \<Longrightarrow> succ e = Some k \<Longrightarrow> get p k = Some e' \<Longrightarrow>
      link_ok e e' \<Longrightarrow> P e' \<Longrightarrow> P e"
  shows "\<exists>e. get p h = Some e \<and> P e"
  using assms(2)
proof (induction h rule: less_induct)
  case (less h)
  obtain e where e: "get p h = Some e" "entry_linked p h e" using l less.prems by (auto simp: linked_def)
  show ?case
  proof (cases "succ e")
    case None
    then show ?thesis using e last [OF less.prems e(1)] by (auto simp: entry_linked_def)
  next
    case (Some k)
    then obtain e' where k: "live p k" "k < h" "get p k = Some e'" "link_ok e e'"
      using e(2) by (auto simp: entry_linked_def)
    then have "P e'" using less.IH [of k] by auto
    then show ?thesis using e(1) step [OF less.prems e(1) Some k(3,4)] by auto
  qed
qed

end

text \<open>The pool of PDR is emptied between two rounds, that of CAR never is.\<close>

locale flushable_pool = linked_pool inv make get live succ last_ok link_ok
  for inv :: "'p \<Rightarrow> bool" and make :: "'p \<Rightarrow> 'e \<Rightarrow> nat \<times> 'p" and get live succ last_ok link_ok +
  fixes flush :: "'p \<Rightarrow> 'p"
  assumes flush_inv: "inv p \<Longrightarrow> inv (flush p)"
    and flush_live: "inv p \<Longrightarrow> \<not> live (flush p) k"
begin

lemma linked_flush: "linked p \<Longrightarrow> linked (flush p)"
  by (simp add: linked_def flush_inv flush_live)

end

end
