(* ===== verification/PdrPool.thy ===== *)
theory PdrPool
  imports PdrQueries Pools
begin

text \<open>
  The pool of counterexamples to induction and the counterexamples built from it. Every entry is
  a satisfiable cube of states all of which, under the entry's inputs, go into an error or into
  the cube of the entry's successor; so following the successors gives the inputs of an error
  trace from every state of the first cube.
\<close>

section \<open>Rows\<close>

lemma get_vars_lit:
  assumes "cube_sorted c" and "range_ok r" and "vr_contains r v"
  shows "lit_var (case cube_find c v of Some l \<Rightarrow> l | None \<Rightarrow> literal_of v True) = v"
proof -
  have v: "0 < var_id v" using vr_contains_pos [OF assms(2,3)] .
  then show ?thesis using cube_find_Some [OF assms(1) v] by (auto split: option.split)
qed

lemma get_vars_shape:
  "cube_sorted c \<Longrightarrow> range_ok r \<Longrightarrow> map lit_var (get_vars r c) = vr_vars r"
  by (rule nth_equalityI) (auto simp: get_vars_def get_vars_lit vr_vars_nth vr_nth_contains)

lemma length_get_vars [simp]: "length (get_vars r c) = nat (vr_size r)"
  by (simp add: get_vars_def)

lemma row_values_get_vars_nth:
  assumes "vr_contains r v"
  shows "row_values (get_vars r c) ! nat (vr_offset r v) =
    lit_sign (case cube_find c v of Some l \<Rightarrow> l | None \<Rightarrow> literal_of v True)"
  using vr_offset_bounds [OF assms] by (simp add: row_values_def get_vars_def vr_vars_nth)

text \<open>The row of a satisfiable cube is one of its states.\<close>

lemma row_in_cube:
  assumes "cube_sorted c" and "range_ok r" and "lits_over r (cube_literals c)"
    and "lits_hold r s (cube_literals c)"
  shows "lits_hold r (row_values (get_vars r c)) (cube_literals c)"
  unfolding lits_hold_def
proof
  fix l assume l: "l \<in> set (cube_literals c)"
  define v where "v = lit_var l"
  have v: "vr_contains r v" "0 < var_id v" using assms(3) l by (auto simp: lits_over_def v_def)
  have "cube_find c v \<noteq> None"
    using cube_find_None [OF assms(1) _ l, of v] v_def by metis
  then obtain k where k: "cube_find c v = Some k" by blast
  then have "k \<in> set (cube_literals c)" "lit_var k = v" using cube_find_Some [OF assms(1) v(2)] by auto
  then have "lit_holds r s k" "lit_holds r s l" "lit_var k = lit_var l"
    using assms(4) l unfolding lits_hold_def v_def by blast+
  then have "lit_sign k = lit_sign l" unfolding lit_holds_def by simp
  then show "lit_holds r (row_values (get_vars r c)) l"
    using row_values_get_vars_nth [OF v(1), of c] k by (simp add: lit_holds_def v_def)
qed

lemma row_of_valuation:
  assumes "range_ok r"
  shows "row_values (get_vars r (make_cube (valuation_of r m))) = read r m"
proof -
  define c where "c = make_cube (valuation_of r m)"
  have c: "set (cube_literals c) = set (valuation_of r m)" by (simp add: c_def)
  have over: "lits_over r (cube_literals c)"
    using lits_over_valuation [OF assms, of m] by (simp add: lits_over_def c)
  have "lits_hold r (read r m) (valuation_of r m)"
    using lits_hold_valuation [OF assms, of "read r m" m] by simp
  then have "lits_hold r (read r m) (cube_literals c)" by (simp add: lits_hold_def c)
  from row_in_cube [OF _ assms over this]
  have "lits_hold r (row_values (get_vars r c)) (valuation_of r m)"
    by (simp add: lits_hold_def c) (simp add: c_def)
  then show ?thesis
    using lits_hold_valuation [OF assms, of "row_values (get_vars r c)" m]
    by (simp add: c_def row_values_def)
qed

section \<open>The pool\<close>

definition pool_inv :: "cti_pool \<Rightarrow> bool" where
  "pool_inv p \<longleftrightarrow> num_entries p \<le> length (cti_entries p)"

definition pool_live :: "cti_pool \<Rightarrow> nat \<Rightarrow> bool" where
  "pool_live p h \<longleftrightarrow> h < num_entries p"

abbreviation pool_make :: "cti_pool \<Rightarrow> cti_entry \<Rightarrow> nat \<times> cti_pool" where
  "pool_make p e \<equiv> cti_make p (cti_state_vars e) (cti_input_vars e) (cti_successor e)"

text \<open>The values of the inputs of an entry, and what an entry promises.\<close>

definition entry_input :: "transition_system \<Rightarrow> cti_entry \<Rightarrow> input" where
  "entry_input sys e = row_values (get_vars (input_vars sys) (cti_input_vars e))"

definition cti_cube_ok :: "transition_system \<Rightarrow> cube \<Rightarrow> bool" where
  "cti_cube_ok sys c \<longleftrightarrow>
     cube_sorted c \<and> lits_over (state_vars sys) (cube_literals c) \<and>
     (\<exists>s \<in> all_states sys. holds_in sys s (cube_literals c))"

definition cti_shape :: "transition_system \<Rightarrow> cti_entry \<Rightarrow> bool" where
  "cti_shape sys e \<longleftrightarrow> cti_cube_ok sys (cti_state_vars e) \<and> cube_sorted (cti_input_vars e)"

definition cti_last :: "transition_system \<Rightarrow> cti_entry \<Rightarrow> bool" where
  "cti_last sys e \<longleftrightarrow> cti_shape sys e \<and>
     (\<forall>s \<in> all_states sys. holds_in sys s (cube_literals (cti_state_vars e)) \<longrightarrow>
        error_state sys s (entry_input sys e))"

definition cti_link :: "transition_system \<Rightarrow> cti_entry \<Rightarrow> cti_entry \<Rightarrow> bool" where
  "cti_link sys e e' \<longleftrightarrow> cti_shape sys e \<and>
     (\<forall>s \<in> all_states sys. holds_in sys s (cube_literals (cti_state_vars e)) \<longrightarrow>
        (\<exists>t. trans_step sys s (entry_input sys e) t \<and>
             holds_in sys t (cube_literals (cti_state_vars e'))))"

lemma cti_make_cases:
  assumes "pool_inv p" and "cti_make p s i n = (h, p')"
  shows "h = num_entries p" and "num_entries p' = Suc h" and "pool_inv p'"
    and "cti_entries p' ! h = \<lparr>cti_state_vars = s, cti_input_vars = i, cti_successor = n\<rparr>"
    and "k < h \<Longrightarrow> cti_entries p' ! k = cti_entries p ! k"
  using assms
  by (auto simp: cti_make_def Let_def pool_inv_def nth_append not_le)

lemma cti_get_live: "pool_inv p \<Longrightarrow> pool_live p h \<Longrightarrow> cti_get d p h = Some (cti_entries p ! h)"
  by (simp add: cti_get_def pool_inv_def pool_live_def)

interpretation ctis: flushable_pool pool_inv pool_make "cti_get d" pool_live cti_successor
  "cti_last sys" "cti_link sys" cti_flush for d sys
proof (unfold_locales, goal_cases)
  case (1 p e h p')
  then show ?case using cti_make_cases(3) by blast
next
  case (2 p e h p' k)
  then show ?case using cti_make_cases(1) [OF 2(1,2)] by (simp add: pool_live_def)
next
  case (3 p e h p' k)
  then show ?case using cti_make_cases(1,2) [OF 3] by (auto simp: pool_live_def)
next
  case (4 p e h p')
  note m = cti_make_cases [OF 4]
  have "pool_live p' h" using m(2) by (simp add: pool_live_def)
  then show ?case using m(3,4) cti_get_live by simp
next
  case (5 p e h p' k)
  note m = cti_make_cases [OF 5(1,2)]
  have k: "k < h" using 5(3) m(1) by (simp add: pool_live_def)
  then have "pool_live p' k" using m(2) by (simp add: pool_live_def)
  then show ?case using m(3,5) k 5(1,3) by (simp add: cti_get_live)
next
  case (6 p)
  then show ?case by (simp add: pool_inv_def cti_flush_def)
next
  case (7 p k)
  then show ?case by (simp add: pool_live_def cti_flush_def)
qed

definition pool_ok :: "transition_system \<Rightarrow> cti_pool \<Rightarrow> bool" where
  "pool_ok sys p \<longleftrightarrow> ctis.linked True sys p"

lemma pool_ok_inv: "pool_ok sys p \<Longrightarrow> pool_inv p"
  by (simp add: pool_ok_def ctis.linked_def)

text \<open>The entry of a live handle; reading it does not fail, in either build.\<close>

abbreviation entry_at :: "cti_pool \<Rightarrow> nat \<Rightarrow> cti_entry" where
  "entry_at p h \<equiv> cti_entries p ! h"

lemma pool_get: "pool_ok sys p \<Longrightarrow> pool_live p h \<Longrightarrow> cti_get d p h = Some (entry_at p h)"
  by (simp add: pool_ok_inv cti_get_live)

lemma pool_entry:
  assumes "pool_ok sys p" and "pool_live p h"
  shows "cti_shape sys (entry_at p h)"
proof -
  have "ctis.entry_linked True sys p h (entry_at p h)"
    using assms pool_get [OF assms, of True] by (auto simp: pool_ok_def ctis.linked_def)
  then show ?thesis by (auto simp: ctis.entry_linked_def cti_last_def cti_link_def split: option.splits)
qed

lemma pool_entry_cube:
  assumes "pool_ok sys p" and "pool_live p h"
  shows "cube_sorted (cti_state_vars (entry_at p h))"
    and "lits_over (state_vars sys) (cube_literals (cti_state_vars (entry_at p h)))"
    and "\<exists>s \<in> all_states sys. holds_in sys s (cube_literals (cti_state_vars (entry_at p h)))"
  using pool_entry [OF assms] by (auto simp: cti_shape_def cti_cube_ok_def)

lemma pool_flush: "pool_ok sys p \<Longrightarrow> pool_ok sys (cti_flush p)"
  unfolding pool_ok_def by (rule ctis.linked_flush)

text \<open>What an allocation does.\<close>

lemma pool_make_ok:
  assumes p: "pool_ok sys p" and m: "cti_make p s i n = (h, p')"
    and new: "case n of None \<Rightarrow> cti_last sys \<lparr>cti_state_vars = s, cti_input_vars = i, cti_successor = n\<rparr>
      | Some k \<Rightarrow> pool_live p k \<and>
          cti_link sys \<lparr>cti_state_vars = s, cti_input_vars = i, cti_successor = n\<rparr> (entry_at p k)"
  shows "pool_ok sys p'" and "pool_live p' h" and "pool_live p k \<Longrightarrow> pool_live p' k \<and> k < h"
    and "pool_live p k \<Longrightarrow> entry_at p' k = entry_at p k"
    and "entry_at p' h = \<lparr>cti_state_vars = s, cti_input_vars = i, cti_successor = n\<rparr>"
proof -
  define e where "e = \<lparr>cti_state_vars = s, cti_input_vars = i, cti_successor = n\<rparr>"
  have m': "pool_make p e = (h, p')" using m by (simp add: e_def)
  note c = cti_make_cases [OF pool_ok_inv [OF p] m]
  show "pool_live p' h" "pool_live p k \<Longrightarrow> pool_live p' k \<and> k < h"
    "pool_live p k \<Longrightarrow> entry_at p' k = entry_at p k"
    "entry_at p' h = \<lparr>cti_state_vars = s, cti_input_vars = i, cti_successor = n\<rparr>"
    using c by (auto simp: pool_live_def)
  show "pool_ok sys p'"
    unfolding pool_ok_def
  proof (rule ctis.linked_make [OF _ m'])
    show "ctis.linked True sys p" using p by (simp add: pool_ok_def)
    show "case cti_successor e of None \<Rightarrow> cti_last sys e
      | Some k \<Rightarrow> pool_live p k \<and> (\<forall>e'. cti_get True p k = Some e' \<longrightarrow> cti_link sys e e')"
      using new pool_get [OF p, of _ True] by (auto simp: e_def split: option.splits)
  qed
qed

section \<open>Counterexamples\<close>

lemma error_trace_Cons:
  "trans_step sys s i t \<Longrightarrow> error_trace sys t is \<Longrightarrow> error_trace sys s (i # is)"
  by (auto simp: error_trace_def)

lemma collect_inputs_runs:
  assumes "pool_ok sys p" and "pool_live p h" and wf: "well_formed_system sys"
  shows "runs (collect_inputs d sys p (entry_at p h)) (\<lambda>rows.
    (\<forall>row \<in> set rows. map lit_var row = vr_vars (input_vars sys)) \<and>
    (\<forall>s \<in> all_states sys. holds_in sys s (cube_literals (cti_state_vars (entry_at p h))) \<longrightarrow>
       error_trace sys s (map row_values rows)))"
    (is "runs _ (?Q (entry_at p h))")
proof -
  have r: "range_ok (input_vars sys)" using wf by (simp add: well_formed_system_def)
  have "\<exists>e. cti_get d p h = Some e \<and> runs (collect_inputs d sys p e) (?Q e)"
  proof (rule ctis.chain_induct [of d sys p h])
    show "ctis.linked d sys p"
      using assms(1) pool_ok_inv [OF assms(1)] cti_get_live [of p _ d] cti_get_live [of p _ True]
      by (fastforce simp: pool_ok_def ctis.linked_def ctis.entry_linked_def split: option.splits)
    show "pool_live p h" by fact
  next
    fix h e assume "cti_successor e = None" and l: "cti_last sys e"
    then show "runs (collect_inputs d sys p e) (?Q e)"
      by (auto simp: collect_inputs.simps [of d sys p e] get_vars_shape [OF _ r] cti_last_def
          cti_shape_def error_trace_def entry_input_def)
  next
    fix h e k e'
    assume s: "cti_successor e = Some k" and g: "cti_get d p k = Some e'" and l: "cti_link sys e e'"
      and ih: "runs (collect_inputs d sys p e') (?Q e')"
    then obtain rows where rows: "collect_inputs d sys p e' = Some rows" "?Q e' rows"
      by (auto simp: runs_iff)
    have "error_trace sys u (entry_input sys e # map row_values rows)"
      if u: "u \<in> all_states sys" "holds_in sys u (cube_literals (cti_state_vars e))" for u
    proof -
      from u l obtain t where t: "trans_step sys u (entry_input sys e) t"
        "holds_in sys t (cube_literals (cti_state_vars e'))" by (auto simp: cti_link_def)
      then show ?thesis
        using rows(2) trans_step_length [OF wf t(1)] by (auto intro: error_trace_Cons)
    qed
    then show "runs (collect_inputs d sys p e) (?Q e)"
      using rows s g l
      by (auto simp: collect_inputs.simps [of d sys p e] get_vars_shape [OF _ r] cti_link_def
          cti_shape_def entry_input_def)
  qed
  then show ?thesis using pool_get [OF assms(1,2), of d] by simp
qed

lemma build_counterexample_runs:
  assumes p: "pool_ok sys (ctis st)" and h: "pool_live (ctis st) h" and wf: "well_formed_system sys"
  defines "c \<equiv> cti_state_vars (entry_at (ctis st) h)"
  shows "runs (build_counterexample d sys st h) (\<lambda>cex.
    cex_shape sys cex \<and> initial_state cex = get_vars (state_vars sys) c \<and>
    error_trace sys (row_values (initial_state cex)) (map row_values (inputs cex)) \<and>
    (\<forall>s \<in> all_states sys. holds_in sys s (cube_literals c) \<longrightarrow>
       error_trace sys s (map row_values (inputs cex))))"
proof -
  have r: "range_ok (state_vars sys)" using wf by (simp add: well_formed_system_def)
  note cube = pool_entry_cube [OF p h, folded c_def]
  define row where "row = get_vars (state_vars sys) c"
  obtain rows where rows: "collect_inputs d sys (ctis st) (entry_at (ctis st) h) = Some rows"
    "\<forall>row \<in> set rows. map lit_var row = vr_vars (input_vars sys)"
    "\<forall>s \<in> all_states sys. holds_in sys s (cube_literals c) \<longrightarrow> error_trace sys s (map row_values rows)"
    using collect_inputs_runs [OF p h wf, of d] by (auto simp: runs_iff c_def)
  have "holds_in sys (row_values row) (cube_literals c)"
    using cube row_in_cube [OF cube(1) r cube(2)] by (auto simp: row_def)
  moreover have "row_values row \<in> all_states sys"
    by (simp add: row_def all_states_def num_state_vars_def row_values_def)
  ultimately show ?thesis
    using rows pool_get [OF p h, of d] get_vars_shape [OF cube(1) r]
    by (simp add: build_counterexample_def cex_shape_def c_def [symmetric] row_def)
qed

end
