(* ===== verification/PdrSteps.thy ===== *)
theory PdrSteps
  imports PdrPool
begin

text \<open>
  The four queries of the PDR engine, each with its total-correctness rule: it returns, keeps the
  invariant, and its answer says what it should about states and frames.
\<close>

lemma negation_sat:
  "separator \<notin> set s \<Longrightarrow> stream_sat \<sigma> (map lit_not s @ [separator]) \<longleftrightarrow> (\<exists>l \<in> set s. \<not> lit_true \<sigma> l)"
  using cnf_sat_negate [of "Cube s" \<sigma>]
  by (simp add: cnf_sat_def negate_def inplace_not_clause cube_true_def)

lemma lits_true_read_iff:
  "lits_over r ls \<Longrightarrow> lits_true \<sigma> ls \<longleftrightarrow> lits_hold r (read r \<sigma>) ls"
  by (simp add: lits_true_def lits_true_read [of r])

lemma activators_flagged:
  assumes "pdr_trace sys st"
  shows "lits_true (with_flags st l bt be \<sigma>) (drop l (trace_activators st))"
    and "k < length (trace_activators st) \<Longrightarrow>
      lit_true (with_flags st l bt be \<sigma>) (trace_activators st ! k) = (l \<le> k)"
    and "lit_true (with_flags st l bt be \<sigma>) (transition_activator st) = bt"
    and "lit_true (with_flags st l bt be \<sigma>) (error_activator st) = be"
proof -
  show *: "k < length (trace_activators st) \<Longrightarrow>
      lit_true (with_flags st l bt be \<sigma>) (trace_activators st ! k) = (l \<le> k)" for k
    using activator_var(3) [OF assms trace_activator_mem] with_flags_act(1) [OF assms] by metis
  show "lits_true (with_flags st l bt be \<sigma>) (drop l (trace_activators st))"
    using * by (auto simp: lits_true_def in_set_conv_nth)
  show "lit_true (with_flags st l bt be \<sigma>) (transition_activator st) = bt"
    "lit_true (with_flags st l bt be \<sigma>) (error_activator st) = be"
    using activator_var(3) [OF assms] with_flags_act(2,3) [OF assms]
    by (metis all_activators_def list.set_intros(1) list.set_intros(2))+
qed

lemma with_flags_stream:
  assumes "pdr_trace sys st" and "agrees sys st1" and "solver_step st st1"
    and "read (state_vars sys) \<sigma> \<in> pdr_frame sys st l"
    and "bt \<Longrightarrow> cnf_sat \<sigma> (ts_trans sys)" and "be \<Longrightarrow> cnf_sat \<sigma> (ts_error sys)"
  shows "stream_sat (with_flags st l bt be \<sigma>) (added (pdr_solver st1))"
  using with_flags_sat [OF assms(1,4)] assms(2,3,5,6)
  by (simp add: agrees_def solver_step_same)

section \<open>Relative induction\<close>

lemma pred_model_of_sat:
  assumes tr: "pdr_trace sys st" and fs: "frames_sat sys st m" and l: "i - 1 \<le> depth st"
    and over: "lits_over (state_vars sys) s"
    and acts: "lits_true m (drop (i - 1) (trace_activators st))"
    and t: "lit_true m (transition_activator st)"
    and p: "lits_true m (map (primed sys) s)"
    and c: "\<exists>k \<in> set s. \<not> lit_true m k"
  shows "pred_model sys st s i m"
proof -
  have wf: "well_formed_system sys" using tr by (simp add: pdr_trace_def pdr_system_def)
  have "m (lit_var (transition_activator st))"
    using t activator_var(3) [OF tr, of "transition_activator st" m] by (simp add: all_activators_def)
  then have "cnf_sat m (ts_trans sys)" using fs by (simp add: frames_sat_def)
  then have "trans_step sys (read (state_vars sys) m) (read (input_vars sys) m)
      (read (next_state_vars sys) m)" by (auto simp: trans_step_def)
  moreover have "\<not> holds_in sys (read (state_vars sys) m) s"
    using c lits_true_read [OF over, of m] by blast
  moreover have "holds_in sys (read (next_state_vars sys) m) s"
    using p lits_true_primed [OF wf over, of m] by (simp add: lits_true_def)
  ultimately show ?thesis using frame_of_model [OF tr l fs acts] by (simp add: pred_model_def)
qed

lemma core_blocks_of_unsat:
  assumes tr: "pdr_trace sys st" and ag: "agrees sys st1" and st1: "solver_step st st1"
    and i: "1 \<le> i" "i - 1 \<le> depth st" and over: "lits_over (state_vars sys) s"
    and no: "\<not> (\<exists>\<sigma>. stream_sat \<sigma> (added (pdr_solver st1)) \<and>
      lits_true \<sigma> (filter core
        (drop (i - 1) (trace_activators st) @ transition_activator st # map (primed sys) s)) \<and>
      stream_sat \<sigma> (map lit_not s @ [separator]))"
  shows "core_blocks sys st s i core"
  unfolding core_blocks_def rel_inductive_def
proof (intro allI impI notI)
  fix j c s0 inp t
  assume j: "i - 1 \<le> j" "j \<le> depth st"
    and free: "\<forall>k. i - 1 \<le> k \<longrightarrow> k < j \<longrightarrow> \<not> core (trace_activators st ! k)"
    and c: "set c \<subseteq> set s" "\<forall>l \<in> set s. core (primed sys l) \<longrightarrow> l \<in> set c"
    and s0: "s0 \<in> pdr_frame sys st j" "\<not> holds_in sys s0 c" and step: "trans_step sys s0 inp t"
    and t: "holds_in sys t c"
  have wf: "well_formed_system sys" using tr by (simp add: pdr_trace_def pdr_system_def)
  from step obtain \<sigma> where \<sigma>: "cnf_sat \<sigma> (ts_trans sys)" "read (state_vars sys) \<sigma> = s0"
    "read (next_state_vars sys) \<sigma> = t" by (auto simp: trans_step_def)
  define \<tau> where "\<tau> = with_flags st j True False \<sigma>"
  note rd = with_flags_read [OF tr, of j True False \<sigma>, folded \<tau>_def]
  note fl = activators_flagged(3,4) [OF tr, of j True False \<sigma>, folded \<tau>_def]
    activators_flagged(2) [OF tr, of _ j True False \<sigma>, folded \<tau>_def]
  have 1: "stream_sat \<tau> (added (pdr_solver st1))"
    unfolding \<tau>_def by (rule with_flags_stream [OF tr ag st1]) (use \<sigma> s0 in auto)
  have "lit_true \<tau> a" if "a \<in> set (drop (i - 1) (trace_activators st))" "core a" for a
  proof -
    from that(1) obtain k where k: "a = trace_activators st ! k" "i - 1 \<le> k"
      "k < length (trace_activators st)" by (auto simp: in_set_conv_nth)
    with free that(2) have "j \<le> k" by (meson not_le)
    then show ?thesis using k fl(3) by simp
  qed
  moreover have "lit_true \<tau> (primed sys l)" if "l \<in> set s" "core (primed sys l)" for l
  proof -
    have "l \<in> set c" using that c(2) by blast
    then have "lit_holds (state_vars sys) t l" using t by (simp add: lits_hold_def)
    then show ?thesis
      using lit_true_primed [OF wf, of l \<tau>] over that(1) \<sigma>(3) rd(3) by (simp add: lits_over_def)
  qed
  ultimately have 2: "lits_true \<tau> (filter core
        (drop (i - 1) (trace_activators st) @ transition_activator st # map (primed sys) s))"
    using fl(1) by (auto simp: lits_true_def)
  have "lits_over (state_vars sys) c" by (rule lits_over_subset [OF over c(1)])
  then have "\<not> (\<forall>l \<in> set c. lit_true \<tau> l)"
    using lits_true_read [of "state_vars sys" c \<tau>] s0(2) \<sigma>(2) rd(1) by simp
  then have "\<exists>l \<in> set s. \<not> lit_true \<tau> l" using c(1) by blast
  then have "stream_sat \<tau> (map lit_not s @ [separator])"
    using negation_sat [OF lits_over_sep [OF over]] by simp
  with 1 2 no show False by blast
qed

definition rel_ind_result ::
  "transition_system \<Rightarrow> pdr \<Rightarrow> literal list \<Rightarrow> nat \<Rightarrow> bool \<times> pdr \<Rightarrow> bool" where
  "rel_ind_result sys st s i r \<longleftrightarrow>
     pdr_inv sys (snd r) \<and> solver_step st (snd r) \<and>
     (if fst r
      then \<exists>core. status (pdr_solver (snd r)) = Unsatisfied core \<and> core_blocks sys st s i core
      else \<exists>m. status (pdr_solver (snd r)) = Satisfied m \<and> pred_model sys st s i m)"

lemma is_relative_inductive_runs:
  assumes inv: "pdr_inv sys st" and so: "sound_oracle (sat_solver E)"
    and i: "1 \<le> i" "i \<le> depth st + 1" and over: "lits_over (state_vars sys) s"
  shows "runs (is_relative_inductive E sys st s i) (rel_ind_result sys st s i)"
proof -
  have tr: "pdr_trace sys st" and ok: "solver_ok sys st" using inv by (auto simp: pdr_inv_def)
  have wf: "well_formed_system sys" using pdr_inv_system [OF inv] by simp
  define st1 where "st1 = pdr_with_solver st"
  note w = with_solver_ok [OF tr ok, folded st1_def]
  note same = solver_step_same [OF w(3)]
  define acts where "acts = drop (i - 1) (trace_activators st)"
  define sv where "sv = constrain_not (pdr_solver st1) s"
  define sv2 where "sv2 = assume_literal (assume_literals sv acts) (transition_activator st)"
  define C where "C = map lit_not s @ [separator]"
  define A where "A = acts @ transition_activator st # map (primed sys) s"
  have "asks sv (added (pdr_solver st1)) [] C"
    unfolding sv_def C_def
    by (intro asks_constrain_not idle_asks w(2) lits_over_sep [OF over] refl)
  then have "asks sv2 (added (pdr_solver st1)) ([] @ acts @ [transition_activator st]) C"
    unfolding sv2_def append_assoc [symmetric]
    by (intro asks_assume_literal asks_assume_literals)
  then have "runs (assume_mapped sv2 s (prime (debug_build E) sys))
      (\<lambda>sv'. asks sv' (added (pdr_solver st1)) (([] @ acts @ [transition_activator st]) @ map (primed sys) s) C)"
    by (rule asks_assume_mapped) (use over in \<open>auto simp: lits_over_def intro: prime_state [OF wf]\<close>)
  then obtain sv3 where sv3: "assume_mapped sv2 s (prime (debug_build E) sys) = Some sv3"
    "asks sv3 (added (pdr_solver st1)) A C" by (auto simp: runs_iff A_def)
  obtain b sv' where r: "is_sat E sv3 = (b, sv')" by fastforce
  note q = query_done [OF inv so st1_def sv3(2) _ r]
  have tC: "terminated C" by (simp add: C_def)
  define st' where "st' = st1\<lparr>pdr_solver := sv'\<rparr>"
  have acts_eq: "activators_from (debug_build E) st1 (i - 1) = Some acts"
    using activators_from_runs [of sys st1 "i - 1" "debug_build E"] tr same i by (simp add: acts_def)
  have run: "is_relative_inductive E sys st s i = Some (\<not> b, st')"
    using i(1) sv3(1)
    by (simp add: is_relative_inductive_def st1_def [symmetric] acts_eq [unfolded One_nat_def] same sv_def [symmetric]
        sv2_def [symmetric] r st'_def assert_that_holds)
  have "rel_ind_result sys st s i (\<not> b, st')"
  proof (cases b)
    case True
    then obtain m where m: "status sv' = Satisfied m" "stream_sat m (added (pdr_solver st1))"
      "lits_true m A" "stream_sat m C"
      using q(1) [OF tC] by (auto simp: sat_answer_def)
    have "pred_model sys st s i m"
    proof (rule pred_model_of_sat [OF tr _ _ over])
      show "frames_sat sys st m" using m(2) w(1) same by (simp add: agrees_def)
      show "\<exists>k \<in> set s. \<not> lit_true m k"
        using m(4) negation_sat [OF lits_over_sep [OF over]] by (simp add: C_def)
    qed (use m(3) i in \<open>auto simp: A_def acts_def\<close>)
    then show ?thesis using True m(1) q(2,3) [OF tC] by (auto simp: rel_ind_result_def st'_def)
  next
    case False
    then obtain core where core: "status sv' = Unsatisfied core"
      "\<not> (\<exists>\<sigma>. stream_sat \<sigma> (added (pdr_solver st1)) \<and> lits_true \<sigma> (filter core A) \<and> stream_sat \<sigma> C)"
      using q(1) [OF tC] by (auto simp: sat_answer_def)
    have "core_blocks sys st s i core"
      by (rule core_blocks_of_unsat [OF tr w(1,3) i(1) _ over])
        (use core(2) i in \<open>simp_all add: A_def acts_def C_def\<close>)
    then show ?thesis using False core(1) q(2,3) [OF tC] by (auto simp: rel_ind_result_def st'_def)
  qed
  then show ?thesis by (simp add: run)
qed

section \<open>Steps that keep the trace\<close>

text \<open>The pool may grow, solver and query counter change, the rest stays.\<close>

definition pool_ext :: "cti_pool \<Rightarrow> cti_pool \<Rightarrow> bool" where
  "pool_ext p p' \<longleftrightarrow> (\<forall>k. pool_live p k \<longrightarrow> pool_live p' k \<and> entry_at p' k = entry_at p k)"

definition query_step :: "pdr \<Rightarrow> pdr \<Rightarrow> bool" where
  "query_step st st' \<longleftrightarrow> solver_step st (st'\<lparr>ctis := ctis st\<rparr>) \<and> pool_ext (ctis st) (ctis st')"

lemma pool_ext_refl [simp]: "pool_ext p p"
  by (simp add: pool_ext_def)

lemma pool_ext_trans: "pool_ext p q \<Longrightarrow> pool_ext q r \<Longrightarrow> pool_ext p r"
  by (simp add: pool_ext_def)

lemma solver_query_step: "solver_step st st' \<Longrightarrow> query_step st st'"
  unfolding query_step_def solver_step_def by (cases st; cases st') simp

lemma query_step_ctis: "solver_step st st' \<Longrightarrow> pool_ext (ctis st) p \<Longrightarrow> query_step st (st'\<lparr>ctis := p\<rparr>)"
  unfolding query_step_def solver_step_def by (cases st; cases st') simp

lemma query_step_trans: "query_step a b \<Longrightarrow> query_step b c \<Longrightarrow> query_step a c"
  unfolding query_step_def solver_step_def pool_ext_def by (cases a; cases b; cases c) auto

lemma query_step_same:
  assumes "query_step st st'"
  shows "pdr_trace sys st' = pdr_trace sys st" and "pdr_frame sys st' = pdr_frame sys st"
    and "depth st' = depth st" and "pool_ext (ctis st) (ctis st')"
    and "trace_blocked_cubes st' = trace_blocked_cubes st"
    and "trace_activators st' = trace_activators st" and "init_cube st' = init_cube st"
proof -
  define st1 where "st1 = st'\<lparr>ctis := ctis st\<rparr>"
  have s: "solver_step st st1" using assms by (simp add: query_step_def st1_def)
  have st': "st' = st1\<lparr>ctis := ctis st'\<rparr>" by (simp add: st1_def)
  show "pdr_trace sys st' = pdr_trace sys st" "pdr_frame sys st' = pdr_frame sys st"
    "depth st' = depth st" "trace_blocked_cubes st' = trace_blocked_cubes st"
    "trace_activators st' = trace_activators st" "init_cube st' = init_cube st"
    by (subst st', simp add: solver_step_same [OF s])+
  show "pool_ext (ctis st) (ctis st')" using assms by (simp add: query_step_def)
qed

section \<open>Error states of the last frame\<close>

definition error_cti_result ::
  "transition_system \<Rightarrow> pdr \<Rightarrow> cti_handle option \<times> pdr \<Rightarrow> bool" where
  "error_cti_result sys st r \<longleftrightarrow>
     pdr_inv sys (snd r) \<and> query_step st (snd r) \<and> pool_ok sys (ctis (snd r)) \<and>
     (case fst r of
        None \<Rightarrow> \<forall>s \<in> pdr_frame sys st (depth st). \<forall>i. \<not> error_state sys s i
      | Some h \<Rightarrow> pool_live (ctis (snd r)) h \<and>
          (\<exists>s \<in> pdr_frame sys st (depth st).
             holds_in sys s (cube_literals (cti_state_vars (entry_at (ctis (snd r)) h)))) \<and>
          (\<forall>s \<in> all_states sys.
             holds_in sys s (cube_literals (cti_state_vars (entry_at (ctis (snd r)) h))) \<longrightarrow>
             (\<exists>i. error_state sys s i)))"

lemma get_error_cti_runs:
  assumes inv: "pdr_inv sys st" and so: "sound_oracle (sat_solver E)" and pool: "pool_ok sys (ctis st)"
  shows "runs (get_error_cti E sys st) (error_cti_result sys st)"
proof -
  have tr: "pdr_trace sys st" and ok: "solver_ok sys st" using inv by (auto simp: pdr_inv_def)
  have wf: "well_formed_system sys" using pdr_inv_system [OF inv] by simp
  then have rng: "range_ok (state_vars sys)" "range_ok (input_vars sys)"
    by (auto simp: well_formed_system_def)
  define st1 where "st1 = pdr_with_solver st"
  note w = with_solver_ok [OF tr ok, folded st1_def]
  note same = solver_step_same [OF w(3)]
  define acts where "acts = drop (depth st) (trace_activators st)"
  define sv where "sv = assume_literal (assume_literals (pdr_solver st1) acts) (error_activator st)"
  define A where "A = [] @ acts @ [error_activator st]"
  have asks: "asks sv (added (pdr_solver st1)) A []"
    unfolding sv_def A_def append_assoc [symmetric]
    by (intro asks_assume_literal asks_assume_literals idle_asks w(2) refl)
  obtain b sv' where r: "is_sat E sv = (b, sv')" by fastforce
  note q = query_done [OF inv so st1_def asks terminated_Nil r]
  define st2 where "st2 = st1\<lparr>pdr_solver := sv'\<rparr>"
  have acts_eq: "activators_from d st1 (depth st) = Some acts" for d
    using activators_from_runs [of sys st1 "depth st" d] tr same by (simp add: acts_def)
  have c2: "ctis st2 = ctis st" by (simp add: st2_def same)
  show ?thesis
  proof (cases b)
    case False
    have "\<not> error_state sys s i" if s: "s \<in> pdr_frame sys st (depth st)" for s i
    proof
      assume "error_state sys s i"
      then obtain \<sigma> where \<sigma>: "cnf_sat \<sigma> (ts_error sys)" "read (state_vars sys) \<sigma> = s"
        by (auto simp: error_state_def)
      define \<tau> where "\<tau> = with_flags st (depth st) False True \<sigma>"
      have "stream_sat \<tau> (added (pdr_solver st1))"
        unfolding \<tau>_def by (rule with_flags_stream [OF tr w(1,3)]) (use \<sigma> s in auto)
      moreover have "lits_true \<tau> A"
        unfolding A_def acts_def \<tau>_def using activators_flagged(1,4) [OF tr] by simp
      ultimately show False using sat_answer_unsat q(1) False by (metis stream_sat_Nil)
    qed
    moreover have "get_error_cti E sys st = Some (None, st2)"
      using False r
      by (simp add: get_error_cti_def Let_def st1_def [symmetric] acts_eq same sv_def [symmetric] st2_def)
    ultimately show ?thesis
      using q(2,3) pool by (simp add: error_cti_result_def st2_def same solver_query_step)
  next
    case True
    then obtain m where m: "status sv' = Satisfied m" "stream_sat m (added (pdr_solver st1))" "lits_true m A"
      using q(1) by (auto simp: sat_answer_def)
    define s where "s = read (state_vars sys) m"
    have fs: "frames_sat sys st m" using m(2) w(1) same by (simp add: agrees_def)
    have s: "s \<in> pdr_frame sys st (depth st)" unfolding s_def
      by (rule frame_of_model [OF tr _ fs]) (use m(3) in \<open>simp_all add: A_def acts_def\<close>)
    define c where "c = make_cube (valuation_of (state_vars sys) m)"
    define ci where "ci = make_cube (valuation_of (input_vars sys) m)"
    define e where "e = \<lparr>cti_state_vars = c, cti_input_vars = ci, cti_successor = None\<rparr>"
    obtain h p where p: "cti_make (ctis st) c ci None = (h, p)" by fastforce
    have cube: "holds_in sys t (cube_literals c) \<longleftrightarrow> t = s" if "t \<in> all_states sys" for t
      using lits_hold_valuation [OF rng(1), of t m] that
      by (simp add: c_def s_def lits_hold_def all_states_def num_state_vars_def)
    have sa: "s \<in> all_states sys" using s by (simp add: pdr_frame_def)
    have "m (lit_var (error_activator st))"
      using m(3) activator_var(3) [OF tr, of "error_activator st" m]
      by (simp add: A_def all_activators_def)
    then have "cnf_sat m (ts_error sys)" using fs by (simp add: frames_sat_def)
    then have "error_state sys s (read (input_vars sys) m)" by (auto simp: error_state_def s_def)
    moreover have "entry_input sys e = read (input_vars sys) m"
      using row_of_valuation [OF rng(2), of m] by (simp add: entry_input_def e_def ci_def)
    moreover have "lits_over (state_vars sys) (cube_literals c)"
      using lits_over_valuation [OF rng(1), of m] by (simp add: lits_over_def c_def)
    then have "cti_shape sys e"
      using cube sa by (auto simp: cti_shape_def cti_cube_ok_def e_def ci_def) (simp add: c_def)
    ultimately have last: "cti_last sys e" using cube by (simp add: cti_last_def) (simp add: e_def)
    have bad: "\<exists>i. error_state sys t i" if "t \<in> all_states sys" "holds_in sys t (cube_literals c)" for t
      using last that by (auto simp: cti_last_def e_def)
    from last have new: "case None of None \<Rightarrow> cti_last sys \<lparr>cti_state_vars = c, cti_input_vars = ci, cti_successor = None\<rparr>
      | Some k \<Rightarrow> pool_live (ctis st) k \<and>
          cti_link sys \<lparr>cti_state_vars = c, cti_input_vars = ci, cti_successor = None\<rparr> (entry_at (ctis st) k)"
      by (simp add: e_def)
    note mk = pool_make_ok [OF pool p new]
    have ext: "pool_ext (ctis st) p" using mk(3,4) by (simp add: pool_ext_def)
    have "get_error_cti E sys st = Some (Some h, st2\<lparr>ctis := p\<rparr>)"
      using True r p get_model_Satisfied [OF m(1)]
      by (simp add: get_error_cti_def Let_def st1_def [symmetric] acts_eq same sv_def [symmetric] st2_def
          c_def [symmetric] ci_def [symmetric])
    moreover have "query_step st (st2\<lparr>ctis := p\<rparr>)"
      by (rule query_step_ctis [OF _ ext]) (use q(3) in \<open>simp add: st2_def\<close>)
    moreover have "pdr_inv sys st2" using q(2) by (simp add: st2_def)
    ultimately show ?thesis
      using mk(1,2,5) s cube [OF sa] bad by (auto simp: error_cti_result_def)
  qed
qed

end
