(* ===== verification/PdrObligations.thy ===== *)
theory PdrObligations
  imports PdrSteps
begin

text \<open>
  The remaining queries of \<open>solve_obligation\<close>: whether a cube is already blocked, the
  predecessor of an obligation, and the syntactic test against the initial states.
\<close>

abbreviation cube_at :: "pdr \<Rightarrow> nat \<Rightarrow> literal list" where
  "cube_at st h \<equiv> cube_literals (cti_state_vars (entry_at (ctis st) h))"

text \<open>No state of frame \<open>l\<close> is in the cube.\<close>

definition frame_free :: "transition_system \<Rightarrow> pdr \<Rightarrow> nat \<Rightarrow> literal list \<Rightarrow> bool" where
  "frame_free sys st l c \<longleftrightarrow> (\<forall>s \<in> pdr_frame sys st l. \<not> holds_in sys s c)"

section \<open>Already blocked\<close>

definition blocked_result :: "transition_system \<Rightarrow> pdr \<Rightarrow> nat \<Rightarrow> literal list \<Rightarrow> bool \<times> pdr \<Rightarrow> bool" where
  "blocked_result sys st l c r \<longleftrightarrow>
     pdr_inv sys (snd r) \<and> solver_step st (snd r) \<and> (fst r \<longleftrightarrow> frame_free sys st l c)"

lemma subsumed_frame_free:
  assumes "pdr_trace sys st" and "j < length (trace_blocked_cubes st)" and "l \<le> j"
    and "c \<in> set (trace_blocked_cubes st ! j)" and "subsumes c s" and "cube_sorted s"
  shows "frame_free sys st l (cube_literals s)"
proof -
  have "cube_sorted c" using blocked_cube_over [OF assms(1,2,4)] by (simp add: blocked_cube_ok_def)
  then have "set (cube_literals c) \<subseteq> set (cube_literals s)" using subsumes_subset assms(5,6) by blast
  then show ?thesis
    using assms(2-4) lits_hold_subset by (fastforce simp: frame_free_def pdr_frame_def)
qed

lemma is_already_blocked_runs:
  assumes inv: "pdr_inv sys st" and so: "sound_oracle (sat_solver E)" and pool: "pool_ok sys (ctis st)"
    and h: "pool_live (ctis st) h" and l: "1 \<le> l" "l \<le> depth st"
  shows "runs (is_already_blocked E sys st (Obligation l h)) (blocked_result sys st l (cube_at st h))"
proof -
  have tr: "pdr_trace sys st" and ok: "solver_ok sys st" using inv by (auto simp: pdr_inv_def)
  define s where "s = cti_state_vars (entry_at (ctis st) h)"
  note cube = pool_entry_cube [OF pool h, folded s_def]
  have frames: "frames_from d st l = Some (drop l (trace_blocked_cubes st))" for d
    using l(2) trace_len [OF tr] by (simp add: frames_from_def)
  show ?thesis
  proof (cases "list_ex (list_ex (\<lambda>c. subsumes c s)) (drop l (trace_blocked_cubes st))")
    case True
    then obtain cubes c where "cubes \<in> set (drop l (trace_blocked_cubes st))" "c \<in> set cubes" "subsumes c s"
      by (auto simp: list_ex_iff)
    then obtain j where "j < length (trace_blocked_cubes st)" "l \<le> j"
      "c \<in> set (trace_blocked_cubes st ! j)" "subsumes c s"
      by (auto simp: in_set_conv_nth) (metis le_add1 less_diff_conv2 linorder_not_less nat_add_left_cancel_less
        add.commute less_diff_conv nth_mem)
    from subsumed_frame_free [OF tr this cube(1)] have "frame_free sys st l (cube_literals s)" .
    then show ?thesis
      using True l inv pool_get [OF pool h] frames
      by (simp add: is_already_blocked_def s_def [symmetric] blocked_result_def assert_that_holds)
  next
    case False
    define st1 where "st1 = pdr_with_solver st"
    note w = with_solver_ok [OF tr ok, folded st1_def]
    note same = solver_step_same [OF w(3)]
    define acts where "acts = drop l (trace_activators st)"
    define sv where "sv = assume_literals (assume_literals (pdr_solver st1) (cube_literals s)) acts"
    define A where "A = ([] @ cube_literals s) @ acts"
    have asks: "asks sv (added (pdr_solver st1)) A []"
      unfolding sv_def A_def by (intro asks_assume_literals idle_asks w(2) refl)
    obtain b sv' where r: "is_sat E sv = (b, sv')" by fastforce
    note q = query_done [OF inv so st1_def asks terminated_Nil r]
    have acts_eq: "activators_from d st1 l = Some acts" for d
      using activators_from_runs [of sys st1 l d] tr same l by (simp add: acts_def)
    have run: "is_already_blocked E sys st (Obligation l h) = Some (\<not> b, st1\<lparr>pdr_solver := sv'\<rparr>)"
      using False l pool_get [OF pool h] frames r
      by (simp add: is_already_blocked_def s_def [symmetric] st1_def [symmetric] acts_eq
          sv_def [symmetric] assert_that_holds)
    have "b \<longleftrightarrow> \<not> frame_free sys st l (cube_literals s)"
    proof
      assume b
      then obtain m where m: "stream_sat m (added (pdr_solver st1))" "lits_true m A"
        using q(1) by (auto simp: sat_answer_def)
      then have "frames_sat sys st m" using w(1) same by (simp add: agrees_def)
      then have "read (state_vars sys) m \<in> pdr_frame sys st l"
        by (rule frame_of_model [OF tr l(2)]) (use m(2) in \<open>simp add: A_def acts_def\<close>)
      moreover have "holds_in sys (read (state_vars sys) m) (cube_literals s)"
        using m(2) lits_true_read_iff [OF cube(2), of m] by (simp add: A_def)
      ultimately show "\<not> frame_free sys st l (cube_literals s)" by (auto simp: frame_free_def)
    next
      assume "\<not> frame_free sys st l (cube_literals s)"
      then obtain u where u: "u \<in> pdr_frame sys st l" "holds_in sys u (cube_literals s)"
        by (auto simp: frame_free_def)
      define \<sigma> where "\<sigma> = put_range (state_vars sys) u (\<lambda>_. False)"
      define \<tau> where "\<tau> = with_flags st l False False \<sigma>"
      have \<sigma>: "read (state_vars sys) \<sigma> = u"
        using u(1) by (simp add: \<sigma>_def pdr_frame_def all_states_def num_state_vars_def)
      then have rd: "read (state_vars sys) \<tau> = u" unfolding \<tau>_def by (simp add: with_flags_read(1) [OF tr])
      have "stream_sat \<tau> (added (pdr_solver st1))"
        unfolding \<tau>_def by (rule with_flags_stream [OF tr w(1,3)]) (use \<sigma> u in auto)
      moreover have "lits_true \<tau> (cube_literals s)"
        using lits_true_read_iff [OF cube(2), of \<tau>] rd u(2) by simp
      moreover have "lits_true \<tau> acts" unfolding acts_def \<tau>_def by (rule activators_flagged(1) [OF tr])
      ultimately have "lits_true \<tau> A" by (simp add: A_def)
      then show b using sat_answer_unsat [of sv _ A "[]" sv' \<tau> b] q(1) \<open>stream_sat \<tau> _\<close> by (cases b) auto
    qed
    then show ?thesis using q(2,3) by (simp add: run blocked_result_def s_def)
  qed
qed

section \<open>Predecessors\<close>

definition pred_result ::
  "transition_system \<Rightarrow> pdr \<Rightarrow> nat \<Rightarrow> literal list \<Rightarrow> cti_handle \<times> pdr \<Rightarrow> bool" where
  "pred_result sys st l target r \<longleftrightarrow>
     pdr_inv sys (snd r) \<and> query_step st (snd r) \<and> pool_ok sys (ctis (snd r)) \<and>
     pool_live (ctis (snd r)) (fst r) \<and> \<not> frame_free sys st (l - 1) (cube_at (snd r) (fst r)) \<and>
     (\<forall>u \<in> all_states sys. holds_in sys u (cube_at (snd r) (fst r)) \<longrightarrow>
        (\<exists>i t. trans_step sys u i t \<and> holds_in sys t target))"

lemma all_states_frame: "pdr_trace sys st \<Longrightarrow> pdr_frame sys st (Suc (depth st)) = all_states sys"
  using trace_len [of sys st] by (auto simp: pdr_frame_def)

text \<open>The constraint that the successor is outside a cube, for both engines.\<close>

definition next_outside :: "transition_system \<Rightarrow> literal list \<Rightarrow> literal list" where
  "next_outside sys s = map (\<lambda>l. primed sys (lit_not l)) s @ [separator]"

lemma next_outside_primed:
  assumes "well_formed_system sys" and "lits_over (state_vars sys) s" and "l \<in> set s"
  shows "prime d sys (lit_not l) = Some (primed sys (lit_not l))" and "primed sys (lit_not l) \<noteq> separator"
proof -
  have "vr_contains (state_vars sys) (lit_var (lit_not l))" using assms(2,3) by (simp add: lits_over_def)
  then show "prime d sys (lit_not l) = Some (primed sys (lit_not l))" "primed sys (lit_not l) \<noteq> separator"
    using prime_state [OF assms(1)] lit_var_primed(3) [OF assms(1)] by blast+
qed

lemma next_outside_asked:
  assumes "well_formed_system sys" and "lits_over (state_vars sys) s" and "asks sv st [] []"
  shows "runs (constrain_not_mapped sv s (prime d sys)) (\<lambda>sv. asks sv st [] (next_outside sys s))"
  unfolding next_outside_def
  by (rule asks_constrain_not_mapped [OF assms(3)]) (use next_outside_primed [OF assms(1,2)] in blast)

lemma next_outside_sat:
  assumes wf: "well_formed_system sys" and s: "lits_over (state_vars sys) s"
  shows "stream_sat \<tau> (next_outside sys s) \<longleftrightarrow> \<not> holds_in sys (read (next_state_vars sys) \<tau>) s"
proof -
  have "separator \<notin> set (map (\<lambda>l. primed sys (lit_not l)) s)" using next_outside_primed(2) [OF wf s] by fastforce
  then have "stream_sat \<tau> (next_outside sys s) \<longleftrightarrow> (\<exists>l \<in> set s. lit_true \<tau> (primed sys (lit_not l)))"
    unfolding next_outside_def by simp
  also have "\<dots> \<longleftrightarrow> (\<exists>l \<in> set s. \<not> lit_holds (state_vars sys) (read (next_state_vars sys) \<tau>) l)"
    using s by (intro bex_cong) (auto simp: lits_over_def lit_true_primed [OF wf])
  finally show ?thesis by (auto simp: lits_hold_def)
qed

lemma next_outside_terminated: "terminated (next_outside sys s)"
  by (simp add: next_outside_def)

text \<open>Assuming the values that a model has in a range.\<close>

lemma lits_true_valuation:
  assumes "range_ok rng"
  shows "lits_true \<tau> (valuation_of rng m) \<longleftrightarrow> read rng \<tau> = read rng m"
  using lits_true_read_iff [OF lits_over_valuation [OF assms], of \<tau> m] lits_hold_valuation [OF assms, of "read rng \<tau>" m]
  by simp

text \<open>The query has no model: a model would give the state and the input a second successor.\<close>

lemma lifting_no_model:
  assumes inv: "pdr_inv sys st" and s: "lits_over (state_vars sys) s"
    and n: "frames_sat sys st n" "lit_true n (transition_activator st)"
    and step: "trans_step sys x y t" "holds_in sys t s"
    and xy: "read (state_vars sys) n = x" "read (input_vars sys) n = y"
  shows "\<not> stream_sat n (next_outside sys s)"
proof -
  have tr: "pdr_trace sys st" using inv by (simp add: pdr_inv_def)
  have wf: "well_formed_system sys" and fn: "functional_system sys" using pdr_inv_system [OF inv] by auto
  have "n (lit_var (transition_activator st))"
    using n(2) activator_var(3) [OF tr, of "transition_activator st" n] by (simp add: all_activators_def)
  then have "cnf_sat n (ts_trans sys)" using n(1) by (simp add: frames_sat_def)
  then have "trans_step sys x y (read (next_state_vars sys) n)" using xy by (auto simp: trans_step_def)
  moreover have "length x = num_state_vars sys" "length y = num_input_vars sys"
    using xy by (auto simp: num_state_vars_def num_input_vars_def)
  ultimately have "read (next_state_vars sys) n = t" using fn step(1) unfolding functional_system_def by metis
  then show ?thesis using step(2) next_outside_sat [OF wf s] by simp
qed

text \<open>What the core means: under the input every state in it steps into the cube.\<close>

lemma lifted_core_forces:
  assumes inv: "pdr_inv sys st" and st1: "agrees sys st1" "solver_step st st1"
    and s: "lits_over (state_vars sys) s"
    and core: "\<not> (\<exists>\<sigma>. stream_sat \<sigma> (added (pdr_solver st1)) \<and> lit_true \<sigma> (transition_activator st) \<and>
      read (input_vars sys) \<sigma> = y \<and> holds_in sys (read (state_vars sys) \<sigma>) c \<and> stream_sat \<sigma> (next_outside sys s))"
    and u: "u \<in> all_states sys" "holds_in sys u c" and y: "length y = num_input_vars sys"
  shows "\<exists>t. trans_step sys u y t \<and> holds_in sys t s"
proof -
  have tr: "pdr_trace sys st" using inv by (simp add: pdr_inv_def)
  have wf: "well_formed_system sys" and fn: "functional_system sys" using pdr_inv_system [OF inv] by auto
  have "length u = num_state_vars sys" using u by (simp add: all_states_def)
  then obtain t where t: "trans_step sys u y t" using fn y unfolding functional_system_def by blast
  then obtain \<sigma> where \<sigma>: "cnf_sat \<sigma> (ts_trans sys)" "read (state_vars sys) \<sigma> = u"
    "read (input_vars sys) \<sigma> = y" "read (next_state_vars sys) \<sigma> = t" by (auto simp: trans_step_def)
  define \<tau> where "\<tau> = with_flags st (Suc (depth st)) True False \<sigma>"
  note rd = with_flags_read [OF tr, of "Suc (depth st)" True False \<sigma>, folded \<tau>_def]
  have "stream_sat \<tau> (added (pdr_solver st1))"
    unfolding \<tau>_def by (rule with_flags_stream [OF tr st1]) (use \<sigma> u all_states_frame [OF tr] in auto)
  moreover have "lit_true \<tau> (transition_activator st)"
    unfolding \<tau>_def by (simp add: activators_flagged(3) [OF tr])
  ultimately have "\<not> stream_sat \<tau> (next_outside sys s)" using core rd \<sigma> u(2) by auto
  then show ?thesis using next_outside_sat [OF wf s] rd(3) \<sigma>(4) t by auto
qed

lemma get_predecessor_runs:
  assumes inv: "pdr_inv sys st" and so: "sound_oracle (sat_solver E)" and pool: "pool_ok sys (ctis st)"
    and h: "pool_live (ctis st) h"
    and m: "status (pdr_solver st) = Satisfied m" and pm: "pred_model sys st (cube_at st h) l m"
  shows "runs (get_predecessor E sys st (Obligation l h)) (pred_result sys st l (cube_at st h))"
proof -
  have tr: "pdr_trace sys st" and ok: "solver_ok sys st" using inv by (auto simp: pdr_inv_def)
  have wf: "well_formed_system sys" using pdr_inv_system [OF inv] by auto
  then have rng: "range_ok (state_vars sys)" "range_ok (input_vars sys)"
    by (auto simp: well_formed_system_def)
  define s where "s = cti_state_vars (entry_at (ctis st) h)"
  note cube = pool_entry_cube [OF pool h, folded s_def]
  define x where "x = read (state_vars sys) m"
  define y where "y = read (input_vars sys) m"
  have pred: "x \<in> pdr_frame sys st (l - 1)" "trans_step sys x y (read (next_state_vars sys) m)"
    "holds_in sys (read (next_state_vars sys) m) (cube_literals s)"
    using pm by (auto simp: pred_model_def x_def y_def s_def)
  define p where "p = valuation_of (state_vars sys) m"
  define ins where "ins = valuation_of (input_vars sys) m"
  define st1 where "st1 = pdr_with_solver st"
  note w = with_solver_ok [OF tr ok, folded st1_def]
  note same = solver_step_same [OF w(3)]
  define C where "C = next_outside sys (cube_literals s)"
  define A where "A = (([] @ [transition_activator st]) @ ins) @ p"
  have "asks (pdr_solver st1) (added (pdr_solver st1)) [] []" by (intro idle_asks w(2) refl)
  from next_outside_asked [OF wf cube(2) this, of "debug_build E"]
  obtain sv0 where sv0: "constrain_not_mapped (pdr_solver st1) (cube_literals s)
      (prime (debug_build E) sys) = Some sv0" "asks sv0 (added (pdr_solver st1)) [] C"
    by (auto simp: runs_iff C_def)
  define sv where "sv = assume_literals (assume_literals (assume_literal sv0 (transition_activator st)) ins) p"
  have asks: "asks sv (added (pdr_solver st1)) A C"
    unfolding sv_def A_def by (intro asks_assume_literals asks_assume_literal sv0(2))
  obtain b sv' where r: "is_sat E sv = (b, sv')" by fastforce
  note q = query_done [OF inv so st1_def asks next_outside_terminated [of sys "cube_literals s", folded C_def] r]
  have "\<not> b"
  proof
    assume b
    then obtain n where n: "stream_sat n (added (pdr_solver st1))" "lits_true n A" "stream_sat n C"
      using q(1) by (auto simp: sat_answer_def)
    then have "frames_sat sys st n" using w(1) same by (simp add: agrees_def)
    moreover have "read (state_vars sys) n = x" "read (input_vars sys) n = y" "lit_true n (transition_activator st)"
      using n(2) lits_true_valuation [OF rng(1)] lits_true_valuation [OF rng(2)]
      by (auto simp: A_def x_def y_def p_def ins_def)
    ultimately show False using lifting_no_model [OF inv cube(2) _ _ pred(2,3)] n(3) by (simp add: C_def)
  qed
  then obtain core where core: "status sv' = Unsatisfied core"
    "\<not> (\<exists>\<sigma>. stream_sat \<sigma> (added (pdr_solver st1)) \<and> lits_true \<sigma> (filter core A) \<and> stream_sat \<sigma> C)"
    using q(1) by (auto simp: sat_answer_def)
  define c where "c = make_cube (filter core p)"
  define e where "e = \<lparr>cti_state_vars = c, cti_input_vars = make_cube ins, cti_successor = Some h\<rparr>"
  have over: "lits_over (state_vars sys) p" using lits_over_valuation rng by (simp add: p_def)
  then have c_over: "lits_over (state_vars sys) (filter core p)" "lits_over (state_vars sys) (cube_literals c)"
    by (auto simp: lits_over_def c_def)
  have x: "x \<in> all_states sys" "holds_in sys x p"
    using lits_hold_valuation [OF rng(1), of x m] by (simp_all add: x_def p_def all_states_def num_state_vars_def)
  then have xc: "holds_in sys x (cube_literals c)" by (simp add: lits_hold_def c_def)
  have y: "entry_input sys e = y" "length y = num_input_vars sys"
    using row_of_valuation [OF rng(2), of m] by (simp_all add: entry_input_def e_def ins_def y_def num_input_vars_def)
  have "\<not> (\<exists>\<sigma>. stream_sat \<sigma> (added (pdr_solver st1)) \<and> lit_true \<sigma> (transition_activator st) \<and>
      read (input_vars sys) \<sigma> = y \<and> holds_in sys (read (state_vars sys) \<sigma>) (cube_literals c) \<and> stream_sat \<sigma> C)"
  proof clarify
    fix \<sigma> assume \<sigma>: "stream_sat \<sigma> (added (pdr_solver st1))" "lit_true \<sigma> (transition_activator st)" "y = read (input_vars sys) \<sigma>"
      "holds_in sys (read (state_vars sys) \<sigma>) (cube_literals c)" "stream_sat \<sigma> C"
    have "lits_true \<sigma> ins" using lits_true_valuation [OF rng(2)] \<sigma>(3) by (simp add: ins_def y_def)
    moreover have "lits_true \<sigma> (filter core p)"
      using lits_true_read_iff [OF c_over(1), of \<sigma>] \<sigma>(4) by (simp add: c_def lits_hold_def)
    ultimately have "lits_true \<sigma> (filter core A)" using \<sigma>(2) by (auto simp: A_def lits_true_def)
    then show False using core(2) \<sigma>(1,5) by blast
  qed
  then have link: "\<exists>t. trans_step sys u y t \<and> holds_in sys t (cube_literals s)"
    if "u \<in> all_states sys" "holds_in sys u (cube_literals c)" for u
    using lifted_core_forces [OF inv w(1,3) cube(2) _ that y(2)] by (simp add: C_def)
  have shape: "cti_shape sys e"
    unfolding cti_shape_def cti_cube_ok_def using c_over(2) x(1) xc by (auto simp: e_def) (simp add: c_def)
  have "cti_link sys e (entry_at (ctis st) h)"
    unfolding cti_link_def y(1) using shape link by (simp add: e_def s_def)
  then have new: "case Some h of None \<Rightarrow> cti_last sys e
      | Some k \<Rightarrow> pool_live (ctis st) k \<and> cti_link sys e (entry_at (ctis st) k)"
    using h by simp
  define st2 where "st2 = st1\<lparr>pdr_solver := sv'\<rparr>"
  obtain h' p' where mk: "cti_make (ctis st) c (make_cube ins) (Some h) = (h', p')" by fastforce
  note mko = pool_make_ok [OF pool mk new [unfolded e_def]]
  have ext: "pool_ext (ctis st) p'" using mko(3,4) by (simp add: pool_ext_def)
  have "get_predecessor E sys st (Obligation l h) = Some (h', st2\<lparr>ctis := p'\<rparr>)"
    using pool_get [OF pool h] get_model_Satisfied [OF m] sv0(1) r \<open>\<not> b\<close> mk
      get_core_Unsatisfied [OF core(1)]
    by (simp add: get_predecessor_def Let_def s_def [symmetric] st1_def [symmetric] same
        sv_def [symmetric] ins_def [symmetric] p_def [symmetric] st2_def c_def [symmetric])
  moreover have "query_step st (st2\<lparr>ctis := p'\<rparr>)"
    by (rule query_step_ctis [OF _ ext]) (use q(3) in \<open>simp add: st2_def\<close>)
  moreover have "pdr_inv sys st2" using q(2) by (simp add: st2_def)
  moreover have "\<not> frame_free sys st (l - 1) (cube_literals c)"
    using pred(1) xc by (auto simp: frame_free_def)
  moreover have "\<forall>u \<in> all_states sys. holds_in sys u (cube_literals c) \<longrightarrow>
      (\<exists>i t. trans_step sys u i t \<and> holds_in sys t (cube_at st h))"
    using link unfolding s_def by blast
  ultimately show ?thesis using mko(1,2,5) by (simp add: pred_result_def)
qed

end
