(* ===== verification/PdrGeneralize.thy ===== *)
theory PdrGeneralize
  imports PdrObligations
begin

text \<open>
  The test against the initial states decides whether a cube contains one, and generalisation
  returns a part of the obligation's cube that contains none and is inductive relative to the
  frame below the level it returns.
\<close>

section \<open>Initial states\<close>

lemma init_lits_ok:
  assumes "pdr_system sys"
  shows "lits_over (state_vars sys) (init_lits sys)"
    and "distinct (map lit_var (init_lits sys))"
    and "cnf_sat \<sigma> (ts_init sys) \<longleftrightarrow> lits_true \<sigma> (init_lits sys)"
proof -
  have wf: "well_formed_system sys" and c: "init_is_cube sys" using assms by (auto simp: pdr_system_def)
  show "lits_over (state_vars sys) (init_lits sys)"
    using wf by (auto simp: well_formed_system_def formula_over_def lits_over_def init_lits_def)
  show "distinct (map lit_var (init_lits sys))" using c by (simp add: init_is_cube_def init_lits_def)
  show "cnf_sat \<sigma> (ts_init sys) \<longleftrightarrow> lits_true \<sigma> (init_lits sys)"
    using c by (auto simp: init_is_cube_def cnf_sat_def stream_sat_def unit_stream_clauses clause_true_def
        lits_true_def init_lits_def)
qed

lemma init_state_lits:
  assumes "pdr_system sys" and "s \<in> all_states sys"
  shows "init_state sys s \<longleftrightarrow> holds_in sys s (init_lits sys)"
proof -
  define \<sigma> where "\<sigma> = put_range (state_vars sys) s (\<lambda>_. False)"
  have "read (state_vars sys) \<sigma> = s"
    using assms(2) by (simp add: \<sigma>_def all_states_def num_state_vars_def)
  moreover have "well_formed_system sys" using assms(1) by (simp add: pdr_system_def)
  ultimately show ?thesis
    using init_state_read [of sys \<sigma>] init_lits_ok [OF assms(1)]
      lits_true_read_iff [of "state_vars sys" "init_lits sys" \<sigma>] by simp
qed

lemma intersects_iff:
  assumes "pdr_trace sys st"
  shows "intersects_initial_states st c \<longleftrightarrow> (\<forall>l \<in> set c. lit_not l \<notin> set (init_lits sys))"
proof -
  have "init_cube st = make_cube (init_lits sys)" using assms by (simp add: pdr_trace_def formulas_ok_def)
  then show ?thesis by (auto simp: intersects_initial_states_def list_ex_iff cube_contains_iff)
qed

lemma intersects_mono:
  "pdr_trace sys st \<Longrightarrow> \<not> intersects_initial_states st c \<Longrightarrow> set c \<subseteq> set d \<Longrightarrow>
   \<not> intersects_initial_states st d"
  by (auto simp: intersects_iff)

lemma intersects_states:
  assumes tr: "pdr_trace sys st" and over: "lits_over (state_vars sys) c"
    and sat: "\<exists>s \<in> all_states sys. holds_in sys s c"
  shows "intersects_initial_states st c \<longleftrightarrow> (\<exists>s. init_state sys s \<and> holds_in sys s c)"
proof
  have ps: "pdr_system sys" using tr by (simp add: pdr_trace_def)
  note il = init_lits_ok [OF ps]
  assume "intersects_initial_states st c"
  then have no: "\<forall>l \<in> set c. lit_not l \<notin> set (init_lits sys)" by (simp add: intersects_iff [OF tr])
  from sat obtain s where s: "s \<in> all_states sys" "holds_in sys s c" by blast
  define \<sigma>0 where "\<sigma>0 = put_range (state_vars sys) s (\<lambda>_. False)"
  define \<sigma> where "\<sigma> v = (if v \<in> lit_var ` set (init_lits sys)
      then literal_of v False \<in> set (init_lits sys) else \<sigma>0 v)" for v
  have r0: "read (state_vars sys) \<sigma>0 = s" using s(1) by (simp add: \<sigma>0_def all_states_def num_state_vars_def)
  have il_true: "lit_true \<sigma> l" if "l \<in> set (init_lits sys)" for l
  proof -
    have lv: "l \<noteq> separator" using il(1) that by (auto simp: lits_over_def)
    have "literal_of (lit_var l) False \<in> set (init_lits sys) \<longleftrightarrow> lit_sign l"
    proof (cases "lit_sign l")
      case True
      then have "literal_of (lit_var l) False = l" using literal_of_var_sign [of l] by simp
      with that True show ?thesis by simp
    next
      case False
      have "literal_of (lit_var l) False \<noteq> l" using False lv lit_sign_literal_of [of "lit_var l" False] by force
      moreover have "lit_var (literal_of (lit_var l) False) = lit_var l" by simp
      ultimately have "literal_of (lit_var l) False \<notin> set (init_lits sys)"
        using il(2) that by (metis distinct_map inj_onD)
      with False show ?thesis by simp
    qed
    with that show ?thesis by (auto simp: lit_true_def \<sigma>_def)
  qed
  have c_true: "lit_true \<sigma> l" if "l \<in> set c" for l
  proof (cases "lit_var l \<in> lit_var ` set (init_lits sys)")
    case True
    then obtain k where k: "k \<in> set (init_lits sys)" "lit_var k = lit_var l" by auto
    have "k = l"
    proof (rule ccontr)
      assume "k \<noteq> l"
      then have "lit_not l = k" using opposite_literal [of l k] k(2) by auto
      then show False using no k(1) that by auto
    qed
    then show ?thesis using il_true k by simp
  next
    case False
    then have "lit_true \<sigma> l = lit_true \<sigma>0 l" by (intro lit_true_cong) (simp add: \<sigma>_def)
    then show ?thesis using lits_true_read [OF over, of \<sigma>0] r0 s(2) that by simp
  qed
  have "cnf_sat \<sigma> (ts_init sys)" using il(3) il_true by (simp add: lits_true_def)
  then have "init_state sys (read (state_vars sys) \<sigma>)" by (auto simp: init_state_def)
  moreover have "holds_in sys (read (state_vars sys) \<sigma>) c"
    using c_true lits_true_read [OF over, of \<sigma>] by simp
  ultimately show "\<exists>s. init_state sys s \<and> holds_in sys s c" by blast
next
  have ps: "pdr_system sys" using tr by (simp add: pdr_trace_def)
  assume "\<exists>s. init_state sys s \<and> holds_in sys s c"
  then obtain s where s: "init_state sys s" "holds_in sys s c" by blast
  have i: "holds_in sys s (init_lits sys)"
    using init_state_lits [OF ps init_state_length [OF s(1)]] s(1) by simp
  show "intersects_initial_states st c"
    unfolding intersects_iff [OF tr]
  proof (intro ballI notI)
    fix l assume l: "l \<in> set c" "lit_not l \<in> set (init_lits sys)"
    then have "lit_holds (state_vars sys) s l" "lit_holds (state_vars sys) s (lit_not l)"
      using s(2) i by (auto simp: lits_hold_def)
    then show False using l(1) over by (simp add: lits_over_def)
  qed
qed

lemma init_free:
  assumes "pdr_trace sys st" and "lits_over (state_vars sys) c"
    and "\<not> intersects_initial_states st c" and "init_state sys s"
  shows "\<not> holds_in sys s c"
  using intersects_states [OF assms(1,2)] assms(3,4) init_state_length [OF assms(4)] by blast

lemma intersects_step [simp]:
  "solver_step st st' \<Longrightarrow> intersects_initial_states st' c = intersects_initial_states st c"
  by (simp add: intersects_initial_states_def solver_step_same)

lemma rel_inductive_step [simp]:
  "solver_step st st' \<Longrightarrow> rel_inductive sys st' c j = rel_inductive sys st c j"
  by (simp add: rel_inductive_def solver_step_same)

lemma rel_inductive_set: "set c = set d \<Longrightarrow> rel_inductive sys st c j = rel_inductive sys st d j"
  by (simp add: rel_inductive_def lits_hold_def)

text \<open>The answer of a relative induction query, as a statement about frames alone.\<close>

lemma rel_ind_result_iff:
  assumes "rel_ind_result sys st s i (b, st')" and "1 \<le> i" and "i \<le> depth st + 1"
  shows "b \<longleftrightarrow> rel_inductive sys st s (i - 1)"
proof
  assume b
  with assms show "rel_inductive sys st s (i - 1)"
    unfolding rel_ind_result_def core_blocks_def by fastforce
next
  assume r: "rel_inductive sys st s (i - 1)"
  show b
  proof (rule ccontr)
    assume "\<not> b"
    then obtain m where "pred_model sys st s i m" using assms by (auto simp: rel_ind_result_def)
    with r show False unfolding pred_model_def rel_inductive_def by blast
  qed
qed

section \<open>Generalisation\<close>

lemma first_core_level_runs:
  assumes "status (pdr_solver st) = Unsatisfied core" and "\<forall>i \<in> set is. i < length (trace_activators st)"
  shows "runs (first_core_level st is j) (\<lambda>r. (r = j \<or> r \<in> set is) \<and>
    (\<forall>k \<in> set is. core (trace_activators st ! k) \<longrightarrow> sorted is \<longrightarrow> r \<le> k))"
  using assms
  by (induction "is") (auto simp: is_in_core_Unsatisfied intro: runs_mono)

lemma set_readd: "set (removeAll l r @ [l]) = insert l (set r)"
  by auto

lemma drop_outside_core_runs:
  assumes tr: "pdr_trace sys st" and core: "status (pdr_solver st) = Unsatisfied core"
    and over: "lits_over (state_vars sys) s" and "set ls \<subseteq> set s" and "set res \<subseteq> set s"
    and "\<not> intersects_initial_states st res"
    and "\<forall>l \<in> set s. core (primed sys l) \<longrightarrow> l \<in> set res"
  shows "runs (drop_outside_core d sys st ls res) (\<lambda>r. set r \<subseteq> set s \<and>
    \<not> intersects_initial_states st r \<and> (\<forall>l \<in> set s. core (primed sys l) \<longrightarrow> l \<in> set r))"
  using assms(4-7)
proof (induction ls arbitrary: res)
  case Nil
  then show ?case by simp
next
  case (Cons l ls)
  have wf: "well_formed_system sys" using tr by (simp add: pdr_trace_def pdr_system_def)
  have p: "prime d sys l = Some (primed sys l)"
    by (rule prime_state [OF wf]) (use over Cons.prems(1) in \<open>simp add: lits_over_def\<close>)
  define res1 where "res1 = (if intersects_initial_states st (removeAll l res)
      then removeAll l res @ [l] else removeAll l res)"
  have 1: "set res1 \<subseteq> set s" using Cons.prems(1,2) by (auto simp: res1_def)
  have 2: "\<not> intersects_initial_states st res1"
  proof (cases "intersects_initial_states st (removeAll l res)")
    case True
    then have "set res \<subseteq> set res1" by (auto simp: res1_def)
    then show ?thesis by (rule intersects_mono [OF tr Cons.prems(3)])
  qed (simp add: res1_def)
  have 3: "\<forall>k \<in> set s. core (primed sys k) \<longrightarrow> k \<in> set res1" if "\<not> core (primed sys l)"
    using Cons.prems(4) that by (auto simp: res1_def)
  show ?case
  proof (cases "core (primed sys l)")
    case True
    then show ?thesis using Cons.IH [of res] Cons.prems p by (simp add: is_in_core_Unsatisfied [OF core])
  next
    case False
    then show ?thesis
      using Cons.IH [OF _ 1 2 3] Cons.prems(1) p
      by (simp add: is_in_core_Unsatisfied [OF core] Let_def res1_def [symmetric])
  qed
qed

text \<open>What the loops of generalisation keep of the cube.\<close>

definition gen_cube :: "transition_system \<Rightarrow> pdr \<Rightarrow> literal list \<Rightarrow> literal list \<Rightarrow> nat \<Rightarrow> bool" where
  "gen_cube sys st s c i \<longleftrightarrow>
     set c \<subseteq> set s \<and> \<not> intersects_initial_states st c \<and> rel_inductive sys st c (i - 1)"

lemma gen_cube_step [simp]: "solver_step st st' \<Longrightarrow> gen_cube sys st' s c i = gen_cube sys st s c i"
  by (simp add: gen_cube_def)

lemma drop_literals_runs:
  assumes "pdr_inv sys st" and so: "sound_oracle (sat_solver E)" and i: "1 \<le> i" "i \<le> depth st + 1"
    and over: "lits_over (state_vars sys) s" and "set ls \<subseteq> set s" and "gen_cube sys st s res i"
  shows "runs (drop_literals E sys st ls res i)
    (\<lambda>r. pdr_inv sys (snd r) \<and> solver_step st (snd r) \<and> gen_cube sys st s (fst r) i)"
  using assms(1,4,6,7)
proof (induction ls arbitrary: res st)
  case Nil
  then show ?case by simp
next
  case (Cons l ls)
  have tr: "pdr_trace sys st" using Cons.prems(1) by (simp add: pdr_inv_def)
  define r1 where "r1 = removeAll l res"
  define step where "step = (if intersects_initial_states st r1 then Some (True, st)
        else do { (b, st) \<leftarrow> is_relative_inductive E sys st r1 i; Some (\<not> b, st) })"
  have sub: "set r1 \<subseteq> set s" using Cons.prems(4) by (auto simp: r1_def gen_cube_def)
  have over1: "lits_over (state_vars sys) r1" by (rule lits_over_subset [OF over sub])
  have "runs step (\<lambda>r. pdr_inv sys (snd r) \<and> solver_step st (snd r) \<and>
      (fst r \<longleftrightarrow> intersects_initial_states st r1 \<or> \<not> rel_inductive sys st r1 (i - 1)))"
  proof (cases "intersects_initial_states st r1")
    case True
    then show ?thesis using Cons.prems(1) by (simp add: step_def)
  next
    case False
    obtain b st1 where q: "is_relative_inductive E sys st r1 i = Some (b, st1)"
      "rel_ind_result sys st r1 i (b, st1)"
      using is_relative_inductive_runs [OF Cons.prems(1) so i(1) Cons.prems(2) over1]
      by (auto simp: runs_iff)
    from rel_ind_result_iff [OF q(2) i(1) Cons.prems(2)]
    show ?thesis using False q by (simp add: step_def rel_ind_result_def)
  qed
  then obtain keep st1 where st1: "step = Some (keep, st1)" "pdr_inv sys st1" "solver_step st st1"
    "keep \<longleftrightarrow> intersects_initial_states st r1 \<or> \<not> rel_inductive sys st r1 (i - 1)"
    by (auto simp: runs_iff)
  define r2 where "r2 = (if keep then r1 @ [l] else r1)"
  have g: "gen_cube sys st s r2 i"
  proof (cases keep)
    case False
    then show ?thesis using sub st1(4) by (simp add: gen_cube_def r2_def)
  next
    case True
    have "l \<in> set res"
    proof (rule ccontr)
      assume "l \<notin> set res"
      then have "r1 = res" by (simp add: r1_def)
      then show False using True st1(4) Cons.prems(4) by (simp add: gen_cube_def)
    qed
    then have e: "set r2 = set res" using True by (auto simp: r2_def r1_def)
    have "\<not> intersects_initial_states st r2"
      using intersects_mono [OF tr _ equalityD2 [OF e]] Cons.prems(4) by (simp add: gen_cube_def)
    then show ?thesis
      using Cons.prems(4) rel_inductive_set [OF e] e by (simp add: gen_cube_def)
  qed
  have d: "depth st1 = depth st" using solver_step_same(3) [OF st1(3)] .
  have "runs (drop_literals E sys st1 ls r2 i)
    (\<lambda>r. pdr_inv sys (snd r) \<and> solver_step st1 (snd r) \<and> gen_cube sys st1 s (fst r) i)"
    by (rule Cons.IH) (use st1 Cons.prems g d in auto)
  then have "runs (drop_literals E sys st1 ls r2 i)
    (\<lambda>r. pdr_inv sys (snd r) \<and> solver_step st (snd r) \<and> gen_cube sys st s (fst r) i)"
    by (rule runs_mono) (use st1(3) in \<open>auto intro: solver_step_trans\<close>)
  then show ?case
    using st1(1) by (simp add: Let_def r1_def [symmetric] step_def [symmetric] r2_def [symmetric])
qed

lemma push_level_runs:
  assumes "pdr_inv sys st" and so: "sound_oracle (sat_solver E)" and over: "lits_over (state_vars sys) c"
    and "1 \<le> i" and "i \<le> depth st + 1" and "rel_inductive sys st c (i - 1)"
  shows "runs (push_level E sys st c i) (\<lambda>r. pdr_inv sys (snd r) \<and> solver_step st (snd r) \<and>
    i \<le> fst r \<and> fst r \<le> depth st + 1 \<and> rel_inductive sys st c (fst r - 1))"
  using assms(1,4-6)
proof (induction "depth st + 1 - i" arbitrary: i st)
  case 0
  then show ?case by (simp add: push_level.simps)
next
  case (Suc n)
  then have i: "i \<le> depth st" by simp
  obtain b st1 where q: "is_relative_inductive E sys st c (i + 1) = Some (b, st1)"
    "rel_ind_result sys st c (i + 1) (b, st1)"
    using is_relative_inductive_runs [OF Suc.prems(1) so _ _ over, of "i + 1"] i by (auto simp: runs_iff)
  then have st1: "pdr_inv sys st1" "solver_step st st1" by (auto simp: rel_ind_result_def)
  have b: "b \<longleftrightarrow> rel_inductive sys st c i" using rel_ind_result_iff [OF q(2)] i by simp
  have d: "depth st1 = depth st" using solver_step_same(3) [OF st1(2)] .
  show ?case
  proof (cases b)
    case False
    then show ?thesis using q(1) st1 Suc.prems i by (subst push_level.simps) simp
  next
    case True
    have "runs (push_level E sys st1 c (i + 1)) (\<lambda>r. pdr_inv sys (snd r) \<and> solver_step st1 (snd r) \<and>
      i + 1 \<le> fst r \<and> fst r \<le> depth st1 + 1 \<and> rel_inductive sys st1 c (fst r - 1))"
      by (rule Suc.hyps(1)) (use Suc.hyps(2) st1 d i b True in simp_all)
    then have "runs (push_level E sys st1 c (i + 1)) (\<lambda>r. pdr_inv sys (snd r) \<and> solver_step st (snd r) \<and>
      i \<le> fst r \<and> fst r \<le> depth st + 1 \<and> rel_inductive sys st c (fst r - 1))"
      by (rule runs_mono) (use st1(2) d in \<open>auto intro: solver_step_trans\<close>)
    then show ?thesis using q(1) True i by (subst push_level.simps) simp
  qed
qed

definition gen_result :: "transition_system \<Rightarrow> pdr \<Rightarrow> literal list \<Rightarrow> nat \<Rightarrow> (cube \<times> nat) \<times> pdr \<Rightarrow> bool" where
  "gen_result sys st s l r \<longleftrightarrow>
     pdr_inv sys (snd r) \<and> solver_step st (snd r) \<and> l \<le> snd (fst r) \<and> snd (fst r) \<le> depth st + 1 \<and>
     cube_sorted (fst (fst r)) \<and>
     set (cube_literals (fst (fst r))) \<subseteq> set s \<and>
     (\<forall>t. init_state sys t \<longrightarrow> \<not> holds_in sys t (cube_literals (fst (fst r)))) \<and>
     rel_inductive sys st (cube_literals (fst (fst r))) (snd (fst r) - 1)"

lemma generalize_inductive_runs:
  assumes inv: "pdr_inv sys st" and so: "sound_oracle (sat_solver E)" and pool: "pool_ok sys (ctis st)"
    and h: "pool_live (ctis st) h" and l: "1 \<le> l" "l \<le> depth st"
    and core: "status (pdr_solver st) = Unsatisfied core" "core_blocks sys st (cube_at st h) l core"
    and no_init: "\<not> intersects_initial_states st (cube_at st h)"
  shows "runs (generalize_inductive E sys st (Obligation l h)) (gen_result sys st (cube_at st h) l)"
proof -
  have tr: "pdr_trace sys st" using inv by (simp add: pdr_inv_def)
  define s where "s = cube_at st h"
  have over: "lits_over (state_vars sys) s" using pool_entry_cube(2) [OF pool h] by (simp add: s_def)
  define ps where "ps = [l - 1..<Suc (depth st)]"
  have "runs (first_core_level st ps (depth st)) (\<lambda>r. (r = depth st \<or> r \<in> set ps) \<and>
    (\<forall>k \<in> set ps. core (trace_activators st ! k) \<longrightarrow> sorted ps \<longrightarrow> r \<le> k))"
    by (rule first_core_level_runs [OF core(1)]) (use trace_len [OF tr] in \<open>auto simp: ps_def\<close>)
  then obtain j where j0: "first_core_level st ps (depth st) = Some j"
    "j = depth st \<or> j \<in> set ps"
    "\<And>k. k \<in> set ps \<Longrightarrow> core (trace_activators st ! k) \<Longrightarrow> sorted ps \<Longrightarrow> j \<le> k"
    by (auto simp only: runs_iff)
  have jb: "l - 1 \<le> j" "j \<le> depth st" using j0(2) l by (auto simp: ps_def)
  have "\<not> core (trace_activators st ! k)" if "l - 1 \<le> k" "k < j" for k
  proof
    assume "core (trace_activators st ! k)"
    then have "j \<le> k" by (rule j0(3) [rotated]) (use that jb(2) in \<open>simp_all add: ps_def del: upt_Suc\<close>)
    then show False using that(2) by simp
  qed
  with jb j0(1) have j: "first_core_level st ps (depth st) = Some j" "l - 1 \<le> j" "j \<le> depth st"
    "\<forall>k. l - 1 \<le> k \<longrightarrow> k < j \<longrightarrow> \<not> core (trace_activators st ! k)" by blast+
  have "runs (drop_outside_core (debug_build E) sys st s s) (\<lambda>r. set r \<subseteq> set s \<and>
    \<not> intersects_initial_states st r \<and> (\<forall>l \<in> set s. core (primed sys l) \<longrightarrow> l \<in> set r))"
    by (rule drop_outside_core_runs [OF tr core(1) over]) (use no_init in \<open>auto simp: s_def\<close>)
  then obtain r where r: "drop_outside_core (debug_build E) sys st s s = Some r" "set r \<subseteq> set s"
    "\<not> intersects_initial_states st r" "\<forall>l \<in> set s. core (primed sys l) \<longrightarrow> l \<in> set r"
    by (auto simp: runs_iff)
  have "rel_inductive sys st r j"
    using core(2) j r unfolding core_blocks_def s_def [symmetric] by blast
  then have g: "gen_cube sys st s r (j + 1)" using r by (simp add: gen_cube_def)
  obtain r' st1 where d: "drop_literals E sys st r r (j + 1) = Some (r', st1)"
    "pdr_inv sys st1" "solver_step st st1" "gen_cube sys st s r' (j + 1)"
    using drop_literals_runs [OF inv so _ _ over r(2) g] j(3) by (auto simp: runs_iff)
  define c where "c = make_cube r'"
  have c: "set (cube_literals c) = set r'" by (simp add: c_def)
  have co: "lits_over (state_vars sys) (cube_literals c)"
    by (rule lits_over_subset [OF over]) (use d(4) c in \<open>simp add: gen_cube_def\<close>)
  have same: "depth st1 = depth st" using solver_step_same(3) [OF d(3)] .
  have ri: "rel_inductive sys st (cube_literals c) j"
    using d(4) rel_inductive_set [OF c] by (simp add: gen_cube_def)
  have "runs (push_level E sys st1 (cube_literals c) (j + 1)) (\<lambda>r. pdr_inv sys (snd r) \<and> solver_step st1 (snd r) \<and>
    j + 1 \<le> fst r \<and> fst r \<le> depth st1 + 1 \<and> rel_inductive sys st1 (cube_literals c) (fst r - 1))"
    by (rule push_level_runs [OF d(2) so co]) (use ri j(3) same d(3) in simp_all)
  then obtain i st2 where p: "push_level E sys st1 (cube_literals c) (j + 1) = Some (i, st2)"
    "pdr_inv sys st2" "solver_step st1 st2" "j + 1 \<le> i" "i \<le> depth st + 1"
    "rel_inductive sys st (cube_literals c) (i - 1)"
    using same d(3) by (auto simp: runs_iff)
  have "\<not> intersects_initial_states st (cube_literals c)"
    using intersects_mono [OF tr _ equalityD2 [OF c]] d(4) by (simp add: gen_cube_def)
  then have "gen_result sys st s l ((c, i), st2)"
    using p d(3,4) j(2) c init_free [OF tr co] solver_step_trans [OF d(3) p(3)]
    by (simp add: gen_result_def gen_cube_def) (simp add: c_def)
  then show ?thesis
    using j(1) pool_get [OF pool h] r(1) d(1) p(1)
    by (simp add: generalize_inductive_def ps_def s_def [symmetric] c_def [symmetric])
qed

end
