(* ===== verification/PdrBlocking.thy ===== *)
theory PdrBlocking
  imports PdrGeneralize
begin

text \<open>
  Changes of the trace: \<open>add_blocked_at\<close> takes the states of a cube out of the frames up to its
  level and nothing else, although it deletes the cubes the new one subsumes; \<open>push_frame\<close> adds a
  frame of all states. Both keep the invariant.
\<close>

section \<open>Removing subsumed cubes\<close>

lemma remove_subsumed_runs:
  assumes "\<forall>i \<in> set is. i < length frames"
  shows "runs (remove_subsumed c is frames) (\<lambda>fs. length fs = length frames \<and>
    (\<forall>i < length frames. i \<notin> set is \<longrightarrow> fs ! i = frames ! i) \<and>
    (\<forall>i \<in> set is. set (fs ! i) = {d \<in> set (frames ! i). \<not> subsumes c d}))"
  using assms
proof (induction "is" arbitrary: frames)
  case Nil
  then show ?case by simp
next
  case (Cons i "is")
  define f1 where "f1 = frames[i := swap_remove_from (subsumes c) 0 (frames ! i)]"
  have i: "i < length frames" using Cons.prems by simp
  have "runs (remove_subsumed c is f1) (\<lambda>fs. length fs = length f1 \<and>
    (\<forall>i < length f1. i \<notin> set is \<longrightarrow> fs ! i = f1 ! i) \<and>
    (\<forall>i \<in> set is. set (fs ! i) = {d \<in> set (f1 ! i). \<not> subsumes c d}))"
    by (rule Cons.IH) (use Cons.prems in \<open>simp add: f1_def\<close>)
  then have "runs (remove_subsumed c is f1) (\<lambda>fs. length fs = length frames \<and>
    (\<forall>j < length frames. j \<notin> set (i # is) \<longrightarrow> fs ! j = frames ! j) \<and>
    (\<forall>j \<in> set (i # is). set (fs ! j) = {d \<in> set (frames ! j). \<not> subsumes c d}))"
  proof (rule runs_mono, elim conjE, intro conjI)
    fix fs
    assume l: "length fs = length f1" and o: "\<forall>i < length f1. i \<notin> set is \<longrightarrow> fs ! i = f1 ! i"
      and s: "\<forall>i \<in> set is. set (fs ! i) = {d \<in> set (f1 ! i). \<not> subsumes c d}"
    show "length fs = length frames" using l by (simp add: f1_def)
    show "\<forall>j < length frames. j \<notin> set (i # is) \<longrightarrow> fs ! j = frames ! j"
      using o by (simp add: f1_def)
    show "\<forall>j \<in> set (i # is). set (fs ! j) = {d \<in> set (frames ! j). \<not> subsumes c d}"
    proof
      fix j assume j: "j \<in> set (i # is)"
      then have jl: "j < length frames" using Cons.prems by auto
      show "set (fs ! j) = {d \<in> set (frames ! j). \<not> subsumes c d}"
      proof (cases "j \<in> set is")
        case True
        then show ?thesis using s jl by (cases "j = i") (auto simp: f1_def)
      next
        case False
        then have "j = i" using j by simp
        then show ?thesis using o jl False by (simp add: f1_def)
      qed
    qed
  qed
  then show ?case using i by (simp add: f1_def)
qed

lemma is_state_cube_over:
  assumes "well_formed_system sys" and "lits_over (state_vars sys) ls"
  shows "is_state_cube sys ls = Some True"
  using assms(2) by (induction ls) (simp_all add: get_var_info_state [OF assms(1)])

section \<open>Blocking a cube\<close>

text \<open>The frames after blocking the states of \<open>c\<close> up to level \<open>k\<close>.\<close>

definition frames_cut :: "transition_system \<Rightarrow> pdr \<Rightarrow> literal list \<Rightarrow> nat \<Rightarrow> pdr \<Rightarrow> bool" where
  "frames_cut sys st c k st' \<longleftrightarrow>
     (\<forall>j. pdr_frame sys st' j =
        (if j \<le> k then {s \<in> pdr_frame sys st j. \<not> holds_in sys s c} else pdr_frame sys st j))"

text \<open>The blocked cubes after \<open>add_blocked_at c\<close> with levels \<open>a\<close> to \<open>k\<close>.\<close>

definition cubes_cut :: "cube \<Rightarrow> nat \<Rightarrow> nat \<Rightarrow> cube list list \<Rightarrow> cube list list \<Rightarrow> bool" where
  "cubes_cut c a k B B' \<longleftrightarrow>
     length B' = length B \<and>
     (\<forall>j < length B. set (B' ! j) =
        {d \<in> set (B ! j). a \<le> j \<longrightarrow> j \<le> k \<longrightarrow> \<not> subsumes c d} \<union> (if j = k then {c} else {}))"

lemma cubes_cut_mem:
  "cubes_cut c a k B B' \<Longrightarrow> j < length B \<Longrightarrow>
   d \<in> set (B' ! j) \<longleftrightarrow> (d \<in> set (B ! j) \<and> (a \<le> j \<longrightarrow> j \<le> k \<longrightarrow> \<not> subsumes c d)) \<or> (j = k \<and> d = c)"
  by (simp add: cubes_cut_def)

lemma cut_frame:
  assumes tr: "pdr_trace sys st" and c: "blocked_cube_ok sys c" and k: "k \<le> depth st"
    and cut: "cubes_cut c a k (trace_blocked_cubes st) (trace_blocked_cubes st')"
  shows "frames_cut sys st (cube_literals c) k st'"
  unfolding frames_cut_def
proof (intro allI set_eqI)
  fix j s
  define B where "B = trace_blocked_cubes st"
  define B' where "B' = trace_blocked_cubes st'"
  note mem = cubes_cut_mem [OF cut, folded B_def B'_def]
  have len: "length B = Suc (depth st)" using trace_len [OF tr] by (simp add: B_def)
  have len': "length B' = length B" using cut by (simp add: cubes_cut_def B_def B'_def)
  define H where "H = (\<lambda>d. holds_in sys s (cube_literals d))"
  have sub: "H c" if "H d" "i < length B" "d \<in> set (B ! i)" "subsumes c d" for d i
  proof -
    have "cube_sorted d" using blocked_cube_over [OF tr, of i d] that by (simp add: B_def blocked_cube_ok_def)
    then have "set (cube_literals c) \<subseteq> set (cube_literals d)"
      using that(4) c subsumes_subset by (simp add: blocked_cube_ok_def)
    then show ?thesis using that(1) lits_hold_subset by (simp add: H_def)
  qed
  have "(\<forall>i < length B'. j \<le> i \<longrightarrow> (\<forall>d \<in> set (B' ! i). \<not> H d)) \<longleftrightarrow>
      (\<forall>i < length B. j \<le> i \<longrightarrow> (\<forall>d \<in> set (B ! i). \<not> H d)) \<and> (j \<le> k \<longrightarrow> \<not> H c)" (is "?L \<longleftrightarrow> ?R")
  proof
    assume L: ?L
    have kc: "\<not> H c" if "j \<le> k"
    proof -
      have "k < length B'" "c \<in> set (B' ! k)" using mem [of k c] k len len' by auto
      then show ?thesis using L that by blast
    qed
    have "\<not> H d" if d: "i < length B" "j \<le> i" "d \<in> set (B ! i)" for i d
    proof
      assume hd: "H d"
      have "d \<notin> set (B' ! i)" using L d len' hd by auto
      then have "a \<le> i" "i \<le> k" "subsumes c d" using d mem [of i d] by auto
      then show False using sub [OF hd d(1,3)] kc d(2) by simp
    qed
    with kc show ?R by blast
  next
    assume R: ?R
    show ?L
    proof (intro allI impI ballI)
      fix i d assume i: "i < length B'" "j \<le> i" "d \<in> set (B' ! i)"
      then have "d \<in> set (B ! i) \<or> (i = k \<and> d = c)" using mem [of i d] len' by auto
      then show "\<not> H d" using R i len' by auto
    qed
  qed
  moreover have "init_state sys s \<Longrightarrow> \<not> H c" using c by (simp add: blocked_cube_ok_def H_def)
  ultimately show "s \<in> pdr_frame sys st' j \<longleftrightarrow>
      s \<in> (if j \<le> k then {s \<in> pdr_frame sys st j. \<not> holds_in sys s (cube_literals c)}
            else pdr_frame sys st j)"
    by (auto simp: pdr_frame_def B_def [symmetric] B'_def [symmetric] H_def)
qed

lemma pdr_frame_mono: "i \<le> j \<Longrightarrow> pdr_frame sys st i \<subseteq> pdr_frame sys st j"
  by (auto simp: pdr_frame_def)

lemma cut_trace:
  assumes tr: "pdr_trace sys st" and c: "blocked_cube_ok sys c" and k: "1 \<le> k" "k \<le> depth st" and a: "1 \<le> a"
    and cut: "cubes_cut c a k (trace_blocked_cubes st) (trace_blocked_cubes st')"
    and st': "st' = st\<lparr>trace_blocked_cubes := trace_blocked_cubes st', pdr_solver := pdr_solver st'\<rparr>"
    and ri: "rel_inductive sys st (cube_literals c) (k - 1)"
  shows "pdr_trace sys st'"
proof -
  define B where "B = trace_blocked_cubes st'"
  have st'': "st' = st\<lparr>trace_blocked_cubes := B, pdr_solver := pdr_solver st'\<rparr>"
    using st' by (simp add: B_def)
  note mem = cubes_cut_mem [OF cut, folded B_def]
  have len: "length B = Suc (depth st)" using cut trace_len [OF tr] by (simp add: B_def cubes_cut_def)
  have d: "depth st' = depth st" by (subst st'') (simp add: depth_def len)
  note fc = cut_frame [OF tr c k(2) cut, unfolded frames_cut_def]
  have acts: "trace_activators st' = trace_activators st" "all_activators st' = all_activators st"
    by (subst st'', simp add: all_activators_def)+
  have old: "trace_shape sys st" "activators_ok sys st" "formulas_ok sys st" "pdr_system sys"
    "\<forall>i < depth st. \<forall>s t inp. s \<in> pdr_frame sys st i \<longrightarrow> trans_step sys s inp t \<longrightarrow>
        t \<in> pdr_frame sys st (Suc i)"
    "\<forall>i < depth st. \<forall>s inp. s \<in> pdr_frame sys st i \<longrightarrow> \<not> error_state sys s inp"
    using tr by (auto simp: pdr_trace_def)
  have shape: "trace_shape sys st'"
    unfolding trace_shape_def B_def [symmetric] acts
  proof (intro conjI ballI)
    show "B \<noteq> []" "length (trace_activators st) = length B" using len trace_len [OF tr] by auto
    have "d \<notin> set (B ! 0)" for d
      using mem [of 0 d] k old(1) trace_len [OF tr] by (simp add: trace_shape_def)
    then show "B ! 0 = []" by (metis list.set_intros(1) neq_Nil_conv)
    fix cubes e assume "cubes \<in> set B" "e \<in> set cubes"
    then obtain j where j: "j < length B" "e \<in> set (B ! j)" by (auto simp: in_set_conv_nth)
    then have "e = c \<or> e \<in> set (trace_blocked_cubes st ! j)"
      using mem [of j e] len trace_len [OF tr] by auto
    then show "blocked_cube_ok sys e"
      using c blocked_cube_over [OF tr, of j e] j len trace_len [OF tr] by auto
  qed
  have aok: "activators_ok sys st'"
    using old(2) unfolding activators_ok_def acts by (subst (1 2) st'') simp
  have fok: "formulas_ok sys st'" using old(3) unfolding formulas_ok_def by (subst (1 2 3 4 5 6 7) st'') simp
  have step: "t \<in> pdr_frame sys st' (Suc i)"
    if i: "i < depth st" "s \<in> pdr_frame sys st' i" "trans_step sys s inp t" for i s t inp
  proof -
    have s: "s \<in> pdr_frame sys st i" using i(2) fc by (auto split: if_splits)
    then have t: "t \<in> pdr_frame sys st (Suc i)" using old(5) i by blast
    have "\<not> holds_in sys t (cube_literals c)" if "Suc i \<le> k"
    proof -
      have "\<not> holds_in sys s (cube_literals c)" using i(2) fc that by auto
      moreover have "s \<in> pdr_frame sys st (k - 1)" using s pdr_frame_mono [of i "k - 1" sys st] that by (auto simp: subset_iff)
      ultimately show ?thesis using ri i(3) unfolding rel_inductive_def by blast
    qed
    then show ?thesis using t fc by auto
  qed
  have safe: "\<not> error_state sys s inp" if "i < depth st" "s \<in> pdr_frame sys st' i" for i s inp
    using that fc old(6) by (auto split: if_splits)
  show ?thesis unfolding pdr_trace_def d using old(4) aok fok shape step safe by blast
qed

lemma cut_agrees:
  assumes tr: "pdr_trace sys st" and c: "blocked_cube_ok sys c" and k: "1 \<le> k" "k \<le> depth st" and a: "1 \<le> a"
    and cut: "cubes_cut c a k (trace_blocked_cubes st) B"
    and ag: "agrees sys st" and idle: "idle (pdr_solver st)"
  defines "st' \<equiv> st\<lparr>trace_blocked_cubes := B, pdr_solver :=
      assert_formula (pdr_solver st) (activate (negate c) (lit_var (trace_activators st ! k)))\<rparr>"
  shows "agrees sys st'"
proof -
  define act where "act = lit_var (trace_activators st ! k)"
  have len: "length B = Suc (depth st)" "length (trace_blocked_cubes st) = Suc (depth st)"
    "length (trace_activators st) = Suc (depth st)"
    using cut trace_len [OF tr] by (auto simp: cubes_cut_def)
  have pos: "0 < var_id act"
    unfolding act_def by (rule activator_var(1) [OF tr trace_activator_mem]) (use k len in simp)
  note bc = blocked_clause_sat [OF c pos]
  have t: "terminated (added (pdr_solver st))" using ag by (simp add: agrees_def)
  have added: "added (pdr_solver st') = added (pdr_solver st) @ cnf_literals (activate (negate c) act)"
    using idle by (simp add: st'_def act_def)
  have sat: "stream_sat \<sigma> (added (pdr_solver st')) \<longleftrightarrow>
      stream_sat \<sigma> (added (pdr_solver st)) \<and> (\<sigma> act \<longrightarrow> \<not> cube_true \<sigma> c)" for \<sigma>
    using added bc(1) [of \<sigma>] t by (simp add: cnf_sat_def)
  have same: "trace_activators st' = trace_activators st" "transition_activator st' = transition_activator st"
    "error_activator st' = error_activator st" "trace_blocked_cubes st' = B"
    "up_closed st' = up_closed st"
    by (simp_all add: st'_def up_closed_def fun_eq_iff)
  have fwd: "frames_sat sys st' \<sigma>" if s: "frames_sat sys st \<sigma>" "\<sigma> act \<longrightarrow> \<not> cube_true \<sigma> c" for \<sigma>
    unfolding frames_sat_def same
  proof (intro conjI allI impI ballI)
    fix j d assume j: "j < length B" "d \<in> set (B ! j)" and on: "\<sigma> (lit_var (trace_activators st ! j))"
    then have "d \<in> set (trace_blocked_cubes st ! j) \<or> (j = k \<and> d = c)"
      using cubes_cut_mem [OF cut, of j d] len by auto
    then show "\<not> cube_true \<sigma> d" using s on j len by (auto simp: frames_sat_def act_def)
  qed (use s(1) in \<open>auto simp: frames_sat_def\<close>)
  have bwd: "frames_sat sys st \<sigma> \<and> (\<sigma> act \<longrightarrow> \<not> cube_true \<sigma> c)"
    if s: "frames_sat sys st' \<sigma>" "up_closed st \<sigma>" for \<sigma>
  proof -
    have c': "\<not> cube_true \<sigma> c" if "\<sigma> act"
    proof -
      have "k < length B" "c \<in> set (B ! k)" using cubes_cut_mem [OF cut, of k c] k len by auto
      then show ?thesis using s(1) that unfolding frames_sat_def same act_def by blast
    qed
    have "\<not> cube_true \<sigma> d"
      if j: "j < length (trace_blocked_cubes st)" "d \<in> set (trace_blocked_cubes st ! j)"
        and on: "\<sigma> (lit_var (trace_activators st ! j))" for j d
    proof (cases "d \<in> set (B ! j)")
      case True
      then show ?thesis using s(1) on j len by (auto simp: frames_sat_def same)
    next
      case False
      then have sub: "j \<le> k" "subsumes c d" using j cubes_cut_mem [OF cut, of j d] by auto
      have "\<sigma> act" using s(2) on sub(1) k len unfolding up_closed_def act_def by (metis less_Suc_eq_le)
      then have "\<not> cube_true \<sigma> c" by (rule c')
      moreover have "cube_sorted d" "cube_sorted c"
        using c blocked_cube_over [OF tr j] by (auto simp: blocked_cube_ok_def)
      ultimately show ?thesis using subsumes_entails sub(2) by blast
    qed
    then have "frames_sat sys st \<sigma>" using s(1) by (simp add: frames_sat_def same)
    with c' show ?thesis by blast
  qed
  have "terminated (added (pdr_solver st'))"
    using added t bc(2) by (simp add: terminated_append well_formed_cnf_def)
  then show ?thesis
    using ag fwd bwd unfolding agrees_def sat same(5) by blast
qed

definition block_result ::
  "transition_system \<Rightarrow> pdr \<Rightarrow> cube \<Rightarrow> nat \<Rightarrow> nat \<Rightarrow> pdr \<Rightarrow> bool" where
  "block_result sys st c a k st' \<longleftrightarrow>
     pdr_inv sys st' \<and> ctis st' = ctis st \<and> depth st' = depth st \<and>
     frames_cut sys st (cube_literals c) k st' \<and>
     cubes_cut c a k (trace_blocked_cubes st) (trace_blocked_cubes st')"

lemma add_blocked_at_runs:
  assumes inv: "pdr_inv sys st" and c: "blocked_cube_ok sys c"
    and a: "1 \<le> a" "a \<le> level" "a \<le> depth st"
    and ri: "rel_inductive sys st (cube_literals c) (min level (depth st) - 1)"
  shows "runs (add_blocked_at d sys st c level a) (block_result sys st c a (min level (depth st)))"
proof -
  have tr: "pdr_trace sys st" and ok: "solver_ok sys st" using inv by (auto simp: pdr_inv_def)
  have wf: "well_formed_system sys" using pdr_inv_system [OF inv] by simp
  define k where "k = min level (depth st)"
  have k: "1 \<le> k" "k \<le> depth st" "a \<le> k" using a by (auto simp: k_def)
  note len = trace_len [OF tr]
  have "runs (remove_subsumed c [a..<Suc k] (trace_blocked_cubes st)) (\<lambda>fs.
      length fs = length (trace_blocked_cubes st) \<and>
    (\<forall>i < length (trace_blocked_cubes st). i \<notin> set [a..<Suc k] \<longrightarrow> fs ! i = trace_blocked_cubes st ! i) \<and>
    (\<forall>i \<in> set [a..<Suc k]. set (fs ! i) = {d \<in> set (trace_blocked_cubes st ! i). \<not> subsumes c d}))"
    by (rule remove_subsumed_runs) (use k len in auto)
  then obtain fs where fs: "remove_subsumed c [a..<Suc k] (trace_blocked_cubes st) = Some fs"
    "length fs = Suc (depth st)"
    "\<And>i. i < Suc (depth st) \<Longrightarrow> i \<notin> set [a..<Suc k] \<Longrightarrow> fs ! i = trace_blocked_cubes st ! i"
    "\<And>i. i \<in> set [a..<Suc k] \<Longrightarrow> set (fs ! i) = {d \<in> set (trace_blocked_cubes st ! i). \<not> subsumes c d}"
    using len by (auto simp only: runs_iff)
  define B where "B = fs[k := fs ! k @ [c]]"
  define st' where "st' = st\<lparr>trace_blocked_cubes := B, pdr_solver :=
      assert_formula (pdr_solver st) (activate (negate c) (lit_var (trace_activators st ! k)))\<rparr>"
  have cut: "cubes_cut c a k (trace_blocked_cubes st) B"
    unfolding cubes_cut_def
  proof (intro conjI allI impI)
    show "length B = length (trace_blocked_cubes st)" using fs(2) len by (simp add: B_def)
    fix j assume j: "j < length (trace_blocked_cubes st)"
    have "set (fs ! j) = {d \<in> set (trace_blocked_cubes st ! j). a \<le> j \<longrightarrow> j \<le> k \<longrightarrow> \<not> subsumes c d}"
    proof (cases "a \<le> j \<and> j \<le> k")
      case True
      then have "j \<in> set [a..<Suc k]" by auto
      from fs(4) [OF this] True show ?thesis by simp
    next
      case False
      then have "j \<notin> set [a..<Suc k]" by auto
      moreover have "j < Suc (depth st)" using j len by simp
      ultimately have "fs ! j = trace_blocked_cubes st ! j" by (rule fs(3) [rotated])
      then show ?thesis using False by auto
    qed
    then show "set (B ! j) = {d \<in> set (trace_blocked_cubes st ! j). a \<le> j \<longrightarrow> j \<le> k \<longrightarrow> \<not> subsumes c d} \<union>
        (if j = k then {c} else {})"
      using fs(2) k j len by (auto simp: B_def nth_list_update)
  qed
  have st'B: "trace_blocked_cubes st' = B" by (simp add: st'_def)
  have "pdr_trace sys st'"
    by (rule cut_trace [OF tr c k(1,2) a(1), of st'])
      (use cut ri in \<open>simp_all add: st'_def k_def\<close>)
  moreover have "solver_ok sys st'"
    using ok cut_agrees [OF tr c k(1,2) a(1) cut] by (auto simp: solver_ok_def st'_def)
  moreover have "frames_cut sys st (cube_literals c) k st'"
    by (rule cut_frame [OF tr c k(2)]) (use cut st'B in simp)
  ultimately have "block_result sys st c a k st'"
    using cut len fs(2) by (simp add: block_result_def pdr_inv_def st'_def depth_def B_def)
  moreover have "add_blocked_at d sys st c level a = Some st'"
    using a fs(1,2) k(2) len is_state_cube_over [OF wf, of "cube_literals c"] c
    by (simp add: add_blocked_at_def k_def [symmetric] assert_that_holds assert_state_cube_def
        blocked_cube_ok_def st'_def B_def)
  ultimately show ?thesis by (simp add: k_def)
qed

section \<open>A new frame\<close>

lemma push_frame_runs:
  assumes inv: "pdr_inv sys st" and safe: "\<forall>s \<in> pdr_frame sys st (depth st). \<forall>i. \<not> error_state sys s i"
  shows "runs (pdr_push_frame d st) (\<lambda>st'. pdr_inv sys st' \<and> ctis st' = ctis st \<and>
    depth st' = Suc (depth st) \<and> trace_blocked_cubes st' = trace_blocked_cubes st @ [[]] \<and>
    (\<forall>j \<le> depth st. pdr_frame sys st' j = pdr_frame sys st j) \<and>
    pdr_frame sys st' (Suc (depth st)) = all_states sys)"
proof -
  have tr: "pdr_trace sys st" and ok: "solver_ok sys st" using inv by (auto simp: pdr_inv_def)
  have wf: "well_formed_system sys" using pdr_inv_system [OF inv] by simp
  note len = trace_len [OF tr]
  define n where "n = get_next_id (pdr_store st)"
  define act where "act = literal_of (Variable n) False"
  define name where "name = ''Act['' @ int_to_string (int (depth (st\<lparr>trace_blocked_cubes :=
      trace_blocked_cubes st @ [[]]\<rparr>)) + 1) @ '']''"
  define store' where "store' = (pdr_store st)\<lparr>store_names := store_names (pdr_store st) @ [name]\<rparr>"
  define st' where "st' = st\<lparr>trace_blocked_cubes := trace_blocked_cubes st @ [[]], pdr_store := store',
      trace_activators := trace_activators st @ [act]\<rparr>"
  have run: "pdr_push_frame d st = Some st'"
    using len by (simp add: pdr_push_frame_def Let_def store_make_def name_def st'_def act_def
        n_def get_next_id_def store'_def assert_that_holds)
  have old: "trace_shape sys st" "activators_ok sys st" "formulas_ok sys st" "pdr_system sys"
    "\<forall>i < depth st. \<forall>s t inp. s \<in> pdr_frame sys st i \<longrightarrow> trans_step sys s inp t \<longrightarrow>
        t \<in> pdr_frame sys st (Suc i)"
    "\<forall>i < depth st. \<forall>s inp. s \<in> pdr_frame sys st i \<longrightarrow> \<not> error_state sys s inp"
    using tr by (auto simp: pdr_trace_def)
  have act0: "trace_activators st \<noteq> []" using len by auto
  have dep: "depth st' = Suc (depth st)" using len by (simp add: st'_def depth_def)
  have nth: "trace_activators st' ! j = trace_activators st ! j" if "j \<le> depth st" for j
    using that len by (simp add: st'_def nth_append)
  have fr: "pdr_frame sys st' j = pdr_frame sys st j" if "j \<le> depth st" for j
    using that len by (auto simp: pdr_frame_def st'_def nth_append less_Suc_eq)
  have frl: "pdr_frame sys st' (Suc (depth st)) = all_states sys"
    using len by (auto simp: pdr_frame_def st'_def nth_append less_Suc_eq)
  have id: "get_next_id (pdr_store st') = n + 1" by (simp add: st'_def store'_def get_next_id_def n_def)
  have all: "all_activators st' = all_activators st @ [act]" by (simp add: all_activators_def st'_def)
  have n0: "0 < n" and fresh: "fresh_from sys n"
  proof -
    show "fresh_from sys n" using old(2) by (simp add: activators_ok_def n_def)
    have "activator_ok sys n (transition_activator st)"
      using old(2) by (simp add: activators_ok_def n_def all_activators_def)
    then show "0 < n" using lit_var_pos [of "transition_activator st"] unfolding activator_ok_def by linarith
  qed
  have av: "lit_var act = Variable n" "act \<noteq> separator" "lit_sign act" using n0 by (simp_all add: act_def)
  have aok: "activators_ok sys st'"
    unfolding activators_ok_def id all
  proof (intro conjI ballI)
    show "fresh_from sys (n + 1)" using fresh by (auto simp: fresh_from_def intro: less_trans)
    have "\<not> system_var sys (Variable n)" using fresh by (force simp: fresh_from_def)
    then have "activator_ok sys (n + 1) act" using av by (simp add: activator_ok_def)
    moreover have o: "\<forall>l \<in> set (all_activators st). activator_ok sys n l"
      using old(2) by (simp add: activators_ok_def n_def)
    ultimately show "activator_ok sys (n + 1) l" if "l \<in> set (all_activators st @ [act])" for l
      using that by (auto simp: activator_ok_def intro: less_trans)
    have "Variable n \<notin> lit_var ` set (all_activators st)"
      using o unfolding activator_ok_def by (metis imageE less_irrefl variable.sel)
    then show "distinct (map lit_var (all_activators st @ [act]))"
      using old(2) av by (simp add: activators_ok_def)
  qed
  have fok: "formulas_ok sys st'"
    using old(3) nth [of 0] by (simp add: formulas_ok_def st'_def)
  have shape: "trace_shape sys st'"
    using old(1) by (auto simp: trace_shape_def st'_def nth_append)
  have step: "t \<in> pdr_frame sys st' (Suc i)"
    if "i < Suc (depth st)" "s \<in> pdr_frame sys st' i" "trans_step sys s inp t" for i s t inp
  proof (cases "i = depth st")
    case True
    then show ?thesis using frl trans_step_length [OF wf that(3)] by simp
  next
    case False
    then have i: "i < depth st" using that(1) by simp
    have "s \<in> pdr_frame sys st i" using that(2) fr [of i] i by simp
    then have "t \<in> pdr_frame sys st (Suc i)" using old(5) i that(3) by blast
    then show ?thesis using fr [of "Suc i"] i by simp
  qed
  have safe': "\<not> error_state sys s inp" if "i < Suc (depth st)" "s \<in> pdr_frame sys st' i" for i s inp
  proof -
    have "s \<in> pdr_frame sys st i" "i = depth st \<or> i < depth st" using that fr [of i] by auto
    then show ?thesis using old(6) safe by blast
  qed
  have "pdr_trace sys st'" unfolding pdr_trace_def dep using old(4) aok fok shape step safe' by blast
  moreover have "solver_ok sys st'"
  proof -
    have fs: "frames_sat sys st' \<sigma> = frames_sat sys st \<sigma>" for \<sigma>
      using len act0 by (auto simp: frames_sat_def st'_def nth_append less_Suc_eq)
    have uc: "up_closed st \<sigma>" if "up_closed st' \<sigma>" for \<sigma>
      unfolding up_closed_def
    proof (intro allI impI)
      fix i j assume ij: "i \<le> j" "j < length (trace_activators st)" "\<sigma> (lit_var (trace_activators st ! i))"
      have "j < length (trace_activators st')" using ij(2) by (simp add: st'_def)
      moreover have "\<sigma> (lit_var (trace_activators st' ! i))" using ij nth [of i] len by simp
      ultimately have "\<sigma> (lit_var (trace_activators st' ! j))"
        using that ij(1) unfolding up_closed_def by blast
      then show "\<sigma> (lit_var (trace_activators st ! j))" using nth [of j] ij(2) len by simp
    qed
    have "pdr_solver st' = pdr_solver st" "queries st' = queries st" by (simp_all add: st'_def)
    then show ?thesis using ok fs uc by (auto simp: solver_ok_def agrees_def)
  qed
  ultimately have "pdr_inv sys st'" by (simp add: pdr_inv_def)
  then show ?thesis using run dep fr frl by (simp add: st'_def)
qed

end
