(* ===== verification/PdrPropagate.thy ===== *)
theory PdrPropagate
  imports PdrBlocking
begin

text \<open>
  Propagation and the two things it is for: a level whose cubes could all be pushed is a repeated
  frame and proves safety; otherwise the frames are strictly increasing, which bounds the depth by
  the number of states.
\<close>

interpretation pdr_frames: monotone_frames "pdr_inv sys" "pdr_frame sys" depth "init_state sys"
  "\<lambda>s t. \<exists>i. trans_step sys s i t" "\<lambda>s. \<exists>i. error_state sys s i" for sys
proof (unfold_locales, goal_cases)
  case (1 st s)
  have tr: "pdr_trace sys st" using 1 by (simp add: pdr_inv_def)
  show ?case
    using 1(2) init_state_length [OF 1(2)] blocked_cube_over [OF tr]
    by (auto simp: pdr_frame_def blocked_cube_ok_def)
next
  case (2 st i s t)
  then show ?case unfolding pdr_inv_def pdr_trace_def by blast
next
  case (3 st i s)
  then show ?case unfolding pdr_inv_def pdr_trace_def by blast
next
  case (4 st i j)
  then show ?case by (intro pdr_frame_mono)
qed

lemma reachable_steps:
  "reachable sys t \<Longrightarrow> \<exists>s. init_state sys s \<and> (\<lambda>s t. \<exists>i. trans_step sys s i t)\<^sup>*\<^sup>* s t"
proof (induction rule: reachable.induct)
  case (start s)
  then show ?case by blast
next
  case (step s i t)
  then show ?case by (auto intro: rtranclp.rtrancl_into_rtrancl)
qed

lemma repeated_frame:
  assumes "pdr_inv sys st" and "k < depth st" and "pdr_frame sys st (Suc k) \<subseteq> pdr_frame sys st k"
  shows "safe sys"
  unfolding safe_reachable
proof (intro allI impI notI)
  fix t i assume "reachable sys t" and e: "error_state sys t i"
  then obtain s where "init_state sys s" "(\<lambda>s t. \<exists>i. trans_step sys s i t)\<^sup>*\<^sup>* s t"
    using reachable_steps by blast
  then have "\<not> (\<exists>i. error_state sys t i)" by (rule pdr_frames.repeated_frame_safe [OF assms])
  with e show False by blast
qed

section \<open>Pushing the cubes of a level\<close>

lemma subsumes_refl: "cube_sorted c \<Longrightarrow> subsumes c c"
  by (simp add: subsumes_mset)

lemma frame_free_mono: "frame_free sys st j c \<Longrightarrow> i \<le> j \<Longrightarrow> frame_free sys st i c"
  using pdr_frame_mono [of i j sys st] by (auto simp: frame_free_def)

definition push_result :: "transition_system \<Rightarrow> pdr \<Rightarrow> nat \<Rightarrow> pdr \<Rightarrow> bool" where
  "push_result sys st i st' \<longleftrightarrow>
     pdr_inv sys st' \<and> ctis st' = ctis st \<and> depth st' = depth st \<and>
     (\<forall>j. j \<noteq> Suc i \<longrightarrow> pdr_frame sys st' j = pdr_frame sys st j) \<and>
     set (trace_blocked_cubes st' ! i) \<subseteq> set (trace_blocked_cubes st ! i)"

lemma push_cubes_runs:
  assumes "pdr_inv sys st" and so: "sound_oracle (sat_solver E)" and "1 \<le> i" and "i < depth st"
    and "\<forall>c \<in> set cubes. blocked_cube_ok sys c \<and> frame_free sys st i (cube_literals c)"
  shows "runs (push_cubes E sys st cubes i) (\<lambda>st'. push_result sys st i st' \<and>
    (\<forall>c \<in> set cubes. c \<in> set (trace_blocked_cubes st' ! i) \<longrightarrow>
       \<not> rel_inductive sys st (cube_literals c) i))"
  using assms(1,4,5)
proof (induction cubes arbitrary: st)
  case Nil
  then show ?case by (simp add: push_result_def)
next
  case (Cons c cubes)
  have c: "blocked_cube_ok sys c" "frame_free sys st i (cube_literals c)" using Cons.prems(3) by auto
  then have over: "lits_over (state_vars sys) (cube_literals c)" and srt: "cube_sorted c"
    by (auto simp: blocked_cube_ok_def)
  obtain b st1 where q: "is_relative_inductive E sys st (cube_literals c) (i + 1) = Some (b, st1)"
    "rel_ind_result sys st (cube_literals c) (i + 1) (b, st1)"
    using is_relative_inductive_runs [OF Cons.prems(1) so _ _ over, of "i + 1"] Cons.prems(2)
    by (auto simp: runs_iff)
  then have st1: "pdr_inv sys st1" "solver_step st st1" by (auto simp: rel_ind_result_def)
  note same = solver_step_same [OF st1(2)]
  have b: "b \<longleftrightarrow> rel_inductive sys st (cube_literals c) i"
    using rel_ind_result_iff [OF q(2)] Cons.prems(2) by simp
  have "\<exists>st2. (if b then add_blocked_at (debug_build E) sys st1 c (i + 1) i else Some st1) = Some st2 \<and>
      push_result sys st i st2 \<and> (b \<longrightarrow> c \<notin> set (trace_blocked_cubes st2 ! i))"
  proof (cases b)
    case False
    then show ?thesis using st1 same by (simp add: push_result_def)
  next
    case True
    have m: "min (i + 1) (depth st1) = i + 1" using Cons.prems(2) same by simp
    have "runs (add_blocked_at (debug_build E) sys st1 c (i + 1) i)
        (block_result sys st1 c i (min (i + 1) (depth st1)))"
      by (rule add_blocked_at_runs [OF st1(1) c(1)])
        (use assms(3) Cons.prems(2) same True b m st1(2) in auto)
    then obtain st2 where st2: "add_blocked_at (debug_build E) sys st1 c (i + 1) i = Some st2"
      "block_result sys st1 c i (i + 1) st2" using m by (auto simp: runs_iff)
    have "pdr_frame sys st2 j = pdr_frame sys st j" if "j \<noteq> Suc i" for j
    proof (cases "j \<le> i")
      case True
      then have "frame_free sys st j (cube_literals c)" using frame_free_mono c(2) by blast
      then show ?thesis using st2(2) True same by (auto simp: block_result_def frames_cut_def frame_free_def)
    next
      case False
      then have "\<not> j \<le> i + 1" using that by simp
      then show ?thesis using st2(2) same by (simp add: block_result_def frames_cut_def)
    qed
    moreover have cut: "cubes_cut c i (i + 1) (trace_blocked_cubes st) (trace_blocked_cubes st2)"
      using st2(2) same by (simp add: block_result_def)
    moreover have il: "i < length (trace_blocked_cubes st)"
      using Cons.prems trace_len [of sys st] by (simp add: pdr_inv_def)
    ultimately show ?thesis
      using True st2 same cubes_cut_mem [OF cut il] subsumes_refl [OF srt]
      by (auto simp: push_result_def block_result_def)
  qed
  then obtain st2 where st2:
    "(if b then add_blocked_at (debug_build E) sys st1 c (i + 1) i else Some st1) = Some st2"
    "push_result sys st i st2" "b \<Longrightarrow> c \<notin> set (trace_blocked_cubes st2 ! i)" by blast
  have fi: "pdr_frame sys st2 i = pdr_frame sys st i" using st2(2) by (simp add: push_result_def)
  have ri: "rel_inductive sys st2 e i = rel_inductive sys st e i" for e
    by (simp add: rel_inductive_def fi)
  have "runs (push_cubes E sys st2 cubes i) (\<lambda>st'. push_result sys st2 i st' \<and>
    (\<forall>c \<in> set cubes. c \<in> set (trace_blocked_cubes st' ! i) \<longrightarrow>
       \<not> rel_inductive sys st2 (cube_literals c) i))"
    by (rule Cons.IH) (use st2(2) Cons.prems fi in \<open>auto simp: push_result_def frame_free_def\<close>)
  then have "runs (push_cubes E sys st2 cubes i) (\<lambda>st'. push_result sys st i st' \<and>
    (\<forall>e \<in> set (c # cubes). e \<in> set (trace_blocked_cubes st' ! i) \<longrightarrow>
       \<not> rel_inductive sys st (cube_literals e) i))"
    by (rule runs_mono) (use st2(2,3) b ri in \<open>auto simp: push_result_def\<close>)
  then show ?case using q(1) st2(1) by simp
qed

section \<open>The levels\<close>

definition strict_frames :: "transition_system \<Rightarrow> pdr \<Rightarrow> nat \<Rightarrow> bool" where
  "strict_frames sys st n \<longleftrightarrow>
     (\<forall>i. 1 \<le> i \<longrightarrow> i < n \<longrightarrow> pdr_frame sys st i \<subset> pdr_frame sys st (Suc i))"

definition propagate_result :: "transition_system \<Rightarrow> pdr \<Rightarrow> bool \<times> pdr \<Rightarrow> bool" where
  "propagate_result sys st r \<longleftrightarrow>
     pdr_inv sys (snd r) \<and> ctis (snd r) = ctis st \<and> depth (snd r) = depth st \<and>
     (if fst r then safe sys else strict_frames sys (snd r) (depth st))"

lemma pushed_level:
  assumes inv: "pdr_inv sys st" and i: "1 \<le> i" "i < depth st"
    and nr: "\<forall>c \<in> set (trace_blocked_cubes st ! i). \<not> rel_inductive sys st (cube_literals c) i"
  shows "if trace_blocked_cubes st ! i = [] then safe sys
    else pdr_frame sys st i \<subset> pdr_frame sys st (Suc i)"
proof -
  have tr: "pdr_trace sys st" using inv by (simp add: pdr_inv_def)
  have il: "i < length (trace_blocked_cubes st)" using trace_len [OF tr] i by simp
  show ?thesis
  proof (cases "trace_blocked_cubes st ! i = []")
    case True
    have "pdr_frame sys st (Suc i) \<subseteq> pdr_frame sys st i"
    proof
      fix s assume s: "s \<in> pdr_frame sys st (Suc i)"
      have "\<not> holds_in sys s (cube_literals c)"
        if "j < length (trace_blocked_cubes st)" "i \<le> j" "c \<in> set (trace_blocked_cubes st ! j)" for j c
        using s that True by (cases "j = i") (auto simp: pdr_frame_def)
      then show "s \<in> pdr_frame sys st i" using s i(1) by (simp add: pdr_frame_def)
    qed
    then show ?thesis using True repeated_frame [OF inv i(2)] by simp
  next
    case False
    then obtain c where c: "c \<in> set (trace_blocked_cubes st ! i)" by (meson list.set_sel(1))
    then obtain s inp t where t: "s \<in> pdr_frame sys st i" "trans_step sys s inp t"
      "holds_in sys t (cube_literals c)" using nr by (auto simp: rel_inductive_def)
    have "t \<in> pdr_frame sys st (Suc i)" using tr t(1,2) i(2) unfolding pdr_trace_def by blast
    moreover have "t \<notin> pdr_frame sys st i" using c il t(3) by (auto simp: pdr_frame_def)
    ultimately show ?thesis using False pdr_frame_mono [of i "Suc i" sys st] by auto
  qed
qed

lemma propagate_levels_runs:
  assumes "pdr_inv sys st" and so: "sound_oracle (sat_solver E)" and "1 \<le> a"
    and "strict_frames sys st a"
  shows "runs (propagate_levels E sys st [a..<depth st]) (propagate_result sys st)"
  using assms(1,3,4)
proof (induction "depth st - a" arbitrary: a st)
  case 0
  then show ?case by (auto simp: propagate_result_def strict_frames_def)
next
  case (Suc n)
  then have a: "a < depth st" by simp
  have tr: "pdr_trace sys st" using Suc.prems(1) by (simp add: pdr_inv_def)
  have al: "a < length (trace_blocked_cubes st)" using trace_len [OF tr] a by simp
  define cubes where "cubes = trace_blocked_cubes st ! a"
  have ok: "\<forall>c \<in> set cubes. blocked_cube_ok sys c \<and> frame_free sys st a (cube_literals c)"
    using blocked_cube_over [OF tr al] al by (auto simp: cubes_def frame_free_def pdr_frame_def)
  obtain st1 where st1: "push_cubes E sys st cubes a = Some st1" "push_result sys st a st1"
    "\<forall>c \<in> set cubes. c \<in> set (trace_blocked_cubes st1 ! a) \<longrightarrow> \<not> rel_inductive sys st (cube_literals c) a"
    using push_cubes_runs [OF Suc.prems(1) so Suc.prems(2) a ok] by (auto simp: runs_iff)
  then have s1: "pdr_inv sys st1" "ctis st1 = ctis st" "depth st1 = depth st"
    "\<And>j. j \<noteq> Suc a \<Longrightarrow> pdr_frame sys st1 j = pdr_frame sys st j"
    "set (trace_blocked_cubes st1 ! a) \<subseteq> set cubes" by (auto simp: push_result_def cubes_def)
  have "\<forall>c \<in> set (trace_blocked_cubes st1 ! a). \<not> rel_inductive sys st1 (cube_literals c) a"
    using st1(3) s1(4) [of a] s1(5) by (auto simp: rel_inductive_def)
  then have lev: "if trace_blocked_cubes st1 ! a = [] then safe sys
      else pdr_frame sys st1 a \<subset> pdr_frame sys st1 (Suc a)"
    using pushed_level [OF s1(1) Suc.prems(2)] a s1(3) by simp
  have al1: "a < length (trace_blocked_cubes st1)"
    using s1 a trace_len [of sys st1] by (simp add: pdr_inv_def)
  have list: "[a..<depth st] = a # [Suc a..<depth st]" using a by (rule upt_conv_Cons)
  show ?case
  proof (cases "trace_blocked_cubes st1 ! a = []")
    case True
    then show ?thesis
      using st1(1) s1 lev al al1 unfolding list by (simp add: cubes_def propagate_result_def)
  next
    case False
    have "strict_frames sys st1 (Suc a)"
      unfolding strict_frames_def
    proof (intro allI impI)
      fix i assume i: "1 \<le> i" "i < Suc a"
      show "pdr_frame sys st1 i \<subset> pdr_frame sys st1 (Suc i)"
      proof (cases "i = a")
        case True
        then show ?thesis using lev False by simp
      next
        case False
        then have "pdr_frame sys st i \<subset> pdr_frame sys st (Suc i)"
          using Suc.prems(3) i by (simp add: strict_frames_def)
        then show ?thesis using s1(4) [of i] s1(4) [of "Suc i"] i False by simp
      qed
    qed
    then have "runs (propagate_levels E sys st1 [Suc a..<depth st1]) (propagate_result sys st1)"
      by (intro Suc.hyps(1)) (use Suc.hyps(2) s1 in simp_all)
    then have "runs (propagate_levels E sys st1 [Suc a..<depth st]) (propagate_result sys st)"
      unfolding s1(3) by (rule runs_mono) (use s1 in \<open>auto simp: propagate_result_def\<close>)
    then show ?thesis using st1(1) al al1 False unfolding list by (simp add: cubes_def)
  qed
qed

lemma propagate_runs:
  assumes "pdr_inv sys st" and "sound_oracle (sat_solver E)" and "trace_blocked_cubes st ! depth st = []"
  shows "runs (propagate E sys st) (propagate_result sys st)"
proof -
  have "depth st < length (trace_blocked_cubes st)"
    using assms(1) trace_len [of sys st] by (simp add: pdr_inv_def)
  then show ?thesis
    using propagate_levels_runs [OF assms(1,2), of 1] assms(3)
    by (simp add: propagate_def strict_frames_def)
qed

text \<open>Strictly increasing frames are at most as many as there are states.\<close>

lemma strict_frames_card:
  assumes "strict_frames sys st n" and "i < n"
  shows "i \<le> card (pdr_frame sys st (Suc i))"
  using assms(2)
proof (induction i)
  case 0
  then show ?case by simp
next
  case (Suc i)
  have f: "finite (pdr_frame sys st j)" for j
    by (rule finite_subset [OF _ finite_all_states [of sys]]) (auto simp: pdr_frame_def)
  have "pdr_frame sys st (Suc i) \<subset> pdr_frame sys st (Suc (Suc i))"
    using assms(1) Suc.prems by (simp add: strict_frames_def)
  then have "card (pdr_frame sys st (Suc i)) < card (pdr_frame sys st (Suc (Suc i)))"
    by (rule psubset_card_mono [OF f])
  then show ?case using Suc by simp
qed

lemma strict_depth:
  assumes "strict_frames sys st (depth st)"
  shows "depth st \<le> 2 ^ num_state_vars sys + 1"
proof (cases "depth st")
  case (Suc i)
  have "pdr_frame sys st (Suc i) \<subseteq> all_states sys" by (auto simp: pdr_frame_def)
  then have "card (pdr_frame sys st (Suc i)) \<le> 2 ^ num_state_vars sys"
    using card_mono [OF finite_all_states] card_all_states [of sys] by metis
  then show ?thesis using strict_frames_card [OF assms, of i] Suc by simp
qed simp

end
