(* ===== verification/PdrSolve.thy ===== *)
theory PdrSolve
  imports PdrPropagate
begin

text \<open>
  The obligation loop. Its invariant: every queued cube is free of states of the frame below its
  level (of no frame, and meets an initial state, when its level is 0); the starting obligation is
  queued or its cube is blocked at the top. It ends because each round shrinks a frame, or else
  removes a blocked obligation, or else lowers the least level.
\<close>

section \<open>The queue\<close>

lemma set_queue_push [simp]: "set (queue_push x q) = insert x (set q)"
  by (simp add: queue_push_def set_insort_key)

lemma sorted_queue_push [simp]: "sorted q \<Longrightarrow> sorted (queue_push x q)"
  by (simp add: queue_push_def sorted_insort)

lemma mset_queue_push [simp]: "mset (queue_push x q) = add_mset x (mset q)"
  by (simp add: queue_push_def)

lemma queue_push_Nil [simp]: "queue_push x q \<noteq> []"
  by (simp add: queue_push_def)

lemma obligation_le_level: "(a :: proof_obligation) \<le> b \<Longrightarrow> po_level a \<le> po_level b"
  by (auto simp: less_eq_proof_obligation_def)

lemma hd_least: "sorted q \<Longrightarrow> x \<in> set q \<Longrightarrow> po_level (hd q) \<le> po_level x"
  by (cases q) (auto intro: obligation_le_level)

section \<open>The invariant\<close>

abbreviation po_cube :: "pdr \<Rightarrow> proof_obligation \<Rightarrow> literal list" where
  "po_cube st po \<equiv> cube_at st (po_handle po)"

definition obligation_ok :: "transition_system \<Rightarrow> pdr \<Rightarrow> proof_obligation \<Rightarrow> bool" where
  "obligation_ok sys st po \<longleftrightarrow>
     pool_live (ctis st) (po_handle po) \<and> po_level po \<le> depth st \<and>
     (if po_level po = 0 then \<exists>s. init_state sys s \<and> holds_in sys s (po_cube st po)
      else frame_free sys st (po_level po - 1) (po_cube st po))"

definition queue_inv :: "transition_system \<Rightarrow> pdr \<Rightarrow> min_queue \<Rightarrow> bool" where
  "queue_inv sys st q \<longleftrightarrow>
     pdr_inv sys st \<and> pool_ok sys (ctis st) \<and> sorted q \<and> (\<forall>po \<in> set q. obligation_ok sys st po)"

definition frames_shrunk :: "transition_system \<Rightarrow> pdr \<Rightarrow> pdr \<Rightarrow> bool" where
  "frames_shrunk sys st st' \<longleftrightarrow>
     depth st' = depth st \<and> pool_ext (ctis st) (ctis st') \<and>
     (\<forall>j. pdr_frame sys st' j \<subseteq> pdr_frame sys st j)"

lemma frames_shrunk_refl [simp]: "frames_shrunk sys st st"
  by (simp add: frames_shrunk_def)

lemma frames_shrunk_trans:
  "frames_shrunk sys a b \<Longrightarrow> frames_shrunk sys b c \<Longrightarrow> frames_shrunk sys a c"
  unfolding frames_shrunk_def by (auto intro: pool_ext_trans)

lemma query_frames: "query_step st st' \<Longrightarrow> frames_shrunk sys st st'"
  by (simp add: frames_shrunk_def query_step_same)

lemma frames_shrunk_free:
  "frames_shrunk sys st st' \<Longrightarrow> frame_free sys st l c \<Longrightarrow> frame_free sys st' l c"
  by (auto simp: frames_shrunk_def frame_free_def)

lemma obligation_ok_mono:
  assumes "obligation_ok sys st po" and "frames_shrunk sys st st'"
  shows "obligation_ok sys st' po"
  using assms frames_shrunk_free [OF assms(2)]
  by (auto simp: obligation_ok_def frames_shrunk_def pool_ext_def)

lemma init_in_frame0: "pdr_inv sys st \<Longrightarrow> init_state sys s \<Longrightarrow> s \<in> pdr_frame sys st l"
  using pdr_frames.frame_init [of sys st s] pdr_frame_mono [of 0 l sys st] by auto

text \<open>The assertion of the loop: a queued cube above level 0 has no initial state.\<close>

lemma obligation_no_init:
  assumes inv: "pdr_inv sys st" and pool: "pool_ok sys (ctis st)"
    and po: "obligation_ok sys st po" and l: "po_level po \<noteq> 0"
  shows "\<not> intersects_initial_states st (po_cube st po)"
proof
  assume i: "intersects_initial_states st (po_cube st po)"
  have tr: "pdr_trace sys st" using inv by (simp add: pdr_inv_def)
  have h: "pool_live (ctis st) (po_handle po)" using po by (simp add: obligation_ok_def)
  note cube = pool_entry_cube [OF pool h]
  obtain s where s: "init_state sys s" "holds_in sys s (po_cube st po)"
    using i intersects_states [OF tr cube(2,3)] by blast
  then have "s \<in> pdr_frame sys st (po_level po - 1)" using init_in_frame0 [OF inv] by blast
  then show False using po l s(2) by (auto simp: obligation_ok_def frame_free_def)
qed

section \<open>Termination\<close>

definition frame_mass :: "transition_system \<Rightarrow> pdr \<Rightarrow> nat" where
  "frame_mass sys st = (\<Sum>j \<le> depth st. card (pdr_frame sys st j))"

definition num_blocked :: "transition_system \<Rightarrow> pdr \<Rightarrow> min_queue \<Rightarrow> nat" where
  "num_blocked sys st q =
     size (filter_mset (\<lambda>po. frame_free sys st (po_level po) (po_cube st po)) (mset q))"

definition queue_order :: "transition_system \<Rightarrow> ((pdr \<times> min_queue) \<times> (pdr \<times> min_queue)) set" where
  "queue_order sys = measures
     [\<lambda>(st, q). frame_mass sys st, \<lambda>(st, q). num_blocked sys st q,
      \<lambda>(st, q). if q = [] then 0 else po_level (hd q)]"

lemma finite_frame [simp]: "finite (pdr_frame sys st j)"
  by (rule finite_subset [OF _ finite_all_states [of sys]]) (auto simp: pdr_frame_def)

lemma frame_mass_less:
  assumes "frames_shrunk sys st st'" and "l \<le> depth st"
    and "\<not> frame_free sys st l c" and "frame_free sys st' l c"
  shows "frame_mass sys st' < frame_mass sys st"
proof -
  have sub: "pdr_frame sys st' j \<subseteq> pdr_frame sys st j" for j using assms(1) by (simp add: frames_shrunk_def)
  have "pdr_frame sys st' l \<subset> pdr_frame sys st l"
    using sub [of l] assms(3,4) by (auto simp: frame_free_def)
  then have "card (pdr_frame sys st' l) < card (pdr_frame sys st l)" by (rule psubset_card_mono [rotated]) simp
  moreover have "depth st' = depth st" using assms(1) by (simp add: frames_shrunk_def)
  ultimately show ?thesis
    unfolding frame_mass_def
    using assms(2) sub by (auto intro!: sum_strict_mono_ex1 card_mono)
qed

lemma num_blocked_query:
  assumes "query_step st st'" and "\<forall>po \<in> set q. pool_live (ctis st) (po_handle po)"
  shows "num_blocked sys st' q = num_blocked sys st q"
  unfolding num_blocked_def
  using assms(2) query_step_same(2,4) [OF assms(1)]
  by (intro arg_cong [where f = size] filter_mset_cong refl)
    (auto simp: pool_ext_def frame_free_def)

section \<open>One round\<close>

text \<open>A round at a level above 0: the loop goes on with a state and a queue that are smaller.\<close>

definition start_ok :: "transition_system \<Rightarrow> pdr \<Rightarrow> min_queue \<Rightarrow> cti_handle \<Rightarrow> bool" where
  "start_ok sys st q h \<longleftrightarrow>
     pool_live (ctis st) h \<and>
     (Obligation (depth st) h \<in> set q \<or> frame_free sys st (depth st) (cube_at st h))"

definition round_ok ::
  "transition_system \<Rightarrow> pdr \<Rightarrow> min_queue \<Rightarrow> pdr \<Rightarrow> min_queue \<Rightarrow> bool" where
  "round_ok sys st q st' q' \<longleftrightarrow>
     queue_inv sys st' q' \<and> frames_shrunk sys st st' \<and>
     (\<forall>h. start_ok sys st q h \<longrightarrow> start_ok sys st' q' h) \<and>
     ((st', q'), (st, q)) \<in> queue_order sys"

lemma start_ok_step:
  assumes "start_ok sys st q h" and "frames_shrunk sys st st'"
    and "\<And>po. po \<in> set q \<Longrightarrow> po \<in> set q' \<or> (po_level po = depth st \<longrightarrow> frame_free sys st' (depth st) (po_cube st po))"
  shows "start_ok sys st' q' h"
proof -
  have e: "cube_at st' h = cube_at st h" "pool_live (ctis st') h" "depth st' = depth st"
    using assms(1,2) by (auto simp: start_ok_def frames_shrunk_def pool_ext_def)
  show ?thesis
    using assms(1) assms(3) [of "Obligation (depth st) h"] e frames_shrunk_free [OF assms(2)]
    by (auto simp: start_ok_def)
qed

text \<open>An obligation found blocked is dropped.\<close>

lemma round_blocked:
  assumes q: "queue_inv sys st (po # q)" and s: "query_step st st'" and inv: "pdr_inv sys st'"
    and pool: "pool_ok sys (ctis st')"
    and free: "frame_free sys st (po_level po) (po_cube st po)"
  shows "round_ok sys st (po # q) st' q"
proof -
  note sh = query_frames [OF s, of sys]
  have live: "\<forall>p \<in> set (po # q). pool_live (ctis st) (po_handle p)"
    using q by (auto simp: queue_inv_def obligation_ok_def)
  have "queue_inv sys st' q"
    using q inv pool obligation_ok_mono [OF _ sh] by (auto simp: queue_inv_def)
  moreover have "start_ok sys st' q h" if "start_ok sys st (po # q) h" for h
    using that sh
  proof (rule start_ok_step)
    fix p assume "p \<in> set (po # q)"
    then show "p \<in> set q \<or> (po_level p = depth st \<longrightarrow> frame_free sys st' (depth st) (po_cube st p))"
      using frames_shrunk_free [OF sh free] by auto
  qed
  moreover have "num_blocked sys st' q < num_blocked sys st (po # q)"
    using num_blocked_query [OF s, of q sys] live free by (simp add: num_blocked_def)
  moreover have "frame_mass sys st' = frame_mass sys st"
    using query_step_same(2,3) [OF s] by (simp add: frame_mass_def)
  ultimately show ?thesis using sh by (simp add: round_ok_def queue_order_def)
qed

text \<open>An obligation without predecessors is blocked, and queued again one level up.\<close>

lemma round_inductive:
  assumes q: "queue_inv sys st (po # q)" and s: "query_step st st1"
    and nf: "\<not> frame_free sys st (po_level po) (po_cube st po)" and l: "1 \<le> po_level po"
    and g: "gen_result sys st1 (po_cube st po) (po_level po) ((c, i), st2)"
    and pool: "pool_ok sys (ctis st1)"
    and b: "block_result sys st2 c 1 (min i (depth st2)) st3"
    and q': "q' = (if po_level po < depth st
      then queue_push (Obligation (po_level po + 1) (po_handle po)) q else q)"
  shows "round_ok sys st (po # q) st3 q'"
proof -
  have ok: "obligation_ok sys st po" and srt: "sorted q" and oks: "\<forall>p \<in> set q. obligation_ok sys st p"
    using q by (auto simp: queue_inv_def)
  have s2: "solver_step st1 st2" using g by (simp add: gen_result_def)
  have s12: "query_step st st2" using query_step_trans [OF s solver_query_step [OF s2]] .
  note same = query_step_same [OF s12]
  have sh: "frames_shrunk sys st st3"
    using b same by (auto simp: frames_shrunk_def block_result_def frames_cut_def)
  have lev: "po_level po \<le> depth st" using ok by (simp add: obligation_ok_def)
  have k: "po_level po \<le> min i (depth st2)" using g lev same by (simp add: gen_result_def)
  have free: "frame_free sys st3 j (po_cube st po)" if j: "j \<le> min i (depth st2)" for j
    unfolding frame_free_def
  proof
    fix u assume "u \<in> pdr_frame sys st3 j"
    then have "\<not> holds_in sys u (cube_literals c)" using b j by (simp add: block_result_def frames_cut_def)
    then show "\<not> holds_in sys u (po_cube st po)"
      using g lits_hold_subset by (auto simp: gen_result_def)
  qed
  have e: "cube_at st3 (po_handle p) = cube_at st (po_handle p)" "pool_live (ctis st3) (po_handle p)"
    if "obligation_ok sys st p" for p
    using that sh by (auto simp: obligation_ok_def frames_shrunk_def pool_ext_def)
  have new: "obligation_ok sys st3 (Obligation (po_level po + 1) (po_handle po))" if "po_level po < depth st"
    using free [of "po_level po"] k that e [OF ok] sh by (simp add: obligation_ok_def frames_shrunk_def)
  have c3: "ctis st3 = ctis st1" "pdr_inv sys st3"
    using b solver_step_same(4) [OF s2] by (simp_all add: block_result_def)
  have "queue_inv sys st3 q'"
    using c3 pool srt oks obligation_ok_mono [OF _ sh] new q' by (auto simp: queue_inv_def)
  moreover have "start_ok sys st3 q' h" if "start_ok sys st (po # q) h" for h
    using that sh
  proof (rule start_ok_step)
    fix p assume "p \<in> set (po # q)"
    then show "p \<in> set q' \<or> (po_level p = depth st \<longrightarrow> frame_free sys st3 (depth st) (po_cube st p))"
      using free [of "po_level po"] k q' by auto
  qed
  moreover have "frame_mass sys st3 < frame_mass sys st"
    by (rule frame_mass_less [OF sh lev nf]) (rule free [OF k])
  ultimately show ?thesis using sh by (simp add: round_ok_def queue_order_def)
qed

text \<open>A predecessor is queued one level down, in front of its obligation.\<close>

lemma round_predecessor:
  assumes q: "queue_inv sys st (po # q)" and s: "query_step st st1"
    and nf: "\<not> frame_free sys st (po_level po) (po_cube st po)" and l: "1 \<le> po_level po"
    and g: "pred_result sys st1 (po_level po) (po_cube st po) (h', st2)"
  shows "round_ok sys st (po # q) st2 (queue_push po (queue_push (Obligation (po_level po - 1) h') q))"
proof -
  define l where "l = po_level po"
  define new where "new = Obligation (l - 1) h'"
  define q' where "q' = queue_push po (queue_push new q)"
  have ok: "obligation_ok sys st po" and srt: "sorted q" and oks: "\<forall>p \<in> set q. obligation_ok sys st p"
    and inv: "pdr_inv sys st"
    using q by (auto simp: queue_inv_def)
  have l1: "1 \<le> l" "l \<le> depth st" using l ok by (auto simp: l_def obligation_ok_def)
  have s2: "query_step st1 st2" using g by (simp add: pred_result_def)
  have s12: "query_step st st2" using query_step_trans [OF s s2] .
  note same = query_step_same [OF s12]
  note sh = query_frames [OF s12, of sys]
  have live: "\<forall>p \<in> set (po # q). pool_live (ctis st) (po_handle p)"
    using q by (auto simp: queue_inv_def obligation_ok_def)
  have f1: "pdr_frame sys st1 = pdr_frame sys st" using query_step_same(2) [OF s] .
  have pr: "pool_ok sys (ctis st2)" "pool_live (ctis st2) h'" "pdr_inv sys st2"
    "\<not> frame_free sys st (l - 1) (cube_at st2 h')"
    "\<And>u. u \<in> all_states sys \<Longrightarrow> holds_in sys u (cube_at st2 h') \<Longrightarrow>
        \<exists>i t. trans_step sys u i t \<and> holds_in sys t (po_cube st po)"
    using g f1 by (auto simp: pred_result_def l_def frame_free_def)
  have new_ok: "obligation_ok sys st2 new"
  proof (cases "l = 1")
    case True
    then obtain u where u: "u \<in> pdr_frame sys st 0" "holds_in sys u (cube_at st2 h')"
      using pr(4) by (auto simp: frame_free_def)
    then have "init_state sys u" by (simp add: pdr_frame_def)
    then show ?thesis using True u(2) pr(2) by (auto simp: obligation_ok_def new_def)
  next
    case False
    then have l2: "2 \<le> l" using l1 by simp
    have "frame_free sys st (l - 2) (cube_at st2 h')"
      unfolding frame_free_def
    proof (intro ballI notI)
      fix u assume u: "u \<in> pdr_frame sys st (l - 2)" "holds_in sys u (cube_at st2 h')"
      then obtain i t where t: "trans_step sys u i t" "holds_in sys t (po_cube st po)"
        using pr(5) [of u] by (auto simp: pdr_frame_def)
      have "t \<in> pdr_frame sys st (Suc (l - 2))"
        by (rule pdr_frames.frame_step [OF inv _ u(1)]) (use t l1 l2 in auto)
      then have "t \<in> pdr_frame sys st (l - 1)" using l2 by (simp add: numeral_2_eq_2 Suc_diff_Suc)
      moreover have "frame_free sys st (l - 1) (po_cube st po)"
        using ok l2 by (simp add: obligation_ok_def l_def)
      ultimately show False using t(2) by (auto simp: frame_free_def)
    qed
    then show ?thesis
      using l2 l1 pr(2) same by (simp add: obligation_ok_def new_def frame_free_def numeral_2_eq_2)
  qed
  have "queue_inv sys st2 q'"
    using pr(1,3) srt oks ok obligation_ok_mono [OF _ sh] new_ok by (auto simp: queue_inv_def q'_def)
  moreover have "start_ok sys st2 q' h" if "start_ok sys st (po # q) h" for h
    using that sh by (rule start_ok_step) (auto simp: q'_def)
  moreover have "frame_mass sys st2 = frame_mass sys st"
    using same(2,3) by (simp add: frame_mass_def)
  moreover have "num_blocked sys st2 q' = num_blocked sys st (po # q)"
  proof -
    have "\<not> frame_free sys st2 (l - 1) (cube_at st2 h')" using pr(4) same(2) by (simp add: frame_free_def)
    then have "num_blocked sys st2 q' = num_blocked sys st2 (po # q)"
      by (simp add: num_blocked_def q'_def new_def)
    then show ?thesis using num_blocked_query [OF s12 live] by simp
  qed
  moreover have "po_level (hd q') < po_level po"
  proof -
    have "sorted q'" using srt by (simp add: q'_def)
    moreover have "new \<in> set q'" by (simp add: q'_def)
    ultimately have "po_level (hd q') \<le> l - 1" using hd_least [of q' new] by (simp add: new_def)
    then show ?thesis using l1 by (simp add: l_def)
  qed
  moreover have "q' \<noteq> []" by (simp add: q'_def)
  ultimately have "round_ok sys st (po # q) st2 q'" using sh by (simp add: round_ok_def queue_order_def)
  then show ?thesis by (simp add: q'_def new_def l_def)
qed

end
