(* ===== verification/PdrCorrect.thy ===== *)
theory PdrCorrect
  imports PdrSolve
begin

text \<open>
  Total correctness of the PDR engine: on a well-formed functional system whose initial formula is
  a cube, with a store whose further variables are unused, \<open>run\<close> returns. It never fails an
  assertion, violates the solver's contract or leaves a vector, answers \<open>ok\<close> only for safe systems
  and gives a counterexample otherwise.
\<close>

section \<open>Counterexamples\<close>

definition init_all_false :: "transition_system \<Rightarrow> bool" where
  "init_all_false sys \<longleftrightarrow> (\<forall>l \<in> set (init_lits sys). \<not> lit_sign l)"

definition cex_ok :: "transition_system \<Rightarrow> counterexample \<Rightarrow> bool" where
  "cex_ok sys cex \<longleftrightarrow> cex_inputs_valid sys cex \<and> (init_all_false sys \<longrightarrow> cex_valid sys cex)"

lemma row_init:
  assumes ps: "pdr_system sys" and c: "cube_sorted c" "lits_over (state_vars sys) (cube_literals c)"
    and neg: "init_all_false sys"
    and s: "init_state sys s" "holds_in sys s (cube_literals c)"
  shows "init_state sys (row_values (get_vars (state_vars sys) c))"
proof -
  define row where "row = row_values (get_vars (state_vars sys) c)"
  have wf: "well_formed_system sys" using ps by (simp add: pdr_system_def)
  have r: "range_ok (state_vars sys)" using wf by (simp add: well_formed_system_def)
  have row: "row \<in> all_states sys"
    by (simp add: row_def row_values_def all_states_def num_state_vars_def)
  have sl: "holds_in sys s (init_lits sys)"
    using init_state_lits [OF ps init_state_length [OF s(1)]] s(1) by simp
  have "lit_holds (state_vars sys) row l" if l: "l \<in> set (init_lits sys)" for l
  proof -
    define v where "v = lit_var l"
    have v: "vr_contains (state_vars sys) v" using init_lits_ok(1) [OF ps] l by (simp add: lits_over_def v_def)
    have n: "\<not> lit_sign l" using neg l by (simp add: init_all_false_def)
    have pos: "0 < var_id v" using vr_contains_pos [OF r v] .
    have "\<not> lit_sign (case cube_find c v of Some k \<Rightarrow> k | None \<Rightarrow> literal_of v True)"
    proof (cases "cube_find c v")
      case None
      then show ?thesis using pos by simp
    next
      case (Some k)
      then have "k \<in> set (cube_literals c)" "lit_var k = lit_var l"
        using cube_find_Some [OF c(1) pos] by (auto simp: v_def)
      moreover have "lit_holds (state_vars sys) s l" using sl l by (simp add: lits_hold_def)
      moreover have "lit_holds (state_vars sys) s k" using s(2) \<open>k \<in> _\<close> by (simp add: lits_hold_def)
      ultimately have "lit_sign k = lit_sign l" by (simp add: lit_holds_def)
      then show ?thesis using Some n by simp
    qed
    then show ?thesis
      using row_values_get_vars_nth [OF v, of c] n by (simp add: lit_holds_def row_def v_def)
  qed
  then show ?thesis
    using init_state_lits [OF ps row] by (simp add: lits_hold_def row_def)
qed

lemma build_counterexample_ok:
  assumes inv: "pdr_inv sys st" and pool: "pool_ok sys (ctis st)"
    and po: "obligation_ok sys st po" and l: "po_level po = 0"
  shows "runs (build_counterexample d sys st (po_handle po)) (cex_ok sys)"
proof -
  have ps: "pdr_system sys" using inv by (simp add: pdr_inv_def pdr_trace_def)
  then have wf: "well_formed_system sys" by (simp add: pdr_system_def)
  have h: "pool_live (ctis st) (po_handle po)" using po by (simp add: obligation_ok_def)
  obtain s where s: "init_state sys s" "holds_in sys s (po_cube st po)"
    using po l by (auto simp: obligation_ok_def)
  note cube = pool_entry_cube [OF pool h]
  show ?thesis
  proof (rule runs_mono [OF build_counterexample_runs [OF pool h wf]], elim conjE)
    fix cex
    assume shape: "cex_shape sys cex"
      and row: "initial_state cex = get_vars (state_vars sys) (cti_state_vars (entry_at (ctis st) (po_handle po)))"
      and tr: "error_trace sys (row_values (initial_state cex)) (map row_values (inputs cex))"
      and all: "\<forall>s \<in> all_states sys. holds_in sys s (po_cube st po) \<longrightarrow>
        error_trace sys s (map row_values (inputs cex))"
    have "error_trace sys s (map row_values (inputs cex))" using all s init_state_length [OF s(1)] by blast
    then have "cex_inputs_valid sys cex" using shape tr s(1) by (auto simp: cex_inputs_valid_def)
    moreover have "cex_valid sys cex" if "init_all_false sys"
      using row_init [OF ps cube(1,2) that s] row shape tr by (simp add: cex_valid_def)
    ultimately show "cex_ok sys cex" by (simp add: cex_ok_def)
  qed
qed

section \<open>The obligation loop\<close>

definition solve_result ::
  "transition_system \<Rightarrow> pdr \<Rightarrow> min_queue \<Rightarrow> counterexample option \<times> pdr \<Rightarrow> bool" where
  "solve_result sys st q r \<longleftrightarrow>
     (case fst r of
        Some cex \<Rightarrow> cex_ok sys cex
      | None \<Rightarrow> pdr_inv sys (snd r) \<and> pool_ok sys (ctis (snd r)) \<and> frames_shrunk sys st (snd r) \<and>
          (\<forall>h. start_ok sys st q h \<longrightarrow> frame_free sys (snd r) (depth st) (cube_at st h)))"

lemma solve_result_round:
  assumes r: "round_ok sys st q st1 q1" and s: "solve_result sys st1 q1 r"
  shows "solve_result sys st q r"
proof (cases "fst r")
  case (Some cex)
  then show ?thesis using s by (simp add: solve_result_def)
next
  case None
  have sh: "frames_shrunk sys st st1" and so: "\<And>h. start_ok sys st q h \<Longrightarrow> start_ok sys st1 q1 h"
    using r by (auto simp: round_ok_def)
  have s': "pdr_inv sys (snd r)" "pool_ok sys (ctis (snd r))" "frames_shrunk sys st1 (snd r)"
    "\<And>h. start_ok sys st1 q1 h \<Longrightarrow> frame_free sys (snd r) (depth st1) (cube_at st1 h)"
    using s None by (auto simp: solve_result_def)
  have "frame_free sys (snd r) (depth st) (cube_at st h)" if h: "start_ok sys st q h" for h
  proof -
    have "depth st1 = depth st" "cube_at st1 h = cube_at st h"
      using sh h by (auto simp: frames_shrunk_def pool_ext_def start_ok_def)
    then show ?thesis using s'(4) [OF so [OF h]] by simp
  qed
  then show ?thesis
    using None s'(1,2) frames_shrunk_trans [OF sh s'(3)] by (simp add: solve_result_def)
qed

lemma wf_queue_order: "wf (queue_order sys)"
  by (simp add: queue_order_def)

text \<open>What the body of the loop does with the least obligation.\<close>

lemma solve_round:
  assumes so: "sound_oracle (sat_solver E)" and q: "queue_inv sys st (po # q)" and l: "po_level po \<noteq> 0"
    and rec: "\<And>st1 q1. round_ok sys st (po # q) st1 q1 \<Longrightarrow> runs (solve_queue E sys st1 q1) (solve_result sys st1 q1)"
  shows "runs (solve_queue E sys st (po # q)) (solve_result sys st (po # q))"
proof -
  have rec': "runs (solve_queue E sys st1 q1) (solve_result sys st (po # q))"
    if "round_ok sys st (po # q) st1 q1" for st1 q1
    by (rule runs_mono [OF rec [OF that]]) (rule solve_result_round [OF that])
  have inv: "pdr_inv sys st" and pool: "pool_ok sys (ctis st)" and ok: "obligation_ok sys st po"
    using q by (auto simp: queue_inv_def)
  obtain lev h where po: "po = Obligation lev h" by (cases po)
  have lh: "1 \<le> lev" "lev \<le> depth st" "pool_live (ctis st) h"
    using l ok by (auto simp: po obligation_ok_def)
  obtain b st1 where b: "is_already_blocked E sys st po = Some (b, st1)"
    "blocked_result sys st lev (cube_at st h) (b, st1)"
    using is_already_blocked_runs [OF inv so pool lh(3,1,2)] by (auto simp: runs_iff po)
  then have s1: "pdr_inv sys st1" "solver_step st st1" "b \<longleftrightarrow> frame_free sys st lev (cube_at st h)"
    by (auto simp: blocked_result_def)
  note same1 = solver_step_same [OF s1(2)]
  have pool1: "pool_ok sys (ctis st1)" using pool same1 by simp
  show ?thesis
  proof (cases b)
    case True
    have "round_ok sys st (po # q) st1 q"
      by (rule round_blocked [OF q solver_query_step [OF s1(2)] s1(1) pool1])
        (use s1(3) True in \<open>simp add: po\<close>)
    then show ?thesis using b(1) True l rec' by (subst solve_queue.simps) simp
  next
    case nb: False
    have nf: "\<not> frame_free sys st (po_level po) (po_cube st po)" using nb s1(3) by (simp add: po)
    have g1: "cti_get (debug_build E) (ctis st1) h = Some (entry_at (ctis st) h)"
      using pool_get [OF pool lh(3)] same1 by simp
    have ni: "\<not> intersects_initial_states st1 (cube_at st h)"
      using obligation_no_init [OF inv pool ok l] s1(2) by (simp add: po)
    have over: "lits_over (state_vars sys) (cube_at st h)" using pool_entry_cube(2) [OF pool lh(3)] .
    obtain ind st2 where r: "is_relative_inductive E sys st1 (cube_at st h) lev = Some (ind, st2)"
      "rel_ind_result sys st1 (cube_at st h) lev (ind, st2)"
      using is_relative_inductive_runs [OF s1(1) so lh(1) _ over] lh(2) same1 by (auto simp: runs_iff)
    then have s2: "pdr_inv sys st2" "solver_step st1 st2" by (auto simp: rel_ind_result_def)
    have s02: "solver_step st st2" using solver_step_trans [OF s1(2) s2(2)] .
    note same2 = solver_step_same [OF s02]
    have q02: "query_step st st2" by (rule solver_query_step [OF s02])
    have pool2: "pool_ok sys (ctis st2)" using pool same2 by simp
    have cb: "core_blocks sys st2 s i core = core_blocks sys st1 s i core"
      "pred_model sys st2 s i m = pred_model sys st1 s i m" for s i core m
      using solver_step_same [OF s2(2)] by (simp_all add: core_blocks_def pred_model_def rel_inductive_def)
    show ?thesis
    proof (cases ind)
      case False
      then obtain m where m: "status (pdr_solver st2) = Satisfied m" "pred_model sys st2 (cube_at st2 h) lev m"
        using r(2) cb same2 by (auto simp: rel_ind_result_def)
      obtain h' st3 where p: "get_predecessor E sys st2 po = Some (h', st3)"
        "pred_result sys st2 lev (cube_at st2 h) (h', st3)"
        using get_predecessor_runs [OF s2(1) so pool2 _ m] lh(3) same2 by (auto simp: runs_iff po)
      have "round_ok sys st (po # q) st3 (queue_push po (queue_push (Obligation (po_level po - 1) h') q))"
        by (rule round_predecessor [OF q q02 nf]) (use p(2) lh same2 in \<open>simp_all add: po\<close>)
      then show ?thesis
        using b(1) nb l rec' g1 ni r(1) False p(1)
        by (subst solve_queue.simps) (simp add: po assert_that_holds)
    next
      case True
      then obtain core where core: "status (pdr_solver st2) = Unsatisfied core"
        "core_blocks sys st2 (cube_at st2 h) lev core"
        using r(2) cb same2 by (auto simp: rel_ind_result_def)
      have ni2: "\<not> intersects_initial_states st2 (cube_at st2 h)" using ni s2(2) same2 by simp
      obtain gen st3 where g: "generalize_inductive E sys st2 po = Some (gen, st3)"
        "gen_result sys st2 (cube_at st2 h) lev (gen, st3)"
        using generalize_inductive_runs [OF s2(1) so pool2 _ lh(1) _ core ni2] lh same2
        by (auto simp: runs_iff po)
      obtain c i where gen: "gen = (c, i)" by fastforce
      note gr = g(2) [unfolded gen gen_result_def, simplified]
      have s3: "solver_step st2 st3" "pdr_inv sys st3" using gr by auto
      have d3: "depth st3 = depth st" using solver_step_same(3) [OF s3(1)] same2 by simp
      have c_ok: "blocked_cube_ok sys c"
        unfolding blocked_cube_ok_def
        using gr lits_over_subset [OF over] same2 by simp
      have k: "min i (depth st3) \<le> i" by simp
      have ri: "rel_inductive sys st3 (cube_literals c) (min i (depth st3) - 1)"
        unfolding rel_inductive_def
      proof (intro allI impI)
        fix s inp t assume s: "s \<in> pdr_frame sys st3 (min i (depth st3) - 1)"
          and n: "\<not> holds_in sys s (cube_literals c)" and t: "trans_step sys s inp t"
        have "s \<in> pdr_frame sys st2 (i - Suc 0)"
          using s subsetD [OF pdr_frame_mono [of "min i (depth st3) - 1" "i - 1" sys st2]]
            solver_step_same(2) [OF s3(1)]
          by simp
        then show "\<not> holds_in sys t (cube_literals c)" using gr n t unfolding rel_inductive_def by blast
      qed
      have "runs (add_blocked_at (debug_build E) sys st3 c i 1) (block_result sys st3 c 1 (min i (depth st3)))"
        by (rule add_blocked_at_runs [OF s3(2) c_ok _ _ _ ri]) (use gr lh d3 in auto)
      then obtain st4 where a: "add_blocked_at (debug_build E) sys st3 c i 1 = Some st4"
        "block_result sys st3 c 1 (min i (depth st3)) st4" by (auto simp: runs_iff)
      define q' where "q' = (if po_level po < depth st
        then queue_push (Obligation (po_level po + 1) (po_handle po)) q else q)"
      have "round_ok sys st (po # q) st4 q'"
        by (rule round_inductive [OF q q02 nf _ _ pool2 a(2) q'_def])
          (use g(2) gen lh same2 in \<open>simp_all add: po\<close>)
      moreover have "depth st4 = depth st" using a(2) d3 by (simp add: block_result_def)
      ultimately show ?thesis
        using b(1) nb l rec' g1 ni r(1) True g(1) gen a(1)
        by (subst solve_queue.simps) (simp add: po assert_that_holds q'_def split: if_splits)
    qed
  qed
qed

lemma solve_queue_runs:
  assumes so: "sound_oracle (sat_solver E)" and "queue_inv sys st q"
  shows "runs (solve_queue E sys st q) (solve_result sys st q)"
proof -
  have "queue_inv sys (fst x) (snd x) \<Longrightarrow>
      runs (solve_queue E sys (fst x) (snd x)) (solve_result sys (fst x) (snd x))" for x
  proof (induction x rule: wf_induct_rule [OF wf_queue_order [of sys]])
    case (1 x)
    obtain st q where x: "x = (st, q)" by fastforce
    have inv: "queue_inv sys st q" using "1.prems" x by simp
    show ?case
    proof (cases q)
      case Nil
      then show ?thesis
        using inv
        by (auto simp: x solve_queue.simps [of E sys st "[]"] solve_result_def queue_inv_def start_ok_def)
    next
      case (Cons po q')
      show ?thesis
      proof (cases "po_level po = 0")
        case True
        have "runs (build_counterexample (debug_build E) sys st (po_handle po)) (cex_ok sys)"
          by (rule build_counterexample_ok) (use inv Cons True in \<open>auto simp: queue_inv_def\<close>)
        then show ?thesis
          using True by (auto simp: x Cons solve_queue.simps [of E sys st "po # q'"] solve_result_def runs_iff)
      next
        case False
        have "runs (solve_queue E sys st (po # q')) (solve_result sys st (po # q'))"
        proof (rule solve_round [OF so _ False])
          show "queue_inv sys st (po # q')" using inv Cons by simp
          fix st1 q1 assume r: "round_ok sys st (po # q') st1 q1"
          then have "((st1, q1), x) \<in> queue_order sys" by (simp add: round_ok_def x Cons)
          from "1.IH" [OF this] show "runs (solve_queue E sys st1 q1) (solve_result sys st1 q1)"
            using r by (simp add: round_ok_def)
        qed
        then show ?thesis by (simp add: x Cons)
      qed
    qed
  qed
  from this [of "(st, q)"] show ?thesis using assms(2) by simp
qed

section \<open>The main loop\<close>

definition obligation_result ::
  "transition_system \<Rightarrow> pdr \<Rightarrow> counterexample option \<times> pdr \<Rightarrow> bool" where
  "obligation_result sys st r \<longleftrightarrow>
     (case fst r of
        Some cex \<Rightarrow> cex_ok sys cex
      | None \<Rightarrow> pdr_inv sys (snd r) \<and> pool_ok sys (ctis (snd r)) \<and> depth (snd r) = depth st \<and>
          pdr_frame sys (snd r) (depth st) \<subset> pdr_frame sys st (depth st))"

lemma solve_obligation_runs:
  assumes inv: "pdr_inv sys st" and so: "sound_oracle (sat_solver E)" and pool: "pool_ok sys (ctis st)"
    and h: "pool_live (ctis st) h"
    and s: "s \<in> pdr_frame sys st (depth st)" "holds_in sys s (cube_at st h)"
    and bad: "\<forall>s \<in> all_states sys. holds_in sys s (cube_at st h) \<longrightarrow> (\<exists>i. error_state sys s i)"
  shows "runs (solve_obligation E sys st (Obligation (depth st) h)) (obligation_result sys st)"
proof -
  define po where "po = Obligation (depth st) h"
  have "obligation_ok sys st po"
  proof (cases "depth st")
    case 0
    then have "init_state sys s" using s(1) by (simp add: pdr_frame_def)
    then show ?thesis using 0 h s(2) by (auto simp: obligation_ok_def po_def)
  next
    case (Suc d)
    have "frame_free sys st d (cube_at st h)"
      unfolding frame_free_def
    proof (intro ballI notI)
      fix u assume u: "u \<in> pdr_frame sys st d" "holds_in sys u (cube_at st h)"
      then have "\<exists>i. error_state sys u i" using bad by (auto simp: pdr_frame_def)
      moreover have "\<not> (\<exists>i. error_state sys u i)"
        by (rule pdr_frames.frame_safe [OF inv _ u(1)]) (simp add: Suc)
      ultimately show False by blast
    qed
    then show ?thesis using Suc h by (simp add: obligation_ok_def po_def)
  qed
  then have qi: "queue_inv sys st [po]" using inv pool by (simp add: queue_inv_def)
  have start: "start_ok sys st [po] h" using h by (simp add: start_ok_def po_def)
  have q: "queue_push po [] = [po]" by (simp add: queue_push_def)
  have "solve_obligation E sys st po = solve_queue E sys st [po]"
    by (simp add: solve_obligation_def q assert_that_holds) (simp add: po_def)
  moreover have "runs (solve_queue E sys st [po]) (obligation_result sys st)"
  proof (rule runs_mono [OF solve_queue_runs [OF so qi]])
    fix r assume r: "solve_result sys st [po] r"
    show "obligation_result sys st r"
    proof (cases "fst r")
      case (Some cex)
      then show ?thesis using r by (simp add: solve_result_def obligation_result_def)
    next
      case None
      then have "frame_free sys (snd r) (depth st) (cube_at st h)" "frames_shrunk sys st (snd r)"
        using r start by (auto simp: solve_result_def)
      then have "pdr_frame sys (snd r) (depth st) \<subset> pdr_frame sys st (depth st)"
        using s by (auto simp: frame_free_def frames_shrunk_def)
      then show ?thesis using None r
        by (simp add: solve_result_def obligation_result_def frames_shrunk_def)
    qed
  qed
  ultimately show ?thesis by (simp add: po_def)
qed

definition check_inv :: "transition_system \<Rightarrow> pdr \<Rightarrow> bool" where
  "check_inv sys st \<longleftrightarrow>
     pdr_inv sys st \<and> pool_ok sys (ctis st) \<and> depth st \<le> 2 ^ num_state_vars sys + 1"

definition check_result :: "transition_system \<Rightarrow> result \<Rightarrow> bool" where
  "check_result sys res \<longleftrightarrow>
     (case res of Ok \<Rightarrow> safe sys | Unknown _ \<Rightarrow> False | Cex cex \<Rightarrow> cex_ok sys cex)"

definition check_order :: "transition_system \<Rightarrow> (pdr \<times> pdr) set" where
  "check_order sys = measures
     [\<lambda>st. 2 ^ num_state_vars sys + 2 - depth st, \<lambda>st. card (pdr_frame sys st (depth st))]"

lemma check_inv_flush:
  "check_inv sys st \<Longrightarrow> check_inv sys (st\<lparr>ctis := cti_flush (ctis st)\<rparr>)"
  by (simp add: check_inv_def pool_flush)

lemma check_order_flush:
  "(st\<lparr>ctis := p\<rparr>, st0) \<in> check_order sys \<longleftrightarrow> (st, st0) \<in> check_order sys"
  by (simp add: check_order_def)

text \<open>One round of the loop of \<open>check\<close>.\<close>

lemma check_round:
  assumes so: "sound_oracle (sat_solver E)" and ci: "check_inv sys st"
    and rec: "\<And>st'. check_inv sys st' \<Longrightarrow> (st', st) \<in> check_order sys \<Longrightarrow>
      runs (pdr_check E sys st') (\<lambda>r. check_result sys (fst r))"
  shows "runs (pdr_check E sys st) (\<lambda>r. check_result sys (fst r))"
proof -
  have rec': "runs (pdr_check E sys (st'\<lparr>ctis := cti_flush (ctis st')\<rparr>)) (\<lambda>r. check_result sys (fst r))"
    if "check_inv sys st'" "(st', st) \<in> check_order sys" for st'
    using rec [OF check_inv_flush [OF that(1)]] that(2) by (simp add: check_order_flush)
  have inv: "pdr_inv sys st" and pool: "pool_ok sys (ctis st)" and d: "depth st \<le> 2 ^ num_state_vars sys + 1"
    using ci by (auto simp: check_inv_def)
  obtain cti st1 where e: "get_error_cti E sys st = Some (cti, st1)" "error_cti_result sys st (cti, st1)"
    using get_error_cti_runs [OF inv so pool] by (auto simp: runs_iff)
  then have s1: "pdr_inv sys st1" "query_step st st1" "pool_ok sys (ctis st1)"
    by (auto simp: error_cti_result_def)
  note same = query_step_same [OF s1(2)]
  show ?thesis
  proof (cases cti)
    case (Some h)
    then obtain s where s: "pool_live (ctis st1) h" "s \<in> pdr_frame sys st1 (depth st1)"
      "holds_in sys s (cube_at st1 h)"
      "\<forall>s \<in> all_states sys. holds_in sys s (cube_at st1 h) \<longrightarrow> (\<exists>i. error_state sys s i)"
      using e(2) same by (auto simp: error_cti_result_def)
    obtain cex st2 where o: "solve_obligation E sys st1 (Obligation (depth st1) h) = Some (cex, st2)"
      "obligation_result sys st1 (cex, st2)"
      using solve_obligation_runs [OF s1(1) so s1(3) s(1-4)] by (auto simp: runs_iff)
    show ?thesis
    proof (cases cex)
      case (Some c)
      then show ?thesis
        using \<open>cti = Some h\<close> e(1) o by (subst pdr_check.simps) (simp add: check_result_def obligation_result_def)
    next
      case None
      then have s2: "pdr_inv sys st2" "pool_ok sys (ctis st2)" "depth st2 = depth st"
        "pdr_frame sys st2 (depth st) \<subset> pdr_frame sys st (depth st)" using o(2) same by (auto simp: obligation_result_def)
      have "card (pdr_frame sys st2 (depth st)) < card (pdr_frame sys st (depth st))"
        by (rule psubset_card_mono [OF _ s2(4)]) simp
      then have "runs (pdr_check E sys (st2\<lparr>ctis := cti_flush (ctis st2)\<rparr>)) (\<lambda>r. check_result sys (fst r))"
        by (intro rec') (use s2 d in \<open>simp_all add: check_inv_def check_order_def\<close>)
      then show ?thesis
        using \<open>cti = Some h\<close> None e(1) o(1) by (subst pdr_check.simps) simp
    qed
  next
    case None
    then have safe: "\<forall>s \<in> pdr_frame sys st1 (depth st1). \<forall>i. \<not> error_state sys s i"
      using e(2) same by (auto simp: error_cti_result_def)
    obtain st2 where p: "pdr_push_frame (debug_build E) st1 = Some st2" "pdr_inv sys st2" "ctis st2 = ctis st1"
      "depth st2 = Suc (depth st)" "trace_blocked_cubes st2 = trace_blocked_cubes st1 @ [[]]"
      using push_frame_runs [OF s1(1) safe, of "debug_build E"] same by (auto simp: runs_iff)
    have "trace_blocked_cubes st2 ! depth st2 = []"
      using p(5) by (simp add: depth_def)
    then obtain b st3 where r: "propagate E sys st2 = Some (b, st3)" "propagate_result sys st2 (b, st3)"
      using propagate_runs [OF p(2) so] by (auto simp: runs_iff)
    then have s3: "pdr_inv sys st3" "ctis st3 = ctis st1" "depth st3 = Suc (depth st)"
      using p(3,4) by (auto simp: propagate_result_def)
    show ?thesis
    proof (cases b)
      case True
      then have "safe sys" using r(2) by (simp add: propagate_result_def)
      then show ?thesis
        using None True e(1) p(1) r(1) by (subst pdr_check.simps) (simp add: check_result_def)
    next
      case False
      then have "strict_frames sys st3 (depth st3)" using r(2) by (simp add: propagate_result_def)
      then have "depth st3 \<le> 2 ^ num_state_vars sys + 1" by (rule strict_depth)
      then have "runs (pdr_check E sys (st3\<lparr>ctis := cti_flush (ctis st3)\<rparr>)) (\<lambda>r. check_result sys (fst r))"
        by (intro rec') (use s3 s1(3) d in \<open>auto simp: check_inv_def check_order_def diff_less_mono2\<close>)
      then show ?thesis using None False e(1) p(1) r(1) by (subst pdr_check.simps) simp
    qed
  qed
qed

lemma pdr_check_runs:
  assumes so: "sound_oracle (sat_solver E)" and "check_inv sys st"
  shows "runs (pdr_check E sys st) (\<lambda>r. check_result sys (fst r))"
proof -
  have "wf (check_order sys)" by (simp add: check_order_def)
  then show ?thesis using assms(2)
  proof (induction st rule: wf_induct_rule)
    case (less st)
    show ?case by (rule check_round [OF so less.prems]) (rule less.IH)
  qed
qed

section \<open>A run\<close>

text \<open>
  What \<open>run\<close> needs of a new engine object: its two activators and the variables it will make are
  none of the system's. The constructor may be called before the system is built from the same
  store, as in \<open>main\<close>, or after it.
\<close>

definition pdr_ready :: "transition_system \<Rightarrow> pdr \<Rightarrow> bool" where
  "pdr_ready sys eng \<longleftrightarrow>
     fresh_from sys (get_next_id (pdr_store eng)) \<and>
     activator_ok sys (get_next_id (pdr_store eng)) (transition_activator eng) \<and>
     activator_ok sys (get_next_id (pdr_store eng)) (error_activator eng) \<and>
     lit_var (transition_activator eng) \<noteq> lit_var (error_activator eng) \<and>
     trace_blocked_cubes eng = [] \<and> trace_activators eng = [] \<and> queries eng = 0 \<and>
     idle (pdr_solver eng) \<and> num_entries (ctis eng) = 0"

definition store_ok :: "transition_system \<Rightarrow> variable_store \<Rightarrow> bool" where
  "store_ok sys store \<longleftrightarrow> store_names store \<noteq> [] \<and> fresh_from sys (get_next_id store)"

text \<open>The engine is made first, on a store with at least the dummy name, and the system after it.\<close>

lemma pdr_ready_before:
  assumes "store_names store0 \<noteq> []" and "get_next_id store0 + 2 \<le> get_next_id store1"
    and "\<And>v. system_var sys v \<Longrightarrow> get_next_id store0 + 2 \<le> var_id v \<and> var_id v < get_next_id store1"
  shows "pdr_ready sys ((pdr_new store0)\<lparr>pdr_store := store1\<rparr>)"
proof -
  define n where "n = get_next_id store0"
  have n: "0 < n" using assms(1) by (simp add: n_def get_next_id_def)
  have act: "transition_activator (pdr_new store0) = literal_of (Variable n) False"
    "error_activator (pdr_new store0) = literal_of (Variable (n + 1)) False"
    by (simp_all add: pdr_new_def store_make_def Let_def n_def get_next_id_def)
  have "\<not> system_var sys (Variable n)" "\<not> system_var sys (Variable (n + 1))"
    using assms(3) [of "Variable n"] assms(3) [of "Variable (n + 1)"] by (auto simp: n_def)
  then show ?thesis
    using n act assms(2,3)
    by (auto simp: pdr_ready_def fresh_from_def activator_ok_def n_def [symmetric])
      (simp_all add: pdr_new_def store_make_def Let_def idle_def asks_def new_solver_def)
qed

lemma pdr_ready_after: "store_ok sys store \<Longrightarrow> pdr_ready sys (pdr_new store)"
proof -
  assume s: "store_ok sys store"
  define n where "n = get_next_id store"
  have n: "0 < n" using s by (simp add: n_def store_ok_def get_next_id_def)
  have eng: "transition_activator (pdr_new store) = literal_of (Variable n) False"
    "error_activator (pdr_new store) = literal_of (Variable (n + 1)) False"
    "get_next_id (pdr_store (pdr_new store)) = n + 2"
    by (simp_all add: pdr_new_def store_make_def Let_def n_def get_next_id_def)
  have f: "fresh_from sys n" using s by (simp add: store_ok_def n_def)
  then have "\<not> system_var sys (Variable n)" "\<not> system_var sys (Variable (n + 1))"
    by (force simp: fresh_from_def)+
  moreover have "fresh_from sys (n + 2)" using f by (force simp: fresh_from_def)
  ultimately show ?thesis
    using n eng
    by (simp add: pdr_ready_def activator_ok_def)
      (simp add: pdr_new_def store_make_def Let_def idle_def asks_def new_solver_def)
qed

lemma initialize_runs:
  assumes ps: "pdr_system sys" and ready: "pdr_ready sys eng"
  shows "runs (pdr_initialize d sys eng) (check_inv sys)"
proof -
  define n where "n = get_next_id (pdr_store eng)"
  have eng: "fresh_from sys n" "activator_ok sys n (transition_activator eng)"
    "activator_ok sys n (error_activator eng)"
    "lit_var (transition_activator eng) \<noteq> lit_var (error_activator eng)"
    "trace_blocked_cubes eng = []" "trace_activators eng = []" "queries eng = 0"
    "idle (pdr_solver eng)" "num_entries (ctis eng) = 0"
    using ready by (auto simp: pdr_ready_def n_def)
  have n0: "0 < n"
    using eng(2) lit_var_pos [of "transition_activator eng"] unfolding activator_ok_def by linarith
  define act where "act = literal_of (Variable n) False"
  define store' where "store' = (pdr_store eng)\<lparr>store_names := store_names (pdr_store eng) @
      [''Act['' @ int_to_string (int (depth (eng\<lparr>trace_blocked_cubes := [[]]\<rparr>)) + 1) @ '']'']\<rparr>"
  have pf: "get_next_id store' = n + 1" "pdr_push_frame d eng = Some
      (eng\<lparr>trace_blocked_cubes := [[]], pdr_store := store', trace_activators := [act]\<rparr>)"
    using eng(5,6)
    by (simp_all add: pdr_push_frame_def store_make_def act_def get_next_id_def store'_def Let_def n_def)
  define st where "st = eng\<lparr>trace_blocked_cubes := [[]], pdr_store := store', trace_activators := [act],
      activated_init := activate (ts_init sys) (lit_var act),
      activated_trans := activate (ts_trans sys) (lit_var (transition_activator eng)),
      activated_error := activate (ts_error sys) (lit_var (error_activator eng)),
      init_cube := make_cube (init_lits sys)\<rparr>"
  have "unit_stream (cnf_literals (ts_init sys))" using ps by (simp add: pdr_system_def init_is_cube_def)
  then have fc: "formula_as_cube d (ts_init sys) = Some (make_cube (init_lits sys))"
    by (simp add: formula_as_cube_unit init_lits_def)
  have run: "pdr_initialize d sys eng = Some st"
    using pf(2) fc by (simp add: pdr_initialize_def st_def)
  have nv: "\<not> system_var sys (Variable n)" using eng(1) by (force simp: fresh_from_def)
  have ids: "get_next_id (pdr_store st) = n + 1" using pf(1) by (simp add: st_def)
  have all: "all_activators st = [transition_activator eng, error_activator eng, act]"
    by (simp add: all_activators_def st_def)
  have av: "lit_var act = Variable n" using n0 by (simp add: act_def)
  have "activators_ok sys st"
    unfolding activators_ok_def ids all
  proof (intro conjI ballI)
    show "fresh_from sys (n + 1)" using eng(1) by (force simp: fresh_from_def)
    have "activator_ok sys (n + 1) act" using n0 nv by (simp add: activator_ok_def act_def)
    then show "activator_ok sys (n + 1) l"
      if "l \<in> set [transition_activator eng, error_activator eng, act]" for l
      using that eng(2,3) by (auto simp: activator_ok_def)
    show "distinct (map lit_var [transition_activator eng, error_activator eng, act])"
      using eng(2-4) av by (auto simp: activator_ok_def)
  qed
  moreover have "formulas_ok sys st" by (simp add: formulas_ok_def st_def)
  moreover have "trace_shape sys st" by (simp add: trace_shape_def st_def)
  moreover have d0: "depth st = 0" by (simp add: depth_def st_def)
  ultimately have "pdr_trace sys st" using ps by (simp add: pdr_trace_def)
  moreover have "solver_ok sys st" using eng(7,8) by (simp add: solver_ok_def st_def)
  moreover have "pool_ok sys (ctis st)"
    using eng(9) by (simp add: pool_ok_def ctis.linked_def st_def pool_inv_def pool_live_def)
  ultimately have "check_inv sys st" using d0 by (simp add: check_inv_def pdr_inv_def)
  then show ?thesis by (simp add: run)
qed

lemma pdr_run_runs:
  assumes so: "sound_oracle (sat_solver E)" and ps: "pdr_system sys" and ready: "pdr_ready sys eng"
  shows "runs (pdr_run E sys eng) (check_result sys)"
proof -
  obtain st where st: "pdr_initialize (debug_build E) sys eng = Some st" "check_inv sys st"
    using initialize_runs [OF ps ready, of "debug_build E"] by (auto simp: runs_iff)
  obtain res st' where "pdr_check E sys st = Some (res, st')" "check_result sys res"
    using pdr_check_runs [OF so st(2)] by (auto simp: runs_iff)
  then show ?thesis using st(1) by (simp add: pdr_run_def)
qed

lemma pdr_run_unsafe:
  assumes "sound_oracle (sat_solver E)" and "pdr_system sys" and "pdr_ready sys eng" and "\<not> safe sys"
  shows "\<exists>cex. pdr_run E sys eng = Some (Cex cex) \<and> cex_ok sys cex"
proof -
  obtain r where "pdr_run E sys eng = Some r" "check_result sys r"
    using pdr_run_runs [OF assms(1-3)] by (auto simp: runs_iff)
  then show ?thesis using assms(4) by (cases r) (auto simp: check_result_def)
qed

end
