(* ===== verification/ReferenceSolver.thy ===== *)
theory ReferenceSolver
  imports Solver
begin

text \<open>
  A SAT solver for the oracle parameter of the engines: backtracking over the variables that occur,
  with cores shrunk literal by literal. It shows that the contract \<open>sound_oracle\<close> can be met and
  lets the engines run on concrete systems. It models no code of the repository.
\<close>

definition assign_clauses :: "variable \<Rightarrow> bool \<Rightarrow> literal list list \<Rightarrow> literal list list" where
  "assign_clauses v b cs =
     map (filter (\<lambda>l. lit_var l \<noteq> v))
       (filter (\<lambda>c. \<not> list_ex (\<lambda>l. lit_var l = v \<and> lit_sign l = b) c) cs)"

fun search :: "variable list \<Rightarrow> literal list list \<Rightarrow> variable list option" where
  "search [] cs = (if cs = [] then Some [] else None)"
| "search (v # vs) cs =
     (if list_ex (\<lambda>c. c = []) cs then None
      else case search vs (assign_clauses v False cs) of
             Some m \<Rightarrow> Some m
           | None \<Rightarrow> map_option (Cons v) (search vs (assign_clauses v True cs)))"

definition clause_vars :: "literal list list \<Rightarrow> variable list" where
  "clause_vars cs = remdups (map lit_var (concat cs))"

definition ref_solve :: "literal list list \<Rightarrow> variable list option" where
  "ref_solve cs = search (clause_vars cs) cs"

definition units :: "literal list \<Rightarrow> literal list list" where
  "units ls = map (\<lambda>l. [l]) ls"

fun shrink_core :: "literal list list \<Rightarrow> literal list \<Rightarrow> literal list \<Rightarrow> literal list" where
  "shrink_core base kept [] = kept"
| "shrink_core base kept (l # ls) =
     (if ref_solve (base @ units (kept @ ls)) = None then shrink_core base kept ls
      else shrink_core base (kept @ [l]) ls)"

definition ref_oracle :: sat_oracle where
  "ref_oracle n f as c =
     (let base = clauses_of f @ clauses_of c
      in case ref_solve (base @ units as) of
           Some m \<Rightarrow> Sat (\<lambda>v. v \<in> set m)
         | None \<Rightarrow> let core = shrink_core base [] as in Unsat (\<lambda>l. l \<in> set core))"

definition all_true :: "assignment \<Rightarrow> literal list list \<Rightarrow> bool" where
  "all_true \<sigma> cs \<longleftrightarrow> (\<forall>c \<in> set cs. clause_true \<sigma> c)"

lemma all_true_append [simp]: "all_true \<sigma> (cs @ ds) \<longleftrightarrow> all_true \<sigma> cs \<and> all_true \<sigma> ds"
  by (auto simp: all_true_def)

lemma all_true_units [simp]: "all_true \<sigma> (units ls) \<longleftrightarrow> lits_true \<sigma> ls"
  by (auto simp: all_true_def units_def lits_true_def clause_true_def)

lemma all_true_stream: "all_true \<sigma> (clauses_of f) \<longleftrightarrow> stream_sat \<sigma> f"
  by (simp add: all_true_def stream_sat_def)

lemma clause_true_assign:
  assumes "\<not> (\<exists>l \<in> set c. lit_var l = v \<and> lit_sign l = \<sigma> v)"
  shows "clause_true \<sigma> (filter (\<lambda>l. lit_var l \<noteq> v) c) = clause_true \<sigma> c"
  using assms by (auto simp: clause_true_def lit_true_def)

lemma all_true_assign: "\<sigma> v = b \<Longrightarrow> all_true \<sigma> (assign_clauses v b cs) = all_true \<sigma> cs"
proof -
  assume b: "\<sigma> v = b"
  have sat: "clause_true \<sigma> c" if "\<exists>l \<in> set c. lit_var l = v \<and> lit_sign l = b" for c
    using that b by (auto simp: clause_true_def lit_true_def)
  have "all_true \<sigma> (assign_clauses v b cs) \<longleftrightarrow>
      (\<forall>c \<in> set cs. \<not> (\<exists>l \<in> set c. lit_var l = v \<and> lit_sign l = b) \<longrightarrow>
         clause_true \<sigma> (filter (\<lambda>l. lit_var l \<noteq> v) c))"
    by (auto simp: all_true_def assign_clauses_def list_ex_iff)
  also have "\<dots> \<longleftrightarrow> (\<forall>c \<in> set cs. clause_true \<sigma> c)"
    using sat clause_true_assign [of _ v \<sigma>] b by blast
  finally show ?thesis by (simp add: all_true_def)
qed

lemma clause_true_cong:
  "(\<And>l. l \<in> set c \<Longrightarrow> \<sigma> (lit_var l) = \<tau> (lit_var l)) \<Longrightarrow> clause_true \<sigma> c = clause_true \<tau> c"
  by (auto simp: clause_true_def lit_true_def)

lemma search_sound:
  "search vs cs = Some m \<Longrightarrow> distinct vs \<Longrightarrow>
   set m \<subseteq> set vs \<and> all_true (\<lambda>v. v \<in> set m) cs"
proof (induction vs cs arbitrary: m rule: search.induct)
  case (1 cs)
  then show ?case by (auto simp: all_true_def split: if_splits)
next
  case (2 v vs cs)
  from "2.prems" have ne: "\<not> list_ex (\<lambda>c. c = []) cs" by (auto split: if_splits)
  show ?case
  proof (cases "search vs (assign_clauses v False cs)")
    case (Some k)
    with "2.prems"(1) ne have "m = k" by simp
    with "2.IH"(1) [OF ne Some] "2.prems"(2)
    show ?thesis using all_true_assign [of "\<lambda>x. x \<in> set m" v False cs] by auto
  next
    case None
    with "2.prems"(1) ne obtain k where k: "search vs (assign_clauses v True cs) = Some k" "m = v # k"
      by auto
    from "2.IH"(2) [OF ne None k(1)] "2.prems"(2)
    have *: "set k \<subseteq> set vs" "all_true (\<lambda>x. x \<in> set k) (assign_clauses v True cs)" by auto
    have "all_true (\<lambda>x. x \<in> set m) (assign_clauses v True cs)"
    proof -
      have "clause_true (\<lambda>x. x \<in> set m) c" if "c \<in> set (assign_clauses v True cs)" for c
      proof -
        have "clause_true (\<lambda>x. x \<in> set k) c" using *(2) that by (simp add: all_true_def)
        moreover have "lit_var l \<noteq> v" if "l \<in> set c" for l
          using that \<open>c \<in> set (assign_clauses v True cs)\<close> by (auto simp: assign_clauses_def)
        ultimately show ?thesis using k(2) clause_true_cong [of c "\<lambda>x. x \<in> set m" "\<lambda>x. x \<in> set k"] by auto
      qed
      then show ?thesis by (simp add: all_true_def)
    qed
    then show ?thesis using *(1) k(2) all_true_assign [of "\<lambda>x. x \<in> set m" v True cs] by auto
  qed
qed

lemma vars_assign:
  "(\<forall>c \<in> set cs. lit_var ` set c \<subseteq> insert v V) \<Longrightarrow>
   \<forall>c \<in> set (assign_clauses v b cs). lit_var ` set c \<subseteq> V"
  by (auto simp: assign_clauses_def)

lemma search_complete:
  "search vs cs = None \<Longrightarrow> (\<forall>c \<in> set cs. lit_var ` set c \<subseteq> set vs) \<Longrightarrow> \<not> all_true \<sigma> cs"
proof (induction vs cs rule: search.induct)
  case (1 cs)
  then obtain c where "c \<in> set cs" "c = []" by (cases cs) (auto split: if_splits)
  then show ?case by (force simp: all_true_def clause_true_def)
next
  case (2 v vs cs)
  show ?case
  proof (cases "list_ex (\<lambda>c. c = []) cs")
    case True
    then have "[] \<in> set cs" by (auto simp: list_ex_iff)
    then show ?thesis by (force simp: all_true_def clause_true_def)
  next
    case False
    with "2.prems"(1) have n: "search vs (assign_clauses v False cs) = None"
      "search vs (assign_clauses v True cs) = None"
      by (auto split: option.splits)
    have v: "\<forall>c \<in> set (assign_clauses v b cs). lit_var ` set c \<subseteq> set vs" for b
      by (rule vars_assign) (use "2.prems"(2) in auto)
    show ?thesis
    proof (cases "\<sigma> v")
      case True
      then show ?thesis
        using "2.IH"(2) [OF False n(1) n(2) v] all_true_assign [of \<sigma> v True cs] by simp
    next
      case no: False
      then show ?thesis
        using "2.IH"(1) [OF False n(1) v] all_true_assign [of \<sigma> v False cs] by simp
    qed
  qed
qed

lemma ref_solve_Some: "ref_solve cs = Some m \<Longrightarrow> all_true (\<lambda>v. v \<in> set m) cs"
  using search_sound [of "clause_vars cs" cs m] by (simp add: ref_solve_def clause_vars_def)

lemma ref_solve_None: "ref_solve cs = None \<Longrightarrow> \<not> all_true \<sigma> cs"
  unfolding ref_solve_def
  by (erule search_complete) (auto simp: clause_vars_def)

lemma shrink_core_sound:
  "(\<And>\<sigma>. \<not> all_true \<sigma> (base @ units (kept @ ls))) \<Longrightarrow>
   \<not> all_true \<sigma> (base @ units (shrink_core base kept ls)) \<and>
   set (shrink_core base kept ls) \<subseteq> set (kept @ ls)"
proof (induction base kept ls arbitrary: \<sigma> rule: shrink_core.induct)
  case (1 base kept)
  then show ?case by simp
next
  case (2 base kept l ls)
  show ?case
  proof (cases "ref_solve (base @ units (kept @ ls)) = None")
    case True
    then show ?thesis using "2.IH"(1) [OF True ref_solve_None [OF True]] by auto
  next
    case False
    then show ?thesis using "2.IH"(2) [OF False] "2.prems" by auto
  qed
qed

theorem ref_oracle_sound: "sound_oracle ref_oracle"
  unfolding sound_oracle_def
proof (intro allI impI)
  fix n f as c
  define base where "base = clauses_of f @ clauses_of c"
  show "case ref_oracle n f as c of
      Sat m \<Rightarrow> stream_sat m f \<and> lits_true m as \<and> stream_sat m c
    | Unsat core \<Rightarrow> (\<forall>l. core l \<longrightarrow> l \<in> set as) \<and>
        \<not> (\<exists>\<sigma>. stream_sat \<sigma> f \<and> lits_true \<sigma> (filter core as) \<and> stream_sat \<sigma> c)"
  proof (cases "ref_solve (base @ units as)")
    case (Some m)
    from ref_solve_Some [OF this] Some show ?thesis
      by (simp add: ref_oracle_def Let_def base_def [symmetric]) (simp add: base_def all_true_stream)
  next
    case None
    define core where "core = shrink_core base [] as"
    have c: "\<not> all_true \<sigma> (base @ units core)" "set core \<subseteq> set as" for \<sigma>
      using shrink_core_sound [of base "[]" as] ref_solve_None [OF None] by (auto simp: core_def)
    have "\<not> (stream_sat \<sigma> f \<and> lits_true \<sigma> (filter (\<lambda>l. l \<in> set core) as) \<and> stream_sat \<sigma> c)" for \<sigma>
    proof -
      have "lits_true \<sigma> (filter (\<lambda>l. l \<in> set core) as) \<longleftrightarrow> lits_true \<sigma> core"
        using c(2) by (auto simp: lits_true_def)
      then show ?thesis using c(1) [of \<sigma>] by (auto simp: base_def all_true_stream)
    qed
    then show ?thesis
      using None c(2) by (auto simp: ref_oracle_def Let_def base_def [symmetric] core_def [symmetric])
  qed
qed

end
