(* ===== verification/Examples.thy ===== *)
theory Examples
  imports ReferenceSolver Engine
begin

text \<open>
  Two small systems on which the general theorems are instantiated, with one input (variable 1),
  one state variable (2, next 3) and no auxiliary variables. Both start with the variable false
  and call it an error to be true. \<open>hold_system\<close> keeps the variable, so it is safe;
  \<open>load_system\<close> loads the input into it, so it is not.
\<close>

definition hold_system :: transition_system where
  "hold_system = \<lparr>
     input_vars = \<lparr>vr_begin = 1, vr_end = 2\<rparr>, state_vars = \<lparr>vr_begin = 2, vr_end = 3\<rparr>,
     next_state_vars = \<lparr>vr_begin = 3, vr_end = 4\<rparr>, aux_vars = \<lparr>vr_begin = 4, vr_end = 4\<rparr>,
     ts_init = Cnf [Literal (- 2), Literal 0],
     ts_trans = Cnf [Literal (- 3), Literal 2, Literal 0, Literal 3, Literal (- 2), Literal 0],
     ts_error = Cnf [Literal 2, Literal 0]\<rparr>"

definition load_system :: transition_system where
  "load_system = hold_system\<lparr>
     ts_trans := Cnf [Literal (- 3), Literal 1, Literal 0, Literal 3, Literal (- 1), Literal 0]\<rparr>"

definition example_store :: variable_store where
  "example_store = \<lparr>store_names = ['''', ''y'', ''x'', ''x1'']\<rparr>"

definition example_env :: environment where
  "example_env = \<lparr>sat_solver = ref_oracle, debug_build = True\<rparr>"

lemma example_oracle [simp]: "sound_oracle (sat_solver example_env)"
  by (simp add: example_env_def ref_oracle_sound)

lemma example_ranges [simp]:
  "input_vars hold_system = \<lparr>vr_begin = 1, vr_end = 2\<rparr>" "input_vars load_system = \<lparr>vr_begin = 1, vr_end = 2\<rparr>"
  "state_vars hold_system = \<lparr>vr_begin = 2, vr_end = 3\<rparr>" "state_vars load_system = \<lparr>vr_begin = 2, vr_end = 3\<rparr>"
  "next_state_vars hold_system = \<lparr>vr_begin = 3, vr_end = 4\<rparr>"
  "next_state_vars load_system = \<lparr>vr_begin = 3, vr_end = 4\<rparr>"
  "aux_vars hold_system = \<lparr>vr_begin = 4, vr_end = 4\<rparr>" "aux_vars load_system = \<lparr>vr_begin = 4, vr_end = 4\<rparr>"
  by (simp_all add: load_system_def hold_system_def)

lemma example_reads [simp]:
  "read \<lparr>vr_begin = 1, vr_end = 2\<rparr> \<sigma> = [\<sigma> (Variable 1)]"
  "read \<lparr>vr_begin = 2, vr_end = 3\<rparr> \<sigma> = [\<sigma> (Variable 2)]"
  "read \<lparr>vr_begin = 3, vr_end = 4\<rparr> \<sigma> = [\<sigma> (Variable 3)]"
  by (simp_all add: read_def vr_vars_def)

lemma example_formulas:
  "cnf_sat \<sigma> (ts_init hold_system) \<longleftrightarrow> \<not> \<sigma> (Variable 2)"
  "cnf_sat \<sigma> (ts_init load_system) \<longleftrightarrow> \<not> \<sigma> (Variable 2)"
  "cnf_sat \<sigma> (ts_trans hold_system) \<longleftrightarrow> \<sigma> (Variable 3) = \<sigma> (Variable 2)"
  "cnf_sat \<sigma> (ts_trans load_system) \<longleftrightarrow> \<sigma> (Variable 3) = \<sigma> (Variable 1)"
  "cnf_sat \<sigma> (ts_error hold_system) \<longleftrightarrow> \<sigma> (Variable 2)"
  "cnf_sat \<sigma> (ts_error load_system) \<longleftrightarrow> \<sigma> (Variable 2)"
  by (auto simp: load_system_def hold_system_def cnf_sat_def stream_sat_def clauses_of_def separator_def
      clause_true_def lit_true_def lit_sign_def lit_var_def)

lemma example_init:
  "init_state hold_system s \<longleftrightarrow> s = [False]" "init_state load_system s \<longleftrightarrow> s = [False]"
  by (auto simp: init_state_def example_formulas intro!: exI [of _ "\<lambda>_. False"])

lemma example_error:
  "error_state hold_system s i \<longleftrightarrow> s = [True] \<and> length i = 1"
  "error_state load_system s i \<longleftrightarrow> s = [True] \<and> length i = 1"
proof -
  have "\<exists>\<sigma>. \<sigma> (Variable 2) \<and> [\<sigma> (Variable 1)] = i" if "length i = 1" for i :: "bool list"
    using that by (intro exI [of _ "\<lambda>v. if v = Variable 1 then i ! 0 else True"])
      (auto simp: length_Suc_conv)
  then show "error_state hold_system s i \<longleftrightarrow> s = [True] \<and> length i = 1"
    "error_state load_system s i \<longleftrightarrow> s = [True] \<and> length i = 1"
    by (auto simp: error_state_def example_formulas)
qed

lemma example_step:
  "trans_step hold_system s i t \<longleftrightarrow> length s = 1 \<and> length i = 1 \<and> t = s"
  "trans_step load_system s i t \<longleftrightarrow> length s = 1 \<and> length i = 1 \<and> t = i"
proof -
  have e: "\<exists>\<sigma>. [\<sigma> (Variable 2)] = s \<and> [\<sigma> (Variable 1)] = i \<and> [\<sigma> (Variable 3)] = t"
    if "length s = 1" "length i = 1" "length t = 1" for s i t :: "bool list"
    using that
    by (intro exI [of _ "\<lambda>v. if v = Variable 2 then s ! 0 else if v = Variable 1 then i ! 0 else t ! 0"])
      (auto simp: length_Suc_conv)
  show "trans_step hold_system s i t \<longleftrightarrow> length s = 1 \<and> length i = 1 \<and> t = s"
  proof
    assume l: "length s = 1 \<and> length i = 1 \<and> t = s"
    then obtain \<sigma> where "[\<sigma> (Variable 2)] = s \<and> [\<sigma> (Variable 1)] = i \<and> [\<sigma> (Variable 3)] = t"
      using e [of s i t] by auto
    with l show "trans_step hold_system s i t"
      by (auto simp: trans_step_def example_formulas intro!: exI [of _ \<sigma>])
  qed (auto simp: trans_step_def example_formulas)
  show "trans_step load_system s i t \<longleftrightarrow> length s = 1 \<and> length i = 1 \<and> t = i"
  proof
    assume l: "length s = 1 \<and> length i = 1 \<and> t = i"
    then obtain \<sigma> where "[\<sigma> (Variable 2)] = s \<and> [\<sigma> (Variable 1)] = i \<and> [\<sigma> (Variable 3)] = t"
      using e [of s i t] by auto
    with l show "trans_step load_system s i t"
      by (auto simp: trans_step_def example_formulas intro!: exI [of _ \<sigma>])
  qed (auto simp: trans_step_def example_formulas)
qed

lemma example_well_formed [simp]: "well_formed_system hold_system" "well_formed_system load_system"
  by (simp_all add: well_formed_system_def range_ok_def ranges_apart_def vr_size_def formula_over_def
      hold_system_def load_system_def well_formed_cnf_def terminated_def separator_def vr_contains_def
      lit_var_def)

lemma example_init_cube [simp]: "init_is_cube hold_system" "init_is_cube load_system"
  by (simp_all add: init_is_cube_def hold_system_def load_system_def separator_def)

lemma example_sizes [simp]:
  "num_state_vars hold_system = 1" "num_state_vars load_system = 1"
  "num_input_vars hold_system = 1" "num_input_vars load_system = 1"
  by (simp_all add: num_state_vars_def num_input_vars_def vr_size_def)

lemma example_functional [simp]: "functional_system hold_system" "functional_system load_system"
  by (auto simp: functional_system_def example_step)

lemma hold_reachable: "reachable hold_system s \<Longrightarrow> s = [False]"
  by (induction rule: reachable.induct) (auto simp: example_init example_step)

lemma hold_safe: "safe hold_system"
  unfolding safe_reachable by (auto simp: example_error dest: hold_reachable)

lemma load_unsafe: "\<not> safe load_system"
proof -
  have "reachable load_system [True]"
    by (rule reachable.step [OF reachable.start, of _ "[False]" "[True]"])
      (simp_all add: example_init example_step)
  moreover have "error_state load_system [True] [True]" by (simp add: example_error)
  ultimately show ?thesis unfolding safe_reachable by blast
qed

end
