(* ===== verification/PdrProperties.thy ===== *)
theory PdrProperties
  imports PdrCorrect Examples
begin

text \<open>
  What the PDR engine guarantees, operation by operation and for a whole run, each with an
  instance on the example systems. \<open>hold_pdr\<close> is the engine on \<open>hold_system\<close> after \<open>initialize\<close>
  and one \<open>push_frame\<close>, \<open>load_pdr\<close> the same on \<open>load_system\<close>.
\<close>

section \<open>Example states\<close>

definition start_pdr :: "transition_system \<Rightarrow> pdr" where
  "start_pdr sys = the (pdr_initialize True sys (pdr_new example_store))"

definition hold_pdr :: pdr where
  "hold_pdr = the (pdr_push_frame True (start_pdr hold_system))"

definition load_pdr :: pdr where
  "load_pdr = the (pdr_push_frame True (start_pdr load_system))"

lemma example_pdr_system [simp]: "pdr_system hold_system" "pdr_system load_system"
  by (simp_all add: pdr_system_def)

lemma example_store_ok [simp]: "store_ok hold_system example_store" "store_ok load_system example_store"
  by (auto simp: store_ok_def example_store_def fresh_from_def system_var_def get_next_id_def vr_contains_def)

lemma example_ready [simp]:
  "pdr_ready hold_system (pdr_new example_store)" "pdr_ready load_system (pdr_new example_store)"
  by (simp_all add: pdr_ready_after)

lemma start_pdr_inv:
  "pdr_inv hold_system (start_pdr hold_system)" "pool_ok hold_system (ctis (start_pdr hold_system))"
  "pdr_inv load_system (start_pdr load_system)" "pool_ok load_system (ctis (start_pdr load_system))"
  using initialize_runs [OF example_pdr_system(1) example_ready(1), of True]
    initialize_runs [OF example_pdr_system(2) example_ready(2), of True]
  by (auto simp: runs_iff start_pdr_def check_inv_def)

lemma start_pdr_trace:
  "pdr_system sys \<Longrightarrow> trace_blocked_cubes (start_pdr sys) = [[]] \<and> depth (start_pdr sys) = 0"
  by (simp add: start_pdr_def pdr_initialize_def pdr_push_frame_def store_make_def Let_def pdr_new_def
      pdr_system_def init_is_cube_def formula_as_cube_unit depth_def)

lemma start_pdr_frame:
  "pdr_system sys \<Longrightarrow> pdr_frame sys (start_pdr sys) 0 = {s. init_state sys s}"
  using start_pdr_trace [of sys] init_state_length [of sys] by (auto simp: pdr_frame_def)

lemma one_bit_states [simp]: "all_states hold_system = {[False], [True]}" "all_states load_system = {[False], [True]}"
  by (auto simp: all_states_def length_Suc_conv)

lemma pushed_start:
  assumes "pdr_system sys" and inv: "pdr_inv sys (start_pdr sys)" "pool_ok sys (ctis (start_pdr sys))"
    and safe: "\<forall>s i. init_state sys s \<longrightarrow> \<not> error_state sys s i"
  defines "st \<equiv> the (pdr_push_frame True (start_pdr sys))"
  shows "pdr_inv sys st" and "pool_ok sys (ctis st)" and "depth st = 1"
    and "pdr_frame sys st 0 = {s. init_state sys s}" and "pdr_frame sys st (Suc 0) = all_states sys"
    and "trace_blocked_cubes st = [[], []]"
proof -
  note t = start_pdr_trace [OF assms(1)] start_pdr_frame [OF assms(1)]
  have s: "\<forall>s \<in> pdr_frame sys (start_pdr sys) (depth (start_pdr sys)). \<forall>i. \<not> error_state sys s i"
    using t safe by simp
  obtain st' where st': "pdr_push_frame True (start_pdr sys) = Some st'" "pdr_inv sys st'"
    "ctis st' = ctis (start_pdr sys)" "depth st' = Suc (depth (start_pdr sys))"
    "trace_blocked_cubes st' = trace_blocked_cubes (start_pdr sys) @ [[]]"
    "\<forall>j \<le> depth (start_pdr sys). pdr_frame sys st' j = pdr_frame sys (start_pdr sys) j"
    "pdr_frame sys st' (Suc (depth (start_pdr sys))) = all_states sys"
    using push_frame_runs [OF inv(1) s, of True] unfolding runs_iff by blast
  have "st = st'" by (simp add: st_def st'(1))
  then show "pdr_inv sys st" "pool_ok sys (ctis st)" "depth st = 1"
    "pdr_frame sys st 0 = {s. init_state sys s}" "pdr_frame sys st (Suc 0) = all_states sys"
    "trace_blocked_cubes st = [[], []]"
    using st' t inv(2) by auto
qed

lemma example_pdr:
  "pdr_inv hold_system hold_pdr" "pool_ok hold_system (ctis hold_pdr)" "depth hold_pdr = 1"
  "pdr_frame hold_system hold_pdr 0 = {[False]}" "pdr_frame hold_system hold_pdr (Suc 0) = {[False], [True]}"
  "trace_blocked_cubes hold_pdr = [[], []]"
  "pdr_inv load_system load_pdr" "pool_ok load_system (ctis load_pdr)" "depth load_pdr = 1"
  "pdr_frame load_system load_pdr 0 = {[False]}" "pdr_frame load_system load_pdr (Suc 0) = {[False], [True]}"
  "trace_blocked_cubes load_pdr = [[], []]"
  using pushed_start [OF example_pdr_system(1) start_pdr_inv(1,2)]
    pushed_start [OF example_pdr_system(2) start_pdr_inv(3,4)]
  by (simp_all add: example_init example_error hold_pdr_def load_pdr_def)

text \<open>The cube that says the state variable is true.\<close>

lemma x_cube [simp]:
  "lits_hold \<lparr>vr_begin = 2, vr_end = 3\<rparr> [b] [Literal 2] \<longleftrightarrow> b"
  "Literal 2 \<noteq> separator" "vr_contains \<lparr>vr_begin = 2, vr_end = 3\<rparr> (lit_var (Literal 2))"
  by (simp_all add: lits_hold_def lit_holds_def lit_sign_def vr_offset_def lit_var_def separator_def
      vr_contains_def)

text \<open>The engines after \<open>get_error_cti\<close> has found the error state of frame 1.\<close>

definition cti_of :: "transition_system \<Rightarrow> pdr \<Rightarrow> cti_handle" where
  "cti_of sys st = the (fst (the (get_error_cti example_env sys st)))"

definition with_cti :: "transition_system \<Rightarrow> pdr \<Rightarrow> pdr" where
  "with_cti sys st = snd (the (get_error_cti example_env sys st))"

lemma with_cti_ok:
  assumes inv: "pdr_inv sys st" and pool: "pool_ok sys (ctis st)"
    and e: "s \<in> pdr_frame sys st (depth st)" "error_state sys s i"
  shows "pdr_inv sys (with_cti sys st)" and "pool_ok sys (ctis (with_cti sys st))"
    and "pool_live (ctis (with_cti sys st)) (cti_of sys st)"
    and "pdr_frame sys (with_cti sys st) = pdr_frame sys st" and "depth (with_cti sys st) = depth st"
    and "\<exists>s \<in> pdr_frame sys st (depth st). holds_in sys s (cube_at (with_cti sys st) (cti_of sys st))"
    and "\<forall>s \<in> all_states sys. holds_in sys s (cube_at (with_cti sys st) (cti_of sys st)) \<longrightarrow>
      (\<exists>i. error_state sys s i)"
proof -
  obtain c st' where r: "get_error_cti example_env sys st = Some (c, st')" "error_cti_result sys st (c, st')"
    using get_error_cti_runs [OF inv example_oracle pool] by (auto simp: runs_iff)
  then obtain h where "c = Some h" using e by (cases c) (auto simp: error_cti_result_def)
  with r show "pdr_inv sys (with_cti sys st)" "pool_ok sys (ctis (with_cti sys st))"
    "pool_live (ctis (with_cti sys st)) (cti_of sys st)"
    "pdr_frame sys (with_cti sys st) = pdr_frame sys st" "depth (with_cti sys st) = depth st"
    "\<exists>s \<in> pdr_frame sys st (depth st). holds_in sys s (cube_at (with_cti sys st) (cti_of sys st))"
    "\<forall>s \<in> all_states sys. holds_in sys s (cube_at (with_cti sys st) (cti_of sys st)) \<longrightarrow>
      (\<exists>i. error_state sys s i)"
    by (simp_all add: error_cti_result_def with_cti_def cti_of_def query_step_same)
qed

abbreviation hold_cti :: pdr where "hold_cti \<equiv> with_cti hold_system hold_pdr"
abbreviation load_cti :: pdr where "load_cti \<equiv> with_cti load_system load_pdr"
abbreviation hold_handle :: cti_handle where "hold_handle \<equiv> cti_of hold_system hold_pdr"
abbreviation load_handle :: cti_handle where "load_handle \<equiv> cti_of load_system load_pdr"

lemma error_inputs [simp]: "error_state hold_system [True] [True]" "error_state load_system [True] [True]"
  by (simp_all add: example_error)

lemma example_cti:
  "pdr_inv hold_system hold_cti" "pool_ok hold_system (ctis hold_cti)" "pool_live (ctis hold_cti) hold_handle"
  "pdr_frame hold_system hold_cti = pdr_frame hold_system hold_pdr" "depth hold_cti = 1"
  "pdr_inv load_system load_cti" "pool_ok load_system (ctis load_cti)" "pool_live (ctis load_cti) load_handle"
  "pdr_frame load_system load_cti = pdr_frame load_system load_pdr" "depth load_cti = 1"
  using with_cti_ok [OF example_pdr(1,2) _ error_inputs(1)] with_cti_ok [OF example_pdr(7,8) _ error_inputs(2)]
  by (simp_all add: example_pdr)

lemma example_cti_cube:
  "lits_hold \<lparr>vr_begin = 2, vr_end = 3\<rparr> [b] (cube_at hold_cti hold_handle) = b"
  "lits_hold \<lparr>vr_begin = 2, vr_end = 3\<rparr> [b] (cube_at load_cti load_handle) = b"
  using with_cti_ok(6,7) [OF example_pdr(1,2) _ error_inputs(1)]
    with_cti_ok(6,7) [OF example_pdr(7,8) _ error_inputs(2)]
  by (cases b; simp add: example_pdr example_error)+

section \<open>A whole run\<close>

text \<open>C2. PDR decides safety. On a well-formed functional system whose initial formula is a cube, with
  a new engine object whose activators and next variables are not the system's, and any sound
  solver, \<open>run\<close> returns, in a debug build too; its result is \<open>ok\<close> exactly when no error is reachable, and otherwise a counterexample whose
  inputs lead from an initial state (and from the reported state) into an error.\<close>

theorem pdr_decides_safety:
  assumes "sound_oracle (sat_solver E)" and "pdr_system sys" and "pdr_ready sys eng"
  shows "\<exists>r. pdr_run E sys eng = Some r \<and> (r = Ok \<longleftrightarrow> safe sys) \<and>
    (r \<noteq> Ok \<longrightarrow> (\<exists>cex. r = Cex cex \<and> cex_inputs_valid sys cex))"
proof -
  obtain r where r: "pdr_run E sys eng = Some r" "check_result sys r"
    using pdr_run_runs [OF assms] by (auto simp: runs_iff)
  then have "(r = Ok \<longleftrightarrow> safe sys) \<and> (r \<noteq> Ok \<longrightarrow> (\<exists>cex. r = Cex cex \<and> cex_inputs_valid sys cex))"
    by (cases r) (auto simp: check_result_def cex_ok_def dest: cex_inputs_unsafe)
  with r(1) show ?thesis by blast
qed

theorem pdr_decides_safety_witness:
  "pdr_run example_env hold_system (pdr_new example_store) = Some Ok \<and>
   (\<exists>cex. pdr_run example_env load_system (pdr_new example_store) = Some (Cex cex) \<and>
      cex_inputs_valid load_system cex)"
  using pdr_decides_safety [OF example_oracle example_pdr_system(1) example_ready(1)] hold_safe
    pdr_decides_safety [OF example_oracle example_pdr_system(2) example_ready(2)] load_unsafe
  by auto

text \<open>C27. When every initial literal is negative, as for AIGER files without reset values, the counterexample
  of PDR is genuine: its state is initial and its inputs lead from it into an error.\<close>

theorem pdr_counterexample_replays:
  assumes "sound_oracle (sat_solver E)" and "pdr_system sys" and "pdr_ready sys eng"
    and "init_all_false sys" and "pdr_run E sys eng = Some (Cex cex)"
  shows "cex_valid sys cex"
  using pdr_run_runs [OF assms(1-3)] assms(4,5) by (simp add: check_result_def cex_ok_def)

theorem pdr_counterexample_replays_witness:
  "\<exists>cex. pdr_run example_env load_system (pdr_new example_store) = Some (Cex cex) \<and> cex_valid load_system cex"
proof -
  obtain cex where "pdr_run example_env load_system (pdr_new example_store) = Some (Cex cex)"
    using pdr_run_unsafe [OF example_oracle example_pdr_system(2) example_ready(2) load_unsafe] by blast
  moreover have "init_all_false load_system"
    by (simp add: init_all_false_def init_lits_def load_system_def hold_system_def separator_def lit_sign_def)
  ultimately show ?thesis
    using pdr_counterexample_replays [OF example_oracle example_pdr_system(2) example_ready(2)] by blast
qed

section \<open>Queries\<close>

text \<open>C21. \<open>is_relative_inductive\<close> decides relative induction: it returns true exactly when no state of
  frame \<open>i - 1\<close> outside the cube has a successor inside it, and leaves trace and invariant alone.\<close>

theorem relative_induction_query:
  assumes "pdr_inv sys st" and "sound_oracle (sat_solver E)" and "1 \<le> i" and "i \<le> depth st + 1"
    and "lits_over (state_vars sys) s"
  shows "\<exists>st'. is_relative_inductive E sys st s i = Some (rel_inductive sys st s (i - 1), st') \<and>
    pdr_inv sys st' \<and> trace_blocked_cubes st' = trace_blocked_cubes st \<and> ctis st' = ctis st"
proof -
  obtain b st' where q: "is_relative_inductive E sys st s i = Some (b, st')"
    "rel_ind_result sys st s i (b, st')"
    using is_relative_inductive_runs [OF assms] by (auto simp: runs_iff)
  then show ?thesis
    using rel_ind_result_iff [OF q(2) assms(3,4)]
    by (auto simp: rel_ind_result_def solver_step_same)
qed

theorem relative_induction_query_witness:
  "(\<exists>st'. is_relative_inductive example_env hold_system hold_pdr [Literal 2] 1 = Some (True, st')) \<and>
   (\<exists>st'. is_relative_inductive example_env load_system load_pdr [Literal 2] 1 = Some (False, st'))"
proof -
  have "rel_inductive hold_system hold_pdr [Literal 2] 0"
    by (auto simp: rel_inductive_def example_pdr example_step)
  moreover have "\<not> rel_inductive load_system load_pdr [Literal 2] 0"
    unfolding rel_inductive_def
    by (auto simp: example_pdr example_step intro!: exI [of _ "[True]"])
  ultimately show ?thesis
    using relative_induction_query [OF example_pdr(1) example_oracle, of 1 "[Literal 2]"]
      relative_induction_query [OF example_pdr(7) example_oracle, of 1 "[Literal 2]"]
    by (auto simp: example_pdr)
qed

text \<open>\<open>is_already_blocked\<close>, by subsumption or by a query, returns true exactly when no state of the
  obligation's frame is in its cube.\<close>

lemma already_blocked_query:
  assumes "pdr_inv sys st" and "sound_oracle (sat_solver E)" and "pool_ok sys (ctis st)"
    and "pool_live (ctis st) h" and "1 \<le> l" and "l \<le> depth st"
  shows "\<exists>st'. is_already_blocked E sys st (Obligation l h) =
    Some (\<forall>s \<in> pdr_frame sys st l. \<not> holds_in sys s (cube_at st h), st') \<and> pdr_inv sys st'"
  using is_already_blocked_runs [OF assms(1-6)]
  by (auto simp: runs_iff blocked_result_def frame_free_def)

lemma already_blocked_query_witness:
  "\<exists>st'. is_already_blocked example_env hold_system hold_cti (Obligation 1 hold_handle) = Some (False, st')"
  using already_blocked_query [OF example_cti(1) example_oracle example_cti(2,3), of 1]
  by (simp add: example_cti example_pdr example_cti_cube) blast

text \<open>C35. \<open>get_error_cti\<close> finds an error state of the last frame when there is one: the cube it returns
  meets that frame and consists of error states; it returns nothing exactly when the frame is free
  of errors.\<close>

theorem error_query:
  assumes "pdr_inv sys st" and "sound_oracle (sat_solver E)" and "pool_ok sys (ctis st)"
  shows "\<exists>c st'. get_error_cti E sys st = Some (c, st') \<and> pdr_inv sys st' \<and> pool_ok sys (ctis st') \<and>
    (case c of
       None \<Rightarrow> \<forall>s \<in> pdr_frame sys st (depth st). \<forall>i. \<not> error_state sys s i
     | Some h \<Rightarrow> pool_live (ctis st') h \<and>
         (\<exists>s \<in> pdr_frame sys st (depth st). holds_in sys s (cube_at st' h)) \<and>
         (\<forall>s \<in> all_states sys. holds_in sys s (cube_at st' h) \<longrightarrow> (\<exists>i. error_state sys s i)))"
proof -
  obtain c st' where "get_error_cti E sys st = Some (c, st')" "error_cti_result sys st (c, st')"
    using get_error_cti_runs [OF assms] by (auto simp: runs_iff)
  then show ?thesis by (cases c) (simp_all add: error_cti_result_def)
qed

theorem error_query_witness:
  "(\<exists>st'. get_error_cti example_env hold_system (start_pdr hold_system) = Some (None, st')) \<and>
   (\<exists>h st'. get_error_cti example_env hold_system hold_pdr = Some (Some h, st'))"
proof -
  obtain c st' where c: "get_error_cti example_env hold_system (start_pdr hold_system) = Some (c, st')"
    "case c of
       None \<Rightarrow> True
     | Some h \<Rightarrow> (\<exists>s \<in> {[False]}. holds_in hold_system s (cube_at st' h)) \<and>
         (\<forall>s \<in> all_states hold_system. holds_in hold_system s (cube_at st' h) \<longrightarrow>
            (\<exists>i. error_state hold_system s i))"
    using error_query [OF start_pdr_inv(1) example_oracle start_pdr_inv(2)]
    by (auto simp: start_pdr_trace start_pdr_frame example_init split: option.splits)
  have "c = None" using c(2) by (cases c) (auto simp: example_error)
  moreover obtain c2 st2 where c2: "get_error_cti example_env hold_system hold_pdr = Some (c2, st2)"
    "c2 = None \<Longrightarrow> \<forall>s \<in> pdr_frame hold_system hold_pdr (depth hold_pdr). \<forall>i. \<not> error_state hold_system s i"
    using error_query [OF example_pdr(1) example_oracle example_pdr(2)] by (auto split: option.splits)
  have "c2 \<noteq> None"
  proof
    assume "c2 = None"
    then have "\<not> error_state hold_system [True] [True]" using c2(2) by (simp add: example_pdr)
    then show False by simp
  qed
  ultimately show ?thesis using c(1) c2(1) by auto
qed

text \<open>C22. After a query has found the cube of an obligation not relatively inductive, \<open>get_predecessor\<close>
  returns a cube with a state of the frame below, all of whose states step into the obligation's
  cube: lifting the model by the core of the second query loses no soundness.\<close>

theorem predecessor_lifting:
  assumes "pdr_inv sys st" and "sound_oracle (sat_solver E)" and "pool_ok sys (ctis st)"
    and "pool_live (ctis st) h" and "1 \<le> l" and "l \<le> depth st + 1"
    and "is_relative_inductive E sys st (cube_at st h) l = Some (False, st1)"
  shows "\<exists>h' st2. get_predecessor E sys st1 (Obligation l h) = Some (h', st2) \<and>
    pdr_inv sys st2 \<and> pool_ok sys (ctis st2) \<and>
    (\<exists>s \<in> pdr_frame sys st (l - 1). holds_in sys s (cube_at st2 h')) \<and>
    (\<forall>s \<in> all_states sys. holds_in sys s (cube_at st2 h') \<longrightarrow>
       (\<exists>i t. trans_step sys s i t \<and> holds_in sys t (cube_at st h)))"
proof -
  have "rel_ind_result sys st (cube_at st h) l (False, st1)"
    using is_relative_inductive_runs [OF assms(1,2,5,6) pool_entry_cube(2) [OF assms(3,4)]] assms(7)
    by simp
  then obtain m where m: "pdr_inv sys st1" "solver_step st st1" "status (pdr_solver st1) = Satisfied m"
    "pred_model sys st (cube_at st h) l m" by (auto simp: rel_ind_result_def)
  note same = solver_step_same [OF m(2)]
  have "pred_model sys st1 (cube_at st1 h) l m" using m(4) same by (simp add: pred_model_def)
  then show ?thesis
    using get_predecessor_runs [OF m(1) assms(2) _ _ m(3), of h l] assms(3,4) same
    by (auto simp: runs_iff pred_result_def frame_free_def)
qed

theorem predecessor_lifting_witness:
  "\<exists>st1 h' st2. is_relative_inductive example_env load_system load_cti (cube_at load_cti load_handle) 1 =
      Some (False, st1) \<and>
    get_predecessor example_env load_system st1 (Obligation 1 load_handle) = Some (h', st2) \<and>
    lits_hold \<lparr>vr_begin = 2, vr_end = 3\<rparr> [False] (cube_at st2 h')"
proof -
  note over = pool_entry_cube(2) [OF example_cti(7,8)]
  obtain b st1 where q: "is_relative_inductive example_env load_system load_cti (cube_at load_cti load_handle) 1 =
      Some (b, st1)" "rel_ind_result load_system load_cti (cube_at load_cti load_handle) 1 (b, st1)"
    using is_relative_inductive_runs [OF example_cti(6) example_oracle _ _ over, of 1]
    by (auto simp: runs_iff example_cti)
  have "\<not> rel_inductive load_system load_cti (cube_at load_cti load_handle) 0"
    by (auto simp: rel_inductive_def example_cti example_pdr example_step example_cti_cube
        intro!: exI [of _ "[True]"])
  then have "b = False" using rel_ind_result_iff [OF q(2)] by simp
  with q(1) have i: "is_relative_inductive example_env load_system load_cti (cube_at load_cti load_handle) 1 =
      Some (False, st1)" by simp
  from predecessor_lifting [OF example_cti(6) example_oracle example_cti(7,8) _ _ i]
  show ?thesis using i by (auto simp: example_cti example_pdr)
qed

text \<open>C11. After a query has found the cube of an obligation relatively inductive, \<open>generalize_inductive\<close>
  returns part of that cube, without initial states, and a level at least the obligation's at
  which the part is inductive relative to the frame below.\<close>

theorem generalization:
  assumes "pdr_inv sys st" and "sound_oracle (sat_solver E)" and "pool_ok sys (ctis st)"
    and "pool_live (ctis st) h" and "1 \<le> l" and "l \<le> depth st"
    and "is_relative_inductive E sys st (cube_at st h) l = Some (True, st1)"
    and "\<not> intersects_initial_states st (cube_at st h)"
  shows "\<exists>c i st2. generalize_inductive E sys st1 (Obligation l h) = Some ((c, i), st2) \<and>
    pdr_inv sys st2 \<and> l \<le> i \<and> i \<le> depth st + 1 \<and>
    set (cube_literals c) \<subseteq> set (cube_at st h) \<and>
    (\<forall>s. init_state sys s \<longrightarrow> \<not> holds_in sys s (cube_literals c)) \<and>
    rel_inductive sys st (cube_literals c) (i - 1)"
proof -
  have "rel_ind_result sys st (cube_at st h) l (True, st1)"
    using is_relative_inductive_runs [OF assms(1,2,5) _ pool_entry_cube(2) [OF assms(3,4)]] assms(6,7)
    by simp
  then obtain core where m: "pdr_inv sys st1" "solver_step st st1" "status (pdr_solver st1) = Unsatisfied core"
    "core_blocks sys st (cube_at st h) l core" by (auto simp: rel_ind_result_def)
  note same = solver_step_same [OF m(2)]
  have "core_blocks sys st1 (cube_at st1 h) l core"
    using m(4) same by (simp add: core_blocks_def rel_inductive_def)
  then show ?thesis
    using generalize_inductive_runs [OF m(1) assms(2) _ _ assms(5) _ m(3), of h] assms(3,4,6,8) same m(2)
    by (auto simp: runs_iff gen_result_def)
qed

theorem generalization_witness:
  "\<exists>st1 c i st2. generalize_inductive example_env hold_system st1 (Obligation 1 hold_handle) = Some ((c, i), st2) \<and>
    set (cube_literals c) \<subseteq> set (cube_at hold_cti hold_handle) \<and>
    \<not> lits_hold \<lparr>vr_begin = 2, vr_end = 3\<rparr> [False] (cube_literals c)"
proof -
  note cube = pool_entry_cube(2,3) [OF example_cti(2,3)]
  obtain b st1 where q: "is_relative_inductive example_env hold_system hold_cti (cube_at hold_cti hold_handle) 1 =
      Some (b, st1)" "rel_ind_result hold_system hold_cti (cube_at hold_cti hold_handle) 1 (b, st1)"
    using is_relative_inductive_runs [OF example_cti(1) example_oracle _ _ cube(1), of 1]
    by (auto simp: runs_iff example_cti)
  have "rel_inductive hold_system hold_cti (cube_at hold_cti hold_handle) 0"
    by (auto simp: rel_inductive_def example_cti example_pdr example_step example_cti_cube)
  then have "b = True" using rel_ind_result_iff [OF q(2)] by simp
  with q(1) have i: "is_relative_inductive example_env hold_system hold_cti (cube_at hold_cti hold_handle) 1 =
      Some (True, st1)" by simp
  have tr: "pdr_trace hold_system hold_cti" using example_cti(1) by (simp add: pdr_inv_def)
  have "\<not> intersects_initial_states hold_cti (cube_at hold_cti hold_handle)"
    using intersects_states [OF tr cube] by (simp add: example_init example_cti_cube)
  from generalization [OF example_cti(1) example_oracle example_cti(2,3) _ _ i this]
  show ?thesis by (auto simp: example_cti example_init)
qed

section \<open>The trace\<close>

text \<open>The syntactic test \<open>intersects_initial_states\<close> is exact: on a satisfiable cube over state variables
  it returns true just when some initial state is in the cube.\<close>

lemma intersection_test_exact:
  assumes "pdr_inv sys st" and "lits_over (state_vars sys) c" and "\<exists>s \<in> all_states sys. holds_in sys s c"
  shows "intersects_initial_states st c \<longleftrightarrow> (\<exists>s. init_state sys s \<and> holds_in sys s c)"
  using assms by (auto simp: pdr_inv_def intersects_states)

lemma intersection_test_exact_witness:
  "\<not> intersects_initial_states hold_pdr [Literal 2]"
  using intersection_test_exact [OF example_pdr(1), of "[Literal 2]"] by (simp add: example_init)

text \<open>C12. \<open>add_blocked_at\<close> removes exactly the states of the cube from the frames up to its level, although it
  deletes the cubes that the new one subsumes, and keeps the invariant: the trace still
  over-approximates reachability and the solver still holds what the trace says.\<close>

theorem blocking_cuts_frames:
  assumes "pdr_inv sys st" and "blocked_cube_ok sys c"
    and "1 \<le> a" and "a \<le> level" and "a \<le> depth st"
    and "rel_inductive sys st (cube_literals c) (min level (depth st) - 1)"
  shows "\<exists>st'. add_blocked_at d sys st c level a = Some st' \<and> pdr_inv sys st' \<and> depth st' = depth st \<and>
    (\<forall>j. pdr_frame sys st' j =
       (if j \<le> min level (depth st) then {s \<in> pdr_frame sys st j. \<not> holds_in sys s (cube_literals c)}
        else pdr_frame sys st j))"
  using add_blocked_at_runs [OF assms, of d]
  unfolding runs_iff block_result_def frames_cut_def by blast

theorem blocking_cuts_frames_witness:
  "\<exists>st'. add_blocked_at True hold_system hold_pdr (Cube [Literal 2]) 2 1 = Some st' \<and>
     pdr_frame hold_system st' 1 = {[False]}"
proof -
  have "blocked_cube_ok hold_system (Cube [Literal 2])"
    by (simp add: blocked_cube_ok_def cube_sorted_def example_init)
  moreover have "rel_inductive hold_system hold_pdr (cube_literals (Cube [Literal 2])) (min 2 (depth hold_pdr) - 1)"
    by (auto simp: rel_inductive_def example_pdr example_step)
  ultimately show ?thesis
    using blocking_cuts_frames [OF example_pdr(1), of "Cube [Literal 2]" 1 2 True]
    by (auto simp: example_pdr)
qed

text \<open>C10. \<open>propagate\<close> returns true only for safe systems; when it returns false, every frame from level 1 on
  is a proper subset of the next, so there are at most as many levels as states, plus one.\<close>

theorem propagation:
  assumes "pdr_inv sys st" and "sound_oracle (sat_solver E)" and "trace_blocked_cubes st ! depth st = []"
  shows "\<exists>b st'. propagate E sys st = Some (b, st') \<and> pdr_inv sys st' \<and> depth st' = depth st \<and>
    (if b then safe sys
     else (\<forall>i. 1 \<le> i \<longrightarrow> i < depth st \<longrightarrow> pdr_frame sys st' i \<subset> pdr_frame sys st' (Suc i)) \<and>
       depth st \<le> 2 ^ num_state_vars sys + 1)"
proof -
  obtain b st' where r: "propagate E sys st = Some (b, st')" "propagate_result sys st (b, st')"
    using propagate_runs [OF assms] by (auto simp: runs_iff)
  then show ?thesis
    using strict_depth [of sys st']
    by (intro exI [of _ b] exI [of _ st'], cases b) (simp_all add: propagate_result_def strict_frames_def)
qed

theorem propagation_witness:
  "\<exists>b st'. propagate example_env hold_system hold_pdr = Some (b, st') \<and> pdr_inv hold_system st'"
  using propagation [OF example_pdr(1) example_oracle] by (fastforce simp: example_pdr)

text \<open>C9. Blocking the cube of an error state at the last level either finds a counterexample or takes a
  state out of the last frame; the loop over obligations ends, and its assertion that no queued
  cube has an initial state never fails.\<close>

theorem obligation_loop:
  assumes "pdr_inv sys st" and "sound_oracle (sat_solver E)" and "pool_ok sys (ctis st)"
    and "pool_live (ctis st) h"
    and "s \<in> pdr_frame sys st (depth st)" and "holds_in sys s (cube_at st h)"
    and "\<forall>s \<in> all_states sys. holds_in sys s (cube_at st h) \<longrightarrow> (\<exists>i. error_state sys s i)"
  shows "\<exists>c st'. solve_obligation E sys st (Obligation (depth st) h) = Some (c, st') \<and>
    (case c of
       Some cex \<Rightarrow> cex_inputs_valid sys cex
     | None \<Rightarrow> pdr_inv sys st' \<and> depth st' = depth st \<and>
         pdr_frame sys st' (depth st) \<subset> pdr_frame sys st (depth st))"
proof -
  obtain c st' where "solve_obligation E sys st (Obligation (depth st) h) = Some (c, st')"
    "obligation_result sys st (c, st')"
    using solve_obligation_runs [OF assms] by (auto simp: runs_iff)
  then show ?thesis by (cases c) (auto simp: obligation_result_def cex_ok_def)
qed

theorem obligation_loop_witness:
  "\<exists>c st'. solve_obligation example_env hold_system hold_cti (Obligation 1 hold_handle) = Some (c, st')"
proof -
  have "Ex (error_state hold_system [True])" using error_inputs(1) by blast
  then show ?thesis
    using obligation_loop [OF example_cti(1) example_oracle example_cti(2,3), of "[True]"]
    by (simp add: example_cti example_pdr example_cti_cube) blast
qed



section \<open>The reported initial state\<close>

text \<open>
  A system with a reset value of 1: two state variables (2 and 3, next 4 and 5), initially true and
  false, always followed by false and true, the error being the second one. Lifting drops every
  literal of the predecessor, since all states have the same successor.
\<close>

definition reset_system :: transition_system where
  "reset_system = \<lparr>
     input_vars = \<lparr>vr_begin = 1, vr_end = 2\<rparr>, state_vars = \<lparr>vr_begin = 2, vr_end = 4\<rparr>,
     next_state_vars = \<lparr>vr_begin = 4, vr_end = 6\<rparr>, aux_vars = \<lparr>vr_begin = 6, vr_end = 6\<rparr>,
     ts_init = Cnf [Literal 2, Literal 0, Literal (- 3), Literal 0],
     ts_trans = Cnf [Literal (- 4), Literal 0, Literal 5, Literal 0],
     ts_error = Cnf [Literal 3, Literal 0]\<rparr>"

definition reset_pool :: cti_pool where
  "reset_pool = \<lparr>
     cti_entries =
       [\<lparr>cti_state_vars = Cube [Literal (- 2), Literal 3], cti_input_vars = Cube [Literal (- 1)],
         cti_successor = None\<rparr>,
        \<lparr>cti_state_vars = Cube [], cti_input_vars = Cube [Literal (- 1)], cti_successor = Some 0\<rparr>],
     num_entries = 2\<rparr>"

lemma reset_facts:
  "cnf_sat \<sigma> (ts_init reset_system) \<longleftrightarrow> \<sigma> (Variable 2) \<and> \<not> \<sigma> (Variable 3)"
  "cnf_sat \<sigma> (ts_trans reset_system) \<longleftrightarrow> \<not> \<sigma> (Variable 4) \<and> \<sigma> (Variable 5)"
  "cnf_sat \<sigma> (ts_error reset_system) \<longleftrightarrow> \<sigma> (Variable 3)"
  "read (input_vars reset_system) \<sigma> = [\<sigma> (Variable 1)]"
  "read (state_vars reset_system) \<sigma> = [\<sigma> (Variable 2), \<sigma> (Variable 3)]"
  "read (next_state_vars reset_system) \<sigma> = [\<sigma> (Variable 4), \<sigma> (Variable 5)]"
  by (auto simp: reset_system_def cnf_sat_def stream_sat_def clauses_of_def separator_def
      clause_true_def lit_true_def lit_sign_def lit_var_def read_def vr_vars_def upto.simps)

lemma reset_init: "init_state reset_system s \<longleftrightarrow> s = [True, False]"
  by (auto simp: init_state_def reset_facts intro!: exI [of _ "\<lambda>v. v = Variable 2"])

text \<open>C28. The initial state that \<open>build_counterexample\<close> reports need not be initial: on \<open>reset_system\<close>, in a
  state of the pool that satisfies its invariant and for an obligation at level 0 whose cube
  contains the initial state, the missing variables become false, although the first one is
  initially true.\<close>

theorem reported_state_not_initial:
  "pool_ok reset_system reset_pool \<and>
   obligation_ok reset_system ((pdr_new new_store)\<lparr>ctis := reset_pool\<rparr>) (Obligation 0 1) \<and>
   (\<exists>cex. build_counterexample True reset_system ((pdr_new new_store)\<lparr>ctis := reset_pool\<rparr>) 1 = Some cex \<and>
      initial_state cex = [Literal (- 2), Literal (- 3)] \<and>
      \<not> init_state reset_system (row_values (initial_state cex)))"
proof (intro conjI)
  have live: "pool_live reset_pool h \<longleftrightarrow> h = 0 \<or> h = 1" for h
    by (auto simp: pool_live_def reset_pool_def)
  have inv: "pool_inv reset_pool" by (simp add: pool_inv_def reset_pool_def)
  have states: "s \<in> all_states reset_system \<longleftrightarrow> (\<exists>a b. s = [a, b])" for s
    by (auto simp: all_states_def num_state_vars_def reset_system_def vr_size_def numeral_2_eq_2 length_Suc_conv)
  have hold: "holds_in reset_system [a, b] [Literal (- 2), Literal 3] \<longleftrightarrow> \<not> a \<and> b" for a b
    by (simp add: reset_system_def lits_hold_def lit_holds_def lit_sign_def vr_offset_def lit_var_def)
  have nil: "holds_in reset_system s []" for s by (simp add: lits_hold_def)
  have over: "lits_over (state_vars reset_system) [Literal (- 2), Literal 3]"
    by (simp add: reset_system_def separator_def vr_contains_def lit_var_def)
  have inp: "entry_input reset_system (entry_at reset_pool h) = [False]" if "h = 0 \<or> h = 1" for h
    using that by (auto simp: entry_input_def reset_pool_def row_values_def get_vars_def vr_vars_def
        reset_system_def upto.simps cube_find_def cube_contains_def lower_bound.simps literal_of_def
        lit_not_def cube_literal_lt_def lit_var_def lit_sign_def)
  have err: "error_state reset_system [False, True] [False]"
    by (auto simp: error_state_def reset_facts intro!: exI [of _ "\<lambda>v. v = Variable 3"])
  have step: "\<exists>t. trans_step reset_system [a, b] [False] t \<and> holds_in reset_system t [Literal (- 2), Literal 3]" for a b
  proof -
    define \<sigma> where "\<sigma> v = (if v = Variable 2 then a else if v = Variable 3 then b else v = Variable 5)" for v
    have "trans_step reset_system [a, b] [False] [False, True]"
      unfolding trans_step_def by (rule exI [of _ \<sigma>]) (simp add: reset_facts \<sigma>_def)
    then show ?thesis using hold by blast
  qed
  have sat: "\<exists>s \<in> all_states reset_system. holds_in reset_system s [Literal (- 2), Literal 3]"
    using hold [of False True] states by blast
  have l0: "cti_last reset_system (entry_at reset_pool 0)"
    using sat over err inp [of 0] hold states
    by (auto simp: cti_last_def cti_shape_def cti_cube_ok_def reset_pool_def cube_sorted_def cube_key_def
        lit_var_def lit_sign_def)
  have l1: "cti_link reset_system (entry_at reset_pool 1) (entry_at reset_pool 0)"
    using step inp [of 1] states nil
    by (auto simp: cti_link_def cti_shape_def cti_cube_ok_def reset_pool_def cube_sorted_def)
  have get: "cti_get True reset_pool h = Some (entry_at reset_pool h)" if "h = 0 \<or> h = 1" for h
    using cti_get_live [OF inv] live that by blast
  have succ: "cti_successor (entry_at reset_pool 0) = None" "cti_successor (entry_at reset_pool 1) = Some 0"
    by (simp_all add: reset_pool_def)
  have e0: "ctis.entry_linked True reset_system reset_pool 0 (entry_at reset_pool 0)"
    unfolding ctis.entry_linked_def succ using l0 by simp
  have e1: "ctis.entry_linked True reset_system reset_pool 1 (entry_at reset_pool 1)"
    unfolding ctis.entry_linked_def succ option.case using live get [of 0] l1 by simp
  show "pool_ok reset_system reset_pool"
    unfolding pool_ok_def ctis.linked_def
  proof (intro conjI inv allI impI)
    fix h assume "pool_live reset_pool h"
    then have h: "h = 0 \<or> h = 1" using live by simp
    then have "ctis.entry_linked True reset_system reset_pool h (entry_at reset_pool h)" using e0 e1 by (elim disjE) simp_all
    then show "\<exists>e. cti_get True reset_pool h = Some e \<and> ctis.entry_linked True reset_system reset_pool h e"
      using get [OF h] by (intro exI conjI)
  qed
  show "obligation_ok reset_system ((pdr_new new_store)\<lparr>ctis := reset_pool\<rparr>) (Obligation 0 1)"
  proof -
    have "cube_literals (cti_state_vars (entry_at reset_pool 1)) = []" by (simp add: reset_pool_def)
    then show ?thesis using live [of 1] nil reset_init by (simp add: obligation_ok_def)
  qed
  show "\<exists>cex. build_counterexample True reset_system ((pdr_new new_store)\<lparr>ctis := reset_pool\<rparr>) 1 = Some cex \<and>
      initial_state cex = [Literal (- 2), Literal (- 3)] \<and>
      \<not> init_state reset_system (row_values (initial_state cex))"
  proof -
    have r: "vr_vars (state_vars reset_system) = [Variable 2, Variable 3]"
      by (simp add: reset_system_def vr_vars_def upto.simps)
    have i: "vr_vars (input_vars reset_system) = [Variable 1]"
      by (simp add: reset_system_def vr_vars_def)
    show ?thesis
      by (simp add: build_counterexample_def cti_get_def reset_pool_def collect_inputs.simps get_vars_def r i
          cube_find_def cube_contains_def lower_bound.simps literal_of_def)
        (simp add: row_values_def reset_init lit_sign_def)
  qed
qed

end
