(* ===== verification/Options.thy ===== *)
theory Options
  imports Prelude "HOL-Library.Char_ord" "HOL-Library.List_Lexorder"
begin

text \<open>
  \<^verbatim>\<open>src/options.hpp\<close> and \<^verbatim>\<open>src/options.cpp\<close>: the command line. \<open>std::map\<close> is an association list
  sorted by key (\<open>std::string\<close> compares by unsigned characters, as the library's order on strings
  does), \<open>std::expected\<close> is a sum whose left side is the error message, and \<open>std::stoi\<close> is
  modelled after its specification: white space, a sign, decimal digits, an exception on no digits
  or a value outside \<open>int\<close>. The outer \<open>option\<close> is for the two final assertions.
\<close>

section \<open>The class\<close>

datatype verbosity_level = Silent | Loud | Debug

fun verbosity_index :: "verbosity_level \<Rightarrow> nat" where
  "verbosity_index Silent = 0"
| "verbosity_index Loud = 1"
| "verbosity_index Debug = 2"

instantiation verbosity_level :: linorder
begin

definition less_eq_verbosity_level :: "verbosity_level \<Rightarrow> verbosity_level \<Rightarrow> bool" where
  "less_eq_verbosity_level a b \<longleftrightarrow> verbosity_index a \<le> verbosity_index b"

definition less_verbosity_level :: "verbosity_level \<Rightarrow> verbosity_level \<Rightarrow> bool" where
  "less_verbosity_level a b \<longleftrightarrow> verbosity_index a < verbosity_index b"

instance
proof
  fix a b :: verbosity_level
  assume "a \<le> b" and "b \<le> a"
  then show "a = b" by (cases a; cases b) (simp_all add: less_eq_verbosity_level_def)
qed (auto simp: less_eq_verbosity_level_def less_verbosity_level_def)

end

type_synonym 'v string_map = "(string \<times> 'v) list"

record options =
  help_requested :: bool
  input_file :: string
  engine_name :: string
  verbosity :: verbosity_level
  other_opts :: "int option string_map"

definition help_options :: options where
  "help_options = \<lparr>help_requested = True, input_file = [], engine_name = [], verbosity = Silent,
     other_opts = []\<rparr>"

definition has_opt :: "options \<Rightarrow> string \<Rightarrow> bool" where
  "has_opt o1 opt \<longleftrightarrow> map_of (other_opts o1) opt \<noteq> None"

definition value_or :: "options \<Rightarrow> string \<Rightarrow> int \<Rightarrow> int" where
  "value_or o1 opt def =
     (case map_of (other_opts o1) opt of Some (Some v) \<Rightarrow> v | _ \<Rightarrow> def)"

section \<open>Standard library\<close>

text \<open>\<open>std::map::emplace\<close>: an entry with the key stays.\<close>

fun emplace :: "string \<Rightarrow> 'v \<Rightarrow> 'v string_map \<Rightarrow> 'v string_map" where
  "emplace k v [] = [(k, v)]"
| "emplace k v ((k1, v1) # m) =
     (if k < k1 then (k, v) # (k1, v1) # m
      else if k = k1 then (k1, v1) # m
      else (k1, v1) # emplace k v m)"

definition is_space :: "char \<Rightarrow> bool" where
  "is_space c \<longleftrightarrow> c = CHR '' '' \<or> (9 \<le> (of_char c :: nat) \<and> (of_char c :: nat) \<le> 13)"

definition is_digit :: "char \<Rightarrow> bool" where
  "is_digit c \<longleftrightarrow> 48 \<le> (of_char c :: nat) \<and> (of_char c :: nat) \<le> 57"

definition digits_value :: "string \<Rightarrow> nat" where
  "digits_value ds = foldl (\<lambda>n c. 10 * n + (of_char c - 48)) 0 ds"

definition split_sign :: "string \<Rightarrow> bool \<times> string" where
  "split_sign s =
     (case s of
        c # t \<Rightarrow> if c = CHR ''-'' then (True, t) else if c = CHR ''+'' then (False, t) else (False, s)
      | [] \<Rightarrow> (False, s))"

definition int_min :: int where "int_min = - 2147483648"
definition int_max :: int where "int_max = 2147483647"

text \<open>\<open>std::stoi\<close>: the value and the number of characters used; \<open>None\<close> is an exception.\<close>

definition stoi :: "string \<Rightarrow> (int \<times> nat) option" where
  "stoi s =
     (let (neg, d) = split_sign (dropWhile is_space s);
          ds = takeWhile is_digit d;
          v = (if neg then - int (digits_value ds) else int (digits_value ds))
      in if ds = [] \<or> v < int_min \<or> int_max < v then None
         else Some (v, length s - length d + length ds))"

section \<open>Parsing\<close>

definition requests_help :: "string list \<Rightarrow> bool" where
  "requests_help args \<longleftrightarrow> list_ex (\<lambda>a. a = ''-h'' \<or> a = ''--help'') args"

definition is_reserved_opt :: "string \<Rightarrow> bool" where
  "is_reserved_opt opt \<longleftrightarrow>
     opt \<in> set [''-h'', ''--help'', ''-e'', ''--engine'', ''-v'', ''--verbose'', ''--debug'']"

definition try_parse :: "string \<Rightarrow> int option" where
  "try_parse s =
     (case stoi s of
        None \<Rightarrow> None
      | Some (v, chars) \<Rightarrow> if chars \<noteq> length s then None else Some v)"

text \<open>The key before the first \<open>=\<close> and, if there is one, the rest after it.\<close>

definition split_arg :: "string \<Rightarrow> string \<times> string option" where
  "split_arg arg =
     (takeWhile (\<lambda>c. c \<noteq> CHR ''='') arg,
      if CHR ''='' \<in> set arg then Some (tl (dropWhile (\<lambda>c. c \<noteq> CHR ''='') arg)) else None)"

definition starts_with_dash :: "string \<Rightarrow> bool" where
  "starts_with_dash arg \<longleftrightarrow> (case arg of [] \<Rightarrow> False | c # _ \<Rightarrow> c = CHR ''-'')"

fun parse_args ::
  "string list \<Rightarrow> string option \<Rightarrow> string option string_map \<Rightarrow>
   string + (string option \<times> string option string_map)" where
  "parse_args [] file opts = Inr (file, opts)"
| "parse_args (arg # args) file opts =
     (if starts_with_dash arg
      then let (k, v) = split_arg arg in parse_args args file (emplace k v opts)
      else case file of
             Some f \<Rightarrow> Inl (''unexpected input file '' @ arg @ '' when '' @ f @ '' already given'')
           | None \<Rightarrow> parse_args args (Some arg) opts)"

fun collect_other :: "string option string_map \<Rightarrow> int option string_map \<Rightarrow> string + int option string_map" where
  "collect_other [] other = Inr other"
| "collect_other ((key, val) # opts) other =
     (if is_reserved_opt key then collect_other opts other
      else case val of
             Some v \<Rightarrow>
               (case try_parse v of
                  None \<Rightarrow> Inl (''the switch '' @ key @ '' requires an integer parameter'')
                | Some num \<Rightarrow> collect_other opts (emplace key (Some num) other))
           | None \<Rightarrow> collect_other opts (emplace key None other))"

definition parse_verbosity :: "string option string_map \<Rightarrow> verbosity_level" where
  "parse_verbosity opts =
     (if map_of opts ''-v'' \<noteq> None \<or> map_of opts ''--verbose'' \<noteq> None then Loud
      else if map_of opts ''--debug'' \<noteq> None then Debug
      else Silent)"

definition parse_cli :: "string list \<Rightarrow> (string + options) option" where
  "parse_cli args =
     (if requests_help args then Some (Inr help_options)
      else case parse_args args None [] of
        Inl msg \<Rightarrow> Some (Inl msg)
      | Inr (None, opts) \<Rightarrow> Some (Inl ''expected a path to the input file'')
      | Inr (Some file, opts) \<Rightarrow>
          if map_of opts ''-e'' = None \<and> map_of opts ''--engine'' = None
            then Some (Inl ''no engine name given'')
          else if map_of opts ''-e'' = Some None
            then Some (Inl ''expected an engine name after -e'')
          else if map_of opts ''--engine'' = Some None
            then Some (Inl ''expected an engine name after --engine'')
          else let engine = (if map_of opts ''-e'' \<noteq> None then map_of opts ''-e''
                             else map_of opts ''--engine'')
               in case collect_other opts [] of
                    Inl msg \<Rightarrow> Some (Inl msg)
                  | Inr other \<Rightarrow>
                      (case engine of
                         Some (Some name) \<Rightarrow>
                           Some (Inr \<lparr>help_requested = False, input_file = file, engine_name = name,
                                      verbosity = parse_verbosity opts, other_opts = other\<rparr>)
                       | _ \<Rightarrow> None))"

section \<open>Maps and numbers\<close>

lemma map_of_emplace:
  "sorted (map fst m) \<Longrightarrow>
   map_of (emplace k v m) = (if map_of m k = None then (map_of m)(k \<mapsto> v) else map_of m)"
proof (induction m)
  case Nil
  then show ?case by simp
next
  case (Cons e m)
  obtain k1 v1 where e: "e = (k1, v1)" by fastforce
  have "map_of m k = None" if "k < k1"
    using Cons.prems that by (auto simp: e map_of_eq_None_iff)
  then show ?case using Cons by (auto simp: e fun_upd_twist)
qed

lemma set_keys_emplace: "fst ` set (emplace k v m) = insert k (fst ` set m)"
  by (induction k v m rule: emplace.induct) (simp_all add: insert_commute)

lemma sorted_emplace: "sorted (map fst m) \<Longrightarrow> distinct (map fst m) \<Longrightarrow>
  sorted (map fst (emplace k v m)) \<and> distinct (map fst (emplace k v m))"
proof (induction m)
  case Nil
  then show ?case by simp
next
  case (Cons e m)
  obtain k1 v1 where e: "e = (k1, v1)" by fastforce
  have "fst ` set (emplace k v m) = insert k (fst ` set m)" by (rule set_keys_emplace)
  then show ?case using Cons by (auto simp: e)
qed

text \<open>A sorted map is determined by its lookups.\<close>

lemma string_map_eqI:
  assumes "sorted (map fst m)" "distinct (map fst m)" "sorted (map fst n)" "distinct (map fst n)"
    and "map_of m = map_of n"
  shows "m = n"
proof -
  have s: "set m = set n" using assms(2,4,5) by (metis map_of_eqI map_of_inject_set)
  moreover have "inj_on fst (set m \<union> set n)" using assms(2) s by (simp add: distinct_map)
  ultimately show ?thesis by (intro map_sorted_distinct_set_unique [of fst]) (use assms(1-4) in auto)
qed

lemma digits_value_append: "digits_value (ds @ [c]) = 10 * digits_value ds + (of_char c - 48)"
  by (simp add: digits_value_def)

lemma digit_char: "n < 10 \<Longrightarrow> is_digit (char_of (48 + n)) \<and> (of_char (char_of (48 + n) :: char) :: nat) - 48 = n"
  by (simp add: is_digit_def of_char_of)

lemma nat_to_string_digits:
  "nat_to_string n \<noteq> [] \<and> list_all is_digit (nat_to_string n) \<and> digits_value (nat_to_string n) = n"
proof (induction n rule: nat_to_string.induct)
  case (1 n)
  show ?case
  proof (cases "n < 10")
    case True
    then show ?thesis using digit_char [of n] by (simp add: nat_to_string.simps [of n] digits_value_def)
  next
    case False
    have m: "n mod 10 < 10" by simp
    show ?thesis
      using "1.IH" [OF False] digit_char [OF m] False
      by (simp add: nat_to_string.simps [of n] digits_value_append)
  qed
qed

lemma stoi_int_to_string:
  assumes "int_min \<le> i" and "i \<le> int_max"
  shows "stoi (int_to_string i) = Some (i, length (int_to_string i))"
proof -
  define n where "n = nat \<bar>i\<bar>"
  note d = nat_to_string_digits [of n]
  obtain c t where ct: "nat_to_string n = c # t" using d by (cases "nat_to_string n") auto
  have dig: "is_digit c" using d ct by simp
  then have c: "\<not> is_space c" "c \<noteq> CHR ''-''" "c \<noteq> CHR ''+''"
    by (auto simp: is_digit_def is_space_def)
  have tw: "takeWhile is_digit (nat_to_string n) = nat_to_string n"
    using d by (simp add: takeWhile_eq_all_conv list_all_iff)
  have sp: "\<not> is_space CHR ''-''" by (simp add: is_space_def)
  show ?thesis
  proof (cases "i < 0")
    case True
    then have s: "int_to_string i = CHR ''-'' # nat_to_string n" by (simp add: int_to_string_def n_def)
    have "- int n = i" using True by (simp add: n_def)
    then show ?thesis
      using assms d sp unfolding s by (simp add: stoi_def split_sign_def Let_def tw)
  next
    case False
    then have s: "int_to_string i = nat_to_string n" by (simp add: int_to_string_def n_def)
    have "dropWhile is_space (nat_to_string n) = nat_to_string n" using ct c(1) by simp
    moreover have "split_sign (nat_to_string n) = (False, nat_to_string n)"
      using ct c by (simp add: split_sign_def)
    moreover have "int n = i" using False by (simp add: n_def)
    ultimately show ?thesis
      using assms d unfolding s by (simp add: stoi_def Let_def tw)
  qed
qed

lemma try_parse_int_to_string:
  "int_min \<le> i \<Longrightarrow> i \<le> int_max \<Longrightarrow> try_parse (int_to_string i) = Some i"
  by (simp add: try_parse_def stoi_int_to_string)

section \<open>Parsing a rendered command line\<close>

text \<open>The command line that asks for given options.\<close>

definition render_opt :: "string \<times> int option \<Rightarrow> string" where
  "render_opt e = (case snd e of None \<Rightarrow> fst e | Some i \<Rightarrow> fst e @ ''='' @ int_to_string i)"

definition render_cli :: "options \<Rightarrow> string list" where
  "render_cli o1 =
     (case verbosity o1 of Silent \<Rightarrow> [] | Loud \<Rightarrow> [''-v''] | Debug \<Rightarrow> [''--debug'']) @
     [''-e='' @ engine_name o1] @ map render_opt (other_opts o1) @ [input_file o1]"

definition options_ok :: "options \<Rightarrow> bool" where
  "options_ok o1 \<longleftrightarrow>
     \<not> help_requested o1 \<and> \<not> starts_with_dash (input_file o1) \<and>
     sorted (map fst (other_opts o1)) \<and> distinct (map fst (other_opts o1)) \<and>
     (\<forall>(k, v) \<in> set (other_opts o1).
        starts_with_dash k \<and> CHR ''='' \<notin> set k \<and> \<not> is_reserved_opt k \<and>
        (\<forall>i. v = Some i \<longrightarrow> int_min \<le> i \<and> i \<le> int_max))"

text \<open>A map as the parser builds it, and reading it back.\<close>

definition map_ok :: "'v string_map \<Rightarrow> bool" where
  "map_ok m \<longleftrightarrow> sorted (map fst m) \<and> distinct (map fst m)"

lemma map_ok_Nil [simp]: "map_ok []"
  by (simp add: map_ok_def)

lemma map_ok_emplace [simp]: "map_ok m \<Longrightarrow> map_ok (emplace k v m)"
  using sorted_emplace [of m k v] by (simp add: map_ok_def)

lemma lookup_emplace: "map_ok m \<Longrightarrow>
  map_of (emplace k v m) = (if map_of m k = None then (map_of m)(k \<mapsto> v) else map_of m)"
  by (simp add: map_ok_def map_of_emplace)

lemma split_key: "CHR ''='' \<notin> set k \<Longrightarrow> split_arg k = (k, None)"
  by (simp add: split_arg_def takeWhile_eq_all_conv) (metis takeWhile_eq_all_conv)

lemma split_key_value: "CHR ''='' \<notin> set k \<Longrightarrow> split_arg (k @ ''='' @ v) = (k, Some v)"
proof -
  assume "CHR ''='' \<notin> set k"
  then have "\<forall>c \<in> set k. c \<noteq> CHR ''=''" by metis
  then show ?thesis by (simp add: split_arg_def takeWhile_append2 dropWhile_append2)
qed

definition raw_opt :: "string \<times> int option \<Rightarrow> string \<times> string option" where
  "raw_opt e = (fst e, map_option int_to_string (snd e))"

lemma starts_with_dash_append [simp]: "starts_with_dash k \<Longrightarrow> starts_with_dash (k @ s)"
  by (auto simp: starts_with_dash_def split: list.splits)

lemma render_opt_parse:
  assumes "starts_with_dash (fst e)" and "CHR ''='' \<notin> set (fst e)"
  shows "starts_with_dash (render_opt e)" and "split_arg (render_opt e) = raw_opt e"
  using assms
  by (auto simp: render_opt_def raw_opt_def split_key split_key_value [simplified] split: option.splits)

definition emplace_all :: "(string \<times> 'v) list \<Rightarrow> 'v string_map \<Rightarrow> 'v string_map" where
  "emplace_all es m = foldl (\<lambda>m (k, v). emplace k v m) m es"

lemma emplace_all_simps [simp]:
  "emplace_all [] m = m" "emplace_all (e # es) m = emplace_all es (emplace (fst e) (snd e) m)"
  by (simp_all add: emplace_all_def split: prod.splits)

lemma map_ok_emplace_all [simp]: "map_ok m \<Longrightarrow> map_ok (emplace_all es m)"
  by (induction es arbitrary: m) auto

lemma lookup_emplace_all:
  "map_ok m \<Longrightarrow> map_of (emplace_all es m) = map_of es ++ map_of m"
proof (induction es arbitrary: m)
  case Nil
  then show ?case by simp
next
  case (Cons e es)
  obtain k v where e: "e = (k, v)" by fastforce
  show ?case
  proof (rule ext)
    fix x
    show "map_of (emplace_all (e # es) m) x = (map_of (e # es) ++ map_of m) x"
      using Cons by (auto simp: e lookup_emplace map_add_def split: option.splits)
  qed
qed

lemma parse_rendered:
  "\<forall>e \<in> set es. starts_with_dash (fst e) \<and> CHR ''='' \<notin> set (fst e) \<Longrightarrow>
   parse_args (map render_opt es @ args) file opts =
     parse_args args file (emplace_all (map raw_opt es) opts)"
proof (induction es arbitrary: opts)
  case Nil
  then show ?case by simp
next
  case (Cons e es)
  then show ?case using render_opt_parse [of e] by (simp add: raw_opt_def)
qed

text \<open>Of the raw options the reserved ones are skipped, the others are read back.\<close>

lemma collect_rendered:
  assumes "map_ok m" and "map_ok other"
    and "\<forall>(k, v) \<in> set m. \<not> is_reserved_opt k \<longrightarrow> (\<forall>s. v = Some s \<longrightarrow> try_parse s \<noteq> None)"
    and "\<forall>(k, v) \<in> set m. map_of other k = None"
  shows "\<exists>res. collect_other m other = Inr res \<and> map_ok res \<and>
    (\<forall>k. map_of res k =
      (case map_of other k of Some v \<Rightarrow> Some v
       | None \<Rightarrow> if is_reserved_opt k then None
                 else map_option (\<lambda>v. Option.bind v try_parse) (map_of m k)))"
  using assms
proof (induction m other rule: collect_other.induct)
  case (1 other)
  then show ?case by (auto split: option.split)
next
  case (2 key val opts other)
  have m: "map_ok opts" "key \<notin> fst ` set opts" using "2.prems"(1) by (auto simp: map_ok_def)
  have ok: "map_of other key = None" using "2.prems"(4) by auto
  have nk: "map_of opts key = None" using m(2) by (simp add: map_of_eq_None_iff)
  show ?case
  proof (cases "is_reserved_opt key")
    case True
    then obtain res where "collect_other opts other = Inr res" "map_ok res" "\<forall>k. map_of res k =
      (case map_of other k of Some v \<Rightarrow> Some v
       | None \<Rightarrow> if is_reserved_opt k then None
                 else map_option (\<lambda>v. Option.bind v try_parse) (map_of opts k))"
      using "2.IH"(1) [OF True m(1) "2.prems"(2)] "2.prems"(3,4) by auto
    then show ?thesis using True by (auto split: option.splits)
  next
    case False
    define num where "num = Option.bind val try_parse"
    have n: "val = Some s \<Longrightarrow> \<exists>i. try_parse s = Some i" for s using "2.prems"(3) False by auto
    have step: "collect_other ((key, val) # opts) other = collect_other opts (emplace key num other)"
      using False n by (cases val) (auto simp: num_def)
    have fresh: "k \<noteq> key" if "(k, v) \<in> set opts" for k v
      using that m(2) by (metis fst_conv imageI)
    have fresh': "\<forall>(k, v) \<in> set opts. map_of (emplace key x other) k = None" for x
      using fresh "2.prems"(4) by (fastforce simp: lookup_emplace [OF "2.prems"(2)] ok)
    have pr: "\<forall>(k, v) \<in> set opts. \<not> is_reserved_opt k \<longrightarrow> (\<forall>s. v = Some s \<longrightarrow> try_parse s \<noteq> None)"
      using "2.prems"(3) by simp
    have IH: "\<exists>res. collect_other opts (emplace key num other) = Inr res \<and> map_ok res \<and>
      (\<forall>k. map_of res k =
      (case map_of (emplace key num other) k of Some v \<Rightarrow> Some v
       | None \<Rightarrow> if is_reserved_opt k then None
                 else map_option (\<lambda>v. Option.bind v try_parse) (map_of opts k)))"
    proof (cases val)
      case None
      show ?thesis
        using "2.IH"(2) [OF False None m(1) map_ok_emplace [OF "2.prems"(2)] pr fresh']
        by (simp add: num_def None)
    next
      case (Some s)
      then obtain i where i: "try_parse s = Some i" using n by blast
      show ?thesis
        using "2.IH"(3) [OF False Some i m(1) map_ok_emplace [OF "2.prems"(2)] pr fresh']
        by (simp add: num_def Some i)
    qed
    then obtain res where res: "collect_other opts (emplace key num other) = Inr res" "map_ok res"
      "\<And>k. map_of res k =
      (case map_of (emplace key num other) k of Some v \<Rightarrow> Some v
       | None \<Rightarrow> if is_reserved_opt k then None
                 else map_option (\<lambda>v. Option.bind v try_parse) (map_of opts k))" by blast
    have "map_of res k =
      (case map_of other k of Some v \<Rightarrow> Some v
       | None \<Rightarrow> if is_reserved_opt k then None
                 else map_option (\<lambda>v. Option.bind v try_parse) (map_of ((key, val) # opts) k))" for k
      using res(3) [of k] lookup_emplace [OF "2.prems"(2), of key num] ok nk False
      by (cases "k = key") (simp_all add: num_def split: option.splits)
    then show ?thesis unfolding step using res(1,2) by blast
  qed
qed

text \<open>\<open>--help\<close> anywhere wins.\<close>

lemma render_no_help:
  assumes "options_ok o1"
  shows "\<not> requests_help (render_cli o1)"
proof -
  have f: "input_file o1 \<noteq> ''-h''" "input_file o1 \<noteq> ''--help''"
    using assms by (auto simp: options_ok_def starts_with_dash_def)
  have "render_opt e \<noteq> ''-h'' \<and> render_opt e \<noteq> ''--help''" if e: "e \<in> set (other_opts o1)" for e
  proof -
    have k: "\<not> is_reserved_opt (fst e)" "CHR ''='' \<notin> set (fst e)"
      using assms e by (auto simp: options_ok_def)
    show ?thesis
    proof (cases "snd e")
      case None
      then show ?thesis using k by (auto simp: render_opt_def is_reserved_opt_def)
    next
      case (Some i)
      then have "CHR ''='' \<in> set (render_opt e)" by (simp add: render_opt_def)
      then show ?thesis by auto
    qed
  qed
  then show ?thesis
    using f by (auto simp: requests_help_def render_cli_def list_ex_iff split: verbosity_level.splits)
qed

lemma parse_render:
  assumes ok: "options_ok o1"
  shows "parse_cli (render_cli o1) = Some (Inr o1)"
proof -
  define flags where "flags = (case verbosity o1 of Silent \<Rightarrow> [] | Loud \<Rightarrow> [''-v''] | Debug \<Rightarrow> [''--debug''])"
  define base where "base = emplace_all
    ((case verbosity o1 of Silent \<Rightarrow> [] | Loud \<Rightarrow> [(''-v'', None)] | Debug \<Rightarrow> [(''--debug'', None)]) @
     [(''-e'', Some (engine_name o1))]) []"
  define m where "m = emplace_all (map raw_opt (other_opts o1)) base"
  have keys: "\<forall>e \<in> set (other_opts o1). starts_with_dash (fst e) \<and> CHR ''='' \<notin> set (fst e)"
    using ok by (auto simp: options_ok_def)
  have nores: "\<not> is_reserved_opt (fst e)" if "e \<in> set (other_opts o1)" for e
    using ok that by (auto simp: options_ok_def)
  have dash: "starts_with_dash (CHR ''-'' # s)" for s by (simp add: starts_with_dash_def)
  have sp: "split_arg (CHR ''-'' # CHR ''e'' # CHR ''='' # s) = (''-e'', Some s)" for s
    by (simp add: split_arg_def)
  have pa: "parse_args (render_cli o1) None [] = Inr (Some (input_file o1), m)"
  proof -
    have "parse_args (render_cli o1) None [] =
        parse_args (map render_opt (other_opts o1) @ [input_file o1]) None base"
      by (cases "verbosity o1") (simp_all add: render_cli_def base_def dash sp split_key)
    then show ?thesis
      using ok by (simp add: parse_rendered [OF keys] m_def options_ok_def)
  qed
  have bok: "map_ok base" by (simp add: base_def)
  have mok: "map_ok m" using bok by (simp add: m_def)
  have base_res: "map_of base k = None" if "\<not> is_reserved_opt k" for k
    using that by (cases "verbosity o1") (auto simp: base_def is_reserved_opt_def)
  have raw: "map_of (map raw_opt es) k = map_option (map_option int_to_string) (map_of es k)" for es k
    by (induction es) (auto simp: raw_opt_def)
  have other_res: "map_of (other_opts o1) k = None" if "is_reserved_opt k" for k
    using that nores by (fastforce simp: map_of_eq_None_iff)
  have look: "map_of m k = (if is_reserved_opt k then map_of base k
      else map_option (map_option int_to_string) (map_of (other_opts o1) k))" for k
    using base_res [of k] other_res [of k]
    by (simp add: m_def lookup_emplace_all [OF bok] map_add_def raw split: option.split)
  have fst_base: "map_of base ''-e'' = Some (Some (engine_name o1))" "map_of base ''--engine'' = None"
    "parse_verbosity base = verbosity o1"
    by (cases "verbosity o1"; simp add: base_def parse_verbosity_def)+
  have res: "is_reserved_opt ''-e''" "is_reserved_opt ''--engine''" "is_reserved_opt ''-v''"
    "is_reserved_opt ''--verbose''" "is_reserved_opt ''--debug''"
    by (simp_all add: is_reserved_opt_def)
  have vals: "map_option (\<lambda>v. Option.bind v try_parse) (map_of m k) = map_of (other_opts o1) k"
    if "\<not> is_reserved_opt k" for k
  proof (cases "map_of (other_opts o1) k")
    case None
    then show ?thesis using look [of k] that by simp
  next
    case (Some v)
    then have "(k, v) \<in> set (other_opts o1)" by (rule map_of_SomeD)
    then have "\<forall>i. v = Some i \<longrightarrow> int_min \<le> i \<and> i \<le> int_max" using ok by (auto simp: options_ok_def)
    then show ?thesis using Some look [of k] that by (cases v) (simp_all add: try_parse_int_to_string)
  qed
  have "try_parse s \<noteq> None" if k: "(k, Some s) \<in> set m" "\<not> is_reserved_opt k" for k s
  proof
    assume n: "try_parse s = None"
    have "map_of m k = Some (Some s)" using k(1) mok by (simp add: map_ok_def)
    then have "map_of (other_opts o1) k = Some None" using vals [OF k(2)] n by simp
    then have "map_of m k = Some None" using look [of k] k(2) by simp
    with \<open>map_of m k = Some (Some s)\<close> show False by simp
  qed
  then have "\<forall>(k, v) \<in> set m. \<not> is_reserved_opt k \<longrightarrow> (\<forall>s. v = Some s \<longrightarrow> try_parse s \<noteq> None)"
    by blast
  then obtain r where r: "collect_other m [] = Inr r" "map_ok r"
    "\<forall>k. map_of r k = (if is_reserved_opt k then None
                 else map_option (\<lambda>v. Option.bind v try_parse) (map_of m k))"
    using collect_rendered [OF mok map_ok_Nil] by auto
  have "map_of r = map_of (other_opts o1)"
  proof
    show "map_of r k = map_of (other_opts o1) k" for k
      using r(3) vals [of k] other_res [of k] by (cases "is_reserved_opt k") simp_all
  qed
  then have ro: "r = other_opts o1"
    using string_map_eqI [of r "other_opts o1"] r(2) ok by (simp add: map_ok_def options_ok_def)
  have same: "map_of m ''-e'' = map_of base ''-e''" "map_of m ''--engine'' = map_of base ''--engine''"
    "map_of m ''-v'' = map_of base ''-v''" "map_of m ''--verbose'' = map_of base ''--verbose''"
    "map_of m ''--debug'' = map_of base ''--debug''"
    using look res by simp_all
  have "parse_verbosity m = parse_verbosity base" unfolding parse_verbosity_def same ..
  then have "parse_verbosity m = verbosity o1" using fst_base(3) by simp
  then show ?thesis
    using pa r(1) ro render_no_help [OF ok] same fst_base(1,2) ok
    by (simp add: parse_cli_def Let_def options_ok_def)
qed

section \<open>Properties\<close>

text \<open>C37. Every command line is either rejected with a message or accepted: the final assertions of
  \<open>parse_cli\<close>, that an input file and an engine name are present, cannot fail.\<close>

theorem parse_cli_total: "parse_cli args \<noteq> None"
  by (auto simp: parse_cli_def Let_def split: sum.splits option.splits prod.splits)

text \<open>C38. Parsing the command line written for given options gives these options back, whatever integers and
  switches they hold.\<close>

theorem cli_roundtrip:
  assumes "options_ok o1"
  shows "parse_cli (render_cli o1) = Some (Inr o1)"
  using assms by (rule parse_render)

theorem cli_roundtrip_witness:
  "parse_cli [''-v'', ''-e=bmc'', ''-k=-12'', ''-x'', ''m.aig''] = Some (Inr
     \<lparr>help_requested = False, input_file = ''m.aig'', engine_name = ''bmc'', verbosity = Loud,
      other_opts = [(''-k'', Some (- 12)), (''-x'', None)]\<rparr>)"
proof -
  define o1 where "o1 = \<lparr>help_requested = False, input_file = ''m.aig'', engine_name = ''bmc'',
      verbosity = Loud, other_opts = [(''-k'', Some (- 12)), (''-x'', None)]\<rparr>"
  have "''-k'' < ''-x''" by (simp add: less_char_def)
  then have "options_ok o1"
    by (auto simp: options_ok_def o1_def starts_with_dash_def is_reserved_opt_def int_min_def int_max_def
        less_imp_le)
  moreover have "(char_of (49 :: nat) :: char) = CHR ''1''" "(char_of (50 :: nat) :: char) = CHR ''2''"
    by code_simp+
  then have "render_cli o1 = [''-v'', ''-e=bmc'', ''-k=-12'', ''-x'', ''m.aig'']"
    by (simp add: render_cli_def o1_def render_opt_def int_to_string_def nat_to_string.simps)
  ultimately show ?thesis using cli_roundtrip [of o1] by (simp add: o1_def)
qed

end
