(* ===== verification/Bmc.thy ===== *)
theory Bmc
  imports Solver Engine Options
begin

text \<open>
  \<^verbatim>\<open>src/engine/bmc.hpp\<close> and \<^verbatim>\<open>src/engine/bmc.cpp\<close>: bounded model checking, one definition per
  member function. The object is the record \<open>bmc\<close>, the shared variable store its field
  \<open>bmc_store\<close>, \<open>_system\<close> an argument. \<open>None\<close> is a failed assertion (in a debug build), an access
  outside a vector, a violated contract of the solver or \<open>std::terminate\<close>. The bound and the step
  of the outermost loop are integers as in the code, steps elsewhere are natural numbers; that
  \<open>++i\<close> overflows at the largest \<open>int\<close> is out of scope, since the variables of so many copies do
  not fit into \<open>int\<close> either. Logging is left out.
\<close>

record bmc =
  bmc_store :: variable_store
  bmc_solver :: solver
  versioned_state_vars :: "variable_range list"
  versioned_input_vars :: "variable_range list"
  versioned_aux_vars :: "variable_range list"
  versioned_trans :: "cnf_formula list"
  bmc_activators :: "literal list"

definition bmc_refresh_rate :: int where
  "bmc_refresh_rate = 100"

definition bmc_new :: "variable_store \<Rightarrow> bmc" where
  "bmc_new store = \<lparr>bmc_store = store, bmc_solver = new_solver, versioned_state_vars = [],
     versioned_input_vars = [], versioned_aux_vars = [], versioned_trans = [], bmc_activators = []\<rparr>"

definition setup_versioning :: "transition_system \<Rightarrow> bmc \<Rightarrow> bmc" where
  "setup_versioning sys st =
     st\<lparr>versioned_state_vars := versioned_state_vars st @ [state_vars sys],
        versioned_input_vars := versioned_input_vars st @ [input_vars sys],
        versioned_aux_vars := versioned_aux_vars st @ [aux_vars sys]\<rparr>"

text \<open>The namer given to \<open>make_range\<close> reads names that the store has before the call.\<close>

definition base_names :: "variable_store \<Rightarrow> variable_range \<Rightarrow> string list option" where
  "base_names store r = those (map (\<lambda>i. get_name store (vr_nth r i)) [0..vr_size r - 1])"

definition make_version ::
  "variable_range \<Rightarrow> nat \<Rightarrow> variable_store \<Rightarrow> (variable_range \<times> variable_store) option" where
  "make_version unversioned step store = do {
     names \<leftarrow> base_names store unversioned;
     Some (make_range store (vr_size unversioned)
       (\<lambda>i. names ! nat i @ ''/'' @ int_to_string (int step))) }"

function make_vars ::
  "variable_range \<Rightarrow> nat \<Rightarrow> variable_range list \<Rightarrow> variable_store \<Rightarrow>
   (variable_range list \<times> variable_store) option" where
  "make_vars unversioned step versioned store =
     (if length versioned \<le> step + 1
      then do {
        (r, store) \<leftarrow> make_version unversioned step store;
        make_vars unversioned step (versioned @ [r]) store }
      else Some (versioned, store))"
  by pat_completeness auto
termination
  by (relation "measure (\<lambda>(u, step, versioned, store). step + 2 - length versioned)") auto

declare make_vars.simps [simp del]

text \<open>The callbacks that rename a literal to its version.\<close>

definition trans_literal ::
  "transition_system \<Rightarrow> variable_range \<Rightarrow> variable_range \<Rightarrow> variable_range \<Rightarrow> variable_range \<Rightarrow>
   literal \<Rightarrow> literal option" where
  "trans_literal sys ins here there aux l = do {
     (ty, pos) \<leftarrow> get_var_info sys (lit_var l);
     Some (case ty of
       Input_var \<Rightarrow> substitute l (vr_nth ins pos)
     | State_var \<Rightarrow> substitute l (vr_nth here pos)
     | Next_state_var \<Rightarrow> substitute l (vr_nth there pos)
     | Auxiliary_var \<Rightarrow> substitute l (vr_nth aux pos)) }"

definition error_literal ::
  "transition_system \<Rightarrow> variable_range \<Rightarrow> variable_range \<Rightarrow> variable_range \<Rightarrow> literal \<Rightarrow> literal option" where
  "error_literal sys ins here aux l = do {
     (ty, pos) \<leftarrow> get_var_info sys (lit_var l);
     (case ty of
       Input_var \<Rightarrow> Some (substitute l (vr_nth ins pos))
     | State_var \<Rightarrow> Some (substitute l (vr_nth here pos))
     | Auxiliary_var \<Rightarrow> Some (substitute l (vr_nth aux pos))
     | Next_state_var \<Rightarrow> None) }"

definition make_trans :: "bool \<Rightarrow> transition_system \<Rightarrow> bmc \<Rightarrow> nat \<Rightarrow> (cnf_formula \<times> bmc) option" where
  "make_trans d sys st step =
     (if step < length (versioned_trans st) then Some (versioned_trans st ! step, st)
      else do {
        assert_that d (step = length (versioned_trans st));
        (svars, store) \<leftarrow> make_vars (state_vars sys) step (versioned_state_vars st) (bmc_store st);
        (ivars, store) \<leftarrow> make_vars (input_vars sys) step (versioned_input_vars st) store;
        (avars, store) \<leftarrow> make_vars (aux_vars sys) step (versioned_aux_vars st) store;
        assert_that d (step + 1 < length svars);
        assert_that d (step < length ivars);
        assert_that d (step < length avars);
        ins \<leftarrow> vec_at ivars step;
        here \<leftarrow> vec_at svars step;
        there \<leftarrow> vec_at svars (step + 1);
        aux \<leftarrow> vec_at avars step;
        f \<leftarrow> cnf_map (ts_trans sys) (trans_literal sys ins here there aux);
        Some (f, st\<lparr>bmc_store := store, versioned_state_vars := svars, versioned_input_vars := ivars,
                    versioned_aux_vars := avars, versioned_trans := versioned_trans st @ [f]\<rparr>) })"

definition make_error :: "bool \<Rightarrow> transition_system \<Rightarrow> bmc \<Rightarrow> nat \<Rightarrow> (cnf_formula \<times> bmc) option" where
  "make_error d sys st step = do {
     assert_that d (step < length (versioned_input_vars st));
     assert_that d (step < length (versioned_state_vars st));
     assert_that d (step < length (versioned_aux_vars st));
     ins \<leftarrow> vec_at (versioned_input_vars st) step;
     here \<leftarrow> vec_at (versioned_state_vars st) step;
     aux \<leftarrow> vec_at (versioned_aux_vars st) step;
     let (activator, store) =
       store_make (bmc_store st) (''activator['' @ int_to_string (int step) @ '']'');
     assert_that d (step = length (bmc_activators st));
     let st = st\<lparr>bmc_store := store,
                 bmc_activators := bmc_activators st @ [literal_of activator False]\<rparr>;
     f \<leftarrow> cnf_map (ts_error sys) (error_literal sys ins here aux);
     Some (activate f activator, st) }"

text \<open>\<open>assert_formula\<close> of the transitions of the steps in a list.\<close>

fun assert_trans :: "bool \<Rightarrow> transition_system \<Rightarrow> bmc \<Rightarrow> nat list \<Rightarrow> bmc option" where
  "assert_trans d sys st [] = Some st"
| "assert_trans d sys st (i # is) = do {
     (f, st) \<leftarrow> make_trans d sys st i;
     assert_trans d sys (st\<lparr>bmc_solver := assert_formula (bmc_solver st) f\<rparr>) is }"

definition bmc_refresh_solver :: "bool \<Rightarrow> transition_system \<Rightarrow> bmc \<Rightarrow> nat \<Rightarrow> bmc option" where
  "bmc_refresh_solver d sys st bound =
     (let st = st\<lparr>bmc_solver := solver_reset (bmc_solver st), bmc_activators := []\<rparr>;
          st = st\<lparr>bmc_solver := assert_formula (bmc_solver st) (ts_init sys)\<rparr>
      in assert_trans d sys st [0..<bound])"

text \<open>The loop over the variables of a range, reading another range in the model.\<close>

fun model_row :: "solver \<Rightarrow> variable_range \<Rightarrow> variable_range \<Rightarrow> int list \<Rightarrow> valuation option" where
  "model_row sv names versioned [] = Some []"
| "model_row sv names versioned (vi # vis) = do {
     b \<leftarrow> is_true_in_model sv (vr_nth versioned vi);
     row \<leftarrow> model_row sv names versioned vis;
     Some (literal_of (vr_nth names vi) (\<not> b) # row) }"

fun model_rows :: "transition_system \<Rightarrow> bmc \<Rightarrow> nat list \<Rightarrow> valuation list option" where
  "model_rows sys st [] = Some []"
| "model_rows sys st (i # is) = do {
     r \<leftarrow> vec_at (versioned_input_vars st) i;
     row \<leftarrow> model_row (bmc_solver st) (input_vars sys) r [0..vr_size (input_vars sys) - 1];
     rows \<leftarrow> model_rows sys st is;
     Some (row # rows) }"

definition bmc_build_counterexample :: "bool \<Rightarrow> transition_system \<Rightarrow> bmc \<Rightarrow> nat \<Rightarrow> counterexample option" where
  "bmc_build_counterexample d sys st step = do {
     assert_that d (versioned_state_vars st \<noteq> []);
     assert_that d (step \<le> length (versioned_input_vars st));
     r \<leftarrow> vec_at (versioned_state_vars st) 0;
     first \<leftarrow> model_row (bmc_solver st) (state_vars sys) r [0..vr_size (state_vars sys) - 1];
     rows \<leftarrow> model_rows sys st [0..<step + 1];
     Some \<lparr>initial_state = first, inputs = rows\<rparr> }"

definition check_for :: "environment \<Rightarrow> transition_system \<Rightarrow> bmc \<Rightarrow> nat \<Rightarrow> (counterexample option \<times> bmc) option" where
  "check_for E sys st step = do {
     st \<leftarrow> (if 0 < step then assert_trans (debug_build E) sys st [step - 1] else Some st);
     (f, st) \<leftarrow> make_error (debug_build E) sys st step;
     let sv = assert_formula (bmc_solver st) f;
     let sv = assume_literals sv (map lit_not (butlast (bmc_activators st)));
     let sv = assume_literal sv (last (bmc_activators st));
     let (sat, sv) = is_sat E sv;
     let st = st\<lparr>bmc_solver := sv\<rparr>;
     if sat then do {
       cex \<leftarrow> bmc_build_counterexample (debug_build E) sys st step;
       Some (Some cex, st) }
     else Some (None, st) }"

function bmc_loop :: "environment \<Rightarrow> transition_system \<Rightarrow> bmc \<Rightarrow> int \<Rightarrow> nat \<Rightarrow> (result \<times> bmc) option" where
  "bmc_loop E sys st bound i =
     (if int i \<le> bound then do {
        st \<leftarrow> (if int i mod bmc_refresh_rate = 0 then bmc_refresh_solver (debug_build E) sys st i
               else Some st);
        (maybe_model, st) \<leftarrow> check_for E sys st i;
        (case maybe_model of
           Some cex \<Rightarrow> Some (Cex cex, st)
         | None \<Rightarrow> bmc_loop E sys st bound (i + 1)) }
      else Some (Unknown (''counterexample not found after '' @ int_to_string bound @ '' steps''), st))"
  by pat_completeness auto
termination
  by (relation "measure (\<lambda>(E, sys, st, bound, i). nat (bound + 1 - int i))") auto

declare bmc_loop.simps [simp del]

definition bmc_run :: "environment \<Rightarrow> options \<Rightarrow> transition_system \<Rightarrow> bmc \<Rightarrow> result option" where
  "bmc_run E opts sys st = do {
     let bound = value_or opts ''-k'' int_max;
     (res, st) \<leftarrow> bmc_loop E sys (setup_versioning sys st) bound 0;
     Some res }"

end
