(* ===== verification/BmcCopies.thy ===== *)
theory BmcCopies
  imports Bmc
begin

text \<open>
  The copies of the variables that bounded model checking makes. \<open>renamed\<close> pulls an assignment of
  the copies back to the system's own variables: a renamed formula holds exactly when the formula
  holds of the pulled-back assignment. \<open>step_at\<close> and \<open>error_at\<close> say so for the two formulas
  that are copied. \<open>copies_ok\<close> is the shape of the three lists of copies that the engine keeps; a
  satisfying assignment of the first \<open>k\<close> copies of the transition formula is a path of length \<open>k\<close>,
  and every path is read from one.
\<close>

section \<open>Copies of the variables\<close>

definition renamed ::
  "transition_system \<Rightarrow> variable_range \<Rightarrow> variable_range \<Rightarrow> variable_range \<Rightarrow> variable_range \<Rightarrow>
   assignment \<Rightarrow> assignment" where
  "renamed sys ins here there aux \<tau> v =
     (case get_var_info sys v of
       Some (Input_var, p) \<Rightarrow> \<tau> (vr_nth ins p)
     | Some (State_var, p) \<Rightarrow> \<tau> (vr_nth here p)
     | Some (Next_state_var, p) \<Rightarrow> \<tau> (vr_nth there p)
     | Some (Auxiliary_var, p) \<Rightarrow> \<tau> (vr_nth aux p)
     | None \<Rightarrow> False)"

definition copy_of :: "variable_range \<Rightarrow> variable_range \<Rightarrow> bool" where
  "copy_of r q \<longleftrightarrow> range_ok q \<and> vr_size q = vr_size r"

definition copies_of ::
  "transition_system \<Rightarrow> variable_range \<Rightarrow> variable_range \<Rightarrow> variable_range \<Rightarrow> variable_range \<Rightarrow> bool" where
  "copies_of sys ins here there aux \<longleftrightarrow>
     copy_of (input_vars sys) ins \<and> copy_of (state_vars sys) here \<and>
     copy_of (next_state_vars sys) there \<and> copy_of (aux_vars sys) aux"

lemma copy_nth:
  assumes "copy_of r q" and "vr_contains r v"
  shows "vr_contains q (vr_nth q (vr_offset r v))" and "0 < var_id (vr_nth q (vr_offset r v))"
proof -
  have "vr_contains q (vr_nth q (vr_offset r v))"
    using vr_offset_bounds [OF assms(2)] assms(1) by (intro vr_nth_contains) (auto simp: copy_of_def)
  with assms(1) show "vr_contains q (vr_nth q (vr_offset r v))" "0 < var_id (vr_nth q (vr_offset r v))"
    by (auto simp: copy_of_def vr_contains_pos)
qed

lemma read_copy:
  assumes "copy_of r q" and "\<And>v. vr_contains r v \<Longrightarrow> \<sigma> v = \<tau> (vr_nth q (vr_offset r v))"
  shows "read r \<sigma> = read q \<tau>"
proof (rule nth_equalityI)
  show "length (read r \<sigma>) = length (read q \<tau>)" using assms(1) by (simp add: copy_of_def)
next
  fix i assume "i < length (read r \<sigma>)"
  then have i: "i < nat (vr_size r)" "i < nat (vr_size q)" using assms(1) by (simp_all add: copy_of_def)
  then have "vr_contains r (vr_nth r (int i))" by (simp add: vr_nth_contains)
  from assms(2) [OF this] i show "read r \<sigma> ! i = read q \<tau> ! i"
    by (simp add: read_def vr_vars_nth)
qed

lemma read_renamed:
  assumes "well_formed_system sys" and "copies_of sys ins here there aux"
  shows "read (input_vars sys) (renamed sys ins here there aux \<tau>) = read ins \<tau>"
    and "read (state_vars sys) (renamed sys ins here there aux \<tau>) = read here \<tau>"
    and "read (next_state_vars sys) (renamed sys ins here there aux \<tau>) = read there \<tau>"
    and "read (aux_vars sys) (renamed sys ins here there aux \<tau>) = read aux \<tau>"
  using assms
  by (auto intro!: read_copy simp: copies_of_def renamed_def get_var_info_input get_var_info_state
      get_var_info_next get_var_info_aux)

lemma var_info_cases:
  assumes "well_formed_system sys"
    and "\<exists>r \<in> {input_vars sys, state_vars sys, next_state_vars sys, aux_vars sys}. vr_contains r v"
  obtains (input) "get_var_info sys v = Some (Input_var, vr_offset (input_vars sys) v)"
      "vr_contains (input_vars sys) v"
  | (state) "get_var_info sys v = Some (State_var, vr_offset (state_vars sys) v)"
      "vr_contains (state_vars sys) v"
  | (succ) "get_var_info sys v = Some (Next_state_var, vr_offset (next_state_vars sys) v)"
      "vr_contains (next_state_vars sys) v"
  | (aux) "get_var_info sys v = Some (Auxiliary_var, vr_offset (aux_vars sys) v)"
      "vr_contains (aux_vars sys) v"
  using assms get_var_info_input get_var_info_state get_var_info_next get_var_info_aux
  by (elim bexE insertE emptyE) blast+

lemma lit_true_iff: "lit_true \<sigma> l \<longleftrightarrow> \<sigma> (lit_var l) = lit_sign l"
  by (simp add: lit_true_def)

lemma trans_literal_ok:
  assumes "well_formed_system sys" and "copies_of sys ins here there aux"
    and "\<exists>r \<in> {input_vars sys, state_vars sys, next_state_vars sys, aux_vars sys}.
           vr_contains r (lit_var l)"
  shows "\<exists>l'. trans_literal sys ins here there aux l = Some l' \<and> l' \<noteq> separator \<and>
           lit_true \<tau> l' = lit_true (renamed sys ins here there aux \<tau>) l"
  using assms(1,3)
proof (cases rule: var_info_cases)
  case input
  with assms(2) show ?thesis
    by (simp add: trans_literal_def renamed_def lit_true_iff [of _ l] copies_of_def copy_nth(2))
next
  case state
  with assms(2) show ?thesis
    by (simp add: trans_literal_def renamed_def lit_true_iff [of _ l] copies_of_def copy_nth(2))
next
  case succ
  with assms(2) show ?thesis
    by (simp add: trans_literal_def renamed_def lit_true_iff [of _ l] copies_of_def copy_nth(2))
next
  case aux
  with assms(2) show ?thesis
    by (simp add: trans_literal_def renamed_def lit_true_iff [of _ l] copies_of_def copy_nth(2))
qed

lemma error_literal_trans:
  assumes "well_formed_system sys" and "\<not> vr_contains (next_state_vars sys) (lit_var l)"
    and "\<exists>r \<in> {input_vars sys, state_vars sys, next_state_vars sys, aux_vars sys}.
           vr_contains r (lit_var l)"
  shows "error_literal sys ins here aux l = trans_literal sys ins here there aux l"
  using assms(1,3)
  by (cases rule: var_info_cases) (use assms(2) in \<open>simp_all add: error_literal_def trans_literal_def\<close>)

lemma error_not_next:
  assumes "well_formed_system sys" and "l \<in> set (cnf_literals (ts_error sys))" and "l \<noteq> separator"
  shows "\<not> vr_contains (next_state_vars sys) (lit_var l)"
    and "\<exists>r \<in> {input_vars sys, state_vars sys, next_state_vars sys, aux_vars sys}.
           vr_contains r (lit_var l)"
  using assms by (auto simp: well_formed_system_def formula_over_def dest: ranges_apartD)

text \<open>The copies of the two formulas are defined and mean the formulas, pulled back.\<close>

definition step_at ::
  "transition_system \<Rightarrow> variable_range \<Rightarrow> variable_range \<Rightarrow> variable_range \<Rightarrow> variable_range \<Rightarrow>
   assignment \<Rightarrow> bool" where
  "step_at sys ins here there aux \<tau> \<longleftrightarrow> cnf_sat (renamed sys ins here there aux \<tau>) (ts_trans sys)"

definition error_at ::
  "transition_system \<Rightarrow> variable_range \<Rightarrow> variable_range \<Rightarrow> variable_range \<Rightarrow> variable_range \<Rightarrow>
   assignment \<Rightarrow> bool" where
  "error_at sys ins here there aux \<tau> \<longleftrightarrow> cnf_sat (renamed sys ins here there aux \<tau>) (ts_error sys)"

lemma trans_copy:
  assumes "well_formed_system sys" and "copies_of sys ins here there aux"
  obtains f where "cnf_map (ts_trans sys) (trans_literal sys ins here there aux) = Some f"
    and "well_formed_cnf f" and "\<And>\<tau>. cnf_sat \<tau> f \<longleftrightarrow> step_at sys ins here there aux \<tau>"
proof -
  have over: "\<exists>r \<in> {input_vars sys, state_vars sys, next_state_vars sys, aux_vars sys}.
      vr_contains r (lit_var l)"
    if "l \<in> set (cnf_literals (ts_trans sys))" "l \<noteq> separator" for l
    using assms(1) that by (auto simp: well_formed_system_def formula_over_def)
  note lit = trans_literal_ok [OF assms over]
  have "\<exists>ls. map_literals (trans_literal sys ins here there aux) (cnf_literals (ts_trans sys)) = Some ls"
    using lit by (intro map_literals_defined) force
  then obtain f where f: "cnf_map (ts_trans sys) (trans_literal sys ins here there aux) = Some f"
    by (auto simp: cnf_map_def)
  moreover have "well_formed_cnf f"
    by (rule well_formed_map [OF f])
      (use assms(1) in \<open>simp add: well_formed_system_def formula_over_def\<close>)
  moreover have "cnf_sat \<tau> f \<longleftrightarrow> step_at sys ins here there aux \<tau>" for \<tau>
    unfolding step_at_def by (rule cnf_sat_map [OF f]) (use lit in force)
  ultimately show thesis using that by blast
qed

lemma error_copy:
  assumes "well_formed_system sys" and "copies_of sys ins here there aux"
  obtains f where "cnf_map (ts_error sys) (error_literal sys ins here aux) = Some f"
    and "well_formed_cnf f" and "\<And>\<tau>. cnf_sat \<tau> f \<longleftrightarrow> error_at sys ins here there aux \<tau>"
proof -
  have lit: "\<exists>l'. error_literal sys ins here aux l = Some l' \<and> l' \<noteq> separator \<and>
      lit_true \<tau> l' = lit_true (renamed sys ins here there aux \<tau>) l"
    if "l \<in> set (cnf_literals (ts_error sys))" "l \<noteq> separator" for l \<tau>
    using trans_literal_ok [OF assms, of l \<tau>] error_not_next [OF assms(1) that]
      error_literal_trans [OF assms(1)] by metis
  have "\<exists>ls. map_literals (error_literal sys ins here aux) (cnf_literals (ts_error sys)) = Some ls"
    using lit by (intro map_literals_defined) force
  then obtain f where f: "cnf_map (ts_error sys) (error_literal sys ins here aux) = Some f"
    by (auto simp: cnf_map_def)
  moreover have "well_formed_cnf f"
    by (rule well_formed_map [OF f])
      (use assms(1) in \<open>simp add: well_formed_system_def formula_over_def\<close>)
  moreover have "cnf_sat \<tau> f \<longleftrightarrow> error_at sys ins here there aux \<tau>" for \<tau>
    unfolding error_at_def by (rule cnf_sat_map [OF f]) (use lit in force)
  ultimately show thesis using that by blast
qed

section \<open>What the copies mean\<close>

lemma step_at_sound:
  assumes "well_formed_system sys" and "copies_of sys ins here there aux"
    and "step_at sys ins here there aux \<tau>"
  shows "trans_step sys (read here \<tau>) (read ins \<tau>) (read there \<tau>)"
  using assms(3) read_renamed [OF assms(1,2), of \<tau>] unfolding trans_step_def step_at_def by blast

lemma error_at_sound:
  assumes "well_formed_system sys" and "copies_of sys ins here there aux"
    and "error_at sys ins here there aux \<tau>"
  shows "error_state sys (read here \<tau>) (read ins \<tau>)"
  using assms(3) read_renamed [OF assms(1,2), of \<tau>] unfolding error_state_def error_at_def by blast

lemma renamed_sat:
  assumes "well_formed_system sys" and "copies_of sys ins here there aux"
    and "formula_over [input_vars sys, state_vars sys, next_state_vars sys, aux_vars sys] f"
    and "read (input_vars sys) \<sigma> = read ins \<tau>" and "read (state_vars sys) \<sigma> = read here \<tau>"
    and "read (next_state_vars sys) \<sigma> = read there \<tau>" and "read (aux_vars sys) \<sigma> = read aux \<tau>"
  shows "cnf_sat (renamed sys ins here there aux \<tau>) f = cnf_sat \<sigma> f"
proof (rule formula_over_cong [OF assms(3)])
  note r = read_renamed [OF assms(1,2), of \<tau>]
  fix q v assume "q \<in> set [input_vars sys, state_vars sys, next_state_vars sys, aux_vars sys]"
    and "vr_contains q v"
  moreover from this(1) have "read q (renamed sys ins here there aux \<tau>) = read q \<sigma>"
    using r assms(4-7) by auto
  ultimately show "renamed sys ins here there aux \<tau> v = \<sigma> v" by (blast dest: read_eqD)
qed

lemma step_at_cong:
  assumes "well_formed_system sys" and "copies_of sys ins here there aux"
    and "read ins \<tau> = read ins \<tau>'" and "read here \<tau> = read here \<tau>'"
    and "read there \<tau> = read there \<tau>'" and "read aux \<tau> = read aux \<tau>'"
  shows "step_at sys ins here there aux \<tau> = step_at sys ins here there aux \<tau>'"
  unfolding step_at_def
  by (rule renamed_sat [OF assms(1,2)])
    (use assms read_renamed [OF assms(1,2), of \<tau>'] in \<open>simp_all add: well_formed_system_def\<close>)

lemma error_over_all:
  "well_formed_system sys \<Longrightarrow>
   formula_over [input_vars sys, state_vars sys, next_state_vars sys, aux_vars sys] (ts_error sys)"
  by (auto simp: well_formed_system_def formula_over_def)

lemma error_at_cong:
  assumes "well_formed_system sys" and "copies_of sys ins here there aux"
    and "copies_of sys ins here there' aux"
    and "read ins \<tau> = read ins \<tau>'" and "read here \<tau> = read here \<tau>'" and "read aux \<tau> = read aux \<tau>'"
  shows "error_at sys ins here there aux \<tau> = error_at sys ins here there' aux \<tau>'"
proof -
  have "formula_over [input_vars sys, state_vars sys, aux_vars sys] (ts_error sys)"
    using assms(1) by (simp add: well_formed_system_def)
  then show ?thesis
    unfolding error_at_def
  proof (rule formula_over_cong)
    note r = read_renamed [OF assms(1,2), of \<tau>] read_renamed [OF assms(1,3), of \<tau>']
    fix q v assume "q \<in> set [input_vars sys, state_vars sys, aux_vars sys]" and "vr_contains q v"
    moreover from this(1)
    have "read q (renamed sys ins here there aux \<tau>) = read q (renamed sys ins here there' aux \<tau>')"
      using r assms(4-6) by auto
    ultimately show "renamed sys ins here there aux \<tau> v = renamed sys ins here there' aux \<tau>' v"
      by (blast dest: read_eqD)
  qed
qed

text \<open>A transition of the system, laid down in the copies above a state.\<close>

lemma step_at_complete:
  assumes "well_formed_system sys" and "copies_of sys ins here there aux"
    and "ranges_apart ins here" "ranges_apart there here" "ranges_apart aux here"
      "ranges_apart ins there" "ranges_apart ins aux" "ranges_apart there aux"
    and "trans_step sys (read here \<tau>) i t"
  obtains \<tau>' where "step_at sys ins here there aux \<tau>'" and "read ins \<tau>' = i" and "read there \<tau>' = t"
    and "\<And>r. ranges_apart r ins \<Longrightarrow> ranges_apart r there \<Longrightarrow> ranges_apart r aux \<Longrightarrow> read r \<tau>' = read r \<tau>"
proof -
  obtain \<sigma> where \<sigma>: "cnf_sat \<sigma> (ts_trans sys)" "read (state_vars sys) \<sigma> = read here \<tau>"
    "read (input_vars sys) \<sigma> = i" "read (next_state_vars sys) \<sigma> = t"
    using assms(9) by (auto simp: trans_step_def)
  define \<tau>' where
    "\<tau>' = put_range ins i (put_range there t (put_range aux (read (aux_vars sys) \<sigma>) \<tau>))"
  have len: "length i = nat (vr_size ins)" "length t = nat (vr_size there)"
    "length (read (aux_vars sys) \<sigma>) = nat (vr_size aux)"
    using \<sigma>(3,4) assms(2) by (auto simp: copies_of_def copy_of_def)
  have keep: "read r \<tau>' = read r \<tau>"
    if "ranges_apart r ins" "ranges_apart r there" "ranges_apart r aux" for r
    using that by (simp add: \<tau>'_def read_put_range_apart)
  have new: "read ins \<tau>' = i" "read there \<tau>' = t" "read aux \<tau>' = read (aux_vars sys) \<sigma>"
    using len assms(6-8) by (simp_all add: \<tau>'_def read_put_range_apart ranges_apart_commute)
  have "read here \<tau>' = read here \<tau>"
    using assms(3-5) by (intro keep) (simp_all add: ranges_apart_commute)
  then have "step_at sys ins here there aux \<tau>'"
    unfolding step_at_def
    using renamed_sat [OF assms(1,2), of "ts_trans sys" \<sigma> \<tau>'] \<sigma> new assms(1)
    by (simp add: well_formed_system_def)
  with new(1,2) keep that show thesis by blast
qed

lemma error_at_complete:
  assumes "well_formed_system sys" and "copies_of sys ins here there aux"
    and "ranges_apart ins here" "ranges_apart aux here" "ranges_apart ins aux"
    and "error_state sys (read here \<tau>) i"
  obtains \<tau>' where "error_at sys ins here there aux \<tau>'" and "read ins \<tau>' = i"
    and "\<And>r. ranges_apart r ins \<Longrightarrow> ranges_apart r aux \<Longrightarrow> read r \<tau>' = read r \<tau>"
proof -
  obtain \<sigma> where \<sigma>: "cnf_sat \<sigma> (ts_error sys)" "read (state_vars sys) \<sigma> = read here \<tau>"
    "read (input_vars sys) \<sigma> = i"
    using assms(6) by (auto simp: error_state_def)
  define \<tau>' where "\<tau>' = put_range ins i (put_range aux (read (aux_vars sys) \<sigma>) \<tau>)"
  have len: "length i = nat (vr_size ins)" "length (read (aux_vars sys) \<sigma>) = nat (vr_size aux)"
    using \<sigma>(3) assms(2) by (auto simp: copies_of_def copy_of_def)
  have keep: "read r \<tau>' = read r \<tau>" if "ranges_apart r ins" "ranges_apart r aux" for r
    using that by (simp add: \<tau>'_def read_put_range_apart)
  have new: "read ins \<tau>' = i" "read aux \<tau>' = read (aux_vars sys) \<sigma>"
    using len assms(5) by (simp_all add: \<tau>'_def read_put_range_apart ranges_apart_commute)
  have here: "read here \<tau>' = read here \<tau>"
    using assms(3,4) by (intro keep) (simp_all add: ranges_apart_commute)
  have "formula_over [input_vars sys, state_vars sys, aux_vars sys] (ts_error sys)"
    using assms(1) by (simp add: well_formed_system_def)
  then have "cnf_sat (renamed sys ins here there aux \<tau>') (ts_error sys) = cnf_sat \<sigma> (ts_error sys)"
  proof (rule formula_over_cong)
    fix q v assume "q \<in> set [input_vars sys, state_vars sys, aux_vars sys]" and "vr_contains q v"
    moreover from this(1) have "read q (renamed sys ins here there aux \<tau>') = read q \<sigma>"
      using read_renamed [OF assms(1,2), of \<tau>'] \<sigma> new here by auto
    ultimately show "renamed sys ins here there aux \<tau>' v = \<sigma> v" by (blast dest: read_eqD)
  qed
  with \<sigma>(1) have "error_at sys ins here there aux \<tau>'" by (simp add: error_at_def)
  with new(1) keep that show thesis by blast
qed


section \<open>The lists of copies\<close>

text \<open>
  Copies \<open>0\<close> to \<open>T\<close> of the states, inputs and auxiliary variables, the first being the system's own
  ranges, all below the next identifier \<open>N\<close> and pairwise disjoint.
\<close>

definition copies_ok ::
  "transition_system \<Rightarrow> int \<Rightarrow> variable_range list \<Rightarrow> variable_range list \<Rightarrow> variable_range list \<Rightarrow>
   nat \<Rightarrow> bool" where
  "copies_ok sys N S I A T \<longleftrightarrow>
     length S = Suc T \<and> length I = Suc T \<and> length A = Suc T \<and>
     S ! 0 = state_vars sys \<and> I ! 0 = input_vars sys \<and> A ! 0 = aux_vars sys \<and>
     (\<forall>r \<in> set S. copy_of (state_vars sys) r) \<and>
     (\<forall>r \<in> set I. copy_of (input_vars sys) r) \<and>
     (\<forall>r \<in> set A. copy_of (aux_vars sys) r) \<and>
     (\<forall>r \<in> set (S @ I @ A). vr_end r \<le> N) \<and>
     sorted_wrt ranges_apart (S @ I @ A)"

lemma copies_ok_start:
  assumes "well_formed_system sys"
    and "vr_end (state_vars sys) \<le> N" "vr_end (input_vars sys) \<le> N" "vr_end (aux_vars sys) \<le> N"
  shows "copies_ok sys N [state_vars sys] [input_vars sys] [aux_vars sys] 0"
  using assms by (auto simp: copies_ok_def copy_of_def well_formed_system_def ranges_apart_commute)

lemma copies_ok_mono: "copies_ok sys N S I A T \<Longrightarrow> N \<le> N' \<Longrightarrow> copies_ok sys N' S I A T"
  by (force simp: copies_ok_def)

lemma copies_ok_extend:
  assumes "copies_ok sys N S I A T" and "0 < N"
    and "s = \<lparr>vr_begin = N, vr_end = N + vr_size (state_vars sys)\<rparr>"
    and "i = \<lparr>vr_begin = vr_end s, vr_end = vr_end s + vr_size (input_vars sys)\<rparr>"
    and "a = \<lparr>vr_begin = vr_end i, vr_end = vr_end i + vr_size (aux_vars sys)\<rparr>"
    and "well_formed_system sys"
  shows "copies_ok sys (vr_end a) (S @ [s]) (I @ [i]) (A @ [a]) (Suc T)"
proof -
  have sz: "0 \<le> vr_size (state_vars sys)" "0 \<le> vr_size (input_vars sys)" "0 \<le> vr_size (aux_vars sys)"
    using assms(6) by (simp_all add: well_formed_system_def range_ok_def vr_size_def)
  have new: "copy_of (state_vars sys) s" "copy_of (input_vars sys) i" "copy_of (aux_vars sys) a"
    using assms(2-5) sz by (simp_all add: copy_of_def range_ok_def) (simp_all add: vr_size_def)
  have le: "vr_end s \<le> vr_end a" "vr_end i \<le> vr_end a" "N \<le> vr_begin s" "N \<le> vr_begin i"
    "N \<le> vr_begin a" "vr_end s \<le> vr_begin i" "vr_end s \<le> vr_begin a" "vr_end i \<le> vr_begin a" "N \<le> vr_end a"
    using assms(3-5) sz by simp_all
  have old: "vr_end r \<le> N" if "r \<in> set S \<union> set I \<union> set A" for r
    using assms(1) that by (auto simp: copies_ok_def)
  have apart: "ranges_apart r q" if "r \<in> set S \<union> set I \<union> set A" "q \<in> {s, i, a}" for r q
    using old [OF that(1)] that(2) le(3-5) by (auto simp: ranges_apart_def)
  have apart': "ranges_apart q r" if "r \<in> set S \<union> set I \<union> set A" "q \<in> {s, i, a}" for r q
    using apart [OF that] by (simp add: ranges_apart_commute)
  have among: "ranges_apart s i" "ranges_apart s a" "ranges_apart i a"
    using le by (simp_all add: ranges_apart_def)
  have srt: "sorted_wrt ranges_apart (S @ I @ A)" using assms(1) by (simp add: copies_ok_def)
  have "sorted_wrt ranges_apart ((S @ [s]) @ (I @ [i]) @ (A @ [a]))"
    using srt apart apart' among by (auto simp: sorted_wrt_append)
  moreover have "\<forall>r \<in> set ((S @ [s]) @ (I @ [i]) @ (A @ [a])). vr_end r \<le> vr_end a"
    using old le by force
  moreover have "S \<noteq> []" "I \<noteq> []" "A \<noteq> []" using assms(1) by (auto simp: copies_ok_def)
  ultimately show ?thesis
    using assms(1) new by (auto simp: copies_ok_def nth_append)
qed

lemma copies_ok_nth:
  assumes "copies_ok sys N S I A T" and "j \<le> T"
  shows "copy_of (input_vars sys) (I ! j)" "copy_of (state_vars sys) (S ! j)"
    "copy_of (aux_vars sys) (A ! j)"
  using assms by (simp_all add: copies_ok_def)

lemma copies_ok_copies_of:
  assumes "copies_ok sys N S I A T" and "well_formed_system sys" and "j \<le> T" and "k \<le> T"
  shows "copies_of sys (I ! j) (S ! j) (S ! k) (A ! j)"
  using copies_ok_nth [OF assms(1,3)] copies_ok_nth [OF assms(1,4)] assms(2)
  by (simp add: copies_of_def copy_of_def well_formed_system_def)

lemma copies_ok_apart:
  assumes "copies_ok sys N S I A T" and "j \<le> T" and "k \<le> T"
  shows "ranges_apart (S ! j) (I ! k)" "ranges_apart (S ! j) (A ! k)" "ranges_apart (I ! j) (A ! k)"
  using assms by (auto simp: copies_ok_def sorted_wrt_append)

lemma copies_ok_apart_same:
  assumes "copies_ok sys N S I A T" and "j \<le> T" and "k \<le> T" and "j \<noteq> k"
  shows "ranges_apart (S ! j) (S ! k)" "ranges_apart (I ! j) (I ! k)" "ranges_apart (A ! j) (A ! k)"
proof -
  have *: "ranges_apart (xs ! j) (xs ! k)" if "sorted_wrt ranges_apart xs" "length xs = Suc T" for xs
    using sorted_wrt_nth_less [OF that(1), of j k] sorted_wrt_nth_less [OF that(1), of k j] that(2) assms(2-4)
    by (cases "j < k") (simp_all add: ranges_apart_commute)
  show "ranges_apart (S ! j) (S ! k)" "ranges_apart (I ! j) (I ! k)" "ranges_apart (A ! j) (A ! k)"
    using assms(1) by (auto intro!: * simp: copies_ok_def sorted_wrt_append)
qed

section \<open>Paths in the copies\<close>

definition step_of ::
  "transition_system \<Rightarrow> variable_range list \<Rightarrow> variable_range list \<Rightarrow> variable_range list \<Rightarrow> nat \<Rightarrow>
   assignment \<Rightarrow> bool" where
  "step_of sys S I A j \<tau> \<longleftrightarrow> step_at sys (I ! j) (S ! j) (S ! Suc j) (A ! j) \<tau>"

definition error_of ::
  "transition_system \<Rightarrow> variable_range list \<Rightarrow> variable_range list \<Rightarrow> variable_range list \<Rightarrow> nat \<Rightarrow>
   assignment \<Rightarrow> bool" where
  "error_of sys S I A j \<tau> \<longleftrightarrow> error_at sys (I ! j) (S ! j) (S ! j) (A ! j) \<tau>"

lemma copies_path:
  assumes "copies_ok sys N S I A T" and "well_formed_system sys" and "k \<le> T"
    and "\<forall>j < k. step_of sys S I A j \<tau>"
  shows "path sys (read (S ! 0) \<tau>) (map (\<lambda>j. read (I ! j) \<tau>) [0..<k]) (read (S ! k) \<tau>)"
  using assms(3,4)
proof (induction k)
  case 0
  then show ?case by simp
next
  case (Suc k)
  have "trans_step sys (read (S ! k) \<tau>) (read (I ! k) \<tau>) (read (S ! Suc k) \<tau>)"
    using Suc.prems assms(2) copies_ok_copies_of [OF assms(1,2), of k "Suc k"]
    by (intro step_at_sound [where aux = "A ! k"]) (auto simp: step_of_def)
  with Suc show ?case by (auto simp: path_append)
qed

lemma path_copies:
  assumes ok: "copies_ok sys N S I A T" and wf: "well_formed_system sys"
  shows "length is \<le> T \<Longrightarrow> path sys s is t \<Longrightarrow> length s = nat (vr_size (state_vars sys)) \<Longrightarrow>
    \<exists>\<tau>. read (S ! 0) \<tau> = s \<and> read (S ! length is) \<tau> = t \<and>
        (\<forall>j < length is. step_of sys S I A j \<tau> \<and> read (I ! j) \<tau> = is ! j)"
proof (induction "is" arbitrary: t rule: rev_induct)
  case Nil
  then have "read (S ! 0) (put_range (S ! 0) s (\<lambda>_. False)) = s"
    using copies_ok_nth(2) [OF ok, of 0] by (simp add: copy_of_def)
  with Nil show ?case by auto
next
  case (snoc i "is")
  let ?k = "length is"
  have k: "?k \<le> T" "Suc ?k \<le> T" using snoc.prems by auto
  from snoc.prems obtain u where u: "path sys s is u" "trans_step sys u i t"
    by (auto simp: path_append)
  from snoc.IH [OF k(1) u(1) snoc.prems(3)] obtain \<tau> where
    \<tau>: "read (S ! 0) \<tau> = s" "read (S ! ?k) \<tau> = u"
    "\<forall>j < ?k. step_of sys S I A j \<tau> \<and> read (I ! j) \<tau> = is ! j" by blast
  note c = copies_ok_copies_of [OF ok wf]
  note apart = copies_ok_apart [OF ok] copies_ok_apart_same [OF ok]
  obtain \<tau>' where \<tau>': "step_at sys (I ! ?k) (S ! ?k) (S ! Suc ?k) (A ! ?k) \<tau>'"
    "read (I ! ?k) \<tau>' = i" "read (S ! Suc ?k) \<tau>' = t"
    "\<And>r. ranges_apart r (I ! ?k) \<Longrightarrow> ranges_apart r (S ! Suc ?k) \<Longrightarrow> ranges_apart r (A ! ?k) \<Longrightarrow>
       read r \<tau>' = read r \<tau>"
  proof (rule step_at_complete [OF wf c [OF k(1) k(2)]])
    show "ranges_apart (I ! ?k) (S ! ?k)" "ranges_apart (A ! ?k) (S ! ?k)"
      "ranges_apart (I ! ?k) (S ! Suc ?k)" "ranges_apart (S ! Suc ?k) (A ! ?k)"
      "ranges_apart (I ! ?k) (A ! ?k)" "ranges_apart (S ! Suc ?k) (S ! ?k)"
      using apart [of ?k ?k] apart [of "Suc ?k" ?k] k by (simp_all add: ranges_apart_commute)
    show "trans_step sys (read (S ! ?k) \<tau>) i t" using u(2) \<tau>(2) by simp
  qed blast
  have S: "read (S ! j) \<tau>' = read (S ! j) \<tau>" if "j \<le> ?k" for j
    using that k apart [of j ?k] apart [of j "Suc ?k"] by (intro \<tau>'(4)) simp_all
  have I: "read (I ! j) \<tau>' = read (I ! j) \<tau>" "read (A ! j) \<tau>' = read (A ! j) \<tau>" if "j < ?k" for j
    using that k apart [of j ?k] apart [of ?k j] apart [of "Suc ?k" j]
    by (auto intro!: \<tau>'(4) simp: ranges_apart_commute)
  have "step_of sys S I A j \<tau>' \<and> read (I ! j) \<tau>' = is ! j" if "j < ?k" for j
  proof -
    have "step_of sys S I A j \<tau>' = step_of sys S I A j \<tau>"
      unfolding step_of_def
      by (rule step_at_cong [OF wf c]) (use that k S I in auto)
    with \<tau>(3) that I(1) [OF that] show ?thesis by simp
  qed
  moreover have "step_of sys S I A ?k \<tau>'" using \<tau>'(1) by (simp add: step_of_def)
  ultimately have "\<forall>j < length (is @ [i]). step_of sys S I A j \<tau>' \<and> read (I ! j) \<tau>' = (is @ [i]) ! j"
    using \<tau>'(2) by (auto simp: nth_append less_Suc_eq)
  moreover have "read (S ! 0) \<tau>' = s" using S [of 0] \<tau>(1) by simp
  moreover have "read (S ! length (is @ [i])) \<tau>' = t" using \<tau>'(3) by simp
  ultimately show ?case by blast
qed

text \<open>Together: \<open>k\<close> copies of the transitions and a copy of the error formula are error traces.\<close>

lemma copies_error_trace:
  assumes "copies_ok sys N S I A T" and "well_formed_system sys" and "k \<le> T"
    and "\<forall>j < k. step_of sys S I A j \<tau>" and "error_of sys S I A k \<tau>"
  shows "error_trace sys (read (S ! 0) \<tau>) (map (\<lambda>j. read (I ! j) \<tau>) [0..<Suc k])"
proof -
  have "error_state sys (read (S ! k) \<tau>) (read (I ! k) \<tau>)"
    using assms(3,5) copies_ok_copies_of [OF assms(1,2), of k k]
    by (intro error_at_sound [OF assms(2), where aux = "A ! k"]) (auto simp: error_of_def)
  with copies_path [OF assms(1-4)] show ?thesis by (auto simp: error_trace_def)
qed

lemma error_trace_copies:
  assumes ok: "copies_ok sys N S I A T" and wf: "well_formed_system sys" and k: "k \<le> T"
    and "init_state sys s" and "error_trace sys s is" and "length is = Suc k"
  obtains \<tau> where "cnf_sat \<tau> (ts_init sys)" and "\<forall>j < k. step_of sys S I A j \<tau>"
    and "error_of sys S I A k \<tau>"
proof -
  from assms(5,6) obtain js i t where js: "is = js @ [i]" "length js = k" "path sys s js t"
    "error_state sys t i"
    by (cases "is" rule: rev_cases) (auto simp: error_trace_def)
  have "length s = nat (vr_size (state_vars sys))"
    using init_state_length [OF assms(4)] by (simp add: all_states_def num_state_vars_def)
  from path_copies [OF ok wf _ js(3) this] js(2) k obtain \<tau> where
    \<tau>: "read (S ! 0) \<tau> = s" "read (S ! k) \<tau> = t" "\<forall>j < k. step_of sys S I A j \<tau>" by auto
  note c = copies_ok_copies_of [OF ok wf]
  note apart = copies_ok_apart [OF ok] copies_ok_apart_same [OF ok]
  obtain \<tau>' where \<tau>': "error_at sys (I ! k) (S ! k) (S ! k) (A ! k) \<tau>'"
    "\<And>r. ranges_apart r (I ! k) \<Longrightarrow> ranges_apart r (A ! k) \<Longrightarrow> read r \<tau>' = read r \<tau>"
  proof (rule error_at_complete [OF wf c [OF k k]])
    show "ranges_apart (I ! k) (S ! k)" "ranges_apart (A ! k) (S ! k)" "ranges_apart (I ! k) (A ! k)"
      using apart [of k k] k by (simp_all add: ranges_apart_commute)
    show "error_state sys (read (S ! k) \<tau>) i" using js(4) \<tau>(2) by simp
  qed blast
  have S: "read (S ! j) \<tau>' = read (S ! j) \<tau>" if "j \<le> k" for j
    using that k apart [of j k] by (intro \<tau>'(2)) simp_all
  have I: "read (I ! j) \<tau>' = read (I ! j) \<tau>" "read (A ! j) \<tau>' = read (A ! j) \<tau>" if "j < k" for j
    using that k apart [of j k] apart [of k j] by (auto intro!: \<tau>'(2) simp: ranges_apart_commute)
  have "step_of sys S I A j \<tau>' = step_of sys S I A j \<tau>" if "j < k" for j
    unfolding step_of_def by (rule step_at_cong [OF wf c]) (use that k S I in auto)
  with \<tau>(3) have "\<forall>j < k. step_of sys S I A j \<tau>'" by simp
  moreover have "error_of sys S I A k \<tau>'" using \<tau>'(1) by (simp add: error_of_def)
  moreover have "cnf_sat \<tau>' (ts_init sys)"
  proof -
    have "read (state_vars sys) \<tau>' = s" using S [of 0] \<tau>(1) ok by (simp add: copies_ok_def)
    with assms(4) show ?thesis using init_state_read [OF wf] by blast
  qed
  ultimately show thesis using that by blast
qed

text \<open>Assignments that agree on the copies agree on the formulas.\<close>

lemma step_of_cong:
  assumes "copies_ok sys N S I A T" and "well_formed_system sys" and "j < T"
    and "\<And>r. r \<in> set (S @ I @ A) \<Longrightarrow> read r \<tau> = read r \<tau>'"
  shows "step_of sys S I A j \<tau> = step_of sys S I A j \<tau>'"
  unfolding step_of_def
  by (rule step_at_cong [OF assms(2) copies_ok_copies_of [OF assms(1,2)]])
    (use assms(1,3) in \<open>auto intro!: assms(4) nth_mem simp: copies_ok_def\<close>)

lemma error_of_cong:
  assumes "copies_ok sys N S I A T" and "well_formed_system sys" and "j \<le> T"
    and "\<And>r. r \<in> set (S @ I @ A) \<Longrightarrow> read r \<tau> = read r \<tau>'"
  shows "error_of sys S I A j \<tau> = error_of sys S I A j \<tau>'"
  unfolding error_of_def
  by (rule error_at_cong [OF assms(2) copies_ok_copies_of [OF assms(1,2)] copies_ok_copies_of [OF assms(1,2)]])
    (use assms(1,3) in \<open>auto intro!: assms(4) nth_mem simp: copies_ok_def\<close>)

end
