(* ===== verification/BmcCorrect.thy ===== *)
theory BmcCorrect
  imports BmcCopies
begin

text \<open>
  Correctness of bounded model checking. \<open>bmc_inv\<close> is the invariant of the engine: the copies of
  the variables are in order, the cached formulas are the copies of the transition formula, and
  the solver holds the initial formula, the transitions of the steps in \<open>L\<close> and the activated
  error formulas of the steps from \<open>b\<close> on. \<open>check_for\<close> then decides whether an error trace with a
  given number of inputs exists, and \<open>run\<close> returns the shortest one up to the bound.
\<close>

section \<open>Making variables\<close>

lemma get_name_defined: "0 \<le> var_id v \<Longrightarrow> var_id v < get_next_id st \<Longrightarrow> \<exists>name. get_name st v = Some name"
  by (simp add: get_name_def get_next_id_def)

lemma those_defined: "(\<And>x. x \<in> set xs \<Longrightarrow> \<exists>y. f x = Some y) \<Longrightarrow> \<exists>ys. those (map f xs) = Some ys"
  by (induction xs) force+

lemma base_names_defined:
  assumes "range_ok r" and "vr_end r \<le> get_next_id st"
  shows "\<exists>names. base_names st r = Some names"
  unfolding base_names_def
  by (rule those_defined, rule get_name_defined)
    (use assms in \<open>auto simp: vr_nth_def range_ok_def vr_size_def\<close>)

lemma make_version_defined:
  assumes "range_ok r" and "vr_end r \<le> get_next_id st"
  obtains q st' where "make_version r step st = Some (q, st')"
    and "q = \<lparr>vr_begin = get_next_id st, vr_end = get_next_id st + vr_size r\<rparr>"
    and "get_next_id st' = vr_end q" and "get_next_id st \<le> get_next_id st'"
proof -
  obtain names where n: "base_names st r = Some names" using base_names_defined [OF assms] by blast
  have sz: "0 \<le> vr_size r" using assms(1) by (simp add: range_ok_def vr_size_def)
  obtain q st' where m: "make_range st (vr_size r)
      (\<lambda>i. names ! nat i @ ''/'' @ int_to_string (int step)) = (q, st')" by (cases rule: prod.exhaust)
  have "make_version r step st = Some (q, st')"
    unfolding make_version_def n bind.bind_lunit m ..
  with make_range_bounds [OF sz m] sz show thesis by (intro that [of q st']) simp_all
qed

lemma make_vars_one:
  assumes "range_ok r" and "vr_end r \<le> get_next_id st" and "length versioned = Suc step"
  obtains q st' where "make_vars r step versioned st = Some (versioned @ [q], st')"
    and "q = \<lparr>vr_begin = get_next_id st, vr_end = get_next_id st + vr_size r\<rparr>"
    and "get_next_id st' = vr_end q" and "get_next_id st \<le> get_next_id st'"
proof -
  obtain q st' where m: "make_version r step st = Some (q, st')"
    "q = \<lparr>vr_begin = get_next_id st, vr_end = get_next_id st + vr_size r\<rparr>"
    "get_next_id st' = vr_end q" "get_next_id st \<le> get_next_id st'"
    by (rule make_version_defined [OF assms(1,2)])
  have "make_vars r step versioned st = make_vars r step (versioned @ [q]) st'"
    using assms(3) m(1) by (subst make_vars.simps) simp
  also have "\<dots> = Some (versioned @ [q], st')"
    using assms(3) by (subst make_vars.simps) simp
  finally show thesis using m(2-4) by (rule that)
qed

section \<open>The invariant\<close>

definition bmc_inv :: "transition_system \<Rightarrow> nat set \<Rightarrow> nat \<Rightarrow> bmc \<Rightarrow> bool" where
  "bmc_inv sys L b st \<longleftrightarrow>
     (let S = versioned_state_vars st; I = versioned_input_vars st; A = versioned_aux_vars st;
          T = length (versioned_trans st); N = get_next_id (bmc_store st); as = bmc_activators st
      in copies_ok sys N S I A T \<and> 0 < N \<and>
         (\<forall>j < T. well_formed_cnf (versioned_trans st ! j) \<and>
            (\<forall>\<tau>. cnf_sat \<tau> (versioned_trans st ! j) \<longleftrightarrow> step_of sys S I A j \<tau>)) \<and>
         (\<forall>l \<in> set as. 0 < lit_value l \<and> lit_value l < N \<and>
            (\<forall>r \<in> set (S @ I @ A). \<not> vr_contains r (lit_var l))) \<and>
         distinct as \<and> b + length as \<le> Suc T \<and> L \<subseteq> {..<T} \<and>
         idle (bmc_solver st) \<and> terminated (added (bmc_solver st)) \<and>
         (\<forall>\<tau>. stream_sat \<tau> (added (bmc_solver st)) \<longleftrightarrow>
            cnf_sat \<tau> (ts_init sys) \<and> (\<forall>j \<in> L. step_of sys S I A j \<tau>) \<and>
            (\<forall>m < length as. \<tau> (lit_var (as ! m)) \<longrightarrow> error_of sys S I A (b + m) \<tau>)))"

lemma step_of_append:
  assumes "length S = Suc T" "length I = Suc T" "length A = Suc T" and "j < T"
  shows "step_of sys (S @ [s]) (I @ [i]) (A @ [a]) j \<tau> = step_of sys S I A j \<tau>"
  using assms by (simp add: step_of_def nth_append)

lemma error_of_append:
  assumes "length S = Suc T" "length I = Suc T" "length A = Suc T" and "j \<le> T"
  shows "error_of sys (S @ [s]) (I @ [i]) (A @ [a]) j \<tau> = error_of sys S I A j \<tau>"
  using assms by (simp add: error_of_def nth_append)

lemma copies_ok_below:
  assumes "copies_ok sys N S I A T"
  shows "vr_end (state_vars sys) \<le> N" "vr_end (input_vars sys) \<le> N" "vr_end (aux_vars sys) \<le> N"
proof -
  have "S ! 0 \<in> set S" "I ! 0 \<in> set I" "A ! 0 \<in> set A"
    using assms nth_mem [of 0 S] nth_mem [of 0 I] nth_mem [of 0 A] by (simp_all add: copies_ok_def)
  with assms show "vr_end (state_vars sys) \<le> N" "vr_end (input_vars sys) \<le> N" "vr_end (aux_vars sys) \<le> N"
    by (auto simp: copies_ok_def)
qed

lemma make_trans_runs:
  assumes "bmc_inv sys L b st" and "well_formed_system sys" and "step \<le> length (versioned_trans st)"
  shows "runs (make_trans d sys st step) (\<lambda>(f, st').
    bmc_inv sys L b st' \<and> step < length (versioned_trans st') \<and> f = versioned_trans st' ! step \<and>
    length (versioned_trans st') = max (length (versioned_trans st)) (Suc step) \<and>
    bmc_activators st' = bmc_activators st)"
proof (cases "step < length (versioned_trans st)")
  case True
  then show ?thesis using assms(1) by (simp add: make_trans_def)
next
  case False
  then have step: "step = length (versioned_trans st)" using assms(3) by simp
  let ?N = "get_next_id (bmc_store st)"
  let ?S = "versioned_state_vars st" and ?I = "versioned_input_vars st" and ?A = "versioned_aux_vars st"
  have ok: "copies_ok sys ?N ?S ?I ?A step" and N: "0 < ?N"
    using assms(1) step by (simp_all add: bmc_inv_def Let_def)
  have len: "length ?S = Suc step" "length ?I = Suc step" "length ?A = Suc step"
    using ok by (simp_all add: copies_ok_def)
  have below: "vr_end (state_vars sys) \<le> ?N" "vr_end (input_vars sys) \<le> ?N" "vr_end (aux_vars sys) \<le> ?N"
    by (rule copies_ok_below [OF ok])+
  have rs: "range_ok (state_vars sys)" "range_ok (input_vars sys)" "range_ok (aux_vars sys)"
    using assms(2) by (simp_all add: well_formed_system_def)
  obtain s st1 where s: "make_vars (state_vars sys) step ?S (bmc_store st) = Some (?S @ [s], st1)"
    "s = \<lparr>vr_begin = ?N, vr_end = ?N + vr_size (state_vars sys)\<rparr>" "get_next_id st1 = vr_end s"
    "?N \<le> get_next_id st1"
    by (rule make_vars_one [OF rs(1) below(1) len(1)])
  have "vr_end (input_vars sys) \<le> get_next_id st1" using below(2) s(4) by simp
  then obtain i st2 where i: "make_vars (input_vars sys) step ?I st1 = Some (?I @ [i], st2)"
    "i = \<lparr>vr_begin = vr_end s, vr_end = vr_end s + vr_size (input_vars sys)\<rparr>" "get_next_id st2 = vr_end i"
    "get_next_id st1 \<le> get_next_id st2"
    by (rule make_vars_one [OF rs(2) _ len(2)]) (use s(3) in auto)
  have "vr_end (aux_vars sys) \<le> get_next_id st2" using below(3) s(4) i(4) by simp
  then obtain a st3 where a: "make_vars (aux_vars sys) step ?A st2 = Some (?A @ [a], st3)"
    "a = \<lparr>vr_begin = vr_end i, vr_end = vr_end i + vr_size (aux_vars sys)\<rparr>" "get_next_id st3 = vr_end a"
    "get_next_id st2 \<le> get_next_id st3"
    by (rule make_vars_one [OF rs(3) _ len(3)]) (use i(3) in auto)
  have ok': "copies_ok sys (get_next_id st3) (?S @ [s]) (?I @ [i]) (?A @ [a]) (Suc step)"
    unfolding a(3) by (rule copies_ok_extend [OF ok N s(2) i(2) a(2) assms(2)])
  have c: "copies_of sys (?I ! step) (?S ! step) s (?A ! step)"
    using copies_ok_copies_of [OF ok' assms(2), of step "Suc step"] len by (simp add: nth_append)
  obtain f where f: "cnf_map (ts_trans sys) (trans_literal sys (?I ! step) (?S ! step) s (?A ! step)) = Some f"
    "well_formed_cnf f" "\<And>\<tau>. cnf_sat \<tau> f \<longleftrightarrow> step_at sys (?I ! step) (?S ! step) s (?A ! step) \<tau>"
    using trans_copy [OF assms(2) c] by blast
  define st' where "st' = st\<lparr>bmc_store := st3, versioned_state_vars := ?S @ [s],
    versioned_input_vars := ?I @ [i], versioned_aux_vars := ?A @ [a],
    versioned_trans := versioned_trans st @ [f]\<rparr>"
  have m: "make_trans d sys st step = Some (f, st')"
    using step len s(1) i(1) a(1) f(1) by (simp add: make_trans_def nth_append st'_def)
  have le: "?N \<le> get_next_id st3" using s(4) i(4) a(4) by simp
  note ap = step_of_append [OF len] error_of_append [OF len]
  have new: "cnf_sat \<tau> f \<longleftrightarrow> step_of sys (?S @ [s]) (?I @ [i]) (?A @ [a]) step \<tau>" for \<tau>
    using len f(3) by (simp add: step_of_def nth_append)
  have acts: "\<not> vr_contains r (lit_var l)" if "l \<in> set (bmc_activators st)" "r \<in> {s, i, a}" for l r
  proof -
    have "0 < lit_value l" "lit_value l < ?N" using assms(1) that(1) by (auto simp: bmc_inv_def Let_def)
    then show ?thesis using that(2) s i a by (auto simp: vr_contains_def lit_var_def)
  qed
  have "bmc_inv sys L b st'"
    unfolding bmc_inv_def Let_def
  proof (intro conjI)
    show "copies_ok sys (get_next_id (bmc_store st')) (versioned_state_vars st') (versioned_input_vars st')
        (versioned_aux_vars st') (length (versioned_trans st'))"
      using ok' step by (simp add: st'_def)
    show "0 < get_next_id (bmc_store st')" using N le by (simp add: st'_def)
    show "\<forall>j < length (versioned_trans st'). well_formed_cnf (versioned_trans st' ! j) \<and>
        (\<forall>\<tau>. cnf_sat \<tau> (versioned_trans st' ! j) \<longleftrightarrow>
          step_of sys (versioned_state_vars st') (versioned_input_vars st') (versioned_aux_vars st') j \<tau>)"
      using assms(1) f(2) new ap step
      by (auto simp: bmc_inv_def Let_def st'_def less_Suc_eq nth_append)
    show "\<forall>l \<in> set (bmc_activators st'). 0 < lit_value l \<and> lit_value l < get_next_id (bmc_store st') \<and>
        (\<forall>r \<in> set (versioned_state_vars st' @ versioned_input_vars st' @ versioned_aux_vars st').
           \<not> vr_contains r (lit_var l))"
      using assms(1) acts le by (fastforce simp: bmc_inv_def Let_def st'_def)
    show "distinct (bmc_activators st')" "b + length (bmc_activators st') \<le> Suc (length (versioned_trans st'))"
      "L \<subseteq> {..<length (versioned_trans st')}" "idle (bmc_solver st')" "terminated (added (bmc_solver st'))"
      using assms(1) by (auto simp: bmc_inv_def Let_def st'_def)
    have "(\<forall>j \<in> L. step_of sys (?S @ [s]) (?I @ [i]) (?A @ [a]) j \<tau>) \<longleftrightarrow>
        (\<forall>j \<in> L. step_of sys ?S ?I ?A j \<tau>)" for \<tau>
      using assms(1) step ap(1) by (intro ball_cong) (auto simp: bmc_inv_def Let_def)
    moreover have "b + m \<le> step" if "m < length (bmc_activators st)" for m
      using assms(1) that step by (simp add: bmc_inv_def Let_def)
    ultimately show "\<forall>\<tau>. stream_sat \<tau> (added (bmc_solver st')) \<longleftrightarrow>
        cnf_sat \<tau> (ts_init sys) \<and>
        (\<forall>j \<in> L. step_of sys (versioned_state_vars st') (versioned_input_vars st') (versioned_aux_vars st') j \<tau>) \<and>
        (\<forall>m < length (bmc_activators st'). \<tau> (lit_var (bmc_activators st' ! m)) \<longrightarrow>
          error_of sys (versioned_state_vars st') (versioned_input_vars st') (versioned_aux_vars st') (b + m) \<tau>)"
      using assms(1) ap(2) by (simp add: bmc_inv_def Let_def st'_def)
  qed
  then show ?thesis using m step le by (simp add: st'_def)
qed


section \<open>Loading the solver\<close>

lemma bmc_inv_assert_trans:
  assumes "bmc_inv sys L b st" and "j < length (versioned_trans st)"
  shows "bmc_inv sys (insert j L) b
    (st\<lparr>bmc_solver := assert_formula (bmc_solver st) (versioned_trans st ! j)\<rparr>)"
  using assms
  by (auto simp: bmc_inv_def Let_def well_formed_cnf_def terminated_append cnf_sat_def)

lemma assert_trans_runs:
  assumes "well_formed_system sys"
  shows "bmc_inv sys L b st \<Longrightarrow> m \<le> length (versioned_trans st) \<Longrightarrow>
    runs (assert_trans d sys st [m..<m + n]) (\<lambda>st'.
      bmc_inv sys (L \<union> {m..<m + n}) b st' \<and> bmc_activators st' = bmc_activators st \<and>
      length (versioned_trans st') = max (length (versioned_trans st)) (m + n))"
proof (induction n arbitrary: L st m)
  case 0
  then show ?case by simp
next
  case (Suc n)
  have upt: "[m..<m + Suc n] = m # [Suc m..<Suc m + n]" by (simp add: upt_conv_Cons)
  have set: "insert m L \<union> {Suc m..<Suc m + n} = L \<union> {m..<m + Suc n}" by auto
  show ?case
    unfolding upt assert_trans.simps
  proof (rule runs_bindI [OF make_trans_runs [OF Suc.prems(1) assms Suc.prems(2)]], clarify)
    fix st' assume st': "bmc_inv sys L b st'" "m < length (versioned_trans st')"
      "length (versioned_trans st') = max (length (versioned_trans st)) (Suc m)"
      "bmc_activators st' = bmc_activators st"
    show "runs (assert_trans d sys
        (st'\<lparr>bmc_solver := assert_formula (bmc_solver st') (versioned_trans st' ! m)\<rparr>) [Suc m..<Suc m + n])
      (\<lambda>st'. bmc_inv sys (L \<union> {m..<m + Suc n}) b st' \<and> bmc_activators st' = bmc_activators st \<and>
        length (versioned_trans st') = max (length (versioned_trans st)) (m + Suc n))"
      using Suc.IH [OF bmc_inv_assert_trans [OF st'(1,2)], of "Suc m"] st'(2-4) unfolding set
      by (auto elim!: runs_mono simp: max.assoc)
  qed
qed

text \<open>What a refresh needs: the copies are in order.\<close>

definition bmc_refreshable :: "transition_system \<Rightarrow> nat \<Rightarrow> bmc \<Rightarrow> bool" where
  "bmc_refreshable sys b st \<longleftrightarrow>
     bmc_inv sys {} b (st\<lparr>bmc_activators := [],
                         bmc_solver := assert_formula (solver_reset (bmc_solver st)) (ts_init sys)\<rparr>)"

lemma bmc_refreshable_inv:
  assumes "bmc_inv sys L b st" and "well_formed_system sys" and "k \<le> Suc (length (versioned_trans st))"
  shows "bmc_refreshable sys k st"
  using assms
  by (auto simp: bmc_refreshable_def bmc_inv_def Let_def well_formed_system_def formula_over_def
      well_formed_cnf_def cnf_sat_def)

definition bmc_store_ok :: "transition_system \<Rightarrow> variable_store \<Rightarrow> bool" where
  "bmc_store_ok sys store \<longleftrightarrow>
     0 < get_next_id store \<and> vr_end (state_vars sys) \<le> get_next_id store \<and>
     vr_end (input_vars sys) \<le> get_next_id store \<and> vr_end (aux_vars sys) \<le> get_next_id store"

lemma bmc_refreshable_start:
  assumes "well_formed_system sys" and "bmc_store_ok sys store"
  shows "bmc_refreshable sys 0 (setup_versioning sys (bmc_new store))"
  using assms copies_ok_start [OF assms(1), of "get_next_id store"]
  by (auto simp: bmc_refreshable_def bmc_inv_def Let_def well_formed_system_def formula_over_def
      well_formed_cnf_def cnf_sat_def setup_versioning_def bmc_new_def bmc_store_ok_def)

lemma bmc_refresh_runs:
  assumes "bmc_refreshable sys k st" and "well_formed_system sys"
  shows "runs (bmc_refresh_solver d sys st k) (\<lambda>st'.
    bmc_inv sys {..<k} k st' \<and> bmc_activators st' = [] \<and> k \<le> length (versioned_trans st'))"
proof -
  define st1 where "st1 = st\<lparr>bmc_activators := [],
    bmc_solver := assert_formula (solver_reset (bmc_solver st)) (ts_init sys)\<rparr>"
  have "bmc_inv sys {} k st1" using assms(1) by (simp add: bmc_refreshable_def st1_def)
  from assert_trans_runs [OF assms(2) this, of 0 d k]
  have "runs (assert_trans d sys st1 [0..<k]) (\<lambda>st'.
      bmc_inv sys {..<k} k st' \<and> bmc_activators st' = [] \<and> k \<le> length (versioned_trans st'))"
    by (auto elim!: runs_mono simp: st1_def lessThan_atLeast0)
  then show ?thesis by (simp add: bmc_refresh_solver_def Let_def st1_def)
qed

section \<open>The error formula of a step\<close>

lemma make_error_runs:
  assumes "bmc_inv sys L b st" and "well_formed_system sys"
    and "b + length (bmc_activators st) = step" and "step \<le> length (versioned_trans st)" and "d \<longrightarrow> b = 0"
  shows "runs (make_error d sys st step) (\<lambda>(f, st').
    bmc_inv sys L b (st'\<lparr>bmc_solver := assert_formula (bmc_solver st') f\<rparr>) \<and>
    b + length (bmc_activators st') = Suc step \<and> versioned_trans st' = versioned_trans st)"
proof -
  let ?N = "get_next_id (bmc_store st)" and ?as = "bmc_activators st"
  let ?S = "versioned_state_vars st" and ?I = "versioned_input_vars st" and ?A = "versioned_aux_vars st"
  define T where "T = length (versioned_trans st)"
  have ok: "copies_ok sys ?N ?S ?I ?A T" and N: "0 < ?N"
    using assms(1) by (simp_all add: bmc_inv_def Let_def T_def)
  have len: "length ?S = Suc T" "length ?I = Suc T" "length ?A = Suc T"
    using ok by (simp_all add: copies_ok_def)
  have step: "step \<le> T" using assms(4) by (simp add: T_def)
  define store' where
    "store' = snd (store_make (bmc_store st) (''activator['' @ int_to_string (int step) @ '']''))"
  have N': "get_next_id store' = ?N + 1" by (simp add: store'_def)
  obtain f where f: "cnf_map (ts_error sys) (error_literal sys (?I ! step) (?S ! step) (?A ! step)) = Some f"
    "well_formed_cnf f" "\<And>\<tau>. cnf_sat \<tau> f \<longleftrightarrow> error_of sys ?S ?I ?A step \<tau>"
    using error_copy [OF assms(2) copies_ok_copies_of [OF ok assms(2) step step]]
    unfolding error_of_def by blast
  define st' where "st' = st\<lparr>bmc_store := store', bmc_activators := ?as @ [literal_of (Variable ?N) False]\<rparr>"
  have as: "step = length ?as" if d using assms(3,5) that by simp
  have "make_error d sys st step = Some (activate f (Variable ?N), st')"
    using step len f(1) as
    by (cases d) (simp_all add: make_error_def case_prod_beta store'_def Let_def st'_def)
  moreover have "bmc_inv sys L b (st'\<lparr>bmc_solver := assert_formula (bmc_solver st') (activate f (Variable ?N))\<rparr>)"
    (is "bmc_inv sys L b ?st")
    unfolding bmc_inv_def Let_def
  proof (intro conjI)
    show "copies_ok sys (get_next_id (bmc_store ?st)) (versioned_state_vars ?st) (versioned_input_vars ?st)
        (versioned_aux_vars ?st) (length (versioned_trans ?st))"
      using copies_ok_mono [OF ok, of "?N + 1"] N' by (simp add: st'_def T_def)
    show "0 < get_next_id (bmc_store ?st)" using N N' by (simp add: st'_def)
    show "\<forall>j < length (versioned_trans ?st). well_formed_cnf (versioned_trans ?st ! j) \<and>
        (\<forall>\<tau>. cnf_sat \<tau> (versioned_trans ?st ! j) \<longleftrightarrow>
          step_of sys (versioned_state_vars ?st) (versioned_input_vars ?st) (versioned_aux_vars ?st) j \<tau>)"
      "L \<subseteq> {..<length (versioned_trans ?st)}"
      using assms(1) by (simp_all add: bmc_inv_def Let_def st'_def)
    have "\<not> vr_contains r (Variable ?N)" if "r \<in> set (?S @ ?I @ ?A)" for r
    proof -
      have "vr_end r \<le> ?N" using ok that unfolding copies_ok_def by blast
      then show ?thesis by (simp add: vr_contains_def)
    qed
    then show "\<forall>l \<in> set (bmc_activators ?st). 0 < lit_value l \<and> lit_value l < get_next_id (bmc_store ?st) \<and>
        (\<forall>r \<in> set (versioned_state_vars ?st @ versioned_input_vars ?st @ versioned_aux_vars ?st).
           \<not> vr_contains r (lit_var l))"
      using assms(1) N N' by (auto simp: bmc_inv_def Let_def st'_def literal_of_def lit_var_def)
    have "literal_of (Variable ?N) False \<notin> set ?as"
      using assms(1) by (auto simp: bmc_inv_def Let_def literal_of_def)
    then show "distinct (bmc_activators ?st)"
      using assms(1) by (simp add: bmc_inv_def Let_def st'_def)
    show "b + length (bmc_activators ?st) \<le> Suc (length (versioned_trans ?st))"
      using assms(3) step by (simp add: st'_def T_def)
    show "idle (bmc_solver ?st)" "terminated (added (bmc_solver ?st))"
      using assms(1) well_formed_activate [OF f(2), of "Variable ?N"]
      by (auto simp: bmc_inv_def Let_def st'_def well_formed_cnf_def intro: terminated_append)
    have all: "(\<forall>m < Suc n. P m) \<longleftrightarrow> (\<forall>m < n. P m) \<and> P n" for P and n :: nat
      by (auto simp: less_Suc_eq)
    show "\<forall>\<tau>. stream_sat \<tau> (added (bmc_solver ?st)) \<longleftrightarrow>
        cnf_sat \<tau> (ts_init sys) \<and>
        (\<forall>j \<in> L. step_of sys (versioned_state_vars ?st) (versioned_input_vars ?st) (versioned_aux_vars ?st) j \<tau>) \<and>
        (\<forall>m < length (bmc_activators ?st). \<tau> (lit_var (bmc_activators ?st ! m)) \<longrightarrow>
          error_of sys (versioned_state_vars ?st) (versioned_input_vars ?st) (versioned_aux_vars ?st) (b + m) \<tau>)"
    proof
      fix \<tau>
      have "stream_sat \<tau> (cnf_literals (activate f (Variable ?N))) \<longleftrightarrow>
          (\<tau> (Variable ?N) \<longrightarrow> error_of sys ?S ?I ?A step \<tau>)"
        using N f(3) cnf_sat_activate [of "Variable ?N" \<tau> f] by (simp add: cnf_sat_def)
      moreover have "idle (bmc_solver st)" "terminated (added (bmc_solver st))"
        "stream_sat \<tau> (added (bmc_solver st)) \<longleftrightarrow>
          cnf_sat \<tau> (ts_init sys) \<and> (\<forall>j \<in> L. step_of sys ?S ?I ?A j \<tau>) \<and>
          (\<forall>m < length ?as. \<tau> (lit_var (?as ! m)) \<longrightarrow> error_of sys ?S ?I ?A (b + m) \<tau>)"
        using assms(1) by (simp_all add: bmc_inv_def Let_def)
      ultimately show "stream_sat \<tau> (added (bmc_solver ?st)) \<longleftrightarrow>
          cnf_sat \<tau> (ts_init sys) \<and>
          (\<forall>j \<in> L. step_of sys (versioned_state_vars ?st) (versioned_input_vars ?st) (versioned_aux_vars ?st) j \<tau>) \<and>
          (\<forall>m < length (bmc_activators ?st). \<tau> (lit_var (bmc_activators ?st ! m)) \<longrightarrow>
            error_of sys (versioned_state_vars ?st) (versioned_input_vars ?st) (versioned_aux_vars ?st) (b + m) \<tau>)"
        using assms(3) N by (simp add: st'_def all nth_append conj_assoc)
    qed
  qed
  ultimately show ?thesis using assms(3) by (simp add: st'_def)
qed


section \<open>One step\<close>

text \<open>No error trace has at most \<open>k\<close> inputs.\<close>

definition no_error_within :: "transition_system \<Rightarrow> nat \<Rightarrow> bool" where
  "no_error_within sys k \<longleftrightarrow>
     (\<forall>s is. init_state sys s \<and> error_trace sys s is \<longrightarrow> k < length is)"

lemma no_error_within_0: "no_error_within sys 0"
  by (auto simp: no_error_within_def error_trace_def)

text \<open>A model of a versioned range, written with the names of the original one.\<close>

lemma model_row_Satisfied:
  "status sv = Satisfied m \<Longrightarrow>
   model_row sv r q vis = Some (map (\<lambda>vi. literal_of (vr_nth r vi) (\<not> m (vr_nth q vi))) vis)"
  by (induction vis) (simp_all add: is_true_in_model_def)

definition row_of :: "variable_range \<Rightarrow> variable_range \<Rightarrow> assignment \<Rightarrow> valuation" where
  "row_of r q m = map (\<lambda>vi. literal_of (vr_nth r vi) (\<not> m (vr_nth q vi))) [0..vr_size r - 1]"

lemma vr_vars_nths: "vr_vars r = map (vr_nth r) [0..vr_size r - 1]"
  by (rule nth_equalityI) (simp_all add: vr_vars_nth)

lemma row_of_vars:
  assumes "range_ok r"
  shows "map lit_var (row_of r q m) = vr_vars r"
  using assms by (auto simp: row_of_def vr_vars_nths vr_nth_def range_ok_def)

lemma row_of_values:
  assumes "range_ok r" and "copy_of r q"
  shows "row_values (row_of r q m) = read q m"
  using assms
  by (auto simp: row_values_def row_of_def read_def vr_vars_nths [of q] copy_of_def vr_nth_def range_ok_def)

lemma model_rows_Satisfied:
  assumes "status (bmc_solver st) = Satisfied m" and "\<forall>i \<in> set is. i < length (versioned_input_vars st)"
  shows "model_rows sys st is =
    Some (map (\<lambda>i. row_of (input_vars sys) (versioned_input_vars st ! i) m) is)"
  using assms(2)
  by (induction "is") (simp_all add: model_row_Satisfied [OF assms(1)] row_of_def)

lemma bmc_build_counterexample_Satisfied:
  assumes "status (bmc_solver st) = Satisfied m"
    and "copies_ok sys N (versioned_state_vars st) (versioned_input_vars st) (versioned_aux_vars st) T"
    and "k \<le> T"
  shows "bmc_build_counterexample d sys st k = Some
    \<lparr>initial_state = row_of (state_vars sys) (versioned_state_vars st ! 0) m,
     inputs = map (\<lambda>i. row_of (input_vars sys) (versioned_input_vars st ! i) m) [0..<Suc k]\<rparr>"
proof -
  have "versioned_state_vars st \<noteq> []" "\<forall>i \<in> set [0..<Suc k]. i < length (versioned_input_vars st)"
    "k \<le> length (versioned_input_vars st)"
    using assms(2,3) by (auto simp: copies_ok_def)
  then show ?thesis
    using model_rows_Satisfied [OF assms(1)]
    by (simp add: bmc_build_counterexample_def model_row_Satisfied [OF assms(1)] row_of_def del: upt_Suc)
qed

text \<open>A model of the query is an error trace.\<close>

lemma model_counterexample:
  assumes ok: "copies_ok sys N S I A T" and wf: "well_formed_system sys" and k: "k \<le> T"
    and "cnf_sat m (ts_init sys)" and "\<forall>j < k. step_of sys S I A j m" and "error_of sys S I A k m"
  shows "cex_valid sys
    \<lparr>initial_state = row_of (state_vars sys) (S ! 0) m,
     inputs = map (\<lambda>i. row_of (input_vars sys) (I ! i) m) [0..<Suc k]\<rparr>" (is "cex_valid sys ?cex")
proof -
  have rs: "range_ok (state_vars sys)" "range_ok (input_vars sys)"
    using wf by (simp_all add: well_formed_system_def)
  have init: "row_values (initial_state ?cex) = read (S ! 0) m"
    using row_of_values [OF rs(1)] copies_ok_nth(2) [OF ok, of 0] by simp
  have ins: "map row_values (inputs ?cex) = map (\<lambda>j. read (I ! j) m) [0..<Suc k]"
  proof -
    have "row_values (row_of (input_vars sys) (I ! i) m) = read (I ! i) m" if "i < Suc k" for i
      using row_of_values [OF rs(2)] copies_ok_nth(1) [OF ok, of i] that k by simp
    then show ?thesis by (simp del: upt_Suc)
  qed
  have "S ! 0 = state_vars sys" using ok by (simp add: copies_ok_def)
  then have "init_state sys (read (S ! 0) m)" using assms(4) init_state_read [OF wf] by simp
  moreover have "cex_shape sys ?cex"
    using row_of_vars [OF rs(1)] row_of_vars [OF rs(2)] by (auto simp: cex_shape_def simp del: upt_Suc)
  ultimately show ?thesis
    unfolding cex_valid_def init ins using copies_error_trace [OF ok wf k assms(5,6)] by simp
qed

text \<open>And an error trace is a model of the query.\<close>

lemma counterexample_model:
  assumes "bmc_inv sys {..<k} b st" and wf: "well_formed_system sys"
    and "b + length (bmc_activators st) = Suc k" and "bmc_activators st \<noteq> []"
    and "init_state sys s" and "error_trace sys s is" and "length is = Suc k"
  shows "\<exists>\<tau>. stream_sat \<tau> (added (bmc_solver st)) \<and>
    lits_true \<tau> (map lit_not (butlast (bmc_activators st)) @ [last (bmc_activators st)])"
proof -
  let ?S = "versioned_state_vars st" and ?I = "versioned_input_vars st" and ?A = "versioned_aux_vars st"
  let ?as = "bmc_activators st"
  define T where "T = length (versioned_trans st)"
  have ok: "copies_ok sys (get_next_id (bmc_store st)) ?S ?I ?A T"
    using assms(1) by (simp add: bmc_inv_def Let_def T_def)
  have k: "k \<le> T" using assms(1,3) by (simp add: bmc_inv_def Let_def T_def)
  obtain \<tau> where \<tau>: "cnf_sat \<tau> (ts_init sys)" "\<forall>j < k. step_of sys ?S ?I ?A j \<tau>" "error_of sys ?S ?I ?A k \<tau>"
    by (rule error_trace_copies [OF ok wf k assms(5-7)])
  define \<tau>' where "\<tau>' = (\<lambda>v. if v \<in> lit_var ` set ?as then v = lit_var (last ?as) else \<tau> v)"
  have pos: "0 < lit_value l" "lit_sign l" "l \<noteq> separator" if "l \<in> set ?as" for l
    using assms(1) that by (auto simp: bmc_inv_def Let_def lit_sign_def separator_def)
  have inj: "l = l'" if "l \<in> set ?as" "l' \<in> set ?as" "lit_var l = lit_var l'" for l l'
    using that pos by (auto intro: literal_eqI)
  have same: "read r \<tau> = read r \<tau>'" if "r \<in> set (?S @ ?I @ ?A)" for r
  proof (rule read_eqI)
    fix v assume "vr_contains r v"
    moreover have "\<forall>l \<in> set ?as. \<not> vr_contains r (lit_var l)"
      using assms(1) that unfolding bmc_inv_def Let_def by blast
    ultimately have "v \<notin> lit_var ` set ?as" by auto
    then show "\<tau> v = \<tau>' v" by (simp add: \<tau>'_def)
  qed
  have "state_vars sys \<in> set ?S"
    using ok nth_mem [of 0 ?S] by (simp add: copies_ok_def)
  then have "read (state_vars sys) \<tau> = read (state_vars sys) \<tau>'" by (intro same) simp
  then have "cnf_sat \<tau>' (ts_init sys)"
    using \<tau>(1) init_state_read [OF wf, of \<tau>] init_state_read [OF wf, of \<tau>'] by simp
  moreover have "\<forall>j \<in> {..<k}. step_of sys ?S ?I ?A j \<tau>'"
    using \<tau>(2) k step_of_cong [OF ok wf _ same] by auto
  moreover have "\<forall>m < length ?as. \<tau>' (lit_var (?as ! m)) \<longrightarrow> error_of sys ?S ?I ?A (b + m) \<tau>'"
  proof (intro allI impI)
    fix m assume m: "m < length ?as" and t: "\<tau>' (lit_var (?as ! m))"
    then have "lit_var (?as ! m) = lit_var (last ?as)" by (simp add: \<tau>'_def)
    then have "?as ! m = last ?as" using m assms(4) by (intro inj) simp_all
    moreover have "distinct ?as" using assms(1) by (simp add: bmc_inv_def Let_def)
    ultimately have "m = length ?as - 1"
      using m assms(4) by (simp add: last_conv_nth nth_eq_iff_index_eq)
    then have "b + m = k" using assms(3,4) by (cases ?as) simp_all
    then show "error_of sys ?S ?I ?A (b + m) \<tau>'"
      using \<tau>(3) error_of_cong [OF ok wf k same] by simp
  qed
  ultimately have "stream_sat \<tau>' (added (bmc_solver st))"
    using assms(1) by (simp add: bmc_inv_def Let_def)
  moreover have "lits_true \<tau>' (map lit_not (butlast ?as) @ [last ?as])"
  proof -
    have d: "distinct (butlast ?as @ [last ?as])"
      using assms(1,4) by (simp add: bmc_inv_def Let_def)
    have "lit_true \<tau>' (lit_not l)" if "l \<in> set (butlast ?as)" for l
    proof -
      have l: "l \<in> set ?as" "l \<noteq> last ?as" using that d by (auto dest: in_set_butlastD)
      then have "\<not> \<tau>' (lit_var l)" using inj assms(4) by (auto simp: \<tau>'_def)
      then show ?thesis using pos [OF l(1)] by (simp add: lit_true_def)
    qed
    moreover have "lit_true \<tau>' (last ?as)"
      using assms(4) pos [of "last ?as"] by (simp add: lit_true_def \<tau>'_def)
    ultimately show ?thesis by (auto simp: lits_true_def)
  qed
  ultimately show ?thesis by blast
qed

text \<open>What \<open>check_for\<close> needs and keeps: the step's predecessors are loaded, one may be missing.\<close>

definition bmc_before :: "transition_system \<Rightarrow> bool \<Rightarrow> nat \<Rightarrow> nat set \<Rightarrow> nat \<Rightarrow> bmc \<Rightarrow> bool" where
  "bmc_before sys d k L b st \<longleftrightarrow>
     bmc_inv sys L b st \<and> {..<k - 1} \<subseteq> L \<and> L \<subseteq> {..<k} \<and> k - 1 \<le> length (versioned_trans st) \<and>
     b + length (bmc_activators st) = k \<and> (d \<longrightarrow> b = 0)"

definition bmc_after :: "transition_system \<Rightarrow> nat \<Rightarrow> nat \<Rightarrow> bmc \<Rightarrow> bool" where
  "bmc_after sys k b st \<longleftrightarrow>
     bmc_inv sys {..<k} b st \<and> k \<le> length (versioned_trans st) \<and>
     b + length (bmc_activators st) = Suc k"

lemma bmc_inv_solver:
  "bmc_inv sys L b st \<Longrightarrow> idle sv \<Longrightarrow> added sv = added (bmc_solver st) \<Longrightarrow>
   bmc_inv sys L b (st\<lparr>bmc_solver := sv\<rparr>)"
  by (simp add: bmc_inv_def Let_def)

text \<open>The two formulas that a step adds.\<close>

definition load_step :: "bool \<Rightarrow> transition_system \<Rightarrow> bmc \<Rightarrow> nat \<Rightarrow> bmc option" where
  "load_step d sys st k = do {
     st \<leftarrow> (if 0 < k then assert_trans d sys st [k - 1] else Some st);
     (f, st) \<leftarrow> make_error d sys st k;
     Some (st\<lparr>bmc_solver := assert_formula (bmc_solver st) f\<rparr>) }"

lemma load_step_runs:
  assumes "bmc_before sys d k L b st" and wf: "well_formed_system sys"
  shows "runs (load_step d sys st k) (\<lambda>st'. bmc_after sys k b st' \<and> bmc_activators st' \<noteq> [])"
proof -
  have "runs (if 0 < k then assert_trans d sys st [k - 1] else Some st) (\<lambda>st'.
      bmc_inv sys {..<k} b st' \<and> bmc_activators st' = bmc_activators st \<and> k \<le> length (versioned_trans st'))"
  proof (cases k)
    case 0
    then show ?thesis using assms(1) by (auto simp: bmc_before_def)
  next
    case (Suc j)
    have L: "L \<union> {j} = {..<Suc j}" using assms(1) Suc by (auto simp: bmc_before_def lessThan_Suc)
    have "bmc_inv sys L b st" "j \<le> length (versioned_trans st)"
      using assms(1) Suc by (auto simp: bmc_before_def)
    from assert_trans_runs [OF wf this, of d 1]
    have "runs (assert_trans d sys st [j]) (\<lambda>st'. bmc_inv sys (L \<union> {j}) b st' \<and>
        bmc_activators st' = bmc_activators st \<and>
        length (versioned_trans st') = max (length (versioned_trans st)) (Suc j))" by simp
    then have "runs (assert_trans d sys st [j]) (\<lambda>st'. bmc_inv sys {..<Suc j} b st' \<and>
        bmc_activators st' = bmc_activators st \<and> Suc j \<le> length (versioned_trans st'))"
      unfolding L by (rule runs_mono) simp
    then show ?thesis using Suc by simp
  qed
  then show ?thesis
    unfolding load_step_def
  proof (rule runs_bindI, elim conjE)
    fix st' assume st': "bmc_inv sys {..<k} b st'" "bmc_activators st' = bmc_activators st"
      "k \<le> length (versioned_trans st')"
    have len: "b + length (bmc_activators st') = k" and d: "d \<longrightarrow> b = 0"
      using assms(1) st'(2) by (auto simp: bmc_before_def)
    show "runs (Option.bind (make_error d sys st' k)
        (\<lambda>(f, st). Some (st\<lparr>bmc_solver := assert_formula (bmc_solver st) f\<rparr>)))
      (\<lambda>st'. bmc_after sys k b st' \<and> bmc_activators st' \<noteq> [])"
    proof (rule runs_bindI [OF make_error_runs [OF st'(1) wf len st'(3) d]], clarify)
      fix f st2
      assume "bmc_inv sys {..<k} b (st2\<lparr>bmc_solver := assert_formula (bmc_solver st2) f\<rparr>)"
        and l: "b + length (bmc_activators st2) = Suc k" and "versioned_trans st2 = versioned_trans st'"
      moreover from l len have "bmc_activators st2 \<noteq> []" by auto
      ultimately show "runs (Some (st2\<lparr>bmc_solver := assert_formula (bmc_solver st2) f\<rparr>))
          (\<lambda>st'. bmc_after sys k b st' \<and> bmc_activators st' \<noteq> [])"
        using st'(3) by (simp add: bmc_after_def)
    qed
  qed
qed

lemma check_for_load:
  "check_for E sys st k = do {
     st \<leftarrow> load_step (debug_build E) sys st k;
     let sv = assume_literals (bmc_solver st) (map lit_not (butlast (bmc_activators st)));
     let sv = assume_literal sv (last (bmc_activators st));
     let (sat, sv) = is_sat E sv;
     let st = st\<lparr>bmc_solver := sv\<rparr>;
     if sat then do {
       cex \<leftarrow> bmc_build_counterexample (debug_build E) sys st k;
       Some (Some cex, st) }
     else Some (None, st) }"
  by (cases "if 0 < k then assert_trans (debug_build E) sys st [k - 1] else Some st")
    (auto simp: check_for_def load_step_def Let_def split: Option.bind_splits prod.split)

lemma check_for_runs:
  assumes "bmc_before sys (debug_build E) k L b st" and wf: "well_formed_system sys"
    and "sound_oracle (sat_solver E)" and "no_error_within sys k"
  shows "runs (check_for E sys st k) (\<lambda>(r, st').
    case r of Some cex \<Rightarrow> cex_valid sys cex \<and> length (inputs cex) = Suc k
            | None \<Rightarrow> bmc_after sys k b st' \<and> no_error_within sys (Suc k))"
  unfolding check_for_load
proof (rule runs_bindI [OF load_step_runs [OF assms(1) wf]], elim conjE)
  fix st' assume st': "bmc_after sys k b st'" "bmc_activators st' \<noteq> []"
  let ?S = "versioned_state_vars st'" and ?I = "versioned_input_vars st'" and ?A = "versioned_aux_vars st'"
  let ?as = "bmc_activators st'"
  define as where "as = map lit_not (butlast ?as) @ [last ?as]"
  have inv: "bmc_inv sys {..<k} b st'" and k: "k \<le> length (versioned_trans st')"
    and len: "b + length ?as = Suc k"
    using st'(1) by (simp_all add: bmc_after_def)
  have ok: "copies_ok sys (get_next_id (bmc_store st')) ?S ?I ?A (length (versioned_trans st'))"
    using inv by (simp add: bmc_inv_def Let_def)
  define sv where "sv = assume_literal (assume_literals (bmc_solver st') (map lit_not (butlast ?as))) (last ?as)"
  define f where "f = added (bmc_solver st')"
  have t: "terminated f" and idle: "idle (bmc_solver st')"
    using inv by (simp_all add: bmc_inv_def Let_def f_def)
  have "asks sv f as []"
    using asks_assume_literal [OF asks_assume_literals [OF idle_asks [OF idle]]]
    by (simp add: sv_def as_def f_def)
  note ans = is_sat_answer [OF assms(3) this t terminated_Nil]
  obtain sat sv' where sat: "is_sat E sv = (sat, sv')" by (cases "is_sat E sv")
  have sv': "idle sv'" "added sv' = f" using ans by (simp_all add: sat_answer_def sat)
  let ?st = "st'\<lparr>bmc_solver := sv'\<rparr>"
  have inv': "bmc_inv sys {..<k} b ?st" by (rule bmc_inv_solver [OF inv sv'(1)]) (simp add: sv'(2) f_def)
  show "runs (let sv = assume_literals (bmc_solver st') (map lit_not (butlast ?as));
            sv = assume_literal sv (last ?as); (sat, sv) = is_sat E sv; st = st'\<lparr>bmc_solver := sv\<rparr>
        in if sat then Option.bind (bmc_build_counterexample (debug_build E) sys st k) (\<lambda>cex. Some (Some cex, st))
           else Some (None, st))
      (\<lambda>(r, st'). case r of Some cex \<Rightarrow> cex_valid sys cex \<and> length (inputs cex) = Suc k
                 | None \<Rightarrow> bmc_after sys k b st' \<and> no_error_within sys (Suc k))"
  proof (cases sat)
    case True
    then obtain m where m: "status sv' = Satisfied m" "stream_sat m f" "lits_true m as"
      using ans by (auto simp: sat_answer_def sat)
    have "lit_true m (last ?as)" using m(3) by (simp add: as_def)
    moreover have last: "?as ! (length ?as - 1) = last ?as" "0 < length ?as"
      using st'(2) by (simp_all add: last_conv_nth)
    moreover have "lit_sign (last ?as)"
      using inv st'(2) by (auto simp: bmc_inv_def Let_def lit_sign_def less_imp_le)
    ultimately have "m (lit_var (?as ! (length ?as - 1)))" by (simp add: lit_true_def)
    then have "error_of sys ?S ?I ?A (b + (length ?as - 1)) m"
      using inv m(2) last(2) by (simp add: bmc_inv_def Let_def f_def)
    moreover have "b + (length ?as - 1) = k" using len last(2) by arith
    moreover have "cnf_sat m (ts_init sys)" "\<forall>j < k. step_of sys ?S ?I ?A j m"
      using inv m(2) by (auto simp: bmc_inv_def Let_def f_def)
    ultimately have "cex_valid sys
      \<lparr>initial_state = row_of (state_vars sys) (?S ! 0) m,
       inputs = map (\<lambda>i. row_of (input_vars sys) (?I ! i) m) [0..<Suc k]\<rparr>"
      by (intro model_counterexample [OF ok wf k]) simp_all
    moreover have "bmc_build_counterexample (debug_build E) sys ?st k = Some
      \<lparr>initial_state = row_of (state_vars sys) (?S ! 0) m,
       inputs = map (\<lambda>i. row_of (input_vars sys) (?I ! i) m) [0..<Suc k]\<rparr>"
      using bmc_build_counterexample_Satisfied [of ?st m sys _ _ k] ok k m(1)
      by (simp del: upt_Suc)
    ultimately show ?thesis
      using True by (simp add: sv_def [symmetric] sat Let_def del: upt_Suc)
  next
    case False
    have "length is \<noteq> Suc k" if "init_state sys s" "error_trace sys s is" for s "is"
    proof
      assume "length is = Suc k"
      from counterexample_model [OF inv wf len st'(2) that this] obtain \<tau> where
        "stream_sat \<tau> f" "lits_true \<tau> as" by (auto simp: f_def as_def)
      moreover have "sat_answer sv f as [] (False, sv')" using ans False by (simp add: sat)
      ultimately show False using sat_answer_unsat by (metis stream_sat_Nil)
    qed
    then have "no_error_within sys (Suc k)"
      using assms(4) by (metis no_error_within_def Suc_lessI)
    moreover have "bmc_after sys k b ?st" using inv' k len by (simp add: bmc_after_def)
    ultimately show ?thesis using False by (simp add: sv_def [symmetric] sat Let_def)
  qed
qed


section \<open>The run\<close>

text \<open>The state in which the loop of \<open>run\<close> enters step \<open>i\<close>.\<close>

definition bmc_at_step :: "transition_system \<Rightarrow> bool \<Rightarrow> nat \<Rightarrow> bmc \<Rightarrow> bool" where
  "bmc_at_step sys d i st \<longleftrightarrow>
     (if i mod 100 = 0 then bmc_refreshable sys i st else (\<exists>L b. bmc_before sys d i L b st)) \<and>
     no_error_within sys i"

lemma bmc_refresh_before:
  assumes "bmc_refreshable sys i st" and "well_formed_system sys" and "d \<longrightarrow> i = 0"
  shows "runs (bmc_refresh_solver d sys st i) (\<lambda>st'. \<exists>L b. bmc_before sys d i L b st')"
proof (rule runs_mono [OF bmc_refresh_runs [OF assms(1,2)]], elim conjE)
  fix st' assume "bmc_inv sys {..<i} i st'" "bmc_activators st' = []" "i \<le> length (versioned_trans st')"
  then have "bmc_before sys d i {..<i} i st'" using assms(3) by (auto simp: bmc_before_def)
  then show "\<exists>L b. bmc_before sys d i L b st'" by blast
qed

lemma bmc_after_at_step:
  assumes "bmc_after sys i b st" and "well_formed_system sys" and "no_error_within sys (Suc i)"
    and "d \<longrightarrow> b = 0"
  shows "bmc_at_step sys d (Suc i) st"
proof -
  have "bmc_refreshable sys (Suc i) st"
    using assms(1,2) by (auto simp: bmc_after_def intro: bmc_refreshable_inv)
  moreover have "bmc_before sys d (Suc i) {..<i} b st"
    using assms(1,4) by (auto simp: bmc_before_def bmc_after_def)
  ultimately show ?thesis using assms(3) by (auto simp: bmc_at_step_def)
qed

text \<open>What the run promises for the bound: the shortest error trace, or none up to the bound.\<close>

definition bmc_result_ok :: "transition_system \<Rightarrow> int \<Rightarrow> result \<Rightarrow> bool" where
  "bmc_result_ok sys bound r \<longleftrightarrow>
     (case r of
       Ok \<Rightarrow> False
     | Unknown msg \<Rightarrow> no_error_within sys (nat (bound + 1)) \<and>
         msg = ''counterexample not found after '' @ int_to_string bound @ '' steps''
     | Cex cex \<Rightarrow> cex_valid sys cex \<and> int (length (inputs cex)) \<le> bound + 1 \<and>
         no_error_within sys (length (inputs cex) - 1))"

lemma bmc_loop_runs:
  assumes "well_formed_system sys" and "sound_oracle (sat_solver E)"
    and "debug_build E \<longrightarrow> bound < 100"
  shows "bmc_at_step sys (debug_build E) i st \<Longrightarrow> int i \<le> bound + 1 \<or> i = 0 \<Longrightarrow>
    runs (bmc_loop E sys st bound i) (\<lambda>(r, st'). bmc_result_ok sys bound r)"
proof (induction "nat (bound + 1 - int i)" arbitrary: i st rule: less_induct)
  case less
  let ?d = "debug_build E"
  show ?case
  proof (cases "int i \<le> bound")
    case False
    then have "nat (bound + 1) = i" using less.prems(2) by auto
    with False less.prems(1) show ?thesis
      by (simp add: bmc_loop.simps [of E sys st bound i] bmc_result_ok_def bmc_at_step_def)
  next
    case True
    have d: "?d \<longrightarrow> i < 100" using assms(3) True by auto
    have mod: "int i mod bmc_refresh_rate = 0 \<longleftrightarrow> i mod 100 = 0"
      unfolding bmc_refresh_rate_def by presburger
    have no: "no_error_within sys i" using less.prems(1) by (simp add: bmc_at_step_def)
    have "runs (if int i mod bmc_refresh_rate = 0 then bmc_refresh_solver ?d sys st i else Some st)
        (\<lambda>st'. \<exists>L b. bmc_before sys ?d i L b st')"
    proof (cases "i mod 100 = 0")
      case m: True
      then have "?d \<longrightarrow> i = 0" using d by auto
      with bmc_refresh_before [OF _ assms(1)] less.prems(1) m mod show ?thesis
        by (simp add: bmc_at_step_def)
    next
      case False
      with less.prems(1) mod show ?thesis by (simp add: bmc_at_step_def)
    qed
    then show ?thesis
      unfolding bmc_loop.simps [of E sys st bound i] if_P [OF True]
    proof (rule runs_bindI, elim exE)
      fix st' L b assume st': "bmc_before sys ?d i L b st'"
      have b: "?d \<longrightarrow> b = 0" using st' by (simp add: bmc_before_def)
      show "runs (Option.bind (check_for E sys st' i) (\<lambda>(maybe_model, st). case maybe_model of
              None \<Rightarrow> bmc_loop E sys st bound (i + 1) | Some cex \<Rightarrow> Some (Cex cex, st)))
          (\<lambda>(r, st'). bmc_result_ok sys bound r)"
      proof (rule runs_bindI [OF check_for_runs [OF st' assms(1,2) no]], clarify)
        fix r st2
        assume r: "case r of Some cex \<Rightarrow> cex_valid sys cex \<and> length (inputs cex) = Suc i
            | None \<Rightarrow> bmc_after sys i b st2 \<and> no_error_within sys (Suc i)"
        show "runs (case r of None \<Rightarrow> bmc_loop E sys st2 bound (i + 1) | Some cex \<Rightarrow> Some (Cex cex, st2))
            (\<lambda>(r, st'). bmc_result_ok sys bound r)"
        proof (cases r)
          case (Some cex)
          with r no True show ?thesis by (simp add: bmc_result_ok_def)
        next
          case None
          with r have "bmc_after sys i b st2" "no_error_within sys (Suc i)" by simp_all
          then have "bmc_at_step sys ?d (Suc i) st2" using b by (intro bmc_after_at_step [OF _ assms(1)])
          then show ?thesis using less.hyps [of "Suc i" st2] True None by simp
        qed
      qed
    qed
  qed
qed

lemma bmc_run_runs:
  assumes "well_formed_system sys" and "bmc_store_ok sys store" and "sound_oracle (sat_solver E)"
    and "debug_build E \<longrightarrow> value_or opts ''-k'' int_max < 100"
  shows "runs (bmc_run E opts sys (bmc_new store)) (bmc_result_ok sys (value_or opts ''-k'' int_max))"
proof -
  let ?bound = "value_or opts ''-k'' int_max"
  have "bmc_at_step sys (debug_build E) 0 (setup_versioning sys (bmc_new store))"
    using bmc_refreshable_start [OF assms(1,2)] by (simp add: bmc_at_step_def no_error_within_0)
  from bmc_loop_runs [OF assms(1,3,4) this]
  have "runs (bmc_loop E sys (setup_versioning sys (bmc_new store)) ?bound 0)
      (\<lambda>(r, st'). bmc_result_ok sys ?bound r)" by simp
  then show ?thesis by (auto simp: bmc_run_def Let_def runs_iff)
qed

end
