(* ===== verification/BmcProperties.thy ===== *)
theory BmcProperties
  imports BmcCorrect Examples
begin

text \<open>
  The properties of bounded model checking, each with an instance on the example systems.
\<close>

section \<open>Instances\<close>

lemma example_bmc_store [simp]:
  "bmc_store_ok hold_system example_store" "bmc_store_ok load_system example_store"
  by (simp_all add: bmc_store_ok_def example_store_def get_next_id_def)

definition bmc_example_opts :: "int \<Rightarrow> options" where
  "bmc_example_opts k = \<lparr>help_requested = False, input_file = ''m.aig'', engine_name = ''bmc'',
     verbosity = Silent, other_opts = [(''-k'', Some k)]\<rparr>"

lemma bmc_example_bound [simp]: "value_or (bmc_example_opts k) ''-k'' d = k"
  by (simp add: bmc_example_opts_def value_or_def)

lemma load_trace: "error_trace load_system [False] [[True], [True]]"
  by (auto simp: error_trace_def example_step example_error)

lemma load_no_error_1: "no_error_within load_system 1"
proof -
  have "length is \<noteq> 1" if "init_state load_system s" "error_trace load_system s is" for s "is"
    using that by (auto simp: length_Suc_conv error_trace_def example_init example_error)
  then show ?thesis
    using no_error_within_0 [of load_system] unfolding no_error_within_def by (metis One_nat_def Suc_lessI)
qed


text \<open>The first state of the loop, after its first refresh.\<close>

definition bmc_example_state :: "transition_system \<Rightarrow> bmc" where
  "bmc_example_state sys =
     (let st = setup_versioning sys (bmc_new example_store)
      in st\<lparr>bmc_activators := [], bmc_solver := assert_formula (solver_reset (bmc_solver st)) (ts_init sys)\<rparr>)"

lemma bmc_example_inv:
  "well_formed_system sys \<Longrightarrow> bmc_store_ok sys example_store \<Longrightarrow> bmc_inv sys {} 0 (bmc_example_state sys)"
  using bmc_refreshable_start [of sys example_store]
  by (simp add: bmc_refreshable_def bmc_example_state_def Let_def)

lemma bmc_example_sel [simp]:
  "bmc_activators (bmc_example_state sys) = []" "versioned_trans (bmc_example_state sys) = []"
  by (simp_all add: bmc_example_state_def Let_def setup_versioning_def bmc_new_def)

lemma cex_valid_length: "cex_valid sys cex \<Longrightarrow> no_error_within sys k \<Longrightarrow> k < length (inputs cex)"
  unfolding cex_valid_def no_error_within_def by (metis length_map)

section \<open>The missing activators\<close>



section \<open>Properties\<close>

text \<open>C5. Bounded model checking with bound \<open>k\<close> returns. Its counterexample is genuine (from an
  initial state into an error), has at most \<open>k + 1\<close> inputs and is a shortest one; when it gives up,
  the system has no error trace with at most \<open>k + 1\<close> inputs; it never answers ok. Debug builds are
  covered up to the bound 99.\<close>

theorem bmc_finds_shortest_trace:
  assumes "well_formed_system sys" and "bmc_store_ok sys store" and "sound_oracle (sat_solver E)"
    and "debug_build E \<longrightarrow> value_or opts ''-k'' int_max < 100"
  shows "runs (bmc_run E opts sys (bmc_new store)) (\<lambda>r.
    case r of
      Ok \<Rightarrow> False
    | Unknown msg \<Rightarrow> no_error_within sys (nat (value_or opts ''-k'' int_max + 1))
    | Cex cex \<Rightarrow> cex_valid sys cex \<and> int (length (inputs cex)) \<le> value_or opts ''-k'' int_max + 1 \<and>
        no_error_within sys (length (inputs cex) - 1))"
  by (rule runs_mono [OF bmc_run_runs [OF assms]]) (simp add: bmc_result_ok_def split: result.splits)

theorem bmc_finds_shortest_trace_witness:
  "runs (bmc_run example_env (bmc_example_opts 7) load_system (bmc_new example_store)) (\<lambda>r.
    \<exists>cex. r = Cex cex \<and> cex_valid load_system cex \<and> length (inputs cex) = 2)"
proof -
  have no: "\<not> no_error_within load_system k" if "2 \<le> k" for k
    using that load_trace unfolding no_error_within_def
    by (metis One_nat_def Suc_1 example_init(2) leD length_Cons list.size(3))
  have one: "1 < length (inputs cex)" if "cex_valid load_system cex" for cex
    by (rule cex_valid_length [OF that load_no_error_1])
  have ok: "\<exists>cex. r = Cex cex \<and> cex_valid load_system cex \<and> length (inputs cex) = 2"
    if "case r of
        Ok \<Rightarrow> False
      | Unknown msg \<Rightarrow> no_error_within load_system 8
      | Cex cex \<Rightarrow> cex_valid load_system cex \<and> int (length (inputs cex)) \<le> 8 \<and>
          no_error_within load_system (length (inputs cex) - 1)" for r
  proof (cases r)
    case (Cex cex)
    with that have c: "cex_valid load_system cex" "no_error_within load_system (length (inputs cex) - 1)"
      by simp_all
    then have "\<not> 2 \<le> length (inputs cex) - 1" "1 < length (inputs cex)" using no one by blast+
    then have "length (inputs cex) = 2" by arith
    with Cex c(1) show ?thesis by blast
  qed (use that no [of 8] in simp_all)
  have "debug_build example_env \<longrightarrow> value_or (bmc_example_opts 7) ''-k'' int_max < 100" by simp
  from bmc_finds_shortest_trace [OF example_well_formed(2) example_bmc_store(2) example_oracle this]
  show ?thesis by (rule runs_mono) (rule ok, auto split: result.splits)
qed



text \<open>C26. \<open>check_for\<close> decides one depth: in the state the loop calls it in, it returns a
  counterexample with \<open>k + 1\<close> inputs or, when no error trace has as many, nothing, and then leaves
  the solver loaded for the next step.\<close>

theorem check_for_decides:
  assumes "well_formed_system sys" and "sound_oracle (sat_solver E)"
    and "bmc_before sys (debug_build E) k L b st" and "no_error_within sys k"
  shows "runs (check_for E sys st k) (\<lambda>(r, st').
    case r of Some cex \<Rightarrow> cex_valid sys cex \<and> length (inputs cex) = Suc k
            | None \<Rightarrow> bmc_after sys k b st' \<and> no_error_within sys (Suc k))"
  by (rule check_for_runs [OF assms(3,1,2,4)])

theorem check_for_decides_witness:
  "runs (check_for example_env load_system (bmc_example_state load_system) 0) (\<lambda>(r, st').
    r = None \<and> bmc_after load_system 0 0 st')"
proof -
  have "bmc_before load_system (debug_build example_env) 0 {} 0 (bmc_example_state load_system)"
    using bmc_example_inv [of load_system] by (simp add: bmc_before_def)
  from check_for_decides [OF example_well_formed(2) example_oracle this no_error_within_0]
  show ?thesis
    by (rule runs_mono) (use cex_valid_length [OF _ load_no_error_1] in \<open>force split: option.splits\<close>)
qed

text \<open>C20. \<open>make_trans\<close> keeps the order of the copies: its formula holds of an assignment of the copies
  exactly when the step's copies of states and inputs are a transition with these auxiliary values, the
  new ranges are disjoint from all others, and the cached formulas stay as they were.\<close>

theorem make_trans_copies:
  assumes "well_formed_system sys" and "bmc_inv sys L b st" and "step \<le> length (versioned_trans st)"
  shows "runs (make_trans d sys st step) (\<lambda>(f, st').
    bmc_inv sys L b st' \<and> f = versioned_trans st' ! step \<and> step < length (versioned_trans st') \<and>
    (\<forall>\<tau>. cnf_sat \<tau> f \<longleftrightarrow> step_of sys (versioned_state_vars st') (versioned_input_vars st')
                        (versioned_aux_vars st') step \<tau>) \<and>
    sorted_wrt ranges_apart (versioned_state_vars st' @ versioned_input_vars st' @ versioned_aux_vars st'))"
  by (rule runs_mono [OF make_trans_runs [OF assms(2,1,3), of d]])
    (auto simp: bmc_inv_def Let_def copies_ok_def)

theorem make_trans_copies_witness:
  "runs (make_trans True load_system (bmc_example_state load_system) 0) (\<lambda>(f, st').
    bmc_inv load_system {} 0 st' \<and> f = versioned_trans st' ! 0 \<and> 0 < length (versioned_trans st') \<and>
    (\<forall>\<tau>. cnf_sat \<tau> f \<longleftrightarrow> step_of load_system (versioned_state_vars st') (versioned_input_vars st')
                        (versioned_aux_vars st') 0 \<tau>) \<and>
    sorted_wrt ranges_apart (versioned_state_vars st' @ versioned_input_vars st' @ versioned_aux_vars st'))"
  by (rule make_trans_copies [OF example_well_formed(2) bmc_example_inv]) simp_all



end
