(* ===== verification/Aiger.thy ===== *)
theory Aiger
  imports Prelude
begin

text \<open>
  \<^verbatim>\<open>dep/aiger/aiger.h\<close> and the part of \<^verbatim>\<open>dep/aiger/aiger.c\<close> that keeps an and-inverter graph: its
  literals, its arrays, the table that says what every variable is, the functions that add a node,
  and the queries. An array with its length and capacity is a list. Literals are natural numbers
  (\<open>unsigned\<close>, with \<open>2 * maxvar + 1\<close> assumed to fit); \<open>None\<close> is a failed assertion, in a build
  with assertions (the first argument), or an access outside an array. Memory management is left out.
\<close>

section \<open>Literals\<close>

text \<open>The macros: bit 0 is the sign, the rest the index of the variable.\<close>

definition aiger_false :: nat where "aiger_false = 0"
definition aiger_true :: nat where "aiger_true = 1"

definition aiger_is_constant :: "nat \<Rightarrow> bool" where
  "aiger_is_constant l \<longleftrightarrow> l = aiger_false \<or> l = aiger_true"

definition aiger_sign :: "nat \<Rightarrow> nat" where
  "aiger_sign l = l mod 2"

definition aiger_strip :: "nat \<Rightarrow> nat" where
  "aiger_strip l = l - l mod 2"

definition aiger_not :: "nat \<Rightarrow> nat" where
  "aiger_not l = (if l mod 2 = 0 then l + 1 else l - 1)"

definition aiger_var2lit :: "nat \<Rightarrow> nat" where
  "aiger_var2lit i = 2 * i"

definition aiger_lit2var :: "nat \<Rightarrow> nat" where
  "aiger_lit2var l = l div 2"

section \<open>The graph\<close>

record aiger_and =
  and_lhs :: nat
  and_rhs0 :: nat
  and_rhs1 :: nat

record aiger_symbol =
  sym_lit :: nat
  sym_next :: nat
  sym_reset :: nat
  sym_lits :: "nat list"
  sym_name :: "string option"

record aiger_type =
  ty_input :: bool
  ty_latch :: bool
  ty_and :: bool
  ty_mark :: bool
  ty_onstack :: bool
  ty_idx :: nat

text \<open>
  The visible struct and the private one around it. \<open>aig_comments\<close> is the array of \<open>num_comments\<close> pointers; the
  last one is null and ends the array.
\<close>

record aiger =
  aig_maxvar :: nat
  aig_inputs :: "aiger_symbol list"
  aig_latches :: "aiger_symbol list"
  aig_outputs :: "aiger_symbol list"
  aig_bad :: "aiger_symbol list"
  aig_constraints :: "aiger_symbol list"
  aig_justice :: "aiger_symbol list"
  aig_fairness :: "aiger_symbol list"
  aig_ands :: "aiger_and list"
  aig_comments :: "string option list"
  aig_types :: "aiger_type list"
  aig_error :: "string option"

definition zero_symbol :: aiger_symbol where
  "zero_symbol = \<lparr>sym_lit = 0, sym_next = 0, sym_reset = 0, sym_lits = [], sym_name = None\<rparr>"

definition zero_type :: aiger_type where
  "zero_type = \<lparr>ty_input = False, ty_latch = False, ty_and = False, ty_mark = False,
     ty_onstack = False, ty_idx = 0\<rparr>"

definition aiger_init :: aiger where
  "aiger_init = \<lparr>aig_maxvar = 0, aig_inputs = [], aig_latches = [], aig_outputs = [], aig_bad = [],
     aig_constraints = [], aig_justice = [], aig_fairness = [], aig_ands = [], aig_comments = [None],
     aig_types = [], aig_error = None\<rparr>"

text \<open>\<open>aiger_copy_str\<close>: a missing and an empty name are the same.\<close>

definition aiger_copy_str :: "string option \<Rightarrow> string option" where
  "aiger_copy_str str = (case str of None \<Rightarrow> None | Some s \<Rightarrow> if s = [] then None else Some s)"

section \<open>Adding nodes\<close>

text \<open>\<open>ENLARGE\<close>: double the capacity, zeroed.\<close>

definition enlarge_types :: "aiger_type list \<Rightarrow> aiger_type list" where
  "enlarge_types ts = ts @ replicate (if ts = [] then 1 else length ts) zero_type"

function grow_types :: "nat \<Rightarrow> aiger_type list \<Rightarrow> aiger_type list" where
  "grow_types var ts = (if length ts \<le> var then grow_types var (enlarge_types ts) else ts)"
  by pat_completeness auto
termination
  by (relation "measure (\<lambda>(var, ts). Suc var - length ts)") (auto simp: enlarge_types_def simp flip: length_greater_0_conv)

declare grow_types.simps [simp del]

definition aiger_import_literal :: "aiger \<Rightarrow> nat \<Rightarrow> aiger" where
  "aiger_import_literal g lit =
     (let var = aiger_lit2var lit
      in g\<lparr>aig_maxvar := (if aig_maxvar g < var then var else aig_maxvar g),
           aig_types := grow_types var (aig_types g)\<rparr>)"

definition set_type :: "aiger \<Rightarrow> nat \<Rightarrow> aiger_type \<Rightarrow> aiger option" where
  "set_type g var t = do {
     ts \<leftarrow> vec_set (aig_types g) var t;
     Some (g\<lparr>aig_types := ts\<rparr>) }"

definition aiger_add_input :: "bool \<Rightarrow> aiger \<Rightarrow> nat \<Rightarrow> string option \<Rightarrow> aiger option" where
  "aiger_add_input d g lit name = do {
     assert_that d (aig_error g = None);
     assert_that d (lit \<noteq> 0);
     assert_that d (aiger_sign lit = 0);
     let g = aiger_import_literal g lit;
     t \<leftarrow> vec_at (aig_types g) (aiger_lit2var lit);
     assert_that d (\<not> ty_input t);
     assert_that d (\<not> ty_latch t);
     assert_that d (\<not> ty_and t);
     g \<leftarrow> set_type g (aiger_lit2var lit) (t\<lparr>ty_input := True, ty_idx := length (aig_inputs g)\<rparr>);
     Some (g\<lparr>aig_inputs := aig_inputs g @ [zero_symbol\<lparr>sym_lit := lit, sym_name := aiger_copy_str name\<rparr>]\<rparr>) }"

definition aiger_add_latch :: "bool \<Rightarrow> aiger \<Rightarrow> nat \<Rightarrow> nat \<Rightarrow> string option \<Rightarrow> aiger option" where
  "aiger_add_latch d g lit nxt name = do {
     assert_that d (aig_error g = None);
     assert_that d (lit \<noteq> 0);
     assert_that d (aiger_sign lit = 0);
     let g = aiger_import_literal g lit;
     t \<leftarrow> vec_at (aig_types g) (aiger_lit2var lit);
     assert_that d (\<not> ty_input t);
     assert_that d (\<not> ty_latch t);
     assert_that d (\<not> ty_and t);
     g \<leftarrow> set_type g (aiger_lit2var lit) (t\<lparr>ty_latch := True, ty_idx := length (aig_latches g)\<rparr>);
     let g = aiger_import_literal g nxt;
     Some (g\<lparr>aig_latches := aig_latches g @
               [zero_symbol\<lparr>sym_lit := lit, sym_next := nxt, sym_name := aiger_copy_str name\<rparr>]\<rparr>) }"

definition aiger_add_reset :: "bool \<Rightarrow> aiger \<Rightarrow> nat \<Rightarrow> nat \<Rightarrow> aiger option" where
  "aiger_add_reset d g lit reset = do {
     assert_that d (reset \<le> 1 \<or> reset = lit);
     assert_that d (aig_error g = None);
     assert_that d (lit \<noteq> 0);
     assert_that d (aiger_sign lit = 0);
     let g = aiger_import_literal g lit;
     t \<leftarrow> vec_at (aig_types g) (aiger_lit2var lit);
     assert_that d (ty_latch t);
     assert_that d (ty_idx t < length (aig_latches g));
     s \<leftarrow> vec_at (aig_latches g) (ty_idx t);
     ls \<leftarrow> vec_set (aig_latches g) (ty_idx t) (s\<lparr>sym_reset := reset\<rparr>);
     Some (g\<lparr>aig_latches := ls\<rparr>) }"

definition named_symbol :: "nat \<Rightarrow> string option \<Rightarrow> aiger_symbol" where
  "named_symbol lit name = zero_symbol\<lparr>sym_lit := lit, sym_name := aiger_copy_str name\<rparr>"

definition aiger_add_output :: "aiger \<Rightarrow> nat \<Rightarrow> string option \<Rightarrow> aiger" where
  "aiger_add_output g lit name =
     (let g = aiger_import_literal g lit in g\<lparr>aig_outputs := aig_outputs g @ [named_symbol lit name]\<rparr>)"

definition aiger_add_bad :: "aiger \<Rightarrow> nat \<Rightarrow> string option \<Rightarrow> aiger" where
  "aiger_add_bad g lit name =
     (let g = aiger_import_literal g lit in g\<lparr>aig_bad := aig_bad g @ [named_symbol lit name]\<rparr>)"

definition aiger_add_constraint :: "aiger \<Rightarrow> nat \<Rightarrow> string option \<Rightarrow> aiger" where
  "aiger_add_constraint g lit name =
     (let g = aiger_import_literal g lit in g\<lparr>aig_constraints := aig_constraints g @ [named_symbol lit name]\<rparr>)"

definition aiger_add_justice :: "aiger \<Rightarrow> nat list \<Rightarrow> string option \<Rightarrow> aiger" where
  "aiger_add_justice g lits name =
     (let g = foldl aiger_import_literal g lits
      in g\<lparr>aig_justice := aig_justice g @ [zero_symbol\<lparr>sym_lits := lits, sym_name := aiger_copy_str name\<rparr>]\<rparr>)"

definition aiger_add_fairness :: "aiger \<Rightarrow> nat \<Rightarrow> string option \<Rightarrow> aiger" where
  "aiger_add_fairness g lit name =
     (let g = aiger_import_literal g lit in g\<lparr>aig_fairness := aig_fairness g @ [named_symbol lit name]\<rparr>)"

definition aiger_add_and :: "bool \<Rightarrow> aiger \<Rightarrow> nat \<Rightarrow> nat \<Rightarrow> nat \<Rightarrow> aiger option" where
  "aiger_add_and d g lhs rhs0 rhs1 = do {
     assert_that d (aig_error g = None);
     assert_that d (1 < lhs);
     assert_that d (aiger_sign lhs = 0);
     let g = aiger_import_literal g lhs;
     t \<leftarrow> vec_at (aig_types g) (aiger_lit2var lhs);
     assert_that d (\<not> ty_input t);
     assert_that d (\<not> ty_latch t);
     assert_that d (\<not> ty_and t);
     g \<leftarrow> set_type g (aiger_lit2var lhs) (t\<lparr>ty_and := True, ty_idx := length (aig_ands g)\<rparr>);
     let g = aiger_import_literal (aiger_import_literal g rhs0) rhs1;
     Some (g\<lparr>aig_ands := aig_ands g @ [\<lparr>and_lhs = lhs, and_rhs0 = rhs0, and_rhs1 = rhs1\<rparr>]\<rparr>) }"

section \<open>Queries\<close>

definition aiger_lit2type :: "bool \<Rightarrow> aiger \<Rightarrow> nat \<Rightarrow> aiger_type option" where
  "aiger_lit2type d g lit = do {
     assert_that d (aiger_lit2var lit \<le> aig_maxvar g);
     vec_at (aig_types g) (aiger_lit2var lit) }"

text \<open>The returned pointer is its position in the array; the inner \<open>None\<close> is the null pointer.\<close>

definition aiger_is_input :: "bool \<Rightarrow> aiger \<Rightarrow> nat \<Rightarrow> nat option option" where
  "aiger_is_input d g lit = do {
     assert_that d (aig_error g = None);
     t \<leftarrow> aiger_lit2type d g lit;
     Some (if ty_input t then Some (ty_idx t) else None) }"

definition aiger_is_latch :: "bool \<Rightarrow> aiger \<Rightarrow> nat \<Rightarrow> nat option option" where
  "aiger_is_latch d g lit = do {
     assert_that d (aig_error g = None);
     t \<leftarrow> aiger_lit2type d g lit;
     Some (if ty_latch t then Some (ty_idx t) else None) }"

definition aiger_is_and :: "bool \<Rightarrow> aiger \<Rightarrow> nat \<Rightarrow> nat option option" where
  "aiger_is_and d g lit = do {
     assert_that d (aig_error g = None);
     t \<leftarrow> aiger_lit2type d g lit;
     Some (if ty_and t then Some (ty_idx t) else None) }"

definition aiger_lit2tag :: "bool \<Rightarrow> aiger \<Rightarrow> nat \<Rightarrow> nat option" where
  "aiger_lit2tag d g lit0 =
     (let lit = aiger_strip lit0
      in if lit = 0 then Some 0
         else do {
           t \<leftarrow> aiger_lit2type d g lit;
           Some (if ty_input t then 1 else if ty_latch t then 2 else 3) })"

definition aiger_get_symbol :: "bool \<Rightarrow> aiger \<Rightarrow> nat \<Rightarrow> string option option" where
  "aiger_get_symbol d g lit = do {
     assert_that d (aig_error g = None);
     assert_that d (lit \<noteq> 0);
     assert_that d (aiger_sign lit = 0);
     assert_that d (aiger_lit2var lit \<le> aig_maxvar g);
     t \<leftarrow> vec_at (aig_types g) (aiger_lit2var lit);
     if ty_input t then do { s \<leftarrow> vec_at (aig_inputs g) (ty_idx t); Some (sym_name s) }
     else if ty_latch t then do { s \<leftarrow> vec_at (aig_latches g) (ty_idx t); Some (sym_name s) }
     else Some None }"

section \<open>The binary order\<close>

fun max_lit :: "bool \<Rightarrow> aiger_symbol list \<Rightarrow> nat \<Rightarrow> nat option" where
  "max_lit d [] res = Some res"
| "max_lit d (s # ss) res = do {
     assert_that d (aiger_sign (sym_lit s) = 0);
     max_lit d ss (if res < sym_lit s then sym_lit s else res) }"

definition aiger_max_input_or_latch :: "bool \<Rightarrow> aiger \<Rightarrow> nat option" where
  "aiger_max_input_or_latch d g = do {
     res \<leftarrow> max_lit d (aig_inputs g) 0;
     max_lit d (aig_latches g) res }"

text \<open>The two loops over the inputs and latches share their counter.\<close>

fun consecutive_from :: "nat \<Rightarrow> aiger_symbol list \<Rightarrow> nat option" where
  "consecutive_from mx [] = Some mx"
| "consecutive_from mx (s # ss) = (if mx + 2 \<noteq> sym_lit s then None else consecutive_from (mx + 2) ss)"

fun ands_from :: "nat \<Rightarrow> nat \<Rightarrow> aiger_and list \<Rightarrow> bool" where
  "ands_from mx lhs [] = True"
| "ands_from mx lhs (a # as) =
     (if and_lhs a \<le> mx then False
      else if and_lhs a \<noteq> lhs then False
      else if and_lhs a < and_rhs0 a then False
      else if and_rhs0 a < and_rhs1 a then False
      else ands_from mx (lhs + 2) as)"

definition aiger_is_reencoded :: "bool \<Rightarrow> aiger \<Rightarrow> bool option" where
  "aiger_is_reencoded d g =
     (case Option.bind (consecutive_from 0 (aig_inputs g)) (\<lambda>mx. consecutive_from mx (aig_latches g)) of
        None \<Rightarrow> Some False
      | Some mx \<Rightarrow> do {
          top \<leftarrow> aiger_max_input_or_latch d g;
          Some (ands_from mx (top + 2) (aig_ands g)) })"

end
