(* ===== verification/AigerCheck.thy ===== *)
theory AigerCheck
  imports Aiger
begin

text \<open>
  \<open>aiger_check\<close> of \<^verbatim>\<open>dep/aiger/aiger.c\<close>: every literal that is used is defined, and no and gate
  depends on itself. The first problem found is kept as the error string of the graph. The search
  for cycles keeps its stack in a list whose head is the top; a \<open>0\<close> in it marks that the variable
  below it is finished. The loop is a \<open>partial_function\<close>: not to return would be \<open>None\<close>.
\<close>

section \<open>Errors\<close>

definition nat_text :: "nat \<Rightarrow> string" where
  "nat_text n = int_to_string (int n)"

definition aiger_error_u :: "bool \<Rightarrow> aiger \<Rightarrow> string \<Rightarrow> nat \<Rightarrow> string \<Rightarrow> aiger option" where
  "aiger_error_u d g before u after = do {
     assert_that d (aig_error g = None);
     Some (g\<lparr>aig_error := Some (before @ nat_text u @ after)\<rparr>) }"

definition aiger_error_uu ::
  "bool \<Rightarrow> aiger \<Rightarrow> string \<Rightarrow> nat \<Rightarrow> string \<Rightarrow> nat \<Rightarrow> string \<Rightarrow> aiger option" where
  "aiger_error_uu d g before a between b after = do {
     assert_that d (aig_error g = None);
     Some (g\<lparr>aig_error := Some (before @ nat_text a @ between @ nat_text b @ after)\<rparr>) }"

section \<open>Undefined literals\<close>

definition aiger_literal_defined :: "bool \<Rightarrow> aiger \<Rightarrow> nat \<Rightarrow> bool option" where
  "aiger_literal_defined d g lit = do {
     assert_that d (aiger_lit2var lit \<le> aig_maxvar g);
     if aiger_lit2var lit = 0 then Some True
     else do {
       t \<leftarrow> vec_at (aig_types g) (aiger_lit2var lit);
       Some (ty_and t \<or> ty_input t \<or> ty_latch t) } }"

fun check_next :: "bool \<Rightarrow> aiger \<Rightarrow> aiger_symbol list \<Rightarrow> aiger option" where
  "check_next d g [] = Some g"
| "check_next d g (s # ss) =
     (if aig_error g \<noteq> None then Some g
      else do {
        assert_that d (aiger_sign (sym_lit s) = 0);
        t \<leftarrow> vec_at (aig_types g) (aiger_lit2var (sym_lit s));
        assert_that d (ty_latch t);
        b \<leftarrow> aiger_literal_defined d g (sym_next s);
        g \<leftarrow> (if \<not> b then aiger_error_uu d g ''next state function '' (sym_next s)
                            '' of latch '' (sym_lit s) '' undefined''
               else Some g);
        check_next d g ss })"

definition aiger_check_next_defined :: "bool \<Rightarrow> aiger \<Rightarrow> aiger option" where
  "aiger_check_next_defined d g = check_next d g (aig_latches g)"

definition aiger_check_right_hand_side_defined :: "bool \<Rightarrow> aiger \<Rightarrow> aiger_and \<Rightarrow> nat \<Rightarrow> aiger option" where
  "aiger_check_right_hand_side_defined d g a rhs =
     (if aig_error g \<noteq> None then Some g
      else do {
        b \<leftarrow> aiger_literal_defined d g rhs;
        if \<not> b then aiger_error_uu d g ''literal '' rhs '' in AND '' (and_lhs a) '' undefined''
        else Some g })"

fun check_ands :: "bool \<Rightarrow> aiger \<Rightarrow> aiger_and list \<Rightarrow> aiger option" where
  "check_ands d g [] = Some g"
| "check_ands d g (a # as) =
     (if aig_error g \<noteq> None then Some g
      else do {
        g \<leftarrow> aiger_check_right_hand_side_defined d g a (and_rhs0 a);
        g \<leftarrow> aiger_check_right_hand_side_defined d g a (and_rhs1 a);
        check_ands d g as })"

definition aiger_check_right_hand_sides_defined :: "bool \<Rightarrow> aiger \<Rightarrow> aiger option" where
  "aiger_check_right_hand_sides_defined d g = check_ands d g (aig_ands g)"

text \<open>The loop that the checks of outputs, bad states, constraints, justice and fairness share.\<close>

fun check_lits :: "bool \<Rightarrow> string \<Rightarrow> aiger \<Rightarrow> nat list \<Rightarrow> aiger option" where
  "check_lits d what g [] = Some g"
| "check_lits d what g (l # ls) =
     (if aig_error g \<noteq> None then Some g
      else if aiger_strip l \<le> 1 then check_lits d what g ls
      else do {
        b \<leftarrow> aiger_literal_defined d g (aiger_strip l);
        g \<leftarrow> (if \<not> b then aiger_error_u d g what (aiger_strip l) '' undefined'' else Some g);
        check_lits d what g ls })"

definition aiger_check_outputs_defined :: "bool \<Rightarrow> aiger \<Rightarrow> aiger option" where
  "aiger_check_outputs_defined d g = check_lits d ''output '' g (map sym_lit (aig_outputs g))"

definition aiger_check_bad_defined :: "bool \<Rightarrow> aiger \<Rightarrow> aiger option" where
  "aiger_check_bad_defined d g = check_lits d ''bad '' g (map sym_lit (aig_bad g))"

definition aiger_check_constraints_defined :: "bool \<Rightarrow> aiger \<Rightarrow> aiger option" where
  "aiger_check_constraints_defined d g = check_lits d ''constraint '' g (map sym_lit (aig_constraints g))"

definition aiger_check_fairness_defined :: "bool \<Rightarrow> aiger \<Rightarrow> aiger option" where
  "aiger_check_fairness_defined d g = check_lits d ''fairness '' g (map sym_lit (aig_fairness g))"

definition aiger_check_justice_defined :: "bool \<Rightarrow> aiger \<Rightarrow> aiger option" where
  "aiger_check_justice_defined d g = check_lits d ''justice '' g (concat (map sym_lits (aig_justice g)))"

section \<open>Cycles\<close>

definition push_var :: "nat \<Rightarrow> nat list \<Rightarrow> nat list" where
  "push_var v stack = (if v \<noteq> 0 then v # stack else stack)"

partial_function (option) cycles_from :: "bool \<Rightarrow> aiger \<Rightarrow> nat list \<Rightarrow> aiger option" where
  "cycles_from d g stack =
     (case stack of
        [] \<Rightarrow> Some g
      | j # below \<Rightarrow>
          if j \<noteq> 0 then do {
            t \<leftarrow> vec_at (aig_types g) j;
            if ty_mark t \<and> ty_onstack t then aiger_error_u d g ''cyclic definition for and gate '' j ''''
            else if \<not> ty_and t \<or> ty_mark t then cycles_from d g below
            else do {
              g \<leftarrow> set_type g j (t\<lparr>ty_mark := True, ty_onstack := True\<rparr>);
              assert_that d (ty_idx t < length (aig_ands g));
              a \<leftarrow> vec_at (aig_ands g) (ty_idx t);
              cycles_from d g
                (push_var (aiger_lit2var (and_rhs1 a)) (push_var (aiger_lit2var (and_rhs0 a)) (0 # stack))) } }
          else do {
            assert_that d (below \<noteq> []);
            (case below of
               [] \<Rightarrow> None
             | k # rest \<Rightarrow> do {
                 assert_that d (k \<noteq> 0);
                 t \<leftarrow> vec_at (aig_types g) k;
                 assert_that d (ty_mark t);
                 assert_that d (ty_onstack t);
                 g \<leftarrow> set_type g k (t\<lparr>ty_onstack := False\<rparr>);
                 cycles_from d g rest }) })"

fun check_cycles :: "bool \<Rightarrow> aiger \<Rightarrow> nat list \<Rightarrow> aiger option" where
  "check_cycles d g [] = Some g"
| "check_cycles d g (i # is) =
     (if aig_error g \<noteq> None then Some g
      else do {
        t \<leftarrow> vec_at (aig_types g) i;
        if \<not> ty_and t \<or> ty_mark t then check_cycles d g is
        else do {
          g \<leftarrow> cycles_from d g [i];
          check_cycles d g is } })"

definition aiger_check_for_cycles :: "bool \<Rightarrow> aiger \<Rightarrow> aiger option" where
  "aiger_check_for_cycles d g = check_cycles d g [1..<aig_maxvar g + 1]"

definition aiger_check :: "bool \<Rightarrow> aiger \<Rightarrow> aiger option" where
  "aiger_check d g = do {
     assert_that d (aig_error g = None);
     g \<leftarrow> aiger_check_next_defined d g;
     g \<leftarrow> aiger_check_outputs_defined d g;
     g \<leftarrow> aiger_check_bad_defined d g;
     g \<leftarrow> aiger_check_constraints_defined d g;
     g \<leftarrow> aiger_check_justice_defined d g;
     g \<leftarrow> aiger_check_fairness_defined d g;
     g \<leftarrow> aiger_check_right_hand_sides_defined d g;
     aiger_check_for_cycles d g }"

end
