(* ===== verification/AigerReencode.thy ===== *)
theory AigerReencode
  imports AigerCheck
begin

text \<open>
  \<open>aiger_reencode\<close> of \<^verbatim>\<open>dep/aiger/aiger.c\<close>: renumbers the graph so that inputs come first, then the
  latches, then the and gates with children before parents, and drops the gates nothing depends on.
  \<open>code\<close> maps an old literal to its new one, \<open>0\<close> while there is none.
\<close>

record reencoder =
  re_graph :: aiger
  re_new :: nat
  re_code :: "nat list"

definition aiger_new_code :: "bool \<Rightarrow> reencoder \<Rightarrow> nat \<Rightarrow> reencoder option" where
  "aiger_new_code d r var = do {
     c \<leftarrow> vec_at (re_code r) (aiger_var2lit var);
     assert_that d (c = 0);
     code \<leftarrow> vec_set (re_code r) (aiger_var2lit var) (re_new r);
     code \<leftarrow> vec_set code (aiger_var2lit var + 1) (re_new r + 1);
     Some (r\<lparr>re_code := code, re_new := re_new r + 2\<rparr>) }"

text \<open>A child is pushed unless it is a constant, a leaf or already on the stack.\<close>

definition push_child :: "aiger \<Rightarrow> nat \<Rightarrow> nat list \<Rightarrow> nat list option" where
  "push_child g child stack =
     (if child \<noteq> 0 then do {
        t \<leftarrow> vec_at (aig_types g) child;
        Some (if \<not> ty_input t \<and> \<not> ty_latch t \<and> \<not> ty_onstack t then child # stack else stack) }
      else Some stack)"

partial_function (option) reencode_from :: "bool \<Rightarrow> reencoder \<Rightarrow> nat list \<Rightarrow> reencoder option" where
  "reencode_from d r stack =
     (case stack of
        [] \<Rightarrow> Some r
      | old # below \<Rightarrow>
          if old \<noteq> 0 then do {
            c \<leftarrow> vec_at (re_code r) (aiger_var2lit old);
            if c \<noteq> 0 then reencode_from d r below
            else do {
              assert_that d (old \<le> aig_maxvar (re_graph r));
              t \<leftarrow> vec_at (aig_types (re_graph r)) old;
              if ty_onstack t then reencode_from d r below
              else do {
                g \<leftarrow> set_type (re_graph r) old (t\<lparr>ty_onstack := True\<rparr>);
                assert_that d (ty_and t);
                assert_that d (ty_idx t < length (aig_ands g));
                a \<leftarrow> vec_at (aig_ands g) (ty_idx t);
                let child0 = aiger_lit2var (and_rhs0 a);
                let child1 = aiger_lit2var (and_rhs1 a);
                let (child0, child1) = (if child0 < child1 then (child1, child0) else (child0, child1));
                stack \<leftarrow> push_child g child0 (0 # old # below);
                stack \<leftarrow> push_child g child1 stack;
                reencode_from d (r\<lparr>re_graph := g\<rparr>) stack } } }
          else do {
            assert_that d (below \<noteq> []);
            (case below of
               [] \<Rightarrow> None
             | old # rest \<Rightarrow> do {
                 c \<leftarrow> vec_at (re_code r) (aiger_var2lit old);
                 assert_that d (c = 0);
                 t \<leftarrow> vec_at (aig_types (re_graph r)) old;
                 assert_that d (ty_onstack t);
                 g \<leftarrow> set_type (re_graph r) old (t\<lparr>ty_onstack := False\<rparr>);
                 r \<leftarrow> aiger_new_code d (r\<lparr>re_graph := g\<rparr>) old;
                 reencode_from d r rest }) })"

definition aiger_reencode_lit :: "bool \<Rightarrow> reencoder \<Rightarrow> nat \<Rightarrow> (nat \<times> reencoder) option" where
  "aiger_reencode_lit d r lit =
     (if lit < 2 then Some (lit, r)
      else do {
        res \<leftarrow> vec_at (re_code r) lit;
        if res \<noteq> 0 then Some (res, r)
        else do {
          let var = aiger_lit2var lit;
          assert_that d (var \<le> aig_maxvar (re_graph r));
          t \<leftarrow> vec_at (aig_types (re_graph r)) var;
          r \<leftarrow> (if ty_and t then reencode_from d r [var]
                 else do {
                   assert_that d (ty_input t \<or> ty_latch t);
                   assert_that d (lit < re_new r);
                   code \<leftarrow> vec_set (re_code r) lit lit;
                   code \<leftarrow> vec_set code (aiger_not lit) (aiger_not lit);
                   Some (r\<lparr>re_code := code\<rparr>) });
          res \<leftarrow> vec_at (re_code r) lit;
          assert_that d (res \<noteq> 0);
          Some (res, r) } })"

text \<open>The codes of inputs and latches.\<close>

fun code_leaves :: "reencoder \<Rightarrow> aiger_symbol list \<Rightarrow> reencoder option" where
  "code_leaves r [] = Some r"
| "code_leaves r (s # ss) = do {
     code \<leftarrow> vec_set (re_code r) (sym_lit s) (re_new r);
     code \<leftarrow> vec_set code (sym_lit s + 1) (re_new r + 1);
     code_leaves (r\<lparr>re_code := code, re_new := re_new r + 2\<rparr>) ss }"

fun recode_latches :: "bool \<Rightarrow> reencoder \<Rightarrow> aiger_symbol list \<Rightarrow> (aiger_symbol list \<times> reencoder) option" where
  "recode_latches d r [] = Some ([], r)"
| "recode_latches d r (s # ss) = do {
     (nxt, r) \<leftarrow> aiger_reencode_lit d r (sym_next s);
     (reset, r) \<leftarrow> aiger_reencode_lit d r (sym_reset s);
     (ss, r) \<leftarrow> recode_latches d r ss;
     Some (s\<lparr>sym_next := nxt, sym_reset := reset\<rparr> # ss, r) }"

fun recode_lits :: "bool \<Rightarrow> reencoder \<Rightarrow> nat list \<Rightarrow> (nat list \<times> reencoder) option" where
  "recode_lits d r [] = Some ([], r)"
| "recode_lits d r (l # ls) = do {
     (l, r) \<leftarrow> aiger_reencode_lit d r l;
     (ls, r) \<leftarrow> recode_lits d r ls;
     Some (l # ls, r) }"

fun recode_symbols :: "bool \<Rightarrow> reencoder \<Rightarrow> aiger_symbol list \<Rightarrow> (aiger_symbol list \<times> reencoder) option" where
  "recode_symbols d r [] = Some ([], r)"
| "recode_symbols d r (s # ss) = do {
     (l, r) \<leftarrow> aiger_reencode_lit d r (sym_lit s);
     (ss, r) \<leftarrow> recode_symbols d r ss;
     Some (s\<lparr>sym_lit := l\<rparr> # ss, r) }"

fun recode_justice :: "bool \<Rightarrow> reencoder \<Rightarrow> aiger_symbol list \<Rightarrow> (aiger_symbol list \<times> reencoder) option" where
  "recode_justice d r [] = Some ([], r)"
| "recode_justice d r (s # ss) = do {
     (ls, r) \<leftarrow> recode_lits d r (sym_lits s);
     (ss, r) \<leftarrow> recode_justice d r ss;
     Some (s\<lparr>sym_lits := ls\<rparr> # ss, r) }"

fun recode_ands :: "bool \<Rightarrow> nat list \<Rightarrow> aiger_and list \<Rightarrow> aiger_and list option" where
  "recode_ands d code [] = Some []"
| "recode_ands d code (a # as) = do {
     lhs \<leftarrow> vec_at code (and_lhs a);
     if lhs = 0 then recode_ands d code as
     else do {
       rhs0 \<leftarrow> vec_at code (and_rhs0 a);
       rhs1 \<leftarrow> vec_at code (and_rhs1 a);
       let (rhs0, rhs1) = (if rhs0 < rhs1 then (rhs1, rhs0) else (rhs0, rhs1));
       assert_that d (rhs0 < lhs);
       assert_that d (rhs1 \<le> rhs0);
       as \<leftarrow> recode_ands d code as;
       Some (\<lparr>and_lhs = lhs, and_rhs0 = rhs0, and_rhs1 = rhs1\<rparr> # as) } }"

section \<open>The table of types\<close>

definition untyped :: "aiger_type \<Rightarrow> aiger_type" where
  "untyped t = t\<lparr>ty_input := False, ty_latch := False, ty_and := False, ty_idx := 0\<rparr>"

fun reset_types :: "aiger_type list \<Rightarrow> nat list \<Rightarrow> aiger_type list option" where
  "reset_types ts [] = Some ts"
| "reset_types ts (i # is) = do {
     t \<leftarrow> vec_at ts i;
     ts \<leftarrow> vec_set ts i (untyped t);
     reset_types ts is }"

fun retype :: "(aiger_type \<Rightarrow> aiger_type) \<Rightarrow> aiger_type list \<Rightarrow> nat \<Rightarrow> nat list \<Rightarrow> aiger_type list option" where
  "retype f ts i [] = Some ts"
| "retype f ts i (l # ls) = do {
     t \<leftarrow> vec_at ts (aiger_lit2var l);
     ts \<leftarrow> vec_set ts (aiger_lit2var l) ((f t)\<lparr>ty_idx := i\<rparr>);
     retype f ts (i + 1) ls }"

fun recode_leaves :: "bool \<Rightarrow> nat list \<Rightarrow> aiger_symbol list \<Rightarrow> aiger_symbol list option" where
  "recode_leaves d code [] = Some []"
| "recode_leaves d code (s # ss) = do {
     assert_that d (sym_lit s < length code);
     l \<leftarrow> vec_at code (sym_lit s);
     ss \<leftarrow> recode_leaves d code ss;
     Some (s\<lparr>sym_lit := l\<rparr> # ss) }"

definition one_type :: "aiger_type \<Rightarrow> bool" where
  "one_type t \<longleftrightarrow> \<not> (ty_input t \<and> ty_latch t) \<and> \<not> (ty_input t \<and> ty_and t) \<and> \<not> (ty_latch t \<and> ty_and t)"

definition aiger_reencode :: "bool \<Rightarrow> aiger \<Rightarrow> aiger option" where
  "aiger_reencode d g = do {
     assert_that d (aig_error g = None);
     b \<leftarrow> aiger_is_reencoded d g;
     if b then Some g
     else do {
       let code = (replicate (2 * (aig_maxvar g + 1)) 0)[1 := 1];
       let r = \<lparr>re_graph = g, re_new = 2, re_code = code\<rparr>;
       r \<leftarrow> code_leaves r (aig_inputs g);
       r \<leftarrow> code_leaves r (aig_latches g);
       (latches, r) \<leftarrow> recode_latches d r (aig_latches g);
       (outputs, r) \<leftarrow> recode_symbols d r (aig_outputs g);
       (bad, r) \<leftarrow> recode_symbols d r (aig_bad g);
       (constraints, r) \<leftarrow> recode_symbols d r (aig_constraints g);
       (justice, r) \<leftarrow> recode_justice d r (aig_justice g);
       (fairness, r) \<leftarrow> recode_symbols d r (aig_fairness g);
       let g = re_graph r;
       ands \<leftarrow> recode_ands d (re_code r) (aig_ands g);
       let ands = sort_key and_lhs ands;
       ts \<leftarrow> reset_types (aig_types g) [1..<aig_maxvar g + 1];
       assert_that d (re_new r \<noteq> 0);
       assert_that d (aiger_lit2var (re_new r - 1) \<le> aig_maxvar g);
       let top = aiger_lit2var (re_new r - 1);
       ts \<leftarrow> retype (\<lambda>t. t\<lparr>ty_and := True\<rparr>) ts 0 (map and_lhs ands);
       inputs \<leftarrow> recode_leaves d (re_code r) (aig_inputs g);
       ts \<leftarrow> retype (\<lambda>t. t\<lparr>ty_input := True\<rparr>) ts 0 (map sym_lit inputs);
       latches \<leftarrow> recode_leaves d (re_code r) latches;
       ts \<leftarrow> retype (\<lambda>t. t\<lparr>ty_latch := True\<rparr>) ts 0 (map sym_lit latches);
       assert_that d (list_all one_type (take (top + 1) ts));
       let g = g\<lparr>aig_maxvar := top, aig_inputs := inputs, aig_latches := latches, aig_outputs := outputs,
                 aig_bad := bad, aig_constraints := constraints, aig_justice := justice,
                 aig_fairness := fairness, aig_ands := ands, aig_types := ts\<rparr>;
       b \<leftarrow> (if d then aiger_is_reencoded d g else Some True);
       assert_that d b;
       g \<leftarrow> (if d then aiger_check d g else Some g);
       assert_that d (aig_error g = None);
       Some g } }"

end
