(* ===== verification/AigerBuilder.thy ===== *)
theory AigerBuilder
  imports TransitionSystem AigerReencode
begin

text \<open>
  \<^verbatim>\<open>src/aiger_builder.hpp\<close> and \<^verbatim>\<open>src/aiger_builder.cpp\<close>: the transition system of an and-inverter
  graph, by a Tseitin encoding of the gates that the next states and the error depend on.
  \<open>std::expected\<close> is a sum with the message on the left; \<open>None\<close> is a failed assertion (of this
  file or of the AIGER library), an access outside an array or \<open>std::terminate\<close>.
\<close>

record builder_context =
  ctx_aig :: aiger
  ctx_input_vars :: variable_range
  ctx_state_vars :: variable_range
  ctx_next_state_vars :: variable_range
  ctx_and_vars :: variable_range

definition from_aiger_var :: "bool \<Rightarrow> builder_context \<Rightarrow> nat \<Rightarrow> variable option" where
  "from_aiger_var d ctx var = do {
     assert_that d (var mod 2 = 0);
     assert_that d (2 \<le> var);
     input \<leftarrow> aiger_is_input d (ctx_aig ctx) var;
     (case input of
        Some i \<Rightarrow> Some (vr_nth (ctx_input_vars ctx) (int i))
      | None \<Rightarrow> do {
          latch \<leftarrow> aiger_is_latch d (ctx_aig ctx) var;
          (case latch of
             Some i \<Rightarrow> Some (vr_nth (ctx_state_vars ctx) (int i))
           | None \<Rightarrow> do {
               conjunction \<leftarrow> aiger_is_and d (ctx_aig ctx) var;
               (case conjunction of
                  Some i \<Rightarrow> Some (vr_nth (ctx_and_vars ctx) (int i))
                | None \<Rightarrow> None) }) }) }"

definition from_aiger_lit :: "bool \<Rightarrow> builder_context \<Rightarrow> nat \<Rightarrow> literal option" where
  "from_aiger_lit d ctx lit = do {
     v \<leftarrow> from_aiger_var d ctx (aiger_strip lit);
     Some (literal_of v (aiger_sign lit = 1)) }"

definition symbol_to_string :: "string \<Rightarrow> int \<Rightarrow> aiger_symbol \<Rightarrow> string" where
  "symbol_to_string prefix i symbol =
     (case sym_name symbol of
        None \<Rightarrow> prefix @ ''['' @ int_to_string i @ '']''
      | Some name \<Rightarrow> name)"

section \<open>Gates\<close>

definition make_equivalence :: "bool \<Rightarrow> builder_context \<Rightarrow> nat \<Rightarrow> nat \<Rightarrow> cnf_formula option" where
  "make_equivalence d ctx x y = do {
     lx \<leftarrow> from_aiger_lit d ctx x;
     ly \<leftarrow> from_aiger_lit d ctx y;
     Some (add_clause (add_clause empty_cnf [lit_not lx, ly]) [lit_not ly, lx]) }"

definition clausify_and :: "bool \<Rightarrow> builder_context \<Rightarrow> aiger_and \<Rightarrow> cnf_formula option" where
  "clausify_and d ctx gate =
     (let lhs = and_lhs gate; rhs0 = and_rhs0 gate; rhs1 = and_rhs1 gate
      in if rhs0 = aiger_false \<or> rhs1 = aiger_false then do {
           l \<leftarrow> from_aiger_lit d ctx lhs;
           Some (add_clause empty_cnf [lit_not l]) }
         else if rhs0 = aiger_true \<and> rhs1 = aiger_true then do {
           l \<leftarrow> from_aiger_lit d ctx lhs;
           Some (add_clause empty_cnf [l]) }
         else if rhs0 = aiger_true then make_equivalence d ctx lhs rhs1
         else if rhs1 = aiger_true then make_equivalence d ctx lhs rhs0
         else do {
           l \<leftarrow> from_aiger_lit d ctx lhs;
           r0 \<leftarrow> from_aiger_lit d ctx rhs0;
           r1 \<leftarrow> from_aiger_lit d ctx rhs1;
           Some (add_clause (add_clause (add_clause empty_cnf
             [lit_not l, r0]) [lit_not l, r1]) [lit_not r0, lit_not r1, l]) })"

text \<open>The loop counts down; \<open>n\<close> is its counter plus one.\<close>

fun clausify_loop ::
  "bool \<Rightarrow> builder_context \<Rightarrow> nat \<Rightarrow> nat set \<Rightarrow> cnf_formula \<Rightarrow> cnf_formula option" where
  "clausify_loop d ctx 0 required result = Some result"
| "clausify_loop d ctx (Suc i) required result = do {
     gate \<leftarrow> vec_at (aig_ands (ctx_aig ctx)) i;
     if and_lhs gate \<notin> required \<and> aiger_not (and_lhs gate) \<notin> required
     then clausify_loop d ctx i required result
     else do {
       f \<leftarrow> clausify_and d ctx gate;
       clausify_loop d ctx i (insert (and_rhs1 gate) (insert (and_rhs0 gate) required)) (add_cnf result f) } }"

definition clausify_subgraph :: "bool \<Rightarrow> builder_context \<Rightarrow> nat set \<Rightarrow> cnf_formula option" where
  "clausify_subgraph d ctx required =
     clausify_loop d ctx (length (aig_ands (ctx_aig ctx))) required empty_cnf"

section \<open>The three formulas\<close>

fun init_loop :: "builder_context \<Rightarrow> int \<Rightarrow> aiger_symbol list \<Rightarrow> cnf_formula \<Rightarrow> cnf_formula" where
  "init_loop ctx i [] init = init"
| "init_loop ctx i (s # ss) init =
     init_loop ctx (i + 1) ss
       (if aiger_is_constant (sym_reset s)
        then add_clause init [literal_of (vr_nth (ctx_state_vars ctx) i) (sym_reset s = 0)]
        else init)"

definition build_init :: "builder_context \<Rightarrow> cnf_formula" where
  "build_init ctx = init_loop ctx 0 (aig_latches (ctx_aig ctx)) empty_cnf"

fun trans_loop ::
  "bool \<Rightarrow> builder_context \<Rightarrow> int \<Rightarrow> aiger_symbol list \<Rightarrow> cnf_formula \<Rightarrow> cnf_formula option" where
  "trans_loop d ctx i [] tr = Some tr"
| "trans_loop d ctx i (s # ss) tr =
     (let next_lit = literal_of (vr_nth (ctx_next_state_vars ctx) i) False
      in if sym_next s = aiger_true then trans_loop d ctx (i + 1) ss (add_clause tr [next_lit])
         else if sym_next s = aiger_false then trans_loop d ctx (i + 1) ss (add_clause tr [lit_not next_lit])
         else do {
           phi \<leftarrow> from_aiger_lit d ctx (sym_next s);
           trans_loop d ctx (i + 1) ss
             (add_clause (add_clause tr [lit_not next_lit, phi]) [lit_not phi, next_lit]) })"

definition build_trans :: "bool \<Rightarrow> builder_context \<Rightarrow> cnf_formula option" where
  "build_trans d ctx = do {
     let roots = set (filter (\<lambda>l. \<not> aiger_is_constant l) (map sym_next (aig_latches (ctx_aig ctx))));
     tr \<leftarrow> clausify_subgraph d ctx roots;
     trans_loop d ctx 0 (aig_latches (ctx_aig ctx)) tr }"

definition build_error :: "bool \<Rightarrow> builder_context \<Rightarrow> cnf_formula option" where
  "build_error d ctx = do {
     s \<leftarrow> (if 0 < length (aig_outputs (ctx_aig ctx)) then vec_at (aig_outputs (ctx_aig ctx)) 0
           else vec_at (aig_bad (ctx_aig ctx)) 0);
     if sym_lit s = aiger_true then Some (cnf_constant True)
     else if sym_lit s = aiger_false then Some (cnf_constant False)
     else do {
       error \<leftarrow> clausify_subgraph d ctx {sym_lit s};
       l \<leftarrow> from_aiger_lit d ctx (sym_lit s);
       Some (add_clause error [l]) } }"

definition build_from_context :: "bool \<Rightarrow> builder_context \<Rightarrow> transition_system option" where
  "build_from_context d ctx = do {
     tr \<leftarrow> build_trans d ctx;
     error \<leftarrow> build_error d ctx;
     Some \<lparr>input_vars = ctx_input_vars ctx, state_vars = ctx_state_vars ctx,
           next_state_vars = ctx_next_state_vars ctx, aux_vars = ctx_and_vars ctx,
           ts_init = build_init ctx, ts_trans = tr, ts_error = error\<rparr> }"

section \<open>The context\<close>

definition make_context ::
  "bool \<Rightarrow> variable_store \<Rightarrow> aiger \<Rightarrow> ((string + builder_context) \<times> variable_store) option" where
  "make_context d store g =
     (if length (aig_outputs g) + length (aig_bad g) \<noteq> 1
      then Some (Inl (''The input AIG has to contain precisely one output (aiger <1.9) or precisely'' @
             '' one bad specification (aiger 1.9). The input contains '' @ nat_text (length (aig_outputs g)) @
             '' outputs and '' @ nat_text (length (aig_bad g)) @ '' bad specifications.''), store)
      else if 0 < length (aig_fairness g) \<or> 0 < length (aig_justice g)
      then Some (Inl ''Aiger justice constraints and fairness properties are not supported.'', store)
      else if 0 < length (aig_constraints g)
      then Some (Inl ''NOT IMPLEMENTED: aiger 1.9 invariant constraints are not implemented yet'', store)
      else do {
        b \<leftarrow> aiger_is_reencoded d g;
        g \<leftarrow> (if \<not> b then aiger_reencode d g else Some g);
        let (ins, store) = make_range store (int (length (aig_inputs g)))
              (\<lambda>i. symbol_to_string ''y'' i (aig_inputs g ! nat i));
        let (states, store) = make_range store (int (length (aig_latches g)))
              (\<lambda>i. symbol_to_string ''x'' i (aig_latches g ! nat i));
        let (nexts, store) = make_range store (int (length (aig_latches g)))
              (\<lambda>i. symbol_to_string [CHR ''x'', CHR 0x27] i (aig_latches g ! nat i));
        let (gates, store) = make_range store (int (length (aig_ands g)))
              (\<lambda>i. ''and['' @ int_to_string i @ '']'');
        Some (Inr \<lparr>ctx_aig = g, ctx_input_vars = ins, ctx_state_vars = states,
                   ctx_next_state_vars = nexts, ctx_and_vars = gates\<rparr>, store) })"

definition build_from_aiger ::
  "bool \<Rightarrow> variable_store \<Rightarrow> aiger \<Rightarrow> ((string + transition_system) \<times> variable_store) option" where
  "build_from_aiger d store g = do {
     (res, store) \<leftarrow> make_context d store g;
     (case res of
        Inl msg \<Rightarrow> Some (Inl msg, store)
      | Inr ctx \<Rightarrow> do {
          sys \<leftarrow> build_from_context d ctx;
          Some (Inr sys, store) }) }"

end
