(* ===== verification/AigerMeaning.thy ===== *)
theory AigerMeaning
  imports Aiger
begin

text \<open>
  What an and-inverter graph means. \<open>types_ok\<close> is the invariant of the AIGER library: the table of
  types and the arrays of inputs, latches and gates describe the same graph; every function that
  adds a node keeps it. A valuation gives every variable a value; \<open>aig_valuation\<close> says it agrees
  with given values of latches and inputs and with every gate. On a graph whose gates are ordered
  there is one, unique on the defined variables, so that a state and an input determine the next
  state and whether the error is raised.
\<close>

section \<open>The invariant of the tables\<close>

definition type_at :: "aiger_type list \<Rightarrow> nat \<Rightarrow> aiger_type" where
  "type_at ts v = (if v < length ts then ts ! v else zero_type)"

definition typed :: "aiger \<Rightarrow> nat \<Rightarrow> aiger_type" where
  "typed g = type_at (aig_types g)"

definition defined_var :: "aiger \<Rightarrow> nat \<Rightarrow> bool" where
  "defined_var g v \<longleftrightarrow> ty_input (typed g v) \<or> ty_latch (typed g v) \<or> ty_and (typed g v)"

text \<open>One kind of node: the flag and the index of a variable lead to its place in the array.\<close>

definition table_ok :: "(aiger_type \<Rightarrow> bool) \<Rightarrow> (nat \<Rightarrow> aiger_type) \<Rightarrow> nat list \<Rightarrow> bool" where
  "table_ok flag ty lits \<longleftrightarrow>
     (\<forall>v. flag (ty v) \<longrightarrow> ty_idx (ty v) < length lits \<and> lits ! ty_idx (ty v) = 2 * v) \<and>
     (\<forall>k < length lits. \<exists>v > 0. lits ! k = 2 * v \<and> flag (ty v) \<and> ty_idx (ty v) = k)"

definition types_ok :: "aiger \<Rightarrow> bool" where
  "types_ok g \<longleftrightarrow>
     table_ok ty_input (typed g) (map sym_lit (aig_inputs g)) \<and>
     table_ok ty_latch (typed g) (map sym_lit (aig_latches g)) \<and>
     table_ok ty_and (typed g) (map and_lhs (aig_ands g)) \<and>
     (\<forall>v. \<not> (ty_input (typed g v) \<and> ty_latch (typed g v)) \<and> \<not> (ty_input (typed g v) \<and> ty_and (typed g v)) \<and>
          \<not> (ty_latch (typed g v) \<and> ty_and (typed g v))) \<and>
     (\<forall>v. defined_var g v \<longrightarrow> v \<le> aig_maxvar g) \<and>
     (aig_types g = [] \<and> aig_maxvar g = 0 \<or> aig_maxvar g < length (aig_types g))"

lemma types_ok_init: "types_ok aiger_init"
  by (simp add: types_ok_def table_ok_def typed_def type_at_def aiger_init_def zero_type_def defined_var_def)

lemma type_at_enlarge [simp]: "type_at (enlarge_types ts) = type_at ts"
  by (auto simp: type_at_def enlarge_types_def nth_append)

lemma type_at_grow [simp]: "type_at (grow_types var ts) = type_at ts"
  by (induction var ts rule: grow_types.induct) (simp add: grow_types.simps)

lemma type_at_update: "v < length ts \<Longrightarrow> type_at (ts[v := t]) = (\<lambda>x. if x = v then t else type_at ts x)"
  by (auto simp: type_at_def)

lemma grow_types_length: "var < length (grow_types var ts) \<and> length ts \<le> length (grow_types var ts)"
proof (induction var ts rule: grow_types.induct)
  case (1 var ts)
  have "length ts \<le> length (enlarge_types ts)" by (simp add: enlarge_types_def)
  with 1 show ?case by (cases "length ts \<le> var") (auto simp: grow_types.simps [of var ts])
qed

lemma typed_import [simp]: "typed (aiger_import_literal g lit) = typed g"
  by (simp add: typed_def aiger_import_literal_def Let_def)

lemma import_sel [simp]:
  "aig_inputs (aiger_import_literal g lit) = aig_inputs g"
  "aig_latches (aiger_import_literal g lit) = aig_latches g"
  "aig_outputs (aiger_import_literal g lit) = aig_outputs g"
  "aig_bad (aiger_import_literal g lit) = aig_bad g"
  "aig_ands (aiger_import_literal g lit) = aig_ands g"
  "aig_error (aiger_import_literal g lit) = aig_error g"
  by (simp_all add: aiger_import_literal_def Let_def)

lemma import_bounds:
  "aiger_lit2var lit < length (aig_types (aiger_import_literal g lit))"
  "aiger_lit2var lit \<le> aig_maxvar (aiger_import_literal g lit)"
  "aig_maxvar g \<le> aig_maxvar (aiger_import_literal g lit)"
  using grow_types_length [of "aiger_lit2var lit" "aig_types g"]
  by (simp_all add: aiger_import_literal_def Let_def)

lemma import_top:
  "types_ok g \<Longrightarrow> aig_maxvar (aiger_import_literal g lit) < length (aig_types (aiger_import_literal g lit))"
  using grow_types_length [of "aiger_lit2var lit" "aig_types g"]
  by (auto simp: aiger_import_literal_def Let_def types_ok_def)

lemma defined_import [simp]: "defined_var (aiger_import_literal g lit) v = defined_var g v"
  by (simp add: defined_var_def)

lemma types_ok_import: "types_ok g \<Longrightarrow> types_ok (aiger_import_literal g lit)"
  using import_top [of g lit] import_bounds(3) [of g lit]
  by (auto simp: types_ok_def intro: le_trans)

text \<open>A new node of one kind.\<close>

lemma table_ok_add:
  assumes "table_ok flag ty lits" and "\<not> flag (ty v)" and "0 < v"
    and "flag t" and "ty_idx t = length lits"
  shows "table_ok flag (\<lambda>x. if x = v then t else ty x) (lits @ [2 * v])"
  unfolding table_ok_def
proof (intro conjI allI impI)
  fix x assume "flag (if x = v then t else ty x)"
  then show "ty_idx (if x = v then t else ty x) < length (lits @ [2 * v])"
    and "(lits @ [2 * v]) ! ty_idx (if x = v then t else ty x) = 2 * x"
    using assms by (auto simp: table_ok_def nth_append less_SucI split: if_splits)
next
  fix k assume k: "k < length (lits @ [2 * v])"
  show "\<exists>x > 0. (lits @ [2 * v]) ! k = 2 * x \<and> flag (if x = v then t else ty x) \<and>
      ty_idx (if x = v then t else ty x) = k"
  proof (cases "k < length lits")
    case True
    then obtain x where "0 < x" "lits ! k = 2 * x" "flag (ty x)" "ty_idx (ty x) = k"
      using assms(1) by (auto simp: table_ok_def)
    then show ?thesis using True assms(2) by (intro exI [of _ x]) (auto simp: nth_append)
  next
    case False
    then have "k = length lits" using k by simp
    then show ?thesis using assms by (intro exI [of _ v]) simp
  qed
qed

lemma table_ok_other:
  assumes "table_ok flag ty lits" and "\<not> flag (ty v)" and "\<not> flag t"
  shows "table_ok flag (\<lambda>x. if x = v then t else ty x) lits"
  unfolding table_ok_def
proof (intro conjI allI impI)
  fix x assume "flag (if x = v then t else ty x)"
  then show "ty_idx (if x = v then t else ty x) < length lits"
    and "lits ! ty_idx (if x = v then t else ty x) = 2 * x"
    using assms by (auto simp: table_ok_def split: if_splits)
next
  fix k assume "k < length lits"
  then obtain x where "0 < x" "lits ! k = 2 * x" "flag (ty x)" "ty_idx (ty x) = k"
    using assms(1) by (auto simp: table_ok_def)
  then show "\<exists>x > 0. lits ! k = 2 * x \<and> flag (if x = v then t else ty x) \<and>
      ty_idx (if x = v then t else ty x) = k"
    using assms(2) by (intro exI [of _ x]) auto
qed

lemma types_ok_set:
  assumes ok: "types_ok g" and new: "\<not> defined_var g v" "0 < v" "v < length (aig_types g)" "v \<le> aig_maxvar g"
    and "table_ok ty_input (\<lambda>x. if x = v then t else typed g x) (map sym_lit (aig_inputs h)) \<and>
      table_ok ty_latch (\<lambda>x. if x = v then t else typed g x) (map sym_lit (aig_latches h)) \<and>
      table_ok ty_and (\<lambda>x. if x = v then t else typed g x) (map and_lhs (aig_ands h)) \<and>
      \<not> (ty_input t \<and> ty_latch t) \<and> \<not> (ty_input t \<and> ty_and t) \<and> \<not> (ty_latch t \<and> ty_and t)"
    and "aig_types h = (aig_types g)[v := t]" and "aig_maxvar h = aig_maxvar g"
  shows "types_ok h"
proof -
  have ty: "typed h = (\<lambda>x. if x = v then t else typed g x)"
    using new(3) assms(7) unfolding typed_def by (simp add: type_at_update)
  have "defined_var h x \<Longrightarrow> x \<le> aig_maxvar h" for x
    using ok new(4) assms(8) by (auto simp: types_ok_def defined_var_def ty split: if_splits)
  then show ?thesis
    using ok assms(6-8) unfolding types_ok_def ty by auto
qed

definition fresh_node :: "aiger \<Rightarrow> nat \<Rightarrow> bool" where
  "fresh_node g lit \<longleftrightarrow> 1 < lit \<and> lit mod 2 = 0 \<and> \<not> defined_var g (lit div 2)"

lemma fresh_node_var:
  assumes "fresh_node g lit"
  shows "2 * (lit div 2) = lit" and "0 < lit div 2" and "aiger_lit2var lit = lit div 2"
    and "aiger_sign lit = 0" and "\<not> defined_var g (lit div 2)"
  using assms by (auto simp: fresh_node_def aiger_lit2var_def aiger_sign_def)

text \<open>What the three functions that define a variable find in the table.\<close>

lemma import_fresh:
  assumes "types_ok g" and "fresh_node g lit"
  defines "h \<equiv> aiger_import_literal g lit"
  shows "types_ok h" and "lit div 2 < length (aig_types h)" and "lit div 2 \<le> aig_maxvar h"
    and "aig_types h ! (lit div 2) = typed g (lit div 2)"
    and "vec_at (aig_types h) (aiger_lit2var lit) = Some (typed g (lit div 2))"
    and "\<not> ty_input (typed g (lit div 2))" "\<not> ty_latch (typed g (lit div 2))" "\<not> ty_and (typed g (lit div 2))"
proof -
  note f = fresh_node_var [OF assms(2)]
  show "types_ok h" using assms(1) by (simp add: h_def types_ok_import)
  show l: "lit div 2 < length (aig_types h)" "lit div 2 \<le> aig_maxvar h"
    using import_bounds(1,2) [of lit g] f(3) by (simp_all add: h_def)
  have "typed h (lit div 2) = aig_types h ! (lit div 2)" using l by (simp add: typed_def type_at_def)
  then show t: "aig_types h ! (lit div 2) = typed g (lit div 2)" by (simp add: h_def)
  show "vec_at (aig_types h) (aiger_lit2var lit) = Some (typed g (lit div 2))" using l t f(3) by simp
  show "\<not> ty_input (typed g (lit div 2))" "\<not> ty_latch (typed g (lit div 2))" "\<not> ty_and (typed g (lit div 2))"
    using f(5) by (simp_all add: defined_var_def)
qed

lemma add_input_runs:
  assumes ok: "types_ok g" and "aig_error g = None" and fresh: "fresh_node g lit"
  shows "runs (aiger_add_input d g lit name) types_ok"
proof -
  let ?h = "aiger_import_literal g lit" and ?v = "lit div 2"
  define t where "t = (typed g ?v)\<lparr>ty_input := True, ty_idx := length (aig_inputs g)\<rparr>"
  define h where "h = ?h\<lparr>aig_types := (aig_types ?h)[?v := t],
    aig_inputs := aig_inputs g @ [zero_symbol\<lparr>sym_lit := lit, sym_name := aiger_copy_str name\<rparr>]\<rparr>"
  note f = fresh_node_var [OF fresh] and i = import_fresh [OF ok fresh]
  have ok': "types_ok ?h" by (rule i(1))
  have "aiger_add_input d g lit name = Some h"
    using assms(2) i f by (simp add: aiger_add_input_def set_type_def Let_def h_def t_def fresh_node_def)
  moreover have "types_ok h"
  proof (rule types_ok_set [OF ok', of ?v t])
    show "table_ok ty_input (\<lambda>x. if x = ?v then t else typed ?h x) (map sym_lit (aig_inputs h)) \<and>
      table_ok ty_latch (\<lambda>x. if x = ?v then t else typed ?h x) (map sym_lit (aig_latches h)) \<and>
      table_ok ty_and (\<lambda>x. if x = ?v then t else typed ?h x) (map and_lhs (aig_ands h)) \<and>
      \<not> (ty_input t \<and> ty_latch t) \<and> \<not> (ty_input t \<and> ty_and t) \<and> \<not> (ty_latch t \<and> ty_and t)"
      unfolding typed_import
      using ok' i f(1,2) table_ok_add [of ty_input "typed g" "map sym_lit (aig_inputs g)" ?v t]
        table_ok_other [of ty_latch "typed g" "map sym_lit (aig_latches g)" ?v t]
        table_ok_other [of ty_and "typed g" "map and_lhs (aig_ands g)" ?v t]
      by (auto simp: h_def t_def types_ok_def)
  qed (use i f(2,5) in \<open>simp_all add: h_def\<close>)
  ultimately show ?thesis by simp
qed

lemma add_latch_runs:
  assumes ok: "types_ok g" and "aig_error g = None" and fresh: "fresh_node g lit"
  shows "runs (aiger_add_latch d g lit nxt name) types_ok"
proof -
  let ?h = "aiger_import_literal g lit" and ?v = "lit div 2"
  define t where "t = (typed g ?v)\<lparr>ty_latch := True, ty_idx := length (aig_latches g)\<rparr>"
  define s where "s = zero_symbol\<lparr>sym_lit := lit, sym_next := nxt, sym_name := aiger_copy_str name\<rparr>"
  define h where "h = ?h\<lparr>aig_types := (aig_types ?h)[?v := t], aig_latches := aig_latches g @ [s]\<rparr>"
  note f = fresh_node_var [OF fresh] and i = import_fresh [OF ok fresh]
  have ok': "types_ok ?h" by (rule i(1))
  have "aiger_add_latch d g lit nxt name = Some (aiger_import_literal h nxt)"
    using assms(2) i f
    by (simp add: aiger_add_latch_def set_type_def Let_def h_def t_def s_def fresh_node_def
        aiger_import_literal_def)
  moreover have "types_ok h"
  proof (rule types_ok_set [OF ok', of ?v t])
    show "table_ok ty_input (\<lambda>x. if x = ?v then t else typed ?h x) (map sym_lit (aig_inputs h)) \<and>
      table_ok ty_latch (\<lambda>x. if x = ?v then t else typed ?h x) (map sym_lit (aig_latches h)) \<and>
      table_ok ty_and (\<lambda>x. if x = ?v then t else typed ?h x) (map and_lhs (aig_ands h)) \<and>
      \<not> (ty_input t \<and> ty_latch t) \<and> \<not> (ty_input t \<and> ty_and t) \<and> \<not> (ty_latch t \<and> ty_and t)"
      unfolding typed_import
      using ok' i f(1,2) table_ok_add [of ty_latch "typed g" "map sym_lit (aig_latches g)" ?v t]
        table_ok_other [of ty_input "typed g" "map sym_lit (aig_inputs g)" ?v t]
        table_ok_other [of ty_and "typed g" "map and_lhs (aig_ands g)" ?v t]
      by (auto simp: h_def t_def s_def types_ok_def)
  qed (use i f(2,5) in \<open>simp_all add: h_def\<close>)
  ultimately show ?thesis by (simp add: types_ok_import)
qed

lemma add_and_runs:
  assumes ok: "types_ok g" and "aig_error g = None" and fresh: "fresh_node g lhs"
  shows "runs (aiger_add_and d g lhs rhs0 rhs1) types_ok"
proof -
  let ?h = "aiger_import_literal g lhs" and ?v = "lhs div 2"
  define t where "t = (typed g ?v)\<lparr>ty_and := True, ty_idx := length (aig_ands g)\<rparr>"
  define h where "h = ?h\<lparr>aig_types := (aig_types ?h)[?v := t],
    aig_ands := aig_ands g @ [\<lparr>and_lhs = lhs, and_rhs0 = rhs0, and_rhs1 = rhs1\<rparr>]\<rparr>"
  note f = fresh_node_var [OF fresh] and i = import_fresh [OF ok fresh]
  have ok': "types_ok ?h" by (rule i(1))
  have "aiger_add_and d g lhs rhs0 rhs1 =
      Some (aiger_import_literal (aiger_import_literal h rhs0) rhs1)"
    using assms(2) i f fresh
    by (simp add: aiger_add_and_def set_type_def Let_def h_def t_def fresh_node_def
        aiger_import_literal_def)
  moreover have "types_ok h"
  proof (rule types_ok_set [OF ok', of ?v t])
    show "table_ok ty_input (\<lambda>x. if x = ?v then t else typed ?h x) (map sym_lit (aig_inputs h)) \<and>
      table_ok ty_latch (\<lambda>x. if x = ?v then t else typed ?h x) (map sym_lit (aig_latches h)) \<and>
      table_ok ty_and (\<lambda>x. if x = ?v then t else typed ?h x) (map and_lhs (aig_ands h)) \<and>
      \<not> (ty_input t \<and> ty_latch t) \<and> \<not> (ty_input t \<and> ty_and t) \<and> \<not> (ty_latch t \<and> ty_and t)"
      unfolding typed_import
      using ok' i f(1,2) table_ok_add [of ty_and "typed g" "map and_lhs (aig_ands g)" ?v t]
        table_ok_other [of ty_input "typed g" "map sym_lit (aig_inputs g)" ?v t]
        table_ok_other [of ty_latch "typed g" "map sym_lit (aig_latches g)" ?v t]
      by (auto simp: h_def t_def types_ok_def)
  qed (use i f(2,5) in \<open>simp_all add: h_def\<close>)
  ultimately show ?thesis by (simp add: types_ok_import)
qed


section \<open>Graphs that can be read as circuits\<close>

definition lit_defined :: "aiger \<Rightarrow> nat \<Rightarrow> bool" where
  "lit_defined g l \<longleftrightarrow> l < 2 \<or> defined_var g (l div 2)"

text \<open>All literals in use are defined, as \<open>aiger_check\<close> ensures.\<close>

definition aig_closed :: "aiger \<Rightarrow> bool" where
  "aig_closed g \<longleftrightarrow>
     (\<forall>a \<in> set (aig_ands g). lit_defined g (and_rhs0 a) \<and> lit_defined g (and_rhs1 a)) \<and>
     (\<forall>s \<in> set (aig_latches g). lit_defined g (sym_next s)) \<and>
     (\<forall>s \<in> set (aig_outputs g @ aig_bad g). lit_defined g (sym_lit s))"

text \<open>A gate uses only gates before it, as reencoding ensures.\<close>

definition aig_ordered :: "aiger \<Rightarrow> bool" where
  "aig_ordered g \<longleftrightarrow>
     (\<forall>k < length (aig_ands g). \<forall>r \<in> {and_rhs0 (aig_ands g ! k), and_rhs1 (aig_ands g ! k)}.
        ty_and (typed g (r div 2)) \<longrightarrow> ty_idx (typed g (r div 2)) < k)"

definition aig_ok :: "aiger \<Rightarrow> bool" where
  "aig_ok g \<longleftrightarrow> types_ok g \<and> aig_error g = None \<and> aig_closed g \<and> aig_ordered g"

text \<open>From the variable of a gate to the variables it uses.\<close>

definition gate_edges :: "aiger \<Rightarrow> (nat \<times> nat) set" where
  "gate_edges g = (\<Union>a \<in> set (aig_ands g).
     {(and_lhs a div 2, and_rhs0 a div 2), (and_lhs a div 2, and_rhs1 a div 2)})"

text \<open>The reset value of a latch: a constant, or the latch itself when it has none.\<close>

definition reset_ok :: "aiger_symbol \<Rightarrow> bool" where
  "reset_ok s \<longleftrightarrow> sym_reset s \<le> 1 \<or> sym_reset s = sym_lit s"

text \<open>What the reader promises: a graph that need not be ordered, but has no cycles.\<close>

definition aig_wf :: "aiger \<Rightarrow> bool" where
  "aig_wf g \<longleftrightarrow> types_ok g \<and> aig_error g = None \<and> aig_closed g \<and> acyclic (gate_edges g) \<and>
     (\<forall>s \<in> set (aig_latches g). reset_ok s) \<and> (\<forall>v. \<not> ty_onstack (typed g v))"

section \<open>Valuations\<close>

definition lit_val :: "(nat \<Rightarrow> bool) \<Rightarrow> nat \<Rightarrow> bool" where
  "lit_val w l \<longleftrightarrow> w (l div 2) \<noteq> (l mod 2 = 1)"

definition gate_ok :: "(nat \<Rightarrow> bool) \<Rightarrow> aiger_and \<Rightarrow> bool" where
  "gate_ok w a \<longleftrightarrow> w (and_lhs a div 2) = (lit_val w (and_rhs0 a) \<and> lit_val w (and_rhs1 a))"

definition aig_valuation :: "aiger \<Rightarrow> bool list \<Rightarrow> bool list \<Rightarrow> (nat \<Rightarrow> bool) \<Rightarrow> bool" where
  "aig_valuation g s i w \<longleftrightarrow>
     \<not> w 0 \<and>
     (\<forall>k < length (aig_inputs g). w (sym_lit (aig_inputs g ! k) div 2) = i ! k) \<and>
     (\<forall>k < length (aig_latches g). w (sym_lit (aig_latches g ! k) div 2) = s ! k) \<and>
     (\<forall>a \<in> set (aig_ands g). gate_ok w a)"

definition aig_init :: "aiger \<Rightarrow> bool list \<Rightarrow> bool" where
  "aig_init g s \<longleftrightarrow>
     length s = length (aig_latches g) \<and>
     (\<forall>k < length (aig_latches g).
        (sym_reset (aig_latches g ! k) = 0 \<longrightarrow> \<not> s ! k) \<and> (sym_reset (aig_latches g ! k) = 1 \<longrightarrow> s ! k))"

definition aig_step :: "aiger \<Rightarrow> bool list \<Rightarrow> bool list \<Rightarrow> bool list \<Rightarrow> bool" where
  "aig_step g s i t \<longleftrightarrow>
     length s = length (aig_latches g) \<and> length i = length (aig_inputs g) \<and>
     (\<exists>w. aig_valuation g s i w \<and> t = map (\<lambda>l. lit_val w (sym_next l)) (aig_latches g))"

text \<open>The literal that is the error: the output, or the bad state literal of AIGER 1.9.\<close>

definition aig_error_lit :: "aiger \<Rightarrow> nat" where
  "aig_error_lit g = sym_lit (hd (aig_outputs g @ aig_bad g))"

definition aig_raises :: "aiger \<Rightarrow> bool list \<Rightarrow> bool list \<Rightarrow> bool" where
  "aig_raises g s i \<longleftrightarrow>
     length s = length (aig_latches g) \<and> length i = length (aig_inputs g) \<and>
     (\<exists>w. aig_valuation g s i w \<and> lit_val w (aig_error_lit g))"

lemma lit_val_const [simp]: "\<not> w 0 \<Longrightarrow> \<not> lit_val w 0" "\<not> w 0 \<Longrightarrow> lit_val w (Suc 0)"
  by (simp_all add: lit_val_def)

lemma lit_val_cong: "w (l div 2) = w' (l div 2) \<Longrightarrow> lit_val w l = lit_val w' l"
  by (simp add: lit_val_def)

lemma lit_not_defined: "lit_defined g l \<Longrightarrow> \<not> defined_var g (l div 2) \<Longrightarrow> l div 2 = 0"
  by (auto simp: lit_defined_def)

text \<open>Where the nodes are.\<close>

lemma table_ok_nth:
  assumes "table_ok flag ty lits" and "k < length lits"
  shows "flag (ty (lits ! k div 2))" and "ty_idx (ty (lits ! k div 2)) = k" and "0 < lits ! k div 2"
    and "lits ! k mod 2 = 0"
proof -
  obtain v where "0 < v" "lits ! k = 2 * v" "flag (ty v)" "ty_idx (ty v) = k"
    using assms by (auto simp: table_ok_def)
  then show "flag (ty (lits ! k div 2))" "ty_idx (ty (lits ! k div 2)) = k" "0 < lits ! k div 2"
    "lits ! k mod 2 = 0" by simp_all
qed

lemma node_at:
  assumes "types_ok g"
  shows "k < length (aig_inputs g) \<Longrightarrow> ty_input (typed g (sym_lit (aig_inputs g ! k) div 2)) \<and>
      ty_idx (typed g (sym_lit (aig_inputs g ! k) div 2)) = k \<and> 0 < sym_lit (aig_inputs g ! k) div 2"
    and "k < length (aig_latches g) \<Longrightarrow> ty_latch (typed g (sym_lit (aig_latches g ! k) div 2)) \<and>
      ty_idx (typed g (sym_lit (aig_latches g ! k) div 2)) = k \<and> 0 < sym_lit (aig_latches g ! k) div 2"
    and "k < length (aig_ands g) \<Longrightarrow> ty_and (typed g (and_lhs (aig_ands g ! k) div 2)) \<and>
      ty_idx (typed g (and_lhs (aig_ands g ! k) div 2)) = k \<and> 0 < and_lhs (aig_ands g ! k) div 2"
  using assms table_ok_nth [of ty_input "typed g" "map sym_lit (aig_inputs g)" k]
    table_ok_nth [of ty_latch "typed g" "map sym_lit (aig_latches g)" k]
    table_ok_nth [of ty_and "typed g" "map and_lhs (aig_ands g)" k]
  by (simp_all add: types_ok_def)

lemma node_of:
  assumes "types_ok g"
  shows "ty_input (typed g v) \<Longrightarrow> ty_idx (typed g v) < length (aig_inputs g) \<and>
      sym_lit (aig_inputs g ! ty_idx (typed g v)) = 2 * v"
    and "ty_latch (typed g v) \<Longrightarrow> ty_idx (typed g v) < length (aig_latches g) \<and>
      sym_lit (aig_latches g ! ty_idx (typed g v)) = 2 * v"
    and "ty_and (typed g v) \<Longrightarrow> ty_idx (typed g v) < length (aig_ands g) \<and>
      and_lhs (aig_ands g ! ty_idx (typed g v)) = 2 * v"
proof -
  have t: "table_ok ty_input (typed g) (map sym_lit (aig_inputs g))"
    "table_ok ty_latch (typed g) (map sym_lit (aig_latches g))"
    "table_ok ty_and (typed g) (map and_lhs (aig_ands g))"
    using assms by (simp_all add: types_ok_def)
  show "ty_input (typed g v) \<Longrightarrow> ty_idx (typed g v) < length (aig_inputs g) \<and>
      sym_lit (aig_inputs g ! ty_idx (typed g v)) = 2 * v"
    using t(1) by (auto simp: table_ok_def nth_map)
  show "ty_latch (typed g v) \<Longrightarrow> ty_idx (typed g v) < length (aig_latches g) \<and>
      sym_lit (aig_latches g ! ty_idx (typed g v)) = 2 * v"
    using t(2) by (auto simp: table_ok_def nth_map)
  show "ty_and (typed g v) \<Longrightarrow> ty_idx (typed g v) < length (aig_ands g) \<and>
      and_lhs (aig_ands g ! ty_idx (typed g v)) = 2 * v"
    using t(3) by (auto simp: table_ok_def nth_map)
qed

lemma node_kind:
  assumes "types_ok g"
  shows "ty_input (typed g v) \<Longrightarrow> \<not> ty_latch (typed g v) \<and> \<not> ty_and (typed g v)"
    and "ty_latch (typed g v) \<Longrightarrow> \<not> ty_input (typed g v) \<and> \<not> ty_and (typed g v)"
    and "ty_and (typed g v) \<Longrightarrow> \<not> ty_input (typed g v) \<and> \<not> ty_latch (typed g v)"
  using assms unfolding types_ok_def by blast+

lemma zero_undefined:
  assumes "types_ok g"
  shows "\<not> ty_input (typed g 0)" and "\<not> ty_latch (typed g 0)" and "\<not> ty_and (typed g 0)"
proof -
  show "\<not> ty_input (typed g 0)"
    using node_of(1) [OF assms, of 0] node_at(1) [OF assms, of "ty_idx (typed g 0)"] by fastforce
  show "\<not> ty_latch (typed g 0)"
    using node_of(2) [OF assms, of 0] node_at(2) [OF assms, of "ty_idx (typed g 0)"] by fastforce
  show "\<not> ty_and (typed g 0)"
    using node_of(3) [OF assms, of 0] node_at(3) [OF assms, of "ty_idx (typed g 0)"] by fastforce
qed

text \<open>There is a valuation when the gates have a rank that decreases from a gate to what it uses: the values
  are found rank by rank.\<close>

definition gate_children :: "aiger \<Rightarrow> nat \<Rightarrow> nat set" where
  "gate_children g v = (let a = aig_ands g ! ty_idx (typed g v) in {and_rhs0 a div 2, and_rhs1 a div 2})"

definition decreasing :: "aiger \<Rightarrow> (nat \<Rightarrow> nat) \<Rightarrow> bool" where
  "decreasing g f \<longleftrightarrow> (\<forall>v. \<forall>c \<in> gate_children g v. ty_and (typed g v) \<longrightarrow> f c < f v)"

lemma wf_valuation_prefix:
  assumes ok: "types_ok g" and dec: "decreasing g f"
  shows "\<exists>w. \<not> w 0 \<and>
     (\<forall>k < length (aig_inputs g). w (sym_lit (aig_inputs g ! k) div 2) = i ! k) \<and>
     (\<forall>k < length (aig_latches g). w (sym_lit (aig_latches g ! k) div 2) = s ! k) \<and>
     (\<forall>a \<in> set (aig_ands g). f (and_lhs a div 2) < n \<longrightarrow> gate_ok w a)"
proof (induction n)
  case 0
  define w where "w = (\<lambda>v. if ty_input (typed g v) then i ! ty_idx (typed g v)
    else if ty_latch (typed g v) then s ! ty_idx (typed g v) else False)"
  have "\<not> w 0" using zero_undefined [OF ok] by (simp add: w_def)
  moreover have "w (sym_lit (aig_inputs g ! k) div 2) = i ! k" if "k < length (aig_inputs g)" for k
    using node_at(1) [OF ok that] by (simp add: w_def)
  moreover have "w (sym_lit (aig_latches g ! k) div 2) = s ! k" if "k < length (aig_latches g)" for k
    using node_at(2) [OF ok that] node_kind(2) [OF ok, of "sym_lit (aig_latches g ! k) div 2"]
    by (simp add: w_def)
  ultimately show ?case by (intro exI [of _ w]) simp
next
  case (Suc n)
  then obtain w where w: "\<not> w 0"
    "\<forall>k < length (aig_inputs g). w (sym_lit (aig_inputs g ! k) div 2) = i ! k"
    "\<forall>k < length (aig_latches g). w (sym_lit (aig_latches g ! k) div 2) = s ! k"
    "\<forall>a \<in> set (aig_ands g). f (and_lhs a div 2) < n \<longrightarrow> gate_ok w a" by blast
  define gate where "gate = (\<lambda>v. aig_ands g ! ty_idx (typed g v))"
  define w' where "w' = (\<lambda>v. if ty_and (typed g v) \<and> f v = n
    then lit_val w (and_rhs0 (gate v)) \<and> lit_val w (and_rhs1 (gate v)) else w v)"
  have "gate_ok w' a" if a: "a \<in> set (aig_ands g)" "f (and_lhs a div 2) < Suc n" for a
  proof -
    let ?v = "and_lhs a div 2"
    obtain k where "k < length (aig_ands g)" "a = aig_ands g ! k" using a(1) by (auto simp: in_set_conv_nth)
    then have v: "ty_and (typed g ?v)" "gate ?v = a" using node_at(3) [OF ok] by (auto simp: gate_def)
    then have "and_rhs0 a div 2 \<in> gate_children g ?v" "and_rhs1 a div 2 \<in> gate_children g ?v"
      by (auto simp: gate_children_def gate_def Let_def)
    then have "f (and_rhs0 a div 2) < f ?v" "f (and_rhs1 a div 2) < f ?v"
      using dec v(1) unfolding decreasing_def by blast+
    then have same: "lit_val w' (and_rhs0 a) = lit_val w (and_rhs0 a)" "lit_val w' (and_rhs1 a) = lit_val w (and_rhs1 a)"
      using a(2) by (simp_all add: lit_val_def w'_def)
    show ?thesis
    proof (cases "f ?v = n")
      case True
      then have "w' ?v = (lit_val w (and_rhs0 a) \<and> lit_val w (and_rhs1 a))" using v by (simp add: w'_def)
      then show ?thesis using same by (simp add: gate_ok_def)
    next
      case False
      then have "w' ?v = w ?v" "gate_ok w a" using w(4) a by (auto simp: w'_def)
      then show ?thesis using same by (simp add: gate_ok_def)
    qed
  qed
  moreover have "w' x = w x" if "\<not> ty_and (typed g x)" for x using that by (simp add: w'_def)
  ultimately show ?case
    using w(1-3) node_at(1,2) [OF ok] node_kind(3) [OF ok] zero_undefined(3) [OF ok]
    by (intro exI [of _ w']) (metis (no_types, lifting))
qed

lemma decreasing_valuation:
  assumes "types_ok g" and f: "decreasing g f"
  shows "\<exists>w. aig_valuation g s i w"
proof -
  define n where "n = Suc (Max (insert 0 (f ` (\<lambda>a. and_lhs a div 2) ` set (aig_ands g))))"
  have "f (and_lhs a div 2) < n" if "a \<in> set (aig_ands g)" for a
    using that by (auto simp: n_def less_Suc_eq_le intro!: Max_ge)
  then show ?thesis
    using wf_valuation_prefix [OF assms(1) f, of i s n] unfolding aig_valuation_def by blast
qed

lemma ordered_decreasing:
  assumes ok: "types_ok g" and ord: "aig_ordered g"
  shows "decreasing g (\<lambda>v. if ty_and (typed g v) then Suc (ty_idx (typed g v)) else 0)"
  unfolding decreasing_def
proof (intro allI ballI impI)
  fix v c assume "c \<in> gate_children g v" and v: "ty_and (typed g v)"
  then obtain r where "r \<in> {and_rhs0 (aig_ands g ! ty_idx (typed g v)), and_rhs1 (aig_ands g ! ty_idx (typed g v))}" "c = r div 2"
    by (auto simp: gate_children_def Let_def)
  then have "ty_and (typed g c) \<longrightarrow> ty_idx (typed g c) < ty_idx (typed g v)"
    using ord node_of(3) [OF ok v] unfolding aig_ordered_def by blast
  then show "(if ty_and (typed g c) then Suc (ty_idx (typed g c)) else 0) <
      (if ty_and (typed g v) then Suc (ty_idx (typed g v)) else 0)" using v by simp
qed

lemma valuation_exists: "aig_ok g \<Longrightarrow> \<exists>w. aig_valuation g s i w"
  unfolding aig_ok_def by (blast intro: decreasing_valuation ordered_decreasing)

text \<open>Two functions that agree on the leaves and satisfy the gates of a set that is closed under
  children agree on this set.\<close>

lemma valuation_agree:
  assumes ok: "types_ok g" and cl: "aig_closed g" and ord: "aig_ordered g"
    and leaves: "\<And>v. ty_input (typed g v) \<or> ty_latch (typed g v) \<or> v = 0 \<Longrightarrow> w v = w' v"
    and closed: "\<And>k r. k < length (aig_ands g) \<Longrightarrow> k \<in> K \<Longrightarrow>
      r \<in> {and_rhs0 (aig_ands g ! k), and_rhs1 (aig_ands g ! k)} \<Longrightarrow> ty_and (typed g (r div 2)) \<Longrightarrow>
      ty_idx (typed g (r div 2)) \<in> K"
    and gates: "\<And>k. k < length (aig_ands g) \<Longrightarrow> k \<in> K \<Longrightarrow>
      gate_ok w (aig_ands g ! k) \<and> gate_ok w' (aig_ands g ! k)"
  shows "k < length (aig_ands g) \<Longrightarrow> k \<in> K \<Longrightarrow>
    w (and_lhs (aig_ands g ! k) div 2) = w' (and_lhs (aig_ands g ! k) div 2)"
proof (induction k rule: less_induct)
  case (less k)
  let ?a = "aig_ands g ! k"
  have "lit_val w r = lit_val w' r" if r: "r \<in> {and_rhs0 ?a, and_rhs1 ?a}" for r
  proof (rule lit_val_cong)
    have "?a \<in> set (aig_ands g)" using less.prems(1) by simp
    then have "lit_defined g r" using cl r unfolding aig_closed_def by auto
    then consider "r div 2 = 0 \<or> ty_input (typed g (r div 2)) \<or> ty_latch (typed g (r div 2))"
      | "ty_and (typed g (r div 2))"
      using lit_not_defined by (auto simp: defined_var_def)
    then show "w (r div 2) = w' (r div 2)"
    proof cases
      case 1
      then show ?thesis using leaves by auto
    next
      case 2
      let ?j = "ty_idx (typed g (r div 2))"
      have "?j < k" using ord 2 r less.prems(1) unfolding aig_ordered_def by blast
      moreover have "?j \<in> K" by (rule closed [OF less.prems r 2])
      moreover have "and_lhs (aig_ands g ! ?j) div 2 = r div 2" "?j < length (aig_ands g)"
        using node_of(3) [OF ok 2] by simp_all
      ultimately show ?thesis using less.IH [of ?j] by simp
    qed
  qed
  then show ?case using gates [OF less.prems] by (simp add: gate_ok_def)
qed

lemma valuation_unique:
  assumes "aig_ok g" and "aig_valuation g s i w" and "aig_valuation g s i w'"
    and "lit_defined g l"
  shows "lit_val w l = lit_val w' l"
proof (rule lit_val_cong)
  have ok: "types_ok g" "aig_closed g" "aig_ordered g" using assms(1) by (simp_all add: aig_ok_def)
  have leaf: "w v = w' v" if "ty_input (typed g v) \<or> ty_latch (typed g v) \<or> v = 0" for v
    using that assms(2,3) node_of(1,2) [OF ok(1), of v] unfolding aig_valuation_def
    by (metis nonzero_mult_div_cancel_left zero_neq_numeral)
  have gates: "w (and_lhs (aig_ands g ! k) div 2) = w' (and_lhs (aig_ands g ! k) div 2)"
    if "k < length (aig_ands g)" for k
    by (rule valuation_agree [OF ok, where K = UNIV])
      (use leaf that assms(2,3) in \<open>auto simp: aig_valuation_def\<close>)
  from assms(4) consider "l div 2 = 0 \<or> ty_input (typed g (l div 2)) \<or> ty_latch (typed g (l div 2))"
    | "ty_and (typed g (l div 2))"
    using lit_not_defined by (auto simp: defined_var_def)
  then show "w (l div 2) = w' (l div 2)"
  proof cases
    case 1
    then show ?thesis using leaf by auto
  next
    case 2
    then show ?thesis using node_of(3) [OF ok(1) 2] gates [of "ty_idx (typed g (l div 2))"] by simp
  qed
qed

lemma aig_step_functional:
  assumes "aig_ok g" and "length s = length (aig_latches g)" and "length i = length (aig_inputs g)"
  shows "\<exists>!t. aig_step g s i t"
proof -
  obtain w where w: "aig_valuation g s i w" using valuation_exists [OF assms(1)] by blast
  show ?thesis
  proof (rule ex1I)
    show "aig_step g s i (map (\<lambda>l. lit_val w (sym_next l)) (aig_latches g))"
      using assms(2,3) w by (auto simp: aig_step_def)
  next
    fix t assume "aig_step g s i t"
    then obtain w' where w': "aig_valuation g s i w'" "t = map (\<lambda>l. lit_val w' (sym_next l)) (aig_latches g)"
      by (auto simp: aig_step_def)
    have "lit_val w' (sym_next l) = lit_val w (sym_next l)" if "l \<in> set (aig_latches g)" for l
      using assms(1) that by (intro valuation_unique [OF assms(1) w'(1) w]) (simp add: aig_ok_def aig_closed_def)
    then show "t = map (\<lambda>l. lit_val w (sym_next l)) (aig_latches g)" using w'(2) by simp
  qed
qed

section \<open>Reencoded graphs are ordered\<close>

lemma consecutive_nth:
  "consecutive_from mx ss = Some mx2 \<Longrightarrow> mx2 = mx + 2 * length ss \<and>
   (\<forall>k < length ss. sym_lit (ss ! k) = mx + 2 * (k + 1))"
proof (induction ss arbitrary: mx)
  case Nil
  then show ?case by simp
next
  case (Cons s ss)
  then have "mx + 2 = sym_lit s" "consecutive_from (mx + 2) ss = Some mx2" by (auto split: if_splits)
  with Cons.IH [OF this(2)] show ?case by (auto simp: less_Suc_eq_0_disj nth_Cons split: nat.split)
qed

lemma ands_from_nth:
  "ands_from mx lhs as \<Longrightarrow> k < length as \<Longrightarrow>
   and_lhs (as ! k) = lhs + 2 * k \<and> and_rhs0 (as ! k) \<le> and_lhs (as ! k) \<and> and_rhs1 (as ! k) \<le> and_rhs0 (as ! k)"
proof (induction as arbitrary: lhs k)
  case Nil
  then show ?case by simp
next
  case (Cons a as)
  show ?case
  proof (cases k)
    case 0
    with Cons.prems show ?thesis by (auto split: if_splits)
  next
    case (Suc j)
    then have "ands_from mx (lhs + 2) as" "j < length as" using Cons.prems by (auto split: if_splits)
    from Cons.IH [OF this] Suc show ?thesis by simp
  qed
qed

text \<open>A gate that does not use itself: the condition \<open>rhs0 < lhs\<close> of the binary format.\<close>

lemma reencoded_ordered:
  assumes "types_ok g" and "aiger_is_reencoded d g = Some True"
    and "\<forall>a \<in> set (aig_ands g). and_rhs0 a \<noteq> and_lhs a"
  shows "aig_ordered g"
proof -
  obtain mx lhs where ands: "ands_from mx lhs (aig_ands g)"
    using assms(2) by (auto simp: aiger_is_reencoded_def split: option.splits Option.bind_splits)
  have "ty_idx (typed g (r div 2)) < k"
    if "k < length (aig_ands g)" "r \<in> {and_rhs0 (aig_ands g ! k), and_rhs1 (aig_ands g ! k)}"
      "ty_and (typed g (r div 2))" for k r
  proof -
    let ?j = "ty_idx (typed g (r div 2))"
    have j: "?j < length (aig_ands g)" "and_lhs (aig_ands g ! ?j) = 2 * (r div 2)"
      using node_of(3) [OF assms(1) that(3)] by simp_all
    have "and_rhs0 (aig_ands g ! k) < and_lhs (aig_ands g ! k)"
      using ands_from_nth [OF ands that(1)] assms(3) that(1) by (metis le_neq_implies_less nth_mem)
    then have "r < and_lhs (aig_ands g ! k)" using ands_from_nth [OF ands that(1)] that(2) by auto
    then have "and_lhs (aig_ands g ! ?j) < and_lhs (aig_ands g ! k)" using j(2) by simp
    then show ?thesis using ands_from_nth [OF ands j(1)] ands_from_nth [OF ands that(1)] by simp
  qed
  then show ?thesis by (auto simp: aig_ordered_def)
qed

end
