(* ===== verification/BuilderCorrect.thy ===== *)
theory BuilderCorrect
  imports AigerBuilder AigerMeaning
begin

text \<open>
  Correctness of the Tseitin encoding. \<open>pulled\<close> reads a valuation of the graph's variables off an
  assignment of the solver's variables; the clauses of a gate hold exactly when that valuation
  satisfies the gate. The clauses of a subgraph are those of a set of gates that contains the roots
  and is closed under children, so they determine the roots. The transition system built has the
  initial states, transitions and errors of the graph, and the form the engines rely on.
\<close>

section \<open>Variables\<close>

definition ctx_ok :: "builder_context \<Rightarrow> bool" where
  "ctx_ok ctx \<longleftrightarrow>
     range_ok (ctx_input_vars ctx) \<and> range_ok (ctx_state_vars ctx) \<and>
     range_ok (ctx_next_state_vars ctx) \<and> range_ok (ctx_and_vars ctx) \<and>
     vr_size (ctx_input_vars ctx) = int (length (aig_inputs (ctx_aig ctx))) \<and>
     vr_size (ctx_state_vars ctx) = int (length (aig_latches (ctx_aig ctx))) \<and>
     vr_size (ctx_next_state_vars ctx) = int (length (aig_latches (ctx_aig ctx))) \<and>
     vr_size (ctx_and_vars ctx) = int (length (aig_ands (ctx_aig ctx))) \<and>
     vr_end (ctx_input_vars ctx) \<le> vr_begin (ctx_state_vars ctx) \<and>
     vr_end (ctx_state_vars ctx) \<le> vr_begin (ctx_next_state_vars ctx) \<and>
     vr_end (ctx_next_state_vars ctx) \<le> vr_begin (ctx_and_vars ctx)"

definition solver_var :: "builder_context \<Rightarrow> nat \<Rightarrow> variable" where
  "solver_var ctx v =
     (let t = typed (ctx_aig ctx) v
      in vr_nth (if ty_input t then ctx_input_vars ctx else if ty_latch t then ctx_state_vars ctx
                 else ctx_and_vars ctx) (int (ty_idx t)))"

definition pulled :: "builder_context \<Rightarrow> assignment \<Rightarrow> nat \<Rightarrow> bool" where
  "pulled ctx \<sigma> v \<longleftrightarrow> v \<noteq> 0 \<and> \<sigma> (solver_var ctx v)"

lemma pulled_0 [simp]: "\<not> pulled ctx \<sigma> 0"
  by (simp add: pulled_def)

lemma solver_var_in:
  assumes "ctx_ok ctx" and ok: "types_ok (ctx_aig ctx)"
  shows "ty_input (typed (ctx_aig ctx) v) \<Longrightarrow> vr_contains (ctx_input_vars ctx) (solver_var ctx v)"
    and "ty_latch (typed (ctx_aig ctx) v) \<Longrightarrow> vr_contains (ctx_state_vars ctx) (solver_var ctx v)"
    and "ty_and (typed (ctx_aig ctx) v) \<Longrightarrow> vr_contains (ctx_and_vars ctx) (solver_var ctx v)"
proof -
  have sz: "vr_size (ctx_input_vars ctx) = int (length (aig_inputs (ctx_aig ctx)))"
    "vr_size (ctx_state_vars ctx) = int (length (aig_latches (ctx_aig ctx)))"
    "vr_size (ctx_and_vars ctx) = int (length (aig_ands (ctx_aig ctx)))"
    using assms(1) by (simp_all add: ctx_ok_def)
  show "vr_contains (ctx_input_vars ctx) (solver_var ctx v)" if t: "ty_input (typed (ctx_aig ctx) v)"
    using node_of(1) [OF ok t] t sz(1) by (simp add: solver_var_def Let_def vr_nth_contains)
  show "vr_contains (ctx_state_vars ctx) (solver_var ctx v)" if t: "ty_latch (typed (ctx_aig ctx) v)"
    using node_of(2) [OF ok t] node_kind(2) [OF ok t] t sz(2) by (simp add: solver_var_def Let_def vr_nth_contains)
  show "vr_contains (ctx_and_vars ctx) (solver_var ctx v)" if t: "ty_and (typed (ctx_aig ctx) v)"
    using node_of(3) [OF ok t] node_kind(3) [OF ok t] t sz(3) by (simp add: solver_var_def Let_def vr_nth_contains)
qed

lemma solver_var_pos:
  assumes "ctx_ok ctx" and "types_ok (ctx_aig ctx)" and "defined_var (ctx_aig ctx) v"
  shows "0 < var_id (solver_var ctx v)"
  using assms solver_var_in [OF assms(1,2), of v]
  by (auto simp: defined_var_def ctx_ok_def intro: vr_contains_pos)

lemma strip_div [simp]: "aiger_strip l div 2 = l div 2"
  unfolding aiger_strip_def by presburger

lemma strip_mod [simp]: "aiger_strip l mod 2 = 0"
  unfolding aiger_strip_def by presburger

lemma strip_ge: "2 \<le> l \<Longrightarrow> 2 \<le> aiger_strip l"
  unfolding aiger_strip_def by presburger

text \<open>The literal of a defined literal of the graph.\<close>

definition solver_lit :: "builder_context \<Rightarrow> nat \<Rightarrow> literal" where
  "solver_lit ctx l = literal_of (solver_var ctx (l div 2)) (l mod 2 = 1)"

lemma lookup_type:
  assumes "types_ok g" and "defined_var g (l div 2)"
  shows "aiger_lit2type d g l = Some (typed g (l div 2))"
proof -
  have "l div 2 \<le> aig_maxvar g" using assms by (simp add: types_ok_def)
  moreover from assms have "l div 2 < length (aig_types g)"
    by (auto simp: types_ok_def defined_var_def typed_def type_at_def zero_type_def split: if_splits)
  ultimately show ?thesis
    by (simp add: aiger_lit2type_def aiger_lit2var_def typed_def type_at_def)
qed

lemma from_aiger_lit_defined:
  assumes ok: "aig_ok (ctx_aig ctx)" and "lit_defined (ctx_aig ctx) l" and "2 \<le> l"
  shows "from_aiger_lit d ctx l = Some (solver_lit ctx l)"
proof -
  let ?g = "ctx_aig ctx" and ?v = "aiger_strip l"
  have t: "types_ok ?g" and e: "aig_error ?g = None" using ok by (simp_all add: aig_ok_def)
  have def: "defined_var ?g (l div 2)" using assms(2,3) by (simp add: lit_defined_def)
  then have ty: "aiger_lit2type d ?g ?v = Some (typed ?g (l div 2))" using lookup_type [OF t, of ?v] by simp
  have "from_aiger_var d ctx ?v = Some (solver_var ctx (l div 2))"
    using def e ty strip_ge [OF assms(3)]
    by (auto simp: from_aiger_var_def aiger_is_input_def aiger_is_latch_def aiger_is_and_def
        solver_var_def Let_def defined_var_def)
  then show ?thesis by (simp add: from_aiger_lit_def solver_lit_def aiger_sign_def)
qed

lemma solver_lit_facts:
  assumes "ctx_ok ctx" and "aig_ok (ctx_aig ctx)" and "lit_defined (ctx_aig ctx) l" and "2 \<le> l"
  shows "solver_lit ctx l \<noteq> separator" and "lit_true \<sigma> (solver_lit ctx l) = lit_val (pulled ctx \<sigma>) l"
    and "lit_var (solver_lit ctx l) = solver_var ctx (l div 2)"
    and "\<exists>r \<in> {ctx_input_vars ctx, ctx_state_vars ctx, ctx_and_vars ctx}.
           vr_contains r (lit_var (solver_lit ctx l))"
proof -
  have t: "types_ok (ctx_aig ctx)" using assms(2) by (simp add: aig_ok_def)
  have def: "defined_var (ctx_aig ctx) (l div 2)" using assms(3,4) by (simp add: lit_defined_def)
  have pos: "0 < var_id (solver_var ctx (l div 2))" by (rule solver_var_pos [OF assms(1) t def])
  show "solver_lit ctx l \<noteq> separator" "lit_true \<sigma> (solver_lit ctx l) = lit_val (pulled ctx \<sigma>) l"
    and v: "lit_var (solver_lit ctx l) = solver_var ctx (l div 2)"
    using pos assms(4) by (auto simp: solver_lit_def lit_val_def pulled_def)
  show "\<exists>r \<in> {ctx_input_vars ctx, ctx_state_vars ctx, ctx_and_vars ctx}.
      vr_contains r (lit_var (solver_lit ctx l))"
    using def solver_var_in [OF assms(1) t, of "l div 2"] by (auto simp: v defined_var_def)
qed

text \<open>Formulas over the copies of inputs, states and gates, that the encoding is made of.\<close>

definition gate_ranges :: "builder_context \<Rightarrow> variable_range list" where
  "gate_ranges ctx = [ctx_input_vars ctx, ctx_state_vars ctx, ctx_and_vars ctx]"

lemma formula_over_empty [simp]: "formula_over rs empty_cnf"
  by (simp add: formula_over_def) (simp add: empty_cnf_def)

lemma formula_over_clause:
  assumes "formula_over rs f" and "\<And>l. l \<in> set c \<Longrightarrow> \<exists>r \<in> set rs. vr_contains r (lit_var l)"
  shows "formula_over rs (add_clause f c)"
  using assms by (auto simp: formula_over_def) (auto simp: add_clause_def)

lemma formula_over_add:
  assumes "formula_over rs f" and "formula_over rs g"
  shows "formula_over rs (add_cnf f g)"
  using assms by (auto simp: formula_over_def) (auto simp: add_cnf_def)

lemma formula_over_mono: "formula_over rs f \<Longrightarrow> set rs \<subseteq> set qs \<Longrightarrow> formula_over qs f"
  unfolding formula_over_def by blast

lemma cnf_sat_lits:
  assumes "well_formed_cnf f" and "list_all (\<lambda>l. l \<noteq> separator) c"
  shows "cnf_sat \<sigma> (add_clause f c) \<longleftrightarrow> cnf_sat \<sigma> f \<and> list_ex (lit_true \<sigma>) c"
proof -
  have "separator \<notin> set c" using assms(2) by (auto simp: list_all_iff)
  then show ?thesis using assms(1) by (auto simp: list_ex_iff)
qed

lemma gate_cases:
  fixes x y :: nat
  obtains (ff) "x = 0 \<or> y = 0" | (tt) "x = 1" "y = 1" | (left) "x = 1" "2 \<le> y"
    | (right) "2 \<le> x" "y = 1" | (both) "2 \<le> x" "2 \<le> y"
proof -
  have "x = 0 \<or> x = 1 \<or> 2 \<le> x" "y = 0 \<or> y = 1 \<or> 2 \<le> y" by arith+
  then show thesis using that by metis
qed

section \<open>Gates\<close>

definition gate_formula :: "builder_context \<Rightarrow> aiger_and \<Rightarrow> cnf_formula \<Rightarrow> bool" where
  "gate_formula ctx a f \<longleftrightarrow>
     formula_over (gate_ranges ctx) f \<and> (\<forall>\<sigma>. cnf_sat \<sigma> f \<longleftrightarrow> gate_ok (pulled ctx \<sigma>) a)"

lemma lit_val_small:
  "l = 0 \<Longrightarrow> \<not> lit_val (pulled ctx \<sigma>) l" "l = 1 \<Longrightarrow> lit_val (pulled ctx \<sigma>) l"
  by (simp_all add: lit_val_def)

lemma make_equivalence_runs:
  assumes "ctx_ok ctx" and "aig_ok (ctx_aig ctx)"
    and x: "lit_defined (ctx_aig ctx) x" "2 \<le> x" and y: "lit_defined (ctx_aig ctx) y" "2 \<le> y"
  shows "runs (make_equivalence d ctx x y) (\<lambda>f. formula_over (gate_ranges ctx) f \<and>
    (\<forall>\<sigma>. cnf_sat \<sigma> f \<longleftrightarrow> lit_val (pulled ctx \<sigma>) x = lit_val (pulled ctx \<sigma>) y))"
proof -
  note s = solver_lit_facts [OF assms(1,2)]
  let ?f = "add_clause (add_clause empty_cnf [lit_not (solver_lit ctx x), solver_lit ctx y])
    [lit_not (solver_lit ctx y), solver_lit ctx x]"
  have "make_equivalence d ctx x y = Some ?f"
    by (simp add: make_equivalence_def from_aiger_lit_defined [OF assms(2)] x y)
  moreover have "formula_over (gate_ranges ctx) ?f"
    using s(4) [OF x] s(4) [OF y] by (intro formula_over_clause formula_over_empty) (auto simp: gate_ranges_def)
  moreover have "cnf_sat \<sigma> ?f \<longleftrightarrow> lit_val (pulled ctx \<sigma>) x = lit_val (pulled ctx \<sigma>) y" for \<sigma>
    using s(1,2) [OF x] s(1,2) [OF y] by (auto simp: cnf_sat_lits simp del: cnf_sat_add_clause)
  ultimately show ?thesis by simp
qed

lemma gate_value: "and_lhs a mod 2 = 0 \<Longrightarrow> w (and_lhs a div 2) = lit_val w (and_lhs a)"
  by (simp add: lit_val_def)

lemma clausify_and_runs:
  assumes "ctx_ok ctx" and ok: "aig_ok (ctx_aig ctx)" and a: "a \<in> set (aig_ands (ctx_aig ctx))"
  shows "runs (clausify_and d ctx a) (gate_formula ctx a)"
proof -
  let ?g = "ctx_aig ctx" and ?v = "\<lambda>\<sigma>. lit_val (pulled ctx \<sigma>)"
  let ?l = "solver_lit ctx (and_lhs a)" and ?r0 = "solver_lit ctx (and_rhs0 a)" and ?r1 = "solver_lit ctx (and_rhs1 a)"
  have t: "types_ok ?g" and cl: "aig_closed ?g" using ok by (simp_all add: aig_ok_def)
  obtain k where k: "k < length (aig_ands ?g)" "aig_ands ?g ! k = a" using a by (auto simp: in_set_conv_nth)
  have lhs: "lit_defined ?g (and_lhs a)" "2 \<le> and_lhs a" "and_lhs a mod 2 = 0"
    using node_at(3) [OF t k(1)] table_ok_nth(4) [of ty_and "typed ?g" "map and_lhs (aig_ands ?g)" k] t k
    by (auto simp: lit_defined_def defined_var_def types_ok_def)
  have d0: "lit_defined ?g (and_rhs0 a)" "lit_defined ?g (and_rhs1 a)"
    using cl a by (auto simp: aig_closed_def)
  note s = solver_lit_facts [OF assms(1) ok] and lit = from_aiger_lit_defined [OF ok]
  have gate: "gate_ok (pulled ctx \<sigma>) a \<longleftrightarrow>
      ?v \<sigma> (and_lhs a) = (?v \<sigma> (and_rhs0 a) \<and> ?v \<sigma> (and_rhs1 a))" for \<sigma>
    unfolding gate_ok_def gate_value [OF lhs(3)] ..
  show ?thesis
  proof (cases rule: gate_cases [of "and_rhs0 a" "and_rhs1 a"])
    case ff
    have "clausify_and d ctx a = Some (add_clause empty_cnf [lit_not ?l])"
      using ff by (simp add: clausify_and_def Let_def aiger_false_def lit lhs)
    moreover have "formula_over (gate_ranges ctx) (add_clause empty_cnf [lit_not ?l])"
      using s(4) [OF lhs(1,2)] by (intro formula_over_clause formula_over_empty) (auto simp: gate_ranges_def)
    moreover have "cnf_sat \<sigma> (add_clause empty_cnf [lit_not ?l]) \<longleftrightarrow> \<not> ?v \<sigma> (and_lhs a)" for \<sigma>
      using s(1,2) [OF lhs(1,2)] by (simp add: cnf_sat_lits del: cnf_sat_add_clause)
    moreover have "gate_ok (pulled ctx \<sigma>) a \<longleftrightarrow> \<not> ?v \<sigma> (and_lhs a)" for \<sigma>
      using ff lit_val_small(1) unfolding gate by blast
    ultimately show ?thesis by (simp add: gate_formula_def)
  next
    case tt
    have "clausify_and d ctx a = Some (add_clause empty_cnf [?l])"
      using tt by (simp add: clausify_and_def Let_def aiger_false_def aiger_true_def lit lhs)
    moreover have "formula_over (gate_ranges ctx) (add_clause empty_cnf [?l])"
      using s(4) [OF lhs(1,2)] by (intro formula_over_clause formula_over_empty) (auto simp: gate_ranges_def)
    moreover have "cnf_sat \<sigma> (add_clause empty_cnf [?l]) \<longleftrightarrow> ?v \<sigma> (and_lhs a)" for \<sigma>
      using s(1,2) [OF lhs(1,2)] by (simp add: cnf_sat_lits del: cnf_sat_add_clause)
    moreover have "gate_ok (pulled ctx \<sigma>) a \<longleftrightarrow> ?v \<sigma> (and_lhs a)" for \<sigma>
      using tt lit_val_small(2) unfolding gate by blast
    ultimately show ?thesis by (simp add: gate_formula_def)
  next
    case left
    then have "clausify_and d ctx a = make_equivalence d ctx (and_lhs a) (and_rhs1 a)"
      by (simp add: clausify_and_def Let_def aiger_false_def aiger_true_def)
    with make_equivalence_runs [OF assms(1) ok lhs(1,2) d0(2) left(2), of d] show ?thesis
      by (auto elim!: runs_mono simp: gate_formula_def gate left lit_val_small(2))
  next
    case right
    then have "clausify_and d ctx a = make_equivalence d ctx (and_lhs a) (and_rhs0 a)"
      by (simp add: clausify_and_def Let_def aiger_false_def aiger_true_def)
    with make_equivalence_runs [OF assms(1) ok lhs(1,2) d0(1) right(1), of d] show ?thesis
      by (auto elim!: runs_mono simp: gate_formula_def gate right lit_val_small(2))
  next
    case both
    let ?f = "add_clause (add_clause (add_clause empty_cnf [lit_not ?l, ?r0]) [lit_not ?l, ?r1])
      [lit_not ?r0, lit_not ?r1, ?l]"
    note s = s [OF lhs(1,2)] s [OF d0(1) both(1)] s [OF d0(2) both(2)]
    have "clausify_and d ctx a = Some ?f"
      using both by (simp add: clausify_and_def Let_def aiger_false_def aiger_true_def lit lhs d0)
    moreover have "formula_over (gate_ranges ctx) ?f"
      using s by (intro formula_over_clause formula_over_empty) (auto simp: gate_ranges_def)
    moreover have "cnf_sat \<sigma> ?f \<longleftrightarrow> gate_ok (pulled ctx \<sigma>) a" for \<sigma>
      unfolding gate using s(1,2,5,6,9,10) by (auto simp: cnf_sat_lits simp del: cnf_sat_add_clause)
    ultimately show ?thesis by (simp add: gate_formula_def)
  qed
qed


section \<open>Subgraphs\<close>

definition gate_children :: "aiger \<Rightarrow> nat \<Rightarrow> nat set" where
  "gate_children g k = {and_rhs0 (aig_ands g ! k), and_rhs1 (aig_ands g ! k)}"

definition gate_in :: "aiger \<Rightarrow> nat set \<Rightarrow> nat \<Rightarrow> bool" where
  "gate_in g R k \<longleftrightarrow> and_lhs (aig_ands g ! k) \<in> R \<or> aiger_not (and_lhs (aig_ands g ! k)) \<in> R"

text \<open>The clauses of the first \<open>n\<close> gates that belong to a set of literals closed under children.\<close>

definition subgraph_formula ::
  "builder_context \<Rightarrow> nat \<Rightarrow> nat set \<Rightarrow> cnf_formula \<Rightarrow> cnf_formula \<Rightarrow> bool" where
  "subgraph_formula ctx n req res f \<longleftrightarrow>
     formula_over (gate_ranges ctx) f \<and>
     (\<exists>R. req \<subseteq> R \<and>
        (\<forall>l \<in> R. l \<in> req \<or> (\<exists>k < n. l \<in> gate_children (ctx_aig ctx) k)) \<and>
        (\<forall>k < n. gate_in (ctx_aig ctx) R k \<longrightarrow> gate_children (ctx_aig ctx) k \<subseteq> R) \<and>
        (\<forall>\<sigma>. cnf_sat \<sigma> f \<longleftrightarrow> cnf_sat \<sigma> res \<and>
           (\<forall>k < n. gate_in (ctx_aig ctx) R k \<longrightarrow> gate_ok (pulled ctx \<sigma>) (aig_ands (ctx_aig ctx) ! k))))"

lemma aiger_not_div [simp]: "aiger_not l div 2 = l div 2"
  unfolding aiger_not_def by presburger

lemma child_before:
  assumes ok: "aig_ok g" and "k < length (aig_ands g)" and "j < length (aig_ands g)"
    and "l \<in> gate_children g k" and "l div 2 = and_lhs (aig_ands g ! j) div 2"
  shows "j < k"
proof -
  have "types_ok g" "aig_ordered g" using ok by (simp_all add: aig_ok_def)
  then have "ty_and (typed g (l div 2))" "ty_idx (typed g (l div 2)) = j"
    using node_at(3) [of g j] assms(3,5) by auto
  then show ?thesis
    using \<open>aig_ordered g\<close> assms(2,4) unfolding aig_ordered_def gate_children_def by blast
qed

lemma clausify_loop_runs:
  assumes cok: "ctx_ok ctx" and ok: "aig_ok (ctx_aig ctx)"
  shows "n \<le> length (aig_ands (ctx_aig ctx)) \<Longrightarrow> formula_over (gate_ranges ctx) res \<Longrightarrow>
    runs (clausify_loop d ctx n req res) (subgraph_formula ctx n req res)"
proof (induction n arbitrary: req res)
  case 0
  then show ?case by (auto simp: subgraph_formula_def)
next
  case (Suc i)
  let ?g = "ctx_aig ctx"
  let ?a = "aig_ands ?g ! i"
  have i: "i < length (aig_ands ?g)" "i \<le> length (aig_ands ?g)" using Suc.prems by simp_all
  show ?case
  proof (cases "gate_in ?g req i")
    case False
    have "runs (clausify_loop d ctx i req res) (subgraph_formula ctx (Suc i) req res)"
    proof (rule runs_mono [OF Suc.IH [OF i(2) Suc.prems(2), of req]])
      fix f assume "subgraph_formula ctx i req res f"
      then obtain R where f: "formula_over (gate_ranges ctx) f" and R: "req \<subseteq> R"
        "\<forall>l \<in> R. l \<in> req \<or> (\<exists>k < i. l \<in> gate_children ?g k)"
        "\<forall>k < i. gate_in ?g R k \<longrightarrow> gate_children ?g k \<subseteq> R"
        "\<forall>\<sigma>. cnf_sat \<sigma> f \<longleftrightarrow> cnf_sat \<sigma> res \<and>
           (\<forall>k < i. gate_in ?g R k \<longrightarrow> gate_ok (pulled ctx \<sigma>) (aig_ands ?g ! k))"
        unfolding subgraph_formula_def by blast
      have "\<not> gate_in ?g R i"
      proof
        assume "gate_in ?g R i"
        then obtain l where l: "l \<in> R" "l \<notin> req" "l div 2 = and_lhs ?a div 2"
          using False aiger_not_div by (auto simp: gate_in_def)
        then obtain k where "k < i" "l \<in> gate_children ?g k" using R(2) by blast
        then show False using child_before [OF ok, of k i l] i(1) l(3) by simp
      qed
      with f R show "subgraph_formula ctx (Suc i) req res f"
        unfolding subgraph_formula_def by (auto intro!: exI [of _ R] simp: less_Suc_eq)
    qed
    then show ?thesis using False i(1) by (simp add: gate_in_def)
  next
    case True
    let ?req = "insert (and_rhs1 ?a) (insert (and_rhs0 ?a) req)"
    have a: "?a \<in> set (aig_ands ?g)" using i(1) by simp
    have "runs (Option.bind (clausify_and d ctx ?a) (\<lambda>f. clausify_loop d ctx i ?req (add_cnf res f)))
        (subgraph_formula ctx (Suc i) req res)"
    proof (rule runs_bindI [OF clausify_and_runs [OF cok ok a]])
      fix c assume c: "gate_formula ctx ?a c"
      then have "formula_over (gate_ranges ctx) (add_cnf res c)"
        using Suc.prems(2) by (auto simp: gate_formula_def intro: formula_over_add)
      from Suc.IH [OF i(2) this, of ?req]
      show "runs (clausify_loop d ctx i ?req (add_cnf res c)) (subgraph_formula ctx (Suc i) req res)"
      proof (rule runs_mono)
        fix f assume "subgraph_formula ctx i ?req (add_cnf res c) f"
        then obtain R where f: "formula_over (gate_ranges ctx) f" and R: "?req \<subseteq> R"
          "\<forall>l \<in> R. l \<in> ?req \<or> (\<exists>k < i. l \<in> gate_children ?g k)"
          "\<forall>k < i. gate_in ?g R k \<longrightarrow> gate_children ?g k \<subseteq> R"
          "\<forall>\<sigma>. cnf_sat \<sigma> f \<longleftrightarrow> cnf_sat \<sigma> (add_cnf res c) \<and>
             (\<forall>k < i. gate_in ?g R k \<longrightarrow> gate_ok (pulled ctx \<sigma>) (aig_ands ?g ! k))"
          unfolding subgraph_formula_def by blast
        have "gate_in ?g R i" using True R(1) by (auto simp: gate_in_def)
        moreover have "gate_children ?g i \<subseteq> R" using R(1) by (simp add: gate_children_def)
        moreover have "\<forall>l \<in> R. l \<in> req \<or> (\<exists>k < Suc i. l \<in> gate_children ?g k)"
          using R(2) by (auto simp: gate_children_def less_Suc_eq)
        moreover have "cnf_sat \<sigma> (add_cnf res c) \<longleftrightarrow> cnf_sat \<sigma> res \<and> gate_ok (pulled ctx \<sigma>) ?a" for \<sigma>
          using c Suc.prems(2) by (simp add: gate_formula_def formula_over_def)
        moreover have "req \<subseteq> R" using R(1) by blast
        ultimately show "subgraph_formula ctx (Suc i) req res f"
          unfolding subgraph_formula_def using f R(3,4)
          by (intro conjI exI [of _ R]) (auto simp: less_Suc_eq)
      qed
    qed
    moreover have "clausify_loop d ctx (Suc i) req res =
        Option.bind (clausify_and d ctx ?a) (\<lambda>f. clausify_loop d ctx i ?req (add_cnf res f))"
      using True i(1) by (auto simp: gate_in_def)
    ultimately show ?thesis by simp
  qed
qed

lemma clausify_subgraph_runs:
  assumes "ctx_ok ctx" and "aig_ok (ctx_aig ctx)"
  shows "runs (clausify_subgraph d ctx roots)
    (subgraph_formula ctx (length (aig_ands (ctx_aig ctx))) roots empty_cnf)"
  unfolding clausify_subgraph_def by (rule clausify_loop_runs [OF assms]) simp_all

text \<open>The values of inputs and latches in an assignment.\<close>

lemma pulled_leaves:
  assumes cok: "ctx_ok ctx" and ok: "types_ok (ctx_aig ctx)"
  shows "ty_input (typed (ctx_aig ctx) v) \<Longrightarrow>
      pulled ctx \<sigma> v = read (ctx_input_vars ctx) \<sigma> ! ty_idx (typed (ctx_aig ctx) v)"
    and "ty_latch (typed (ctx_aig ctx) v) \<Longrightarrow>
      pulled ctx \<sigma> v = read (ctx_state_vars ctx) \<sigma> ! ty_idx (typed (ctx_aig ctx) v)"
    and "ty_and (typed (ctx_aig ctx) v) \<Longrightarrow>
      pulled ctx \<sigma> v = read (ctx_and_vars ctx) \<sigma> ! ty_idx (typed (ctx_aig ctx) v)"
proof -
  let ?g = "ctx_aig ctx"
  have ne: "v \<noteq> 0" if "defined_var ?g v"
    using that zero_undefined [OF ok] by (cases "v = 0") (auto simp: defined_var_def)
  note inr = solver_var_in [OF cok ok, of v] and kind = node_kind [OF ok, of v]
  show "pulled ctx \<sigma> v = read (ctx_input_vars ctx) \<sigma> ! ty_idx (typed ?g v)" if t: "ty_input (typed ?g v)"
    using read_nth [OF inr(1) [OF t], of \<sigma>] t ne by (simp add: pulled_def solver_var_def Let_def defined_var_def)
  show "pulled ctx \<sigma> v = read (ctx_state_vars ctx) \<sigma> ! ty_idx (typed ?g v)" if t: "ty_latch (typed ?g v)"
    using read_nth [OF inr(2) [OF t], of \<sigma>] t ne kind(2) [OF t]
    by (simp add: pulled_def solver_var_def Let_def defined_var_def)
  show "pulled ctx \<sigma> v = read (ctx_and_vars ctx) \<sigma> ! ty_idx (typed ?g v)" if t: "ty_and (typed ?g v)"
    using read_nth [OF inr(3) [OF t], of \<sigma>] t ne kind(3) [OF t]
    by (simp add: pulled_def solver_var_def Let_def defined_var_def)
qed

lemma leaf_value:
  assumes "types_ok g" and "aig_valuation g s i w"
  shows "ty_input (typed g v) \<Longrightarrow> w v = i ! ty_idx (typed g v)"
    and "ty_latch (typed g v) \<Longrightarrow> w v = s ! ty_idx (typed g v)"
  using node_of(1,2) [OF assms(1), of v] assms(2) unfolding aig_valuation_def
  by (metis nonzero_mult_div_cancel_left zero_neq_numeral)+

text \<open>The clauses of a subgraph determine its roots,\<close>

lemma subgraph_sound:
  assumes cok: "ctx_ok ctx" and ok: "aig_ok (ctx_aig ctx)"
    and f: "subgraph_formula ctx (length (aig_ands (ctx_aig ctx))) roots empty_cnf f" and sat: "cnf_sat \<sigma> f"
    and w: "aig_valuation (ctx_aig ctx) (read (ctx_state_vars ctx) \<sigma>) (read (ctx_input_vars ctx) \<sigma>) w"
    and l: "lit_defined (ctx_aig ctx) l" "l \<in> roots \<or> l < 2"
  shows "lit_val (pulled ctx \<sigma>) l = lit_val w l"
proof (rule lit_val_cong)
  let ?g = "ctx_aig ctx"
  have t: "types_ok ?g" "aig_closed ?g" "aig_ordered ?g" using ok by (simp_all add: aig_ok_def)
  obtain R where R: "roots \<subseteq> R"
    "\<forall>k < length (aig_ands ?g). gate_in ?g R k \<longrightarrow> gate_children ?g k \<subseteq> R"
    "\<forall>k < length (aig_ands ?g). gate_in ?g R k \<longrightarrow> gate_ok (pulled ctx \<sigma>) (aig_ands ?g ! k)"
    using f sat unfolding subgraph_formula_def by blast
  have leaf: "pulled ctx \<sigma> v = w v" if "ty_input (typed ?g v) \<or> ty_latch (typed ?g v) \<or> v = 0" for v
    using that pulled_leaves(1,2) [OF cok t(1)] leaf_value [OF t(1) w] w by (auto simp: aig_valuation_def)
  have inR: "gate_in ?g R (ty_idx (typed ?g (r div 2)))" if "r \<in> R" "ty_and (typed ?g (r div 2))" for r
  proof -
    have "and_lhs (aig_ands ?g ! ty_idx (typed ?g (r div 2))) = 2 * (r div 2)"
      using node_of(3) [OF t(1) that(2)] by simp
    then have "r = and_lhs (aig_ands ?g ! ty_idx (typed ?g (r div 2))) \<or>
        r = aiger_not (and_lhs (aig_ands ?g ! ty_idx (typed ?g (r div 2))))"
      unfolding aiger_not_def by presburger
    with that(1) show ?thesis by (auto simp: gate_in_def)
  qed
  have gates: "pulled ctx \<sigma> (and_lhs (aig_ands ?g ! k) div 2) = w (and_lhs (aig_ands ?g ! k) div 2)"
    if "k < length (aig_ands ?g)" "gate_in ?g R k" for k
  proof (rule valuation_agree [OF t, where K = "{k. gate_in ?g R k}"])
    fix k r assume "k < length (aig_ands ?g)" "k \<in> {k. gate_in ?g R k}"
      "r \<in> {and_rhs0 (aig_ands ?g ! k), and_rhs1 (aig_ands ?g ! k)}" and a: "ty_and (typed ?g (r div 2))"
    then have "r \<in> R" using R(2) unfolding gate_children_def by blast
    then show "ty_idx (typed ?g (r div 2)) \<in> {k. gate_in ?g R k}" using inR a by simp
  next
    fix k assume "k < length (aig_ands ?g)" "k \<in> {k. gate_in ?g R k}"
    then show "gate_ok (pulled ctx \<sigma>) (aig_ands ?g ! k) \<and> gate_ok w (aig_ands ?g ! k)"
      using R(3) w by (simp add: aig_valuation_def)
  qed (use leaf that in simp_all)
  from l(1) consider "l div 2 = 0 \<or> ty_input (typed ?g (l div 2)) \<or> ty_latch (typed ?g (l div 2))"
    | "ty_and (typed ?g (l div 2))"
    using lit_not_defined by (auto simp: defined_var_def)
  then show "pulled ctx \<sigma> (l div 2) = w (l div 2)"
  proof cases
    case 1
    then show ?thesis using leaf by blast
  next
    case 2
    then have "l div 2 \<noteq> 0" using zero_undefined(3) [OF t(1)] by metis
    then have "l \<in> R" using l(2) R(1) by auto
    then show ?thesis
      using gates [OF _ inR [OF _ 2]] node_of(3) [OF t(1) 2] by simp
  qed
qed

text \<open>and hold of the values the graph computes.\<close>

lemma subgraph_complete:
  assumes ok: "aig_ok (ctx_aig ctx)"
    and f: "subgraph_formula ctx (length (aig_ands (ctx_aig ctx))) roots empty_cnf f"
    and w: "aig_valuation (ctx_aig ctx) s i w"
    and same: "\<And>v. defined_var (ctx_aig ctx) v \<Longrightarrow> pulled ctx \<sigma> v = w v"
  shows "cnf_sat \<sigma> f"
proof -
  let ?g = "ctx_aig ctx"
  have t: "types_ok ?g" "aig_closed ?g" using ok by (simp_all add: aig_ok_def)
  have lit: "lit_val (pulled ctx \<sigma>) l = lit_val w l" if "lit_defined ?g l" for l
  proof (rule lit_val_cong)
    show "pulled ctx \<sigma> (l div 2) = w (l div 2)"
      using same lit_not_defined [OF that] w by (cases "defined_var ?g (l div 2)") (auto simp: aig_valuation_def)
  qed
  have "gate_ok (pulled ctx \<sigma>) (aig_ands ?g ! k)" if k: "k < length (aig_ands ?g)" for k
  proof -
    let ?a = "aig_ands ?g ! k"
    have a: "?a \<in> set (aig_ands ?g)" using k by simp
    then have "lit_defined ?g (and_rhs0 ?a)" "lit_defined ?g (and_rhs1 ?a)" "gate_ok w ?a"
      using t(2) w by (auto simp: aig_closed_def aig_valuation_def)
    moreover have "defined_var ?g (and_lhs ?a div 2)" using node_at(3) [OF t(1) k] by (simp add: defined_var_def)
    ultimately show ?thesis using lit same by (simp add: gate_ok_def)
  qed
  then show ?thesis using f unfolding subgraph_formula_def by auto
qed


section \<open>The initial formula\<close>

lemma unit_stream_snoc:
  "unit_stream ls \<Longrightarrow> l \<noteq> separator \<Longrightarrow> unit_stream (ls @ [l, separator])"
  by (induction ls rule: unit_stream.induct) simp_all

text \<open>A conjunction of literals over the first \<open>n\<close> variables of a range, no variable twice.\<close>

definition init_part :: "variable_range \<Rightarrow> nat \<Rightarrow> cnf_formula \<Rightarrow> bool" where
  "init_part r n f \<longleftrightarrow>
     unit_stream (cnf_literals f) \<and>
     distinct (map lit_var (filter (\<lambda>l. l \<noteq> separator) (cnf_literals f))) \<and>
     (\<forall>l \<in> set (cnf_literals f). l \<noteq> separator \<longrightarrow>
        vr_begin r \<le> var_id (lit_var l) \<and> var_id (lit_var l) < vr_begin r + int n)"

lemma init_part_mono: "init_part r n f \<Longrightarrow> init_part r (Suc n) f"
  by (fastforce simp: init_part_def)

lemma init_part_add:
  assumes "init_part r n f" and "0 < vr_begin r"
  shows "init_part r (Suc n) (add_clause f [literal_of (vr_nth r (int n)) b])"
proof -
  let ?l = "literal_of (vr_nth r (int n)) b"
  have v: "lit_var ?l = vr_nth r (int n)" "?l \<noteq> separator"
    using assms(2) by (simp_all add: vr_nth_def)
  have "unit_stream (cnf_literals f @ [?l, separator])"
    using assms(1) v(2) by (intro unit_stream_snoc) (simp_all add: init_part_def)
  moreover have "lit_var l \<noteq> vr_nth r (int n)" if "l \<in> set (cnf_literals f)" "l \<noteq> separator" for l
    using assms(1) that unfolding init_part_def by (auto simp: vr_nth_def)
  ultimately show ?thesis
    using assms(1) v by (fastforce simp: init_part_def add_clause_def vr_nth_def)
qed

lemma unit_stream_formula: "unit_stream (cnf_literals f) \<Longrightarrow> well_formed_cnf f"
  by (simp add: well_formed_cnf_def unit_stream_terminated)

lemma init_loop_ok:
  assumes "0 < vr_begin (ctx_state_vars ctx)"
  shows "init_part (ctx_state_vars ctx) n f \<Longrightarrow>
    init_part (ctx_state_vars ctx) (n + length ss) (init_loop ctx (int n) ss f) \<and>
    (\<forall>\<sigma>. cnf_sat \<sigma> (init_loop ctx (int n) ss f) \<longleftrightarrow> cnf_sat \<sigma> f \<and>
       (\<forall>k < length ss. (sym_reset (ss ! k) = 0 \<longrightarrow> \<not> \<sigma> (vr_nth (ctx_state_vars ctx) (int (n + k)))) \<and>
                       (sym_reset (ss ! k) = 1 \<longrightarrow> \<sigma> (vr_nth (ctx_state_vars ctx) (int (n + k))))))"
proof (induction ss arbitrary: n f)
  case Nil
  then show ?case by simp
next
  case (Cons s ss)
  let ?r = "ctx_state_vars ctx"
  define f' where "f' = (if aiger_is_constant (sym_reset s)
    then add_clause f [literal_of (vr_nth ?r (int n)) (sym_reset s = 0)] else f)"
  have part: "init_part ?r (Suc n) f'"
    using init_part_add [OF Cons.prems assms] init_part_mono [OF Cons.prems] by (simp add: f'_def)
  have wf: "well_formed_cnf f" using Cons.prems by (simp add: init_part_def unit_stream_formula)
  have pos: "0 < var_id (vr_nth ?r (int n))" using assms by (simp add: vr_nth_def)
  have sat: "cnf_sat \<sigma> f' \<longleftrightarrow> cnf_sat \<sigma> f \<and> (sym_reset s = 0 \<longrightarrow> \<not> \<sigma> (vr_nth ?r (int n))) \<and>
      (sym_reset s = 1 \<longrightarrow> \<sigma> (vr_nth ?r (int n)))" for \<sigma>
    using wf pos
    by (auto simp: f'_def cnf_sat_lits aiger_is_constant_def aiger_false_def aiger_true_def
        simp del: cnf_sat_add_clause)
  have loop: "init_loop ctx (int n) (s # ss) f = init_loop ctx (int (Suc n)) ss f'"
    by (simp add: f'_def algebra_simps)
  have all: "(\<forall>k < length (s # ss). P k) \<longleftrightarrow> P 0 \<and> (\<forall>k < length ss. P (Suc k))" for P
    by (auto simp: less_Suc_eq_0_disj)
  from Cons.IH [OF part] show ?case
    unfolding loop all by (simp add: sat conj_assoc)
qed

lemma build_init_ok:
  assumes "ctx_ok ctx"
  shows "formula_over [ctx_state_vars ctx] (build_init ctx)"
    and "unit_stream (cnf_literals (build_init ctx)) \<and>
      distinct (map lit_var (filter (\<lambda>l. l \<noteq> separator) (cnf_literals (build_init ctx))))"
    and "cnf_sat \<sigma> (build_init ctx) \<longleftrightarrow> aig_init (ctx_aig ctx) (read (ctx_state_vars ctx) \<sigma>)"
proof -
  let ?r = "ctx_state_vars ctx" and ?ls = "aig_latches (ctx_aig ctx)"
  have r: "range_ok ?r" "vr_size ?r = int (length ?ls)" using assms by (simp_all add: ctx_ok_def)
  have b: "0 < vr_begin ?r" using r(1) by (simp add: range_ok_def)
  have "init_part ?r 0 empty_cnf" by (simp add: init_part_def empty_cnf_def)
  note i = init_loop_ok [OF b this, of ?ls]
  then have part: "init_part ?r (length ?ls) (build_init ctx)" by (simp add: build_init_def)
  then show "unit_stream (cnf_literals (build_init ctx)) \<and>
      distinct (map lit_var (filter (\<lambda>l. l \<noteq> separator) (cnf_literals (build_init ctx))))"
    by (simp add: init_part_def)
  have e: "vr_begin ?r + int (length ?ls) = vr_end ?r" using r(2) by (simp add: vr_size_def)
  show "formula_over [?r] (build_init ctx)"
    using part by (auto simp: formula_over_def init_part_def unit_stream_formula vr_contains_def e)
  have "read ?r \<sigma> ! k = \<sigma> (vr_nth ?r (int k))" if "k < length ?ls" for k
    using that r(2) by (simp add: read_def vr_vars_nth)
  then show "cnf_sat \<sigma> (build_init ctx) \<longleftrightarrow> aig_init (ctx_aig ctx) (read ?r \<sigma>)"
    using i r(2) by (auto simp: build_init_def aig_init_def)
qed

section \<open>The transition and error formulas\<close>

definition next_ranges :: "builder_context \<Rightarrow> variable_range list" where
  "next_ranges ctx = [ctx_input_vars ctx, ctx_state_vars ctx, ctx_next_state_vars ctx, ctx_and_vars ctx]"

lemma gate_ranges_next: "formula_over (gate_ranges ctx) f \<Longrightarrow> formula_over (next_ranges ctx) f"
  by (rule formula_over_mono) (auto simp: gate_ranges_def next_ranges_def)

lemma trans_loop_runs:
  assumes cok: "ctx_ok ctx" and ok: "aig_ok (ctx_aig ctx)"
  shows "\<forall>s \<in> set ss. lit_defined (ctx_aig ctx) (sym_next s) \<Longrightarrow> formula_over (next_ranges ctx) tr \<Longrightarrow>
    int n + int (length ss) \<le> vr_size (ctx_next_state_vars ctx) \<Longrightarrow>
    runs (trans_loop d ctx (int n) ss tr) (\<lambda>f. formula_over (next_ranges ctx) f \<and>
      (\<forall>\<sigma>. cnf_sat \<sigma> f \<longleftrightarrow> cnf_sat \<sigma> tr \<and>
        (\<forall>k < length ss. \<sigma> (vr_nth (ctx_next_state_vars ctx) (int (n + k))) =
           lit_val (pulled ctx \<sigma>) (sym_next (ss ! k)))))"
proof (induction ss arbitrary: n tr)
  case Nil
  then show ?case by simp
next
  case (Cons s ss)
  let ?x = "vr_nth (ctx_next_state_vars ctx) (int n)"
  let ?l = "literal_of ?x False" and ?p = "solver_lit ctx (sym_next s)"
  have r: "range_ok (ctx_next_state_vars ctx)" using cok by (simp add: ctx_ok_def)
  have x: "vr_contains (ctx_next_state_vars ctx) ?x" using Cons.prems(3) by (intro vr_nth_contains) simp_all
  have pos: "0 < var_id ?x" by (rule vr_contains_pos [OF r x])
  have l: "?l \<noteq> separator" "lit_var ?l = ?x" "lit_true \<sigma> ?l = \<sigma> ?x" for \<sigma> using pos by simp_all
  have wf: "well_formed_cnf tr" using Cons.prems(2) by (simp add: formula_over_def)
  define goal where "goal = (\<lambda>n (ss :: aiger_symbol list) tr f. formula_over (next_ranges ctx) f \<and>
      (\<forall>\<sigma>. cnf_sat \<sigma> f \<longleftrightarrow> cnf_sat \<sigma> tr \<and>
        (\<forall>k < length ss. \<sigma> (vr_nth (ctx_next_state_vars ctx) (int (n + k))) =
           lit_val (pulled ctx \<sigma>) (sym_next (ss ! k)))))"
  have step: "runs (trans_loop d ctx (int n + 1) ss tr') (goal n (s # ss) tr)"
    if tr': "formula_over (next_ranges ctx) tr'"
      "\<And>\<sigma>. cnf_sat \<sigma> tr' \<longleftrightarrow> cnf_sat \<sigma> tr \<and> \<sigma> ?x = lit_val (pulled ctx \<sigma>) (sym_next s)" for tr'
  proof -
    have "runs (trans_loop d ctx (int (Suc n)) ss tr') (goal (Suc n) ss tr')"
      unfolding goal_def using Cons.prems tr'(1) by (intro Cons.IH) simp_all
    moreover have "goal n (s # ss) tr f" if g: "goal (Suc n) ss tr' f" for f
    proof -
      have all: "(\<forall>k < length (s # ss). P k) \<longleftrightarrow> P 0 \<and> (\<forall>k < length ss. P (Suc k))" for P
        by (auto simp: less_Suc_eq_0_disj)
      show ?thesis using g unfolding goal_def all by (simp add: tr'(2) conj_assoc)
    qed
    ultimately have "runs (trans_loop d ctx (int (Suc n)) ss tr') (goal n (s # ss) tr)" by (rule runs_mono)
    moreover have "int (Suc n) = int n + 1" by simp
    ultimately show ?thesis by (simp only:)
  qed
  have over: "formula_over (next_ranges ctx) (add_clause h c)"
    if "formula_over (next_ranges ctx) h" "\<forall>l \<in> set c. \<exists>r \<in> set (next_ranges ctx). vr_contains r (lit_var l)" for h c
    using that by (intro formula_over_clause) blast+
  have xin: "\<exists>r \<in> set (next_ranges ctx). vr_contains r ?x" using x by (auto simp: next_ranges_def)
  have "runs (trans_loop d ctx (int n) (s # ss) tr) (goal n (s # ss) tr)"
  proof -
    consider "sym_next s = 1" | "sym_next s = 0" | "2 \<le> sym_next s" by linarith
    then show ?thesis
    proof cases
      case 1
      have "runs (trans_loop d ctx (int n + 1) ss (add_clause tr [?l])) (goal n (s # ss) tr)"
        using l wf lit_val_small(2) Cons.prems(2) xin 1
        by (intro step over) (simp_all add: cnf_sat_lits del: cnf_sat_add_clause)
      then show ?thesis using 1 by (simp add: Let_def aiger_true_def aiger_false_def)
    next
      case 2
      have "runs (trans_loop d ctx (int n + 1) ss (add_clause tr [lit_not ?l])) (goal n (s # ss) tr)"
        using l wf lit_val_small(1) Cons.prems(2) xin 2 pos
        by (intro step over) (simp_all add: cnf_sat_lits less_imp_le del: cnf_sat_add_clause)
      then show ?thesis using 2 by (simp add: Let_def aiger_true_def aiger_false_def)
    next
      case 3
      have d: "lit_defined (ctx_aig ctx) (sym_next s)" using Cons.prems(1) by simp
      note p = solver_lit_facts [OF cok ok d 3]
      have pin: "\<exists>r \<in> set (next_ranges ctx). vr_contains r (lit_var ?p)"
        using p(4) by (auto simp: next_ranges_def)
      have "runs (trans_loop d ctx (int n + 1) ss
          (add_clause (add_clause tr [lit_not ?l, ?p]) [lit_not ?p, ?l])) (goal n (s # ss) tr)"
      proof (rule step)
        show "formula_over (next_ranges ctx) (add_clause (add_clause tr [lit_not ?l, ?p]) [lit_not ?p, ?l])"
          using Cons.prems(2) xin pin l(2) pos by (intro over) (simp_all add: less_imp_le)
        show "cnf_sat \<sigma> (add_clause (add_clause tr [lit_not ?l, ?p]) [lit_not ?p, ?l]) \<longleftrightarrow>
            cnf_sat \<sigma> tr \<and> \<sigma> ?x = lit_val (pulled ctx \<sigma>) (sym_next s)" for \<sigma>
          using wf l(1,3) p(1,2) pos
          by (auto simp: cnf_sat_lits simp del: cnf_sat_add_clause lit_not_literal_of)
      qed
      then show ?thesis
        using 3 from_aiger_lit_defined [OF ok d 3]
        by (simp add: Let_def aiger_true_def aiger_false_def)
    qed
  qed
  then show ?case by (simp only: goal_def)
qed

lemma build_trans_runs:
  assumes cok: "ctx_ok ctx" and ok: "aig_ok (ctx_aig ctx)"
  shows "runs (build_trans d ctx) (\<lambda>f. formula_over (next_ranges ctx) f \<and>
    (\<exists>roots h. {sym_next s |s. s \<in> set (aig_latches (ctx_aig ctx)) \<and> 2 \<le> sym_next s} \<subseteq> roots \<and>
       subgraph_formula ctx (length (aig_ands (ctx_aig ctx))) roots empty_cnf h \<and>
       (\<forall>\<sigma>. cnf_sat \<sigma> f \<longleftrightarrow> cnf_sat \<sigma> h \<and>
          read (ctx_next_state_vars ctx) \<sigma> =
            map (\<lambda>s. lit_val (pulled ctx \<sigma>) (sym_next s)) (aig_latches (ctx_aig ctx)))))"
proof -
  let ?ls = "aig_latches (ctx_aig ctx)"
  let ?roots = "set (filter (\<lambda>l. \<not> aiger_is_constant l) (map sym_next ?ls))"
  have roots: "{sym_next s |s. s \<in> set ?ls \<and> 2 \<le> sym_next s} \<subseteq> ?roots"
    by (auto simp: aiger_is_constant_def aiger_false_def aiger_true_def)
  have sz: "vr_size (ctx_next_state_vars ctx) = int (length ?ls)" using cok by (simp add: ctx_ok_def)
  have def: "\<forall>s \<in> set ?ls. lit_defined (ctx_aig ctx) (sym_next s)" using ok by (simp add: aig_ok_def aig_closed_def)
  show ?thesis
    unfolding build_trans_def Let_def
  proof (rule runs_bindI [OF clausify_subgraph_runs [OF assms]])
    fix h assume h: "subgraph_formula ctx (length (aig_ands (ctx_aig ctx))) ?roots empty_cnf h"
    then have "formula_over (next_ranges ctx) h" by (simp add: subgraph_formula_def gate_ranges_next)
    from trans_loop_runs [OF assms def this, of 0 d]
    have "runs (trans_loop d ctx 0 ?ls h) (\<lambda>f. formula_over (next_ranges ctx) f \<and>
      (\<forall>\<sigma>. cnf_sat \<sigma> f \<longleftrightarrow> cnf_sat \<sigma> h \<and>
        (\<forall>k < length ?ls. \<sigma> (vr_nth (ctx_next_state_vars ctx) (int k)) =
           lit_val (pulled ctx \<sigma>) (sym_next (?ls ! k)))))"
      by (simp add: sz)
    then show "runs (trans_loop d ctx 0 ?ls h) (\<lambda>f. formula_over (next_ranges ctx) f \<and>
      (\<exists>roots h. {sym_next s |s. s \<in> set ?ls \<and> 2 \<le> sym_next s} \<subseteq> roots \<and>
       subgraph_formula ctx (length (aig_ands (ctx_aig ctx))) roots empty_cnf h \<and>
       (\<forall>\<sigma>. cnf_sat \<sigma> f \<longleftrightarrow> cnf_sat \<sigma> h \<and>
          read (ctx_next_state_vars ctx) \<sigma> = map (\<lambda>s. lit_val (pulled ctx \<sigma>) (sym_next s)) ?ls)))"
    proof (rule runs_mono, elim conjE)
      fix f assume f: "formula_over (next_ranges ctx) f" "\<forall>\<sigma>. cnf_sat \<sigma> f \<longleftrightarrow> cnf_sat \<sigma> h \<and>
        (\<forall>k < length ?ls. \<sigma> (vr_nth (ctx_next_state_vars ctx) (int k)) =
           lit_val (pulled ctx \<sigma>) (sym_next (?ls ! k)))"
      have "read (ctx_next_state_vars ctx) \<sigma> = map (\<lambda>s. lit_val (pulled ctx \<sigma>) (sym_next s)) ?ls \<longleftrightarrow>
          (\<forall>k < length ?ls. \<sigma> (vr_nth (ctx_next_state_vars ctx) (int k)) =
             lit_val (pulled ctx \<sigma>) (sym_next (?ls ! k)))" for \<sigma>
        using sz by (auto simp: list_eq_iff_nth_eq read_def vr_vars_nth)
      with f roots h show "formula_over (next_ranges ctx) f \<and>
        (\<exists>roots h. {sym_next s |s. s \<in> set ?ls \<and> 2 \<le> sym_next s} \<subseteq> roots \<and>
         subgraph_formula ctx (length (aig_ands (ctx_aig ctx))) roots empty_cnf h \<and>
         (\<forall>\<sigma>. cnf_sat \<sigma> f \<longleftrightarrow> cnf_sat \<sigma> h \<and>
            read (ctx_next_state_vars ctx) \<sigma> = map (\<lambda>s. lit_val (pulled ctx \<sigma>) (sym_next s)) ?ls))"
        by (intro conjI exI [of _ ?roots] exI [of _ h]) (simp_all only: simp_thms)
    qed
  qed
qed

lemma build_error_runs:
  assumes cok: "ctx_ok ctx" and ok: "aig_ok (ctx_aig ctx)"
    and one: "length (aig_outputs (ctx_aig ctx)) + length (aig_bad (ctx_aig ctx)) = 1"
  shows "runs (build_error d ctx) (\<lambda>f. formula_over (gate_ranges ctx) f \<and>
    (\<exists>roots h. (aig_error_lit (ctx_aig ctx) < 2 \<or> aig_error_lit (ctx_aig ctx) \<in> roots) \<and>
       subgraph_formula ctx (length (aig_ands (ctx_aig ctx))) roots empty_cnf h \<and>
       (\<forall>\<sigma>. cnf_sat \<sigma> f \<longleftrightarrow>
          (2 \<le> aig_error_lit (ctx_aig ctx) \<longrightarrow> cnf_sat \<sigma> h) \<and>
          lit_val (pulled ctx \<sigma>) (aig_error_lit (ctx_aig ctx)))))"
proof -
  let ?g = "ctx_aig ctx"
  let ?e = "aig_error_lit ?g"
  obtain s where s: "(if 0 < length (aig_outputs ?g) then vec_at (aig_outputs ?g) 0
      else vec_at (aig_bad ?g) 0) = Some s" "sym_lit s = ?e" "s \<in> set (aig_outputs ?g @ aig_bad ?g)"
    using one by (cases "aig_outputs ?g"; cases "aig_bad ?g") (auto simp: aig_error_lit_def)
  have "lit_defined ?g (sym_lit s)" using ok s(3) unfolding aig_ok_def aig_closed_def by blast
  then have def: "lit_defined ?g ?e" by (simp add: s(2))
  define R where "R = (\<lambda>f. formula_over (gate_ranges ctx) f \<and>
    (\<exists>roots h. (?e < 2 \<or> ?e \<in> roots) \<and> subgraph_formula ctx (length (aig_ands ?g)) roots empty_cnf h \<and>
      (\<forall>\<sigma>. cnf_sat \<sigma> f \<longleftrightarrow> (2 \<le> ?e \<longrightarrow> cnf_sat \<sigma> h) \<and> lit_val (pulled ctx \<sigma>) ?e)))"
  have const: "subgraph_formula ctx (length (aig_ands ?g)) {} empty_cnf empty_cnf"
    unfolding subgraph_formula_def by (intro conjI exI [of _ "{}"]) (simp_all add: gate_in_def)
  have R: "R f" if "formula_over (gate_ranges ctx) f" "\<And>\<sigma>. cnf_sat \<sigma> f \<longleftrightarrow> lit_val (pulled ctx \<sigma>) ?e" "?e < 2" for f
    unfolding R_def using that const by (intro conjI exI [of _ "{}"] exI [of _ empty_cnf]) simp_all
  have unfold: "build_error d ctx = (if ?e = aiger_true then Some (cnf_constant True)
      else if ?e = aiger_false then Some (cnf_constant False)
      else do {
        error \<leftarrow> clausify_subgraph d ctx {?e};
        l \<leftarrow> from_aiger_lit d ctx ?e;
        Some (add_clause error [l]) })"
    unfolding build_error_def s(1) by (simp only: bind.bind_lunit s(2))
  consider "?e = 1" | "?e = 0" | "2 \<le> ?e" by linarith
  then have "runs (build_error d ctx) R"
  proof cases
    case 1
    have "R (cnf_constant True)"
      by (rule R) (simp_all add: 1 cnf_constant_def lit_val_small)
    then show ?thesis unfolding unfold by (simp add: 1 aiger_true_def)
  next
    case 2
    have "formula_over (gate_ranges ctx) (add_clause empty_cnf [])" by (rule formula_over_clause) simp_all
    then have "R (cnf_constant False)"
      by (intro R) (simp_all add: 2 cnf_constant_def lit_val_small(1))
    then show ?thesis unfolding unfold by (simp add: 2 aiger_true_def aiger_false_def)
  next
    case 3
    have b: "build_error d ctx = Option.bind (clausify_subgraph d ctx {?e})
        (\<lambda>h. Some (add_clause h [solver_lit ctx ?e]))"
      unfolding unfold using 3 from_aiger_lit_defined [OF ok def 3]
      by (simp add: aiger_true_def aiger_false_def)
    note p = solver_lit_facts [OF cok ok def 3]
    show ?thesis
      unfolding b
    proof (rule runs_bindI [OF clausify_subgraph_runs [OF cok ok]])
      fix h assume h: "subgraph_formula ctx (length (aig_ands ?g)) {?e} empty_cnf h"
      then have over: "formula_over (gate_ranges ctx) h" by (simp add: subgraph_formula_def)
      then have "formula_over (gate_ranges ctx) (add_clause h [solver_lit ctx ?e])"
        using p(4) by (intro formula_over_clause) (auto simp: gate_ranges_def)
      moreover have "cnf_sat \<sigma> (add_clause h [solver_lit ctx ?e]) \<longleftrightarrow>
          (2 \<le> ?e \<longrightarrow> cnf_sat \<sigma> h) \<and> lit_val (pulled ctx \<sigma>) ?e" for \<sigma>
        using over p(1,2) 3 by (simp add: formula_over_def cnf_sat_lits del: cnf_sat_add_clause)
      ultimately have "R (add_clause h [solver_lit ctx ?e])"
        unfolding R_def using h by (intro conjI exI [of _ "{?e}"] exI [of _ h]) simp_all
      then show "runs (Some (add_clause h [solver_lit ctx ?e])) R" by simp
    qed
  qed
  then show ?thesis by (simp only: R_def)
qed

end
