(* ===== verification/BuilderSystem.thy ===== *)
theory BuilderSystem
  imports BuilderCorrect
begin

text \<open>
  The transition system of a graph: an assignment for every valuation of the graph, the equality of
  initial states, transitions and errors, and the context that \<open>make_context\<close> makes.
\<close>

section \<open>From a valuation to an assignment\<close>

definition spread :: "builder_context \<Rightarrow> bool list \<Rightarrow> bool list \<Rightarrow> bool list \<Rightarrow> (nat \<Rightarrow> bool) \<Rightarrow> assignment" where
  "spread ctx s i t w =
     put_range (ctx_input_vars ctx) i (put_range (ctx_state_vars ctx) s
       (put_range (ctx_next_state_vars ctx) t
         (put_range (ctx_and_vars ctx) (map (\<lambda>a. w (and_lhs a div 2)) (aig_ands (ctx_aig ctx))) (\<lambda>_. False))))"

lemma ctx_apart:
  assumes "ctx_ok ctx"
  shows "ranges_apart (ctx_input_vars ctx) (ctx_state_vars ctx)"
    and "ranges_apart (ctx_input_vars ctx) (ctx_next_state_vars ctx)"
    and "ranges_apart (ctx_input_vars ctx) (ctx_and_vars ctx)"
    and "ranges_apart (ctx_state_vars ctx) (ctx_next_state_vars ctx)"
    and "ranges_apart (ctx_state_vars ctx) (ctx_and_vars ctx)"
    and "ranges_apart (ctx_next_state_vars ctx) (ctx_and_vars ctx)"
  using assms by (auto simp: ctx_ok_def ranges_apart_def range_ok_def)

lemma read_spread:
  assumes cok: "ctx_ok ctx" and "length s = length (aig_latches (ctx_aig ctx))"
    and "length i = length (aig_inputs (ctx_aig ctx))" and "length t = length (aig_latches (ctx_aig ctx))"
  shows "read (ctx_input_vars ctx) (spread ctx s i t w) = i"
    and "read (ctx_state_vars ctx) (spread ctx s i t w) = s"
    and "read (ctx_next_state_vars ctx) (spread ctx s i t w) = t"
    and "read (ctx_and_vars ctx) (spread ctx s i t w) = map (\<lambda>a. w (and_lhs a div 2)) (aig_ands (ctx_aig ctx))"
  using assms ctx_apart [OF cok]
  by (simp_all add: spread_def read_put_range_apart ranges_apart_commute ctx_ok_def)

lemma pulled_spread:
  assumes cok: "ctx_ok ctx" and ok: "types_ok (ctx_aig ctx)"
    and len: "length s = length (aig_latches (ctx_aig ctx))"
      "length i = length (aig_inputs (ctx_aig ctx))" "length t = length (aig_latches (ctx_aig ctx))"
    and w: "aig_valuation (ctx_aig ctx) s i w" and v: "defined_var (ctx_aig ctx) v"
  shows "pulled ctx (spread ctx s i t w) v = w v"
proof -
  let ?g = "ctx_aig ctx"
  note rd = read_spread [OF cok len]
  from v consider "ty_input (typed ?g v)" | "ty_latch (typed ?g v)" | "ty_and (typed ?g v)"
    by (auto simp: defined_var_def)
  then show ?thesis
  proof cases
    case 1
    then show ?thesis using pulled_leaves(1) [OF cok ok 1] leaf_value(1) [OF ok w 1] rd(1) by simp
  next
    case 2
    then show ?thesis using pulled_leaves(2) [OF cok ok 2] leaf_value(2) [OF ok w 2] rd(2) by simp
  next
    case 3
    then show ?thesis using pulled_leaves(3) [OF cok ok 3] rd(4) node_of(3) [OF ok 3] by simp
  qed
qed

lemma lit_spread:
  assumes "ctx_ok ctx" and "types_ok (ctx_aig ctx)"
    and "length s = length (aig_latches (ctx_aig ctx))"
      "length i = length (aig_inputs (ctx_aig ctx))" "length t = length (aig_latches (ctx_aig ctx))"
    and w: "aig_valuation (ctx_aig ctx) s i w" and l: "lit_defined (ctx_aig ctx) l"
  shows "lit_val (pulled ctx (spread ctx s i t w)) l = lit_val w l"
proof (rule lit_val_cong)
  show "pulled ctx (spread ctx s i t w) (l div 2) = w (l div 2)"
    using pulled_spread [OF assms(1-6)] lit_not_defined [OF l] w
    by (cases "defined_var (ctx_aig ctx) (l div 2)") (auto simp: aig_valuation_def)
qed

section \<open>The three formulas\<close>

lemma read_lengths:
  assumes "ctx_ok ctx"
  shows "length (read (ctx_state_vars ctx) \<sigma>) = length (aig_latches (ctx_aig ctx))"
    and "length (read (ctx_input_vars ctx) \<sigma>) = length (aig_inputs (ctx_aig ctx))"
    and "length (read (ctx_next_state_vars ctx) \<sigma>) = length (aig_latches (ctx_aig ctx))"
  using assms by (simp_all add: ctx_ok_def read_def)

lemma build_trans_steps:
  assumes cok: "ctx_ok ctx" and ok: "aig_ok (ctx_aig ctx)" and "build_trans d ctx = Some f"
  shows "(\<exists>\<sigma>. cnf_sat \<sigma> f \<and> read (ctx_state_vars ctx) \<sigma> = s \<and> read (ctx_input_vars ctx) \<sigma> = i \<and>
      read (ctx_next_state_vars ctx) \<sigma> = t) \<longleftrightarrow> aig_step (ctx_aig ctx) s i t" (is "?solver \<longleftrightarrow> _")
proof -
  let ?g = "ctx_aig ctx"
  obtain roots h where r: "{sym_next s |s. s \<in> set (aig_latches ?g) \<and> 2 \<le> sym_next s} \<subseteq> roots"
    and h: "subgraph_formula ctx (length (aig_ands ?g)) roots empty_cnf h"
    and f: "\<forall>\<sigma>. cnf_sat \<sigma> f \<longleftrightarrow> cnf_sat \<sigma> h \<and> read (ctx_next_state_vars ctx) \<sigma> =
            map (\<lambda>s. lit_val (pulled ctx \<sigma>) (sym_next s)) (aig_latches ?g)"
    using build_trans_runs [OF cok ok, of d] assms(3) by auto
  have t: "types_ok ?g" and cl: "\<And>l. l \<in> set (aig_latches ?g) \<Longrightarrow> lit_defined ?g (sym_next l)"
    using ok by (simp_all add: aig_ok_def aig_closed_def)
  show ?thesis
  proof
    assume ?solver
    then obtain \<sigma> where \<sigma>: "cnf_sat \<sigma> f" "read (ctx_state_vars ctx) \<sigma> = s"
      "read (ctx_input_vars ctx) \<sigma> = i" "read (ctx_next_state_vars ctx) \<sigma> = t" by blast
    obtain w where w: "aig_valuation ?g s i w" using valuation_exists [OF ok] by blast
    have "cnf_sat \<sigma> h" and nxt: "t = map (\<lambda>s. lit_val (pulled ctx \<sigma>) (sym_next s)) (aig_latches ?g)"
      using f \<sigma> by auto
    moreover have "lit_val (pulled ctx \<sigma>) (sym_next l) = lit_val w (sym_next l)"
      if l: "l \<in> set (aig_latches ?g)" for l
    proof (rule subgraph_sound [OF cok ok h \<open>cnf_sat \<sigma> h\<close> _ cl [OF l]])
      show "aig_valuation ?g (read (ctx_state_vars ctx) \<sigma>) (read (ctx_input_vars ctx) \<sigma>) w"
        using w \<sigma>(2,3) by simp
      show "sym_next l \<in> roots \<or> sym_next l < 2" using r l by (cases "2 \<le> sym_next l") auto
    qed
    ultimately have "t = map (\<lambda>l. lit_val w (sym_next l)) (aig_latches ?g)" by simp
    then show "aig_step ?g s i t"
      using w read_lengths [OF cok, of \<sigma>] \<sigma>(2,3) by (auto simp: aig_step_def)
  next
    assume "aig_step ?g s i t"
    then obtain w where w: "aig_valuation ?g s i w" "t = map (\<lambda>l. lit_val w (sym_next l)) (aig_latches ?g)"
      and len: "length s = length (aig_latches ?g)" "length i = length (aig_inputs ?g)"
      by (auto simp: aig_step_def)
    have len3: "length t = length (aig_latches ?g)" using w(2) by simp
    let ?\<sigma> = "spread ctx s i t w"
    note rd = read_spread [OF cok len len3, of w]
    have "map (\<lambda>l. lit_val (pulled ctx ?\<sigma>) (sym_next l)) (aig_latches ?g) = t"
      using lit_spread [OF cok t len len3 w(1) cl] w(2) by simp
    moreover have "cnf_sat ?\<sigma> h"
      by (rule subgraph_complete [OF ok h w(1) pulled_spread [OF cok t len len3 w(1)]])
    ultimately have "cnf_sat ?\<sigma> f" using f rd(3) by simp
    with rd show ?solver by blast
  qed
qed

lemma build_error_raises:
  assumes cok: "ctx_ok ctx" and ok: "aig_ok (ctx_aig ctx)"
    and one: "length (aig_outputs (ctx_aig ctx)) + length (aig_bad (ctx_aig ctx)) = 1"
    and "build_error d ctx = Some f"
  shows "(\<exists>\<sigma>. cnf_sat \<sigma> f \<and> read (ctx_state_vars ctx) \<sigma> = s \<and> read (ctx_input_vars ctx) \<sigma> = i) \<longleftrightarrow>
    aig_raises (ctx_aig ctx) s i" (is "?solver \<longleftrightarrow> _")
proof -
  let ?g = "ctx_aig ctx" and ?e = "aig_error_lit (ctx_aig ctx)"
  obtain roots h where r: "?e < 2 \<or> ?e \<in> roots"
    and h: "subgraph_formula ctx (length (aig_ands ?g)) roots empty_cnf h"
    and f: "\<forall>\<sigma>. cnf_sat \<sigma> f \<longleftrightarrow> (2 \<le> ?e \<longrightarrow> cnf_sat \<sigma> h) \<and> lit_val (pulled ctx \<sigma>) ?e"
    using build_error_runs [OF cok ok one, of d] assms(4) by auto
  have t: "types_ok ?g" using ok by (simp add: aig_ok_def)
  have "\<exists>x. x \<in> set (aig_outputs ?g @ aig_bad ?g) \<and> sym_lit x = ?e"
    using one by (cases "aig_outputs ?g @ aig_bad ?g") (auto simp: aig_error_lit_def)
  then have cl: "lit_defined ?g ?e" using ok unfolding aig_ok_def aig_closed_def by metis
  show ?thesis
  proof
    assume ?solver
    then obtain \<sigma> where \<sigma>: "cnf_sat \<sigma> f" "read (ctx_state_vars ctx) \<sigma> = s" "read (ctx_input_vars ctx) \<sigma> = i"
      by blast
    obtain w where w: "aig_valuation ?g s i w" using valuation_exists [OF ok] by blast
    have "lit_val (pulled ctx \<sigma>) ?e = lit_val w ?e"
    proof (cases "2 \<le> ?e")
      case True
      then have "cnf_sat \<sigma> h" using f \<sigma>(1) by blast
      show ?thesis
        by (rule subgraph_sound [OF cok ok h \<open>cnf_sat \<sigma> h\<close> _ cl]) (use w \<sigma>(2,3) r in auto)
    next
      case False
      then have "?e div 2 = 0" by simp
      then show ?thesis using w by (intro lit_val_cong) (simp add: aig_valuation_def)
    qed
    then have "lit_val w ?e" using f \<sigma>(1) by blast
    then show "aig_raises ?g s i"
      using w read_lengths [OF cok, of \<sigma>] \<sigma>(2,3) by (auto simp: aig_raises_def)
  next
    assume "aig_raises ?g s i"
    then obtain w where w: "aig_valuation ?g s i w" "lit_val w ?e"
      and len: "length s = length (aig_latches ?g)" "length i = length (aig_inputs ?g)"
      by (auto simp: aig_raises_def)
    let ?\<sigma> = "spread ctx s i s w"
    note rd = read_spread [OF cok len len(1), of w]
    have "lit_val (pulled ctx ?\<sigma>) ?e" using lit_spread [OF cok t len len(1) w(1) cl] w(2) by simp
    moreover have "cnf_sat ?\<sigma> h"
      by (rule subgraph_complete [OF ok h w(1) pulled_spread [OF cok t len len(1) w(1)]])
    ultimately show ?solver using f rd by blast
  qed
qed

section \<open>The system\<close>

definition system_of :: "aiger \<Rightarrow> transition_system \<Rightarrow> bool" where
  "system_of g sys \<longleftrightarrow>
     well_formed_system sys \<and> init_is_cube sys \<and> functional_system sys \<and>
     num_state_vars sys = length (aig_latches g) \<and> num_input_vars sys = length (aig_inputs g) \<and>
     (\<forall>s. init_state sys s \<longleftrightarrow> aig_init g s) \<and>
     (\<forall>s i t. trans_step sys s i t \<longleftrightarrow> aig_step g s i t) \<and>
     (\<forall>s i. error_state sys s i \<longleftrightarrow> aig_raises g s i)"

lemma build_from_context_runs:
  assumes cok: "ctx_ok ctx" and ok: "aig_ok (ctx_aig ctx)"
    and one: "length (aig_outputs (ctx_aig ctx)) + length (aig_bad (ctx_aig ctx)) = 1"
  shows "runs (build_from_context d ctx) (\<lambda>sys. system_of (ctx_aig ctx) sys \<and>
    input_vars sys = ctx_input_vars ctx \<and> state_vars sys = ctx_state_vars ctx \<and>
    next_state_vars sys = ctx_next_state_vars ctx \<and> aux_vars sys = ctx_and_vars ctx)"
proof -
  let ?g = "ctx_aig ctx"
  obtain tr where tr: "build_trans d ctx = Some tr" "formula_over (next_ranges ctx) tr"
    using build_trans_runs [OF cok ok, of d] by (cases "build_trans d ctx") auto
  obtain er where er: "build_error d ctx = Some er" "formula_over (gate_ranges ctx) er"
    using build_error_runs [OF cok ok one, of d] by (cases "build_error d ctx") auto
  define sys where "sys = \<lparr>input_vars = ctx_input_vars ctx, state_vars = ctx_state_vars ctx,
    next_state_vars = ctx_next_state_vars ctx, aux_vars = ctx_and_vars ctx,
    ts_init = build_init ctx, ts_trans = tr, ts_error = er\<rparr>"
  note ini = build_init_ok [OF cok]
  have sizes: "num_state_vars sys = length (aig_latches ?g)" "num_input_vars sys = length (aig_inputs ?g)"
    using cok by (simp_all add: sys_def num_state_vars_def num_input_vars_def ctx_ok_def)
  have wf: "well_formed_system sys"
    using cok ctx_apart [OF cok] ini(1) tr(2) er(2)
    by (simp add: well_formed_system_def sys_def ctx_ok_def next_ranges_def gate_ranges_def)
  have cube: "init_is_cube sys" using ini(2) by (simp add: init_is_cube_def sys_def)
  have init: "init_state sys s \<longleftrightarrow> aig_init ?g s" for s
  proof
    assume "aig_init ?g s"
    then have "aig_init ?g (read (ctx_state_vars ctx) (put_range (ctx_state_vars ctx) s (\<lambda>_. False)))"
      and "read (ctx_state_vars ctx) (put_range (ctx_state_vars ctx) s (\<lambda>_. False)) = s"
      using cok by (simp_all add: aig_init_def ctx_ok_def)
    then show "init_state sys s"
      unfolding init_state_def using ini(3)
      by (intro exI [of _ "put_range (ctx_state_vars ctx) s (\<lambda>_. False)"]) (simp add: sys_def)
  qed (use ini(3) in \<open>auto simp: init_state_def sys_def\<close>)
  have step: "trans_step sys s i t \<longleftrightarrow> aig_step ?g s i t" for s i t
    using build_trans_steps [OF cok ok tr(1), of s i t] by (simp add: trans_step_def sys_def)
  have err: "error_state sys s i \<longleftrightarrow> aig_raises ?g s i" for s i
    using build_error_raises [OF cok ok one er(1), of s i] by (simp add: error_state_def sys_def)
  have "functional_system sys"
    unfolding functional_system_def step sizes using aig_step_functional [OF ok] by blast
  with wf cube sizes init step err have "system_of ?g sys" unfolding system_of_def by blast
  moreover have "build_from_context d ctx = Some sys"
    by (simp add: build_from_context_def tr(1) er(1) sys_def)
  ultimately show ?thesis by (simp add: sys_def)
qed

section \<open>The context\<close>

lemma make_context_runs:
  assumes "0 \<le> get_next_id st" and pos: "0 < get_next_id st"
    and re: "aiger_is_reencoded d g = Some True"
    and one: "length (aig_outputs g) + length (aig_bad g) = 1"
    and none: "aig_fairness g = []" "aig_justice g = []" "aig_constraints g = []"
  shows "runs (make_context d st g) (\<lambda>(res, st'). \<exists>ctx. res = Inr ctx \<and> ctx_ok ctx \<and> ctx_aig ctx = g \<and>
    vr_begin (ctx_input_vars ctx) = get_next_id st \<and> vr_end (ctx_and_vars ctx) = get_next_id st')"
proof -
  obtain ins st1 where 1: "make_range st (int (length (aig_inputs g)))
      (\<lambda>i. symbol_to_string ''y'' i (aig_inputs g ! nat i)) = (ins, st1)" by (cases rule: prod.exhaust)
  obtain sts st2 where 2: "make_range st1 (int (length (aig_latches g)))
      (\<lambda>i. symbol_to_string ''x'' i (aig_latches g ! nat i)) = (sts, st2)" by (cases rule: prod.exhaust)
  obtain nxs st3 where 3: "make_range st2 (int (length (aig_latches g)))
      (\<lambda>i. symbol_to_string [CHR ''x'', CHR 0x27] i (aig_latches g ! nat i)) = (nxs, st3)"
    by (cases rule: prod.exhaust)
  obtain gts st4 where 4: "make_range st3 (int (length (aig_ands g)))
      (\<lambda>i. ''and['' @ int_to_string i @ '']'') = (gts, st4)" by (cases rule: prod.exhaust)
  note b = make_range_bounds [OF _ 1] make_range_bounds [OF _ 2] make_range_bounds [OF _ 3]
    make_range_bounds [OF _ 4]
  have "make_context d st g = Some (Inr \<lparr>ctx_aig = g, ctx_input_vars = ins, ctx_state_vars = sts,
      ctx_next_state_vars = nxs, ctx_and_vars = gts\<rparr>, st4)"
    using one none by (simp add: make_context_def re 1 2 3 4 [simplified])
  then show ?thesis using b pos by (simp add: ctx_ok_def range_ok_def vr_size_def)
qed

text \<open>Where the ranges of the system are: one after the other, between two identifiers.\<close>

definition placed :: "transition_system \<Rightarrow> int \<Rightarrow> int \<Rightarrow> bool" where
  "placed sys a b \<longleftrightarrow>
     a \<le> vr_begin (input_vars sys) \<and> vr_begin (input_vars sys) \<le> vr_end (input_vars sys) \<and>
     vr_end (input_vars sys) \<le> vr_begin (state_vars sys) \<and> vr_begin (state_vars sys) \<le> vr_end (state_vars sys) \<and>
     vr_end (state_vars sys) \<le> vr_begin (next_state_vars sys) \<and>
     vr_begin (next_state_vars sys) \<le> vr_end (next_state_vars sys) \<and>
     vr_end (next_state_vars sys) \<le> vr_begin (aux_vars sys) \<and> vr_begin (aux_vars sys) \<le> vr_end (aux_vars sys) \<and>
     vr_end (aux_vars sys) \<le> b"

lemma build_from_aiger_placed:
  assumes pos: "0 < get_next_id st" and "aig_ok g" and re: "aiger_is_reencoded d g = Some True"
    and one: "length (aig_outputs g) + length (aig_bad g) = 1"
    and none: "aig_fairness g = []" "aig_justice g = []" "aig_constraints g = []"
  shows "runs (build_from_aiger d st g) (\<lambda>(res, st'). \<exists>sys. res = Inr sys \<and> system_of g sys \<and>
    vr_begin (input_vars sys) = get_next_id st \<and> vr_end (aux_vars sys) = get_next_id st' \<and>
    placed sys (get_next_id st) (get_next_id st'))"
proof -
  obtain res st' where m: "make_context d st g = Some (res, st')"
    using make_context_runs [OF _ pos re one none] pos by (cases "make_context d st g") auto
  with make_context_runs [OF _ pos re one none] pos obtain ctx where
    ctx: "res = Inr ctx" "ctx_ok ctx" "ctx_aig ctx = g"
      "vr_begin (ctx_input_vars ctx) = get_next_id st" "vr_end (ctx_and_vars ctx) = get_next_id st'"
    by auto
  obtain sys where sys: "build_from_context d ctx = Some sys" "system_of g sys"
      "input_vars sys = ctx_input_vars ctx" "state_vars sys = ctx_state_vars ctx"
      "next_state_vars sys = ctx_next_state_vars ctx" "aux_vars sys = ctx_and_vars ctx"
    using build_from_context_runs [OF ctx(2), of d] assms(2) one ctx(3)
    by (cases "build_from_context d ctx") auto
  have "placed sys (get_next_id st) (get_next_id st')"
    using ctx(2,4,5) sys(3-6) by (simp add: placed_def ctx_ok_def range_ok_def)
  then show ?thesis using m ctx sys by (simp add: build_from_aiger_def)
qed

lemma build_from_aiger_runs:
  assumes "0 < get_next_id st" and "aig_ok g" and "aiger_is_reencoded d g = Some True"
    and "length (aig_outputs g) + length (aig_bad g) = 1"
    and "aig_fairness g = []" "aig_justice g = []" "aig_constraints g = []"
  shows "runs (build_from_aiger d st g) (\<lambda>(res, st'). \<exists>sys. res = Inr sys \<and> system_of g sys \<and>
    vr_begin (input_vars sys) = get_next_id st \<and> vr_end (aux_vars sys) = get_next_id st')"
  by (rule runs_mono [OF build_from_aiger_placed [OF assms]]) auto

end
