(* ===== verification/AigerReader.thy ===== *)
theory AigerReader
  imports AigerCheck Options "HOL-Library.Word"
begin

unbundle bit_operations_syntax

text \<open>
  Reading a graph: \<open>aiger_read_generic\<close> of \<^verbatim>\<open>dep/aiger/aiger.c\<close> and what it calls, for the ASCII and
  the binary format. The reader takes characters from \<open>rd_state\<close> (\<open>getc\<close>); \<open>None\<close> as a character
  is \<open>EOF\<close>. A function that returns an error string has also stored it in the graph, so a \<open>parse\<close>
  without a value means that the error of the graph is set. The outer \<open>None\<close> is a failed assertion,
  an access outside an array, a shift by more than 31 bits or a loop that does not end.
\<close>

section \<open>The reader\<close>

record aiger_reader =
  rd_state :: string
  rd_ch :: "char option"
  rd_lineno :: nat
  rd_charno :: nat
  rd_token_lineno :: nat
  rd_done_header :: bool
  rd_looks_like_aag :: bool
  rd_ascii :: bool
  rd_maxvar :: nat
  rd_inputs :: nat
  rd_latches :: nat
  rd_outputs :: nat
  rd_ands :: nat
  rd_bad :: nat
  rd_constraints :: nat
  rd_justice :: nat
  rd_fairness :: nat
  rd_buffer :: string

definition new_reader :: "string \<Rightarrow> aiger_reader" where
  "new_reader s = \<lparr>rd_state = s, rd_ch = Some CHR '' '', rd_lineno = 1, rd_charno = 0,
     rd_token_lineno = 0, rd_done_header = False, rd_looks_like_aag = False, rd_ascii = False,
     rd_maxvar = 0, rd_inputs = 0, rd_latches = 0, rd_outputs = 0, rd_ands = 0, rd_bad = 0,
     rd_constraints = 0, rd_justice = 0, rd_fairness = 0, rd_buffer = []\<rparr>"

text \<open>Arithmetic of \<open>unsigned\<close>.\<close>

definition u32 :: "nat \<Rightarrow> nat" where
  "u32 n = n mod 4294967296"

text \<open>\<open>isspace\<close> and \<open>isdigit\<close> of a character or \<open>EOF\<close>.\<close>

definition space_ch :: "char option \<Rightarrow> bool" where
  "space_ch ch = (case ch of None \<Rightarrow> False | Some c \<Rightarrow> is_space c)"

definition digit_ch :: "char option \<Rightarrow> bool" where
  "digit_ch ch = (case ch of None \<Rightarrow> False | Some c \<Rightarrow> is_digit c)"

definition line_feed :: char where
  "line_feed = CHR 0x0A"

definition aiger_next_ch :: "aiger_reader \<Rightarrow> aiger_reader" where
  "aiger_next_ch r =
     (let res = (case rd_state r of [] \<Rightarrow> None | c # _ \<Rightarrow> Some c);
          r = r\<lparr>rd_state := tl (rd_state r)\<rparr>;
          r = (if space_ch (rd_ch r) \<and> \<not> space_ch res then r\<lparr>rd_token_lineno := rd_lineno r\<rparr> else r);
          r = r\<lparr>rd_ch := res\<rparr>;
          r = (if rd_done_header r \<and> rd_looks_like_aag r \<and> \<not> space_ch res \<and> \<not> digit_ch res \<and> res \<noteq> None
               then r\<lparr>rd_looks_like_aag := False\<rparr> else r);
          r = (if res = Some line_feed then r\<lparr>rd_lineno := u32 (rd_lineno r + 1)\<rparr> else r)
      in if res \<noteq> None then r\<lparr>rd_charno := u32 (rd_charno r + 1)\<rparr> else r)"

text \<open>How much there is to read.\<close>

definition unread :: "aiger_reader \<Rightarrow> nat" where
  "unread r = length (rd_state r) + (if rd_ch r = None then 0 else 1)"

lemma next_ch_state [simp]: "rd_state (aiger_next_ch r) = tl (rd_state r)"
  by (simp add: aiger_next_ch_def Let_def)

lemma next_ch_ch [simp]: "rd_ch (aiger_next_ch r) = (case rd_state r of [] \<Rightarrow> None | c # _ \<Rightarrow> Some c)"
  by (simp add: aiger_next_ch_def Let_def)

lemma next_ch_unread: "rd_ch r \<noteq> None \<Longrightarrow> unread (aiger_next_ch r) < unread r"
  by (cases "rd_state r") (auto simp: unread_def)

lemma next_ch_digit: "digit_ch (rd_ch (aiger_next_ch r)) \<Longrightarrow> length (rd_state (aiger_next_ch r)) < length (rd_state r)"
  by (cases "rd_state r") (auto simp: digit_ch_def)

section \<open>Errors and chaining\<close>

type_synonym 'a parse = "('a option \<times> aiger_reader \<times> aiger) option"

definition parsed :: "'a \<Rightarrow> aiger_reader \<Rightarrow> aiger \<Rightarrow> 'a parse" where
  "parsed x r g = Some (Some x, r, g)"

definition and_then :: "'a parse \<Rightarrow> ('a \<Rightarrow> aiger_reader \<Rightarrow> aiger \<Rightarrow> 'b parse) \<Rightarrow> 'b parse" where
  "and_then m f =
     (case m of
        None \<Rightarrow> None
      | Some (None, r, g) \<Rightarrow> Some (None, r, g)
      | Some (Some x, r, g) \<Rightarrow> f x r g)"

lemma and_then_simps [simp]:
  "and_then None f = None" "and_then (Some (None, r, g)) f = Some (None, r, g)"
  "and_then (Some (Some x, r, g)) f = f x r g" "and_then (parsed x r g) f = f x r g"
  by (simp_all add: and_then_def parsed_def)

definition aiger_error_s :: "bool \<Rightarrow> aiger \<Rightarrow> string \<Rightarrow> string \<Rightarrow> string \<Rightarrow> aiger option" where
  "aiger_error_s d g before a after = do {
     assert_that d (aig_error g = None);
     Some (g\<lparr>aig_error := Some (before @ a @ after)\<rparr>) }"

definition aiger_error_us :: "bool \<Rightarrow> aiger \<Rightarrow> string \<Rightarrow> nat \<Rightarrow> string \<Rightarrow> string \<Rightarrow> aiger option" where
  "aiger_error_us d g before a between b = do {
     assert_that d (aig_error g = None);
     Some (g\<lparr>aig_error := Some (before @ nat_text a @ between @ b)\<rparr>) }"

definition aiger_error_usu ::
  "bool \<Rightarrow> aiger \<Rightarrow> string \<Rightarrow> nat \<Rightarrow> string \<Rightarrow> string \<Rightarrow> string \<Rightarrow> nat \<Rightarrow> string \<Rightarrow> aiger option" where
  "aiger_error_usu d g before a between t between2 b after = do {
     assert_that d (aig_error g = None);
     Some (g\<lparr>aig_error := Some (before @ nat_text a @ between @ t @ between2 @ nat_text b @ after)\<rparr>) }"

text \<open>Return the error of a graph.\<close>

definition failing :: "aiger_reader \<Rightarrow> aiger option \<Rightarrow> 'a parse" where
  "failing r e = (case e of None \<Rightarrow> None | Some g \<Rightarrow> Some (None, r, g))"

section \<open>Numbers\<close>

definition digit_of :: "char option \<Rightarrow> nat" where
  "digit_of ch = (case ch of None \<Rightarrow> 0 | Some c \<Rightarrow> of_char c - 48)"

function number_from :: "nat \<Rightarrow> aiger_reader \<Rightarrow> nat \<times> aiger_reader" where
  "number_from res r =
     (let r = aiger_next_ch r
      in if digit_ch (rd_ch r) then number_from (u32 (10 * res + digit_of (rd_ch r))) r else (res, r))"
  by pat_completeness auto
termination
  by (relation "measure (\<lambda>(res, r). length (rd_state r))") (use next_ch_digit in auto)

declare number_from.simps [simp del]

definition aiger_read_number :: "bool \<Rightarrow> aiger_reader \<Rightarrow> (nat \<times> aiger_reader) option" where
  "aiger_read_number d r = do {
     assert_that d (digit_ch (rd_ch r));
     Some (number_from (digit_of (rd_ch r)) r) }"

text \<open>\<open>expected\<close> is the character that has to follow, \<open>None\<close> for a space or a new line.\<close>

definition aiger_read_literal ::
  "bool \<Rightarrow> string \<Rightarrow> char option \<Rightarrow> aiger_reader \<Rightarrow> aiger \<Rightarrow> (nat \<times> char option) parse" where
  "aiger_read_literal d what expected r g =
     (if \<not> digit_ch (rd_ch r)
      then failing r (aiger_error_us d g ''line '' (rd_lineno r) '': expected '' what)
      else do {
        (res, r) \<leftarrow> aiger_read_number d r;
        if expected = Some CHR '' '' \<and> rd_ch r \<noteq> Some CHR '' ''
        then failing r (aiger_error_usu d g ''line '' (rd_token_lineno r) '': expected space after ''
               what '' '' res '''')
        else if expected = Some line_feed \<and> rd_ch r \<noteq> Some line_feed
        then failing r (aiger_error_usu d g ''line '' (rd_token_lineno r) '': expected new line after ''
               what '' '' res '''')
        else if expected = None \<and> rd_ch r \<noteq> Some line_feed \<and> rd_ch r \<noteq> Some CHR '' ''
        then failing r (aiger_error_usu d g ''line '' (rd_token_lineno r)
               '': expected space or new line after '' what '' '' res '''')
        else parsed (res, rd_ch r) (aiger_next_ch r) g })"

definition aiger_already_defined :: "bool \<Rightarrow> nat \<Rightarrow> aiger_reader \<Rightarrow> aiger \<Rightarrow> unit parse" where
  "aiger_already_defined d lit r g = do {
     assert_that d (lit \<noteq> 0);
     assert_that d (aiger_sign lit = 0);
     let var = aiger_lit2var lit;
     if aig_maxvar g < var then parsed () r g
     else do {
       t \<leftarrow> vec_at (aig_types g) var;
       if ty_input t
       then failing r (aiger_error_uu d g ''line '' (rd_token_lineno r) '': literal '' lit
              '' already defined as input'')
       else if ty_latch t
       then failing r (aiger_error_uu d g ''line '' (rd_token_lineno r) '': literal '' lit
              '' already defined as latch'')
       else if ty_and t
       then failing r (aiger_error_uu d g ''line '' (rd_token_lineno r) '': literal '' lit
              '' already defined as AND'')
       else parsed () r g } }"

definition not_valid :: "bool \<Rightarrow> nat \<Rightarrow> string \<Rightarrow> aiger_reader \<Rightarrow> aiger \<Rightarrow> 'a parse" where
  "not_valid d lit what r g =
     failing r (aiger_error_uu d g ''line '' (rd_token_lineno r) '': literal '' lit what)"

text \<open>A text between quotes.\<close>

definition quoted :: "string \<Rightarrow> string" where
  "quoted s = CHR 0x27 # s @ [CHR 0x27]"

section \<open>The header\<close>

text \<open>The counts of the first line; those of AIGER 1.9 are optional.\<close>

definition read_count ::
  "bool \<Rightarrow> string \<Rightarrow> char option \<Rightarrow> (nat \<Rightarrow> aiger_reader \<Rightarrow> aiger_reader) \<Rightarrow>
   aiger_reader \<Rightarrow> aiger \<Rightarrow> char option parse" where
  "read_count d what expected upd r g =
     and_then (aiger_read_literal d what expected r g) (\<lambda>(n, ch) r g. parsed ch (upd n r) g)"

definition read_optional ::
  "bool \<Rightarrow> string \<Rightarrow> char option \<Rightarrow> (nat \<Rightarrow> aiger_reader \<Rightarrow> aiger_reader) \<Rightarrow>
   char option \<Rightarrow> aiger_reader \<Rightarrow> aiger \<Rightarrow> char option parse" where
  "read_optional d what expected upd ch r g =
     (if ch = Some CHR '' '' then read_count d what expected upd r g else parsed ch r g)"

definition read_counts :: "bool \<Rightarrow> aiger_reader \<Rightarrow> aiger \<Rightarrow> unit parse" where
  "read_counts d r g =
     and_then (read_count d ''maximum variable index'' (Some CHR '' '') (\<lambda>n r. r\<lparr>rd_maxvar := n\<rparr>) r g) (\<lambda>ch r g.
     and_then (read_count d ''number of inputs'' (Some CHR '' '') (\<lambda>n r. r\<lparr>rd_inputs := n\<rparr>) r g) (\<lambda>ch r g.
     and_then (read_count d ''number latches'' (Some CHR '' '') (\<lambda>n r. r\<lparr>rd_latches := n\<rparr>) r g) (\<lambda>ch r g.
     and_then (read_count d ''number of outputs'' (Some CHR '' '') (\<lambda>n r. r\<lparr>rd_outputs := n\<rparr>) r g) (\<lambda>ch r g.
     and_then (read_count d ''number of and gates'' None (\<lambda>n r. r\<lparr>rd_ands := n\<rparr>) r g) (\<lambda>ch r g.
     and_then (read_optional d ''number of bad state constraints'' None (\<lambda>n r. r\<lparr>rd_bad := n\<rparr>) ch r g) (\<lambda>ch r g.
     and_then (read_optional d ''number of invariant constraints'' None (\<lambda>n r. r\<lparr>rd_constraints := n\<rparr>) ch r g) (\<lambda>ch r g.
     and_then (read_optional d ''number of justice constraints'' None (\<lambda>n r. r\<lparr>rd_justice := n\<rparr>) ch r g) (\<lambda>ch r g.
     and_then (read_optional d ''number of fairness constraints'' (Some line_feed) (\<lambda>n r. r\<lparr>rd_fairness := n\<rparr>) ch r g)
       (\<lambda>ch r g. parsed () r g)))))))))"

text \<open>\<open>FIT\<close> of the table of types.\<close>

definition fit_types :: "nat \<Rightarrow> aiger_type list \<Rightarrow> aiger_type list" where
  "fit_types n ts = (if length ts < n then ts @ replicate (n - length ts) zero_type else ts)"

text \<open>A literal that defines a node in the ASCII format.\<close>

definition check_new_literal :: "bool \<Rightarrow> string \<Rightarrow> nat \<Rightarrow> aiger_reader \<Rightarrow> aiger \<Rightarrow> unit parse" where
  "check_new_literal d what lit r g =
     (if lit = 0 \<or> aiger_sign lit \<noteq> 0 \<or> aig_maxvar g < aiger_lit2var lit
      then not_valid d lit what r g
      else aiger_already_defined d lit r g)"

text \<open>The loops: \<open>n\<close> more of them, the next one has index \<open>i\<close>.\<close>

fun read_inputs :: "bool \<Rightarrow> nat \<Rightarrow> nat \<Rightarrow> aiger_reader \<Rightarrow> aiger \<Rightarrow> unit parse" where
  "read_inputs d 0 i r g = parsed () r g"
| "read_inputs d (Suc n) i r g =
     and_then
       (if rd_ascii r
        then and_then (aiger_read_literal d ''input literal'' (Some line_feed) r g) (\<lambda>(lit, ch) r g.
             and_then (check_new_literal d '' is not a valid input'' lit r g) (\<lambda>u r g. parsed lit r g))
        else parsed (2 * (i + 1)) r g)
       (\<lambda>lit r g. do {
          g \<leftarrow> aiger_add_input d g lit None;
          read_inputs d n (i + 1) r g })"

fun read_latches :: "bool \<Rightarrow> nat \<Rightarrow> nat \<Rightarrow> aiger_reader \<Rightarrow> aiger \<Rightarrow> unit parse" where
  "read_latches d 0 i r g = parsed () r g"
| "read_latches d (Suc n) i r g =
     and_then
       (if rd_ascii r
        then and_then (aiger_read_literal d ''latch literal'' (Some CHR '' '') r g) (\<lambda>(lit, ch) r g.
             and_then (check_new_literal d '' is not a valid latch'' lit r g) (\<lambda>u r g. parsed lit r g))
        else parsed (2 * (i + rd_inputs r + 1)) r g)
       (\<lambda>lit r g.
     and_then (aiger_read_literal d ''next state literal'' None r g) (\<lambda>(nxt, ch) r g.
     if aig_maxvar g < aiger_lit2var nxt then not_valid d nxt '' is not a valid literal'' r g
     else do {
       g \<leftarrow> aiger_add_latch d g lit nxt None;
       and_then
         (if ch = Some CHR '' ''
          then and_then (aiger_read_literal d ''reset literal'' (Some line_feed) r g) (\<lambda>(reset, ch) r g. do {
                 g \<leftarrow> aiger_add_reset d g lit reset;
                 parsed () r g })
          else parsed () r g)
         (\<lambda>u r g. read_latches d n (i + 1) r g) }))"

text \<open>Outputs, bad states, constraints and fairness: the name, the complaint, and where to add.\<close>

fun read_symbols ::
  "bool \<Rightarrow> string \<Rightarrow> string \<Rightarrow> (aiger \<Rightarrow> nat \<Rightarrow> string option \<Rightarrow> aiger) \<Rightarrow> nat \<Rightarrow>
   aiger_reader \<Rightarrow> aiger \<Rightarrow> unit parse" where
  "read_symbols d what complaint add 0 r g = parsed () r g"
| "read_symbols d what complaint add (Suc n) r g =
     and_then (aiger_read_literal d what (Some line_feed) r g) (\<lambda>(lit, ch) r g.
     if aig_maxvar g < aiger_lit2var lit then not_valid d lit complaint r g
     else read_symbols d what complaint add n r (add g lit None))"

fun read_numbers :: "bool \<Rightarrow> string \<Rightarrow> nat \<Rightarrow> aiger_reader \<Rightarrow> aiger \<Rightarrow> nat list parse" where
  "read_numbers d what 0 r g = parsed [] r g"
| "read_numbers d what (Suc n) r g =
     and_then (aiger_read_literal d what (Some line_feed) r g) (\<lambda>(k, ch) r g.
     and_then (read_numbers d what n r g) (\<lambda>ks r g. parsed (k # ks) r g))"

fun read_justice :: "bool \<Rightarrow> nat list \<Rightarrow> aiger_reader \<Rightarrow> aiger \<Rightarrow> unit parse" where
  "read_justice d [] r g = parsed () r g"
| "read_justice d (k # sizes) r g =
     and_then (read_numbers d ''justice constraint literal'' k r g) (\<lambda>lits r g.
     read_justice d sizes r (aiger_add_justice g lits None))"

text \<open>\<open>a\<close>, the letter of the format, \<open>g\<close> and a space.\<close>

definition read_magic :: "bool \<Rightarrow> aiger_reader \<Rightarrow> aiger \<Rightarrow> unit parse" where
  "read_magic d r g =
     (let r = aiger_next_ch r
      in if rd_ch r \<noteq> Some CHR ''a''
         then failing r (aiger_error_u d g ''line '' (rd_lineno r) ('': expected '' @ quoted ''a'' @ '' as first character''))
         else let r = aiger_next_ch r
         in if rd_ch r \<noteq> Some CHR ''i'' \<and> rd_ch r \<noteq> Some CHR ''a''
            then failing r (aiger_error_u d g ''line '' (rd_lineno r) ('': expected '' @ quoted ''i'' @ '' or '' @ quoted ''a'' @ '' after '' @ quoted ''a''))
            else let r = r\<lparr>rd_ascii := (rd_ch r = Some CHR ''a'')\<rparr>; r = aiger_next_ch r
            in if rd_ch r \<noteq> Some CHR ''g''
               then failing r (aiger_error_u d g ''line '' (rd_lineno r) ('': expected '' @ quoted ''g'' @ '' after '' @ quoted ''a[ai]''))
               else let r = aiger_next_ch r
               in if rd_ch r \<noteq> Some CHR '' ''
                  then failing r (aiger_error_u d g ''line '' (rd_lineno r) ('': expected '' @ quoted '' '' @ '' after '' @ quoted ''a[ai]g''))
                  else parsed () (aiger_next_ch r) g)"

definition aiger_read_header :: "bool \<Rightarrow> aiger_reader \<Rightarrow> aiger \<Rightarrow> unit parse" where
  "aiger_read_header d r g =
     and_then (read_magic d r g) (\<lambda>u r g.
     and_then (read_counts d r g) (\<lambda>u r g.
     if \<not> rd_ascii r \<and> u32 (rd_inputs r + rd_latches r + rd_ands r) \<noteq> rd_maxvar r
     then failing r (aiger_error_u d g ''line '' (rd_lineno r) '': invalid maximal variable index'')
     else let g = g\<lparr>aig_maxvar := rd_maxvar r, aig_types := fit_types (u32 (rd_maxvar r + 1)) (aig_types g)\<rparr> in
     and_then (read_inputs d (rd_inputs r) 0 r g) (\<lambda>u r g.
     and_then (read_latches d (rd_latches r) 0 r g) (\<lambda>u r g.
     and_then (read_symbols d ''output literal'' '' is not a valid output'' aiger_add_output
       (rd_outputs r) r g) (\<lambda>u r g.
     and_then (read_symbols d ''bad state constraint literal'' '' is not valid bad'' aiger_add_bad
       (rd_bad r) r g) (\<lambda>u r g.
     and_then (read_symbols d ''invariant constraint literal'' '' is not a valid constraint'' aiger_add_constraint
       (rd_constraints r) r g) (\<lambda>u r g.
     and_then (read_numbers d ''justice constraint size'' (rd_justice r) r g) (\<lambda>sizes r g.
     and_then (read_justice d sizes r g) (\<lambda>u r g.
     and_then (read_symbols d ''fairness constraint literal'' '' is not valid fairness'' aiger_add_fairness
       (rd_fairness r) r g) (\<lambda>u r g.
     parsed () (r\<lparr>rd_done_header := True, rd_looks_like_aag := True\<rparr>) g))))))))))"

section \<open>The gates\<close>

fun read_ascii_gates :: "bool \<Rightarrow> nat \<Rightarrow> aiger_reader \<Rightarrow> aiger \<Rightarrow> unit parse" where
  "read_ascii_gates d 0 r g = parsed () r g"
| "read_ascii_gates d (Suc n) r g =
     and_then (aiger_read_literal d ''and gate left-hand side literal'' (Some CHR '' '') r g) (\<lambda>(lhs, ch) r g.
     and_then (check_new_literal d '' is not a valid LHS of AND'' lhs r g) (\<lambda>u r g.
     and_then (aiger_read_literal d ''and gate first right-hand side literal'' (Some CHR '' '') r g) (\<lambda>(rhs0, ch) r g.
     if aig_maxvar g < aiger_lit2var rhs0 then not_valid d rhs0 '' is not a valid literal'' r g
     else
     and_then (aiger_read_literal d ''and gate first right-hand side literal'' (Some line_feed) r g) (\<lambda>(rhs1, ch) r g.
     if aig_maxvar g < aiger_lit2var rhs1 then not_valid d rhs1 '' is not a valid literal'' r g
     else do {
       g \<leftarrow> aiger_add_and d g lhs rhs0 rhs1;
       read_ascii_gates d n r g }))))"

definition aiger_read_ascii :: "bool \<Rightarrow> aiger_reader \<Rightarrow> aiger \<Rightarrow> unit parse" where
  "aiger_read_ascii d r g = read_ascii_gates d (rd_ands r) r g"

text \<open>
  A number in groups of seven bits, the lowest first, bit 7 set in all bytes but the last. The loop
  stops after five bytes with bit 7; the last byte of a code of six is shifted by 35 bits, which
  is undefined.
\<close>

definition byte_of :: "char option \<Rightarrow> nat" where
  "byte_of ch = (case ch of None \<Rightarrow> 255 | Some c \<Rightarrow> of_char c)"

function delta_from :: "bool \<Rightarrow> nat \<Rightarrow> nat \<Rightarrow> nat \<Rightarrow> aiger_reader \<Rightarrow> aiger \<Rightarrow> nat parse" where
  "delta_from d i res charno r g =
     (let ch = byte_of (rd_ch r)
      in if ch AND 128 \<noteq> 0 then
           if 5 \<le> i then failing r (aiger_error_u d g ''character '' charno '': invalid code'')
           else let res = res OR u32 ((ch AND 127) * 2 ^ (7 * i)); r = aiger_next_ch r
           in if rd_ch r = None
              then failing r (aiger_error_u d g ''character '' (rd_charno r) '': unexpected end of file'')
              else delta_from d (i + 1) res charno r g
         else if i = 5 \<and> 8 \<le> ch then failing r (aiger_error_u d g ''character '' charno '': invalid code'')
         else if i = 5 then None
         else parsed (res OR u32 (ch * 2 ^ (7 * i))) (aiger_next_ch r) g)"
  by pat_completeness auto
termination
  by (relation "measure (\<lambda>(d, i, res, charno, r, g). 5 - i)") auto

declare delta_from.simps [simp del]

definition aiger_read_delta :: "bool \<Rightarrow> aiger_reader \<Rightarrow> aiger \<Rightarrow> nat parse" where
  "aiger_read_delta d r g =
     (if rd_ch r = None
      then failing r (aiger_error_u d g ''character '' (rd_charno r) '': unexpected end of file'')
      else delta_from d 0 0 (rd_charno r) r g)"

fun read_binary_gates :: "bool \<Rightarrow> nat \<Rightarrow> nat \<Rightarrow> aiger_reader \<Rightarrow> aiger \<Rightarrow> unit parse" where
  "read_binary_gates d 0 lhs r g = parsed () r g"
| "read_binary_gates d (Suc n) lhs r g =
     (let lhs = u32 (lhs + 2); charno = rd_charno r in
     and_then (aiger_read_delta d r g) (\<lambda>delta r g.
     if lhs < delta then failing r (aiger_error_u d g ''character '' charno '': invalid delta'')
     else let rhs0 = lhs - delta; charno = rd_charno r in
     and_then (aiger_read_delta d r g) (\<lambda>delta r g.
     if rhs0 < delta then failing r (aiger_error_u d g ''character '' charno '': invalid delta'')
     else do {
       g \<leftarrow> aiger_add_and d g lhs rhs0 (rhs0 - delta);
       read_binary_gates d n lhs r g })))"

definition aiger_read_binary :: "bool \<Rightarrow> aiger_reader \<Rightarrow> aiger \<Rightarrow> unit parse" where
  "aiger_read_binary d r g = do {
     lhs \<leftarrow> aiger_max_input_or_latch d g;
     read_binary_gates d (rd_ands r) lhs r g }"

section \<open>Symbols and comments\<close>

definition aiger_reader_push_ch :: "aiger_reader \<Rightarrow> char option \<Rightarrow> aiger_reader" where
  "aiger_reader_push_ch r ch = (case ch of None \<Rightarrow> r | Some c \<Rightarrow> r\<lparr>rd_buffer := rd_buffer r @ [c]\<rparr>)"

text \<open>A buffer as a string: up to the first \<open>0\<close>.\<close>

definition c_string :: "string \<Rightarrow> string" where
  "c_string s = takeWhile (\<lambda>c. c \<noteq> CHR 0x00) s"

text \<open>Push characters until a new line or \<open>EOF\<close>.\<close>

function push_line :: "aiger_reader \<Rightarrow> aiger_reader" where
  "push_line r =
     (if rd_ch r = Some line_feed \<or> rd_ch r = None then r
      else push_line (aiger_next_ch (aiger_reader_push_ch r (rd_ch r))))"
  by pat_completeness auto

lemma push_ch_sel [simp]:
  "rd_state (aiger_reader_push_ch r ch) = rd_state r" "rd_ch (aiger_reader_push_ch r ch) = rd_ch r"
  by (simp_all add: aiger_reader_push_ch_def split: option.split)

termination push_line
  by (relation "measure unread")
    (auto simp: unread_def split: list.split)

declare push_line.simps [simp del]

text \<open>An empty comment is a null pointer, in the middle of the array.\<close>

definition aiger_add_comment :: "bool \<Rightarrow> aiger \<Rightarrow> string \<Rightarrow> aiger option" where
  "aiger_add_comment d g comment = do {
     assert_that d (aig_error g = None);
     assert_that d (line_feed \<notin> set comment);
     assert_that d (aig_comments g \<noteq> []);
     p \<leftarrow> vec_at (aig_comments g) (length (aig_comments g) - 1);
     assert_that d (p = None);
     comments \<leftarrow> vec_set (aig_comments g) (length (aig_comments g) - 1) (aiger_copy_str (Some comment));
     Some (g\<lparr>aig_comments := comments @ [None]\<rparr>) }"

lemma add_comment_runs:
  "aig_error g = None \<Longrightarrow> line_feed \<notin> set c \<Longrightarrow> aig_comments g = cs @ [None] \<Longrightarrow>
   aiger_add_comment d g c = Some (g\<lparr>aig_comments := cs @ [aiger_copy_str (Some c), None]\<rparr>)"
  by (simp add: aiger_add_comment_def vec_at_def vec_set_def assert_that_holds)

partial_function (option) comments_from ::
  "bool \<Rightarrow> aiger_reader \<Rightarrow> aiger \<Rightarrow> (unit option \<times> aiger_reader \<times> aiger) option" where
  "comments_from d r g =
     (if rd_ch r = None then Some (Some (), r, g)
      else do {
        let r = push_line r;
        if rd_ch r = None
        then failing r (aiger_error_u d g ''line '' (rd_lineno r) '': new line after comment missing'')
        else do {
          let r = aiger_next_ch r;
          g \<leftarrow> aiger_add_comment d g (c_string (rd_buffer r));
          comments_from d (r\<lparr>rd_buffer := []\<rparr>) g } })"

definition aiger_read_comments :: "bool \<Rightarrow> aiger_reader \<Rightarrow> aiger \<Rightarrow> unit parse" where
  "aiger_read_comments d r g = do {
     assert_that d (rd_ch r = Some line_feed);
     comments_from d (aiger_next_ch r) g }"

text \<open>What the letter of a symbol entry stands for: its name, the array and its update.\<close>

definition symbol_kind ::
  "char option \<Rightarrow>
   (string \<times> (aiger \<Rightarrow> aiger_symbol list) \<times> ((aiger_symbol list \<Rightarrow> aiger_symbol list) \<Rightarrow> aiger \<Rightarrow> aiger)) option" where
  "symbol_kind ch =
     (if ch = Some CHR ''i'' then Some (''input'', aig_inputs, aig_inputs_update)
      else if ch = Some CHR ''l'' then Some (''latch'', aig_latches, aig_latches_update)
      else if ch = Some CHR ''o'' then Some (''output'', aig_outputs, aig_outputs_update)
      else if ch = Some CHR ''b'' then Some (''bad'', aig_bad, aig_bad_update)
      else if ch = Some CHR ''c'' then Some (''constraint'', aig_constraints, aig_constraints_update)
      else if ch = Some CHR ''j'' then Some (''justice'', aig_justice, aig_justice_update)
      else if ch = Some CHR ''f'' then Some (''fairness'', aig_fairness, aig_fairness_update)
      else None)"

text \<open>The rest of one symbol entry, after its letter.\<close>

definition read_symbol ::
  "bool \<Rightarrow> string \<Rightarrow> (aiger \<Rightarrow> aiger_symbol list) \<Rightarrow>
   ((aiger_symbol list \<Rightarrow> aiger_symbol list) \<Rightarrow> aiger \<Rightarrow> aiger) \<Rightarrow> aiger_reader \<Rightarrow> aiger \<Rightarrow> unit parse" where
  "read_symbol d type_name sel upd r g =
     and_then (aiger_read_literal d type_name (Some CHR '' '') r g) (\<lambda>(pos, ch) r g.
     if length (sel g) \<le> pos
     then failing r (aiger_error_usu d g ''line '' (rd_token_lineno r) '': '' type_name
            '' symbol table entry position '' pos '' too large'')
     else do {
       s \<leftarrow> vec_at (sel g) pos;
       if sym_name s \<noteq> None
       then failing r (aiger_error_usu d g ''line '' (rd_token_lineno r) '': '' type_name '' literal ''
              (sym_lit s) '' has multiple symbols'')
       else do {
         let r = push_line r;
         if rd_ch r = None
         then failing r (aiger_error_u d g ''line '' (rd_lineno r) '': new line missing'')
         else do {
           let r = aiger_next_ch r;
           let name = aiger_copy_str (Some (c_string (rd_buffer r)));
           parsed () (r\<lparr>rd_buffer := []\<rparr>) (upd (\<lambda>ss. ss[pos := s\<lparr>sym_name := name\<rparr>]) g) } } })"

partial_function (option) symbols_from ::
  "bool \<Rightarrow> aiger_reader \<Rightarrow> aiger \<Rightarrow> (unit option \<times> aiger_reader \<times> aiger) option" where
  "symbols_from d r g =
     (if rd_ch r = None then Some (Some (), r, g)
      else case symbol_kind (rd_ch r) of
        None \<Rightarrow>
          failing r
            (if rd_looks_like_aag r
             then aiger_error_u d g ''line '' (rd_lineno r)
                    ('': corrupted symbol table ('' @ quoted ''aig'' @ '' instead of '' @ quoted ''aag'' @ '' header?)'')
             else aiger_error_u d g ''line '' (rd_lineno r) ('': expected '' @ quoted ''[cilobcjf]'' @ '' or EOF''))
      | Some (type_name, sel, upd) \<Rightarrow> do {
          let r' = aiger_next_ch r;
          if rd_ch r = Some CHR ''c'' \<and> rd_ch r' = Some line_feed then aiger_read_comments d r' g
          else if rd_ch r = Some CHR ''c'' \<and> aig_constraints g = []
          then failing r' (aiger_error_u d g ''line '' (rd_token_lineno r')
                 ('': unexpected invariance constraint symbol entry prefix '' @ quoted ''c '' @
                  '' (comment sections start with '' @ quoted ''c<new-line>'' @ '' without space)''))
          else do {
            (v, r, g) \<leftarrow> read_symbol d type_name sel upd r' g;
            if v = None then Some (None, r, g) else symbols_from d r g } })"

definition aiger_read_symbols_and_comments :: "bool \<Rightarrow> aiger_reader \<Rightarrow> aiger \<Rightarrow> unit parse" where
  "aiger_read_symbols_and_comments d r g = symbols_from d r g"

section \<open>Reading a file\<close>

definition aiger_read_generic :: "bool \<Rightarrow> aiger \<Rightarrow> string \<Rightarrow> aiger option" where
  "aiger_read_generic d g content = do {
     assert_that d (aig_error g = None);
     (v, r, g) \<leftarrow>
       and_then (aiger_read_header d (new_reader content) g) (\<lambda>u r g.
       and_then (if rd_ascii r then aiger_read_ascii d r g else aiger_read_binary d r g) (\<lambda>u r g.
       aiger_read_symbols_and_comments d r g));
     if v = None then Some g else aiger_check d g }"

text \<open>
  Reading from a string: the characters up to the \<open>0\<close> at its end. They are returned as a signed \<open>char\<close>, so
  \<open>0xff\<close> is \<open>EOF\<close> too; no function of the reader asks for another character after \<open>EOF\<close>.
\<close>

definition aiger_string_get :: "string \<Rightarrow> char option \<times> string" where
  "aiger_string_get str =
     (case str of
        [] \<Rightarrow> (None, [])
      | c # rest \<Rightarrow> if c = CHR 0x00 then (None, str) else (if c = CHR 0xFF then None else Some c, rest))"

fun string_get_all :: "nat \<Rightarrow> string \<Rightarrow> string" where
  "string_get_all 0 str = []"
| "string_get_all (Suc n) str =
     (case aiger_string_get str of (None, str) \<Rightarrow> [] | (Some c, str) \<Rightarrow> c # string_get_all n str)"

definition aiger_read_from_string :: "bool \<Rightarrow> aiger \<Rightarrow> string \<Rightarrow> aiger option" where
  "aiger_read_from_string d g str = do {
     assert_that d (aig_error g = None);
     aiger_read_generic d g (string_get_all (length str) str) }"

definition aiger_has_suffix :: "string \<Rightarrow> string \<Rightarrow> bool" where
  "aiger_has_suffix str suffix =
     (if length str < length suffix then False
      else drop (length str - length suffix) str = suffix)"

text \<open>
  What the program takes from its environment: what a file contains and what the shell prints for a
  command, \<open>None\<close> when it cannot be opened or started. \<open>size_cmd\<close> is a \<open>char\<close>: when the length of
  the command exceeds 127 it is negative and the buffer allocated is not of that size.
\<close>

record surroundings =
  file_content :: "string \<Rightarrow> string option"
  command_output :: "string \<Rightarrow> string option"

definition gunzip_command :: "string \<Rightarrow> string" where
  "gunzip_command file_name = ''gunzip -c '' @ file_name @ '' 2>/dev/null''"

definition aiger_open_and_read_from_file :: "bool \<Rightarrow> surroundings \<Rightarrow> aiger \<Rightarrow> string \<Rightarrow> aiger option" where
  "aiger_open_and_read_from_file d io g file_name = do {
     assert_that d (aig_error g = None);
     content \<leftarrow>
       (if aiger_has_suffix file_name ''.gz''
        then if 127 < length file_name + length ''gunzip -c %s 2>/dev/null'' then None
             else Some (command_output io (gunzip_command file_name))
        else Some (file_content io file_name));
     (case content of
        None \<Rightarrow> aiger_error_s d g ''can not read '' (quoted file_name) ''''
      | Some s \<Rightarrow> aiger_read_generic d g s) }"

end
