(* ===== verification/AigerSound.thy ===== *)
theory AigerSound
  imports AigerMeaning AigerReader
begin

text \<open>
  What the reader accepts is well formed. In a build with assertions every function that adds a
  node keeps the table of types, or the program aborts; so whatever the file contains, the graph of
  a reader that returns without an error has consistent tables (\<open>aiger_read_generic\<close> up to its check).
  The check then leaves the graph as it is, except for marks, and succeeds only when every literal in
  use is defined and no gate is its own child. A maximal variable of \<open>2 ^ 32 - 1\<close> is excluded: for
  it the table of types is empty.
\<close>

section \<open>Parsers that keep a property\<close>

text \<open>\<open>yields P m\<close>: with a value, \<open>m\<close> returns a graph with \<open>P\<close>; without, one whose error is set.\<close>

definition yields :: "(aiger \<Rightarrow> bool) \<Rightarrow> 'a parse \<Rightarrow> bool" where
  "yields P m \<longleftrightarrow> (\<forall>v r g. m = Some (v, r, g) \<longrightarrow> (if v = None then aig_error g \<noteq> None else P g))"

definition fails :: "aiger option \<Rightarrow> bool" where
  "fails e \<longleftrightarrow> (\<forall>g. e = Some g \<longrightarrow> aig_error g \<noteq> None)"

lemma fails_errors [simp]:
  "fails (aiger_error_u d g a u b)" "fails (aiger_error_uu d g a u b w c)" "fails (aiger_error_s d g a s b)"
  "fails (aiger_error_us d g a u b s)" "fails (aiger_error_usu d g a u b s c w e)"
  by (auto simp: fails_def aiger_error_u_def aiger_error_uu_def aiger_error_s_def aiger_error_us_def
      aiger_error_usu_def bind_eq_Some_conv)

lemma yields_failing [simp]: "fails e \<Longrightarrow> yields P (failing r e)"
  by (auto simp: yields_def failing_def fails_def split: option.splits)

lemma yields_parsed [simp]: "yields P (parsed x r g) = P g"
  by (simp add: yields_def parsed_def)

lemma yields_None [simp]: "yields P None"
  by (simp add: yields_def)

lemma yields_Some [simp]: "yields P (Some (v, r, g)) = (if v = None then aig_error g \<noteq> None else P g)"
  by (auto simp: yields_def)

lemma yields_and_then:
  "yields P m \<Longrightarrow> (\<And>x r g. P g \<Longrightarrow> yields Q (f x r g)) \<Longrightarrow> yields Q (and_then m f)"
  by (cases m) (auto simp: and_then_def split: option.splits prod.splits)

lemma yields_bind: "(\<And>x. m = Some x \<Longrightarrow> yields P (k x)) \<Longrightarrow> yields P (Option.bind m k)"
  by (cases m) auto

lemma yields_if: "(b \<Longrightarrow> yields P m) \<Longrightarrow> (\<not> b \<Longrightarrow> yields P n) \<Longrightarrow> yields P (if b then m else n)"
  by simp

lemma yields_mono: "yields P m \<Longrightarrow> (\<And>g. P g \<Longrightarrow> Q g) \<Longrightarrow> yields Q m"
  by (auto simp: yields_def split: if_splits)

lemma yields_not_valid [simp]: "yields P (not_valid d lit what r g)"
  by (simp add: not_valid_def)

section \<open>Reading numbers keeps the graph\<close>

lemma yields_literal: "P g \<Longrightarrow> yields P (aiger_read_literal d what expected r g)"
  unfolding aiger_read_literal_def by (intro yields_if yields_bind) (auto split: prod.split intro!: yields_if)

lemma yields_delta: "P g \<Longrightarrow> yields P (delta_from d i res charno r g)"
proof (induction d i res charno r g rule: delta_from.induct)
  case (1 d i res charno r g)
  then show ?case
    by (subst delta_from.simps) (auto simp: Let_def intro!: yields_if)
qed

lemma yields_read_delta: "P g \<Longrightarrow> yields P (aiger_read_delta d r g)"
  by (simp add: aiger_read_delta_def yields_delta)

lemma yields_count: "P g \<Longrightarrow> yields P (read_count d what expected upd r g)"
  unfolding read_count_def by (rule yields_and_then [where P = P]) (auto intro: yields_literal)

lemma yields_optional: "P g \<Longrightarrow> yields P (read_optional d what expected upd ch r g)"
  by (simp add: read_optional_def yields_count)

lemma yields_counts: "P g \<Longrightarrow> yields P (read_counts d r g)"
  unfolding read_counts_def
  by (intro yields_and_then [where P = P] yields_count yields_optional) (auto intro: yields_count yields_optional)

lemma yields_magic: "P g \<Longrightarrow> yields P (read_magic d r g)"
  by (simp add: read_magic_def Let_def)

lemma yields_defined: "P g \<Longrightarrow> yields P (aiger_already_defined d lit r g)"
  by (auto simp: aiger_already_defined_def Let_def intro!: yields_bind yields_if)

lemma yields_new_literal: "P g \<Longrightarrow> yields P (check_new_literal d what lit r g)"
  by (simp add: check_new_literal_def yields_defined)

lemma yields_numbers: "P g \<Longrightarrow> yields P (read_numbers d what n r g)"
proof (induction n arbitrary: r g)
  case (Suc n)
  show ?case
    unfolding read_numbers.simps
  proof (rule yields_and_then [where P = P, OF yields_literal], rule Suc.prems, clarify)
    fix k ch r g assume "P g"
    then show "yields P (and_then (read_numbers d what n r g) (\<lambda>ks r g. parsed (k # ks) r g))"
      by (intro yields_and_then [OF Suc.IH]) simp_all
  qed
qed simp

section \<open>Adding nodes keeps the table\<close>

definition unmarked :: "aiger \<Rightarrow> bool" where
  "unmarked g \<longleftrightarrow> (\<forall>v. \<not> ty_mark (typed g v) \<and> \<not> ty_onstack (typed g v))"

definition good :: "aiger \<Rightarrow> bool" where
  "good g \<longleftrightarrow> aig_error g = None \<and>
     (aig_maxvar g < 4294967295 \<longrightarrow> types_ok g \<and> unmarked g \<and> (\<forall>s \<in> set (aig_latches g). reset_ok s))"

lemma good_import: "good g \<Longrightarrow> good (aiger_import_literal g lit)"
  using import_bounds(3) [of g lit] by (auto simp: good_def types_ok_import unmarked_def)

lemma unmarked_update:
  assumes "unmarked g" and "v < length (aig_types g)" and "\<not> ty_mark t" "\<not> ty_onstack t" and "aig_types h = (aig_types g)[v := t]"
  shows "unmarked h"
  using assms by (simp add: unmarked_def typed_def type_at_update)

text \<open>The beginning that the three functions share, in a build with assertions.\<close>

lemma added_node:
  assumes "aig_maxvar h = aig_maxvar (aiger_import_literal g lit)" and "good g"
    and "lit \<noteq> 0" and "aiger_sign lit = 0"
    and t: "vec_at (aig_types (aiger_import_literal g lit)) (aiger_lit2var lit) = Some t"
    and "\<not> ty_input t" "\<not> ty_latch t" "\<not> ty_and t"
    and "aig_maxvar h < 4294967295"
  shows "types_ok g" and "\<forall>s \<in> set (aig_latches g). reset_ok s" and "unmarked g" and "fresh_node g lit" and "\<not> ty_mark t" and "\<not> ty_onstack t"
proof -
  have "aig_maxvar g < 4294967295" using assms(1,9) import_bounds(3) [of g lit] by simp
  then show g: "types_ok g" "\<forall>s \<in> set (aig_latches g). reset_ok s" "unmarked g"
    using assms(2) by (simp_all add: good_def)
  have l: "1 < lit" "lit mod 2 = 0" "aiger_lit2var lit = lit div 2"
    using assms(3,4) by (auto simp: aiger_sign_def aiger_lit2var_def)
  have ty: "typed g (lit div 2) = t"
    using t import_bounds(1) [of lit g] typed_import [of g lit] l(3)
    by (metis option.inject type_at_def typed_def vec_at_def)
  then show "fresh_node g lit" using l assms(6-8) by (simp add: fresh_node_def defined_var_def)
  show "\<not> ty_mark t" "\<not> ty_onstack t" using g(3) ty by (auto simp: unmarked_def)
qed

lemma add_input_good:
  assumes "good g" and r: "aiger_add_input True g lit name = Some h"
  shows "good h"
proof -
  let ?g = "aiger_import_literal g lit"
  have lt: "aiger_lit2var lit < length (aig_types ?g)" by (rule import_bounds)
  obtain t where t: "lit \<noteq> 0" "aiger_sign lit = 0" "vec_at (aig_types ?g) (aiger_lit2var lit) = Some t"
    "\<not> ty_input t" "\<not> ty_latch t" "\<not> ty_and t"
    "h = ?g\<lparr>aig_types := (aig_types ?g)[aiger_lit2var lit := t\<lparr>ty_input := True, ty_idx := length (aig_inputs g)\<rparr>],
      aig_inputs := aig_inputs g @ [zero_symbol\<lparr>sym_lit := lit, sym_name := aiger_copy_str name\<rparr>]\<rparr>"
    using r lt by (auto simp: aiger_add_input_def set_type_def assert_that_def Let_def bind_eq_Some_conv vec_set_def
        split: if_splits)
  have e: "aig_error g = None" "aig_maxvar h = aig_maxvar ?g" "aig_error h = None"
    using assms(1) t(7) by (simp_all add: good_def)
  have "types_ok h \<and> unmarked h \<and> (\<forall>s \<in> set (aig_latches h). reset_ok s)" if m: "aig_maxvar h < 4294967295"
  proof -
    note a = added_node [OF e(2) assms(1) t(1-6) m]
    have "types_ok h" using add_input_runs [OF a(1) e(1) a(4), of True name] r by simp
    moreover have "unmarked h"
      by (rule unmarked_update [OF _ lt, where t = "t\<lparr>ty_input := True, ty_idx := length (aig_inputs g)\<rparr>"])
        (use a t(7) in \<open>simp_all add: unmarked_def\<close>)
    moreover have "\<forall>s \<in> set (aig_latches h). reset_ok s" using a(2) t(7) by simp
    ultimately show ?thesis by blast
  qed
  then show ?thesis using e(3) by (simp add: good_def)
qed

lemma add_latch_good:
  assumes "good g" and r: "aiger_add_latch True g lit nxt name = Some h"
  shows "good h"
proof -
  let ?g = "aiger_import_literal g lit"
  let ?s = "zero_symbol\<lparr>sym_lit := lit, sym_next := nxt, sym_name := aiger_copy_str name\<rparr>"
  have lt: "aiger_lit2var lit < length (aig_types ?g)" by (rule import_bounds)
  obtain t where t: "lit \<noteq> 0" "aiger_sign lit = 0" "vec_at (aig_types ?g) (aiger_lit2var lit) = Some t"
    "\<not> ty_input t" "\<not> ty_latch t" "\<not> ty_and t"
    "h = (let g' = aiger_import_literal
        (?g\<lparr>aig_types := (aig_types ?g)[aiger_lit2var lit := t\<lparr>ty_latch := True, ty_idx := length (aig_latches g)\<rparr>]\<rparr>) nxt
      in g'\<lparr>aig_latches := aig_latches g @ [?s]\<rparr>)"
    using r lt by (auto simp: aiger_add_latch_def set_type_def assert_that_def Let_def bind_eq_Some_conv vec_set_def
        split: if_splits)
  define g1 where "g1 = ?g\<lparr>aig_types := (aig_types ?g)[aiger_lit2var lit := t\<lparr>ty_latch := True, ty_idx := length (aig_latches g)\<rparr>]\<rparr>"
  have h: "h = (aiger_import_literal g1 nxt)\<lparr>aig_latches := aig_latches g @ [?s]\<rparr>"
    using t(7) by (simp add: g1_def Let_def)
  have e: "aig_error g = None" "aig_error h = None" using assms(1) h by (simp_all add: good_def g1_def)
  have mx: "aig_maxvar (aiger_import_literal g lit) \<le> aig_maxvar h"
    using import_bounds(3) [of g1 nxt] h by (simp add: g1_def)
  have "types_ok h \<and> unmarked h \<and> (\<forall>s \<in> set (aig_latches h). reset_ok s)" if m: "aig_maxvar h < 4294967295"
  proof -
    note a = added_node [OF refl assms(1) t(1-6) le_less_trans [OF mx m]]
    have "types_ok h" using add_latch_runs [OF a(1) e(1) a(4), of True nxt name] r by simp
    moreover have "unmarked g1"
      by (rule unmarked_update [OF _ lt, where t = "t\<lparr>ty_latch := True, ty_idx := length (aig_latches g)\<rparr>"])
        (use a in \<open>simp_all add: unmarked_def g1_def\<close>)
    then have "unmarked h" using typed_import [of g1 nxt] by (simp add: unmarked_def h typed_def)
    moreover have "\<forall>s \<in> set (aig_latches h). reset_ok s"
      using a(2) by (simp add: h reset_ok_def zero_symbol_def)
    ultimately show ?thesis by blast
  qed
  then show ?thesis using e(2) by (simp add: good_def)
qed

lemma add_and_good:
  assumes "good g" and r: "aiger_add_and True g lhs rhs0 rhs1 = Some h"
  shows "good h"
proof -
  let ?g = "aiger_import_literal g lhs"
  let ?a = "\<lparr>and_lhs = lhs, and_rhs0 = rhs0, and_rhs1 = rhs1\<rparr>"
  have lt: "aiger_lit2var lhs < length (aig_types ?g)" by (rule import_bounds)
  obtain t where t: "lhs \<noteq> 0" "aiger_sign lhs = 0" "vec_at (aig_types ?g) (aiger_lit2var lhs) = Some t"
    "\<not> ty_input t" "\<not> ty_latch t" "\<not> ty_and t"
    "h = (let g' = aiger_import_literal (aiger_import_literal
        (?g\<lparr>aig_types := (aig_types ?g)[aiger_lit2var lhs := t\<lparr>ty_and := True, ty_idx := length (aig_ands g)\<rparr>]\<rparr>) rhs0) rhs1
      in g'\<lparr>aig_ands := aig_ands g @ [?a]\<rparr>)"
    using r lt by (auto simp: aiger_add_and_def set_type_def assert_that_def Let_def bind_eq_Some_conv vec_set_def
        split: if_splits)
  define g1 where "g1 = ?g\<lparr>aig_types := (aig_types ?g)[aiger_lit2var lhs := t\<lparr>ty_and := True, ty_idx := length (aig_ands g)\<rparr>]\<rparr>"
  define g2 where "g2 = aiger_import_literal g1 rhs0"
  have h: "h = (aiger_import_literal g2 rhs1)\<lparr>aig_ands := aig_ands g @ [?a]\<rparr>"
    using t(7) by (simp add: g1_def g2_def Let_def)
  have e: "aig_error g = None" "aig_error h = None" using assms(1) h by (simp_all add: good_def g1_def g2_def)
  have mx: "aig_maxvar ?g \<le> aig_maxvar h"
    using import_bounds(3) [of g1 rhs0] import_bounds(3) [of g2 rhs1] h by (simp add: g1_def g2_def)
  have "types_ok h \<and> unmarked h \<and> (\<forall>s \<in> set (aig_latches h). reset_ok s)" if m: "aig_maxvar h < 4294967295"
  proof -
    note a = added_node [OF refl assms(1) t(1-6) le_less_trans [OF mx m]]
    have "types_ok h" using add_and_runs [OF a(1) e(1) a(4), of True rhs0 rhs1] r by simp
    moreover have "unmarked g1"
      by (rule unmarked_update [OF _ lt, where t = "t\<lparr>ty_and := True, ty_idx := length (aig_ands g)\<rparr>"])
        (use a in \<open>simp_all add: unmarked_def g1_def\<close>)
    then have "unmarked h" using typed_import [of g2 rhs1] typed_import [of g1 rhs0]
      by (simp add: unmarked_def h typed_def g2_def)
    moreover have "\<forall>s \<in> set (aig_latches h). reset_ok s" using a(2) by (simp add: h g1_def g2_def)
    ultimately show ?thesis by blast
  qed
  then show ?thesis using e(2) by (simp add: good_def)
qed

text \<open>Changes that the table does not speak of.\<close>

lemma good_same:
  assumes "good g" and "aig_error h = aig_error g" and "aig_maxvar h = aig_maxvar g" and "aig_types h = aig_types g"
    and "map sym_lit (aig_inputs h) = map sym_lit (aig_inputs g)"
    and "map sym_lit (aig_latches h) = map sym_lit (aig_latches g)"
    and "types_ok g \<Longrightarrow> \<forall>s \<in> set (aig_latches g). reset_ok s \<Longrightarrow> \<forall>s \<in> set (aig_latches h). reset_ok s" and "aig_ands h = aig_ands g"
  shows "good h"
  using assms by (simp add: good_def types_ok_def unmarked_def typed_def defined_var_def)

lemma add_reset_good: "good g \<Longrightarrow> aiger_add_reset True g lit reset = Some h \<Longrightarrow> good h"
proof -
  assume g: "good g" and r: "aiger_add_reset True g lit reset = Some h"
  let ?g = "aiger_import_literal g lit"
  have lt: "aiger_lit2var lit < length (aig_types ?g)" by (rule import_bounds)
  define k where "k = ty_idx (aig_types ?g ! aiger_lit2var lit)"
  have k: "k < length (aig_latches ?g)" "ty_latch (typed ?g (lit div 2))" "typed ?g (lit div 2) = aig_types ?g ! aiger_lit2var lit"
    "reset \<le> 1 \<or> reset = lit" "lit mod 2 = 0"
    "h = ?g\<lparr>aig_latches := (aig_latches ?g)[k := (aig_latches ?g ! k)\<lparr>sym_reset := reset\<rparr>]\<rparr>"
    using r lt by (auto simp: aiger_add_reset_def assert_that_def Let_def bind_eq_Some_conv vec_set_def vec_at_def k_def
        typed_def type_at_def aiger_lit2var_def aiger_sign_def split: if_splits)
  have lits: "map sym_lit (aig_latches h) = map sym_lit (aig_latches ?g)"
    using k(1,6) by (simp add: map_update list_update_same_conv)
  have resets: "\<forall>s \<in> set (aig_latches h). reset_ok s"
    if ok: "types_ok ?g" and old: "\<forall>s \<in> set (aig_latches ?g). reset_ok s"
  proof -
    have "sym_lit (aig_latches ?g ! k) = lit" using node_of(2) [OF ok k(2)] k(3,5) mult_div_mod_eq [of 2 lit] by (simp add: k_def)
    then have "reset_ok ((aig_latches ?g ! k)\<lparr>sym_reset := reset\<rparr>)" using k(4) by (auto simp: reset_ok_def)
    then show ?thesis using old by (auto simp: k(6) dest!: set_update_subset_insert [THEN subsetD])
  qed
  show "good h" by (rule good_same [OF good_import [OF g]]) (use lits resets in \<open>simp_all add: k(6)\<close>)
qed

lemma add_symbol_good:
  assumes "good g"
  shows "good (aiger_add_output g lit name)" and "good (aiger_add_bad g lit name)"
    and "good (aiger_add_constraint g lit name)" and "good (aiger_add_fairness g lit name)"
  by (rule good_same [OF good_import [OF assms, of lit]];
      simp add: aiger_add_output_def aiger_add_bad_def aiger_add_constraint_def aiger_add_fairness_def Let_def)+

lemma add_justice_good: "good g \<Longrightarrow> good (aiger_add_justice g lits name)"
proof -
  assume "good g"
  then have g: "good (foldl aiger_import_literal g lits)"
    by (induction lits arbitrary: g) (simp_all add: good_import)
  show ?thesis by (rule good_same [OF g]) (simp_all add: aiger_add_justice_def Let_def)
qed

section \<open>The reader keeps the table\<close>

lemma read_inputs_good: "good g \<Longrightarrow> yields good (read_inputs True n i r g)"
proof (induction n arbitrary: i r g)
  case (Suc n)
  have lit: "yields good (if rd_ascii r
        then and_then (aiger_read_literal True ''input literal'' (Some line_feed) r g) (\<lambda>(lit, ch) r g.
             and_then (check_new_literal True '' is not a valid input'' lit r g) (\<lambda>u r g. parsed lit r g))
        else parsed (2 * (i + 1)) r g)"
    by (rule yields_if)
      (auto intro!: yields_and_then [where P = good] yields_literal yields_new_literal Suc.prems simp: Suc.prems)
  show ?case
    unfolding read_inputs.simps
    by (rule yields_and_then [OF lit], rule yields_bind, rule Suc.IH, rule add_input_good)
qed simp

lemma read_latches_good: "good g \<Longrightarrow> yields good (read_latches True n i r g)"
proof (induction n arbitrary: i r g)
  case (Suc n)
  have lit: "yields good (if rd_ascii r
        then and_then (aiger_read_literal True ''latch literal'' (Some CHR '' '') r g) (\<lambda>(lit, ch) r g.
             and_then (check_new_literal True '' is not a valid latch'' lit r g) (\<lambda>u r g. parsed lit r g))
        else parsed (2 * (i + rd_inputs r + 1)) r g)"
    by (rule yields_if)
      (auto intro!: yields_and_then [where P = good] yields_literal yields_new_literal Suc.prems simp: Suc.prems)
  have reset: "yields good (if ch = Some CHR '' ''
      then and_then (aiger_read_literal True ''reset literal'' (Some line_feed) r g) (\<lambda>(reset, ch) r g. do {
             g \<leftarrow> aiger_add_reset True g lit reset;
             parsed () r g })
      else parsed () r g)" if "good g" for ch lit r g
    using that
    by (auto intro!: yields_and_then [where P = good] yields_literal yields_bind dest: add_reset_good)
  show ?case
    unfolding read_latches.simps
  proof (rule yields_and_then [OF lit], rule yields_and_then [where P = good, OF yields_literal], assumption, clarify, rule yields_if)
    fix lit r nxt ch r' g assume g: "good g"
    show "yields good (do {
       g \<leftarrow> aiger_add_latch True g lit nxt None;
       and_then
         (if ch = Some CHR '' ''
          then and_then (aiger_read_literal True ''reset literal'' (Some line_feed) r' g) (\<lambda>(reset, ch) r g. do {
                 g \<leftarrow> aiger_add_reset True g lit reset;
                 parsed () r g })
          else parsed () r' g)
         (\<lambda>u r g. read_latches True n (i + 1) r g) })"
      by (rule yields_bind, rule yields_and_then [where P = good, OF reset], rule add_latch_good [OF g], assumption, rule Suc.IH)
  qed simp
qed simp

lemma read_symbols_good:
  "(\<And>g lit. good g \<Longrightarrow> good (add g lit None)) \<Longrightarrow> good g \<Longrightarrow> yields good (read_symbols True what complaint add n r g)"
proof (induction n arbitrary: r g)
  case (Suc n)
  show ?case
    unfolding read_symbols.simps
    by (rule yields_and_then [where P = good, OF yields_literal], rule Suc.prems(2), clarify, rule yields_if, simp,
        rule Suc.IH, rule Suc.prems(1), assumption, rule Suc.prems(1))
qed simp

lemma read_justice_good: "good g \<Longrightarrow> yields good (read_justice True sizes r g)"
proof (induction sizes arbitrary: r g)
  case (Cons k sizes)
  show ?case
    unfolding read_justice.simps
    by (rule yields_and_then [where P = good, OF yields_numbers], rule Cons.prems, rule Cons.IH, rule add_justice_good)
qed simp

lemma header_good:
  assumes "g = aiger_init"
  shows "good (g\<lparr>aig_maxvar := m, aig_types := fit_types (u32 (m + 1)) (aig_types g)\<rparr>)"
proof -
  let ?h = "g\<lparr>aig_maxvar := m, aig_types := fit_types (u32 (m + 1)) (aig_types g)\<rparr>"
  have ts: "aig_types ?h = replicate (u32 (m + 1)) zero_type" by (simp add: fit_types_def assms aiger_init_def)
  then have ty: "typed ?h v = zero_type" for v by (simp add: typed_def type_at_def del: replicate.simps)
  have z: "\<not> ty_input zero_type" "\<not> ty_latch zero_type" "\<not> ty_and zero_type" "\<not> ty_mark zero_type" "\<not> ty_onstack zero_type"
    by (simp_all add: zero_type_def)
  have nodes: "aig_inputs ?h = []" "aig_latches ?h = []" "aig_ands ?h = []" "aig_error ?h = None"
    by (simp_all add: assms aiger_init_def)
  have tab: "table_ok f (typed ?h) []" if "\<not> f zero_type" for f
    using that unfolding table_ok_def ty by simp
  have "types_ok ?h \<and> unmarked ?h \<and> (\<forall>s \<in> set (aig_latches ?h). reset_ok s)" if "m < 4294967295"
  proof -
    have "aig_maxvar ?h < length (aig_types ?h)"
      unfolding ts using that by (simp add: u32_def del: replicate.simps)
    then show ?thesis
      using tab [of ty_input, OF z(1)] tab [of ty_latch, OF z(2)] tab [of ty_and, OF z(3)] z
      unfolding types_ok_def unmarked_def defined_var_def ty nodes by simp
  qed
  then show ?thesis using nodes(4) by (simp add: good_def)
qed

lemma read_header_good: "yields good (aiger_read_header True r aiger_init)"
  unfolding aiger_read_header_def
proof (rule yields_and_then [OF yields_magic [where P = "\<lambda>g. g = aiger_init"]], rule refl,
    rule yields_and_then [OF yields_counts [where P = "\<lambda>g. g = aiger_init"]], assumption, rule yields_if, simp)
  fix u u' :: unit and r r' :: aiger_reader and g assume g: "g = aiger_init"
  have h: "good (g\<lparr>aig_maxvar := rd_maxvar r', aig_types := fit_types (u32 (rd_maxvar r' + 1)) (aig_types g)\<rparr>)"
    by (rule header_good) (rule g)
  show "yields good (let g = g\<lparr>aig_maxvar := rd_maxvar r', aig_types := fit_types (u32 (rd_maxvar r' + 1)) (aig_types g)\<rparr> in
     and_then (read_inputs True (rd_inputs r') 0 r' g) (\<lambda>u r g.
     and_then (read_latches True (rd_latches r) 0 r g) (\<lambda>u r g.
     and_then (read_symbols True ''output literal'' '' is not a valid output'' aiger_add_output
       (rd_outputs r) r g) (\<lambda>u r g.
     and_then (read_symbols True ''bad state constraint literal'' '' is not valid bad'' aiger_add_bad
       (rd_bad r) r g) (\<lambda>u r g.
     and_then (read_symbols True ''invariant constraint literal'' '' is not a valid constraint'' aiger_add_constraint
       (rd_constraints r) r g) (\<lambda>u r g.
     and_then (read_numbers True ''justice constraint size'' (rd_justice r) r g) (\<lambda>sizes r g.
     and_then (read_justice True sizes r g) (\<lambda>u r g.
     and_then (read_symbols True ''fairness constraint literal'' '' is not valid fairness'' aiger_add_fairness
       (rd_fairness r) r g) (\<lambda>u r g.
     parsed () (r\<lparr>rd_done_header := True, rd_looks_like_aag := True\<rparr>) g)))))))))"
    unfolding Let_def
    by (intro yields_and_then [where P = good] read_inputs_good read_latches_good read_symbols_good yields_numbers
        read_justice_good add_symbol_good h) simp_all
qed

lemma read_ascii_good: "good g \<Longrightarrow> yields good (read_ascii_gates True n r g)"
proof (induction n arbitrary: r g)
  case (Suc n)
  show ?case
    unfolding read_ascii_gates.simps
    by (rule yields_and_then [where P = good, OF yields_literal], rule Suc.prems, clarify,
        rule yields_and_then [where P = good, OF yields_new_literal], assumption,
        rule yields_and_then [where P = good, OF yields_literal], assumption, clarify, rule yields_if, simp,
        rule yields_and_then [where P = good, OF yields_literal], assumption, clarify, rule yields_if, simp,
        rule yields_bind, rule Suc.IH, rule add_and_good)
qed simp

lemma read_binary_good: "good g \<Longrightarrow> yields good (read_binary_gates True n lhs r g)"
proof (induction n arbitrary: lhs r g)
  case (Suc n)
  show ?case
    unfolding read_binary_gates.simps Let_def
    by (rule yields_and_then [where P = good, OF yields_read_delta], rule Suc.prems, rule yields_if, simp,
        rule yields_and_then [where P = good, OF yields_read_delta], assumption, rule yields_if, simp,
        rule yields_bind, rule Suc.IH, rule add_and_good)
qed simp

lemma add_comment_good: "good g \<Longrightarrow> aiger_add_comment d g c = Some h \<Longrightarrow> good h"
  by (auto simp: aiger_add_comment_def bind_eq_Some_conv intro: good_same)

lemma comments_good: "comments_from d r g = Some y \<Longrightarrow> good g \<longrightarrow> yields good (Some y)"
proof (induction d r g y rule: comments_from.raw_induct [rotated, consumes 1, case_names step])
  case 1: (step rec d r g y)
  have "yields good (if rd_ch r = None then Some (Some (), r, g)
      else do {
        let r = push_line r;
        if rd_ch r = None
        then failing r (aiger_error_u d g ''line '' (rd_lineno r) '': new line after comment missing'')
        else do {
          let r = aiger_next_ch r;
          g \<leftarrow> aiger_add_comment d g (c_string (rd_buffer r));
          rec d (r\<lparr>rd_buffer := []\<rparr>) g } })" if g: "good g"
  proof -
    have "yields good (rec d r h)" if "good h" for r h
  proof (cases "rec d r h")
    case (Some y)
    show ?thesis using 1(1) [OF Some] that unfolding Some by blast
  qed simp
    then show ?thesis
      unfolding Let_def by (intro yields_if yields_bind) (use g add_comment_good [OF g] in auto)
  qed
  then show ?case using 1(2) by simp
qed

lemma yields_read_comments: "good g \<Longrightarrow> yields good (aiger_read_comments d r g)"
  unfolding aiger_read_comments_def
  by (rule yields_bind) (use comments_good in \<open>force simp: yields_def\<close>)

lemma rename_good:
  assumes "symbol_kind ch = Some (nm, sel, upd)" and "good g" and "vec_at (sel g) pos = Some s"
  shows "good (upd (\<lambda>ss. ss[pos := s\<lparr>sym_name := name\<rparr>]) g)"
proof -
  have p: "pos < length (sel g)" "s = sel g ! pos" using assms(3) by (auto simp: vec_at_def split: if_splits)
  have "map sym_lit ((sel g)[pos := s\<lparr>sym_name := name\<rparr>]) = map sym_lit (sel g)"
    using p by (simp add: map_update list_update_same_conv)
  moreover have "\<forall>t \<in> set ((sel g)[pos := s\<lparr>sym_name := name\<rparr>]). reset_ok t" if "\<forall>t \<in> set (sel g). reset_ok t"
  proof -
    have "reset_ok s" using that p by simp
    then have "reset_ok (s\<lparr>sym_name := name\<rparr>)" by (simp add: reset_ok_def)
    then show ?thesis using that by (auto dest!: set_update_subset_insert [THEN subsetD])
  qed
  ultimately show ?thesis
    using assms(1,2) by (auto simp: symbol_kind_def split: if_splits intro!: good_same [OF assms(2)])
qed

lemma read_symbol_good:
  assumes "symbol_kind ch = Some (nm, sel, upd)" and "good g"
  shows "yields good (read_symbol d nm sel upd r g)"
  unfolding read_symbol_def
  by (rule yields_and_then [where P = good, OF yields_literal], rule assms(2), clarify, rule yields_if, simp,
      rule yields_bind, rule yields_if, simp, unfold Let_def, rule yields_if, simp)
    (use rename_good [OF assms(1)] in auto)

lemma symbols_good: "symbols_from d r g = Some y \<Longrightarrow> good g \<longrightarrow> yields good (Some y)"
proof (induction d r g y rule: symbols_from.raw_induct [rotated, consumes 1, case_names step])
  case 1: (step rec d r g y)
  have rec: "yields good (rec d r h)" if "good h" for r h
  proof (cases "rec d r h")
    case (Some y)
    show ?thesis using 1(1) [OF Some] that unfolding Some by blast
  qed simp
  have step: "yields good (do {
      (v, r, g) \<leftarrow> read_symbol d nm sel upd r' g;
      if v = None then Some (None, r, g) else rec d r g })"
    if "symbol_kind (rd_ch r) = Some (nm, sel, upd)" "good g" for nm sel upd r'
    using read_symbol_good [OF that, of d r'] rec
    by (cases "read_symbol d nm sel upd r' g") (auto split: option.splits if_splits)
  show ?case
  proof
    assume g: "good g"
    show "yields good (Some y)"
      unfolding 1(2) [symmetric] Let_def
      using step yields_read_comments [OF g] g
      by (auto split: option.split prod.split intro!: yields_if)
  qed
qed

lemma reader_yields_good: "yields good (and_then (aiger_read_header True (new_reader content) aiger_init) (\<lambda>u r g.
       and_then (if rd_ascii r then aiger_read_ascii True r g else aiger_read_binary True r g) (\<lambda>u r g.
       aiger_read_symbols_and_comments True r g)))"
proof (rule yields_and_then [OF read_header_good])
  fix u :: unit and r g assume g: "good g"
  have "yields good (if rd_ascii r then aiger_read_ascii True r g else aiger_read_binary True r g)"
    using g by (auto simp: aiger_read_ascii_def aiger_read_binary_def read_ascii_good read_binary_good intro!: yields_bind)
  then show "yields good (and_then (if rd_ascii r then aiger_read_ascii True r g else aiger_read_binary True r g)
      (\<lambda>u r g. aiger_read_symbols_and_comments True r g))"
  proof (rule yields_and_then)
    fix u :: unit and r g assume "good g"
    then show "yields good (aiger_read_symbols_and_comments True r g)"
      using symbols_good [of True r g] unfolding aiger_read_symbols_and_comments_def
      by (cases "symbols_from True r g") auto
  qed
qed

end
