(* ===== verification/AigerAccept.thy ===== *)
theory AigerAccept
  imports AigerSound
begin

text \<open>
  What the check of the AIGER library ensures. The checks of the literals return the graph itself and
  succeed only when every literal in use is defined. The search for cycles is a depth first search
  with an explicit stack: its invariant says that the finished gates, in the order they were finished,
  use only finished gates and variables that are no gates, and that everything an open gate uses is
  finished, above it on the stack, or open above it. So when it succeeds no gate depends on itself.
\<close>

section \<open>The checks of the literals\<close>

lemma vec_typed: "vec_at (aig_types g) v = Some t \<longleftrightarrow> v < length (aig_types g) \<and> t = typed g v"
  by (auto simp: vec_at_def typed_def type_at_def)

lemma literal_defined_sound:
  "aiger_literal_defined d g lit = Some True \<Longrightarrow> lit_defined g lit"
  by (auto simp: aiger_literal_defined_def lit_defined_def defined_var_def vec_typed aiger_lit2var_def
      assert_that_def bind_eq_Some_conv split: if_splits)

text \<open>An error, once set, stays; a check that succeeds was not in error before.\<close>

lemma check_error:
  assumes "aig_error h = None"
  shows "check_next d g ss = Some h \<Longrightarrow> aig_error g = None" and "check_lits d what g ls = Some h \<Longrightarrow> aig_error g = None"
    and "check_ands d g as = Some h \<Longrightarrow> aig_error g = None" and "check_cycles d g vs = Some h \<Longrightarrow> aig_error g = None"
    and "aiger_check_right_hand_side_defined d g a rhs = Some h \<Longrightarrow> aig_error g = None"
  using assms by ((cases "aig_error g"; cases ss; simp), (cases "aig_error g"; cases ls; simp),
      (cases "aig_error g"; cases as; simp), (cases "aig_error g"; cases vs; simp),
      (cases "aig_error g"; simp add: aiger_check_right_hand_side_defined_def))

lemma error_else:
  assumes "aig_error h = None"
  shows "(if \<not> b then aiger_error_u d g x u y else Some g) = Some h \<longleftrightarrow> b \<and> h = g"
    and "(if \<not> b then aiger_error_uu d g x u y w z else Some g) = Some h \<longleftrightarrow> b \<and> h = g"
  using assms by (auto simp: aiger_error_u_def aiger_error_uu_def bind_eq_Some_conv)

lemma check_next_sound:
  "check_next d g ss = Some h \<Longrightarrow> aig_error h = None \<Longrightarrow> h = g \<and> (\<forall>s \<in> set ss. lit_defined g (sym_next s))"
proof (induction ss arbitrary: g)
  case (Cons s ss)
  then obtain b g1 where b: "aiger_literal_defined d g (sym_next s) = Some b"
    "(if \<not> b then aiger_error_uu d g ''next state function '' (sym_next s) '' of latch '' (sym_lit s) '' undefined''
      else Some g) = Some g1" "check_next d g1 ss = Some h"
    using check_error(1) [OF Cons(3,2)] by (auto simp: bind_eq_Some_conv)
  have "b \<and> g1 = g" using b(2) error_else(2) [OF check_error(1) [OF Cons(3) b(3)]] by simp
  then show ?case using Cons.IH [OF b(3) Cons(3)] b(1) literal_defined_sound by auto
qed simp

lemma check_lits_sound:
  "check_lits d what g ls = Some h \<Longrightarrow> aig_error h = None \<Longrightarrow> h = g \<and> (\<forall>l \<in> set ls. lit_defined g l)"
proof (induction ls arbitrary: g)
  case (Cons l ls)
  have strip: "lit_defined g (aiger_strip l) = lit_defined g l" "aiger_strip l \<le> 1 \<Longrightarrow> lit_defined g l"
    by (auto simp: lit_defined_def aiger_strip_def minus_mod_eq_mult_div) presburger
  note e = check_error(2) [OF Cons(3,2)]
  show ?case
  proof (cases "aiger_strip l \<le> 1")
    case True
    then show ?thesis using Cons.IH [of g] Cons(2,3) e strip(2) by simp
  next
    case False
    then obtain b g1 where b: "aiger_literal_defined d g (aiger_strip l) = Some b"
      "(if \<not> b then aiger_error_u d g what (aiger_strip l) '' undefined'' else Some g) = Some g1"
      "check_lits d what g1 ls = Some h"
      using Cons(2) e by (auto simp: bind_eq_Some_conv)
    have "b \<and> g1 = g" using b(2) error_else(1) [OF check_error(2) [OF Cons(3) b(3)]] by simp
    then show ?thesis using Cons.IH [OF b(3) Cons(3)] b(1) literal_defined_sound strip(1) by auto
  qed
qed simp

lemma check_rhs_sound:
  assumes r: "aiger_check_right_hand_side_defined d g a rhs = Some h" and e: "aig_error h = None"
  shows "h = g \<and> lit_defined g rhs"
proof -
  obtain b where b: "aiger_literal_defined d g rhs = Some b"
    "(if \<not> b then aiger_error_uu d g ''literal '' rhs '' in AND '' (and_lhs a) '' undefined'' else Some g) = Some h"
    using r check_error(5) [OF e r] by (auto simp: aiger_check_right_hand_side_defined_def bind_eq_Some_conv)
  then show ?thesis using error_else(2) [OF e] literal_defined_sound by auto
qed

lemma check_ands_sound:
  "check_ands d g as = Some h \<Longrightarrow> aig_error h = None \<Longrightarrow>
    h = g \<and> (\<forall>a \<in> set as. lit_defined g (and_rhs0 a) \<and> lit_defined g (and_rhs1 a))"
proof (induction as arbitrary: g)
  case (Cons a as)
  then obtain g1 g2 where g: "aiger_check_right_hand_side_defined d g a (and_rhs0 a) = Some g1"
    "aiger_check_right_hand_side_defined d g1 a (and_rhs1 a) = Some g2" "check_ands d g2 as = Some h"
    using check_error(3) [OF Cons(3,2)] by (auto simp: bind_eq_Some_conv)
  note s2 = check_rhs_sound [OF g(2) check_error(3) [OF Cons(3) g(3)]]
  note s1 = check_rhs_sound [OF g(1) check_error(5) [OF check_error(3) [OF Cons(3) g(3)] g(2)]]
  show ?case using Cons.IH [OF g(3) Cons(3)] s1 s2 by auto
qed simp

section \<open>The search for cycles\<close>

text \<open>The stack read as items: a variable to visit, or the mark of a gate whose children are above it.\<close>

datatype item = Pending nat | Marker nat

primrec flat_item :: "item \<Rightarrow> nat list" where
  "flat_item (Pending v) = [v]"
| "flat_item (Marker v) = [0, v]"

definition flat :: "item list \<Rightarrow> nat list" where
  "flat items = concat (map flat_item items)"

definition markers :: "item list \<Rightarrow> nat list" where
  "markers items = concat (map (case_item (\<lambda>v. []) (\<lambda>v. [v])) items)"

definition push_item :: "nat \<Rightarrow> item list \<Rightarrow> item list" where
  "push_item v items = (if v \<noteq> 0 then Pending v # items else items)"

lemma flat_simps [simp]:
  "flat [] = []" "flat (Pending v # items) = v # flat items" "flat (Marker v # items) = 0 # v # flat items"
  "flat (push_item v items) = push_var v (flat items)"
  by (simp_all add: flat_def push_item_def push_var_def)

lemma markers_simps [simp]:
  "markers [] = []" "markers (Pending v # items) = markers items" "markers (Marker v # items) = v # markers items"
  "markers (push_item v items) = markers items"
  by (simp_all add: markers_def push_item_def)

text \<open>A list in which every node comes after (to the left of) its children, up to the nodes of \<open>N\<close>.\<close>

primrec topological :: "(nat \<Rightarrow> nat set) \<Rightarrow> nat set \<Rightarrow> nat list \<Rightarrow> bool" where
  "topological ch N [] = True"
| "topological ch N (k # L) = (ch k \<subseteq> N \<union> set L \<and> k \<notin> set L \<and> topological ch N L)"

text \<open>What is left to do: \<open>S\<close> are the nodes that are finished or above on the stack.\<close>

primrec pending_ok :: "(nat \<Rightarrow> nat set) \<Rightarrow> nat set \<Rightarrow> item list \<Rightarrow> bool" where
  "pending_ok ch S [] = True"
| "pending_ok ch S (i # items) =
     (case i of Pending v \<Rightarrow> v \<noteq> 0 \<and> pending_ok ch (insert v S) items
      | Marker v \<Rightarrow> ch v \<subseteq> S \<and> pending_ok ch (insert v S) items)"

lemma pending_ok_mono: "pending_ok ch S items \<Longrightarrow> S \<subseteq> T \<Longrightarrow> pending_ok ch T items"
  by (induction items arbitrary: S T) (auto split: item.splits, (meson insert_mono)+)

lemma pending_push [simp]: "0 \<in> S \<Longrightarrow> pending_ok ch S (push_item v items) = pending_ok ch (insert v S) items"
  by (simp add: push_item_def insert_absorb)

text \<open>\<open>N\<close>: the variables that are no gates; finished and open gates; \<open>L\<close>: the order of finishing.\<close>

definition search_ok ::
  "(nat \<Rightarrow> nat set) \<Rightarrow> nat set \<Rightarrow> nat set \<Rightarrow> nat set \<Rightarrow> item list \<Rightarrow> nat list \<Rightarrow> bool" where
  "search_ok ch N fin opn items L \<longleftrightarrow>
     0 \<in> N \<and> topological ch N L \<and> set L = fin \<and> fin \<inter> opn = {} \<and> (fin \<union> opn) \<inter> N = {} \<and> distinct (markers items) \<and>
     set (markers items) = opn \<and> pending_ok ch (N \<union> fin) items"

lemma search_skip:
  "search_ok ch N fin opn (Pending j # items) L \<Longrightarrow> j \<in> N \<union> fin \<Longrightarrow> search_ok ch N fin opn items L"
  by (auto simp: search_ok_def insert_absorb)

lemma search_visit:
  assumes "search_ok ch N fin opn (Pending j # items) L" and "j \<notin> fin \<union> opn" and "j \<notin> N" and "ch j \<subseteq> {u, w} \<union> N"
  shows "search_ok ch N fin (insert j opn) (push_item w (push_item u (Marker j # items))) L"
proof -
  have "pending_ok ch (insert j (insert u (insert w (N \<union> fin)))) items"
    by (rule pending_ok_mono [of ch "insert j (N \<union> fin)"]) (use assms(1) in \<open>auto simp: search_ok_def\<close>)
  then show ?thesis using assms by (auto simp: search_ok_def)
qed

lemma search_close:
  "search_ok ch N fin opn (Marker k # items) L \<Longrightarrow> search_ok ch N (insert k fin) (opn - {k}) items (k # L)"
  by (auto simp: search_ok_def)

lemma search_start: "search_ok ch N fin opn [] L \<Longrightarrow> i \<noteq> 0 \<Longrightarrow> search_ok ch N fin opn [Pending i] L"
  by (auto simp: search_ok_def)

section \<open>The search on the graph\<close>

text \<open>Only marks differ.\<close>

definition plain :: "aiger_type \<Rightarrow> aiger_type" where
  "plain t = t\<lparr>ty_mark := False, ty_onstack := False\<rparr>"

definition marks_only :: "aiger \<Rightarrow> aiger \<Rightarrow> bool" where
  "marks_only g h \<longleftrightarrow> h\<lparr>aig_types := aig_types g\<rparr> = g \<and> length (aig_types h) = length (aig_types g) \<and>
     (\<forall>v. plain (typed h v) = plain (typed g v))"

lemma marks_only_refl: "marks_only g g"
  by (simp add: marks_only_def)

lemma marks_only_trans: "marks_only g h \<Longrightarrow> marks_only h k \<Longrightarrow> marks_only g k"
  by (cases g; cases h; cases k) (simp add: marks_only_def)

lemma plain_sel:
  assumes "plain t = plain u"
  shows "ty_input t = ty_input u" and "ty_latch t = ty_latch u" and "ty_and t = ty_and u" and "ty_idx t = ty_idx u"
  using assms by (cases t; cases u; simp add: plain_def)+

lemma marks_only_sel:
  assumes "marks_only g h"
  shows "ty_input (typed h v) = ty_input (typed g v)" and "ty_latch (typed h v) = ty_latch (typed g v)"
    and "ty_and (typed h v) = ty_and (typed g v)" and "ty_idx (typed h v) = ty_idx (typed g v)"
    and "aig_inputs h = aig_inputs g" and "aig_latches h = aig_latches g" and "aig_ands h = aig_ands g"
    and "aig_outputs h = aig_outputs g" and "aig_bad h = aig_bad g" and "aig_maxvar h = aig_maxvar g"
    and "aig_error h = aig_error g" and "gate_children h v = gate_children g v"
proof -
  have "plain (typed h v) = plain (typed g v)" using assms by (simp add: marks_only_def)
  note p = plain_sel [OF this]
  show "ty_input (typed h v) = ty_input (typed g v)" "ty_latch (typed h v) = ty_latch (typed g v)"
    "ty_and (typed h v) = ty_and (typed g v)" "ty_idx (typed h v) = ty_idx (typed g v)" by (rule p)+
  show "aig_inputs h = aig_inputs g" "aig_latches h = aig_latches g" "aig_outputs h = aig_outputs g"
    "aig_bad h = aig_bad g" "aig_maxvar h = aig_maxvar g" "aig_error h = aig_error g"
    using assms by (cases g; cases h; simp add: marks_only_def)+
  show a: "aig_ands h = aig_ands g" using assms by (cases g; cases h; simp add: marks_only_def)
  show "gate_children h v = gate_children g v" by (simp add: gate_children_def a p(4))
qed

lemma marks_only_types_ok: "marks_only g h \<Longrightarrow> types_ok h = types_ok g"
proof -
  assume m: "marks_only g h"
  note s = marks_only_sel [OF m]
  have "aig_types h = [] \<longleftrightarrow> aig_types g = []" "length (aig_types h) = length (aig_types g)"
    using m by (simp_all add: marks_only_def flip: length_0_conv)
  then show ?thesis unfolding types_ok_def table_ok_def defined_var_def s by simp
qed

definition searching :: "aiger \<Rightarrow> item list \<Rightarrow> nat list \<Rightarrow> bool" where
  "searching g items L \<longleftrightarrow> (\<forall>v. ty_onstack (typed g v) \<longrightarrow> ty_mark (typed g v)) \<and>
     search_ok (gate_children g) {v. \<not> ty_and (typed g v)}
       {v. ty_mark (typed g v) \<and> \<not> ty_onstack (typed g v)} {v. ty_mark (typed g v) \<and> ty_onstack (typed g v)} items L"

lemma set_type_typed:
  "j < length (aig_types g) \<Longrightarrow>
    typed (g\<lparr>aig_types := (aig_types g)[j := t]\<rparr>) v = (if v = j then t else typed g v)"
  by (simp add: typed_def type_at_update)

lemma set_type_marks_only:
  "j < length (aig_types g) \<Longrightarrow> plain t = plain (typed g j) \<Longrightarrow> marks_only g (g\<lparr>aig_types := (aig_types g)[j := t]\<rparr>)"
  by (simp add: marks_only_def set_type_typed)

text \<open>What one step of the loop does to the graph and the items.\<close>

lemma searching_visit:
  assumes s: "searching g (Pending j # items) L" and j: "j < length (aig_types g)" "ty_and (typed g j)"
    "\<not> ty_mark (typed g j)" and k: "ty_idx (typed g j) < length (aig_ands g)"
    and h: "h = g\<lparr>aig_types := (aig_types g)[j := (typed g j)\<lparr>ty_mark := True, ty_onstack := True\<rparr>]\<rparr>"
    and a: "a = aig_ands g ! ty_idx (typed g j)"
  shows "searching h (push_item (and_rhs1 a div 2) (push_item (and_rhs0 a div 2) (Marker j # items))) L"
    and "marks_only g h"
proof -
  have ty: "typed h v = (if v = j then (typed g j)\<lparr>ty_mark := True, ty_onstack := True\<rparr> else typed g v)" for v
    using set_type_typed [OF j(1)] h by simp
  show m: "marks_only g h" unfolding h by (rule set_type_marks_only [OF j(1)]) (simp add: plain_def)
  have ch: "gate_children g j \<subseteq> {and_rhs0 a div 2, and_rhs1 a div 2} \<union> {v. \<not> ty_and (typed g v)}" by (simp add: gate_children_def a Let_def)
  have new: "j \<notin> {v. ty_mark (typed g v) \<and> \<not> ty_onstack (typed g v)} \<union> {v. ty_mark (typed g v) \<and> ty_onstack (typed g v)}"
    using j(3) by simp
  have gate: "j \<notin> {v. \<not> ty_and (typed g v)}" using j(2) by simp
  have eqs: "{v. ty_mark (typed h v) \<and> \<not> ty_onstack (typed h v)} = {v. ty_mark (typed g v) \<and> \<not> ty_onstack (typed g v)}"
    "{v. ty_mark (typed h v) \<and> ty_onstack (typed h v)} = insert j {v. ty_mark (typed g v) \<and> ty_onstack (typed g v)}"
    "{v. \<not> ty_and (typed h v)} = {v. \<not> ty_and (typed g v)}" "gate_children h = gate_children g"
    using j(2,3) marks_only_sel(12) [OF m] by (auto simp: ty fun_eq_iff)
  show "searching h (push_item (and_rhs1 a div 2) (push_item (and_rhs0 a div 2) (Marker j # items))) L"
    unfolding searching_def eqs
    by (rule conjI, use s in \<open>simp add: searching_def ty\<close>,
      rule search_visit [OF s [unfolded searching_def, THEN conjunct2] new gate ch])
qed

lemma searching_close:
  assumes s: "searching g (Marker k # items) L" and k: "k < length (aig_types g)"
    and h: "h = g\<lparr>aig_types := (aig_types g)[k := (typed g k)\<lparr>ty_onstack := False\<rparr>]\<rparr>"
  shows "searching h items (k # L)" and "marks_only g h"
proof -
  have ty: "typed h v = (if v = k then (typed g k)\<lparr>ty_onstack := False\<rparr> else typed g v)" for v
    using set_type_typed [OF k] h by simp
  show m: "marks_only g h" unfolding h by (rule set_type_marks_only [OF k]) (simp add: plain_def)
  have "k \<in> {v. ty_mark (typed g v) \<and> ty_onstack (typed g v)}"
    using s by (auto simp: searching_def search_ok_def)
  then have "{v. ty_mark (typed h v) \<and> \<not> ty_onstack (typed h v)} = insert k {v. ty_mark (typed g v) \<and> \<not> ty_onstack (typed g v)}"
    "{v. ty_mark (typed h v) \<and> ty_onstack (typed h v)} = {v. ty_mark (typed g v) \<and> ty_onstack (typed g v)} - {k}"
    "{v. \<not> ty_and (typed h v)} = {v. \<not> ty_and (typed g v)}" "gate_children h = gate_children g"
    using marks_only_sel(12) [OF m] by (auto simp: ty fun_eq_iff)
  then show "searching h items (k # L)"
    using search_close [OF s [unfolded searching_def, THEN conjunct2]] s by (simp add: searching_def ty)
qed

text \<open>What a search that succeeds leaves: no mark is lost and every gate that was pending is marked.\<close>

definition searched :: "aiger \<Rightarrow> nat set \<Rightarrow> aiger \<Rightarrow> bool" where
  "searched g vs h \<longleftrightarrow> marks_only g h \<and> (\<forall>v. ty_mark (typed g v) \<longrightarrow> ty_mark (typed h v)) \<and>
     (\<forall>v \<in> vs. ty_and (typed g v) \<longrightarrow> ty_mark (typed h v)) \<and> (\<exists>L. searching h [] L)"

definition pendings :: "item list \<Rightarrow> nat set" where
  "pendings items = {v. Pending v \<in> set items}"

lemma searched_step:
  "marks_only g g' \<Longrightarrow> (\<And>v. ty_mark (typed g v) \<Longrightarrow> ty_mark (typed g' v)) \<Longrightarrow> searched g' vs h \<Longrightarrow>
    (\<And>v. v \<in> ws \<Longrightarrow> v \<in> vs \<or> ty_mark (typed g' v) \<or> \<not> ty_and (typed g v)) \<Longrightarrow> searched g ws h"
  unfolding searched_def by (metis marks_only_sel(3) marks_only_trans)

lemma cycles_from_searched:
  "cycles_from d g stack = Some h \<Longrightarrow> aig_error h = None \<Longrightarrow> stack = flat items \<Longrightarrow> searching g items L \<Longrightarrow>
    searched g (pendings items) h"
proof (induction d g stack h arbitrary: items L rule: cycles_from.raw_induct [rotated, consumes 1, case_names step])
  case (step rec d g stack h)
  note IH = step(1) and run = step(2) and e = step(3) and st = step(4) and s = step(5)
  show ?case
  proof (cases items)
    case Nil
    then have "h = g" using run st by simp
    then show ?thesis using s Nil by (auto simp: searched_def marks_only_refl pendings_def)
  next
    case (Cons i rest)
    show ?thesis
    proof (cases i)
      case (Pending j)
      then have s': "searching g (Pending j # rest) L" using s Cons by simp
      then have "j \<noteq> 0" by (auto simp: searching_def search_ok_def)
      have "stack = j # flat rest" using st Cons Pending by simp
      then have j: "j < length (aig_types g)" and run': "(if ty_mark (typed g j) \<and> ty_onstack (typed g j)
            then aiger_error_u d g ''cyclic definition for and gate '' j ''''
            else if \<not> ty_and (typed g j) \<or> ty_mark (typed g j) then rec d g (flat rest)
            else do {
              g' \<leftarrow> set_type g j ((typed g j)\<lparr>ty_mark := True, ty_onstack := True\<rparr>);
              assert_that d (ty_idx (typed g j) < length (aig_ands g'));
              a \<leftarrow> vec_at (aig_ands g') (ty_idx (typed g j));
              rec d g' (push_var (aiger_lit2var (and_rhs1 a)) (push_var (aiger_lit2var (and_rhs0 a)) (0 # stack))) }) = Some h"
        using run \<open>j \<noteq> 0\<close> by (auto simp: bind_eq_Some_conv vec_typed simp del: if_split_asm)
      consider (error) "ty_mark (typed g j)" "ty_onstack (typed g j)"
        | (skip) "\<not> ty_and (typed g j) \<or> ty_mark (typed g j) \<and> \<not> ty_onstack (typed g j)" | (visit) "ty_and (typed g j)" "\<not> ty_mark (typed g j)"
        by blast
      then show ?thesis
      proof cases
        case error
        then show ?thesis using run' e by (auto simp: aiger_error_u_def bind_eq_Some_conv)
      next
        case skip
        then have "rec d g (flat rest) = Some h" using run' e
          by (auto simp: aiger_error_u_def bind_eq_Some_conv split: if_splits)
        moreover have "searching g rest L"
          using search_skip [OF s' [unfolded searching_def, THEN conjunct2]] skip s' by (auto simp: searching_def)
        ultimately have f: "searched g (pendings rest) h" using IH e by blast
        show ?thesis
          by (rule searched_step [OF marks_only_refl _ f]) (use skip Cons Pending in \<open>auto simp: pendings_def\<close>)
      next
        case visit
        let ?g = "g\<lparr>aig_types := (aig_types g)[j := (typed g j)\<lparr>ty_mark := True, ty_onstack := True\<rparr>]\<rparr>"
        let ?a = "aig_ands g ! ty_idx (typed g j)"
        have k: "ty_idx (typed g j) < length (aig_ands g)" and
          r: "rec d ?g (flat (push_item (and_rhs1 ?a div 2) (push_item (and_rhs0 ?a div 2) (Marker j # rest)))) = Some h"
          using run' visit \<open>stack = j # flat rest\<close>
          by (auto simp: bind_eq_Some_conv set_type_def vec_set_def vec_at_def aiger_lit2var_def split: if_splits)
        note v = searching_visit [OF s' j visit k refl refl]
        have f: "searched ?g (pendings (push_item (and_rhs1 ?a div 2) (push_item (and_rhs0 ?a div 2) (Marker j # rest)))) h"
          by (rule IH [OF r e refl v(1)])
        show ?thesis
          by (rule searched_step [OF v(2) _ f])
            (use Cons Pending in \<open>auto simp: pendings_def push_item_def set_type_typed [OF j]\<close>)
      qed
    next
      case (Marker k)
      then have s': "searching g (Marker k # rest) L" using s Cons by simp
      let ?g = "g\<lparr>aig_types := (aig_types g)[k := (typed g k)\<lparr>ty_onstack := False\<rparr>]\<rparr>"
      have "stack = 0 # k # flat rest" using st Cons Marker by simp
      then have k: "k < length (aig_types g)" and r: "rec d ?g (flat rest) = Some h"
        using run by (auto simp: bind_eq_Some_conv vec_typed set_type_def vec_set_def)
      note v = searching_close [OF s' k refl]
      have f: "searched ?g (pendings rest) h" by (rule IH [OF r e refl v(1)])
      show ?thesis
        by (rule searched_step [OF v(2) _ f]) (use Cons Marker in \<open>auto simp: pendings_def set_type_typed [OF k]\<close>)
    qed
  qed
qed

section \<open>The whole check\<close>

lemma check_cycles_searched:
  "check_cycles d g vs = Some h \<Longrightarrow> aig_error h = None \<Longrightarrow> searching g [] L \<Longrightarrow> 0 \<notin> set vs \<Longrightarrow> searched g (set vs) h"
proof (induction vs arbitrary: g L)
  case Nil
  then show ?case by (auto simp: searched_def marks_only_refl)
next
  case (Cons i vs)
  have c: "i < length (aig_types g)" and run: "(if \<not> ty_and (typed g i) \<or> ty_mark (typed g i) then check_cycles d g vs
      else do { g' \<leftarrow> cycles_from d g [i]; check_cycles d g' vs }) = Some h"
    using Cons.prems(1) check_error(4) [OF Cons.prems(2,1)] by (auto simp: bind_eq_Some_conv vec_typed)
  show ?case
  proof (cases "\<not> ty_and (typed g i) \<or> ty_mark (typed g i)")
    case True
    then have f: "searched g (set vs) h" using Cons.IH [of g L] Cons.prems run by simp
    show ?thesis by (rule searched_step [OF marks_only_refl _ f]) (use True in auto)
  next
    case False
    then obtain g1 where g1: "cycles_from d g [i] = Some g1" "check_cycles d g1 vs = Some h"
      using run by (auto simp: bind_eq_Some_conv)
    have e: "aig_error g1 = None" by (rule check_error(4) [OF Cons.prems(2) g1(2)])
    have "searching g [Pending i] L"
      using search_start [of _ _ _ _ L i] Cons.prems(3,4) by (simp add: searching_def)
    then have s: "searched g (pendings [Pending i]) g1" by (intro cycles_from_searched [OF g1(1) e]) simp_all
    then obtain L' where "searching g1 [] L'" by (auto simp: searched_def)
    then have f: "searched g1 (set vs) h" using Cons.IH [OF g1(2)] Cons.prems(2,4) by simp
    have "marks_only g g1" "ty_mark (typed g1 i)" "ty_mark (typed g v) \<Longrightarrow> ty_mark (typed g1 v)" for v
      using s False by (auto simp: searched_def pendings_def)
    then show ?thesis by (intro searched_step [OF _ _ f]) auto
  qed
qed

definition rank :: "nat list \<Rightarrow> nat \<Rightarrow> nat" where
  "rank L v = length (dropWhile (\<lambda>x. x \<noteq> v) L)"

lemma topological_closed: "topological ch N L \<Longrightarrow> v \<in> set L \<Longrightarrow> ch v \<subseteq> N \<union> set L"
  by (induction L) auto

lemma topological_rank:
  "topological ch N L \<Longrightarrow> N \<inter> set L = {} \<Longrightarrow> v \<in> set L \<Longrightarrow> c \<in> ch v \<Longrightarrow> rank L c < rank L v"
proof (induction L)
  case (Cons k L)
  have step: "rank (k # L) x = (if k = x then Suc (length L) else rank L x)" for x by (simp add: rank_def)
  have le: "rank L x \<le> length L" for x by (simp add: rank_def length_dropWhile_le)
  show ?case
  proof (cases "v = k")
    case True
    then have "c \<noteq> k" using Cons.prems by auto
    then show ?thesis using True le [of c] by (simp add: step less_Suc_eq_le)
  next
    case False
    then have "v \<in> set L" using Cons.prems(3) by simp
    then have "c \<in> N \<union> set L" using topological_closed [of ch N L v] Cons.prems(1,4) by auto
    then have "c \<noteq> k" using Cons.prems(1,2) by auto
    then show ?thesis using Cons.IH \<open>v \<in> set L\<close> Cons.prems False by (simp add: step)
  qed
qed simp

lemma check_cycles_acyclic:
  assumes run: "check_cycles d g [1..<aig_maxvar g + 1] = Some h" and e: "aig_error h = None"
    and ok: "types_ok g" and un: "unmarked g"
  shows "marks_only g h" and "acyclic (gate_edges h)" and "\<not> ty_onstack (typed h v)"
proof -
  have gates: "0 < v \<and> v \<le> aig_maxvar g" if "ty_and (typed g v)" for v
    using ok that node_of(3) [OF ok that] by (auto simp: types_ok_def defined_var_def table_ok_def)
  have "searching g [] []"
    using gates un by (auto simp: searching_def search_ok_def unmarked_def)
  then have s: "searched g (set [1..<aig_maxvar g + 1]) h" by (intro check_cycles_searched [OF run e]) simp_all
  then show m: "marks_only g h" by (simp add: searched_def)
  obtain L where L: "searching h [] L" using s by (auto simp: searched_def)
  then show "\<not> ty_onstack (typed h v)" by (auto simp: searching_def search_ok_def)
  have marked: "ty_mark (typed h v)" if "ty_and (typed h v)" for v
  proof -
    have g: "ty_and (typed g v)" using that marks_only_sel(3) [OF m] by simp
    then have "v \<in> set [1..<aig_maxvar g + 1]" using gates [OF g] by auto
    then show ?thesis using s g unfolding searched_def by blast
  qed
  have top: "topological (gate_children h) {v. \<not> ty_and (typed h v)} L" "{v. \<not> ty_and (typed h v)} \<inter> set L = {}"
    and set: "ty_and (typed h v) \<Longrightarrow> v \<in> set L" for v
    using L marked [of v] by (auto simp: searching_def search_ok_def)
  have h: "types_ok h" using ok marks_only_types_ok [OF m] by simp
  show "acyclic (gate_edges h)"
  proof (rule acyclicI_order [where f = "rank L"])
    fix v c assume "(v, c) \<in> gate_edges h"
    then obtain k where k: "k < length (aig_ands h)" "v = and_lhs (aig_ands h ! k) div 2"
      "c \<in> {and_rhs0 (aig_ands h ! k) div 2, and_rhs1 (aig_ands h ! k) div 2}"
      by (auto simp: gate_edges_def in_set_conv_nth)
    have "table_ok ty_and (typed h) (map and_lhs (aig_ands h))" using h by (simp add: types_ok_def)
    then have "\<exists>x > 0. map and_lhs (aig_ands h) ! k = 2 * x \<and> ty_and (typed h x) \<and> ty_idx (typed h x) = k"
      using k(1) unfolding table_ok_def by simp
    then obtain x where "and_lhs (aig_ands h ! k) = 2 * x" "ty_and (typed h x)" "ty_idx (typed h x) = k"
      using k(1) by auto
    then have "ty_and (typed h v)" "c \<in> gate_children h v" using k by (auto simp: gate_children_def Let_def)
    then show "rank L c < rank L v" using topological_rank [OF top set] by blast
  qed
qed

text \<open>The maximal variable never changes in the check.\<close>

lemma cycles_from_maxvar: "cycles_from d g stack = Some h \<Longrightarrow> aig_maxvar h = aig_maxvar g"
proof (induction d g stack h rule: cycles_from.raw_induct [rotated, consumes 1, case_names step])
  case (step rec d g stack h)
  note IH = step(1)
  have set: "aig_maxvar g' = aig_maxvar k" if "set_type k v t = Some g'" for g' k v t
    using that by (auto simp: set_type_def bind_eq_Some_conv)
  have err: "aig_maxvar g' = aig_maxvar g" if "aiger_error_u d g x u y = Some g'" for g' x u y
    using that by (auto simp: aiger_error_u_def bind_eq_Some_conv)
  show ?case
    using step(2) by (auto split: list.splits if_splits simp: bind_eq_Some_conv dest!: IH set err)
qed

lemma check_cycles_maxvar: "check_cycles d g vs = Some h \<Longrightarrow> aig_maxvar h = aig_maxvar g"
  by (induction vs arbitrary: g) (auto simp: bind_eq_Some_conv split: if_splits dest: cycles_from_maxvar)

lemma check_passed:
  assumes run: "aiger_check d g = Some h" and e: "aig_error h = None"
  shows "aig_closed g" and "check_cycles d g [1..<aig_maxvar g + 1] = Some h"
    and "\<forall>s \<in> set (aig_constraints g @ aig_fairness g). lit_defined g (sym_lit s)"
    and "\<forall>s \<in> set (aig_justice g). \<forall>l \<in> set (sym_lits s). lit_defined g l"
proof -
  obtain g1 g2 g3 g4 g5 g6 g7 where r: "check_next d g (aig_latches g) = Some g1"
    "check_lits d ''output '' g1 (map sym_lit (aig_outputs g1)) = Some g2"
    "check_lits d ''bad '' g2 (map sym_lit (aig_bad g2)) = Some g3"
    "check_lits d ''constraint '' g3 (map sym_lit (aig_constraints g3)) = Some g4"
    "check_lits d ''justice '' g4 (concat (map sym_lits (aig_justice g4))) = Some g5"
    "check_lits d ''fairness '' g5 (map sym_lit (aig_fairness g5)) = Some g6"
    "check_ands d g6 (aig_ands g6) = Some g7" "check_cycles d g7 [1..<aig_maxvar g7 + 1] = Some h"
    using run by (auto simp: aiger_check_def bind_eq_Some_conv aiger_check_next_defined_def aiger_check_outputs_defined_def
        aiger_check_bad_defined_def aiger_check_constraints_defined_def aiger_check_justice_defined_def
        aiger_check_fairness_defined_def aiger_check_right_hand_sides_defined_def aiger_check_for_cycles_def
        simp del: upt_Suc)
  have e7: "aig_error g7 = None" by (rule check_error(4) [OF e r(8)])
  have e6: "aig_error g6 = None" by (rule check_error(3) [OF e7 r(7)])
  have e5: "aig_error g5 = None" by (rule check_error(2) [OF e6 r(6)])
  have e4: "aig_error g4 = None" by (rule check_error(2) [OF e5 r(5)])
  have e3: "aig_error g3 = None" by (rule check_error(2) [OF e4 r(4)])
  have e2: "aig_error g2 = None" by (rule check_error(2) [OF e3 r(3)])
  have e1: "aig_error g1 = None" by (rule check_error(2) [OF e2 r(2)])
  note c1 = check_next_sound [OF r(1) e1] and c2 = check_lits_sound [OF r(2) e2] and c3 = check_lits_sound [OF r(3) e3]
    and c4 = check_lits_sound [OF r(4) e4] and c5 = check_lits_sound [OF r(5) e5] and c6 = check_lits_sound [OF r(6) e6]
    and c7 = check_ands_sound [OF r(7) e7]
  have g: "g1 = g" "g2 = g" "g3 = g" "g4 = g" "g5 = g" "g6 = g" "g7 = g" using c1 c2 c3 c4 c5 c6 c7 by simp_all
  show "aig_closed g" using c1 c2 c3 c7 unfolding g aig_closed_def by auto
  show "check_cycles d g [1..<aig_maxvar g + 1] = Some h" using r(8) unfolding g .
  show "\<forall>s \<in> set (aig_constraints g @ aig_fairness g). lit_defined g (sym_lit s)" using c4 c6 unfolding g by auto
  show "\<forall>s \<in> set (aig_justice g). \<forall>l \<in> set (sym_lits s). lit_defined g l" using c5 unfolding g by auto
qed

lemma check_sound:
  assumes run: "aiger_check d g = Some h" and e: "aig_error h = None" and ok: "types_ok g" and un: "unmarked g"
  shows "types_ok h" and "aig_closed h" and "acyclic (gate_edges h)" and "\<not> ty_onstack (typed h v)"
    and "aig_latches h = aig_latches g"
proof -
  note p = check_passed [OF run e]
  note acyc = check_cycles_acyclic [OF p(2) e ok un]
  note sel = marks_only_sel [OF acyc(1)]
  show "acyclic (gate_edges h)" "\<not> ty_onstack (typed h v)" by (fact acyc)+
  show "aig_latches h = aig_latches g" by (fact sel)
  show "types_ok h" using ok marks_only_types_ok [OF acyc(1)] by simp
  show "aig_closed h" using p(1) by (simp add: aig_closed_def lit_defined_def defined_var_def sel)
qed

lemma reader_sound:
  assumes run: "aiger_read_generic True aiger_init content = Some g" and e: "aig_error g = None"
    and small: "aig_maxvar g < 4294967295"
  shows "aig_wf g"
proof -
  obtain v r g1 where y: "and_then (aiger_read_header True (new_reader content) aiger_init) (\<lambda>u r g.
       and_then (if rd_ascii r then aiger_read_ascii True r g else aiger_read_binary True r g) (\<lambda>u r g.
       aiger_read_symbols_and_comments True r g)) = Some (v, r, g1)"
    and c: "(if v = None then Some g1 else aiger_check True g1) = Some g"
    using run by (auto simp: aiger_read_generic_def bind_eq_Some_conv)
  have good: "if v = None then aig_error g1 \<noteq> None else good g1"
    using reader_yields_good [of content] y by (auto simp: yields_def split: if_splits)
  then have v: "v \<noteq> None" "good g1" using c e by (auto split: if_splits)
  then have ck: "aiger_check True g1 = Some g" using c by simp
  have "aig_maxvar g1 = aig_maxvar g" using check_cycles_maxvar [OF check_passed(2) [OF ck e]] by simp
  then have g1: "types_ok g1" "unmarked g1" "\<forall>s \<in> set (aig_latches g1). reset_ok s"
    using v(2) small by (simp_all add: good_def)
  show ?thesis using check_sound [OF ck e g1(1,2)] g1(3) e by (simp add: aig_wf_def)
qed

end
