(* ===== verification/AigerRank.thy ===== *)
theory AigerRank
  imports AigerAccept
begin

text \<open>
  A graph without cycles has a rank that decreases from a gate to the gates it uses. With it a graph
  that is not ordered has valuations too, and a depth first search ends without meeting an open gate.
\<close>

section \<open>The rank\<close>

lemma gate_children_edges:
  assumes "types_ok g" and "ty_and (typed g v)" and "c \<in> gate_children g v"
  shows "(v, c) \<in> gate_edges g"
proof -
  let ?a = "aig_ands g ! ty_idx (typed g v)"
  have a: "?a \<in> set (aig_ands g)" "and_lhs ?a div 2 = v" using node_of(3) [OF assms(1,2)] by auto
  show ?thesis unfolding gate_edges_def
    by (rule UN_I [OF a(1)]) (use assms(3) a(2) in \<open>auto simp: gate_children_def Let_def\<close>)
qed

lemma decreasing_exists:
  assumes "types_ok g" and acyclic: "acyclic (gate_edges g)"
  obtains f where "decreasing g f"
proof
  let ?E = "gate_edges g"
  let ?f = "\<lambda>v. card {x. (v, x) \<in> ?E\<^sup>+}"
  have "finite ?E" by (auto simp: gate_edges_def)
  then have fin: "finite {x. (v, x) \<in> ?E\<^sup>+}" for v
    by (rule finite_subset [rotated, OF finite_imageI [OF finite_trancl [THEN iffD2], of ?E snd]]) force
  show "decreasing g ?f"
    unfolding decreasing_def
  proof (intro allI ballI impI)
    fix v c assume "c \<in> gate_children g v" "ty_and (typed g v)"
    then have e: "(v, c) \<in> ?E" by (intro gate_children_edges [OF assms(1)])
    have "{x. (c, x) \<in> ?E\<^sup>+} \<subseteq> {x. (v, x) \<in> ?E\<^sup>+}" using e by (auto intro: trancl_into_trancl2)
    moreover have "c \<in> {x. (v, x) \<in> ?E\<^sup>+}" "c \<notin> {x. (c, x) \<in> ?E\<^sup>+}" using e acyclic by (auto simp: acyclic_def)
    ultimately have "{x. (c, x) \<in> ?E\<^sup>+} \<subset> {x. (v, x) \<in> ?E\<^sup>+}" by blast
    then show "?f c < ?f v" by (rule psubset_card_mono [OF fin])
  qed
qed

text \<open>So there is a valuation.\<close>

lemma wf_valuation_exists:
  assumes "types_ok g" and "acyclic (gate_edges g)"
  shows "\<exists>w. aig_valuation g s i w"
  using decreasing_exists [OF assms] decreasing_valuation [OF assms(1)] by metis

section \<open>A search meets no open gate\<close>

primrec item_var :: "item \<Rightarrow> nat" where
  "item_var (Pending v) = v"
| "item_var (Marker v) = v"

text \<open>What is above the mark of a gate has a smaller rank.\<close>

primrec ranked :: "(nat \<Rightarrow> nat) \<Rightarrow> item list \<Rightarrow> bool" where
  "ranked f [] = True"
| "ranked f (i # items) = ((\<forall>k \<in> set (markers items). f (item_var i) < f k) \<and> ranked f items)"

lemma ranked_push [simp]:
  "ranked f (push_item v items) \<longleftrightarrow> (v \<noteq> 0 \<longrightarrow> (\<forall>k \<in> set (markers items). f v < f k)) \<and> ranked f items"
  by (auto simp: push_item_def)

lemma ranked_fresh: "ranked f (i # items) \<Longrightarrow> item_var i \<notin> set (markers items)"
  by auto

text \<open>The measure of a search: each visit adds at most two items.\<close>

definition search_size :: "nat set \<Rightarrow> nat set \<Rightarrow> item list \<Rightarrow> nat" where
  "search_size gates seen items = 3 * card (gates - seen) + length items"

lemma search_size_visit:
  assumes "finite gates" and "j \<in> gates" and "j \<notin> seen"
  shows "search_size gates (insert j seen) (push_item w (push_item u (Marker j # items))) <
    search_size gates seen (Pending j # items)"
proof -
  have "gates - insert j seen = (gates - seen) - {j}" by blast
  then have "card (gates - seen) = Suc (card (gates - insert j seen))"
    using assms by (metis DiffI card_Suc_Diff1 finite_Diff)
  then show ?thesis by (simp add: search_size_def push_item_def)
qed

end
