(* ===== verification/AigerComplete.thy ===== *)
theory AigerComplete
  imports AigerRank
begin

text \<open>
  The check accepts every well-formed graph: the checks of the literals find them defined, and the
  search for cycles returns without an error, because what is above an open gate on the stack has a
  smaller rank than this gate. Marks that an earlier check left do no harm.
\<close>

lemma typed_nth: "v < length (aig_types g) \<Longrightarrow> aig_types g ! v = typed g v"
  by (simp add: typed_def type_at_def)

lemma var_bounds:
  assumes "types_ok g" and "defined_var g v"
  shows "0 < v" and "v \<le> aig_maxvar g" and "v < length (aig_types g)"
proof -
  show "0 < v" using assms zero_undefined [OF assms(1)] by (cases "v = 0") (auto simp: defined_var_def)
  then show "v \<le> aig_maxvar g" "v < length (aig_types g)" using assms by (auto simp: types_ok_def)
qed

text \<open>The literal of an input or a latch.\<close>

lemma leaf_lit:
  assumes ok: "types_ok g" and s: "s \<in> set (aig_inputs g) \<union> set (aig_latches g)"
  shows "sym_lit s mod 2 = 0" and "0 < sym_lit s" and "sym_lit s div 2 \<le> aig_maxvar g" and "lit_defined g (sym_lit s)"
    and "sym_lit s = 2 * (sym_lit s div 2)"
proof -
  have "table_ok ty_input (typed g) (map sym_lit (aig_inputs g))" "table_ok ty_latch (typed g) (map sym_lit (aig_latches g))"
    using ok by (simp_all add: types_ok_def)
  then obtain v where v: "sym_lit s = 2 * v" "ty_input (typed g v) \<or> ty_latch (typed g v)"
    using s unfolding table_ok_def by (auto simp: in_set_conv_nth)
  then have "defined_var g v" by (auto simp: defined_var_def)
  note b = var_bounds [OF ok this]
  show "sym_lit s mod 2 = 0" "0 < sym_lit s" "sym_lit s div 2 \<le> aig_maxvar g" "lit_defined g (sym_lit s)"
    "sym_lit s = 2 * (sym_lit s div 2)"
    using v(1) b \<open>defined_var g v\<close> by (simp_all add: lit_defined_def)
qed

definition gate_set :: "aiger \<Rightarrow> nat set" where
  "gate_set g = {v. ty_and (typed g v)}"

lemma gate_set_finite: "types_ok g \<Longrightarrow> finite (gate_set g)"
  by (rule finite_subset [of _ "{..aig_maxvar g}"]) (auto simp: gate_set_def types_ok_def defined_var_def)

section \<open>Literals\<close>

lemma lit_var_bounds:
  assumes "types_ok g" and "lit_defined g l"
  shows "l div 2 \<le> aig_maxvar g" and "0 < l div 2 \<Longrightarrow> l div 2 < length (aig_types g)"
    and "0 < l div 2 \<Longrightarrow> defined_var g (l div 2)"
proof -
  show d: "0 < l div 2 \<Longrightarrow> defined_var g (l div 2)" using lit_not_defined [OF assms(2)] by (metis less_irrefl)
  show "l div 2 \<le> aig_maxvar g" using var_bounds(2) [OF assms(1) d] by (cases "l div 2 = 0") simp_all
  show "0 < l div 2 \<Longrightarrow> l div 2 < length (aig_types g)" using var_bounds(3) [OF assms(1) d] by blast
qed

lemma literal_defined_complete:
  assumes "types_ok g" and "lit_defined g l"
  shows "aiger_literal_defined d g l = Some True"
proof (cases "l div 2 = 0")
  case False
  then have "defined_var g (l div 2)" using lit_var_bounds(3) [OF assms] by simp
  then show ?thesis
    using lit_var_bounds(1,2) [OF assms] False
    by (auto simp: aiger_literal_defined_def aiger_lit2var_def assert_that_holds typed_nth defined_var_def)
qed (simp add: aiger_literal_defined_def aiger_lit2var_def)

lemma check_next_complete:
  assumes ok: "types_ok g" and "aig_error g = None" and "set ss \<subseteq> set (aig_latches g)"
    and "\<forall>s \<in> set ss. lit_defined g (sym_next s)"
  shows "check_next d g ss = Some g"
  using assms(3,4)
proof (induction ss)
  case (Cons s ss)
  obtain k where k: "k < length (aig_latches g)" "s = aig_latches g ! k"
    using Cons.prems(1) by (auto simp: in_set_conv_nth)
  note at = node_at(2) [OF ok k(1), folded k(2)]
  have "sym_lit s mod 2 = 0" using leaf_lit(1) [OF ok] Cons.prems(1) by auto
  moreover have "sym_lit s div 2 < length (aig_types g)"
    using at by (intro var_bounds(3) [OF ok]) (simp add: defined_var_def)
  ultimately show ?case
    using Cons at assms(2) literal_defined_complete [OF ok, of "sym_next s" d]
    by (simp add: aiger_lit2var_def aiger_sign_def typed_nth)
qed simp

lemma check_lits_complete:
  assumes ok: "types_ok g" and "aig_error g = None" and "\<forall>l \<in> set ls. lit_defined g l"
  shows "check_lits d what g ls = Some g"
  using assms(3)
proof (induction ls)
  case (Cons l ls)
  have "lit_defined g (aiger_strip l)"
    using Cons.prems by (auto simp: lit_defined_def aiger_strip_def minus_mod_eq_mult_div)
  then show ?case using Cons assms(2) literal_defined_complete [OF ok, of "aiger_strip l" d] by simp
qed simp

lemma check_ands_complete:
  assumes ok: "types_ok g" and "aig_error g = None"
    and "\<forall>a \<in> set as. lit_defined g (and_rhs0 a) \<and> lit_defined g (and_rhs1 a)"
  shows "check_ands d g as = Some g"
  using assms(3)
proof (induction as)
  case (Cons a as)
  then show ?case
    using assms(2) literal_defined_complete [OF ok, of _ d] by (simp add: aiger_check_right_hand_side_defined_def)
qed simp

section \<open>The search for cycles\<close>

definition cycling :: "aiger \<Rightarrow> (nat \<Rightarrow> nat) \<Rightarrow> item list \<Rightarrow> aiger \<Rightarrow> bool" where
  "cycling g f items h \<longleftrightarrow>
     marks_only g h \<and> (\<forall>v. ty_onstack (typed h v) \<longleftrightarrow> v \<in> set (markers items)) \<and>
     (\<forall>v \<in> set (markers items). ty_mark (typed h v) \<and> ty_and (typed g v)) \<and> ranked f items \<and>
     (\<forall>v \<in> pendings items. 0 < v \<and> v \<le> aig_maxvar g)"

lemma cycling_visit:
  assumes ok: "types_ok g" and cl: "aig_closed g" and dec: "decreasing g f"
    and c: "cycling g f (Pending j # rest) h" and j: "ty_and (typed g j)" and a: "a = aig_ands g ! ty_idx (typed g j)"
    and h': "h' = h\<lparr>aig_types := (aig_types h)[j := (typed h j)\<lparr>ty_mark := True, ty_onstack := True\<rparr>]\<rparr>"
  shows "cycling g f (push_item (and_rhs1 a div 2) (push_item (and_rhs0 a div 2) (Marker j # rest))) h'"
    and "{v. ty_mark (typed h' v)} = insert j {v. ty_mark (typed h v)}"
proof -
  have m: "marks_only g h" and rk: "ranked f (Pending j # rest)" using c by (auto simp: cycling_def)
  have len: "j < length (aig_types h)"
    using var_bounds(3) [OF ok, of j] j m by (simp add: defined_var_def marks_only_def)
  have ty: "typed h' v = (if v = j then (typed h j)\<lparr>ty_mark := True, ty_onstack := True\<rparr> else typed h v)" for v
    using set_type_typed [OF len] h' by simp
  show "{v. ty_mark (typed h' v)} = insert j {v. ty_mark (typed h v)}" by (auto simp: ty)
  have mh: "marks_only g h'" unfolding h'
    by (rule marks_only_trans [OF m set_type_marks_only [OF len]]) (simp add: plain_def)
  have a': "a \<in> set (aig_ands g)" using node_of(3) [OF ok j] a by simp
  have bound: "and_rhs0 a div 2 \<le> aig_maxvar g" "and_rhs1 a div 2 \<le> aig_maxvar g"
    using lit_var_bounds(1) [OF ok] cl a' by (simp_all add: aig_closed_def)
  have less: "f (and_rhs0 a div 2) < f j" "f (and_rhs1 a div 2) < f j"
    using dec j by (auto simp: decreasing_def gate_children_def a Let_def)
  have "ranked f (push_item (and_rhs1 a div 2) (push_item (and_rhs0 a div 2) (Marker j # rest)))"
    using less rk by fastforce
  then show "cycling g f (push_item (and_rhs1 a div 2) (push_item (and_rhs0 a div 2) (Marker j # rest))) h'"
    using c mh bound j by (auto simp: cycling_def ty pendings_def push_item_def split: if_splits)
qed

lemma cycles_from_runs:
  assumes ok: "types_ok g" and cl: "aig_closed g" and dec: "decreasing g f"
  shows "cycling g f items h \<Longrightarrow> \<exists>h'. cycles_from d h (flat items) = Some h' \<and> cycling g f [] h'"
proof (induction "search_size (gate_set g) {v. ty_mark (typed h v)} items" arbitrary: items h rule: less_induct)
  case less
  show ?case
  proof (cases items)
    case Nil
    then show ?thesis using less.prems by (simp add: cycles_from.simps)
  next
    case (Cons i rest)
    show ?thesis
    proof (cases i)
      case (Pending j)
      then have c: "cycling g f (Pending j # rest) h" using less.prems Cons by simp
      have j: "0 < j" "j \<le> aig_maxvar g" and m: "marks_only g h" and rk: "ranked f (Pending j # rest)"
        and off: "\<not> ty_onstack (typed h j)"
        using c ranked_fresh [of f "Pending j" rest] by (auto simp: cycling_def pendings_def)
      have len: "j < length (aig_types h)" using j ok m by (auto simp: types_ok_def marks_only_def)
      show ?thesis
      proof (cases "\<not> ty_and (typed g j) \<or> ty_mark (typed h j)")
        case True
        have "cycles_from d h (flat items) = cycles_from d h (flat rest)"
          using True len j off marks_only_sel(3) [OF m, of j]
          by (simp add: Cons Pending cycles_from.simps [of d h "j # flat rest"] typed_nth)
        moreover have "cycling g f rest h" using c by (auto simp: cycling_def pendings_def)
        ultimately show ?thesis using less.hyps [of h rest] by (simp add: search_size_def Cons Pending)
      next
        case False
        let ?h = "h\<lparr>aig_types := (aig_types h)[j := (typed h j)\<lparr>ty_mark := True, ty_onstack := True\<rparr>]\<rparr>"
        let ?a = "aig_ands g ! ty_idx (typed g j)"
        let ?items = "push_item (and_rhs1 ?a div 2) (push_item (and_rhs0 ?a div 2) (Marker j # rest))"
        have gate: "ty_and (typed g j)" using False by simp
        note v = cycling_visit [OF ok cl dec c gate refl refl]
        have "cycles_from d h (flat items) = cycles_from d ?h (flat ?items)"
          using False len j off marks_only_sel(3,4) [OF m, of j] marks_only_sel(7) [OF m] node_of(3) [OF ok gate]
          by (simp add: Cons Pending cycles_from.simps [of d h "j # flat rest"] typed_nth set_type_def
              assert_that_holds aiger_lit2var_def)
        moreover have "search_size (gate_set g) {v. ty_mark (typed ?h v)} ?items <
            search_size (gate_set g) {v. ty_mark (typed h v)} items"
          unfolding v(2) Cons Pending
          by (rule search_size_visit [OF gate_set_finite [OF ok]]) (use False in \<open>simp_all add: gate_set_def\<close>)
        ultimately show ?thesis using less.hyps [OF _ v(1)] by simp
      qed
    next
      case (Marker k)
      then have c: "cycling g f (Marker k # rest) h" using less.prems Cons by simp
      let ?h = "h\<lparr>aig_types := (aig_types h)[k := (typed h k)\<lparr>ty_onstack := False\<rparr>]\<rparr>"
      have k: "ty_and (typed g k)" "ty_mark (typed h k)" "ty_onstack (typed h k)" and m: "marks_only g h"
        and rk: "k \<notin> set (markers rest)" using c by (auto simp: cycling_def)
      have b: "0 < k" "k < length (aig_types h)"
        using var_bounds [OF ok, of k] k(1) m by (simp_all add: defined_var_def marks_only_def)
      have ty: "typed ?h v = (if v = k then (typed h k)\<lparr>ty_onstack := False\<rparr> else typed h v)" for v
        using set_type_typed [OF b(2)] by simp
      have mh: "marks_only g ?h"
        by (rule marks_only_trans [OF m set_type_marks_only [OF b(2)]]) (simp add: plain_def)
      have "cycles_from d h (flat items) = cycles_from d ?h (flat rest)"
        using b k by (simp add: Cons Marker cycles_from.simps [of d h "0 # k # flat rest"] typed_nth set_type_def)
      moreover have "cycling g f rest ?h" using c mh rk by (auto simp: cycling_def pendings_def ty)
      moreover have "{v. ty_mark (typed ?h v)} = {v. ty_mark (typed h v)}" by (auto simp: ty)
      ultimately show ?thesis using less.hyps [of ?h rest] by (simp add: search_size_def Cons Marker)
    qed
  qed
qed

lemma check_cycles_runs:
  assumes ok: "types_ok g" and cl: "aig_closed g" and dec: "decreasing g f" and e: "aig_error g = None"
  shows "cycling g f [] h \<Longrightarrow> \<forall>i \<in> set vs. 0 < i \<and> i \<le> aig_maxvar g \<Longrightarrow>
    \<exists>h'. check_cycles d h vs = Some h' \<and> cycling g f [] h'"
proof (induction vs arbitrary: h)
  case (Cons i vs)
  have m: "marks_only g h" using Cons.prems(1) by (simp add: cycling_def)
  have eh: "aig_error h = None" using marks_only_sel(11) [OF m] e by simp
  have i: "i < length (aig_types h)" using Cons.prems(2) ok m by (auto simp: types_ok_def marks_only_def)
  have "cycling g f [Pending i] h" using Cons.prems by (auto simp: cycling_def pendings_def)
  then obtain h1 where h1: "cycles_from d h [i] = Some h1" "cycling g f [] h1"
    using cycles_from_runs [OF ok cl dec, of "[Pending i]" h d] by auto
  show ?case
    using Cons.IH [OF Cons.prems(1)] Cons.IH [OF h1(2)] Cons.prems(2) h1(1) eh i by simp
qed simp

text \<open>The literals of constraints, justice and fairness, which \<open>aig_closed\<close> does not speak of.\<close>

definition lits_closed :: "aiger \<Rightarrow> bool" where
  "lits_closed g \<longleftrightarrow> (\<forall>s \<in> set (aig_constraints g @ aig_fairness g). lit_defined g (sym_lit s)) \<and>
     (\<forall>s \<in> set (aig_justice g). \<forall>l \<in> set (sym_lits s). lit_defined g l)"

lemma check_complete:
  assumes ok: "types_ok g" and cl: "aig_closed g" and dec: "decreasing g f" and e: "aig_error g = None"
    and off: "\<forall>v. \<not> ty_onstack (typed g v)" and lits: "lits_closed g"
  shows "\<exists>h. aiger_check d g = Some h \<and> marks_only g h \<and> (\<forall>v. \<not> ty_onstack (typed h v))"
proof -
  have "check_next d g (aig_latches g) = Some g" by (rule check_next_complete [OF ok e]) (use cl in \<open>auto simp: aig_closed_def\<close>)
  moreover have "check_lits d what g (map sym_lit (aig_outputs g)) = Some g" "check_lits d what g (map sym_lit (aig_bad g)) = Some g"
    for what by (rule check_lits_complete [OF ok e]; use cl in \<open>auto simp: aig_closed_def\<close>)+
  moreover have "check_lits d what g (map sym_lit (aig_constraints g)) = Some g"
    "check_lits d what g (map sym_lit (aig_fairness g)) = Some g"
    "check_lits d what g (concat (map sym_lits (aig_justice g))) = Some g" for what
    by (rule check_lits_complete [OF ok e]; use lits in \<open>auto simp: lits_closed_def\<close>)+
  moreover have "check_ands d g (aig_ands g) = Some g"
    by (rule check_ands_complete [OF ok e]) (use cl in \<open>auto simp: aig_closed_def\<close>)
  moreover have "\<exists>h. check_cycles d g [1..<aig_maxvar g + 1] = Some h \<and> cycling g f [] h"
  proof (rule check_cycles_runs [OF ok cl dec e])
    show "cycling g f [] g" using off by (simp add: cycling_def marks_only_refl pendings_def)
  qed auto
  ultimately show ?thesis
    using e by (auto simp: aiger_check_def aiger_check_next_defined_def aiger_check_outputs_defined_def
        aiger_check_bad_defined_def aiger_check_constraints_defined_def aiger_check_justice_defined_def
        aiger_check_fairness_defined_def aiger_check_right_hand_sides_defined_def aiger_check_for_cycles_def
        cycling_def simp del: upt_Suc)
qed

lemma no_lits_closed:
  "aig_constraints g = [] \<Longrightarrow> aig_justice g = [] \<Longrightarrow> aig_fairness g = [] \<Longrightarrow> lits_closed g"
  by (simp add: lits_closed_def)

end
