(* ===== verification/AigerRenumber.thy ===== *)
theory AigerRenumber
  imports AigerComplete AigerReencode
begin

text \<open>
  Renumbering a graph without cycles. The codes a graph is given are described by a list of variables,
  inputs and latches first, then the gates in the order their search finished: \<open>new_lit\<close> maps a literal
  of the \<open>k\<close>-th variable to one of variable \<open>k + 1\<close>. The search that assigns the codes is the depth
  first search of the check, so its order is topological.
\<close>

section \<open>Codes\<close>

definition position :: "nat list \<Rightarrow> nat \<Rightarrow> nat" where
  "position xs v = length (takeWhile (\<lambda>x. x \<noteq> v) xs)"

lemma position_less: "v \<in> set xs \<Longrightarrow> position xs v < length xs"
  unfolding position_def by (induction xs) auto

lemma position_nth: "v \<in> set xs \<Longrightarrow> xs ! position xs v = v"
  unfolding position_def by (induction xs) auto

lemma position_append: "v \<in> set xs \<Longrightarrow> position (xs @ ys) v = position xs v"
  unfolding position_def by (induction xs) auto

lemma position_new: "v \<notin> set xs \<Longrightarrow> position (xs @ v # ys) v = length xs"
  unfolding position_def by (induction xs) auto

lemma position_at: "distinct xs \<Longrightarrow> k < length xs \<Longrightarrow> position xs (xs ! k) = k"
  by (metis nth_eq_iff_index_eq nth_mem position_less position_nth)

definition new_lit :: "nat list \<Rightarrow> nat \<Rightarrow> nat" where
  "new_lit order l =
     (if l < 2 then l else if l div 2 \<in> set order then 2 * (position order (l div 2) + 1) + l mod 2 else 0)"

definition live :: "nat list \<Rightarrow> nat \<Rightarrow> bool" where
  "live order l \<longleftrightarrow> l < 2 \<or> l div 2 \<in> set order"

lemma live_append: "live xs l \<Longrightarrow> live (xs @ ys) l"
  by (auto simp: live_def)

lemma new_lit_append: "live xs l \<Longrightarrow> new_lit (xs @ ys) l = new_lit xs l"
  by (auto simp: live_def new_lit_def position_append)

lemma new_lit_zero: "2 \<le> l \<Longrightarrow> new_lit order l \<noteq> 0 \<longleftrightarrow> l div 2 \<in> set order"
  by (auto simp: new_lit_def)

definition coded :: "aiger \<Rightarrow> nat list \<Rightarrow> reencoder \<Rightarrow> bool" where
  "coded g order r \<longleftrightarrow> length (re_code r) = 2 * (aig_maxvar g + 1) \<and>
     (\<forall>l < length (re_code r). re_code r ! l = new_lit order l) \<and> re_new r = 2 * (length order + 1)"

lemma coded_add:
  assumes "coded g order r" and v: "v \<notin> set order" "0 < v" "v \<le> aig_maxvar g"
  shows "coded g (order @ [v]) (r\<lparr>re_code := (re_code r)[2 * v := re_new r, 2 * v + 1 := re_new r + 1], re_new := re_new r + 2\<rparr>)"
proof -
  have "(re_code r)[2 * v := re_new r, 2 * v + 1 := re_new r + 1] ! l = new_lit (order @ [v]) l"
    if l: "l < length (re_code r)" for l
  proof -
    have c: "re_code r ! l = new_lit order l" "re_new r = 2 * (length order + 1)" using assms(1) l by (auto simp: coded_def)
    show ?thesis
    proof (cases "l div 2 = v")
      case True
      then have "l = 2 * v \<and> l mod 2 = 0 \<or> l = 2 * v + 1 \<and> l mod 2 = 1" by presburger
      then show ?thesis using c(2) l v True by (auto simp: new_lit_def position_new)
    next
      case False
      then have "l \<noteq> 2 * v" "l \<noteq> 2 * v + 1" by auto
      then show ?thesis using c(1) False by (simp add: new_lit_def position_append)
    qed
  qed
  then show ?thesis using assms(1) by (simp add: coded_def)
qed

lemma new_code_runs:
  assumes "coded g order r" and v: "v \<notin> set order" "0 < v" "v \<le> aig_maxvar g"
  shows "\<exists>r'. aiger_new_code d r v = Some r' \<and> coded g (order @ [v]) r' \<and> re_graph r' = re_graph r"
proof -
  have "2 * v + 1 < length (re_code r)" "re_code r ! (2 * v) = 0"
    using assms by (auto simp: coded_def new_lit_def)
  then show ?thesis using coded_add [OF assms] by (auto simp: aiger_new_code_def aiger_var2lit_def assert_that_holds)
qed

lemma code_leaves_runs:
  assumes "coded g order r" and "distinct (order @ map (\<lambda>s. sym_lit s div 2) ss)"
    and "\<forall>s \<in> set ss. sym_lit s mod 2 = 0 \<and> 0 < sym_lit s \<and> sym_lit s div 2 \<le> aig_maxvar g"
  shows "\<exists>r'. code_leaves r ss = Some r' \<and> coded g (order @ map (\<lambda>s. sym_lit s div 2) ss) r' \<and> re_graph r' = re_graph r"
  using assms
proof (induction ss arbitrary: r order)
  case (Cons s ss)
  let ?v = "sym_lit s div 2"
  let ?r = "r\<lparr>re_code := (re_code r)[2 * ?v := re_new r, 2 * ?v + 1 := re_new r + 1], re_new := re_new r + 2\<rparr>"
  have v: "?v \<notin> set order" "0 < ?v" "?v \<le> aig_maxvar g" "sym_lit s = 2 * ?v" using Cons.prems(2,3) by auto
  have "2 * ?v + 1 < length (re_code r)" using Cons.prems(1) v(3) by (simp add: coded_def)
  then have "code_leaves r (s # ss) = code_leaves ?r ss" by (subst code_leaves.simps, subst (1 2) v(4)) simp
  moreover have "coded g (order @ [?v]) ?r" by (rule coded_add [OF Cons.prems(1) v(1-3)])
  ultimately show ?case using Cons.IH [of "order @ [?v]" ?r] Cons.prems(2,3) by simp
qed simp


section \<open>The search\<close>

definition leaves :: "aiger \<Rightarrow> nat list" where
  "leaves g = map (\<lambda>s. sym_lit s div 2) (aig_inputs g @ aig_latches g)"

lemma leaves_typed:
  assumes "types_ok g"
  shows "v \<in> set (leaves g) \<longleftrightarrow> ty_input (typed g v) \<or> ty_latch (typed g v)"
proof
  assume "v \<in> set (leaves g)"
  then show "ty_input (typed g v) \<or> ty_latch (typed g v)"
    using node_at(1,2) [OF assms] by (auto simp: leaves_def in_set_conv_nth)
next
  assume "ty_input (typed g v) \<or> ty_latch (typed g v)"
  then show "v \<in> set (leaves g)"
  proof
    assume "ty_input (typed g v)"
    then have "aig_inputs g ! ty_idx (typed g v) \<in> set (aig_inputs g)" "sym_lit (aig_inputs g ! ty_idx (typed g v)) div 2 = v"
      using node_of(1) [OF assms, of v] by auto
    then show ?thesis unfolding leaves_def by force
  next
    assume "ty_latch (typed g v)"
    then have "aig_latches g ! ty_idx (typed g v) \<in> set (aig_latches g)" "sym_lit (aig_latches g ! ty_idx (typed g v)) div 2 = v"
      using node_of(2) [OF assms, of v] by auto
    then show ?thesis unfolding leaves_def by force
  qed
qed

definition renumbering :: "aiger \<Rightarrow> (nat \<Rightarrow> nat) \<Rightarrow> item list \<Rightarrow> nat list \<Rightarrow> reencoder \<Rightarrow> bool" where
  "renumbering g f items L r \<longleftrightarrow>
     marks_only g (re_graph r) \<and> (\<forall>v. ty_onstack (typed (re_graph r) v) \<longleftrightarrow> v \<in> set (markers items)) \<and>
     coded g (leaves g @ rev L) r \<and>
     search_ok (gate_children g) {v. \<not> ty_and (typed g v)} (set L) (set (markers items)) items L \<and>
     ranked f items \<and> (\<forall>v \<in> pendings items. ty_and (typed g v))"

definition gate_or_zero :: "aiger \<Rightarrow> nat \<Rightarrow> nat" where
  "gate_or_zero g c = (if ty_and (typed g c) then c else 0)"

lemma push_child_runs:
  assumes "types_ok g" and "marks_only g h" and "lit_defined g l" and "\<not> ty_onstack (typed h (l div 2))"
  shows "push_child h (l div 2) stack = Some (push_var (gate_or_zero g (l div 2)) stack)"
proof (cases "l div 2 = 0")
  case True
  then show ?thesis using zero_undefined(3) [OF assms(1)] by (simp add: push_child_def push_var_def gate_or_zero_def)
next
  case False
  then have def: "defined_var g (l div 2)" using assms(3) lit_not_defined [of g l] by metis
  have "vec_at (aig_types h) (l div 2) = Some (typed h (l div 2))"
    using var_bounds(3) [OF assms(1) def] assms(2) by (simp add: typed_nth marks_only_def)
  moreover have "ty_and (typed g (l div 2)) \<longleftrightarrow> \<not> ty_input (typed h (l div 2)) \<and> \<not> ty_latch (typed h (l div 2))"
    using def node_kind [OF assms(1), of "l div 2"]
    unfolding marks_only_sel(1,2) [OF assms(2)] defined_var_def by blast
  ultimately show ?thesis
    using False assms(4) by (simp add: push_child_def push_var_def gate_or_zero_def)
qed

text \<open>Popping a gate that has its code, a gate without one, and a mark.\<close>

lemma renumber_skip:
  "renumbering g f (Pending j # rest) L r \<Longrightarrow> j \<in> set L \<Longrightarrow> renumbering g f rest L r"
  using search_skip by (auto simp: renumbering_def pendings_def)

lemma renumber_visit:
  assumes ok: "types_ok g" and dec: "decreasing g f" and r: "renumbering g f (Pending j # rest) L r" and j: "j \<notin> set L"
    and cs: "gate_children g j = {c0, c1}"
    and h: "h = (re_graph r)\<lparr>aig_types := (aig_types (re_graph r))[j := (typed (re_graph r) j)\<lparr>ty_onstack := True\<rparr>]\<rparr>"
  shows "renumbering g f (push_item (gate_or_zero g c1) (push_item (gate_or_zero g c0) (Marker j # rest))) L (r\<lparr>re_graph := h\<rparr>)"
    and "\<not> ty_onstack (typed h c0)" and "\<not> ty_onstack (typed h c1)" and "marks_only g h"
proof -
  have gate: "ty_and (typed g j)" and m: "marks_only g (re_graph r)"
    and on: "\<And>v. ty_onstack (typed (re_graph r) v) \<longleftrightarrow> v \<in> set (markers rest)"
    and rk: "ranked f (Pending j # rest)"
    and s: "search_ok (gate_children g) {v. \<not> ty_and (typed g v)} (set L) (set (markers rest)) (Pending j # rest) L"
    using r by (auto simp: renumbering_def pendings_def)
  have len: "j < length (aig_types (re_graph r))"
    using var_bounds(3) [OF ok, of j] gate m by (simp add: defined_var_def marks_only_def)
  have ty: "typed h v = (if v = j then (typed (re_graph r) j)\<lparr>ty_onstack := True\<rparr> else typed (re_graph r) v)" for v
    using set_type_typed [OF len] h by simp
  show mh: "marks_only g h" unfolding h
    by (rule marks_only_trans [OF m set_type_marks_only [OF len]]) (simp add: plain_def)
  have open1: "j \<notin> set (markers rest)" using ranked_fresh [OF rk] by simp
  have onh: "ty_onstack (typed h v) \<longleftrightarrow> v \<in> set (markers (Marker j # rest))" for v using on by (auto simp: ty)
  have less: "f c < f j" if "c \<in> {c0, c1}" for c using dec gate cs that unfolding decreasing_def by blast
  have above: "f c < f k" if "c \<in> {c0, c1}" "k \<in> set (markers (Marker j # rest))" for c k
    using that less [OF that(1)] rk by fastforce
  then show "\<not> ty_onstack (typed h c0)" "\<not> ty_onstack (typed h c1)" using onh by blast+
  let ?u = "gate_or_zero g c0" and ?w = "gate_or_zero g c1"
  have "search_ok (gate_children g) {v. \<not> ty_and (typed g v)} (set L) (insert j (set (markers rest)))
      (push_item ?w (push_item ?u (Marker j # rest))) L"
    by (rule search_visit [OF s]) (use j open1 gate cs in \<open>auto simp: gate_or_zero_def\<close>)
  moreover have "ranked f (push_item ?w (push_item ?u (Marker j # rest)))"
    using above rk by (auto simp: gate_or_zero_def)
  ultimately show "renumbering g f (push_item ?w (push_item ?u (Marker j # rest))) L (r\<lparr>re_graph := h\<rparr>)"
    using r mh onh by (auto simp: renumbering_def pendings_def push_item_def gate_or_zero_def coded_def split: if_splits)
qed

lemma renumber_close:
  assumes ok: "types_ok g" and r: "renumbering g f (Marker k # rest) L r"
    and h: "h = (re_graph r)\<lparr>aig_types := (aig_types (re_graph r))[k := (typed (re_graph r) k)\<lparr>ty_onstack := False\<rparr>]\<rparr>"
  shows "\<exists>r'. aiger_new_code d (r\<lparr>re_graph := h\<rparr>) k = Some r' \<and> renumbering g f rest (k # L) r'"
proof -
  have m: "marks_only g (re_graph r)"
    and on: "\<And>v. ty_onstack (typed (re_graph r) v) \<longleftrightarrow> v = k \<or> v \<in> set (markers rest)"
    and s: "search_ok (gate_children g) {v. \<not> ty_and (typed g v)} (set L) (set (markers (Marker k # rest))) (Marker k # rest) L"
    and c: "coded g (leaves g @ rev L) r"
    using r by (auto simp: renumbering_def)
  have k: "ty_and (typed g k)" "k \<notin> set L" "k \<notin> set (markers rest)" using s by (auto simp: search_ok_def)
  have b: "0 < k" "k \<le> aig_maxvar g" "k < length (aig_types (re_graph r))"
    using var_bounds [OF ok, of k] k(1) m by (simp_all add: defined_var_def marks_only_def)
  have ty: "typed h v = (if v = k then (typed (re_graph r) k)\<lparr>ty_onstack := False\<rparr> else typed (re_graph r) v)" for v
    using set_type_typed [OF b(3)] h by simp
  have mh: "marks_only g h" unfolding h
    by (rule marks_only_trans [OF m set_type_marks_only [OF b(3)]]) (simp add: plain_def)
  have new: "k \<notin> set (leaves g @ rev L)" using k leaves_typed [OF ok, of k] node_kind(3) [OF ok, of k] by auto
  have "coded g (leaves g @ rev L) (r\<lparr>re_graph := h\<rparr>)" using c by (simp add: coded_def)
  then obtain r' where r': "aiger_new_code d (r\<lparr>re_graph := h\<rparr>) k = Some r'" "coded g ((leaves g @ rev L) @ [k]) r'"
    "re_graph r' = h" using new_code_runs [OF _ new b(1,2), of "r\<lparr>re_graph := h\<rparr>" d] by auto
  have "search_ok (gate_children g) {v. \<not> ty_and (typed g v)} (insert k (set L)) (set (markers (Marker k # rest)) - {k}) rest (k # L)"
    by (rule search_close [OF s])
  moreover have "ty_onstack (typed h v) \<longleftrightarrow> v \<in> set (markers rest)" for v using on k(3) by (auto simp: ty)
  ultimately have "renumbering g f rest (k # L) r'"
    using r r'(2,3) mh k(3) by (auto simp: renumbering_def pendings_def)
  then show ?thesis using r'(1) by blast
qed

lemma reencode_from_runs:
  assumes ok: "types_ok g" and cl: "aig_closed g" and dec: "decreasing g f"
  shows "renumbering g f items L r \<Longrightarrow>
    \<exists>r' M. reencode_from d r (flat items) = Some r' \<and> renumbering g f [] (M @ L) r' \<and> item_var ` set items \<subseteq> set (M @ L)"
proof (induction "search_size (gate_set g) (set L \<union> set (markers items)) items" arbitrary: items L r rule: less_induct)
  case less
  note r = less.prems
  show ?case
  proof (cases items)
    case Nil
    then show ?thesis using r by (auto simp: reencode_from.simps intro!: exI [of _ "[]"])
  next
    case (Cons i rest)
    show ?thesis
    proof (cases i)
      case (Pending j)
      then have r: "renumbering g f (Pending j # rest) L r" using r Cons by simp
      have gate: "ty_and (typed g j)" and m: "marks_only g (re_graph r)" and c: "coded g (leaves g @ rev L) r"
        and rk: "ranked f (Pending j # rest)" and on: "ty_onstack (typed (re_graph r) j) \<longleftrightarrow> j \<in> set (markers rest)"
        using r by (auto simp: renumbering_def pendings_def)
      have b: "0 < j" "j \<le> aig_maxvar g" "j < length (aig_types g)"
        using var_bounds [OF ok, of j] gate by (simp_all add: defined_var_def)
      have len: "length (aig_types (re_graph r)) = length (aig_types g)" using m by (simp add: marks_only_def)
      have code: "vec_at (re_code r) (aiger_var2lit j) = Some (new_lit (leaves g @ rev L) (2 * j))"
        using c b by (simp add: coded_def aiger_var2lit_def)
      have nz: "new_lit (leaves g @ rev L) (2 * j) \<noteq> 0 \<longleftrightarrow> j \<in> set L"
        using new_lit_zero [of "2 * j"] b(1) leaves_typed [OF ok, of j] node_kind(3) [OF ok gate] by auto
      show ?thesis
      proof (cases "j \<in> set L")
        case True
        have "reencode_from d r (flat items) = reencode_from d r (flat rest)"
          using code nz True b(1) by (simp add: Cons Pending reencode_from.simps [of d r "j # flat rest"])
        moreover have "renumbering g f rest L r" by (rule renumber_skip [OF r True])
        then have "search_size (gate_set g) (set L \<union> set (markers rest)) rest <
            search_size (gate_set g) (set L \<union> set (markers items)) items \<Longrightarrow> \<exists>r' M. reencode_from d r (flat rest) = Some r' \<and>
            renumbering g f [] (M @ L) r' \<and> item_var ` set rest \<subseteq> set (M @ L)" by (rule less.hyps [rotated])
        moreover have "search_size (gate_set g) (set L \<union> set (markers rest)) rest <
            search_size (gate_set g) (set L \<union> set (markers items)) items" by (simp add: search_size_def Cons Pending)
        ultimately obtain r' M where "reencode_from d r (flat items) = Some r'" "renumbering g f [] (M @ L) r'"
          "item_var ` set rest \<subseteq> set (M @ L)" by auto
        then show ?thesis using True Cons Pending by (intro exI [of _ r'] exI [of _ M]) auto
      next
        case False
        let ?G = "re_graph r"
        let ?a = "aig_ands g ! ty_idx (typed g j)"
        let ?h = "?G\<lparr>aig_types := (aig_types ?G)[j := (typed ?G j)\<lparr>ty_onstack := True\<rparr>]\<rparr>"
        define c0 where "c0 = (if and_rhs0 ?a div 2 < and_rhs1 ?a div 2 then and_rhs1 ?a else and_rhs0 ?a)"
        define c1 where "c1 = (if and_rhs0 ?a div 2 < and_rhs1 ?a div 2 then and_rhs0 ?a else and_rhs1 ?a)"
        have swap: "(if and_rhs0 ?a div 2 < and_rhs1 ?a div 2 then (and_rhs1 ?a div 2, and_rhs0 ?a div 2)
            else (and_rhs0 ?a div 2, and_rhs1 ?a div 2)) = (c0 div 2, c1 div 2)" by (simp add: c0_def c1_def)
        have idx: "ty_idx (typed g j) < length (aig_ands g)" using node_of(3) [OF ok gate] by simp
        have cs: "gate_children g j = {c0 div 2, c1 div 2}" by (auto simp: gate_children_def Let_def c0_def c1_def)
        note v = renumber_visit [OF ok dec r False cs refl]
        let ?items = "push_item (gate_or_zero g (c1 div 2)) (push_item (gate_or_zero g (c0 div 2)) (Marker j # rest))"
        have def: "lit_defined g c0" "lit_defined g c1"
          using cl nth_mem [OF idx] by (auto simp: aig_closed_def c0_def c1_def)
        have off: "\<not> ty_onstack (typed ?G j)" using on ranked_fresh [OF rk] by simp
        have "reencode_from d r (flat items) = reencode_from d (r\<lparr>re_graph := ?h\<rparr>) (flat ?items)"
          using code nz False b len off gate idx marks_only_sel(3,4) [OF m, of j] marks_only_sel(7,10) [OF m]
            push_child_runs [OF ok v(4) def(1) v(2)] push_child_runs [OF ok v(4) def(2) v(3)]
          by (simp add: Cons Pending reencode_from.simps [of d r "j # flat rest"] typed_nth set_type_def
              assert_that_holds Let_def aiger_lit2var_def swap)
        moreover have "search_size (gate_set g) (set L \<union> set (markers ?items)) ?items <
            search_size (gate_set g) (set L \<union> set (markers items)) items"
          using search_size_visit [OF gate_set_finite [OF ok], of j "set L \<union> set (markers rest)"] gate False ranked_fresh [OF rk]
          by (simp add: Cons Pending gate_set_def)
        ultimately obtain r' M where r': "reencode_from d r (flat items) = Some r'" "renumbering g f [] (M @ L) r'"
          "item_var ` set ?items \<subseteq> set (M @ L)" using less.hyps [OF _ v(1)] by auto
        have "item_var ` set items \<subseteq> item_var ` set ?items" by (auto simp: Cons Pending push_item_def)
        then show ?thesis using r' by blast
      qed
    next
      case (Marker k)
      then have r: "renumbering g f (Marker k # rest) L r" using r Cons by simp
      have m: "marks_only g (re_graph r)" and c: "coded g (leaves g @ rev L) r" and k: "ty_and (typed g k)" "k \<notin> set L"
        and on: "ty_onstack (typed (re_graph r) k)"
        using r by (auto simp: renumbering_def search_ok_def)
      have b: "0 < k" "k \<le> aig_maxvar g" "k < length (aig_types g)"
        using var_bounds [OF ok, of k] k(1) by (simp_all add: defined_var_def)
      have len: "length (aig_types (re_graph r)) = length (aig_types g)" using m by (simp add: marks_only_def)
      have code: "vec_at (re_code r) (aiger_var2lit k) = Some 0"
        using c b new_lit_zero [of "2 * k" "leaves g @ rev L"] leaves_typed [OF ok, of k] node_kind(3) [OF ok k(1)] k(2)
        by (simp add: coded_def aiger_var2lit_def)
      let ?h = "(re_graph r)\<lparr>aig_types := (aig_types (re_graph r))[k := (typed (re_graph r) k)\<lparr>ty_onstack := False\<rparr>]\<rparr>"
      obtain r1 where r1: "aiger_new_code d (r\<lparr>re_graph := ?h\<rparr>) k = Some r1" "renumbering g f rest (k # L) r1"
        using renumber_close [OF ok r refl] by blast
      have "reencode_from d r (flat items) = reencode_from d r1 (flat rest)"
        using code b len on r1(1)
        by (simp add: Cons Marker reencode_from.simps [of d r "0 # k # flat rest"] typed_nth set_type_def
            assert_that_holds)
      moreover have "search_size (gate_set g) (set (k # L) \<union> set (markers rest)) rest <
          search_size (gate_set g) (set L \<union> set (markers items)) items" by (simp add: search_size_def Cons Marker)
      ultimately obtain r' M where "reencode_from d r (flat items) = Some r'" "renumbering g f [] (M @ k # L) r'"
        "item_var ` set rest \<subseteq> set (M @ k # L)" using less.hyps [OF _ r1(2)] by auto
      then show ?thesis using Cons Marker by (intro exI [of _ r'] exI [of _ "M @ [k]"]) auto
    qed
  qed
qed


section \<open>Literals and lists of literals\<close>

text \<open>Between two searches: \<open>L\<close> are the gates that have a code.\<close>

definition order_of :: "aiger \<Rightarrow> nat list \<Rightarrow> nat list" where
  "order_of g L = leaves g @ rev L"

lemma order_of_grows [simp]:
  "live (order_of g L) l \<Longrightarrow> live (order_of g (M @ L)) l"
  "live (order_of g L) l \<Longrightarrow> new_lit (order_of g (M @ L)) l = new_lit (order_of g L) l"
  by (simp_all add: order_of_def live_append [of "leaves g @ rev L", simplified] new_lit_append [of "leaves g @ rev L", simplified])

lemma renumbering_coded: "renumbering g f items L r \<Longrightarrow> coded g (order_of g L) r"
  by (simp add: renumbering_def order_of_def)

lemma lit_in_code:
  assumes "types_ok g" and "coded g order r" and "lit_defined g l"
  shows "vec_at (re_code r) l = Some (new_lit order l)"
proof -
  have "l < 2 \<or> l div 2 \<le> aig_maxvar g"
    using assms(3) var_bounds(2) [OF assms(1), of "l div 2"] unfolding lit_defined_def by blast
  then have "l < 2 * (aig_maxvar g + 1)" by arith
  then show ?thesis using assms(2) by (simp add: coded_def)
qed

lemma reencode_lit_runs:
  assumes ok: "types_ok g" and cl: "aig_closed g" and dec: "decreasing g f" and r: "renumbering g f [] L r"
    and l: "lit_defined g l"
  shows "\<exists>r' M. aiger_reencode_lit d r l = Some (new_lit (order_of g (M @ L)) l, r') \<and>
    renumbering g f [] (M @ L) r' \<and> live (order_of g (M @ L)) l"
proof (cases "live (order_of g L) l")
  case True
  have "aiger_reencode_lit d r l = Some (new_lit (order_of g L) l, r)"
  proof (cases "l < 2")
    case False
    then have "new_lit (order_of g L) l \<noteq> 0" using True new_lit_zero by (auto simp: live_def)
    then show ?thesis using lit_in_code [OF ok renumbering_coded [OF r] l] False by (simp add: aiger_reencode_lit_def)
  qed (simp add: aiger_reencode_lit_def new_lit_def)
  then show ?thesis using r True by (intro exI [of _ r] exI [of _ "[]"]) simp
next
  case False
  let ?v = "l div 2"
  have l2: "2 \<le> l" "?v \<notin> set (order_of g L)" using False by (auto simp: live_def)
  then have def: "defined_var g ?v" using l by (auto simp: lit_defined_def)
  have gate: "ty_and (typed g ?v)" and v: "?v \<notin> set L"
    using l2 def leaves_typed [OF ok, of ?v] by (auto simp: order_of_def defined_var_def)
  have m: "marks_only g (re_graph r)" using r by (simp add: renumbering_def)
  have b: "0 < ?v" "?v \<le> aig_maxvar g" "?v < length (aig_types (re_graph r))"
    using var_bounds [OF ok def] m by (simp_all add: marks_only_def)
  have "search_ok (gate_children g) {v. \<not> ty_and (typed g v)} (set L) {} [Pending ?v] L"
    by (rule search_start) (use r b(1) in \<open>simp_all add: renumbering_def\<close>)
  then have "renumbering g f [Pending ?v] L r"
    using r gate by (auto simp: renumbering_def pendings_def)
  then obtain r' M where r': "reencode_from d r (flat [Pending ?v]) = Some r'" "renumbering g f [] (M @ L) r'"
    "?v \<in> set (M @ L)" using reencode_from_runs [OF ok cl dec] by fastforce
  have live: "live (order_of g (M @ L)) l" using r'(3) by (auto simp: live_def order_of_def)
  then have nz: "new_lit (order_of g (M @ L)) l \<noteq> 0" using l2 new_lit_zero by (auto simp: live_def)
  have "vec_at (re_code r) l = Some 0"
    using lit_in_code [OF ok renumbering_coded [OF r] l] l2 by (simp add: new_lit_def)
  then have "aiger_reencode_lit d r l = Some (new_lit (order_of g (M @ L)) l, r')"
    using lit_in_code [OF ok renumbering_coded [OF r'(2)] l] l2(1) nz r'(1) b gate marks_only_sel(3,10) [OF m]
    by (simp add: aiger_reencode_lit_def Let_def aiger_lit2var_def typed_nth assert_that_holds)
  then show ?thesis using r'(2) live by blast
qed

lemma recode_symbols_runs:
  assumes ok: "types_ok g" and cl: "aig_closed g" and dec: "decreasing g f"
  shows "renumbering g f [] L r \<Longrightarrow> \<forall>s \<in> set ss. lit_defined g (sym_lit s) \<Longrightarrow>
    \<exists>r' M. recode_symbols d r ss = Some (map (\<lambda>s. s\<lparr>sym_lit := new_lit (order_of g (M @ L)) (sym_lit s)\<rparr>) ss, r') \<and>
      renumbering g f [] (M @ L) r' \<and> (\<forall>s \<in> set ss. live (order_of g (M @ L)) (sym_lit s))"
proof (induction ss arbitrary: L r)
  case (Cons s ss)
  obtain r1 M1 where 1: "aiger_reencode_lit d r (sym_lit s) = Some (new_lit (order_of g (M1 @ L)) (sym_lit s), r1)"
    "renumbering g f [] (M1 @ L) r1" "live (order_of g (M1 @ L)) (sym_lit s)"
    using reencode_lit_runs [OF ok cl dec Cons.prems(1)] Cons.prems(2) by (metis list.set_intros(1))
  obtain r2 M2 where 2: "recode_symbols d r1 ss =
      Some (map (\<lambda>s. s\<lparr>sym_lit := new_lit (order_of g (M2 @ M1 @ L)) (sym_lit s)\<rparr>) ss, r2)"
    "renumbering g f [] (M2 @ M1 @ L) r2" "\<forall>s \<in> set ss. live (order_of g (M2 @ M1 @ L)) (sym_lit s)"
    using Cons.IH [OF 1(2)] Cons.prems(2) by auto
  show ?case
    by (intro exI [of _ r2] exI [of _ "M2 @ M1"]) (use 1 2 in \<open>simp_all\<close>)
qed (auto intro!: exI [of _ "[]"])

definition new_latch :: "nat list \<Rightarrow> aiger_symbol \<Rightarrow> aiger_symbol" where
  "new_latch order s = s\<lparr>sym_next := new_lit order (sym_next s), sym_reset := new_lit order (sym_reset s)\<rparr>"

lemma recode_latches_runs:
  assumes ok: "types_ok g" and cl: "aig_closed g" and dec: "decreasing g f"
  shows "renumbering g f [] L r \<Longrightarrow> \<forall>s \<in> set ss. lit_defined g (sym_next s) \<and> lit_defined g (sym_reset s) \<Longrightarrow>
    \<exists>r' M. recode_latches d r ss = Some (map (new_latch (order_of g (M @ L))) ss, r') \<and>
      renumbering g f [] (M @ L) r' \<and>
      (\<forall>s \<in> set ss. live (order_of g (M @ L)) (sym_next s) \<and> live (order_of g (M @ L)) (sym_reset s))"
proof (induction ss arbitrary: L r)
  case (Cons s ss)
  obtain r1 M1 where 1: "aiger_reencode_lit d r (sym_next s) = Some (new_lit (order_of g (M1 @ L)) (sym_next s), r1)"
    "renumbering g f [] (M1 @ L) r1" "live (order_of g (M1 @ L)) (sym_next s)"
    using reencode_lit_runs [OF ok cl dec Cons.prems(1)] Cons.prems(2) by (metis list.set_intros(1))
  obtain r2 M2 where 2: "aiger_reencode_lit d r1 (sym_reset s) = Some (new_lit (order_of g (M2 @ M1 @ L)) (sym_reset s), r2)"
    "renumbering g f [] (M2 @ M1 @ L) r2" "live (order_of g (M2 @ M1 @ L)) (sym_reset s)"
    using reencode_lit_runs [OF ok cl dec 1(2)] Cons.prems(2) by (metis list.set_intros(1))
  obtain r3 M3 where 3: "recode_latches d r2 ss = Some (map (new_latch (order_of g (M3 @ M2 @ M1 @ L))) ss, r3)"
    "renumbering g f [] (M3 @ M2 @ M1 @ L) r3"
    "\<forall>s \<in> set ss. live (order_of g (M3 @ M2 @ M1 @ L)) (sym_next s) \<and> live (order_of g (M3 @ M2 @ M1 @ L)) (sym_reset s)"
    using Cons.IH [OF 2(2)] Cons.prems(2) by auto
  have "live (order_of g (M2 @ M1 @ L)) (sym_next s)" using 1(3) by simp
  then show ?case
    by (intro exI [of _ r3] exI [of _ "M3 @ M2 @ M1"]) (use 1 2 3 in \<open>simp_all add: new_latch_def\<close>)
qed (auto intro!: exI [of _ "[]"])

end
