(* ===== verification/AigerRenumbered.thy ===== *)
theory AigerRenumbered
  imports AigerRenumber
begin

text \<open>
  The renumbered graph: its gates are in the order of their variables and use only earlier ones, its
  table of types is consistent, and it has the same initial states, steps and errors.
\<close>

section \<open>The gates\<close>

lemma position_right: "v \<notin> set xs \<Longrightarrow> position (xs @ ys) v = length xs + position ys v"
  unfolding position_def by (induction xs) auto

lemma topological_position:
  "topological ch N L \<Longrightarrow> N \<inter> set L = {} \<Longrightarrow> v \<in> set L \<Longrightarrow> c \<in> ch v \<Longrightarrow> c \<in> set L \<Longrightarrow>
    position (rev L) c < position (rev L) v"
proof (induction L)
  case (Cons k L)
  show ?case
  proof (cases "v = k")
    case True
    then have "c \<in> set L" using Cons.prems by auto
    then have "position (rev L @ [k]) c < length (rev L)" using position_less [of c "rev L"] by (simp add: position_append)
    moreover have "position (rev L @ [k]) v = length (rev L)" using True Cons.prems(1) by (simp add: position_new)
    ultimately show ?thesis by simp
  next
    case False
    then have v: "v \<in> set L" using Cons.prems(3) by simp
    then have "c \<in> N \<union> set L" using topological_closed [of ch N L v] Cons.prems(1,4) by auto
    then have "c \<in> set L" using Cons.prems(1,2,5) by auto
    then show ?thesis using Cons.IH v Cons.prems by (simp add: position_append)
  qed
qed simp

definition new_and :: "nat list \<Rightarrow> aiger_and \<Rightarrow> aiger_and" where
  "new_and order a = \<lparr>and_lhs = new_lit order (and_lhs a),
     and_rhs0 = max (new_lit order (and_rhs0 a)) (new_lit order (and_rhs1 a)),
     and_rhs1 = min (new_lit order (and_rhs0 a)) (new_lit order (and_rhs1 a))\<rparr>"


lemma new_lit_less:
  assumes "2 \<le> l \<Longrightarrow> l div 2 \<in> set order \<and> position order (l div 2) < position order v"
  shows "new_lit order l < 2 * (position order v + 1)"
proof (cases "l < 2")
  case False
  have p: "l div 2 \<in> set order" "position order (l div 2) < position order v" using assms False by simp_all
  have "2 * (position order (l div 2) + 1) + l mod 2 < 2 * (position order (l div 2) + 1) + 2" by simp
  also have "\<dots> \<le> 2 * (position order v + 1)" using p(2) by simp
  finally show ?thesis using p(1) False by (simp add: new_lit_def)
qed (simp add: new_lit_def)

text \<open>What is known of a finished renumbering.\<close>

definition numbered :: "aiger \<Rightarrow> nat list \<Rightarrow> bool" where
  "numbered g L \<longleftrightarrow> topological (gate_children g) {v. \<not> ty_and (typed g v)} L \<and> (\<forall>v \<in> set L. ty_and (typed g v))"

lemma renumbering_numbered: "renumbering g f [] L r \<Longrightarrow> numbered g L"
  by (auto simp: renumbering_def numbered_def search_ok_def)

lemma leaves_distinct:
  assumes "types_ok g"
  shows "distinct (leaves g)"
proof -
  have "distinct (map (\<lambda>s. sym_lit s div 2) (aig_inputs g))"
    using node_at(1) [OF assms] by (auto simp: distinct_conv_nth) metis
  moreover have "distinct (map (\<lambda>s. sym_lit s div 2) (aig_latches g))"
    using node_at(2) [OF assms] by (auto simp: distinct_conv_nth) metis
  moreover have "sym_lit (aig_inputs g ! k) div 2 \<noteq> sym_lit (aig_latches g ! j) div 2"
    if "k < length (aig_inputs g)" "j < length (aig_latches g)" for k j
    using node_at(1) [OF assms that(1)] node_at(2) [OF assms that(2)] node_kind(1) [OF assms] by metis
  ultimately show ?thesis by (auto simp: leaves_def in_set_conv_nth)
qed

lemma numbered_distinct:
  assumes "types_ok g" and "numbered g L"
  shows "distinct (order_of g L)"
proof -
  have "topological ch N L \<Longrightarrow> distinct L" for ch N by (induction L) auto
  then have "distinct L" using assms(2) by (auto simp: numbered_def)
  moreover have "set (leaves g) \<inter> set L = {}"
    using assms(2) leaves_typed [OF assms(1)] node_kind(3) [OF assms(1)] by (auto simp: numbered_def)
  ultimately show ?thesis using leaves_distinct [OF assms(1)] by (simp add: order_of_def)
qed

lemma order_typed:
  assumes "types_ok g" and "numbered g L"
  shows "v \<in> set (order_of g L) \<longleftrightarrow> ty_input (typed g v) \<or> ty_latch (typed g v) \<or> v \<in> set L"
  using leaves_typed [OF assms(1)] by (auto simp: order_of_def)

lemma order_defined:
  assumes "types_ok g" and "numbered g L" and "v \<in> set (order_of g L)"
  shows "defined_var g v"
  using assms(3) assms(2) unfolding order_typed [OF assms(1,2)] by (auto simp: numbered_def defined_var_def)

lemma order_length:
  assumes "types_ok g" and "numbered g L"
  shows "length (order_of g L) \<le> aig_maxvar g"
proof -
  have "set (order_of g L) \<subseteq> {1..aig_maxvar g}"
    using order_defined [OF assms] var_bounds [OF assms(1)] by (auto simp: Suc_le_eq)
  then have "card (set (order_of g L)) \<le> aig_maxvar g" using card_mono [of "{1..aig_maxvar g}"] by simp
  then show ?thesis using numbered_distinct [OF assms] by (simp add: distinct_card)
qed

definition gate_at :: "aiger \<Rightarrow> nat \<Rightarrow> aiger_and" where
  "gate_at g v = aig_ands g ! ty_idx (typed g v)"

lemma gate_at_lhs: "types_ok g \<Longrightarrow> a \<in> set (aig_ands g) \<Longrightarrow>
    ty_and (typed g (and_lhs a div 2)) \<and> gate_at g (and_lhs a div 2) = a \<and> and_lhs a = 2 * (and_lhs a div 2) \<and> 2 \<le> and_lhs a \<and> and_lhs a mod 2 = 0"
proof -
  assume ok: "types_ok g" and "a \<in> set (aig_ands g)"
  then obtain k where k: "k < length (aig_ands g)" "a = aig_ands g ! k" by (auto simp: in_set_conv_nth)
  note at = node_at(3) [OF ok k(1), folded k(2)]
  have "and_lhs a = 2 * (and_lhs a div 2)" using node_of(3) [OF ok, of "and_lhs a div 2"] at k(2) by simp
  then show ?thesis using at k(2) mod_mult_self1_is_0 [of 2 "and_lhs a div 2"] by (auto simp: gate_at_def)
qed

lemma gate_at_in: "types_ok g \<Longrightarrow> ty_and (typed g v) \<Longrightarrow> gate_at g v \<in> set (aig_ands g) \<and> and_lhs (gate_at g v) = 2 * v"
  using node_of(3) [of g v] by (simp add: gate_at_def)

text \<open>The children of a gate that has a code have smaller codes.\<close>

lemma numbered_child:
  assumes ok: "types_ok g" and cl: "aig_closed g" and n: "numbered g L"
    and a: "a \<in> set (aig_ands g)" "and_lhs a div 2 \<in> set L" and r: "r \<in> {and_rhs0 a, and_rhs1 a}"
  shows "live (order_of g L) r" and "new_lit (order_of g L) r < new_lit (order_of g L) (and_lhs a)"
proof -
  let ?v = "and_lhs a div 2"
  note g = gate_at_lhs [OF ok a(1)]
  have ch: "r div 2 \<in> gate_children g ?v" using g r by (auto simp: gate_children_def gate_at_def Let_def)
  have top: "topological (gate_children g) {v. \<not> ty_and (typed g v)} L" "{v. \<not> ty_and (typed g v)} \<inter> set L = {}"
    using n by (auto simp: numbered_def)
  have def: "lit_defined g r" using cl a(1) r by (auto simp: aig_closed_def)
  have sub: "ty_and (typed g (r div 2)) \<Longrightarrow> r div 2 \<in> set L" using topological_closed [OF top(1) a(2)] ch by auto
  have notleaf: "v \<notin> set (leaves g)" if "v \<in> set L" for v
    using that n leaves_typed [OF ok] node_kind(3) [OF ok] by (auto simp: numbered_def)
  have pos: "r div 2 \<in> set (order_of g L) \<and> position (order_of g L) (r div 2) < position (order_of g L) ?v" if "2 \<le> r"
  proof (cases "r div 2 \<in> set L")
    case True
    then show ?thesis using topological_position [OF top a(2) ch] notleaf a(2)
      by (simp add: order_of_def position_right)
  next
    case False
    then have "r div 2 \<in> set (leaves g)"
      using def sub that leaves_typed [OF ok] by (auto simp: lit_defined_def defined_var_def)
    then show ?thesis using position_less [of "r div 2" "leaves g"] notleaf [OF a(2)]
      by (simp add: order_of_def position_append position_right)
  qed
  then show "live (order_of g L) r" by (cases "r < 2") (auto simp: live_def)
  have "new_lit (order_of g L) (and_lhs a) = 2 * (position (order_of g L) ?v + 1)"
    using g a(2) by (auto simp: new_lit_def order_of_def)
  then show "new_lit (order_of g L) r < new_lit (order_of g L) (and_lhs a)" using new_lit_less [of r] pos by metis
qed

lemma recode_ands_runs:
  assumes ok: "types_ok g" and cl: "aig_closed g" and n: "numbered g L" and c: "coded g (order_of g L) r"
  shows "set as \<subseteq> set (aig_ands g) \<Longrightarrow>
    recode_ands d (re_code r) as = Some (map (new_and (order_of g L)) (filter (\<lambda>a. and_lhs a div 2 \<in> set L) as))"
proof (induction as)
  case (Cons a as)
  let ?O = "order_of g L"
  have a: "a \<in> set (aig_ands g)" using Cons.prems by simp
  note g = gate_at_lhs [OF ok a]
  have "lit_defined g (and_lhs a)" using g by (simp add: lit_defined_def defined_var_def)
  then have code: "vec_at (re_code r) (and_lhs a) = Some (new_lit ?O (and_lhs a))"
      "vec_at (re_code r) (and_rhs0 a) = Some (new_lit ?O (and_rhs0 a))"
      "vec_at (re_code r) (and_rhs1 a) = Some (new_lit ?O (and_rhs1 a))"
    using lit_in_code [OF ok c] cl a by (auto simp: aig_closed_def)
  have nz: "new_lit ?O (and_lhs a) \<noteq> 0 \<longleftrightarrow> and_lhs a div 2 \<in> set L"
    using new_lit_zero [of "and_lhs a" ?O] g order_typed [OF ok n] node_kind(3) [OF ok] by metis
  show ?case
  proof (cases "and_lhs a div 2 \<in> set L")
    case True
    note less = numbered_child(2) [OF ok cl n a True]
    have "new_and ?O a = \<lparr>and_lhs = new_lit ?O (and_lhs a),
       and_rhs0 = (if new_lit ?O (and_rhs0 a) < new_lit ?O (and_rhs1 a) then new_lit ?O (and_rhs1 a) else new_lit ?O (and_rhs0 a)),
       and_rhs1 = (if new_lit ?O (and_rhs0 a) < new_lit ?O (and_rhs1 a) then new_lit ?O (and_rhs0 a) else new_lit ?O (and_rhs1 a))\<rparr>"
      by (simp add: new_and_def)
    then show ?thesis using True nz code less Cons by (simp add: assert_that_holds)
  next
    case False
    then show ?thesis using nz code Cons by simp
  qed
qed simp


section \<open>The gates in order\<close>

lemma order_nth:
  assumes "types_ok g"
  shows "k < length (aig_inputs g) \<Longrightarrow> order_of g L ! k = sym_lit (aig_inputs g ! k) div 2"
    and "k < length (aig_latches g) \<Longrightarrow> order_of g L ! (length (aig_inputs g) + k) = sym_lit (aig_latches g ! k) div 2"
    and "k < length L \<Longrightarrow> order_of g L ! (length (aig_inputs g) + length (aig_latches g) + k) = rev L ! k"
  by (simp_all add: order_of_def leaves_def nth_append)

lemma order_size: "length (order_of g L) = length (aig_inputs g) + length (aig_latches g) + length L"
  by (simp add: order_of_def leaves_def)

lemma new_lit_nth:
  assumes "types_ok g" and "numbered g L" and "k < length (order_of g L)" and "l = 2 * (order_of g L ! k)"
  shows "new_lit (order_of g L) l = 2 * (k + 1)"
proof -
  have m: "order_of g L ! k \<in> set (order_of g L)" using assms(3) by simp
  then have "0 < order_of g L ! k" using var_bounds(1) [OF assms(1)] order_defined [OF assms(1,2)] by blast
  then show ?thesis
    using m position_at [OF numbered_distinct [OF assms(1,2)] assms(3)] by (simp add: new_lit_def assms(4))
qed

lemma leaf_lits:
  assumes ok: "types_ok g" and n: "numbered g L"
  shows "k < length (aig_inputs g) \<Longrightarrow> new_lit (order_of g L) (sym_lit (aig_inputs g ! k)) = 2 * (k + 1)"
    and "k < length (aig_latches g) \<Longrightarrow>
      new_lit (order_of g L) (sym_lit (aig_latches g ! k)) = 2 * (length (aig_inputs g) + k + 1)"
proof -
  have even: "sym_lit (aig_inputs g ! k) = 2 * (sym_lit (aig_inputs g ! k) div 2)" if "k < length (aig_inputs g)"
    by (rule leaf_lit(5) [OF ok]) (use that in simp)
  have even2: "sym_lit (aig_latches g ! k) = 2 * (sym_lit (aig_latches g ! k) div 2)" if "k < length (aig_latches g)"
    by (rule leaf_lit(5) [OF ok]) (use that in simp)
  show "new_lit (order_of g L) (sym_lit (aig_inputs g ! k)) = 2 * (k + 1)" if k: "k < length (aig_inputs g)"
    by (rule new_lit_nth [OF ok n]) (use k even [OF k] in \<open>simp_all add: order_size order_nth(1) [OF ok k]\<close>)
  show "new_lit (order_of g L) (sym_lit (aig_latches g ! k)) = 2 * (length (aig_inputs g) + k + 1)"
    if k: "k < length (aig_latches g)"
    by (rule new_lit_nth [OF ok n]) (use k even2 [OF k] in \<open>simp_all add: order_size order_nth(2) [OF ok k]\<close>)
qed

lemma gate_lits:
  assumes ok: "types_ok g" and n: "numbered g L" and k: "k < length L"
  shows "and_lhs (new_and (order_of g L) (gate_at g (rev L ! k))) =
    2 * (length (aig_inputs g) + length (aig_latches g) + k + 1)"
proof -
  have "rev L ! k \<in> set L" using k by (metis length_rev nth_mem set_rev)
  then have "and_lhs (gate_at g (rev L ! k)) = 2 * (rev L ! k)"
    using n gate_at_in [OF ok] by (auto simp: numbered_def)
  then show ?thesis
    unfolding new_and_def aiger_and.simps
    by (intro new_lit_nth [OF ok n]) (use k in \<open>simp_all add: order_size order_nth(3) [OF ok k]\<close>)
qed

lemma new_lit_inj:
  assumes ok: "types_ok g" and n: "numbered g L" and "u \<in> set L" "v \<in> set L"
    and "new_lit (order_of g L) (2 * u) = new_lit (order_of g L) (2 * v)"
  shows "u = v"
proof -
  have "u \<in> set (order_of g L)" "v \<in> set (order_of g L)" using assms(3,4) by (auto simp: order_of_def)
  moreover from this have "0 < u" "0 < v" using var_bounds(1) [OF ok] order_defined [OF ok n] by blast+
  ultimately have "position (order_of g L) u = position (order_of g L) v" using assms(5) by (simp add: new_lit_def)
  then show ?thesis using position_nth \<open>u \<in> set (order_of g L)\<close> \<open>v \<in> set (order_of g L)\<close> by metis
qed

definition new_ands :: "aiger \<Rightarrow> nat list \<Rightarrow> aiger_and list" where
  "new_ands g L = map (\<lambda>v. new_and (order_of g L) (gate_at g v)) (rev L)"

lemma new_ands_nth:
  assumes "types_ok g" and "numbered g L" and "k < length L"
  shows "and_lhs (new_ands g L ! k) = 2 * (length (aig_inputs g) + length (aig_latches g) + k + 1)"
  using gate_lits [OF assms] assms(3) by (simp add: new_ands_def)

lemma sorted_gates:
  assumes ok: "types_ok g" and n: "numbered g L"
  shows "sort_key and_lhs (map (new_and (order_of g L)) (filter (\<lambda>a. and_lhs a div 2 \<in> set L) (aig_ands g))) = new_ands g L"
    (is "sort_key _ ?xs = _")
proof (rule map_sorted_distinct_set_unique [where f = and_lhs])
  let ?O = "order_of g L"
  have gate: "gate_at g v \<in> set (aig_ands g) \<and> and_lhs (gate_at g v) = 2 * v" if "v \<in> set L" for v
    using n that gate_at_in [OF ok] by (auto simp: numbered_def)
  have set: "set ?xs = set (new_ands g L)"
  proof (intro set_eqI iffI)
    fix x assume "x \<in> set ?xs"
    then obtain a where "a \<in> set (aig_ands g)" "and_lhs a div 2 \<in> set L" "x = new_and ?O a" by auto
    then show "x \<in> set (new_ands g L)"
      using gate_at_lhs [OF ok] unfolding new_ands_def by (force simp: image_iff)
  next
    fix x assume "x \<in> set (new_ands g L)"
    then obtain v where "v \<in> set L" "x = new_and ?O (gate_at g v)" by (auto simp: new_ands_def)
    then show "x \<in> set ?xs" using gate [of v] by auto
  qed
  then show "set (sort_key and_lhs ?xs) = set (new_ands g L)" by simp
  have keys: "map and_lhs (new_ands g L) =
      map (\<lambda>k. 2 * (length (aig_inputs g) + length (aig_latches g) + k + 1)) [0..<length L]"
    by (rule nth_equalityI) (use new_ands_nth [OF ok n] in \<open>simp_all add: new_ands_def\<close>)
  show d: "distinct (map and_lhs (new_ands g L))" unfolding keys by (simp add: distinct_map inj_on_def)
  show "sorted (map and_lhs (new_ands g L))" unfolding keys by (simp add: sorted_iff_nth_mono)
  show "inj_on and_lhs (set (sort_key and_lhs ?xs) \<union> set (new_ands g L))"
    unfolding set_sort set Un_absorb using d by (simp only: distinct_map)
  have "distinct (aig_ands g)"
    using node_at(3) [OF ok] by (metis (no_types, lifting) distinct_conv_nth)
  moreover have "inj_on (\<lambda>a. new_lit ?O (and_lhs a)) (set (filter (\<lambda>a. and_lhs a div 2 \<in> set L) (aig_ands g)))"
  proof (rule inj_onI)
    fix a b assume a: "a \<in> set (filter (\<lambda>a. and_lhs a div 2 \<in> set L) (aig_ands g))"
      and b: "b \<in> set (filter (\<lambda>a. and_lhs a div 2 \<in> set L) (aig_ands g))"
      and e: "new_lit ?O (and_lhs a) = new_lit ?O (and_lhs b)"
    have a': "a \<in> set (aig_ands g)" "and_lhs a div 2 \<in> set L" and b': "b \<in> set (aig_ands g)" "and_lhs b div 2 \<in> set L"
      using a b by simp_all
    note ga = gate_at_lhs [OF ok a'(1)] and gb = gate_at_lhs [OF ok b'(1)]
    have "new_lit ?O (2 * (and_lhs a div 2)) = new_lit ?O (2 * (and_lhs b div 2))" using e ga gb by metis
    then have "and_lhs a div 2 = and_lhs b div 2" by (rule new_lit_inj [OF ok n a'(2) b'(2)])
    then show "a = b" using ga gb by metis
  qed
  ultimately have "distinct (map and_lhs ?xs)" by (simp add: distinct_map comp_def new_and_def)
  moreover have "mset (map and_lhs (sort_key and_lhs ?xs)) = mset (map and_lhs ?xs)" by (simp only: mset_map mset_sort)
  ultimately show "distinct (map and_lhs (sort_key and_lhs ?xs))" using mset_eq_imp_distinct_iff by blast
qed (simp add: sorted_sort_key)

section \<open>The table of types\<close>

lemma reset_types_runs:
  "\<forall>i \<in> set is. i < length ts \<Longrightarrow> \<exists>ts'. reset_types ts is = Some ts' \<and> length ts' = length ts \<and>
    (\<forall>v. type_at ts' v = (if v \<in> set is then untyped (type_at ts v) else type_at ts v))"
proof (induction "is" arbitrary: ts)
  case (Cons i "is")
  have i: "i < length ts" "ts ! i = type_at ts i" using Cons.prems by (simp_all add: type_at_def)
  obtain ts' where "reset_types (ts[i := untyped (type_at ts i)]) is = Some ts'" "length ts' = length ts"
    "\<forall>v. type_at ts' v = (if v \<in> set is then untyped (type_at (ts[i := untyped (type_at ts i)]) v)
       else type_at (ts[i := untyped (type_at ts i)]) v)"
    using Cons.IH [of "ts[i := untyped (type_at ts i)]"] Cons.prems by auto
  then show ?case using i by (auto simp: type_at_update untyped_def)
qed simp

lemma retype_runs:
  "\<forall>k < length ls. ls ! k = 2 * (b + k) \<Longrightarrow> ls = [] \<or> b + length ls \<le> length ts \<Longrightarrow>
    \<exists>ts'. retype f ts i ls = Some ts' \<and> length ts' = length ts \<and>
    (\<forall>v. type_at ts' v =
      (if b \<le> v \<and> v < b + length ls then (f (type_at ts v))\<lparr>ty_idx := i + (v - b)\<rparr> else type_at ts v))"
proof (induction ls arbitrary: ts i b)
  case (Cons l ls)
  have l: "aiger_lit2var l = b" "b < length ts" "ts ! b = type_at ts b"
    using Cons.prems by (auto simp: aiger_lit2var_def type_at_def dest: spec [of _ 0])
  have rest: "\<forall>k < length ls. ls ! k = 2 * (Suc b + k)" 
  proof (intro allI impI)
    fix k assume "k < length ls"
    then show "ls ! k = 2 * (Suc b + k)" using Cons.prems(1) [rule_format, of "Suc k"] by simp
  qed
  let ?ts = "ts[b := (f (type_at ts b))\<lparr>ty_idx := i\<rparr>]"
  obtain ts' where ts': "retype f ?ts (i + 1) ls = Some ts'" "length ts' = length ts"
    "\<forall>v. type_at ts' v = (if Suc b \<le> v \<and> v < Suc b + length ls then (f (type_at ?ts v))\<lparr>ty_idx := i + 1 + (v - Suc b)\<rparr>
       else type_at ?ts v)"
    using Cons.IH [OF rest, of ?ts "i + 1"] Cons.prems(2) by auto
  have "type_at ts' v = (if b \<le> v \<and> v < b + length (l # ls) then (f (type_at ts v))\<lparr>ty_idx := i + (v - b)\<rparr> else type_at ts v)" for v
    using ts'(3) l(2) by (auto simp: type_at_update Suc_diff_le not_less_eq_eq)
  then show ?case using ts'(1,2) l by (intro exI [of _ ts']) simp
qed auto

text \<open>Nodes of one kind that are numbered one after the other.\<close>

lemma table_ok_seq:
  assumes "0 < b" and "\<forall>v. flag (ty v) \<longleftrightarrow> b \<le> v \<and> v < b + length lits" and "\<forall>v. flag (ty v) \<longrightarrow> ty_idx (ty v) = v - b"
    and "\<forall>k < length lits. lits ! k = 2 * (b + k)"
  shows "table_ok flag ty lits"
  unfolding table_ok_def
proof (intro conjI allI impI)
  fix v assume v: "flag (ty v)"
  then have "b \<le> v" "v - b < length lits" "ty_idx (ty v) = v - b" using assms(2,3) by auto
  then show "ty_idx (ty v) < length lits" "lits ! ty_idx (ty v) = 2 * v" using assms(4) by auto
next
  fix k assume "k < length lits"
  then show "\<exists>v > 0. lits ! k = 2 * v \<and> flag (ty v) \<and> ty_idx (ty v) = k"
    using assms by (intro exI [of _ "b + k"]) auto
qed

end
