(* ===== verification/AigerReencoded.thy ===== *)
theory AigerReencoded
  imports AigerRenumbered
begin

text \<open>
  \<open>aiger_reencode\<close> as a whole: for a well-formed graph of the kind the builder accepts it returns, in both
  kinds of build, a graph in the binary order that has the same meaning.
\<close>

section \<open>The result\<close>

definition renumbered :: "aiger \<Rightarrow> nat list \<Rightarrow> aiger \<Rightarrow> bool" where
  "renumbered g L h \<longleftrightarrow>
     aig_maxvar h = length (order_of g L) \<and> aig_maxvar h < length (aig_types h) \<and> aig_error h = None \<and>
     aig_inputs h = map (\<lambda>s. s\<lparr>sym_lit := new_lit (order_of g L) (sym_lit s)\<rparr>) (aig_inputs g) \<and>
     aig_latches h = map (\<lambda>s. (new_latch (order_of g L) s)\<lparr>sym_lit := new_lit (order_of g L) (sym_lit s)\<rparr>) (aig_latches g) \<and>
     aig_outputs h = map (\<lambda>s. s\<lparr>sym_lit := new_lit (order_of g L) (sym_lit s)\<rparr>) (aig_outputs g) \<and>
     aig_bad h = map (\<lambda>s. s\<lparr>sym_lit := new_lit (order_of g L) (sym_lit s)\<rparr>) (aig_bad g) \<and>
     aig_constraints h = [] \<and> aig_justice h = [] \<and> aig_fairness h = [] \<and> aig_ands h = new_ands g L \<and>
     aig_comments h = aig_comments g \<and>
     (\<forall>v. ty_input (typed h v) \<longleftrightarrow> 1 \<le> v \<and> v < 1 + length (aig_inputs g)) \<and>
     (\<forall>v. ty_latch (typed h v) \<longleftrightarrow> 1 + length (aig_inputs g) \<le> v \<and> v < 1 + length (aig_inputs g) + length (aig_latches g)) \<and>
     (\<forall>v. ty_and (typed h v) \<longleftrightarrow> 1 + length (aig_inputs g) + length (aig_latches g) \<le> v \<and> v < 1 + length (order_of g L)) \<and>
     (\<forall>v. ty_input (typed h v) \<longrightarrow> ty_idx (typed h v) = v - 1) \<and>
     (\<forall>v. ty_latch (typed h v) \<longrightarrow> ty_idx (typed h v) = v - (1 + length (aig_inputs g))) \<and>
     (\<forall>v. ty_and (typed h v) \<longrightarrow> ty_idx (typed h v) = v - (1 + length (aig_inputs g) + length (aig_latches g))) \<and>
     (\<forall>v. \<not> ty_onstack (typed h v))"

text \<open>The literals that are used have a code.\<close>

definition covered :: "aiger \<Rightarrow> nat list \<Rightarrow> bool" where
  "covered g L \<longleftrightarrow> numbered g L \<and> (\<forall>s \<in> set (aig_latches g). live (order_of g L) (sym_next s)) \<and>
     (\<forall>s \<in> set (aig_outputs g @ aig_bad g). live (order_of g L) (sym_lit s))"

section \<open>It is well formed\<close>

lemma renumbered_types_ok:
  assumes ok: "types_ok g" and n: "numbered g L" and r: "renumbered g L h"
  shows "types_ok h"
  unfolding types_ok_def
proof (intro conjI)
  note r = r [unfolded renumbered_def]
  show "table_ok ty_input (typed h) (map sym_lit (aig_inputs h))"
    by (rule table_ok_seq [where b = 1]) (use r leaf_lits(1) [OF ok n] in simp_all)
  show "table_ok ty_latch (typed h) (map sym_lit (aig_latches h))"
    by (rule table_ok_seq [where b = "1 + length (aig_inputs g)"])
      (use r leaf_lits(2) [OF ok n] in \<open>simp_all add: new_latch_def\<close>)
  show "table_ok ty_and (typed h) (map and_lhs (aig_ands h))"
    by (rule table_ok_seq [where b = "1 + length (aig_inputs g) + length (aig_latches g)"])
      (use r new_ands_nth [OF ok n] order_size [of g L] in \<open>simp_all add: new_ands_def\<close>)
  show "\<forall>v. \<not> (ty_input (typed h v) \<and> ty_latch (typed h v)) \<and> \<not> (ty_input (typed h v) \<and> ty_and (typed h v)) \<and>
      \<not> (ty_latch (typed h v) \<and> ty_and (typed h v))" using r by auto
  show "\<forall>v. defined_var h v \<longrightarrow> v \<le> aig_maxvar h" using r order_size [of g L] by (auto simp: defined_var_def)
  show "aig_types h = [] \<and> aig_maxvar h = 0 \<or> aig_maxvar h < length (aig_types h)" using r by simp
qed

lemma renumbered_lit:
  assumes "renumbered g L h" and "live (order_of g L) l"
  shows "lit_defined h (new_lit (order_of g L) l)"
proof (cases "l < 2")
  case False
  then have v: "l div 2 \<in> set (order_of g L)" using assms(2) by (auto simp: live_def)
  have "new_lit (order_of g L) l div 2 = position (order_of g L) (l div 2) + 1" using False v by (simp add: new_lit_def)
  moreover have "position (order_of g L) (l div 2) + 1 < 1 + length (order_of g L)" using position_less [OF v] by simp
  ultimately show ?thesis
    using assms(1) unfolding renumbered_def lit_defined_def defined_var_def by (metis le_add2 not_less)
qed (simp add: new_lit_def lit_defined_def)

lemma new_ands_in:
  assumes "types_ok g" and "numbered g L" and "a \<in> set (new_ands g L)"
  obtains b where "b \<in> set (aig_ands g)" "and_lhs b div 2 \<in> set L" "a = new_and (order_of g L) b"
proof -
  obtain v where v: "v \<in> set L" "a = new_and (order_of g L) (gate_at g v)" using assms(3) by (auto simp: new_ands_def)
  then have "gate_at g v \<in> set (aig_ands g)" "and_lhs (gate_at g v) = 2 * v"
    using gate_at_in [OF assms(1), of v] assms(2) by (auto simp: numbered_def)
  then show ?thesis using that v by simp
qed

lemma renumbered_closed:
  assumes ok: "types_ok g" and cl: "aig_closed g" and n: "covered g L" and r: "renumbered g L h"
  shows "aig_closed h"
  unfolding aig_closed_def
proof (intro conjI ballI)
  have num: "numbered g L" using n by (simp add: covered_def)
  fix a assume "a \<in> set (aig_ands h)"
  then have "a \<in> set (new_ands g L)" using r by (simp add: renumbered_def)
  then obtain b where b: "b \<in> set (aig_ands g)" "and_lhs b div 2 \<in> set L" "a = new_and (order_of g L) b"
    by (rule new_ands_in [OF ok num])
  have "live (order_of g L) (and_rhs0 b)" "live (order_of g L) (and_rhs1 b)"
    using numbered_child(1) [OF ok cl num b(1,2)] by simp_all
  then have "lit_defined h (new_lit (order_of g L) (and_rhs0 b))" "lit_defined h (new_lit (order_of g L) (and_rhs1 b))"
    using renumbered_lit [OF r] by blast+
  then show "lit_defined h (and_rhs0 a)" "lit_defined h (and_rhs1 a)"
    by (simp_all add: b(3) new_and_def max_def min_def)
next
  fix s assume "s \<in> set (aig_latches h)"
  then show "lit_defined h (sym_next s)"
    using r n renumbered_lit [OF r] by (auto simp: renumbered_def covered_def new_latch_def)
next
  fix s assume "s \<in> set (aig_outputs h @ aig_bad h)"
  then show "lit_defined h (sym_lit s)"
    using r n renumbered_lit [OF r] by (auto simp: renumbered_def covered_def)
qed

lemma new_and_less:
  assumes ok: "types_ok g" and cl: "aig_closed g" and n: "numbered g L" and a: "a \<in> set (new_ands g L)"
  shows "and_rhs0 a < and_lhs a" and "and_rhs1 a \<le> and_rhs0 a"
proof -
  obtain b where b: "b \<in> set (aig_ands g)" "and_lhs b div 2 \<in> set L" "a = new_and (order_of g L) b"
    by (rule new_ands_in [OF ok n a])
  show "and_rhs0 a < and_lhs a" "and_rhs1 a \<le> and_rhs0 a"
    using numbered_child(2) [OF ok cl n b(1,2)] by (simp_all add: b(3) new_and_def)
qed

lemma renumbered_decreasing:
  assumes ok: "types_ok g" and cl: "aig_closed g" and n: "numbered g L" and r: "renumbered g L h"
  shows "decreasing h (\<lambda>v. v)"
  unfolding decreasing_def
proof (intro allI ballI impI)
  fix v c assume c: "c \<in> gate_children h v" and v: "ty_and (typed h v)"
  let ?a = "aig_ands h ! ty_idx (typed h v)"
  have a: "?a \<in> set (new_ands g L)" "and_lhs ?a = 2 * v"
    using node_of(3) [OF renumbered_types_ok [OF ok n r] v] r by (auto simp: renumbered_def)
  have "c = and_rhs0 ?a div 2 \<or> c = and_rhs1 ?a div 2" using c by (auto simp: gate_children_def Let_def)
  then show "c < v" using new_and_less [OF ok cl n a(1)] a(2) by auto
qed

lemma consecutive_map:
  "\<forall>k < length ss. sym_lit (ss ! k) = 2 * (b + k + 1) \<Longrightarrow> consecutive_from (2 * b) ss = Some (2 * (b + length ss))"
proof (induction ss arbitrary: b)
  case (Cons s ss)
  have "sym_lit s = 2 * b + 2" using Cons.prems [rule_format, of 0] by simp
  moreover have "sym_lit (ss ! k) = 2 * (Suc b + k + 1)" if "k < length ss" for k
    using Cons.prems [rule_format, of "Suc k"] that by simp
  ultimately show ?case using Cons.IH [of "Suc b"] by simp
qed simp

lemma max_lit_map:
  "\<forall>k < length ss. sym_lit (ss ! k) = 2 * (b + k + 1) \<Longrightarrow> max_lit d ss (2 * b) = Some (2 * (b + length ss))"
proof (induction ss arbitrary: b)
  case (Cons s ss)
  have "sym_lit s = 2 * (b + 1)" using Cons.prems [rule_format, of 0] by simp
  moreover have "sym_lit (ss ! k) = 2 * (Suc b + k + 1)" if "k < length ss" for k
    using Cons.prems [rule_format, of "Suc k"] that by simp
  ultimately show ?case using Cons.IH [of "Suc b"] by (simp add: aiger_sign_def)
qed simp

lemma ands_from_map:
  "\<forall>k < length as. and_lhs (as ! k) = lhs + 2 * k \<Longrightarrow> mx < lhs \<Longrightarrow>
    \<forall>a \<in> set as. and_rhs0 a < and_lhs a \<and> and_rhs1 a \<le> and_rhs0 a \<Longrightarrow> ands_from mx lhs as"
proof (induction as arbitrary: lhs)
  case (Cons a as)
  have "and_lhs a = lhs" using Cons.prems(1) [rule_format, of 0] by simp
  moreover have "and_lhs (as ! k) = (lhs + 2) + 2 * k" if "k < length as" for k
    using Cons.prems(1) [rule_format, of "Suc k"] that by simp
  ultimately show ?case using Cons.IH [of "lhs + 2"] Cons.prems(2,3) by auto
qed simp

lemma renumbered_reencoded:
  assumes ok: "types_ok g" and cl: "aig_closed g" and n: "numbered g L" and r: "renumbered g L h"
  shows "aiger_is_reencoded d h = Some True"
proof -
  note r = r [unfolded renumbered_def]
  have ins: "\<forall>k < length (aig_inputs h). sym_lit (aig_inputs h ! k) = 2 * (0 + k + 1)"
    using r leaf_lits(1) [OF ok n] by simp
  have las: "\<forall>k < length (aig_latches h). sym_lit (aig_latches h ! k) = 2 * (length (aig_inputs h) + k + 1)"
    using r leaf_lits(2) [OF ok n] by simp
  have ands: "ands_from (2 * (length (aig_inputs h) + length (aig_latches h)))
      (2 * (length (aig_inputs h) + length (aig_latches h)) + 2) (aig_ands h)"
    by (rule ands_from_map) (use r new_ands_nth [OF ok n] new_and_less [OF ok cl n] in \<open>simp_all add: new_ands_def\<close>)
  show ?thesis
    using consecutive_map [OF ins] consecutive_map [OF las] max_lit_map [OF ins, of d] max_lit_map [OF las, of d] ands
    by (simp add: aiger_is_reencoded_def aiger_max_input_or_latch_def)
qed


section \<open>It has the same meaning\<close>

lemma renumbered_valuation:
  assumes ok: "types_ok g" and cl: "aig_closed g" and n: "numbered g L" and r: "renumbered g L h"
    and w: "aig_valuation g s i w"
  obtains w' where "aig_valuation h s i w'"
    and "\<forall>l. live (order_of g L) l \<longrightarrow> lit_val w' (new_lit (order_of g L) l) = lit_val w l"
proof
  let ?O = "order_of g L"
  let ?w = "\<lambda>v. v \<noteq> 0 \<and> w (?O ! (v - 1))"
  have z: "\<not> w 0" using w by (simp add: aig_valuation_def)
  have val: "lit_val ?w (new_lit ?O l) = lit_val w l" if live: "live ?O l" for l
  proof (cases "l < 2")
    case True
    then have "l div 2 = 0" by simp
    then show ?thesis using z True by (simp add: new_lit_def lit_val_def)
  next
    case False
    then have v: "l div 2 \<in> set ?O" using live by (auto simp: live_def)
    then have "new_lit ?O l div 2 = position ?O (l div 2) + 1" "new_lit ?O l mod 2 = l mod 2"
      using False by (simp_all add: new_lit_def)
    then show ?thesis using position_nth [OF v] by (simp add: lit_val_def)
  qed
  then show "\<forall>l. live ?O l \<longrightarrow> lit_val ?w (new_lit ?O l) = lit_val w l" by blast
  have gate: "gate_ok ?w a" if a: "a \<in> set (new_ands g L)" for a
  proof -
    obtain b where b: "b \<in> set (aig_ands g)" "and_lhs b div 2 \<in> set L" "a = new_and ?O b"
      by (rule new_ands_in [OF ok n a])
    have live: "live ?O (and_rhs0 b)" "live ?O (and_rhs1 b)" "live ?O (and_lhs b)"
      using numbered_child(1) [OF ok cl n b(1,2)] b(2) by (simp_all add: live_def order_of_def)
    have "lit_val ?w (and_lhs a) = w (and_lhs b div 2)"
      using val [OF live(3)] gate_at_lhs [OF ok b(1)] by (simp add: b(3) new_and_def lit_val_def)
    moreover have "lit_val ?w (and_lhs a) = ?w (and_lhs a div 2)"
      using gate_at_lhs [OF ok b(1)] by (simp add: b(3) new_and_def lit_val_def new_lit_def)
    moreover have "(lit_val ?w (and_rhs0 a) \<and> lit_val ?w (and_rhs1 a)) = (lit_val w (and_rhs0 b) \<and> lit_val w (and_rhs1 b))"
      using val [OF live(1)] val [OF live(2)] by (auto simp: b(3) new_and_def max_def min_def)
    ultimately show ?thesis using w b(1) by (auto simp: gate_ok_def aig_valuation_def)
  qed
  have "?w (sym_lit (aig_inputs h ! k) div 2) = i ! k" if "k < length (aig_inputs h)" for k
    using that r w leaf_lits(1) [OF ok n, of k] order_nth(1) [OF ok, of k L] by (simp add: renumbered_def aig_valuation_def)
  moreover have "?w (sym_lit (aig_latches h ! k) div 2) = s ! k" if "k < length (aig_latches h)" for k
    using that r w leaf_lits(2) [OF ok n, of k] order_nth(2) [OF ok, of k L] by (simp add: renumbered_def aig_valuation_def)
  ultimately show "aig_valuation h s i ?w" using gate r by (simp add: aig_valuation_def renumbered_def)
qed

definition same_meaning :: "aiger \<Rightarrow> aiger \<Rightarrow> bool" where
  "same_meaning g h \<longleftrightarrow>
     length (aig_inputs h) = length (aig_inputs g) \<and> length (aig_latches h) = length (aig_latches g) \<and>
     length (aig_outputs h) = length (aig_outputs g) \<and> length (aig_bad h) = length (aig_bad g) \<and>
     (\<forall>s. aig_init h s = aig_init g s) \<and> (\<forall>s i t. aig_step h s i t = aig_step g s i t) \<and>
     (\<forall>s i. aig_raises h s i = aig_raises g s i)"

lemma same_meaning_refl: "same_meaning g g"
  by (simp add: same_meaning_def)

lemma renumbered_meaning:
  assumes ok: "types_ok g" and cl: "aig_closed g" and ac: "acyclic (gate_edges g)" and re: "\<forall>s \<in> set (aig_latches g). reset_ok s"
    and one: "aig_outputs g @ aig_bad g \<noteq> []"
    and n: "covered g L" and r: "renumbered g L h" and h: "aig_ok h"
  shows "same_meaning g h"
proof -
  let ?O = "order_of g L"
  have num: "numbered g L" using n by (simp add: covered_def)
  note rd = r [unfolded renumbered_def]
  have len: "length (aig_inputs h) = length (aig_inputs g)" "length (aig_latches h) = length (aig_latches g)"
    "length (aig_outputs h) = length (aig_outputs g)" "length (aig_bad h) = length (aig_bad g)" using rd by simp_all
  have reset: "sym_reset (aig_latches h ! k) = c \<longleftrightarrow> sym_reset (aig_latches g ! k) = c"
    if k: "k < length (aig_latches g)" and c: "c < 2" for k c
  proof -
    have "aig_latches g ! k \<in> set (aig_latches g)" using k by simp
    then have "sym_reset (aig_latches g ! k) < 2 \<or> sym_reset (aig_latches g ! k) = sym_lit (aig_latches g ! k)"
      using re by (auto simp: reset_ok_def)
    moreover have "2 \<le> new_lit ?O (sym_lit (aig_latches g ! k))" using leaf_lits(2) [OF ok num k] by simp
    moreover have "2 \<le> sym_lit (aig_latches g ! k)" using node_at(2) [OF ok k] by auto
    moreover have "sym_reset (aig_latches h ! k) = new_lit ?O (sym_reset (aig_latches g ! k))"
      using rd k by (simp add: new_latch_def)
    ultimately show ?thesis using c by (auto simp: new_lit_def)
  qed
  have init: "aig_init h s = aig_init g s" for s using reset len by (auto simp: aig_init_def)
  have err: "aig_error_lit h = new_lit ?O (aig_error_lit g)" "live ?O (aig_error_lit g)"
  proof -
    obtain x xs where x: "aig_outputs g @ aig_bad g = x # xs" using one by (cases "aig_outputs g @ aig_bad g") auto
    have "aig_outputs h @ aig_bad h = map (\<lambda>s. s\<lparr>sym_lit := new_lit ?O (sym_lit s)\<rparr>) (aig_outputs g @ aig_bad g)"
      using rd by simp
    then show "aig_error_lit h = new_lit ?O (aig_error_lit g)" unfolding aig_error_lit_def x by simp
    have "x \<in> set (aig_outputs g @ aig_bad g)" by (simp only: x list.set_intros)
    then show "live ?O (aig_error_lit g)" using n x unfolding aig_error_lit_def covered_def by (simp del: set_append)
  qed
  have hc: "aig_closed h" "types_ok h" using h by (simp_all add: aig_ok_def)
  have erd: "lit_defined h (aig_error_lit h)" using renumbered_lit [OF r err(2)] err(1) by simp
  have nexts: "map (\<lambda>l. lit_val w' (sym_next l)) (aig_latches h) = map (\<lambda>l. lit_val w (sym_next l)) (aig_latches g)"
    if "\<forall>l. live ?O l \<longrightarrow> lit_val w' (new_lit ?O l) = lit_val w l" for w w'
    using that n rd by (auto simp: covered_def new_latch_def)
  have step: "aig_step h s i t = aig_step g s i t" for s i t
  proof
    assume g: "aig_step g s i t"
    then obtain w where w: "aig_valuation g s i w" "t = map (\<lambda>l. lit_val w (sym_next l)) (aig_latches g)"
      by (auto simp: aig_step_def)
    obtain w' where w': "aig_valuation h s i w'" "\<forall>l. live ?O l \<longrightarrow> lit_val w' (new_lit ?O l) = lit_val w l"
      by (rule renumbered_valuation [OF ok cl num r w(1)])
    have "t = map (\<lambda>l. lit_val w' (sym_next l)) (aig_latches h)" using nexts [OF w'(2)] w(2) by simp
    then show "aig_step h s i t" using g w'(1) len by (auto simp: aig_step_def)
  next
    assume st: "aig_step h s i t"
    obtain w where w: "aig_valuation g s i w" using wf_valuation_exists [OF ok ac] by blast
    obtain w' where w': "aig_valuation h s i w'" "\<forall>l. live ?O l \<longrightarrow> lit_val w' (new_lit ?O l) = lit_val w l"
      by (rule renumbered_valuation [OF ok cl num r w])
    have s: "length s = length (aig_latches h)" "length i = length (aig_inputs h)" using st by (auto simp: aig_step_def)
    have "aig_step h s i (map (\<lambda>l. lit_val w' (sym_next l)) (aig_latches h))" using s w'(1) by (auto simp: aig_step_def)
    then have "t = map (\<lambda>l. lit_val w (sym_next l)) (aig_latches g)"
      using aig_step_functional [OF h s] st nexts [OF w'(2)] by metis
    then show "aig_step g s i t" using w s len by (auto simp: aig_step_def)
  qed
  have raises: "aig_raises h s i = aig_raises g s i" for s i
  proof -
    have "(\<exists>w. aig_valuation h s i w \<and> lit_val w (aig_error_lit h)) \<longleftrightarrow> (\<exists>w. aig_valuation g s i w \<and> lit_val w (aig_error_lit g))"
    proof
      assume "\<exists>w. aig_valuation g s i w \<and> lit_val w (aig_error_lit g)"
      then obtain w where w: "aig_valuation g s i w" "lit_val w (aig_error_lit g)" by blast
      obtain w' where "aig_valuation h s i w'" "\<forall>l. live ?O l \<longrightarrow> lit_val w' (new_lit ?O l) = lit_val w l"
        by (rule renumbered_valuation [OF ok cl num r w(1)])
      then show "\<exists>w. aig_valuation h s i w \<and> lit_val w (aig_error_lit h)" using err w(2) by auto
    next
      assume "\<exists>w. aig_valuation h s i w \<and> lit_val w (aig_error_lit h)"
      then obtain w1 where w1: "aig_valuation h s i w1" "lit_val w1 (aig_error_lit h)" by blast
      obtain w where w: "aig_valuation g s i w" using wf_valuation_exists [OF ok ac] by blast
      obtain w' where w': "aig_valuation h s i w'" "\<forall>l. live ?O l \<longrightarrow> lit_val w' (new_lit ?O l) = lit_val w l"
        by (rule renumbered_valuation [OF ok cl num r w])
      have "lit_val w' (aig_error_lit h)" using valuation_unique [OF h w1(1) w'(1) erd] w1(2) by simp
      then show "\<exists>w. aig_valuation g s i w \<and> lit_val w (aig_error_lit g)" using w w'(2) err by auto
    qed
    then show ?thesis using len by (simp add: aig_raises_def)
  qed
  show ?thesis using len init step raises by (simp add: same_meaning_def)
qed


section \<open>The run\<close>

lemma recode_leaves_runs:
  assumes ok: "types_ok g" and c: "coded g order r"
  shows "\<forall>s \<in> set ss. lit_defined g (sym_lit s) \<Longrightarrow>
    recode_leaves d (re_code r) ss = Some (map (\<lambda>s. s\<lparr>sym_lit := new_lit order (sym_lit s)\<rparr>) ss)"
proof (induction ss)
  case (Cons s ss)
  have v: "vec_at (re_code r) (sym_lit s) = Some (new_lit order (sym_lit s))" using lit_in_code [OF ok c] Cons.prems by simp
  then have "sym_lit s < length (re_code r)" by (auto simp: vec_at_def split: if_splits)
  then show ?case using Cons v by (simp add: assert_that_holds)
qed simp

lemma codes_start:
  assumes ok: "types_ok g" and off: "\<forall>v. \<not> ty_onstack (typed g v)"
    and r: "r = \<lparr>re_graph = g, re_new = 2, re_code = (replicate (2 * (aig_maxvar g + 1)) 0)[1 := 1]\<rparr>"
  shows "\<exists>r1 r2. code_leaves r (aig_inputs g) = Some r1 \<and> code_leaves r1 (aig_latches g) = Some r2 \<and> renumbering g f [] [] r2"
proof -
  have c: "coded g [] r" by (auto simp: coded_def r new_lit_def nth_list_update simp del: replicate.simps)
  have ds: "distinct (leaves g)" by (rule leaves_distinct [OF ok])
  have ins: "\<forall>s \<in> set (aig_inputs g). sym_lit s mod 2 = 0 \<and> 0 < sym_lit s \<and> sym_lit s div 2 \<le> aig_maxvar g"
    and las: "\<forall>s \<in> set (aig_latches g). sym_lit s mod 2 = 0 \<and> 0 < sym_lit s \<and> sym_lit s div 2 \<le> aig_maxvar g"
    using leaf_lit [OF ok] by auto
  obtain r1 where r1: "code_leaves r (aig_inputs g) = Some r1" "coded g (map (\<lambda>s. sym_lit s div 2) (aig_inputs g)) r1" "re_graph r1 = g"
    using code_leaves_runs [OF c _ ins] ds by (auto simp: leaves_def r)
  obtain r2 where r2: "code_leaves r1 (aig_latches g) = Some r2" "coded g (leaves g) r2" "re_graph r2 = g"
    using code_leaves_runs [OF r1(2) _ las] ds r1(3) by (auto simp: leaves_def)
  have "renumbering g f [] [] r2"
    using r2(2,3) off zero_undefined(3) [OF ok] by (simp add: renumbering_def marks_only_refl search_ok_def pendings_def)
  then show ?thesis using r1(1) r2(1) by blast
qed

text \<open>Building the table anew.\<close>

lemma new_table:
  assumes ok: "types_ok g" and m: "marks_only g h" and off: "\<forall>v. \<not> ty_onstack (typed h v)" and n: "numbered g L"
    and as: "length as = length L" "\<forall>k < length as. as ! k = 2 * (length (aig_inputs g) + length (aig_latches g) + k + 1)"
    and ls: "length ls = length (aig_latches g)" "\<forall>k < length ls. ls ! k = 2 * (length (aig_inputs g) + k + 1)"
    and is1: "length is1 = length (aig_inputs g)" "\<forall>k < length is1. is1 ! k = 2 * (k + 1)"
  shows "\<exists>t0 t1 t2 t3. reset_types (aig_types h) [1..<aig_maxvar g + 1] = Some t0 \<and>
    retype (\<lambda>t. t\<lparr>ty_and := True\<rparr>) t0 0 as = Some t1 \<and> retype (\<lambda>t. t\<lparr>ty_input := True\<rparr>) t1 0 is1 = Some t2 \<and>
    retype (\<lambda>t. t\<lparr>ty_latch := True\<rparr>) t2 0 ls = Some t3 \<and> length t3 = length (aig_types g) \<and>
    (\<forall>v. \<not> ty_onstack (type_at t3 v)) \<and>
    (\<forall>v. ty_input (type_at t3 v) \<longleftrightarrow> 1 \<le> v \<and> v < 1 + length (aig_inputs g)) \<and>
    (\<forall>v. ty_latch (type_at t3 v) \<longleftrightarrow> 1 + length (aig_inputs g) \<le> v \<and> v < 1 + length (aig_inputs g) + length (aig_latches g)) \<and>
    (\<forall>v. ty_and (type_at t3 v) \<longleftrightarrow> 1 + length (aig_inputs g) + length (aig_latches g) \<le> v \<and> v < 1 + length (order_of g L)) \<and>
    (\<forall>v. ty_input (type_at t3 v) \<longrightarrow> ty_idx (type_at t3 v) = v - 1) \<and>
    (\<forall>v. ty_latch (type_at t3 v) \<longrightarrow> ty_idx (type_at t3 v) = v - (1 + length (aig_inputs g))) \<and>
    (\<forall>v. ty_and (type_at t3 v) \<longrightarrow> ty_idx (type_at t3 v) = v - (1 + length (aig_inputs g) + length (aig_latches g)))"
proof -
  let ?ni = "length (aig_inputs g)" and ?nl = "length (aig_latches g)"
  have size: "1 + ?ni + ?nl + length L \<le> 1 + aig_maxvar g" using order_length [OF ok n] order_size [of g L] by simp
  have len: "length (aig_types h) = length (aig_types g)" using m by (simp add: marks_only_def)
  have top: "aig_maxvar g < length (aig_types g) \<or> aig_maxvar g = 0 \<and> aig_types g = []" using ok by (auto simp: types_ok_def)
  have fits: "1 + ?ni + ?nl + length L \<le> length (aig_types g) \<or> ?ni = 0 \<and> ?nl = 0 \<and> L = []" using top size by auto
  obtain t0 where t0: "reset_types (aig_types h) [1..<aig_maxvar g + 1] = Some t0" "length t0 = length (aig_types g)"
    "\<forall>v. type_at t0 v = (if v \<in> set [1..<aig_maxvar g + 1] then untyped (typed h v) else typed h v)"
    using reset_types_runs [of "[1..<aig_maxvar g + 1]" "aig_types h"] top len unfolding typed_def by fastforce
  have clean: "\<not> ty_input (type_at t0 v) \<and> \<not> ty_latch (type_at t0 v) \<and> \<not> ty_and (type_at t0 v) \<and> \<not> ty_onstack (type_at t0 v)" for v
  proof (cases "v \<in> set [1..<aig_maxvar g + 1]")
    case False
    then have "\<not> defined_var g v" using var_bounds(1,2) [OF ok, of v] by auto
    moreover have "type_at t0 v = typed h v" using t0(3) [rule_format, of v] unfolding if_not_P [OF False] .
    ultimately show ?thesis using off marks_only_sel(1-3) [OF m, of v] by (simp add: defined_var_def)
  next
    case True
    have "type_at t0 v = untyped (typed h v)" using t0(3) [rule_format, of v] unfolding if_P [OF True] .
    then show ?thesis using off by (simp add: untyped_def)
  qed
  have a1: "\<forall>k < length as. as ! k = 2 * ((1 + ?ni + ?nl) + k)" "as = [] \<or> 1 + ?ni + ?nl + length as \<le> length t0"
    using as fits t0(2) by auto
  obtain t1 where t1: "retype (\<lambda>t. t\<lparr>ty_and := True\<rparr>) t0 0 as = Some t1" "length t1 = length t0"
    "\<forall>v. type_at t1 v = (if 1 + ?ni + ?nl \<le> v \<and> v < 1 + ?ni + ?nl + length as
       then ((type_at t0 v)\<lparr>ty_and := True\<rparr>)\<lparr>ty_idx := 0 + (v - (1 + ?ni + ?nl))\<rparr> else type_at t0 v)"
    using retype_runs [OF a1] by blast
  have i1: "\<forall>k < length is1. is1 ! k = 2 * (1 + k)" "is1 = [] \<or> 1 + length is1 \<le> length t1"
    using is1 fits t0(2) t1(2) by auto
  obtain t2 where t2: "retype (\<lambda>t. t\<lparr>ty_input := True\<rparr>) t1 0 is1 = Some t2" "length t2 = length t1"
    "\<forall>v. type_at t2 v = (if 1 \<le> v \<and> v < 1 + length is1
       then ((type_at t1 v)\<lparr>ty_input := True\<rparr>)\<lparr>ty_idx := 0 + (v - 1)\<rparr> else type_at t1 v)"
    using retype_runs [OF i1] by blast
  have l1: "\<forall>k < length ls. ls ! k = 2 * ((1 + ?ni) + k)" "ls = [] \<or> 1 + ?ni + length ls \<le> length t2"
    using ls fits t0(2) t1(2) t2(2) by auto
  obtain t3 where t3: "retype (\<lambda>t. t\<lparr>ty_latch := True\<rparr>) t2 0 ls = Some t3" "length t3 = length t2"
    "\<forall>v. type_at t3 v = (if 1 + ?ni \<le> v \<and> v < 1 + ?ni + length ls
       then ((type_at t2 v)\<lparr>ty_latch := True\<rparr>)\<lparr>ty_idx := 0 + (v - (1 + ?ni))\<rparr> else type_at t2 v)"
    using retype_runs [OF l1] by blast
  have ty: "type_at t3 v =
      (if 1 + ?ni \<le> v \<and> v < 1 + ?ni + ?nl then ((type_at t0 v)\<lparr>ty_latch := True\<rparr>)\<lparr>ty_idx := v - (1 + ?ni)\<rparr>
       else if 1 \<le> v \<and> v < 1 + ?ni then ((type_at t0 v)\<lparr>ty_input := True\<rparr>)\<lparr>ty_idx := v - 1\<rparr>
       else if 1 + ?ni + ?nl \<le> v \<and> v < 1 + ?ni + ?nl + length L
       then ((type_at t0 v)\<lparr>ty_and := True\<rparr>)\<lparr>ty_idx := v - (1 + ?ni + ?nl)\<rparr> else type_at t0 v)" for v
    using t1(3) t2(3) t3(3) as(1) ls(1) is1(1) by simp
  have flags: "ty_input (type_at t3 v) \<longleftrightarrow> 1 \<le> v \<and> v < 1 + ?ni"
    "ty_latch (type_at t3 v) \<longleftrightarrow> 1 + ?ni \<le> v \<and> v < 1 + ?ni + ?nl"
    "ty_and (type_at t3 v) \<longleftrightarrow> 1 + ?ni + ?nl \<le> v \<and> v < 1 + ?ni + ?nl + length L" "\<not> ty_onstack (type_at t3 v)" for v
    using clean [of v] unfolding ty by auto
  have idx: "ty_input (type_at t3 v) \<Longrightarrow> ty_idx (type_at t3 v) = v - 1"
    "ty_latch (type_at t3 v) \<Longrightarrow> ty_idx (type_at t3 v) = v - (1 + ?ni)"
    "ty_and (type_at t3 v) \<Longrightarrow> ty_idx (type_at t3 v) = v - (1 + ?ni + ?nl)" for v
    unfolding flags by (simp_all add: ty)
  have "length t3 = length (aig_types g)" using t0(2) t1(2) t2(2) t3(2) by simp
  then show ?thesis
    using t0(1) t1(1) t2(1) t3(1) flags idx order_size [of g L]
    by (intro exI [of _ t0] exI [of _ t1] exI [of _ t2] exI [of _ t3]) simp
qed

text \<open>The literals of latches, outputs and bad states are recoded one after the other; later codes do not
  change what was recoded before.\<close>

lemma recode_runs:
  assumes ok: "types_ok g" and cl: "aig_closed g" and dec: "decreasing g f"
    and re: "\<forall>s \<in> set (aig_latches g). reset_ok s" and start: "renumbering g f [] [] r"
  shows "\<exists>L r3 r4 r5. recode_latches d r (aig_latches g) = Some (map (new_latch (order_of g L)) (aig_latches g), r3) \<and>
    recode_symbols d r3 (aig_outputs g) =
      Some (map (\<lambda>s. s\<lparr>sym_lit := new_lit (order_of g L) (sym_lit s)\<rparr>) (aig_outputs g), r4) \<and>
    recode_symbols d r4 (aig_bad g) =
      Some (map (\<lambda>s. s\<lparr>sym_lit := new_lit (order_of g L) (sym_lit s)\<rparr>) (aig_bad g), r5) \<and>
    renumbering g f [] L r5 \<and> covered g L"
proof -
  have "lit_defined g (sym_next s) \<and> lit_defined g (sym_reset s)" if s: "s \<in> set (aig_latches g)" for s
  proof -
    have "lit_defined g (sym_lit s)" "reset_ok s" using leaf_lit(4) [OF ok] re s by auto
    then have "lit_defined g (sym_reset s)" by (cases "sym_reset s \<le> 1") (simp_all add: reset_ok_def lit_defined_def)
    then show ?thesis using cl s by (simp add: aig_closed_def)
  qed
  then have "\<forall>s \<in> set (aig_latches g). lit_defined g (sym_next s) \<and> lit_defined g (sym_reset s)" by blast
  then obtain r3 M3 where r3: "recode_latches d r (aig_latches g) = Some (map (new_latch (order_of g M3)) (aig_latches g), r3)"
    "renumbering g f [] M3 r3" "\<forall>s \<in> set (aig_latches g). live (order_of g M3) (sym_next s) \<and> live (order_of g M3) (sym_reset s)"
    using recode_latches_runs [OF ok cl dec start, unfolded append_Nil2] by blast
  have defs: "\<forall>s \<in> set (aig_outputs g). lit_defined g (sym_lit s)" "\<forall>s \<in> set (aig_bad g). lit_defined g (sym_lit s)"
    using cl by (auto simp: aig_closed_def)
  obtain r4 M4 where r4: "recode_symbols d r3 (aig_outputs g) =
      Some (map (\<lambda>s. s\<lparr>sym_lit := new_lit (order_of g (M4 @ M3)) (sym_lit s)\<rparr>) (aig_outputs g), r4)"
    "renumbering g f [] (M4 @ M3) r4" "\<forall>s \<in> set (aig_outputs g). live (order_of g (M4 @ M3)) (sym_lit s)"
    using recode_symbols_runs [OF ok cl dec r3(2) defs(1)] by blast
  obtain r5 M5 where r5: "recode_symbols d r4 (aig_bad g) =
      Some (map (\<lambda>s. s\<lparr>sym_lit := new_lit (order_of g (M5 @ M4 @ M3)) (sym_lit s)\<rparr>) (aig_bad g), r5)"
    "renumbering g f [] (M5 @ M4 @ M3) r5" "\<forall>s \<in> set (aig_bad g). live (order_of g (M5 @ M4 @ M3)) (sym_lit s)"
    using recode_symbols_runs [OF ok cl dec r4(2) defs(2)] by blast
  let ?O = "order_of g (M5 @ M4 @ M3)"
  have "map (new_latch (order_of g M3)) (aig_latches g) = map (new_latch ?O) (aig_latches g)"
    using r3(3) by (auto simp: new_latch_def)
  then have lat: "recode_latches d r (aig_latches g) = Some (map (new_latch ?O) (aig_latches g), r3)"
    using r3(1) by (simp only:)
  have "map (\<lambda>s. s\<lparr>sym_lit := new_lit (order_of g (M4 @ M3)) (sym_lit s)\<rparr>) (aig_outputs g) =
      map (\<lambda>s. s\<lparr>sym_lit := new_lit ?O (sym_lit s)\<rparr>) (aig_outputs g)"
    using r4(3) by auto
  then have out: "recode_symbols d r3 (aig_outputs g) =
      Some (map (\<lambda>s. s\<lparr>sym_lit := new_lit ?O (sym_lit s)\<rparr>) (aig_outputs g), r4)"
    using r4(1) by (simp only:)
  have "covered g (M5 @ M4 @ M3)"
    using renumbering_numbered [OF r5(2)] r3(3) r4(3) r5(3) by (auto simp: covered_def)
  then show ?thesis
    by (intro exI [of _ "M5 @ M4 @ M3"] exI [of _ r3] exI [of _ r4] exI [of _ r5] conjI lat out r5(1,2))
qed

text \<open>The graph without the two checks of a build with assertions.\<close>

lemma reencode_core:
  assumes ok: "types_ok g" and cl: "aig_closed g" and dec: "decreasing g f" and e: "aig_error g = None"
    and re: "\<forall>s \<in> set (aig_latches g). reset_ok s" and off: "\<forall>v. \<not> ty_onstack (typed g v)"
    and none: "aig_constraints g = []" "aig_justice g = []" "aig_fairness g = []"
    and b: "aiger_is_reencoded d g = Some False"
  shows "\<exists>L h. covered g L \<and> renumbered g L h \<and> aiger_reencode d g = do {
     b \<leftarrow> (if d then aiger_is_reencoded d h else Some True);
     assert_that d b;
     g \<leftarrow> (if d then aiger_check d h else Some h);
     assert_that d (aig_error g = None);
     Some g }"
proof -
  let ?r = "\<lparr>re_graph = g, re_new = 2, re_code = (replicate (2 * (aig_maxvar g + 1)) 0)[1 := 1]\<rparr>"
  obtain r1 r2 where start: "code_leaves ?r (aig_inputs g) = Some r1" "code_leaves r1 (aig_latches g) = Some r2"
    "renumbering g f [] [] r2" using codes_start [OF ok off refl] by blast
  have lats: "\<forall>s \<in> set (aig_latches g). lit_defined g (sym_lit s)" using leaf_lit(4) [OF ok] by auto
  obtain L r3 r4 r5 where r: "recode_latches d r2 (aig_latches g) = Some (map (new_latch (order_of g L)) (aig_latches g), r3)"
    "recode_symbols d r3 (aig_outputs g) =
      Some (map (\<lambda>s. s\<lparr>sym_lit := new_lit (order_of g L) (sym_lit s)\<rparr>) (aig_outputs g), r4)"
    "recode_symbols d r4 (aig_bad g) =
      Some (map (\<lambda>s. s\<lparr>sym_lit := new_lit (order_of g L) (sym_lit s)\<rparr>) (aig_bad g), r5)"
    "renumbering g f [] L r5" and cov: "covered g L"
    using recode_runs [OF ok cl dec re start(3), of d] by - (elim exE conjE, rule that, assumption+)
  let ?O = "order_of g L"
  have n: "numbered g L" and c: "coded g ?O r5" and m: "marks_only g (re_graph r5)"
    and offs: "\<forall>v. \<not> ty_onstack (typed (re_graph r5) v)"
    using renumbering_numbered [OF r(4)] renumbering_coded [OF r(4)] r(4) by (simp_all add: renumbering_def)
  have sel: "aig_ands (re_graph r5) = aig_ands g" "aig_inputs (re_graph r5) = aig_inputs g" "aig_maxvar (re_graph r5) = aig_maxvar g"
    "aig_error (re_graph r5) = aig_error g" using marks_only_sel [OF m] by simp_all
  have com: "aig_comments (re_graph r5) = aig_comments g" using m by (cases g; cases "re_graph r5"; simp add: marks_only_def)
  have sel2: "aig_constraints g = []" "aig_justice g = []" "aig_fairness g = []" by (fact none)+
  have ands: "recode_ands d (re_code r5) (aig_ands g) =
      Some (map (new_and ?O) (filter (\<lambda>a. and_lhs a div 2 \<in> set L) (aig_ands g)))"
    by (rule recode_ands_runs [OF ok cl n c]) simp
  let ?ins = "map (\<lambda>s. s\<lparr>sym_lit := new_lit ?O (sym_lit s)\<rparr>) (aig_inputs g)"
  let ?las = "map (\<lambda>s. (new_latch ?O s)\<lparr>sym_lit := new_lit ?O (sym_lit s)\<rparr>) (aig_latches g)"
  have "\<forall>s \<in> set (aig_inputs g). lit_defined g (sym_lit s)" using leaf_lit(4) [OF ok] by auto
  then have ins: "recode_leaves d (re_code r5) (aig_inputs g) = Some ?ins" by (rule recode_leaves_runs [OF ok c])
  have "\<forall>s \<in> set (map (new_latch ?O) (aig_latches g)). lit_defined g (sym_lit s)"
    using lats by (simp add: new_latch_def)
  then have las: "recode_leaves d (re_code r5) (map (new_latch ?O) (aig_latches g)) = Some ?las"
    using recode_leaves_runs [OF ok c] by (simp add: comp_def new_latch_def)
  obtain t0 t1 t2 t3 where tab: "reset_types (aig_types (re_graph r5)) [1..<aig_maxvar g + 1] = Some t0"
    "retype (\<lambda>t. t\<lparr>ty_and := True\<rparr>) t0 0 (map and_lhs (new_ands g L)) = Some t1"
    "retype (\<lambda>t. t\<lparr>ty_input := True\<rparr>) t1 0 (map sym_lit ?ins) = Some t2"
    "retype (\<lambda>t. t\<lparr>ty_latch := True\<rparr>) t2 0 (map sym_lit ?las) = Some t3" "length t3 = length (aig_types g)"
    "\<forall>v. \<not> ty_onstack (type_at t3 v)"
    "\<forall>v. ty_input (type_at t3 v) \<longleftrightarrow> 1 \<le> v \<and> v < 1 + length (aig_inputs g)"
    "\<forall>v. ty_latch (type_at t3 v) \<longleftrightarrow> 1 + length (aig_inputs g) \<le> v \<and> v < 1 + length (aig_inputs g) + length (aig_latches g)"
    "\<forall>v. ty_and (type_at t3 v) \<longleftrightarrow> 1 + length (aig_inputs g) + length (aig_latches g) \<le> v \<and> v < 1 + length ?O"
    "\<forall>v. ty_input (type_at t3 v) \<longrightarrow> ty_idx (type_at t3 v) = v - 1"
    "\<forall>v. ty_latch (type_at t3 v) \<longrightarrow> ty_idx (type_at t3 v) = v - (1 + length (aig_inputs g))"
    "\<forall>v. ty_and (type_at t3 v) \<longrightarrow> ty_idx (type_at t3 v) = v - (1 + length (aig_inputs g) + length (aig_latches g))"
    using new_table [OF ok m offs n, of "map and_lhs (new_ands g L)" "map sym_lit ?las" "map sym_lit ?ins"]
      new_ands_nth [OF ok n] leaf_lits [OF ok n] by (auto simp: new_ands_def)
  have one: "list_all one_type (take (length ?O + 1) t3)"
  proof -
    have "one_type (type_at t3 v)" for v unfolding one_type_def using tab(7-9) by auto
    then show ?thesis by (auto simp: list_all_length type_at_def) (metis)
  qed
  define h where "h = (re_graph r5)\<lparr>aig_maxvar := length ?O, aig_inputs := ?ins, aig_latches := ?las,
    aig_outputs := map (\<lambda>s. s\<lparr>sym_lit := new_lit ?O (sym_lit s)\<rparr>) (aig_outputs g),
    aig_bad := map (\<lambda>s. s\<lparr>sym_lit := new_lit ?O (sym_lit s)\<rparr>) (aig_bad g), aig_constraints := [], aig_justice := [],
    aig_fairness := [], aig_ands := new_ands g L, aig_types := t3\<rparr>"
  have bound: "length ?O \<le> aig_maxvar g" by (rule order_length [OF ok n])
  have "aig_maxvar g < length (aig_types g)"
  proof (rule ccontr)
    assume "\<not> aig_maxvar g < length (aig_types g)"
    then have "aig_types g = []" using ok by (simp add: types_ok_def)
    then have "typed g v = zero_type" for v by (simp add: typed_def type_at_def)
    then have "aig_inputs g = [] \<and> aig_latches g = [] \<and> aig_ands g = []"
      using node_at [OF ok, of 0] by (auto simp: zero_type_def)
    then show False using b by (simp add: aiger_is_reencoded_def aiger_max_input_or_latch_def)
  qed
  then have small: "length ?O < length t3" using bound tab(5) by simp
  have "renumbered g L h"
    using tab(6-12) small e sel(4) com by (simp add: renumbered_def h_def typed_def)
  moreover have "aiger_reencode d g = do {
     b \<leftarrow> (if d then aiger_is_reencoded d h else Some True);
     assert_that d b;
     g \<leftarrow> (if d then aiger_check d h else Some h);
     assert_that d (aig_error g = None);
     Some g }"
  proof -
    have top: "re_new r5 \<noteq> 0" "aiger_lit2var (re_new r5 - 1) = length ?O"
      using c by (simp_all add: coded_def aiger_lit2var_def)
    show ?thesis
      unfolding aiger_reencode_def Let_def
      using e b start r(1-3) none ands ins las tab(1-4) one top bound
      by (simp add: sel sorted_gates [OF ok n] assert_that_holds h_def del: upt_Suc replicate.simps)
  qed
  ultimately show ?thesis using cov by blast
qed


text \<open>Marks do not matter.\<close>

lemma marks_only_meaning:
  assumes "marks_only g h"
  shows "same_meaning g h"
proof -
  note s = marks_only_sel [OF assms]
  show ?thesis unfolding same_meaning_def aig_init_def aig_step_def aig_raises_def aig_valuation_def aig_error_lit_def s by simp
qed

lemma marks_only_reencoded: "marks_only g h \<Longrightarrow> aiger_is_reencoded d h = aiger_is_reencoded d g"
  using marks_only_sel(5-7) [of g h] unfolding aiger_is_reencoded_def aiger_max_input_or_latch_def by metis

lemma marks_only_ok:
  assumes m: "marks_only g h" and "aig_ok g"
  shows "aig_ok h"
proof -
  note s = marks_only_sel [OF m]
  show ?thesis using assms(2) marks_only_types_ok [OF m]
    unfolding aig_ok_def aig_closed_def aig_ordered_def lit_defined_def defined_var_def s by simp
qed

lemma same_meaning_trans: "same_meaning g h \<Longrightarrow> same_meaning h k \<Longrightarrow> same_meaning g k"
  by (simp add: same_meaning_def)

lemma max_lit_runs: "\<forall>s \<in> set ss. sym_lit s mod 2 = 0 \<Longrightarrow> \<exists>m. max_lit d ss res = Some m"
  by (induction ss arbitrary: res) (simp_all add: aiger_sign_def)

lemma is_reencoded_runs:
  assumes ok: "types_ok g"
  shows "\<exists>b. aiger_is_reencoded d g = Some b"
proof -
  have even: "sym_lit s mod 2 = 0" if "s \<in> set (aig_inputs g) \<union> set (aig_latches g)" for s
    by (rule leaf_lit(1) [OF ok that])
  obtain m where m: "max_lit d (aig_inputs g) 0 = Some m" using max_lit_runs [of "aig_inputs g" d 0] even by auto
  obtain m2 where "max_lit d (aig_latches g) m = Some m2" using max_lit_runs [of "aig_latches g" d m] even by auto
  then show ?thesis using m
    by (cases "Option.bind (consecutive_from 0 (aig_inputs g)) (\<lambda>mx. consecutive_from mx (aig_latches g))")
      (auto simp only: aiger_is_reencoded_def aiger_max_input_or_latch_def option.case Option.bind.simps option.inject)
qed

text \<open>A graph without cycles that is in the binary order is ordered.\<close>

lemma acyclic_reencoded:
  assumes "aig_wf g" and "aiger_is_reencoded d g = Some True"
  shows "aig_ok g"
proof -
  have "and_rhs0 a \<noteq> and_lhs a" if a: "a \<in> set (aig_ands g)" for a
  proof
    assume "and_rhs0 a = and_lhs a"
    then have "(and_lhs a div 2, and_lhs a div 2) \<in> gate_edges g" using a by (force simp: gate_edges_def)
    then show False using assms(1) unfolding aig_wf_def acyclic_def by blast
  qed
  then show ?thesis using reencoded_ordered [OF _ assms(2)] assms(1) by (simp add: aig_wf_def aig_ok_def)
qed

text \<open>When the graph has to be renumbered, the result is the renumbered graph, up to the marks of the check.\<close>

lemma reencode_fresh:
  assumes wf: "aig_wf g" and one: "aig_outputs g @ aig_bad g \<noteq> []"
    and none: "aig_constraints g = []" "aig_justice g = []" "aig_fairness g = []"
    and b: "aiger_is_reencoded d g = Some False"
  shows "\<exists>L h k. covered g L \<and> renumbered g L h \<and> aig_ok h \<and> aiger_is_reencoded d h = Some True \<and> same_meaning g h \<and>
    aiger_reencode d g = Some k \<and> marks_only h k \<and> (\<forall>v. \<not> ty_onstack (typed k v))"
proof -
  have ok: "types_ok g" and cl: "aig_closed g" and e: "aig_error g = None" and ac: "acyclic (gate_edges g)"
    and re: "\<forall>s \<in> set (aig_latches g). reset_ok s" and off: "\<forall>v. \<not> ty_onstack (typed g v)"
    using wf by (simp_all add: aig_wf_def)
  obtain f where f: "decreasing g f" by (rule decreasing_exists [OF ok ac])
  obtain L h where h: "covered g L" "renumbered g L h" "aiger_reencode d g = do {
     b \<leftarrow> (if d then aiger_is_reencoded d h else Some True);
     assert_that d b;
     g \<leftarrow> (if d then aiger_check d h else Some h);
     assert_that d (aig_error g = None);
     Some g }"
    using reencode_core [OF ok cl f e re off none b] by - (elim exE conjE, rule that, assumption+)
  have n: "numbered g L" using h(1) by (simp add: covered_def)
  have hw: "types_ok h" "aig_closed h" "aiger_is_reencoded d h = Some True" "aig_error h = None"
      "aig_constraints h = []" "aig_justice h = []" "aig_fairness h = []" "\<forall>v. \<not> ty_onstack (typed h v)"
    using renumbered_types_ok [OF ok n h(2)] renumbered_closed [OF ok cl h(1,2)] renumbered_reencoded [OF ok cl n h(2)] h(2)
    by (simp_all add: renumbered_def)
  have "\<forall>a \<in> set (aig_ands h). and_rhs0 a \<noteq> and_lhs a"
  proof -
    have "aig_ands h = new_ands g L" using h(2) by (simp add: renumbered_def)
    then show ?thesis using new_and_less(1) [OF ok cl n] less_imp_neq by metis
  qed
  then have hok: "aig_ok h" using reencoded_ordered [OF hw(1,3)] hw by (simp add: aig_ok_def)
  have mean: "same_meaning g h" by (rule renumbered_meaning [OF ok cl ac re one h(1,2) hok])
  have "\<exists>k. aiger_reencode d g = Some k \<and> marks_only h k \<and> (\<forall>v. \<not> ty_onstack (typed k v))"
  proof (cases d)
    case True
    obtain k where k: "aiger_check d h = Some k" "marks_only h k" "\<forall>v. \<not> ty_onstack (typed k v)"
      using check_complete [OF hw(1,2) renumbered_decreasing [OF ok cl n h(2)] hw(4,8) no_lits_closed [OF hw(5-7)]] by blast
    have "aig_error k = None" using marks_only_sel(11) [OF k(2)] hw(4) by simp
    then show ?thesis using h(3) hw(3) k True by simp
  next
    case False
    then show ?thesis using h(3) hw(8) marks_only_refl by simp
  qed
  then show ?thesis using h(1,2) hok hw(3) mean by blast
qed

lemma reencode_runs:
  assumes wf: "aig_wf g" and one: "aig_outputs g @ aig_bad g \<noteq> []"
    and none: "aig_constraints g = []" "aig_justice g = []" "aig_fairness g = []"
  shows "\<exists>h. aiger_reencode d g = Some h \<and> aig_ok h \<and> aiger_is_reencoded d h = Some True \<and> same_meaning g h \<and>
    aig_constraints h = [] \<and> aig_justice h = [] \<and> aig_fairness h = []"
proof -
  have ok: "types_ok g" and e: "aig_error g = None" using wf by (simp_all add: aig_wf_def)
  obtain b where b: "aiger_is_reencoded d g = Some b" using is_reencoded_runs [OF ok] by blast
  show ?thesis
  proof (cases b)
    case True
    then have "aiger_reencode d g = Some g" using b e by (simp add: aiger_reencode_def)
    then show ?thesis using acyclic_reencoded [OF wf] b True none same_meaning_refl by auto
  next
    case False
    then have "aiger_is_reencoded d g = Some False" using b by simp
    then obtain L h k where h: "renumbered g L h" "aig_ok h" "aiger_is_reencoded d h = Some True" "same_meaning g h"
      "aiger_reencode d g = Some k" "marks_only h k"
      using reencode_fresh [OF wf one none] by blast
    have "aig_constraints k = []" "aig_justice k = []" "aig_fairness k = []"
      using h(1,6) by (cases h; cases k; simp add: marks_only_def renumbered_def)+
    then show ?thesis
      using h(5) marks_only_ok [OF h(6,2)] marks_only_reencoded [OF h(6)] h(3)
        same_meaning_trans [OF h(4) marks_only_meaning [OF h(6)]] by auto
  qed
qed

end
