(* ===== verification/BuilderAccept.thy ===== *)
theory BuilderAccept
  imports BuilderSystem AigerReencoded
begin

text \<open>
  The builder on a graph that need not be in the binary order: it renumbers the graph first, and a
  renumbered graph has the same meaning.
\<close>

lemma same_meaning_system: "same_meaning g h \<Longrightarrow> system_of h sys = system_of g sys"
  by (simp add: same_meaning_def system_of_def)

lemma build_from_reencoded:
  assumes wf: "aig_wf g" and one: "length (aig_outputs g) + length (aig_bad g) = 1"
    and none: "aig_fairness g = []" "aig_justice g = []" "aig_constraints g = []"
  shows "\<exists>h. same_meaning g h \<and> aig_ok h \<and> aiger_is_reencoded d h = Some True \<and>
    length (aig_outputs h) + length (aig_bad h) = 1 \<and>
    aig_fairness h = [] \<and> aig_justice h = [] \<and> aig_constraints h = [] \<and>
    (\<forall>st. build_from_aiger d st g = build_from_aiger d st h)"
proof -
  have "types_ok g" using wf by (simp add: aig_wf_def)
  then obtain b where b: "aiger_is_reencoded d g = Some b" using is_reencoded_runs by blast
  show ?thesis
  proof (cases b)
    case True
    then show ?thesis using acyclic_reencoded [OF wf] b one none same_meaning_refl by metis
  next
    case False
    have "aig_outputs g @ aig_bad g \<noteq> []" using one by auto
    then obtain h where h: "aiger_reencode d g = Some h" "aig_ok h" "aiger_is_reencoded d h = Some True" "same_meaning g h"
      "aig_constraints h = []" "aig_justice h = []" "aig_fairness h = []"
      using reencode_runs [OF wf _ none(3,2,1)] by metis
    have one': "length (aig_outputs h) + length (aig_bad h) = 1" using h(4) one by (simp add: same_meaning_def)
    have "make_context d st g = make_context d st h" for st
      using one one' none h b False by (simp add: make_context_def)
    then have "build_from_aiger d st g = build_from_aiger d st h" for st by (simp only: build_from_aiger_def)
    then show ?thesis using h one' by (intro exI [of _ h]) simp
  qed
qed

lemma build_from_aiger_wf:
  assumes pos: "0 < get_next_id st" and wf: "aig_wf g"
    and one: "length (aig_outputs g) + length (aig_bad g) = 1"
    and none: "aig_fairness g = []" "aig_justice g = []" "aig_constraints g = []"
  shows "runs (build_from_aiger d st g) (\<lambda>(res, st'). \<exists>sys. res = Inr sys \<and> system_of g sys \<and>
    vr_begin (input_vars sys) = get_next_id st \<and> vr_end (aux_vars sys) = get_next_id st' \<and>
    placed sys (get_next_id st) (get_next_id st'))"
proof -
  obtain h where h: "same_meaning g h" "aig_ok h" "aiger_is_reencoded d h = Some True"
    "length (aig_outputs h) + length (aig_bad h) = 1" "aig_fairness h = []" "aig_justice h = []" "aig_constraints h = []"
    "build_from_aiger d st g = build_from_aiger d st h"
    using build_from_reencoded [OF wf one none, of d] by metis
  show ?thesis
    unfolding h(8) same_meaning_system [OF h(1), symmetric] by (rule build_from_aiger_placed [OF pos h(2-7)])
qed

end
