(* ===== verification/AigerExamples.thy ===== *)
theory AigerExamples
  imports BuilderAccept AigerReader
begin

text \<open>
  A small graph for the witnesses: an input, a latch that takes the input's value, and a gate that
  is true when the latch is set and the input is not, which is the output. The latch starts at zero.
\<close>

definition delay_text :: string where
  "delay_text = ''aag 3 1 1 1 1'' @ line_feed # ''2'' @ line_feed # ''4 2'' @ line_feed #
     ''6'' @ line_feed # ''6 4 3'' @ [line_feed]"

definition delay_graph :: aiger where
  "delay_graph = \<lparr>aig_maxvar = 3, aig_inputs = [zero_symbol\<lparr>sym_lit := 2\<rparr>],
     aig_latches = [zero_symbol\<lparr>sym_lit := 4, sym_next := 2\<rparr>], aig_outputs = [zero_symbol\<lparr>sym_lit := 6\<rparr>],
     aig_bad = [], aig_constraints = [], aig_justice = [], aig_fairness = [],
     aig_ands = [\<lparr>and_lhs = 6, and_rhs0 = 4, and_rhs1 = 3\<rparr>], aig_comments = [None],
     aig_types = [zero_type, zero_type\<lparr>ty_input := True\<rparr>, zero_type\<lparr>ty_latch := True\<rparr>,
       zero_type\<lparr>ty_and := True, ty_mark := True\<rparr>],
     aig_error = None\<rparr>"

named_theorems reading \<open>the equations a reader is evaluated with\<close>

lemmas [reading] = and_then_simps read_magic_def read_counts_def read_count_def read_optional_def
  aiger_read_literal_def aiger_read_number_def number_from.simps aiger_next_ch_def
  new_reader_def digit_ch_def space_ch_def is_digit_def is_space_def line_feed_def digit_of_def u32_def
  Let_def check_new_literal_def aiger_already_defined_def fit_types_def aiger_sign_def aiger_lit2var_def

lemma update_numeral [reading]: "(x # xs)[numeral k := y] = x # xs[pred_numeral k := y]"
  by (simp add: numeral_eq_Suc)

lemma replicate_numeral [reading]: "replicate (numeral k) x = x # replicate (pred_numeral k) x"
  by (simp add: numeral_eq_Suc)

text \<open>Evaluate what a step gets before what is done with it.\<close>

lemma and_then_weak: "m = m' \<Longrightarrow> and_then m f = and_then m' f"
  by simp

lemmas [reading] = aiger_init_def aiger_add_input_def aiger_add_latch_def aiger_add_output_def
  aiger_add_and_def aiger_import_literal_def set_type_def aiger_copy_str_def grow_types.simps
  aiger_read_header_def aiger_read_ascii_def aiger_read_generic_def aiger_read_symbols_and_comments_def
  symbols_from.simps

lemmas check_defs = aiger_check_def aiger_check_next_defined_def aiger_check_outputs_defined_def
  aiger_check_bad_defined_def aiger_check_constraints_defined_def aiger_check_justice_defined_def
  aiger_check_fairness_defined_def aiger_check_right_hand_sides_defined_def
  aiger_check_right_hand_side_defined_def aiger_check_for_cycles_def cycles_from.simps
  aiger_literal_defined_def aiger_strip_def push_var_def

lemma read_delay: "aiger_read_generic d aiger_init delay_text = Some delay_graph"
  by (simp add: delay_text_def reading check_defs delay_graph_def zero_symbol_def zero_type_def named_symbol_def
    upt_conv_Cons cong: and_then_weak bind_weak let_weak_cong)

lemma delay_types [simp]: "typed delay_graph = (\<lambda>_. zero_type)
    (1 := zero_type\<lparr>ty_input := True\<rparr>, 2 := zero_type\<lparr>ty_latch := True\<rparr>,
     3 := zero_type\<lparr>ty_and := True, ty_mark := True\<rparr>)"
  by (rule ext) (simp add: typed_def type_at_def delay_graph_def nth_Cons split: nat.split)

lemma delay_sel [simp]:
  "aig_inputs delay_graph = [zero_symbol\<lparr>sym_lit := 2\<rparr>]"
  "aig_latches delay_graph = [zero_symbol\<lparr>sym_lit := 4, sym_next := 2\<rparr>]"
  "aig_outputs delay_graph = [zero_symbol\<lparr>sym_lit := 6\<rparr>]"
  "aig_bad delay_graph = []" "aig_constraints delay_graph = []" "aig_justice delay_graph = []"
  "aig_fairness delay_graph = []" "aig_ands delay_graph = [\<lparr>and_lhs = 6, and_rhs0 = 4, and_rhs1 = 3\<rparr>]"
  "aig_maxvar delay_graph = 3" "length (aig_types delay_graph) = 4" "aig_error delay_graph = None"
  by (simp_all add: delay_graph_def)

lemma zero_sel [simp]: "\<not> ty_input zero_type" "\<not> ty_latch zero_type" "\<not> ty_and zero_type"
  "ty_idx zero_type = 0" "sym_lit zero_symbol = 0" "sym_next zero_symbol = 0" "sym_reset zero_symbol = 0"
  "sym_name zero_symbol = None"
  by (simp_all add: zero_type_def zero_symbol_def)

lemma delay_ok [simp]: "aig_ok delay_graph"
proof -
  have "types_ok delay_graph" by (auto simp: types_ok_def table_ok_def defined_var_def)
  moreover have "aig_closed delay_graph" by (simp add: aig_closed_def lit_defined_def defined_var_def)
  moreover have "aig_ordered delay_graph" by (simp add: aig_ordered_def)
  ultimately show ?thesis by (simp add: aig_ok_def)
qed

lemma delay_reencoded [simp]: "aiger_is_reencoded d delay_graph = Some True"
  by (simp add: aiger_is_reencoded_def aiger_max_input_or_latch_def aiger_sign_def)

lemma delay_wf: "aig_wf delay_graph"
  by (rule reader_sound [OF read_delay]) simp_all

text \<open>The same circuit in another order: the latch is variable 1 and the input variable 2.\<close>

definition crossed_text :: string where
  "crossed_text = ''aag 3 1 1 1 1'' @ line_feed # ''4'' @ line_feed # ''2 4'' @ line_feed #
     ''6'' @ line_feed # ''6 2 5'' @ [line_feed]"

definition crossed_graph :: aiger where
  "crossed_graph = \<lparr>aig_maxvar = 3, aig_inputs = [zero_symbol\<lparr>sym_lit := 4\<rparr>],
     aig_latches = [zero_symbol\<lparr>sym_lit := 2, sym_next := 4\<rparr>], aig_outputs = [zero_symbol\<lparr>sym_lit := 6\<rparr>],
     aig_bad = [], aig_constraints = [], aig_justice = [], aig_fairness = [],
     aig_ands = [\<lparr>and_lhs = 6, and_rhs0 = 2, and_rhs1 = 5\<rparr>], aig_comments = [None],
     aig_types = [zero_type, zero_type\<lparr>ty_latch := True\<rparr>, zero_type\<lparr>ty_input := True\<rparr>,
       zero_type\<lparr>ty_and := True, ty_mark := True\<rparr>],
     aig_error = None\<rparr>"

lemma read_crossed: "aiger_read_generic d aiger_init crossed_text = Some crossed_graph"
  by (simp add: crossed_text_def reading check_defs crossed_graph_def zero_symbol_def zero_type_def named_symbol_def
    upt_conv_Cons cong: and_then_weak bind_weak let_weak_cong)

lemma crossed_sel [simp]: "aig_error crossed_graph = None" "aig_maxvar crossed_graph = 3" "aig_bad crossed_graph = []"
  "aig_outputs crossed_graph = [zero_symbol\<lparr>sym_lit := 6\<rparr>]"
  "aig_constraints crossed_graph = []" "aig_justice crossed_graph = []" "aig_fairness crossed_graph = []"
  by (simp_all add: crossed_graph_def)

lemma crossed_wf: "aig_wf crossed_graph"
  by (rule reader_sound [OF read_crossed]) simp_all

lemma crossed_order: "aiger_is_reencoded d crossed_graph = Some False"
  by (simp add: aiger_is_reencoded_def crossed_graph_def)

end
