(* ===== verification/AigerDelta.thy ===== *)
theory AigerDelta
  imports AigerReader
begin

unbundle bit_operations_syntax

text \<open>
  Numbers in a file: \<open>delta_code\<close> is the variable-length code of the binary format as a text, and
  \<open>aiger_read_delta\<close> reads it back; decimal numbers are read back modulo \<open>2 ^ 32\<close>.
\<close>

function delta_code :: "nat \<Rightarrow> string" where
  "delta_code tmp =
     (if tmp div 128 \<noteq> 0 then char_of ((tmp AND 127) OR 128) # delta_code (drop_bit 7 tmp)
      else [char_of tmp])"
  by pat_completeness auto
termination
  by (relation "measure id") (auto simp: drop_bit_eq_div)

declare delta_code.simps [simp del]

section \<open>Bits\<close>

lemma and_127: "(n :: nat) AND 127 = n mod 128"
  using take_bit_eq_mask [of 7 n] by (simp add: take_bit_eq_mod mask_eq_exp_minus_1)

lemma and_128: "(n :: nat) AND 128 = 0 \<longleftrightarrow> even (n div 128)"
  using and_exp_eq_0_iff_not_bit [of n 7] by (simp add: bit_iff_odd)

lemma or_shifted:
  assumes "a < 2 ^ k"
  shows "a OR b * 2 ^ k = a + b * (2 :: nat) ^ k"
proof -
  have "a AND push_bit k b = 0"
  proof (rule bit_eqI)
    fix n
    have "a < 2 ^ n" if "k \<le> n" using assms power_increasing [OF that, of "2 :: nat"] by (rule less_le_trans) simp
    then show "bit (a AND push_bit k b) n = bit 0 n"
      by (auto simp: bit_and_iff bit_push_bit_iff) (simp add: bit_iff_odd)
  qed
  then show ?thesis by (simp add: disjunctive_add_eq_or push_bit_eq_mult)
qed

lemma or_128: "m < 128 \<Longrightarrow> (m :: nat) OR 128 = m + 128"
  using or_shifted [of m 7 1] by simp

section \<open>Reading back\<close>

text \<open>The text from the current character on.\<close>

definition ahead :: "aiger_reader \<Rightarrow> string" where
  "ahead r = (case rd_ch r of None \<Rightarrow> [] | Some c \<Rightarrow> c # rd_state r)"

lemma ahead_Cons: "ahead r = c # s \<longleftrightarrow> rd_ch r = Some c \<and> rd_state r = s"
  by (auto simp: ahead_def split: option.splits)

lemma ahead_next: "ahead r = c # s \<Longrightarrow> ahead (aiger_next_ch r) = s"
  by (auto simp: ahead_def split: option.splits list.splits)

lemma write_delta_Cons: "\<exists>c s. delta_code x = c # s"
  by (simp add: delta_code.simps [of x])

lemma read_write_delta_from:
  assumes "ahead r = delta_code x @ rest" and "x * 2 ^ (7 * i) < 4294967296" and "res < 2 ^ (7 * i)"
    and "i \<le> 4"
  shows "runs (delta_from d i res charno r g) (\<lambda>(v, r', g'). v = Some (res + x * 2 ^ (7 * i)) \<and> ahead r' = rest \<and> g' = g)"
  using assms
proof (induction x arbitrary: r i res rule: delta_code.induct)
  case (1 x)
  show ?case
  proof (cases "x div 128 = 0")
    case True
    then have x: "x < 128" by (simp add: div_eq_0_iff)
    have a: "ahead r = char_of x # rest" using "1.prems"(1) True by (simp add: delta_code.simps [of x])
    then have "byte_of (rd_ch r) = x" using x by (simp add: ahead_Cons byte_of_def of_char_of)
    moreover have "x AND 128 = 0" using True by (simp add: and_128)
    ultimately have "delta_from d i res charno r g = parsed (res + x * 2 ^ (7 * i)) (aiger_next_ch r) g"
      using "1.prems"(2-4) by (simp add: delta_from.simps [of d i] u32_def or_shifted)
    then show ?thesis using ahead_next [OF a] by (simp add: parsed_def)
  next
    case False
    let ?c = "(x AND 127) OR 128" and ?y = "drop_bit 7 x"
    have y: "?y = x div 128" by (simp add: drop_bit_eq_div)
    have c: "?c = x mod 128 + 128" by (simp add: and_127 or_128)
    have a: "ahead r = char_of ?c # delta_code ?y @ rest"
      using "1.prems"(1) False by (simp add: delta_code.simps [of x])
    have small: "?c < 256" using c by simp
    have byte: "byte_of (rd_ch r) = ?c"
      using a small by (simp add: ahead_Cons byte_of_def of_char_of)
    have "(x mod 128 + 128) AND 128 \<noteq> 0" unfolding and_128 by (subst div_add_self2) simp_all
    then have cont: "?c AND 128 \<noteq> 0" by (simp only: c not_False_eq_True)
    have "(x mod 128 + 128) AND 127 = x mod 128" unfolding and_127 by simp
    then have low: "?c AND 127 = x mod 128" by (simp only: c)
    have split: "x = x mod 128 + ?y * 128" by (simp add: y)
    have "128 * 2 ^ (7 * i) \<le> x * 2 ^ (7 * i)"
      using False by (simp add: div_eq_0_iff not_less)
    also have "\<dots> < 2 ^ 32" using "1.prems"(2) by simp
    finally have "(2 :: nat) ^ (7 * i + 7) < 2 ^ 32" by (simp add: power_add)
    then have "7 * i + 7 < 32" by (simp only: power_strict_increasing_iff)
    then have i: "i \<le> 3" by simp
    have le: "(x mod 128) * 2 ^ (7 * i) < 4294967296"
      using "1.prems"(2) by (rule le_less_trans [rotated]) simp
    have res': "res + (x mod 128) * 2 ^ (7 * i) < 2 ^ (7 * (i + 1))"
    proof -
      have "x mod 128 + 1 \<le> 128" by (simp add: Suc_leI)
      then have le: "(x mod 128 + 1) * 2 ^ (7 * i) \<le> 128 * 2 ^ (7 * i)" by (rule mult_right_mono) simp
      have "res + (x mod 128) * 2 ^ (7 * i) < (x mod 128 + 1) * 2 ^ (7 * i)"
        using "1.prems"(3) by (simp only: add_mult_distrib mult_1 add.commute add_strict_left_mono)
      also note le
      also have "128 * 2 ^ (7 * i) = (2 :: nat) ^ (7 * (i + 1))" by (simp add: power_add)
      finally show ?thesis .
    qed
    have shift: "?y * 2 ^ (7 * (i + 1)) = ?y * 128 * 2 ^ (7 * i)" by (simp add: power_add)
    have "?y * 2 ^ (7 * (i + 1)) \<le> x * 2 ^ (7 * i)"
      unfolding shift by (intro mult_right_mono) (simp_all add: y)
    then have y2: "?y * 2 ^ (7 * (i + 1)) < 4294967296" using "1.prems"(2) by simp
    have ne: "rd_ch (aiger_next_ch r) \<noteq> None"
      using ahead_next [OF a] write_delta_Cons [of ?y] by (metis append_Cons ahead_Cons option.distinct(1))
    have step: "delta_from d i res charno r g =
        delta_from d (i + 1) (res + (x mod 128) * 2 ^ (7 * i)) charno (aiger_next_ch r) g"
      using cont low byte i ne "1.prems"(3) le
      by (auto simp add: delta_from.simps [of d i] u32_def or_shifted Let_def simp del: next_ch_ch)
    have sum: "res + (x mod 128) * 2 ^ (7 * i) + ?y * 2 ^ (7 * (i + 1)) = res + x * 2 ^ (7 * i)"
      using split unfolding shift by (metis add.assoc add_mult_distrib)
    show ?thesis
      using "1.IH" [OF False ahead_next [OF a] y2 res'] i unfolding step sum by simp
  qed
qed

lemma read_write_delta:
  assumes "ahead r = delta_code x @ rest" and "x < 4294967296"
  shows "runs (aiger_read_delta d r g) (\<lambda>(v, r', g'). v = Some x \<and> ahead r' = rest \<and> g' = g)"
proof -
  have "\<exists>c. rd_ch r = Some c"
    using assms(1) write_delta_Cons [of x] by (metis append_Cons ahead_Cons)
  then obtain c where "rd_ch r = Some c" by blast
  then show ?thesis
    using read_write_delta_from [OF assms(1), of 0 0 d "rd_charno r" g] assms(2) by (simp add: aiger_read_delta_def)
qed

section \<open>Decimal numbers\<close>

text \<open>\<open>%u\<close> and reading it back, modulo the width of an \<open>unsigned\<close>.\<close>

lemma u32_less: "u32 n < 4294967296"
  by (simp add: u32_def)

lemma number_from_digits:
  assumes "ahead r = c # ds @ rest" and "list_all is_digit ds" and "\<not> digit_ch (case rest of [] \<Rightarrow> None | e # _ \<Rightarrow> Some e)"
  shows "\<exists>r'. number_from n r = (foldl (\<lambda>n c. u32 (10 * n + (of_char c - 48))) n ds, r') \<and> ahead r' = rest"
  using assms
proof (induction ds arbitrary: n r c)
  case Nil
  then have a: "ahead (aiger_next_ch r) = rest" using ahead_next by simp
  then have "rd_ch (aiger_next_ch r) = (case rest of [] \<Rightarrow> None | e # _ \<Rightarrow> Some e)"
    by (cases rest) (auto simp: ahead_def split: option.splits)
  with a Nil.prems(3) show ?case by (simp add: number_from.simps [of n r] Let_def del: next_ch_ch)
next
  case (Cons e ds)
  have a: "ahead (aiger_next_ch r) = e # ds @ rest" using ahead_next [OF Cons.prems(1)] by simp
  then have ch: "rd_ch (aiger_next_ch r) = Some e" by (simp add: ahead_Cons)
  obtain r' where "number_from (u32 (10 * n + (of_char e - 48))) (aiger_next_ch r) =
      (foldl (\<lambda>n c. u32 (10 * n + (of_char c - 48))) (u32 (10 * n + (of_char e - 48))) ds, r')" "ahead r' = rest"
    using Cons.IH [OF a] Cons.prems(2,3) by auto
  then show ?case
    using ch Cons.prems(2) by (simp add: number_from.simps [of n r] Let_def digit_ch_def digit_of_def del: next_ch_ch)
qed

lemma foldl_digits_u32:
  "foldl (\<lambda>n c. u32 (10 * n + (of_char c - 48))) (u32 n) ds = u32 (foldl (\<lambda>n c. 10 * n + (of_char c - 48)) n ds)"
proof (induction ds arbitrary: n)
  case Nil
  then show ?case by simp
next
  case (Cons c ds)
  have "u32 (10 * u32 n + (of_char c - 48)) = u32 (10 * n + (of_char c - 48))"
    unfolding u32_def by (metis mod_add_left_eq mod_mult_right_eq)
  then show ?case using Cons.IH [of "10 * n + (of_char c - 48)"] by simp
qed

lemma nat_text_digits: "nat_text n \<noteq> []" "list_all is_digit (nat_text n)" "digits_value (nat_text n) = n"
  using nat_to_string_digits [of n] by (simp_all add: nat_text_def int_to_string_def)

lemma digit_not_space: "is_digit c \<Longrightarrow> c \<noteq> CHR '' '' \<and> c \<noteq> line_feed"
  by (auto simp: is_digit_def line_feed_def)

lemma read_number_text:
  assumes "ahead r = nat_text n @ e # rest" and "\<not> is_digit e"
  shows "\<exists>r'. aiger_read_number d r = Some (u32 n, r') \<and> ahead r' = e # rest"
proof -
  obtain c ds where c: "nat_text n = c # ds" using nat_text_digits(1) [of n] by (cases "nat_text n") auto
  then have dig: "is_digit c" "list_all is_digit ds" using nat_text_digits(2) [of n] by simp_all
  have ch: "rd_ch r = Some c" using assms(1) c by (simp add: ahead_Cons)
  have small: "of_char c - (48 :: nat) = u32 (of_char c - 48)"
    using dig(1) unfolding u32_def is_digit_def by (intro mod_less [symmetric]) linarith
  obtain r' where r': "number_from (of_char c - 48) r =
      (foldl (\<lambda>n c. u32 (10 * n + (of_char c - 48))) (of_char c - 48) ds, r')" "ahead r' = e # rest"
    using number_from_digits [of r c ds "e # rest" "of_char c - 48"] assms c dig(2)
    by (auto simp: digit_ch_def)
  have "foldl (\<lambda>n c. u32 (10 * n + (of_char c - 48))) (of_char c - 48) ds = u32 (digits_value (nat_text n))"
    using foldl_digits_u32 [of "of_char c - 48" ds] small by (simp add: digits_value_def c)
  then have "number_from (of_char c - 48) r = (u32 n, r')" using r'(1) nat_text_digits(3) [of n] by simp
  then show ?thesis
    using ch dig(1) r'(2) by (simp add: aiger_read_number_def digit_ch_def digit_of_def)
qed

text \<open>A literal followed by what is expected is read, and the character after it skipped.\<close>

lemma read_literal_text:
  assumes "ahead r = nat_text n @ e # rest" and "e = CHR '' '' \<or> e = line_feed"
    and "expected = None \<or> expected = Some e"
  shows "\<exists>r'. aiger_read_literal d what expected r g = parsed (u32 n, Some e) r' g \<and> ahead r' = rest"
proof -
  have e: "\<not> is_digit e" using assms(2) digit_not_space by blast
  obtain c ds where c: "nat_text n = c # ds" using nat_text_digits(1) [of n] by (cases "nat_text n") auto
  then have "digit_ch (rd_ch r)"
    using assms(1) nat_text_digits(2) [of n] by (simp add: ahead_Cons digit_ch_def)
  moreover obtain r1 where r1: "aiger_read_number d r = Some (u32 n, r1)" "ahead r1 = e # rest"
    using read_number_text [OF assms(1) e] by blast
  moreover have "rd_ch r1 = Some e" using r1(2) by (simp add: ahead_Cons)
  moreover have "CHR '' '' \<noteq> line_feed" by (simp add: line_feed_def)
  ultimately have "aiger_read_literal d what expected r g = parsed (u32 n, Some e) (aiger_next_ch r1) g"
    using assms(2,3) by (auto simp: aiger_read_literal_def)
  then show ?thesis using ahead_next [OF r1(2)] by blast
qed

end
