(* ===== verification/AigerBuilds.thy ===== *)
theory AigerBuilds
  imports AigerReader
begin

text \<open>
  The two kinds of build: what a build with assertions reads, a release build reads in the same way. An
  assertion can only stop the program; where none fails, it makes no difference.
\<close>

section \<open>Computations without assertions\<close>

text \<open>\<open>m\<close> is \<open>n\<close>, or an assertion of \<open>m\<close> fails.\<close>

definition asserts :: "'a option \<Rightarrow> 'a option \<Rightarrow> bool" where
  "asserts m n \<longleftrightarrow> (\<forall>y. m = Some y \<longrightarrow> n = Some y)"

named_theorems builds \<open>a build with assertions and one without\<close>

lemma asserts_None [builds]: "asserts None n"
  by (simp add: asserts_def)

lemma asserts_refl [builds]: "asserts m m"
  by (simp add: asserts_def)

lemma asserts_that [builds]: "asserts (assert_that True b) (assert_that False b)"
  by (simp add: asserts_def assert_that_def)

lemma asserts_bind [builds]: "asserts m n \<Longrightarrow> (\<And>x. asserts (f x) (h x)) \<Longrightarrow> asserts (Option.bind m f) (Option.bind n h)"
  by (auto simp: asserts_def bind_eq_Some_conv)

lemma asserts_if [builds]: "asserts m m' \<Longrightarrow> asserts n n' \<Longrightarrow> asserts (if b then m else n) (if b then m' else n')"
  by simp

lemma asserts_prod [builds]: "(\<And>x y. asserts (f x y) (h x y)) \<Longrightarrow> asserts (case p of (x, y) \<Rightarrow> f x y) (case p of (x, y) \<Rightarrow> h x y)"
  by (simp split: prod.split)

lemma asserts_prod2 [builds]:
  "(\<And>x y. asserts (f x y r g) (h x y r g)) \<Longrightarrow> asserts ((case p of (x, y) \<Rightarrow> f x y) r g) ((case p of (x, y) \<Rightarrow> h x y) r g)"
  by (simp split: prod.split)

lemma asserts_option [builds]:
  "asserts m m' \<Longrightarrow> (\<And>x. asserts (f x) (h x)) \<Longrightarrow>
   asserts (case p of None \<Rightarrow> m | Some x \<Rightarrow> f x) (case p of None \<Rightarrow> m' | Some x \<Rightarrow> h x)"
  by (simp split: option.split)

lemma asserts_list [builds]:
  "asserts m m' \<Longrightarrow> (\<And>x xs. asserts (f x xs) (h x xs)) \<Longrightarrow>
   asserts (case p of [] \<Rightarrow> m | x # xs \<Rightarrow> f x xs) (case p of [] \<Rightarrow> m' | x # xs \<Rightarrow> h x xs)"
  by (simp split: list.split)

lemma asserts_and_then [builds]:
  "asserts m n \<Longrightarrow> (\<And>x r g. asserts (f x r g) (h x r g)) \<Longrightarrow> asserts (and_then m f) (and_then n h)"
  by (auto simp: asserts_def and_then_def split: option.splits)

lemma asserts_failing [builds]: "asserts e e' \<Longrightarrow> asserts (failing r e) (failing r e')"
  by (auto simp: asserts_def failing_def split: option.splits)

lemma asserts_errors [builds]:
  "asserts (aiger_error_u True g a u b) (aiger_error_u False g a u b)"
  "asserts (aiger_error_uu True g a u b w c) (aiger_error_uu False g a u b w c)"
  "asserts (aiger_error_s True g a s b) (aiger_error_s False g a s b)"
  "asserts (aiger_error_us True g a u b s) (aiger_error_us False g a u b s)"
  "asserts (aiger_error_usu True g a u b s c w e) (aiger_error_usu False g a u b s c w e)"
  unfolding aiger_error_u_def aiger_error_uu_def aiger_error_s_def aiger_error_us_def aiger_error_usu_def
  by (intro builds)+

section \<open>Numbers and nodes\<close>

lemma asserts_literal [builds]: "asserts (aiger_read_literal True what x r g) (aiger_read_literal False what x r g)"
  unfolding aiger_read_literal_def aiger_read_number_def by (intro builds)

lemma asserts_not_valid [builds]: "asserts (not_valid True lit what r g) (not_valid False lit what r g)"
  unfolding not_valid_def by (intro builds)

lemma asserts_defined [builds]: "asserts (aiger_already_defined True lit r g) (aiger_already_defined False lit r g)"
  unfolding aiger_already_defined_def Let_def by (intro builds)

lemma asserts_new_literal [builds]: "asserts (check_new_literal True what lit r g) (check_new_literal False what lit r g)"
  unfolding check_new_literal_def by (intro builds)

lemma asserts_counts [builds]: "asserts (read_counts True r g) (read_counts False r g)"
  unfolding read_counts_def read_count_def read_optional_def by (intro builds)

lemma asserts_magic [builds]: "asserts (read_magic True r g) (read_magic False r g)"
  unfolding read_magic_def Let_def by (intro builds)

lemma asserts_delta [builds]: "asserts (delta_from True i res charno r g) (delta_from False i res charno r g)"
proof (induction "True" i res charno r g rule: delta_from.induct)
  case (1 i res charno r g)
  have rec: "asserts (delta_from True (i + 1) x charno r' g) (delta_from False (i + 1) x charno r' g)"
    if "byte_of (rd_ch r) AND 128 \<noteq> 0" "\<not> 5 \<le> i" "x = res OR u32 ((byte_of (rd_ch r) AND 127) * 2 ^ (7 * i))"
      "r' = aiger_next_ch r" "rd_ch r' \<noteq> None" for x r'
    by (rule 1) (use that in simp_all)
  show ?case
  proof (cases "byte_of (rd_ch r) AND 128 \<noteq> 0 \<and> \<not> 5 \<le> i \<and> rd_ch (aiger_next_ch r) \<noteq> None")
    case True
    then show ?thesis
      using rec [OF _ _ refl refl] by (auto simp add: delta_from.simps [of _ i res charno r] Let_def simp del: next_ch_ch)
  next
    case False
    then show ?thesis
      by (auto simp add: delta_from.simps [of _ i res charno r] Let_def simp del: next_ch_ch intro!: builds)
  qed
qed

lemma asserts_read_delta [builds]: "asserts (aiger_read_delta True r g) (aiger_read_delta False r g)"
  unfolding aiger_read_delta_def by (intro builds)

lemma asserts_adds [builds]:
  "asserts (aiger_add_input True g lit name) (aiger_add_input False g lit name)"
  "asserts (aiger_add_latch True g lit nxt name) (aiger_add_latch False g lit nxt name)"
  "asserts (aiger_add_reset True g lit reset) (aiger_add_reset False g lit reset)"
  "asserts (aiger_add_and True g lhs rhs0 rhs1) (aiger_add_and False g lhs rhs0 rhs1)"
  "asserts (aiger_add_comment True g c) (aiger_add_comment False g c)"
  unfolding aiger_add_input_def aiger_add_latch_def aiger_add_reset_def aiger_add_and_def aiger_add_comment_def Let_def
  by (intro builds)+

section \<open>The loops of the reader\<close>

lemma asserts_inputs [builds]: "asserts (read_inputs True n i r g) (read_inputs False n i r g)"
  by (induction n arbitrary: i r g) (simp_all only: read_inputs.simps, intro builds, intro builds)

lemma asserts_latches [builds]: "asserts (read_latches True n i r g) (read_latches False n i r g)"
  by (induction n arbitrary: i r g) (simp_all only: read_latches.simps, intro builds, intro builds)

lemma asserts_symbols [builds]: "asserts (read_symbols True what complaint add n r g) (read_symbols False what complaint add n r g)"
  by (induction n arbitrary: r g) (simp_all only: read_symbols.simps, intro builds, intro builds)

lemma asserts_numbers [builds]: "asserts (read_numbers True what n r g) (read_numbers False what n r g)"
  by (induction n arbitrary: r g) (simp_all only: read_numbers.simps, intro builds, intro builds)

lemma asserts_justice [builds]: "asserts (read_justice True sizes r g) (read_justice False sizes r g)"
  by (induction sizes arbitrary: r g) (simp_all only: read_justice.simps, intro builds, intro builds)

lemma asserts_header [builds]: "asserts (aiger_read_header True r g) (aiger_read_header False r g)"
  unfolding aiger_read_header_def Let_def by (intro builds)

lemma asserts_ascii [builds]: "asserts (aiger_read_ascii True r g) (aiger_read_ascii False r g)"
proof -
  have "asserts (read_ascii_gates True n r g) (read_ascii_gates False n r g)" for n
    by (induction n arbitrary: r g) (simp_all only: read_ascii_gates.simps, intro builds, intro builds)
  then show ?thesis by (simp add: aiger_read_ascii_def)
qed

lemma asserts_max [builds]: "asserts (aiger_max_input_or_latch True g) (aiger_max_input_or_latch False g)"
proof -
  have [builds]: "asserts (max_lit True ss res) (max_lit False ss res)" for ss res
    by (induction ss arbitrary: res) (simp_all only: max_lit.simps Let_def, intro builds, intro builds)
  show ?thesis unfolding aiger_max_input_or_latch_def by (intro builds)
qed

lemma asserts_binary [builds]: "asserts (aiger_read_binary True r g) (aiger_read_binary False r g)"
proof -
  have [builds]: "asserts (read_binary_gates True n lhs r g) (read_binary_gates False n lhs r g)" for n lhs r g
    by (induction n arbitrary: lhs r g) (simp_all only: read_binary_gates.simps Let_def, intro builds, intro builds)
  show ?thesis unfolding aiger_read_binary_def by (intro builds)
qed

lemma asserts_symbol [builds]: "asserts (read_symbol True nm sel upd r g) (read_symbol False nm sel upd r g)"
  unfolding read_symbol_def Let_def by (intro builds)

text \<open>The loops that may not end: by induction on a run with assertions.\<close>

lemma asserts_comments_from [builds]: "asserts (comments_from True r g) (comments_from False r g)"
proof -
  have "d \<longrightarrow> comments_from False r g = Some y" if "comments_from d r g = Some y" for d y
    using that
  proof (induction d r g y rule: comments_from.raw_induct [rotated, consumes 1, case_names step])
    case (step rec d r g y)
    show ?case
    proof
      assume d: d
      then have rec: "asserts (rec True r g) (comments_from False r g)" for r g
        using step(1) by (auto simp: asserts_def)
      have "asserts (Some y) (comments_from False r g)"
        unfolding step(2) [symmetric] comments_from.simps [of False r g] Let_def eqTrueI [OF d] by (intro builds rec)
      then show "comments_from False r g = Some y" by (simp add: asserts_def)
    qed
  qed
  then show ?thesis by (simp add: asserts_def)
qed

lemma asserts_comments [builds]: "asserts (aiger_read_comments True r g) (aiger_read_comments False r g)"
  unfolding aiger_read_comments_def by (intro builds)

lemma asserts_symbols_from [builds]: "asserts (symbols_from True r g) (symbols_from False r g)"
proof -
  have "d \<longrightarrow> symbols_from False r g = Some y" if "symbols_from d r g = Some y" for d y
    using that
  proof (induction d r g y rule: symbols_from.raw_induct [rotated, consumes 1, case_names step])
    case (step rec d r g y)
    show ?case
    proof
      assume d: d
      then have rec: "asserts (rec True r g) (symbols_from False r g)" for r g
        using step(1) by (auto simp: asserts_def)
      have "asserts (Some y) (symbols_from False r g)"
        unfolding step(2) [symmetric] symbols_from.simps [of False r g] Let_def eqTrueI [OF d] by (intro builds rec)
      then show "symbols_from False r g = Some y" by (simp add: asserts_def)
    qed
  qed
  then show ?thesis by (simp add: asserts_def)
qed

section \<open>The check\<close>

lemma asserts_literal_defined [builds]: "asserts (aiger_literal_defined True g l) (aiger_literal_defined False g l)"
  unfolding aiger_literal_defined_def by (intro builds)

lemma asserts_check_parts [builds]:
  "asserts (check_next True g ss) (check_next False g ss)" "asserts (check_lits True what g ls) (check_lits False what g ls)"
  "asserts (check_ands True g as) (check_ands False g as)"
proof -
  show "asserts (check_next True g ss) (check_next False g ss)"
    by (induction ss arbitrary: g) (simp_all only: check_next.simps, intro builds, intro builds)
  show "asserts (check_lits True what g ls) (check_lits False what g ls)"
    by (induction ls arbitrary: g) (simp_all only: check_lits.simps, intro builds, intro builds)
  show "asserts (check_ands True g as) (check_ands False g as)"
    by (induction as arbitrary: g)
      (simp_all only: check_ands.simps aiger_check_right_hand_side_defined_def, intro builds, intro builds)
qed

lemma asserts_cycles_from [builds]: "asserts (cycles_from True g stack) (cycles_from False g stack)"
proof -
  have "d \<longrightarrow> cycles_from False g stack = Some y" if "cycles_from d g stack = Some y" for d y
    using that
  proof (induction d g stack y rule: cycles_from.raw_induct [rotated, consumes 1, case_names step])
    case (step rec d g stack y)
    show ?case
    proof
      assume d: d
      then have rec: "asserts (rec True g stack) (cycles_from False g stack)" for g stack
        using step(1) by (auto simp: asserts_def)
      have "asserts (Some y) (cycles_from False g stack)"
        unfolding step(2) [symmetric] cycles_from.simps [of False g stack] eqTrueI [OF d] by (intro builds rec)
      then show "cycles_from False g stack = Some y" by (simp add: asserts_def)
    qed
  qed
  then show ?thesis by (simp add: asserts_def)
qed

lemma asserts_check [builds]: "asserts (aiger_check True g) (aiger_check False g)"
proof -
  have [builds]: "asserts (check_cycles True g is) (check_cycles False g is)" for g "is"
    by (induction "is" arbitrary: g) (simp_all only: check_cycles.simps, intro builds, intro builds)
  show ?thesis
    unfolding aiger_check_def aiger_check_next_defined_def aiger_check_outputs_defined_def aiger_check_bad_defined_def
      aiger_check_constraints_defined_def aiger_check_justice_defined_def aiger_check_fairness_defined_def
      aiger_check_right_hand_sides_defined_def aiger_check_for_cycles_def
    by (intro builds)
qed

section \<open>Reading a file\<close>

lemma asserts_read [builds]: "asserts (aiger_read_generic True g content) (aiger_read_generic False g content)"
  unfolding aiger_read_generic_def aiger_read_symbols_and_comments_def by (intro builds)

lemma asserts_open: "asserts (aiger_open_and_read_from_file True io g name) (aiger_open_and_read_from_file False io g name)"
  unfolding aiger_open_and_read_from_file_def Let_def by (intro builds)

end
