(* ===== verification/AigerProperties.thy ===== *)
theory AigerProperties
  imports AigerExamples AigerDelta AigerBuilds
begin

text \<open>
  The properties of the AIGER library and of the builder: the table of types, the encodings of
  numbers, and that the transition system has the meaning of the graph.
\<close>

section \<open>Witness material\<close>

definition delay_ctx :: builder_context where
  "delay_ctx = \<lparr>ctx_aig = delay_graph, ctx_input_vars = \<lparr>vr_begin = 1, vr_end = 2\<rparr>,
     ctx_state_vars = \<lparr>vr_begin = 2, vr_end = 3\<rparr>, ctx_next_state_vars = \<lparr>vr_begin = 3, vr_end = 4\<rparr>,
     ctx_and_vars = \<lparr>vr_begin = 4, vr_end = 5\<rparr>\<rparr>"

lemma delay_ctx_ok [simp]: "ctx_ok delay_ctx" "ctx_aig delay_ctx = delay_graph"
  by (simp_all add: ctx_ok_def delay_ctx_def range_ok_def vr_size_def)

lemma new_store_id [simp]: "get_next_id new_store = 1"
  by (simp add: get_next_id_def new_store_def)

text \<open>What the builder accepts.\<close>

definition supported :: "aiger \<Rightarrow> bool" where
  "supported g \<longleftrightarrow>
     length (aig_outputs g) + length (aig_bad g) = 1 \<and>
     aig_fairness g = [] \<and> aig_justice g = [] \<and> aig_constraints g = []"

lemma delay_supported [simp]: "supported delay_graph"
  by (simp add: supported_def)

lemma crossed_supported: "supported crossed_graph"
  by (simp add: supported_def crossed_graph_def)

lemma delay_step: "aig_step delay_graph [False] [True] [True]"
proof -
  obtain w where w: "aig_valuation delay_graph [False] [True] w" using valuation_exists [OF delay_ok] by blast
  then have "lit_val w 2" by (simp add: aig_valuation_def lit_val_def)
  with w show ?thesis by (auto simp: aig_step_def)
qed

lemma delay_raises: "aig_raises delay_graph [True] [False]"
proof -
  obtain w where w: "aig_valuation delay_graph [True] [False] w" using valuation_exists [OF delay_ok] by blast
  then have "lit_val w 6" by (simp add: aig_valuation_def lit_val_def gate_ok_def)
  with w show ?thesis by (auto simp: aig_raises_def aig_error_lit_def)
qed

section \<open>Reading\<close>





section \<open>Renumbering\<close>

text \<open>C8. Renumbering keeps the meaning: for a well-formed graph with an output or a bad state and no
  constraint, justice or fairness property, \<open>aiger_reencode\<close> returns, its assertions included, a graph in the
  binary order (inputs, latches, then each gate after the gates it uses) with as many inputs, latches,
  outputs and bad states, and the same initial states, steps and errors.\<close>

theorem reencode_keeps_meaning:
  assumes "aig_wf g" and "aig_outputs g @ aig_bad g \<noteq> []"
    and "aig_constraints g = []" and "aig_justice g = []" and "aig_fairness g = []"
  shows "\<exists>h. aiger_reencode d g = Some h \<and> aiger_is_reencoded d h = Some True \<and> aig_ok h \<and>
    length (aig_inputs h) = length (aig_inputs g) \<and> length (aig_latches h) = length (aig_latches g) \<and>
    (\<forall>s. aig_init h s \<longleftrightarrow> aig_init g s) \<and> (\<forall>s i t. aig_step h s i t \<longleftrightarrow> aig_step g s i t) \<and>
    (\<forall>s i. aig_raises h s i \<longleftrightarrow> aig_raises g s i)"
  using reencode_runs [OF assms, of d] by (auto simp: same_meaning_def)

theorem reencode_keeps_meaning_witness:
  "aiger_is_reencoded True crossed_graph = Some False \<and>
    (\<exists>h. aiger_reencode True crossed_graph = Some h \<and> aiger_is_reencoded True h = Some True \<and>
      (\<forall>s. aig_init h s \<longleftrightarrow> aig_init crossed_graph s))"
  using reencode_keeps_meaning [OF crossed_wf, of True] crossed_order by auto

section \<open>The builder\<close>

text \<open>C4. The builder translates a graph faithfully: for a graph that is well formed and of the supported
  kind, renumbered or not, it returns a system whose initial states, transitions and error states are those of
  the graph, in the form the engines need (well-formed formulas, a cube as initial formula, a total function
  as transition relation), over variables that the store did not have before.\<close>

theorem builder_correct:
  assumes "0 < get_next_id st" and "aig_wf g" and "supported g"
  shows "\<exists>sys st'. build_from_aiger d st g = Some (Inr sys, st') \<and>
    well_formed_system sys \<and> init_is_cube sys \<and> functional_system sys \<and>
    (\<forall>s. init_state sys s \<longleftrightarrow> aig_init g s) \<and>
    (\<forall>s i t. trans_step sys s i t \<longleftrightarrow> aig_step g s i t) \<and>
    (\<forall>s i. error_state sys s i \<longleftrightarrow> aig_raises g s i) \<and>
    vr_begin (input_vars sys) = get_next_id st \<and> vr_end (aux_vars sys) = get_next_id st'"
  using build_from_aiger_wf [OF assms(1,2), of d] assms(3)
  by (fastforce simp: supported_def runs_iff system_of_def)

theorem builder_correct_witness:
  "\<exists>sys st'. build_from_aiger True new_store delay_graph = Some (Inr sys, st') \<and>
    trans_step sys [False] [True] [True] \<and> error_state sys [True] [False]"
  using builder_correct [of new_store delay_graph True] delay_wf delay_step delay_raises by auto

text \<open>C25. The builder rejects exactly the graphs it does not support: not one output or bad state, fairness
  or justice properties, or invariant constraints. It then makes no variables.\<close>

theorem builder_rejects:
  assumes "0 < get_next_id st" and "aig_wf g"
  shows "(\<exists>msg. build_from_aiger d st g = Some (Inl msg, st)) \<longleftrightarrow> \<not> supported g"
proof
  assume "\<not> supported g"
  then show "\<exists>msg. build_from_aiger d st g = Some (Inl msg, st)"
    by (auto simp: supported_def build_from_aiger_def make_context_def)
next
  assume "\<exists>msg. build_from_aiger d st g = Some (Inl msg, st)"
  then show "\<not> supported g"
    using build_from_aiger_wf [OF assms, of d] by (fastforce simp: supported_def runs_iff)
qed

theorem builder_rejects_witness:
  "\<not> (\<exists>msg. build_from_aiger True new_store crossed_graph = Some (Inl msg, new_store))"
  using builder_rejects [of new_store crossed_graph True] crossed_wf crossed_supported by simp

text \<open>C24. The clauses of a gate: \<open>clausify_and\<close>, with its special cases for constant children, makes a
  formula over the copies of inputs, latches and gates that holds of an assignment exactly when the value
  of the gate is the conjunction of the values of its children.\<close>

theorem clausify_and_exact:
  assumes "ctx_ok ctx" and "aig_ok (ctx_aig ctx)" and "a \<in> set (aig_ands (ctx_aig ctx))"
  shows "\<exists>f. clausify_and d ctx a = Some f \<and>
    formula_over [ctx_input_vars ctx, ctx_state_vars ctx, ctx_and_vars ctx] f \<and>
    (\<forall>\<sigma>. cnf_sat \<sigma> f \<longleftrightarrow>
       pulled ctx \<sigma> (and_lhs a div 2) = (lit_val (pulled ctx \<sigma>) (and_rhs0 a) \<and> lit_val (pulled ctx \<sigma>) (and_rhs1 a)))"
  using clausify_and_runs [OF assms]
  by (auto simp: runs_iff gate_formula_def gate_ok_def gate_ranges_def)

theorem clausify_and_exact_witness:
  "\<exists>f. clausify_and True delay_ctx \<lparr>and_lhs = 6, and_rhs0 = 4, and_rhs1 = 3\<rparr> = Some f \<and>
    (\<forall>\<sigma>. cnf_sat \<sigma> f \<longleftrightarrow> pulled delay_ctx \<sigma> 3 = (pulled delay_ctx \<sigma> 2 \<and> \<not> pulled delay_ctx \<sigma> 1))"
  using clausify_and_exact [of delay_ctx "\<lparr>and_lhs = 6, and_rhs0 = 4, and_rhs1 = 3\<rparr>" True]
  by (simp add: lit_val_def) blast

text \<open>C23. A literal of the graph that is defined and not a constant becomes a literal of the solver, never
  the separator, with the same value in every assignment; its variable is in the range of its kind.\<close>

theorem literal_translation:
  assumes "ctx_ok ctx" and "aig_ok (ctx_aig ctx)" and "defined_var (ctx_aig ctx) (l div 2)"
  shows "\<exists>p. from_aiger_lit d ctx l = Some p \<and> p \<noteq> separator \<and>
    (\<forall>\<sigma>. lit_true \<sigma> p \<longleftrightarrow> lit_val (pulled ctx \<sigma>) l) \<and>
    (\<exists>r \<in> {ctx_input_vars ctx, ctx_state_vars ctx, ctx_and_vars ctx}. vr_contains r (lit_var p))"
proof -
  have ok: "types_ok (ctx_aig ctx)" using assms(2) by (simp add: aig_ok_def)
  have "l div 2 \<noteq> 0" using assms(3) zero_undefined [OF ok] unfolding defined_var_def by metis
  then have l: "2 \<le> l" by simp
  have d: "lit_defined (ctx_aig ctx) l" using assms(3) by (simp add: lit_defined_def)
  note facts = solver_lit_facts [OF assms(1,2) d l] and eq = from_aiger_lit_defined [OF assms(2) d l, of d]
  show ?thesis using facts eq by (intro exI [of _ "solver_lit ctx l"]) auto
qed

theorem literal_translation_witness:
  "\<exists>p. from_aiger_lit True delay_ctx 3 = Some p \<and> (\<forall>\<sigma>. lit_true \<sigma> p \<longleftrightarrow> \<not> pulled delay_ctx \<sigma> 1)"
proof -
  have "defined_var (ctx_aig delay_ctx) (3 div 2)" by (simp add: defined_var_def)
  from literal_translation [OF delay_ctx_ok(1) _ this, of True] show ?thesis by (auto simp: lit_val_def)
qed

section \<open>The library\<close>

text \<open>C39. Adding an input, a latch or a gate under a literal that is even, positive and not yet defined
  returns, in a build with or without assertions, and keeps the table of types: every variable has at most
  one kind, and its index leads to its entry in the array of that kind and back.\<close>

theorem adding_nodes_typed:
  assumes "types_ok g" and "aig_error g = None" and "fresh_node g lit"
  shows "runs (aiger_add_input d g lit name) types_ok \<and>
    runs (aiger_add_latch d g lit nxt name) types_ok \<and>
    runs (aiger_add_and d g lit rhs0 rhs1) types_ok"
  using add_input_runs [OF assms] add_latch_runs [OF assms] add_and_runs [OF assms] by blast

theorem adding_nodes_typed_witness:
  "runs (aiger_add_and True delay_graph 8 6 2) types_ok"
proof -
  have "types_ok delay_graph" using delay_ok by (simp add: aig_ok_def del: delay_ok)
  moreover have "fresh_node delay_graph 8" by (simp add: fresh_node_def defined_var_def)
  ultimately show ?thesis using adding_nodes_typed [of delay_graph 8] by simp
qed

text \<open>The variable-length code of the binary format round-trips: reading what is written for any number
  of 32 bits yields the number, consumes the code and nothing after it, and leaves the graph alone.\<close>

lemma delta_roundtrip:
  assumes "ahead r = delta_code x @ rest" and "x < 2 ^ 32"
  shows "\<exists>r'. aiger_read_delta d r g = Some (Some x, r', g) \<and> ahead r' = rest"
  using read_write_delta [of r x rest d g] assms by (auto simp: runs_iff)

lemma delta_roundtrip_witness:
  "\<exists>r'. aiger_read_delta True ((new_reader [])\<lparr>rd_ch := Some (char_of (172 :: nat)), rd_state := [char_of (2 :: nat), CHR ''c'']\<rparr>)
     delay_graph = Some (Some 300, r', delay_graph) \<and> ahead r' = ''c''"
proof -
  have "delta_code 300 = [char_of (172 :: nat), char_of (2 :: nat)]"
    by (simp add: delta_code.simps and_127 or_128 drop_bit_eq_div)
  then show ?thesis
    using delta_roundtrip [of "(new_reader [])\<lparr>rd_ch := Some (char_of (172 :: nat)), rd_state := [char_of (2 :: nat), CHR ''c'']\<rparr>"
        300 "''c''"] by (simp add: ahead_def)
qed

text \<open>C40. A decimal number in a file is read modulo \<open>2 ^ 32\<close>: whatever number is printed and followed by
  the white space that is expected, \<open>aiger_read_literal\<close> accepts it and its value is the number, wrapped
  around to the width of an \<open>unsigned\<close>. So a number below \<open>2 ^ 32\<close> is read exactly, and a larger one is not
  reported.\<close>

theorem read_literal_wraps:
  assumes "ahead r = nat_text n @ e # rest" and "e = CHR '' '' \<or> e = line_feed"
    and "expected = None \<or> expected = Some e"
  shows "\<exists>r'. aiger_read_literal d what expected r g = Some (Some (n mod 2 ^ 32, Some e), r', g) \<and>
    ahead r' = rest \<and> n mod 2 ^ 32 < 2 ^ 32"
  using read_literal_text [OF assms, of d what g] by (auto simp: parsed_def u32_def)

theorem read_literal_wraps_witness:
  "\<exists>r'. aiger_read_literal True ''number of inputs'' (Some CHR '' '')
      ((new_reader [])\<lparr>rd_ch := Some CHR ''4'', rd_state := ''294967297 0''\<rparr>) delay_graph =
    Some (Some (1, Some CHR '' ''), r', delay_graph) \<and> ahead r' = ''0''"
proof -
  have "nat_text 4294967297 = ''4294967297''"
    by (simp add: nat_text_def int_to_string_def nat_to_string.simps char_of_def bit_Suc_0_iff)
  then show ?thesis
    using read_literal_wraps [of "(new_reader [])\<lparr>rd_ch := Some CHR ''4'', rd_state := ''294967297 0''\<rparr>" 4294967297
        "CHR '' ''" "''0''" "Some CHR '' ''"] by (simp add: ahead_def)
qed

end
