(* ===== verification/AigerWriter.thy ===== *)
theory AigerWriter
  imports AigerReader AigerReencode
begin

unbundle bit_operations_syntax

text \<open>
  Writing a graph: \<open>aiger_write_generic\<close> of \<^verbatim>\<open>dep/aiger/aiger.c\<close> and what it calls, in the ASCII and the
  binary format, to a file or to a string. What is written to (\<open>state\<close>) is a parameter of the functions, as in
  the code: a \<open>put\<close> takes a character and a state and says whether it was written (\<open>False\<close> is \<open>EOF\<close>).
  A function that writes returns the \<open>int\<close> of the code, \<open>True\<close> for not \<open>0\<close> and not \<open>EOF\<close>; the outer \<open>None\<close>
  is a failed assertion. \<open>char\<close> is signed, as on the platforms the program is built for.
\<close>

section \<open>Where characters go\<close>

type_synonym 's put = "char \<Rightarrow> 's \<Rightarrow> bool \<times> 's"
type_synonym 's writer = "'s \<Rightarrow> (bool \<times> 's) option"

text \<open>\<open>FILE\<close>: what has been written, and how much still can be, \<open>None\<close> for a device that never fills up.\<close>

record stream =
  st_text :: string
  st_room :: "nat option"

definition aiger_default_put :: "stream put" where
  "aiger_default_put ch file =
     (if st_room file = Some 0 then (False, file)
      else (True, file\<lparr>st_text := st_text file @ [ch], st_room := map_option (\<lambda>n. n - 1) (st_room file)\<rparr>))"

text \<open>\<open>aiger_buffer\<close>: the characters from \<open>start\<close> to \<open>cursor\<close>, and \<open>end - cursor\<close>. The character is returned as
  a \<open>char\<close>, so that \<open>0xff\<close> is written, but looks like \<open>EOF\<close>.\<close>

record aiger_buffer =
  buf_text :: string
  buf_room :: nat

definition aiger_string_put :: "aiger_buffer put" where
  "aiger_string_put ch buffer =
     (if buf_room buffer = 0 then (False, buffer)
      else (ch \<noteq> CHR 0xFF, buffer\<lparr>buf_text := buf_text buffer @ [ch], buf_room := buf_room buffer - 1\<rparr>))"

text \<open>A call of \<open>put\<close>, and calls one after the other up to the first that fails.\<close>

definition put_ch :: "'s put \<Rightarrow> char \<Rightarrow> 's writer" where
  "put_ch put ch = (\<lambda>s. Some (put ch s))"

fun in_turn :: "'s writer list \<Rightarrow> 's writer" where
  "in_turn [] = (\<lambda>s. Some (True, s))"
| "in_turn (w # ws) = (\<lambda>s. do {
     (ok, s) \<leftarrow> w s;
     if ok then in_turn ws s else Some (False, s) })"

fun aiger_put_s :: "'s put \<Rightarrow> string \<Rightarrow> 's writer" where
  "aiger_put_s put [] = in_turn []"
| "aiger_put_s put (ch # p) = (if ch = CHR 0x00 then in_turn [] else in_turn [put_ch put ch, aiger_put_s put p])"

definition aiger_put_u :: "'s put \<Rightarrow> nat \<Rightarrow> 's writer" where
  "aiger_put_u put u = aiger_put_s put (nat_text u)"

function aiger_write_delta :: "'s put \<Rightarrow> nat \<Rightarrow> 's writer" where
  "aiger_write_delta put tmp =
     (if tmp div 128 \<noteq> 0
      then in_turn [put_ch put (char_of ((tmp AND 127) OR 128)), aiger_write_delta put (drop_bit 7 tmp)]
      else put_ch put (char_of tmp))"
  by pat_completeness auto
termination
  by (relation "measure snd") (auto simp: drop_bit_eq_div)

declare aiger_write_delta.simps [simp del]

section \<open>The header\<close>

text \<open>A number on a line.\<close>

definition put_line :: "'s put \<Rightarrow> nat \<Rightarrow> 's writer" where
  "put_line put u = in_turn [aiger_put_u put u, put_ch put line_feed]"

definition write_latch :: "'s put \<Rightarrow> bool \<Rightarrow> aiger_symbol \<Rightarrow> 's writer" where
  "write_latch put compact s = in_turn
     ((if \<not> compact then [aiger_put_u put (sym_lit s), put_ch put CHR '' ''] else []) @
      [aiger_put_u put (sym_next s)] @
      (if sym_reset s \<noteq> 0 then [put_ch put CHR '' '', aiger_put_u put (sym_reset s)] else []) @
      [put_ch put line_feed])"

definition aiger_write_header :: "'s put \<Rightarrow> aiger \<Rightarrow> string \<Rightarrow> bool \<Rightarrow> 's writer" where
  "aiger_write_header put g format_string compact = in_turn
     ([aiger_put_s put format_string,
       put_ch put CHR '' '', aiger_put_u put (aig_maxvar g),
       put_ch put CHR '' '', aiger_put_u put (length (aig_inputs g)),
       put_ch put CHR '' '', aiger_put_u put (length (aig_latches g)),
       put_ch put CHR '' '', aiger_put_u put (length (aig_outputs g)),
       put_ch put CHR '' '', aiger_put_u put (length (aig_ands g))] @
      (if aig_bad g \<noteq> [] \<or> aig_constraints g \<noteq> [] \<or> aig_justice g \<noteq> [] \<or> aig_fairness g \<noteq> []
       then [put_ch put CHR '' '', aiger_put_u put (length (aig_bad g))] else []) @
      (if aig_constraints g \<noteq> [] \<or> aig_justice g \<noteq> [] \<or> aig_fairness g \<noteq> []
       then [put_ch put CHR '' '', aiger_put_u put (length (aig_constraints g))] else []) @
      (if aig_justice g \<noteq> [] \<or> aig_fairness g \<noteq> []
       then [put_ch put CHR '' '', aiger_put_u put (length (aig_justice g))] else []) @
      (if aig_fairness g \<noteq> []
       then [put_ch put CHR '' '', aiger_put_u put (length (aig_fairness g))] else []) @
      [put_ch put line_feed] @
      (if \<not> compact \<and> aig_inputs g \<noteq> [] then map (\<lambda>s. put_line put (sym_lit s)) (aig_inputs g) else []) @
      map (write_latch put compact) (aig_latches g) @
      map (\<lambda>s. put_line put (sym_lit s)) (aig_outputs g) @
      map (\<lambda>s. put_line put (sym_lit s)) (aig_bad g) @
      map (\<lambda>s. put_line put (sym_lit s)) (aig_constraints g) @
      map (\<lambda>s. put_line put (length (sym_lits s))) (aig_justice g) @
      concat (map (\<lambda>s. map (put_line put) (sym_lits s)) (aig_justice g)) @
      map (\<lambda>s. put_line put (sym_lit s)) (aig_fairness g))"

section \<open>Symbols and comments\<close>

definition aiger_have_at_least_one_symbol_aux :: "aiger_symbol list \<Rightarrow> bool" where
  "aiger_have_at_least_one_symbol_aux symbols = list_ex (\<lambda>s. sym_name s \<noteq> None) symbols"

definition aiger_have_at_least_one_symbol :: "aiger \<Rightarrow> bool" where
  "aiger_have_at_least_one_symbol g =
     (if aiger_have_at_least_one_symbol_aux (aig_inputs g) then True
      else if aiger_have_at_least_one_symbol_aux (aig_outputs g) then True
      else if aiger_have_at_least_one_symbol_aux (aig_latches g) then True
      else if aiger_have_at_least_one_symbol_aux (aig_bad g) then True
      else if aiger_have_at_least_one_symbol_aux (aig_constraints g) then True
      else if aiger_have_at_least_one_symbol_aux (aig_justice g) then True
      else aiger_have_at_least_one_symbol_aux (aig_fairness g))"

text \<open>The next symbol has index \<open>i\<close>.\<close>

fun aiger_write_symbols_aux :: "bool \<Rightarrow> 's put \<Rightarrow> string \<Rightarrow> nat \<Rightarrow> aiger_symbol list \<Rightarrow> 's writer" where
  "aiger_write_symbols_aux d put type i [] = in_turn []"
| "aiger_write_symbols_aux d put type i (symbol # symbols) =
     (case sym_name symbol of
        None \<Rightarrow> aiger_write_symbols_aux d put type (i + 1) symbols
      | Some name \<Rightarrow> (\<lambda>s. do {
          assert_that d (name \<noteq> [] \<and> hd name \<noteq> CHR 0x00);
          in_turn [aiger_put_s put type, aiger_put_u put i, put_ch put CHR '' '', aiger_put_s put name,
            put_ch put line_feed, aiger_write_symbols_aux d put type (i + 1) symbols] s }))"

definition aiger_write_symbols :: "bool \<Rightarrow> 's put \<Rightarrow> aiger \<Rightarrow> 's writer" where
  "aiger_write_symbols d put g = in_turn
     [aiger_write_symbols_aux d put ''i'' 0 (aig_inputs g),
      aiger_write_symbols_aux d put ''l'' 0 (aig_latches g),
      aiger_write_symbols_aux d put ''o'' 0 (aig_outputs g),
      aiger_write_symbols_aux d put ''b'' 0 (aig_bad g),
      aiger_write_symbols_aux d put ''c'' 0 (aig_constraints g),
      aiger_write_symbols_aux d put ''j'' 0 (aig_justice g),
      aiger_write_symbols_aux d put ''f'' 0 (aig_fairness g)]"

definition aiger_write_symbols_to_file :: "bool \<Rightarrow> aiger \<Rightarrow> stream writer" where
  "aiger_write_symbols_to_file d g file = do {
     assert_that d (aig_error g = None);
     aiger_write_symbols d aiger_default_put g file }"

text \<open>The strings of an array up to the first null pointer.\<close>

fun until_null :: "string option list \<Rightarrow> string list" where
  "until_null (Some str # p) = str # until_null p"
| "until_null _ = []"

definition aiger_write_comments :: "'s put \<Rightarrow> aiger \<Rightarrow> 's writer" where
  "aiger_write_comments put g =
     in_turn (map (\<lambda>str. in_turn [aiger_put_s put str, put_ch put line_feed]) (until_null (aig_comments g)))"

definition aiger_write_comments_to_file :: "bool \<Rightarrow> aiger \<Rightarrow> stream writer" where
  "aiger_write_comments_to_file d g file = do {
     assert_that d (aig_error g = None);
     aiger_write_comments aiger_default_put g file }"

text \<open>The number of names that are removed. The comments are counted after they have been deleted, so they
  count \<open>0\<close>.\<close>

definition aiger_delete_symbols_aux :: "aiger_symbol list \<Rightarrow> nat \<times> aiger_symbol list" where
  "aiger_delete_symbols_aux symbols =
     (length (filter (\<lambda>s. sym_name s \<noteq> None) symbols), map (\<lambda>s. s\<lparr>sym_name := None\<rparr>) symbols)"

definition aiger_delete_comments :: "aiger \<Rightarrow> nat \<times> aiger" where
  "aiger_delete_comments g = (let g = g\<lparr>aig_comments := []\<rparr> in (length (aig_comments g), g))"

definition aiger_strip_symbols_and_comments :: "bool \<Rightarrow> aiger \<Rightarrow> (nat \<times> aiger) option" where
  "aiger_strip_symbols_and_comments d g = do {
     assert_that d (aig_error g = None);
     let (res, g) = aiger_delete_comments g;
     let (n, inputs) = aiger_delete_symbols_aux (aig_inputs g);
     let res = u32 (res + n);
     let (n, latches) = aiger_delete_symbols_aux (aig_latches g);
     let res = u32 (res + n);
     let (n, outputs) = aiger_delete_symbols_aux (aig_outputs g);
     let res = u32 (res + n);
     let (n, bad) = aiger_delete_symbols_aux (aig_bad g);
     let res = u32 (res + n);
     let (n, constraints) = aiger_delete_symbols_aux (aig_constraints g);
     let res = u32 (res + n);
     let (n, justice) = aiger_delete_symbols_aux (aig_justice g);
     let res = u32 (res + n);
     let (n, fairness) = aiger_delete_symbols_aux (aig_fairness g);
     let res = u32 (res + n);
     Some (res, g\<lparr>aig_inputs := inputs, aig_latches := latches, aig_outputs := outputs, aig_bad := bad,
       aig_constraints := constraints, aig_justice := justice, aig_fairness := fairness\<rparr>) }"

section \<open>The two formats\<close>

text \<open>\<open>assert (!aiger_check (public))\<close>: in a build with assertions it also marks the gates.\<close>

definition assert_check :: "bool \<Rightarrow> aiger \<Rightarrow> aiger option" where
  "assert_check d g =
     (if d then do {
        g \<leftarrow> aiger_check d g;
        assert_that d (aig_error g = None);
        Some g }
      else Some g)"

definition aiger_write_ascii :: "bool \<Rightarrow> 's put \<Rightarrow> aiger \<Rightarrow> 's \<Rightarrow> (bool \<times> aiger \<times> 's) option" where
  "aiger_write_ascii d put g s = do {
     g \<leftarrow> assert_check d g;
     (ok, s) \<leftarrow> in_turn
       (aiger_write_header put g ''aag'' False #
        map (\<lambda>a. in_turn [aiger_put_u put (and_lhs a), put_ch put CHR '' '', aiger_put_u put (and_rhs0 a),
          put_ch put CHR '' '', aiger_put_u put (and_rhs1 a), put_ch put line_feed]) (aig_ands g)) s;
     Some (ok, g, s) }"

text \<open>Subtraction of \<open>unsigned\<close> numbers.\<close>

definition sub32 :: "nat \<Rightarrow> nat \<Rightarrow> nat" where
  "sub32 a b = (if b \<le> a then a - b else 4294967296 + a - b)"

fun write_gates :: "bool \<Rightarrow> 's put \<Rightarrow> nat \<Rightarrow> aiger_and list \<Rightarrow> 's writer" where
  "write_gates d put lhs [] = in_turn []"
| "write_gates d put lhs (a # as) = (\<lambda>s. do {
     assert_that d (lhs = and_lhs a);
     assert_that d (and_rhs0 a < lhs);
     assert_that d (and_rhs1 a \<le> and_rhs0 a);
     in_turn [aiger_write_delta put (sub32 lhs (and_rhs0 a)), aiger_write_delta put (sub32 (and_rhs0 a) (and_rhs1 a)),
       write_gates d put (u32 (lhs + 2)) as] s })"

definition aiger_write_binary :: "bool \<Rightarrow> 's put \<Rightarrow> aiger \<Rightarrow> 's \<Rightarrow> (bool \<times> aiger \<times> 's) option" where
  "aiger_write_binary d put g s = do {
     g \<leftarrow> assert_check d g;
     g \<leftarrow> aiger_reencode d g;
     (ok, s) \<leftarrow> aiger_write_header put g ''aig'' True s;
     if \<not> ok then Some (False, g, s)
     else do {
       top \<leftarrow> aiger_max_input_or_latch d g;
       (ok, s) \<leftarrow> write_gates d put (u32 (top + 2)) (aig_ands g) s;
       Some (ok, g, s) } }"

text \<open>\<open>aiger_mode\<close>: bits.\<close>

definition aiger_binary_mode :: nat where "aiger_binary_mode = 0"
definition aiger_ascii_mode :: nat where "aiger_ascii_mode = 1"
definition aiger_stripped_mode :: nat where "aiger_stripped_mode = 2"

definition aiger_write_generic :: "bool \<Rightarrow> 's put \<Rightarrow> aiger \<Rightarrow> nat \<Rightarrow> 's \<Rightarrow> (bool \<times> aiger \<times> 's) option" where
  "aiger_write_generic d put g mode s = do {
     assert_that d (aig_error g = None);
     (ok, g, s) \<leftarrow>
       (if mode AND aiger_ascii_mode \<noteq> 0 then aiger_write_ascii d put g s else aiger_write_binary d put g s);
     if \<not> ok then Some (False, g, s)
     else if mode AND aiger_stripped_mode \<noteq> 0 then Some (True, g, s)
     else do {
       (ok, s) \<leftarrow> in_turn
         ((if aiger_have_at_least_one_symbol g then [aiger_write_symbols d put g] else []) @
          (if until_null (take 1 (aig_comments g)) \<noteq> [] then [aiger_put_s put (''c'' @ [line_feed]), aiger_write_comments put g] else [])) s;
       Some (ok, g, s) } }"

section \<open>Files and strings\<close>

definition aiger_write_to_file :: "bool \<Rightarrow> aiger \<Rightarrow> nat \<Rightarrow> stream \<Rightarrow> (bool \<times> aiger \<times> stream) option" where
  "aiger_write_to_file d g mode file = do {
     assert_that d (aig_error g = None);
     aiger_write_generic d aiger_default_put g mode file }"

text \<open>\<open>len\<close> is the size of the memory for the string and the \<open>0\<close> after it.\<close>

definition aiger_write_to_string :: "bool \<Rightarrow> aiger \<Rightarrow> nat \<Rightarrow> nat \<Rightarrow> (bool \<times> aiger \<times> string) option" where
  "aiger_write_to_string d g mode len = do {
     assert_that d (aig_error g = None);
     (res, g, buffer) \<leftarrow> aiger_write_generic d aiger_string_put g mode \<lparr>buf_text = [], buf_room = len\<rparr>;
     if \<not> res then Some (False, g, buf_text buffer)
     else do {
       let (ok, buffer) = aiger_string_put CHR 0x00 buffer;
       Some (ok, g, buf_text buffer) } }"

text \<open>
  The file system, as far as it matters: whether a file can be opened for writing and a command started, and
  how much they take. \<open>file_effect\<close> is what a call leaves behind. As when reading, \<open>size_cmd\<close> is a \<open>char\<close>.
\<close>

record outlets =
  out_file :: "string \<Rightarrow> stream option"
  out_pipe :: "string \<Rightarrow> stream option"

datatype file_effect = To_file string string | To_command string string | Unlinked string

definition gzip_command :: "string \<Rightarrow> string" where
  "gzip_command file_name = ''gzip -c > '' @ file_name @ '' 2>/dev/null''"

definition aiger_open_and_write_to_file ::
  "bool \<Rightarrow> outlets \<Rightarrow> aiger \<Rightarrow> string \<Rightarrow> (bool \<times> aiger \<times> file_effect list) option" where
  "aiger_open_and_write_to_file d io g file_name = do {
     assert_that d (aig_error g = None);
     let gz = aiger_has_suffix file_name ''.gz'';
     file \<leftarrow>
       (if gz
        then if 127 < length file_name + length ''gzip -c > %s 2>/dev/null'' then None
             else Some (out_pipe io (gzip_command file_name))
        else Some (out_file io file_name));
     (case file of
        None \<Rightarrow> Some (False, g, [])
      | Some file \<Rightarrow> do {
          let mode = (if aiger_has_suffix file_name ''.aag'' \<or> aiger_has_suffix file_name ''.aag.gz''
                      then aiger_ascii_mode else aiger_binary_mode);
          (res, g, file) \<leftarrow> aiger_write_to_file d g mode file;
          let written = (if gz then To_command (gzip_command file_name) (st_text file)
                         else To_file file_name (st_text file));
          Some (res, g, written # (if \<not> res then [Unlinked file_name] else [])) }) }"

text \<open>The cone of influence that is returned has every variable.\<close>

definition aiger_coi :: "aiger \<Rightarrow> nat list" where
  "aiger_coi g = replicate (u32 (aig_maxvar g + 1)) 1"

end
