(* ===== verification/AigerWritten.thy ===== *)
theory AigerWritten
  imports AigerWriter AigerDelta AigerReencoded
begin

text \<open>
  What the writer prints, as a text: writing a graph is writing the characters of \<open>graph_text\<close> one after the
  other, whatever they are written to, up to the first that is not taken. So what holds of a file and of a
  string follows from the text.
\<close>

section \<open>Writing a text\<close>

named_theorems written \<open>what is written, as a text\<close>

definition put_text :: "'s put \<Rightarrow> string \<Rightarrow> 's writer" where
  "put_text put t = in_turn (map (put_ch put) t)"

definition then_write :: "'s writer \<Rightarrow> 's writer \<Rightarrow> 's writer" where
  "then_write w v = (\<lambda>s. do { (ok, s) \<leftarrow> w s; if ok then v s else Some (False, s) })"

lemma in_turn_Nil: "in_turn [] = put_text put []"
  by (simp add: put_text_def)

lemma in_turn_Cons [written]: "in_turn (w # ws) = then_write w (in_turn ws)"
  by (simp add: then_write_def)

declare in_turn.simps [simp del]

lemma then_write_skip [written]: "then_write w (in_turn []) = w" "then_write (in_turn []) w = w"
  by (rule ext, auto simp: then_write_def in_turn.simps split: bind_splits prod.split)+

lemma then_write_assoc: "then_write (then_write u v) w = then_write u (then_write v w)"
  by (rule ext) (auto simp: then_write_def split: bind_splits prod.split)

lemma in_turn_append [written]: "in_turn (ws @ vs) = then_write (in_turn ws) (in_turn vs)"
  by (induction ws) (simp_all add: in_turn_Cons then_write_assoc then_write_skip)

lemma then_write_text [written]: "then_write (put_text put a) (put_text put b) = put_text put (a @ b)"
  by (simp add: put_text_def in_turn_append)

lemma put_ch_text [written]: "put_ch put ch = put_text put [ch]"
  by (simp add: put_text_def in_turn_Cons then_write_skip)

lemma in_turn_map: "(\<And>x. x \<in> set xs \<Longrightarrow> w x = put_text put (t x)) \<Longrightarrow> in_turn (map w xs) = put_text put (concat (map t xs))"
  by (induction xs) (simp_all add: in_turn_Nil [of put] in_turn_Cons then_write_text)

lemma in_turn_texts [written]: "in_turn (map (\<lambda>x. put_text put (t x)) xs) = put_text put (concat (map t xs))"
  by (rule in_turn_map) (rule refl)

lemma put_s_text: "CHR 0x00 \<notin> set s \<Longrightarrow> aiger_put_s put s = put_text put s"
proof (induction s)
  case (Cons c s)
  then show ?case by (auto simp: written)
qed (simp add: in_turn_Nil [of put])

lemma digit_not_nul: "is_digit c \<Longrightarrow> c \<noteq> CHR 0x00"
  by (auto simp: is_digit_def)

lemma put_u_text [written]: "aiger_put_u put u = put_text put (nat_text u)"
  unfolding aiger_put_u_def
  by (rule put_s_text) (use nat_text_digits(2) [of u] digit_not_nul in \<open>auto simp: list_all_iff\<close>)

lemma write_delta_text [written]: "aiger_write_delta put x = put_text put (delta_code x)"
proof (induction x rule: delta_code.induct)
  case (1 x)
  then show ?case
    by (subst aiger_write_delta.simps, subst delta_code.simps)
      (simp add: written)
qed

section \<open>The text of a graph\<close>

definition line_text :: "nat \<Rightarrow> string" where
  "line_text u = nat_text u @ [line_feed]"

definition latch_text :: "bool \<Rightarrow> aiger_symbol \<Rightarrow> string" where
  "latch_text compact s =
     (if \<not> compact then nat_text (sym_lit s) @ '' '' else []) @ nat_text (sym_next s) @
     (if sym_reset s \<noteq> 0 then '' '' @ nat_text (sym_reset s) else []) @ [line_feed]"

definition counts_text :: "aiger \<Rightarrow> string" where
  "counts_text g =
     '' '' @ nat_text (aig_maxvar g) @ '' '' @ nat_text (length (aig_inputs g)) @
     '' '' @ nat_text (length (aig_latches g)) @ '' '' @ nat_text (length (aig_outputs g)) @
     '' '' @ nat_text (length (aig_ands g)) @
     (if aig_bad g \<noteq> [] \<or> aig_constraints g \<noteq> [] \<or> aig_justice g \<noteq> [] \<or> aig_fairness g \<noteq> []
      then '' '' @ nat_text (length (aig_bad g)) else []) @
     (if aig_constraints g \<noteq> [] \<or> aig_justice g \<noteq> [] \<or> aig_fairness g \<noteq> []
      then '' '' @ nat_text (length (aig_constraints g)) else []) @
     (if aig_justice g \<noteq> [] \<or> aig_fairness g \<noteq> [] then '' '' @ nat_text (length (aig_justice g)) else []) @
     (if aig_fairness g \<noteq> [] then '' '' @ nat_text (length (aig_fairness g)) else []) @ [line_feed]"

definition lines_text :: "nat list \<Rightarrow> string" where
  "lines_text us = concat (map line_text us)"

definition nodes_text :: "bool \<Rightarrow> aiger \<Rightarrow> string" where
  "nodes_text compact g =
     (if \<not> compact then lines_text (map sym_lit (aig_inputs g)) else []) @
     concat (map (latch_text compact) (aig_latches g)) @ lines_text (map sym_lit (aig_outputs g)) @
     lines_text (map sym_lit (aig_bad g)) @ lines_text (map sym_lit (aig_constraints g)) @
     lines_text (map (length \<circ> sym_lits) (aig_justice g)) @ lines_text (concat (map sym_lits (aig_justice g))) @
     lines_text (map sym_lit (aig_fairness g))"

definition gate_text :: "aiger_and \<Rightarrow> string" where
  "gate_text a = nat_text (and_lhs a) @ '' '' @ nat_text (and_rhs0 a) @ '' '' @ nat_text (and_rhs1 a) @ [line_feed]"

definition gate_code :: "aiger_and \<Rightarrow> string" where
  "gate_code a = delta_code (and_lhs a - and_rhs0 a) @ delta_code (and_rhs0 a - and_rhs1 a)"

text \<open>Both formats: magic word, counts, the nodes and the gates.\<close>

definition ascii_text :: "aiger \<Rightarrow> string" where
  "ascii_text g = ''aag'' @ counts_text g @ nodes_text False g @ concat (map gate_text (aig_ands g))"

definition binary_text :: "aiger \<Rightarrow> string" where
  "binary_text g = ''aig'' @ counts_text g @ nodes_text True g @ concat (map gate_code (aig_ands g))"

fun symbols_text :: "string \<Rightarrow> nat \<Rightarrow> aiger_symbol list \<Rightarrow> string" where
  "symbols_text type i [] = []"
| "symbols_text type i (s # ss) =
     (case sym_name s of None \<Rightarrow> [] | Some name \<Rightarrow> type @ nat_text i @ '' '' @ name @ [line_feed]) @
     symbols_text type (i + 1) ss"

definition names_text :: "aiger \<Rightarrow> string" where
  "names_text g = symbols_text ''i'' 0 (aig_inputs g) @ symbols_text ''l'' 0 (aig_latches g) @
     symbols_text ''o'' 0 (aig_outputs g) @ symbols_text ''b'' 0 (aig_bad g) @
     symbols_text ''c'' 0 (aig_constraints g) @ symbols_text ''j'' 0 (aig_justice g) @
     symbols_text ''f'' 0 (aig_fairness g)"

definition comments_text :: "string list \<Rightarrow> string" where
  "comments_text cs = (if cs = [] then [] else ''c'' @ [line_feed] @ concat (map (\<lambda>c. c @ [line_feed]) cs))"

section \<open>The writer prints it\<close>

lemma put_line_text [written]: "put_line put u = put_text put (line_text u)"
  unfolding put_line_def line_text_def by (simp add: written)

lemma write_latch_text: "write_latch put compact s = put_text put (latch_text compact s)"
  by (cases compact; cases "sym_reset s = 0") (simp_all add: write_latch_def latch_text_def written)

lemma write_header_text:
  assumes "CHR 0x00 \<notin> set format_string"
  shows "aiger_write_header put g format_string compact =
    put_text put (format_string @ counts_text g @ nodes_text compact g)"
proof -
  have latches: "in_turn (map (write_latch put compact) (aig_latches g)) =
      put_text put (concat (map (latch_text compact) (aig_latches g)))"
    by (rule in_turn_map) (rule write_latch_text)
  have lits: "in_turn (map (put_line put) us) = put_text put (lines_text us)" for us
    unfolding lines_text_def by (rule in_turn_map) (rule put_line_text)
  have justice: "in_turn (concat (map (\<lambda>s. map (put_line put) (sym_lits s)) (aig_justice g))) =
      put_text put (lines_text (concat (map sym_lits (aig_justice g))))"
    unfolding lits [symmetric] by (simp add: map_concat comp_def)
  have inputs: "(if \<not> compact \<and> aig_inputs g \<noteq> [] then map w (aig_inputs g) else []) =
      (if \<not> compact then map w (aig_inputs g) else [])" for w :: "aiger_symbol \<Rightarrow> 'a writer"
    by simp
  have if_count: "in_turn (if c then [put_ch put CHR '' '', aiger_put_u put n] else []) =
      put_text put (if c then '' '' @ nat_text n else [])" for c n
    by (simp add: written in_turn_Nil [of put])
  have if_lines: "in_turn (if c then map (\<lambda>s. put_line put (f s)) ss else []) =
      put_text put (if c then lines_text (map f ss) else [])" for c f and ss :: "aiger_symbol list"
    by (simp add: written in_turn_Nil [of put] lines_text_def comp_def)
  show ?thesis
    unfolding aiger_write_header_def inputs
    by (simp add: written if_count if_lines latches justice put_s_text [OF assms] counts_text_def nodes_text_def
        lines_text_def comp_def split del: if_split)
qed

text \<open>Names and comments that a line of the file can hold.\<close>

definition line_ok :: "string \<Rightarrow> bool" where
  "line_ok s \<longleftrightarrow> CHR 0x00 \<notin> set s \<and> line_feed \<notin> set s"

definition names_ok :: "aiger_symbol list \<Rightarrow> bool" where
  "names_ok ss \<longleftrightarrow> (\<forall>s \<in> set ss. \<forall>name. sym_name s = Some name \<longrightarrow> name \<noteq> [] \<and> line_ok name)"

definition all_names_ok :: "aiger \<Rightarrow> bool" where
  "all_names_ok g \<longleftrightarrow> names_ok (aig_inputs g) \<and> names_ok (aig_latches g) \<and> names_ok (aig_outputs g) \<and>
     names_ok (aig_bad g) \<and> names_ok (aig_constraints g) \<and> names_ok (aig_justice g) \<and> names_ok (aig_fairness g) \<and>
     (\<forall>c. Some c \<in> set (aig_comments g) \<longrightarrow> c \<noteq> [] \<and> line_ok c)"

lemma write_symbols_aux_text:
  assumes "names_ok ss" and "CHR 0x00 \<notin> set type"
  shows "aiger_write_symbols_aux d put type i ss = put_text put (symbols_text type i ss)"
  using assms(1)
proof (induction ss arbitrary: i)
  case Nil
  then show ?case by (simp add: in_turn_Nil [of put])
next
  case (Cons s ss)
  have IH: "aiger_write_symbols_aux d put type (Suc i) ss = put_text put (symbols_text type (Suc i) ss)"
    using Cons by (simp add: names_ok_def)
  show ?case
  proof (cases "sym_name s")
    case None
    then show ?thesis using IH by simp
  next
    case (Some name)
    then have "name \<noteq> []" "CHR 0x00 \<notin> set name" using Cons.prems by (auto simp: names_ok_def line_ok_def)
    moreover from this have "hd name \<noteq> CHR 0x00" by (cases name) auto
    ultimately show ?thesis
      using Some IH put_s_text [OF assms(2), of put] by (simp add: written put_s_text assert_that_holds)
  qed
qed

lemma write_symbols_text: "all_names_ok g \<Longrightarrow> aiger_write_symbols d put g = put_text put (names_text g)"
  by (simp add: aiger_write_symbols_def all_names_ok_def write_symbols_aux_text written names_text_def)

lemma no_names_text: "\<not> aiger_have_at_least_one_symbol_aux ss \<Longrightarrow> symbols_text type i ss = []"
  by (induction ss arbitrary: i) (simp_all add: aiger_have_at_least_one_symbol_aux_def)

lemma no_symbols_text: "\<not> aiger_have_at_least_one_symbol g \<Longrightarrow> names_text g = []"
  by (auto simp: aiger_have_at_least_one_symbol_def names_text_def no_names_text split: if_splits)

lemma until_null_in: "c \<in> set (until_null cs) \<Longrightarrow> Some c \<in> set cs"
  by (induction cs rule: until_null.induct) auto

lemma until_null_first: "until_null (take 1 cs) = [] \<longleftrightarrow> until_null cs = []"
  by (cases cs rule: until_null.cases) simp_all

lemma until_null_strings: "until_null (map Some cs @ [None]) = cs"
  by (induction cs) simp_all

lemma comment_lines_ok:
  assumes "all_names_ok g"
  shows "\<forall>c \<in> set (until_null (aig_comments g)). c \<noteq> [] \<and> line_ok c"
  using assms until_null_in by (auto simp: all_names_ok_def)

lemma write_comments_text:
  assumes "\<forall>c \<in> set (until_null (aig_comments g)). line_ok c"
  shows "aiger_write_comments put g = put_text put (concat (map (\<lambda>c. c @ [line_feed]) (until_null (aig_comments g))))"
  unfolding aiger_write_comments_def
  by (rule in_turn_map) (use assms in \<open>simp add: put_s_text line_ok_def written\<close>)

section \<open>Both formats\<close>

text \<open>What is kept besides the names: a graph that differs in marks has the same text.\<close>

lemma marks_only_text:
  assumes "marks_only g h"
  shows "ascii_text h = ascii_text g" and "binary_text h = binary_text g" and "names_text h = names_text g"
    and "aig_comments h = aig_comments g" and "all_names_ok h = all_names_ok g"
proof -
  have s: "aig_inputs h = aig_inputs g" "aig_latches h = aig_latches g" "aig_ands h = aig_ands g"
    "aig_outputs h = aig_outputs g" "aig_bad h = aig_bad g" "aig_maxvar h = aig_maxvar g"
    "aig_constraints h = aig_constraints g" "aig_justice h = aig_justice g" "aig_fairness h = aig_fairness g"
    using assms by (cases g; cases h; simp add: marks_only_def)+
  show c: "aig_comments h = aig_comments g" using assms by (cases g; cases h; simp add: marks_only_def)
  show "ascii_text h = ascii_text g" "binary_text h = binary_text g" "names_text h = names_text g"
    "all_names_ok h = all_names_ok g"
    by (simp_all add: s c ascii_text_def binary_text_def counts_text_def nodes_text_def names_text_def all_names_ok_def)
qed

lemma write_ascii_text:
  assumes "assert_check d g = Some h"
  shows "aiger_write_ascii d put g s = do { (ok, s) \<leftarrow> put_text put (ascii_text h) s; Some (ok, h, s) }"
  using assms by (simp add: aiger_write_ascii_def written write_header_text ascii_text_def gate_text_def [abs_def])

lemma write_gates_text:
  assumes "ands_from mx lhs as" and "\<forall>a \<in> set as. and_rhs0 a \<noteq> and_lhs a \<and> and_lhs a < 4294967296"
  shows "write_gates d put lhs as = put_text put (concat (map gate_code as))"
  using assms
proof (induction as arbitrary: lhs)
  case Nil
  then show ?case by (simp add: in_turn_Nil [of put])
next
  case (Cons a as)
  have a: "and_lhs a = lhs" "and_rhs0 a < lhs" "and_rhs1 a \<le> and_rhs0 a" "ands_from mx (lhs + 2) as" "lhs < 4294967296"
    using Cons.prems by (auto split: if_splits)
  have "write_gates d put (u32 (lhs + 2)) as = put_text put (concat (map gate_code as))"
  proof (cases as)
    case Nil
    then show ?thesis by (simp add: in_turn_Nil [of put])
  next
    case (Cons b bs)
    then have "lhs + 2 = and_lhs b" using a(4) by (simp split: if_splits)
    then have "u32 (lhs + 2) = lhs + 2" using Cons.prems(2) Cons by (simp add: u32_def)
    then show ?thesis using Cons.IH [OF a(4)] Cons.prems(2) by simp
  qed
  then show ?case using a by (simp add: written assert_that_holds sub32_def gate_code_def [abs_def])
qed

lemma write_binary_text:
  assumes "assert_check d g = Some g1" and "aiger_reencode d g1 = Some h" and "aiger_is_reencoded d h = Some True"
    and "\<forall>a \<in> set (aig_ands h). and_rhs0 a \<noteq> and_lhs a \<and> and_lhs a < 4294967296"
  shows "aiger_write_binary d put g s = do { (ok, s) \<leftarrow> put_text put (binary_text h) s; Some (ok, h, s) }"
proof -
  obtain mx top where top: "aiger_max_input_or_latch d h = Some top" "ands_from mx (top + 2) (aig_ands h)"
    using assms(3) by (auto simp: aiger_is_reencoded_def bind_eq_Some_conv split: option.splits)
  have "write_gates d put (u32 (top + 2)) (aig_ands h) = put_text put (concat (map gate_code (aig_ands h)))"
  proof (cases "aig_ands h")
    case (Cons a as)
    then have "top + 2 = and_lhs a" using top(2) by (simp split: if_splits)
    then have "u32 (top + 2) = top + 2" using assms(4) Cons by (simp add: u32_def)
    then show ?thesis using write_gates_text [OF top(2) assms(4)] by simp
  qed (simp add: in_turn_Nil [of put])
  then have "aiger_write_binary d put g s = do {
      (ok, s) \<leftarrow> then_write (put_text put (''aig'' @ counts_text h @ nodes_text True h))
        (put_text put (concat (map gate_code (aig_ands h)))) s;
      Some (ok, h, s) }"
    using assms(1,2) top(1) write_header_text [of "''aig''" put h True]
    by (auto simp: aiger_write_binary_def then_write_def split: bind_splits prod.split)
  then show ?thesis by (simp add: written binary_text_def)
qed

text \<open>The whole file.\<close>

definition extra_text :: "aiger \<Rightarrow> string" where
  "extra_text g = names_text g @ comments_text (until_null (aig_comments g))"

lemma write_generic_text:
  assumes "aig_error g = None" and "mode = aiger_ascii_mode \<or> mode = aiger_binary_mode"
    and "(if mode = aiger_ascii_mode then aiger_write_ascii d put g s else aiger_write_binary d put g s) =
      do { (ok, s) \<leftarrow> put_text put t s; Some (ok, h, s) }"
    and "all_names_ok h"
  shows "aiger_write_generic d put g mode s = do { (ok, s) \<leftarrow> put_text put (t @ extra_text h) s; Some (ok, h, s) }"
proof -
  have names: "in_turn (if aiger_have_at_least_one_symbol h then [aiger_write_symbols d put h] else []) =
      put_text put (names_text h)"
    using no_symbols_text [of h] assms(4) by (simp add: write_symbols_text written in_turn_Nil [of put])
  have comments: "in_turn (if until_null (take 1 (aig_comments h)) \<noteq> []
        then [aiger_put_s put (''c'' @ [line_feed]), aiger_write_comments put h] else []) =
      put_text put (comments_text (until_null (aig_comments h)))"
    unfolding until_null_first
    using comment_lines_ok [OF assms(4)] by (simp add: write_comments_text put_s_text line_feed_def comments_text_def written
        in_turn_Nil [of put])
  have m: "mode AND aiger_ascii_mode \<noteq> 0 \<longleftrightarrow> mode = aiger_ascii_mode" "mode AND aiger_stripped_mode = 0"
    using assms(2) by (auto simp: aiger_ascii_mode_def aiger_binary_mode_def aiger_stripped_mode_def)
  have rest: "in_turn ((if aiger_have_at_least_one_symbol h then [aiger_write_symbols d put h] else []) @
      (if until_null (take 1 (aig_comments h)) \<noteq> [] then [aiger_put_s put (''c'' @ [line_feed]), aiger_write_comments put h] else [])) =
      put_text put (extra_text h)"
    unfolding extra_text_def by (simp only: in_turn_append names comments then_write_text)
  have "aiger_write_generic d put g mode s =
      do { (ok, s) \<leftarrow> then_write (put_text put t) (put_text put (extra_text h)) s; Some (ok, h, s) }"
  proof (cases "put_text put t s")
    case None
    then show ?thesis
      by (simp only: aiger_write_generic_def m assms(1,3) simp_thms assert_that_True Option.bind.simps then_write_def)
  next
    case (Some y)
    obtain ok s1 where "y = (ok, s1)" by (cases y)
    with Some show ?thesis
      by (cases ok) (simp_all only: aiger_write_generic_def assms(1,3) assert_that_True Option.bind.simps prod.case
          then_write_def rest m simp_thms if_True if_False)
  qed
  then show ?thesis by (simp only: then_write_text)
qed

section \<open>Stripping\<close>

definition named :: "aiger_symbol list \<Rightarrow> nat" where
  "named ss = length (filter (\<lambda>s. sym_name s \<noteq> None) ss)"

lemma unnamed_text: "symbols_text type i (map (\<lambda>s. s\<lparr>sym_name := None\<rparr>) ss) = []"
  by (induction ss arbitrary: i) simp_all

text \<open>Stripping removes names and comments and keeps the text of the graph; what is returned counts the names,
  not the comments.\<close>

lemma strip_exact:
  assumes "aig_error g = None"
  shows "\<exists>h. aiger_strip_symbols_and_comments d g = Some (u32 (named (aig_inputs g) + named (aig_latches g) +
      named (aig_outputs g) + named (aig_bad g) + named (aig_constraints g) + named (aig_justice g) + named (aig_fairness g)), h) \<and>
    ascii_text h = ascii_text g \<and> binary_text h = binary_text g \<and> extra_text h = []"
proof -
  have lat: "concat (map (latch_text b \<circ> (\<lambda>s. s\<lparr>sym_name := None\<rparr>)) ss) = concat (map (latch_text b) ss)" for b ss
    by (induction ss) (simp_all add: latch_text_def)
  have delete: "aiger_delete_symbols_aux ss = (named ss, map (\<lambda>s. s\<lparr>sym_name := None\<rparr>) ss)" for ss
    by (simp add: aiger_delete_symbols_aux_def named_def)
  have u32: "u32 (u32 a + b) = u32 (a + b)" "u32 (u32 a) = u32 a" for a b by (simp_all add: u32_def mod_add_left_eq)
  show ?thesis
    using assms
    by (simp add: aiger_strip_symbols_and_comments_def aiger_delete_comments_def delete Let_def u32 add.assoc ascii_text_def binary_text_def counts_text_def nodes_text_def extra_text_def
        names_text_def comments_text_def unnamed_text lat comp_def lat [unfolded comp_def])
qed

section \<open>Files and strings\<close>

text \<open>A file that does not fill up takes everything; a string takes a text that fits and has no \<open>0xff\<close>.\<close>

lemma put_text_Cons:
  "put_text put (c # t) s = (case put c s of (ok, s) \<Rightarrow> if ok then put_text put t s else Some (False, s))"
  by (simp add: put_text_def in_turn_Cons then_write_def put_ch_def cong: if_cong)

lemma put_text_Nil: "put_text put [] s = Some (True, s)"
  by (simp add: put_text_def in_turn.simps)

lemma default_put_text: "put_text aiger_default_put t \<lparr>st_text = a, st_room = None\<rparr> = Some (True, \<lparr>st_text = a @ t, st_room = None\<rparr>)"
proof (induction t arbitrary: a)
  case (Cons c t)
  have "aiger_default_put c \<lparr>st_text = a, st_room = None\<rparr> = (True, \<lparr>st_text = a @ [c], st_room = None\<rparr>)"
    by (simp add: aiger_default_put_def)
  then show ?case using Cons.IH [of "a @ [c]"] by (simp add: put_text_Cons)
qed (simp add: put_text_Nil)

text \<open>A file that fills up takes what fits.\<close>

lemma full_put_text:
  "put_text aiger_default_put t \<lparr>st_text = a, st_room = Some n\<rparr> =
     Some (length t \<le> n, \<lparr>st_text = a @ take n t, st_room = Some (n - length t)\<rparr>)"
proof (induction t arbitrary: a n)
  case (Cons c t)
  show ?case
  proof (cases n)
    case 0
    then show ?thesis by (simp add: put_text_Cons aiger_default_put_def)
  next
    case (Suc m)
    have "aiger_default_put c \<lparr>st_text = a, st_room = Some (Suc m)\<rparr> = (True, \<lparr>st_text = a @ [c], st_room = Some m\<rparr>)"
      by (simp add: aiger_default_put_def)
    then show ?thesis using Suc Cons.IH [of "a @ [c]" m] by (simp add: put_text_Cons)
  qed
qed (simp add: put_text_Nil)

lemma string_get_text:
  "CHR 0x00 \<notin> set t \<Longrightarrow> CHR 0xFF \<notin> set t \<Longrightarrow> length t < n \<Longrightarrow> string_get_all n (t @ [CHR 0x00]) = t"
proof (induction t arbitrary: n)
  case Nil
  then show ?case by (cases n) (simp_all add: aiger_string_get_def)
next
  case (Cons c t)
  then show ?case by (cases n) (auto simp: aiger_string_get_def)
qed

text \<open>A file in the ASCII format is a string: it has no \<open>0\<close>.\<close>

lemma nat_text_no_nul: "CHR 0x00 \<notin> set (nat_text u)"
  using nat_text_digits(2) [of u] digit_not_nul by (auto simp: list_all_iff)

lemma symbols_text_no_nul:
  "names_ok ss \<Longrightarrow> CHR 0x00 \<notin> set type \<Longrightarrow> CHR 0x00 \<notin> set (symbols_text type i ss)"
proof (induction ss arbitrary: i)
  case (Cons s ss)
  have "names_ok ss" using Cons.prems(1) by (simp add: names_ok_def)
  moreover have "CHR 0x00 \<notin> set name" if "sym_name s = Some name" for name
    using that Cons.prems(1) by (auto simp: names_ok_def line_ok_def)
  ultimately show ?case
    using Cons nat_text_no_nul by (auto simp: line_feed_def split: option.splits)
qed simp

lemma ascii_no_nul:
  assumes "all_names_ok g"
  shows "CHR 0x00 \<notin> set (ascii_text g @ extra_text g)"
proof -
  have lines: "CHR 0x00 \<notin> set (lines_text us)" for us
    using nat_text_no_nul by (auto simp: lines_text_def line_text_def line_feed_def)
  have "CHR 0x00 \<notin> set (concat (map (latch_text b) ss))" for b ss
    using nat_text_no_nul by (auto simp: latch_text_def line_feed_def)
  then have nodes: "CHR 0x00 \<notin> set (nodes_text b g)" for b using lines by (simp add: nodes_text_def)
  have counts: "CHR 0x00 \<notin> set (counts_text g)" using nat_text_no_nul by (auto simp: counts_text_def line_feed_def)
  have gates: "CHR 0x00 \<notin> set (concat (map gate_text as))" for as
    using nat_text_no_nul by (auto simp: gate_text_def line_feed_def)
  have comments: "CHR 0x00 \<notin> set (comments_text (until_null (aig_comments g)))"
    using comment_lines_ok [OF assms] by (auto simp: comments_text_def line_ok_def line_feed_def)
  have "CHR 0x00 \<notin> set (names_text g)" using assms by (simp add: names_text_def all_names_ok_def symbols_text_no_nul)
  then show ?thesis using nodes counts gates comments by (simp add: ascii_text_def extra_text_def)
qed

lemma string_put_text:
  "\<exists>b. put_text aiger_string_put t \<lparr>buf_text = a, buf_room = n\<rparr> = Some (length t \<le> n \<and> CHR 0xFF \<notin> set t, b) \<and>
    (length t \<le> n \<and> CHR 0xFF \<notin> set t \<longrightarrow> b = \<lparr>buf_text = a @ t, buf_room = n - length t\<rparr>)"
proof (induction t arbitrary: a n)
  case (Cons c t)
  show ?case
  proof (cases n)
    case 0
    have "aiger_string_put c \<lparr>buf_text = a, buf_room = 0\<rparr> = (False, \<lparr>buf_text = a, buf_room = 0\<rparr>)"
      by (simp add: aiger_string_put_def)
    then show ?thesis using 0 by (simp add: put_text_Cons)
  next
    case (Suc m)
    have "aiger_string_put c \<lparr>buf_text = a, buf_room = Suc m\<rparr> = (c \<noteq> CHR 0xFF, \<lparr>buf_text = a @ [c], buf_room = m\<rparr>)"
      by (simp add: aiger_string_put_def)
    then show ?thesis using Suc Cons.IH [of "a @ [c]" m] by (cases "c = CHR 0xFF") (auto simp: put_text_Cons)
  qed
qed (simp add: put_text_Nil)

end
