(* ===== verification/AigerReread.thy ===== *)
theory AigerReread
  imports AigerWritten
begin

text \<open>
  Reading what the writer printed, step by step: a number is read back with the character after it, and a
  node whose literal is new is added to the graph. \<open>reads\<close> says that a parser returns a value and what
  remains of the text; \<open>settled\<close> is what a reader keeps while it reads on.
\<close>

section \<open>The reader\<close>

definition settled :: "aiger_reader \<Rightarrow> aiger_reader" where
  "settled r = r\<lparr>rd_state := [], rd_ch := None, rd_lineno := 0, rd_charno := 0, rd_token_lineno := 0,
     rd_looks_like_aag := False\<rparr>"

lemma settled_next [simp]: "settled (aiger_next_ch r) = settled r"
  by (simp add: settled_def aiger_next_ch_def Let_def)

lemma settled_sel:
  assumes "settled r = k"
  shows "rd_ascii r = rd_ascii k" "rd_maxvar r = rd_maxvar k" "rd_inputs r = rd_inputs k" "rd_latches r = rd_latches k"
    "rd_outputs r = rd_outputs k" "rd_ands r = rd_ands k" "rd_bad r = rd_bad k" "rd_constraints r = rd_constraints k"
    "rd_justice r = rd_justice k" "rd_fairness r = rd_fairness k" "rd_buffer r = rd_buffer k"
    "rd_done_header r = rd_done_header k"
  using assms by (auto simp: settled_def)

lemma number_from_settled: "number_from n r = (m, r') \<Longrightarrow> settled r' = settled r"
proof (induction n r arbitrary: m r' rule: number_from.induct)
  case (1 n r)
  show ?case
    using "1.IH" [OF refl] "1.prems" by (auto simp: number_from.simps [of n r] Let_def split: if_splits)
qed

text \<open>A parser returns \<open>x\<close> and a graph; \<open>s\<close> remains to be read.\<close>

definition reads :: "'a parse \<Rightarrow> 'a \<Rightarrow> string \<Rightarrow> aiger_reader \<Rightarrow> aiger \<Rightarrow> bool" where
  "reads m x s k g \<longleftrightarrow> (\<exists>r. m = Some (Some x, r, g) \<and> ahead r = s \<and> settled r = k)"

lemma reads_parsed: "ahead r = s \<Longrightarrow> settled r = k \<Longrightarrow> reads (parsed x r g) x s k g"
  by (simp add: reads_def parsed_def)

lemma reads_and_then:
  assumes "reads m x s k g" and "\<And>r. ahead r = s \<Longrightarrow> settled r = k \<Longrightarrow> reads (f x r g) y s' k' g'"
  shows "reads (and_then m f) y s' k' g'"
  using assms by (auto simp: reads_def)

lemma reads_literal:
  assumes "ahead r = nat_text n @ e # rest" and "n < 4294967296" and "e = CHR '' '' \<or> e = line_feed"
    and "expected = None \<or> expected = Some e"
  shows "reads (aiger_read_literal d what expected r g) (n, Some e) rest (settled r) g"
proof -
  obtain r' where r': "aiger_read_literal d what expected r g = parsed (n, Some e) r' g" "ahead r' = rest"
    using read_literal_text [OF assms(1,3,4), of d what g] assms(2) by (auto simp: u32_def)
  have "settled r' = settled r"
    using r'(1) number_from_settled
    by (auto simp: aiger_read_literal_def aiger_read_number_def parsed_def failing_def bind_eq_Some_conv
        split: if_splits option.splits prod.splits)
  then show ?thesis using r' by (simp add: reads_parsed)
qed

lemma reads_line:
  assumes "ahead r = line_text n @ rest" and "n < 4294967296"
  shows "reads (aiger_read_literal d what (Some line_feed) r g) (n, Some line_feed) rest (settled r) g"
  by (rule reads_literal) (use assms in \<open>simp_all add: line_text_def\<close>)

lemma delta_settled: "delta_from d i res charno r g = Some (Some v, r', g') \<Longrightarrow> settled r' = settled r"
proof (induction d i res charno r g rule: delta_from.induct)
  case (1 d i res charno r g)
  show ?case
    using "1.IH" [OF refl] "1.prems"
    by (auto simp: delta_from.simps [of d i] Let_def failing_def parsed_def split: if_splits option.splits)
qed

lemma reads_delta:
  assumes "ahead r = delta_code x @ rest" and "x < 4294967296"
  shows "reads (aiger_read_delta d r g) x rest (settled r) g"
proof -
  obtain r' where r': "aiger_read_delta d r g = Some (Some x, r', g)" "ahead r' = rest"
    using read_write_delta [OF assms, of d g] by (auto simp: runs_iff)
  then have "settled r' = settled r"
    using delta_settled by (auto simp: aiger_read_delta_def failing_def split: if_splits option.splits)
  then show ?thesis using r' by (simp add: reads_def)
qed

section \<open>The graph so far\<close>

definition table_for :: "nat \<Rightarrow> aiger \<Rightarrow> bool" where
  "table_for mx h \<longleftrightarrow> types_ok h \<and> unmarked h \<and> aig_error h = None \<and> aig_maxvar h = mx \<and>
     mx < length (aig_types h) \<and> mx < 2147483648"

text \<open>Equal up to the table.\<close>

definition same_nodes :: "aiger \<Rightarrow> aiger \<Rightarrow> bool" where
  "same_nodes h k \<longleftrightarrow> h\<lparr>aig_types := aig_types k\<rparr> = k"

lemma same_nodes_refl: "same_nodes h h"
  by (simp add: same_nodes_def)

lemma same_nodes_trans: "same_nodes h k \<Longrightarrow> same_nodes k l \<Longrightarrow> same_nodes h l"
  by (cases h; cases k; cases l) (simp add: same_nodes_def)

lemma same_nodes_sel:
  assumes "same_nodes h k"
  shows "aig_maxvar h = aig_maxvar k" "aig_inputs h = aig_inputs k" "aig_latches h = aig_latches k"
    "aig_outputs h = aig_outputs k" "aig_bad h = aig_bad k" "aig_constraints h = aig_constraints k"
    "aig_justice h = aig_justice k" "aig_fairness h = aig_fairness k" "aig_ands h = aig_ands k"
    "aig_comments h = aig_comments k" "aig_error h = aig_error k"
  using assms by (cases h; cases k; simp add: same_nodes_def)+

definition node_lits :: "aiger \<Rightarrow> nat list" where
  "node_lits h = map sym_lit (aig_inputs h) @ map sym_lit (aig_latches h) @ map and_lhs (aig_ands h)"

text \<open>A literal that can define a node.\<close>

definition node_lit :: "nat \<Rightarrow> nat \<Rightarrow> bool" where
  "node_lit mx l \<longleftrightarrow> 1 < l \<and> l mod 2 = 0 \<and> l div 2 \<le> mx"

lemma defined_node_lits:
  assumes "types_ok h"
  shows "defined_var h v \<Longrightarrow> 2 * v \<in> set (node_lits h)"
  using node_of [OF assms, of v] unfolding defined_var_def node_lits_def
  by (auto simp: image_iff in_set_conv_nth) (metis nth_mem)+

lemma node_lits_defined:
  assumes ok: "types_ok h" and l: "l \<in> set (node_lits h)"
  shows "defined_var h (l div 2)" and "l mod 2 = 0"
proof -
  have t: "table_ok ty_input (typed h) (map sym_lit (aig_inputs h))"
    "table_ok ty_latch (typed h) (map sym_lit (aig_latches h))" "table_ok ty_and (typed h) (map and_lhs (aig_ands h))"
    using ok by (simp_all add: types_ok_def)
  from l consider (input) k where "k < length (map sym_lit (aig_inputs h))" "l = map sym_lit (aig_inputs h) ! k"
    | (latch) k where "k < length (map sym_lit (aig_latches h))" "l = map sym_lit (aig_latches h) ! k"
    | (gate) k where "k < length (map and_lhs (aig_ands h))" "l = map and_lhs (aig_ands h) ! k"
    unfolding node_lits_def set_append Un_iff in_set_conv_nth by blast
  then have "defined_var h (l div 2) \<and> l mod 2 = 0"
  proof cases
    case input
    then show ?thesis using table_ok_nth [OF t(1) input(1)] by (simp add: defined_var_def)
  next
    case latch
    then show ?thesis using table_ok_nth [OF t(2) latch(1)] by (simp add: defined_var_def)
  next
    case gate
    then show ?thesis using table_ok_nth [OF t(3) gate(1)] by (simp add: defined_var_def)
  qed
  then show "defined_var h (l div 2)" "l mod 2 = 0" by simp_all
qed

lemma node_lits_node_lit: "types_ok h \<Longrightarrow> l \<in> set (node_lits h) \<Longrightarrow> node_lit (aig_maxvar h) l"
  using node_lits_defined [of h l] var_bounds [of h "l div 2"] by (auto simp: node_lit_def)

lemma distinct_table:
  assumes "table_ok flag ty lits"
  shows "distinct lits"
  unfolding distinct_conv_nth
proof (intro allI impI)
  fix i j assume "i < length lits" "j < length lits" "i \<noteq> j"
  then show "lits ! i \<noteq> lits ! j" using table_ok_nth(2) [OF assms] by metis
qed

lemma distinct_node_lits:
  assumes "types_ok h"
  shows "distinct (node_lits h)"
proof -
  have t: "table_ok ty_input (typed h) (map sym_lit (aig_inputs h))"
    "table_ok ty_latch (typed h) (map sym_lit (aig_latches h))" "table_ok ty_and (typed h) (map and_lhs (aig_ands h))"
    using assms by (simp_all add: types_ok_def)
  have flag: "flag (typed h (l div 2))" if "table_ok flag (typed h) lits" "l \<in> set lits" for flag lits l
    using that table_ok_nth(1) by (metis in_set_conv_nth)
  have "set (map sym_lit (aig_inputs h)) \<inter> set (map sym_lit (aig_latches h)) = {}"
    "set (map sym_lit (aig_inputs h)) \<inter> set (map and_lhs (aig_ands h)) = {}"
    "set (map sym_lit (aig_latches h)) \<inter> set (map and_lhs (aig_ands h)) = {}"
    using flag [OF t(1)] flag [OF t(2)] flag [OF t(3)] node_kind [OF assms] unfolding disjoint_iff by metis+
  then show ?thesis
    using distinct_table [OF t(1)] distinct_table [OF t(2)] distinct_table [OF t(3)]
    unfolding node_lits_def distinct_append set_append by blast
qed

lemma new_literal:
  assumes "table_for mx h" and "node_lit mx l" and "l \<notin> set (node_lits h)"
  shows "fresh_node h l" and "check_new_literal d what l r h = parsed () r h"
proof -
  have ok: "types_ok h" and mx: "aig_maxvar h = mx" "mx < length (aig_types h)" using assms(1) by (simp_all add: table_for_def)
  have "2 * (l div 2) = l" using assms(2) by (auto simp: node_lit_def)
  then have und: "\<not> defined_var h (l div 2)" using defined_node_lits [OF ok, of "l div 2"] assms(3) by auto
  then show "fresh_node h l" using assms(2) by (simp add: fresh_node_def node_lit_def)
  have "vec_at (aig_types h) (l div 2) = Some (typed h (l div 2))"
    using mx assms(2) by (simp add: node_lit_def typed_nth)
  then show "check_new_literal d what l r h = parsed () r h"
    using und assms(2) mx(1)
    by (auto simp: check_new_literal_def aiger_already_defined_def node_lit_def aiger_sign_def aiger_lit2var_def
        defined_var_def)
qed

text \<open>Importing a literal up to the maximal variable changes nothing.\<close>

lemma import_same:
  assumes "table_for mx h" and "l div 2 \<le> mx"
  shows "aiger_import_literal h l = h"
  using assms by (simp add: table_for_def aiger_import_literal_def aiger_lit2var_def grow_types.simps [of "l div 2"])

section \<open>Adding nodes\<close>

lemma table_set:
  assumes "table_for mx h" and "v \<le> mx" and "\<not> ty_mark t" "\<not> ty_onstack t"
    and "aig_types k = (aig_types h)[v := t]" and "aig_error k = None" and "aig_maxvar k = mx" and "types_ok k"
  shows "table_for mx k"
  using assms unmarked_update [of h v t k] by (simp add: table_for_def)

lemma add_input_step:
  assumes t: "table_for mx h" and l: "node_lit mx l" "l \<notin> set (node_lits h)"
  shows "\<exists>h'. aiger_add_input d h l None = Some h' \<and> table_for mx h' \<and>
    same_nodes h' (h\<lparr>aig_inputs := aig_inputs h @ [named_symbol l None]\<rparr>)"
proof -
  let ?t = "(typed h (l div 2))\<lparr>ty_input := True, ty_idx := length (aig_inputs h)\<rparr>"
  let ?k = "h\<lparr>aig_types := (aig_types h)[l div 2 := ?t], aig_inputs := aig_inputs h @ [named_symbol l None]\<rparr>"
  have ok: "types_ok h" "aig_error h = None" "l div 2 < length (aig_types h)" "aig_maxvar h = mx" "unmarked h"
    using t l(1) by (simp_all add: table_for_def node_lit_def)
  note f = new_literal(1) [OF t l] and i = import_same [OF t, of l]
  have run: "aiger_add_input d h l None = Some ?k"
    using ok i l(1) import_fresh [OF ok(1) f] fresh_node_var [OF f]
    by (simp add: aiger_add_input_def node_lit_def set_type_def Let_def named_symbol_def aiger_lit2var_def)
  then have "types_ok ?k" using add_input_runs [OF ok(1,2) f, of d None] by simp
  then have "table_for mx ?k"
    by (intro table_set [OF t, of "l div 2" ?t]) (use ok l(1) in \<open>simp_all add: node_lit_def unmarked_def\<close>)
  then show ?thesis using run by (intro exI [of _ ?k]) (simp add: same_nodes_def)
qed

lemma add_latch_step:
  assumes t: "table_for mx h" and l: "node_lit mx l" "l \<notin> set (node_lits h)" and n: "n div 2 \<le> mx"
  shows "\<exists>h'. aiger_add_latch d h l n None = Some h' \<and> table_for mx h' \<and>
    same_nodes h' (h\<lparr>aig_latches := aig_latches h @ [zero_symbol\<lparr>sym_lit := l, sym_next := n\<rparr>]\<rparr>)"
proof -
  let ?t = "(typed h (l div 2))\<lparr>ty_latch := True, ty_idx := length (aig_latches h)\<rparr>"
  let ?h = "h\<lparr>aig_types := (aig_types h)[l div 2 := ?t]\<rparr>"
  let ?k = "?h\<lparr>aig_latches := aig_latches h @ [zero_symbol\<lparr>sym_lit := l, sym_next := n\<rparr>]\<rparr>"
  have ok: "types_ok h" "aig_error h = None" "l div 2 < length (aig_types h)" "aig_maxvar h = mx" "unmarked h"
    using t l(1) by (simp_all add: table_for_def node_lit_def)
  note f = new_literal(1) [OF t l] and i = import_same [OF t, of l]
  have "aiger_import_literal ?h n = ?h"
    using n ok t by (simp add: aiger_import_literal_def aiger_lit2var_def grow_types.simps [of "n div 2"] table_for_def)
  then have run: "aiger_add_latch d h l n None = Some ?k"
    using ok i l(1) import_fresh [OF ok(1) f] fresh_node_var [OF f]
    by (simp add: aiger_add_latch_def node_lit_def set_type_def Let_def aiger_lit2var_def aiger_copy_str_def zero_symbol_def)
  then have "types_ok ?k" using add_latch_runs [OF ok(1,2) f, of d n None] by simp
  then have "table_for mx ?k"
    by (intro table_set [OF t, of "l div 2" ?t]) (use ok l(1) in \<open>simp_all add: node_lit_def unmarked_def\<close>)
  then show ?thesis using run by (intro exI [of _ ?k]) (simp add: same_nodes_def)
qed

lemma add_and_step:
  assumes t: "table_for mx h" and l: "node_lit mx l" "l \<notin> set (node_lits h)" and n: "a div 2 \<le> mx" "b div 2 \<le> mx"
  shows "\<exists>h'. aiger_add_and d h l a b = Some h' \<and> table_for mx h' \<and>
    same_nodes h' (h\<lparr>aig_ands := aig_ands h @ [\<lparr>and_lhs = l, and_rhs0 = a, and_rhs1 = b\<rparr>]\<rparr>)"
proof -
  let ?t = "(typed h (l div 2))\<lparr>ty_and := True, ty_idx := length (aig_ands h)\<rparr>"
  let ?h = "h\<lparr>aig_types := (aig_types h)[l div 2 := ?t]\<rparr>"
  let ?k = "?h\<lparr>aig_ands := aig_ands h @ [\<lparr>and_lhs = l, and_rhs0 = a, and_rhs1 = b\<rparr>]\<rparr>"
  have ok: "types_ok h" "aig_error h = None" "l div 2 < length (aig_types h)" "aig_maxvar h = mx" "unmarked h"
    using t l(1) by (simp_all add: table_for_def node_lit_def)
  note f = new_literal(1) [OF t l] and i = import_same [OF t, of l]
  have same: "aiger_import_literal ?h c = ?h" if "c div 2 \<le> mx" for c
    using that ok t by (simp add: aiger_import_literal_def aiger_lit2var_def grow_types.simps [of "c div 2"] table_for_def)
  have run: "aiger_add_and d h l a b = Some ?k"
    using ok i l(1) import_fresh [OF ok(1) f] fresh_node_var [OF f] same [OF n(1)] same [OF n(2)]
    by (simp add: aiger_add_and_def node_lit_def set_type_def Let_def aiger_lit2var_def)
  then have "types_ok ?k" using add_and_runs [OF ok(1,2) f, of d a b] by simp
  then have "table_for mx ?k"
    by (intro table_set [OF t, of "l div 2" ?t]) (use ok l(1) in \<open>simp_all add: node_lit_def unmarked_def\<close>)
  then show ?thesis using run by (intro exI [of _ ?k]) (simp add: same_nodes_def)
qed

text \<open>Changes that the table does not see.\<close>

lemma table_keep:
  assumes "table_for mx h" and "aig_types k = aig_types h" and "aig_error k = aig_error h" and "aig_maxvar k = aig_maxvar h"
    and "map sym_lit (aig_inputs k) = map sym_lit (aig_inputs h)" "map sym_lit (aig_latches k) = map sym_lit (aig_latches h)"
    and "aig_ands k = aig_ands h"
  shows "table_for mx k"
proof -
  have "types_ok k = types_ok h" "unmarked k = unmarked h"
    unfolding types_ok_def unmarked_def defined_var_def typed_def assms(2-) by (rule refl)+
  then show ?thesis using assms(1-4) by (simp add: table_for_def)
qed

lemma add_reset_step:
  assumes t: "table_for mx h" and s: "aig_latches h = ls @ [s]" and r: "reset \<le> 1 \<or> reset = sym_lit s"
  shows "aiger_add_reset d h (sym_lit s) reset = Some (h\<lparr>aig_latches := ls @ [s\<lparr>sym_reset := reset\<rparr>]\<rparr>)"
    and "table_for mx (h\<lparr>aig_latches := ls @ [s\<lparr>sym_reset := reset\<rparr>]\<rparr>)"
proof -
  have ok: "types_ok h" "aig_error h = None" "aig_maxvar h = mx" using t by (simp_all add: table_for_def)
  have at: "ty_latch (typed h (sym_lit s div 2))" "ty_idx (typed h (sym_lit s div 2)) = length ls"
    using node_at(2) [OF ok(1), of "length ls"] s by simp_all
  have l: "sym_lit s mod 2 = 0" "0 < sym_lit s" "sym_lit s div 2 \<le> mx"
    using leaf_lit [OF ok(1), of s] s ok(3) by simp_all
  then have "vec_at (aig_types h) (sym_lit s div 2) = Some (typed h (sym_lit s div 2))"
    using t by (simp add: table_for_def typed_nth)
  then show "aiger_add_reset d h (sym_lit s) reset = Some (h\<lparr>aig_latches := ls @ [s\<lparr>sym_reset := reset\<rparr>]\<rparr>)"
    using r ok at l s import_same [OF t l(3)]
    by (auto simp: aiger_add_reset_def aiger_sign_def aiger_lit2var_def Let_def assert_that_holds)
  show "table_for mx (h\<lparr>aig_latches := ls @ [s\<lparr>sym_reset := reset\<rparr>]\<rparr>)"
    by (rule table_keep [OF t]) (simp_all add: s)
qed

end
