(* ===== verification/AigerRereadNodes.thy ===== *)
theory AigerRereadNodes
  imports AigerReread
begin

text \<open>
  The loops of the reader over what the writer printed: inputs, latches, the literals of outputs, bad states,
  constraints, justice and fairness, and the gates in both formats.
\<close>

section \<open>Inputs and latches\<close>

lemma same_nodes_update:
  assumes "same_nodes h k"
  shows "same_nodes (h\<lparr>aig_inputs := i\<rparr>) (k\<lparr>aig_inputs := i\<rparr>)" "same_nodes (h\<lparr>aig_latches := i\<rparr>) (k\<lparr>aig_latches := i\<rparr>)"
    "same_nodes (h\<lparr>aig_ands := a\<rparr>) (k\<lparr>aig_ands := a\<rparr>)"
  using assms by (cases h; cases k; simp add: same_nodes_def)+

definition bare :: "aiger_symbol \<Rightarrow> aiger_symbol" where
  "bare s = s\<lparr>sym_name := None\<rparr>"

lemma lines_text_Cons: "lines_text (l # ls) = line_text l @ lines_text ls"
  by (simp add: lines_text_def)

lemma node_lit_small: "table_for mx h \<Longrightarrow> l div 2 \<le> mx \<Longrightarrow> l < 4294967296"
  unfolding table_for_def by (elim conjE) linarith

lemma read_inputs_reads:
  assumes "table_for mx h" and "\<forall>l \<in> set ls. node_lit mx l" and "distinct ls" "set ls \<inter> set (node_lits h) = {}"
    and "settled r = k" and "ahead r = (if rd_ascii k then lines_text ls else []) @ rest"
    and "\<not> rd_ascii k \<Longrightarrow> \<forall>j < length ls. ls ! j = 2 * (i + j + 1)"
  shows "\<exists>h'. reads (read_inputs d (length ls) i r h) () rest k h' \<and> table_for mx h' \<and>
    same_nodes h' (h\<lparr>aig_inputs := aig_inputs h @ map (\<lambda>l. named_symbol l None) ls\<rparr>)"
  using assms
proof (induction ls arbitrary: i r h)
  case Nil
  then show ?case by (intro exI [of _ h]) (simp add: reads_parsed same_nodes_refl lines_text_def)
next
  case (Cons l ls)
  have l: "node_lit mx l" "l \<notin> set (node_lits h)" using Cons.prems by auto
  note new = new_literal(2) [OF Cons.prems(1) l]
  have "\<exists>r1. (if rd_ascii r
        then and_then (aiger_read_literal d ''input literal'' (Some line_feed) r h) (\<lambda>(lit, ch) r g.
             and_then (check_new_literal d '' is not a valid input'' lit r g) (\<lambda>u r g. parsed lit r g))
        else parsed (2 * (i + 1)) r h) = parsed l r1 h \<and>
      ahead r1 = (if rd_ascii k then lines_text ls else []) @ rest \<and> settled r1 = k"
  proof (cases "rd_ascii k")
    case True
    have "ahead r = line_text l @ lines_text ls @ rest" using Cons.prems(6) True by (simp add: lines_text_Cons)
    moreover have "l < 4294967296" using node_lit_small [OF Cons.prems(1)] l(1) by (simp add: node_lit_def)
    ultimately show ?thesis
      using reads_line [of r l "lines_text ls @ rest" d "''input literal''" h] Cons.prems(5) True settled_sel(1) [OF Cons.prems(5)]
      by (auto simp: reads_def new)
  next
    case False
    then have "l = 2 * (i + 1)" using Cons.prems(7) [THEN spec, of 0] by simp
    then show ?thesis using False Cons.prems(5,6) settled_sel(1) [OF Cons.prems(5)] by auto
  qed
  then obtain r1 where r1: "(if rd_ascii r
        then and_then (aiger_read_literal d ''input literal'' (Some line_feed) r h) (\<lambda>(lit, ch) r g.
             and_then (check_new_literal d '' is not a valid input'' lit r g) (\<lambda>u r g. parsed lit r g))
        else parsed (2 * (i + 1)) r h) = parsed l r1 h"
    "ahead r1 = (if rd_ascii k then lines_text ls else []) @ rest" "settled r1 = k" by blast
  obtain h1 where h1: "aiger_add_input d h l None = Some h1" "table_for mx h1"
    "same_nodes h1 (h\<lparr>aig_inputs := aig_inputs h @ [named_symbol l None]\<rparr>)"
    using add_input_step [OF Cons.prems(1) l, of d] by blast
  have lits: "set (node_lits h1) = insert l (set (node_lits h))"
    using same_nodes_sel [OF h1(3)] by (auto simp: node_lits_def named_symbol_def)
  have seq: "\<not> rd_ascii k \<Longrightarrow> \<forall>j < length ls. ls ! j = 2 * (Suc i + j + 1)"
  proof (intro allI impI)
    fix j assume "\<not> rd_ascii k" "j < length ls"
    then show "ls ! j = 2 * (Suc i + j + 1)" using Cons.prems(7) [THEN spec, of "Suc j"] by simp
  qed
  have "\<forall>l \<in> set ls. node_lit mx l" "distinct ls" "set ls \<inter> set (node_lits h1) = {}"
    using Cons.prems(2-4) lits by auto
  from Cons.IH [OF h1(2) this r1(3,2) seq] obtain h2 where h2: "reads (read_inputs d (length ls) (Suc i) r1 h1) () rest k h2"
    "table_for mx h2" "same_nodes h2 (h1\<lparr>aig_inputs := aig_inputs h1 @ map (\<lambda>l. named_symbol l None) ls\<rparr>)" by auto
  have "same_nodes h2 (h\<lparr>aig_inputs := aig_inputs h @ map (\<lambda>l. named_symbol l None) (l # ls)\<rparr>)"
    using same_nodes_trans [OF h2(3) same_nodes_update(1) [OF h1(3)]] same_nodes_sel(2) [OF h1(3)] by simp
  moreover have "read_inputs d (length (l # ls)) i r h = read_inputs d (length ls) (Suc i) r1 h1"
    using h1(1) r1(1) by (simp del: and_then_simps add: and_then_simps(4) split del: if_split)
  ultimately show ?case using h2(1,2) by auto
qed

text \<open>A latch: its literal in the ASCII format, the next state, and the reset value unless it is \<open>0\<close>.\<close>

definition latch_ok :: "nat \<Rightarrow> aiger_symbol \<Rightarrow> bool" where
  "latch_ok mx s \<longleftrightarrow> node_lit mx (sym_lit s) \<and> sym_next s div 2 \<le> mx \<and> reset_ok s \<and> sym_lits s = []"

lemma read_reset_reads:
  assumes t: "table_for mx h" and l: "aig_latches h = ls @ [zero_symbol\<lparr>sym_lit := sym_lit s, sym_next := sym_next s\<rparr>]"
    and s: "latch_ok mx s" and k: "settled r = k"
    and a: "ahead r = (if sym_reset s \<noteq> 0 then nat_text (sym_reset s) @ [line_feed] else []) @ rest"
    and ch: "ch = Some (if sym_reset s \<noteq> 0 then CHR '' '' else line_feed)"
  shows "\<exists>h'. reads (if ch = Some CHR '' ''
        then and_then (aiger_read_literal d ''reset literal'' (Some line_feed) r h) (\<lambda>(reset, ch) r g. do {
               g \<leftarrow> aiger_add_reset d g (sym_lit s) reset;
               parsed () r g })
        else parsed () r h) () rest k h' \<and> table_for mx h' \<and> same_nodes h' (h\<lparr>aig_latches := ls @ [bare s]\<rparr>)"
proof (cases "sym_reset s = 0")
  case True
  have "ls @ [bare s] = aig_latches h"
    using s True by (cases s) (simp add: l bare_def latch_ok_def zero_symbol_def)
  moreover have "line_feed \<noteq> CHR '' ''" by (simp add: line_feed_def)
  ultimately show ?thesis using t k a ch True by (intro exI [of _ h]) (simp add: reads_parsed same_nodes_def)
next
  case False
  let ?s = "zero_symbol\<lparr>sym_lit := sym_lit s, sym_next := sym_next s\<rparr>"
  have "sym_reset s \<le> 1 \<or> sym_reset s = sym_lit s" using s by (simp add: latch_ok_def reset_ok_def)
  then have r: "sym_reset s \<le> 1 \<or> sym_reset s = sym_lit ?s" and "sym_reset s < 4294967296"
    using node_lit_small [OF t] s by (auto simp: latch_ok_def node_lit_def)
  then obtain r1 where r1: "aiger_read_literal d ''reset literal'' (Some line_feed) r h =
      Some (Some (sym_reset s, Some line_feed), r1, h)" "ahead r1 = rest" "settled r1 = k"
    using reads_line [of r "sym_reset s" rest d "''reset literal''" h] a False k by (auto simp: reads_def line_text_def)
  have b: "?s\<lparr>sym_reset := sym_reset s\<rparr> = bare s" using s by (cases s) (simp add: bare_def latch_ok_def zero_symbol_def)
  show ?thesis
    using add_reset_step(1) [OF t l r, of d] add_reset_step(2) [OF t l r] r1 ch False
    by (intro exI [of _ "h\<lparr>aig_latches := ls @ [bare s]\<rparr>"])
      (simp add: reads_parsed same_nodes_refl flip: b)
qed

lemma read_latches_reads:
  assumes "table_for mx h" and "\<forall>s \<in> set ss. latch_ok mx s" and "distinct (map sym_lit ss)"
    and "set (map sym_lit ss) \<inter> set (node_lits h) = {}" and "settled r = k"
    and "ahead r = concat (map (latch_text (\<not> rd_ascii k)) ss) @ rest"
    and "\<not> rd_ascii k \<Longrightarrow> \<forall>j < length ss. sym_lit (ss ! j) = 2 * (i + rd_inputs k + j + 1)"
  shows "\<exists>h'. reads (read_latches d (length ss) i r h) () rest k h' \<and> table_for mx h' \<and>
    same_nodes h' (h\<lparr>aig_latches := aig_latches h @ map bare ss\<rparr>)"
  using assms
proof (induction ss arbitrary: i r h)
  case Nil
  then show ?case by (intro exI [of _ h]) (simp add: reads_parsed same_nodes_refl)
next
  case (Cons s ss)
  let ?l = "sym_lit s" and ?n = "sym_next s"
  have s: "latch_ok mx s" "node_lit mx ?l" "?l \<notin> set (node_lits h)" "?n div 2 \<le> mx" using Cons.prems by (auto simp: latch_ok_def)
  note new = new_literal(2) [OF Cons.prems(1) s(2,3)]
  let ?e = "if sym_reset s \<noteq> 0 then CHR '' '' else line_feed"
  let ?rest = "(if sym_reset s \<noteq> 0 then nat_text (sym_reset s) @ [line_feed] else []) @
    concat (map (latch_text (\<not> rd_ascii k)) ss) @ rest"
  have a: "ahead r = (if rd_ascii k then nat_text ?l @ '' '' else []) @ nat_text ?n @ ?e # ?rest"
    using Cons.prems(6) by (cases "rd_ascii k"; cases "sym_reset s = 0") (simp_all add: latch_text_def [of _ s])
  have "\<exists>r1. (if rd_ascii r
        then and_then (aiger_read_literal d ''latch literal'' (Some CHR '' '') r h) (\<lambda>(lit, ch) r g.
             and_then (check_new_literal d '' is not a valid latch'' lit r g) (\<lambda>u r g. parsed lit r g))
        else parsed (2 * (i + rd_inputs r + 1)) r h) = parsed ?l r1 h \<and>
      ahead r1 = nat_text ?n @ ?e # ?rest \<and> settled r1 = k"
  proof (cases "rd_ascii k")
    case True
    then have "ahead r = nat_text ?l @ CHR '' '' # nat_text ?n @ ?e # ?rest" using a by simp
    moreover have "?l < 4294967296" using node_lit_small [OF Cons.prems(1)] s(2) by (simp add: node_lit_def)
    ultimately show ?thesis
      using reads_literal [of r ?l "CHR '' ''" "nat_text ?n @ ?e # ?rest" "Some CHR '' ''" d "''latch literal''" h]
        Cons.prems(5) True settled_sel(1) [OF Cons.prems(5)]
      by (auto simp: reads_def new)
  next
    case False
    then have "?l = 2 * (i + rd_inputs k + 1)" using Cons.prems(7) [THEN spec, of 0] by simp
    then show ?thesis using False a Cons.prems(5) settled_sel(1,3) [OF Cons.prems(5)] by auto
  qed
  then obtain r1 where r1: "(if rd_ascii r
        then and_then (aiger_read_literal d ''latch literal'' (Some CHR '' '') r h) (\<lambda>(lit, ch) r g.
             and_then (check_new_literal d '' is not a valid latch'' lit r g) (\<lambda>u r g. parsed lit r g))
        else parsed (2 * (i + rd_inputs r + 1)) r h) = parsed ?l r1 h"
    "ahead r1 = nat_text ?n @ ?e # ?rest" "settled r1 = k" by blast
  have e: "?e = CHR '' '' \<or> ?e = line_feed" by simp
  obtain r2 where r2: "aiger_read_literal d ''next state literal'' None r1 h = Some (Some (?n, Some ?e), r2, h)"
    "ahead r2 = ?rest" "settled r2 = k"
    using reads_literal [OF r1(2) node_lit_small [OF Cons.prems(1) s(4)] e, of None d "''next state literal''" h] r1(3) by (auto simp: reads_def)
  obtain h1 where h1: "aiger_add_latch d h ?l ?n None = Some h1" "table_for mx h1"
    "same_nodes h1 (h\<lparr>aig_latches := aig_latches h @ [zero_symbol\<lparr>sym_lit := ?l, sym_next := ?n\<rparr>]\<rparr>)"
    using add_latch_step [OF Cons.prems(1) s(2-4), of d] by blast
  have l1: "aig_latches h1 = aig_latches h @ [zero_symbol\<lparr>sym_lit := ?l, sym_next := ?n\<rparr>]"
    using same_nodes_sel(3) [OF h1(3)] by simp
  obtain h2 r3 where h2: "(if Some ?e = Some CHR '' ''
        then and_then (aiger_read_literal d ''reset literal'' (Some line_feed) r2 h1) (\<lambda>(reset, ch) r g. do {
               g \<leftarrow> aiger_add_reset d g ?l reset;
               parsed () r g })
        else parsed () r2 h1) = Some (Some (), r3, h2)" "table_for mx h2"
    "same_nodes h2 (h1\<lparr>aig_latches := aig_latches h @ [bare s]\<rparr>)"
    "ahead r3 = concat (map (latch_text (\<not> rd_ascii k)) ss) @ rest" "settled r3 = k"
    using read_reset_reads [OF h1(2) l1 s(1) r2(3,2) refl, of d] by (auto simp: reads_def simp del: if_split_asm)
  have n2: "same_nodes h2 (h\<lparr>aig_latches := aig_latches h @ [bare s]\<rparr>)"
    using same_nodes_trans [OF h2(3) same_nodes_update(2) [OF h1(3)]] by simp
  have lits: "set (node_lits h2) = insert ?l (set (node_lits h))"
    using same_nodes_sel [OF n2] by (auto simp: node_lits_def bare_def)
  have seq: "\<not> rd_ascii k \<Longrightarrow> \<forall>j < length ss. sym_lit (ss ! j) = 2 * (Suc i + rd_inputs k + j + 1)"
  proof (intro allI impI)
    fix j assume "\<not> rd_ascii k" "j < length ss"
    then show "sym_lit (ss ! j) = 2 * (Suc i + rd_inputs k + j + 1)" using Cons.prems(7) [THEN spec, of "Suc j"] by simp
  qed
  have "\<forall>s \<in> set ss. latch_ok mx s" "distinct (map sym_lit ss)" "set (map sym_lit ss) \<inter> set (node_lits h2) = {}"
    using Cons.prems(2-4) lits by auto
  from Cons.IH [OF h2(2) this h2(5,4) seq] obtain h3 where h3: "reads (read_latches d (length ss) (Suc i) r3 h2) () rest k h3"
    "table_for mx h3" "same_nodes h3 (h2\<lparr>aig_latches := aig_latches h2 @ map bare ss\<rparr>)" by auto
  have "same_nodes h3 (h\<lparr>aig_latches := aig_latches h @ map bare (s # ss)\<rparr>)"
    using same_nodes_trans [OF h3(3) same_nodes_update(2) [OF n2]] same_nodes_sel(3) [OF n2] by simp
  moreover have "read_latches d (length (s # ss)) i r h = read_latches d (length ss) (Suc i) r3 h2"
    using h1(1) r1(1) r2(1) h2(1) s(4) Cons.prems(1)
    by (simp del: and_then_simps add: and_then_simps(3,4) aiger_lit2var_def table_for_def split del: if_split)
  ultimately show ?case using h3(1,2) by auto
qed

section \<open>Outputs, bad states, constraints, justice and fairness\<close>

text \<open>\<open>upd\<close> is the array, \<open>add\<close> the function that adds a literal to it.\<close>

definition adds_to ::
  "nat \<Rightarrow> (aiger \<Rightarrow> nat \<Rightarrow> string option \<Rightarrow> aiger) \<Rightarrow> ((aiger_symbol list \<Rightarrow> aiger_symbol list) \<Rightarrow> aiger \<Rightarrow> aiger) \<Rightarrow> bool" where
  "adds_to mx add upd \<longleftrightarrow>
     (\<forall>h l. table_for mx h \<longrightarrow> l div 2 \<le> mx \<longrightarrow> add h l None = upd (\<lambda>ss. ss @ [named_symbol l None]) h) \<and>
     (\<forall>h f. table_for mx h \<longrightarrow> table_for mx (upd f h)) \<and>
     (\<forall>h f g. upd f (upd g h) = upd (\<lambda>ss. f (g ss)) h) \<and> (\<forall>h. upd (\<lambda>ss. ss) h = h)"

lemma adds_to_arrays:
  "adds_to mx aiger_add_output aig_outputs_update" "adds_to mx aiger_add_bad aig_bad_update"
  "adds_to mx aiger_add_constraint aig_constraints_update" "adds_to mx aiger_add_fairness aig_fairness_update"
  unfolding adds_to_def
  by (auto simp: aiger_add_output_def aiger_add_bad_def aiger_add_constraint_def aiger_add_fairness_def import_same
      comp_def intro: table_keep)

lemma read_symbols_reads:
  assumes "table_for mx h" and "\<forall>l \<in> set ls. l div 2 \<le> mx" and "adds_to mx add upd" and "settled r = k"
    and "ahead r = lines_text ls @ rest"
  shows "reads (read_symbols d what complaint add (length ls) r h) () rest k
      (upd (\<lambda>ss. ss @ map (\<lambda>l. named_symbol l None) ls) h) \<and>
    table_for mx (upd (\<lambda>ss. ss @ map (\<lambda>l. named_symbol l None) ls) h)"
  using assms
proof (induction ls arbitrary: r h)
  case Nil
  then show ?case by (simp add: reads_parsed lines_text_def adds_to_def)
next
  case (Cons l ls)
  let ?h = "upd (\<lambda>ss. ss @ [named_symbol l None]) h"
  have l: "l div 2 \<le> mx" "add h l None = ?h" "table_for mx ?h" using Cons.prems by (auto simp: adds_to_def)
  have a: "ahead r = line_text l @ lines_text ls @ rest" using Cons.prems(5) by (simp add: lines_text_Cons)
  obtain r1 where r1: "aiger_read_literal d what (Some line_feed) r h = Some (Some (l, Some line_feed), r1, h)"
    "ahead r1 = lines_text ls @ rest" "settled r1 = k"
    using reads_line [OF a node_lit_small [OF Cons.prems(1) l(1)], of d what h] Cons.prems(4) by (auto simp: reads_def)
  have e: "upd (\<lambda>ss. ss @ map (\<lambda>l. named_symbol l None) ls) ?h = upd (\<lambda>ss. ss @ map (\<lambda>l. named_symbol l None) (l # ls)) h"
    using Cons.prems(3) by (simp add: adds_to_def)
  have run: "read_symbols d what complaint add (length (l # ls)) r h = read_symbols d what complaint add (length ls) r1 ?h"
    using r1(1) l(1,2) Cons.prems(1) by (simp add: aiger_lit2var_def table_for_def)
  show ?case
    using Cons.IH [OF l(3) _ Cons.prems(3) r1(3,2)] Cons.prems(2) unfolding e run by simp
qed

lemma read_numbers_reads:
  assumes "\<forall>n \<in> set ns. n < 4294967296" and "settled r = k" and "ahead r = lines_text ns @ rest"
  shows "reads (read_numbers d what (length ns) r g) ns rest k g"
  using assms
proof (induction ns arbitrary: r)
  case Nil
  then show ?case by (simp add: reads_parsed lines_text_def)
next
  case (Cons n ns)
  have a: "ahead r = line_text n @ lines_text ns @ rest" using Cons.prems(3) by (simp add: lines_text_Cons)
  then obtain r1 where r1: "aiger_read_literal d what (Some line_feed) r g = Some (Some (n, Some line_feed), r1, g)"
    "ahead r1 = lines_text ns @ rest" "settled r1 = k"
    using reads_line [OF a, of d what g] Cons.prems(1,2) by (auto simp: reads_def)
  have "reads (read_numbers d what (length ns) r1 g) ns rest k g" using Cons.IH [OF _ r1(3,2)] Cons.prems(1) by simp
  then show ?case using r1(1) by (auto simp: reads_def parsed_def)
qed

lemma read_justice_reads:
  assumes "table_for mx h" and "\<forall>s \<in> set ss. (\<forall>l \<in> set (sym_lits s). l div 2 \<le> mx) \<and> bare s = zero_symbol\<lparr>sym_lits := sym_lits s\<rparr>"
    and "settled r = k" and "ahead r = lines_text (concat (map sym_lits ss)) @ rest"
  shows "reads (read_justice d (map (length \<circ> sym_lits) ss) r h) () rest k (h\<lparr>aig_justice := aig_justice h @ map bare ss\<rparr>) \<and>
    table_for mx (h\<lparr>aig_justice := aig_justice h @ map bare ss\<rparr>)"
  using assms
proof (induction ss arbitrary: r h)
  case Nil
  then show ?case by (simp add: reads_parsed lines_text_def)
next
  case (Cons s ss)
  let ?h = "h\<lparr>aig_justice := aig_justice h @ [bare s]\<rparr>"
  have lits: "\<forall>l \<in> set (sym_lits s). l div 2 \<le> mx" "bare s = zero_symbol\<lparr>sym_lits := sym_lits s\<rparr>" using Cons.prems(2) by simp_all
  have "ahead r = lines_text (sym_lits s) @ lines_text (concat (map sym_lits ss)) @ rest"
    using Cons.prems(4) by (simp add: lines_text_def)
  then have "reads (read_numbers d ''justice constraint literal'' (length (sym_lits s)) r h) (sym_lits s)
      (lines_text (concat (map sym_lits ss)) @ rest) k h"
    using lits(1) node_lit_small [OF Cons.prems(1)] by (intro read_numbers_reads Cons.prems(3)) auto
  then obtain r1 where r1: "read_numbers d ''justice constraint literal'' (length (sym_lits s)) r h = Some (Some (sym_lits s), r1, h)"
    "ahead r1 = lines_text (concat (map sym_lits ss)) @ rest" "settled r1 = k" by (auto simp: reads_def)
  have "foldl aiger_import_literal h ls = h" if "\<forall>l \<in> set ls. l div 2 \<le> mx" for ls
    using that by (induction ls) (simp_all add: import_same [OF Cons.prems(1)])
  then have add: "aiger_add_justice h (sym_lits s) None = ?h"
    using lits by (simp add: aiger_add_justice_def Let_def aiger_copy_str_def zero_symbol_def)
  have t: "table_for mx ?h" by (rule table_keep [OF Cons.prems(1)]) simp_all
  have run: "read_justice d (map (length \<circ> sym_lits) (s # ss)) r h = read_justice d (map (length \<circ> sym_lits) ss) r1 ?h"
    using r1(1) add by simp
  show ?case using Cons.IH [OF t _ r1(3,2)] Cons.prems(2) unfolding run by (simp add: comp_def)
qed

section \<open>Gates\<close>

definition gate_fits :: "nat \<Rightarrow> aiger_and \<Rightarrow> bool" where
  "gate_fits mx a \<longleftrightarrow> node_lit mx (and_lhs a) \<and> and_rhs0 a div 2 \<le> mx \<and> and_rhs1 a div 2 \<le> mx"

lemma add_gate_step:
  assumes "table_for mx h" and "gate_fits mx a" and "and_lhs a \<notin> set (node_lits h)"
  shows "\<exists>h'. aiger_add_and d h (and_lhs a) (and_rhs0 a) (and_rhs1 a) = Some h' \<and> table_for mx h' \<and>
    same_nodes h' (h\<lparr>aig_ands := aig_ands h @ [a]\<rparr>) \<and> set (node_lits h') = insert (and_lhs a) (set (node_lits h))"
proof -
  have e: "\<lparr>and_lhs = and_lhs a, and_rhs0 = and_rhs0 a, and_rhs1 = and_rhs1 a\<rparr> = a" by (cases a) simp
  have f: "node_lit mx (and_lhs a)" "and_rhs0 a div 2 \<le> mx" "and_rhs1 a div 2 \<le> mx" using assms(2) by (simp_all add: gate_fits_def)
  obtain h' where h': "aiger_add_and d h (and_lhs a) (and_rhs0 a) (and_rhs1 a) = Some h'" "table_for mx h'"
    "same_nodes h' (h\<lparr>aig_ands := aig_ands h @ [a]\<rparr>)"
    using add_and_step [OF assms(1) f(1) assms(3) f(2,3), of d, unfolded e] by blast
  moreover have "set (node_lits h') = insert (and_lhs a) (set (node_lits h))"
    using same_nodes_sel [OF h'(3)] by (auto simp: node_lits_def)
  ultimately show ?thesis by blast
qed

lemma read_ascii_gates_reads:
  assumes "table_for mx h" and "\<forall>a \<in> set as. gate_fits mx a" and "distinct (map and_lhs as)"
    and "set (map and_lhs as) \<inter> set (node_lits h) = {}" and "settled r = k"
    and "ahead r = concat (map gate_text as) @ rest"
  shows "\<exists>h'. reads (read_ascii_gates d (length as) r h) () rest k h' \<and> table_for mx h' \<and>
    same_nodes h' (h\<lparr>aig_ands := aig_ands h @ as\<rparr>)"
  using assms
proof (induction as arbitrary: r h)
  case Nil
  then show ?case by (intro exI [of _ h]) (simp add: reads_parsed same_nodes_refl)
next
  case (Cons a as)
  have a: "gate_fits mx a" "node_lit mx (and_lhs a)" "and_rhs0 a div 2 \<le> mx" "and_rhs1 a div 2 \<le> mx"
    "and_lhs a \<notin> set (node_lits h)" and mx: "aig_maxvar h = mx"
    using Cons.prems by (auto simp: gate_fits_def table_for_def)
  note new = new_literal(2) [OF Cons.prems(1) a(2,5)]
  let ?rest = "concat (map gate_text as) @ rest"
  have "ahead r = nat_text (and_lhs a) @ CHR '' '' # nat_text (and_rhs0 a) @ CHR '' '' # line_text (and_rhs1 a) @ ?rest"
    using Cons.prems(6) by (simp add: gate_text_def [of a] line_text_def)
  moreover have "and_lhs a div 2 \<le> mx" using a(2) by (simp add: node_lit_def)
  ultimately obtain r1 where r1: "aiger_read_literal d ''and gate left-hand side literal'' (Some CHR '' '') r h =
      Some (Some (and_lhs a, Some CHR '' ''), r1, h)"
    "ahead r1 = nat_text (and_rhs0 a) @ CHR '' '' # line_text (and_rhs1 a) @ ?rest" "settled r1 = k"
    using reads_literal [of r "and_lhs a" "CHR '' ''" _ "Some CHR '' ''"] node_lit_small [OF Cons.prems(1)] Cons.prems(5)
    by (fastforce simp: reads_def)
  obtain r2 where r2: "aiger_read_literal d ''and gate first right-hand side literal'' (Some CHR '' '') r1 h =
      Some (Some (and_rhs0 a, Some CHR '' ''), r2, h)" "ahead r2 = line_text (and_rhs1 a) @ ?rest" "settled r2 = k"
    using reads_literal [OF r1(2) node_lit_small [OF Cons.prems(1) a(3)], of "Some CHR '' ''"] r1(3) by (fastforce simp: reads_def)
  obtain r3 where r3: "aiger_read_literal d ''and gate first right-hand side literal'' (Some line_feed) r2 h =
      Some (Some (and_rhs1 a, Some line_feed), r3, h)" "ahead r3 = ?rest" "settled r3 = k"
    using reads_line [OF r2(2) node_lit_small [OF Cons.prems(1) a(4)]] r2(3) by (fastforce simp: reads_def)
  obtain h1 where h1: "aiger_add_and d h (and_lhs a) (and_rhs0 a) (and_rhs1 a) = Some h1" "table_for mx h1"
    "same_nodes h1 (h\<lparr>aig_ands := aig_ands h @ [a]\<rparr>)" "set (node_lits h1) = insert (and_lhs a) (set (node_lits h))"
    using add_gate_step [OF Cons.prems(1) a(1,5), of d] by blast
  have "\<forall>a \<in> set as. gate_fits mx a" "distinct (map and_lhs as)" "set (map and_lhs as) \<inter> set (node_lits h1) = {}"
    using Cons.prems(2-4) h1(4) by auto
  from Cons.IH [OF h1(2) this r3(3,2)] obtain h2 where h2: "reads (read_ascii_gates d (length as) r3 h1) () rest k h2"
    "table_for mx h2" "same_nodes h2 (h1\<lparr>aig_ands := aig_ands h1 @ as\<rparr>)" by blast
  have "same_nodes h2 (h\<lparr>aig_ands := aig_ands h @ a # as\<rparr>)"
    using same_nodes_trans [OF h2(3) same_nodes_update(3) [OF h1(3)]] same_nodes_sel(9) [OF h1(3)] by simp
  moreover have "read_ascii_gates d (length (a # as)) r h = read_ascii_gates d (length as) r3 h1"
    using r1(1) r2(1) r3(1) new h1(1) a(3,4) mx by (simp add: aiger_lit2var_def)
  ultimately show ?case using h2(1,2) by auto
qed

lemma read_binary_gates_reads:
  assumes "table_for mx h" and "\<forall>a \<in> set as. gate_fits mx a" and "distinct (map and_lhs as)"
    and "set (map and_lhs as) \<inter> set (node_lits h) = {}" and "settled r = k"
    and "ahead r = concat (map gate_code as) @ rest" and "ands_from b (lhs + 2) as"
  shows "\<exists>h'. reads (read_binary_gates d (length as) lhs r h) () rest k h' \<and> table_for mx h' \<and>
    same_nodes h' (h\<lparr>aig_ands := aig_ands h @ as\<rparr>)"
  using assms
proof (induction as arbitrary: lhs r h)
  case Nil
  then show ?case by (intro exI [of _ h]) (simp add: reads_parsed same_nodes_refl)
next
  case (Cons a as)
  have a: "gate_fits mx a" "and_lhs a div 2 \<le> mx" "and_lhs a \<notin> set (node_lits h)" using Cons.prems by (auto simp: gate_fits_def node_lit_def)
  have o: "and_lhs a = lhs + 2" "and_rhs0 a \<le> lhs + 2" "and_rhs1 a \<le> and_rhs0 a" "ands_from b (lhs + 2 + 2) as"
    using Cons.prems(7) by (auto split: if_splits)
  have small: "lhs + 2 < 4294967296" using node_lit_small [OF Cons.prems(1) a(2)] o(1) by simp
  let ?rest = "concat (map gate_code as) @ rest"
  have r0: "ahead r = delta_code (lhs + 2 - and_rhs0 a) @ delta_code (and_rhs0 a - and_rhs1 a) @ ?rest"
    using Cons.prems(6) o(1) by (simp add: gate_code_def [of a])
  have "lhs + 2 - and_rhs0 a < 4294967296" using small by (rule le_less_trans [rotated]) simp
  from reads_delta [OF r0 this, of d h] Cons.prems(5)
  obtain r1 where r1: "aiger_read_delta d r h = Some (Some (lhs + 2 - and_rhs0 a), r1, h)"
    "ahead r1 = delta_code (and_rhs0 a - and_rhs1 a) @ ?rest" "settled r1 = k" by (auto simp: reads_def)
  have "and_rhs0 a - and_rhs1 a < 4294967296" using small o(2) by simp
  from reads_delta [OF r1(2) this, of d h] r1(3)
  obtain r2 where r2: "aiger_read_delta d r1 h = Some (Some (and_rhs0 a - and_rhs1 a), r2, h)" "ahead r2 = ?rest" "settled r2 = k"
    by (auto simp: reads_def)
  obtain h1 where h1: "aiger_add_and d h (and_lhs a) (and_rhs0 a) (and_rhs1 a) = Some h1" "table_for mx h1"
    "same_nodes h1 (h\<lparr>aig_ands := aig_ands h @ [a]\<rparr>)" "set (node_lits h1) = insert (and_lhs a) (set (node_lits h))"
    using add_gate_step [OF Cons.prems(1) a(1,3), of d] by blast
  have "\<forall>a \<in> set as. gate_fits mx a" "distinct (map and_lhs as)" "set (map and_lhs as) \<inter> set (node_lits h1) = {}"
    using Cons.prems(2-4) h1(4) by auto
  from Cons.IH [OF h1(2) this r2(3,2) o(4)] obtain h2 where h2: "reads (read_binary_gates d (length as) (lhs + 2) r2 h1) () rest k h2"
    "table_for mx h2" "same_nodes h2 (h1\<lparr>aig_ands := aig_ands h1 @ as\<rparr>)" by blast
  have "same_nodes h2 (h\<lparr>aig_ands := aig_ands h @ a # as\<rparr>)"
    using same_nodes_trans [OF h2(3) same_nodes_update(3) [OF h1(3)]] same_nodes_sel(9) [OF h1(3)] by simp
  moreover have "read_binary_gates d (length (a # as)) lhs r h = read_binary_gates d (length as) (lhs + 2) r2 h1"
    using r1(1) r2(1) h1(1) o(1-3) small diff_le_self [THEN leD] by (simp add: Let_def u32_def)
  ultimately show ?case using h2(1,2) by auto
qed

end
