(* ===== verification/AigerRereadNames.thy ===== *)
theory AigerRereadNames
  imports AigerRereadNodes
begin

text \<open>
  The symbols and comments after the gates, read back: each entry gives its name to the symbol at its
  position.
\<close>

section \<open>Lines\<close>

lemma ahead_buffer [simp]: "ahead (r\<lparr>rd_buffer := b\<rparr>) = ahead r" "ahead (aiger_reader_push_ch r ch) = ahead r"
  by (cases "rd_ch r"; simp add: ahead_def)+

lemma push_line_text:
  assumes "ahead r = s @ line_feed # rest" and "line_feed \<notin> set s"
  shows "ahead (push_line r) = line_feed # rest \<and> rd_buffer (push_line r) = rd_buffer r @ s \<and>
    settled (push_line r) = (settled r)\<lparr>rd_buffer := rd_buffer r @ s\<rparr>"
  using assms
proof (induction s arbitrary: r)
  case Nil
  then have "rd_ch r = Some line_feed" by (simp add: ahead_Cons)
  then have "push_line r = r" by (simp add: push_line.simps [of r])
  then show ?case using Nil by (simp add: settled_def)
next
  case (Cons c s)
  let ?r = "aiger_next_ch (aiger_reader_push_ch r (Some c))"
  have c: "rd_ch r = Some c" "c \<noteq> line_feed" using Cons.prems by (auto simp: ahead_Cons)
  then have e: "push_line r = push_line ?r" by (simp add: push_line.simps [of r])
  have "ahead (aiger_reader_push_ch r (Some c)) = c # s @ line_feed # rest" using Cons.prems(1) by simp
  then have a: "ahead ?r = s @ line_feed # rest" by (rule ahead_next)
  have b: "rd_buffer ?r = rd_buffer r @ [c]" by (simp add: aiger_next_ch_def aiger_reader_push_ch_def Let_def)
  have "settled ?r = (settled r)\<lparr>rd_buffer := rd_buffer r @ [c]\<rparr>" unfolding settled_next by (simp add: settled_def aiger_reader_push_ch_def)
  then show ?case using Cons.IH [OF a] Cons.prems(2) b unfolding e by simp
qed

lemma c_string_line: "line_ok s \<Longrightarrow> c_string s = s"
  by (auto simp: c_string_def line_ok_def)

section \<open>Symbols\<close>

lemma symbol_kind_laws:
  assumes "symbol_kind ch = Some (nm, sel, upd)"
  shows "sel (upd f h) = f (sel h)" and "upd f (upd f' h) = upd (\<lambda>ss. f (f' ss)) h" and "upd (\<lambda>ss. sel h) h = h"
    and "ch = Some CHR ''c'' \<Longrightarrow> sel h = aig_constraints h"
  using assms by (auto simp: symbol_kind_def comp_def split: if_splits)

lemma upd_const:
  assumes "symbol_kind ch = Some (nm, sel, upd)"
  shows "upd f h = upd (\<lambda>_. f (sel h)) h"
proof -
  have "upd f h = upd f (upd (\<lambda>ss. sel h) h)" by (simp add: symbol_kind_laws(3) [OF assms])
  then show ?thesis by (simp add: symbol_kind_laws(2) [OF assms])
qed

lemma read_symbol_reads:
  assumes kind: "symbol_kind ch = Some (nm, sel, upd)" and h: "sel h = pre @ bare s # post"
    and name: "sym_name s = Some name" "name \<noteq> []" "line_ok name"
    and r: "settled r = k" "rd_buffer k = []" "ahead r = nat_text (length pre) @ CHR '' '' # name @ line_feed # rest"
    and small: "length pre < 4294967296"
  shows "reads (read_symbol d nm sel upd r h) () rest k (upd (\<lambda>_. pre @ s # post) h)"
proof -
  have "CHR '' '' = CHR '' '' \<or> CHR '' '' = line_feed" by simp
  from reads_literal [OF r(3) small this, of "Some CHR '' ''" d nm h] r(1)
  obtain r1 where r1: "aiger_read_literal d nm (Some CHR '' '') r h = Some (Some (length pre, Some CHR '' ''), r1, h)"
    "ahead r1 = name @ line_feed # rest" "settled r1 = k" by (auto simp: reads_def)
  have lf: "line_feed \<notin> set name" using name(3) by (simp add: line_ok_def)
  note p = push_line_text [OF r1(2) lf]
  have b: "rd_buffer r1 = []" using settled_sel(11) [OF r1(3)] r(2) by simp
  have ch: "rd_ch (push_line r1) = Some line_feed" using p by (simp add: ahead_Cons)
  let ?r = "(aiger_next_ch (push_line r1))\<lparr>rd_buffer := []\<rparr>"
  have buf: "rd_buffer (aiger_next_ch (push_line r1)) = name" using p b by (simp add: aiger_next_ch_def Let_def)
  have "ahead (aiger_next_ch (push_line r1)) = rest" using p ahead_next by blast
  then have a: "ahead ?r = rest" by simp
  have "settled ?r = (settled (aiger_next_ch (push_line r1)))\<lparr>rd_buffer := []\<rparr>" by (simp add: settled_def)
  also have "\<dots> = k" using p b r(2) r1(3) by simp
  finally have st: "settled ?r = k" .
  have named: "(bare s)\<lparr>sym_name := aiger_copy_str (Some name)\<rparr> = s"
    using name by (cases s) (simp add: bare_def aiger_copy_str_def)
  have "upd (\<lambda>ss. ss[length pre := s]) h = upd (\<lambda>_. pre @ s # post) h"
    using upd_const [OF kind, of "\<lambda>ss. ss[length pre := s]" h] h by simp
  then have "read_symbol d nm sel upd r h = parsed () ?r (upd (\<lambda>_. pre @ s # post) h)"
    using r1(1) h ch buf name(3) named
    by (simp add: read_symbol_def c_string_line Let_def bare_def)
  then show ?thesis using a st by (simp add: reads_parsed)
qed

lemma symbols_from_entry:
  assumes kind: "symbol_kind (Some c) = Some (nm, sel, upd)" and h: "sel h = pre @ bare s # post"
    and name: "sym_name s = Some name" "name \<noteq> []" "line_ok name"
    and r: "settled r = k" "rd_buffer k = []" "ahead r = c # nat_text (length pre) @ CHR '' '' # name @ line_feed # rest"
    and small: "length pre < 4294967296"
  shows "\<exists>r'. symbols_from d r h = symbols_from d r' (upd (\<lambda>_. pre @ s # post) h) \<and> ahead r' = rest \<and> settled r' = k"
proof -
  have c: "rd_ch r = Some c" using r(3) by (simp add: ahead_Cons)
  have a: "ahead (aiger_next_ch r) = nat_text (length pre) @ CHR '' '' # name @ line_feed # rest" by (rule ahead_next [OF r(3)])
  obtain e ds where e: "nat_text (length pre) = e # ds" using nat_text_digits(1) [of "length pre"] by (cases "nat_text (length pre)") auto
  then have "e \<noteq> line_feed" using nat_text_digits(2) [of "length pre"] digit_not_space by simp
  then have nl: "rd_ch (aiger_next_ch r) \<noteq> Some line_feed" using a e by (simp add: ahead_Cons del: next_ch_ch)
  have con: "\<not> (c = CHR ''c'' \<and> aig_constraints h = [])"
    using symbol_kind_laws(4) [OF kind, of h] h by auto
  have "settled (aiger_next_ch r) = k" using r(1) by simp
  from read_symbol_reads [OF kind h name this r(2) a small, of d]
  obtain r' where r': "read_symbol d nm sel upd (aiger_next_ch r) h = Some (Some (), r', upd (\<lambda>_. pre @ s # post) h)"
    "ahead r' = rest" "settled r' = k" by (auto simp: reads_def)
  have "symbols_from d r h = symbols_from d r' (upd (\<lambda>_. pre @ s # post) h)"
    using c kind nl con r'(1)
    by (subst symbols_from.simps) (auto simp: Let_def simp del: next_ch_ch)
  then show ?thesis using r'(2,3) by blast
qed

lemma read_names:
  assumes kind: "symbol_kind (Some c) = Some (nm, sel, upd)" and k: "rd_buffer k = []"
  shows "names_ok ss \<Longrightarrow> sel h = pre @ map bare ss \<Longrightarrow> length pre + length ss \<le> 4294967296 \<Longrightarrow> settled r = k \<Longrightarrow>
    ahead r = symbols_text [c] (length pre) ss @ rest \<Longrightarrow>
    \<exists>r'. symbols_from d r h = symbols_from d r' (upd (\<lambda>_. pre @ ss) h) \<and> ahead r' = rest \<and> settled r' = k"
proof (induction ss arbitrary: pre h r)
  case Nil
  have "upd (\<lambda>_. pre) h = h" using symbol_kind_laws(3) [OF kind, of h] Nil.prems(2) by simp
  then show ?case using Nil by auto
next
  case (Cons s ss)
  let ?h = "upd (\<lambda>_. pre @ s # map bare ss) h"
  have "\<exists>r'. symbols_from d r h = symbols_from d r' ?h \<and> ahead r' = symbols_text [c] (Suc (length pre)) ss @ rest \<and> settled r' = k"
  proof (cases "sym_name s")
    case None
    then have "bare s = s" by (cases s) (simp add: bare_def)
    then have "?h = h" using symbol_kind_laws(3) [OF kind, of h] Cons.prems(2) by simp
    then show ?thesis using Cons.prems(4,5) None by auto
  next
    case (Some name)
    have n: "name \<noteq> []" "line_ok name" using Cons.prems(1) Some by (auto simp: names_ok_def)
    show ?thesis
      by (rule symbols_from_entry [OF kind _ Some n Cons.prems(4) k]) (use Cons.prems(2,3,5) Some in simp_all)
  qed
  then obtain r1 where r1: "symbols_from d r h = symbols_from d r1 ?h" "ahead r1 = symbols_text [c] (Suc (length pre)) ss @ rest"
    "settled r1 = k" by blast
  have "sel ?h = (pre @ [s]) @ map bare ss" using symbol_kind_laws(1) [OF kind] by simp
  then obtain r2 where "symbols_from d r1 ?h = symbols_from d r2 (upd (\<lambda>_. (pre @ [s]) @ ss) ?h)" "ahead r2 = rest" "settled r2 = k"
    using Cons.IH [of ?h "pre @ [s]" r1] Cons.prems(1,3) r1(2,3) by (auto simp: names_ok_def)
  then show ?case using r1(1) symbol_kind_laws(2) [OF kind] by auto
qed

section \<open>Comments\<close>

lemma comments_from_reads:
  assumes "aig_error h = None" and "\<forall>c \<in> set cs. c \<noteq> [] \<and> line_ok c" and "rd_buffer r = []"
    and "ahead r = concat (map (\<lambda>c. c @ [line_feed]) cs)" and "aig_comments h = pre @ [None]"
  shows "\<exists>r'. comments_from d r h = Some (Some (), r', h\<lparr>aig_comments := pre @ map Some cs @ [None]\<rparr>)"
  using assms
proof (induction cs arbitrary: r h pre)
  case Nil
  then have "rd_ch r = None" by (simp add: ahead_def split: option.splits)
  then show ?case using Nil.prems(5) by (cases h) (simp add: comments_from.simps)
next
  case (Cons c cs)
  have a: "ahead r = c @ line_feed # concat (map (\<lambda>c. c @ [line_feed]) cs)" using Cons.prems(4) by simp
  have c: "line_ok c" "line_feed \<notin> set c" "c \<noteq> []" using Cons.prems(2) by (auto simp: line_ok_def)
  note p = push_line_text [OF a c(2)]
  let ?r = "aiger_next_ch (push_line r)" and ?h = "h\<lparr>aig_comments := pre @ [Some c, None]\<rparr>"
  have ch: "rd_ch r \<noteq> None" using a by (cases c) (auto simp: ahead_Cons)
  have ch': "rd_ch (push_line r) = Some line_feed" using p by (simp add: ahead_Cons)
  have "ahead ?r = concat (map (\<lambda>c. c @ [line_feed]) cs)" using p ahead_next by blast
  then have a': "ahead (?r\<lparr>rd_buffer := []\<rparr>) = concat (map (\<lambda>c. c @ [line_feed]) cs)" by simp
  have buf: "rd_buffer ?r = c" using p Cons.prems(3) by (simp add: aiger_next_ch_def Let_def)
  have "comments_from d r h = comments_from d (?r\<lparr>rd_buffer := []\<rparr>) ?h"
    using ch ch' buf c add_comment_runs [OF Cons.prems(1) c(2) Cons.prems(5), of d]
    by (subst comments_from.simps) (auto simp: Let_def c_string_line aiger_copy_str_def)
  moreover have "\<exists>r'. comments_from d (?r\<lparr>rd_buffer := []\<rparr>) ?h =
      Some (Some (), r', ?h\<lparr>aig_comments := (pre @ [Some c]) @ map Some cs @ [None]\<rparr>)"
    by (rule Cons.IH [OF _ _ _ a']) (use Cons.prems in simp_all)
  ultimately show ?case by simp
qed

lemma comments_reads:
  assumes "aig_error h = None" and "\<forall>c \<in> set cs. c \<noteq> [] \<and> line_ok c" and "settled r = k" "rd_buffer k = []"
    and "ahead r = comments_text cs" and "aig_comments h = [None]"
  shows "\<exists>r'. symbols_from d r h = Some (Some (), r', h\<lparr>aig_comments := map Some cs @ [None]\<rparr>)"
proof (cases "cs = []")
  case True
  then have "rd_ch r = None" using assms(5) by (simp add: comments_text_def ahead_def split: option.splits)
  then show ?thesis using True assms(6) by (cases h) (simp add: symbols_from.simps)
next
  case False
  let ?r = "aiger_next_ch r"
  have a: "ahead r = CHR ''c'' # line_feed # concat (map (\<lambda>c. c @ [line_feed]) cs)"
    using assms(5) False by (simp add: comments_text_def)
  then have c: "rd_ch r = Some CHR ''c''" by (simp add: ahead_Cons)
  have a1: "ahead ?r = line_feed # concat (map (\<lambda>c. c @ [line_feed]) cs)" by (rule ahead_next [OF a])
  then have c1: "rd_ch ?r = Some line_feed" by (simp add: ahead_Cons del: next_ch_ch)
  have "rd_buffer (aiger_next_ch ?r) = []"
    using settled_sel(11) [of "aiger_next_ch ?r" k] assms(3,4) by simp
  then obtain r' where "comments_from d (aiger_next_ch ?r) h = Some (Some (), r', h\<lparr>aig_comments := [] @ map Some cs @ [None]\<rparr>)"
    using comments_from_reads [OF assms(1,2) _ ahead_next [OF a1], of "[]" d] assms(6) by auto
  moreover have "symbols_from d r h = comments_from d (aiger_next_ch ?r) h"
    using c c1 by (subst symbols_from.simps) (simp add: symbol_kind_def Let_def aiger_read_comments_def del: next_ch_ch)
  ultimately show ?thesis by simp
qed

end
