(* ===== verification/AigerRereadFile.thy ===== *)
theory AigerRereadFile
  imports AigerRereadNames
begin

text \<open>
  The whole file read back: magic word, counts, nodes, gates, names and comments.
\<close>

section \<open>The first line\<close>

text \<open>A count is stored in one field of the reader.\<close>

definition stores :: "(nat \<Rightarrow> aiger_reader \<Rightarrow> aiger_reader) \<Rightarrow> bool" where
  "stores upd \<longleftrightarrow> (\<forall>n r. settled (upd n r) = upd n (settled r) \<and> ahead (upd n r) = ahead r)"

lemma stores_fields [simp]:
  "stores (\<lambda>n r. r\<lparr>rd_maxvar := n\<rparr>)" "stores (\<lambda>n r. r\<lparr>rd_inputs := n\<rparr>)" "stores (\<lambda>n r. r\<lparr>rd_latches := n\<rparr>)"
  "stores (\<lambda>n r. r\<lparr>rd_outputs := n\<rparr>)" "stores (\<lambda>n r. r\<lparr>rd_ands := n\<rparr>)" "stores (\<lambda>n r. r\<lparr>rd_bad := n\<rparr>)"
  "stores (\<lambda>n r. r\<lparr>rd_constraints := n\<rparr>)" "stores (\<lambda>n r. r\<lparr>rd_justice := n\<rparr>)" "stores (\<lambda>n r. r\<lparr>rd_fairness := n\<rparr>)"
  by (auto simp: stores_def settled_def ahead_def split: option.splits)

lemma read_count_text:
  assumes "stores upd" and "n < 4294967296" and "e = CHR '' '' \<or> e = line_feed" and "expected = None \<or> expected = Some e"
    and "ahead r = nat_text n @ e # rest" and "settled r = k"
  shows "\<exists>r'. read_count d what expected upd r g = parsed (Some e) r' g \<and> ahead r' = rest \<and> settled r' = upd n k"
proof -
  obtain r1 where r1: "aiger_read_literal d what expected r g = Some (Some (n, Some e), r1, g)" "ahead r1 = rest" "settled r1 = k"
    using reads_literal [OF assms(5,2,3,4), of d what g] assms(6) by (auto simp: reads_def)
  then show ?thesis using assms(1) by (intro exI [of _ "upd n r1"]) (simp add: read_count_def stores_def)
qed

text \<open>An optional count: \<open>e\<close> is the character after the count before it, \<open>t\<close> the text from there on.\<close>

lemma read_optional_text:
  assumes "stores upd" and "n < 4294967296" and t: "t = e' # rest" and e': "e' = CHR '' '' \<or> e' = line_feed"
    and x: "expected = None \<or> expected = Some e'" and no: "\<not> c \<longrightarrow> e' = line_feed \<and> upd n k = k"
    and a: "e # ahead r = (if c then '' '' @ nat_text n else []) @ t" and k: "settled r = k"
  shows "\<exists>e2 r2. read_optional d what expected upd (Some e) r g = parsed (Some e2) r2 g \<and> e2 # ahead r2 = t \<and> settled r2 = upd n k"
proof (cases c)
  case True
  then have e: "e = CHR '' ''" and "ahead r = nat_text n @ e' # rest" using a t by simp_all
  from read_count_text [OF assms(1,2) e' x this(2) k, of d what g] e show ?thesis
    by (auto simp: read_optional_def t)
next
  case False
  then have "e = line_feed" "ahead r = rest" using a t no by simp_all
  moreover have "line_feed \<noteq> CHR '' ''" by (simp add: line_feed_def)
  ultimately show ?thesis using no False k t by (intro exI [of _ e] exI [of _ r]) (simp add: read_optional_def)
qed

definition sizes_ok :: "aiger \<Rightarrow> bool" where
  "sizes_ok g \<longleftrightarrow> aig_maxvar g < 2147483648 \<and> length (aig_inputs g) < 4294967296 \<and> length (aig_latches g) < 4294967296 \<and>
     length (aig_outputs g) < 4294967296 \<and> length (aig_ands g) < 4294967296 \<and> length (aig_bad g) < 4294967296 \<and>
     length (aig_constraints g) < 4294967296 \<and> length (aig_justice g) < 4294967296 \<and> length (aig_fairness g) < 4294967296 \<and>
     (\<forall>s \<in> set (aig_justice g). length (sym_lits s) < 4294967296)"

definition with_counts :: "aiger \<Rightarrow> aiger_reader \<Rightarrow> aiger_reader" where
  "with_counts g k = k\<lparr>rd_maxvar := aig_maxvar g, rd_inputs := length (aig_inputs g), rd_latches := length (aig_latches g),
     rd_outputs := length (aig_outputs g), rd_ands := length (aig_ands g), rd_bad := length (aig_bad g),
     rd_constraints := length (aig_constraints g), rd_justice := length (aig_justice g),
     rd_fairness := length (aig_fairness g)\<rparr>"

lemma read_counts_text:
  assumes z: "sizes_ok g" and k: "settled r = k" "rd_bad k = 0" "rd_constraints k = 0" "rd_justice k = 0" "rd_fairness k = 0"
    and a: "CHR '' '' # ahead r = counts_text g @ rest"
  shows "\<exists>r'. read_counts d r h = parsed () r' h \<and> ahead r' = rest \<and> settled r' = with_counts g k"
proof -
  note z = z [unfolded sizes_ok_def]
  define tf where "tf = [line_feed] @ rest"
  define tj where "tj = (if aig_fairness g \<noteq> [] then '' '' @ nat_text (length (aig_fairness g)) else []) @ tf"
  define tc where "tc = (if aig_justice g \<noteq> [] \<or> aig_fairness g \<noteq> [] then '' '' @ nat_text (length (aig_justice g)) else []) @ tj"
  define tb where "tb = (if aig_constraints g \<noteq> [] \<or> aig_justice g \<noteq> [] \<or> aig_fairness g \<noteq> []
      then '' '' @ nat_text (length (aig_constraints g)) else []) @ tc"
  define ta where "ta = (if aig_bad g \<noteq> [] \<or> aig_constraints g \<noteq> [] \<or> aig_justice g \<noteq> [] \<or> aig_fairness g \<noteq> []
      then '' '' @ nat_text (length (aig_bad g)) else []) @ tb"
  have heads: "\<exists>e s. ta = e # s \<and> (e = CHR '' '' \<or> e = line_feed)" "\<exists>e s. tb = e # s \<and> (e = CHR '' '' \<or> e = line_feed)"
    "\<exists>e s. tc = e # s \<and> (e = CHR '' '' \<or> e = line_feed)" "\<exists>e s. tj = e # s \<and> (e = CHR '' '' \<or> e = line_feed)"
    by (auto simp: ta_def tb_def tc_def tj_def tf_def)
  have lasts: "\<not> (aig_bad g \<noteq> [] \<or> aig_constraints g \<noteq> [] \<or> aig_justice g \<noteq> [] \<or> aig_fairness g \<noteq> []) \<Longrightarrow> tb = line_feed # rest"
    "\<not> (aig_constraints g \<noteq> [] \<or> aig_justice g \<noteq> [] \<or> aig_fairness g \<noteq> []) \<Longrightarrow> tc = line_feed # rest"
    "\<not> (aig_justice g \<noteq> [] \<or> aig_fairness g \<noteq> []) \<Longrightarrow> tj = line_feed # rest"
    by (auto simp: tb_def tc_def tj_def tf_def)
  have line: "ahead r = nat_text (aig_maxvar g) @ CHR '' '' # nat_text (length (aig_inputs g)) @ CHR '' '' #
      nat_text (length (aig_latches g)) @ CHR '' '' # nat_text (length (aig_outputs g)) @ CHR '' '' #
      nat_text (length (aig_ands g)) @ ta"
    using a by (simp add: counts_text_def ta_def tb_def tc_def tj_def tf_def del: nat_text_digits)
  obtain e s where e: "ta = e # s" "e = CHR '' '' \<or> e = line_feed" using heads(1) by blast
  have sp: "CHR '' '' = CHR '' '' \<or> CHR '' '' = line_feed" "Some CHR '' '' = None \<or> Some CHR '' '' = Some CHR '' ''"
    "(None :: char option) = None \<or> None = Some e" by simp_all
  let ?k1 = "k\<lparr>rd_maxvar := aig_maxvar g\<rparr>"
  let ?k2 = "?k1\<lparr>rd_inputs := length (aig_inputs g)\<rparr>"
  let ?k3 = "?k2\<lparr>rd_latches := length (aig_latches g)\<rparr>"
  let ?k4 = "?k3\<lparr>rd_outputs := length (aig_outputs g)\<rparr>"
  let ?k5 = "?k4\<lparr>rd_ands := length (aig_ands g)\<rparr>"
  let ?k6 = "?k5\<lparr>rd_bad := length (aig_bad g)\<rparr>"
  let ?k7 = "?k6\<lparr>rd_constraints := length (aig_constraints g)\<rparr>"
  let ?k8 = "?k7\<lparr>rd_justice := length (aig_justice g)\<rparr>"
  let ?k9 = "?k8\<lparr>rd_fairness := length (aig_fairness g)\<rparr>"
  have n: "aig_maxvar g < 4294967296" using z by simp
  obtain r1 where r1: "read_count d ''maximum variable index'' (Some CHR '' '') (\<lambda>n r. r\<lparr>rd_maxvar := n\<rparr>) r h = parsed (Some CHR '' '') r1 h"
    "ahead r1 = nat_text (length (aig_inputs g)) @ CHR '' '' # nat_text (length (aig_latches g)) @ CHR '' '' #
      nat_text (length (aig_outputs g)) @ CHR '' '' # nat_text (length (aig_ands g)) @ ta" "settled r1 = ?k1"
    using read_count_text [OF stores_fields(1) n sp(1,2) line k(1)] by blast
  have n: "length (aig_inputs g) < 4294967296" using z by simp
  obtain r2 where r2: "read_count d ''number of inputs'' (Some CHR '' '') (\<lambda>n r. r\<lparr>rd_inputs := n\<rparr>) r1 h = parsed (Some CHR '' '') r2 h"
    "ahead r2 = nat_text (length (aig_latches g)) @ CHR '' '' # nat_text (length (aig_outputs g)) @ CHR '' '' #
      nat_text (length (aig_ands g)) @ ta" "settled r2 = ?k2"
    using read_count_text [OF stores_fields(2) n sp(1,2) r1(2,3)] by blast
  have n: "length (aig_latches g) < 4294967296" using z by simp
  obtain r3 where r3: "read_count d ''number latches'' (Some CHR '' '') (\<lambda>n r. r\<lparr>rd_latches := n\<rparr>) r2 h = parsed (Some CHR '' '') r3 h"
    "ahead r3 = nat_text (length (aig_outputs g)) @ CHR '' '' # nat_text (length (aig_ands g)) @ ta" "settled r3 = ?k3"
    using read_count_text [OF stores_fields(3) n sp(1,2) r2(2,3)] by blast
  have n: "length (aig_outputs g) < 4294967296" using z by simp
  obtain r4 where r4: "read_count d ''number of outputs'' (Some CHR '' '') (\<lambda>n r. r\<lparr>rd_outputs := n\<rparr>) r3 h = parsed (Some CHR '' '') r4 h"
    "ahead r4 = nat_text (length (aig_ands g)) @ ta" "settled r4 = ?k4"
    using read_count_text [OF stores_fields(4) n sp(1,2) r3(2,3)] by blast
  have n: "length (aig_ands g) < 4294967296" using z by simp
  obtain r5 where r5: "read_count d ''number of and gates'' None (\<lambda>n r. r\<lparr>rd_ands := n\<rparr>) r4 h = parsed (Some e) r5 h"
    "e # ahead r5 = ta" "settled r5 = ?k5"
    using read_count_text [OF stores_fields(5) n e(2) sp(3) r4(2) [unfolded e(1)] r4(3)] e(1) by blast
  have anything: "None = None \<or> None = Some x" for x :: char by simp
  obtain e6 s6 where t6: "tb = e6 # s6" "e6 = CHR '' '' \<or> e6 = line_feed" using heads(2) by blast
  have n: "length (aig_bad g) < 4294967296" using z by simp
  have "\<not> (aig_bad g \<noteq> [] \<or> aig_constraints g \<noteq> [] \<or> aig_justice g \<noteq> [] \<or> aig_fairness g \<noteq> []) \<longrightarrow> e6 = line_feed \<and> ?k5\<lparr>rd_bad := length (aig_bad g)\<rparr> = ?k5"
    using lasts(1) t6(1) k(2) by (cases k) simp
  from read_optional_text [OF stores_fields(6) n t6 anything this r5(2) [unfolded ta_def] r5(3), of d "''number of bad state constraints''" h]
  obtain f6 r6 where r6: "read_optional d ''number of bad state constraints'' None (\<lambda>n r. r\<lparr>rd_bad := n\<rparr>) (Some e) r5 h =
      parsed (Some f6) r6 h" "f6 # ahead r6 = tb" "settled r6 = ?k6"
    by - (elim exE conjE, rule that, assumption+)
  obtain e7 s7 where t7: "tc = e7 # s7" "e7 = CHR '' '' \<or> e7 = line_feed" using heads(3) by blast
  have n: "length (aig_constraints g) < 4294967296" using z by simp
  have "\<not> (aig_constraints g \<noteq> [] \<or> aig_justice g \<noteq> [] \<or> aig_fairness g \<noteq> []) \<longrightarrow> e7 = line_feed \<and> ?k6\<lparr>rd_constraints := length (aig_constraints g)\<rparr> = ?k6"
    using lasts(2) t7(1) k(3) by (cases k) simp
  from read_optional_text [OF stores_fields(7) n t7 anything this r6(2) [unfolded tb_def] r6(3), of d "''number of invariant constraints''" h]
  obtain f7 r7 where r7: "read_optional d ''number of invariant constraints'' None (\<lambda>n r. r\<lparr>rd_constraints := n\<rparr>) (Some f6) r6 h =
      parsed (Some f7) r7 h" "f7 # ahead r7 = tc" "settled r7 = ?k7"
    by - (elim exE conjE, rule that, assumption+)
  obtain e8 s8 where t8: "tj = e8 # s8" "e8 = CHR '' '' \<or> e8 = line_feed" using heads(4) by blast
  have n: "length (aig_justice g) < 4294967296" using z by simp
  have "\<not> (aig_justice g \<noteq> [] \<or> aig_fairness g \<noteq> []) \<longrightarrow> e8 = line_feed \<and> ?k7\<lparr>rd_justice := length (aig_justice g)\<rparr> = ?k7"
    using lasts(3) t8(1) k(4) by (cases k) simp
  from read_optional_text [OF stores_fields(8) n t8 anything this r7(2) [unfolded tc_def] r7(3), of d "''number of justice constraints''" h]
  obtain f8 r8 where r8: "read_optional d ''number of justice constraints'' None (\<lambda>n r. r\<lparr>rd_justice := n\<rparr>) (Some f7) r7 h =
      parsed (Some f8) r8 h" "f8 # ahead r8 = tj" "settled r8 = ?k8"
    by - (elim exE conjE, rule that, assumption+)
  have n: "length (aig_fairness g) < 4294967296" using z by simp
  have "\<not> aig_fairness g \<noteq> [] \<longrightarrow> line_feed = line_feed \<and> ?k8\<lparr>rd_fairness := length (aig_fairness g)\<rparr> = ?k8"
    using k(5) by (cases k) simp
  moreover have "tf = line_feed # rest" "line_feed = CHR '' '' \<or> line_feed = line_feed" "Some line_feed = None \<or> Some line_feed = Some line_feed"
    by (simp_all add: tf_def)
  ultimately obtain f9 r9 where r9: "read_optional d ''number of fairness constraints'' (Some line_feed) (\<lambda>n r. r\<lparr>rd_fairness := n\<rparr>)
      (Some f8) r8 h = parsed (Some f9) r9 h" "f9 # ahead r9 = tf" "settled r9 = ?k9"
    using read_optional_text [OF stores_fields(9) n _ _ _ _ r8(2) [unfolded tj_def] r8(3),
        of line_feed rest "Some line_feed" d "''number of fairness constraints''" h] by blast
  have "read_counts d r h = parsed () r9 h"
    unfolding read_counts_def r1(1) r2(1) r3(1) r4(1) r5(1) r6(1) r7(1) r8(1) r9(1) and_then_simps by (rule refl)
  moreover have "ahead r9 = rest" using r9(2) by (simp add: tf_def)
  ultimately show ?thesis using r9(3) by (auto simp: with_counts_def)
qed

section \<open>Graphs that can be written\<close>

text \<open>The symbols have only the fields that their kind uses, as the functions that add them ensure.\<close>

definition plain_symbol :: "aiger_symbol \<Rightarrow> bool" where
  "plain_symbol s \<longleftrightarrow> bare s = named_symbol (sym_lit s) None"

definition fields_ok :: "aiger \<Rightarrow> bool" where
  "fields_ok g \<longleftrightarrow> list_all plain_symbol (aig_inputs g) \<and> list_all (\<lambda>s. sym_lits s = []) (aig_latches g) \<and>
     list_all plain_symbol (aig_outputs g) \<and> list_all plain_symbol (aig_bad g) \<and>
     list_all plain_symbol (aig_constraints g) \<and> list_all plain_symbol (aig_fairness g) \<and>
     list_all (\<lambda>s. bare s = zero_symbol\<lparr>sym_lits := sym_lits s\<rparr>) (aig_justice g)"

definition writable :: "aiger \<Rightarrow> bool" where
  "writable g \<longleftrightarrow> aig_wf g \<and> lits_closed g \<and> fields_ok g \<and> all_names_ok g \<and> sizes_ok g"

lemma plain_symbols: "list_all plain_symbol ss \<Longrightarrow> map (\<lambda>l. named_symbol l None) (map sym_lit ss) = map bare ss"
  by (induction ss) (simp_all add: plain_symbol_def)

lemma writable_lits:
  assumes "writable g"
  shows "\<forall>l \<in> set (map sym_lit (aig_outputs g)). l div 2 \<le> aig_maxvar g"
    "\<forall>l \<in> set (map sym_lit (aig_bad g)). l div 2 \<le> aig_maxvar g"
    "\<forall>l \<in> set (map sym_lit (aig_constraints g)). l div 2 \<le> aig_maxvar g"
    "\<forall>l \<in> set (map sym_lit (aig_fairness g)). l div 2 \<le> aig_maxvar g"
    "\<forall>s \<in> set (aig_justice g). (\<forall>l \<in> set (sym_lits s). l div 2 \<le> aig_maxvar g) \<and> bare s = zero_symbol\<lparr>sym_lits := sym_lits s\<rparr>"
    "\<forall>s \<in> set (aig_latches g). latch_ok (aig_maxvar g) s" "\<forall>a \<in> set (aig_ands g). gate_fits (aig_maxvar g) a"
    "\<forall>l \<in> set (map sym_lit (aig_inputs g)). node_lit (aig_maxvar g) l"
proof -
  have ok: "types_ok g" and cl: "aig_closed g" and lc: "lits_closed g" and re: "\<forall>s \<in> set (aig_latches g). reset_ok s"
    and f: "fields_ok g" using assms by (simp_all add: writable_def aig_wf_def)
  note b = lit_var_bounds(1) [OF ok]
  show "\<forall>l \<in> set (map sym_lit (aig_outputs g)). l div 2 \<le> aig_maxvar g"
    "\<forall>l \<in> set (map sym_lit (aig_bad g)). l div 2 \<le> aig_maxvar g"
    using cl b by (auto simp: aig_closed_def)
  show "\<forall>l \<in> set (map sym_lit (aig_constraints g)). l div 2 \<le> aig_maxvar g"
    "\<forall>l \<in> set (map sym_lit (aig_fairness g)). l div 2 \<le> aig_maxvar g"
    using lc b by (auto simp: lits_closed_def)
  show "\<forall>s \<in> set (aig_justice g). (\<forall>l \<in> set (sym_lits s). l div 2 \<le> aig_maxvar g) \<and> bare s = zero_symbol\<lparr>sym_lits := sym_lits s\<rparr>"
    using lc b f by (auto simp: lits_closed_def fields_ok_def list_all_iff)
  have node: "node_lit (aig_maxvar g) l" if "l \<in> set (node_lits g)" for l by (rule node_lits_node_lit [OF ok that])
  show "\<forall>l \<in> set (map sym_lit (aig_inputs g)). node_lit (aig_maxvar g) l" using node by (simp add: node_lits_def)
  show "\<forall>s \<in> set (aig_latches g). latch_ok (aig_maxvar g) s"
    using node cl b re f by (auto simp: node_lits_def latch_ok_def aig_closed_def fields_ok_def list_all_iff)
  show "\<forall>a \<in> set (aig_ands g). gate_fits (aig_maxvar g) a"
    using node cl b by (auto simp: node_lits_def gate_fits_def aig_closed_def)
qed

section \<open>The header\<close>

definition blank :: "bool \<Rightarrow> aiger_reader" where
  "blank ascii = (settled (new_reader []))\<lparr>rd_ascii := ascii\<rparr>"

lemma ahead_ch: "ahead r = c # s \<Longrightarrow> rd_ch r = Some c"
  by (simp add: ahead_Cons)

lemma ahead_ascii [simp]: "ahead (r\<lparr>rd_ascii := b\<rparr>) = ahead r"
  by (cases "rd_ch r"; simp add: ahead_def)

lemma read_magic_text:
  assumes "content = (if ascii then ''aag '' else ''aig '') @ s"
  shows "\<exists>r. read_magic d (new_reader content) h = parsed () r h \<and> ahead r = s \<and> settled r = blank ascii"
proof -
  let ?r0 = "new_reader content"
  have a0: "ahead ?r0 = CHR '' '' # content" by (simp add: ahead_def new_reader_def)
  define r1 where "r1 = aiger_next_ch ?r0"
  define r2 where "r2 = aiger_next_ch r1"
  define r3 where "r3 = aiger_next_ch (r2\<lparr>rd_ascii := ascii\<rparr>)"
  define r4 where "r4 = aiger_next_ch r3"
  have a1: "ahead r1 = CHR ''a'' # (if ascii then CHR ''a'' else CHR ''i'') # ''g '' @ s"
    using ahead_next [OF a0] assms by (simp add: r1_def)
  have a2: "ahead r2 = (if ascii then CHR ''a'' else CHR ''i'') # ''g '' @ s" using ahead_next [OF a1] by (simp add: r2_def)
  then have "ahead (r2\<lparr>rd_ascii := ascii\<rparr>) = (if ascii then CHR ''a'' else CHR ''i'') # ''g '' @ s" by simp
  then have a3: "ahead r3 = CHR ''g'' # CHR '' '' # s" using ahead_next by (simp add: r3_def)
  have a4: "ahead r4 = CHR '' '' # s" using ahead_next [OF a3] by (simp add: r4_def)
  note c1 = ahead_ch [OF a1] and c2 = ahead_ch [OF a2] and c3 = ahead_ch [OF a3] and c4 = ahead_ch [OF a4]
  have asc: "r2\<lparr>rd_ascii := (rd_ch r2 = Some CHR ''a'')\<rparr> = r2\<lparr>rd_ascii := ascii\<rparr>" using c2 by simp
  have "read_magic d ?r0 h = parsed () (aiger_next_ch r4) h"
    unfolding read_magic_def Let_def r1_def [symmetric] r2_def [symmetric] asc r3_def [symmetric] r4_def [symmetric]
    using c1 c2 c3 c4 by simp
  moreover have "ahead (aiger_next_ch r4) = s" by (rule ahead_next [OF a4])
  moreover have "settled (aiger_next_ch r4) = blank ascii"
  proof -
    have "settled (aiger_next_ch r4) = settled (r2\<lparr>rd_ascii := ascii\<rparr>)" by (simp add: r4_def r3_def)
    also have "\<dots> = (settled r2)\<lparr>rd_ascii := ascii\<rparr>" by (simp add: settled_def)
    also have "settled r2 = settled (new_reader [])" by (simp add: r2_def r1_def) (simp add: settled_def new_reader_def)
    finally show ?thesis by (simp add: blank_def)
  qed
  ultimately show ?thesis by blast
qed

text \<open>The graph without its gates, names and comments.\<close>

definition bare_nodes :: "aiger \<Rightarrow> aiger" where
  "bare_nodes g = g\<lparr>aig_inputs := map bare (aig_inputs g), aig_latches := map bare (aig_latches g),
     aig_outputs := map bare (aig_outputs g), aig_bad := map bare (aig_bad g),
     aig_constraints := map bare (aig_constraints g), aig_justice := map bare (aig_justice g),
     aig_fairness := map bare (aig_fairness g), aig_ands := [], aig_comments := [None]\<rparr>"

definition read_table :: "nat \<Rightarrow> aiger" where
  "read_table m = aiger_init\<lparr>aig_maxvar := m, aig_types := fit_types (u32 (m + 1)) (aig_types aiger_init)\<rparr>"

lemma read_table_for: "m < 2147483648 \<Longrightarrow> table_for m (read_table m)"
  using header_good [OF refl, of m]
  by (simp add: table_for_def read_table_def good_def fit_types_def u32_def aiger_init_def del: replicate.simps)

definition in_sequence :: "aiger \<Rightarrow> bool" where
  "in_sequence g \<longleftrightarrow>
     aig_maxvar g = length (aig_inputs g) + length (aig_latches g) + length (aig_ands g) \<and>
     (\<forall>j < length (aig_inputs g). sym_lit (aig_inputs g ! j) = 2 * (j + 1)) \<and>
     (\<forall>j < length (aig_latches g). sym_lit (aig_latches g ! j) = 2 * (j + length (aig_inputs g) + 1))"

lemma header_counts:
  assumes z: "sizes_ok g"
    and content: "content = (if ascii then ''aag'' else ''aig'') @ counts_text g @ rest"
  shows "\<exists>r u r'. read_magic d (new_reader content) aiger_init = parsed u r aiger_init \<and>
    read_counts d r aiger_init = parsed () r' aiger_init \<and> ahead r' = rest \<and> settled r' = with_counts g (blank ascii)"
proof -
  obtain c where c: "counts_text g = CHR '' '' # c" by (simp add: counts_text_def)
  have "content = (if ascii then ''aag '' else ''aig '') @ c @ rest" using content c by simp
  from read_magic_text [OF this, of d aiger_init]
  obtain r where r: "read_magic d (new_reader content) aiger_init = parsed () r aiger_init" "ahead r = c @ rest"
    "settled r = blank ascii" by blast
  have zero: "rd_bad (blank ascii) = 0" "rd_constraints (blank ascii) = 0" "rd_justice (blank ascii) = 0" "rd_fairness (blank ascii) = 0"
    by (simp_all add: blank_def settled_def new_reader_def)
  have "CHR '' '' # ahead r = counts_text g @ rest" using r(2) c by simp
  from read_counts_text [OF z r(3) zero this, of d aiger_init] r(1) show ?thesis by blast
qed

lemma header_nodes:
  assumes w: "writable g" and order: "\<not> ascii \<Longrightarrow> in_sequence g"
    and k: "settled r = k" "k = with_counts g (blank ascii)" and a: "ahead r = nodes_text (\<not> ascii) g @ rest"
  defines "t \<equiv> read_table (aig_maxvar g)"
  shows "\<exists>h. reads (
     and_then (read_inputs d (rd_inputs r) 0 r t) (\<lambda>u r g.
     and_then (read_latches d (rd_latches r) 0 r g) (\<lambda>u r g.
     and_then (read_symbols d ''output literal'' '' is not a valid output'' aiger_add_output
       (rd_outputs r) r g) (\<lambda>u r g.
     and_then (read_symbols d ''bad state constraint literal'' '' is not valid bad'' aiger_add_bad
       (rd_bad r) r g) (\<lambda>u r g.
     and_then (read_symbols d ''invariant constraint literal'' '' is not a valid constraint'' aiger_add_constraint
       (rd_constraints r) r g) (\<lambda>u r g.
     and_then (read_numbers d ''justice constraint size'' (rd_justice r) r g) (\<lambda>sizes r g.
     and_then (read_justice d sizes r g) (\<lambda>u r g.
     and_then (read_symbols d ''fairness constraint literal'' '' is not valid fairness'' aiger_add_fairness
       (rd_fairness r) r g) (\<lambda>u r g.
     parsed () (r\<lparr>rd_done_header := True, rd_looks_like_aag := True\<rparr>) g)))))))))
     () rest (k\<lparr>rd_done_header := True\<rparr>) h \<and> table_for (aig_maxvar g) h \<and> same_nodes h (bare_nodes g)"
proof -
  let ?m = "aig_maxvar g"
  have ok: "types_ok g" and z: "sizes_ok g" and f: "fields_ok g" using w by (simp_all add: writable_def aig_wf_def)
  note wl = writable_lits [OF w] and dist = distinct_node_lits [OF ok, unfolded node_lits_def]
  have kf: "rd_ascii k = ascii" "rd_inputs k = length (aig_inputs g)" "rd_latches k = length (aig_latches g)"
    "rd_outputs k = length (aig_outputs g)" "rd_bad k = length (aig_bad g)" "rd_constraints k = length (aig_constraints g)"
    "rd_justice k = length (aig_justice g)" "rd_fairness k = length (aig_fairness g)"
    by (simp_all add: k(2) with_counts_def blank_def)
  have pl: "map (\<lambda>l. named_symbol l None) (map sym_lit (aig_inputs g)) = map bare (aig_inputs g)"
    "map (\<lambda>l. named_symbol l None) (map sym_lit (aig_outputs g)) = map bare (aig_outputs g)"
    "map (\<lambda>l. named_symbol l None) (map sym_lit (aig_bad g)) = map bare (aig_bad g)"
    "map (\<lambda>l. named_symbol l None) (map sym_lit (aig_constraints g)) = map bare (aig_constraints g)"
    "map (\<lambda>l. named_symbol l None) (map sym_lit (aig_fairness g)) = map bare (aig_fairness g)"
    using f plain_symbols unfolding fields_ok_def by blast+
  have t0: "table_for ?m t" unfolding t_def by (rule read_table_for) (use z in \<open>simp add: sizes_ok_def\<close>)
  have te: "aig_inputs t = []" "aig_latches t = []" "aig_ands t = []" "aig_outputs t = []" "aig_bad t = []" "aig_constraints t = []"
    "aig_justice t = []" "aig_fairness t = []" "aig_comments t = [None]" "aig_error t = None" "aig_maxvar t = ?m"
    by (simp_all add: t_def read_table_def aiger_init_def)
  define s1 where "s1 = lines_text (map sym_lit (aig_fairness g)) @ rest"
  define s2 where "s2 = lines_text (concat (map sym_lits (aig_justice g))) @ s1"
  define s3 where "s3 = lines_text (map (length \<circ> sym_lits) (aig_justice g)) @ s2"
  define s4 where "s4 = lines_text (map sym_lit (aig_constraints g)) @ s3"
  define s5 where "s5 = lines_text (map sym_lit (aig_bad g)) @ s4"
  define s6 where "s6 = lines_text (map sym_lit (aig_outputs g)) @ s5"
  define s7 where "s7 = concat (map (latch_text (\<not> ascii)) (aig_latches g)) @ s6"
  have a0: "ahead r = (if rd_ascii k then lines_text (map sym_lit (aig_inputs g)) else []) @ s7"
    using a kf(1) by (simp add: nodes_text_def s1_def s2_def s3_def s4_def s5_def s6_def s7_def)
  have seq0: "\<forall>j < length (map sym_lit (aig_inputs g)). map sym_lit (aig_inputs g) ! j = 2 * (0 + j + 1)" if "\<not> rd_ascii k"
    using order that kf(1) by (simp add: in_sequence_def)
  have "distinct (map sym_lit (aig_inputs g))" "set (map sym_lit (aig_inputs g)) \<inter> set (node_lits t) = {}"
    using dist te by (simp_all add: node_lits_def)
  from read_inputs_reads [OF t0 wl(8) this k(1) a0 seq0, of d, unfolded pl(1) te append_Nil length_map reads_def]
  obtain h1 r1 where h1: "read_inputs d (length (aig_inputs g)) 0 r t = Some (Some (), r1, h1)" "ahead r1 = s7" "settled r1 = k"
    "table_for ?m h1" "same_nodes h1 (t\<lparr>aig_inputs := map bare (aig_inputs g)\<rparr>)"
    by blast
  have a1: "ahead r1 = concat (map (latch_text (\<not> rd_ascii k)) (aig_latches g)) @ s6" using h1(2) kf(1) by (simp add: s7_def)
  have seq1: "\<forall>j < length (aig_latches g). sym_lit (aig_latches g ! j) = 2 * (0 + rd_inputs k + j + 1)" if "\<not> rd_ascii k"
    using order that kf(1,2) by (simp add: in_sequence_def add.commute)
  have n1: "aig_inputs h1 = map bare (aig_inputs g)" "aig_latches h1 = []" "aig_ands h1 = []"
    using same_nodes_sel [OF h1(5)] te by simp_all
  have "distinct (map sym_lit (aig_latches g))" "set (map sym_lit (aig_latches g)) \<inter> set (node_lits h1) = {}"
    using dist by (auto simp: node_lits_def n1 bare_def)
  from read_latches_reads [OF h1(4) wl(6) this h1(3) a1 seq1, of d, unfolded n1 append_Nil reads_def]
  obtain h2 r2 where h2: "read_latches d (length (aig_latches g)) 0 r1 h1 = Some (Some (), r2, h2)" "ahead r2 = s6" "settled r2 = k"
    "table_for ?m h2" "same_nodes h2 (h1\<lparr>aig_latches := map bare (aig_latches g)\<rparr>)"
    by blast
  have n2: "same_nodes h2 (t\<lparr>aig_inputs := map bare (aig_inputs g), aig_latches := map bare (aig_latches g)\<rparr>)"
    using same_nodes_trans [OF h2(5) same_nodes_update(2) [OF h1(5)]] by simp
  note sel2 = same_nodes_sel [OF n2]
  let ?h3 = "aig_outputs_update (\<lambda>ss. ss @ map bare (aig_outputs g)) h2"
  let ?h4 = "aig_bad_update (\<lambda>ss. ss @ map bare (aig_bad g)) ?h3"
  let ?h5 = "aig_constraints_update (\<lambda>ss. ss @ map bare (aig_constraints g)) ?h4"
  let ?h6 = "?h5\<lparr>aig_justice := aig_justice ?h5 @ map bare (aig_justice g)\<rparr>"
  let ?h7 = "aig_fairness_update (\<lambda>ss. ss @ map bare (aig_fairness g)) ?h6"
  note sym = read_symbols_reads [where d = d, unfolded reads_def length_map]
  obtain r3 where r3: "read_symbols d ''output literal'' '' is not a valid output'' aiger_add_output (length (aig_outputs g)) r2 h2 =
      Some (Some (), r3, ?h3)" "ahead r3 = s5" "settled r3 = k" and t3: "table_for ?m ?h3"
    using sym [OF h2(4) wl(1) adds_to_arrays(1) h2(3) h2(2) [unfolded s6_def], unfolded pl(2) length_map] by blast
  obtain r4 where r4: "read_symbols d ''bad state constraint literal'' '' is not valid bad'' aiger_add_bad (length (aig_bad g)) r3 ?h3 =
      Some (Some (), r4, ?h4)" "ahead r4 = s4" "settled r4 = k" and t4: "table_for ?m ?h4"
    using sym [OF t3 wl(2) adds_to_arrays(2) r3(3) r3(2) [unfolded s5_def], unfolded pl(3) length_map] by blast
  obtain r5 where r5: "read_symbols d ''invariant constraint literal'' '' is not a valid constraint'' aiger_add_constraint
      (length (aig_constraints g)) r4 ?h4 = Some (Some (), r5, ?h5)" "ahead r5 = s3" "settled r5 = k" and t5: "table_for ?m ?h5"
    using sym [OF t4 wl(3) adds_to_arrays(3) r4(3) r4(2) [unfolded s4_def], unfolded pl(4) length_map] by blast
  have "\<forall>n \<in> set (map (length \<circ> sym_lits) (aig_justice g)). n < 4294967296" using z by (simp add: sizes_ok_def)
  from read_numbers_reads [OF this r5(3) r5(2) [unfolded s3_def], of d "''justice constraint size''" ?h5, unfolded length_map reads_def]
  obtain r6 where r6: "read_numbers d ''justice constraint size'' (length (aig_justice g)) r5 ?h5 =
      Some (Some (map (length \<circ> sym_lits) (aig_justice g)), r6, ?h5)" "ahead r6 = s2" "settled r6 = k" by blast
  from read_justice_reads [OF t5 wl(5) r6(3) r6(2) [unfolded s2_def], of d, unfolded reads_def]
  obtain r7 where r7: "read_justice d (map (length \<circ> sym_lits) (aig_justice g)) r6 ?h5 = Some (Some (), r7, ?h6)" "ahead r7 = s1"
    "settled r7 = k" and t6: "table_for ?m ?h6" by blast
  obtain r8 where r8: "read_symbols d ''fairness constraint literal'' '' is not valid fairness'' aiger_add_fairness
      (length (aig_fairness g)) r7 ?h6 = Some (Some (), r8, ?h7)" "ahead r8 = rest" "settled r8 = k" and t7: "table_for ?m ?h7"
    using sym [OF t6 wl(4) adds_to_arrays(4) r7(3) r7(2) [unfolded s1_def], unfolded pl(5) length_map] by blast
  have counts: "rd_inputs r = length (aig_inputs g)" "rd_latches r1 = length (aig_latches g)" "rd_outputs r2 = length (aig_outputs g)"
    "rd_bad r3 = length (aig_bad g)" "rd_constraints r4 = length (aig_constraints g)" "rd_justice r5 = length (aig_justice g)"
    "rd_fairness r7 = length (aig_fairness g)"
    using settled_sel(3) [OF k(1)] settled_sel(4) [OF h1(3)] settled_sel(5) [OF h2(3)] settled_sel(7) [OF r3(3)] settled_sel(8) [OF r4(3)]
      settled_sel(9) [OF r5(3)] settled_sel(10) [OF r7(3)] kf by simp_all
  let ?r = "r8\<lparr>rd_done_header := True, rd_looks_like_aag := True\<rparr>"
  have "ahead ?r = rest" using r8(2) by (cases "rd_ch r8"; simp add: ahead_def)
  moreover have "settled ?r = k\<lparr>rd_done_header := True\<rparr>" using r8(3) by (auto simp: settled_def)
  moreover have "same_nodes ?h7 (bare_nodes g)"
    using sel2 te w unfolding same_nodes_def bare_nodes_def by (intro aiger.equality) (simp_all add: writable_def aig_wf_def)
  ultimately show ?thesis
    using t7 unfolding counts h1(1) and_then_simps h2(1) counts r3(1) r4(1) r5(1) r6(1) r7(1) r8(1)
    by (intro exI [of _ ?h7]) (simp add: reads_parsed)
qed

end
