(* ===== verification/AigerRoundtrip.thy ===== *)
theory AigerRoundtrip
  imports AigerRereadFile
begin

text \<open>
  Writing and reading are inverse: the text of a writable graph is read back to the same graph, up to the marks
  in its table, in both formats; in the binary format it has to be in sequence. A graph that is in the binary
  order but has a maximal variable that is not used is written and cannot be read.
\<close>

section \<open>Header and gates\<close>

lemma header_reads:
  assumes w: "writable g" and order: "\<not> ascii \<Longrightarrow> in_sequence g"
    and content: "content = (if ascii then ''aag'' else ''aig'') @ counts_text g @ nodes_text (\<not> ascii) g @ rest"
  shows "\<exists>h. reads (aiger_read_header d (new_reader content) aiger_init) () rest
      ((with_counts g (blank ascii))\<lparr>rd_done_header := True\<rparr>) h \<and> table_for (aig_maxvar g) h \<and> same_nodes h (bare_nodes g)"
proof -
  let ?k = "with_counts g (blank ascii)"
  have z: "sizes_ok g" using w by (simp add: writable_def)
  obtain r u r' where r: "read_magic d (new_reader content) aiger_init = parsed u r aiger_init"
    "read_counts d r aiger_init = parsed () r' aiger_init" "ahead r' = nodes_text (\<not> ascii) g @ rest" "settled r' = ?k"
    using header_counts [OF z content, of d] by blast
  have k: "rd_ascii r' = ascii" "rd_maxvar r' = aig_maxvar g" "rd_inputs r' = length (aig_inputs g)"
    "rd_latches r' = length (aig_latches g)" "rd_ands r' = length (aig_ands g)"
    using settled_sel [OF r(4)] by (simp_all add: with_counts_def blank_def)
  have fit: "\<not> (\<not> rd_ascii r' \<and> u32 (rd_inputs r' + rd_latches r' + rd_ands r') \<noteq> rd_maxvar r')"
  proof (cases ascii)
    case False
    then have "length (aig_inputs g) + length (aig_latches g) + length (aig_ands g) = aig_maxvar g"
      using order by (simp add: in_sequence_def)
    then show ?thesis using z by (simp add: k sizes_ok_def u32_def)
  qed (simp add: k)
  have t: "aiger_init\<lparr>aig_maxvar := rd_maxvar r', aig_types := fit_types (u32 (rd_maxvar r' + 1)) (aig_types aiger_init)\<rparr> =
      read_table (aig_maxvar g)" by (simp add: read_table_def k)
  show ?thesis
    using header_nodes [OF w order r(4) refl r(3), of d]
    unfolding aiger_read_header_def r(1,2) and_then_simps t Let_def if_not_P [OF fit] by blast
qed

lemma max_lit_bare: "max_lit d (map bare ss) res = max_lit d ss res"
  by (induction ss arbitrary: res) (simp_all add: bare_def)

lemma file_reads:
  assumes w: "writable g" and order: "\<not> ascii \<Longrightarrow> in_sequence g \<and> aiger_is_reencoded d g = Some True"
    and content: "content = (if ascii then ascii_text g else binary_text g) @ rest"
  shows "\<exists>h r. and_then (aiger_read_header d (new_reader content) aiger_init) (\<lambda>u r g.
       and_then (if rd_ascii r then aiger_read_ascii d r g else aiger_read_binary d r g) (\<lambda>u r g.
       aiger_read_symbols_and_comments d r g)) = aiger_read_symbols_and_comments d r h \<and> ahead r = rest \<and>
    rd_buffer (settled r) = [] \<and> table_for (aig_maxvar g) h \<and> same_nodes h ((bare_nodes g)\<lparr>aig_ands := aig_ands g\<rparr>)"
proof -
  let ?k = "(with_counts g (blank ascii))\<lparr>rd_done_header := True\<rparr>"
  let ?gates = "if ascii then concat (map gate_text (aig_ands g)) else concat (map gate_code (aig_ands g))"
  have ok: "types_ok g" using w by (simp add: writable_def aig_wf_def)
  have "content = (if ascii then ''aag'' else ''aig'') @ counts_text g @ nodes_text (\<not> ascii) g @ ?gates @ rest"
    using content by (simp add: ascii_text_def binary_text_def)
  then obtain h r where h: "aiger_read_header d (new_reader content) aiger_init = Some (Some (), r, h)" "ahead r = ?gates @ rest"
    "settled r = ?k" "table_for (aig_maxvar g) h" "same_nodes h (bare_nodes g)"
    using header_reads [OF w, of ascii content "?gates @ rest" d] order unfolding reads_def by blast
  note sel = same_nodes_sel [OF h(5)]
  have "distinct (map and_lhs (aig_ands g))" "set (map and_lhs (aig_ands g)) \<inter> set (node_lits h) = {}"
    using distinct_node_lits [OF ok] by (auto simp: node_lits_def sel bare_nodes_def bare_def)
  note gates = writable_lits(7) [OF w] this
  have kf: "rd_ascii r = ascii" "rd_ands r = length (aig_ands g)"
    using settled_sel [OF h(3)] by (simp_all add: with_counts_def blank_def)
  have "\<exists>h2. reads (if rd_ascii r then aiger_read_ascii d r h else aiger_read_binary d r h) () rest ?k h2 \<and>
      table_for (aig_maxvar g) h2 \<and> same_nodes h2 (h\<lparr>aig_ands := aig_ands h @ aig_ands g\<rparr>)"
  proof (cases ascii)
    case True
    then have "ahead r = concat (map gate_text (aig_ands g)) @ rest" using h(2) by simp
    from read_ascii_gates_reads [OF h(4) gates h(3) this, of d] show ?thesis
      using True kf by (simp add: aiger_read_ascii_def)
  next
    case False
    then have a: "ahead r = concat (map gate_code (aig_ands g)) @ rest" using h(2) by simp
    obtain b mx where b: "aiger_max_input_or_latch d g = Some mx" "ands_from b (mx + 2) (aig_ands g)"
      using order [OF False] by (auto simp: aiger_is_reencoded_def bind_eq_Some_conv split: option.splits)
    have "aiger_max_input_or_latch d h = Some mx"
      using b(1) by (simp add: aiger_max_input_or_latch_def sel bare_nodes_def max_lit_bare)
    then show ?thesis
      using read_binary_gates_reads [OF h(4) gates h(3) a b(2), of d] False kf by (simp add: aiger_read_binary_def)
  qed
  then obtain r2 h2 where r2: "(if rd_ascii r then aiger_read_ascii d r h else aiger_read_binary d r h) = Some (Some (), r2, h2)"
    "ahead r2 = rest" "settled r2 = ?k" "table_for (aig_maxvar g) h2" "same_nodes h2 (h\<lparr>aig_ands := aig_ands h @ aig_ands g\<rparr>)"
    unfolding reads_def by blast
  have "same_nodes h2 ((bare_nodes g)\<lparr>aig_ands := aig_ands g\<rparr>)"
    using same_nodes_trans [OF r2(5) same_nodes_update(3) [OF h(5)]] by (simp add: sel(9)) (simp add: bare_nodes_def)
  moreover have "rd_buffer ?k = []" by (simp add: with_counts_def blank_def settled_def new_reader_def)
  ultimately show ?thesis
    using h(1) r2(1,2,4) unfolding r2(3) [symmetric]
    by (intro exI [of _ h2] exI [of _ r2]) (simp split del: if_split)
qed

section \<open>Names and comments\<close>

text \<open>What is read back: the comments end with the first empty one.\<close>

definition reread :: "aiger \<Rightarrow> aiger" where
  "reread g = g\<lparr>aig_comments := map Some (until_null (aig_comments g)) @ [None]\<rparr>"

lemma reread_sel [simp]:
  "aig_maxvar (reread g) = aig_maxvar g" "aig_inputs (reread g) = aig_inputs g" "aig_latches (reread g) = aig_latches g"
  "aig_outputs (reread g) = aig_outputs g" "aig_bad (reread g) = aig_bad g" "aig_constraints (reread g) = aig_constraints g"
  "aig_justice (reread g) = aig_justice g" "aig_fairness (reread g) = aig_fairness g" "aig_ands (reread g) = aig_ands g"
  "aig_types (reread g) = aig_types g" "aig_error (reread g) = aig_error g" "typed (reread g) = typed g"
  by (simp_all add: reread_def typed_def fun_eq_iff)

lemma reread_writable:
  assumes "writable g"
  shows "writable (reread g)"
proof -
  have n: "all_names_ok g" using assms by (simp add: writable_def)
  have "aig_comments (reread g) = map Some (until_null (aig_comments g)) @ [None]" by (simp add: reread_def)
  then have "\<forall>c. Some c \<in> set (aig_comments (reread g)) \<longrightarrow> c \<noteq> [] \<and> line_ok c"
    using comment_lines_ok [OF n] by auto
  then have "all_names_ok (reread g)" using n by (simp only: all_names_ok_def reread_sel simp_thms)
  moreover have defined: "lit_defined (reread g) l = lit_defined g l" for l by (simp add: lit_defined_def defined_var_def)
  moreover have "types_ok (reread g) = types_ok g" by (simp only: types_ok_def defined_var_def reread_sel)
  moreover have "aig_closed (reread g) = aig_closed g" by (simp only: aig_closed_def defined reread_sel)
  moreover have "lits_closed (reread g) = lits_closed g" by (simp only: lits_closed_def defined reread_sel)
  moreover have "fields_ok (reread g) = fields_ok g" by (simp only: fields_ok_def reread_sel)
  moreover have "sizes_ok (reread g) = sizes_ok g" by (simp only: sizes_ok_def reread_sel)
  moreover have "gate_edges (reread g) = gate_edges g" by (simp only: gate_edges_def reread_sel)
  ultimately show ?thesis using assms by (simp add: writable_def aig_wf_def)
qed

lemma reread_whole: "None \<notin> set cs \<Longrightarrow> aig_comments g = cs @ [None] \<Longrightarrow> reread g = g"
proof -
  assume cs: "None \<notin> set cs" "aig_comments g = cs @ [None]"
  have "map Some (until_null (cs @ [None])) = cs" using cs(1)
  proof (induction cs)
    case (Cons c cs)
    then show ?case by (cases c) auto
  qed simp
  then show "reread g = g" using cs(2) by (cases g) (simp add: reread_def)
qed

lemma extra_reads:
  assumes names: "all_names_ok g" and z: "sizes_ok g" and nodes: "same_nodes h ((bare_nodes g)\<lparr>aig_ands := aig_ands g\<rparr>)"
    and t: "table_for (aig_maxvar g) h" and a: "ahead r = extra_text g" and b: "rd_buffer (settled r) = []"
  shows "\<exists>r' h'. aiger_read_symbols_and_comments d r h = Some (Some (), r', h') \<and> table_for (aig_maxvar g) h' \<and> same_nodes h' ((reread g)\<lparr>aig_error := None\<rparr>)"
proof -
  note sel = same_nodes_sel [OF nodes, unfolded bare_nodes_def, simplified]
  note n = names [unfolded all_names_ok_def] and z = z [unfolded sizes_ok_def]
  note lines = comment_lines_ok [OF names]
  define k where "k = settled r"
  let ?c = "comments_text (until_null (aig_comments g))"
  define t7 where "t7 = symbols_text ''f'' 0 (aig_fairness g) @ ?c"
  define t6 where "t6 = symbols_text ''j'' 0 (aig_justice g) @ t7"
  define t5 where "t5 = symbols_text ''c'' 0 (aig_constraints g) @ t6"
  define t4 where "t4 = symbols_text ''b'' 0 (aig_bad g) @ t5"
  define t3 where "t3 = symbols_text ''o'' 0 (aig_outputs g) @ t4"
  define t2 where "t2 = symbols_text ''l'' 0 (aig_latches g) @ t3"
  have a: "ahead r = symbols_text ''i'' 0 (aig_inputs g) @ t2" and k: "rd_buffer k = []" "settled r = k"
    using a b by (simp_all add: extra_text_def names_text_def t2_def t3_def t4_def t5_def t6_def t7_def k_def)
  let ?h1 = "aig_inputs_update (\<lambda>_. [] @ aig_inputs g) h"
  let ?h2 = "aig_latches_update (\<lambda>_. [] @ aig_latches g) ?h1"
  let ?h3 = "aig_outputs_update (\<lambda>_. [] @ aig_outputs g) ?h2"
  let ?h4 = "aig_bad_update (\<lambda>_. [] @ aig_bad g) ?h3"
  let ?h5 = "aig_constraints_update (\<lambda>_. [] @ aig_constraints g) ?h4"
  let ?h6 = "aig_justice_update (\<lambda>_. [] @ aig_justice g) ?h5"
  let ?h7 = "aig_fairness_update (\<lambda>_. [] @ aig_fairness g) ?h6"
  have kinds: "symbol_kind (Some CHR ''i'') = Some (''input'', aig_inputs, aig_inputs_update)"
    "symbol_kind (Some CHR ''l'') = Some (''latch'', aig_latches, aig_latches_update)"
    "symbol_kind (Some CHR ''o'') = Some (''output'', aig_outputs, aig_outputs_update)"
    "symbol_kind (Some CHR ''b'') = Some (''bad'', aig_bad, aig_bad_update)"
    "symbol_kind (Some CHR ''c'') = Some (''constraint'', aig_constraints, aig_constraints_update)"
    "symbol_kind (Some CHR ''j'') = Some (''justice'', aig_justice, aig_justice_update)"
    "symbol_kind (Some CHR ''f'') = Some (''fairness'', aig_fairness, aig_fairness_update)"
    by (simp_all add: symbol_kind_def)
  note names = read_names [where pre = "[]", unfolded list.size(3) add_0]
  obtain r1 where r1: "symbols_from d r h = symbols_from d r1 ?h1" "ahead r1 = t2" "settled r1 = k"
    using names [OF kinds(1) k(1) _ _ _ k(2) a, of h d] n z sel by auto
  obtain r2 where r2: "symbols_from d r1 ?h1 = symbols_from d r2 ?h2" "ahead r2 = t3" "settled r2 = k"
    using names [OF kinds(2) k(1) _ _ _ r1(3) r1(2) [unfolded t2_def], of ?h1 d] n z sel by auto
  obtain r3 where r3: "symbols_from d r2 ?h2 = symbols_from d r3 ?h3" "ahead r3 = t4" "settled r3 = k"
    using names [OF kinds(3) k(1) _ _ _ r2(3) r2(2) [unfolded t3_def], of ?h2 d] n z sel by auto
  obtain r4 where r4: "symbols_from d r3 ?h3 = symbols_from d r4 ?h4" "ahead r4 = t5" "settled r4 = k"
    using names [OF kinds(4) k(1) _ _ _ r3(3) r3(2) [unfolded t4_def], of ?h3 d] n z sel by auto
  obtain r5 where r5: "symbols_from d r4 ?h4 = symbols_from d r5 ?h5" "ahead r5 = t6" "settled r5 = k"
    using names [OF kinds(5) k(1) _ _ _ r4(3) r4(2) [unfolded t5_def], of ?h4 d] n z sel by auto
  obtain r6 where r6: "symbols_from d r5 ?h5 = symbols_from d r6 ?h6" "ahead r6 = t7" "settled r6 = k"
    using names [OF kinds(6) k(1) _ _ _ r5(3) r5(2) [unfolded t6_def], of ?h5 d] n z sel by auto
  obtain r7 where r7: "symbols_from d r6 ?h6 = symbols_from d r7 ?h7" "ahead r7 = ?c" "settled r7 = k"
    using names [OF kinds(7) k(1) _ _ _ r6(3) r6(2) [unfolded t7_def], of ?h6 d] n z sel by auto
  have e: "aig_error ?h7 = None" "aig_comments ?h7 = [None]" using t sel by (simp_all add: table_for_def)
  obtain r8 where r8: "symbols_from d r7 ?h7 = Some (Some (), r8, ?h7\<lparr>aig_comments := aig_comments (reread g)\<rparr>)"
    using comments_reads [OF e(1) lines r7(3) k(1) r7(2) e(2), of d] by (auto simp: reread_def)
  have "table_for (aig_maxvar g) (?h7\<lparr>aig_comments := aig_comments (reread g)\<rparr>)"
    by (rule table_keep [OF t]) (simp_all add: sel bare_def comp_def)
  moreover have "same_nodes (?h7\<lparr>aig_comments := aig_comments (reread g)\<rparr>) ((reread g)\<lparr>aig_error := None\<rparr>)"
    using e(1) unfolding same_nodes_def by (intro aiger.equality) (simp_all add: sel)
  ultimately show ?thesis
    unfolding aiger_read_symbols_and_comments_def r1(1) r2(1) r3(1) r4(1) r5(1) r6(1) r7(1) r8 by blast
qed

section \<open>The graph that is read\<close>

lemma same_nodes_wf:
  assumes w: "writable g" and t: "table_for mx h" and n: "same_nodes h (g\<lparr>aig_error := None\<rparr>)"
  shows "types_ok h" "aig_closed h" "lits_closed h" "gate_edges h = gate_edges g" "\<forall>s \<in> set (aig_latches h). reset_ok s"
    "\<forall>v. \<not> ty_onstack (typed h v)" "aig_error h = None"
proof -
  note sel = same_nodes_sel [OF n, simplified]
  have g: "types_ok g" "aig_closed g" "lits_closed g" "\<forall>s \<in> set (aig_latches g). reset_ok s"
    using w by (simp_all add: writable_def aig_wf_def)
  show ok: "types_ok h" "aig_error h = None" "\<forall>v. \<not> ty_onstack (typed h v)" using t by (auto simp: table_for_def unmarked_def)
  have "node_lits h = node_lits g" by (simp add: node_lits_def sel)
  moreover have "defined_var x v \<longleftrightarrow> 2 * v \<in> set (node_lits x)" if "types_ok x" for x v
  proof
    assume "2 * v \<in> set (node_lits x)"
    from node_lits_defined(1) [OF that this] show "defined_var x v" by simp
  qed (rule defined_node_lits [OF that])
  ultimately have "defined_var h v = defined_var g v" for v using ok(1) g(1) by simp
  then have lit: "lit_defined h l = lit_defined g l" for l by (simp add: lit_defined_def)
  show "aig_closed h" using g(2) by (simp add: aig_closed_def lit sel)
  show "lits_closed h" using g(3) by (simp add: lits_closed_def lit sel)
  show "gate_edges h = gate_edges g" by (simp add: gate_edges_def sel)
  show "\<forall>s \<in> set (aig_latches h). reset_ok s" using g(4) by (simp add: sel)
qed

lemma marks_only_graph: "marks_only g h \<Longrightarrow> h = g\<lparr>aig_types := aig_types h\<rparr>"
  by (cases g; cases h) (simp add: marks_only_def)

lemma marks_only_wf:
  assumes m: "marks_only g h" and "aig_wf g" and off: "\<forall>v. \<not> ty_onstack (typed h v)"
  shows "aig_wf h"
proof -
  note s = marks_only_sel [OF m]
  show ?thesis using assms(2) off marks_only_types_ok [OF m]
    unfolding aig_wf_def aig_closed_def lit_defined_def defined_var_def gate_edges_def s by simp
qed

lemma written_reads:
  assumes w: "writable g" and order: "\<not> ascii \<Longrightarrow> in_sequence g \<and> aiger_is_reencoded d g = Some True"
  shows "\<exists>ts. aiger_read_generic d aiger_init ((if ascii then ascii_text g else binary_text g) @ extra_text g) =
      Some ((reread g)\<lparr>aig_types := ts\<rparr>) \<and> aig_wf ((reread g)\<lparr>aig_types := ts\<rparr>)"
proof -
  let ?content = "(if ascii then ascii_text g else binary_text g) @ extra_text g"
  have wf: "aig_wf g" "all_names_ok g" "sizes_ok g" "aig_error g = None" using w by (simp_all add: writable_def aig_wf_def)
  have g: "(reread g)\<lparr>aig_error := None\<rparr> = reread g" using wf(4) by (cases g) (simp add: reread_def)
  obtain h r where h: "and_then (aiger_read_header d (new_reader ?content) aiger_init) (\<lambda>u r g.
       and_then (if rd_ascii r then aiger_read_ascii d r g else aiger_read_binary d r g) (\<lambda>u r g.
       aiger_read_symbols_and_comments d r g)) = aiger_read_symbols_and_comments d r h" "ahead r = extra_text g"
    "rd_buffer (settled r) = []" "table_for (aig_maxvar g) h" "same_nodes h ((bare_nodes g)\<lparr>aig_ands := aig_ands g\<rparr>)"
    using file_reads [OF w order refl] by blast
  obtain r' h' where h': "aiger_read_symbols_and_comments d r h = Some (Some (), r', h')" "table_for (aig_maxvar g) h'"
    "same_nodes h' ((reread g)\<lparr>aig_error := None\<rparr>)" using extra_reads [OF wf(2,3) h(5,4,2,3)] by blast
  note p = same_nodes_wf [OF reread_writable [OF w] h'(2,3)]
  have ac: "acyclic (gate_edges h')" using wf(1) p(4) by (simp add: aig_wf_def gate_edges_def)
  obtain f where "decreasing h' f" by (rule decreasing_exists [OF p(1) ac])
  then obtain k where k: "aiger_check d h' = Some k" "marks_only h' k" "\<forall>v. \<not> ty_onstack (typed k v)"
    using check_complete [OF p(1,2) _ p(7,6,3)] by blast
  have "aig_wf h'" using p ac by (simp add: aig_wf_def)
  then have "aig_wf k" using marks_only_wf [OF k(2) _ k(3)] by blast
  moreover have "k = (reread g)\<lparr>aig_types := aig_types k\<rparr>"
    using marks_only_graph [OF k(2)] h'(3) unfolding g by (cases k; cases h'; cases "reread g") (simp add: same_nodes_def)
  moreover have "aiger_read_generic d aiger_init ?content = Some k"
    unfolding aiger_read_generic_def h(1) h'(1) by (simp add: k(1) aiger_init_def)
  ultimately show ?thesis by metis
qed

text \<open>The check of a build with assertions before writing.\<close>

lemma assert_check_writable:
  assumes "writable g"
  shows "\<exists>h. assert_check d g = Some h \<and> marks_only g h \<and> aig_wf h"
proof (cases d)
  case True
  have g: "types_ok g" "aig_closed g" "lits_closed g" "aig_error g = None" "\<forall>v. \<not> ty_onstack (typed g v)" "acyclic (gate_edges g)" "aig_wf g"
    using assms by (simp_all add: writable_def aig_wf_def)
  obtain f where "decreasing g f" by (rule decreasing_exists [OF g(1,6)])
  then obtain h where h: "aiger_check d g = Some h" "marks_only g h" "\<forall>v. \<not> ty_onstack (typed h v)"
    using check_complete [OF g(1,2) _ g(4,5,3)] by blast
  then have "assert_check d g = Some h" using marks_only_sel(11) [OF h(2)] g(4) True by (simp add: assert_check_def)
  then show ?thesis using h(2) marks_only_wf [OF h(2) g(7) h(3)] by blast
next
  case False
  then show ?thesis using assms by (simp add: assert_check_def marks_only_refl writable_def)
qed

definition endless :: stream where
  "endless = \<lparr>st_text = [], st_room = None\<rparr>"

lemma write_ascii_file:
  assumes w: "writable g"
  shows "\<exists>h. aiger_write_to_file d g aiger_ascii_mode endless = Some (True, h, \<lparr>st_text = ascii_text g @ extra_text g, st_room = None\<rparr>) \<and>
    marks_only g h"
proof -
  have e: "aig_error g = None" "all_names_ok g" using w by (simp_all add: writable_def aig_wf_def)
  obtain h where h: "assert_check d g = Some h" "marks_only g h" using assert_check_writable [OF w] by blast
  note txt' = marks_only_text [OF h(2)]
  have "aiger_write_generic d aiger_default_put g aiger_ascii_mode endless =
      do { (ok, s) \<leftarrow> put_text aiger_default_put (ascii_text h @ extra_text h) endless; Some (ok, h, s) }"
    by (rule write_generic_text) (use e txt' write_ascii_text [OF h(1), of aiger_default_put endless] in simp_all)
  then show ?thesis
    using h(2) e(1) default_put_text [of "ascii_text g @ extra_text g" "[]"]
    by (simp add: aiger_write_to_file_def endless_def txt' extra_text_def)
qed

end
