(* ===== verification/AigerBinaryFile.thy ===== *)
theory AigerBinaryFile
  imports AigerRoundtrip
begin

text \<open>
  Writing in the binary format, which renumbers a graph that is not in the order of the format: what is written
  is a writable graph of the same meaning, and it is read back exactly if every variable up to the maximal one
  is used. Writing to a string.
\<close>

section \<open>Graphs in the binary order\<close>

lemma marks_only_writable:
  assumes m: "marks_only g h" and "writable g" and "aig_wf h"
  shows "writable h"
proof -
  note s = marks_only_sel [OF m]
  have r: "aig_constraints h = aig_constraints g" "aig_justice h = aig_justice g" "aig_fairness h = aig_fairness g"
    using m by (cases g; cases h; simp add: marks_only_def)+
  show ?thesis
    using assms(2,3) marks_only_text(5) [OF m] unfolding writable_def
    by (simp add: lits_closed_def fields_ok_def sizes_ok_def lit_defined_def defined_var_def s r)
qed

lemma reencoded_sequence:
  assumes "aiger_is_reencoded d g = Some True"
    and "aig_maxvar g = length (aig_inputs g) + length (aig_latches g) + length (aig_ands g)"
  shows "in_sequence g"
proof -
  obtain m where m: "consecutive_from 0 (aig_inputs g) = Some m" "consecutive_from m (aig_latches g) \<noteq> None"
    using assms(1) by (auto simp: aiger_is_reencoded_def bind_eq_Some_conv split: option.splits)
  then obtain m2 where m2: "consecutive_from m (aig_latches g) = Some m2" by blast
  have "m = 2 * length (aig_inputs g)" "\<forall>k < length (aig_inputs g). sym_lit (aig_inputs g ! k) = 2 * (k + 1)"
    using consecutive_nth [OF m(1)] by simp_all
  moreover have "\<forall>k < length (aig_latches g). sym_lit (aig_latches g ! k) = m + 2 * (k + 1)"
    using consecutive_nth [OF m2] by simp
  ultimately show ?thesis using assms(2) by (simp add: in_sequence_def)
qed

lemma reencoded_gates:
  assumes w: "writable g" and b: "aiger_is_reencoded d g = Some True"
  shows "\<forall>a \<in> set (aig_ands g). and_rhs0 a \<noteq> and_lhs a \<and> and_lhs a < 4294967296"
proof
  fix a assume a: "a \<in> set (aig_ands g)"
  have wf: "aig_wf g" "types_ok g" "aig_maxvar g < 2147483648" using w by (simp_all add: writable_def aig_wf_def sizes_ok_def)
  have "and_rhs0 a \<noteq> and_lhs a"
  proof
    assume "and_rhs0 a = and_lhs a"
    then have "(and_lhs a div 2, and_lhs a div 2) \<in> gate_edges g" using a by (force simp: gate_edges_def)
    then show False using wf(1) unfolding aig_wf_def acyclic_def by blast
  qed
  moreover have "node_lit (aig_maxvar g) (and_lhs a)"
    by (rule node_lits_node_lit [OF wf(2)]) (use a in \<open>simp add: node_lits_def\<close>)
  ultimately show "and_rhs0 a \<noteq> and_lhs a \<and> and_lhs a < 4294967296" using wf(3) by (auto simp: node_lit_def)
qed

lemma write_binary_generic:
  assumes "assert_check d g = Some g1" and "aiger_reencode d g1 = Some h" and "writable h"
    and "aiger_is_reencoded d h = Some True" and "aig_error g = None"
  shows "aiger_write_generic d put g aiger_binary_mode s =
    do { (ok, s) \<leftarrow> put_text put (binary_text h @ extra_text h) s; Some (ok, h, s) }"
proof (rule write_generic_text [OF assms(5)])
  show "(if aiger_binary_mode = aiger_ascii_mode then aiger_write_ascii d put g s else aiger_write_binary d put g s) =
      do { (ok, s) \<leftarrow> put_text put (binary_text h) s; Some (ok, h, s) }"
    using write_binary_text [OF assms(1,2,4) reencoded_gates [OF assms(3,4)]]
    by (simp add: aiger_binary_mode_def aiger_ascii_mode_def)
qed (use assms(3) in \<open>simp_all add: writable_def\<close>)

section \<open>The renumbered graph\<close>

lemma decreasing_acyclic:
  assumes ok: "types_ok g" and dec: "decreasing g f"
  shows "acyclic (gate_edges g)"
proof (rule acyclicI_order [where f = "\<lambda>v. f v"])
  fix v c assume "(v, c) \<in> gate_edges g"
  then obtain a where a: "a \<in> set (aig_ands g)" "v = and_lhs a div 2" "c = and_rhs0 a div 2 \<or> c = and_rhs1 a div 2"
    by (auto simp: gate_edges_def)
  obtain k where k: "k < length (aig_ands g)" "a = aig_ands g ! k" using a(1) by (auto simp: in_set_conv_nth)
  then have "ty_and (typed g v)" "ty_idx (typed g v) = k" using node_at [OF ok] a(2) by simp_all
  then show "f c < f v" using dec a(3) k(2) unfolding decreasing_def gate_children_def Let_def by blast
qed

lemma plain_renumbered: "plain_symbol s \<Longrightarrow> plain_symbol (s\<lparr>sym_lit := l\<rparr>)"
  by (cases s) (simp add: plain_symbol_def bare_def named_symbol_def zero_symbol_def)

lemma names_renumbered: "(\<And>s. sym_name (f s) = sym_name s) \<Longrightarrow> names_ok (map f ss) = names_ok ss"
  by (simp add: names_ok_def)

lemma renumbered_writable:
  assumes w: "writable g" and c: "covered g L" and r: "renumbered g L h"
  shows "writable h" and "in_sequence h"
proof -
  have ok: "types_ok g" and cl: "aig_closed g" and z: "sizes_ok g" and n: "numbered g L" and f: "fields_ok g" and a: "all_names_ok g"
    and re: "\<forall>s \<in> set (aig_latches g). reset_ok s"
    using w c by (simp_all add: writable_def aig_wf_def covered_def)
  note r' = r [unfolded renumbered_def]
  have hok: "types_ok h" by (rule renumbered_types_ok [OF ok n r])
  have L: "length (order_of g L) \<le> aig_maxvar g" by (rule order_length [OF ok n])
  have ands: "length (aig_ands h) = length L" using r' by (simp add: new_ands_def)
  have las: "aig_latches h = map (\<lambda>s. (new_latch (order_of g L) s)\<lparr>sym_lit := new_lit (order_of g L) (sym_lit s)\<rparr>) (aig_latches g)"
    using r' by (elim conjE)
  have rn: "aig_maxvar h = length (order_of g L)" "aig_error h = None"
    "aig_inputs h = map (\<lambda>s. s\<lparr>sym_lit := new_lit (order_of g L) (sym_lit s)\<rparr>) (aig_inputs g)"
    "aig_outputs h = map (\<lambda>s. s\<lparr>sym_lit := new_lit (order_of g L) (sym_lit s)\<rparr>) (aig_outputs g)"
    "aig_bad h = map (\<lambda>s. s\<lparr>sym_lit := new_lit (order_of g L) (sym_lit s)\<rparr>) (aig_bad g)"
    "aig_constraints h = []" "aig_justice h = []" "aig_fairness h = []" "aig_comments h = aig_comments g"
    "\<forall>v. \<not> ty_onstack (typed h v)"
    using r' by blast+
  have "reset_ok s" if s: "s \<in> set (aig_latches h)" for s
  proof -
    obtain t where t: "t \<in> set (aig_latches g)" "s = (new_latch (order_of g L) t)\<lparr>sym_lit := new_lit (order_of g L) (sym_lit t)\<rparr>"
      using s unfolding las by auto
    then show ?thesis using re by (auto simp: reset_ok_def new_latch_def new_lit_def)
  qed
  moreover have "acyclic (gate_edges h)" by (rule decreasing_acyclic [OF hok renumbered_decreasing [OF ok cl n r]])
  ultimately have "aig_wf h" using hok renumbered_closed [OF ok cl c r] rn(2,10) by (simp add: aig_wf_def)
  moreover have "fields_ok h"
  proof -
    have "list_all plain_symbol (map (\<lambda>s. s\<lparr>sym_lit := f s\<rparr>) ss)" if "list_all plain_symbol ss" for f ss
      using that plain_renumbered by (simp add: list_all_iff)
    moreover have "list_all (\<lambda>s. sym_lits s = []) (aig_latches h)"
      using f unfolding las by (simp add: fields_ok_def list_all_iff new_latch_def)
    ultimately show ?thesis using f unfolding fields_ok_def rn by simp
  qed
  moreover have "all_names_ok h"
  proof -
    have "names_ok (aig_latches h) = names_ok (aig_latches g)" unfolding las by (rule names_renumbered) (simp add: new_latch_def)
    then show ?thesis using a unfolding all_names_ok_def rn by (simp add: names_renumbered) (simp add: names_ok_def)
  qed
  moreover have "sizes_ok h" using z L ands order_size [of g L] unfolding sizes_ok_def las rn by simp
  ultimately show "writable h" using no_lits_closed [of h] rn(6-8) by (simp add: writable_def)
  show "in_sequence h" using ands order_size [of g L] leaf_lits [OF ok n] unfolding in_sequence_def las rn by simp
qed

section \<open>Variables that are not used\<close>

lemma node_count:
  assumes ok: "types_ok g"
  shows "length (aig_inputs g) + length (aig_latches g) + length (aig_ands g) \<le> aig_maxvar g"
proof -
  let ?N = "node_lits g"
  have node: "node_lit (aig_maxvar g) l" if "l \<in> set ?N" for l by (rule node_lits_node_lit [OF ok that])
  have "set ?N \<subseteq> (\<lambda>v. 2 * v) ` {1..aig_maxvar g}"
  proof
    fix l assume "l \<in> set ?N"
    then have "l = 2 * (l div 2)" "l div 2 \<in> {1..aig_maxvar g}" using node [of l] by (auto simp: node_lit_def)
    then show "l \<in> (\<lambda>v. 2 * v) ` {1..aig_maxvar g}" by (rule image_eqI)
  qed
  then have "card (set ?N) \<le> card ((\<lambda>v. 2 * v) ` {1..aig_maxvar g})" by (rule card_mono [rotated]) simp
  also have "\<dots> \<le> aig_maxvar g" using card_image_le [of "{1..aig_maxvar g}" "\<lambda>v. 2 * v"] by simp
  finally show ?thesis using distinct_node_lits [OF ok] by (simp add: distinct_card) (simp add: node_lits_def)
qed

text \<open>Such a graph can be written in the binary format, but the header is not accepted.\<close>

lemma unused_rejected:
  assumes w: "writable g" and "aig_maxvar g \<noteq> length (aig_inputs g) + length (aig_latches g) + length (aig_ands g)"
  shows "\<exists>h e. aiger_read_generic d aiger_init (binary_text g @ rest) = Some h \<and> aig_error h = Some e"
proof -
  have z: "sizes_ok g" and ok: "types_ok g" using w by (simp_all add: writable_def aig_wf_def)
  let ?content = "binary_text g @ rest"
  have "?content = (if False then ''aag'' else ''aig'') @ counts_text g @ nodes_text True g @ concat (map gate_code (aig_ands g)) @ rest"
    by (simp add: binary_text_def)
  from header_counts [OF z this, of d]
  obtain r u r' where r: "read_magic d (new_reader ?content) aiger_init = parsed u r aiger_init"
    "read_counts d r aiger_init = parsed () r' aiger_init" "settled r' = with_counts g (blank False)" by blast
  have k: "\<not> rd_ascii r'" "rd_maxvar r' = aig_maxvar g" "rd_inputs r' = length (aig_inputs g)"
    "rd_latches r' = length (aig_latches g)" "rd_ands r' = length (aig_ands g)"
    using settled_sel [OF r(3)] by (simp_all add: with_counts_def blank_def)
  have "u32 (rd_inputs r' + rd_latches r' + rd_ands r') \<noteq> rd_maxvar r'"
    using assms(2) node_count [OF ok] z by (simp add: k sizes_ok_def u32_def)
  then have no: "\<not> rd_ascii r' \<and> u32 (rd_inputs r' + rd_latches r' + rd_ands r') \<noteq> rd_maxvar r'" using k by simp
  have e: "aig_error aiger_init = None" by (simp add: aiger_init_def)
  obtain h where h: "aiger_error_u d aiger_init ''line '' (rd_lineno r') '': invalid maximal variable index'' = Some h" "aig_error h \<noteq> None"
    using e by (auto simp: aiger_error_u_def)
  have "aiger_read_header d (new_reader ?content) aiger_init = Some (None, r', h)"
    unfolding aiger_read_header_def r(1,2) and_then_simps Let_def if_P [OF no] failing_def h(1) by simp
  then show ?thesis using h(2) by (auto simp: aiger_read_generic_def and_then_def e)
qed

section \<open>Writing a file in the binary format\<close>

lemma binary_graph:
  assumes w: "writable g" and one: "aig_outputs g @ aig_bad g \<noteq> []"
    and none: "aig_constraints g = []" "aig_justice g = []" "aig_fairness g = []"
  shows "\<exists>g1 h. assert_check d g = Some g1 \<and> aiger_reencode d g1 = Some h \<and> writable h \<and> same_meaning g h \<and>
    aiger_is_reencoded d h = Some True \<and>
    (aiger_is_reencoded d g = Some True \<longrightarrow> marks_only g h) \<and>
    (aiger_is_reencoded d g = Some False \<longrightarrow> in_sequence h)"
proof -
  obtain g1 where g1: "assert_check d g = Some g1" "marks_only g g1" "aig_wf g1" using assert_check_writable [OF w] by blast
  have w1: "writable g1" by (rule marks_only_writable [OF g1(2) w g1(3)])
  have e: "aig_error g = None" "aig_error g1 = None" using w w1 by (simp_all add: writable_def aig_wf_def)
  have one1: "aig_outputs g1 @ aig_bad g1 \<noteq> []" using one marks_only_sel(8,9) [OF g1(2)] by simp
  have none1: "aig_constraints g1 = []" "aig_justice g1 = []" "aig_fairness g1 = []"
    using none g1(2) by (cases g; cases g1; simp add: marks_only_def)+
  note same = marks_only_reencoded [OF g1(2), of d]
  have "\<exists>h. aiger_reencode d g1 = Some h \<and> writable h \<and> same_meaning g1 h \<and> aiger_is_reencoded d h = Some True \<and>
    (aiger_is_reencoded d g = Some True \<longrightarrow> marks_only g h) \<and> (aiger_is_reencoded d g = Some False \<longrightarrow> in_sequence h)"
  proof -
    have "types_ok g1" using g1(3) by (simp add: aig_wf_def)
    then obtain b where b: "aiger_is_reencoded d g1 = Some b" using is_reencoded_runs by blast
    show ?thesis
    proof (cases b)
      case True
      then have "aiger_reencode d g1 = Some g1" using b e by (simp add: aiger_reencode_def)
      then show ?thesis using w1 same_meaning_refl [of g1] g1(2) b True same by auto
    next
      case False
      then have b: "aiger_is_reencoded d g1 = Some False" using b by simp
      obtain L h k where h: "covered g1 L" "renumbered g1 L h" "aiger_is_reencoded d h = Some True" "same_meaning g1 h"
        "aiger_reencode d g1 = Some k" "marks_only h k" "\<forall>v. \<not> ty_onstack (typed k v)"
        using reencode_fresh [OF g1(3) one1 none1 b] by blast
      have wh: "writable h" "in_sequence h" by (rule renumbered_writable [OF w1 h(1,2)])+
      have "aig_wf k" using marks_only_wf [OF h(6) _ h(7)] wh(1) by (simp add: writable_def)
      then have "writable k" by (rule marks_only_writable [OF h(6) wh(1)])
      moreover have "in_sequence k" using wh(2) marks_only_sel(5-7,10) [OF h(6)] by (simp add: in_sequence_def)
      moreover have "same_meaning g1 k" by (rule same_meaning_trans [OF h(4) marks_only_meaning [OF h(6)]])
      ultimately show ?thesis using h(3,5) marks_only_reencoded [OF h(6)] b same by auto
    qed
  qed
  then show ?thesis using g1(1) same_meaning_trans [OF marks_only_meaning [OF g1(2)]] by blast
qed

text \<open>What is written in either format: a graph \<open>h\<close> and its text, wherever the characters go.\<close>

definition text_of :: "nat \<Rightarrow> aiger \<Rightarrow> string" where
  "text_of mode h = (if mode = aiger_ascii_mode then ascii_text h else binary_text h) @ extra_text h"

definition format_ok :: "nat \<Rightarrow> aiger \<Rightarrow> bool" where
  "format_ok mode g \<longleftrightarrow> mode = aiger_ascii_mode \<or>
     mode = aiger_binary_mode \<and> aig_outputs g @ aig_bad g \<noteq> [] \<and>
     aig_constraints g = [] \<and> aig_justice g = [] \<and> aig_fairness g = []"

lemma written_somewhere:
  assumes w: "writable g" and m: "format_ok mode g"
  shows "\<exists>h. aiger_write_generic d aiger_default_put g mode s1 =
      do { (ok, s) \<leftarrow> put_text aiger_default_put (text_of mode h) s1; Some (ok, h, s) } \<and>
    aiger_write_generic d aiger_string_put g mode s2 =
      do { (ok, s) \<leftarrow> put_text aiger_string_put (text_of mode h) s2; Some (ok, h, s) } \<and>
    (mode = aiger_ascii_mode \<longrightarrow> text_of mode h = ascii_text g @ extra_text g)"
proof -
  have e: "aig_error g = None" "all_names_ok g" using w by (simp_all add: writable_def aig_wf_def)
  show ?thesis
  proof (cases "mode = aiger_ascii_mode")
    case True
    obtain h where h: "assert_check d g = Some h" "marks_only g h" using assert_check_writable [OF w] by blast
    have n: "all_names_ok h" using e(2) marks_only_text(5) [OF h(2)] by simp
    have m: "mode = aiger_ascii_mode \<or> mode = aiger_binary_mode" using True by simp
    have t: "ascii_text h @ extra_text h = ascii_text g @ extra_text g"
      using marks_only_text [OF h(2)] by (simp add: extra_text_def)
    show ?thesis unfolding text_of_def if_P [OF True]
      by (intro exI [of _ h] conjI write_generic_text [OF e(1) m _ n] impI t)
        (simp_all add: True write_ascii_text [OF h(1)])
  next
    case False
    then have m: "mode = aiger_binary_mode" "aig_outputs g @ aig_bad g \<noteq> []" "aig_constraints g = []" "aig_justice g = []"
      "aig_fairness g = []" using m by (simp_all add: format_ok_def)
    obtain g1 h where h: "assert_check d g = Some g1" "aiger_reencode d g1 = Some h" "writable h" "aiger_is_reencoded d h = Some True"
      using binary_graph [OF w m(2-5)] by blast
    show ?thesis unfolding text_of_def if_not_P [OF False] unfolding m(1)
      by (intro exI [of _ h] conjI write_binary_generic [OF h e(1)])
        (simp add: aiger_ascii_mode_def aiger_binary_mode_def)
  qed
qed

lemma binary_written:
  assumes w: "writable g" and one: "aig_outputs g @ aig_bad g \<noteq> []"
    and none: "aig_constraints g = []" "aig_justice g = []" "aig_fairness g = []"
  shows "\<exists>h s. aiger_write_to_file d g aiger_binary_mode endless = Some (True, h, s) \<and>
    st_text s = binary_text h @ extra_text h \<and> writable h \<and> same_meaning g h \<and> aiger_is_reencoded d h = Some True \<and>
    (aiger_is_reencoded d g = Some True \<longrightarrow> marks_only g h) \<and>
    (aiger_is_reencoded d g = Some False \<longrightarrow> in_sequence h)"
proof -
  have e: "aig_error g = None" using w by (simp add: writable_def aig_wf_def)
  obtain g1 h where h: "assert_check d g = Some g1" "aiger_reencode d g1 = Some h" "writable h" "aiger_is_reencoded d h = Some True"
    "same_meaning g h" "aiger_is_reencoded d g = Some True \<longrightarrow> marks_only g h" "aiger_is_reencoded d g = Some False \<longrightarrow> in_sequence h"
    using binary_graph [OF assms] by blast
  have "aiger_write_to_file d g aiger_binary_mode endless =
      Some (True, h, \<lparr>st_text = binary_text h @ extra_text h, st_room = None\<rparr>)"
    using write_binary_generic [OF h(1-4) e, of aiger_default_put endless]
      default_put_text [of "binary_text h @ extra_text h" "[]"] e
    by (simp add: aiger_write_to_file_def endless_def)
  then show ?thesis using h(3-7) by auto
qed

end
