(* ===== verification/AigerTidy.thy ===== *)
theory AigerTidy
  imports AigerBinaryFile AigerAccept
begin

text \<open>
  A graph that the reader has accepted can be written: its symbols have only the fields of their kind, and names
  and comments fit on a line, whatever the file contained.
\<close>

section \<open>Parsers that keep a property of reader and graph\<close>

definition keeps :: "(aiger_reader \<Rightarrow> aiger \<Rightarrow> bool) \<Rightarrow> 'a parse \<Rightarrow> bool" where
  "keeps P m \<longleftrightarrow> (\<forall>x r g. m = Some (Some x, r, g) \<longrightarrow> P r g)"

lemma keeps_simps [simp]:
  "keeps P None" "keeps P (failing r e)" "keeps P (parsed x r g) = P r g" "keeps P (not_valid d lit what r g)"
  "keeps P (Some (None, r, g))" "keeps P (Some (Some x, r, g)) = P r g"
  by (auto simp: keeps_def failing_def parsed_def not_valid_def split: option.splits)

lemma keeps_and_then: "keeps P m \<Longrightarrow> (\<And>x r g. P r g \<Longrightarrow> keeps Q (f x r g)) \<Longrightarrow> keeps Q (and_then m f)"
  by (cases m) (auto simp: and_then_def keeps_def split: option.splits prod.splits)

lemma keeps_bind: "(\<And>x. m = Some x \<Longrightarrow> keeps P (k x)) \<Longrightarrow> keeps P (Option.bind m k)"
  by (cases m) auto

lemma keeps_if: "(b \<Longrightarrow> keeps P m) \<Longrightarrow> (\<not> b \<Longrightarrow> keeps P n) \<Longrightarrow> keeps P (if b then m else n)"
  by simp

section \<open>What is kept\<close>

definition tidy :: "aiger \<Rightarrow> bool" where
  "tidy g \<longleftrightarrow> fields_ok g \<and> all_names_ok g"

definition at_rest :: "aiger_reader \<Rightarrow> aiger \<Rightarrow> bool" where
  "at_rest r g \<longleftrightarrow> rd_buffer r = [] \<and> tidy g"

lemma next_ch_buffer [simp]: "rd_buffer (aiger_next_ch r) = rd_buffer r"
  by (simp add: aiger_next_ch_def Let_def)

lemma at_rest_next [simp]: "at_rest (aiger_next_ch r) g = at_rest r g"
  by (simp add: at_rest_def)

lemma at_rest_fields [simp]:
  "at_rest (r\<lparr>rd_ascii := b\<rparr>) g = at_rest r g" "at_rest (r\<lparr>rd_done_header := b\<rparr>) g = at_rest r g"
  "at_rest (r\<lparr>rd_looks_like_aag := b\<rparr>) g = at_rest r g" "at_rest (r\<lparr>rd_maxvar := n\<rparr>) g = at_rest r g"
  "at_rest (r\<lparr>rd_inputs := n\<rparr>) g = at_rest r g" "at_rest (r\<lparr>rd_latches := n\<rparr>) g = at_rest r g"
  "at_rest (r\<lparr>rd_outputs := n\<rparr>) g = at_rest r g" "at_rest (r\<lparr>rd_ands := n\<rparr>) g = at_rest r g"
  "at_rest (r\<lparr>rd_bad := n\<rparr>) g = at_rest r g" "at_rest (r\<lparr>rd_constraints := n\<rparr>) g = at_rest r g"
  "at_rest (r\<lparr>rd_justice := n\<rparr>) g = at_rest r g" "at_rest (r\<lparr>rd_fairness := n\<rparr>) g = at_rest r g"
  by (simp_all add: at_rest_def)

lemma number_from_buffer: "number_from n r = (m, r') \<Longrightarrow> rd_buffer r' = rd_buffer r"
proof (induction n r rule: number_from.induct)
  case (1 n r)
  from 1(2) show ?case
    by (subst (asm) number_from.simps) (use 1(1) in \<open>auto simp: Let_def split: if_splits\<close>)
qed

lemma keeps_literal: "at_rest r g \<Longrightarrow> keeps at_rest (aiger_read_literal d what expected r g)"
  unfolding aiger_read_literal_def aiger_read_number_def
  by (intro keeps_if keeps_bind) (auto simp: at_rest_def bind_eq_Some_conv dest: number_from_buffer split: prod.split intro!: keeps_if)

lemma keeps_delta: "at_rest r g \<Longrightarrow> keeps at_rest (delta_from d i res charno r g)"
proof (induction d i res charno r g rule: delta_from.induct)
  case (1 d i res charno r g)
  then show ?case
    by (subst delta_from.simps) (auto simp: Let_def intro!: keeps_if)
qed

lemma keeps_read_delta: "at_rest r g \<Longrightarrow> keeps at_rest (aiger_read_delta d r g)"
  by (simp add: aiger_read_delta_def keeps_delta)

lemma keeps_count: "at_rest r g \<Longrightarrow> (\<And>n r g. at_rest (upd n r) g = at_rest r g) \<Longrightarrow>
    keeps at_rest (read_count d what expected upd r g)"
  unfolding read_count_def by (rule keeps_and_then [OF keeps_literal]) auto

lemma keeps_optional: "at_rest r g \<Longrightarrow> (\<And>n r g. at_rest (upd n r) g = at_rest r g) \<Longrightarrow>
    keeps at_rest (read_optional d what expected upd ch r g)"
  by (simp add: read_optional_def keeps_count)

lemma keeps_counts: "at_rest r g \<Longrightarrow> keeps at_rest (read_counts d r g)"
  unfolding read_counts_def
  by (intro keeps_and_then [where P = at_rest] keeps_count keeps_optional) simp_all

lemma keeps_magic: "at_rest r g \<Longrightarrow> keeps at_rest (read_magic d r g)"
  by (simp add: read_magic_def Let_def)

lemma keeps_new_literal: "at_rest r g \<Longrightarrow> keeps at_rest (check_new_literal d what lit r g)"
  by (auto simp: check_new_literal_def aiger_already_defined_def Let_def intro!: keeps_bind keeps_if)

lemma keeps_numbers: "at_rest r g \<Longrightarrow> keeps at_rest (read_numbers d what n r g)"
proof (induction n arbitrary: r g)
  case (Suc n)
  show ?case
    unfolding read_numbers.simps
  proof (rule keeps_and_then [OF keeps_literal], rule Suc.prems, clarify)
    fix k ch r g assume "at_rest r g"
    then show "keeps at_rest (and_then (read_numbers d what n r g) (\<lambda>ks r g. parsed (k # ks) r g))"
      by (intro keeps_and_then [OF Suc.IH]) simp_all
  qed
qed simp

section \<open>Adding nodes\<close>

lemma names_ok_simps [simp]:
  "names_ok []" "names_ok (ss @ ts) = (names_ok ss \<and> names_ok ts)"
  by (auto simp: names_ok_def)

lemma new_symbol_tidy [simp]:
  "plain_symbol (named_symbol lit None)" "names_ok [named_symbol lit None]"
  "plain_symbol (zero_symbol\<lparr>sym_lit := lit, sym_name := aiger_copy_str None\<rparr>)"
  "names_ok [zero_symbol\<lparr>sym_lit := lit, sym_name := aiger_copy_str None\<rparr>]"
  "names_ok [zero_symbol\<lparr>sym_lit := lit, sym_next := nxt, sym_name := aiger_copy_str None\<rparr>]"
  "names_ok [zero_symbol\<lparr>sym_lits := lits, sym_name := aiger_copy_str None\<rparr>]"
  by (simp_all add: plain_symbol_def bare_def named_symbol_def zero_symbol_def aiger_copy_str_def names_ok_def)

lemma import_tidy [simp]: "tidy (aiger_import_literal g lit) = tidy g" "tidy (foldl aiger_import_literal g lits) = tidy g"
proof -
  show one: "tidy (aiger_import_literal g lit) = tidy g" for g lit
    by (simp add: tidy_def fields_ok_def all_names_ok_def aiger_import_literal_def Let_def)
  show "tidy (foldl aiger_import_literal g lits) = tidy g" by (induction lits arbitrary: g) (simp_all add: one)
qed

lemma add_symbol_tidy:
  "tidy g \<Longrightarrow> tidy (aiger_add_output g lit None)" "tidy g \<Longrightarrow> tidy (aiger_add_bad g lit None)"
  "tidy g \<Longrightarrow> tidy (aiger_add_constraint g lit None)" "tidy g \<Longrightarrow> tidy (aiger_add_fairness g lit None)"
  by (simp_all add: aiger_add_output_def aiger_add_bad_def aiger_add_constraint_def aiger_add_fairness_def
      aiger_import_literal_def Let_def tidy_def fields_ok_def all_names_ok_def)

lemma add_justice_tidy: "tidy g \<Longrightarrow> tidy (aiger_add_justice g lits None)"
proof -
  assume "tidy g"
  then have "tidy (foldl aiger_import_literal g lits)" by simp
  then show ?thesis
    by (simp add: aiger_add_justice_def Let_def tidy_def fields_ok_def all_names_ok_def)
      (simp add: bare_def zero_symbol_def aiger_copy_str_def)
qed

lemma add_input_tidy: "aiger_add_input d g lit None = Some h \<Longrightarrow> tidy g \<Longrightarrow> tidy h"
  by (auto simp: aiger_add_input_def set_type_def Let_def bind_eq_Some_conv aiger_import_literal_def tidy_def fields_ok_def
      all_names_ok_def)

lemma add_latch_tidy: "aiger_add_latch d g lit nxt None = Some h \<Longrightarrow> tidy g \<Longrightarrow> tidy h"
  by (auto simp: aiger_add_latch_def set_type_def Let_def bind_eq_Some_conv aiger_import_literal_def tidy_def fields_ok_def
      all_names_ok_def) (auto simp: zero_symbol_def)

lemma add_and_tidy: "aiger_add_and d g lhs rhs0 rhs1 = Some h \<Longrightarrow> tidy g \<Longrightarrow> tidy h"
  by (auto simp: aiger_add_and_def set_type_def Let_def bind_eq_Some_conv aiger_import_literal_def tidy_def fields_ok_def
      all_names_ok_def)

lemma update_tidy:
  assumes "i < length ss" and "p (ss ! i) \<Longrightarrow> p y" and "list_all p ss"
  shows "list_all p (ss[i := y])"
  using assms by (auto simp: list_all_iff dest!: set_update_subset_insert [THEN subsetD])

lemma names_ok_all: "names_ok ss = list_all (\<lambda>s. \<forall>name. sym_name s = Some name \<longrightarrow> name \<noteq> [] \<and> line_ok name) ss"
  by (simp add: names_ok_def list_all_iff)

lemma add_reset_tidy:
  assumes r: "aiger_add_reset d g lit reset = Some h" and "tidy g"
  shows "tidy h"
proof -
  let ?g = "aiger_import_literal g lit"
  obtain k where k: "k < length (aig_latches ?g)" "h = ?g\<lparr>aig_latches := (aig_latches ?g)[k := (aig_latches ?g ! k)\<lparr>sym_reset := reset\<rparr>]\<rparr>"
    using r by (auto simp: aiger_add_reset_def Let_def bind_eq_Some_conv vec_set_def vec_at_def split: if_splits)
  have t: "tidy ?g" using assms(2) by simp
  then have "list_all (\<lambda>s. sym_lits s = []) (aig_latches ?g)" "names_ok (aig_latches ?g)"
    by (simp_all only: tidy_def fields_ok_def all_names_ok_def)
  then have "list_all (\<lambda>s. sym_lits s = []) (aig_latches h)" "names_ok (aig_latches h)"
    unfolding names_ok_all k(2) aiger.select_convs aiger.update_convs
    by - (simp del: import_sel, rule update_tidy [OF k(1)], simp, assumption)+
  then show ?thesis using t by (simp add: k(2) tidy_def fields_ok_def all_names_ok_def)
qed

section \<open>The header and the gates\<close>

lemma read_inputs_tidy: "at_rest r g \<Longrightarrow> keeps at_rest (read_inputs d n i r g)"
proof (induction n arbitrary: i r g)
  case (Suc n)
  have "keeps at_rest (if rd_ascii r
        then and_then (aiger_read_literal d ''input literal'' (Some line_feed) r g) (\<lambda>(lit, ch) r g.
             and_then (check_new_literal d '' is not a valid input'' lit r g) (\<lambda>u r g. parsed lit r g))
        else parsed (2 * (i + 1)) r g)"
    using Suc.prems by (auto intro!: keeps_and_then [where P = at_rest] keeps_literal keeps_new_literal)
  then show ?case
    unfolding read_inputs.simps
  proof (rule keeps_and_then)
    fix lit r g assume g: "at_rest r g"
    show "keeps at_rest (do { g \<leftarrow> aiger_add_input d g lit None; read_inputs d n (i + 1) r g })"
      by (rule keeps_bind, rule Suc.IH) (use g add_input_tidy in \<open>auto simp: at_rest_def\<close>)
  qed
qed simp

lemma read_latches_tidy: "at_rest r g \<Longrightarrow> keeps at_rest (read_latches d n i r g)"
proof (induction n arbitrary: i r g)
  case (Suc n)
  have lit: "keeps at_rest (if rd_ascii r
        then and_then (aiger_read_literal d ''latch literal'' (Some CHR '' '') r g) (\<lambda>(lit, ch) r g.
             and_then (check_new_literal d '' is not a valid latch'' lit r g) (\<lambda>u r g. parsed lit r g))
        else parsed (2 * (i + rd_inputs r + 1)) r g)"
    using Suc.prems by (auto intro!: keeps_and_then [where P = at_rest] keeps_literal keeps_new_literal)
  show ?case
    unfolding read_latches.simps
  proof (rule keeps_and_then [OF lit], rule keeps_and_then [OF keeps_literal], assumption, clarify, rule keeps_if, simp)
    fix lit r nxt ch r' g' assume g: "at_rest r' g'"
    have reset: "keeps at_rest (if ch = Some CHR '' ''
          then and_then (aiger_read_literal d ''reset literal'' (Some line_feed) r' h) (\<lambda>(reset, ch) r g. do {
                 g \<leftarrow> aiger_add_reset d g lit reset;
                 parsed () r g })
          else parsed () r' h)" if "at_rest r' h" for h
      using that add_reset_tidy
      by (auto intro!: keeps_and_then [where P = at_rest] keeps_literal keeps_bind simp: at_rest_def)
    show "keeps at_rest (do {
       g \<leftarrow> aiger_add_latch d g' lit nxt None;
       and_then
         (if ch = Some CHR '' ''
          then and_then (aiger_read_literal d ''reset literal'' (Some line_feed) r' g) (\<lambda>(reset, ch) r g. do {
                 g \<leftarrow> aiger_add_reset d g lit reset;
                 parsed () r g })
          else parsed () r' g)
         (\<lambda>u r g. read_latches d n (i + 1) r g) })"
    proof (rule keeps_bind, rule keeps_and_then [OF reset])
      fix h assume "aiger_add_latch d g' lit nxt None = Some h"
      from add_latch_tidy [OF this] g show "at_rest r' h" by (simp add: at_rest_def)
    qed (rule Suc.IH)
  qed
qed simp

lemma read_symbols_tidy:
  "(\<And>g lit. tidy g \<Longrightarrow> tidy (add g lit None)) \<Longrightarrow> at_rest r g \<Longrightarrow> keeps at_rest (read_symbols d what complaint add n r g)"
proof (induction n arbitrary: r g)
  case (Suc n)
  show ?case
    unfolding read_symbols.simps
    by (rule keeps_and_then [OF keeps_literal], rule Suc.prems(2), clarify, rule keeps_if, simp, rule Suc.IH, rule Suc.prems(1))
      (use Suc.prems(1) in \<open>auto simp: at_rest_def\<close>)
qed simp

lemma read_justice_tidy: "at_rest r g \<Longrightarrow> keeps at_rest (read_justice d sizes r g)"
proof (induction sizes arbitrary: r g)
  case (Cons k sizes)
  show ?case
    unfolding read_justice.simps
    by (rule keeps_and_then [OF keeps_numbers], rule Cons.prems, rule Cons.IH)
      (use add_justice_tidy in \<open>auto simp: at_rest_def\<close>)
qed simp

lemma read_header_tidy:
  assumes "at_rest r aiger_init"
  shows "keeps at_rest (aiger_read_header d r aiger_init)"
  unfolding aiger_read_header_def
proof (rule keeps_and_then [OF keeps_magic], rule assms, rule keeps_and_then [OF keeps_counts], assumption, rule keeps_if, simp)
  fix u u' :: unit and r r' :: aiger_reader and g assume g: "at_rest r' g"
  have h: "at_rest r' (g\<lparr>aig_maxvar := rd_maxvar r', aig_types := fit_types (u32 (rd_maxvar r' + 1)) (aig_types g)\<rparr>)"
    using g by (simp add: at_rest_def tidy_def fields_ok_def all_names_ok_def)
  show "keeps at_rest (let g = g\<lparr>aig_maxvar := rd_maxvar r', aig_types := fit_types (u32 (rd_maxvar r' + 1)) (aig_types g)\<rparr> in
     and_then (read_inputs d (rd_inputs r') 0 r' g) (\<lambda>u r g.
     and_then (read_latches d (rd_latches r) 0 r g) (\<lambda>u r g.
     and_then (read_symbols d ''output literal'' '' is not a valid output'' aiger_add_output
       (rd_outputs r) r g) (\<lambda>u r g.
     and_then (read_symbols d ''bad state constraint literal'' '' is not valid bad'' aiger_add_bad
       (rd_bad r) r g) (\<lambda>u r g.
     and_then (read_symbols d ''invariant constraint literal'' '' is not a valid constraint'' aiger_add_constraint
       (rd_constraints r) r g) (\<lambda>u r g.
     and_then (read_numbers d ''justice constraint size'' (rd_justice r) r g) (\<lambda>sizes r g.
     and_then (read_justice d sizes r g) (\<lambda>u r g.
     and_then (read_symbols d ''fairness constraint literal'' '' is not valid fairness'' aiger_add_fairness
       (rd_fairness r) r g) (\<lambda>u r g.
     parsed () (r\<lparr>rd_done_header := True, rd_looks_like_aag := True\<rparr>) g)))))))))"
    unfolding Let_def
    by (intro keeps_and_then [where P = at_rest] read_inputs_tidy read_latches_tidy read_symbols_tidy keeps_numbers
        read_justice_tidy add_symbol_tidy h) simp_all
qed

lemma read_ascii_tidy: "at_rest r g \<Longrightarrow> keeps at_rest (read_ascii_gates d n r g)"
proof (induction n arbitrary: r g)
  case (Suc n)
  show ?case
    unfolding read_ascii_gates.simps
    by (rule keeps_and_then [OF keeps_literal], rule Suc.prems, clarify,
        rule keeps_and_then [OF keeps_new_literal], assumption,
        rule keeps_and_then [OF keeps_literal], assumption, clarify, rule keeps_if, simp,
        rule keeps_and_then [OF keeps_literal], assumption, clarify, rule keeps_if, simp,
        rule keeps_bind, rule Suc.IH) (use add_and_tidy in \<open>auto simp: at_rest_def\<close>)
qed simp

lemma read_binary_tidy: "at_rest r g \<Longrightarrow> keeps at_rest (read_binary_gates d n lhs r g)"
proof (induction n arbitrary: lhs r g)
  case (Suc n)
  show ?case
    unfolding read_binary_gates.simps Let_def
    by (rule keeps_and_then [OF keeps_read_delta], rule Suc.prems, rule keeps_if, simp,
        rule keeps_and_then [OF keeps_read_delta], assumption, rule keeps_if, simp,
        rule keeps_bind, rule Suc.IH) (use add_and_tidy in \<open>auto simp: at_rest_def\<close>)
qed simp

section \<open>Names and comments\<close>

text \<open>A buffer that holds a part of a line.\<close>

lemma push_line_buffer: "line_feed \<notin> set (rd_buffer r) \<Longrightarrow> line_feed \<notin> set (rd_buffer (push_line r))"
proof (induction r rule: push_line.induct)
  case (1 r)
  show ?case
  proof (cases "rd_ch r = Some line_feed \<or> rd_ch r = None")
    case True
    then show ?thesis using 1(2) by (subst push_line.simps) simp
  next
    case False
    then have "line_feed \<notin> set (rd_buffer (aiger_next_ch (aiger_reader_push_ch r (rd_ch r))))"
      using 1(2) by (auto simp: aiger_reader_push_ch_def split: option.split)
    then show ?thesis using 1(1) [OF False] False by (subst push_line.simps) auto
  qed
qed

lemma c_string_ok: "line_feed \<notin> set s \<Longrightarrow> line_ok (c_string s)"
  by (auto simp: line_ok_def c_string_def dest: set_takeWhileD)

lemma copied_name_ok: "line_feed \<notin> set s \<Longrightarrow> aiger_copy_str (Some (c_string s)) = Some name \<Longrightarrow> name \<noteq> [] \<and> line_ok name"
  using c_string_ok by (auto simp: aiger_copy_str_def split: if_splits)

lemma rename_tidy:
  assumes "symbol_kind ch = Some (nm, sel, upd)" and "tidy g" and "vec_at (sel g) pos = Some s"
    and "\<forall>n. name = Some n \<longrightarrow> n \<noteq> [] \<and> line_ok n"
  shows "tidy (upd (\<lambda>ss. ss[pos := s\<lparr>sym_name := name\<rparr>]) g)"
proof -
  have p: "pos < length (sel g)" "s = sel g ! pos" using assms(3) by (auto simp: vec_at_def split: if_splits)
  have one: "list_all plain_symbol ss \<Longrightarrow> list_all plain_symbol (ss[pos := (ss ! pos)\<lparr>sym_name := name\<rparr>])"
    "list_all (\<lambda>s. sym_lits s = []) ss \<Longrightarrow> list_all (\<lambda>s. sym_lits s = []) (ss[pos := (ss ! pos)\<lparr>sym_name := name\<rparr>])"
    "list_all (\<lambda>s. bare s = zero_symbol\<lparr>sym_lits := sym_lits s\<rparr>) ss \<Longrightarrow>
      list_all (\<lambda>s. bare s = zero_symbol\<lparr>sym_lits := sym_lits s\<rparr>) (ss[pos := (ss ! pos)\<lparr>sym_name := name\<rparr>])"
    "names_ok ss \<Longrightarrow> names_ok (ss[pos := (ss ! pos)\<lparr>sym_name := name\<rparr>])" if "pos < length ss" for ss
    unfolding names_ok_all
    by (rule update_tidy [OF that, rotated], assumption, simp add: plain_symbol_def bare_def assms(4))+
  show ?thesis
    using assms(1,2) p unfolding tidy_def fields_ok_def all_names_ok_def
    by (auto simp: symbol_kind_def one split: if_splits)
qed

lemma read_symbol_tidy:
  assumes "symbol_kind ch = Some (nm, sel, upd)" and "at_rest r g"
  shows "keeps at_rest (read_symbol d nm sel upd r g)"
  unfolding read_symbol_def
proof (rule keeps_and_then [OF keeps_literal], rule assms(2), clarify, rule keeps_if, simp,
    rule keeps_bind, rule keeps_if, simp, unfold Let_def, rule keeps_if, simp)
  fix r g pos ch' s assume g: "at_rest r g" and s: "vec_at (sel g) pos = Some s"
  then have "line_feed \<notin> set (rd_buffer (push_line r))" by (intro push_line_buffer) (simp add: at_rest_def)
  then have "\<forall>n. aiger_copy_str (Some (c_string (rd_buffer (aiger_next_ch (push_line r))))) = Some n \<longrightarrow> n \<noteq> [] \<and> line_ok n"
    using copied_name_ok by simp
  from rename_tidy [OF assms(1) _ s this] g
  show "keeps at_rest (parsed () ((aiger_next_ch (push_line r))\<lparr>rd_buffer := []\<rparr>)
      (upd (\<lambda>ss. ss[pos := s\<lparr>sym_name := aiger_copy_str (Some (c_string (rd_buffer (aiger_next_ch (push_line r)))))\<rparr>]) g))"
    by (simp add: at_rest_def)
qed

lemma add_comment_tidy:
  assumes "aiger_add_comment d g c = Some h" and "tidy g" and "line_ok c"
  shows "tidy h"
proof -
  let ?cs = "(aig_comments g)[length (aig_comments g) - 1 := aiger_copy_str (Some c)]"
  have h: "h = g\<lparr>aig_comments := ?cs @ [None]\<rparr>"
    using assms(1) by (auto simp: aiger_add_comment_def bind_eq_Some_conv vec_set_def split: if_splits)
  have "c' \<noteq> [] \<and> line_ok c'" if "Some c' \<in> set (aig_comments h)" for c'
  proof -
    have "Some c' \<in> set (aig_comments g) \<or> aiger_copy_str (Some c) = Some c'"
      using that by (auto simp: h dest!: set_update_subset_insert [THEN subsetD])
    then show ?thesis using assms(2,3) by (auto simp: tidy_def all_names_ok_def aiger_copy_str_def split: if_splits)
  qed
  then show ?thesis using assms(2) by (simp add: h tidy_def fields_ok_def all_names_ok_def)
qed

lemma comments_tidy: "comments_from d r g = Some y \<Longrightarrow> at_rest r g \<longrightarrow> keeps at_rest (Some y)"
proof (induction d r g y rule: comments_from.raw_induct [rotated, consumes 1, case_names step])
  case 1: (step rec d r g y)
  have "keeps at_rest (if rd_ch r = None then Some (Some (), r, g)
      else do {
        let r = push_line r;
        if rd_ch r = None
        then failing r (aiger_error_u d g ''line '' (rd_lineno r) '': new line after comment missing'')
        else do {
          let r = aiger_next_ch r;
          g \<leftarrow> aiger_add_comment d g (c_string (rd_buffer r));
          rec d (r\<lparr>rd_buffer := []\<rparr>) g } })" if g: "at_rest r g"
  proof -
    have "keeps at_rest (rec d r h)" if "at_rest r h" for r h
    proof (cases "rec d r h")
      case (Some y)
      show ?thesis using 1(1) [OF Some] that unfolding Some by blast
    qed simp
    moreover have "line_ok (c_string (rd_buffer (push_line r)))"
      using g by (intro c_string_ok push_line_buffer) (simp add: at_rest_def)
    moreover have "tidy g" using g by (simp add: at_rest_def)
    ultimately show ?thesis
      unfolding Let_def by (intro keeps_if keeps_bind) (use g add_comment_tidy in \<open>auto simp: at_rest_def\<close>)
  qed
  then show ?case using 1(2) by simp
qed

lemma read_comments_tidy: "at_rest r g \<Longrightarrow> keeps at_rest (aiger_read_comments d r g)"
  unfolding aiger_read_comments_def
  by (rule keeps_bind) (use comments_tidy in \<open>force simp: keeps_def\<close>)

lemma symbols_tidy: "symbols_from d r g = Some y \<Longrightarrow> at_rest r g \<longrightarrow> keeps at_rest (Some y)"
proof (induction d r g y rule: symbols_from.raw_induct [rotated, consumes 1, case_names step])
  case 1: (step rec d r g y)
  have rec: "keeps at_rest (rec d r h)" if "at_rest r h" for r h
  proof (cases "rec d r h")
    case (Some y)
    show ?thesis using 1(1) [OF Some] that unfolding Some by blast
  qed simp
  have step: "keeps at_rest (do {
      (v, r, g) \<leftarrow> read_symbol d nm sel upd r' g;
      if v = None then Some (None, r, g) else rec d r g })"
    if "symbol_kind (rd_ch r) = Some (nm, sel, upd)" "at_rest r' g" for nm sel upd r'
    using read_symbol_tidy [OF that, of d] rec
    by (cases "read_symbol d nm sel upd r' g") (auto split: option.splits if_splits)
  show ?case
  proof
    assume g: "at_rest r g"
    have n: "at_rest (aiger_next_ch r) g" using g by simp
    show "keeps at_rest (Some y)"
      unfolding 1(2) [symmetric] Let_def
      using step read_comments_tidy [OF n] g
      by (auto split: option.split prod.split intro!: keeps_if)
  qed
qed

section \<open>The reader\<close>

lemma reader_tidy:
  assumes "and_then (aiger_read_header d (new_reader content) aiger_init) (\<lambda>u r g.
       and_then (if rd_ascii r then aiger_read_ascii d r g else aiger_read_binary d r g) (\<lambda>u r g.
       aiger_read_symbols_and_comments d r g)) = Some (Some u, r, g)"
  shows "tidy g"
proof -
  have "at_rest (new_reader content) aiger_init"
    by (simp add: at_rest_def new_reader_def aiger_init_def tidy_def fields_ok_def all_names_ok_def)
  then have "keeps at_rest (and_then (aiger_read_header d (new_reader content) aiger_init) (\<lambda>u r g.
       and_then (if rd_ascii r then aiger_read_ascii d r g else aiger_read_binary d r g) (\<lambda>u r g.
       aiger_read_symbols_and_comments d r g)))"
  proof (rule keeps_and_then [OF read_header_tidy])
    fix u :: unit and r g assume g: "at_rest r g"
    have "keeps at_rest (if rd_ascii r then aiger_read_ascii d r g else aiger_read_binary d r g)"
      using g by (auto simp: aiger_read_ascii_def aiger_read_binary_def read_ascii_tidy read_binary_tidy intro!: keeps_bind)
    then show "keeps at_rest (and_then (if rd_ascii r then aiger_read_ascii d r g else aiger_read_binary d r g)
        (\<lambda>u r g. aiger_read_symbols_and_comments d r g))"
    proof (rule keeps_and_then)
      fix u :: unit and r g assume "at_rest r g"
      then show "keeps at_rest (aiger_read_symbols_and_comments d r g)"
        using symbols_tidy [of d r g] unfolding aiger_read_symbols_and_comments_def
        by (cases "symbols_from d r g") auto
    qed
  qed
  then show ?thesis using assms by (simp add: keeps_def at_rest_def)
qed

lemma marks_only_tidy: "marks_only g h \<Longrightarrow> tidy h = tidy g"
  by (cases g; cases h) (simp add: marks_only_def tidy_def fields_ok_def all_names_ok_def)

lemma accepted_writable:
  assumes run: "aiger_read_generic True aiger_init content = Some g" and e: "aig_error g = None" and z: "sizes_ok g"
  shows "writable g"
proof -
  have small: "aig_maxvar g < 4294967295" using z by (simp add: sizes_ok_def)
  have wf: "aig_wf g" by (rule reader_sound [OF run e small])
  obtain v r g1 where y: "and_then (aiger_read_header True (new_reader content) aiger_init) (\<lambda>u r g.
       and_then (if rd_ascii r then aiger_read_ascii True r g else aiger_read_binary True r g) (\<lambda>u r g.
       aiger_read_symbols_and_comments True r g)) = Some (v, r, g1)"
    and c: "(if v = None then Some g1 else aiger_check True g1) = Some g"
    using run by (auto simp: aiger_read_generic_def bind_eq_Some_conv)
  have good: "if v = None then aig_error g1 \<noteq> None else good g1"
    using reader_yields_good [of content] y by (auto simp: yields_def split: if_splits)
  then have v: "v \<noteq> None" "good g1" using c e by (auto split: if_splits)
  then have ck: "aiger_check True g1 = Some g" using c by simp
  note p = check_passed [OF ck e]
  have "aig_maxvar g1 = aig_maxvar g" using check_cycles_maxvar [OF p(2)] by simp
  then have g1: "types_ok g1" "unmarked g1" using v(2) small by (simp_all add: good_def)
  note m = check_cycles_acyclic(1) [OF p(2) e g1]
  have "tidy g1" using reader_tidy [of True content] y v(1) by auto
  then have "tidy g" using marks_only_tidy [OF m] by simp
  moreover have "lits_closed g"
  proof -
    have "lits_closed g1" using p(3,4) by (simp add: lits_closed_def)
    moreover have "aig_constraints g = aig_constraints g1" "aig_justice g = aig_justice g1" "aig_fairness g = aig_fairness g1"
      using m by (cases g; cases g1; simp add: marks_only_def)+
    ultimately show ?thesis
      by (simp add: lits_closed_def lit_defined_def defined_var_def marks_only_sel [OF m])
  qed
  ultimately show ?thesis using wf z by (simp add: writable_def tidy_def)
qed

end
