(* ===== verification/WriterProperties.thy ===== *)
theory WriterProperties
  imports AigerTidy AigerExamples
begin

text \<open>What the writer of the AIGER library guarantees: what it writes is read back.\<close>

section \<open>Witness material\<close>

lemma crossed_writable: "writable crossed_graph"
  by (rule accepted_writable [OF read_crossed]) (simp_all add: crossed_graph_def sizes_ok_def)

section \<open>Files\<close>

text \<open>C16. (roundtrip) Reading, writing and reading again changes nothing: a graph that the reader of a build with
  assertions has accepted, from whatever file, is written in the ASCII format, and what is written is read back
  to that graph: its nodes and gates with their literals and reset values, its constraints, justice and
  fairness properties, and its names, by either kind of build. The comments end before the first empty one:
  the library stores it as a null pointer, which is also what ends the array, so that the writer stops there.
  The table of types may differ in its marks and its capacity. The maximal variable has to be below \<open>2 ^ 31\<close>,
  where literals are 32-bit numbers.\<close>

theorem accepted_rewritten:
  assumes "aiger_read_generic True aiger_init content = Some g" and "aig_error g = None" and "sizes_ok g"
  shows "\<exists>h s ts. aiger_write_to_file d g aiger_ascii_mode endless = Some (True, h, s) \<and>
    aiger_read_generic e aiger_init (st_text s) =
      Some (g\<lparr>aig_comments := map Some (until_null (aig_comments g)) @ [None], aig_types := ts\<rparr>)"
proof -
  have w: "writable g" by (rule accepted_writable [OF assms])
  obtain h where h: "aiger_write_to_file d g aiger_ascii_mode endless =
      Some (True, h, \<lparr>st_text = ascii_text g @ extra_text g, st_room = None\<rparr>)"
    using write_ascii_file [OF w] by blast
  obtain ts where ts: "aiger_read_generic e aiger_init (ascii_text g @ extra_text g) = Some ((reread g)\<lparr>aig_types := ts\<rparr>)"
    using written_reads [OF w, of True e] by auto
  show ?thesis by (intro exI conjI, rule h) (use ts in \<open>simp add: reread_def\<close>)
qed

theorem accepted_rewritten_witness:
  "\<exists>h s ts. aiger_write_to_file False crossed_graph aiger_ascii_mode endless = Some (True, h, s) \<and>
    aiger_read_generic True aiger_init (st_text s) = Some (crossed_graph\<lparr>aig_comments := [None], aig_types := ts\<rparr>)"
proof -
  have "sizes_ok crossed_graph" by (simp add: crossed_graph_def sizes_ok_def)
  moreover have "aig_comments crossed_graph = [None]" by (simp add: crossed_graph_def)
  ultimately show ?thesis using accepted_rewritten [OF read_crossed, of False True] by auto
qed

text \<open>C17. (roundtrip) Writing a graph with an output or a bad state, and without the properties the builder
  rejects, in the binary format succeeds. What is written is a graph of the same meaning; it is the graph
  itself, up to marks, if that is in the order of the binary format, and otherwise it has been renumbered.
  Reading gives the graph that was written, with its comments up to the first empty one, except when the original was in order with a maximal
  variable beyond its last gate: then the file that was written is rejected by the reader, because
  \<open>aiger_is_reencoded\<close> does not look at the maximal variable and the reader does.
\<close>

theorem binary_roundtrip:
  assumes "writable g" and "aig_outputs g @ aig_bad g \<noteq> []"
    and "aig_constraints g = []" and "aig_justice g = []" and "aig_fairness g = []"
  shows "\<exists>h s k. aiger_write_to_file d g aiger_binary_mode endless = Some (True, h, s) \<and> same_meaning g h \<and>
    (aiger_is_reencoded d g = Some True \<longrightarrow> marks_only g h) \<and>
    aiger_read_generic d aiger_init (st_text s) = Some k \<and>
    (if aiger_is_reencoded d g = Some True \<and>
        aig_maxvar g \<noteq> length (aig_inputs g) + length (aig_latches g) + length (aig_ands g)
     then aig_error k \<noteq> None
     else k = h\<lparr>aig_comments := map Some (until_null (aig_comments h)) @ [None], aig_types := aig_types k\<rparr> \<and> aig_wf k)"
proof -
  obtain h s where h: "aiger_write_to_file d g aiger_binary_mode endless = Some (True, h, s)"
    "st_text s = binary_text h @ extra_text h" "writable h" "same_meaning g h" "aiger_is_reencoded d h = Some True"
    "aiger_is_reencoded d g = Some True \<longrightarrow> marks_only g h" "aiger_is_reencoded d g = Some False \<longrightarrow> in_sequence h"
    using binary_written [OF assms] by blast
  have "types_ok g" using assms(1) by (simp add: writable_def aig_wf_def)
  then obtain b where b: "aiger_is_reencoded d g = Some b" using is_reencoded_runs by blast
  let ?odd = "aiger_is_reencoded d g = Some True \<and>
      aig_maxvar g \<noteq> length (aig_inputs g) + length (aig_latches g) + length (aig_ands g)"
  show ?thesis
  proof (cases ?odd)
    case True
    then have "aig_maxvar h \<noteq> length (aig_inputs h) + length (aig_latches h) + length (aig_ands h)"
      using h(6) marks_only_sel(5-7,10) [of g h] by simp
    from unused_rejected [OF h(3) this] show ?thesis using h(1,2,4,6) True by fastforce
  next
    case False
    have "in_sequence h"
    proof (cases b)
      case True
      then have "in_sequence g" using False b by (intro reencoded_sequence) simp_all
      then show ?thesis using True b h(6) marks_only_sel(5-7,10) [of g h] by (simp add: in_sequence_def)
    qed (use b h(7) in simp)
    then obtain ts where ts: "aiger_read_generic d aiger_init (binary_text h @ extra_text h) = Some ((reread h)\<lparr>aig_types := ts\<rparr>)"
      "aig_wf ((reread h)\<lparr>aig_types := ts\<rparr>)" using written_reads [OF h(3), of False d] h(5) by auto
    show ?thesis unfolding if_not_P [OF False]
      by (intro exI conjI, rule h(1), rule h(4), rule h(6)) (use ts h(2) in \<open>simp_all add: reread_def\<close>)
  qed
qed

theorem binary_roundtrip_witness:
  "\<exists>h s k. aiger_write_to_file False crossed_graph aiger_binary_mode endless = Some (True, h, s) \<and>
    same_meaning crossed_graph h \<and> aiger_read_generic False aiger_init (st_text s) = Some k \<and> aig_latches k = aig_latches h \<and> aig_wf k"
proof -
  obtain h s k where k: "aiger_write_to_file False crossed_graph aiger_binary_mode endless = Some (True, h, s)"
    "same_meaning crossed_graph h" "aiger_read_generic False aiger_init (st_text s) = Some k"
    "k = h\<lparr>aig_comments := map Some (until_null (aig_comments h)) @ [None], aig_types := aig_types k\<rparr>" "aig_wf k"
    using binary_roundtrip [OF crossed_writable, of False] by (auto simp: crossed_order)
  have "aig_latches k = aig_latches h" by (subst k(4)) simp
  then show ?thesis using k by blast
qed

section \<open>Strings\<close>

text \<open>C18. (error) Writing to a string writes what writing to a file writes, and a \<open>0\<close>, if it succeeds. It succeeds
  exactly if that fits into the memory and there is no character \<open>0xff\<close> in it: that one looks like the end of
  the file to the writer. In the ASCII format it can be in a name only, in the binary format a difference of
  literals can have it. What has been written in the ASCII format is read back from the string as from a file.
\<close>

theorem string_write_exact:
  assumes "writable g" and "format_ok mode g"
  shows "\<exists>h s ok b. aiger_write_to_file d g mode endless = Some (True, h, s) \<and>
    aiger_write_to_string d g mode len = Some (ok, h, b) \<and>
    (ok \<longleftrightarrow> length (st_text s) < len \<and> CHR 0xFF \<notin> set (st_text s)) \<and> (ok \<longrightarrow> b = st_text s @ [CHR 0x00]) \<and>
    (ok \<and> mode = aiger_ascii_mode \<longrightarrow> (\<exists>ts. aiger_read_from_string e aiger_init b =
      Some (g\<lparr>aig_comments := map Some (until_null (aig_comments g)) @ [None], aig_types := ts\<rparr>)))"
proof -
  have e: "aig_error g = None" using assms(1) by (simp add: writable_def aig_wf_def)
  let ?s = "\<lparr>buf_text = [], buf_room = len\<rparr>"
  obtain h where h: "aiger_write_generic d aiger_default_put g mode endless =
      do { (ok, s) \<leftarrow> put_text aiger_default_put (text_of mode h) endless; Some (ok, h, s) }"
    "aiger_write_generic d aiger_string_put g mode ?s =
      do { (ok, s) \<leftarrow> put_text aiger_string_put (text_of mode h) ?s; Some (ok, h, s) }"
    "mode = aiger_ascii_mode \<longrightarrow> text_of mode h = ascii_text g @ extra_text g"
    using written_somewhere [OF assms] by blast
  let ?t = "text_of mode h"
  have stored: "aiger_write_to_file d g mode endless = Some (True, h, \<lparr>st_text = ?t, st_room = None\<rparr>)"
    using h(1) e default_put_text [of ?t "[]"] by (simp add: aiger_write_to_file_def endless_def)
  obtain b where b: "put_text aiger_string_put ?t ?s = Some (length ?t \<le> len \<and> CHR 0xFF \<notin> set ?t, b)"
    "length ?t \<le> len \<and> CHR 0xFF \<notin> set ?t \<longrightarrow> b = \<lparr>buf_text = ?t, buf_room = len - length ?t\<rparr>"
    using string_put_text [of ?t "[]" len] by auto
  show ?thesis
  proof (cases "length ?t \<le> len \<and> CHR 0xFF \<notin> set ?t")
    case True
    then have "aiger_write_to_string d g mode len =
        (if len = length ?t then Some (False, h, ?t) else Some (True, h, ?t @ [CHR 0x00]))"
      using e h(2) b by (simp add: aiger_write_to_string_def aiger_string_put_def)
    moreover have "\<exists>ts. aiger_read_from_string e aiger_init (?t @ [CHR 0x00]) = Some ((reread g)\<lparr>aig_types := ts\<rparr>)"
      if m: "mode = aiger_ascii_mode"
    proof -
      have t: "?t = ascii_text g @ extra_text g" using h(3) m by blast
      have "all_names_ok g" using assms(1) by (simp add: writable_def)
      then have "CHR 0x00 \<notin> set ?t" unfolding t by (rule ascii_no_nul)
      then have "string_get_all (length (?t @ [CHR 0x00])) (?t @ [CHR 0x00]) = ascii_text g @ extra_text g"
        using string_get_text [of ?t "length (?t @ [CHR 0x00])"] True t by simp
      then show ?thesis
        using written_reads [OF assms(1), of True e] by (auto simp: aiger_read_from_string_def aiger_init_def assert_that_holds)
    qed
    ultimately show ?thesis using stored True by (auto simp: reread_def)
  next
    case False
    then have "aiger_write_to_string d g mode len = Some (False, h, buf_text b)"
      using e h(2) b(1) by (simp add: aiger_write_to_string_def)
    then show ?thesis using stored False by auto
  qed
qed

theorem string_write_exact_witness:
  "\<exists>h s ok b. aiger_write_to_file True crossed_graph aiger_binary_mode endless = Some (True, h, s) \<and>
    aiger_write_to_string True crossed_graph aiger_binary_mode 64 = Some (ok, h, b) \<and>
    (ok \<longleftrightarrow> length (st_text s) < 64 \<and> CHR 0xFF \<notin> set (st_text s))"
proof -
  have "format_ok aiger_binary_mode crossed_graph" by (simp add: format_ok_def)
  then show ?thesis using string_write_exact [OF crossed_writable, of aiger_binary_mode True 64 False] by blast
qed

end
