(* ===== verification/Car.thy ===== *)
theory Car
  imports Solver Engine Options
begin

text \<open>
  \<^verbatim>\<open>src/engine/car.hpp\<close> and \<^verbatim>\<open>src/engine/car.cpp\<close>: complementary approximate reachability, forward and
  backward, one definition per member function. The object is the record \<open>car\<close>; \<open>_system\<close> is an
  argument, the shared variable store is the field \<open>car_store\<close>. Functions that read the solver,
  index a vector or assert are partial (\<open>None\<close>); the loops that may not end are
  \<^theory_text>\<open>partial_function (option)\<close>. Levels, \<open>int\<close>s that the code asserts to be non-negative, are
  natural numbers; \<open>depth\<close> and \<open>codepth\<close>, the sizes minus one, are only used when the trace and
  the cotrace are not empty, which \<open>car_initialize\<close> establishes. The lines that are logged are
  strings; that they are printed or not is the logger's business.
\<close>

section \<open>The cotrace pool\<close>

type_synonym bad_cube_handle = nat

record bad_cube =
  bc_state_vars :: cube
  bc_input_vars :: cube
  bc_successor :: "bad_cube_handle option"

record cotrace_pool =
  ct_entries :: "bad_cube list"

definition cotrace_make ::
  "cotrace_pool \<Rightarrow> cube \<Rightarrow> cube \<Rightarrow> bad_cube_handle option \<Rightarrow> bad_cube_handle \<times> cotrace_pool" where
  "cotrace_make p s i succ =
     (let entries = ct_entries p @ [\<lparr>bc_state_vars = s, bc_input_vars = i, bc_successor = succ\<rparr>]
      in (length entries - 1, p\<lparr>ct_entries := entries\<rparr>))"

definition cotrace_get :: "bool \<Rightarrow> cotrace_pool \<Rightarrow> bad_cube_handle \<Rightarrow> bad_cube option" where
  "cotrace_get d p h = do {
     assert_that d (h < length (ct_entries p));
     vec_at (ct_entries p) h }"

section \<open>Proof obligations\<close>

datatype car_obligation =
  Car_obligation (co_level: nat) (co_colevel: nat) (co_handle: bad_cube_handle)

text \<open>The defaulted comparison: by level, then by colevel, then by handle.\<close>

definition obligation_le :: "car_obligation \<Rightarrow> car_obligation \<Rightarrow> bool" where
  "obligation_le a b \<longleftrightarrow>
     co_level a < co_level b \<or>
     (co_level a = co_level b \<and>
      (co_colevel a < co_colevel b \<or> (co_colevel a = co_colevel b \<and> co_handle a \<le> co_handle b)))"

instantiation car_obligation :: linorder
begin

definition less_eq_car_obligation :: "car_obligation \<Rightarrow> car_obligation \<Rightarrow> bool" where
  "less_eq_car_obligation a b \<longleftrightarrow> obligation_le a b"

definition less_car_obligation :: "car_obligation \<Rightarrow> car_obligation \<Rightarrow> bool" where
  "less_car_obligation a b \<longleftrightarrow> obligation_le a b \<and> a \<noteq> b"

instance
  by standard
    (auto simp: less_eq_car_obligation_def less_car_obligation_def obligation_le_def
       intro: car_obligation.expand)

end

text \<open>As for PDR, a sorted list is the priority queue with the least obligation on top.\<close>

type_synonym car_queue = "car_obligation list"

definition car_push :: "car_obligation \<Rightarrow> car_queue \<Rightarrow> car_queue" where
  "car_push po q = insort po q"

section \<open>The engine object\<close>

record car_options =
  opt_propagate_cores :: bool
  opt_repush_blocked :: bool
  opt_muc_blocked :: bool
  opt_muc_predecessor :: bool

definition car_options_of :: "options \<Rightarrow> car_options" where
  "car_options_of opts =
     \<lparr>opt_propagate_cores = (\<not> has_opt opts ''--no-propagate-cores''),
      opt_repush_blocked = has_opt opts ''--repush'',
      opt_muc_blocked = (\<not> has_opt opts ''--no-blocked-muc''),
      opt_muc_predecessor = (\<not> has_opt opts ''--no-predecessor-muc'')\<rparr>"

record car =
  car_opts :: car_options
  car_store :: variable_store
  car_solver :: solver
  car_transition_activator :: literal
  car_error_activator :: literal
  car_activated_init :: cnf_formula
  car_activated_trans :: cnf_formula
  car_activated_error :: cnf_formula
  init_negated :: cnf_formula
  car_blocked_cubes :: "cube list list"
  car_activators :: "literal list"
  found_cubes :: "bad_cube_handle list list"
  car_queries :: nat
  car_forward :: bool
  cotrace :: cotrace_pool

definition car_refresh_rate :: nat where
  "car_refresh_rate = 5000000"

definition car_new :: "options \<Rightarrow> variable_store \<Rightarrow> bool \<Rightarrow> car" where
  "car_new opts store forward =
     (let (act_t, store1) = store_make store ''ActT'';
          (act_e, store2) = store_make store1 ''ActE''
      in \<lparr>car_opts = car_options_of opts, car_store = store2, car_solver = new_solver,
          car_transition_activator = literal_of act_t False,
          car_error_activator = literal_of act_e False,
          car_activated_init = empty_cnf, car_activated_trans = empty_cnf,
          car_activated_error = empty_cnf, init_negated = empty_cnf,
          car_blocked_cubes = [], car_activators = [], found_cubes = [], car_queries = 0,
          car_forward = forward, cotrace = \<lparr>ct_entries = []\<rparr>\<rparr>)"

fun assert_frame_cubes :: "solver \<Rightarrow> (cube list \<times> literal) list \<Rightarrow> solver" where
  "assert_frame_cubes sv [] = sv"
| "assert_frame_cubes sv ((cubes, act) # frames) =
     assert_frame_cubes
       (foldl (\<lambda>sv c. assert_formula sv (activate (negate c) (lit_var act))) sv cubes) frames"

definition car_refresh_solver :: "car \<Rightarrow> car" where
  "car_refresh_solver st =
     (let sv = solver_reset (car_solver st);
          sv = assert_formula sv (car_activated_init st);
          sv = assert_formula sv (car_activated_trans st);
          sv = assert_formula sv (car_activated_error st);
          sv = assert_frame_cubes sv (zip (car_blocked_cubes st) (car_activators st))
      in st\<lparr>car_solver := sv, car_queries := 0\<rparr>)"

definition car_with_solver :: "car \<Rightarrow> car" where
  "car_with_solver st =
     (let st' = (if car_queries st mod car_refresh_rate = 0 then car_refresh_solver st else st)
      in st'\<lparr>car_queries := Suc (car_queries st')\<rparr>)"

definition car_depth :: "car \<Rightarrow> nat" where
  "car_depth st = length (car_blocked_cubes st) - 1"

definition codepth :: "car \<Rightarrow> int" where
  "codepth st = int (length (found_cubes st)) - 1"

definition car_push_frame :: "bool \<Rightarrow> car \<Rightarrow> car option" where
  "car_push_frame d st = do {
     assert_that d (length (car_blocked_cubes st) = length (car_activators st));
     let st = st\<lparr>car_blocked_cubes := car_blocked_cubes st @ [[]]\<rparr>;
     let (act, store) = store_make (car_store st)
           (''Act['' @ int_to_string (int (car_depth st) + 1) @ '']'');
     Some (st\<lparr>car_store := store, car_activators := car_activators st @ [literal_of act False]\<rparr>) }"

definition push_coframe :: "car \<Rightarrow> car" where
  "push_coframe st = st\<lparr>found_cubes := found_cubes st @ [[]]\<rparr>"

section \<open>Negating a formula\<close>

text \<open>
  \<open>std::views::split\<close>: the pieces between separators. A stream that is not empty has one piece
  more than separators, so a stream that ends with a separator has an empty last piece.
\<close>

fun split_from :: "literal list \<Rightarrow> literal list \<Rightarrow> literal list list" where
  "split_from cur [] = [cur]"
| "split_from cur (l # ls) =
     (if l = separator then cur # split_from [] ls else split_from (cur @ [l]) ls)"

definition split_clauses :: "literal list \<Rightarrow> literal list list" where
  "split_clauses ls = (if ls = [] then [] else split_from [] ls)"

fun negate_clauses ::
  "variable_store \<Rightarrow> literal list list \<Rightarrow> literal list \<Rightarrow> cnf_formula \<Rightarrow>
   literal list \<times> cnf_formula \<times> variable_store" where
  "negate_clauses store [] ys negation = (ys, negation, store)"
| "negate_clauses store (c # cs) ys negation =
     (let (v, store) = store_make store []; y = literal_of v False;
          negation = foldl (\<lambda>f lit. add_clause f [lit_not lit, y]) negation c;
          negation = add_clause negation (lit_not y # c)
      in negate_clauses store cs (ys @ [y]) negation)"

definition negate_cnf :: "variable_store \<Rightarrow> cnf_formula \<Rightarrow> cnf_formula \<times> variable_store" where
  "negate_cnf store f =
     (let (v, store) = store_make store []; x = literal_of v False;
          negation = add_clause empty_cnf [lit_not x];
          (ys, negation, store) = negate_clauses store (split_clauses (cnf_literals f)) [] negation;
          negation = foldl (\<lambda>f y. add_clause f [lit_not x, y]) negation ys;
          negation = add_clause negation (map lit_not ys @ [x])
      in (negation, store))"

definition car_initialize :: "bool \<Rightarrow> transition_system \<Rightarrow> car \<Rightarrow> car option" where
  "car_initialize d sys st = do {
     st \<leftarrow> car_push_frame d st;
     let st = push_coframe st;
     act0 \<leftarrow> vec_at (car_activators st) 0;
     let st = st\<lparr>car_activated_init := activate (ts_init sys) (lit_var act0),
                 car_activated_trans := activate (ts_trans sys) (lit_var (car_transition_activator st)),
                 car_activated_error := activate (ts_error sys) (lit_var (car_error_activator st))\<rparr>;
     if car_forward st then do {
       c \<leftarrow> formula_as_cube d (ts_init sys);
       Some (st\<lparr>init_negated := negate c\<rparr>) }
     else do {
       let (f, store) = negate_cnf (car_store st) (ts_init sys);
       Some (st\<lparr>car_store := store, init_negated := f\<rparr>) } }"

section \<open>Frames and coframes\<close>

fun cube_over :: "transition_system \<Rightarrow> var_type \<Rightarrow> literal list \<Rightarrow> bool option" where
  "cube_over sys t [] = Some True"
| "cube_over sys t (l # ls) = do {
     (ty, pos) \<leftarrow> get_var_info sys (lit_var l);
     if ty = t then cube_over sys t ls else Some False }"

definition car_is_state_cube :: "transition_system \<Rightarrow> literal list \<Rightarrow> bool option" where
  "car_is_state_cube sys ls = cube_over sys State_var ls"

definition is_next_state_cube :: "transition_system \<Rightarrow> literal list \<Rightarrow> bool option" where
  "is_next_state_cube sys ls = cube_over sys Next_state_var ls"

text \<open>\<open>assert\<close> of a condition that may itself abort; without assertions it is not evaluated.\<close>

definition assert_test :: "bool \<Rightarrow> bool option \<Rightarrow> unit option" where
  "assert_test d b = (if d then do { b \<leftarrow> b; assert_that d b } else Some ())"

function push_coframes :: "nat \<Rightarrow> car \<Rightarrow> car" where
  "push_coframes level st =
     (if codepth st < int level then push_coframes level (push_coframe st) else st)"
  by pat_completeness auto
termination
  by (relation "measure (\<lambda>(level, st). Suc level - length (found_cubes st))")
    (auto simp: codepth_def push_coframe_def)

declare push_coframes.simps [simp del]

text \<open>The loop that removes subsumed cubes, moving the last handle into the gap.\<close>

function drop_reaching ::
  "bool \<Rightarrow> cotrace_pool \<Rightarrow> cube \<Rightarrow> nat \<Rightarrow> bad_cube_handle list \<Rightarrow> bad_cube_handle list option" where
  "drop_reaching d p c i coframe =
     (if i < length coframe then do {
        e \<leftarrow> cotrace_get d p (coframe ! i);
        if subsumes c (bc_state_vars e)
        then drop_reaching d p c i (butlast (coframe[i := last coframe]))
        else drop_reaching d p c (Suc i) coframe }
      else Some coframe)"
  by pat_completeness auto
termination
  by (relation "measure (\<lambda>(d, p, c, i, coframe). length coframe - i)") auto

declare drop_reaching.simps [simp del]

definition add_reaching_at :: "bool \<Rightarrow> car \<Rightarrow> bad_cube_handle \<Rightarrow> nat \<Rightarrow> car option" where
  "add_reaching_at d st0 h level = do {
     let st = push_coframes level st0;
     e \<leftarrow> cotrace_get d (cotrace st) h;
     coframe \<leftarrow> vec_at (found_cubes st) level;
     coframe \<leftarrow> drop_reaching d (cotrace st) (bc_state_vars e) 0 coframe;
     coframes \<leftarrow> vec_set (found_cubes st) level (coframe @ [h]);
     Some (st\<lparr>found_cubes := coframes\<rparr>) }"

definition car_add_blocked_at :: "bool \<Rightarrow> transition_system \<Rightarrow> car \<Rightarrow> cube \<Rightarrow> nat \<Rightarrow> car option" where
  "car_add_blocked_at d sys st c level = do {
     assert_that d (1 \<le> level \<and> level \<le> car_depth st);
     assert_test d (car_is_state_cube sys (cube_literals c));
     frame \<leftarrow> vec_at (car_blocked_cubes st) level;
     assert_that d (level < length (car_activators st));
     frames \<leftarrow> vec_set (car_blocked_cubes st) level (swap_remove_from (subsumes c) 0 frame @ [c]);
     act \<leftarrow> vec_at (car_activators st) level;
     Some (st\<lparr>car_blocked_cubes := frames,
              car_solver := assert_formula (car_solver st) (activate (negate c) (lit_var act))\<rparr>) }"

section \<open>Queries\<close>

definition get_error_state ::
  "environment \<Rightarrow> transition_system \<Rightarrow> car \<Rightarrow> (bad_cube_handle option \<times> car) option" where
  "get_error_state E sys st0 = do {
     assert_that (debug_build E) (car_depth st0 < length (car_activators st0));
     let st = car_with_solver st0;
     act \<leftarrow> vec_at (car_activators st) (car_depth st);
     let sv = assume_literal (car_solver st) act;
     let sv = assume_literal sv (car_error_activator st);
     let (sat, sv) = is_sat E sv;
     let st = st\<lparr>car_solver := sv\<rparr>;
     if sat then do {
       s \<leftarrow> get_model sv (state_vars sys);
       i \<leftarrow> get_model sv (input_vars sys);
       let (h, pool) = cotrace_make (cotrace st) (make_cube s) (make_cube i) None;
       st \<leftarrow> add_reaching_at (debug_build E) (st\<lparr>cotrace := pool\<rparr>) h 0;
       Some (Some h, st) }
     else Some (None, st) }"

definition car_is_already_blocked ::
  "environment \<Rightarrow> transition_system \<Rightarrow> car \<Rightarrow> car_obligation \<Rightarrow> (bool \<times> car) option" where
  "car_is_already_blocked E sys st po = do {
     assert_that (debug_build E) (1 \<le> co_level po \<and> co_level po \<le> car_depth st);
     e \<leftarrow> cotrace_get (debug_build E) (cotrace st) (co_handle po);
     let s = bc_state_vars e;
     frame \<leftarrow> vec_at (car_blocked_cubes st) (co_level po);
     if list_ex (\<lambda>c. subsumes c s) frame then Some (True, st)
     else do {
       let st = car_with_solver st;
       act \<leftarrow> vec_at (car_activators st) (co_level po);
       let sv = assume_literal (car_solver st) act;
       let sv = assume_literals sv (cube_literals s);
       let (sat, sv) = is_sat E sv;
       Some (\<not> sat, st\<lparr>car_solver := sv\<rparr>) } }"

definition has_predecessor ::
  "environment \<Rightarrow> transition_system \<Rightarrow> car \<Rightarrow> literal list \<Rightarrow> nat \<Rightarrow> (bool \<times> car) option" where
  "has_predecessor E sys st0 s i = do {
     assert_that (debug_build E) (1 \<le> i);
     let st = car_with_solver st0;
     act \<leftarrow> vec_at (car_activators st) (i - 1);
     let sv = assume_literal (car_solver st) act;
     let sv = assume_literal sv (car_transition_activator st);
     sv \<leftarrow> assume_mapped sv s (prime (debug_build E) sys);
     let (sat, sv) = is_sat E sv;
     Some (sat, st\<lparr>car_solver := sv\<rparr>) }"

text \<open>The two queries that \<open>get_minimal_core\<close> repeats.\<close>

definition predecessor_query ::
  "environment \<Rightarrow> transition_system \<Rightarrow> literal list \<Rightarrow> literal list \<Rightarrow> car \<Rightarrow> literal list \<Rightarrow>
   (bool \<times> car) option" where
  "predecessor_query E sys s ins st0 assms = do {
     assert_test (debug_build E) (car_is_state_cube sys assms);
     let st = car_with_solver st0;
     sv \<leftarrow> constrain_not_mapped (car_solver st) s (prime (debug_build E) sys);
     let sv = assume_literal sv (car_transition_activator st);
     let sv = assume_literals sv ins;
     let sv = assume_literals sv assms;
     let (sat, sv) = is_sat E sv;
     Some (sat, st\<lparr>car_solver := sv\<rparr>) }"

definition blocked_query ::
  "environment \<Rightarrow> transition_system \<Rightarrow> nat \<Rightarrow> car \<Rightarrow> literal list \<Rightarrow> (bool \<times> car) option" where
  "blocked_query E sys level st0 assms = do {
     assert_test (debug_build E) (is_next_state_cube sys assms);
     let st = car_with_solver st0;
     act \<leftarrow> vec_at (car_activators st) (level - 1);
     let sv = assume_literal (car_solver st) act;
     let sv = assume_literal sv (car_transition_activator st);
     let sv = assume_literals sv assms;
     let (sat, sv) = is_sat E sv;
     Some (sat, st\<lparr>car_solver := sv\<rparr>) }"

fun minimize_core ::
  "(car \<Rightarrow> literal list \<Rightarrow> (bool \<times> car) option) \<Rightarrow> car \<Rightarrow> literal list \<Rightarrow> literal list \<Rightarrow>
   (literal list \<times> car) option" where
  "minimize_core requery st [] core = Some (core, st)"
| "minimize_core requery st (lit # lits) core = do {
     let core = removeAll lit core;
     (sat, st) \<leftarrow> requery st core;
     if sat then minimize_core requery st lits (core @ [lit])
     else do {
       core \<leftarrow> get_core (car_solver st) core;
       minimize_core requery st lits core } }"

definition get_minimal_core ::
  "(car \<Rightarrow> literal list \<Rightarrow> (bool \<times> car) option) \<Rightarrow> car \<Rightarrow> literal list \<Rightarrow> (literal list \<times> car) option" where
  "get_minimal_core requery st seed = minimize_core requery st seed seed"

definition car_get_predecessor ::
  "environment \<Rightarrow> transition_system \<Rightarrow> car \<Rightarrow> car_obligation \<Rightarrow> (bad_cube_handle \<times> car) option" where
  "car_get_predecessor E sys st po = do {
     ins \<leftarrow> get_model (car_solver st) (input_vars sys);
     p \<leftarrow> get_model (car_solver st) (state_vars sys);
     if car_forward st then do {
       e \<leftarrow> cotrace_get (debug_build E) (cotrace st) (co_handle po);
       let s = cube_literals (bc_state_vars e);
       (sat, st) \<leftarrow> predecessor_query E sys s ins st p;
       assert_that (debug_build E) (\<not> sat);
       core \<leftarrow> get_core (car_solver st) p;
       (core, st) \<leftarrow>
         (if opt_muc_predecessor (car_opts st)
          then get_minimal_core (predecessor_query E sys s ins) st core
          else Some (core, st));
       let (h, pool) = cotrace_make (cotrace st) (make_cube core) (make_cube ins) (Some (co_handle po));
       Some (h, st\<lparr>cotrace := pool\<rparr>) }
     else do {
       let (h, pool) = cotrace_make (cotrace st) (make_cube p) (make_cube ins) (Some (co_handle po));
       Some (h, st\<lparr>cotrace := pool\<rparr>) } }"

fun unprime_all :: "bool \<Rightarrow> transition_system \<Rightarrow> literal list \<Rightarrow> literal list option" where
  "unprime_all d sys [] = Some []"
| "unprime_all d sys (l # ls) = do {
     l' \<leftarrow> unprime d sys l;
     ls' \<leftarrow> unprime_all d sys ls;
     Some (l' # ls') }"

definition generalize_blocked ::
  "environment \<Rightarrow> transition_system \<Rightarrow> car \<Rightarrow> car_obligation \<Rightarrow> (cube \<times> car) option" where
  "generalize_blocked E sys st po = do {
     core \<leftarrow> get_core_of_range (car_solver st) (next_state_vars sys);
     (core, st) \<leftarrow>
       (if opt_muc_blocked (car_opts st)
        then get_minimal_core (blocked_query E sys (co_level po)) st core
        else Some (core, st));
     core \<leftarrow> unprime_all (debug_build E) sys core;
     Some (make_cube core, st) }"

section \<open>Counterexamples\<close>

definition car_get_vars :: "variable_range \<Rightarrow> cube \<Rightarrow> valuation" where
  "car_get_vars r val =
     map (\<lambda>v. case cube_find val v of Some l \<Rightarrow> l | None \<Rightarrow> literal_of v True) (vr_vars r)"

text \<open>The entries the loop over \<open>entry\<close> visits.\<close>

partial_function (option) collect_chain :: "bool \<Rightarrow> cotrace_pool \<Rightarrow> bad_cube \<Rightarrow> bad_cube list option" where
  "collect_chain d p e =
     (case bc_successor e of
        None \<Rightarrow> Some [e]
      | Some h \<Rightarrow> do {
          e' \<leftarrow> cotrace_get d p h;
          rest \<leftarrow> collect_chain d p e';
          Some (e # rest) })"

definition car_build_counterexample ::
  "bool \<Rightarrow> transition_system \<Rightarrow> car \<Rightarrow> bad_cube_handle \<Rightarrow> counterexample option" where
  "car_build_counterexample d sys st initial = do {
     e \<leftarrow> cotrace_get d (cotrace st) initial;
     chain \<leftarrow> collect_chain d (cotrace st) e;
     let ins = map (\<lambda>e. car_get_vars (input_vars sys) (bc_input_vars e)) chain;
     if car_forward st then
       Some \<lparr>initial_state = car_get_vars (state_vars sys) (bc_state_vars e), inputs = ins\<rparr>
     else do {
       let previous = last chain;
       Some \<lparr>initial_state = car_get_vars (state_vars sys) (bc_state_vars previous),
             inputs = rev (butlast ins) @ [car_get_vars (input_vars sys) (bc_input_vars e)]\<rparr> } }"

section \<open>The main loops\<close>

partial_function (option) car_solve_queue ::
  "environment \<Rightarrow> transition_system \<Rightarrow> car \<Rightarrow> car_queue \<Rightarrow> (counterexample option \<times> car) option" where
  "car_solve_queue E sys st q =
     (if q = [] then Some (None, st)
      else do {
        let po = hd q;
        let q' = tl q;
        if co_level po = 0 then do {
          cex \<leftarrow> car_build_counterexample (debug_build E) sys st (co_handle po);
          Some (Some cex, st) }
        else do {
          (blocked, st) \<leftarrow> car_is_already_blocked E sys st po;
          if blocked then car_solve_queue E sys st q'
          else do {
            e \<leftarrow> cotrace_get (debug_build E) (cotrace st) (co_handle po);
            (pre, st) \<leftarrow> has_predecessor E sys st (cube_literals (bc_state_vars e)) (co_level po);
            if pre then do {
              (pred, st) \<leftarrow> car_get_predecessor E sys st po;
              let ix = co_colevel po + 1;
              st \<leftarrow> add_reaching_at (debug_build E) st pred ix;
              car_solve_queue E sys st
                (car_push po (car_push (Car_obligation (co_level po - 1) ix pred) q')) }
            else do {
              (c, st) \<leftarrow> generalize_blocked E sys st po;
              st \<leftarrow> car_add_blocked_at (debug_build E) sys st c (co_level po);
              if opt_repush_blocked (car_opts st) \<and> co_level po < car_depth st
              then car_solve_queue E sys st
                (car_push (Car_obligation (co_level po + 1) (co_colevel po) (co_handle po)) q')
              else car_solve_queue E sys st q' } } } })"

definition car_solve_obligation ::
  "environment \<Rightarrow> transition_system \<Rightarrow> car \<Rightarrow> car_obligation \<Rightarrow> (counterexample option \<times> car) option" where
  "car_solve_obligation E sys st starting_po = do {
     assert_that (debug_build E) (co_level starting_po \<le> car_depth st);
     assert_that (debug_build E) (int (co_colevel starting_po) \<le> codepth st);
     car_solve_queue E sys st (car_push starting_po []) }"

text \<open>
  The loops of \<open>check_existing_cotrace\<close>. The iterators of the inner one are taken before the
  first obligation is solved; solving touches later coframes only.
\<close>

fun check_coframe ::
  "environment \<Rightarrow> transition_system \<Rightarrow> car \<Rightarrow> bad_cube_handle list \<Rightarrow> nat \<Rightarrow>
   (counterexample option \<times> car) option" where
  "check_coframe E sys st [] j = Some (None, st)"
| "check_coframe E sys st (h # hs) j = do {
     (cex, st) \<leftarrow> car_solve_obligation E sys st (Car_obligation (car_depth st) j h);
     (case cex of
        Some c \<Rightarrow> Some (Some c, st)
      | None \<Rightarrow> check_coframe E sys st hs j) }"

fun check_coframes ::
  "environment \<Rightarrow> transition_system \<Rightarrow> car \<Rightarrow> nat list \<Rightarrow> (counterexample option \<times> car) option" where
  "check_coframes E sys st [] = Some (None, st)"
| "check_coframes E sys st (j # js) = do {
     hs \<leftarrow> vec_at (found_cubes st) j;
     (cex, st) \<leftarrow> check_coframe E sys st hs j;
     (case cex of
        Some c \<Rightarrow> Some (Some c, st)
      | None \<Rightarrow> check_coframes E sys st js) }"

definition check_existing_cotrace ::
  "environment \<Rightarrow> transition_system \<Rightarrow> car \<Rightarrow> (counterexample option \<times> car) option" where
  "check_existing_cotrace E sys st = check_coframes E sys st (rev [0..<nat (codepth st + 1)])"

partial_function (option) check_new_error_states ::
  "environment \<Rightarrow> transition_system \<Rightarrow> car \<Rightarrow> (counterexample option \<times> car) option" where
  "check_new_error_states E sys st0 = do {
     (handle, st) \<leftarrow> get_error_state E sys st0;
     (case handle of
        None \<Rightarrow> Some (None, st)
      | Some h \<Rightarrow> do {
          (cex, st) \<leftarrow> car_solve_obligation E sys st (Car_obligation (car_depth st) 0 h);
          (case cex of
             Some c \<Rightarrow> Some (Some c, st)
           | None \<Rightarrow> check_new_error_states E sys st) }) }"

section \<open>Propagation and the inductiveness check\<close>

fun push_frame_cubes ::
  "environment \<Rightarrow> transition_system \<Rightarrow> car \<Rightarrow> cube list \<Rightarrow> nat \<Rightarrow> bool \<Rightarrow> (bool \<times> car) option" where
  "push_frame_cubes E sys st [] i pushed_all = Some (pushed_all, st)"
| "push_frame_cubes E sys st (c # cubes) i pushed_all = do {
     (pre, st) \<leftarrow> has_predecessor E sys st (cube_literals c) (i + 1);
     if pre then push_frame_cubes E sys st cubes i False
     else if opt_propagate_cores (car_opts st) then do {
       core \<leftarrow> get_core_of_range (car_solver st) (next_state_vars sys);
       core \<leftarrow> unprime_all (debug_build E) sys core;
       st \<leftarrow> car_add_blocked_at (debug_build E) sys st (make_cube core) (i + 1);
       push_frame_cubes E sys st cubes i pushed_all }
     else do {
       st \<leftarrow> car_add_blocked_at (debug_build E) sys st c (i + 1);
       push_frame_cubes E sys st cubes i pushed_all } }"

fun car_propagate_levels ::
  "environment \<Rightarrow> transition_system \<Rightarrow> car \<Rightarrow> nat list \<Rightarrow> (bool \<times> car) option" where
  "car_propagate_levels E sys st [] = Some (False, st)"
| "car_propagate_levels E sys st (i # is) = do {
     cubes \<leftarrow> vec_at (car_blocked_cubes st) i;
     (pushed_all, st) \<leftarrow> push_frame_cubes E sys st cubes i True;
     if pushed_all then Some (True, st) else car_propagate_levels E sys st is }"

definition car_propagate :: "environment \<Rightarrow> transition_system \<Rightarrow> car \<Rightarrow> (bool \<times> car) option" where
  "car_propagate E sys st = do {
     top \<leftarrow> vec_at (car_blocked_cubes st) (car_depth st);
     assert_that (debug_build E) (top = []);
     car_propagate_levels E sys st [1..<car_depth st] }"

fun clausify_cubes ::
  "variable_store \<Rightarrow> cube list \<Rightarrow> literal list \<Rightarrow> cnf_formula \<Rightarrow>
   literal list \<times> cnf_formula \<times> variable_store" where
  "clausify_cubes store [] ys cnf = (ys, cnf, store)"
| "clausify_cubes store (c # cs) ys cnf =
     (let (v, store) = store_make store []; y = literal_of v False;
          cnf = foldl (\<lambda>f lit. add_clause f [lit_not y, lit]) cnf (cube_literals c);
          cnf = add_clause cnf (map lit_not (cube_literals c) @ [y])
      in clausify_cubes store cs (ys @ [y]) cnf)"

definition clausify_frame_negation ::
  "variable_store \<Rightarrow> cube list \<Rightarrow> cnf_formula \<times> variable_store" where
  "clausify_frame_negation store cubes =
     (let (v, store) = store_make store []; x = literal_of v False;
          cnf = add_clause empty_cnf [x];
          (ys, cnf, store) = clausify_cubes store cubes [] cnf;
          cnf = add_clause cnf (lit_not x # ys);
          cnf = foldl (\<lambda>f y. add_clause f [lit_not y, x]) cnf ys
      in (cnf, store))"

fun inductive_levels ::
  "environment \<Rightarrow> car \<Rightarrow> solver \<Rightarrow> nat list \<Rightarrow> (bool \<times> car) option" where
  "inductive_levels E st checker [] = Some (False, st)"
| "inductive_levels E st checker (i # is) = do {
     let (v, store) = store_make (car_store st) [];
     let act = literal_of v False;
     let st = st\<lparr>car_store := store\<rparr>;
     cubes \<leftarrow> vec_at (car_blocked_cubes st) i;
     let checker = foldl (\<lambda>sv c. assert_formula sv (activate (negate c) (lit_var act))) checker cubes;
     let (sat, checker) = is_sat E (assume_literal checker act);
     if \<not> sat then Some (True, st)
     else if i < car_depth st then do {
       let checker = assert_formula checker (cnf_clause [lit_not act]);
       let (f, store) = clausify_frame_negation (car_store st) cubes;
       inductive_levels E (st\<lparr>car_store := store\<rparr>) (assert_formula checker f) is }
     else inductive_levels E st checker is }"

definition is_inductive :: "environment \<Rightarrow> car \<Rightarrow> (bool \<times> car) option" where
  "is_inductive E st = do {
     assert_that (debug_build E) (1 \<le> car_depth st);
     inductive_levels E st (assert_formula new_solver (init_negated st)) [1..<Suc (car_depth st)] }"

section \<open>Running\<close>

definition trace_content :: "car \<Rightarrow> string" where
  "trace_content st = int_to_string (int (car_depth st)) @ '' F:'' @
     concat (map (\<lambda>i. '' '' @ int_to_string (int (length (car_blocked_cubes st ! i)))) [1..<Suc (car_depth st)])"

definition cotrace_content :: "car \<Rightarrow> string" where
  "cotrace_content st = int_to_string (int (car_depth st)) @ '' B:'' @
     concat (map (\<lambda>i. '' '' @ int_to_string (int (length (found_cubes st ! i)))) [1..<nat (codepth st + 1)])"

partial_function (option) car_check ::
  "environment \<Rightarrow> transition_system \<Rightarrow> car \<Rightarrow> (result \<times> car) option" where
  "car_check E sys st0 = do {
     (cex, st) \<leftarrow> check_existing_cotrace E sys st0;
     (case cex of
        Some c \<Rightarrow> Some (Cex c, st)
      | None \<Rightarrow> do {
          (cex, st) \<leftarrow> check_new_error_states E sys st;
          (case cex of
             Some c \<Rightarrow> Some (Cex c, st)
           | None \<Rightarrow> do {
               st \<leftarrow> car_push_frame (debug_build E) st;
               (fixpoint, st) \<leftarrow> car_propagate E sys st;
               if fixpoint then Some (Ok, st)
               else do {
                 (fixpoint, st) \<leftarrow> is_inductive E st;
                 if fixpoint then Some (Ok, st) else car_check E sys st } }) }) }"

definition car_run :: "environment \<Rightarrow> transition_system \<Rightarrow> car \<Rightarrow> result option" where
  "car_run E sys st = do {
     st \<leftarrow> car_initialize (debug_build E) sys st;
     (res, st) \<leftarrow> car_check E sys st;
     Some res }"

definition reverse_literal :: "bool \<Rightarrow> transition_system \<Rightarrow> literal \<Rightarrow> literal option" where
  "reverse_literal d sys l = do {
     (ty, pos) \<leftarrow> get_var_info sys (lit_var l);
     if ty = State_var then prime d sys l
     else if ty = Next_state_var then unprime d sys l
     else Some l }"

definition reverse_system :: "bool \<Rightarrow> transition_system \<Rightarrow> transition_system option" where
  "reverse_system d sys = do {
     tr \<leftarrow> cnf_map (ts_trans sys) (reverse_literal d sys);
     Some \<lparr>input_vars = input_vars sys, state_vars = state_vars sys,
           next_state_vars = next_state_vars sys, aux_vars = aux_vars sys,
           ts_init = ts_error sys, ts_trans = tr, ts_error = ts_init sys\<rparr> }"

definition forward_car_new :: "options \<Rightarrow> variable_store \<Rightarrow> car" where
  "forward_car_new opts store = car_new opts store True"

definition backward_car_new :: "options \<Rightarrow> variable_store \<Rightarrow> car" where
  "backward_car_new opts store = car_new opts store False"

definition backward_car_run :: "environment \<Rightarrow> transition_system \<Rightarrow> car \<Rightarrow> result option" where
  "backward_car_run E sys st = do {
     reversed \<leftarrow> reverse_system (debug_build E) sys;
     car_run E reversed st }"

end
