(* ===== verification/CarFormulas.thy ===== *)
theory CarFormulas
  imports Car
begin

text \<open>
  The formulas that CAR builds with fresh variables: the negation of a CNF formula and of a frame.
  Both loops define one variable per clause or cube; what they assert about it is stated exactly.
\<close>

section \<open>Fresh variables\<close>

text \<open>The \<open>i\<close>-th variable made after the first \<open>n\<close> identifiers.\<close>

definition fresh_var :: "variable_store \<Rightarrow> nat \<Rightarrow> variable" where
  "fresh_var st i = Variable (get_next_id st + int i)"

definition fresh_lits :: "variable_store \<Rightarrow> nat \<Rightarrow> nat \<Rightarrow> literal list" where
  "fresh_lits st from to = map (\<lambda>i. literal_of (fresh_var st i) False) [from..<to]"

lemma fresh_var_pos: "0 < get_next_id st \<Longrightarrow> 0 < var_id (fresh_var st i)"
  by (simp add: fresh_var_def)

lemma fresh_var_inj [simp]: "fresh_var st i = fresh_var st j \<longleftrightarrow> i = j"
  by (simp add: fresh_var_def)

lemma fresh_var_shift: "get_next_id st' = get_next_id st + int k \<Longrightarrow> fresh_var st' i = fresh_var st (k + i)"
  by (simp add: fresh_var_def add.assoc)

lemma fresh_lits_shift:
  "get_next_id st' = get_next_id st + int k \<Longrightarrow> fresh_lits st' a b = fresh_lits st (k + a) (k + b)"
proof (induction b)
  case 0
  then show ?case by (simp add: fresh_lits_def)
next
  case (Suc b)
  then show ?case by (cases "a \<le> b") (simp_all add: fresh_lits_def fresh_var_shift)
qed

lemma store_make_fresh:
  assumes "get_next_id st1 = get_next_id st + int k"
  shows "\<exists>st2. store_make st1 name = (fresh_var st k, st2) \<and> get_next_id st2 = get_next_id st + int (Suc k)"
  using assms by (intro exI [of _ "snd (store_make st1 name)"]) (simp add: prod_eq_iff fresh_var_def)

lemma fresh_lit_true:
  "0 < get_next_id st \<Longrightarrow> lit_true \<sigma> (literal_of (fresh_var st i) b) \<longleftrightarrow> \<sigma> (fresh_var st i) \<noteq> b"
  by (simp add: fresh_var_pos)

lemma fresh_lit_sep: "0 < get_next_id st \<Longrightarrow> literal_of (fresh_var st i) b \<noteq> separator"
  by (simp add: fresh_var_pos)

lemma lits_fresh_true:
  "0 < get_next_id st \<Longrightarrow> (\<exists>l \<in> set (fresh_lits st a b). lit_true \<sigma> l) \<longleftrightarrow> (\<exists>i. a \<le> i \<and> i < b \<and> \<sigma> (fresh_var st i))"
  by (auto simp: fresh_lits_def fresh_lit_true)

lemma sep_fresh: "0 < get_next_id st \<Longrightarrow> separator \<notin> set (fresh_lits st a b)"
  by (auto simp: fresh_lits_def fresh_lit_sep dest: sym)

section \<open>Clauses added in a loop\<close>

lemma add_clauses_sat:
  assumes "\<And>l. l \<in> set c \<Longrightarrow> separator \<notin> set (h l)"
  shows "well_formed_cnf f \<Longrightarrow>
    well_formed_cnf (foldl (\<lambda>f l. add_clause f (h l)) f c) \<and>
    (\<forall>\<sigma>. cnf_sat \<sigma> (foldl (\<lambda>f l. add_clause f (h l)) f c) \<longleftrightarrow>
       cnf_sat \<sigma> f \<and> (\<forall>l \<in> set c. \<exists>k \<in> set (h l). lit_true \<sigma> k))"
  using assms
proof (induction c arbitrary: f)
  case Nil
  then show ?case by simp
next
  case (Cons l c)
  have sep: "separator \<notin> set (h l)" using Cons.prems(2) by simp
  then have wf: "well_formed_cnf (add_clause f (h l))"
    and sat: "cnf_sat \<sigma> (add_clause f (h l)) \<longleftrightarrow> cnf_sat \<sigma> f \<and> (\<exists>k \<in> set (h l). lit_true \<sigma> k)" for \<sigma>
    using Cons.prems(1) by simp_all
  show ?case using Cons.IH [OF wf] Cons.prems(2) by (simp add: sat)
qed

lemma all_less_Suc: "(\<forall>i < Suc n. P i) \<longleftrightarrow> P 0 \<and> (\<forall>i < n. P (Suc i))"
  by (auto simp: less_Suc_eq_0_disj)

lemma ex_shift: "(\<exists>i. Suc 0 \<le> i \<and> i < Suc n \<and> P i) \<longleftrightarrow> (\<exists>i < n. P (Suc i))"
proof
  assume "\<exists>i. Suc 0 \<le> i \<and> i < Suc n \<and> P i"
  then obtain i where "Suc 0 \<le> i" "i < Suc n" "P i" by blast
  then show "\<exists>i < n. P (Suc i)" by (cases i) auto
qed auto

section \<open>The loop of the negation\<close>

lemma negate_clause_sat:
  assumes "well_formed_cnf f" and "separator \<notin> set c" and "0 < var_id v"
  defines "f' \<equiv> add_clause (foldl (\<lambda>f lit. add_clause f [lit_not lit, literal_of v False]) f c)
    (lit_not (literal_of v False) # c)"
  shows "well_formed_cnf f'" and "cnf_sat \<sigma> f' \<longleftrightarrow> cnf_sat \<sigma> f \<and> \<sigma> v = clause_true \<sigma> c"
proof -
  let ?g = "foldl (\<lambda>f lit. add_clause f [lit_not lit, literal_of v False]) f c"
  have ne: "l \<noteq> separator" if "l \<in> set c" for l using that assms(2) by metis
  have g: "well_formed_cnf ?g \<and> (\<forall>\<sigma>. cnf_sat \<sigma> ?g \<longleftrightarrow>
      cnf_sat \<sigma> f \<and> (\<forall>l \<in> set c. \<exists>k \<in> set [lit_not l, literal_of v False]. lit_true \<sigma> k))"
  proof (rule add_clauses_sat)
    show "separator \<notin> set [lit_not l, literal_of v False]" if "l \<in> set c" for l
      using ne [OF that] assms(3) by (auto dest: sym)
  qed (rule assms(1))
  have sep: "separator \<notin> set (lit_not (literal_of v False) # c)"
    using assms(2,3) literal_of_sep [OF assms(3)] by (auto dest: sym)
  show "well_formed_cnf f'" using g sep by (simp add: f'_def del: lit_not_literal_of)
  have "cnf_sat \<sigma> f' \<longleftrightarrow> cnf_sat \<sigma> ?g \<and> (\<exists>l \<in> set (lit_not (literal_of v False) # c). lit_true \<sigma> l)"
    unfolding f'_def by (rule cnf_sat_add_clause [OF conjunct1 [OF g] sep])
  then show "cnf_sat \<sigma> f' \<longleftrightarrow> cnf_sat \<sigma> f \<and> \<sigma> v = clause_true \<sigma> c"
    using g ne assms(3) by (auto simp: clause_true_def)
qed

lemma negate_clauses_sat:
  assumes "0 < get_next_id st"
  shows "well_formed_cnf neg \<Longrightarrow> \<forall>c \<in> set cs. separator \<notin> set c \<Longrightarrow> get_next_id st1 = get_next_id st + int k \<Longrightarrow>
    negate_clauses st1 cs ys neg = (ys', neg', st') \<Longrightarrow>
    ys' = ys @ fresh_lits st k (k + length cs) \<and> get_next_id st' = get_next_id st + int (k + length cs) \<and>
    well_formed_cnf neg' \<and>
    (\<forall>\<sigma>. cnf_sat \<sigma> neg' \<longleftrightarrow> cnf_sat \<sigma> neg \<and>
       (\<forall>i < length cs. \<sigma> (fresh_var st (k + i)) = clause_true \<sigma> (cs ! i)))"
proof (induction cs arbitrary: st1 k ys neg)
  case Nil
  then show ?case by (simp add: fresh_lits_def)
next
  case (Cons c cs)
  let ?v = "fresh_var st k"
  let ?f = "add_clause (foldl (\<lambda>f lit. add_clause f [lit_not lit, literal_of ?v False]) neg c)
    (lit_not (literal_of ?v False) # c)"
  obtain st2 where m: "store_make st1 [] = (?v, st2)" and id: "get_next_id st2 = get_next_id st + int (Suc k)"
    using store_make_fresh [OF Cons.prems(3)] by blast
  have step: "negate_clauses st2 cs (ys @ [literal_of ?v False]) ?f = (ys', neg', st')"
    using Cons.prems(4) by (simp add: m Let_def del: lit_not_literal_of)
  have sep: "separator \<notin> set c" using Cons.prems(2) by simp
  note one = negate_clause_sat [OF Cons.prems(1) sep fresh_var_pos [OF assms, of k]]
  have all: "(\<forall>i < length (c # cs). \<sigma> (fresh_var st (k + i)) = clause_true \<sigma> ((c # cs) ! i)) \<longleftrightarrow>
      \<sigma> ?v = clause_true \<sigma> c \<and> (\<forall>i < length cs. \<sigma> (fresh_var st (Suc k + i)) = clause_true \<sigma> (cs ! i))" for \<sigma>
    by (simp add: all_less_Suc)
  have lits: "fresh_lits st k (k + length (c # cs)) = literal_of ?v False # fresh_lits st (Suc k) (Suc k + length cs)"
    by (simp add: fresh_lits_def upt_conv_Cons del: upt_Suc)
  have "\<forall>c \<in> set cs. separator \<notin> set c" using Cons.prems(2) by simp
  note ih = Cons.IH [OF one(1) this id step]
  show ?case
    unfolding lits all using ih unfolding one(2) by (simp only: append_assoc append_Cons append_Nil conj_assoc) simp
qed

lemma negate_cnf_sat:
  assumes "0 < get_next_id st" and "\<forall>c \<in> set cs. separator \<notin> set c" and cs: "cs = split_clauses (cnf_literals f)"
    and r: "negate_cnf st f = (g, st')"
  shows "cnf_sat \<sigma> g \<longleftrightarrow> \<not> \<sigma> (fresh_var st 0) \<and>
    (\<forall>i < length cs. \<sigma> (fresh_var st (Suc i)) = clause_true \<sigma> (cs ! i)) \<and>
    (\<exists>i < length cs. \<not> clause_true \<sigma> (cs ! i))"
    and "well_formed_cnf g" and "get_next_id st' = get_next_id st + 1 + int (length cs)"
proof -
  let ?x = "literal_of (fresh_var st 0) False"
  obtain st0 where m: "store_make st [] = (fresh_var st 0, st0)" and id: "get_next_id st0 = get_next_id st + int 1"
    using store_make_fresh [of st st 0] by auto
  let ?neg0 = "add_clause empty_cnf [lit_not ?x]"
  obtain ys neg1 st1 where n: "negate_clauses st0 cs [] ?neg0 = (ys, neg1, st1)" by (cases rule: prod_cases3)
  let ?neg2 = "foldl (\<lambda>f y. add_clause f [lit_not ?x, y]) neg1 ys"
  have g: "g = add_clause ?neg2 (map lit_not ys @ [?x])" and st': "st' = st1"
    using r n [unfolded cs] by (simp_all add: negate_cnf_def m Let_def del: lit_not_literal_of)
  have x: "?x \<noteq> separator" "lit_true \<sigma> ?x \<longleftrightarrow> \<sigma> (fresh_var st 0)" for \<sigma>
    using fresh_lit_sep [OF assms(1)] fresh_lit_true [OF assms(1)] by simp_all
  have wf0: "well_formed_cnf ?neg0" and sat0: "cnf_sat \<sigma> ?neg0 \<longleftrightarrow> \<not> \<sigma> (fresh_var st 0)" for \<sigma>
    using x by (simp_all add: eq_commute [of separator] del: lit_not_literal_of)
  note l = negate_clauses_sat [OF assms(1) wf0 assms(2) id n]
  have ys: "ys = fresh_lits st 1 (1 + length cs)" using l by simp
  have ysep: "y \<noteq> separator" if "y \<in> set ys" for y
    using that sep_fresh [OF assms(1), of 1 "1 + length cs"] ys by metis
  have two: "well_formed_cnf ?neg2 \<and> (\<forall>\<sigma>. cnf_sat \<sigma> ?neg2 \<longleftrightarrow>
      cnf_sat \<sigma> neg1 \<and> (\<forall>y \<in> set ys. \<exists>k \<in> set [lit_not ?x, y]. lit_true \<sigma> k))"
  proof (rule add_clauses_sat)
    show "separator \<notin> set [lit_not ?x, y]" if "y \<in> set ys" for y
      using ysep [OF that] x(1) by (auto simp del: lit_not_literal_of dest: sym)
  qed (use l in blast)
  have sep: "separator \<notin> set (map lit_not ys @ [?x])"
    using ysep x(1) by (auto simp: image_iff dest: sym)
  show "well_formed_cnf g" using two sep by (simp add: g)
  show "get_next_id st' = get_next_id st + 1 + int (length cs)" using l st' by simp
  have not_ys: "(\<exists>l \<in> set (map lit_not ys). lit_true \<sigma> l) \<longleftrightarrow> (\<exists>i < length cs. \<not> \<sigma> (fresh_var st (Suc i)))" for \<sigma>
  proof -
    have "(\<exists>l \<in> set (map lit_not ys). lit_true \<sigma> l) \<longleftrightarrow> (\<exists>y \<in> set ys. \<not> lit_true \<sigma> y)"
      using ysep by auto
    also have "\<dots> \<longleftrightarrow> (\<exists>i. 1 \<le> i \<and> i < 1 + length cs \<and> \<not> \<sigma> (fresh_var st i))"
      unfolding ys by (auto simp: fresh_lits_def fresh_lit_true [OF assms(1)])
    also have "\<dots> \<longleftrightarrow> (\<exists>i < length cs. \<not> \<sigma> (fresh_var st (Suc i)))"
      by (simp add: ex_shift)
    finally show ?thesis .
  qed
  have "cnf_sat \<sigma> g \<longleftrightarrow> cnf_sat \<sigma> ?neg2 \<and> (\<exists>l \<in> set (map lit_not ys @ [?x]). lit_true \<sigma> l)"
    unfolding g by (rule cnf_sat_add_clause [OF conjunct1 [OF two] sep])
  also have "(\<exists>l \<in> set (map lit_not ys @ [?x]). lit_true \<sigma> l) \<longleftrightarrow>
      (\<exists>i < length cs. \<not> \<sigma> (fresh_var st (Suc i))) \<or> \<sigma> (fresh_var st 0)"
    unfolding set_append bex_Un not_ys by (simp add: x(2))
  also have "cnf_sat \<sigma> ?neg2 \<longleftrightarrow> cnf_sat \<sigma> neg1 \<and> (\<forall>y \<in> set ys. \<not> \<sigma> (fresh_var st 0) \<or> lit_true \<sigma> y)"
    using two x by (simp del: lit_not_literal_of)
  also have "cnf_sat \<sigma> neg1 \<longleftrightarrow> \<not> \<sigma> (fresh_var st 0) \<and>
      (\<forall>i < length cs. \<sigma> (fresh_var st (Suc i)) = clause_true \<sigma> (cs ! i))"
    using l by (simp add: sat0 del: lit_not_literal_of)
  finally show "cnf_sat \<sigma> g \<longleftrightarrow> \<not> \<sigma> (fresh_var st 0) \<and>
    (\<forall>i < length cs. \<sigma> (fresh_var st (Suc i)) = clause_true \<sigma> (cs ! i)) \<and>
    (\<exists>i < length cs. \<not> clause_true \<sigma> (cs ! i))" by blast
qed

section \<open>The pieces of a formula\<close>

lemma split_from_clauses:
  "ls \<noteq> [] \<Longrightarrow> last ls = separator \<Longrightarrow> split_from cur ls = clauses_from cur ls @ [[]]"
proof (induction ls arbitrary: cur)
  case Nil
  then show ?case by simp
next
  case (Cons l ls)
  then show ?case by (cases "ls = []") auto
qed

lemma split_clauses_terminated:
  "well_formed_cnf f \<Longrightarrow> cnf_literals f \<noteq> [] \<Longrightarrow>
   split_clauses (cnf_literals f) = clauses_of (cnf_literals f) @ [[]]"
  using split_from_clauses [of "cnf_literals f" "[]"]
  by (simp add: split_clauses_def clauses_of_def well_formed_cnf_def terminated_def)

lemma clauses_of_sep_free: "c \<in> set (clauses_of ls) \<Longrightarrow> separator \<notin> set c"
  using clauses_of_lits by blast

text \<open>An assignment of the old variables with chosen values of the fresh ones.\<close>

definition with_fresh :: "variable_store \<Rightarrow> (nat \<Rightarrow> bool) \<Rightarrow> assignment \<Rightarrow> assignment" where
  "with_fresh st h \<sigma> = (\<lambda>v. if var_id v < get_next_id st then \<sigma> v else h (nat (var_id v - get_next_id st)))"

lemma with_fresh_old [simp]: "var_id v < get_next_id st \<Longrightarrow> with_fresh st h \<sigma> v = \<sigma> v"
  by (simp add: with_fresh_def)

lemma with_fresh_new [simp]: "with_fresh st h \<sigma> (fresh_var st i) = h i"
  by (simp add: with_fresh_def fresh_var_def)

definition lits_below :: "variable_store \<Rightarrow> literal list \<Rightarrow> bool" where
  "lits_below st ls \<longleftrightarrow> (\<forall>l \<in> set ls. l \<noteq> separator \<longrightarrow> var_id (lit_var l) < get_next_id st)"

lemma lit_true_with_fresh:
  "lits_below st ls \<Longrightarrow> l \<in> set ls \<Longrightarrow> l \<noteq> separator \<Longrightarrow> lit_true (with_fresh st h \<sigma>) l = lit_true \<sigma> l"
  by (simp add: lits_below_def lit_true_def)

lemma negation_vacuous:
  assumes "0 < get_next_id st" and "well_formed_cnf f" and "cnf_literals f \<noteq> []" and "lits_below st (cnf_literals f)"
  shows "\<exists>\<tau>. (\<forall>v. var_id v < get_next_id st \<longrightarrow> \<tau> v = \<sigma> v) \<and> cnf_sat \<tau> (fst (negate_cnf st f))"
proof -
  define cs where "cs = split_clauses (cnf_literals f)"
  have cs: "cs = clauses_of (cnf_literals f) @ [[]]"
    using split_clauses_terminated [OF assms(2,3)] by (simp add: cs_def)
  obtain g st' where g: "negate_cnf st f = (g, st')" by (cases rule: prod.exhaust)
  have sep: "\<forall>c \<in> set cs. separator \<notin> set c" using clauses_of_sep_free by (auto simp: cs)
  define \<tau> where "\<tau> = with_fresh st (\<lambda>i. i \<noteq> 0 \<and> clause_true \<sigma> (cs ! (i - 1))) \<sigma>"
  have same: "clause_true \<tau> (cs ! i) = clause_true \<sigma> (cs ! i)" if "i < length cs" for i
  proof -
    have "l \<in> set (cnf_literals f) \<and> l \<noteq> separator" if l: "l \<in> set (cs ! i)" for l
    proof -
      have "cs ! i \<in> set (clauses_of (cnf_literals f)) \<or> cs ! i = []"
        using nth_mem [OF \<open>i < length cs\<close>] unfolding cs by auto
      then show ?thesis using l clauses_of_lits by fastforce
    qed
    then show ?thesis
      using lit_true_with_fresh [OF assms(4)] by (auto simp: clause_true_def \<tau>_def)
  qed
  have "\<not> clause_true \<tau> (cs ! (length cs - 1))" by (simp add: cs nth_append clause_true_def)
  moreover have "length cs - 1 < length cs" by (simp add: cs)
  ultimately have "\<exists>i < length cs. \<not> clause_true \<tau> (cs ! i)" by blast
  then have "cnf_sat \<tau> g"
    unfolding negate_cnf_sat(1) [OF assms(1) sep cs_def g] using same by (simp add: \<tau>_def)
  then show ?thesis by (intro exI [of _ \<tau>]) (simp add: g \<tau>_def)
qed

section \<open>The negation of a frame\<close>

lemma clausify_cube_sat:
  assumes "well_formed_cnf f" and "separator \<notin> set c" and "0 < var_id v"
  defines "f' \<equiv> add_clause (foldl (\<lambda>f lit. add_clause f [lit_not (literal_of v False), lit]) f c)
    (map lit_not c @ [literal_of v False])"
  shows "well_formed_cnf f'" and "cnf_sat \<sigma> f' \<longleftrightarrow> cnf_sat \<sigma> f \<and> \<sigma> v = (\<forall>l \<in> set c. lit_true \<sigma> l)"
proof -
  let ?g = "foldl (\<lambda>f lit. add_clause f [lit_not (literal_of v False), lit]) f c"
  have ne: "l \<noteq> separator" if "l \<in> set c" for l using that assms(2) by metis
  have v: "literal_of v b \<noteq> separator" for b using assms(3) by simp
  have g: "well_formed_cnf ?g \<and> (\<forall>\<sigma>. cnf_sat \<sigma> ?g \<longleftrightarrow>
      cnf_sat \<sigma> f \<and> (\<forall>l \<in> set c. \<exists>k \<in> set [lit_not (literal_of v False), l]. lit_true \<sigma> k))"
  proof (rule add_clauses_sat)
    show "separator \<notin> set [lit_not (literal_of v False), l]" if "l \<in> set c" for l
      using ne [OF that] v by (auto dest: sym)
  qed (rule assms(1))
  have sep: "separator \<notin> set (map lit_not c @ [literal_of v False])"
    using ne v by (auto simp: image_iff dest: sym)
  show "well_formed_cnf f'" using g sep by (simp add: f'_def del: lit_not_literal_of)
  have "cnf_sat \<sigma> f' \<longleftrightarrow> cnf_sat \<sigma> ?g \<and> (\<exists>l \<in> set (map lit_not c @ [literal_of v False]). lit_true \<sigma> l)"
    unfolding f'_def by (rule cnf_sat_add_clause [OF conjunct1 [OF g] sep])
  then show "cnf_sat \<sigma> f' \<longleftrightarrow> cnf_sat \<sigma> f \<and> \<sigma> v = (\<forall>l \<in> set c. lit_true \<sigma> l)"
    using g ne assms(3) by auto
qed

lemma clausify_cubes_sat:
  assumes "0 < get_next_id st"
  shows "well_formed_cnf cnf \<Longrightarrow> \<forall>c \<in> set cs. separator \<notin> set (cube_literals c) \<Longrightarrow>
    get_next_id st1 = get_next_id st + int k \<Longrightarrow> clausify_cubes st1 cs ys cnf = (ys', cnf', st') \<Longrightarrow>
    ys' = ys @ fresh_lits st k (k + length cs) \<and> get_next_id st' = get_next_id st + int (k + length cs) \<and>
    well_formed_cnf cnf' \<and>
    (\<forall>\<sigma>. cnf_sat \<sigma> cnf' \<longleftrightarrow> cnf_sat \<sigma> cnf \<and>
       (\<forall>i < length cs. \<sigma> (fresh_var st (k + i)) = cube_true \<sigma> (cs ! i)))"
proof (induction cs arbitrary: st1 k ys cnf)
  case Nil
  then show ?case by (simp add: fresh_lits_def)
next
  case (Cons c cs)
  let ?v = "fresh_var st k"
  let ?f = "add_clause (foldl (\<lambda>f lit. add_clause f [lit_not (literal_of ?v False), lit]) cnf (cube_literals c))
    (map lit_not (cube_literals c) @ [literal_of ?v False])"
  obtain st2 where m: "store_make st1 [] = (?v, st2)" and id: "get_next_id st2 = get_next_id st + int (Suc k)"
    using store_make_fresh [OF Cons.prems(3)] by blast
  have step: "clausify_cubes st2 cs (ys @ [literal_of ?v False]) ?f = (ys', cnf', st')"
    using Cons.prems(4) by (simp add: m Let_def del: lit_not_literal_of)
  have sep: "separator \<notin> set (cube_literals c)" using Cons.prems(2) by simp
  note one = clausify_cube_sat [OF Cons.prems(1) sep fresh_var_pos [OF assms, of k]]
  have all: "(\<forall>i < length (c # cs). \<sigma> (fresh_var st (k + i)) = cube_true \<sigma> ((c # cs) ! i)) \<longleftrightarrow>
      \<sigma> ?v = (\<forall>l \<in> set (cube_literals c). lit_true \<sigma> l) \<and>
      (\<forall>i < length cs. \<sigma> (fresh_var st (Suc k + i)) = cube_true \<sigma> (cs ! i))" for \<sigma>
    by (simp add: all_less_Suc cube_true_def)
  have lits: "fresh_lits st k (k + length (c # cs)) = literal_of ?v False # fresh_lits st (Suc k) (Suc k + length cs)"
    by (simp add: fresh_lits_def upt_conv_Cons del: upt_Suc)
  have "\<forall>c \<in> set cs. separator \<notin> set (cube_literals c)" using Cons.prems(2) by simp
  note ih = Cons.IH [OF one(1) this id step]
  show ?case
    unfolding lits all using ih unfolding one(2) by (simp only: append_assoc append_Cons append_Nil conj_assoc) simp
qed

lemma frame_negation_sat:
  assumes "0 < get_next_id st" and "\<forall>c \<in> set cs. separator \<notin> set (cube_literals c)"
    and r: "clausify_frame_negation st cs = (g, st')"
  shows "cnf_sat \<sigma> g \<longleftrightarrow> \<sigma> (fresh_var st 0) \<and>
    (\<forall>i < length cs. \<sigma> (fresh_var st (Suc i)) = cube_true \<sigma> (cs ! i)) \<and>
    (\<exists>i < length cs. cube_true \<sigma> (cs ! i))"
    and "well_formed_cnf g" and "get_next_id st' = get_next_id st + 1 + int (length cs)"
proof -
  let ?x = "literal_of (fresh_var st 0) False"
  obtain st0 where m: "store_make st [] = (fresh_var st 0, st0)" and id: "get_next_id st0 = get_next_id st + int 1"
    using store_make_fresh [of st st 0] by auto
  let ?cnf0 = "add_clause empty_cnf [?x]"
  obtain ys cnf1 st1 where n: "clausify_cubes st0 cs [] ?cnf0 = (ys, cnf1, st1)" by (cases rule: prod_cases3)
  let ?cnf2 = "add_clause cnf1 (lit_not ?x # ys)"
  have g: "g = foldl (\<lambda>f y. add_clause f [lit_not y, ?x]) ?cnf2 ys" and st': "st' = st1"
    using r n by (simp_all add: clausify_frame_negation_def m Let_def del: lit_not_literal_of)
  have x: "?x \<noteq> separator" "lit_true \<sigma> ?x \<longleftrightarrow> \<sigma> (fresh_var st 0)" for \<sigma>
    using fresh_lit_sep [OF assms(1)] fresh_lit_true [OF assms(1)] by simp_all
  have wf0: "well_formed_cnf ?cnf0" and sat0: "cnf_sat \<sigma> ?cnf0 \<longleftrightarrow> \<sigma> (fresh_var st 0)" for \<sigma>
    using x by (simp_all add: eq_commute [of separator])
  note l = clausify_cubes_sat [OF assms(1) wf0 assms(2) id n]
  have ys: "ys = fresh_lits st 1 (1 + length cs)" using l by simp
  have ysep: "y \<noteq> separator" if "y \<in> set ys" for y
    using that sep_fresh [OF assms(1), of 1 "1 + length cs"] ys by metis
  have some_y: "(\<exists>y \<in> set ys. lit_true \<sigma> y) \<longleftrightarrow> (\<exists>i < length cs. \<sigma> (fresh_var st (Suc i)))" for \<sigma>
    unfolding ys lits_fresh_true [OF assms(1)] by (simp add: ex_shift)
  have sep: "separator \<notin> set (lit_not ?x # ys)"
    using ysep x(1) by (auto simp del: lit_not_literal_of dest: sym)
  have wf1: "well_formed_cnf cnf1" using l by simp
  have two: "well_formed_cnf ?cnf2"
    and sat2: "cnf_sat \<sigma> ?cnf2 \<longleftrightarrow> cnf_sat \<sigma> cnf1 \<and> (\<sigma> (fresh_var st 0) \<longrightarrow> (\<exists>y \<in> set ys. lit_true \<sigma> y))" for \<sigma>
    using cnf_sat_add_clause [OF wf1 sep] wf1 sep x by (simp_all add: disj_imp del: lit_not_literal_of)
  have three: "well_formed_cnf g \<and> (\<forall>\<sigma>. cnf_sat \<sigma> g \<longleftrightarrow>
      cnf_sat \<sigma> ?cnf2 \<and> (\<forall>y \<in> set ys. \<exists>k \<in> set [lit_not y, ?x]. lit_true \<sigma> k))"
    unfolding g
  proof (rule add_clauses_sat)
    show "separator \<notin> set [lit_not y, ?x]" if "y \<in> set ys" for y
      using ysep [OF that] x(1) by (auto dest: sym)
  qed (rule two)
  then show "well_formed_cnf g" by simp
  show "get_next_id st' = get_next_id st + 1 + int (length cs)" using l st' by simp
  have "cnf_sat \<sigma> g \<longleftrightarrow> cnf_sat \<sigma> ?cnf2 \<and> (\<forall>y \<in> set ys. \<not> lit_true \<sigma> y \<or> \<sigma> (fresh_var st 0))"
    using three ysep x by simp
  also have "cnf_sat \<sigma> ?cnf2 \<longleftrightarrow> (\<sigma> (fresh_var st 0) \<and>
      (\<forall>i < length cs. \<sigma> (fresh_var st (Suc i)) = cube_true \<sigma> (cs ! i))) \<and>
      (\<sigma> (fresh_var st 0) \<longrightarrow> (\<exists>i < length cs. \<sigma> (fresh_var st (Suc i))))"
    unfolding sat2 some_y using l by (simp add: sat0)
  finally show "cnf_sat \<sigma> g \<longleftrightarrow> \<sigma> (fresh_var st 0) \<and>
    (\<forall>i < length cs. \<sigma> (fresh_var st (Suc i)) = cube_true \<sigma> (cs ! i)) \<and>
    (\<exists>i < length cs. cube_true \<sigma> (cs ! i))" by blast
qed

text \<open>Over the old variables: some cube is true.\<close>

lemma frame_negation_exact:
  assumes "0 < get_next_id st" and "\<forall>c \<in> set cs. separator \<notin> set (cube_literals c) \<and> lits_below st (cube_literals c)"
  shows "(\<exists>\<tau>. (\<forall>v. var_id v < get_next_id st \<longrightarrow> \<tau> v = \<sigma> v) \<and> cnf_sat \<tau> (fst (clausify_frame_negation st cs))) \<longleftrightarrow>
    (\<exists>c \<in> set cs. cube_true \<sigma> c)"
proof -
  obtain g st' where g: "clausify_frame_negation st cs = (g, st')" by (cases rule: prod.exhaust)
  have sep: "\<forall>c \<in> set cs. separator \<notin> set (cube_literals c)" using assms(2) by blast
  note sat = frame_negation_sat(1) [OF assms(1) sep g]
  have same: "cube_true \<tau> c = cube_true \<sigma> c"
    if "\<forall>v. var_id v < get_next_id st \<longrightarrow> \<tau> v = \<sigma> v" "c \<in> set cs" for \<tau> c
  proof -
    have "lit_true \<tau> l = lit_true \<sigma> l" if "l \<in> set (cube_literals c)" for l
    proof -
      have "l \<noteq> separator" using sep \<open>c \<in> set cs\<close> that by metis
      then have "var_id (lit_var l) < get_next_id st" using assms(2) \<open>c \<in> set cs\<close> that by (auto simp: lits_below_def)
      then show ?thesis using \<open>\<forall>v. _ v\<close> by (simp add: lit_true_def)
    qed
    then show ?thesis by (simp add: cube_true_def)
  qed
  show ?thesis
  proof
    assume "\<exists>\<tau>. (\<forall>v. var_id v < get_next_id st \<longrightarrow> \<tau> v = \<sigma> v) \<and> cnf_sat \<tau> (fst (clausify_frame_negation st cs))"
    then obtain \<tau> i where \<tau>: "\<forall>v. var_id v < get_next_id st \<longrightarrow> \<tau> v = \<sigma> v" "i < length cs" "cube_true \<tau> (cs ! i)"
      unfolding g fst_conv sat by blast
    then show "\<exists>c \<in> set cs. cube_true \<sigma> c" using same [OF \<tau>(1) nth_mem [OF \<tau>(2)]] nth_mem [OF \<tau>(2)] by blast
  next
    assume "\<exists>c \<in> set cs. cube_true \<sigma> c"
    then obtain i where i: "i < length cs" "cube_true \<sigma> (cs ! i)" by (auto simp: in_set_conv_nth)
    define \<tau> where "\<tau> = with_fresh st (\<lambda>i. i = 0 \<or> cube_true \<sigma> (cs ! (i - 1))) \<sigma>"
    have old: "\<forall>v. var_id v < get_next_id st \<longrightarrow> \<tau> v = \<sigma> v" by (simp add: \<tau>_def)
    have "cube_true \<tau> (cs ! j) = cube_true \<sigma> (cs ! j)" if "j < length cs" for j
      using same [OF old nth_mem [OF that]] .
    then have "cnf_sat \<tau> g" unfolding sat using i by (auto simp: \<tau>_def)
    with old show "\<exists>\<tau>. (\<forall>v. var_id v < get_next_id st \<longrightarrow> \<tau> v = \<sigma> v) \<and> cnf_sat \<tau> (fst (clausify_frame_negation st cs))"
      unfolding g fst_conv by blast
  qed
qed

end
