(* ===== verification/CarReverse.thy ===== *)
theory CarReverse
  imports CarFormulas
begin

text \<open>
  \<open>reverse_system\<close>: the backward engine runs the forward one on a system whose transition relation
  is renamed, state and next-state variables exchanged, and whose initial and error formulas are
  exchanged.
\<close>

section \<open>The renaming\<close>

definition swap_states :: "transition_system \<Rightarrow> assignment \<Rightarrow> assignment" where
  "swap_states sys \<sigma> =
     put_range (state_vars sys) (read (next_state_vars sys) \<sigma>)
       (put_range (next_state_vars sys) (read (state_vars sys) \<sigma>) \<sigma>)"

lemma swap_states_read:
  assumes "well_formed_system sys"
  shows "read (state_vars sys) (swap_states sys \<sigma>) = read (next_state_vars sys) \<sigma>"
    and "read (next_state_vars sys) (swap_states sys \<sigma>) = read (state_vars sys) \<sigma>"
    and "read (input_vars sys) (swap_states sys \<sigma>) = read (input_vars sys) \<sigma>"
    and "read (aux_vars sys) (swap_states sys \<sigma>) = read (aux_vars sys) \<sigma>"
proof -
  have apart: "ranges_apart (next_state_vars sys) (state_vars sys)" "ranges_apart (input_vars sys) (state_vars sys)"
    "ranges_apart (input_vars sys) (next_state_vars sys)" "ranges_apart (aux_vars sys) (state_vars sys)"
    "ranges_apart (aux_vars sys) (next_state_vars sys)" and size: "vr_size (state_vars sys) = vr_size (next_state_vars sys)"
    using assms by (auto simp: well_formed_system_def ranges_apart_def)
  show "read (state_vars sys) (swap_states sys \<sigma>) = read (next_state_vars sys) \<sigma>"
    "read (next_state_vars sys) (swap_states sys \<sigma>) = read (state_vars sys) \<sigma>"
    "read (input_vars sys) (swap_states sys \<sigma>) = read (input_vars sys) \<sigma>"
    "read (aux_vars sys) (swap_states sys \<sigma>) = read (aux_vars sys) \<sigma>"
    using apart by (simp_all add: swap_states_def read_put_range_apart size)
qed

lemma swap_states_twice:
  assumes "well_formed_system sys"
  shows "read (state_vars sys) (swap_states sys (swap_states sys \<sigma>)) = read (state_vars sys) \<sigma>"
    and "read (next_state_vars sys) (swap_states sys (swap_states sys \<sigma>)) = read (next_state_vars sys) \<sigma>"
  by (simp_all add: swap_states_read [OF assms])

lemma unprime_next:
  assumes "well_formed_system sys" and "vr_contains (next_state_vars sys) (lit_var l)"
  shows "unprime d sys l =
    Some (substitute l (vr_nth (state_vars sys) (vr_offset (next_state_vars sys) (lit_var l))))"
  using assms by (simp add: unprime_def get_var_info_next)

lemma unprimed_lit:
  assumes wf: "well_formed_system sys" and l: "vr_contains (next_state_vars sys) (lit_var l)"
  defines "k \<equiv> substitute l (vr_nth (state_vars sys) (vr_offset (next_state_vars sys) (lit_var l)))"
  shows "vr_contains (state_vars sys) (lit_var k)" and "k \<noteq> separator"
    and "lit_holds (state_vars sys) xs k = lit_holds (next_state_vars sys) xs l"
proof -
  define v where "v = vr_nth (state_vars sys) (vr_offset (next_state_vars sys) (lit_var l))"
  have v: "vr_contains (state_vars sys) v" "vr_offset (state_vars sys) v = vr_offset (next_state_vars sys) (lit_var l)"
    using vr_offset_bounds [OF l] wf by (auto simp: v_def well_formed_system_def intro: vr_nth_contains)
  have pos: "0 < var_id v" by (rule vr_contains_pos [OF _ v(1)]) (use wf in \<open>simp add: well_formed_system_def\<close>)
  show "vr_contains (state_vars sys) (lit_var k)" "k \<noteq> separator"
    "lit_holds (state_vars sys) xs k = lit_holds (next_state_vars sys) xs l"
    using v pos by (simp_all add: k_def v_def [symmetric] substitute_def lit_holds_def)
qed

lemma system_var_cases:
  assumes "well_formed_system sys" and "formula_over [input_vars sys, state_vars sys, next_state_vars sys, aux_vars sys] f"
    and "l \<in> set (cnf_literals f)" and "l \<noteq> separator"
  obtains "vr_contains (state_vars sys) (lit_var l)" | "vr_contains (next_state_vars sys) (lit_var l)"
  | "vr_contains (input_vars sys) (lit_var l)" | "vr_contains (aux_vars sys) (lit_var l)"
  using assms by (fastforce simp: formula_over_def)

text \<open>The literal the renaming returns: over a variable of the system, with the exchanged value.\<close>

lemma reverse_literal_runs:
  assumes wf: "well_formed_system sys" and l: "l \<noteq> separator"
    and v: "vr_contains (state_vars sys) (lit_var l) \<or> vr_contains (next_state_vars sys) (lit_var l) \<or>
      vr_contains (input_vars sys) (lit_var l) \<or> vr_contains (aux_vars sys) (lit_var l)"
  shows "\<exists>k. reverse_literal d sys l = Some k \<and> k \<noteq> separator \<and>
    (\<exists>r \<in> set [input_vars sys, state_vars sys, next_state_vars sys, aux_vars sys]. vr_contains r (lit_var k)) \<and>
    (\<forall>\<sigma>. lit_true \<sigma> k = lit_true (swap_states sys \<sigma>) l)"
proof -
  note rd = swap_states_read [OF wf]
  from v consider "vr_contains (state_vars sys) (lit_var l)" | "vr_contains (next_state_vars sys) (lit_var l)"
    | "vr_contains (input_vars sys) (lit_var l)" | "vr_contains (aux_vars sys) (lit_var l)" by blast
  then show ?thesis
  proof cases
    case 1
    note p = lit_var_primed [OF wf 1]
    have "reverse_literal d sys l = Some (primed sys l)"
      by (simp add: reverse_literal_def get_var_info_state [OF wf 1] prime_state [OF wf 1])
    moreover have "lit_true \<sigma> (primed sys l) = lit_true (swap_states sys \<sigma>) l" for \<sigma>
      by (simp add: lit_true_primed [OF wf 1] lit_true_read [OF 1] rd)
    ultimately show ?thesis using p by auto
  next
    case 2
    define k where "k = substitute l (vr_nth (state_vars sys) (vr_offset (next_state_vars sys) (lit_var l)))"
    note u = unprimed_lit [OF wf 2, folded k_def]
    have "reverse_literal d sys l = Some k"
      using unprime_next [OF wf 2, of d] by (simp add: reverse_literal_def get_var_info_next [OF wf 2] k_def)
    moreover have "lit_true \<sigma> k = lit_true (swap_states sys \<sigma>) l" for \<sigma>
      by (simp add: lit_true_read [OF u(1)] lit_true_read [OF 2] rd u(3))
    ultimately show ?thesis using u by auto
  next
    case 3
    have "reverse_literal d sys l = Some l"
      by (simp add: reverse_literal_def get_var_info_input [OF 3])
    then show ?thesis using 3 l by (auto simp: lit_true_read [OF 3] rd)
  next
    case 4
    have "reverse_literal d sys l = Some l"
      by (simp add: reverse_literal_def get_var_info_aux [OF wf 4])
    then show ?thesis using 4 l by (auto simp: lit_true_read [OF 4] rd)
  qed
qed

section \<open>The reversed system\<close>

lemma reverse_trans_runs:
  assumes wf: "well_formed_system sys"
  shows "\<exists>tr. cnf_map (ts_trans sys) (reverse_literal d sys) = Some tr \<and>
    formula_over [input_vars sys, state_vars sys, next_state_vars sys, aux_vars sys] tr \<and>
    (\<forall>\<sigma>. cnf_sat \<sigma> tr = cnf_sat (swap_states sys \<sigma>) (ts_trans sys))"
proof -
  let ?rs = "[input_vars sys, state_vars sys, next_state_vars sys, aux_vars sys]"
  have over: "formula_over ?rs (ts_trans sys)" using wf by (simp add: well_formed_system_def)
  have lit: "\<exists>k. reverse_literal d sys l = Some k \<and> k \<noteq> separator \<and>
      (\<exists>r \<in> set ?rs. vr_contains r (lit_var k)) \<and> (\<forall>\<sigma>. lit_true \<sigma> k = lit_true (swap_states sys \<sigma>) l)"
    if "l \<in> set (cnf_literals (ts_trans sys))" "l \<noteq> separator" for l
    by (rule reverse_literal_runs [OF wf that(2)])
      (use over that in \<open>auto simp: formula_over_def\<close>)
  then obtain ls where ls: "map_literals (reverse_literal d sys) (cnf_literals (ts_trans sys)) = Some ls"
    using map_literals_defined [of "cnf_literals (ts_trans sys)" "reverse_literal d sys"] by fastforce
  define tr where "tr = Cnf ls"
  have tr: "cnf_map (ts_trans sys) (reverse_literal d sys) = Some tr" using ls by (simp add: cnf_map_def tr_def)
  have wf_tr: "well_formed_cnf tr" using well_formed_map [OF tr] over by (simp add: formula_over_def)
  have "\<exists>r \<in> set ?rs. vr_contains r (lit_var k)" if k: "k \<in> set ls" "k \<noteq> separator" for k
  proof -
    obtain i where i: "i < length ls" "ls ! i = k" using k(1) by (auto simp: in_set_conv_nth)
    then have "cnf_literals (ts_trans sys) ! i \<noteq> separator"
      "reverse_literal d sys (cnf_literals (ts_trans sys) ! i) = Some k"
      "cnf_literals (ts_trans sys) ! i \<in> set (cnf_literals (ts_trans sys))"
      using map_literals_Some [OF ls] k(2) by (auto split: if_splits)
    then show ?thesis using lit by fastforce
  qed
  then have "formula_over ?rs tr" using wf_tr by (simp add: formula_over_def tr_def)
  moreover have "cnf_sat \<sigma> tr = cnf_sat (swap_states sys \<sigma>) (ts_trans sys)" for \<sigma>
    by (rule cnf_sat_map [OF tr]) (use lit in fastforce)
  ultimately show ?thesis using tr by blast
qed

lemma trans_step_swapped:
  assumes wf: "well_formed_system sys"
    and tr: "\<And>\<sigma>. cnf_sat \<sigma> tr = cnf_sat (swap_states sys \<sigma>) (ts_trans sys)"
  shows "(\<exists>\<sigma>. cnf_sat \<sigma> tr \<and> read (state_vars sys) \<sigma> = s \<and> read (input_vars sys) \<sigma> = i \<and>
      read (next_state_vars sys) \<sigma> = t) \<longleftrightarrow> trans_step sys t i s"
proof
  note rd = swap_states_read [OF wf]
  assume "\<exists>\<sigma>. cnf_sat \<sigma> tr \<and> read (state_vars sys) \<sigma> = s \<and> read (input_vars sys) \<sigma> = i \<and>
      read (next_state_vars sys) \<sigma> = t"
  then obtain \<sigma> where "cnf_sat (swap_states sys \<sigma>) (ts_trans sys)" "read (state_vars sys) \<sigma> = s"
    "read (input_vars sys) \<sigma> = i" "read (next_state_vars sys) \<sigma> = t" using tr by blast
  then show "trans_step sys t i s" unfolding trans_step_def by (intro exI [of _ "swap_states sys \<sigma>"]) (simp add: rd)
next
  note rd = swap_states_read [OF wf]
  assume "trans_step sys t i s"
  then obtain \<sigma> where \<sigma>: "cnf_sat \<sigma> (ts_trans sys)" "read (state_vars sys) \<sigma> = t"
    "read (input_vars sys) \<sigma> = i" "read (next_state_vars sys) \<sigma> = s" by (auto simp: trans_step_def)
  have "cnf_sat (swap_states sys (swap_states sys \<sigma>)) (ts_trans sys) = cnf_sat \<sigma> (ts_trans sys)"
  proof (rule formula_over_cong)
    show "formula_over [input_vars sys, state_vars sys, next_state_vars sys, aux_vars sys] (ts_trans sys)"
      using wf by (simp add: well_formed_system_def)
    show "swap_states sys (swap_states sys \<sigma>) v = \<sigma> v"
      if "r \<in> set [input_vars sys, state_vars sys, next_state_vars sys, aux_vars sys]" "vr_contains r v" for r v
    proof (rule read_eqD [OF _ that(2)])
      show "read r (swap_states sys (swap_states sys \<sigma>)) = read r \<sigma>" using that(1) by (auto simp: rd)
    qed
  qed
  then have "cnf_sat (swap_states sys \<sigma>) tr" using \<sigma>(1) tr by simp
  with \<sigma> show "\<exists>\<sigma>. cnf_sat \<sigma> tr \<and> read (state_vars sys) \<sigma> = s \<and> read (input_vars sys) \<sigma> = i \<and>
      read (next_state_vars sys) \<sigma> = t"
    by (intro exI [of _ "swap_states sys \<sigma>"]) (simp add: rd)
qed

lemma reverse_system_runs:
  assumes wf: "well_formed_system sys"
  shows "\<exists>r. reverse_system d sys = Some r \<and>
    input_vars r = input_vars sys \<and> state_vars r = state_vars sys \<and>
    next_state_vars r = next_state_vars sys \<and> aux_vars r = aux_vars sys \<and>
    ts_init r = ts_error sys \<and> ts_error r = ts_init sys \<and>
    formula_over [input_vars sys, state_vars sys, next_state_vars sys, aux_vars sys] (ts_trans r) \<and>
    (\<forall>s i t. trans_step r s i t \<longleftrightarrow> trans_step sys t i s) \<and>
    (\<forall>s. init_state r s \<longleftrightarrow> (\<exists>i. error_state sys s i)) \<and>
    (\<forall>s i. error_state r s i \<longleftrightarrow> init_state sys s \<and> length i = num_input_vars sys)"
proof -
  obtain tr where tr: "cnf_map (ts_trans sys) (reverse_literal d sys) = Some tr"
    "formula_over [input_vars sys, state_vars sys, next_state_vars sys, aux_vars sys] tr"
    "\<forall>\<sigma>. cnf_sat \<sigma> tr = cnf_sat (swap_states sys \<sigma>) (ts_trans sys)"
    using reverse_trans_runs [OF wf, of d] by blast
  define r where "r = \<lparr>input_vars = input_vars sys, state_vars = state_vars sys,
    next_state_vars = next_state_vars sys, aux_vars = aux_vars sys,
    ts_init = ts_error sys, ts_trans = tr, ts_error = ts_init sys\<rparr>"
  have run: "reverse_system d sys = Some r" by (simp add: reverse_system_def tr(1) r_def)
  have step: "trans_step r s i t \<longleftrightarrow> trans_step sys t i s" for s i t
    using trans_step_swapped [OF wf, of tr s i t] tr(3) unfolding trans_step_def [of r] by (simp add: r_def)
  have init: "init_state r s \<longleftrightarrow> (\<exists>i. error_state sys s i)" for s
    by (auto simp: init_state_def error_state_def r_def)
  have err: "error_state r s i \<longleftrightarrow> init_state sys s \<and> length i = num_input_vars sys" for s i
  proof
    assume "error_state r s i"
    then show "init_state sys s \<and> length i = num_input_vars sys"
      by (auto simp: init_state_def error_state_def r_def num_input_vars_def)
  next
    assume "init_state sys s \<and> length i = num_input_vars sys"
    then obtain \<sigma> where \<sigma>: "cnf_sat \<sigma> (ts_init sys)" "read (state_vars sys) \<sigma> = s" and l: "length i = nat (vr_size (input_vars sys))"
      by (auto simp: init_state_def num_input_vars_def)
    define \<tau> where "\<tau> = put_range (input_vars sys) i \<sigma>"
    have "read (state_vars sys) \<tau> = s"
      using \<sigma>(2) wf by (simp add: \<tau>_def read_put_range_apart ranges_apart_commute [of "state_vars sys"] well_formed_system_def)
    moreover from this have "cnf_sat \<tau> (ts_init sys)"
      using init_state_read [OF wf, of \<tau>] init_state_read [OF wf, of \<sigma>] \<sigma> by simp
    moreover have "read (input_vars sys) \<tau> = i" using l by (simp add: \<tau>_def)
    ultimately show "error_state r s i" unfolding error_state_def by (intro exI [of _ \<tau>]) (simp add: r_def)
  qed
  show ?thesis
    by (rule exI [of _ r]) (use run step init err tr(2) in \<open>simp add: r_def\<close>)
qed

end
