(* ===== verification/CarExamples.thy ===== *)
theory CarExamples
  imports CarReverse Examples
begin

text \<open>
  A concrete run of the backward engine. \<open>late_system\<close> loads its input into its only state variable,
  which starts false, and raises an error when the variable is true and the input is not: one step
  with the input true and then the input false is an error trace. The run is evaluated with the
  reference solver, equation by equation.
\<close>

definition late_system :: transition_system where
  "late_system = load_system\<lparr>ts_error := Cnf [Literal 2, Literal 0, Literal (- 1), Literal 0]\<rparr>"

definition late_reversed :: transition_system where
  "late_reversed = \<lparr>
     input_vars = \<lparr>vr_begin = 1, vr_end = 2\<rparr>, state_vars = \<lparr>vr_begin = 2, vr_end = 3\<rparr>,
     next_state_vars = \<lparr>vr_begin = 3, vr_end = 4\<rparr>, aux_vars = \<lparr>vr_begin = 4, vr_end = 4\<rparr>,
     ts_init = Cnf [Literal 2, Literal 0, Literal (- 1), Literal 0],
     ts_trans = Cnf [Literal (- 2), Literal 1, Literal 0, Literal 2, Literal (- 1), Literal 0],
     ts_error = Cnf [Literal (- 2), Literal 0]\<rparr>"

definition car_example_opts :: "string \<Rightarrow> options" where
  "car_example_opts name = \<lparr>help_requested = False, input_file = ''m.aag'', engine_name = name,
     verbosity = Silent, other_opts = []\<rparr>"

lemma late_sel [simp]:
  "input_vars late_system = \<lparr>vr_begin = 1, vr_end = 2\<rparr>" "state_vars late_system = \<lparr>vr_begin = 2, vr_end = 3\<rparr>"
  "next_state_vars late_system = \<lparr>vr_begin = 3, vr_end = 4\<rparr>" "aux_vars late_system = \<lparr>vr_begin = 4, vr_end = 4\<rparr>"
  "ts_init late_system = ts_init load_system" "ts_trans late_system = ts_trans load_system"
  by (simp_all add: late_system_def)

lemma late_error_sat: "cnf_sat \<sigma> (ts_error late_system) \<longleftrightarrow> \<sigma> (Variable 2) \<and> \<not> \<sigma> (Variable 1)"
  by (auto simp: late_system_def cnf_sat_def stream_sat_def clauses_of_def separator_def
      clause_true_def lit_true_def lit_sign_def lit_var_def)

lemma late_well_formed [simp]: "well_formed_system late_system"
  using example_well_formed(2)
  by (simp add: well_formed_system_def late_system_def formula_over_def well_formed_cnf_def terminated_def
      separator_def vr_contains_def lit_var_def)

lemma late_step: "trans_step late_system s i t \<longleftrightarrow> trans_step load_system s i t"
  by (simp add: trans_step_def)

lemma late_init: "init_state late_system s \<longleftrightarrow> s = [False]"
  using example_init(2) [of s] by (simp add: init_state_def)

lemma late_error: "error_state late_system s i \<longleftrightarrow> s = [True] \<and> i = [False]"
proof
  assume "s = [True] \<and> i = [False]"
  then show "error_state late_system s i"
    by (auto simp: error_state_def late_error_sat intro!: exI [of _ "\<lambda>v. v = Variable 2"])
qed (auto simp: error_state_def late_error_sat)

lemma late_functional [simp]: "functional_system late_system"
  using example_functional(2) by (simp add: functional_system_def late_step num_state_vars_def num_input_vars_def)

lemma late_init_cube [simp]: "init_is_cube late_system"
  using example_init_cube(2) by (simp add: init_is_cube_def)

lemma late_unsafe: "\<not> safe late_system"
proof -
  have "error_trace late_system [False] [[True], [False]]"
    by (simp add: error_trace_def late_step example_step late_error)
  then show ?thesis by (auto simp: safe_def late_init)
qed

section \<open>The run\<close>

lemma late_reverses: "reverse_system True late_system = Some late_reversed"
  by (simp add: reverse_system_def late_system_def load_system_def hold_system_def late_reversed_def
      cnf_map_def reverse_literal_def prime_def unprime_def get_var_info_def vr_contains_def vr_offset_def
      vr_nth_def substitute_def separator_def lit_var_def lit_sign_def literal_of_def)

lemma late_reversed_sel [simp]:
  "input_vars late_reversed = \<lparr>vr_begin = 1, vr_end = 2\<rparr>" "state_vars late_reversed = \<lparr>vr_begin = 2, vr_end = 3\<rparr>"
  "next_state_vars late_reversed = \<lparr>vr_begin = 3, vr_end = 4\<rparr>" "aux_vars late_reversed = \<lparr>vr_begin = 4, vr_end = 4\<rparr>"
  "ts_init late_reversed = Cnf [Literal 2, Literal 0, Literal (- 1), Literal 0]"
  "ts_trans late_reversed = Cnf [Literal (- 2), Literal 1, Literal 0, Literal 2, Literal (- 1), Literal 0]"
  "ts_error late_reversed = Cnf [Literal (- 2), Literal 0]"
  by (simp_all add: late_reversed_def)

lemma example_env_sel: "sat_solver example_env = ref_oracle" "debug_build example_env = True"
  by (simp_all add: example_env_def)

lemmas evaluate_car = example_env_sel car_run_def car_initialize_def backward_car_new_def car_new_def
  car_example_opts_def car_options_of_def has_opt_def car_check.simps [of example_env]
  car_solve_queue.simps [of example_env] check_new_error_states.simps [of example_env] car_push_frame_def
  push_coframe_def Let_def negate_cnf_def split_clauses_def car_depth_def check_existing_cotrace_def
  codepth_def get_error_state_def car_with_solver_def car_refresh_solver_def car_propagate_def is_inductive_def
  car_refresh_rate_def cotrace_make_def cotrace_get_def add_reaching_at_def push_coframes.simps
  drop_reaching.simps car_solve_obligation_def car_push_def car_is_already_blocked_def has_predecessor_def
  generalize_blocked_def get_minimal_core_def blocked_query_def assert_test_def is_next_state_cube_def
  car_add_blocked_at_def car_is_state_cube_def swap_remove_from.simps

lemmas evaluate_logic = store_make_def example_store_def get_next_id_def literal_of_def lit_var_def separator_def
  add_clause_def empty_cnf_def lit_not_def lit_sign_def activate_def prime_def get_var_info_def vr_contains_def
  vr_offset_def vr_nth_def substitute_def vr_vars_def make_cube_def negate_def inplace_transform_def unprime_def

lemmas evaluate_solver = assert_formula_def solver_reset_def new_solver_def solver_add_def to_steady_def
  assume_literal_def assume_literals_def is_sat_def get_model_def is_true_in_model_def get_core_of_range_def
  is_in_core_def ref_oracle_def clauses_of_def ref_solve_def clause_vars_def units_def assign_clauses_def

lemma late_reversed_run:
  "car_run example_env late_reversed (backward_car_new (car_example_opts ''bcar'') example_store) = Some Ok"
  by (simp add: evaluate_car evaluate_logic evaluate_solver cong: bind_weak let_weak_cong)

lemma late_backward_run:
  "backward_car_run example_env late_system (backward_car_new (car_example_opts ''bcar'') example_store) = Some Ok"
  by (simp add: backward_car_run_def example_env_sel late_reverses late_reversed_run)

end
