(* ===== verification/CarPool.thy ===== *)
theory CarPool
  imports Car PdrCorrect
begin

text \<open>
  The cotrace pool of the forward engine and the counterexamples built from it. As for PDR, every
  entry is a satisfiable cube of states all of which, under the entry's inputs, go into an error or
  into the cube of the entry's successor. The pool only grows.
\<close>

section \<open>The pool\<close>

definition cot_live :: "cotrace_pool \<Rightarrow> nat \<Rightarrow> bool" where
  "cot_live p h \<longleftrightarrow> h < length (ct_entries p)"

abbreviation cot_make :: "cotrace_pool \<Rightarrow> bad_cube \<Rightarrow> nat \<times> cotrace_pool" where
  "cot_make p e \<equiv> cotrace_make p (bc_state_vars e) (bc_input_vars e) (bc_successor e)"

lemma car_get_vars_eq [simp]: "car_get_vars = get_vars"
  by (simp add: fun_eq_iff car_get_vars_def get_vars_def)

definition bad_input :: "transition_system \<Rightarrow> bad_cube \<Rightarrow> input" where
  "bad_input sys e = row_values (get_vars (input_vars sys) (bc_input_vars e))"

definition bad_shape :: "transition_system \<Rightarrow> bad_cube \<Rightarrow> bool" where
  "bad_shape sys e \<longleftrightarrow> cti_cube_ok sys (bc_state_vars e) \<and> cube_sorted (bc_input_vars e)"

definition bad_last :: "transition_system \<Rightarrow> bad_cube \<Rightarrow> bool" where
  "bad_last sys e \<longleftrightarrow> bad_shape sys e \<and>
     (\<forall>s \<in> all_states sys. holds_in sys s (cube_literals (bc_state_vars e)) \<longrightarrow>
        error_state sys s (bad_input sys e))"

definition bad_link :: "transition_system \<Rightarrow> bad_cube \<Rightarrow> bad_cube \<Rightarrow> bool" where
  "bad_link sys e e' \<longleftrightarrow> bad_shape sys e \<and>
     (\<forall>s \<in> all_states sys. holds_in sys s (cube_literals (bc_state_vars e)) \<longrightarrow>
        (\<exists>t. trans_step sys s (bad_input sys e) t \<and>
             holds_in sys t (cube_literals (bc_state_vars e'))))"

lemma cotrace_make_cases:
  assumes "cotrace_make p s i n = (h, p')"
  shows "h = length (ct_entries p)"
    and "ct_entries p' = ct_entries p @ [\<lparr>bc_state_vars = s, bc_input_vars = i, bc_successor = n\<rparr>]"
  using assms by (auto simp: cotrace_make_def Let_def)

lemma cotrace_get_live: "cot_live p h \<Longrightarrow> cotrace_get d p h = Some (ct_entries p ! h)"
  by (simp add: cotrace_get_def cot_live_def assert_that_holds)

interpretation cotraces: linked_pool "\<lambda>_. True" cot_make "cotrace_get d" cot_live bc_successor
  "bad_last sys" "bad_link sys" for d sys
proof (unfold_locales, goal_cases)
  case 1
  then show ?case by simp
next
  case (2 p e h p' k)
  then show ?case using cotrace_make_cases(1) [OF 2(2)] by (simp add: cot_live_def)
next
  case (3 p e h p' k)
  then show ?case using cotrace_make_cases [OF 3(2)] by (auto simp: cot_live_def)
next
  case (4 p e h p')
  note m = cotrace_make_cases [OF 4(2)]
  then have "cot_live p' h" by (simp add: cot_live_def)
  then show ?case using m by (simp add: cotrace_get_live)
next
  case (5 p e h p' k)
  note m = cotrace_make_cases [OF 5(2)]
  have "cot_live p' k" using 5(3) m(2) by (simp add: cot_live_def)
  then show ?case using m(2) 5(3) by (simp add: cotrace_get_live) (simp add: cot_live_def nth_append)
qed

definition cotrace_ok :: "transition_system \<Rightarrow> cotrace_pool \<Rightarrow> bool" where
  "cotrace_ok sys p \<longleftrightarrow> cotraces.linked True sys p"

abbreviation bad_at :: "cotrace_pool \<Rightarrow> nat \<Rightarrow> bad_cube" where
  "bad_at p h \<equiv> ct_entries p ! h"

definition cot_ext :: "cotrace_pool \<Rightarrow> cotrace_pool \<Rightarrow> bool" where
  "cot_ext p p' \<longleftrightarrow> (\<forall>k. cot_live p k \<longrightarrow> cot_live p' k \<and> bad_at p' k = bad_at p k)"

lemma cot_ext_refl [simp]: "cot_ext p p"
  by (simp add: cot_ext_def)

lemma cot_ext_trans: "cot_ext p q \<Longrightarrow> cot_ext q r \<Longrightarrow> cot_ext p r"
  by (simp add: cot_ext_def)

lemma cotrace_empty [simp]: "cotrace_ok sys \<lparr>ct_entries = []\<rparr>"
  by (simp add: cotrace_ok_def cotraces.linked_def cot_live_def)

lemma cotrace_entry:
  assumes "cotrace_ok sys p" and "cot_live p h"
  shows "cube_sorted (bc_state_vars (bad_at p h))"
    and "lits_over (state_vars sys) (cube_literals (bc_state_vars (bad_at p h)))"
    and "\<exists>s \<in> all_states sys. holds_in sys s (cube_literals (bc_state_vars (bad_at p h)))"
proof -
  have "cotraces.entry_linked True sys p h (bad_at p h)"
    using assms cotrace_get_live [OF assms(2), of True] by (auto simp: cotrace_ok_def cotraces.linked_def)
  then have "bad_shape sys (bad_at p h)"
    by (auto simp: cotraces.entry_linked_def bad_last_def bad_link_def split: option.splits)
  then show "cube_sorted (bc_state_vars (bad_at p h))"
    "lits_over (state_vars sys) (cube_literals (bc_state_vars (bad_at p h)))"
    "\<exists>s \<in> all_states sys. holds_in sys s (cube_literals (bc_state_vars (bad_at p h)))"
    by (auto simp: bad_shape_def cti_cube_ok_def)
qed

lemma cotrace_make_ok:
  assumes p: "cotrace_ok sys p" and m: "cotrace_make p s i n = (h, p')"
    and new: "case n of None \<Rightarrow> bad_last sys \<lparr>bc_state_vars = s, bc_input_vars = i, bc_successor = n\<rparr>
      | Some k \<Rightarrow> cot_live p k \<and>
          bad_link sys \<lparr>bc_state_vars = s, bc_input_vars = i, bc_successor = n\<rparr> (bad_at p k)"
  shows "cotrace_ok sys p'" and "cot_live p' h" and "cot_ext p p'"
    and "bad_at p' h = \<lparr>bc_state_vars = s, bc_input_vars = i, bc_successor = n\<rparr>"
proof -
  define e where "e = \<lparr>bc_state_vars = s, bc_input_vars = i, bc_successor = n\<rparr>"
  have m': "cot_make p e = (h, p')" using m by (simp add: e_def)
  note c = cotrace_make_cases [OF m]
  show "cot_live p' h" "cot_ext p p'" "bad_at p' h = \<lparr>bc_state_vars = s, bc_input_vars = i, bc_successor = n\<rparr>"
    using c by (auto simp: cot_live_def cot_ext_def nth_append)
  show "cotrace_ok sys p'"
    unfolding cotrace_ok_def
  proof (rule cotraces.linked_make [OF _ m'])
    show "cotraces.linked True sys p" using p by (simp add: cotrace_ok_def)
    show "case bc_successor e of None \<Rightarrow> bad_last sys e
      | Some k \<Rightarrow> cot_live p k \<and> (\<forall>e'. cotrace_get True p k = Some e' \<longrightarrow> bad_link sys e e')"
      using new cotrace_get_live [of p _ True] by (auto simp: e_def split: option.splits)
  qed
qed

section \<open>Counterexamples\<close>

abbreviation bad_rows :: "transition_system \<Rightarrow> bad_cube list \<Rightarrow> valuation list" where
  "bad_rows sys chain \<equiv> map (\<lambda>e. get_vars (input_vars sys) (bc_input_vars e)) chain"

lemma collect_chain_runs:
  assumes "cotrace_ok sys p" and "cot_live p h" and wf: "well_formed_system sys"
  shows "runs (collect_chain d p (bad_at p h)) (\<lambda>chain.
    (\<forall>row \<in> set (bad_rows sys chain). map lit_var row = vr_vars (input_vars sys)) \<and>
    (\<forall>s \<in> all_states sys. holds_in sys s (cube_literals (bc_state_vars (bad_at p h))) \<longrightarrow>
       error_trace sys s (map row_values (bad_rows sys chain))))"
    (is "runs _ (?Q (bad_at p h))")
proof -
  have r: "range_ok (input_vars sys)" using wf by (simp add: well_formed_system_def)
  have "\<exists>e. cotrace_get d p h = Some e \<and> runs (collect_chain d p e) (?Q e)"
  proof (rule cotraces.chain_induct [of d sys p h])
    show "cotraces.linked d sys p"
      using assms(1) cotrace_get_live [of p _ d] cotrace_get_live [of p _ True]
      by (fastforce simp: cotrace_ok_def cotraces.linked_def cotraces.entry_linked_def split: option.splits)
    show "cot_live p h" by fact
  next
    fix h e assume "bc_successor e = None" and l: "bad_last sys e"
    then show "runs (collect_chain d p e) (?Q e)"
      by (auto simp: collect_chain.simps [of d p e] get_vars_shape [OF _ r] bad_last_def
          bad_shape_def error_trace_def bad_input_def)
  next
    fix h e k e'
    assume s: "bc_successor e = Some k" and g: "cotrace_get d p k = Some e'" and l: "bad_link sys e e'"
      and ih: "runs (collect_chain d p e') (?Q e')"
    then obtain chain where chain: "collect_chain d p e' = Some chain" "?Q e' chain"
      by (auto simp: runs_iff)
    have "error_trace sys u (bad_input sys e # map row_values (bad_rows sys chain))"
      if u: "u \<in> all_states sys" "holds_in sys u (cube_literals (bc_state_vars e))" for u
    proof -
      from u l obtain t where t: "trans_step sys u (bad_input sys e) t"
        "holds_in sys t (cube_literals (bc_state_vars e'))" by (auto simp: bad_link_def)
      then show ?thesis
        using chain(2) trans_step_length [OF wf t(1)] by (auto intro: error_trace_Cons)
    qed
    then show "runs (collect_chain d p e) (?Q e)"
      using chain s g l
      by (auto simp: collect_chain.simps [of d p e] get_vars_shape [OF _ r] bad_link_def
          bad_shape_def bad_input_def)
  qed
  then show ?thesis using cotrace_get_live [OF assms(2), of d] by simp
qed

text \<open>An initial state in the cube of the handle makes the counterexample genuine.\<close>

lemma car_build_counterexample_runs:
  assumes p: "cotrace_ok sys (cotrace st)" and h: "cot_live (cotrace st) h" and ps: "pdr_system sys"
    and fwd: "car_forward st"
    and i: "init_state sys s" "holds_in sys s (cube_literals (bc_state_vars (bad_at (cotrace st) h)))"
  shows "runs (car_build_counterexample d sys st h) (cex_ok sys)"
proof -
  define c where "c = bc_state_vars (bad_at (cotrace st) h)"
  have wf: "well_formed_system sys" using ps by (simp add: pdr_system_def)
  then have r: "range_ok (state_vars sys)" by (simp add: well_formed_system_def)
  note cube = cotrace_entry [OF p h, folded c_def]
  define row where "row = get_vars (state_vars sys) c"
  obtain chain where chain: "collect_chain d (cotrace st) (bad_at (cotrace st) h) = Some chain"
    "\<forall>row \<in> set (bad_rows sys chain). map lit_var row = vr_vars (input_vars sys)"
    "\<forall>s \<in> all_states sys. holds_in sys s (cube_literals c) \<longrightarrow> error_trace sys s (map row_values (bad_rows sys chain))"
    using collect_chain_runs [OF p h wf, of d] by (auto simp: runs_iff c_def)
  have "holds_in sys (row_values row) (cube_literals c)"
    using cube row_in_cube [OF cube(1) r cube(2)] by (auto simp: row_def)
  moreover have "row_values row \<in> all_states sys"
    by (simp add: row_def all_states_def num_state_vars_def row_values_def)
  moreover have "s \<in> all_states sys" using init_state_length [OF i(1)] .
  moreover have "init_all_false sys \<Longrightarrow> init_state sys (row_values row)"
    unfolding row_def by (rule row_init [OF ps cube(1,2) _ i(1)]) (use i(2) c_def in simp_all)
  ultimately show ?thesis
    using chain cotrace_get_live [OF h, of d] get_vars_shape [OF cube(1) r] fwd i c_def
    by (auto simp: car_build_counterexample_def cex_ok_def cex_inputs_valid_def cex_valid_def cex_shape_def row_def
        Let_def)
qed

end
