(* ===== verification/CarInvariant.thy ===== *)
theory CarInvariant
  imports CarPool
begin

text \<open>
  The invariant of the forward CAR engine.

  \<^item> \<open>car_frame sys st i\<close> is the set of states of frame \<open>i\<close>: no cube blocked at exactly level \<open>i\<close>,
    and for \<open>i = 0\<close> initial. Unlike the frames of PDR they do not include each other.
  \<^item> \<open>car_trace sys st\<close> is the invariant of the trace, with the facts about the frames that make the
    algorithm correct: a frame steps into the next, all but the last are free of errors.
  \<^item> \<open>car_agrees sys st\<close>: the solver's clauses mean what the trace says. Clauses of subsumed cubes
    stay in the solver, but follow from the cube that subsumes them on the same level.
  \<^item> \<open>car_inv\<close> adds the cotrace: a linked pool, and coframes of live handles.
\<close>

section \<open>Frames\<close>

definition blocked_at :: "car \<Rightarrow> nat \<Rightarrow> cube set" where
  "blocked_at st i = (if i < length (car_blocked_cubes st) then set (car_blocked_cubes st ! i) else {})"

definition car_frame :: "transition_system \<Rightarrow> car \<Rightarrow> nat \<Rightarrow> state set" where
  "car_frame sys st i =
     {s \<in> all_states sys. (i = 0 \<longrightarrow> init_state sys s) \<and>
        (\<forall>c \<in> blocked_at st i. \<not> holds_in sys s (cube_literals c))}"

text \<open>No state of frame \<open>i\<close> is in the cube.\<close>

definition car_free :: "transition_system \<Rightarrow> car \<Rightarrow> nat \<Rightarrow> literal list \<Rightarrow> bool" where
  "car_free sys st i c \<longleftrightarrow> (\<forall>s \<in> car_frame sys st i. \<not> holds_in sys s c)"

text \<open>No state of frame \<open>i\<close> has a successor in the cube.\<close>

definition unreached :: "transition_system \<Rightarrow> car \<Rightarrow> nat \<Rightarrow> literal list \<Rightarrow> bool" where
  "unreached sys st i c \<longleftrightarrow>
     (\<forall>s inp t. s \<in> car_frame sys st i \<longrightarrow> trans_step sys s inp t \<longrightarrow> \<not> holds_in sys t c)"

definition car_all_activators :: "car \<Rightarrow> literal list" where
  "car_all_activators st = car_transition_activator st # car_error_activator st # car_activators st"

definition car_activators_ok :: "transition_system \<Rightarrow> car \<Rightarrow> bool" where
  "car_activators_ok sys st \<longleftrightarrow>
     fresh_from sys (get_next_id (car_store st)) \<and>
     (\<forall>l \<in> set (car_all_activators st). activator_ok sys (get_next_id (car_store st)) l) \<and>
     distinct (map lit_var (car_all_activators st))"

definition car_formulas_ok :: "transition_system \<Rightarrow> car \<Rightarrow> bool" where
  "car_formulas_ok sys st \<longleftrightarrow>
     car_activated_init st = activate (ts_init sys) (lit_var (car_activators st ! 0)) \<and>
     car_activated_trans st = activate (ts_trans sys) (lit_var (car_transition_activator st)) \<and>
     car_activated_error st = activate (ts_error sys) (lit_var (car_error_activator st)) \<and>
     init_negated st = negate (make_cube (init_lits sys))"

definition car_shape :: "transition_system \<Rightarrow> car \<Rightarrow> bool" where
  "car_shape sys st \<longleftrightarrow>
     car_forward st \<and> car_blocked_cubes st \<noteq> [] \<and>
     length (car_activators st) = length (car_blocked_cubes st) \<and>
     car_blocked_cubes st ! 0 = [] \<and>
     (\<forall>cubes \<in> set (car_blocked_cubes st). \<forall>c \<in> set cubes. cti_cube_ok sys c)"

definition car_trace :: "transition_system \<Rightarrow> car \<Rightarrow> bool" where
  "car_trace sys st \<longleftrightarrow>
     pdr_system sys \<and> car_activators_ok sys st \<and> car_formulas_ok sys st \<and> car_shape sys st \<and>
     (\<forall>i < car_depth st. \<forall>s t inp. s \<in> car_frame sys st i \<longrightarrow> trans_step sys s inp t \<longrightarrow>
        t \<in> car_frame sys st (Suc i)) \<and>
     (\<forall>i < car_depth st. \<forall>s inp. s \<in> car_frame sys st i \<longrightarrow> \<not> error_state sys s inp)"

section \<open>The solver's clauses and the trace\<close>

definition car_frames_sat :: "transition_system \<Rightarrow> car \<Rightarrow> assignment \<Rightarrow> bool" where
  "car_frames_sat sys st \<sigma> \<longleftrightarrow>
     (\<sigma> (lit_var (car_activators st ! 0)) \<longrightarrow> cnf_sat \<sigma> (ts_init sys)) \<and>
     (\<sigma> (lit_var (car_transition_activator st)) \<longrightarrow> cnf_sat \<sigma> (ts_trans sys)) \<and>
     (\<sigma> (lit_var (car_error_activator st)) \<longrightarrow> cnf_sat \<sigma> (ts_error sys)) \<and>
     (\<forall>j < length (car_blocked_cubes st). \<forall>c \<in> set (car_blocked_cubes st ! j).
        \<sigma> (lit_var (car_activators st ! j)) \<longrightarrow> \<not> cube_true \<sigma> c)"

definition car_agrees :: "transition_system \<Rightarrow> car \<Rightarrow> bool" where
  "car_agrees sys st \<longleftrightarrow>
     terminated (added (car_solver st)) \<and>
     (\<forall>\<sigma>. stream_sat \<sigma> (added (car_solver st)) \<longleftrightarrow> car_frames_sat sys st \<sigma>)"

definition car_solver_ok :: "transition_system \<Rightarrow> car \<Rightarrow> bool" where
  "car_solver_ok sys st \<longleftrightarrow> idle (car_solver st) \<and> (car_queries st = 0 \<or> car_agrees sys st)"

definition coframes_ok :: "car \<Rightarrow> bool" where
  "coframes_ok st \<longleftrightarrow>
     found_cubes st \<noteq> [] \<and> (\<forall>hs \<in> set (found_cubes st). \<forall>h \<in> set hs. cot_live (cotrace st) h)"

definition car_inv :: "transition_system \<Rightarrow> car \<Rightarrow> bool" where
  "car_inv sys st \<longleftrightarrow>
     car_trace sys st \<and> car_solver_ok sys st \<and> cotrace_ok sys (cotrace st) \<and> coframes_ok st"

text \<open>
  What a query may change: the solver and the query counter; with the cotrace and the coframes, a
  quiet step.
\<close>

definition car_step :: "car \<Rightarrow> car \<Rightarrow> bool" where
  "car_step st st' \<longleftrightarrow> st' = st\<lparr>car_solver := car_solver st', car_queries := car_queries st'\<rparr>"

definition quiet_step :: "car \<Rightarrow> car \<Rightarrow> bool" where
  "quiet_step st st' \<longleftrightarrow>
     st' = st\<lparr>car_solver := car_solver st', car_queries := car_queries st',
              cotrace := cotrace st', found_cubes := found_cubes st'\<rparr> \<and>
     cot_ext (cotrace st) (cotrace st')"

lemma car_sel_update [simp]:
  "car_depth (st\<lparr>car_solver := sv\<rparr>) = car_depth st" "car_depth (st\<lparr>car_queries := n\<rparr>) = car_depth st"
  "car_depth (st\<lparr>cotrace := p\<rparr>) = car_depth st" "car_depth (st\<lparr>found_cubes := f\<rparr>) = car_depth st"
  "car_depth (st\<lparr>car_store := s\<rparr>) = car_depth st"
  "blocked_at (st\<lparr>car_solver := sv\<rparr>) = blocked_at st" "blocked_at (st\<lparr>car_queries := n\<rparr>) = blocked_at st"
  "blocked_at (st\<lparr>cotrace := p\<rparr>) = blocked_at st" "blocked_at (st\<lparr>found_cubes := f\<rparr>) = blocked_at st"
  "blocked_at (st\<lparr>car_store := s\<rparr>) = blocked_at st"
  by (simp_all add: car_depth_def blocked_at_def fun_eq_iff)

lemma car_frame_update [simp]:
  "car_frame sys (st\<lparr>car_solver := sv\<rparr>) = car_frame sys st" "car_frame sys (st\<lparr>car_queries := n\<rparr>) = car_frame sys st"
  "car_frame sys (st\<lparr>cotrace := p\<rparr>) = car_frame sys st" "car_frame sys (st\<lparr>found_cubes := f\<rparr>) = car_frame sys st"
  "car_frame sys (st\<lparr>car_store := s\<rparr>) = car_frame sys st"
  by (simp_all add: car_frame_def fun_eq_iff)

lemma car_trace_update [simp]:
  "car_trace sys (st\<lparr>car_solver := sv\<rparr>) = car_trace sys st" "car_trace sys (st\<lparr>car_queries := n\<rparr>) = car_trace sys st"
  "car_trace sys (st\<lparr>cotrace := p\<rparr>) = car_trace sys st" "car_trace sys (st\<lparr>found_cubes := f\<rparr>) = car_trace sys st"
  by (simp_all add: car_trace_def car_activators_ok_def car_all_activators_def car_formulas_ok_def car_shape_def)

lemma car_frames_sat_update [simp]:
  "car_frames_sat sys (st\<lparr>car_solver := sv\<rparr>) = car_frames_sat sys st"
  "car_frames_sat sys (st\<lparr>car_queries := n\<rparr>) = car_frames_sat sys st"
  "car_frames_sat sys (st\<lparr>cotrace := p\<rparr>) = car_frames_sat sys st"
  "car_frames_sat sys (st\<lparr>found_cubes := f\<rparr>) = car_frames_sat sys st"
  "car_frames_sat sys (st\<lparr>car_store := s\<rparr>) = car_frames_sat sys st"
  by (simp_all add: car_frames_sat_def fun_eq_iff)

lemma car_agrees_update [simp]:
  "car_agrees sys (st\<lparr>car_queries := n\<rparr>) = car_agrees sys st"
  "car_agrees sys (st\<lparr>cotrace := p\<rparr>) = car_agrees sys st"
  "car_agrees sys (st\<lparr>found_cubes := f\<rparr>) = car_agrees sys st"
  "car_agrees sys (st\<lparr>car_store := s\<rparr>) = car_agrees sys st"
  by (simp_all add: car_agrees_def)

lemma car_solver_ok_update [simp]:
  "car_solver_ok sys (st\<lparr>cotrace := p\<rparr>) = car_solver_ok sys st"
  "car_solver_ok sys (st\<lparr>found_cubes := f\<rparr>) = car_solver_ok sys st"
  "car_solver_ok sys (st\<lparr>car_store := s\<rparr>) = car_solver_ok sys st"
  by (simp_all add: car_solver_ok_def)

lemma car_agrees_solver:
  "car_agrees sys st \<Longrightarrow> added sv = added (car_solver st) \<Longrightarrow> car_agrees sys (st\<lparr>car_solver := sv\<rparr>)"
  by (simp add: car_agrees_def)

lemma car_step_refl [simp]: "car_step st st"
  by (simp add: car_step_def)

lemma car_step_update [simp]: "car_step st (st\<lparr>car_solver := sv, car_queries := n\<rparr>)"
  by (simp add: car_step_def)

lemma car_step_trans: "car_step a b \<Longrightarrow> car_step b c \<Longrightarrow> car_step a c"
  unfolding car_step_def by (cases a; cases b; cases c) simp

lemma car_step_solver: "car_step st st' \<Longrightarrow> car_step st (st'\<lparr>car_solver := sv\<rparr>)"
  unfolding car_step_def by (cases st; cases st') simp

lemma car_step_queries: "car_step st st' \<Longrightarrow> car_step st (st'\<lparr>car_queries := n\<rparr>)"
  unfolding car_step_def by (cases st; cases st') simp

lemma car_step_same:
  assumes "car_step st st'"
  shows "car_trace sys st' = car_trace sys st" and "car_frame sys st' = car_frame sys st"
    and "car_depth st' = car_depth st" and "cotrace st' = cotrace st" and "found_cubes st' = found_cubes st"
    and "car_blocked_cubes st' = car_blocked_cubes st" and "car_activators st' = car_activators st"
    and "car_transition_activator st' = car_transition_activator st"
    and "car_error_activator st' = car_error_activator st" and "car_opts st' = car_opts st"
    and "car_store st' = car_store st" and "car_forward st' = car_forward st"
    and "init_negated st' = init_negated st" and "car_frames_sat sys st' = car_frames_sat sys st"
    and "codepth st' = codepth st"
proof -
  obtain sv n where st': "st' = st\<lparr>car_solver := sv, car_queries := n\<rparr>"
    using assms unfolding car_step_def by blast
  show "car_trace sys st' = car_trace sys st" "car_frame sys st' = car_frame sys st"
    "car_depth st' = car_depth st" "cotrace st' = cotrace st" "found_cubes st' = found_cubes st"
    "car_blocked_cubes st' = car_blocked_cubes st" "car_activators st' = car_activators st"
    "car_transition_activator st' = car_transition_activator st"
    "car_error_activator st' = car_error_activator st" "car_opts st' = car_opts st"
    "car_store st' = car_store st" "car_forward st' = car_forward st" "init_negated st' = init_negated st"
    "car_frames_sat sys st' = car_frames_sat sys st" "codepth st' = codepth st"
    unfolding st' by (simp_all add: codepth_def)
qed

lemma quiet_refl [simp]: "quiet_step st st"
  by (simp add: quiet_step_def)

lemma car_step_quiet: "car_step st st' \<Longrightarrow> quiet_step st st'"
  unfolding quiet_step_def car_step_def by (cases st; cases st') simp

lemma quiet_trans: "quiet_step a b \<Longrightarrow> quiet_step b c \<Longrightarrow> quiet_step a c"
  unfolding quiet_step_def by (cases a; cases b; cases c) (auto intro: cot_ext_trans)

lemma quiet_cotrace: "quiet_step st st' \<Longrightarrow> cot_ext (cotrace st') p \<Longrightarrow> quiet_step st (st'\<lparr>cotrace := p\<rparr>)"
  unfolding quiet_step_def by (cases st; cases st') (auto intro: cot_ext_trans)

lemma quiet_coframes: "quiet_step st st' \<Longrightarrow> quiet_step st (st'\<lparr>found_cubes := f\<rparr>)"
  unfolding quiet_step_def by (cases st; cases st') auto

lemma quiet_same:
  assumes "quiet_step st st'"
  shows "car_trace sys st' = car_trace sys st" and "car_frame sys st' = car_frame sys st"
    and "car_depth st' = car_depth st" and "cot_ext (cotrace st) (cotrace st')"
    and "car_blocked_cubes st' = car_blocked_cubes st" and "car_activators st' = car_activators st"
    and "car_opts st' = car_opts st" and "car_forward st' = car_forward st"
    and "car_frames_sat sys st' = car_frames_sat sys st"
proof -
  obtain sv n p f where st': "st' = st\<lparr>car_solver := sv, car_queries := n, cotrace := p, found_cubes := f\<rparr>"
    using assms unfolding quiet_step_def by blast
  show "car_trace sys st' = car_trace sys st" "car_frame sys st' = car_frame sys st"
    "car_depth st' = car_depth st" "car_blocked_cubes st' = car_blocked_cubes st"
    "car_activators st' = car_activators st" "car_opts st' = car_opts st" "car_forward st' = car_forward st"
    "car_frames_sat sys st' = car_frames_sat sys st"
    unfolding st' by simp_all
  show "cot_ext (cotrace st) (cotrace st')" using assms by (simp add: quiet_step_def)
qed

section \<open>Refreshing the solver\<close>

lemma car_activator_var:
  assumes "car_trace sys st" and "l \<in> set (car_all_activators st)"
  shows "0 < var_id (lit_var l)" and "\<not> system_var sys (lit_var l)"
    and "lit_true \<sigma> l = \<sigma> (lit_var l)" and "literal_of (lit_var l) False = l" and "l \<noteq> separator"
proof -
  have "activator_ok sys (get_next_id (car_store st)) l"
    using assms by (simp add: car_trace_def car_activators_ok_def)
  then show "0 < var_id (lit_var l)" "\<not> system_var sys (lit_var l)"
    "lit_true \<sigma> l = \<sigma> (lit_var l)" "literal_of (lit_var l) False = l" "l \<noteq> separator"
    using literal_of_var_sign [of l] by (auto simp: activator_ok_def lit_true_def)
qed

lemma car_activator_mem:
  "j < length (car_activators st) \<Longrightarrow> car_activators st ! j \<in> set (car_all_activators st)"
  by (simp add: car_all_activators_def)

lemma car_len:
  "car_trace sys st \<Longrightarrow>
   length (car_activators st) = Suc (car_depth st) \<and> length (car_blocked_cubes st) = Suc (car_depth st)"
  by (auto simp: car_trace_def car_shape_def car_depth_def)

lemma car_blocked_ok:
  "car_trace sys st \<Longrightarrow> j < length (car_blocked_cubes st) \<Longrightarrow>
   c \<in> set (car_blocked_cubes st ! j) \<Longrightarrow> cti_cube_ok sys c"
  by (auto simp: car_trace_def car_shape_def)

lemma cube_clause_sat:
  assumes "cti_cube_ok sys c" and "0 < var_id a"
  shows "cnf_sat \<sigma> (activate (negate c) a) \<longleftrightarrow> (\<sigma> a \<longrightarrow> \<not> cube_true \<sigma> c)"
    and "well_formed_cnf (activate (negate c) a)"
proof -
  have "separator \<notin> set (cube_literals c)"
    using assms(1) by (auto simp: cti_cube_ok_def dest: lits_over_sep)
  then show "cnf_sat \<sigma> (activate (negate c) a) \<longleftrightarrow> (\<sigma> a \<longrightarrow> \<not> cube_true \<sigma> c)"
    "well_formed_cnf (activate (negate c) a)"
    using assms(2) by (simp_all add: cnf_sat_negate)
qed

lemma car_assert_cubes:
  assumes "idle sv" and "terminated (added sv)" and "0 < var_id a" and "\<forall>c \<in> set cs. cti_cube_ok sys c"
  shows "let sv' = foldl (\<lambda>sv c. assert_formula sv (activate (negate c) a)) sv cs
         in idle sv' \<and> terminated (added sv') \<and>
            (\<forall>\<sigma>. stream_sat \<sigma> (added sv') \<longleftrightarrow>
               stream_sat \<sigma> (added sv) \<and> (\<forall>c \<in> set cs. \<sigma> a \<longrightarrow> \<not> cube_true \<sigma> c))"
  using assms
proof (induction cs arbitrary: sv)
  case Nil
  then show ?case by simp
next
  case (Cons c cs)
  define sv1 where "sv1 = assert_formula sv (activate (negate c) a)"
  have f: "cnf_sat \<sigma> (activate (negate c) a) \<longleftrightarrow> (\<sigma> a \<longrightarrow> \<not> cube_true \<sigma> c)"
    and t: "terminated (cnf_literals (activate (negate c) a))" for \<sigma>
    using cube_clause_sat [of sys c a] Cons.prems by (auto simp: well_formed_cnf_def)
  have 1: "idle sv1" "terminated (added sv1)"
    "\<And>\<sigma>. stream_sat \<sigma> (added sv1) \<longleftrightarrow> stream_sat \<sigma> (added sv) \<and> (\<sigma> a \<longrightarrow> \<not> cube_true \<sigma> c)"
    using Cons.prems t f by (auto simp: sv1_def terminated_append cnf_sat_def)
  from Cons.IH [OF 1(1,2) Cons.prems(3)] Cons.prems(4)
  show ?case by (auto simp: Let_def sv1_def [symmetric] 1(3))
qed

lemma assert_frame_cubes_sat:
  assumes "idle sv" and "terminated (added sv)"
    and "\<forall>(cubes, act) \<in> set frames. 0 < var_id (lit_var act) \<and> (\<forall>c \<in> set cubes. cti_cube_ok sys c)"
  shows "let sv' = assert_frame_cubes sv frames
         in idle sv' \<and> terminated (added sv') \<and>
            (\<forall>\<sigma>. stream_sat \<sigma> (added sv') \<longleftrightarrow>
               stream_sat \<sigma> (added sv) \<and>
               (\<forall>(cubes, act) \<in> set frames. \<forall>c \<in> set cubes. \<sigma> (lit_var act) \<longrightarrow> \<not> cube_true \<sigma> c))"
  using assms
proof (induction sv frames rule: assert_frame_cubes.induct)
  case (1 sv)
  then show ?case by simp
next
  case (2 sv cubes act frames)
  define sv1 where
    "sv1 = foldl (\<lambda>sv c. assert_formula sv (activate (negate c) (lit_var act))) sv cubes"
  have 1: "idle sv1" "terminated (added sv1)"
    "\<And>\<sigma>. stream_sat \<sigma> (added sv1) \<longleftrightarrow>
      stream_sat \<sigma> (added sv) \<and> (\<forall>c \<in> set cubes. \<sigma> (lit_var act) \<longrightarrow> \<not> cube_true \<sigma> c)"
    using car_assert_cubes [of sv "lit_var act" cubes sys] "2.prems" by (auto simp: Let_def sv1_def)
  from "2.IH" [folded sv1_def, OF 1(1,2)] "2.prems"(3)
  show ?case by (auto simp: Let_def sv1_def [symmetric] 1(3))
qed

lemma car_refresh_agrees:
  assumes "car_trace sys st"
  shows "car_agrees sys (car_refresh_solver st)" and "idle (car_solver (car_refresh_solver st))"
    and "car_step st (car_refresh_solver st)"
proof -
  define acts where "acts = car_activators st"
  define bl where "bl = car_blocked_cubes st"
  have wf: "well_formed_cnf (ts_init sys)" "well_formed_cnf (ts_trans sys)" "well_formed_cnf (ts_error sys)"
    using assms by (auto simp: car_trace_def pdr_system_def well_formed_system_def formula_over_def)
  have len: "length acts = length bl" "bl \<noteq> []"
    using assms by (auto simp: car_trace_def car_shape_def acts_def bl_def)
  have vars: "0 < var_id (lit_var l)" if "l \<in> set (car_all_activators st)" for l
    using car_activator_var(1) [OF assms that] .
  have v0: "0 < var_id (lit_var (acts ! 0))" "0 < var_id (lit_var (car_transition_activator st))"
    "0 < var_id (lit_var (car_error_activator st))"
    using vars car_activator_mem [of 0 st] len by (auto simp: acts_def car_all_activators_def)
  define sv0 where "sv0 = assert_formula (assert_formula (assert_formula (solver_reset (car_solver st))
      (car_activated_init st)) (car_activated_trans st)) (car_activated_error st)"
  have forms: "car_activated_init st = activate (ts_init sys) (lit_var (acts ! 0))"
    "car_activated_trans st = activate (ts_trans sys) (lit_var (car_transition_activator st))"
    "car_activated_error st = activate (ts_error sys) (lit_var (car_error_activator st))"
    using assms by (auto simp: car_trace_def car_formulas_ok_def acts_def)
  have t: "terminated (cnf_literals (activate f a))" if "well_formed_cnf f" for f a
    using well_formed_activate [OF that] by (simp add: well_formed_cnf_def)
  have sv0: "idle sv0" "terminated (added sv0)"
    "stream_sat \<sigma> (added sv0) \<longleftrightarrow>
      (\<sigma> (lit_var (acts ! 0)) \<longrightarrow> cnf_sat \<sigma> (ts_init sys)) \<and>
      (\<sigma> (lit_var (car_transition_activator st)) \<longrightarrow> cnf_sat \<sigma> (ts_trans sys)) \<and>
      (\<sigma> (lit_var (car_error_activator st)) \<longrightarrow> cnf_sat \<sigma> (ts_error sys))" for \<sigma>
    using wf v0 t by (simp_all add: sv0_def forms terminated_append cnf_sat_def [symmetric])
  define sv1 where "sv1 = assert_frame_cubes sv0 (zip bl acts)"
  have fr: "\<forall>(cubes, act) \<in> set (zip bl acts).
      0 < var_id (lit_var act) \<and> (\<forall>c \<in> set cubes. cti_cube_ok sys c)"
  proof (clarify, intro conjI ballI)
    fix cubes act assume m: "(cubes, act) \<in> set (zip bl acts)"
    show "0 < var_id (lit_var act)"
      using set_zip_rightD [OF m] vars by (simp add: acts_def car_all_activators_def)
    show "cti_cube_ok sys c" if "c \<in> set cubes" for c
      using set_zip_leftD [OF m] that assms by (auto simp: bl_def car_trace_def car_shape_def)
  qed
  have sv1: "idle sv1" "terminated (added sv1)"
    "stream_sat \<sigma> (added sv1) \<longleftrightarrow> stream_sat \<sigma> (added sv0) \<and>
      (\<forall>(cubes, act) \<in> set (zip bl acts). \<forall>c \<in> set cubes. \<sigma> (lit_var act) \<longrightarrow> \<not> cube_true \<sigma> c)" for \<sigma>
    using assert_frame_cubes_sat [OF sv0(1,2) fr] by (auto simp: Let_def sv1_def)
  have eq: "car_refresh_solver st = st\<lparr>car_solver := sv1, car_queries := 0\<rparr>"
    by (simp add: car_refresh_solver_def Let_def sv1_def sv0_def acts_def bl_def)
  have fs: "stream_sat \<sigma> (added sv1) \<longleftrightarrow> car_frames_sat sys st \<sigma>" for \<sigma>
    unfolding sv1(3) sv0(3) car_frames_sat_def using len
    by (auto simp: acts_def bl_def set_zip)
  show "car_agrees sys (car_refresh_solver st)"
    using sv1(2) fs by (simp add: eq car_agrees_def)
  show "idle (car_solver (car_refresh_solver st))" using sv1(1) by (simp add: eq)
  show "car_step st (car_refresh_solver st)" by (simp add: eq)
qed

lemma car_with_solver_ok:
  assumes "car_trace sys st" and "car_solver_ok sys st"
  shows "car_agrees sys (car_with_solver st)" and "idle (car_solver (car_with_solver st))"
    and "car_step st (car_with_solver st)"
proof -
  have "car_agrees sys (car_with_solver st) \<and> idle (car_solver (car_with_solver st)) \<and>
      car_step st (car_with_solver st)"
  proof (cases "car_queries st mod car_refresh_rate = 0")
    case True
    with car_refresh_agrees [OF assms(1)] show ?thesis
      by (simp add: car_with_solver_def Let_def car_step_queries)
  next
    case False
    then have "car_queries st \<noteq> 0" by (metis mod_0)
    with False assms(2) show ?thesis
      by (auto simp: car_with_solver_def Let_def car_solver_ok_def intro!: car_step_queries)
  qed
  then show "car_agrees sys (car_with_solver st)" "idle (car_solver (car_with_solver st))"
    "car_step st (car_with_solver st)" by auto
qed

text \<open>A finished query: the new state and the solver's answer.\<close>

lemma car_query_done:
  assumes inv: "car_inv sys st" and "sound_oracle (sat_solver E)"
    and st1: "st1 = car_with_solver st"
    and asks: "asks sv (added (car_solver st1)) A C" and "terminated C"
    and r: "is_sat E sv = (b, sv')"
  shows "sat_answer sv (added (car_solver st1)) A C (b, sv')"
    and "car_inv sys (st1\<lparr>car_solver := sv'\<rparr>)" and "car_step st (st1\<lparr>car_solver := sv'\<rparr>)"
proof -
  have tr: "car_trace sys st" and so: "car_solver_ok sys st" using inv by (auto simp: car_inv_def)
  note w = car_with_solver_ok [OF tr so, folded st1]
  have t: "terminated (added (car_solver st1))" using w(1) by (simp add: car_agrees_def)
  have ans: "sat_answer sv (added (car_solver st1)) A C (is_sat E sv)"
    by (rule is_sat_answer) (use assms t in auto)
  then show "sat_answer sv (added (car_solver st1)) A C (b, sv')" by (simp add: r)
  then have "idle sv'" "added sv' = added (car_solver st1)" by (auto simp: sat_answer_def)
  moreover show s: "car_step st (st1\<lparr>car_solver := sv'\<rparr>)" using w(3) by (rule car_step_solver)
  ultimately show "car_inv sys (st1\<lparr>car_solver := sv'\<rparr>)"
    using inv w(1) car_step_same [OF s] car_agrees_solver [of sys st1 sv']
    by (simp add: car_inv_def car_solver_ok_def coframes_ok_def)
qed

lemma car_inv_system: "car_inv sys st \<Longrightarrow> pdr_system sys \<and> well_formed_system sys \<and> functional_system sys"
  by (simp add: car_inv_def car_trace_def pdr_system_def)

end
