(* ===== verification/CarQueries.thy ===== *)
theory CarQueries
  imports CarInvariant
begin

text \<open>
  What the queries of the forward CAR engine answer, in terms of states and frames. A model of a
  query is a state of the queried frame; conversely an assignment whose state is in the frame
  extends, by setting the activators as the query assumes them, to one that satisfies the solver's
  clauses, so an unsatisfiable query says that no such state exists.
\<close>

section \<open>Models and frames\<close>

lemma car_frame_of_model:
  assumes "car_trace sys st" and "l \<le> car_depth st" and "car_frames_sat sys st m"
    and "lit_true m (car_activators st ! l)"
  shows "read (state_vars sys) m \<in> car_frame sys st l"
proof -
  have wf: "well_formed_system sys" using assms(1) by (simp add: car_trace_def pdr_system_def)
  note len = car_len [OF assms(1)]
  have act: "m (lit_var (car_activators st ! l))"
    using car_activator_var(3) [OF assms(1) car_activator_mem] assms(2,4) len by simp
  have init: "init_state sys (read (state_vars sys) m)" if "l = 0"
    using act that assms(3) wf by (simp add: car_frames_sat_def init_state_read)
  have "\<not> holds_in sys (read (state_vars sys) m) (cube_literals c)" if "c \<in> blocked_at st l" for c
  proof -
    have "c \<in> set (car_blocked_cubes st ! l)" using that by (simp add: blocked_at_def split: if_splits)
    moreover have "l < length (car_blocked_cubes st)" using assms(2) len by simp
    ultimately have "\<not> cube_true m c" "cti_cube_ok sys c"
      using act assms(3) car_blocked_ok [OF assms(1)] by (auto simp: car_frames_sat_def)
    then show ?thesis by (simp add: cti_cube_ok_def cube_true_read [of "state_vars sys" c m])
  qed
  with init show ?thesis by (simp add: car_frame_def all_states_def num_state_vars_def)
qed

text \<open>An assignment with the activators set as in a query of frame \<open>l\<close>, or of no frame.\<close>

definition car_flags :: "car \<Rightarrow> nat \<Rightarrow> bool \<Rightarrow> bool \<Rightarrow> assignment \<Rightarrow> assignment" where
  "car_flags st l bt be \<sigma> v =
     (if v \<in> lit_var ` set (car_activators st)
      then l < length (car_activators st) \<and> v = lit_var (car_activators st ! l)
      else if v = lit_var (car_transition_activator st) then bt
      else if v = lit_var (car_error_activator st) then be
      else \<sigma> v)"

lemma car_flags_sys:
  assumes "car_trace sys st" and "system_var sys v"
  shows "car_flags st l bt be \<sigma> v = \<sigma> v"
proof -
  have "v \<noteq> lit_var a" if "a \<in> set (car_all_activators st)" for a
    using car_activator_var(2) [OF assms(1) that] assms(2) by auto
  then show ?thesis by (auto simp: car_flags_def car_all_activators_def)
qed

lemma car_flags_read:
  assumes "car_trace sys st"
  shows "read (state_vars sys) (car_flags st l bt be \<sigma>) = read (state_vars sys) \<sigma>"
    and "read (input_vars sys) (car_flags st l bt be \<sigma>) = read (input_vars sys) \<sigma>"
    and "read (next_state_vars sys) (car_flags st l bt be \<sigma>) = read (next_state_vars sys) \<sigma>"
  by (rule read_eqI, rule car_flags_sys [OF assms], simp add: system_var_def)+

lemma car_flags_act:
  assumes "car_trace sys st"
  shows "j < length (car_activators st) \<Longrightarrow>
      car_flags st l bt be \<sigma> (lit_var (car_activators st ! j)) = (j = l)"
    and "car_flags st l bt be \<sigma> (lit_var (car_transition_activator st)) = bt"
    and "car_flags st l bt be \<sigma> (lit_var (car_error_activator st)) = be"
proof -
  have d: "distinct (map lit_var (car_all_activators st))"
    using assms by (simp add: car_trace_def car_activators_ok_def)
  define vs where "vs = map lit_var (car_activators st)"
  have dv: "distinct vs" "lit_var (car_transition_activator st) \<notin> set vs"
    "lit_var (car_error_activator st) \<notin> set vs"
    "lit_var (car_transition_activator st) \<noteq> lit_var (car_error_activator st)"
    using d by (auto simp: car_all_activators_def vs_def)
  have m: "lit_var ` set (car_activators st) = set vs" by (simp add: vs_def)
  show "car_flags st l bt be \<sigma> (lit_var (car_transition_activator st)) = bt"
    "car_flags st l bt be \<sigma> (lit_var (car_error_activator st)) = be"
    unfolding car_flags_def m using dv by simp_all
  assume j: "j < length (car_activators st)"
  have "l < length (car_activators st) \<and> vs ! j = vs ! l \<longleftrightarrow> j = l"
    using nth_eq_iff_index_eq [OF dv(1), of j l] j by (auto simp: vs_def)
  moreover have "vs ! j = lit_var (car_activators st ! j)" "vs ! j \<in> set vs"
    "l < length (car_activators st) \<Longrightarrow> vs ! l = lit_var (car_activators st ! l)"
    using j by (simp_all add: vs_def)
  ultimately show "car_flags st l bt be \<sigma> (lit_var (car_activators st ! j)) = (j = l)"
    unfolding car_flags_def m by auto
qed

lemma car_flags_true:
  assumes "car_trace sys st"
  shows "j < length (car_activators st) \<Longrightarrow> lit_true (car_flags st l bt be \<sigma>) (car_activators st ! j) = (j = l)"
    and "lit_true (car_flags st l bt be \<sigma>) (car_transition_activator st) = bt"
    and "lit_true (car_flags st l bt be \<sigma>) (car_error_activator st) = be"
  using car_activator_var(3) [OF assms] car_activator_mem car_flags_act [OF assms]
  by (simp_all add: car_all_activators_def)

lemma car_flags_sat:
  assumes "car_trace sys st" and "read (state_vars sys) \<sigma> \<in> car_frame sys st l"
    and "bt \<Longrightarrow> cnf_sat \<sigma> (ts_trans sys)" and "be \<Longrightarrow> cnf_sat \<sigma> (ts_error sys)"
  shows "car_frames_sat sys st (car_flags st l bt be \<sigma>)"
proof -
  define \<tau> where "\<tau> = car_flags st l bt be \<sigma>"
  have wf: "well_formed_system sys" using assms(1) by (simp add: car_trace_def pdr_system_def)
  note len = car_len [OF assms(1)]
  note flags = car_flags_act(1) [OF assms(1), of _ l bt be \<sigma>, folded \<tau>_def]
    car_flags_act(2,3) [OF assms(1), of l bt be \<sigma>, folded \<tau>_def]
  note sys = car_flags_sys [OF assms(1), of _ l bt be \<sigma>, folded \<tau>_def]
  note rd = car_flags_read(1) [OF assms(1), of l bt be \<sigma>, folded \<tau>_def]
  have tr: "cnf_sat \<tau> (ts_trans sys) = cnf_sat \<sigma> (ts_trans sys)"
    by (rule formula_over_cong [where rs = "[input_vars sys, state_vars sys, next_state_vars sys, aux_vars sys]"])
      (use wf sys in \<open>auto simp: well_formed_system_def system_var_def\<close>)
  have er: "cnf_sat \<tau> (ts_error sys) = cnf_sat \<sigma> (ts_error sys)"
    by (rule formula_over_cong [where rs = "[input_vars sys, state_vars sys, aux_vars sys]"])
      (use wf sys in \<open>auto simp: well_formed_system_def system_var_def\<close>)
  have i: "cnf_sat \<tau> (ts_init sys)" if "l = 0"
  proof -
    have "init_state sys (read (state_vars sys) \<sigma>)"
      using assms(2) that by (simp add: car_frame_def)
    then show ?thesis using init_state_read [OF wf, of \<tau>] rd by simp
  qed
  have b: "\<not> cube_true \<tau> c"
    if "l < length (car_blocked_cubes st)" "c \<in> set (car_blocked_cubes st ! l)" for c
  proof -
    have "\<not> holds_in sys (read (state_vars sys) \<sigma>) (cube_literals c)"
      using assms(2) that by (auto simp: car_frame_def blocked_at_def)
    then show ?thesis
      using car_blocked_ok [OF assms(1) that] rd
      by (simp add: cti_cube_ok_def cube_true_read [of "state_vars sys" c \<tau>])
  qed
  show ?thesis
    unfolding \<tau>_def [symmetric] car_frames_sat_def
    using flags tr er i b assms(3,4) len by auto
qed

lemma car_flags_stream:
  assumes "car_trace sys st" and "car_agrees sys st1" and "car_step st st1"
    and "read (state_vars sys) \<sigma> \<in> car_frame sys st l"
    and "bt \<Longrightarrow> cnf_sat \<sigma> (ts_trans sys)" and "be \<Longrightarrow> cnf_sat \<sigma> (ts_error sys)"
  shows "stream_sat (car_flags st l bt be \<sigma>) (added (car_solver st1))"
  using car_flags_sat [OF assms(1,4)] assms(2,3,5,6)
  by (simp add: car_agrees_def car_step_same)

text \<open>The states of a cube, as an assignment.\<close>

lemma read_of_state:
  "s \<in> all_states sys \<Longrightarrow> read (state_vars sys) (put_range (state_vars sys) s \<sigma>) = s"
  by (simp add: all_states_def num_state_vars_def)

section \<open>Blocked cubes\<close>

lemma subsumed_car_free:
  assumes tr: "car_trace sys st" and l: "l < length (car_blocked_cubes st)"
    and c: "c \<in> set (car_blocked_cubes st ! l)" "subsumes c s" and s: "cube_sorted s"
  shows "car_free sys st l (cube_literals s)"
  unfolding car_free_def
proof (intro ballI notI)
  fix u assume u: "u \<in> car_frame sys st l" "holds_in sys u (cube_literals s)"
  have "set (cube_literals c) \<subseteq> set (cube_literals s)"
    using subsumes_subset [OF _ s] car_blocked_ok [OF tr l c(1)] c(2) by (simp add: cti_cube_ok_def)
  then have "holds_in sys u (cube_literals c)" using u(2) lits_hold_subset by blast
  then show False using u(1) l c(1) by (auto simp: car_frame_def blocked_at_def)
qed

definition car_blocked_result ::
  "transition_system \<Rightarrow> car \<Rightarrow> nat \<Rightarrow> literal list \<Rightarrow> bool \<times> car \<Rightarrow> bool" where
  "car_blocked_result sys st l c r \<longleftrightarrow>
     car_inv sys (snd r) \<and> car_step st (snd r) \<and> (fst r \<longleftrightarrow> car_free sys st l c)"

abbreviation bad_lits :: "car \<Rightarrow> nat \<Rightarrow> literal list" where
  "bad_lits st h \<equiv> cube_literals (bc_state_vars (bad_at (cotrace st) h))"

lemma car_is_already_blocked_runs:
  assumes inv: "car_inv sys st" and so: "sound_oracle (sat_solver E)"
    and l: "1 \<le> co_level po" "co_level po \<le> car_depth st" and h: "cot_live (cotrace st) (co_handle po)"
  shows "runs (car_is_already_blocked E sys st po)
    (car_blocked_result sys st (co_level po) (bad_lits st (co_handle po)))"
proof -
  have tr: "car_trace sys st" and ok: "car_solver_ok sys st" and ct: "cotrace_ok sys (cotrace st)"
    using inv by (auto simp: car_inv_def)
  note len = car_len [OF tr]
  define s where "s = bc_state_vars (bad_at (cotrace st) (co_handle po))"
  note cube = cotrace_entry [OF ct h, folded s_def]
  define fr where "fr = car_blocked_cubes st ! co_level po"
  have fr: "vec_at (car_blocked_cubes st) (co_level po) = Some fr" using len l by (simp add: fr_def)
  show ?thesis
  proof (cases "list_ex (\<lambda>c. subsumes c s) fr")
    case True
    then obtain c where "c \<in> set fr" "subsumes c s" by (auto simp: list_ex_iff)
    then have "car_free sys st (co_level po) (cube_literals s)"
      using subsumed_car_free [OF tr _ _ _ cube(1), of "co_level po" c] len l by (simp add: fr_def)
    then show ?thesis
      using True l inv fr cotrace_get_live [OF h]
      by (simp add: car_is_already_blocked_def s_def [symmetric] car_blocked_result_def assert_that_holds)
  next
    case False
    define st1 where "st1 = car_with_solver st"
    note w = car_with_solver_ok [OF tr ok, folded st1_def]
    note same = car_step_same [OF w(3)]
    define act where "act = car_activators st ! co_level po"
    have al: "co_level po < length (car_activators st)" using len l by simp
    have act: "vec_at (car_activators st1) (co_level po) = Some act" using same al by (simp add: act_def)
    define sv where "sv = assume_literals (assume_literal (car_solver st1) act) (cube_literals s)"
    define A where "A = ([] @ [act]) @ cube_literals s"
    have asks: "asks sv (added (car_solver st1)) A []"
      unfolding sv_def A_def by (intro asks_assume_literals asks_assume_literal idle_asks w(2) refl)
    obtain b sv' where r: "is_sat E sv = (b, sv')" by fastforce
    note q = car_query_done [OF inv so st1_def asks terminated_Nil r]
    have run: "car_is_already_blocked E sys st po = Some (\<not> b, st1\<lparr>car_solver := sv'\<rparr>)"
      using False l fr cotrace_get_live [OF h] r act
      by (simp add: car_is_already_blocked_def s_def [symmetric] st1_def [symmetric]
          sv_def [symmetric] assert_that_holds)
    have "b \<longleftrightarrow> \<not> car_free sys st (co_level po) (cube_literals s)"
    proof
      assume b
      then obtain m where m: "stream_sat m (added (car_solver st1))" "lits_true m A"
        using q(1) by (auto simp: sat_answer_def)
      then have "car_frames_sat sys st m" using w(1) same by (simp add: car_agrees_def)
      then have "read (state_vars sys) m \<in> car_frame sys st (co_level po)"
        by (rule car_frame_of_model [OF tr l(2)]) (use m(2) in \<open>simp add: A_def act_def\<close>)
      moreover have "holds_in sys (read (state_vars sys) m) (cube_literals s)"
        using m(2) lits_true_read_iff [OF cube(2), of m] by (simp add: A_def)
      ultimately show "\<not> car_free sys st (co_level po) (cube_literals s)" by (auto simp: car_free_def)
    next
      assume "\<not> car_free sys st (co_level po) (cube_literals s)"
      then obtain u where u: "u \<in> car_frame sys st (co_level po)" "holds_in sys u (cube_literals s)"
        by (auto simp: car_free_def)
      define \<sigma> where "\<sigma> = put_range (state_vars sys) u (\<lambda>_. False)"
      define \<tau> where "\<tau> = car_flags st (co_level po) False False \<sigma>"
      have \<sigma>: "read (state_vars sys) \<sigma> = u"
        using u(1) unfolding \<sigma>_def by (intro read_of_state) (simp add: car_frame_def)
      then have rd: "read (state_vars sys) \<tau> = u" unfolding \<tau>_def by (simp add: car_flags_read(1) [OF tr])
      have "stream_sat \<tau> (added (car_solver st1))"
        unfolding \<tau>_def by (rule car_flags_stream [OF tr w(1,3)]) (use \<sigma> u in auto)
      moreover have "lits_true \<tau> (cube_literals s)"
        using lits_true_read_iff [OF cube(2), of \<tau>] rd u(2) by simp
      moreover have "lit_true \<tau> act" unfolding act_def \<tau>_def using car_flags_true(1) [OF tr al] by simp
      ultimately have "lits_true \<tau> A" by (simp add: A_def)
      then show b using sat_answer_unsat [of sv _ A "[]" sv' \<tau> b] q(1) \<open>stream_sat \<tau> _\<close> by (cases b) auto
    qed
    then show ?thesis using q(2,3) by (simp add: run car_blocked_result_def s_def)
  qed
qed

section \<open>Predecessors in a frame\<close>

text \<open>
  The answer of a query about the transitions from frame \<open>k\<close> into a cube \<open>s\<close> over state variables.
  An unsatisfiable one has a core; every part of the cube that has the core's literals is unreached.
\<close>

definition core_unreached ::
  "transition_system \<Rightarrow> car \<Rightarrow> nat \<Rightarrow> literal list \<Rightarrow> (literal \<Rightarrow> bool) \<Rightarrow> bool" where
  "core_unreached sys st k s core \<longleftrightarrow>
     (\<forall>c. set c \<subseteq> set s \<longrightarrow> (\<forall>l \<in> set s. core (primed sys l) \<longrightarrow> l \<in> set c) \<longrightarrow> unreached sys st k c) \<and>
     (\<forall>l. core l \<longrightarrow> l \<in> set (map (primed sys) s) \<or> \<not> vr_contains (next_state_vars sys) (lit_var l))"

definition step_model :: "transition_system \<Rightarrow> car \<Rightarrow> nat \<Rightarrow> literal list \<Rightarrow> assignment \<Rightarrow> bool" where
  "step_model sys st k s m \<longleftrightarrow>
     read (state_vars sys) m \<in> car_frame sys st k \<and>
     trans_step sys (read (state_vars sys) m) (read (input_vars sys) m) (read (next_state_vars sys) m) \<and>
     holds_in sys (read (next_state_vars sys) m) s"

definition reach_result ::
  "transition_system \<Rightarrow> car \<Rightarrow> nat \<Rightarrow> literal list \<Rightarrow> bool \<times> car \<Rightarrow> bool" where
  "reach_result sys st k s r \<longleftrightarrow>
     car_inv sys (snd r) \<and> car_step st (snd r) \<and>
     (if fst r
      then \<exists>m. status (car_solver (snd r)) = Satisfied m \<and> step_model sys st k s m
      else \<exists>core. status (car_solver (snd r)) = Unsatisfied core \<and> core_unreached sys st k s core)"

lemma reach_query:
  assumes inv: "car_inv sys st" and so: "sound_oracle (sat_solver E)" and k: "k \<le> car_depth st"
    and over: "lits_over (state_vars sys) s"
    and st1: "st1 = car_with_solver st"
    and asks: "asks sv (added (car_solver st1))
      (car_activators st ! k # car_transition_activator st # map (primed sys) s) []"
    and r: "is_sat E sv = (b, sv')"
  shows "reach_result sys st k s (b, st1\<lparr>car_solver := sv'\<rparr>)"
proof -
  have tr: "car_trace sys st" and ok: "car_solver_ok sys st" using inv by (auto simp: car_inv_def)
  have wf: "well_formed_system sys" using car_inv_system [OF inv] by simp
  note w = car_with_solver_ok [OF tr ok, folded st1]
  note same = car_step_same [OF w(3)]
  note q = car_query_done [OF inv so st1 asks terminated_Nil r]
  define A where "A = car_activators st ! k # car_transition_activator st # map (primed sys) s"
  have kl: "k < length (car_activators st)" using car_len [OF tr] k by simp
  have actT: "lit_true m (car_transition_activator st) = m (lit_var (car_transition_activator st))" for m
    by (rule car_activator_var(3) [OF tr]) (simp add: car_all_activators_def)
  have primes: "lits_true m (map (primed sys) s) \<longleftrightarrow> holds_in sys (read (next_state_vars sys) m) s" for m
    using lits_true_primed [OF wf over, of m] by (simp add: lits_true_def)
  show ?thesis
  proof (cases b)
    case True
    then obtain m where m: "status sv' = Satisfied m" "stream_sat m (added (car_solver st1))" "lits_true m A"
      using q(1) by (auto simp: sat_answer_def A_def)
    have fs: "car_frames_sat sys st m" using m(2) w(1) same by (simp add: car_agrees_def)
    have "cnf_sat m (ts_trans sys)" using fs m(3) actT by (simp add: car_frames_sat_def A_def)
    then have "trans_step sys (read (state_vars sys) m) (read (input_vars sys) m) (read (next_state_vars sys) m)"
      by (auto simp: trans_step_def)
    moreover have "read (state_vars sys) m \<in> car_frame sys st k"
      by (rule car_frame_of_model [OF tr k fs]) (use m(3) in \<open>simp add: A_def\<close>)
    moreover have "holds_in sys (read (next_state_vars sys) m) s" using m(3) primes by (simp add: A_def)
    ultimately show ?thesis using True m(1) q(2,3) by (auto simp: reach_result_def step_model_def)
  next
    case False
    then obtain core where core: "status sv' = Unsatisfied core" "\<forall>l. core l \<longrightarrow> l \<in> set A"
      "\<not> (\<exists>\<sigma>. stream_sat \<sigma> (added (car_solver st1)) \<and> lits_true \<sigma> (filter core A))"
      using q(1) by (auto simp: sat_answer_def A_def)
    have "unreached sys st k c"
      if c: "set c \<subseteq> set s" "\<forall>l \<in> set s. core (primed sys l) \<longrightarrow> l \<in> set c" for c
      unfolding unreached_def
    proof (intro allI impI notI)
      fix x inp t
      assume x: "x \<in> car_frame sys st k" and step: "trans_step sys x inp t" and t: "holds_in sys t c"
      from step obtain \<sigma> where \<sigma>: "cnf_sat \<sigma> (ts_trans sys)" "read (state_vars sys) \<sigma> = x"
        "read (next_state_vars sys) \<sigma> = t" by (auto simp: trans_step_def)
      define \<tau> where "\<tau> = car_flags st k True False \<sigma>"
      note rd = car_flags_read [OF tr, of k True False \<sigma>, folded \<tau>_def]
      have 1: "stream_sat \<tau> (added (car_solver st1))"
        unfolding \<tau>_def by (rule car_flags_stream [OF tr w(1,3)]) (use \<sigma> x in auto)
      have "lit_true \<tau> (primed sys l)" if "l \<in> set s" "core (primed sys l)" for l
      proof -
        have "l \<in> set c" using that c(2) by blast
        then have "lit_holds (state_vars sys) t l" using t by (simp add: lits_hold_def)
        then show ?thesis
          using lit_true_primed [OF wf, of l \<tau>] over that(1) \<sigma>(3) rd(3) by (simp add: lits_over_def)
      qed
      moreover have "lit_true \<tau> (car_activators st ! k)" "lit_true \<tau> (car_transition_activator st)"
        unfolding \<tau>_def using car_flags_true(1) [OF tr kl] car_flags_true(2) [OF tr] by simp_all
      ultimately have "lits_true \<tau> (filter core A)" by (auto simp: A_def lits_true_def)
      with 1 core(3) show False by blast
    qed
    moreover have "\<not> vr_contains (next_state_vars sys) (lit_var l)"
      if l: "core l" "l \<notin> set (map (primed sys) s)" for l
    proof -
      have "l = car_activators st ! k \<or> l = car_transition_activator st" using core(2) l by (auto simp: A_def)
      then have "l \<in> set (car_all_activators st)" using kl by (auto simp: car_all_activators_def)
      from car_activator_var(2) [OF tr this] show ?thesis by (simp add: system_var_def)
    qed
    ultimately have "core_unreached sys st k s core" by (auto simp: core_unreached_def)
    then show ?thesis using False core(1) q(2,3) by (auto simp: reach_result_def)
  qed
qed

lemma has_predecessor_runs:
  assumes inv: "car_inv sys st" and so: "sound_oracle (sat_solver E)" and i: "1 \<le> i" "i - 1 \<le> car_depth st"
    and over: "lits_over (state_vars sys) s"
  shows "runs (has_predecessor E sys st s i) (reach_result sys st (i - 1) s)"
proof -
  have tr: "car_trace sys st" and ok: "car_solver_ok sys st" using inv by (auto simp: car_inv_def)
  have wf: "well_formed_system sys" using car_inv_system [OF inv] by simp
  define st1 where "st1 = car_with_solver st"
  note w = car_with_solver_ok [OF tr ok, folded st1_def]
  note same = car_step_same [OF w(3)]
  define sv0 where "sv0 = assume_literal (assume_literal (car_solver st1) (car_activators st ! (i - 1)))
    (car_transition_activator st)"
  have "asks sv0 (added (car_solver st1)) (([] @ [car_activators st ! (i - 1)]) @ [car_transition_activator st]) []"
    unfolding sv0_def by (intro asks_assume_literal idle_asks w(2) refl)
  then have "runs (assume_mapped sv0 s (prime (debug_build E) sys))
      (\<lambda>sv'. asks sv' (added (car_solver st1))
        ((([] @ [car_activators st ! (i - 1)]) @ [car_transition_activator st]) @ map (primed sys) s) [])"
    by (rule asks_assume_mapped) (use over in \<open>auto simp: lits_over_def intro: prime_state [OF wf]\<close>)
  then obtain sv where sv: "assume_mapped sv0 s (prime (debug_build E) sys) = Some sv"
    "asks sv (added (car_solver st1)) (car_activators st ! (i - 1) # car_transition_activator st # map (primed sys) s) []"
    by (auto simp: runs_iff)
  obtain b sv' where r: "is_sat E sv = (b, sv')" by fastforce
  have "vec_at (car_activators st1) (i - 1) = Some (car_activators st ! (i - 1))"
    using same car_len [OF tr] i by simp
  then have "has_predecessor E sys st s i = Some (b, st1\<lparr>car_solver := sv'\<rparr>)"
    using i sv(1) r
    by (simp add: has_predecessor_def st1_def [symmetric] same sv0_def assert_that_holds)
  then show ?thesis using reach_query [OF inv so i(2) over st1_def sv(2) r] by simp
qed

lemma reach_result_iff:
  assumes "reach_result sys st k s r"
  shows "fst r \<longleftrightarrow> \<not> unreached sys st k s"
proof (cases "fst r")
  case True
  then show ?thesis using assms by (auto simp: reach_result_def step_model_def unreached_def)
next
  case False
  then obtain core where "core_unreached sys st k s core" using assms by (auto simp: reach_result_def)
  then have "unreached sys st k s" unfolding core_unreached_def by blast
  with False show ?thesis by simp
qed

end
