(* ===== verification/CarLift.thy ===== *)
theory CarLift
  imports CarQueries
begin

text \<open>
  Minimal cores, the lifting of predecessors and the generalisation of blocked cubes: each shrinks
  the answer of a query as long as what the answer was for stays true of it.
\<close>

section \<open>Assertions on the shape of cubes\<close>

lemma state_cube_over:
  assumes "well_formed_system sys" and "lits_over (state_vars sys) ls"
  shows "car_is_state_cube sys ls = Some True"
  unfolding car_is_state_cube_def
  using assms(2) by (induction ls) (simp_all add: get_var_info_state [OF assms(1)])

lemma next_state_cube_over:
  assumes "well_formed_system sys" and "lits_over (next_state_vars sys) ls"
  shows "is_next_state_cube sys ls = Some True"
  unfolding is_next_state_cube_def
  using assms(2) by (induction ls) (simp_all add: get_var_info_next [OF assms(1)])

lemma assert_test_holds [simp]: "b = Some True \<Longrightarrow> assert_test d b = Some ()"
  by (simp add: assert_test_def)

lemma lits_over_primed:
  assumes "well_formed_system sys" and "lits_over (state_vars sys) ls"
  shows "lits_over (next_state_vars sys) (map (primed sys) ls)"
  using assms lit_var_primed(1,3) by (auto simp: lits_over_def)

section \<open>Minimal cores\<close>

text \<open>
  The loop of \<open>get_minimal_core\<close> keeps any property of the core that larger cores inherit and that
  every unsatisfiable query gives to the core of its assumptions.
\<close>

lemma minimize_core_runs:
  assumes query: "\<And>st cs. J st \<Longrightarrow> set cs \<subseteq> S \<Longrightarrow> runs (requery st cs) (\<lambda>(sat, st'). J st' \<and>
      (\<not> sat \<longrightarrow> (\<exists>core. status (car_solver st') = Unsatisfied core \<and> good (set (filter core cs)))))"
    and mono: "\<And>X Y. good X \<Longrightarrow> X \<subseteq> Y \<Longrightarrow> Y \<subseteq> S \<Longrightarrow> good Y"
  shows "J st \<Longrightarrow> set lits \<subseteq> S \<Longrightarrow> set cs \<subseteq> S \<Longrightarrow> good (set cs) \<Longrightarrow>
    runs (minimize_core requery st lits cs) (\<lambda>(cs', st'). J st' \<and> set cs' \<subseteq> S \<and> good (set cs'))"
proof (induction lits arbitrary: st cs)
  case Nil
  then show ?case by simp
next
  case (Cons l lits)
  define cs1 where "cs1 = removeAll l cs"
  have sub: "set cs1 \<subseteq> S" using Cons.prems(3) by (auto simp: cs1_def)
  obtain sat st1 where q: "requery st cs1 = Some (sat, st1)" "J st1"
    "\<not> sat \<Longrightarrow> \<exists>core. status (car_solver st1) = Unsatisfied core \<and> good (set (filter core cs1))"
    using query [OF Cons.prems(1) sub] by (auto simp: runs_iff)
  have lits: "set lits \<subseteq> S" and lS: "l \<in> S" using Cons.prems(2) by auto
  show ?case
  proof (cases sat)
    case True
    have S: "set (cs1 @ [l]) \<subseteq> S" using sub lS by simp
    have "good (set (cs1 @ [l]))" by (rule mono [OF Cons.prems(4) _ S]) (auto simp: cs1_def)
    from Cons.IH [OF q(2) lits S this] show ?thesis using q(1) True by (simp add: cs1_def)
  next
    case False
    then obtain core where core: "status (car_solver st1) = Unsatisfied core" "good (set (filter core cs1))"
      using q(3) by blast
    have S: "set (filter core cs1) \<subseteq> S" using sub by auto
    from Cons.IH [OF q(2) lits S core(2)] show ?thesis
      using q(1) False get_core_Unsatisfied [OF core(1)] by (simp add: cs1_def)
  qed
qed

lemma get_minimal_core_runs:
  assumes "\<And>st cs. J st \<Longrightarrow> set cs \<subseteq> S \<Longrightarrow> runs (requery st cs) (\<lambda>(sat, st'). J st' \<and>
      (\<not> sat \<longrightarrow> (\<exists>core. status (car_solver st') = Unsatisfied core \<and> good (set (filter core cs)))))"
    and "\<And>X Y. good X \<Longrightarrow> X \<subseteq> Y \<Longrightarrow> Y \<subseteq> S \<Longrightarrow> good Y"
    and "J st" and "set cs \<subseteq> S" and "good (set cs)"
  shows "runs (get_minimal_core requery st cs) (\<lambda>(cs', st'). J st' \<and> set cs' \<subseteq> S \<and> good (set cs'))"
  unfolding get_minimal_core_def by (rule minimize_core_runs [OF assms(1,2)]) (use assms(3-5) in auto)

section \<open>Lifting a predecessor\<close>

text \<open>Under input \<open>y\<close> every state with the literals \<open>X\<close> steps into the cube \<open>s\<close>.\<close>

definition forces :: "transition_system \<Rightarrow> input \<Rightarrow> literal list \<Rightarrow> literal set \<Rightarrow> bool" where
  "forces sys y s X \<longleftrightarrow>
     (\<forall>u \<in> all_states sys. (\<forall>l \<in> X. lit_holds (state_vars sys) u l) \<longrightarrow>
        (\<exists>t. trans_step sys u y t \<and> holds_in sys t s))"

lemma forces_mono: "forces sys y s X \<Longrightarrow> X \<subseteq> Y \<Longrightarrow> forces sys y s Y"
  unfolding forces_def by blast

lemma car_all_frame: "car_trace sys st \<Longrightarrow> car_frame sys st (Suc (car_depth st)) = all_states sys"
  using car_len [of sys st] by (auto simp: car_frame_def blocked_at_def)

definition lift_result ::
  "transition_system \<Rightarrow> car \<Rightarrow> input \<Rightarrow> literal list \<Rightarrow> literal list \<Rightarrow> bool \<times> car \<Rightarrow> bool" where
  "lift_result sys st y s cs r \<longleftrightarrow>
     car_inv sys (snd r) \<and> car_step st (snd r) \<and>
     (if fst r
      then \<exists>u t. trans_step sys u y t \<and> holds_in sys u cs \<and> \<not> holds_in sys t s
      else \<exists>core. status (car_solver (snd r)) = Unsatisfied core \<and> forces sys y s (set (filter core cs)))"

text \<open>What the core of a failed query means.\<close>

lemma core_forces:
  assumes inv: "car_inv sys st" and st1: "car_agrees sys st1" "car_step st st1"
    and s: "lits_over (state_vars sys) s" and c: "lits_over (state_vars sys) c" and y: "length y = num_input_vars sys"
    and core: "\<not> (\<exists>\<sigma>. stream_sat \<sigma> (added (car_solver st1)) \<and> lit_true \<sigma> (car_transition_activator st) \<and>
      read (input_vars sys) \<sigma> = y \<and> lits_true \<sigma> c \<and> stream_sat \<sigma> (next_outside sys s))"
  shows "forces sys y s (set c)"
  unfolding forces_def
proof (intro ballI impI)
  have tr: "car_trace sys st" using inv by (simp add: car_inv_def)
  have wf: "well_formed_system sys" and fn: "functional_system sys" using car_inv_system [OF inv] by auto
  fix u assume u: "u \<in> all_states sys" "\<forall>l \<in> set c. lit_holds (state_vars sys) u l"
  have "length u = num_state_vars sys" using u by (simp add: all_states_def)
  then obtain t where t: "trans_step sys u y t" using fn y unfolding functional_system_def by blast
  then obtain \<sigma> where \<sigma>: "cnf_sat \<sigma> (ts_trans sys)" "read (state_vars sys) \<sigma> = u"
    "read (input_vars sys) \<sigma> = y" "read (next_state_vars sys) \<sigma> = t" by (auto simp: trans_step_def)
  define \<tau> where "\<tau> = car_flags st (Suc (car_depth st)) True False \<sigma>"
  note rd = car_flags_read [OF tr, of "Suc (car_depth st)" True False \<sigma>, folded \<tau>_def]
  have "stream_sat \<tau> (added (car_solver st1))"
    unfolding \<tau>_def by (rule car_flags_stream [OF tr st1]) (use \<sigma> u car_all_frame [OF tr] in auto)
  moreover have "lit_true \<tau> (car_transition_activator st)"
    unfolding \<tau>_def by (simp add: car_flags_true(2) [OF tr])
  moreover have "lits_true \<tau> c"
    using lits_true_read_iff [OF c, of \<tau>] rd(1) \<sigma>(2) u(2) by (simp add: lits_hold_def)
  ultimately have "\<not> stream_sat \<tau> (next_outside sys s)" using core rd(2) \<sigma>(3) by auto
  then show "\<exists>t. trans_step sys u y t \<and> holds_in sys t s"
    using next_outside_sat [OF wf s] rd(3) \<sigma>(4) t by auto
qed

lemma predecessor_query_runs:
  assumes inv: "car_inv sys st" and so: "sound_oracle (sat_solver E)"
    and s: "lits_over (state_vars sys) s" and cs: "lits_over (state_vars sys) cs"
  shows "runs (predecessor_query E sys s (valuation_of (input_vars sys) m) st cs)
    (lift_result sys st (read (input_vars sys) m) s cs)"
proof -
  have tr: "car_trace sys st" and ok: "car_solver_ok sys st" using inv by (auto simp: car_inv_def)
  have wf: "well_formed_system sys" using car_inv_system [OF inv] by auto
  then have rng: "range_ok (input_vars sys)" by (auto simp: well_formed_system_def)
  define y where "y = read (input_vars sys) m"
  define ins where "ins = valuation_of (input_vars sys) m"
  have ins_y: "lits_true \<tau> ins \<longleftrightarrow> read (input_vars sys) \<tau> = y" for \<tau>
    using lits_true_valuation [OF rng] by (simp add: ins_def y_def)
  define st1 where "st1 = car_with_solver st"
  note w = car_with_solver_ok [OF tr ok, folded st1_def]
  note same = car_step_same [OF w(3)]
  define C where "C = next_outside sys s"
  define A where "A = (([] @ [car_transition_activator st]) @ ins) @ cs"
  have "asks (car_solver st1) (added (car_solver st1)) [] []" by (intro idle_asks w(2) refl)
  from next_outside_asked [OF wf s this, of "debug_build E"]
  obtain sv0 where sv0: "constrain_not_mapped (car_solver st1) s (prime (debug_build E) sys) = Some sv0"
    "asks sv0 (added (car_solver st1)) [] C" by (auto simp: runs_iff C_def)
  define sv where "sv = assume_literals (assume_literals (assume_literal sv0 (car_transition_activator st)) ins) cs"
  have asks: "asks sv (added (car_solver st1)) A C"
    unfolding sv_def A_def by (intro asks_assume_literals asks_assume_literal sv0(2))
  obtain b sv' where r: "is_sat E sv = (b, sv')" by fastforce
  note q = car_query_done [OF inv so st1_def asks next_outside_terminated [of sys s, folded C_def] r]
  have run: "predecessor_query E sys s ins st cs = Some (b, st1\<lparr>car_solver := sv'\<rparr>)"
    using state_cube_over [OF wf cs] sv0(1) r
    by (simp add: predecessor_query_def st1_def [symmetric] same sv_def)
  have actT: "lit_true n (car_transition_activator st) = n (lit_var (car_transition_activator st))" for n
    by (rule car_activator_var(3) [OF tr]) (simp add: car_all_activators_def)
  have "lift_result sys st y s cs (b, st1\<lparr>car_solver := sv'\<rparr>)"
  proof (cases b)
    case True
    then obtain n where n: "stream_sat n (added (car_solver st1))" "lits_true n A" "stream_sat n C"
      using q(1) by (auto simp: sat_answer_def)
    then have "car_frames_sat sys st n" using w(1) same by (simp add: car_agrees_def)
    then have "cnf_sat n (ts_trans sys)" using n(2) actT by (simp add: car_frames_sat_def A_def)
    then have "trans_step sys (read (state_vars sys) n) y (read (next_state_vars sys) n)"
      using n(2) ins_y by (auto simp: trans_step_def A_def)
    moreover have "holds_in sys (read (state_vars sys) n) cs"
      using n(2) lits_true_read_iff [OF cs, of n] by (simp add: A_def)
    ultimately show ?thesis
      using True n(3) next_outside_sat [OF wf s] q(2,3) by (auto simp: lift_result_def C_def)
  next
    case False
    then obtain core where core: "status sv' = Unsatisfied core"
      "\<not> (\<exists>\<sigma>. stream_sat \<sigma> (added (car_solver st1)) \<and> lits_true \<sigma> (filter core A) \<and> stream_sat \<sigma> C)"
      using q(1) by (auto simp: sat_answer_def)
    have "forces sys y s (set (filter core cs))"
    proof (rule core_forces [OF inv w(1,3) s])
      show "lits_over (state_vars sys) (filter core cs)" using cs by (auto simp: lits_over_def)
      have "lits_true \<sigma> (filter core A)"
        if "lit_true \<sigma> (car_transition_activator st)" "lits_true \<sigma> ins" "lits_true \<sigma> (filter core cs)" for \<sigma>
        using that by (auto simp: A_def lits_true_def)
      then show "\<not> (\<exists>\<sigma>. stream_sat \<sigma> (added (car_solver st1)) \<and> lit_true \<sigma> (car_transition_activator st) \<and>
          read (input_vars sys) \<sigma> = y \<and> lits_true \<sigma> (filter core cs) \<and> stream_sat \<sigma> (next_outside sys s))"
        using core(2) ins_y by (auto simp: C_def)
    qed (simp add: y_def num_input_vars_def)
    then show ?thesis using False core(1) q(2,3) by (auto simp: lift_result_def)
  qed
  then show ?thesis using run by (simp add: ins_def y_def)
qed

definition car_pred_result ::
  "transition_system \<Rightarrow> car \<Rightarrow> nat \<Rightarrow> bad_cube_handle \<times> car \<Rightarrow> bool" where
  "car_pred_result sys st k r \<longleftrightarrow>
     car_inv sys (snd r) \<and> quiet_step st (snd r) \<and> found_cubes (snd r) = found_cubes st \<and>
     cot_live (cotrace (snd r)) (fst r) \<and> \<not> car_free sys st k (bad_lits (snd r) (fst r))"

lemma cotrace_made:
  assumes inv: "car_inv sys st" and m: "cotrace_make (cotrace st) c ci n = (h, p)"
    and new: "case n of None \<Rightarrow> bad_last sys \<lparr>bc_state_vars = c, bc_input_vars = ci, bc_successor = n\<rparr>
      | Some k \<Rightarrow> cot_live (cotrace st) k \<and>
          bad_link sys \<lparr>bc_state_vars = c, bc_input_vars = ci, bc_successor = n\<rparr> (bad_at (cotrace st) k)"
  shows "car_inv sys (st\<lparr>cotrace := p\<rparr>)" and "cot_ext (cotrace st) p" and "cot_live p h"
    and "bad_at p h = \<lparr>bc_state_vars = c, bc_input_vars = ci, bc_successor = n\<rparr>"
proof -
  have ct: "cotrace_ok sys (cotrace st)" using inv by (simp add: car_inv_def)
  note mk = cotrace_make_ok [OF ct m new]
  show "cot_ext (cotrace st) p" "cot_live p h"
    "bad_at p h = \<lparr>bc_state_vars = c, bc_input_vars = ci, bc_successor = n\<rparr>" using mk by auto
  show "car_inv sys (st\<lparr>cotrace := p\<rparr>)"
    using inv mk(1,3) by (auto simp: car_inv_def coframes_ok_def cot_ext_def)
qed

lemma car_get_predecessor_runs:
  assumes inv: "car_inv sys st" and so: "sound_oracle (sat_solver E)"
    and h: "cot_live (cotrace st) (co_handle po)"
    and m: "status (car_solver st) = Satisfied m" and sm: "step_model sys st k (bad_lits st (co_handle po)) m"
  shows "runs (car_get_predecessor E sys st po) (car_pred_result sys st k)"
proof -
  have tr: "car_trace sys st" and ct: "cotrace_ok sys (cotrace st)" using inv by (auto simp: car_inv_def)
  have wf: "well_formed_system sys" and fn: "functional_system sys" using car_inv_system [OF inv] by auto
  then have rng: "range_ok (state_vars sys)" "range_ok (input_vars sys)" by (auto simp: well_formed_system_def)
  have fwd: "car_forward st" using tr by (simp add: car_trace_def car_shape_def)
  define s where "s = bc_state_vars (bad_at (cotrace st) (co_handle po))"
  note cube = cotrace_entry [OF ct h, folded s_def]
  define x where "x = read (state_vars sys) m"
  define y where "y = read (input_vars sys) m"
  define t where "t = read (next_state_vars sys) m"
  have step: "x \<in> car_frame sys st k" "trans_step sys x y t" "holds_in sys t (cube_literals s)"
    using sm by (auto simp: step_model_def x_def y_def t_def s_def)
  define p where "p = valuation_of (state_vars sys) m"
  define ins where "ins = valuation_of (input_vars sys) m"
  have p: "lits_over (state_vars sys) p" using lits_over_valuation rng by (simp add: p_def)
  have holds_p: "holds_in sys u p \<longleftrightarrow> u = x" if "u \<in> all_states sys" for u
    using lits_hold_valuation [OF rng(1), of u m] that by (simp add: x_def p_def all_states_def num_state_vars_def)
  define J where "J = (\<lambda>st'. car_inv sys st' \<and> car_step st st')"
  have query: "runs (predecessor_query E sys (cube_literals s) ins st' cs) (lift_result sys st' y (cube_literals s) cs)"
    if "J st'" "set cs \<subseteq> set p" for st' cs
    using predecessor_query_runs [OF _ so cube(2) lits_over_subset [OF p that(2)], of st' m] that(1)
    by (simp add: ins_def y_def J_def)
  obtain b st1 where q: "predecessor_query E sys (cube_literals s) ins st p = Some (b, st1)"
    "lift_result sys st y (cube_literals s) p (b, st1)"
    using query [of st p] inv by (auto simp: runs_iff J_def)
  have "\<not> b"
  proof
    assume b
    then obtain u t' where u: "trans_step sys u y t'" "holds_in sys u p" "\<not> holds_in sys t' (cube_literals s)"
      using q(2) by (auto simp: lift_result_def)
    have "u = x" using trans_step_length [OF wf u(1)] holds_p u(2) by simp
    then have "t' = t"
      using fn u(1) step(2) trans_step_length [OF wf u(1)] unfolding functional_system_def all_states_def
      by (metis mem_Collect_eq)
    then show False using u(3) step(3) by simp
  qed
  then obtain core where core: "status (car_solver st1) = Unsatisfied core"
    "forces sys y (cube_literals s) (set (filter core p))" and J1: "J st1"
    using q(2) by (auto simp: lift_result_def J_def)
  define res where "res = (if opt_muc_predecessor (car_opts st1)
    then get_minimal_core (predecessor_query E sys (cube_literals s) ins) st1 (filter core p)
    else Some (filter core p, st1))"
  have "runs res (\<lambda>(cs, st'). J st' \<and> set cs \<subseteq> set p \<and> forces sys y (cube_literals s) (set cs))"
  proof (cases "opt_muc_predecessor (car_opts st1)")
    case True
    have "runs (get_minimal_core (predecessor_query E sys (cube_literals s) ins) st1 (filter core p))
        (\<lambda>(cs, st'). J st' \<and> set cs \<subseteq> set p \<and> forces sys y (cube_literals s) (set cs))"
    proof (rule get_minimal_core_runs)
      fix st' cs assume "J st'" "set cs \<subseteq> set p"
      then show "runs (predecessor_query E sys (cube_literals s) ins st' cs) (\<lambda>(sat, st''). J st'' \<and>
          (\<not> sat \<longrightarrow> (\<exists>core. status (car_solver st'') = Unsatisfied core \<and>
            forces sys y (cube_literals s) (set (filter core cs)))))"
        using car_step_trans
        by (intro runs_mono [OF query]) (auto simp: lift_result_def J_def split: if_splits)
    qed (use core(2) J1 in \<open>auto intro: forces_mono\<close>)
    then show ?thesis using True by (simp add: res_def)
  next
    case False
    then show ?thesis using core(2) J1 by (simp add: res_def)
  qed
  then obtain cs st2 where res: "res = Some (cs, st2)" "J st2" "set cs \<subseteq> set p" "forces sys y (cube_literals s) (set cs)"
    by (auto simp: runs_iff)
  have J2: "car_inv sys st2" "car_step st st2" using res(2) by (auto simp: J_def)
  note same = car_step_same [OF J2(2)]
  define c where "c = make_cube cs"
  define e where "e = \<lparr>bc_state_vars = c, bc_input_vars = make_cube ins, bc_successor = Some (co_handle po)\<rparr>"
  have c_over: "lits_over (state_vars sys) (cube_literals c)"
    using lits_over_subset [OF p, of "cube_literals c"] res(3) by (simp add: c_def)
  have x: "x \<in> all_states sys" "holds_in sys x (cube_literals c)"
  proof -
    show a: "x \<in> all_states sys" by (simp add: x_def all_states_def num_state_vars_def)
    then have "holds_in sys x p" using holds_p by simp
    then show "holds_in sys x (cube_literals c)" using res(3) by (auto simp: c_def lits_hold_def)
  qed
  have y: "bad_input sys e = y"
    using row_of_valuation [OF rng(2), of m] by (simp add: bad_input_def e_def ins_def y_def)
  have link: "\<exists>t. trans_step sys u y t \<and> holds_in sys t (cube_literals s)"
    if "u \<in> all_states sys" "holds_in sys u (cube_literals c)" for u
    using res(4) that by (simp add: forces_def c_def lits_hold_def)
  have shape: "bad_shape sys e"
    unfolding bad_shape_def cti_cube_ok_def using c_over x by (auto simp: e_def) (simp add: c_def)
  have "bad_link sys e (bad_at (cotrace st2) (co_handle po))"
    unfolding bad_link_def y using shape link by (simp add: e_def s_def same)
  then have new: "case Some (co_handle po) of None \<Rightarrow> bad_last sys e
      | Some k \<Rightarrow> cot_live (cotrace st2) k \<and> bad_link sys e (bad_at (cotrace st2) k)"
    using h same by simp
  obtain h' p' where mk: "cotrace_make (cotrace st2) c (make_cube ins) (Some (co_handle po)) = (h', p')" by fastforce
  note mko = cotrace_made [OF J2(1) mk new [unfolded e_def]]
  have "car_get_predecessor E sys st po = Some (h', st2\<lparr>cotrace := p'\<rparr>)"
    using cotrace_get_live [OF h] get_model_Satisfied [OF m] fwd q(1) \<open>\<not> b\<close> mk res(1) [unfolded res_def]
      get_core_Unsatisfied [OF core(1)]
    by (cases "opt_muc_predecessor (car_opts st1)")
      (simp_all add: car_get_predecessor_def Let_def s_def [symmetric] ins_def [symmetric] p_def [symmetric]
        c_def)
  moreover have "quiet_step st (st2\<lparr>cotrace := p'\<rparr>)"
    by (rule quiet_cotrace [OF car_step_quiet [OF J2(2)] mko(2)])
  moreover have "\<not> car_free sys st k (cube_literals c)"
    using step(1) x(2) by (auto simp: car_free_def)
  ultimately show ?thesis using mko(1,3,4) same by (simp add: car_pred_result_def)
qed

end
