(* ===== verification/CarGeneralize.thy ===== *)
theory CarGeneralize
  imports CarLift
begin

text \<open>
  From an unsatisfiable predecessor query to a cube to block: the core is read off the next-state
  variables, shrunk and renamed to state variables. The result is a part of the queried cube that
  no state of the frame below reaches.
\<close>

section \<open>Reading the core of a range\<close>

lemma core_of_vars_set:
  assumes "status sv = Unsatisfied core"
  shows "\<exists>ls. core_of_vars sv vs = Some ls \<and>
    set ls = {l. \<exists>v \<in> set vs. core l \<and> (l = literal_of v False \<or> (l = lit_not (literal_of v False) \<and> \<not> core (literal_of v False)))}"
proof (induction vs)
  case Nil
  then show ?case by simp
next
  case (Cons v vs)
  then obtain ls where "core_of_vars sv vs = Some ls"
    "set ls = {l. \<exists>v \<in> set vs. core l \<and> (l = literal_of v False \<or> (l = lit_not (literal_of v False) \<and> \<not> core (literal_of v False)))}"
    by blast
  then show ?case
    by (auto simp: is_in_core_Unsatisfied [OF assms] Let_def simp del: lit_not_literal_of)
qed

lemma unprime_primed:
  "well_formed_system sys \<Longrightarrow> l \<noteq> separator \<Longrightarrow> vr_contains (state_vars sys) (lit_var l) \<Longrightarrow>
   unprime d sys (primed sys l) = Some l"
  using prime_unprime [of sys l d] by (simp add: prime_state)

lemma primed_inj:
  assumes "well_formed_system sys" and "lits_over (state_vars sys) ls" and "l \<in> set ls" and "k \<in> set ls"
    and "primed sys l = primed sys k"
  shows "l = k"
proof -
  have "unprime True sys (primed sys l) = Some l" "unprime True sys (primed sys k) = Some k"
    using unprime_primed [OF assms(1)] assms(2-4) by (simp_all add: lits_over_def)
  then show ?thesis unfolding assms(5) by simp
qed

lemma unprime_all_primed:
  assumes wf: "well_formed_system sys" and over: "lits_over (state_vars sys) s"
  shows "set ls \<subseteq> primed sys ` set s \<Longrightarrow>
    \<exists>cs. unprime_all d sys ls = Some cs \<and> ls = map (primed sys) cs \<and> set cs \<subseteq> set s"
proof (induction ls)
  case Nil
  then show ?case by simp
next
  case (Cons l ls)
  then obtain cs k where "unprime_all d sys ls = Some cs" "ls = map (primed sys) cs" "set cs \<subseteq> set s"
    "k \<in> set s" "l = primed sys k" by auto
  moreover from this have "unprime d sys l = Some k"
    using over unprime_primed [OF wf] by (simp add: lits_over_def)
  ultimately show ?case by (intro exI [of _ "k # cs"]) simp
qed

lemma core_cube:
  assumes wf: "well_formed_system sys" and over: "lits_over (state_vars sys) s" and sat: "holds_in sys u s"
    and core: "status sv = Unsatisfied core" "core_unreached sys st k s core"
  shows "\<exists>ls cs. get_core_of_range sv (next_state_vars sys) = Some ls \<and> unprime_all d sys ls = Some cs \<and>
    ls = map (primed sys) cs \<and> set cs \<subseteq> set s \<and> unreached sys st k cs"
proof -
  obtain ls where ls: "get_core_of_range sv (next_state_vars sys) = Some ls"
    "set ls = {l. \<exists>v \<in> set (vr_vars (next_state_vars sys)). core l \<and>
      (l = literal_of v False \<or> (l = lit_not (literal_of v False) \<and> \<not> core (literal_of v False)))}"
    using core_of_vars_set [OF core(1), of "vr_vars (next_state_vars sys)"] by (auto simp: get_core_of_range_def)
  have pos: "0 < var_id v" if "vr_contains (next_state_vars sys) v" for v
    by (rule vr_contains_pos [OF _ that]) (use wf in \<open>simp add: well_formed_system_def\<close>)
  have sub: "set ls \<subseteq> primed sys ` set s"
  proof
    fix l assume "l \<in> set ls"
    then obtain v where v: "vr_contains (next_state_vars sys) v" "core l"
      "l = literal_of v False \<or> l = lit_not (literal_of v False)" using ls(2) by auto
    then have "vr_contains (next_state_vars sys) (lit_var l)" using pos [of v] by auto
    then show "l \<in> primed sys ` set s" using core(2) v(2) by (auto simp: core_unreached_def)
  qed
  from unprime_all_primed [OF wf over this, of d] obtain cs where
    cs: "unprime_all d sys ls = Some cs" "ls = map (primed sys) cs" "set cs \<subseteq> set s" by blast
  have "l \<in> set cs" if l: "l \<in> set s" "core (primed sys l)" for l
  proof -
    have lv: "vr_contains (state_vars sys) (lit_var l)" using over l(1) by (simp add: lits_over_def)
    note p = lit_var_primed [OF wf lv]
    define v where "v = lit_var (primed sys l)"
    have v: "vr_contains (next_state_vars sys) v" "0 < var_id v" using p(1) pos by (simp_all add: v_def)
    have lit: "primed sys l = literal_of v (\<not> lit_sign l)"
      using literal_of_var_sign [of "primed sys l"] p(4) by (simp add: v_def)
    have "\<not> core (literal_of v False)" if n: "\<not> lit_sign l"
    proof
      assume c: "core (literal_of v False)"
      have "vr_contains (next_state_vars sys) (lit_var (literal_of v False))" using v by simp
      then obtain k where k: "k \<in> set s" "primed sys k = literal_of v False"
        using core(2) c by (auto simp: core_unreached_def)
      have kv: "vr_contains (state_vars sys) (lit_var k)" using over k(1) by (simp add: lits_over_def)
      note pk = lit_var_primed [OF wf kv]
      have "lit_var (primed sys k) = lit_var (primed sys l)" using k(2) v(2) by (simp add: v_def)
      then have "vr_offset (state_vars sys) (lit_var k) = vr_offset (state_vars sys) (lit_var l)"
        using p(2) pk(2) vr_offset_nth by metis
      moreover have "lit_sign k" using k(2) pk(4) v(2) by simp
      moreover have "lit_holds (state_vars sys) u k" "lit_holds (state_vars sys) u l"
        using sat k(1) l(1) by (auto simp: lits_hold_def)
      ultimately show False using n by (simp add: lit_holds_def)
    qed
    then have "primed sys l \<in> set ls"
      using ls(2) v l(2) lit by (cases "lit_sign l") (auto intro: bexI [of _ v])
    then obtain k where "k \<in> set cs" "primed sys k = primed sys l" using cs(2) by auto
    then show ?thesis using primed_inj [OF wf over, of k l] cs(3) l(1) by auto
  qed
  then have "unreached sys st k cs" using core(2) cs(3) by (simp add: core_unreached_def)
  then show ?thesis using ls(1) cs by blast
qed

section \<open>The query of the minimal core\<close>

lemma unreached_mono: "unreached sys st k c \<Longrightarrow> set c \<subseteq> set e \<Longrightarrow> unreached sys st k e"
  unfolding unreached_def using lits_hold_subset by blast

lemma unreached_step: "car_step st st' \<Longrightarrow> unreached sys st' k c = unreached sys st k c"
  by (simp add: unreached_def car_step_same)

lemma blocked_query_runs:
  assumes inv: "car_inv sys st" and so: "sound_oracle (sat_solver E)" and k: "1 \<le> k" "k - 1 \<le> car_depth st"
    and over: "lits_over (state_vars sys) cs"
  shows "runs (blocked_query E sys k st (map (primed sys) cs)) (reach_result sys st (k - 1) cs)"
proof -
  have tr: "car_trace sys st" and ok: "car_solver_ok sys st" using inv by (auto simp: car_inv_def)
  have wf: "well_formed_system sys" using car_inv_system [OF inv] by simp
  define st1 where "st1 = car_with_solver st"
  note w = car_with_solver_ok [OF tr ok, folded st1_def]
  note same = car_step_same [OF w(3)]
  define sv where "sv = assume_literals (assume_literal (assume_literal (car_solver st1) (car_activators st ! (k - 1)))
    (car_transition_activator st)) (map (primed sys) cs)"
  have "asks sv (added (car_solver st1))
      ((([] @ [car_activators st ! (k - 1)]) @ [car_transition_activator st]) @ map (primed sys) cs) []"
    unfolding sv_def by (intro asks_assume_literal asks_assume_literals idle_asks w(2) refl)
  then have asks: "asks sv (added (car_solver st1))
      (car_activators st ! (k - 1) # car_transition_activator st # map (primed sys) cs) []" by simp
  obtain b sv' where r: "is_sat E sv = (b, sv')" by fastforce
  have "vec_at (car_activators st1) (k - 1) = Some (car_activators st ! (k - 1))"
    using same car_len [OF tr] k by simp
  then have "blocked_query E sys k st (map (primed sys) cs) = Some (b, st1\<lparr>car_solver := sv'\<rparr>)"
    using next_state_cube_over [OF wf lits_over_primed [OF wf over]] r
    by (simp add: blocked_query_def st1_def [symmetric] same sv_def)
  then show ?thesis using reach_query [OF inv so k(2) over st1_def asks r] by simp
qed

text \<open>The property of next-state literals \<open>X\<close> that the loop keeps.\<close>

definition image_unreached ::
  "transition_system \<Rightarrow> car \<Rightarrow> nat \<Rightarrow> literal list \<Rightarrow> literal set \<Rightarrow> bool" where
  "image_unreached sys st k s X \<longleftrightarrow>
     (\<forall>c. set c \<subseteq> set s \<longrightarrow> X \<subseteq> primed sys ` set c \<longrightarrow> unreached sys st k c)"

lemma image_unreached_core:
  assumes wf: "well_formed_system sys" and over: "lits_over (state_vars sys) s"
    and c0: "set c0 \<subseteq> set s" and core: "core_unreached sys st k c0 core"
  shows "image_unreached sys st k s (set (filter core (map (primed sys) c0)))"
  unfolding image_unreached_def
proof (intro allI impI)
  fix c assume c: "set c \<subseteq> set s" "set (filter core (map (primed sys) c0)) \<subseteq> primed sys ` set c"
  define c' where "c' = filter (\<lambda>l. l \<in> set c0) c"
  have "l \<in> set c'" if l: "l \<in> set c0" "core (primed sys l)" for l
  proof -
    have "primed sys l \<in> primed sys ` set c" using c(2) l by auto
    then obtain k where "k \<in> set c" "primed sys l = primed sys k" by auto
    then show ?thesis using primed_inj [OF wf over, of l k] c(1) c0 l(1) by (auto simp: c'_def)
  qed
  moreover have "set c' \<subseteq> set c0" by (auto simp: c'_def)
  ultimately have "unreached sys st k c'" using core unfolding core_unreached_def by blast
  then show "unreached sys st k c" by (rule unreached_mono) (simp add: c'_def)
qed

section \<open>The cube to block\<close>

definition general_result ::
  "transition_system \<Rightarrow> car \<Rightarrow> nat \<Rightarrow> literal list \<Rightarrow> cube \<times> car \<Rightarrow> bool" where
  "general_result sys st k s r \<longleftrightarrow>
     car_inv sys (snd r) \<and> car_step st (snd r) \<and> cti_cube_ok sys (fst r) \<and>
     set (cube_literals (fst r)) \<subseteq> set s \<and> unreached sys st k (cube_literals (fst r))"

lemma general_cube:
  assumes "lits_over (state_vars sys) s" and "u \<in> all_states sys" and "holds_in sys u s" and "set cs \<subseteq> set s"
  shows "cti_cube_ok sys (make_cube cs)"
  using assms lits_over_subset [of "state_vars sys" s "cube_literals (make_cube cs)"]
  by (auto simp: cti_cube_ok_def lits_hold_def)

lemma generalize_blocked_runs:
  assumes inv: "car_inv sys st" and so: "sound_oracle (sat_solver E)"
    and l: "1 \<le> co_level po" "co_level po - 1 \<le> car_depth st" and h: "cot_live (cotrace st) (co_handle po)"
    and core: "status (car_solver st) = Unsatisfied core"
      "core_unreached sys st (co_level po - 1) (bad_lits st (co_handle po)) core"
  shows "runs (generalize_blocked E sys st po)
    (general_result sys st (co_level po - 1) (bad_lits st (co_handle po)))"
proof -
  define s where "s = bad_lits st (co_handle po)"
  define k where "k = co_level po - 1"
  have ct: "cotrace_ok sys (cotrace st)" using inv by (simp add: car_inv_def)
  have wf: "well_formed_system sys" using car_inv_system [OF inv] by simp
  note cube = cotrace_entry(2,3) [OF ct h, folded s_def]
  then obtain u where u: "u \<in> all_states sys" "holds_in sys u s" by blast
  obtain ls cs where ls: "get_core_of_range (car_solver st) (next_state_vars sys) = Some ls"
    "unprime_all (debug_build E) sys ls = Some cs" "ls = map (primed sys) cs" "set cs \<subseteq> set s" "unreached sys st k cs"
    using core_cube [OF wf cube(1) u(2) core(1), of st k "debug_build E"] core(2) by (auto simp: s_def k_def)
  show ?thesis
  proof (cases "opt_muc_blocked (car_opts st)")
    case False
    then have "generalize_blocked E sys st po = Some (make_cube cs, st)"
      using ls(1,2) by (simp add: generalize_blocked_def)
    then show ?thesis
      using inv ls(4) general_cube [OF cube(1) u ls(4)] unreached_mono [OF ls(5), of "cube_literals (make_cube cs)"]
      unfolding general_result_def s_def [symmetric] k_def [symmetric] by simp
  next
    case True
    define J where "J = (\<lambda>st'. car_inv sys st' \<and> car_step st st')"
    have seed: "image_unreached sys st k s (set ls)"
      unfolding image_unreached_def
    proof (intro allI impI)
      fix c assume c: "set c \<subseteq> set s" "set ls \<subseteq> primed sys ` set c"
      have "set cs \<subseteq> set c"
      proof
        fix l assume l: "l \<in> set cs"
        then obtain k where "k \<in> set c" "primed sys l = primed sys k" using c(2) ls(3) by auto
        then show "l \<in> set c" using primed_inj [OF wf cube(1), of l k] l ls(4) c(1) by auto
      qed
      then show "unreached sys st k c" by (rule unreached_mono [OF ls(5)])
    qed
    have "runs (get_minimal_core (blocked_query E sys (co_level po)) st ls)
      (\<lambda>(cs', st'). J st' \<and> set cs' \<subseteq> primed sys ` set s \<and> image_unreached sys st k s (set cs'))"
    proof (rule get_minimal_core_runs)
      fix st' ps assume J: "J st'" and ps: "set ps \<subseteq> primed sys ` set s"
      obtain c0 where c0: "ps = map (primed sys) c0" "set c0 \<subseteq> set s"
        using unprime_all_primed [OF wf cube(1) ps] by blast
      have "runs (blocked_query E sys (co_level po) st' (map (primed sys) c0)) (reach_result sys st' k c0)"
        unfolding k_def
        by (rule blocked_query_runs [OF _ so l(1) _ lits_over_subset [OF cube(1) c0(2)]])
          (use J l(2) car_step_same(3) [of st st'] in \<open>auto simp: J_def\<close>)
      then show "runs (blocked_query E sys (co_level po) st' ps) (\<lambda>(sat, st''). J st'' \<and>
          (\<not> sat \<longrightarrow> (\<exists>core. status (car_solver st'') = Unsatisfied core \<and>
            image_unreached sys st k s (set (filter core ps)))))"
        unfolding c0(1)
      proof (rule runs_mono, clarify)
        fix sat st'' assume r: "reach_result sys st' k c0 (sat, st'')"
        have J'': "J st''" using r J car_step_trans [of st st' st''] by (auto simp: reach_result_def J_def)
        moreover have "\<exists>core. status (car_solver st'') = Unsatisfied core \<and>
            image_unreached sys st k s (set (filter core (map (primed sys) c0)))" if n: "\<not> sat"
        proof -
          obtain core where core: "status (car_solver st'') = Unsatisfied core" "core_unreached sys st' k c0 core"
            using r n by (auto simp: reach_result_def)
          then have "core_unreached sys st k c0 core"
            using J unreached_step [of st st' sys k] by (simp add: core_unreached_def J_def)
          from image_unreached_core [OF wf cube(1) c0(2) this] core(1) show ?thesis by blast
        qed
        ultimately show "J st'' \<and> (\<not> sat \<longrightarrow> (\<exists>core. status (car_solver st'') = Unsatisfied core \<and>
            image_unreached sys st k s (set (filter core (map (primed sys) c0)))))" by blast
      qed
    next
      show "image_unreached sys st k s Y" if "image_unreached sys st k s X" "X \<subseteq> Y" for X Y
        using that unfolding image_unreached_def by blast
    qed (use inv ls(3,4) seed in \<open>auto simp: J_def\<close>)
    then obtain ps st' where ps: "get_minimal_core (blocked_query E sys (co_level po)) st ls = Some (ps, st')"
      "J st'" "set ps \<subseteq> primed sys ` set s" "image_unreached sys st k s (set ps)" by (auto simp: runs_iff)
    obtain c where c: "unprime_all (debug_build E) sys ps = Some c" "ps = map (primed sys) c" "set c \<subseteq> set s"
      using unprime_all_primed [OF wf cube(1) ps(3)] by blast
    have "unreached sys st k c" using ps(4) c(2,3) by (auto simp: image_unreached_def)
    moreover have "generalize_blocked E sys st po = Some (make_cube c, st')"
      using True ls(1) ps(1) c(1) by (simp add: generalize_blocked_def)
    ultimately show ?thesis
      using ps(2) c(3) general_cube [OF cube(1) u c(3)] unreached_mono [of sys st k c "cube_literals (make_cube c)"]
      unfolding general_result_def s_def [symmetric] k_def [symmetric] by (simp add: J_def)
  qed
qed

end
