(* ===== verification/CarBlocking.thy ===== *)
theory CarBlocking
  imports CarGeneralize
begin

text \<open>
  Changes of the state: \<open>add_reaching_at\<close> changes one coframe, \<open>get_error_state\<close> adds a new error
  state to the cotrace, \<open>add_blocked_at\<close> takes the states of a cube out of one frame, \<open>push_frame\<close>
  adds a frame of all states. All keep the invariant.
\<close>

section \<open>Coframes\<close>

lemma push_coframes_eq:
  "\<exists>n. push_coframes level st = st\<lparr>found_cubes := found_cubes st @ replicate n []\<rparr> \<and>
     level < length (found_cubes st) + n"
proof (induction level st rule: push_coframes.induct)
  case (1 level st)
  show ?case
  proof (cases "codepth st < int level")
    case True
    then obtain n where n: "push_coframes level (push_coframe st) =
        (push_coframe st)\<lparr>found_cubes := found_cubes (push_coframe st) @ replicate n []\<rparr>"
      "level < length (found_cubes (push_coframe st)) + n" using 1 by blast
    have "push_coframes level st = st\<lparr>found_cubes := found_cubes st @ replicate (Suc n) []\<rparr>"
      using n(1) True by (simp add: push_coframes.simps [of level st] push_coframe_def)
    moreover have "level < length (found_cubes st) + Suc n" using n(2) by (simp add: push_coframe_def)
    ultimately show ?thesis by blast
  next
    case False
    then have "push_coframes level st = st\<lparr>found_cubes := found_cubes st @ replicate 0 []\<rparr>"
      "level < length (found_cubes st) + 0"
      by (simp_all add: push_coframes.simps [of level st] codepth_def)
    then show ?thesis by blast
  qed
qed

lemma drop_reaching_runs:
  assumes "\<forall>h \<in> set hs. cot_live p h"
  shows "runs (drop_reaching d p c i hs) (\<lambda>hs'. set hs' \<subseteq> set hs)"
  using assms
proof (induction d p c i hs rule: drop_reaching.induct)
  case (1 d p c i hs)
  show ?case
  proof (cases "i < length hs")
    case False
    then show ?thesis by (simp add: drop_reaching.simps [of d p c i hs])
  next
    case True
    then have live: "cot_live p (hs ! i)" using "1.prems" by simp
    note get = cotrace_get_live [OF live, of d]
    show ?thesis
    proof (cases "subsumes c (bc_state_vars (bad_at p (hs ! i)))")
      case sub: True
      have "hs \<noteq> []" using True by auto
      then have "set (butlast (hs[i := last hs])) \<subseteq> set hs"
        by (meson in_set_butlastD insert_subset last_in_set order_refl set_update_subsetI subsetI subset_trans)
      moreover from this have "runs (drop_reaching d p c i (butlast (hs[i := last hs])))
          (\<lambda>hs'. set hs' \<subseteq> set (butlast (hs[i := last hs])))"
        using "1.IH"(1) [OF True get] sub "1.prems" by auto
      ultimately show ?thesis
        using True sub get runs_mono [of _ "\<lambda>hs'. set hs' \<subseteq> set (butlast (hs[i := last hs]))" "\<lambda>hs'. set hs' \<subseteq> set hs"]
        by (subst drop_reaching.simps) auto
    next
      case False
      then have "runs (drop_reaching d p c (Suc i) hs) (\<lambda>hs'. set hs' \<subseteq> set hs)"
        using "1.IH"(2) [OF True get] "1.prems" by auto
      then show ?thesis using True False get by (subst drop_reaching.simps) simp
    qed
  qed
qed

definition reaching_result :: "transition_system \<Rightarrow> car \<Rightarrow> nat \<Rightarrow> car \<Rightarrow> bool" where
  "reaching_result sys st level st' \<longleftrightarrow>
     car_inv sys st' \<and> quiet_step st st' \<and> cotrace st' = cotrace st \<and>
     length (found_cubes st) \<le> length (found_cubes st') \<and> level < length (found_cubes st') \<and>
     (\<forall>j < length (found_cubes st). j \<noteq> level \<longrightarrow> found_cubes st' ! j = found_cubes st ! j)"

lemma add_reaching_at_runs:
  assumes inv: "car_inv sys st" and h: "cot_live (cotrace st) h"
  shows "runs (add_reaching_at d st h level) (reaching_result sys st level)"
proof -
  obtain n where n: "push_coframes level st = st\<lparr>found_cubes := found_cubes st @ replicate n []\<rparr>"
    "level < length (found_cubes st) + n" using push_coframes_eq by blast
  define fs where "fs = found_cubes st @ replicate n []"
  have lv: "level < length fs" using n(2) by (simp add: fs_def)
  have live: "\<forall>hs \<in> set fs. \<forall>h \<in> set hs. cot_live (cotrace st) h" and ne: "found_cubes st \<noteq> []"
    using inv by (auto simp: car_inv_def coframes_ok_def fs_def)
  have "\<forall>h \<in> set (fs ! level). cot_live (cotrace st) h" using live nth_mem [OF lv] by blast
  from drop_reaching_runs [OF this, of d "bc_state_vars (bad_at (cotrace st) h)" 0]
  obtain hs where hs: "drop_reaching d (cotrace st) (bc_state_vars (bad_at (cotrace st) h)) 0 (fs ! level) = Some hs"
    "set hs \<subseteq> set (fs ! level)" by (auto simp: runs_iff)
  define st' where "st' = st\<lparr>found_cubes := fs[level := hs @ [h]]\<rparr>"
  have run: "add_reaching_at d st h level = Some st'"
    using n(1) lv hs(1) cotrace_get_live [OF h, of d] by (simp add: add_reaching_at_def fs_def st'_def)
  have "\<forall>gs \<in> set (fs[level := hs @ [h]]). \<forall>h \<in> set gs. cot_live (cotrace st) h"
  proof
    fix gs assume "gs \<in> set (fs[level := hs @ [h]])"
    then have "gs = hs @ [h] \<or> gs \<in> set fs" using set_update_subset_insert by fastforce
    moreover have "fs ! level \<in> set fs" using lv by simp
    ultimately show "\<forall>h \<in> set gs. cot_live (cotrace st) h" using live hs(2) h by auto
  qed
  then have "car_inv sys st'" using inv ne by (simp add: car_inv_def coframes_ok_def st'_def fs_def)
  moreover have "quiet_step st st'" unfolding st'_def by (rule quiet_coframes) simp
  moreover have "fs[level := hs @ [h]] ! j = found_cubes st ! j" if "j < length (found_cubes st)" "j \<noteq> level" for j
    using that by (simp add: fs_def nth_append)
  ultimately show ?thesis using lv run by (simp add: reaching_result_def st'_def fs_def)
qed

section \<open>Error states\<close>

definition car_error_result ::
  "transition_system \<Rightarrow> car \<Rightarrow> bad_cube_handle option \<times> car \<Rightarrow> bool" where
  "car_error_result sys st r \<longleftrightarrow>
     car_inv sys (snd r) \<and> quiet_step st (snd r) \<and>
     (case fst r of
        None \<Rightarrow> \<forall>s \<in> car_frame sys st (car_depth st). \<forall>i. \<not> error_state sys s i
      | Some h \<Rightarrow> cot_live (cotrace (snd r)) h \<and>
          (\<exists>s \<in> car_frame sys st (car_depth st). holds_in sys s (bad_lits (snd r) h)))"

lemma get_error_state_runs:
  assumes inv: "car_inv sys st" and so: "sound_oracle (sat_solver E)"
  shows "runs (get_error_state E sys st) (car_error_result sys st)"
proof -
  have tr: "car_trace sys st" and ok: "car_solver_ok sys st" using inv by (auto simp: car_inv_def)
  have wf: "well_formed_system sys" using car_inv_system [OF inv] by simp
  then have rng: "range_ok (state_vars sys)" "range_ok (input_vars sys)"
    by (auto simp: well_formed_system_def)
  note len = car_len [OF tr]
  define st1 where "st1 = car_with_solver st"
  note w = car_with_solver_ok [OF tr ok, folded st1_def]
  note same = car_step_same [OF w(3)]
  define act where "act = car_activators st ! car_depth st"
  have act: "vec_at (car_activators st1) (car_depth st1) = Some act" using same len by (simp add: act_def)
  have actE: "lit_true m (car_error_activator st) = m (lit_var (car_error_activator st))" for m
    by (rule car_activator_var(3) [OF tr]) (simp add: car_all_activators_def)
  define sv where "sv = assume_literal (assume_literal (car_solver st1) act) (car_error_activator st)"
  define A where "A = ([] @ [act]) @ [car_error_activator st]"
  have asks: "asks sv (added (car_solver st1)) A []"
    unfolding sv_def A_def by (intro asks_assume_literal idle_asks w(2) refl)
  obtain b sv' where r: "is_sat E sv = (b, sv')" by fastforce
  note q = car_query_done [OF inv so st1_def asks terminated_Nil r]
  define st2 where "st2 = st1\<lparr>car_solver := sv'\<rparr>"
  have s2: "car_inv sys st2" "car_step st st2" using q(2,3) by (simp_all add: st2_def)
  show ?thesis
  proof (cases b)
    case False
    have "\<not> error_state sys s i" if s: "s \<in> car_frame sys st (car_depth st)" for s i
    proof
      assume "error_state sys s i"
      then obtain \<sigma> where \<sigma>: "cnf_sat \<sigma> (ts_error sys)" "read (state_vars sys) \<sigma> = s"
        by (auto simp: error_state_def)
      define \<tau> where "\<tau> = car_flags st (car_depth st) False True \<sigma>"
      have "stream_sat \<tau> (added (car_solver st1))"
        unfolding \<tau>_def by (rule car_flags_stream [OF tr w(1,3)]) (use \<sigma> s in auto)
      moreover have "lits_true \<tau> A"
        unfolding A_def act_def \<tau>_def using car_flags_true(1,3) [OF tr] len by simp
      ultimately show False using sat_answer_unsat q(1) False by (metis stream_sat_Nil)
    qed
    moreover have "get_error_state E sys st = Some (None, st2)"
      using False r act len
      by (simp add: get_error_state_def st1_def [symmetric] same sv_def [symmetric] st2_def assert_that_holds)
    ultimately show ?thesis using s2 by (simp add: car_error_result_def car_step_quiet)
  next
    case True
    then obtain m where m: "status sv' = Satisfied m" "stream_sat m (added (car_solver st1))" "lits_true m A"
      using q(1) by (auto simp: sat_answer_def)
    define s where "s = read (state_vars sys) m"
    have fs: "car_frames_sat sys st m" using m(2) w(1) same by (simp add: car_agrees_def)
    have s: "s \<in> car_frame sys st (car_depth st)" unfolding s_def
      by (rule car_frame_of_model [OF tr _ fs]) (use m(3) in \<open>simp_all add: A_def act_def\<close>)
    define c where "c = make_cube (valuation_of (state_vars sys) m)"
    define ci where "ci = make_cube (valuation_of (input_vars sys) m)"
    define e where "e = \<lparr>bc_state_vars = c, bc_input_vars = ci, bc_successor = None\<rparr>"
    obtain h p where p: "cotrace_make (cotrace st2) c ci None = (h, p)" by fastforce
    have cube: "holds_in sys t (cube_literals c) \<longleftrightarrow> t = s" if "t \<in> all_states sys" for t
      using lits_hold_valuation [OF rng(1), of t m] that
      by (simp add: c_def s_def lits_hold_def all_states_def num_state_vars_def)
    have sa: "s \<in> all_states sys" using s by (simp add: car_frame_def)
    have "cnf_sat m (ts_error sys)" using fs m(3) actE by (simp add: car_frames_sat_def A_def)
    then have "error_state sys s (read (input_vars sys) m)" by (auto simp: error_state_def s_def)
    moreover have "bad_input sys e = read (input_vars sys) m"
      using row_of_valuation [OF rng(2), of m] by (simp add: bad_input_def e_def ci_def)
    moreover have "lits_over (state_vars sys) (cube_literals c)"
      using lits_over_valuation [OF rng(1), of m] by (simp add: lits_over_def c_def)
    then have "bad_shape sys e"
      using cube sa by (auto simp: bad_shape_def cti_cube_ok_def e_def ci_def) (simp add: c_def)
    ultimately have last: "bad_last sys e" using cube by (simp add: bad_last_def) (simp add: e_def)
    then have new: "case None of None \<Rightarrow> bad_last sys \<lparr>bc_state_vars = c, bc_input_vars = ci, bc_successor = None\<rparr>
      | Some k \<Rightarrow> cot_live (cotrace st2) k \<and>
          bad_link sys \<lparr>bc_state_vars = c, bc_input_vars = ci, bc_successor = None\<rparr> (bad_at (cotrace st2) k)"
      by (simp add: e_def)
    note mk = cotrace_made [OF s2(1) p new]
    obtain st3 where st3: "add_reaching_at (debug_build E) (st2\<lparr>cotrace := p\<rparr>) h 0 = Some st3"
      "reaching_result sys (st2\<lparr>cotrace := p\<rparr>) 0 st3"
      using add_reaching_at_runs [OF mk(1), of h] mk(3) by (auto simp: runs_iff)
    have c2: "cotrace st2 = cotrace st1" by (simp add: st2_def)
    have "get_error_state E sys st = Some (Some h, st3)"
      using True r act len get_model_Satisfied [OF m(1)] p st3(1)
      by (simp add: get_error_state_def st1_def [symmetric] same sv_def [symmetric] st2_def assert_that_holds
          c_def [symmetric] ci_def [symmetric])
    moreover have "quiet_step st st3"
      using quiet_trans [OF quiet_cotrace [OF car_step_quiet [OF s2(2)] mk(2)]] st3(2)
      by (simp add: reaching_result_def)
    ultimately show ?thesis
      using mk(3,4) s cube [OF sa] st3(2) by (auto simp: car_error_result_def reaching_result_def)
  qed
qed

section \<open>Blocking a cube\<close>

definition car_block_result :: "transition_system \<Rightarrow> car \<Rightarrow> cube \<Rightarrow> nat \<Rightarrow> car \<Rightarrow> bool" where
  "car_block_result sys st c k st' \<longleftrightarrow>
     car_inv sys st' \<and> cotrace st' = cotrace st \<and> found_cubes st' = found_cubes st \<and>
     car_depth st' = car_depth st \<and> car_opts st' = car_opts st \<and>
     (\<forall>j. j \<noteq> k \<longrightarrow> car_frame sys st' j = car_frame sys st j) \<and>
     car_frame sys st' k = {s \<in> car_frame sys st k. \<not> holds_in sys s (cube_literals c)} \<and>
     (\<forall>j. j \<noteq> k \<longrightarrow> car_blocked_cubes st' ! j = car_blocked_cubes st ! j)"

lemma car_add_blocked_at_runs:
  assumes inv: "car_inv sys st" and c: "cti_cube_ok sys c" and k: "1 \<le> k" "k \<le> car_depth st"
    and un: "unreached sys st (k - 1) (cube_literals c)"
  shows "runs (car_add_blocked_at d sys st c k) (car_block_result sys st c k)"
proof -
  have tr: "car_trace sys st" and ok: "car_solver_ok sys st" using inv by (auto simp: car_inv_def)
  have wf: "well_formed_system sys" using car_inv_system [OF inv] by simp
  note len = car_len [OF tr]
  define F where "F = car_blocked_cubes st ! k"
  define B where "B = (car_blocked_cubes st)[k := swap_remove_from (subsumes c) 0 F @ [c]]"
  define act where "act = lit_var (car_activators st ! k)"
  define st' where "st' = st\<lparr>car_blocked_cubes := B,
    car_solver := assert_formula (car_solver st) (activate (negate c) act)\<rparr>"
  have kl: "k < length (car_blocked_cubes st)" "k < length (car_activators st)" using len k by auto
  have run: "car_add_blocked_at d sys st c k = Some st'"
    using k kl state_cube_over [OF wf, of "cube_literals c"] c
    by (simp add: car_add_blocked_at_def assert_that_holds cti_cube_ok_def st'_def B_def F_def act_def)
  have Bj: "B ! j = car_blocked_cubes st ! j" if "j \<noteq> k" for j using that by (simp add: B_def)
  have Bk: "set (B ! k) = insert c {e \<in> set F. \<not> subsumes c e}" using kl by (simp add: B_def)
  have Bl: "length B = length (car_blocked_cubes st)" by (simp add: B_def)
  have F_ok: "cti_cube_ok sys e" if "e \<in> set F" for e
    using car_blocked_ok [OF tr kl(1)] that by (simp add: F_def)
  have sub: "set (cube_literals c) \<subseteq> set (cube_literals e)" if "e \<in> set F" "subsumes c e" for e
    using subsumes_subset [of c e] F_ok [OF that(1)] c that(2) by (simp add: cti_cube_ok_def)
  have dep: "car_depth st' = car_depth st" by (simp add: car_depth_def st'_def Bl)
  have frj: "car_frame sys st' j = car_frame sys st j" if "j \<noteq> k" for j
    using Bj [OF that] by (simp add: car_frame_def blocked_at_def st'_def Bl)
  have frk: "car_frame sys st' k = {s \<in> car_frame sys st k. \<not> holds_in sys s (cube_literals c)}"
  proof -
    have "(\<forall>e \<in> set (B ! k). \<not> holds_in sys s (cube_literals e)) \<longleftrightarrow>
        (\<forall>e \<in> set F. \<not> holds_in sys s (cube_literals e)) \<and> \<not> holds_in sys s (cube_literals c)" for s
      unfolding Bk using sub lits_hold_subset by blast
    moreover have "blocked_at st' k = set (B ! k)" "blocked_at st k = set F"
      using kl by (simp_all add: blocked_at_def st'_def Bl F_def)
    ultimately show ?thesis unfolding car_frame_def by blast
  qed
  have sub_fr: "car_frame sys st' j \<subseteq> car_frame sys st j" for j
    using frj [of j] frk by (cases "j = k") auto
  have old: "car_shape sys st" "car_activators_ok sys st" "car_formulas_ok sys st" "pdr_system sys"
    "\<And>i s t inp. i < car_depth st \<Longrightarrow> s \<in> car_frame sys st i \<Longrightarrow> trans_step sys s inp t \<Longrightarrow>
        t \<in> car_frame sys st (Suc i)"
    "\<And>i s inp. i < car_depth st \<Longrightarrow> s \<in> car_frame sys st i \<Longrightarrow> \<not> error_state sys s inp"
    using tr by (auto simp: car_trace_def)
  have shape: "car_shape sys st'"
  proof -
    have "\<forall>e \<in> set (B ! j). cti_cube_ok sys e" if "j < length B" for j
    proof (cases "j = k")
      case True
      then show ?thesis using Bk c F_ok by auto
    next
      case False
      then show ?thesis using Bj car_blocked_ok [OF tr] that Bl by auto
    qed
    then have "\<forall>cubes \<in> set B. \<forall>e \<in> set cubes. cti_cube_ok sys e"
      by (metis in_set_conv_nth)
    moreover have "B ! 0 = []" using Bj [of 0] k old(1) by (simp add: car_shape_def)
    moreover have "B \<noteq> []" using Bl len by auto
    ultimately show ?thesis using old(1) Bl by (simp add: car_shape_def st'_def)
  qed
  have aok: "car_activators_ok sys st'"
    using old(2) by (simp add: car_activators_ok_def car_all_activators_def st'_def)
  have fok: "car_formulas_ok sys st'" using old(3) by (simp add: car_formulas_ok_def st'_def)
  have step: "t \<in> car_frame sys st' (Suc i)"
    if i: "i < car_depth st" "s \<in> car_frame sys st' i" "trans_step sys s inp t" for i s t inp
  proof -
    have s: "s \<in> car_frame sys st i" using i(2) sub_fr by blast
    then have t: "t \<in> car_frame sys st (Suc i)" using old(5) i by blast
    show ?thesis
    proof (cases "Suc i = k")
      case True
      then have "\<not> holds_in sys t (cube_literals c)" using un s i(3) unfolding unreached_def by auto
      then show ?thesis using t frk True by simp
    next
      case False
      then show ?thesis using t frj by simp
    qed
  qed
  have safe': "\<not> error_state sys s inp" if "i < car_depth st" "s \<in> car_frame sys st' i" for i s inp
    using old(6) [OF that(1)] sub_fr that(2) by blast
  have "car_trace sys st'" unfolding car_trace_def dep using old(4) aok fok shape step safe' by blast
  moreover have "car_solver_ok sys st'"
  proof -
    have pos: "0 < var_id act"
      unfolding act_def by (rule car_activator_var(1) [OF tr car_activator_mem [OF kl(2)]])
    note bc = cube_clause_sat [OF c pos]
    have "car_agrees sys st'" if ag: "car_agrees sys st"
    proof -
      have t: "terminated (added (car_solver st))" using ag by (simp add: car_agrees_def)
      have idle: "idle (car_solver st)" using ok by (simp add: car_solver_ok_def)
      have added: "added (car_solver st') = added (car_solver st) @ cnf_literals (activate (negate c) act)"
        using idle by (simp add: st'_def)
      have sat: "stream_sat \<sigma> (added (car_solver st')) \<longleftrightarrow>
          car_frames_sat sys st \<sigma> \<and> (\<sigma> act \<longrightarrow> \<not> cube_true \<sigma> c)" for \<sigma>
        using added bc(1) [of \<sigma>] t ag by (simp add: cnf_sat_def car_agrees_def)
      have cubes: "(\<forall>j < length B. \<forall>e \<in> set (B ! j). \<sigma> (lit_var (car_activators st ! j)) \<longrightarrow> \<not> cube_true \<sigma> e) \<longleftrightarrow>
          (\<forall>j < length B. \<forall>e \<in> set (car_blocked_cubes st ! j). \<sigma> (lit_var (car_activators st ! j)) \<longrightarrow> \<not> cube_true \<sigma> e) \<and>
          (\<sigma> act \<longrightarrow> \<not> cube_true \<sigma> c)" (is "?L \<longleftrightarrow> ?R") for \<sigma>
      proof -
        have one: "(\<forall>e \<in> set (B ! j). \<sigma> (lit_var (car_activators st ! j)) \<longrightarrow> \<not> cube_true \<sigma> e) \<longleftrightarrow>
          (\<forall>e \<in> set (car_blocked_cubes st ! j). \<sigma> (lit_var (car_activators st ! j)) \<longrightarrow> \<not> cube_true \<sigma> e) \<and>
          (j = k \<longrightarrow> \<sigma> act \<longrightarrow> \<not> cube_true \<sigma> c)" for j
        proof (cases "j = k")
          case True
          have "cube_true \<sigma> c" if "e \<in> set F" "subsumes c e" "cube_true \<sigma> e" for e
            using sub [OF that(1,2)] that(3) by (auto simp: cube_true_def)
          then show ?thesis unfolding True Bk F_def [symmetric] act_def by blast
        next
          case False
          then show ?thesis using Bj by simp
        qed
        show ?thesis unfolding one using kl(1) Bl by auto
      qed
      have "stream_sat \<sigma> (added (car_solver st')) \<longleftrightarrow> car_frames_sat sys st' \<sigma>" for \<sigma>
        unfolding sat car_frames_sat_def using cubes [of \<sigma>] Bl by (auto simp: st'_def)
      moreover have "terminated (added (car_solver st'))"
        using added bc(2) t by (simp add: terminated_append well_formed_cnf_def)
      ultimately show ?thesis by (simp add: car_agrees_def)
    qed
    then show ?thesis using ok by (auto simp: car_solver_ok_def st'_def)
  qed
  ultimately have "car_inv sys st'"
    using inv by (simp add: car_inv_def coframes_ok_def st'_def)
  then show ?thesis using run dep frj frk Bj by (simp add: car_block_result_def st'_def)
qed

end
