(* ===== verification/CarSolve.thy ===== *)
theory CarSolve
  imports CarBlocking
begin

text \<open>
  The obligation loop. The invariant of its queue: live handles, levels within the trace, an initial
  state in every cube at level 0, colevels not below that of the starting obligation; the starting
  obligation is queued or its cube is blocked at the top. The loop ends because each round shrinks
  a frame, or else removes a blocked obligation, or else lowers the least level. The coframes up to
  the colevel it starts with stay as they are, so the iterators of \<open>check_existing_cotrace\<close> remain
  valid.
\<close>

section \<open>The queue\<close>

lemma set_car_push [simp]: "set (car_push x q) = insert x (set q)"
  by (simp add: car_push_def set_insort_key)

lemma sorted_car_push [simp]: "sorted q \<Longrightarrow> sorted (car_push x q)"
  by (simp add: car_push_def sorted_insort)

lemma mset_car_push [simp]: "mset (car_push x q) = add_mset x (mset q)"
  by (simp add: car_push_def)

lemma car_push_Nil [simp]: "car_push x q \<noteq> []"
  by (simp add: car_push_def)

lemma car_obligation_le_level: "(a :: car_obligation) \<le> b \<Longrightarrow> co_level a \<le> co_level b"
  by (auto simp: less_eq_car_obligation_def obligation_le_def)

lemma car_hd_least: "sorted q \<Longrightarrow> x \<in> set q \<Longrightarrow> co_level (hd q) \<le> co_level x"
  by (cases q) (auto intro: car_obligation_le_level)

section \<open>The invariant\<close>

definition car_obligation_ok :: "transition_system \<Rightarrow> nat \<Rightarrow> car \<Rightarrow> car_obligation \<Rightarrow> bool" where
  "car_obligation_ok sys j0 st po \<longleftrightarrow>
     cot_live (cotrace st) (co_handle po) \<and> co_level po \<le> car_depth st \<and> j0 \<le> co_colevel po \<and>
     (co_level po = 0 \<longrightarrow> (\<exists>s. init_state sys s \<and> holds_in sys s (bad_lits st (co_handle po))))"

definition car_queue_inv :: "transition_system \<Rightarrow> nat \<Rightarrow> car \<Rightarrow> car_queue \<Rightarrow> bool" where
  "car_queue_inv sys j0 st q \<longleftrightarrow>
     car_inv sys st \<and> sorted q \<and> (\<forall>po \<in> set q. car_obligation_ok sys j0 st po)"

definition coframes_kept :: "nat \<Rightarrow> car \<Rightarrow> car \<Rightarrow> bool" where
  "coframes_kept j0 st st' \<longleftrightarrow>
     length (found_cubes st) \<le> length (found_cubes st') \<and>
     (\<forall>j \<le> j0. j < length (found_cubes st) \<longrightarrow> found_cubes st' ! j = found_cubes st ! j)"

definition car_shrunk :: "transition_system \<Rightarrow> nat \<Rightarrow> car \<Rightarrow> car \<Rightarrow> bool" where
  "car_shrunk sys j0 st st' \<longleftrightarrow>
     car_depth st' = car_depth st \<and> cot_ext (cotrace st) (cotrace st') \<and> coframes_kept j0 st st' \<and>
     (\<forall>j. car_frame sys st' j \<subseteq> car_frame sys st j)"

lemma coframes_kept_trans: "coframes_kept j a b \<Longrightarrow> coframes_kept j b c \<Longrightarrow> coframes_kept j a c"
  by (auto simp: coframes_kept_def)

lemma car_shrunk_refl [simp]: "car_shrunk sys j0 st st"
  by (simp add: car_shrunk_def coframes_kept_def)

lemma car_shrunk_trans:
  "car_shrunk sys j0 a b \<Longrightarrow> car_shrunk sys j0 b c \<Longrightarrow> car_shrunk sys j0 a c"
  unfolding car_shrunk_def by (auto intro: cot_ext_trans coframes_kept_trans)

lemma step_shrunk: "car_step st st' \<Longrightarrow> car_shrunk sys j0 st st'"
  by (simp add: car_shrunk_def car_step_same coframes_kept_def)

lemma car_shrunk_free:
  "car_shrunk sys j0 st st' \<Longrightarrow> car_free sys st l c \<Longrightarrow> car_free sys st' l c"
  by (auto simp: car_shrunk_def car_free_def)

lemma car_shrunk_lits:
  "car_shrunk sys j0 st st' \<Longrightarrow> cot_live (cotrace st) h \<Longrightarrow>
   bad_lits st' h = bad_lits st h \<and> cot_live (cotrace st') h"
  by (simp add: car_shrunk_def cot_ext_def)

lemma car_obligation_ok_mono:
  assumes "car_obligation_ok sys j0 st po" and "car_shrunk sys j0 st st'"
  shows "car_obligation_ok sys j0 st' po"
  using assms car_shrunk_lits [OF assms(2), of "co_handle po"]
  by (auto simp: car_obligation_ok_def car_shrunk_def)

section \<open>Termination\<close>

definition car_mass :: "transition_system \<Rightarrow> car \<Rightarrow> nat" where
  "car_mass sys st = (\<Sum>j \<le> car_depth st. card (car_frame sys st j))"

definition car_num_blocked :: "transition_system \<Rightarrow> car \<Rightarrow> car_queue \<Rightarrow> nat" where
  "car_num_blocked sys st q =
     size (filter_mset (\<lambda>po. car_free sys st (co_level po) (bad_lits st (co_handle po))) (mset q))"

definition car_queue_order :: "transition_system \<Rightarrow> ((car \<times> car_queue) \<times> (car \<times> car_queue)) set" where
  "car_queue_order sys = measures
     [\<lambda>(st, q). car_mass sys st, \<lambda>(st, q). car_num_blocked sys st q,
      \<lambda>(st, q). if q = [] then 0 else co_level (hd q)]"

lemma wf_car_queue_order: "wf (car_queue_order sys)"
  by (simp add: car_queue_order_def)

lemma finite_car_frame [simp]: "finite (car_frame sys st j)"
  by (rule finite_subset [OF _ finite_all_states [of sys]]) (auto simp: car_frame_def)

lemma car_mass_less:
  assumes "car_shrunk sys j0 st st'" and "l \<le> car_depth st"
    and "\<not> car_free sys st l c" and "car_free sys st' l c"
  shows "car_mass sys st' < car_mass sys st"
proof -
  have sub: "car_frame sys st' j \<subseteq> car_frame sys st j" for j using assms(1) by (simp add: car_shrunk_def)
  have "car_frame sys st' l \<subset> car_frame sys st l"
    using sub [of l] assms(3,4) by (auto simp: car_free_def)
  then have "card (car_frame sys st' l) < card (car_frame sys st l)" by (rule psubset_card_mono [rotated]) simp
  moreover have "car_depth st' = car_depth st" using assms(1) by (simp add: car_shrunk_def)
  ultimately show ?thesis
    unfolding car_mass_def
    using assms(2) sub by (auto intro!: sum_strict_mono_ex1 card_mono)
qed

lemma car_num_blocked_quiet:
  assumes "quiet_step st st'" and "\<forall>po \<in> set q. cot_live (cotrace st) (co_handle po)"
  shows "car_num_blocked sys st' q = car_num_blocked sys st q"
  unfolding car_num_blocked_def
  using assms(2) quiet_same(2,4) [OF assms(1)]
  by (intro arg_cong [where f = size] filter_mset_cong refl) (auto simp: cot_ext_def car_free_def)

section \<open>One round\<close>

definition car_start_ok :: "transition_system \<Rightarrow> car \<Rightarrow> car_queue \<Rightarrow> bad_cube_handle \<Rightarrow> bool" where
  "car_start_ok sys st q h \<longleftrightarrow>
     cot_live (cotrace st) h \<and>
     ((\<exists>po \<in> set q. co_level po = car_depth st \<and> co_handle po = h) \<or>
      car_free sys st (car_depth st) (bad_lits st h))"

definition car_round_ok ::
  "transition_system \<Rightarrow> nat \<Rightarrow> car \<Rightarrow> car_queue \<Rightarrow> car \<Rightarrow> car_queue \<Rightarrow> bool" where
  "car_round_ok sys j0 st q st' q' \<longleftrightarrow>
     car_queue_inv sys j0 st' q' \<and> car_shrunk sys j0 st st' \<and>
     (\<forall>h. car_start_ok sys st q h \<longrightarrow> car_start_ok sys st' q' h) \<and>
     ((st', q'), (st, q)) \<in> car_queue_order sys"

lemma car_start_ok_step:
  assumes "car_start_ok sys st q h" and "car_shrunk sys j0 st st'"
    and "\<And>po. po \<in> set q \<Longrightarrow> po \<in> set q' \<or>
      (co_level po = car_depth st \<longrightarrow> car_free sys st' (car_depth st) (bad_lits st (co_handle po)))"
  shows "car_start_ok sys st' q' h"
proof -
  have live: "cot_live (cotrace st) h" using assms(1) by (simp add: car_start_ok_def)
  have e: "bad_lits st' h = bad_lits st h" "cot_live (cotrace st') h" "car_depth st' = car_depth st"
    using car_shrunk_lits [OF assms(2) live] assms(2) by (auto simp: car_shrunk_def)
  show ?thesis
  proof (cases "car_free sys st (car_depth st) (bad_lits st h)")
    case True
    then show ?thesis using e car_shrunk_free [OF assms(2)] by (simp add: car_start_ok_def)
  next
    case False
    then obtain po where po: "po \<in> set q" "co_level po = car_depth st" "co_handle po = h"
      using assms(1) by (auto simp: car_start_ok_def)
    then show ?thesis using assms(3) [OF po(1)] e by (auto simp: car_start_ok_def)
  qed
qed

lemma car_round_blocked:
  assumes q: "car_queue_inv sys j0 st (po # q)" and s: "car_step st st'" and inv: "car_inv sys st'"
    and free: "car_free sys st (co_level po) (bad_lits st (co_handle po))"
  shows "car_round_ok sys j0 st (po # q) st' q"
proof -
  note sh = step_shrunk [OF s, of sys j0]
  have live: "\<forall>p \<in> set (po # q). cot_live (cotrace st) (co_handle p)"
    using q by (auto simp: car_queue_inv_def car_obligation_ok_def)
  have "car_queue_inv sys j0 st' q"
    using q inv car_obligation_ok_mono [OF _ sh] by (auto simp: car_queue_inv_def)
  moreover have "car_start_ok sys st' q h" if "car_start_ok sys st (po # q) h" for h
    using that sh
  proof (rule car_start_ok_step)
    fix p assume "p \<in> set (po # q)"
    then show "p \<in> set q \<or> (co_level p = car_depth st \<longrightarrow> car_free sys st' (car_depth st) (bad_lits st (co_handle p)))"
      using car_shrunk_free [OF sh free] by auto
  qed
  moreover have "car_num_blocked sys st' q < car_num_blocked sys st (po # q)"
    using car_num_blocked_quiet [OF car_step_quiet [OF s], of q sys] live free by (simp add: car_num_blocked_def)
  moreover have "car_mass sys st' = car_mass sys st"
    using car_step_same(2,3) [OF s] by (simp add: car_mass_def)
  ultimately show ?thesis using sh by (simp add: car_round_ok_def car_queue_order_def)
qed

lemma car_round_unreached:
  assumes q: "car_queue_inv sys j0 st (po # q)" and s: "car_step st st1"
    and nf: "\<not> car_free sys st (co_level po) (bad_lits st (co_handle po))"
    and c: "set (cube_literals c) \<subseteq> set (bad_lits st (co_handle po))"
    and b: "car_block_result sys st1 c (co_level po) st2"
    and q': "q' = (if repush \<and> co_level po < car_depth st2
      then car_push (Car_obligation (co_level po + 1) (co_colevel po) (co_handle po)) q else q)"
  shows "car_round_ok sys j0 st (po # q) st2 q'"
proof -
  have ok: "car_obligation_ok sys j0 st po" and srt: "sorted q" and oks: "\<forall>p \<in> set q. car_obligation_ok sys j0 st p"
    using q by (auto simp: car_queue_inv_def)
  note same = car_step_same [OF s]
  have fr: "car_frame sys st2 j \<subseteq> car_frame sys st j" for j
    using b same(2) by (cases "j = co_level po") (auto simp: car_block_result_def)
  have sh: "car_shrunk sys j0 st st2"
    using b same fr by (simp add: car_shrunk_def car_block_result_def coframes_kept_def)
  have lev: "co_level po \<le> car_depth st" using ok by (simp add: car_obligation_ok_def)
  have free: "car_free sys st2 (co_level po) (bad_lits st (co_handle po))"
    unfolding car_free_def
  proof
    fix u assume "u \<in> car_frame sys st2 (co_level po)"
    then have "\<not> holds_in sys u (cube_literals c)" using b by (simp add: car_block_result_def)
    then show "\<not> holds_in sys u (bad_lits st (co_handle po))" using c lits_hold_subset by blast
  qed
  have dep: "car_depth st2 = car_depth st" using sh by (simp add: car_shrunk_def)
  have new: "car_obligation_ok sys j0 st2 (Car_obligation (co_level po + 1) (co_colevel po) (co_handle po))"
    if "co_level po < car_depth st"
    using that car_obligation_ok_mono [OF ok sh] dep by (simp add: car_obligation_ok_def)
  have inv2: "car_inv sys st2" using b by (simp add: car_block_result_def)
  have "car_queue_inv sys j0 st2 q'"
    using inv2 srt oks car_obligation_ok_mono [OF _ sh] new q' dep by (auto simp: car_queue_inv_def)
  moreover have "car_start_ok sys st2 q' h" if "car_start_ok sys st (po # q) h" for h
    using that sh
  proof (rule car_start_ok_step)
    fix p assume "p \<in> set (po # q)"
    then show "p \<in> set q' \<or> (co_level p = car_depth st \<longrightarrow> car_free sys st2 (car_depth st) (bad_lits st (co_handle p)))"
      using free q' by auto
  qed
  moreover have "car_mass sys st2 < car_mass sys st"
    by (rule car_mass_less [OF sh lev nf free])
  ultimately show ?thesis using sh by (simp add: car_round_ok_def car_queue_order_def)
qed

lemma car_round_predecessor:
  assumes q: "car_queue_inv sys j0 st (po # q)" and s: "quiet_step st st2"
    and inv2: "car_inv sys st2" and kept: "coframes_kept j0 st st2"
    and nf: "\<not> car_free sys st (co_level po) (bad_lits st (co_handle po))" and l: "1 \<le> co_level po"
    and live: "cot_live (cotrace st2) h'"
    and nf': "\<not> car_free sys st (co_level po - 1) (bad_lits st2 h')"
  shows "car_round_ok sys j0 st (po # q) st2
    (car_push po (car_push (Car_obligation (co_level po - 1) (co_colevel po + 1) h') q))"
proof -
  define new where "new = Car_obligation (co_level po - 1) (co_colevel po + 1) h'"
  define q' where "q' = car_push po (car_push new q)"
  have ok: "car_obligation_ok sys j0 st po" and srt: "sorted q" "\<forall>p \<in> set q. po \<le> p"
    and oks: "\<forall>p \<in> set q. car_obligation_ok sys j0 st p"
    using q by (auto simp: car_queue_inv_def)
  note same = quiet_same [OF s]
  have sh: "car_shrunk sys j0 st st2" using same kept by (simp add: car_shrunk_def)
  have lv: "\<forall>p \<in> set (po # q). cot_live (cotrace st) (co_handle p)"
    using q by (auto simp: car_queue_inv_def car_obligation_ok_def)
  have fr: "car_free sys st2 = car_free sys st" using same(2) by (simp add: car_free_def fun_eq_iff)
  have new_ok: "car_obligation_ok sys j0 st2 new"
  proof -
    have "\<exists>s. init_state sys s \<and> holds_in sys s (bad_lits st2 h')" if "co_level po = 1"
      using nf' that by (auto simp: car_free_def car_frame_def)
    then show ?thesis
      using ok live same(3) l by (auto simp: car_obligation_ok_def new_def)
  qed
  have inv': "car_queue_inv sys j0 st2 q'"
    using inv2 srt(1) new_ok ok oks car_obligation_ok_mono [OF _ sh] by (auto simp: car_queue_inv_def q'_def)
  moreover have "car_start_ok sys st2 q' h" if "car_start_ok sys st (po # q) h" for h
    using that sh by (rule car_start_ok_step) (auto simp: q'_def)
  moreover have "car_num_blocked sys st2 q' = car_num_blocked sys st (po # q)"
  proof -
    have "\<not> car_free sys st2 (co_level new) (bad_lits st2 (co_handle new))"
      using nf' by (simp add: new_def fr)
    moreover have "\<not> car_free sys st2 (co_level po) (bad_lits st2 (co_handle po))"
      using nf car_shrunk_lits [OF sh, of "co_handle po"] lv by (simp add: fr)
    ultimately have "car_num_blocked sys st2 q' = car_num_blocked sys st2 q"
      by (simp add: car_num_blocked_def q'_def)
    also have "\<dots> = car_num_blocked sys st q" by (rule car_num_blocked_quiet [OF s]) (use lv in simp)
    finally show ?thesis using nf by (simp add: car_num_blocked_def)
  qed
  moreover have "car_mass sys st2 = car_mass sys st" using same(2,3) by (simp add: car_mass_def)
  moreover have "co_level (hd q') < co_level po"
  proof -
    have "co_level (hd q') \<le> co_level new"
      by (rule car_hd_least) (use inv' in \<open>auto simp: car_queue_inv_def q'_def\<close>)
    then show ?thesis using l by (simp add: new_def)
  qed
  moreover have "q' \<noteq> []" by (simp add: q'_def)
  ultimately show ?thesis
    unfolding q'_def [symmetric] new_def [symmetric]
    using sh by (simp add: car_round_ok_def car_queue_order_def)
qed

section \<open>The loop\<close>

definition car_solve_result ::
  "transition_system \<Rightarrow> nat \<Rightarrow> car \<Rightarrow> car_queue \<Rightarrow> counterexample option \<times> car \<Rightarrow> bool" where
  "car_solve_result sys j0 st q r \<longleftrightarrow>
     (case fst r of
        Some cex \<Rightarrow> cex_ok sys cex
      | None \<Rightarrow> car_inv sys (snd r) \<and> car_shrunk sys j0 st (snd r) \<and>
          (\<forall>h. car_start_ok sys st q h \<longrightarrow> car_free sys (snd r) (car_depth st) (bad_lits (snd r) h)))"

lemma car_solve_result_step:
  assumes "car_round_ok sys j0 st q st' q'" and "car_solve_result sys j0 st' q' r"
  shows "car_solve_result sys j0 st q r"
proof -
  have "car_depth st' = car_depth st" using assms(1) by (simp add: car_round_ok_def car_shrunk_def)
  then show ?thesis
    using assms car_shrunk_trans [of sys j0 st st' "snd r"]
    by (auto simp: car_solve_result_def car_round_ok_def split: option.splits)
qed

lemma car_solve_round:
  assumes so: "sound_oracle (sat_solver E)" and q: "car_queue_inv sys j0 st (po # q)" and l: "co_level po \<noteq> 0"
    and rec: "\<And>st' q'. car_round_ok sys j0 st (po # q) st' q' \<Longrightarrow>
      runs (car_solve_queue E sys st' q') (car_solve_result sys j0 st' q')"
  shows "runs (car_solve_queue E sys st (po # q)) (car_solve_result sys j0 st (po # q))"
proof -
  have rec': "runs (car_solve_queue E sys st' q') (car_solve_result sys j0 st (po # q))"
    if "car_round_ok sys j0 st (po # q) st' q'" for st' q'
    by (rule runs_mono [OF rec [OF that]]) (rule car_solve_result_step [OF that])
  have inv: "car_inv sys st" and ok: "car_obligation_ok sys j0 st po" using q by (auto simp: car_queue_inv_def)
  have lv: "1 \<le> co_level po" "co_level po \<le> car_depth st" "cot_live (cotrace st) (co_handle po)" "j0 \<le> co_colevel po"
    using ok l by (auto simp: car_obligation_ok_def)
  define s where "s = bad_lits st (co_handle po)"
  obtain b st1 where b: "car_is_already_blocked E sys st po = Some (b, st1)"
    "car_blocked_result sys st (co_level po) s (b, st1)"
    using car_is_already_blocked_runs [OF inv so lv(1-3)] by (auto simp: runs_iff s_def)
  then have s1: "car_inv sys st1" "car_step st st1" "b \<longleftrightarrow> car_free sys st (co_level po) s"
    by (auto simp: car_blocked_result_def)
  note same1 = car_step_same [OF s1(2)]
  show ?thesis
  proof (cases b)
    case True
    have "car_round_ok sys j0 st (po # q) st1 q"
      by (rule car_round_blocked [OF q s1(2,1)]) (use True s1(3) in \<open>simp add: s_def\<close>)
    from rec' [OF this] show ?thesis
      using b(1) l True by (subst car_solve_queue.simps) simp
  next
    case False
    then have nf: "\<not> car_free sys st (co_level po) (bad_lits st (co_handle po))" using s1(3) by (simp add: s_def)
    have over: "lits_over (state_vars sys) s"
      using inv lv(3) cotrace_entry(2) [of sys "cotrace st"] by (simp add: car_inv_def s_def)
    have get: "cotrace_get (debug_build E) (cotrace st1) (co_handle po) = Some (bad_at (cotrace st) (co_handle po))"
      using cotrace_get_live lv(3) same1 by simp
    have lm1: "co_level po - 1 \<le> car_depth st1" unfolding same1(3) using lv(2) by arith
    obtain pre st2 where p: "has_predecessor E sys st1 s (co_level po) = Some (pre, st2)"
      "reach_result sys st1 (co_level po - 1) s (pre, st2)"
      using has_predecessor_runs [OF s1(1) so lv(1) lm1 over] by (auto simp: runs_iff)
    have s2: "car_inv sys st2" "car_step st1 st2" using p(2) by (auto simp: reach_result_def)
    have s02: "car_step st st2" by (rule car_step_trans [OF s1(2) s2(2)])
    note same2 = car_step_same [OF s02]
    have lm2: "co_level po - 1 \<le> car_depth st2" unfolding same2(3) using lv(2) by arith
    have lits2: "bad_lits st2 (co_handle po) = s" "cot_live (cotrace st2) (co_handle po)"
      using same2 lv(3) by (simp_all add: s_def)
    show ?thesis
    proof (cases pre)
      case True
      then obtain m where m: "status (car_solver st2) = Satisfied m" "step_model sys st1 (co_level po - 1) s m"
        using p(2) by (auto simp: reach_result_def)
      have sm: "step_model sys st2 (co_level po - 1) (bad_lits st2 (co_handle po)) m"
        using m(2) same1(2) same2(2) by (simp add: step_model_def lits2)
      obtain h' st3 where g: "car_get_predecessor E sys st2 po = Some (h', st3)"
        "car_pred_result sys st2 (co_level po - 1) (h', st3)"
        using car_get_predecessor_runs [OF s2(1) so lits2(2) m(1) sm] by (auto simp: runs_iff)
      then have s3: "car_inv sys st3" "quiet_step st2 st3" "found_cubes st3 = found_cubes st2"
        "cot_live (cotrace st3) h'" "\<not> car_free sys st2 (co_level po - 1) (bad_lits st3 h')"
        by (auto simp: car_pred_result_def)
      obtain st4 where a: "add_reaching_at (debug_build E) st3 h' (co_colevel po + 1) = Some st4"
        "reaching_result sys st3 (co_colevel po + 1) st4"
        using add_reaching_at_runs [OF s3(1,4)] by (auto simp: runs_iff)
      have kept: "coframes_kept j0 st st4"
        using a(2) s3(3) same2 lv(4) by (auto simp: coframes_kept_def reaching_result_def)
      have "car_round_ok sys j0 st (po # q) st4
        (car_push po (car_push (Car_obligation (co_level po - 1) (co_colevel po + 1) h') q))"
      proof (rule car_round_predecessor [OF q _ _ kept nf lv(1)])
        show "quiet_step st st4"
          using quiet_trans [OF quiet_trans [OF car_step_quiet [OF s02] s3(2)]] a(2) by (simp add: reaching_result_def)
        show "car_inv sys st4" "cot_live (cotrace st4) h'" using a(2) s3(4) by (simp_all add: reaching_result_def)
        show "\<not> car_free sys st (co_level po - 1) (bad_lits st4 h')"
          using s3(5) same2(2) a(2) by (simp add: car_free_def reaching_result_def)
      qed
      from rec' [OF this] show ?thesis
        using b(1) l False True get p(1) g(1) a(1)
        by (subst car_solve_queue.simps) (simp add: s_def Let_def)
    next
      case npre: False
      then obtain core where core: "status (car_solver st2) = Unsatisfied core"
        "core_unreached sys st1 (co_level po - 1) s core"
        using p(2) by (auto simp: reach_result_def)
      have cu: "core_unreached sys st2 (co_level po - 1) (bad_lits st2 (co_handle po)) core"
        using core(2) unreached_step [OF s2(2)] by (simp add: core_unreached_def lits2)
      obtain c st3 where g: "generalize_blocked E sys st2 po = Some (c, st3)"
        "general_result sys st2 (co_level po - 1) s (c, st3)"
        using generalize_blocked_runs [OF s2(1) so lv(1) lm2 lits2(2) core(1) cu] lits2(1)
        by (auto simp: runs_iff)
      then have s3: "car_inv sys st3" "car_step st2 st3" "cti_cube_ok sys c" "set (cube_literals c) \<subseteq> set s"
        "unreached sys st2 (co_level po - 1) (cube_literals c)" by (auto simp: general_result_def)
      have s03: "car_step st st3" by (rule car_step_trans [OF s02 s3(2)])
      note same3 = car_step_same [OF s03]
      have un: "unreached sys st3 (co_level po - 1) (cube_literals c)"
        using s3(5) unreached_step [OF s3(2)] by simp
      obtain st4 where a: "car_add_blocked_at (debug_build E) sys st3 c (co_level po) = Some st4"
        "car_block_result sys st3 c (co_level po) st4"
        using car_add_blocked_at_runs [OF s3(1,3) lv(1) _ un, of "debug_build E"] lv(2) same3
        by (auto simp: runs_iff)
      define q' where "q' = (if opt_repush_blocked (car_opts st4) \<and> co_level po < car_depth st4
        then car_push (Car_obligation (co_level po + 1) (co_colevel po) (co_handle po)) q else q)"
      have "car_round_ok sys j0 st (po # q) st4 q'"
        by (rule car_round_unreached [OF q s03 nf _ a(2) q'_def]) (use s3(4) in \<open>simp add: s_def\<close>)
      from rec' [OF this] show ?thesis
        using b(1) l False npre get p(1) g(1) a(1)
        by (subst car_solve_queue.simps) (auto simp: s_def q'_def split: if_splits)
    qed
  qed
qed

lemma car_solve_queue_runs:
  assumes so: "sound_oracle (sat_solver E)" and "car_queue_inv sys j0 st q"
  shows "runs (car_solve_queue E sys st q) (car_solve_result sys j0 st q)"
proof -
  have "car_queue_inv sys j0 (fst x) (snd x) \<Longrightarrow>
      runs (car_solve_queue E sys (fst x) (snd x)) (car_solve_result sys j0 (fst x) (snd x))" for x
  proof (induction x rule: wf_induct_rule [OF wf_car_queue_order [of sys]])
    case (1 x)
    obtain st q where x: "x = (st, q)" by fastforce
    have inv: "car_queue_inv sys j0 st q" using "1.prems" x by simp
    show ?case
    proof (cases q)
      case Nil
      then show ?thesis
        using inv
        by (auto simp: x car_solve_queue.simps [of E sys st "[]"] car_solve_result_def car_queue_inv_def car_start_ok_def)
    next
      case (Cons po q')
      show ?thesis
      proof (cases "co_level po = 0")
        case True
        then obtain s where i: "car_inv sys st" "cot_live (cotrace st) (co_handle po)" "init_state sys s"
          "holds_in sys s (bad_lits st (co_handle po))"
          using inv Cons by (auto simp: car_queue_inv_def car_obligation_ok_def)
        have "runs (car_build_counterexample (debug_build E) sys st (co_handle po)) (cex_ok sys)"
          by (rule car_build_counterexample_runs [OF _ i(2) _ _ i(3,4)])
            (use i(1) in \<open>auto simp: car_inv_def car_trace_def car_shape_def\<close>)
        then show ?thesis
          using True by (auto simp: x Cons car_solve_queue.simps [of E sys st "po # q'"] car_solve_result_def runs_iff)
      next
        case False
        have "runs (car_solve_queue E sys st (po # q')) (car_solve_result sys j0 st (po # q'))"
        proof (rule car_solve_round [OF so _ False])
          show "car_queue_inv sys j0 st (po # q')" using inv Cons by simp
          fix st1 q1 assume r: "car_round_ok sys j0 st (po # q') st1 q1"
          then have "((st1, q1), x) \<in> car_queue_order sys" by (simp add: car_round_ok_def x Cons)
          from "1.IH" [OF this] show "runs (car_solve_queue E sys st1 q1) (car_solve_result sys j0 st1 q1)"
            using r by (simp add: car_round_ok_def)
        qed
        then show ?thesis by (simp add: x Cons)
      qed
    qed
  qed
  from this [of "(st, q)"] show ?thesis using assms(2) by simp
qed

section \<open>Solving one obligation\<close>

definition car_solved ::
  "transition_system \<Rightarrow> nat \<Rightarrow> car \<Rightarrow> bad_cube_handle \<Rightarrow> counterexample option \<times> car \<Rightarrow> bool" where
  "car_solved sys j0 st h r \<longleftrightarrow>
     (case fst r of
        Some cex \<Rightarrow> cex_ok sys cex
      | None \<Rightarrow> car_inv sys (snd r) \<and> car_shrunk sys j0 st (snd r) \<and>
          car_free sys (snd r) (car_depth st) (bad_lits st h))"

lemma car_solve_obligation_runs:
  assumes inv: "car_inv sys st" and so: "sound_oracle (sat_solver E)" and h: "cot_live (cotrace st) h"
    and j: "int j \<le> codepth st"
    and i: "car_depth st = 0 \<Longrightarrow> \<exists>s. init_state sys s \<and> holds_in sys s (bad_lits st h)"
  shows "runs (car_solve_obligation E sys st (Car_obligation (car_depth st) j h)) (car_solved sys j st h)"
proof -
  define po where "po = Car_obligation (car_depth st) j h"
  have qi: "car_queue_inv sys j st [po]"
    using inv h i by (simp add: car_queue_inv_def car_obligation_ok_def po_def)
  have start: "car_start_ok sys st [po] h" using h by (simp add: car_start_ok_def po_def)
  have q: "car_push po [] = [po]" by (simp add: car_push_def)
  have "car_solve_obligation E sys st po = car_solve_queue E sys st [po]"
    using j by (simp add: car_solve_obligation_def q assert_that_holds) (simp add: po_def assert_that_holds)
  moreover have "runs (car_solve_queue E sys st [po]) (car_solved sys j st h)"
  proof (rule runs_mono [OF car_solve_queue_runs [OF so qi]])
    fix r assume r: "car_solve_result sys j st [po] r"
    show "car_solved sys j st h r"
    proof (cases "fst r")
      case (Some cex)
      then show ?thesis using r by (simp add: car_solve_result_def car_solved_def)
    next
      case None
      then have f: "car_free sys (snd r) (car_depth st) (bad_lits (snd r) h)" "car_shrunk sys j st (snd r)"
        "car_inv sys (snd r)"
        using r start by (auto simp: car_solve_result_def)
      then show ?thesis using None car_shrunk_lits [OF f(2) h] by (simp add: car_solved_def)
    qed
  qed
  ultimately show ?thesis by (simp add: po_def)
qed

end
