(* ===== verification/CarFrames.thy ===== *)
theory CarFrames
  imports CarSolve CarFormulas
begin

text \<open>
  The frames of the forward engine as a whole: a new frame of all states, propagation, and the check
  that a frame lies inside the union of the earlier ones, done by a second solver in which that
  union is excluded frame by frame. Where neither finds a closed trace, every frame has a state that
  no earlier one has, which bounds the depth by the number of states.
\<close>

interpretation car_frames: trace_frames "car_inv sys" "car_frame sys" car_depth "init_state sys"
  "\<lambda>s t. \<exists>i. trans_step sys s i t" "\<lambda>s. \<exists>i. error_state sys s i" for sys
proof (unfold_locales, goal_cases)
  case (1 st s)
  have "blocked_at st 0 = {}"
    using 1 by (auto simp: car_inv_def car_trace_def car_shape_def blocked_at_def)
  then show ?case using 1(2) init_state_length [OF 1(2)] by (simp add: car_frame_def)
next
  case (2 st i s t)
  then show ?case unfolding car_inv_def car_trace_def by blast
next
  case (3 st i s)
  then show ?case unfolding car_inv_def car_trace_def by blast
qed

lemma closed_trace_safe:
  assumes "car_inv sys st" and "k < car_depth st" and "car_frame sys st (Suc k) \<subseteq> (\<Union>i \<le> k. car_frame sys st i)"
  shows "safe sys"
  unfolding safe_reachable
proof (intro allI impI notI)
  fix t i assume "reachable sys t" and e: "error_state sys t i"
  then obtain s where "init_state sys s" "(\<lambda>s t. \<exists>i. trans_step sys s i t)\<^sup>*\<^sup>* s t"
    using reachable_steps by blast
  then have "\<not> (\<exists>i. error_state sys t i)" by (rule car_frames.closed_frames_safe [OF assms])
  with e show False by blast
qed

section \<open>A new frame\<close>

lemma car_next_id_pos: "car_inv sys st \<Longrightarrow> 0 < get_next_id (car_store st)"
proof -
  assume "car_inv sys st"
  then have "activator_ok sys (get_next_id (car_store st)) (car_transition_activator st)"
    by (simp add: car_inv_def car_trace_def car_activators_ok_def car_all_activators_def)
  then show ?thesis using lit_var_pos [of "car_transition_activator st"] unfolding activator_ok_def by linarith
qed

lemma car_push_frame_runs:
  assumes inv: "car_inv sys st" and safe: "\<forall>s \<in> car_frame sys st (car_depth st). \<forall>i. \<not> error_state sys s i"
  shows "runs (car_push_frame d st) (\<lambda>st'. car_inv sys st' \<and> car_depth st' = Suc (car_depth st) \<and>
    car_blocked_cubes st' = car_blocked_cubes st @ [[]])"
proof -
  have tr: "car_trace sys st" and ok: "car_solver_ok sys st" using inv by (auto simp: car_inv_def)
  have wf: "well_formed_system sys" using car_inv_system [OF inv] by simp
  note len = car_len [OF tr]
  define n where "n = get_next_id (car_store st)"
  define act where "act = literal_of (Variable n) False"
  define st1 where "st1 = st\<lparr>car_blocked_cubes := car_blocked_cubes st @ [[]]\<rparr>"
  define name where "name = ''Act['' @ int_to_string (int (car_depth st1) + 1) @ '']''"
  define store' where "store' = snd (store_make (car_store st) name)"
  define st' where "st' = st\<lparr>car_blocked_cubes := car_blocked_cubes st @ [[]], car_store := store',
      car_activators := car_activators st @ [act]\<rparr>"
  have sm: "store_make (car_store st) name = (Variable n, store')"
    by (simp add: prod_eq_iff store'_def n_def)
  have "car_store st1 = car_store st" "length (car_blocked_cubes st) = length (car_activators st)"
    using len by (simp_all add: st1_def)
  then have run: "car_push_frame d st = Some st'"
    using sm by (simp add: car_push_frame_def st1_def [symmetric] name_def assert_that_holds)
      (simp add: st1_def st'_def act_def)
  have old: "car_shape sys st" "car_activators_ok sys st" "car_formulas_ok sys st" "pdr_system sys"
    "\<And>i s t inp. i < car_depth st \<Longrightarrow> s \<in> car_frame sys st i \<Longrightarrow> trans_step sys s inp t \<Longrightarrow>
        t \<in> car_frame sys st (Suc i)"
    "\<And>i s inp. i < car_depth st \<Longrightarrow> s \<in> car_frame sys st i \<Longrightarrow> \<not> error_state sys s inp"
    using tr by (auto simp: car_trace_def)
  have dep: "car_depth st' = Suc (car_depth st)" using len by (simp add: st'_def car_depth_def)
  have nth: "car_activators st' ! j = car_activators st ! j" if "j \<le> car_depth st" for j
    using that len by (simp add: st'_def nth_append)
  have bl: "blocked_at st' j = blocked_at st j" for j
    using len by (auto simp: blocked_at_def st'_def nth_append less_Suc_eq)
  then have fr: "car_frame sys st' = car_frame sys st" by (simp add: car_frame_def fun_eq_iff)
  have id: "get_next_id (car_store st') = n + 1" by (simp add: st'_def store'_def n_def)
  have all: "car_all_activators st' = car_all_activators st @ [act]" by (simp add: car_all_activators_def st'_def)
  have n0: "0 < n" using car_next_id_pos [OF inv] by (simp add: n_def)
  have fresh: "fresh_from sys n" using old(2) by (simp add: car_activators_ok_def n_def)
  have av: "lit_var act = Variable n" "act \<noteq> separator" "lit_sign act" using n0 by (simp_all add: act_def)
  have aok: "car_activators_ok sys st'"
    unfolding car_activators_ok_def id all
  proof (intro conjI ballI)
    show "fresh_from sys (n + 1)" using fresh by (auto simp: fresh_from_def intro: less_trans)
    have "\<not> system_var sys (Variable n)" using fresh by (force simp: fresh_from_def)
    then have "activator_ok sys (n + 1) act" using av by (simp add: activator_ok_def)
    moreover have o: "\<forall>l \<in> set (car_all_activators st). activator_ok sys n l"
      using old(2) by (simp add: car_activators_ok_def n_def)
    ultimately show "activator_ok sys (n + 1) l" if "l \<in> set (car_all_activators st @ [act])" for l
      using that by (auto simp: activator_ok_def intro: less_trans)
    have "Variable n \<notin> lit_var ` set (car_all_activators st)"
      using o unfolding activator_ok_def by (metis imageE less_irrefl variable.sel)
    then show "distinct (map lit_var (car_all_activators st @ [act]))"
      using old(2) av by (simp add: car_activators_ok_def)
  qed
  have fok: "car_formulas_ok sys st'"
    using old(3) nth [of 0] by (simp add: car_formulas_ok_def st'_def)
  have shape: "car_shape sys st'"
    using old(1) by (auto simp: car_shape_def st'_def nth_append)
  have frl: "car_frame sys st (Suc (car_depth st)) = all_states sys" by (rule car_all_frame [OF tr])
  have step: "t \<in> car_frame sys st' (Suc i)"
    if "i < Suc (car_depth st)" "s \<in> car_frame sys st' i" "trans_step sys s inp t" for i s t inp
  proof (cases "i = car_depth st")
    case True
    then show ?thesis using fr frl trans_step_length [OF wf that(3)] by simp
  next
    case False
    then show ?thesis using old(5) [of i s inp t] that fr by simp
  qed
  have safe': "\<not> error_state sys s inp" if "i < Suc (car_depth st)" "s \<in> car_frame sys st' i" for i s inp
    using that safe old(6) [of i s inp] fr by (cases "i = car_depth st") auto
  have "car_trace sys st'" unfolding car_trace_def dep using old(4) aok fok shape step safe' by blast
  moreover have "car_solver_ok sys st'"
  proof -
    have "car_activators st \<noteq> []" using len by auto
    then have fs: "car_frames_sat sys st' \<sigma> = car_frames_sat sys st \<sigma>" for \<sigma>
      using len by (auto simp: car_frames_sat_def st'_def nth_append less_Suc_eq)
    have "car_solver st' = car_solver st" "car_queries st' = car_queries st" by (simp_all add: st'_def)
    then show ?thesis using ok fs by (auto simp: car_solver_ok_def car_agrees_def)
  qed
  ultimately have "car_inv sys st'" using inv by (simp add: car_inv_def coframes_ok_def st'_def)
  then show ?thesis using run dep by (simp add: st'_def)
qed

section \<open>Propagation\<close>

definition push_cubes_result :: "transition_system \<Rightarrow> car \<Rightarrow> nat \<Rightarrow> car \<Rightarrow> bool" where
  "push_cubes_result sys st i st' \<longleftrightarrow>
     car_inv sys st' \<and> car_depth st' = car_depth st \<and>
     (\<forall>j. car_frame sys st' j \<subseteq> car_frame sys st j) \<and>
     (\<forall>j. j \<noteq> Suc i \<longrightarrow> car_blocked_cubes st' ! j = car_blocked_cubes st ! j)"

lemma push_cubes_trans:
  "push_cubes_result sys a i b \<Longrightarrow> push_cubes_result sys b i c \<Longrightarrow> push_cubes_result sys a i c"
  unfolding push_cubes_result_def by (metis order_trans)

lemma push_cubes_step: "car_inv sys st' \<Longrightarrow> car_step st st' \<Longrightarrow> push_cubes_result sys st i st'"
  by (simp add: push_cubes_result_def car_step_same)

lemma push_cubes_block:
  assumes "car_block_result sys st c (Suc i) st'"
  shows "push_cubes_result sys st i st'"
proof -
  have "car_frame sys st' j \<subseteq> car_frame sys st j" for j
    using assms by (cases "j = Suc i") (auto simp: car_block_result_def)
  then show ?thesis using assms by (simp add: push_cubes_result_def car_block_result_def)
qed

text \<open>One cube that no state of level \<open>i\<close> reaches: it, or its core, is blocked at the next level.\<close>

lemma push_one_cube:
  assumes inv: "car_inv sys st" and so: "sound_oracle (sat_solver E)" and i: "i < car_depth st"
    and c: "cti_cube_ok sys c" and q: "has_predecessor E sys st (cube_literals c) (i + 1) = Some (False, st1)"
    and r: "reach_result sys st i (cube_literals c) (False, st1)"
  shows "runs (if opt_propagate_cores (car_opts st1) then do {
       core \<leftarrow> get_core_of_range (car_solver st1) (next_state_vars sys);
       core \<leftarrow> unprime_all (debug_build E) sys core;
       car_add_blocked_at (debug_build E) sys st1 (make_cube core) (i + 1) }
     else car_add_blocked_at (debug_build E) sys st1 c (i + 1))
    (\<lambda>st2. push_cubes_result sys st i st2 \<and> car_free sys st2 (Suc i) (cube_literals c))"
proof -
  have wf: "well_formed_system sys" using car_inv_system [OF inv] by simp
  have s1: "car_inv sys st1" "car_step st st1" using r by (auto simp: reach_result_def)
  note same = car_step_same [OF s1(2)]
  obtain core where core: "status (car_solver st1) = Unsatisfied core" "core_unreached sys st i (cube_literals c) core"
    using r by (auto simp: reach_result_def)
  obtain u where u: "u \<in> all_states sys" "holds_in sys u (cube_literals c)"
    and over: "lits_over (state_vars sys) (cube_literals c)" using c by (auto simp: cti_cube_ok_def)
  have block: "runs (car_add_blocked_at (debug_build E) sys st1 e (i + 1))
      (\<lambda>st2. push_cubes_result sys st i st2 \<and> car_free sys st2 (Suc i) (cube_literals c))"
    if e: "cti_cube_ok sys e" "unreached sys st i (cube_literals e)" "set (cube_literals e) \<subseteq> set (cube_literals c)" for e
  proof -
    have "runs (car_add_blocked_at (debug_build E) sys st1 e (i + 1)) (car_block_result sys st1 e (i + 1))"
      by (rule car_add_blocked_at_runs [OF s1(1) e(1)])
        (use e(2) i same(3) unreached_step [OF s1(2)] in simp_all)
    then show ?thesis
    proof (rule runs_mono)
      fix st2 assume b: "car_block_result sys st1 e (i + 1) st2"
      have "push_cubes_result sys st i st2"
        using push_cubes_trans [OF push_cubes_step [OF s1] push_cubes_block] b by simp
      moreover have "car_free sys st2 (Suc i) (cube_literals c)"
        using b e(3) lits_hold_subset [of "state_vars sys"] by (auto simp: car_free_def car_block_result_def)
      ultimately show "push_cubes_result sys st i st2 \<and> car_free sys st2 (Suc i) (cube_literals c)" ..
    qed
  qed
  show ?thesis
  proof (cases "opt_propagate_cores (car_opts st1)")
    case True
    obtain ls cs where ls: "get_core_of_range (car_solver st1) (next_state_vars sys) = Some ls"
      "unprime_all (debug_build E) sys ls = Some cs" "set cs \<subseteq> set (cube_literals c)" "unreached sys st i cs"
      using core_cube [OF wf over u(2) core(1,2), of "debug_build E"] by blast
    have "unreached sys st i (cube_literals (make_cube cs))" by (rule unreached_mono [OF ls(4)]) simp
    then show ?thesis
      using True ls(1,2) block [OF general_cube [OF over u ls(3)]] ls(3) by simp
  next
    case False
    have "unreached sys st i (cube_literals c)" using core(2) unfolding core_unreached_def by blast
    then show ?thesis using False block [OF c] by simp
  qed
qed

lemma push_frame_cubes_runs:
  assumes "car_inv sys st" and so: "sound_oracle (sat_solver E)" and "i < car_depth st"
    and "\<forall>c \<in> set cubes. cti_cube_ok sys c"
  shows "runs (push_frame_cubes E sys st cubes i b) (\<lambda>(b', st'). push_cubes_result sys st i st' \<and>
    (b' \<longrightarrow> b \<and> (\<forall>c \<in> set cubes. car_free sys st' (Suc i) (cube_literals c))))"
  using assms(1,3,4)
proof (induction cubes arbitrary: st b)
  case Nil
  then show ?case by (simp add: push_cubes_step)
next
  case (Cons c cubes)
  have c: "cti_cube_ok sys c" and over: "lits_over (state_vars sys) (cube_literals c)"
    using Cons.prems(3) by (auto simp: cti_cube_ok_def)
  obtain pre st1 where q: "has_predecessor E sys st (cube_literals c) (i + 1) = Some (pre, st1)"
    "reach_result sys st i (cube_literals c) (pre, st1)"
    using has_predecessor_runs [OF Cons.prems(1) so _ _ over, of "i + 1"] Cons.prems(2) by (auto simp: runs_iff)
  have s1: "car_inv sys st1" "car_step st st1" using q(2) by (auto simp: reach_result_def)
  note p1 = push_cubes_step [OF s1, of i]
  show ?case
  proof (cases pre)
    case True
    have "runs (push_frame_cubes E sys st1 cubes i False) (\<lambda>(b', st'). push_cubes_result sys st1 i st' \<and>
      (b' \<longrightarrow> False \<and> (\<forall>c \<in> set cubes. car_free sys st' (Suc i) (cube_literals c))))"
      by (rule Cons.IH) (use Cons.prems s1 car_step_same(3) [OF s1(2)] in auto)
    then have "runs (push_frame_cubes E sys st1 cubes i False) (\<lambda>(b', st'). push_cubes_result sys st i st' \<and>
      (b' \<longrightarrow> b \<and> (\<forall>c \<in> set (c # cubes). car_free sys st' (Suc i) (cube_literals c))))"
      by (rule runs_mono) (use push_cubes_trans [OF p1] in auto)
    then show ?thesis using True q(1) by simp
  next
    case False
    obtain st2 where st2: "(if opt_propagate_cores (car_opts st1) then do {
       core \<leftarrow> get_core_of_range (car_solver st1) (next_state_vars sys);
       core \<leftarrow> unprime_all (debug_build E) sys core;
       car_add_blocked_at (debug_build E) sys st1 (make_cube core) (i + 1) }
     else car_add_blocked_at (debug_build E) sys st1 c (i + 1)) = Some st2"
      "push_cubes_result sys st i st2" "car_free sys st2 (Suc i) (cube_literals c)"
      using push_one_cube [OF Cons.prems(1) so Cons.prems(2) c, of st1] q False by (auto simp only: runs_iff)
    have "runs (push_frame_cubes E sys st2 cubes i b) (\<lambda>(b', st'). push_cubes_result sys st2 i st' \<and>
      (b' \<longrightarrow> b \<and> (\<forall>c \<in> set cubes. car_free sys st' (Suc i) (cube_literals c))))"
      by (rule Cons.IH) (use Cons.prems st2(2) in \<open>auto simp: push_cubes_result_def\<close>)
    then have "runs (push_frame_cubes E sys st2 cubes i b) (\<lambda>(b', st'). push_cubes_result sys st i st' \<and>
      (b' \<longrightarrow> b \<and> (\<forall>c \<in> set (c # cubes). car_free sys st' (Suc i) (cube_literals c))))"
    proof (rule runs_mono, clarify, intro conjI impI ballI)
      fix b' st'
      assume p: "push_cubes_result sys st2 i st'"
        and r: "b' \<longrightarrow> b \<and> (\<forall>c \<in> set cubes. car_free sys st' (Suc i) (cube_literals c))"
      show "push_cubes_result sys st i st'" using st2(2) p by (rule push_cubes_trans)
      show "b" if "b'" using r that by blast
      have "car_free sys st' (Suc i) (cube_literals c)"
        using st2(3) p unfolding push_cubes_result_def car_free_def by blast
      then show "car_free sys st' (Suc i) (cube_literals e)" if "b'" "e \<in> set (c # cubes)" for e
        using r that by auto
    qed
    then show ?thesis
      using False q(1) st2(1) by (auto simp: bind_eq_Some_conv runs_iff split: if_splits)
  qed
qed

definition car_propagate_result :: "transition_system \<Rightarrow> car \<Rightarrow> bool \<times> car \<Rightarrow> bool" where
  "car_propagate_result sys st r \<longleftrightarrow>
     car_inv sys (snd r) \<and> car_depth (snd r) = car_depth st \<and> (fst r \<longrightarrow> safe sys)"

lemma car_propagate_levels_runs:
  assumes "car_inv sys st" and so: "sound_oracle (sat_solver E)" and "\<forall>i \<in> set is. 1 \<le> i \<and> i < car_depth st"
  shows "runs (car_propagate_levels E sys st is) (car_propagate_result sys st)"
  using assms(1,3)
proof (induction "is" arbitrary: st)
  case Nil
  then show ?case by (simp add: car_propagate_result_def)
next
  case (Cons i "is")
  have i: "1 \<le> i" "i < car_depth st" using Cons.prems(2) by auto
  have tr: "car_trace sys st" using Cons.prems(1) by (simp add: car_inv_def)
  have il: "i < length (car_blocked_cubes st)" using car_len [OF tr] i by simp
  define cubes where "cubes = car_blocked_cubes st ! i"
  have ok: "\<forall>c \<in> set cubes. cti_cube_ok sys c" using car_blocked_ok [OF tr il] by (simp add: cubes_def)
  obtain b st1 where p: "push_frame_cubes E sys st cubes i True = Some (b, st1)" "push_cubes_result sys st i st1"
    "b \<Longrightarrow> \<forall>c \<in> set cubes. car_free sys st1 (Suc i) (cube_literals c)"
    using push_frame_cubes_runs [OF Cons.prems(1) so i(2) ok, of True] by (auto simp: runs_iff)
  then have s1: "car_inv sys st1" "car_depth st1 = car_depth st" "car_blocked_cubes st1 ! i = cubes"
    by (auto simp: push_cubes_result_def cubes_def)
  show ?case
  proof (cases b)
    case True
    have "car_frame sys st1 (Suc i) \<subseteq> car_frame sys st1 i"
      using p(3) [OF True] s1(3) i(1) by (auto simp: car_frame_def car_free_def blocked_at_def)
    then have "safe sys" using closed_trace_safe [OF s1(1), of i] i(2) s1(2) by auto
    then show ?thesis using True p(1) s1 il by (simp add: car_propagate_result_def cubes_def)
  next
    case False
    have "runs (car_propagate_levels E sys st1 is) (car_propagate_result sys st1)"
      by (rule Cons.IH) (use s1 Cons.prems(2) in auto)
    then have "runs (car_propagate_levels E sys st1 is) (car_propagate_result sys st)"
      by (rule runs_mono) (use s1(2) in \<open>simp add: car_propagate_result_def\<close>)
    then show ?thesis using False p(1) il by (simp add: cubes_def)
  qed
qed

lemma car_propagate_runs:
  assumes "car_inv sys st" and "sound_oracle (sat_solver E)" and "car_blocked_cubes st ! car_depth st = []"
  shows "runs (car_propagate E sys st) (car_propagate_result sys st)"
proof -
  have "car_depth st < length (car_blocked_cubes st)"
    using assms(1) car_len [of sys st] by (simp add: car_inv_def)
  then show ?thesis
    using car_propagate_levels_runs [OF assms(1,2), of "[1..<car_depth st]"] assms(3)
    by (simp add: car_propagate_def)
qed

end
