(* ===== verification/CarInductive.thy ===== *)
theory CarInductive
  imports CarFrames
begin

text \<open>
  The inductiveness check. A second solver keeps, as its clauses, the states outside the union of
  the frames looked at so far: first those that are not initial, then, for each frame that is not
  inside the union, the negation of the frame. \<open>checker_ok sys n sv U\<close> says that the solver's
  models are the states outside \<open>U\<close> and that its clauses are about variables below \<open>n\<close>. The store
  grows meanwhile, which the engine's invariant allows. When no frame closes the trace, every frame
  has a state that none before it has, so there are at most as many frames as states.
\<close>

section \<open>A larger store\<close>

lemma car_inv_store:
  assumes "car_inv sys st" and n: "get_next_id (car_store st) \<le> get_next_id store"
  shows "car_inv sys (st\<lparr>car_store := store\<rparr>)"
proof -
  have tr: "car_trace sys st" using assms(1) by (simp add: car_inv_def)
  have "car_activators_ok sys st" using tr by (simp add: car_trace_def)
  then have act: "car_activators_ok sys (st\<lparr>car_store := store\<rparr>)"
    using n by (fastforce simp: car_activators_ok_def car_all_activators_def fresh_from_def activator_ok_def)
  have "car_trace sys (st\<lparr>car_store := store\<rparr>)"
    using tr act by (simp add: car_trace_def car_formulas_ok_def car_shape_def)
  then show ?thesis using assms(1) by (simp add: car_inv_def coframes_ok_def)
qed

section \<open>The checker\<close>

definition checker_ok :: "transition_system \<Rightarrow> int \<Rightarrow> solver \<Rightarrow> state set \<Rightarrow> bool" where
  "checker_ok sys n sv U \<longleftrightarrow>
     idle sv \<and> terminated (added sv) \<and>
     (\<forall>\<sigma>. stream_sat \<sigma> (added sv) \<longrightarrow> read (state_vars sys) \<sigma> \<notin> U) \<and>
     (\<forall>s \<in> all_states sys - U. \<exists>\<sigma>. stream_sat \<sigma> (added sv) \<and> read (state_vars sys) \<sigma> = s) \<and>
     (\<forall>\<sigma> \<tau>. (\<forall>v. var_id v < n \<longrightarrow> \<tau> v = \<sigma> v) \<longrightarrow> stream_sat \<sigma> (added sv) \<longrightarrow> stream_sat \<tau> (added sv))"

text \<open>The states that no cube of a list contains.\<close>

definition outside_cubes :: "transition_system \<Rightarrow> cube list \<Rightarrow> state set" where
  "outside_cubes sys cs = {s \<in> all_states sys. \<forall>c \<in> set cs. \<not> holds_in sys s (cube_literals c)}"

lemma cti_cube_over: "cti_cube_ok sys c \<Longrightarrow> lits_over (state_vars sys) (cube_literals c)"
  by (simp add: cti_cube_ok_def)

lemma cube_true_state: "cti_cube_ok sys c \<Longrightarrow> cube_true \<sigma> c = holds_in sys (read (state_vars sys) \<sigma>) (cube_literals c)"
  by (rule cube_true_read [OF cti_cube_over])

lemma read_state_length [simp]: "read (state_vars sys) \<sigma> \<in> all_states sys"
  by (simp add: all_states_def num_state_vars_def)

lemma read_below:
  assumes "fresh_from sys n" and "\<forall>v. var_id v < n \<longrightarrow> \<tau> v = \<sigma> v"
  shows "read (state_vars sys) \<tau> = read (state_vars sys) \<sigma>"
  by (rule read_eqI) (use assms in \<open>auto simp: fresh_from_def system_var_def\<close>)

lemma outside_cubes_model:
  assumes "\<forall>c \<in> set cs. cti_cube_ok sys c"
  shows "read (state_vars sys) \<sigma> \<in> outside_cubes sys cs \<longleftrightarrow> (\<forall>c \<in> set cs. \<not> cube_true \<sigma> c)"
  using cube_true_state [OF bspec [OF assms], of _ \<sigma>] by (auto simp: outside_cubes_def)

text \<open>The question whether a frame has a state outside the union.\<close>

lemma checker_query:
  assumes so: "sound_oracle (sat_solver E)" and ck: "checker_ok sys n sv U" and n: "0 < n" "fresh_from sys n"
    and ok: "\<forall>c \<in> set cs. cti_cube_ok sys c"
    and sv1: "sv1 = foldl (\<lambda>sv c. assert_formula sv (activate (negate c) (Variable n))) sv cs"
    and r: "is_sat E (assume_literal sv1 (literal_of (Variable n) False)) = (b, sv2)"
  shows "idle sv2" and "terminated (added sv2)"
    and "stream_sat \<sigma> (added sv2) \<longleftrightarrow> stream_sat \<sigma> (added sv) \<and> (\<forall>c \<in> set cs. \<sigma> (Variable n) \<longrightarrow> \<not> cube_true \<sigma> c)"
    and "\<not> b \<longleftrightarrow> outside_cubes sys cs \<subseteq> U"
proof -
  have i: "idle sv" "terminated (added sv)" using ck by (auto simp: checker_ok_def)
  have s1: "idle sv1" "terminated (added sv1)"
    "\<And>\<sigma>. stream_sat \<sigma> (added sv1) \<longleftrightarrow> stream_sat \<sigma> (added sv) \<and> (\<forall>c \<in> set cs. \<sigma> (Variable n) \<longrightarrow> \<not> cube_true \<sigma> c)"
    using car_assert_cubes [OF i, of "Variable n" cs sys] n(1) ok by (auto simp: sv1 Let_def)
  have "asks (assume_literal sv1 (literal_of (Variable n) False)) (added sv1) [literal_of (Variable n) False] []"
    using asks_assume_literal [OF idle_asks [OF s1(1) refl]] by simp
  from is_sat_answer [OF so this s1(2)]
  have ans: "sat_answer (assume_literal sv1 (literal_of (Variable n) False)) (added sv1)
      [literal_of (Variable n) False] [] (b, sv2)" by (simp add: r terminated_def)
  then have a: "idle sv2" "added sv2 = added sv1" by (auto simp: sat_answer_def)
  then show "idle sv2" "terminated (added sv2)"
    "stream_sat \<sigma> (added sv2) \<longleftrightarrow> stream_sat \<sigma> (added sv) \<and> (\<forall>c \<in> set cs. \<sigma> (Variable n) \<longrightarrow> \<not> cube_true \<sigma> c)"
    using s1 by simp_all
  have lit: "lit_true \<sigma> (literal_of (Variable n) False) = \<sigma> (Variable n)" for \<sigma> using n(1) by simp
  show "\<not> b \<longleftrightarrow> outside_cubes sys cs \<subseteq> U"
  proof
    assume nb: "\<not> b"
    show "outside_cubes sys cs \<subseteq> U"
    proof
      fix s assume s: "s \<in> outside_cubes sys cs"
      show "s \<in> U"
      proof (rule ccontr)
        assume "s \<notin> U"
        then have "s \<in> all_states sys - U" using s by (simp add: outside_cubes_def)
        then obtain \<sigma> where \<sigma>: "stream_sat \<sigma> (added sv)" "read (state_vars sys) \<sigma> = s"
          using ck unfolding checker_ok_def by blast
        define \<tau> where "\<tau> = \<sigma>(Variable n := True)"
        have old: "\<forall>v. var_id v < n \<longrightarrow> \<tau> v = \<sigma> v" by (auto simp: \<tau>_def)
        then have "stream_sat \<tau> (added sv)" using ck \<sigma>(1) unfolding checker_ok_def by blast
        moreover have "\<forall>c \<in> set cs. \<not> cube_true \<tau> c"
          using s outside_cubes_model [OF ok, of \<tau>] read_below [OF n(2) old] \<sigma>(2) by simp
        ultimately have "stream_sat \<tau> (added sv1)" using s1(3) by blast
        moreover have "lits_true \<tau> [literal_of (Variable n) False]" using lit by (simp add: \<tau>_def)
        moreover have "stream_sat \<tau> []" by (simp add: stream_sat_def clauses_of_def)
        moreover have "b = False" using nb by simp
        ultimately show False using sat_answer_unsat [OF ans [unfolded \<open>b = False\<close>]] by blast
      qed
    qed
  next
    assume sub: "outside_cubes sys cs \<subseteq> U"
    show "\<not> b"
    proof
      assume b
      then obtain m where m: "stream_sat m (added sv1)" "lits_true m [literal_of (Variable n) False]"
        using ans by (auto simp: sat_answer_def)
      then have "m (Variable n)" using lit by simp
      then have "read (state_vars sys) m \<in> outside_cubes sys cs"
        using m(1) outside_cubes_model [OF ok] s1(3) by blast
      moreover have "read (state_vars sys) m \<notin> U" using m(1) s1(3) ck unfolding checker_ok_def by blast
      ultimately show False using sub by blast
    qed
  qed
qed

text \<open>The negated frame joins the clauses, and its states the union.\<close>

lemma checker_extend:
  assumes ck: "checker_ok sys n sv U" and n: "0 < n" "fresh_from sys n"
    and ok: "\<forall>c \<in> set cs. cti_cube_ok sys c"
    and sv2: "idle sv2" "terminated (added sv2)"
      "\<And>\<sigma>. stream_sat \<sigma> (added sv2) \<longleftrightarrow> stream_sat \<sigma> (added sv) \<and> (\<forall>c \<in> set cs. \<sigma> (Variable n) \<longrightarrow> \<not> cube_true \<sigma> c)"
    and store: "get_next_id store = n + 1" and f: "clausify_frame_negation store cs = (f, store')"
  shows "checker_ok sys (get_next_id store')
      (assert_formula (assert_formula sv2 (cnf_clause [lit_not (literal_of (Variable n) False)])) f)
      (U \<union> outside_cubes sys cs)"
    and "n < get_next_id store'"
proof -
  let ?c = "cnf_clause [lit_not (literal_of (Variable n) False)]"
  let ?sv = "assert_formula (assert_formula sv2 ?c) f"
  have sep: "\<forall>c \<in> set cs. separator \<notin> set (cube_literals c)"
    using ok by (auto simp: cti_cube_ok_def dest: lits_over_sep)
  have pos: "0 < get_next_id store" using n store by simp
  note neg = frame_negation_sat [OF pos sep f]
  have c: "terminated (cnf_literals ?c)" "cnf_sat \<sigma> ?c \<longleftrightarrow> \<not> \<sigma> (Variable n)" for \<sigma>
  proof -
    have s: "separator \<notin> set [lit_not (literal_of (Variable n) False)]" using n(1) by (simp add: eq_commute [of separator])
    have "well_formed_cnf ?c" unfolding cnf_clause_def using s by (simp del: lit_not_literal_of)
    then show "terminated (cnf_literals ?c)" by (simp add: well_formed_cnf_def)
    show "cnf_sat \<sigma> ?c \<longleftrightarrow> \<not> \<sigma> (Variable n)"
      unfolding cnf_clause_def using cnf_sat_add_clause [of empty_cnf _ \<sigma>, OF _ s] n(1) by simp
  qed
  have tf: "terminated (cnf_literals f)" using neg(2) by (simp add: well_formed_cnf_def)
  have sat: "stream_sat \<sigma> (added ?sv) \<longleftrightarrow> stream_sat \<sigma> (added sv) \<and> \<not> \<sigma> (Variable n) \<and> cnf_sat \<sigma> f" for \<sigma>
    using sv2 c(1) tf c(2) [of \<sigma>] by (auto simp: terminated_append cnf_sat_def)
  have in_cs: "(\<exists>i < length cs. P (cs ! i)) \<longleftrightarrow> (\<exists>c \<in> set cs. P c)" for P
    by (metis in_set_conv_nth)
  have id: "get_next_id store' = n + 2 + int (length cs)" using neg(3) store by simp
  show "n < get_next_id store'" using id by simp
  have below: "\<forall>c \<in> set cs. separator \<notin> set (cube_literals c) \<and> lits_below store (cube_literals c)"
    using sep ok n(2) store
    by (fastforce simp: lits_below_def fresh_from_def system_var_def dest: cti_cube_over [unfolded lits_over_def])
  show "checker_ok sys (get_next_id store') ?sv (U \<union> outside_cubes sys cs)"
    unfolding checker_ok_def
  proof (intro conjI allI ballI impI)
    show "idle ?sv" "terminated (added ?sv)" using sv2(1,2) c(1) tf by (simp_all add: terminated_append)
  next
    fix \<sigma> assume s: "stream_sat \<sigma> (added ?sv)"
    then have "\<exists>c \<in> set cs. cube_true \<sigma> c" using neg(1) in_cs unfolding sat by blast
    then have "read (state_vars sys) \<sigma> \<notin> outside_cubes sys cs" using outside_cubes_model [OF ok] by blast
    moreover have "read (state_vars sys) \<sigma> \<notin> U" using s ck unfolding sat checker_ok_def by blast
    ultimately show "read (state_vars sys) \<sigma> \<notin> U \<union> outside_cubes sys cs" by blast
  next
    fix s assume s: "s \<in> all_states sys - (U \<union> outside_cubes sys cs)"
    then have "s \<in> all_states sys - U" by blast
    then obtain \<sigma> where \<sigma>: "stream_sat \<sigma> (added sv)" "read (state_vars sys) \<sigma> = s"
      using ck unfolding checker_ok_def by blast
    define \<rho> where "\<rho> = \<sigma>(Variable n := False)"
    have old: "\<forall>v. var_id v < n \<longrightarrow> \<rho> v = \<sigma> v" by (auto simp: \<rho>_def)
    have "\<exists>c \<in> set cs. cube_true \<rho> c"
      using s outside_cubes_model [OF ok, of \<rho>] read_below [OF n(2) old] \<sigma>(2) by simp
    then obtain \<tau> where \<tau>: "\<forall>v. var_id v < get_next_id store \<longrightarrow> \<tau> v = \<rho> v" "cnf_sat \<tau> f"
      using frame_negation_exact [OF pos below, of \<rho>] f by auto
    have t: "\<forall>v. var_id v < n \<longrightarrow> \<tau> v = \<sigma> v" using \<tau>(1) old store by simp
    then have "stream_sat \<tau> (added sv)" using ck \<sigma>(1) unfolding checker_ok_def by blast
    moreover have "\<not> \<tau> (Variable n)" using \<tau>(1) store by (simp add: \<rho>_def)
    ultimately have "stream_sat \<tau> (added ?sv)" using \<tau>(2) sat by blast
    moreover have "read (state_vars sys) \<tau> = s" using read_below [OF n(2) t] \<sigma>(2) by simp
    ultimately show "\<exists>\<sigma>. stream_sat \<sigma> (added ?sv) \<and> read (state_vars sys) \<sigma> = s" by blast
  next
    fix \<sigma> \<tau> assume old: "\<forall>v. var_id v < get_next_id store' \<longrightarrow> \<tau> v = \<sigma> v" and s: "stream_sat \<sigma> (added ?sv)"
    have t: "\<forall>v. var_id v < n \<longrightarrow> \<tau> v = \<sigma> v" using old id by simp
    have "stream_sat \<tau> (added sv)" using ck s t unfolding sat checker_ok_def by blast
    moreover have "\<tau> (Variable n) = \<sigma> (Variable n)" using old id by simp
    moreover have "cnf_sat \<tau> f"
    proof -
      have fr: "\<tau> (fresh_var store i) = \<sigma> (fresh_var store i)" if "i \<le> length cs" for i
        using old that id store by (simp add: fresh_var_def)
      have "cube_true \<tau> c = cube_true \<sigma> c" if "c \<in> set cs" for c
        using cube_true_state [OF bspec [OF ok that]] read_below [OF n(2) t] by simp
      then have "cube_true \<tau> (cs ! i) = cube_true \<sigma> (cs ! i)" if "i < length cs" for i using that by simp
      then show ?thesis using s fr unfolding sat neg(1) by auto
    qed
    ultimately show "stream_sat \<tau> (added ?sv)" using s unfolding sat by simp
  qed
qed

section \<open>The frames\<close>

definition frames_below :: "transition_system \<Rightarrow> car \<Rightarrow> nat \<Rightarrow> state set" where
  "frames_below sys st i = (\<Union>k < i. car_frame sys st k)"

definition novel_frames :: "transition_system \<Rightarrow> car \<Rightarrow> nat \<Rightarrow> nat \<Rightarrow> bool" where
  "novel_frames sys st a b \<longleftrightarrow> (\<forall>i. a \<le> i \<and> i < b \<longrightarrow> \<not> car_frame sys st i \<subseteq> frames_below sys st i)"

definition inductive_result :: "transition_system \<Rightarrow> car \<Rightarrow> nat \<Rightarrow> bool \<times> car \<Rightarrow> bool" where
  "inductive_result sys st a r \<longleftrightarrow>
     (\<exists>store. snd r = st\<lparr>car_store := store\<rparr> \<and> get_next_id (car_store st) \<le> get_next_id store) \<and>
     (fst r \<longleftrightarrow> \<not> novel_frames sys st a (Suc (car_depth st)))"

lemma frames_below_Suc: "frames_below sys st (Suc i) = frames_below sys st i \<union> car_frame sys st i"
  by (auto simp: frames_below_def less_Suc_eq)

lemma frames_below_closed:
  assumes "car_inv sys st" and "1 \<le> i" and "i \<le> car_depth st" and "car_frame sys st i \<subseteq> frames_below sys st i"
  shows "safe sys"
proof -
  obtain k where i: "i = Suc k" using assms(2) by (cases i) auto
  have "frames_below sys st i = (\<Union>j \<le> k. car_frame sys st j)" by (auto simp: frames_below_def i less_Suc_eq_le)
  then show ?thesis using closed_trace_safe [OF assms(1), of k] assms(3,4) by (simp add: i)
qed

lemma not_novel_safe:
  "car_inv sys st \<Longrightarrow> \<not> novel_frames sys st 1 (Suc (car_depth st)) \<Longrightarrow> safe sys"
  using frames_below_closed by (auto simp: novel_frames_def less_Suc_eq_le)

lemma frame_outside:
  assumes "car_trace sys st" and "1 \<le> i" and "i \<le> car_depth st"
  shows "car_frame sys st i = outside_cubes sys (car_blocked_cubes st ! i)"
  using assms car_len [OF assms(1)] by (auto simp: car_frame_def outside_cubes_def blocked_at_def)

lemma inductive_result_step:
  assumes "inductive_result sys (st\<lparr>car_store := store\<rparr>) (Suc i) r"
    and "get_next_id (car_store st) \<le> get_next_id store" and "\<not> car_frame sys st i \<subseteq> frames_below sys st i"
  shows "inductive_result sys st i r"
proof -
  have nov: "novel_frames sys (st\<lparr>car_store := store\<rparr>) a b = novel_frames sys st a b" for a b
    by (simp add: novel_frames_def frames_below_def)
  have "novel_frames sys st i b \<longleftrightarrow> novel_frames sys st (Suc i) b" for b
    using assms(3) unfolding novel_frames_def by (metis Suc_leD le_antisym not_less_eq_eq)
  moreover obtain store' where "snd r = st\<lparr>car_store := store'\<rparr>" "get_next_id store \<le> get_next_id store'"
    using assms(1) by (auto simp: inductive_result_def)
  ultimately show ?thesis
    using assms(1,2) nov unfolding inductive_result_def by (auto split: if_splits)
qed

lemma inductive_levels_runs:
  assumes "car_inv sys st" and so: "sound_oracle (sat_solver E)" and "1 \<le> a"
    and "a \<le> Suc (car_depth st)"
    and "a \<le> car_depth st \<Longrightarrow> checker_ok sys (get_next_id (car_store st)) checker (frames_below sys st a)"
  shows "runs (inductive_levels E st checker [a..<Suc (car_depth st)]) (inductive_result sys st a)"
  using assms(1,3,4,5)
proof (induction "Suc (car_depth st) - a" arbitrary: a st checker)
  case 0
  then show ?case by (auto simp: inductive_result_def novel_frames_def intro: exI [of _ "car_store st"])
next
  case (Suc k)
  then have a: "1 \<le> a" "a \<le> car_depth st" by simp_all
  define n where "n = get_next_id (car_store st)"
  define cs where "cs = car_blocked_cubes st ! a"
  define U where "U = frames_below sys st a"
  have inv: "car_inv sys st" by fact
  then have tr: "car_trace sys st" by (simp add: car_inv_def)
  have n: "0 < n" "fresh_from sys n"
    using car_next_id_pos [OF inv] tr by (simp_all add: n_def car_trace_def car_activators_ok_def)
  have ck: "checker_ok sys n checker U" using Suc.prems(4) a(2) by (simp add: n_def U_def)
  have al: "a < length (car_blocked_cubes st)" using car_len [OF tr] a by simp
  have ok: "\<forall>c \<in> set cs. cti_cube_ok sys c" using car_blocked_ok [OF tr al] by (simp add: cs_def)
  have fr: "car_frame sys st a = outside_cubes sys cs" unfolding cs_def by (rule frame_outside [OF tr a])
  obtain store1 where m: "store_make (car_store st) [] = (Variable n, store1)" "get_next_id store1 = n + 1"
    using store_make_fresh [of "car_store st" "car_store st" 0] by (auto simp: fresh_var_def n_def)
  define st1 where "st1 = st\<lparr>car_store := store1\<rparr>"
  define sv1 where "sv1 = foldl (\<lambda>sv c. assert_formula sv (activate (negate c) (Variable n))) checker cs"
  obtain b sv2 where q: "is_sat E (assume_literal sv1 (literal_of (Variable n) False)) = (b, sv2)"
    by (cases rule: prod.exhaust)
  note query = checker_query [OF so ck n ok sv1_def q]
  have lv: "lit_var (literal_of (Variable n) False) = Variable n" using n(1) by simp
  have list: "[a..<Suc (car_depth st)] = a # [Suc a..<Suc (car_depth st)]" using a(2) by (simp add: upt_conv_Cons)
  have unfold: "inductive_levels E st checker [a..<Suc (car_depth st)] =
    (if \<not> b then Some (True, st1)
     else if a < car_depth st then do {
       let sv3 = assert_formula sv2 (cnf_clause [lit_not (literal_of (Variable n) False)]);
       let (f, store) = clausify_frame_negation store1 cs;
       inductive_levels E (st1\<lparr>car_store := store\<rparr>) (assert_formula sv3 f) [Suc a..<Suc (car_depth st)] }
     else inductive_levels E st1 sv2 [Suc a..<Suc (car_depth st)])"
    unfolding list using al
    by (simp add: m(1) lv st1_def [symmetric] cs_def [symmetric] sv1_def [symmetric] q Let_def
        del: lit_not_literal_of upt_Suc) (simp add: st1_def cs_def [symmetric] m(1) lv Let_def sv1_def [symmetric] q
        del: lit_not_literal_of upt_Suc)
  show ?case
  proof (cases b)
    case False
    then have "\<not> novel_frames sys st a (Suc (car_depth st))"
      using query(4) a(2) fr by (auto simp: U_def novel_frames_def intro!: exI [of _ a])
    then show ?thesis
      using False m(2) unfolding unfold
      by (auto simp: inductive_result_def st1_def n_def [symmetric] intro: exI [of _ store1])
  next
    case True
    then have novel: "\<not> car_frame sys st a \<subseteq> frames_below sys st a" using query(4) fr by (simp add: U_def)
    have onward: "runs (inductive_levels E (st\<lparr>car_store := store\<rparr>) sv [Suc a..<Suc (car_depth st)]) (inductive_result sys st a)"
      if s: "n \<le> get_next_id store"
        and ck': "a < car_depth st \<Longrightarrow> checker_ok sys (get_next_id store) sv (frames_below sys st (Suc a))" for store sv
    proof -
      have "runs (inductive_levels E (st\<lparr>car_store := store\<rparr>) sv [Suc a..<Suc (car_depth (st\<lparr>car_store := store\<rparr>))])
          (inductive_result sys (st\<lparr>car_store := store\<rparr>) (Suc a))"
        by (rule Suc.hyps(1))
          (use Suc.hyps(2) a s ck' car_inv_store [OF inv, of store] in \<open>simp_all add: n_def frames_below_def\<close>)
      then have "runs (inductive_levels E (st\<lparr>car_store := store\<rparr>) sv [Suc a..<Suc (car_depth st)])
          (inductive_result sys (st\<lparr>car_store := store\<rparr>) (Suc a))"
        by (simp del: upt_Suc)
      then show ?thesis by (rule runs_mono) (use inductive_result_step [OF _ _ novel] s in \<open>simp add: n_def\<close>)
    qed
    show ?thesis
    proof (cases "a < car_depth st")
      case less: True
      obtain f store2 where f: "clausify_frame_negation store1 cs = (f, store2)" by (cases rule: prod.exhaust)
      note ext = checker_extend [OF ck n ok query(1-3) m(2) f]
      have "runs (inductive_levels E (st\<lparr>car_store := store2\<rparr>)
          (assert_formula (assert_formula sv2 (cnf_clause [lit_not (literal_of (Variable n) False)])) f)
          [Suc a..<Suc (car_depth st)]) (inductive_result sys st a)"
        by (rule onward) (use ext in \<open>simp_all add: frames_below_Suc fr U_def\<close>)
      then show ?thesis
        unfolding unfold using True less f by (simp add: st1_def del: upt_Suc lit_not_literal_of)
    next
      case False
      have "runs (inductive_levels E (st\<lparr>car_store := store1\<rparr>) sv2 [Suc a..<Suc (car_depth st)]) (inductive_result sys st a)"
        by (rule onward) (use m(2) False in simp_all)
      then show ?thesis unfolding unfold using True False by (simp add: st1_def del: upt_Suc)
    qed
  qed
qed

lemma checker_start:
  assumes "car_inv sys st"
  shows "checker_ok sys (get_next_id (car_store st)) (assert_formula new_solver (init_negated st)) (frames_below sys st 1)"
proof -
  have ps: "pdr_system sys" using car_inv_system [OF assms] by simp
  have tr: "car_trace sys st" using assms by (simp add: car_inv_def)
  have i: "idle new_solver" "added new_solver = []" by (simp_all add: idle_def asks_def new_solver_def)
  have neg: "init_negated st = negate (make_cube (init_lits sys))"
    using tr by (simp add: car_trace_def car_formulas_ok_def)
  note lits = init_lits_ok [OF ps]
  have sep: "separator \<notin> set (cube_literals (make_cube (init_lits sys)))"
    using lits(1) lits_over_sep by simp
  define f where "f = negate (make_cube (init_lits sys))"
  have add: "added (assert_formula new_solver f) = cnf_literals f" using i by simp
  have t: "terminated (cnf_literals f)" using sep by (simp add: f_def well_formed_cnf_def [symmetric])
  have sat: "stream_sat \<sigma> (cnf_literals f) \<longleftrightarrow> \<not> init_state sys (read (state_vars sys) \<sigma>)" for \<sigma>
  proof -
    have "stream_sat \<sigma> (cnf_literals f) \<longleftrightarrow> \<not> cube_true \<sigma> (make_cube (init_lits sys))"
      using cnf_sat_negate [OF sep] by (simp add: f_def cnf_sat_def)
    also have "cube_true \<sigma> (make_cube (init_lits sys)) \<longleftrightarrow> holds_in sys (read (state_vars sys) \<sigma>) (init_lits sys)"
      using lits_true_read [OF lits(1)] by (simp add: cube_true_def)
    finally show ?thesis using init_state_lits [OF ps read_state_length] by simp
  qed
  have zero: "frames_below sys st 1 = {s. init_state sys s}"
  proof -
    have "blocked_at st 0 = {}" using tr by (auto simp: car_trace_def car_shape_def blocked_at_def)
    then show ?thesis using init_state_length [of sys] by (auto simp: frames_below_def car_frame_def)
  qed
  have fresh: "fresh_from sys (get_next_id (car_store st))" using tr by (simp add: car_trace_def car_activators_ok_def)
  show ?thesis
    unfolding checker_ok_def neg f_def [symmetric] add zero
  proof (intro conjI allI ballI impI)
    show "idle (assert_formula new_solver f)" using i by simp
    show "terminated (cnf_literals f)" by (rule t)
  next
    fix \<sigma> assume "stream_sat \<sigma> (cnf_literals f)"
    then show "read (state_vars sys) \<sigma> \<notin> {s. init_state sys s}" using sat by simp
  next
    fix s assume s: "s \<in> all_states sys - {s. init_state sys s}"
    define \<sigma> where "\<sigma> = put_range (state_vars sys) s (\<lambda>_. False)"
    have "read (state_vars sys) \<sigma> = s" using s by (simp add: \<sigma>_def all_states_def num_state_vars_def)
    then show "\<exists>\<sigma>. stream_sat \<sigma> (cnf_literals f) \<and> read (state_vars sys) \<sigma> = s" using s sat by blast
  next
    fix \<sigma> \<tau> assume old: "\<forall>v. var_id v < get_next_id (car_store st) \<longrightarrow> \<tau> v = \<sigma> v"
      and s: "stream_sat \<sigma> (cnf_literals f)"
    show "stream_sat \<tau> (cnf_literals f)" using s read_below [OF fresh old] unfolding sat by simp
  qed
qed

lemma is_inductive_runs:
  assumes "car_inv sys st" and "sound_oracle (sat_solver E)" and "1 \<le> car_depth st"
  shows "runs (is_inductive E st) (inductive_result sys st 1)"
  using inductive_levels_runs [OF assms(1,2) _ _ checker_start [OF assms(1)]] assms(3)
  by (simp add: is_inductive_def assert_that_holds del: upt_Suc)

section \<open>The depth\<close>

lemma card_frames_below:
  assumes "novel_frames sys st 1 m" and "1 \<le> i" and "i \<le> m"
  shows "i \<le> Suc (card (frames_below sys st i))"
  using assms(2,3)
proof (induction i rule: dec_induct)
  case base
  then show ?case by simp
next
  case (step i)
  have fin: "finite (frames_below sys st (Suc i))" by (simp add: frames_below_def)
  have "\<not> car_frame sys st i \<subseteq> frames_below sys st i" using assms(1) step by (simp add: novel_frames_def)
  then have "frames_below sys st i \<subset> frames_below sys st (Suc i)" unfolding frames_below_Suc by blast
  then have "card (frames_below sys st i) < card (frames_below sys st (Suc i))" by (rule psubset_card_mono [OF fin])
  then show ?case using step by simp
qed

lemma novel_frames_depth:
  assumes "novel_frames sys st 1 (Suc (car_depth st))"
  shows "car_depth st \<le> 2 ^ num_state_vars sys"
proof -
  have "Suc (car_depth st) \<le> Suc (card (frames_below sys st (Suc (car_depth st))))"
    by (rule card_frames_below [OF assms]) simp_all
  also have "card (frames_below sys st (Suc (car_depth st))) \<le> card (all_states sys)"
    by (rule card_mono) (auto simp: frames_below_def car_frame_def)
  finally show ?thesis by (simp add: card_all_states)
qed

end
