(* ===== verification/CarCorrect.thy ===== *)
theory CarCorrect
  imports CarInductive
begin

text \<open>
  Total correctness of the forward CAR engine: on a well-formed functional system whose initial
  formula is a cube, with a store whose further variables are unused, \<open>run\<close> returns. It never
  fails an assertion, violates the solver's contract or leaves a vector, answers \<open>ok\<close> only for
  safe systems and gives a counterexample otherwise. Each round of the main loop adds a frame; the
  inductiveness check ends the loop before there are more frames than states.
\<close>

section \<open>The existing cotrace\<close>

text \<open>
  An obligation of the cotrace may be solved: at depth 0 it would have to contain an initial state,
  but the cotrace is empty then.
\<close>

definition cotrace_started :: "car \<Rightarrow> bool" where
  "cotrace_started st \<longleftrightarrow> 0 < car_depth st \<or> (\<forall>hs \<in> set (found_cubes st). hs = [])"

definition coframe_result :: "transition_system \<Rightarrow> nat \<Rightarrow> car \<Rightarrow> counterexample option \<times> car \<Rightarrow> bool" where
  "coframe_result sys j st r \<longleftrightarrow>
     (case fst r of
        Some cex \<Rightarrow> cex_ok sys cex
      | None \<Rightarrow> car_inv sys (snd r) \<and> car_shrunk sys j st (snd r))"

lemma coframe_result_step:
  "car_shrunk sys j st st' \<Longrightarrow> coframe_result sys j st' r \<Longrightarrow> coframe_result sys j st r"
  unfolding coframe_result_def by (auto intro: car_shrunk_trans split: option.splits)

lemma car_shrunk_colevel: "car_shrunk sys j st st' \<Longrightarrow> i \<le> j \<Longrightarrow> car_shrunk sys i st st'"
  by (auto simp: car_shrunk_def coframes_kept_def)

lemma car_shrunk_codepth: "car_shrunk sys j st st' \<Longrightarrow> codepth st \<le> codepth st'"
  by (simp add: car_shrunk_def coframes_kept_def codepth_def)

lemma check_coframe_runs:
  assumes "car_inv sys st" and so: "sound_oracle (sat_solver E)" and "\<forall>h \<in> set hs. cot_live (cotrace st) h"
    and "int j \<le> codepth st" and "hs = [] \<or> 0 < car_depth st"
  shows "runs (check_coframe E sys st hs j) (coframe_result sys j st)"
  using assms(1,3-5)
proof (induction hs arbitrary: st)
  case Nil
  then show ?case by (simp add: coframe_result_def)
next
  case (Cons h hs)
  have live: "cot_live (cotrace st) h" and d: "0 < car_depth st" using Cons.prems by simp_all
  obtain cex st1 where s: "car_solve_obligation E sys st (Car_obligation (car_depth st) j h) = Some (cex, st1)"
    "car_solved sys j st h (cex, st1)"
    using car_solve_obligation_runs [OF Cons.prems(1) so live Cons.prems(3)] d by (auto simp: runs_iff)
  show ?case
  proof (cases cex)
    case (Some c)
    then show ?thesis using s by (simp add: coframe_result_def car_solved_def)
  next
    case None
    then have s1: "car_inv sys st1" "car_shrunk sys j st st1" using s(2) by (auto simp: car_solved_def)
    have "runs (check_coframe E sys st1 hs j) (coframe_result sys j st1)"
    proof (rule Cons.IH [OF s1(1)])
      show "\<forall>h \<in> set hs. cot_live (cotrace st1) h"
        using Cons.prems(2) car_shrunk_lits [OF s1(2)] by simp
      show "int j \<le> codepth st1" using Cons.prems(3) car_shrunk_codepth [OF s1(2)] by simp
      show "hs = [] \<or> 0 < car_depth st1" using d s1(2) by (simp add: car_shrunk_def)
    qed
    then have "runs (check_coframe E sys st1 hs j) (coframe_result sys j st)"
      by (rule runs_mono) (rule coframe_result_step [OF s1(2)])
    then show ?thesis using s(1) None by simp
  qed
qed

lemma check_coframes_runs:
  assumes "car_inv sys st" and so: "sound_oracle (sat_solver E)" and "\<forall>j \<in> set js. int j \<le> codepth st"
    and "cotrace_started st"
  shows "runs (check_coframes E sys st js) (coframe_result sys 0 st)"
  using assms(1,3,4)
proof (induction js arbitrary: st)
  case Nil
  then show ?case by (simp add: coframe_result_def)
next
  case (Cons j js)
  have j: "int j \<le> codepth st" "j < length (found_cubes st)" using Cons.prems(2) by (auto simp: codepth_def)
  define hs where "hs = found_cubes st ! j"
  have mem: "hs \<in> set (found_cubes st)" using j(2) by (simp add: hs_def)
  have live: "\<forall>h \<in> set hs. cot_live (cotrace st) h"
    using Cons.prems(1) mem by (auto simp: car_inv_def coframes_ok_def)
  have d: "hs = [] \<or> 0 < car_depth st" using Cons.prems(3) mem by (auto simp: cotrace_started_def)
  obtain cex st1 where s: "check_coframe E sys st hs j = Some (cex, st1)" "coframe_result sys j st (cex, st1)"
    using check_coframe_runs [OF Cons.prems(1) so live j(1) d] by (auto simp: runs_iff)
  show ?case
  proof (cases cex)
    case (Some c)
    then show ?thesis using s j(2) by (simp add: coframe_result_def hs_def [symmetric])
  next
    case None
    then have s1: "car_inv sys st1" "car_shrunk sys j st st1" using s(2) by (auto simp: coframe_result_def)
    have st1: "cotrace_started st1"
    proof (cases "0 < car_depth st")
      case True
      then show ?thesis using s1(2) by (simp add: cotrace_started_def car_shrunk_def)
    next
      case False
      then have "hs = []" using d by simp
      then have "st1 = st" using s(1) by simp
      then show ?thesis using Cons.prems(3) by simp
    qed
    have "runs (check_coframes E sys st1 js) (coframe_result sys 0 st1)"
      by (rule Cons.IH [OF s1(1) _ st1]) (use Cons.prems(2) car_shrunk_codepth [OF s1(2)] in auto)
    then have "runs (check_coframes E sys st1 js) (coframe_result sys 0 st)"
      by (rule runs_mono) (rule coframe_result_step [OF car_shrunk_colevel [OF s1(2)]], simp_all)
    then show ?thesis using s(1) None j(2) by (simp add: hs_def)
  qed
qed

lemma check_existing_cotrace_runs:
  assumes "car_inv sys st" and "sound_oracle (sat_solver E)" and "cotrace_started st"
  shows "runs (check_existing_cotrace E sys st) (coframe_result sys 0 st)"
  unfolding check_existing_cotrace_def
  by (rule check_coframes_runs [OF assms(1,2) _ assms(3)]) auto

section \<open>New error states\<close>

definition error_states_result ::
  "transition_system \<Rightarrow> car \<Rightarrow> counterexample option \<times> car \<Rightarrow> bool" where
  "error_states_result sys st r \<longleftrightarrow>
     (case fst r of
        Some cex \<Rightarrow> cex_ok sys cex
      | None \<Rightarrow> car_inv sys (snd r) \<and> car_depth (snd r) = car_depth st \<and>
          (\<forall>s \<in> car_frame sys (snd r) (car_depth st). \<forall>i. \<not> error_state sys s i))"

lemma check_new_error_states_runs:
  assumes so: "sound_oracle (sat_solver E)" and "car_inv sys st"
  shows "runs (check_new_error_states E sys st) (error_states_result sys st)"
  using assms(2)
proof (induction "card (car_frame sys st (car_depth st))" arbitrary: st rule: less_induct)
  case less
  obtain r st1 where e: "get_error_state E sys st = Some (r, st1)" "car_error_result sys st (r, st1)"
    using get_error_state_runs [OF less.prems so] by (auto simp: runs_iff)
  then have s1: "car_inv sys st1" "quiet_step st st1" by (auto simp: car_error_result_def)
  note same = quiet_same [OF s1(2)]
  show ?case
  proof (cases r)
    case None
    then show ?thesis
      using e s1(1) same by (subst check_new_error_states.simps) (simp add: error_states_result_def car_error_result_def)
  next
    case (Some h)
    then obtain s where s: "cot_live (cotrace st1) h" "s \<in> car_frame sys st (car_depth st)"
      "holds_in sys s (bad_lits st1 h)" using e(2) by (auto simp: car_error_result_def)
    have co: "int 0 \<le> codepth st1" using s1(1) by (cases "found_cubes st1") (auto simp: car_inv_def coframes_ok_def codepth_def)
    have init: "\<exists>s. init_state sys s \<and> holds_in sys s (bad_lits st1 h)" if "car_depth st1 = 0"
      using that s(2,3) same(3) by (auto simp: car_frame_def)
    obtain cex st2 where o: "car_solve_obligation E sys st1 (Car_obligation (car_depth st1) 0 h) = Some (cex, st2)"
      "car_solved sys 0 st1 h (cex, st2)"
      using car_solve_obligation_runs [OF s1(1) so s(1) co init] by (auto simp: runs_iff)
    show ?thesis
    proof (cases cex)
      case (Some c)
      then show ?thesis
        using e(1) \<open>r = Some h\<close> o by (subst check_new_error_states.simps) (simp add: error_states_result_def car_solved_def)
    next
      case None
      then have s2: "car_inv sys st2" "car_shrunk sys 0 st1 st2" "car_free sys st2 (car_depth st1) (bad_lits st1 h)"
        using o(2) by (auto simp: car_solved_def)
      have dep: "car_depth st2 = car_depth st" using s2(2) same(3) by (simp add: car_shrunk_def)
      have "car_frame sys st2 (car_depth st) \<subset> car_frame sys st (car_depth st)"
        using s2(2,3) s(2,3) same(2,3) by (auto simp: car_shrunk_def car_free_def)
      then have "card (car_frame sys st2 (car_depth st2)) < card (car_frame sys st (car_depth st))"
        unfolding dep by (rule psubset_card_mono [rotated]) simp
      from less.hyps [OF this s2(1)]
      have "runs (check_new_error_states E sys st2) (error_states_result sys st)"
        by (rule runs_mono) (simp add: error_states_result_def dep split: option.splits)
      then show ?thesis using e(1) \<open>r = Some h\<close> o(1) None by (subst check_new_error_states.simps) simp
    qed
  qed
qed

section \<open>The main loop\<close>

definition car_check_inv :: "transition_system \<Rightarrow> car \<Rightarrow> bool" where
  "car_check_inv sys st \<longleftrightarrow> car_inv sys st \<and> cotrace_started st \<and> car_depth st \<le> 2 ^ num_state_vars sys"

lemma car_check_runs:
  assumes so: "sound_oracle (sat_solver E)" and "car_check_inv sys st"
  shows "runs (car_check E sys st) (\<lambda>r. check_result sys (fst r))"
  using assms(2)
proof (induction "2 ^ num_state_vars sys + 1 - car_depth st" arbitrary: st rule: less_induct)
  case less
  have inv: "car_inv sys st" "cotrace_started st" and d: "car_depth st \<le> 2 ^ num_state_vars sys"
    using less.prems by (auto simp: car_check_inv_def)
  obtain cex1 st1 where c1: "check_existing_cotrace E sys st = Some (cex1, st1)" "coframe_result sys 0 st (cex1, st1)"
    using check_existing_cotrace_runs [OF inv(1) so inv(2)] by (auto simp: runs_iff)
  show ?case
  proof (cases cex1)
    case (Some c)
    then show ?thesis using c1 by (subst car_check.simps) (simp add: coframe_result_def check_result_def)
  next
    case None1: None
    then have s1: "car_inv sys st1" "car_depth st1 = car_depth st"
      using c1(2) by (auto simp: coframe_result_def car_shrunk_def)
    obtain cex2 st2 where c2: "check_new_error_states E sys st1 = Some (cex2, st2)" "error_states_result sys st1 (cex2, st2)"
      using check_new_error_states_runs [OF so s1(1)] by (auto simp: runs_iff)
    show ?thesis
    proof (cases cex2)
      case (Some c)
      then show ?thesis
        using c1(1) None1 c2 by (subst car_check.simps) (simp add: error_states_result_def check_result_def)
    next
      case None2: None
      then have s2: "car_inv sys st2" "car_depth st2 = car_depth st"
        "\<forall>s \<in> car_frame sys st2 (car_depth st2). \<forall>i. \<not> error_state sys s i"
        using c2(2) s1(2) by (auto simp: error_states_result_def)
      obtain st3 where p: "car_push_frame (debug_build E) st2 = Some st3" "car_inv sys st3"
        "car_depth st3 = Suc (car_depth st)" "car_blocked_cubes st3 = car_blocked_cubes st2 @ [[]]"
        using car_push_frame_runs [OF s2(1,3), of "debug_build E"] s2(2) by (auto simp: runs_iff)
      have "car_blocked_cubes st3 ! car_depth st3 = []" using p(4) by (simp add: car_depth_def)
      then obtain b4 st4 where pr: "car_propagate E sys st3 = Some (b4, st4)" "car_propagate_result sys st3 (b4, st4)"
        using car_propagate_runs [OF p(2) so] by (auto simp: runs_iff)
      then have s4: "car_inv sys st4" "car_depth st4 = Suc (car_depth st)"
        using p(3) by (auto simp: car_propagate_result_def)
      show ?thesis
      proof (cases b4)
        case True
        then show ?thesis
          using c1(1) None1 c2(1) None2 p(1) pr
          by (subst car_check.simps) (simp add: car_propagate_result_def check_result_def)
      next
        case nb4: False
        obtain b5 st5 where i: "is_inductive E st4 = Some (b5, st5)" "inductive_result sys st4 1 (b5, st5)"
          using is_inductive_runs [OF s4(1) so] s4(2) by (auto simp: runs_iff)
        show ?thesis
        proof (cases b5)
          case True
          then have "safe sys" using i(2) not_novel_safe [OF s4(1)] by (simp add: inductive_result_def)
          then show ?thesis
            using c1(1) None1 c2(1) None2 p(1) pr(1) nb4 i(1) True
            by (subst car_check.simps) (simp add: check_result_def)
        next
          case nb5: False
          obtain store where st5: "st5 = st4\<lparr>car_store := store\<rparr>" "get_next_id (car_store st4) \<le> get_next_id store"
            "novel_frames sys st4 1 (Suc (car_depth st4))"
            using i(2) nb5 by (auto simp: inductive_result_def)
          have dep: "car_depth st5 = Suc (car_depth st)" "car_depth st5 \<le> 2 ^ num_state_vars sys"
            using st5(1) s4(2) novel_frames_depth [OF st5(3)] by simp_all
          have "car_check_inv sys st5"
            using car_inv_store [OF s4(1) st5(2)] dep st5(1) by (simp add: car_check_inv_def cotrace_started_def)
          moreover have "2 ^ num_state_vars sys + 1 - car_depth st5 < 2 ^ num_state_vars sys + 1 - car_depth st"
            using dep d by simp
          ultimately have "runs (car_check E sys st5) (\<lambda>r. check_result sys (fst r))" by (intro less.hyps)
          then show ?thesis
            using c1(1) None1 c2(1) None2 p(1) pr(1) nb4 i(1) nb5 by (subst car_check.simps) simp
        qed
      qed
    qed
  qed
qed

section \<open>A run\<close>

definition car_ready :: "transition_system \<Rightarrow> car \<Rightarrow> bool" where
  "car_ready sys eng \<longleftrightarrow>
     fresh_from sys (get_next_id (car_store eng)) \<and>
     activator_ok sys (get_next_id (car_store eng)) (car_transition_activator eng) \<and>
     activator_ok sys (get_next_id (car_store eng)) (car_error_activator eng) \<and>
     lit_var (car_transition_activator eng) \<noteq> lit_var (car_error_activator eng) \<and>
     car_blocked_cubes eng = [] \<and> car_activators eng = [] \<and> found_cubes eng = [] \<and> car_queries eng = 0 \<and>
     idle (car_solver eng) \<and> ct_entries (cotrace eng) = [] \<and> car_forward eng"

lemma forward_car_sel:
  "car_transition_activator (forward_car_new opts store) = literal_of (Variable (get_next_id store)) False"
  "car_error_activator (forward_car_new opts store) = literal_of (Variable (get_next_id store + 1)) False"
  "get_next_id (car_store (forward_car_new opts store)) = get_next_id store + 2"
  by (simp_all add: forward_car_new_def car_new_def store_make_def Let_def get_next_id_def)

lemma forward_car_ready:
  assumes "0 < get_next_id store0" and "get_next_id store0 + 2 \<le> n" and "n = get_next_id store1" and "fresh_from sys n"
    and "\<not> system_var sys (Variable (get_next_id store0))" and "\<not> system_var sys (Variable (get_next_id store0 + 1))"
  shows "car_ready sys ((forward_car_new opts store0)\<lparr>car_store := store1\<rparr>)"
proof -
  define eng where "eng = forward_car_new opts store0"
  have eng: "car_blocked_cubes eng = []" "car_activators eng = []" "found_cubes eng = []" "car_queries eng = 0"
    "idle (car_solver eng)" "ct_entries (cotrace eng) = []" "car_forward eng"
    by (simp_all add: eng_def forward_car_new_def car_new_def store_make_def Let_def idle_def asks_def new_solver_def)
  have act: "car_transition_activator eng = literal_of (Variable (get_next_id store0)) False"
    "car_error_activator eng = literal_of (Variable (get_next_id store0 + 1)) False"
    by (simp_all add: eng_def forward_car_sel)
  show ?thesis
    using assms eng unfolding eng_def [symmetric] by (simp add: car_ready_def activator_ok_def act)
qed

lemma car_ready_before:
  assumes "store_names store0 \<noteq> []" and "get_next_id store0 + 2 \<le> get_next_id store1"
    and "\<And>v. system_var sys v \<Longrightarrow> get_next_id store0 + 2 \<le> var_id v \<and> var_id v < get_next_id store1"
  shows "car_ready sys ((forward_car_new opts store0)\<lparr>car_store := store1\<rparr>)"
  by (rule forward_car_ready [OF _ assms(2) refl])
    (use assms in \<open>force simp: get_next_id_def fresh_from_def\<close>)+

lemma car_ready_after: "store_ok sys store \<Longrightarrow> car_ready sys (forward_car_new opts store)"
proof -
  assume s: "store_ok sys store"
  then have n: "0 < get_next_id store" "fresh_from sys (get_next_id store)" by (auto simp: store_ok_def get_next_id_def)
  define eng where "eng = forward_car_new opts store"
  have id: "get_next_id (car_store eng) = get_next_id store + 2" by (simp add: eng_def forward_car_sel)
  have "car_ready sys (eng\<lparr>car_store := car_store eng\<rparr>)"
    unfolding eng_def by (rule forward_car_ready [OF n(1) _ refl])
      (use n(2) id in \<open>force simp: fresh_from_def eng_def\<close>)+
  then show ?thesis by (simp add: eng_def)
qed

lemma car_initialize_runs:
  assumes ps: "pdr_system sys" and ready: "car_ready sys eng"
  shows "runs (car_initialize d sys eng) (car_check_inv sys)"
proof -
  define n where "n = get_next_id (car_store eng)"
  have eng: "fresh_from sys n" "activator_ok sys n (car_transition_activator eng)"
    "activator_ok sys n (car_error_activator eng)"
    "lit_var (car_transition_activator eng) \<noteq> lit_var (car_error_activator eng)"
    "car_blocked_cubes eng = []" "car_activators eng = []" "found_cubes eng = []" "car_queries eng = 0"
    "idle (car_solver eng)" "ct_entries (cotrace eng) = []" "car_forward eng"
    using ready by (auto simp: car_ready_def n_def)
  have n0: "0 < n"
    using eng(2) lit_var_pos [of "car_transition_activator eng"] unfolding activator_ok_def by linarith
  define act where "act = literal_of (Variable n) False"
  define name where "name = ''Act['' @ int_to_string (int (car_depth (eng\<lparr>car_blocked_cubes := [[]]\<rparr>)) + 1) @ '']''"
  define store' where "store' = snd (store_make (car_store eng) name)"
  have sm: "store_make (car_store eng) name = (Variable n, store')"
    by (simp add: prod_eq_iff store'_def n_def)
  define st1 where "st1 = eng\<lparr>car_blocked_cubes := [[]], car_store := store', car_activators := [act]\<rparr>"
  have pf: "car_push_frame d eng = Some st1"
    using eng(5,6) sm by (simp add: car_push_frame_def st1_def act_def name_def assert_that_holds)
  define st where "st = st1\<lparr>found_cubes := [[]], car_activated_init := activate (ts_init sys) (lit_var act),
      car_activated_trans := activate (ts_trans sys) (lit_var (car_transition_activator eng)),
      car_activated_error := activate (ts_error sys) (lit_var (car_error_activator eng)),
      init_negated := negate (make_cube (init_lits sys))\<rparr>"
  have "unit_stream (cnf_literals (ts_init sys))" using ps by (simp add: pdr_system_def init_is_cube_def)
  then have fc: "formula_as_cube d (ts_init sys) = Some (make_cube (init_lits sys))"
    by (simp add: formula_as_cube_unit init_lits_def)
  have run: "car_initialize d sys eng = Some st"
    using fc eng(7,11) by (simp add: car_initialize_def pf) (simp add: st1_def st_def push_coframe_def)
  have nv: "\<not> system_var sys (Variable n)" using eng(1) by (force simp: fresh_from_def)
  have ids: "get_next_id (car_store st) = n + 1" by (simp add: st_def st1_def store'_def n_def)
  have all: "car_all_activators st = [car_transition_activator eng, car_error_activator eng, act]"
    by (simp add: car_all_activators_def st_def st1_def)
  have av: "lit_var act = Variable n" using n0 by (simp add: act_def)
  have "car_activators_ok sys st"
    unfolding car_activators_ok_def ids all
  proof (intro conjI ballI)
    show "fresh_from sys (n + 1)" using eng(1) by (force simp: fresh_from_def)
    have "activator_ok sys (n + 1) act" using n0 nv by (simp add: activator_ok_def act_def)
    then show "activator_ok sys (n + 1) l"
      if "l \<in> set [car_transition_activator eng, car_error_activator eng, act]" for l
      using that eng(2,3) by (auto simp: activator_ok_def)
    show "distinct (map lit_var [car_transition_activator eng, car_error_activator eng, act])"
      using eng(2-4) av by (auto simp: activator_ok_def)
  qed
  moreover have "car_formulas_ok sys st" by (simp add: car_formulas_ok_def st_def st1_def)
  moreover have "car_shape sys st" using eng(11) by (simp add: car_shape_def st_def st1_def)
  moreover have d0: "car_depth st = 0" by (simp add: car_depth_def st_def st1_def)
  ultimately have "car_trace sys st" using ps by (simp add: car_trace_def)
  moreover have "car_solver_ok sys st" using eng(8,9) by (simp add: car_solver_ok_def st_def st1_def)
  moreover have "cotrace_ok sys (cotrace st)"
    using eng(10) by (simp add: cotrace_ok_def cotraces.linked_def st_def st1_def cot_live_def)
  moreover have "coframes_ok st" by (simp add: coframes_ok_def st_def)
  moreover have "cotrace_started st" by (simp add: cotrace_started_def st_def)
  ultimately have "car_check_inv sys st" using d0 by (simp add: car_check_inv_def car_inv_def)
  then show ?thesis by (simp add: run)
qed

lemma car_run_runs:
  assumes so: "sound_oracle (sat_solver E)" and ps: "pdr_system sys" and ready: "car_ready sys eng"
  shows "runs (car_run E sys eng) (check_result sys)"
proof -
  obtain st where st: "car_initialize (debug_build E) sys eng = Some st" "car_check_inv sys st"
    using car_initialize_runs [OF ps ready, of "debug_build E"] by (auto simp: runs_iff)
  obtain res st' where "car_check E sys st = Some (res, st')" "check_result sys res"
    using car_check_runs [OF so st(2)] by (auto simp: runs_iff)
  then show ?thesis using st(1) by (simp add: car_run_def)
qed

end
