(* ===== verification/CarProperties.thy ===== *)
theory CarProperties
  imports CarExamples CarCorrect PdrProperties
begin

text \<open>
  The properties of the CAR engines.
\<close>

section \<open>The formulas that are built\<close>

text \<open>C31. \<open>clausify_frame_negation\<close>, with which the inductiveness check excludes a frame, builds an exact
  negation: an assignment of the variables that exist before extends to a model of the formula exactly
  when some cube of the frame is true.\<close>

theorem frame_negation:
  assumes "0 < get_next_id st" and "\<forall>c \<in> set cs. separator \<notin> set (cube_literals c) \<and> lits_below st (cube_literals c)"
  shows "(\<exists>\<tau>. (\<forall>v. var_id v < get_next_id st \<longrightarrow> \<tau> v = \<sigma> v) \<and> cnf_sat \<tau> (fst (clausify_frame_negation st cs))) \<longleftrightarrow>
    (\<exists>c \<in> set cs. cube_true \<sigma> c)"
  by (rule frame_negation_exact [OF assms])

theorem frame_negation_witness:
  "\<not> (\<exists>\<tau>. (\<forall>v. var_id v < 4 \<longrightarrow> \<tau> v = (v = Variable 1)) \<and>
      cnf_sat \<tau> (fst (clausify_frame_negation example_store [make_cube [Literal 1, Literal 2]])))"
proof -
  have id: "get_next_id example_store = 4" by (simp add: example_store_def get_next_id_def)
  have c: "\<forall>c \<in> set [make_cube [Literal 1, Literal 2]].
      separator \<notin> set (cube_literals c) \<and> lits_below example_store (cube_literals c)"
    by (auto simp: lits_below_def id separator_def lit_var_def)
  have "\<not> cube_true (\<lambda>v. v = Variable 1) (make_cube [Literal 1, Literal 2])"
    by (simp add: lit_true_def lit_var_def lit_sign_def)
  then show ?thesis
    using frame_negation [OF _ c, of "\<lambda>v. v = Variable 1"] by (simp add: id)
qed

text \<open>C33. \<open>negate_cnf\<close>, with which the backward engine negates the error formula, does not: a formula that is
  not empty ends with a separator, \<open>std::views::split\<close> then yields an empty last clause, whose variable
  is forced to be false, and every assignment extends to a model of the "negation".\<close>

theorem negation_always_satisfiable:
  assumes "0 < get_next_id st" and "well_formed_cnf f" and "cnf_literals f \<noteq> []" and "lits_below st (cnf_literals f)"
  shows "\<exists>\<tau>. (\<forall>v. var_id v < get_next_id st \<longrightarrow> \<tau> v = \<sigma> v) \<and> cnf_sat \<tau> (fst (negate_cnf st f))"
  by (rule negation_vacuous [OF assms])

theorem negation_always_satisfiable_witness:
  "cnf_sat (\<lambda>_. True) (Cnf [Literal 2, Literal 0]) \<and>
   (\<exists>\<tau>. \<tau> (Variable 2) \<and> cnf_sat \<tau> (fst (negate_cnf example_store (Cnf [Literal 2, Literal 0]))))"
proof -
  have id: "get_next_id example_store = 4" by (simp add: example_store_def get_next_id_def)
  have "lits_below example_store (cnf_literals (Cnf [Literal 2, Literal 0]))" "well_formed_cnf (Cnf [Literal 2, Literal 0])"
    by (auto simp: lits_below_def id separator_def lit_var_def well_formed_cnf_def terminated_def)
  then have "\<exists>\<tau>. (\<forall>v. var_id v < 4 \<longrightarrow> \<tau> v = True) \<and> cnf_sat \<tau> (fst (negate_cnf example_store (Cnf [Literal 2, Literal 0])))"
    using negation_always_satisfiable [of example_store "Cnf [Literal 2, Literal 0]" "\<lambda>_. True"] by (simp add: id)
  moreover have "cnf_sat (\<lambda>_. True) (Cnf [Literal 2, Literal 0])"
    by (simp add: cnf_sat_def stream_sat_def clauses_of_def separator_def clause_true_def lit_true_def lit_sign_def)
  moreover have "var_id (Variable 2) < 4" by simp
  ultimately show ?thesis by metis
qed

section \<open>The backward engine\<close>

text \<open>C32. \<open>reverse_system\<close> reverses every transition under its input, starts in the error states and has the
  initial states as errors.\<close>

theorem reversal_exact:
  assumes "well_formed_system sys"
  shows "\<exists>r. reverse_system d sys = Some r \<and>
    (\<forall>s i t. trans_step r s i t \<longleftrightarrow> trans_step sys t i s) \<and>
    (\<forall>s. init_state r s \<longleftrightarrow> (\<exists>i. error_state sys s i)) \<and>
    (\<forall>s i. error_state r s i \<longleftrightarrow> init_state sys s \<and> length i = num_input_vars sys)"
  using reverse_system_runs [OF assms, of d] by blast

theorem reversal_exact_witness:
  "\<exists>r. reverse_system True late_system = Some r \<and> trans_step r [True] [True] [False] \<and> init_state r [True]"
  using reversal_exact [of late_system True] by (auto simp: late_step example_step late_error)

text \<open>C34. Reversing each formula is not enough: the error formula, now the initial one, shares its inputs and
  gates with the transition relation of the first backward step. On a system with the error trace
  \<open>true, false\<close> whose last input differs from the one before, the backward engine, run with a sound
  solver, answers that the system is safe.\<close>

theorem backward_car_misses_error:
  "well_formed_system late_system \<and> init_is_cube late_system \<and> functional_system late_system \<and>
   \<not> safe late_system \<and> sound_oracle (sat_solver example_env) \<and>
   backward_car_run example_env late_system (backward_car_new (car_example_opts ''bcar'') example_store) = Some Ok"
  using late_unsafe late_backward_run by simp

section \<open>Example states of the forward engine\<close>

text \<open>The engine after \<open>initialize\<close> and one \<open>push_frame\<close>, and after a cube is blocked at level 1.\<close>

definition start_car :: "transition_system \<Rightarrow> car" where
  "start_car sys = the (car_initialize True sys (forward_car_new (car_example_opts ''car'') example_store))"

definition pushed_car :: "transition_system \<Rightarrow> car" where
  "pushed_car sys = the (car_push_frame True (start_car sys))"

definition blocked_car :: car where
  "blocked_car = the (car_add_blocked_at True hold_system (pushed_car hold_system) (make_cube [Literal 2]) 1)"

lemma example_car_ready [simp]:
  "car_ready hold_system (forward_car_new opts example_store)" "car_ready load_system (forward_car_new opts example_store)"
  by (simp_all add: car_ready_after)

lemma start_car_inv:
  assumes "pdr_system sys" and "store_ok sys example_store"
  shows "car_inv sys (start_car sys)" and "car_blocked_cubes (start_car sys) = [[]]" and "car_depth (start_car sys) = 0"
proof -
  obtain st where st: "car_initialize True sys (forward_car_new (car_example_opts ''car'') example_store) = Some st"
    "car_check_inv sys st"
    using car_initialize_runs [OF assms(1) car_ready_after [OF assms(2)], of True] by (auto simp: runs_iff)
  have "unit_stream (cnf_literals (ts_init sys))" using assms(1) by (simp add: pdr_system_def init_is_cube_def)
  then have "car_blocked_cubes st = [[]]"
    using st(1)
    by (auto simp: car_initialize_def car_push_frame_def forward_car_new_def car_new_def store_make_def Let_def
        formula_as_cube_unit push_coframe_def)
  then show "car_inv sys (start_car sys)" "car_blocked_cubes (start_car sys) = [[]]" "car_depth (start_car sys) = 0"
    using st by (simp_all add: start_car_def car_check_inv_def car_depth_def)
qed

lemma pushed_car_inv:
  assumes "pdr_system sys" and "store_ok sys example_store" and "\<forall>s i. init_state sys s \<longrightarrow> \<not> error_state sys s i"
  shows "car_inv sys (pushed_car sys)" and "car_depth (pushed_car sys) = 1"
    and "car_frame sys (pushed_car sys) 0 = {s. init_state sys s}"
    and "car_frame sys (pushed_car sys) 1 = all_states sys"
proof -
  note t = start_car_inv [OF assms(1,2)]
  have "\<forall>s \<in> car_frame sys (start_car sys) (car_depth (start_car sys)). \<forall>i. \<not> error_state sys s i"
    using t(3) assms(3) by (auto simp: car_frame_def)
  then obtain st where st: "car_push_frame True (start_car sys) = Some st" "car_inv sys st" "car_depth st = 1"
    "car_blocked_cubes st = [[], []]"
    using car_push_frame_runs [OF t(1), of True] t(2,3) by (auto simp: runs_iff)
  then show "car_inv sys (pushed_car sys)" "car_depth (pushed_car sys) = 1"
    "car_frame sys (pushed_car sys) 0 = {s. init_state sys s}" "car_frame sys (pushed_car sys) 1 = all_states sys"
    using init_state_length [of sys] by (auto simp: pushed_car_def car_frame_def blocked_at_def)
qed

lemma example_car:
  "car_inv hold_system (pushed_car hold_system)" "car_depth (pushed_car hold_system) = 1"
  "car_frame hold_system (pushed_car hold_system) 0 = {[False]}"
  "car_frame hold_system (pushed_car hold_system) (Suc 0) = {[False], [True]}"
  "car_inv load_system (pushed_car load_system)" "car_depth (pushed_car load_system) = 1"
  "car_frame load_system (pushed_car load_system) 0 = {[False]}"
  "car_frame load_system (pushed_car load_system) (Suc 0) = {[False], [True]}"
  using pushed_car_inv [OF example_pdr_system(1) example_store_ok(1)]
    pushed_car_inv [OF example_pdr_system(2) example_store_ok(2)]
  by (simp_all add: example_init example_error)

lemma single_cube [simp]: "cube_literals (make_cube [l]) = [l]"
  by (simp add: make_cube_def)

lemma blocked_car_ok:
  "car_inv hold_system blocked_car" "car_depth blocked_car = 1"
  "car_frame hold_system blocked_car 0 = {[False]}" "car_frame hold_system blocked_car (Suc 0) = {[False]}"
proof -
  have c: "cti_cube_ok hold_system (make_cube [Literal 2])"
    by (auto simp: cti_cube_ok_def intro: bexI [of _ "[True]"])
  have un: "unreached hold_system (pushed_car hold_system) (1 - 1) (cube_literals (make_cube [Literal 2]))"
    by (auto simp: unreached_def example_car example_step)
  have one: "1 \<le> (1 :: nat)" "1 \<le> car_depth (pushed_car hold_system)" by (simp_all add: example_car(2))
  obtain st where st: "car_add_blocked_at True hold_system (pushed_car hold_system) (make_cube [Literal 2]) 1 = Some st"
    "car_block_result hold_system (pushed_car hold_system) (make_cube [Literal 2]) 1 st"
    using car_add_blocked_at_runs [OF example_car(1) c one un, of True] unfolding runs_iff by blast
  have b: "blocked_car = st" by (simp only: blocked_car_def st(1) option.sel)
  have "car_frame hold_system st (Suc 0) = {s \<in> {[False], [True]}. \<not> holds_in hold_system s [Literal 2]}"
    using st(2) unfolding car_block_result_def example_car(4) [symmetric] single_cube by simp
  also have "\<dots> = {[False]}" by auto
  finally have f1: "car_frame hold_system st (Suc 0) = {[False]}" .
  have "car_frame hold_system st 0 = car_frame hold_system (pushed_car hold_system) 0"
    using st(2) unfolding car_block_result_def by simp
  then have f0: "car_frame hold_system st 0 = {[False]}" by (simp only: example_car(3))
  show "car_frame hold_system blocked_car 0 = {[False]}" "car_frame hold_system blocked_car (Suc 0) = {[False]}"
    by (simp_all only: b f0 f1)
  show "car_inv hold_system blocked_car" "car_depth blocked_car = 1"
    using st(2) unfolding car_block_result_def b by (simp_all add: example_car(2))
qed

text \<open>The engine after \<open>get_error_state\<close> has found the error state of the last frame, and the handle.\<close>

definition bad_of :: "transition_system \<Rightarrow> car \<Rightarrow> bad_cube_handle" where
  "bad_of sys st = the (fst (the (get_error_state example_env sys st)))"

definition with_bad :: "transition_system \<Rightarrow> car \<Rightarrow> car" where
  "with_bad sys st = snd (the (get_error_state example_env sys st))"

lemma with_bad_ok:
  assumes inv: "car_inv sys st" and e: "s \<in> car_frame sys st (car_depth st)" "error_state sys s i"
  shows "car_inv sys (with_bad sys st)" and "cot_live (cotrace (with_bad sys st)) (bad_of sys st)"
    and "car_depth (with_bad sys st) = car_depth st"
proof -
  obtain c st' where r: "get_error_state example_env sys st = Some (c, st')" "car_error_result sys st (c, st')"
    using get_error_state_runs [OF inv example_oracle] by (auto simp: runs_iff)
  then obtain h where "c = Some h" using e by (cases c) (auto simp: car_error_result_def)
  with r show "car_inv sys (with_bad sys st)" "cot_live (cotrace (with_bad sys st)) (bad_of sys st)"
    "car_depth (with_bad sys st) = car_depth st"
    by (simp_all add: car_error_result_def with_bad_def bad_of_def quiet_same)
qed

section \<open>The forward engine\<close>

text \<open>C3. Forward CAR decides safety. On a well-formed functional system whose initial formula is a cube,
  with a new engine object whose activators and next variables are not the system's, and any sound solver,
  \<open>run\<close> returns, in a debug build too; its result is \<open>ok\<close> exactly when no error is reachable, and
  otherwise a counterexample whose inputs lead from an initial state (and from the reported state) into
  an error.\<close>

theorem forward_car_decides_safety:
  assumes "sound_oracle (sat_solver E)" and "pdr_system sys" and "car_ready sys eng"
  shows "\<exists>r. car_run E sys eng = Some r \<and> (r = Ok \<longleftrightarrow> safe sys) \<and>
    (r \<noteq> Ok \<longrightarrow> (\<exists>cex. r = Cex cex \<and> cex_inputs_valid sys cex))"
proof -
  obtain r where r: "car_run E sys eng = Some r" "check_result sys r"
    using car_run_runs [OF assms] by (auto simp: runs_iff)
  then have "(r = Ok \<longleftrightarrow> safe sys) \<and> (r \<noteq> Ok \<longrightarrow> (\<exists>cex. r = Cex cex \<and> cex_inputs_valid sys cex))"
    by (cases r) (auto simp: check_result_def cex_ok_def dest: cex_inputs_unsafe)
  with r(1) show ?thesis by blast
qed

theorem forward_car_decides_safety_witness:
  "car_run example_env hold_system (forward_car_new (car_example_opts ''car'') example_store) = Some Ok \<and>
   (\<exists>cex. car_run example_env load_system (forward_car_new (car_example_opts ''car'') example_store) = Some (Cex cex) \<and>
      cex_inputs_valid load_system cex)"
  using forward_car_decides_safety [OF example_oracle example_pdr_system(1) example_car_ready(1)] hold_safe
    forward_car_decides_safety [OF example_oracle example_pdr_system(2) example_car_ready(2)] load_unsafe
  by auto

text \<open>C14. \<open>is_inductive\<close> decides whether some frame lies inside the union of the earlier ones: it returns
  true exactly when one does, which makes the system safe; otherwise there are at most as many frames as
  states. It keeps the trace, and makes variables only.\<close>

theorem inductiveness_check:
  assumes "car_inv sys st" and "sound_oracle (sat_solver E)" and "1 \<le> car_depth st"
  shows "\<exists>b store. is_inductive E st = Some (b, st\<lparr>car_store := store\<rparr>) \<and> car_inv sys (st\<lparr>car_store := store\<rparr>) \<and>
    (b \<longleftrightarrow> (\<exists>i. 1 \<le> i \<and> i \<le> car_depth st \<and> car_frame sys st i \<subseteq> (\<Union>k < i. car_frame sys st k))) \<and>
    (b \<longrightarrow> safe sys) \<and> (\<not> b \<longrightarrow> car_depth st \<le> 2 ^ num_state_vars sys)"
proof -
  obtain b store where r: "is_inductive E st = Some (b, st\<lparr>car_store := store\<rparr>)"
    "get_next_id (car_store st) \<le> get_next_id store" "b \<longleftrightarrow> \<not> novel_frames sys st 1 (Suc (car_depth st))"
    using is_inductive_runs [OF assms] by (auto simp: runs_iff inductive_result_def)
  have "b \<longrightarrow> safe sys" "\<not> b \<longrightarrow> car_depth st \<le> 2 ^ num_state_vars sys"
    using r(3) not_novel_safe [OF assms(1)] novel_frames_depth by blast+
  moreover have "b \<longleftrightarrow> (\<exists>i. 1 \<le> i \<and> i \<le> car_depth st \<and> car_frame sys st i \<subseteq> (\<Union>k < i. car_frame sys st k))"
    unfolding r(3) novel_frames_def frames_below_def by (auto simp: less_Suc_eq_le)
  ultimately show ?thesis using r(1) car_inv_store [OF assms(1) r(2)] by blast
qed

theorem inductiveness_check_witness:
  "(\<exists>st'. is_inductive example_env blocked_car = Some (True, st')) \<and>
   (\<exists>st'. is_inductive example_env (pushed_car hold_system) = Some (False, st'))"
proof -
  have 1: "car_frame hold_system blocked_car 1 \<subseteq> (\<Union>k < 1. car_frame hold_system blocked_car k)"
    by (simp add: blocked_car_ok lessThan_Suc)
  have 2: "\<not> car_frame hold_system (pushed_car hold_system) i \<subseteq> (\<Union>k < i. car_frame hold_system (pushed_car hold_system) k)"
    if "1 \<le> i" "i \<le> 1" for i
  proof -
    have "i = Suc 0" using that by simp
    then show ?thesis by (simp add: example_car lessThan_Suc)
  qed
  have d: "1 \<le> car_depth blocked_car" "1 \<le> car_depth (pushed_car hold_system)"
    by (simp_all add: blocked_car_ok(2) example_car(2))
  obtain b store where b: "is_inductive example_env blocked_car = Some (b, blocked_car\<lparr>car_store := store\<rparr>)"
    "b \<longleftrightarrow> (\<exists>i. 1 \<le> i \<and> i \<le> car_depth blocked_car \<and>
      car_frame hold_system blocked_car i \<subseteq> (\<Union>k < i. car_frame hold_system blocked_car k))"
    using inductiveness_check [OF blocked_car_ok(1) example_oracle d(1)] by - (elim exE conjE, rule that, assumption+)
  obtain b' store' where b': "is_inductive example_env (pushed_car hold_system) =
      Some (b', pushed_car hold_system\<lparr>car_store := store'\<rparr>)"
    "b' \<longleftrightarrow> (\<exists>i. 1 \<le> i \<and> i \<le> car_depth (pushed_car hold_system) \<and>
      car_frame hold_system (pushed_car hold_system) i \<subseteq> (\<Union>k < i. car_frame hold_system (pushed_car hold_system) k))"
    using inductiveness_check [OF example_car(1) example_oracle d(2)] by - (elim exE conjE, rule that, assumption+)
  have "b" unfolding b(2) using 1 d(1) by (intro exI [of _ 1]) simp
  moreover have "\<not> b'"
  proof
    assume "b'"
    then obtain i where "1 \<le> i" "i \<le> car_depth (pushed_car hold_system)"
      "car_frame hold_system (pushed_car hold_system) i \<subseteq> (\<Union>k < i. car_frame hold_system (pushed_car hold_system) k)"
      unfolding b'(2) by - (elim exE conjE, rule that, assumption+)
    then show False using 2 [of i] unfolding example_car(2) by blast
  qed
  ultimately show ?thesis using b(1) b'(1) by auto
qed

text \<open>C13. Blocking a cube of the cotrace at the last level either finds a counterexample or removes every
  state of the cube from the last frame; the loop over obligations ends. The coframes up to the
  cube's own level stay as they are, so the iterators that \<open>check_existing_cotrace\<close> holds remain valid.\<close>

theorem cotrace_obligation_loop:
  assumes "car_inv sys st" and "sound_oracle (sat_solver E)" and "cot_live (cotrace st) h" and "int j \<le> codepth st"
    and "car_depth st = 0 \<Longrightarrow> \<exists>s. init_state sys s \<and> holds_in sys s (bad_lits st h)"
  shows "\<exists>c st'. car_solve_obligation E sys st (Car_obligation (car_depth st) j h) = Some (c, st') \<and>
    (case c of
       Some cex \<Rightarrow> cex_inputs_valid sys cex
     | None \<Rightarrow> car_inv sys st' \<and> car_depth st' = car_depth st \<and>
         car_frame sys st' (car_depth st) \<subseteq> {s \<in> car_frame sys st (car_depth st). \<not> holds_in sys s (bad_lits st h)} \<and>
         take (Suc j) (found_cubes st') = take (Suc j) (found_cubes st))"
proof -
  obtain c st' where r: "car_solve_obligation E sys st (Car_obligation (car_depth st) j h) = Some (c, st')"
    "car_solved sys j st h (c, st')"
    using car_solve_obligation_runs [OF assms] by (auto simp: runs_iff)
  have "take (Suc j) (found_cubes st') = take (Suc j) (found_cubes st)" if "coframes_kept j st st'"
    using that assms(4) by (intro nth_equalityI) (auto simp: coframes_kept_def codepth_def)
  then show ?thesis
    using r by (cases c) (auto simp: car_solved_def cex_ok_def car_shrunk_def car_free_def)
qed

theorem cotrace_obligation_loop_witness:
  "\<exists>c st'. car_solve_obligation example_env hold_system (with_bad hold_system (pushed_car hold_system))
     (Car_obligation 1 0 (bad_of hold_system (pushed_car hold_system))) = Some (c, st')"
proof -
  have e: "[True] \<in> car_frame hold_system (pushed_car hold_system) (car_depth (pushed_car hold_system))"
    by (simp add: example_car)
  note b = with_bad_ok [OF example_car(1) e error_inputs(1)]
  have "int 0 \<le> codepth (with_bad hold_system (pushed_car hold_system))"
    using b(1) by (cases "found_cubes (with_bad hold_system (pushed_car hold_system))")
      (auto simp: car_inv_def coframes_ok_def codepth_def)
  from cotrace_obligation_loop [OF b(1) example_oracle b(2) this] show ?thesis
    by (simp add: b(3) example_car) blast
qed

end
