(* ===== verification/WitnessWriter.thy ===== *)
theory WitnessWriter
  imports Engine
begin

text \<open>
  \<^verbatim>\<open>src/witness_writer.cpp\<close>: the result of an engine as a witness in the AIGER 1.9 format.
  \<open>read_witness\<close> is a reader of this format, written after its documentation; it returns the
  status and, for a counterexample, the bits of its rows.
\<close>

section \<open>The code\<close>

definition newline :: char where
  "newline = CHR 0x0A"

definition property_name :: string where
  "property_name = ''b0''"

definition row :: "valuation \<Rightarrow> string" where
  "row val = foldl (\<lambda>res lit. res @ [if lit_sign lit then CHR ''1'' else CHR ''0'']) [] val @ [newline]"

definition write_ok :: string where
  "write_ok = ''0'' @ [newline] @ property_name @ [newline] @ ''.'' @ [newline]"

definition write_unknown :: "string \<Rightarrow> string" where
  "write_unknown reason =
     ''2'' @ [newline] @ property_name @ [newline] @ ''c '' @ reason @ [newline] @ ''.'' @ [newline]"

definition write_counterexample :: "counterexample \<Rightarrow> string" where
  "write_counterexample cex =
     foldl (\<lambda>w i. w @ row i)
       ((''1'' @ [newline] @ property_name @ [newline]) @ row (initial_state cex)) (inputs cex) @
     ''.'' @ [newline]"

definition write_aiger_witness :: "result \<Rightarrow> string" where
  "write_aiger_witness res =
     (case res of Ok \<Rightarrow> write_ok | Unknown reason \<Rightarrow> write_unknown reason
      | Cex cex \<Rightarrow> write_counterexample cex)"

section \<open>A reader\<close>

datatype witness = Holds | Undecided | Violated "bool list list"

text \<open>The lines that end with a newline; what follows the last one is not a line.\<close>

fun lines_of :: "string \<Rightarrow> string \<Rightarrow> string list" where
  "lines_of cur [] = []"
| "lines_of cur (c # cs) = (if c = newline then cur # lines_of [] cs else lines_of (cur @ [c]) cs)"

definition read_bit :: "char \<Rightarrow> bool option" where
  "read_bit c = (if c = CHR ''1'' then Some True else if c = CHR ''0'' then Some False else None)"

fun read_rows :: "string list \<Rightarrow> bool list list option" where
  "read_rows [] = None"
| "read_rows (l # ls) =
     (if l = ''.'' then (if ls = [] then Some [] else None)
      else do {
        bits \<leftarrow> those (map read_bit l);
        rows \<leftarrow> read_rows ls;
        Some (bits # rows) })"

definition is_comment :: "string \<Rightarrow> bool" where
  "is_comment l \<longleftrightarrow> (case l of [] \<Rightarrow> False | c # _ \<Rightarrow> c = CHR ''c'')"

definition read_witness :: "string \<Rightarrow> witness option" where
  "read_witness s =
     (case lines_of [] s of
        status # prop # rest \<Rightarrow>
          if prop \<noteq> property_name then None
          else if status = ''0'' \<and> rest = [''.''] then Some Holds
          else if status = ''2'' \<and> filter (\<lambda>l. \<not> is_comment l) rest = [''.''] then Some Undecided
          else if status = ''1'' then map_option Violated (read_rows rest)
          else None
      | _ \<Rightarrow> None)"

section \<open>Reading what is written\<close>

lemma row_eq: "row val = map (\<lambda>lit. if lit_sign lit then CHR ''1'' else CHR ''0'') val @ [newline]"
proof -
  have "foldl (\<lambda>res lit. res @ [if lit_sign lit then CHR ''1'' else CHR ''0'']) res val =
      res @ map (\<lambda>lit. if lit_sign lit then CHR ''1'' else CHR ''0'') val" for res
    by (induction val arbitrary: res) simp_all
  then show ?thesis by (simp add: row_def)
qed

lemma foldl_rows: "foldl (\<lambda>w i. w @ row i) w is = w @ concat (map row is)"
  by (induction "is" arbitrary: w) simp_all

lemma lines_of_line:
  "newline \<notin> set l \<Longrightarrow> lines_of cur (l @ newline # rest) = (cur @ l) # lines_of [] rest"
  by (induction l arbitrary: cur) auto

definition row_text :: "valuation \<Rightarrow> string" where
  "row_text val = map (\<lambda>lit. if lit_sign lit then CHR ''1'' else CHR ''0'') val"

lemma row_text_facts:
  "newline \<notin> set (row_text val)" "row_text val \<noteq> ''.''" "those (map read_bit (row_text val)) = Some (row_values val)"
proof -
  show "newline \<notin> set (row_text val)" by (auto simp: row_text_def newline_def)
  show "row_text val \<noteq> ''.''" by (cases val) (auto simp: row_text_def)
  show "those (map read_bit (row_text val)) = Some (row_values val)"
    by (induction val) (simp_all add: row_text_def row_values_def read_bit_def)
qed

lemma lines_of_rows:
  "lines_of [] (concat (map row vals) @ rest) = map row_text vals @ lines_of [] rest"
  by (induction vals) (simp_all add: row_eq lines_of_line row_text_facts(1) flip: row_text_def)

lemma read_rows_text: "read_rows (map row_text vals @ [''.'']) = Some (map row_values vals)"
  by (induction vals) (simp_all add: row_text_facts)

lemma header_lines:
  "newline \<notin> set status \<Longrightarrow>
   lines_of [] (status @ [newline] @ property_name @ [newline] @ rest) = status # property_name # lines_of [] rest"
proof -
  assume "newline \<notin> set status"
  moreover have "newline \<notin> set property_name" by (simp add: property_name_def newline_def)
  ultimately show ?thesis by (simp add: lines_of_line)
qed

lemma final_line: "lines_of [] (''.'' @ [newline]) = [''.'']"
  by (simp add: newline_def)

lemma read_counterexample:
  "read_witness (write_counterexample cex) = Some (Violated (map row_values (initial_state cex # inputs cex)))"
proof -
  have "write_counterexample cex = ''1'' @ [newline] @ property_name @ [newline] @
      (concat (map row (initial_state cex # inputs cex)) @ ''.'' @ [newline])"
    by (simp add: write_counterexample_def foldl_rows)
  moreover have "newline \<notin> set ''1''" by (simp add: newline_def)
  ultimately have "lines_of [] (write_counterexample cex) =
      ''1'' # property_name # map row_text (initial_state cex # inputs cex) @ [''.'']"
    by (simp only: header_lines lines_of_rows final_line not_False_eq_True)
  then show ?thesis by (simp only: read_witness_def) (simp add: read_rows_text row_text_facts)
qed

lemma read_ok: "read_witness write_ok = Some Holds"
  by (simp add: write_ok_def read_witness_def property_name_def newline_def)

lemma read_unknown:
  assumes "newline \<notin> set reason"
  shows "read_witness (write_unknown reason) = Some Undecided"
proof -
  have "write_unknown reason = ''2'' @ [newline] @ property_name @ [newline] @
      ((''c '' @ reason) @ newline # (''.'' @ [newline]))"
    by (simp add: write_unknown_def)
  moreover have "newline \<notin> set ''2''" "newline \<notin> set (''c '' @ reason)" using assms by (simp_all add: newline_def)
  ultimately have "lines_of [] (write_unknown reason) = [''2'', property_name, ''c '' @ reason, ''.'']"
    by (simp only: header_lines lines_of_line final_line append_Nil not_False_eq_True)
  then show ?thesis by (simp add: read_witness_def is_comment_def)
qed

end
