(* ===== verification/Driver.thy ===== *)
theory Driver
  imports Pdr Bmc Car WitnessWriter AigerBuilder AigerReader
begin

text \<open>
  \<^verbatim>\<open>src/main.cpp\<close>, \<^verbatim>\<open>src/logger.hpp\<close> and \<^verbatim>\<open>src/caiger.hpp\<close>: the command line driver. Its outcome is the
  exit code with what it prints; the lines the engines log are not part of it, they appear with a
  verbosity above \<open>Silent\<close> only. The engine is made before the transition system is built, and
  both share one variable store, which an engine object has as a field: it is updated when the
  builder has made its variables.
\<close>

section \<open>The logger\<close>

definition logger_log :: "verbosity_level \<Rightarrow> verbosity_level \<Rightarrow> string \<Rightarrow> string" where
  "logger_log verbosity1 least_level text1 = (if least_level \<le> verbosity1 then text1 else [])"

definition log_loud :: "verbosity_level \<Rightarrow> string \<Rightarrow> string" where
  "log_loud verbosity1 text1 = logger_log verbosity1 Loud text1"

definition log_debug :: "verbosity_level \<Rightarrow> string \<Rightarrow> string" where
  "log_debug verbosity1 text1 = logger_log verbosity1 Debug text1"

definition log_line :: "verbosity_level \<Rightarrow> verbosity_level \<Rightarrow> string \<Rightarrow> string" where
  "log_line verbosity1 least_level text1 = (if least_level \<le> verbosity1 then text1 @ [newline] else [])"

definition log_line_loud :: "verbosity_level \<Rightarrow> string \<Rightarrow> string" where
  "log_line_loud verbosity1 text1 = log_line verbosity1 Loud text1"

definition log_line_debug :: "verbosity_level \<Rightarrow> string \<Rightarrow> string" where
  "log_line_debug verbosity1 text1 = log_line verbosity1 Debug text1"

section \<open>The graph\<close>

definition make_aiger :: aiger where
  "make_aiger = aiger_init"

section \<open>Engines\<close>

datatype engine =
    Bmc_engine options bmc
  | Pdr_engine pdr
  | Forward_car car
  | Backward_car car

definition get_engine :: "options \<Rightarrow> variable_store \<Rightarrow> engine option" where
  "get_engine opts store =
     (if engine_name opts = ''bmc'' then Some (Bmc_engine opts (bmc_new store))
      else if engine_name opts = ''pdr'' then Some (Pdr_engine (pdr_new store))
      else if engine_name opts = ''car'' \<or> engine_name opts = ''fcar''
        then Some (Forward_car (forward_car_new opts store))
      else if engine_name opts = ''bcar'' then Some (Backward_car (backward_car_new opts store))
      else None)"

text \<open>The store an engine refers to.\<close>

fun engine_store :: "engine \<Rightarrow> variable_store" where
  "engine_store (Bmc_engine opts b) = bmc_store b"
| "engine_store (Pdr_engine p) = pdr_store p"
| "engine_store (Forward_car c) = car_store c"
| "engine_store (Backward_car c) = car_store c"

fun set_engine_store :: "variable_store \<Rightarrow> engine \<Rightarrow> engine" where
  "set_engine_store s (Bmc_engine opts b) = Bmc_engine opts (b\<lparr>bmc_store := s\<rparr>)"
| "set_engine_store s (Pdr_engine p) = Pdr_engine (p\<lparr>pdr_store := s\<rparr>)"
| "set_engine_store s (Forward_car c) = Forward_car (c\<lparr>car_store := s\<rparr>)"
| "set_engine_store s (Backward_car c) = Backward_car (c\<lparr>car_store := s\<rparr>)"

text \<open>The virtual function \<open>run\<close>.\<close>

fun engine_run :: "environment \<Rightarrow> transition_system \<Rightarrow> engine \<Rightarrow> result option" where
  "engine_run E sys (Bmc_engine opts b) = bmc_run E opts sys b"
| "engine_run E sys (Pdr_engine p) = pdr_run E sys p"
| "engine_run E sys (Forward_car c) = car_run E sys c"
| "engine_run E sys (Backward_car c) = backward_car_run E sys c"

section \<open>The program\<close>

definition unlines :: "string list \<Rightarrow> string" where
  "unlines ls = concat (map (\<lambda>l. l @ [newline]) ls)"

definition help_text :: string where
  "help_text = unlines [
     ''Geyser symbolic model checker'',
     ''Usage: run-geyser -e=<engine> [-v | --verbose] [arguments] <input.aig>'',
     '''',
     ''The following engines are available:'',
     ''  * bmc  - simple bounded model checking'',
     ''  * pdr  - property directed reachability'',
     ''  * car  - complementary approximate reachability'',
     ''  * bcar - backward variant of CAR'',
     '''',
     ''Further arguments may be passed to the various engines:'',
     ''  * bmc'',
     ''    * -k=<bound> to limit bmc depth'',
     ''  * pdr - no options at the moment'',
     ''  * car'',
     ''    * --no-propagate-cores - make propagation work as in PDR instead of'',
     ''      propagating unsat cores'',
     ''    * --repush - after blocking a proof obligation, try to return to it'',
     ''      again in the next frame (as in PDR)'']"

record outcome =
  exit_code :: int
  cout_text :: string
  cerr_text :: string

definition error_text :: "string \<Rightarrow> string" where
  "error_text msg = ''error: '' @ msg @ [newline]"

definition run_loaded :: "environment \<Rightarrow> options \<Rightarrow> aiger \<Rightarrow> outcome option" where
  "run_loaded E opts g =
     (let log = log_loud (verbosity opts);
          loaded = log ''Loading aig from file... '' @ log (''OK'' @ [newline]) @ log ''Loading the engine... ''
      in case get_engine opts new_store of
           None \<Rightarrow>
             Some \<lparr>exit_code = 1, cout_text = loaded,
                   cerr_text = error_text (''no engine named '' @ engine_name opts)\<rparr>
         | Some engine \<Rightarrow> do {
             let ready = loaded @ log (''OK'' @ [newline]) @ log ''Building the transition system... '';
             (sys, store) \<leftarrow> build_from_aiger (debug_build E) (engine_store engine) g;
             (case sys of
                Inl msg \<Rightarrow> Some \<lparr>exit_code = 1, cout_text = ready, cerr_text = error_text msg\<rparr>
              | Inr sys \<Rightarrow> do {
                  res \<leftarrow> engine_run E sys (set_engine_store store engine);
                  Some \<lparr>exit_code = 0,
                    cout_text = ready @ log (''OK'' @ [newline]) @ log (''Running...'' @ [newline, newline]) @
                      log ([newline] @ ''Finished'' @ [newline]) @
                      log (''Printing the witness to stdout...'' @ [newline, newline]) @
                      write_aiger_witness res,
                    cerr_text = []\<rparr> }) })"

definition main_program :: "environment \<Rightarrow> surroundings \<Rightarrow> string list \<Rightarrow> outcome option" where
  "main_program E io args = do {
     opts \<leftarrow> parse_cli args;
     (case opts of
        Inl msg \<Rightarrow>
          Some \<lparr>exit_code = 1, cout_text = help_text, cerr_text = error_text msg @ [newline]\<rparr>
      | Inr opts \<Rightarrow>
          if help_requested opts
          then Some \<lparr>exit_code = 0, cout_text = help_text, cerr_text = []\<rparr>
          else do {
            g \<leftarrow> aiger_open_and_read_from_file (debug_build E) io make_aiger (input_file opts);
            (case aig_error g of
               Some msg \<Rightarrow>
                 Some \<lparr>exit_code = 1, cout_text = log_loud (verbosity opts) ''Loading aig from file... '',
                       cerr_text = error_text msg\<rparr>
             | None \<Rightarrow> run_loaded E opts g) }) }"

end
