(* ===== verification/DriverCorrect.thy ===== *)
theory DriverCorrect
  imports Driver CarCorrect BmcCorrect BuilderAccept
begin

text \<open>
  From a graph to the witness that is printed. The engines are used through one contract,
  \<open>model_checker\<close>: an engine made on a store and run on a system whose variables the builder took
  from the same store later returns an answer that is sound for the system. PDR, forward CAR and
  BMC provide it; the driver's verdict on a graph is derived from it once.
\<close>

section \<open>Safety of a graph\<close>

fun aig_path :: "aiger \<Rightarrow> bool list \<Rightarrow> bool list list \<Rightarrow> bool list \<Rightarrow> bool" where
  "aig_path g s [] t = (s = t)"
| "aig_path g s (i # is) t = (\<exists>u. aig_step g s i u \<and> aig_path g u is t)"

definition aig_error_trace :: "aiger \<Rightarrow> bool list \<Rightarrow> bool list list \<Rightarrow> bool" where
  "aig_error_trace g s is \<longleftrightarrow> is \<noteq> [] \<and> (\<exists>t. aig_path g s (butlast is) t \<and> aig_raises g t (last is))"

definition graph_safe :: "aiger \<Rightarrow> bool" where
  "graph_safe g \<longleftrightarrow> (\<forall>s is. aig_init g s \<longrightarrow> \<not> aig_error_trace g s is)"

text \<open>
  What the rows of a witness claim. The first row is an initial state when no latch has reset
  value 1; the inputs lead into an error from it and from an initial state in any case.
\<close>

definition graph_counterexample :: "aiger \<Rightarrow> bool list list \<Rightarrow> bool" where
  "graph_counterexample g rows \<longleftrightarrow>
     (\<exists>s0 is. rows = s0 # is \<and> aig_error_trace g s0 is \<and> (\<exists>s. aig_init g s \<and> aig_error_trace g s is) \<and>
        ((\<forall>l \<in> set (aig_latches g). sym_reset l \<noteq> 1) \<longrightarrow> aig_init g s0))"

definition graph_verdict :: "aiger \<Rightarrow> witness \<Rightarrow> bool" where
  "graph_verdict g w \<longleftrightarrow>
     (case w of Holds \<Rightarrow> graph_safe g | Undecided \<Rightarrow> True | Violated rows \<Rightarrow> graph_counterexample g rows)"

definition witness_of :: "result \<Rightarrow> witness" where
  "witness_of res =
     (case res of
        Ok \<Rightarrow> Holds | Unknown reason \<Rightarrow> Undecided
      | Cex cex \<Rightarrow> Violated (map row_values (initial_state cex # inputs cex)))"

lemma path_aig_path: "system_of g sys \<Longrightarrow> path sys s is t = aig_path g s is t"
  by (induction "is" arbitrary: s) (simp_all add: system_of_def)

lemma error_trace_aig: "system_of g sys \<Longrightarrow> error_trace sys s is = aig_error_trace g s is"
  by (simp add: error_trace_def aig_error_trace_def path_aig_path) (simp add: system_of_def)

lemma safe_graph_safe: "system_of g sys \<Longrightarrow> safe sys = graph_safe g"
  by (simp add: safe_def graph_safe_def error_trace_aig) (simp add: system_of_def)

text \<open>Without a latch of reset value 1 every literal of the initial formula is negative.\<close>

lemma no_reset_all_false:
  assumes sys: "system_of g sys" and no: "\<forall>l \<in> set (aig_latches g). sym_reset l \<noteq> 1"
  shows "init_all_false sys"
proof -
  define s where "s = replicate (length (aig_latches g)) False"
  have ps: "pdr_system sys" using sys by (simp add: pdr_system_def system_of_def)
  have "aig_init g s" using no by (simp add: aig_init_def s_def)
  then have i: "init_state sys s" using sys by (simp add: system_of_def)
  then have h: "holds_in sys s (init_lits sys)"
    using init_state_lits [OF ps init_state_length [OF i]] by simp
  have "\<not> lit_sign l" if l: "l \<in> set (init_lits sys)" for l
  proof -
    have "vr_contains (state_vars sys) (lit_var l)" using init_lits_ok(1) [OF ps] l by (simp add: lits_over_def)
    then have "nat (vr_offset (state_vars sys) (lit_var l)) < nat (vr_size (state_vars sys))"
      using vr_offset_bounds [of "state_vars sys" "lit_var l"] by simp
    moreover have "nat (vr_size (state_vars sys)) = length (aig_latches g)"
      using sys by (simp add: system_of_def num_state_vars_def)
    moreover have "lit_holds (state_vars sys) s l" using h l by (simp add: lits_hold_def)
    ultimately show ?thesis by (simp add: lit_holds_def s_def)
  qed
  then show ?thesis by (simp add: init_all_false_def)
qed

section \<open>Sound results\<close>

definition result_sound :: "transition_system \<Rightarrow> result \<Rightarrow> bool" where
  "result_sound sys res \<longleftrightarrow>
     (case res of Ok \<Rightarrow> safe sys | Unknown reason \<Rightarrow> newline \<notin> set reason | Cex cex \<Rightarrow> cex_ok sys cex)"

lemma result_verdict:
  assumes sys: "system_of g sys" and r: "result_sound sys res"
  shows "graph_verdict g (witness_of res)"
    and "read_witness (write_aiger_witness res) = Some (witness_of res)"
proof -
  show "read_witness (write_aiger_witness res) = Some (witness_of res)"
    using r by (cases res) (simp_all add: result_sound_def witness_of_def write_aiger_witness_def
        read_ok read_unknown read_counterexample)
  show "graph_verdict g (witness_of res)"
  proof (cases res)
    case (Cex cex)
    then have c: "cex_inputs_valid sys cex" "init_all_false sys \<Longrightarrow> cex_valid sys cex"
      using r by (auto simp: result_sound_def cex_ok_def)
    have i: "aig_init g (row_values (initial_state cex))" if "\<forall>l \<in> set (aig_latches g). sym_reset l \<noteq> 1"
      using c(2) [OF no_reset_all_false [OF sys that]] sys by (simp add: cex_valid_def system_of_def)
    obtain s where "init_state sys s" "error_trace sys s (map row_values (inputs cex))"
      "error_trace sys (row_values (initial_state cex)) (map row_values (inputs cex))"
      using c(1) by (auto simp: cex_inputs_valid_def)
    then have "aig_init g s" "aig_error_trace g s (map row_values (inputs cex))"
      "aig_error_trace g (row_values (initial_state cex)) (map row_values (inputs cex))"
      using error_trace_aig [OF sys] sys by (simp_all add: system_of_def)
    then show ?thesis using i Cex by (auto simp: graph_verdict_def witness_of_def graph_counterexample_def)
  qed (use r safe_graph_safe [OF sys] in \<open>simp_all add: result_sound_def graph_verdict_def witness_of_def\<close>)
qed

section \<open>The contract of an engine\<close>

locale model_checker =
  fixes make :: "variable_store \<Rightarrow> 'e"
    and store_of :: "'e \<Rightarrow> variable_store"
    and with_store :: "variable_store \<Rightarrow> 'e \<Rightarrow> 'e"
    and run :: "environment \<Rightarrow> transition_system \<Rightarrow> 'e \<Rightarrow> result option"
    and allowed :: "environment \<Rightarrow> bool"
    and answers :: "transition_system \<Rightarrow> result \<Rightarrow> bool"
  assumes store_grows: "get_next_id s \<le> get_next_id (store_of (make s))"
    and run_answers: "allowed E \<Longrightarrow> pdr_system sys \<Longrightarrow> 0 < get_next_id s \<Longrightarrow>
      placed sys (get_next_id (store_of (make s))) (get_next_id s') \<Longrightarrow>
      runs (run E sys (with_store s' (make s))) (answers sys)"
    and answers_sound: "answers sys res \<Longrightarrow> result_sound sys res"
begin

lemma verdict:
  assumes "allowed E" and "0 < get_next_id s" and "aig_wf g"
    and "length (aig_outputs g) + length (aig_bad g) = 1"
    and "aig_fairness g = []" "aig_justice g = []" "aig_constraints g = []"
  shows "\<exists>sys s' res. build_from_aiger (debug_build E) (store_of (make s)) g = Some (Inr sys, s') \<and>
    run E sys (with_store s' (make s)) = Some res \<and> answers sys res \<and>
    graph_verdict g (witness_of res) \<and> read_witness (write_aiger_witness res) = Some (witness_of res)"
proof -
  have pos: "0 < get_next_id (store_of (make s))" using assms(2) store_grows [of s] by simp
  obtain sys s' where b: "build_from_aiger (debug_build E) (store_of (make s)) g = Some (Inr sys, s')"
    "system_of g sys" "placed sys (get_next_id (store_of (make s))) (get_next_id s')"
    using build_from_aiger_wf [OF pos assms(3-7)] by (fastforce simp: runs_iff)
  have "pdr_system sys" using b(2) by (simp add: pdr_system_def system_of_def)
  then obtain res where "run E sys (with_store s' (make s)) = Some res" "answers sys res"
    using run_answers [OF assms(1) _ assms(2) b(3)] by (auto simp: runs_iff)
  then show ?thesis using b(1) result_verdict [OF b(2) answers_sound] by blast
qed

end

section \<open>The engines keep it\<close>

lemma placed_vars:
  assumes "placed sys a b" and "system_var sys v"
  shows "a \<le> var_id v \<and> var_id v < b"
  using assms by (auto simp: placed_def system_var_def vr_contains_def)

lemma placed_grows: "placed sys a b \<Longrightarrow> a \<le> b"
  by (simp add: placed_def)

lemma store_nonempty: "0 < get_next_id s \<longleftrightarrow> store_names s \<noteq> []"
  by (simp add: get_next_id_def)

lemma check_result_sound: "check_result sys res \<Longrightarrow> result_sound sys res"
  by (cases res) (simp_all add: check_result_def result_sound_def)

lemma pdr_new_store: "get_next_id (pdr_store (pdr_new s)) = get_next_id s + 2"
  by (simp add: pdr_new_def store_make_def Let_def get_next_id_def)

interpretation pdr_checker: model_checker pdr_new pdr_store "\<lambda>s p. p\<lparr>pdr_store := s\<rparr>" pdr_run
  "\<lambda>E. sound_oracle (sat_solver E)" check_result
proof (unfold_locales, goal_cases)
  case (2 E sys s s')
  have "pdr_ready sys ((pdr_new s)\<lparr>pdr_store := s'\<rparr>)"
    by (rule pdr_ready_before)
      (use 2 placed_vars [OF 2(4)] placed_grows [OF 2(4)] in \<open>simp_all add: pdr_new_store store_nonempty\<close>)
  then show ?case by (rule pdr_run_runs [OF 2(1,2)])
qed (simp_all add: pdr_new_store check_result_sound)

interpretation car_checker: model_checker "forward_car_new opts" car_store "\<lambda>s c. c\<lparr>car_store := s\<rparr>" car_run
  "\<lambda>E. sound_oracle (sat_solver E)" check_result for opts
proof (unfold_locales, goal_cases)
  case (2 E sys s s')
  have "car_ready sys ((forward_car_new opts s)\<lparr>car_store := s'\<rparr>)"
    by (rule car_ready_before)
      (use 2 placed_vars [OF 2(4)] placed_grows [OF 2(4)] in \<open>simp_all add: forward_car_sel store_nonempty\<close>)
  then show ?case by (rule car_run_runs [OF 2(1,2)])
qed (simp_all add: forward_car_sel check_result_sound)

lemma newline_digits: "newline \<notin> set (int_to_string i)"
proof -
  have "\<not> is_digit newline" by (simp add: is_digit_def newline_def)
  then have "newline \<notin> set (nat_to_string n)" for n
    using nat_to_string_digits [of n] by (auto simp: list_all_iff)
  then show ?thesis by (simp add: int_to_string_def newline_def)
qed

lemma bmc_result_sound: "bmc_result_ok sys k res \<Longrightarrow> result_sound sys res"
  using newline_digits [of k]
  by (cases res) (auto simp: bmc_result_ok_def result_sound_def cex_ok_def cex_valid_inputs newline_def)

interpretation bmc_checker: model_checker bmc_new bmc_store "\<lambda>s b. b\<lparr>bmc_store := s\<rparr>"
  "\<lambda>E. bmc_run E opts"
  "\<lambda>E. sound_oracle (sat_solver E) \<and> (debug_build E \<longrightarrow> value_or opts ''-k'' int_max < 100)"
  "\<lambda>sys. bmc_result_ok sys (value_or opts ''-k'' int_max)" for opts
proof (unfold_locales, goal_cases)
  case (2 E sys s s')
  have "bmc_store_ok sys s'" using 2(3,4) by (simp add: bmc_store_ok_def placed_def bmc_new_def)
  moreover have "well_formed_system sys" using 2(2) by (simp add: pdr_system_def)
  moreover have "(bmc_new s)\<lparr>bmc_store := s'\<rparr> = bmc_new s'" by (simp add: bmc_new_def)
  ultimately show ?case using bmc_run_runs [of sys s' E opts] 2(1) by simp
qed (simp_all add: bmc_new_def bmc_result_sound)

section \<open>The program\<close>

text \<open>What the builder accepts.\<close>

definition accepted :: "aiger \<Rightarrow> bool" where
  "accepted g \<longleftrightarrow>
     aig_wf g \<and> length (aig_outputs g) + length (aig_bad g) = 1 \<and>
     aig_fairness g = [] \<and> aig_justice g = [] \<and> aig_constraints g = []"

text \<open>The engines that keep the contract, with what they need.\<close>

definition engine_allowed :: "environment \<Rightarrow> options \<Rightarrow> bool" where
  "engine_allowed E opts \<longleftrightarrow>
     sound_oracle (sat_solver E) \<and> engine_name opts \<in> {''pdr'', ''car'', ''fcar'', ''bmc''} \<and>
     (engine_name opts = ''bmc'' \<longrightarrow> debug_build E \<longrightarrow> value_or opts ''-k'' int_max < 100)"

lemma engine_verdict:
  assumes e: "engine_allowed E opts" and g: "accepted g"
  shows "\<exists>engine sys s' res. get_engine opts new_store = Some engine \<and>
    build_from_aiger (debug_build E) (engine_store engine) g = Some (Inr sys, s') \<and>
    engine_run E sys (set_engine_store s' engine) = Some res \<and>
    graph_verdict g (witness_of res) \<and> read_witness (write_aiger_witness res) = Some (witness_of res) \<and>
    (engine_name opts \<noteq> ''bmc'' \<longrightarrow> witness_of res \<noteq> Undecided)"
proof -
  have pos: "0 < get_next_id new_store" by (simp add: get_next_id_def new_store_def)
  have ga: "aig_wf g"
    "length (aig_outputs g) + length (aig_bad g) = 1"
    "aig_fairness g = []" "aig_justice g = []" "aig_constraints g = []" using g by (simp_all add: accepted_def)
  have so: "sound_oracle (sat_solver E)" using e by (simp add: engine_allowed_def)
  have decided: "witness_of res \<noteq> Undecided" if "check_result sys res" for sys res
    using that by (cases res) (simp_all add: check_result_def witness_of_def)
  consider (pdr) "engine_name opts = ''pdr''" | (car) "engine_name opts = ''car'' \<or> engine_name opts = ''fcar''"
    | (bmc) "engine_name opts = ''bmc''" using e by (auto simp: engine_allowed_def)
  then show ?thesis
  proof cases
    case pdr
    then have "get_engine opts new_store = Some (Pdr_engine (pdr_new new_store))" by (simp add: get_engine_def)
    then show ?thesis using pdr_checker.verdict [OF so pos ga] decided by fastforce
  next
    case car
    then have "get_engine opts new_store = Some (Forward_car (forward_car_new opts new_store))"
      by (auto simp: get_engine_def)
    then show ?thesis using car_checker.verdict [OF so pos ga, of opts] decided by fastforce
  next
    case bmc
    then have "get_engine opts new_store = Some (Bmc_engine opts (bmc_new new_store))" by (simp add: get_engine_def)
    moreover have "sound_oracle (sat_solver E) \<and> (debug_build E \<longrightarrow> value_or opts ''-k'' int_max < 100)"
      using e bmc by (simp add: engine_allowed_def)
    ultimately show ?thesis using bmc_checker.verdict [where E = E and opts = opts, OF _ pos ga] bmc by fastforce
  qed
qed

lemma log_silent: "log_loud Silent text1 = []"
  by (simp add: log_loud_def logger_log_def less_eq_verbosity_level_def)

lemma run_loaded_verdict:
  assumes "engine_allowed E opts" and "accepted g"
  shows "\<exists>out prefix text1 w. run_loaded E opts g = Some out \<and> exit_code out = 0 \<and> cerr_text out = [] \<and>
    cout_text out = prefix @ text1 \<and> (verbosity opts = Silent \<longrightarrow> prefix = []) \<and>
    read_witness text1 = Some w \<and> graph_verdict g w \<and> (engine_name opts \<noteq> ''bmc'' \<longrightarrow> w \<noteq> Undecided)"
proof -
  obtain engine sys s' res where r: "get_engine opts new_store = Some engine"
    "build_from_aiger (debug_build E) (engine_store engine) g = Some (Inr sys, s')"
    "engine_run E sys (set_engine_store s' engine) = Some res"
    "graph_verdict g (witness_of res)" "read_witness (write_aiger_witness res) = Some (witness_of res)"
    "engine_name opts \<noteq> ''bmc'' \<longrightarrow> witness_of res \<noteq> Undecided"
    using engine_verdict [OF assms] by blast
  define log where "log = log_loud (verbosity opts)"
  define prefix where "prefix = log ''Loading aig from file... '' @ log (''OK'' @ [newline]) @ log ''Loading the engine... '' @
    log (''OK'' @ [newline]) @ log ''Building the transition system... '' @ log (''OK'' @ [newline]) @
    log (''Running...'' @ [newline, newline]) @ log ([newline] @ ''Finished'' @ [newline]) @
    log (''Printing the witness to stdout...'' @ [newline, newline])"
  have "run_loaded E opts g = Some \<lparr>exit_code = 0, cout_text = prefix @ write_aiger_witness res, cerr_text = []\<rparr>"
    unfolding run_loaded_def Let_def log_def [symmetric] r(1) option.case r(2,3)
    by (simp add: r(2,3) prefix_def)
  moreover have "prefix = []" if "verbosity opts = Silent" using that by (simp add: prefix_def log_def log_silent)
  ultimately show ?thesis using r(4-6) by auto
qed

section \<open>Output before a failure\<close>

lemma log_loud_eq: "log_loud v text1 = (if v = Silent then [] else text1)"
  by (cases v) (simp_all add: log_loud_def logger_log_def less_eq_verbosity_level_def)

lemma read_help: "read_witness help_text = None"
  by code_simp

lemma read_early:
  "read_witness (log_loud v ''Loading aig from file... '') = None"
  "read_witness (log_loud v ''Loading aig from file... '' @ log_loud v (''OK'' @ [newline]) @
     log_loud v ''Loading the engine... '') = None"
  "read_witness ((log_loud v ''Loading aig from file... '' @ log_loud v (''OK'' @ [newline]) @
     log_loud v ''Loading the engine... '') @ log_loud v (''OK'' @ [newline]) @
     log_loud v ''Building the transition system... '') = None"
  by (simp_all add: log_loud_eq read_witness_def newline_def property_name_def)

lemma run_loaded_exit:
  assumes "run_loaded E opts g = Some out"
  shows "(exit_code out = 0 \<and> cerr_text out = [] \<or>
      exit_code out = 1 \<and> cerr_text out \<noteq> [] \<and> read_witness (cout_text out) = None) \<and>
    (exit_code out = 1 \<longleftrightarrow> get_engine opts new_store = None \<or>
      (\<exists>engine msg st. get_engine opts new_store = Some engine \<and>
        build_from_aiger (debug_build E) (engine_store engine) g = Some (Inl msg, st)))"
proof (cases "get_engine opts new_store")
  case None
  then show ?thesis using assms read_early [of "verbosity opts"] by (auto simp: run_loaded_def Let_def error_text_def)
next
  case (Some engine)
  then obtain r st where b: "build_from_aiger (debug_build E) (engine_store engine) g = Some (r, st)"
    using assms by (auto simp: run_loaded_def Let_def bind_eq_Some_conv)
  show ?thesis
  proof (cases r)
    case (Inl msg)
    then show ?thesis
      using assms Some b read_early [of "verbosity opts"] by (auto simp: run_loaded_def Let_def error_text_def)
  next
    case (Inr sys)
    then show ?thesis using assms Some b by (auto simp: run_loaded_def Let_def bind_eq_Some_conv)
  qed
qed

section \<open>Reading\<close>

text \<open>In a build with assertions a graph that was read without an error is well formed.\<close>

lemma opened_wf:
  assumes "aiger_open_and_read_from_file d io make_aiger file = Some g" and "aig_error g = None"
    and "d \<and> aig_maxvar g < 4294967295 \<or> aig_wf g"
  shows "aig_wf g"
proof (cases "aig_wf g")
  case False
  then have d: "d = True" "aig_maxvar g < 4294967295" using assms(3) by auto
  have "e \<noteq> None" if "aiger_error_s True aiger_init b s a = Some g" "e = aig_error g" for b s a e
    using that by (auto simp: aiger_error_s_def bind_eq_Some_conv)
  then obtain content where "aiger_read_generic True aiger_init content = Some g"
    using assms(1,2) d(1)
    by (fastforce simp: aiger_open_and_read_from_file_def make_aiger_def bind_eq_Some_conv split: if_splits option.splits)
  then show ?thesis by (rule reader_sound [OF _ assms(2) d(2)])
qed

end
