(* ===== verification/DriverProperties.thy ===== *)
theory DriverProperties
  imports DriverCorrect AigerProperties Examples
begin

text \<open>
  The properties of the program as a whole: what it prints for a graph, when it fails, and the
  format of its witnesses.
\<close>

section \<open>Instances\<close>

definition delay_io :: surroundings where
  "delay_io = \<lparr>file_content = (\<lambda>name. if name = ''m.aag'' then Some delay_text else None),
     command_output = (\<lambda>_. None)\<rparr>"

definition delay_opts :: "string \<Rightarrow> options" where
  "delay_opts name = \<lparr>help_requested = False, input_file = ''m.aag'', engine_name = name,
     verbosity = Silent, other_opts = []\<rparr>"

lemma delay_parse: "parse_cli [''-e=car'', ''m.aag''] = Some (Inr (delay_opts ''car''))"
proof -
  have ok: "options_ok (delay_opts ''car'')"
    by (simp add: options_ok_def delay_opts_def starts_with_dash_def)
  have "render_cli (delay_opts ''car'') = [''-e=car'', ''m.aag'']" by code_simp
  then show ?thesis using parse_render [OF ok] by simp
qed

lemma delay_read: "aiger_open_and_read_from_file d delay_io make_aiger ''m.aag'' = Some delay_graph"
proof -
  have "aig_error make_aiger = None" by (simp add: make_aiger_def aiger_init_def)
  then show ?thesis
    using read_delay [of d]
    by (simp add: aiger_open_and_read_from_file_def aiger_has_suffix_def delay_io_def assert_that_def make_aiger_def)
qed

lemma delay_unsafe: "\<not> graph_safe delay_graph"
proof -
  have "aig_error_trace delay_graph [False] [[True], [False]]"
    using delay_step delay_raises by (auto simp: aig_error_trace_def)
  moreover have "aig_init delay_graph [False]" by (simp add: aig_init_def)
  ultimately show ?thesis by (auto simp: graph_safe_def)
qed

section \<open>The verdict\<close>

text \<open>C1. The program decides the safety of the circuit it is given. When the command line names PDR or
  forward CAR and the file is read as a graph with one output (or bad state) and no justice, fairness or
  constraint, the program exits with 0 and its output ends with a witness (and is nothing
  else without \<open>-v\<close>) that says the circuit holds exactly when no input sequence from an initial state
  raises the error; otherwise the rows of the witness are a counterexample. BMC's witness is never wrong
  either, but may be undecided. Nothing more is asked of the file if a build with assertions reads it as well,
  which a release build then reads as the same graph; a file that only a release build reads has to give a
  well-formed graph.\<close>

theorem program_verdict:
  assumes "parse_cli args = Some (Inr opts)" and "\<not> help_requested opts"
    and "aiger_open_and_read_from_file (debug_build E) io make_aiger (input_file opts) = Some g"
    and "aig_error g = None"
    and "aiger_open_and_read_from_file True io make_aiger (input_file opts) = Some g \<and> aig_maxvar g < 4294967295 \<or> aig_wf g"
    and "supported g" and "engine_allowed E opts"
  shows "\<exists>out prefix text1 w. main_program E io args = Some out \<and> exit_code out = 0 \<and> cerr_text out = [] \<and>
    cout_text out = prefix @ text1 \<and> (verbosity opts = Silent \<longrightarrow> prefix = []) \<and> read_witness text1 = Some w \<and>
    (w = Holds \<longrightarrow> graph_safe g) \<and> (\<forall>rows. w = Violated rows \<longrightarrow> graph_counterexample g rows) \<and>
    (engine_name opts \<noteq> ''bmc'' \<longrightarrow> (if graph_safe g then w = Holds else \<exists>rows. w = Violated rows))"
proof -
  have "aig_wf g" using assms(5)
  proof
    assume "aiger_open_and_read_from_file True io make_aiger (input_file opts) = Some g \<and> aig_maxvar g < 4294967295"
    then show ?thesis using opened_wf [OF _ assms(4)] by blast
  qed
  then have acc: "accepted g" using assms(6) by (simp add: accepted_def supported_def)
  obtain out prefix text1 w where r: "run_loaded E opts g = Some out" "exit_code out = 0" "cerr_text out = []"
    "cout_text out = prefix @ text1" "verbosity opts = Silent \<longrightarrow> prefix = []" "read_witness text1 = Some w"
    "graph_verdict g w" "engine_name opts \<noteq> ''bmc'' \<longrightarrow> w \<noteq> Undecided"
    using run_loaded_verdict [OF assms(7) acc] by blast
  have "main_program E io args = Some out" by (simp add: main_program_def assms(1-4) r(1))
  moreover have "graph_safe g \<longrightarrow> \<not> graph_counterexample g rows" for rows
    by (auto simp: graph_safe_def graph_counterexample_def)
  ultimately show ?thesis
    using r(2-8) by (cases w) (auto simp: graph_verdict_def)
qed

theorem program_verdict_witness:
  "\<exists>out rows. main_program example_env delay_io [''-e=car'', ''m.aag''] = Some out \<and>
     read_witness (cout_text out) = Some (Violated rows) \<and> graph_counterexample delay_graph rows"
proof -
  have opts: "\<not> help_requested (delay_opts ''car'')" "input_file (delay_opts ''car'') = ''m.aag''"
    "verbosity (delay_opts ''car'') = Silent" "engine_name (delay_opts ''car'') = ''car''"
    "engine_allowed example_env (delay_opts ''car'')"
    by (simp_all add: delay_opts_def engine_allowed_def example_oracle)
  obtain out prefix text1 w where r: "main_program example_env delay_io [''-e=car'', ''m.aag''] = Some out"
    "cout_text out = prefix @ text1" "prefix = []" "read_witness text1 = Some w"
    "\<forall>rows. w = Violated rows \<longrightarrow> graph_counterexample delay_graph rows" "\<exists>rows. w = Violated rows"
    using program_verdict [OF delay_parse opts(1) _ _ _ delay_supported opts(5), of delay_io] opts delay_read delay_unsafe delay_wf
    by auto
  then show ?thesis by auto
qed

section \<open>Failures\<close>

text \<open>C19. The exit codes. The program exits with 0 or 1, and with 1 exactly when it prints a message on the
  standard error: when the command line is rejected, or help is not asked for and the file cannot be read,
  the engine does not exist or the builder rejects the graph. It never prints a witness then.\<close>

theorem exit_codes:
  assumes "main_program E io args = Some out"
  shows "exit_code out \<in> {0, 1} \<and> (exit_code out = 1 \<longleftrightarrow> cerr_text out \<noteq> []) \<and>
    (exit_code out = 1 \<longrightarrow> read_witness (cout_text out) = None) \<and>
    (exit_code out = 1 \<longleftrightarrow>
      (\<exists>msg. parse_cli args = Some (Inl msg)) \<or>
      (\<exists>opts g. parse_cli args = Some (Inr opts) \<and> \<not> help_requested opts \<and>
         aiger_open_and_read_from_file (debug_build E) io make_aiger (input_file opts) = Some g \<and>
         (aig_error g \<noteq> None \<or> get_engine opts new_store = None \<or>
          (\<exists>engine msg st. get_engine opts new_store = Some engine \<and>
             build_from_aiger (debug_build E) (engine_store engine) g = Some (Inl msg, st)))))"
proof -
  obtain r where p: "parse_cli args = Some r" using assms by (auto simp: main_program_def bind_eq_Some_conv)
  show ?thesis
  proof (cases r)
    case (Inl msg)
    then show ?thesis using assms p read_help by (auto simp: main_program_def error_text_def)
  next
    case (Inr opts)
    show ?thesis
    proof (cases "help_requested opts")
      case True
      then show ?thesis using assms p Inr by (auto simp: main_program_def)
    next
      case False
      then obtain g where g: "aiger_open_and_read_from_file (debug_build E) io make_aiger (input_file opts) = Some g"
        using assms p Inr by (auto simp: main_program_def bind_eq_Some_conv)
      show ?thesis
      proof (cases "aig_error g")
        case None
        then have "run_loaded E opts g = Some out" using assms p Inr False g by (simp add: main_program_def)
        from run_loaded_exit [OF this] show ?thesis using p Inr False g None by auto
      next
        case (Some msg)
        then show ?thesis
          using assms p Inr False g read_early(1) [of "verbosity opts"] by (auto simp: main_program_def error_text_def)
      qed
    qed
  qed
qed

theorem exit_codes_witness:
  "\<exists>out. main_program example_env delay_io [''-e=car'', ''missing.aag''] = Some out \<and> exit_code out = 1"
proof -
  have parse: "parse_cli [''-e=car'', ''missing.aag''] = Some (Inr ((delay_opts ''car'')\<lparr>input_file := ''missing.aag''\<rparr>))"
  proof -
    have ok: "options_ok ((delay_opts ''car'')\<lparr>input_file := ''missing.aag''\<rparr>)"
      by (simp add: options_ok_def delay_opts_def starts_with_dash_def)
    have "render_cli ((delay_opts ''car'')\<lparr>input_file := ''missing.aag''\<rparr>) = [''-e=car'', ''missing.aag'']" by code_simp
    then show ?thesis using parse_render [OF ok] by simp
  qed
  obtain g where g: "aiger_open_and_read_from_file (debug_build example_env) delay_io make_aiger ''missing.aag'' = Some g"
    "aig_error g \<noteq> None"
    by (auto simp: aiger_open_and_read_from_file_def aiger_has_suffix_def delay_io_def make_aiger_def aiger_init_def
        aiger_error_s_def assert_that_def)
  have "\<exists>out. main_program example_env delay_io [''-e=car'', ''missing.aag''] = Some out"
    using g by (auto simp: main_program_def parse delay_opts_def)
  then obtain out where out: "main_program example_env delay_io [''-e=car'', ''missing.aag''] = Some out" by blast
  have "exit_code out = 1"
    using exit_codes [OF out] parse g by (auto simp: delay_opts_def)
  with out show ?thesis by blast
qed

section \<open>Witnesses\<close>

text \<open>C15. What is written can be read back: the reader of the AIGER 1.9 witness format recovers the status
  and, for a counterexample, every row.\<close>

theorem witness_roundtrip:
  assumes "\<forall>reason. res = Unknown reason \<longrightarrow> newline \<notin> set reason"
  shows "read_witness (write_aiger_witness res) =
    Some (case res of
            Ok \<Rightarrow> Holds | Unknown reason \<Rightarrow> Undecided
          | Cex cex \<Rightarrow> Violated (map row_values (initial_state cex # inputs cex)))"
  using assms by (cases res) (simp_all add: write_aiger_witness_def read_ok read_unknown read_counterexample)

theorem witness_roundtrip_witness:
  "read_witness (write_aiger_witness
     (Cex \<lparr>initial_state = [Literal 2, Literal (- 3)], inputs = [[Literal 1], [Literal (- 1)]]\<rparr>)) =
   Some (Violated [[True, False], [True], [False]])"
  using witness_roundtrip [of "Cex \<lparr>initial_state = [Literal 2, Literal (- 3)], inputs = [[Literal 1], [Literal (- 1)]]\<rparr>"]
  by (simp add: row_values_def lit_sign_def)

end
